(* ===== verification/Prelude.thy ===== *)
theory Prelude
  imports Main "HOL-Library.Word" "HOL-Library.Monad_Syntax"
begin

text \<open>
  Shared vocabulary of the development: the machine integers of the 32-bit target
  (\<^verbatim>\<open>defs.h\<close>), the kernel's error numbers (\<^verbatim>\<open>error.h\<close>), the model of a kernel
  assertion, and the generic list and word facts that several components use.

  A kernel assertion that fails calls \<^verbatim>\<open>panic\<close> and never returns.  A routine that can panic
  is therefore modelled with an \<^verbatim>\<open>option\<close> result: \<^verbatim>\<open>None\<close> is the panic, and
  \<^verbatim>\<open>Some r\<close> a return with the value (and new state) \<^verbatim>\<open>r\<close>.  Error codes that the C
  code returns are ordinary values inside \<^verbatim>\<open>Some\<close>.
\<close>

unbundle bit_operations_syntax

named_theorems kernel_simps \<open>unfolding rules for assertions and error codes\<close>

type_synonym u32 = "32 word"
type_synonym u8 = "8 word"

text \<open>The assertion macro of \<^verbatim>\<open>kern/debug/assert.h\<close>: continue, or panic.\<close>

definition kassert :: "bool \<Rightarrow> unit option" where
  "kassert b = (if b then Some () else None)"

lemma kassert_simps [simp, kernel_simps]:
  "kassert True = Some ()"
  "kassert False = None"
  by (simp_all add: kassert_def)

lemma bind_kassert [simp, kernel_simps]:
  "Option.bind (kassert b) f = (if b then f () else None)"
  by (simp add: kassert_def)

lemma kassert_eq_Some [simp, kernel_simps]: "kassert b = Some u \<longleftrightarrow> b"
  by (simp add: kassert_def)

text \<open>The error numbers of \<^verbatim>\<open>kern/include/error.h\<close>.\<close>

datatype errno =
    E_UNSPECIFIED | E_BAD_PROC | E_INVAL | E_NO_MEM | E_NO_FREE_PROC | E_FAULT | E_SWAP_FAULT
  | E_INVAL_ELF | E_KILLED | E_PANIC | E_TIMEOUT | E_TOO_BIG | E_NO_DEV | E_NA_DEV | E_BUSY
  | E_NOENT | E_ISDIR | E_NOTDIR | E_XDEV | E_UNIMP | E_SEEK | E_MAX_OPEN | E_EXISTS | E_NOTEMPTY

fun errno_val :: "errno \<Rightarrow> int" where
  "errno_val E_UNSPECIFIED = 1"
| "errno_val E_BAD_PROC = 2"
| "errno_val E_INVAL = 3"
| "errno_val E_NO_MEM = 4"
| "errno_val E_NO_FREE_PROC = 5"
| "errno_val E_FAULT = 6"
| "errno_val E_SWAP_FAULT = 7"
| "errno_val E_INVAL_ELF = 8"
| "errno_val E_KILLED = 9"
| "errno_val E_PANIC = 10"
| "errno_val E_TIMEOUT = 11"
| "errno_val E_TOO_BIG = 12"
| "errno_val E_NO_DEV = 13"
| "errno_val E_NA_DEV = 14"
| "errno_val E_BUSY = 15"
| "errno_val E_NOENT = 16"
| "errno_val E_ISDIR = 17"
| "errno_val E_NOTDIR = 18"
| "errno_val E_XDEV = 19"
| "errno_val E_UNIMP = 20"
| "errno_val E_SEEK = 21"
| "errno_val E_MAX_OPEN = 22"
| "errno_val E_EXISTS = 23"
| "errno_val E_NOTEMPTY = 24"

text \<open>The C idiom \<^verbatim>\<open>return -E_xxx\<close>.\<close>

abbreviation fail_code :: "errno \<Rightarrow> int" where
  "fail_code e \<equiv> - errno_val e"

lemma errno_val_pos [simp]: "0 < errno_val e"
  by (cases e) simp_all

lemma errno_val_nonzero [simp]: "errno_val e \<noteq> 0"
  using errno_val_pos [of e] by (metis less_irrefl)

lemma errno_val_bound: "errno_val e \<le> 24"
  by (cases e) simp_all

lemma errno_val_inj [simp]: "errno_val e = errno_val e' \<longleftrightarrow> e = e'"
  by (cases e; cases e') simp_all

section \<open>Words\<close>

lemma unat_shiftr: "unat (drop_bit n (w :: 'a::len word)) = unat w div 2 ^ n"
  by (simp only: unat_drop_bit_eq drop_bit_eq_div [where 'a = nat])

lemma unat_u32_bound [simp]: "unat (w :: u32) < 4294967296"
  using unsigned_less [of w] by simp

lemma unat_add_u32: "unat a + unat b < 4294967296 \<Longrightarrow> unat (a + b :: u32) = unat a + unat b"
  by (simp add: unat_word_ariths)

lemma unat_mul_u32: "unat a * unat b < 4294967296 \<Longrightarrow> unat (a * b :: u32) = unat a * unat b"
  by (simp add: unat_word_ariths)

lemma unat_sub_u32: "unat b \<le> unat a \<Longrightarrow> unat (a - b :: u32) = unat a - unat b"
  by (simp add: unat_sub word_le_nat_alt)

lemma unat_pow2_u32:
  assumes "n < 32" shows "unat (2 ^ n :: u32) = 2 ^ n"
proof -
  have "(2 :: nat) ^ n < 2 ^ 32" using assms by (intro power_strict_increasing) simp_all
  then have "unat (of_nat (2 ^ n) :: u32) = 2 ^ n"
    using assms by (simp only: unsigned_of_nat) (simp add: take_bit_nat_eq_self)
  then show ?thesis by simp
qed

text \<open>Conversions between 32-bit and 64-bit words.\<close>

lemma ucast_scast_u64: "ucast (scast (w :: u32) :: 64 word) = w"
  by (rule bit_word_eqI) (simp add: bit_simps)

lemma sint_u32_bounds: "- 2147483648 \<le> sint (w :: u32)" "sint (w :: u32) < 2147483648"
  using sint_greater_eq [of w] sint_less [of w] by simp_all

lemma sint_scast_u64: "sint (scast (w :: u32) :: 64 word) = sint w"
  using sint_u32_bounds [of w] by (simp add: signed_scast_eq signed_take_bit_int_eq_self)

lemma ucast_minus_u64: "(ucast (- v :: 64 word) :: u32) = - ucast v"
proof transfer
  fix v :: int
  have "take_bit 32 (- take_bit 64 v) = take_bit 32 (- take_bit 32 (take_bit 64 v))"
    by (simp only: take_bit_minus)
  also have "\<dots> = take_bit 32 (- v)" by (simp add: take_bit_minus)
  finally show "take_bit LENGTH(32) (take_bit LENGTH(64) (- v)) = take_bit LENGTH(32) (- take_bit LENGTH(64) v)"
    by simp
qed

lemma int_unat_minus_neg: "sint (w :: u32) < 0 \<Longrightarrow> int (unat (- w)) = - sint w"
proof -
  assume s: "sint w < 0"
  have "- w = word_of_int (- sint w)" by simp
  then have "uint (- w) = take_bit 32 (- sint w)" by (simp only: uint_word_of_int) (simp add: take_bit_eq_mod)
  also have "\<dots> = - sint w" using sint_u32_bounds [of w] s by (simp add: take_bit_int_eq_self)
  finally show ?thesis by simp
qed

lemma int_unat_sint: "\<not> sint (w :: u32) < 0 \<Longrightarrow> int (unat w) = sint w"
proof -
  assume s: "\<not> sint w < 0"
  have "uint (word_of_int (sint w) :: u32) = take_bit 32 (sint w)"
    by (simp only: uint_word_of_int_eq) simp
  then have "uint w = take_bit 32 (sint w)" by simp
  also have "\<dots> = sint w" using sint_u32_bounds [of w] s by (simp add: take_bit_int_eq_self)
  finally show ?thesis by simp
qed

section \<open>Lists\<close>

lemma list_all_append_iff: "list_all P (xs @ ys) \<longleftrightarrow> list_all P xs \<and> list_all P ys"
  by simp

lemma distinct_split_unique:
  assumes "distinct (xs @ a # ys)" "xs @ a # ys = xs' @ a # ys'"
  shows "xs = xs'" "ys = ys'"
proof -
  from assms have "a \<notin> set xs" "a \<notin> set xs'" by (metis distinct_append not_distinct_conv_prefix)+
  with assms(2) show "xs = xs'" "ys = ys'"
    by (auto simp: append_eq_append_conv2 append_eq_Cons_conv Cons_eq_append_conv)
qed

end
