(* ===== verification/Machine_Arith.thy ===== *)
theory Machine_Arith
  imports Prelude
begin

text \<open>
  The arithmetic helpers the kernel uses in place of a divider
  (\<^verbatim>\<open>kern/include/loongarch.h\<close>: \<^verbatim>\<open>__mulu10\<close>, \<^verbatim>\<open>__divu10\<close>, \<^verbatim>\<open>__divu5\<close>), the
  rounding macros of \<^verbatim>\<open>kern/include/defs.h\<close>, the multiplicative hash of
  \<^verbatim>\<open>kern/libs/hash.c\<close> and the linear congruential generator of \<^verbatim>\<open>kern/libs/rand.c\<close>.
  All of them work on 32-bit words with C's wrap-around.
\<close>

section \<open>Division without a divider\<close>

definition mulu10 :: "u32 \<Rightarrow> u32" where
  "mulu10 n = push_bit 3 n + push_bit 1 n"

definition divu10 :: "u32 \<Rightarrow> u32" where
  "divu10 n =
     (let q = drop_bit 1 n + drop_bit 2 n;
          q = q + drop_bit 4 q;
          q = q + drop_bit 8 q;
          q = q + drop_bit 16 q;
          q = drop_bit 3 q;
          r = n - mulu10 q
      in q + drop_bit 4 (r + 6))"

definition divu5 :: "u32 \<Rightarrow> u32" where
  "divu5 n =
     (let q = drop_bit 3 n + drop_bit 4 n;
          q = q + drop_bit 4 q;
          q = q + drop_bit 8 q;
          q = q + drop_bit 16 q;
          r = n - q * 5
      in q + drop_bit 6 (13 * r))"

lemma mulu10_eq: "mulu10 n = n * 10"
  by (simp add: mulu10_def push_bit_eq_mult)

text \<open>
  The four shift-and-add steps multiply by \<^verbatim>\<open>0.8\<close> from below; in natural numbers they
  never overflow and the estimate of the quotient is at most one too small.
\<close>

text \<open>One step of the recurrence: \<^verbatim>\<open>q + q div d\<close>, with its rounding error.\<close>

lemma div_bounds:
  fixes n d :: nat
  assumes "0 < d"
  shows "d * (n div d) \<le> n" "n < d * (n div d) + d"
  using assms dividend_less_times_div [of d n] by (simp_all add: add.commute)

lemma step_bounds:
  fixes q d :: nat
  assumes "0 < d"
  shows "d * (q + q div d) \<le> (d + 1) * q" "(d + 1) * q < d * (q + q div d) + d"
proof -
  have "d * (q div d) + q mod d = q" by simp
  moreover have "q mod d < d" using assms by simp
  ultimately show "d * (q + q div d) \<le> (d + 1) * q" "(d + 1) * q < d * (q + q div d) + d"
    by (simp_all only: distrib_left distrib_right mult_1 mult_1_right)
qed

text \<open>
  The recurrences, and the linear arithmetic behind their bounds: the variables stand for the
  intermediate quotients.
\<close>

definition est10 :: "nat \<Rightarrow> nat" where
  "est10 n =
     (let q = n div 2 + n div 4; q = q + q div 16; q = q + q div 256; q = q + q div 65536
      in q div 8)"

lemma est10_linear:
  fixes n a b q2 q3 q4 e :: nat
  assumes "n < 4294967296"
    and "2 * a \<le> n" "n < 2 * a + 2" "4 * b \<le> n" "n < 4 * b + 4"
    and "16 * q2 \<le> 17 * a + 17 * b" "17 * a + 17 * b < 16 * q2 + 16"
    and "256 * q3 \<le> 257 * q2" "257 * q2 < 256 * q3 + 256"
    and "65536 * q4 \<le> 65537 * q3" "65537 * q3 < 65536 * q4 + 65536"
    and "8 * e \<le> q4" "q4 < 8 * e + 8"
  shows "10 * e \<le> n \<and> n \<le> 10 * e + 15"
proof -
  have "4 * a + 4 * b \<le> 3 * n" using assms(2,4) by linarith
  with assms(6) have "64 * q2 \<le> 51 * n" by linarith
  with assms(8) have "16384 * q3 \<le> 13107 * n" by linarith
  with assms(10) have "1073741824 * q4 \<le> 858993459 * n" by linarith
  with assms(12) have up: "8589934592 * e \<le> 858993459 * n" by linarith
  have "3 * n \<le> 4 * a + 4 * b + 5" using assms(3,5) by linarith
  with assms(7) have "51 * n \<le> 64 * q2 + 145" by linarith
  with assms(9) have "13107 * n \<le> 16384 * q3 + 53585" by linarith
  with assms(11) have "858993459 * n \<le> 1073741824 * q4 + 4585525585" by linarith
  with assms(13) have "858993459 * n \<le> 8589934592 * e + 12101718353" by linarith
  with up assms(1) show ?thesis by (intro conjI) linarith+
qed

lemma est10_bounds:
  assumes "n < 4294967296"
  shows "10 * est10 n \<le> n \<and> n \<le> 10 * est10 n + 15"
proof -
  define a where "a = n div 2"
  define b where "b = n div 4"
  define q2 where "q2 = (a + b) + (a + b) div 16"
  define q3 where "q3 = q2 + q2 div 256"
  define q4 where "q4 = q3 + q3 div 65536"
  define e where "e = q4 div 8"
  have a: "2 * a \<le> n" "n < 2 * a + 2" unfolding a_def by (rule div_bounds, simp)+
  have b: "4 * b \<le> n" "n < 4 * b + 4" unfolding b_def by (rule div_bounds, simp)+
  have q2: "16 * q2 \<le> 17 * a + 17 * b" "17 * a + 17 * b < 16 * q2 + 16"
    using step_bounds [of 16 "a + b"] unfolding q2_def by simp_all
  have q3: "256 * q3 \<le> 257 * q2" "257 * q2 < 256 * q3 + 256"
    using step_bounds [of 256 q2] unfolding q3_def by simp_all
  have q4: "65536 * q4 \<le> 65537 * q3" "65537 * q3 < 65536 * q4 + 65536"
    using step_bounds [of 65536 q3] unfolding q4_def by simp_all
  have e: "8 * e \<le> q4" "q4 < 8 * e + 8" unfolding e_def by (rule div_bounds, simp)+
  have "est10 n = e"
    by (simp only: est10_def Let_def a_def b_def q2_def q3_def q4_def e_def)
  with est10_linear [OF assms a b q2 q3 q4 e] show ?thesis by simp
qed

definition est5 :: "nat \<Rightarrow> nat" where
  "est5 n =
     (let q = n div 8 + n div 16; q = q + q div 16; q = q + q div 256 in q + q div 65536)"

lemma est5_linear:
  fixes n a b q2 q3 q4 :: nat
  assumes "n < 4294967296"
    and "8 * a \<le> n" "n < 8 * a + 8" "16 * b \<le> n" "n < 16 * b + 16"
    and "16 * q2 \<le> 17 * a + 17 * b" "17 * a + 17 * b < 16 * q2 + 16"
    and "256 * q3 \<le> 257 * q2" "257 * q2 < 256 * q3 + 256"
    and "65536 * q4 \<le> 65537 * q3" "65537 * q3 < 65536 * q4 + 65536"
  shows "5 * q4 \<le> n \<and> n \<le> 5 * q4 + 29"
proof -
  have "16 * a + 16 * b \<le> 3 * n" using assms(2,4) by linarith
  with assms(6) have "256 * q2 \<le> 51 * n" by linarith
  with assms(8) have "65536 * q3 \<le> 13107 * n" by linarith
  with assms(10) have up: "4294967296 * q4 \<le> 858993459 * n" by linarith
  have "3 * n \<le> 16 * a + 16 * b + 29" using assms(3,5) by linarith
  with assms(7) have "51 * n \<le> 256 * q2 + 733" by linarith
  with assms(9) have "13107 * n \<le> 65536 * q3 + 253661" by linarith
  with assms(11) have "858993459 * n \<le> 4294967296 * q4 + 20919082717" by linarith
  with up assms(1) show ?thesis by (intro conjI) linarith+
qed

lemma est5_bounds:
  assumes "n < 4294967296"
  shows "5 * est5 n \<le> n \<and> n \<le> 5 * est5 n + 29"
proof -
  define a where "a = n div 8"
  define b where "b = n div 16"
  define q2 where "q2 = (a + b) + (a + b) div 16"
  define q3 where "q3 = q2 + q2 div 256"
  define q4 where "q4 = q3 + q3 div 65536"
  have a: "8 * a \<le> n" "n < 8 * a + 8" unfolding a_def by (rule div_bounds, simp)+
  have b: "16 * b \<le> n" "n < 16 * b + 16" unfolding b_def by (rule div_bounds, simp)+
  have q2: "16 * q2 \<le> 17 * a + 17 * b" "17 * a + 17 * b < 16 * q2 + 16"
    using step_bounds [of 16 "a + b"] unfolding q2_def by simp_all
  have q3: "256 * q3 \<le> 257 * q2" "257 * q2 < 256 * q3 + 256"
    using step_bounds [of 256 q2] unfolding q3_def by simp_all
  have q4: "65536 * q4 \<le> 65537 * q3" "65537 * q3 < 65536 * q4 + 65536"
    using step_bounds [of 65536 q3] unfolding q4_def by simp_all
  have "est5 n = q4"
    by (simp only: est5_def Let_def a_def b_def q2_def q3_def q4_def)
  with est5_linear [OF assms a b q2 q3 q4] show ?thesis by simp
qed

lemma correct10: "(r :: nat) \<le> 15 \<Longrightarrow> (r + 6) div 16 = r div 10"
  by (cases "r < 10") (auto simp: div_if)

lemma correct5: "(r :: nat) \<in> {..29} \<Longrightarrow> 13 * r div 64 = r div 5"
  by (simp add: atMost_nat_numeral atMost_Suc) (elim disjE; simp)


lemma div_below:
  fixes n d k :: nat
  assumes "n < d * k" shows "n div d \<le> k - 1"
  using assms by (metis Suc_pred' div_less_iff_less_mult less_Suc_eq_le less_nat_zero_code
      mult.commute mult_0_right not_gr_zero)

text \<open>None of the word additions wraps, so the word code computes the estimates.\<close>

lemma unat_step:
  fixes q :: u32
  assumes "unat q + unat q div 2 ^ k < 4294967296"
  shows "unat (q + drop_bit k q) = unat q + unat q div 2 ^ k"
  using assms by (simp add: unat_add_u32 unat_shiftr)

lemma unat_recurrence:
  fixes q :: u32
  assumes "unat q \<le> 3221225471"
  defines "q2 \<equiv> q + drop_bit 4 q"
  defines "q3 \<equiv> q2 + drop_bit 8 q2"
  shows "unat (q3 + drop_bit 16 q3) =
    (let q = unat q; q = q + q div 16; q = q + q div 256 in q + q div 65536)"
proof -
  have "unat q div 16 \<le> 201326591" using div_below [of "unat q" 16 201326592] assms(1) by simp
  with assms(1) have 2: "unat q2 = unat q + unat q div 16" "unat q2 \<le> 3422552062"
    unfolding q2_def by (subst unat_step; simp)+
  have "unat q2 div 256 \<le> 13369343" using div_below [of "unat q2" 256 13369344] 2 by simp
  with 2(2) have 3: "unat q3 = unat q2 + unat q2 div 256" "unat q3 \<le> 3435921405"
    unfolding q3_def by (subst unat_step; simp)+
  have "unat q3 div 65536 \<le> 52427" using div_below [of "unat q3" 65536 52428] 3 by simp
  with 3(2) have "unat (q3 + drop_bit 16 q3) = unat q3 + unat q3 div 65536"
    by (subst unat_step) simp_all
  then show ?thesis by (simp only: Let_def 2(1) 3(1))
qed

lemma unat_quarters:
  fixes n :: u32
  shows "unat (drop_bit 1 n + drop_bit 2 n) = unat n div 2 + unat n div 4"
    and "unat (drop_bit 1 n + drop_bit 2 n) \<le> 3221225471"
    and "unat (drop_bit 3 n + drop_bit 4 n) = unat n div 8 + unat n div 16"
    and "unat (drop_bit 3 n + drop_bit 4 n) \<le> 3221225471"
proof -
  have "unat n < 4294967296" by simp
  then have "unat n div 2 \<le> 2147483647" "unat n div 4 \<le> 1073741823"
    "unat n div 8 \<le> 536870911" "unat n div 16 \<le> 268435455"
    using div_below [of "unat n" 2 2147483648] div_below [of "unat n" 4 1073741824]
      div_below [of "unat n" 8 536870912] div_below [of "unat n" 16 268435456] by simp_all
  then show "unat (drop_bit 1 n + drop_bit 2 n) = unat n div 2 + unat n div 4"
    and "unat (drop_bit 1 n + drop_bit 2 n) \<le> 3221225471"
    and "unat (drop_bit 3 n + drop_bit 4 n) = unat n div 8 + unat n div 16"
    and "unat (drop_bit 3 n + drop_bit 4 n) \<le> 3221225471"
    by (simp_all add: unat_add_u32 unat_shiftr)
qed

lemma unat_est10:
  "unat (let q = drop_bit 1 n + drop_bit 2 n; q = q + drop_bit 4 q; q = q + drop_bit 8 q;
             q = q + drop_bit 16 q in drop_bit 3 q) = est10 (unat (n :: u32))"
  using unat_recurrence [OF unat_quarters(2), of n]
  by (simp only: est10_def Let_def unat_shiftr unat_quarters(1)) simp

lemma unat_est5:
  "unat (let q = drop_bit 3 n + drop_bit 4 n; q = q + drop_bit 4 q; q = q + drop_bit 8 q
         in q + drop_bit 16 q) = est5 (unat (n :: u32))"
  using unat_recurrence [OF unat_quarters(4), of n]
  by (simp only: est5_def Let_def unat_quarters(3))

lemma divu10_eq_div: "divu10 n = n div 10"
proof -
  define q where "q = (let q = drop_bit 1 n + drop_bit 2 n; q = q + drop_bit 4 q;
    q = q + drop_bit 8 q; q = q + drop_bit 16 q in drop_bit 3 q)"
  have uq: "unat q = est10 (unat n)" unfolding q_def by (rule unat_est10)
  have b: "10 * unat q \<le> unat n" "unat n \<le> 10 * unat q + 15"
    using est10_bounds [of "unat n"] by (simp_all add: uq)
  have "unat q * 10 < 4294967296" using b(1) unat_u32_bound [of n] by linarith
  then have m: "unat (mulu10 q) = 10 * unat q"
    by (simp add: mulu10_eq unat_mul_u32)
  have r: "unat (n - mulu10 q) = unat n - 10 * unat q"
    using b m by (simp add: unat_sub_u32)
  have "unat (n - mulu10 q + 6) = unat n - 10 * unat q + 6"
    using b r by (simp add: unat_add_u32)
  then have c: "unat (drop_bit 4 (n - mulu10 q + 6)) = (unat n - 10 * unat q) div 10"
    using b correct10 [of "unat n - 10 * unat q"] by (simp add: unat_shiftr)
  have "unat q + (unat n - 10 * unat q) div 10 = unat n div 10"
    using b by (metis div_mult_self4 le_add_diff_inverse zero_neq_numeral add.commute)
  moreover have "unat n div 10 < 4294967296" using unat_u32_bound [of n] by (rule le_less_trans [OF div_le_dividend])
  ultimately have "unat (q + drop_bit 4 (n - mulu10 q + 6)) = unat n div 10"
    using c by (subst unat_add_u32) simp_all
  moreover have "divu10 n = q + drop_bit 4 (n - mulu10 q + 6)"
    by (simp only: divu10_def Let_def q_def)
  ultimately show ?thesis by (simp only: word_unat_eq_iff unat_div_distrib) simp
qed

lemma divu5_eq_div: "divu5 n = n div 5"
proof -
  define q where "q = (let q = drop_bit 3 n + drop_bit 4 n; q = q + drop_bit 4 q;
    q = q + drop_bit 8 q in q + drop_bit 16 q)"
  have uq: "unat q = est5 (unat n)" unfolding q_def by (rule unat_est5)
  have b: "5 * unat q \<le> unat n" "unat n \<le> 5 * unat q + 29"
    using est5_bounds [of "unat n"] by (simp_all add: uq)
  have "unat q * 5 < 4294967296" using b(1) unat_u32_bound [of n] by linarith
  then have m: "unat (q * 5) = 5 * unat q"
    by (simp add: unat_mul_u32)
  have r: "unat (n - q * 5) = unat n - 5 * unat q"
    using b m by (simp add: unat_sub_u32)
  moreover have "unat (13 :: u32) * (unat n - 5 * unat q) < 4294967296" using b by simp
  ultimately have "unat (13 * (n - q * 5)) = 13 * (unat n - 5 * unat q)"
    by (subst unat_mul_u32) simp_all
  then have c: "unat (drop_bit 6 (13 * (n - q * 5))) = (unat n - 5 * unat q) div 5"
    using b correct5 [of "unat n - 5 * unat q"] by (simp add: unat_shiftr)
  have "unat q + (unat n - 5 * unat q) div 5 = unat n div 5"
    using b by (metis div_mult_self4 le_add_diff_inverse zero_neq_numeral add.commute)
  moreover have "unat n div 5 < 4294967296" using unat_u32_bound [of n] by (rule le_less_trans [OF div_le_dividend])
  ultimately have "unat (q + drop_bit 6 (13 * (n - q * 5))) = unat n div 5"
    using c by (subst unat_add_u32) simp_all
  moreover have "divu5 n = q + drop_bit 6 (13 * (n - q * 5))"
    by (simp only: divu5_def Let_def q_def)
  ultimately show ?thesis by (simp only: word_unat_eq_iff unat_div_distrib) simp
qed

section \<open>Rounding macros\<close>

text \<open>\<^verbatim>\<open>ROUNDDOWN_2N(a,n)\<close> and \<^verbatim>\<open>ROUNDUP_2N(a,n)\<close> round to a multiple of \<open>2 ^ n\<close>.\<close>

definition rounddown_2n :: "u32 \<Rightarrow> nat \<Rightarrow> u32" where
  "rounddown_2n a n = push_bit n (drop_bit n a)"

definition roundup_2n :: "u32 \<Rightarrow> nat \<Rightarrow> u32" where
  "roundup_2n a n = rounddown_2n (a + push_bit n 1 - 1) n"

definition roundup_div_2n :: "u32 \<Rightarrow> nat \<Rightarrow> u32" where
  "roundup_div_2n a n = drop_bit n (a + push_bit n 1 - 1)"

lemma unat_rounddown: "unat (rounddown_2n a n) = unat a div 2 ^ n * 2 ^ n"
proof (cases "n < 32")
  case True
  have "unat a div 2 ^ n * 2 ^ n \<le> unat a" by simp
  then have "unat a div 2 ^ n * 2 ^ n < 4294967296" by (rule le_less_trans) simp
  moreover have "unat (2 ^ n :: u32) = 2 ^ n" using True by (rule unat_pow2_u32)
  ultimately show ?thesis
    by (simp add: rounddown_2n_def push_bit_eq_mult unat_mul_u32 unat_shiftr)
next
  case False
  then have "(4294967296 :: nat) \<le> 2 ^ n"
    using power_increasing [of 32 n "2 :: nat"] by simp
  then have "unat a div 2 ^ n = 0"
    using unat_u32_bound [of a] by (intro div_less) linarith
  moreover from this have "drop_bit n a = 0"
    by (metis unat_shiftr unat_eq_zero)
  ultimately show ?thesis by (simp add: rounddown_2n_def)
qed

lemma rounddown_le: "unat (rounddown_2n a n) \<le> unat a"
  by (simp add: unat_rounddown)

lemma rounddown_above: "unat a < unat (rounddown_2n a n) + 2 ^ n"
  using div_bounds(2) [of "2 ^ n" "unat a"] by (simp add: unat_rounddown mult.commute)

lemma rounddown_dvd: "2 ^ n dvd unat (rounddown_2n a n)"
  by (simp add: unat_rounddown)

text \<open>
  Rounding up is exact as long as the rounded value is below \<open>2 ^ 32\<close>; beyond that the
  macro wraps to a small address.
\<close>

lemma unat_roundup:
  assumes "n < 32" "unat a + 2 ^ n - 1 < 4294967296"
  shows "unat (roundup_2n a n) = (unat a + 2 ^ n - 1) div 2 ^ n * 2 ^ n"
proof -
  have p: "unat (push_bit n 1 :: u32) = 2 ^ n" using assms(1) by (simp add: push_bit_eq_mult unat_pow2_u32)
  have "a + push_bit n 1 - 1 = a + (push_bit n 1 - 1 :: u32)" by simp
  moreover have "unat (push_bit n 1 - 1 :: u32) = 2 ^ n - 1"
    using p by (subst unat_sub_u32) simp_all
  ultimately have "unat (a + push_bit n 1 - 1) = unat a + (2 ^ n - 1)"
    using assms(2) by (simp only:) (subst unat_add_u32, simp_all)
  then show ?thesis by (simp add: roundup_2n_def unat_rounddown)
qed

lemma roundup_ge:
  assumes "n < 32" "unat a + 2 ^ n - 1 < 4294967296"
  shows "unat a \<le> unat (roundup_2n a n)" "unat (roundup_2n a n) < unat a + 2 ^ n"
proof -
  have "0 < (2 :: nat) ^ n" by simp
  then show "unat a \<le> unat (roundup_2n a n)" "unat (roundup_2n a n) < unat a + 2 ^ n"
    using div_bounds [of "2 ^ n" "unat a + 2 ^ n - 1"]
    unfolding unat_roundup [OF assms] mult.commute [of _ "2 ^ n"] by linarith+
qed

section \<open>Hashing and pseudo-random numbers\<close>

definition GOLDEN_RATIO_PRIME_32 :: u32 where
  "GOLDEN_RATIO_PRIME_32 = 0x9e370001"

definition hash32 :: "u32 \<Rightarrow> nat \<Rightarrow> u32" where
  "hash32 val bits = drop_bit (32 - bits) (val * GOLDEN_RATIO_PRIME_32)"

lemma hash32_bound:
  assumes "bits \<le> 32"
  shows "unat (hash32 val bits) < 2 ^ bits"
proof -
  have "unat (val * GOLDEN_RATIO_PRIME_32) < 2 ^ (32 - bits) * 2 ^ bits"
    using assms unat_u32_bound [of "val * GOLDEN_RATIO_PRIME_32"] by (simp flip: power_add)
  then show ?thesis
    by (simp add: hash32_def unat_shiftr less_mult_imp_div_less mult.commute)
qed

text \<open>
  \<^verbatim>\<open>rand\<close> keeps its state in \<^verbatim>\<open>next\<close>; \<^verbatim>\<open>RAND_MAX\<close> is \<^verbatim>\<open>0xFFFF\<close> (\<^verbatim>\<open>stdlib.h\<close>).
\<close>

definition RAND_MAX :: "64 word" where
  "RAND_MAX = 0xFFFF"

definition rand_next :: "u32 \<Rightarrow> u32" where
  "rand_next s = (s * 0xDEECE66D + 0xB) AND (push_bit 17 1 - 1)"

definition rand :: "u32 \<Rightarrow> int \<times> u32" where
  "rand s = (let s' = rand_next s; result = (ucast (drop_bit 12 s') :: 64 word)
     in (sint (ucast (result AND RAND_MAX) :: u32), s'))"

definition srand :: "u32 \<Rightarrow> u32" where
  "srand seed = seed"

lemma rand_next_mod: "unat (rand_next s) = (unat s * 0xDEECE66D + 0xB) mod 2 ^ 17"
proof -
  have "rand_next s = take_bit 17 (s * 0xDEECE66D + 0xB)"
    by (simp add: rand_next_def take_bit_eq_mask mask_eq_exp_minus_1 push_bit_eq_mult)
  then have "unat (rand_next s) = unat (s * 0xDEECE66D + 0xB) mod 2 ^ 17"
    by (simp only: unsigned_take_bit_eq take_bit_eq_mod [where 'a = nat])
  also have "\<dots> = (unat s * 0xDEECE66D + 0xB) mod 2 ^ 17"
    using mod_mod_cancel [of "131072 :: nat" 4294967296]
    by (simp add: unat_word_ariths) (metis (no_types, lifting) mod_add_left_eq)
  finally show ?thesis .
qed

lemma rand_range: "0 \<le> fst (rand s) \<and> fst (rand s) < 32"
proof -
  let ?r = "ucast (drop_bit 12 (rand_next s)) :: 64 word"
  have "unat (drop_bit 12 (rand_next s)) < 32"
    by (simp add: unat_shiftr rand_next_mod less_mult_imp_div_less)
  then have "unat ?r < 32" by (simp add: unsigned_ucast_eq take_bit_nat_eq_self)
  moreover have "unat (?r AND RAND_MAX) \<le> unat ?r"
    by (simp only: word_and_le1 flip: word_le_nat_alt) (simp add: word_and_le2)
  ultimately have n: "unat (?r AND RAND_MAX) < 32" by linarith
  then have "unat (ucast (?r AND RAND_MAX) :: u32) = unat (?r AND RAND_MAX)"
    by (subst unsigned_ucast_eq) (rule take_bit_nat_eq_self, simp)
  then have u: "unat (ucast (?r AND RAND_MAX) :: u32) < 32" using n by simp
  have "sint (of_nat k :: u32) = int k" if "k < 32" for k using that by (simp add: signed_of_nat signed_take_bit_int_eq_self)
  from this [OF u] have "sint (ucast (?r AND RAND_MAX) :: u32) = int (unat (ucast (?r AND RAND_MAX) :: u32))"
    by (simp)
  then have "0 \<le> sint (ucast (?r AND RAND_MAX) :: u32) \<and> sint (ucast (?r AND RAND_MAX) :: u32) < 32" using u by linarith
  then show ?thesis by (simp only: rand_def Let_def fst_conv)
qed

text \<open>
  The multiplier is invertible modulo \<open>2 ^ 17\<close>, so the generator never loses information: on
  the 17-bit states it visits, one step is a permutation.
\<close>

lemma rand_next_inj:
  assumes "unat s < 2 ^ 17" "unat t < 2 ^ 17" "rand_next s = rand_next t"
  shows "s = t"
proof -
  have "(int (unat s) * 0xDEECE66D + 0xB) mod 2 ^ 17 = (int (unat t) * 0xDEECE66D + 0xB) mod 2 ^ 17"
    using arg_cong [OF assms(3), of "\<lambda>w. int (unat w)"] unfolding rand_next_mod zmod_int
    by (simp only: of_nat_add of_nat_mult of_nat_numeral of_nat_power)
  then have "(int (unat s) - int (unat t)) * 0xDEECE66D mod 2 ^ 17 = 0"
    by (simp add: mod_eq_dvd_iff algebra_simps dvd_imp_mod_0)
  then have "2 ^ 17 dvd (int (unat s) - int (unat t)) * 0xDEECE66D"
    by (rule mod_0_imp_dvd)
  moreover have "coprime (2 ^ 17 :: int) 0xDEECE66D"
    by (simp only: coprime_power_left_iff coprime_left_2_iff_odd) simp
  ultimately have "2 ^ 17 dvd (int (unat s) - int (unat t))"
    by (simp only: coprime_dvd_mult_left_iff)
  moreover have "int (unat s) < 131072" "int (unat t) < 131072"
    using assms(1,2) by (simp_all only: of_nat_less_numeral_iff) simp_all
  then have "\<bar>int (unat s) - int (unat t)\<bar> < 131072" by linarith
  ultimately have "int (unat s) - int (unat t) = 0"
    using dvd_imp_le_int [of "int (unat s) - int (unat t)" "2 ^ 17"] by auto
  then have "uint s = uint t" by simp
  then show ?thesis by (rule word_uint_eqI)
qed

text \<open>
  C20.  On every 32-bit value the division-free quotients are the exact ones: the
  shift-and-add estimate plus its correction is \<open>n div 10\<close> (and \<open>n div 5\<close>), no intermediate sum
  or product wraps, and \<open>n - __mulu10(__divu10(n))\<close>, which the number printer uses as the digit,
  is \<open>n mod 10\<close>.
\<close>

theorem divu_exact:
  "divu10 n = n div 10 \<and> divu5 n = n div 5 \<and> n - mulu10 (divu10 n) = n mod 10"
proof -
  have "n - n div 10 * 10 = n mod 10" by (rule minus_div_mult_eq_mod)
  then show ?thesis by (simp add: divu10_eq_div divu5_eq_div mulu10_eq)
qed

end
