(* ===== verification/Linked_List.thy ===== *)
theory Linked_List
  imports Prelude
begin

text \<open>
  The circular doubly linked list of \<^verbatim>\<open>kern/include/list.h\<close>, on an explicit store: every entry
  has a \<^verbatim>\<open>prev\<close> and a \<^verbatim>\<open>next\<close> pointer, a list is a head entry, and each routine writes the same
  fields in the same order as the C code.  The predicate \<open>dll h head xs\<close> says that the list of
  the head holds exactly the entries \<open>xs\<close> in this order.  The refinement lemmas below show that
  each pointer routine is the expected operation on \<open>xs\<close>; the components that embed such lists
  (free list, run queue, wait queues, timers, memory areas, slabs) model them as HOL lists on the
  strength of these lemmas.
\<close>

section \<open>The pointer routines\<close>

record 'a links =
  lprev :: "'a \<Rightarrow> 'a"
  lnext :: "'a \<Rightarrow> 'a"

definition set_prev :: "'a \<Rightarrow> 'a \<Rightarrow> 'a links \<Rightarrow> 'a links" where
  "set_prev e v h = h\<lparr>lprev := (lprev h)(e := v)\<rparr>"

definition set_next :: "'a \<Rightarrow> 'a \<Rightarrow> 'a links \<Rightarrow> 'a links" where
  "set_next e v h = h\<lparr>lnext := (lnext h)(e := v)\<rparr>"

lemma link_updates [simp]:
  "lprev (set_prev e v h) = (lprev h)(e := v)" "lnext (set_prev e v h) = lnext h"
  "lnext (set_next e v h) = (lnext h)(e := v)" "lprev (set_next e v h) = lprev h"
  by (simp_all add: set_prev_def set_next_def)

definition list_init :: "'a \<Rightarrow> 'a links \<Rightarrow> 'a links" where
  "list_init elm h = set_prev elm elm (set_next elm elm h)"

text \<open>\<^verbatim>\<open>__list_add(elm, prev, next)\<close> and \<^verbatim>\<open>__list_del(prev, next)\<close>.\<close>

definition list_add_raw :: "'a \<Rightarrow> 'a \<Rightarrow> 'a \<Rightarrow> 'a links \<Rightarrow> 'a links" where
  "list_add_raw elm prev next h =
     set_prev elm prev (set_next elm next (set_next prev elm (set_prev next elm h)))"

definition list_del_raw :: "'a \<Rightarrow> 'a \<Rightarrow> 'a links \<Rightarrow> 'a links" where
  "list_del_raw prev next h = set_prev next prev (set_next prev next h)"

definition list_add_before :: "'a \<Rightarrow> 'a \<Rightarrow> 'a links \<Rightarrow> 'a links" where
  "list_add_before listelm elm h = list_add_raw elm (lprev h listelm) listelm h"

definition list_add_after :: "'a \<Rightarrow> 'a \<Rightarrow> 'a links \<Rightarrow> 'a links" where
  "list_add_after listelm elm h = list_add_raw elm listelm (lnext h listelm) h"

definition list_add :: "'a \<Rightarrow> 'a \<Rightarrow> 'a links \<Rightarrow> 'a links" where
  "list_add listelm elm h = list_add_after listelm elm h"

definition list_del :: "'a \<Rightarrow> 'a links \<Rightarrow> 'a links" where
  "list_del listelm h = list_del_raw (lprev h listelm) (lnext h listelm) h"

definition list_del_init :: "'a \<Rightarrow> 'a links \<Rightarrow> 'a links" where
  "list_del_init listelm h = list_init listelm (list_del listelm h)"

definition list_empty :: "'a links \<Rightarrow> 'a \<Rightarrow> bool" where
  "list_empty h list = (lnext h list = list)"

definition list_next :: "'a links \<Rightarrow> 'a \<Rightarrow> 'a" where
  "list_next h listelm = lnext h listelm"

definition list_prev :: "'a links \<Rightarrow> 'a \<Rightarrow> 'a" where
  "list_prev h listelm = lprev h listelm"

lemmas list_routines = list_init_def list_add_raw_def list_del_raw_def list_add_before_def
  list_add_after_def list_add_def list_del_def list_del_init_def list_empty_def
  list_next_def list_prev_def

section \<open>What a list entry chain holds\<close>

fun linked :: "'a links \<Rightarrow> 'a \<Rightarrow> 'a list \<Rightarrow> 'a \<Rightarrow> bool" where
  "linked h a [] b = (lnext h a = b \<and> lprev h b = a)"
| "linked h a (x # xs) b = (lnext h a = x \<and> lprev h x = a \<and> linked h x xs b)"

definition dll :: "'a links \<Rightarrow> 'a \<Rightarrow> 'a list \<Rightarrow> bool" where
  "dll h head xs = (distinct (head # xs) \<and> linked h head xs head)"

lemma linked_append [simp]:
  "linked h a (xs @ x # ys) b \<longleftrightarrow> linked h a xs x \<and> linked h x ys b"
  by (induction xs arbitrary: a) auto

lemma linked_ends: "linked h a xs b \<Longrightarrow> lnext h a = hd (xs @ [b]) \<and> lprev h b = last (a # xs)"
  by (induction xs arbitrary: a) auto

lemma linked_frame:
  assumes "\<And>y. y \<in> set (a # xs) \<Longrightarrow> lnext h' y = lnext h y"
    and "\<And>y. y \<in> set (xs @ [b]) \<Longrightarrow> lprev h' y = lprev h y"
  shows "linked h' a xs b = linked h a xs b"
  using assms by (induction xs arbitrary: a) auto

lemma linked_set_next [simp]:
  "e \<noteq> a \<Longrightarrow> e \<notin> set xs \<Longrightarrow> linked (set_next e v h) a xs b = linked h a xs b"
  by (rule linked_frame) auto

lemma linked_set_prev [simp]:
  "e \<noteq> b \<Longrightarrow> e \<notin> set xs \<Longrightarrow> linked (set_prev e v h) a xs b = linked h a xs b"
  by (rule linked_frame) auto

lemma dll_distinct: "dll h head xs \<Longrightarrow> distinct (head # xs)"
  by (simp add: dll_def)

lemma dll_list_init: "dll (list_init head h) head []"
  by (simp add: dll_def list_init_def)

lemma dll_empty_iff: "dll h head xs \<Longrightarrow> list_empty h head \<longleftrightarrow> xs = []"
  by (cases xs) (auto simp: dll_def list_empty_def)

lemma dll_next:
  "dll h head (xs @ ys) \<Longrightarrow> list_next h (last (head # xs)) = hd (ys @ [head])"
  by (cases xs rule: rev_cases; cases ys) (auto simp: dll_def list_next_def)

lemma dll_prev:
  "dll h head (xs @ ys) \<Longrightarrow> list_prev h (hd (ys @ [head])) = last (head # xs)"
  by (cases xs rule: rev_cases; cases ys) (auto simp: dll_def list_prev_def)

lemma dll_add_raw:
  assumes "dll h head (xs @ ys)" "e \<noteq> head" "e \<notin> set (xs @ ys)"
  shows "dll (list_add_raw e (last (head # xs)) (hd (ys @ [head])) h) head (xs @ e # ys)"
  using assms
  by (cases xs rule: rev_cases; cases ys) (auto simp: dll_def list_add_raw_def)

lemma dll_add_after:
  assumes "dll h head (xs @ ys)" "e \<noteq> head" "e \<notin> set (xs @ ys)"
  shows "dll (list_add_after (last (head # xs)) e h) head (xs @ e # ys)"
  using dll_add_raw [OF assms] dll_next [OF assms(1)]
  by (simp add: list_add_after_def list_next_def)

lemma dll_add_before:
  assumes "dll h head (xs @ ys)" "e \<noteq> head" "e \<notin> set (xs @ ys)"
  shows "dll (list_add_before (hd (ys @ [head])) e h) head (xs @ e # ys)"
  using dll_add_raw [OF assms] dll_prev [OF assms(1)]
  by (simp add: list_add_before_def list_prev_def)

lemma dll_del:
  assumes "dll h head (xs @ e # ys)"
  shows "dll (list_del e h) head (xs @ ys)"
  using assms
  by (cases xs rule: rev_cases; cases ys) (auto simp: dll_def list_del_def list_del_raw_def)

lemma dll_frame:
  assumes "dll h head xs"
    and "\<And>y. y \<in> set (head # xs) \<Longrightarrow> lnext h' y = lnext h y \<and> lprev h' y = lprev h y"
  shows "dll h' head xs"
  using assms linked_frame [of head xs h' h head] by (auto simp: dll_def)

lemma dll_del_init:
  assumes "dll h head (xs @ e # ys)"
  shows "dll (list_del_init e h) head (xs @ ys)" "dll (list_del_init e h) e []"
proof -
  have "e \<notin> set (head # xs @ ys)" using assms by (auto simp: dll_def)
  then show "dll (list_del_init e h) head (xs @ ys)"
    by (intro dll_frame [OF dll_del [OF assms]]) (auto simp: list_del_init_def list_init_def)
  show "dll (list_del_init e h) e []"
    by (simp add: list_del_init_def dll_list_init)
qed

section \<open>The interface the components rely on\<close>

text \<open>
  A component that owns an intrusive list calls the routines below.  The locale states the
  contract once; \<open>walk\<close> is the iteration every component writes as
  \<^verbatim>\<open>le = head; while ((le = list_next(le)) != head) ...\<close>, with a fuel that bounds the number
  of visited entries.
\<close>

fun walk :: "('a \<Rightarrow> 'a) \<Rightarrow> 'a \<Rightarrow> nat \<Rightarrow> 'a \<Rightarrow> 'a list option" where
  "walk nx head 0 le = None"
| "walk nx head (Suc fuel) le =
     (if nx le = head then Some [] else map_option ((#) (nx le)) (walk nx head fuel (nx le)))"

locale kernel_list =
  fixes repr :: "'h \<Rightarrow> 'a \<Rightarrow> 'a list \<Rightarrow> bool"
    and init :: "'a \<Rightarrow> 'h \<Rightarrow> 'h"
    and add_before :: "'a \<Rightarrow> 'a \<Rightarrow> 'h \<Rightarrow> 'h"
    and add_after :: "'a \<Rightarrow> 'a \<Rightarrow> 'h \<Rightarrow> 'h"
    and del :: "'a \<Rightarrow> 'h \<Rightarrow> 'h"
    and empty :: "'h \<Rightarrow> 'a \<Rightarrow> bool"
    and nx :: "'h \<Rightarrow> 'a \<Rightarrow> 'a"
    and pv :: "'h \<Rightarrow> 'a \<Rightarrow> 'a"
  assumes repr_distinct: "repr h head xs \<Longrightarrow> distinct (head # xs)"
    and repr_init: "repr (init head h) head []"
    and repr_add_before: "repr h head (xs @ ys) \<Longrightarrow> e \<noteq> head \<Longrightarrow> e \<notin> set (xs @ ys) \<Longrightarrow>
      repr (add_before (hd (ys @ [head])) e h) head (xs @ e # ys)"
    and repr_add_after: "repr h head (xs @ ys) \<Longrightarrow> e \<noteq> head \<Longrightarrow> e \<notin> set (xs @ ys) \<Longrightarrow>
      repr (add_after (last (head # xs)) e h) head (xs @ e # ys)"
    and repr_del: "repr h head (xs @ e # ys) \<Longrightarrow> repr (del e h) head (xs @ ys)"
    and repr_empty: "repr h head xs \<Longrightarrow> empty h head \<longleftrightarrow> xs = []"
    and repr_next: "repr h head (xs @ ys) \<Longrightarrow> nx h (last (head # xs)) = hd (ys @ [head])"
    and repr_prev: "repr h head (xs @ ys) \<Longrightarrow> pv h (hd (ys @ [head])) = last (head # xs)"
begin

lemma walk_from:
  assumes "repr h head (xs @ ys)" "length ys < fuel"
  shows "walk (nx h) head fuel (last (head # xs)) = Some ys"
  using assms
proof (induction ys arbitrary: xs fuel)
  case Nil
  then show ?case using repr_next [of h head xs "[]"] by (cases fuel) auto
next
  case (Cons y ys)
  then obtain fuel' where f: "fuel = Suc fuel'" "length ys < fuel'" by (cases fuel) auto
  have n: "nx h (last (head # xs)) = y" "y \<noteq> head"
    using repr_next [OF Cons.prems(1)] repr_distinct [OF Cons.prems(1)] by auto
  have "walk (nx h) head fuel' y = Some ys"
    using Cons.IH [of "xs @ [y]" fuel'] Cons.prems(1) f(2) by simp
  then show ?case using f n by simp
qed

lemma walk_all: "repr h head xs \<Longrightarrow> length xs < fuel \<Longrightarrow> walk (nx h) head fuel head = Some xs"
  using walk_from [of h head "[]" xs fuel] by simp

lemma repr_unique: "repr h head xs \<Longrightarrow> repr h head ys \<Longrightarrow> xs = ys"
  using walk_all [of h head xs "Suc (length xs + length ys)"]
    walk_all [of h head ys "Suc (length xs + length ys)"] by simp

lemma push_back: "repr h head xs \<Longrightarrow> e \<notin> set (head # xs) \<Longrightarrow> repr (add_before head e h) head (xs @ [e])"
  using repr_add_before [of h head xs "[]" e] by simp

lemma push_front: "repr h head xs \<Longrightarrow> e \<notin> set (head # xs) \<Longrightarrow> repr (add_after head e h) head (e # xs)"
  using repr_add_after [of h head "[]" xs e] by simp

lemma first_entry: "repr h head (x # xs) \<Longrightarrow> nx h head = x"
  using repr_next [of h head "[]" "x # xs"] by simp

lemma del_then_back:
  assumes "repr h head (xs @ e # ys)"
  shows "repr (add_before head e (del e h)) head (xs @ ys @ [e])"
  using push_back [OF repr_del [OF assms], of e] repr_distinct [OF assms] by auto

end

interpretation klist: kernel_list dll list_init list_add_before list_add_after list_del list_empty
  list_next list_prev
  by unfold_locales
    (erule dll_distinct | rule dll_list_init | erule (2) dll_add_before dll_add_after
      | erule dll_del dll_empty_iff dll_next dll_prev)+

text \<open>
  C21.  The pointer routines of \<^verbatim>\<open>list.h\<close> refine operations on sequences: from a store in which the
  list of \<open>head\<close> holds \<open>xs @ ys\<close>, \<^verbatim>\<open>list_add_before\<close> and \<^verbatim>\<open>list_add_after\<close> put a fresh entry
  exactly at the seam, \<^verbatim>\<open>list_del_init\<close> of any member takes just this member out and leaves it a
  list of its own, and the iteration every client writes visits the members once, in order, and
  stops at the head.
\<close>

theorem list_routines_refine:
  assumes "dll h head (xs @ ys)" "e \<noteq> head" "e \<notin> set (xs @ ys)"
  shows "dll (list_add_before (hd (ys @ [head])) e h) head (xs @ e # ys)
    \<and> dll (list_add_after (last (head # xs)) e h) head (xs @ e # ys)
    \<and> (let h' = list_del_init e (list_add_before (hd (ys @ [head])) e h)
       in dll h' head (xs @ ys) \<and> dll h' e [])
    \<and> walk (list_next h) head (Suc (length (xs @ ys))) head = Some (xs @ ys)"
  using klist.repr_add_before [OF assms] klist.repr_add_after [OF assms]
    klist.walk_all [OF assms(1), of "Suc (length (xs @ ys))"]
    dll_del_init [OF klist.repr_add_before [OF assms]]
  by (simp add: Let_def)

definition demo_links :: "nat links" where
  "demo_links = list_add_before 0 2 (list_add_after 0 1 (list_init 0
     \<lparr>lprev = (\<lambda>_. 0), lnext = (\<lambda>_. 0)\<rparr>))"

theorem list_routines_refine_witness:
  "dll demo_links 0 ([1] @ [2])
    \<and> dll (list_add_before 2 3 demo_links) 0 [1, 3, 2]
    \<and> walk (list_next demo_links) 0 3 0 = Some [1, 2]"
proof -
  have d: "dll demo_links 0 ([1] @ [2])"
    by (simp add: demo_links_def list_routines dll_def)
  have f: "(3 :: nat) \<noteq> 0" "3 \<notin> set ([1] @ [2 :: nat])" by simp_all
  show ?thesis using d list_routines_refine [OF d f] by (simp add: Let_def numeral_3_eq_3)
qed

end
