(* ===== verification/Block_Spec.thy ===== *)
theory Block_Spec
  imports Prelude
begin

text \<open>
  What the free list of a first-fit allocator promises, stated on sequences of blocks
  \<open>(start, length)\<close>: the list is sorted, no two blocks touch, and it is therefore the only
  block list with its set of free units (\<open>sep_unique\<close>).  The three list transformations of the
  allocator -- taking a block, merging a returned one with its neighbours, putting it back in
  order -- are shown to remove or add exactly the units in question and to keep the shape.
\<close>

type_synonym block = "nat \<times> nat"

fun sep :: "nat \<Rightarrow> block list \<Rightarrow> bool" where
  "sep lo [] = True"
| "sep lo ((p, m) # L) = (lo \<le> p \<and> 0 < m \<and> sep (Suc (p + m)) L)"

definition cover :: "block list \<Rightarrow> nat set" where
  "cover L = (\<Union>(p, m)\<in>set L. {p..<p + m})"

lemma cover_simps [simp]:
  "cover [] = {}"
  "cover ((p, m) # L) = {p..<p + m} \<union> cover L"
  "cover (L @ M) = cover L \<union> cover M"
  by (auto simp: cover_def)

lemma finite_cover [simp]: "finite (cover L)"
  by (auto simp: cover_def)

lemma sep_mono: "sep lo L \<Longrightarrow> lo' \<le> lo \<Longrightarrow> sep lo' L"
  by (cases L) auto

lemma sep_above: "sep lo L \<Longrightarrow> x \<in> cover L \<Longrightarrow> lo \<le> x"
  by (induction lo L rule: sep.induct) fastforce+

lemma sep_starts: "sep lo L \<Longrightarrow> (p, m) \<in> set L \<Longrightarrow> lo \<le> p \<and> 0 < m \<and> p \<in> cover L"
  by (induction lo L rule: sep.induct) (force dest: sep_above)+

lemma sep_distinct: "sep lo L \<Longrightarrow> distinct (map fst L)"
proof (induction lo L rule: sep.induct)
  case (2 lo p m L)
  then show ?case using sep_starts [of "Suc (p + m)" L p] by auto
qed simp

lemma sep_sum: "sep lo L \<Longrightarrow> sum_list (map snd L) = card (cover L)"
proof (induction lo L rule: sep.induct)
  case (2 lo p m L)
  moreover have "card ({p..<p + m} \<union> cover L) = card {p..<p + m} + card (cover L)"
    by (rule card_Un_disjoint) (use 2(2) in \<open>auto dest: sep_above\<close>)
  ultimately show ?case by simp
qed simp

text \<open>A separated list is determined by its cover.\<close>

lemma sep_unique:
  assumes "sep lo L" "sep lo' M" "cover L = cover M"
  shows "L = M"
  using assms
proof (induction lo L arbitrary: lo' M rule: sep.induct)
  case (1 lo)
  then show ?case by (cases M) auto
next
  case (2 lo p m L)
  then obtain q k N where M: "M = (q, k) # N" by (cases M) force+
  have A: "\<And>x. x \<in> cover L \<Longrightarrow> Suc (p + m) \<le> x" and B: "\<And>x. x \<in> cover N \<Longrightarrow> Suc (q + k) \<le> x"
    using 2(2,3) M by (auto dest: sep_above)
  have eq: "{p..<p + m} \<union> cover L = {q..<q + k} \<union> cover N" using 2(4) M by simp
  have pos: "0 < m" "0 < k" using 2(2,3) M by auto
  have "p \<in> {q..<q + k} \<union> cover N" "q \<in> {p..<p + m} \<union> cover L" using eq pos by auto
  then have "p = q" using A [of q] B [of p] by auto
  moreover have "p + m \<notin> {p..<p + m} \<union> cover L" "q + k \<notin> {q..<q + k} \<union> cover N"
    using A [of "p + m"] B [of "q + k"] by auto
  then have "p + m \<notin> {q..<q + k}" "q + k \<notin> {p..<p + m}" using eq by blast+
  then have "m = k" using \<open>p = q\<close> pos by auto
  moreover have "cover L = cover N"
  proof -
    have "cover L = ({p..<p + m} \<union> cover L) - {p..<p + m}" using A by fastforce
    also have "\<dots> = cover N" using eq B \<open>p = q\<close> \<open>m = k\<close> by fastforce
    finally show ?thesis .
  qed
  ultimately show ?case using 2(1) [of "Suc (q + k)" N] 2(2,3) M by simp
qed

section \<open>Merging and placing a block\<close>

fun merge_blocks :: "block list \<Rightarrow> block \<Rightarrow> block list \<times> block" where
  "merge_blocks [] B = ([], B)"
| "merge_blocks ((p, m) # L) (b, k) =
     (if b + k = p then merge_blocks L (b, k + m)
      else if p + m = b then merge_blocks L (p, m + k)
      else let (L', B') = merge_blocks L (b, k) in ((p, m) # L', B'))"

fun insert_block :: "block \<Rightarrow> block list \<Rightarrow> block list" where
  "insert_block B [] = [B]"
| "insert_block B ((p, m) # L) =
     (if fst B + snd B \<le> p then B # (p, m) # L else (p, m) # insert_block B L)"

lemma merge_blocks_apart:
  "sep (Suc (b + k)) L \<Longrightarrow> merge_blocks L (b, k) = (L, (b, k))"
proof (induction L)
  case (Cons pm L)
  obtain p m where pm: "pm = (p, m)" by (cases pm)
  have "sep (Suc (b + k)) L" using Cons.prems pm sep_mono [of "Suc (p + m)" L "Suc (b + k)"] by simp
  with Cons pm show ?case by auto
qed simp

lemma insert_block_front: "sep (b + k) L \<Longrightarrow> insert_block (b, k) L = (b, k) # L"
  by (cases L rule: insert_block.cases [of "((b, k), L)" for L, simplified]) (cases L; auto)+

lemma merge_insert:
  assumes "sep lo L" "lo \<le> b" "0 < k" "{b..<b + k} \<inter> cover L = {}"
    "merge_blocks L (b, k) = (L', (b', k'))"
  shows "lo \<le> b' \<and> sep lo (insert_block (b', k') L') \<and>
    cover (insert_block (b', k') L') = cover L \<union> {b..<b + k}"
  using assms
proof (induction L arbitrary: lo b k L')
  case Nil
  then show ?case by auto
next
  case (Cons pm L)
  obtain p m where pm: "pm = (p, m)" by (cases pm)
  have s: "lo \<le> p" "0 < m" "sep (Suc (p + m)) L" using Cons.prems(1) pm by auto
  have k: "0 < k" "lo \<le> b" by fact+
  have disj: "{b..<b + k} \<inter> {p..<p + m} = {}" "{b..<b + k} \<inter> cover L = {}"
    using Cons.prems(4) unfolding pm cover_simps by blast+
  consider "b + k = p" | "p + m = b" | "b + k < p" | "p + m < b"
  proof (cases "b + k \<le> p \<or> p + m \<le> b")
    case False
    then have "max b p \<in> {b..<b + k} \<inter> {p..<p + m}" using \<open>0 < m\<close> k by (auto simp: max_def)
    with disj show thesis by blast
  qed (use that in linarith)
  then show ?case
  proof cases
    case 1
    have a: "sep (Suc (b + (k + m))) L" using s(3) 1 by (simp add: add.assoc [symmetric])
    have "merge_blocks L (b, k + m) = (L, (b, k + m))" by (rule merge_blocks_apart [OF a])
    then have "L' = L" "b' = b" "k' = k + m" using Cons.prems(5) pm 1 by auto
    moreover have "insert_block (b, k + m) L = (b, k + m) # L"
      by (rule insert_block_front) (use a sep_mono in fastforce)
    ultimately show ?thesis using a k pm 1 by auto
  next
    case 2
    have "merge_blocks L (p, m + k) = (L', (b', k'))"
      using Cons.prems(5) pm 2 k s(2) by auto
    moreover have "{p..<p + (m + k)} \<inter> cover L = {}"
    proof -
      have "{p..<p + (m + k)} \<subseteq> {p..<p + m} \<union> {b..<b + k}" using 2 by auto
      moreover have "{p..<p + m} \<inter> cover L = {}" using sep_above [OF s(3)] by fastforce
      ultimately show ?thesis using disj(2) by blast
    qed
    moreover have "sep lo L" using s sep_mono [of "Suc (p + m)" L lo] by linarith
    ultimately show ?thesis using Cons.IH [of lo p "m + k" L'] s 2 pm k by auto
  next
    case 3
    then have a: "sep (Suc (b + k)) ((p, m) # L)" using s by simp
    then have "L' = (p, m) # L \<and> b' = b \<and> k' = k"
      using merge_blocks_apart [OF a] Cons.prems(5) pm by simp
    then show ?thesis using 3 s pm k by auto
  next
    case 4
    then obtain L'' where r: "merge_blocks L (b, k) = (L'', (b', k'))" "L' = (p, m) # L''"
      using Cons.prems(5) pm s(2) by (auto split: prod.splits if_splits)
    have ih: "Suc (p + m) \<le> b' \<and> sep (Suc (p + m)) (insert_block (b', k') L'') \<and>
      cover (insert_block (b', k') L'') = cover L \<union> {b..<b + k}"
      by (rule Cons.IH [OF s(3) _ k(1) disj(2) r(1)]) (use 4 in simp)
    then show ?thesis using r s pm by auto
  qed
qed

section \<open>Taking a block, first fit\<close>

fun take_block :: "nat \<Rightarrow> block list \<Rightarrow> (nat \<times> block list) option" where
  "take_block n [] = None"
| "take_block n ((p, m) # L) =
     (if n \<le> m then Some (p, (if n < m then (p + n, m - n) # L else L))
      else map_option (\<lambda>(b, L'). (b, (p, m) # L')) (take_block n L))"

definition fits :: "nat \<Rightarrow> block list \<Rightarrow> nat \<Rightarrow> bool" where
  "fits n L b \<longleftrightarrow> {b..<b + n} \<subseteq> cover L"

text \<open>A run of free units lies inside one block, because blocks never touch.\<close>

lemma fits_Cons:
  assumes "sep lo ((p, m) # L)" "0 < n"
  shows "fits n ((p, m) # L) b \<longleftrightarrow> (p \<le> b \<and> b + n \<le> p + m) \<or> fits n L b"
proof
  assume f: "fits n ((p, m) # L) b"
  have above: "\<And>x. x \<in> cover L \<Longrightarrow> Suc (p + m) \<le> x" using assms(1) by (auto dest: sep_above)
  show "(p \<le> b \<and> b + n \<le> p + m) \<or> fits n L b"
  proof (cases "b \<in> cover L")
    case True
    then have "{b..<b + n} \<inter> {p..<p + m} = {}" using above [of b] by auto
    with f show ?thesis unfolding fits_def cover_simps by blast
  next
    case False
    have "b \<in> {b..<b + n}" using assms(2) by simp
    then have "b \<in> {p..<p + m} \<union> cover L" using f unfolding fits_def cover_simps by blast
    with False have b: "p \<le> b" "b < p + m" by auto
    have "b + n \<le> p + m"
    proof (rule ccontr)
      assume "\<not> b + n \<le> p + m"
      then have "p + m \<in> {b..<b + n}" using b by auto
      then have "p + m \<in> {p..<p + m} \<union> cover L" using f unfolding fits_def cover_simps by blast
      then show False using above [of "p + m"] by auto
    qed
    with b show ?thesis by simp
  qed
next
  assume "(p \<le> b \<and> b + n \<le> p + m) \<or> fits n L b"
  then show "fits n ((p, m) # L) b" by (auto simp: fits_def)
qed

lemma take_block_None:
  "sep lo L \<Longrightarrow> 0 < n \<Longrightarrow> take_block n L = None \<longleftrightarrow> (\<forall>b. \<not> fits n L b)"
proof (induction lo L rule: sep.induct)
  case (1 lo)
  then show ?case by (auto simp: fits_def)
next
  case (2 lo p m L)
  show ?case
  proof (cases "n \<le> m")
    case True
    then have "fits n ((p, m) # L) p" using fits_Cons [OF 2(2,3)] by simp
    with True show ?thesis by auto
  next
    case False
    then show ?thesis using 2 fits_Cons [OF 2(2,3)] by auto
  qed
qed

text \<open>
  The block taken is the lowest run of \<open>n\<close> free units there is, and exactly this run leaves
  the free set.
\<close>

lemma take_block_Some:
  "sep lo L \<Longrightarrow> 0 < n \<Longrightarrow> take_block n L = Some (b, L') \<Longrightarrow>
   sep lo L' \<and> cover L' = cover L - {b..<b + n} \<and> fits n L b \<and> (\<forall>c. fits n L c \<longrightarrow> b \<le> c)"
proof (induction lo L arbitrary: L' rule: sep.induct)
  case (2 lo p m L)
  have above: "\<And>x. x \<in> cover L \<Longrightarrow> Suc (p + m) \<le> x" using 2(2) by (auto dest: sep_above)
  show ?case
  proof (cases "n \<le> m")
    case True
    then have L': "b = p" "L' = (if n < m then (p + n, m - n) # L else L)" using 2(4) by auto
    have "sep lo L'" using 2(2,3) L' True sep_mono [of "Suc (p + m)" L lo] by auto
    moreover have "cover L' = cover ((p, m) # L) - {p..<p + n}"
    proof (cases "n < m")
      case True
      then have "{p + n..<p + n + (m - n)} = {p..<p + m} - {p..<p + n}" by auto
      moreover have "cover L \<inter> {p..<p + n} = {}" using above True by fastforce
      ultimately show ?thesis using True L'(2) by auto
    next
      case False
      then have "n = m" "L' = L" using \<open>n \<le> m\<close> L'(2) by auto
      moreover have "cover L \<inter> {p..<p + m} = {}" using above by fastforce
      ultimately show ?thesis unfolding cover_simps by blast
    qed
    moreover have "fits n ((p, m) # L) p" using True fits_Cons [OF 2(2,3)] by simp
    moreover have "\<forall>c. fits n ((p, m) # L) c \<longrightarrow> p \<le> c"
      using 2(3) above by (fastforce simp: fits_def subset_eq)
    ultimately show ?thesis using L'(1) by simp
  next
    case False
    then obtain L'' where t: "take_block n L = Some (b, L'')" "L' = (p, m) # L''"
      using 2(4) by auto
    have ih: "sep (Suc (p + m)) L'' \<and> cover L'' = cover L - {b..<b + n} \<and> fits n L b \<and>
        (\<forall>c. fits n L c \<longrightarrow> b \<le> c)"
      using 2(1) [OF _ 2(3) t(1)] 2(2) by simp
    then have "b \<in> cover L" using 2(3) by (auto simp: fits_def)
    then have "{b..<b + n} \<inter> {p..<p + m} = {}" using above [of b] by auto
    then have "cover L' = cover ((p, m) # L) - {b..<b + n}" using ih t(2) by auto
    then show ?thesis using ih t(2) 2(2) False fits_Cons [OF 2(2,3)] by auto
  qed
qed simp

end
