(* ===== verification/Page_Allocator.thy ===== *)
theory Page_Allocator
  imports Block_Spec
begin

text \<open>
  The interface between the physical page allocator and the rest of the kernel
  (\<^verbatim>\<open>struct pmm_manager\<close> of \<^verbatim>\<open>kern/mm/pmm.h\<close>): \<open>alloc\<close> hands out the lowest run of \<open>n\<close> free
  pages or reports that there is none, \<open>free\<close> takes a run back, and neither panics when it is
  used as intended.  What a client may conclude from these laws alone is proved here once.
\<close>

locale page_allocator =
  fixes inv :: "'s \<Rightarrow> bool"
    and fset :: "'s \<Rightarrow> nat set"
    and us :: "'s \<Rightarrow> nat \<Rightarrow> bool"
    and alloc :: "nat \<Rightarrow> 's \<Rightarrow> (nat option \<times> 's) option"
    and free :: "nat \<Rightarrow> nat \<Rightarrow> 's \<Rightarrow> 's option"
  assumes alloc_law: "inv s \<Longrightarrow> 0 < n \<Longrightarrow>
      \<exists>r s'. alloc n s = Some (r, s') \<and> inv s' \<and> us s' = us s \<and>
        (case r of
           None \<Rightarrow> s' = s \<and> (\<forall>b. \<not> {b..<b + n} \<subseteq> fset s)
         | Some b \<Rightarrow> {b..<b + n} \<subseteq> fset s \<and> fset s' = fset s - {b..<b + n} \<and>
             (\<forall>c. {c..<c + n} \<subseteq> fset s \<longrightarrow> b \<le> c))"
    and free_law: "inv s \<Longrightarrow> 0 < n \<Longrightarrow> {b..<b + n} \<inter> fset s = {} \<Longrightarrow>
      \<forall>x\<in>{b..<b + n}. us s x \<Longrightarrow>
      \<exists>s'. free b n s = Some s' \<and> inv s' \<and> us s' = us s \<and> fset s' = fset s \<union> {b..<b + n}"
    and free_usable: "inv s \<Longrightarrow> x \<in> fset s \<Longrightarrow> us s x"

text \<open>A client that makes a sequence of requests and keeps what it was given.\<close>

fun serve ::
  "(nat \<Rightarrow> 's \<Rightarrow> (nat option \<times> 's) option) \<Rightarrow> nat list \<Rightarrow> 's \<Rightarrow> (block list \<times> 's) option" where
  "serve alloc [] s = Some ([], s)"
| "serve alloc (n # ns) s = do {
     (r, s) \<leftarrow> alloc n s;
     (gs, s) \<leftarrow> serve alloc ns s;
     Some ((case r of None \<Rightarrow> gs | Some b \<Rightarrow> (b, n) # gs), s)
   }"

fun release :: "(nat \<Rightarrow> nat \<Rightarrow> 's \<Rightarrow> 's option) \<Rightarrow> block list \<Rightarrow> 's \<Rightarrow> 's option" where
  "release free [] s = Some s"
| "release free ((b, n) # gs) s = do { s \<leftarrow> free b n s; release free gs s }"

fun apart :: "block list \<Rightarrow> bool" where
  "apart [] = True"
| "apart ((b, n) # gs) = (0 < n \<and> {b..<b + n} \<inter> cover gs = {} \<and> apart gs)"

context page_allocator begin

lemma alloc_free_restores:
  assumes "inv s" "0 < n" "alloc n s = Some (Some b, s1)"
  shows "\<exists>s2. free b n s1 = Some s2 \<and> inv s2 \<and> fset s2 = fset s"
proof -
  have a: "inv s1" "us s1 = us s" "{b..<b + n} \<subseteq> fset s" "fset s1 = fset s - {b..<b + n}"
    using alloc_law [OF assms(1,2)] assms(3) by auto
  have "\<forall>x\<in>{b..<b + n}. us s1 x" using a(2,3) free_usable [OF assms(1)] by auto
  then obtain s2 where "free b n s1 = Some s2" "inv s2" "fset s2 = fset s1 \<union> {b..<b + n}"
    using free_law [OF a(1) assms(2)] a(4) by blast
  with a show ?thesis by blast
qed

lemma serve_grants:
  assumes "inv s" "\<forall>n\<in>set ns. 0 < n"
  shows "\<exists>gs s'. serve alloc ns s = Some (gs, s') \<and> inv s' \<and> us s' = us s \<and> apart gs \<and>
    cover gs \<subseteq> fset s \<and> fset s' = fset s - cover gs"
  using assms
proof (induction ns arbitrary: s)
  case Nil
  then show ?case by simp
next
  case (Cons n ns)
  obtain r s1 where a: "alloc n s = Some (r, s1)" "inv s1" "us s1 = us s"
    "case r of None \<Rightarrow> s1 = s \<and> (\<forall>b. \<not> {b..<b + n} \<subseteq> fset s)
      | Some b \<Rightarrow> {b..<b + n} \<subseteq> fset s \<and> fset s1 = fset s - {b..<b + n} \<and>
          (\<forall>c. {c..<c + n} \<subseteq> fset s \<longrightarrow> b \<le> c)"
    using alloc_law [OF Cons.prems(1), of n] Cons.prems(2) by auto
  obtain gs s' where g: "serve alloc ns s1 = Some (gs, s')" "inv s'" "us s' = us s1" "apart gs"
    "cover gs \<subseteq> fset s1" "fset s' = fset s1 - cover gs"
    using Cons.IH [OF a(2)] Cons.prems(2) by auto
  show ?case
  proof (cases r)
    case None
    then show ?thesis using a g by auto
  next
    case (Some b)
    then have b: "{b..<b + n} \<subseteq> fset s" "fset s1 = fset s - {b..<b + n}" using a(4) by auto
    have "serve alloc (n # ns) s = Some ((b, n) # gs, s')" using a(1) g(1) Some by simp
    moreover have "apart ((b, n) # gs)" using g(4,5) b(2) Cons.prems(2) by auto
    moreover have "cover ((b, n) # gs) \<subseteq> fset s" "fset s' = fset s - cover ((b, n) # gs)"
      using g(5,6) b by auto
    moreover have "us s' = us s" using a(3) g(3) by simp
    ultimately show ?thesis using g(2) by blast
  qed
qed

lemma release_grants:
  assumes "inv s" "apart gs" "cover gs \<inter> fset s = {}" "\<forall>x\<in>cover gs. us s x"
  shows "\<exists>s'. release free gs s = Some s' \<and> inv s' \<and> us s' = us s \<and> fset s' = fset s \<union> cover gs"
  using assms
proof (induction gs arbitrary: s)
  case Nil
  then show ?case by simp
next
  case (Cons g gs)
  obtain b n where g: "g = (b, n)" by (cases g)
  have n: "0 < n" "{b..<b + n} \<inter> cover gs = {}" "apart gs" using Cons.prems(2) g by auto
  obtain s1 where s1: "free b n s = Some s1" "inv s1" "us s1 = us s"
    "fset s1 = fset s \<union> {b..<b + n}"
    using free_law [OF Cons.prems(1) n(1), of b] Cons.prems(3,4) g by auto
  have "cover gs \<inter> fset s1 = {}" "\<forall>x\<in>cover gs. us s1 x"
    using Cons.prems(3,4) n(2) s1(3,4) unfolding g cover_simps by auto
  then obtain s' where "release free gs s1 = Some s'" "inv s'" "us s' = us s1"
    "fset s' = fset s1 \<union> cover gs"
    using Cons.IH [OF s1(2) n(3)] by blast
  then show ?case using s1 g by auto
qed

lemma serve_release_restores:
  assumes "inv s" "\<forall>n\<in>set ns. 0 < n" "serve alloc ns s = Some (gs, s1)"
  shows "\<exists>s2. release free gs s1 = Some s2 \<and> inv s2 \<and> fset s2 = fset s"
proof -
  have g: "inv s1" "us s1 = us s" "apart gs" "cover gs \<subseteq> fset s" "fset s1 = fset s - cover gs"
    using serve_grants [OF assms(1,2)] assms(3) by auto
  have "\<forall>x\<in>cover gs. us s1 x" using g(2,4) free_usable [OF assms(1)] by auto
  then show ?thesis using release_grants [OF g(1,3)] g(4,5) by blast
qed

end

end
