(* ===== verification/First_Fit.thy ===== *)
theory First_Fit
  imports Linked_List Page_Allocator
begin

text \<open>
  The physical page allocator: page descriptors (\<^verbatim>\<open>struct Page\<close> and its flag macros,
  \<^verbatim>\<open>kern/mm/memlayout.h\<close>) and the first-fit manager of \<^verbatim>\<open>kern/mm/default_pmm.c\<close>.  A page
  descriptor is named by its index in the array \<^verbatim>\<open>pages\<close>, so pointer arithmetic on
  descriptors is arithmetic on indices; the free list is the HOL list of the block heads it links
  (\<^verbatim>\<open>list.h\<close> refines lists, see \<^verbatim>\<open>Linked_List\<close>).  Counts are natural numbers: the invariant
  bounds every one of them by the number of managed pages.
\<close>

section \<open>Page descriptors\<close>

record page =
  ref :: int
  flags :: u32
  property :: nat

definition PG_reserved :: nat where "PG_reserved = 0"
definition PG_property :: nat where "PG_property = 1"

type_synonym pages = "nat \<Rightarrow> page"

definition set_page_ref :: "nat \<Rightarrow> int \<Rightarrow> pages \<Rightarrow> pages" where
  "set_page_ref p v pg = pg(p := (pg p)\<lparr>ref := v\<rparr>)"

definition set_flags :: "nat \<Rightarrow> u32 \<Rightarrow> pages \<Rightarrow> pages" where
  "set_flags p v pg = pg(p := (pg p)\<lparr>flags := v\<rparr>)"

definition set_property :: "nat \<Rightarrow> nat \<Rightarrow> pages \<Rightarrow> pages" where
  "set_property p v pg = pg(p := (pg p)\<lparr>property := v\<rparr>)"

definition PageReserved :: "pages \<Rightarrow> nat \<Rightarrow> bool" where
  "PageReserved pg p = bit (flags (pg p)) PG_reserved"

definition PageProperty :: "pages \<Rightarrow> nat \<Rightarrow> bool" where
  "PageProperty pg p = bit (flags (pg p)) PG_property"

definition SetPageProperty :: "nat \<Rightarrow> pages \<Rightarrow> pages" where
  "SetPageProperty p pg = set_flags p (set_bit PG_property (flags (pg p))) pg"

definition ClearPageProperty :: "nat \<Rightarrow> pages \<Rightarrow> pages" where
  "ClearPageProperty p pg = set_flags p (unset_bit PG_property (flags (pg p))) pg"

definition SetPageReserved :: "nat \<Rightarrow> pages \<Rightarrow> pages" where
  "SetPageReserved p pg = set_flags p (set_bit PG_reserved (flags (pg p))) pg"

lemma page_writes [simp]:
  "property (set_page_ref p v pg x) = property (pg x)"
  "flags (set_page_ref p v pg x) = flags (pg x)"
  "ref (set_page_ref p v pg x) = (if x = p then v else ref (pg x))"
  "property (set_flags p w pg x) = property (pg x)"
  "flags (set_flags p w pg x) = (if x = p then w else flags (pg x))"
  "ref (set_flags p w pg x) = ref (pg x)"
  "property (set_property p k pg x) = (if x = p then k else property (pg x))"
  "flags (set_property p k pg x) = flags (pg x)"
  "ref (set_property p k pg x) = ref (pg x)"
  by (simp_all add: set_page_ref_def set_flags_def set_property_def)

lemma flag_reads [simp]:
  "PageProperty (set_page_ref p v pg) x = PageProperty pg x"
  "PageReserved (set_page_ref p v pg) x = PageReserved pg x"
  "PageProperty (set_property p k pg) x = PageProperty pg x"
  "PageReserved (set_property p k pg) x = PageReserved pg x"
  "PageProperty (set_flags p 0 pg) x = (x \<noteq> p \<and> PageProperty pg x)"
  "PageReserved (set_flags p 0 pg) x = (x \<noteq> p \<and> PageReserved pg x)"
  "PageProperty (SetPageProperty p pg) x = (x = p \<or> PageProperty pg x)"
  "PageReserved (SetPageProperty p pg) x = PageReserved pg x"
  "PageProperty (ClearPageProperty p pg) x = (x \<noteq> p \<and> PageProperty pg x)"
  "PageReserved (ClearPageProperty p pg) x = PageReserved pg x"
  by (auto simp: PageProperty_def PageReserved_def SetPageProperty_def ClearPageProperty_def
      PG_property_def PG_reserved_def bit_set_bit_iff bit_unset_bit_iff)

lemma flag_writes [simp]:
  "property (SetPageProperty p pg x) = property (pg x)"
  "ref (SetPageProperty p pg x) = ref (pg x)"
  "property (ClearPageProperty p pg x) = property (pg x)"
  "ref (ClearPageProperty p pg x) = ref (pg x)"
  by (simp_all add: SetPageProperty_def ClearPageProperty_def)

section \<open>The first-fit manager\<close>

record pmm =
  pages :: pages
  free_list :: "nat list"
  nr_free :: nat

definition default_init :: "pmm \<Rightarrow> pmm" where
  "default_init s = s\<lparr>free_list := [], nr_free := 0\<rparr>"

fun init_pages :: "nat \<Rightarrow> nat \<Rightarrow> pages \<Rightarrow> pages option" where
  "init_pages p 0 pg = Some pg"
| "init_pages p (Suc n) pg = do {
     kassert (PageReserved pg p);
     init_pages (Suc p) n (set_page_ref p 0 (set_property p 0 (set_flags p 0 pg)))
   }"

definition default_init_memmap :: "nat \<Rightarrow> nat \<Rightarrow> pmm \<Rightarrow> pmm option" where
  "default_init_memmap base n s = do {
     kassert (n > 0);
     pg \<leftarrow> init_pages base n (pages s);
     Some (s\<lparr>pages := SetPageProperty base (set_property base n pg),
             nr_free := nr_free s + n,
             free_list := free_list s @ [base]\<rparr>)
   }"

fun insert_after :: "'a \<Rightarrow> 'a \<Rightarrow> 'a list \<Rightarrow> 'a list" where
  "insert_after x y [] = []"
| "insert_after x y (z # zs) = (if z = x then z # y # zs else z # insert_after x y zs)"

definition default_alloc_pages :: "nat \<Rightarrow> pmm \<Rightarrow> (nat option \<times> pmm) option" where
  "default_alloc_pages n s = do {
     kassert (n > 0);
     if n > nr_free s then Some (None, s)
     else (case find (\<lambda>p. property (pages s p) \<ge> n) (free_list s) of
         None \<Rightarrow> Some (None, s)
       | Some page \<Rightarrow>
           let s1 = (if property (pages s page) > n then
                 let p = page + n in
                 s\<lparr>pages := SetPageProperty p
                      (set_property p (property (pages s page) - n) (pages s)),
                   free_list := insert_after page p (free_list s)\<rparr>
               else s)
           in Some (Some page,
                s1\<lparr>free_list := remove1 page (free_list s1),
                   nr_free := nr_free s1 - n,
                   pages := ClearPageProperty page (pages s1)\<rparr>))
   }"

fun free_reset :: "nat \<Rightarrow> nat \<Rightarrow> pages \<Rightarrow> pages option" where
  "free_reset p 0 pg = Some pg"
| "free_reset p (Suc n) pg = do {
     kassert (\<not> PageReserved pg p \<and> \<not> PageProperty pg p);
     free_reset (Suc p) n (set_page_ref p 0 (set_flags p 0 pg))
   }"

text \<open>
  The merging loop reads the successor of an entry before it unlinks the entry, so it visits the
  entries the list had when the loop began.
\<close>

fun merge_loop :: "nat list \<Rightarrow> pages \<Rightarrow> nat list \<Rightarrow> nat \<Rightarrow> pages \<times> nat list \<times> nat" where
  "merge_loop [] pg fl base = (pg, fl, base)"
| "merge_loop (p # le) pg fl base =
     (if base + property (pg base) = p then
        merge_loop le
          (ClearPageProperty p (set_property base (property (pg base) + property (pg p)) pg))
          (remove1 p fl) base
      else if p + property (pg p) = base then
        merge_loop le
          (ClearPageProperty base (set_property p (property (pg p) + property (pg base)) pg))
          (remove1 p fl) p
      else merge_loop le pg fl base)"

fun place_block :: "pages \<Rightarrow> nat \<Rightarrow> nat list \<Rightarrow> nat list option" where
  "place_block pg base [] = Some [base]"
| "place_block pg base (p # le) =
     (if base + property (pg base) \<le> p then do {
        kassert (base + property (pg base) \<noteq> p);
        Some (base # p # le)
      } else map_option ((#) p) (place_block pg base le))"

definition default_free_pages :: "nat \<Rightarrow> nat \<Rightarrow> pmm \<Rightarrow> pmm option" where
  "default_free_pages base n s = do {
     kassert (n > 0);
     pg \<leftarrow> free_reset base n (pages s);
     let pg = SetPageProperty base (set_property base n pg);
     let (pg, fl, base') = merge_loop (free_list s) pg (free_list s) base;
     fl \<leftarrow> place_block pg base' fl;
     Some (s\<lparr>pages := pg, free_list := fl, nr_free := nr_free s + n\<rparr>)
   }"

definition default_nr_free_pages :: "pmm \<Rightarrow> nat" where
  "default_nr_free_pages s = nr_free s"

section \<open>The free list as a block list\<close>

definition blk :: "pages \<Rightarrow> nat \<Rightarrow> block" where
  "blk pg p = (p, property (pg p))"

definition blocks :: "pmm \<Rightarrow> block list" where
  "blocks s = map (blk (pages s)) (free_list s)"

definition free_set :: "pmm \<Rightarrow> nat set" where
  "free_set s = cover (blocks s)"

definition usable :: "nat \<Rightarrow> pmm \<Rightarrow> nat \<Rightarrow> bool" where
  "usable N s x \<longleftrightarrow> x < N \<and> \<not> PageReserved (pages s) x"

definition ff_inv :: "nat \<Rightarrow> pmm \<Rightarrow> bool" where
  "ff_inv N s \<longleftrightarrow> sep 0 (blocks s) \<and> (\<forall>x\<in>free_set s. usable N s x) \<and>
     nr_free s = card (free_set s) \<and>
     (\<forall>x<N. PageProperty (pages s) x \<longleftrightarrow> x \<in> set (free_list s))"

lemma fst_blk [simp]: "fst (blk pg p) = p" "fst \<circ> blk pg = id" "snd (blk pg p) = property (pg p)"
  by (auto simp: blk_def)

lemma blk_cong: "\<forall>x\<in>set xs. property (pg x) = property (pg' x) \<Longrightarrow> map (blk pg) xs = map (blk pg') xs"
  by (simp add: blk_def)

lemma sep_blk_distinct: "sep lo (map (blk pg) fl) \<Longrightarrow> distinct fl"
  using sep_distinct [of lo "map (blk pg) fl"] by simp

lemma sep_blk_cover: "sep lo (map (blk pg) fl) \<Longrightarrow> p \<in> set fl \<Longrightarrow> p \<in> cover (map (blk pg) fl)"
  using sep_starts [of lo "map (blk pg) fl" p "property (pg p)"] by (auto simp: blk_def image_iff)

lemma insert_after_split: "q \<notin> set ys \<Longrightarrow> insert_after q p (ys @ q # zs) = ys @ q # p # zs"
  by (induction ys) auto

lemma find_split:
  "find P xs = Some q \<Longrightarrow> \<exists>ys zs. xs = ys @ q # zs \<and> P q \<and> (\<forall>y\<in>set ys. \<not> P y)"
proof (induction xs)
  case (Cons x xs)
  show ?case
  proof (cases "P x")
    case True
    then have "x # xs = [] @ q # xs \<and> P q" using Cons.prems by simp
    then show ?thesis by fastforce
  next
    case False
    then obtain ys zs where "xs = ys @ q # zs \<and> P q \<and> (\<forall>y\<in>set ys. \<not> P y)"
      using Cons by auto
    then have "x # xs = (x # ys) @ q # zs \<and> P q \<and> (\<forall>y\<in>set (x # ys). \<not> P y)"
      using False by simp
    then show ?thesis by blast
  qed
qed simp

lemma take_block_none_blk:
  "take_block n (map (blk pg) fl) = None \<longleftrightarrow> find (\<lambda>p. property (pg p) \<ge> n) fl = None"
  by (induction fl) (auto simp: blk_def)

lemma take_block_split:
  "\<forall>y\<in>set ys. property (pg y) < n \<Longrightarrow> n \<le> property (pg q) \<Longrightarrow>
   take_block n (map (blk pg) (ys @ q # zs)) =
     Some (q, map (blk pg) ys @
       (if n < property (pg q) then [(q + n, property (pg q) - n)] else []) @ map (blk pg) zs)"
  by (induction ys) (auto simp: blk_def)

lemma sep_block_member:
  "sep lo L \<Longrightarrow> (p, m) \<in> set L \<Longrightarrow> (q, k) \<in> set L \<Longrightarrow> p < q \<Longrightarrow> p + m < q"
proof (induction lo L rule: sep.induct)
  case (2 lo p' m' L)
  have "(q, k) \<in> set L" using 2 sep_starts [of "Suc (p' + m')" L p m] by auto
  moreover have "p = p' \<and> m = m' \<Longrightarrow> p + m < q"
    using sep_starts [of "Suc (p' + m')" L q k] 2(2) calculation by auto
  ultimately show ?case using 2 by auto
qed simp

section \<open>Allocation refines taking a block\<close>

lemma alloc_refines_none:
  assumes "ff_inv N s" "0 < n" "take_block n (blocks s) = None"
  shows "default_alloc_pages n s = Some (None, s)"
  using assms by (auto simp: default_alloc_pages_def blocks_def take_block_none_blk)

lemma member_le_nr_free:
  assumes "ff_inv N s" "q \<in> set (free_list s)"
  shows "property (pages s q) \<le> nr_free s"
proof -
  have "property (pages s q) \<in> set (map snd (blocks s))"
    using assms(2) by (auto simp: blocks_def image_iff blk_def)
  then have "property (pages s q) \<le> sum_list (map snd (blocks s))" by (rule member_le_sum_list) simp
  then show ?thesis using assms(1) sep_sum by (auto simp: ff_inv_def free_set_def)
qed

lemma alloc_refines_some:
  assumes inv: "ff_inv N s" and n: "0 < n" and t: "take_block n (blocks s) = Some (b, L')"
  shows "\<exists>s'. default_alloc_pages n s = Some (Some b, s') \<and> blocks s' = L' \<and>
    nr_free s' = nr_free s - n \<and> PageReserved (pages s') = PageReserved (pages s) \<and>
    (\<forall>x<N. PageProperty (pages s') x \<longleftrightarrow> x \<in> set (free_list s'))"
proof -
  let ?pg = "pages s"
  obtain q where f: "find (\<lambda>p. property (?pg p) \<ge> n) (free_list s) = Some q"
    using t take_block_none_blk [of n ?pg "free_list s"] by (cases "find (\<lambda>p. property (?pg p) \<ge> n) (free_list s)") (auto simp: blocks_def)
  obtain ys zs where fl: "free_list s = ys @ q # zs" and q: "n \<le> property (?pg q)"
    and ys: "\<forall>y\<in>set ys. property (?pg y) < n"
    using find_split [OF f] by (auto simp: not_le)
  have sep: "sep 0 (map (blk ?pg) (ys @ q # zs))" using inv fl by (simp add: ff_inv_def blocks_def)
  then have dist: "distinct (ys @ q # zs)" by (rule sep_blk_distinct)
  have bL: "b = q" "L' = map (blk ?pg) ys @
      (if n < property (?pg q) then [(q + n, property (?pg q) - n)] else []) @ map (blk ?pg) zs"
    using t take_block_split [OF ys q, of zs] by (auto simp: blocks_def fl)
  have le: "property (?pg q) \<le> nr_free s" using member_le_nr_free [OF inv] fl by simp
  have new: "q + n \<notin> set (ys @ q # zs)" if "n < property (?pg q)"
  proof
    assume "q + n \<in> set (ys @ q # zs)"
    then have m: "(q + n, property (?pg (q + n))) \<in> set (map (blk ?pg) (ys @ q # zs))"
      by (auto simp: blk_def image_iff)
    have m': "(q, property (?pg q)) \<in> set (map (blk ?pg) (ys @ q # zs))" by (auto simp: blk_def)
    from sep_block_member [OF sep m' m] have "q + property (?pg q) < q + n" using n by simp
    then show False using that by simp
  qed
  have flg: "\<forall>x<N. PageProperty ?pg x \<longleftrightarrow> x \<in> set (ys @ q # zs)"
    using inv fl by (simp add: ff_inv_def)
  show ?thesis
  proof (cases "n < property (?pg q)")
    case True
    let ?s' = "s\<lparr>pages := ClearPageProperty q (SetPageProperty (q + n)
        (set_property (q + n) (property (?pg q) - n) ?pg)),
        free_list := ys @ (q + n) # zs, nr_free := nr_free s - n\<rparr>"
    have "default_alloc_pages n s = Some (Some q, ?s')"
      using f fl n q le True dist insert_after_split [of q ys "q + n" zs]
      by (auto simp: default_alloc_pages_def Let_def remove1_append)
    moreover have "blocks ?s' = L'" using bL True new by (auto simp: blocks_def blk_def)
    moreover have "\<forall>x<N. PageProperty (pages ?s') x \<longleftrightarrow> x \<in> set (free_list ?s')"
      using flg dist new True n by auto
    ultimately show ?thesis using bL(1) by auto
  next
    case False
    let ?s' = "s\<lparr>free_list := ys @ zs, nr_free := nr_free s - n, pages := ClearPageProperty q ?pg\<rparr>"
    have "default_alloc_pages n s = Some (Some q, ?s')"
      using f fl n q le False dist by (auto simp: default_alloc_pages_def Let_def remove1_append)
    moreover have "blocks ?s' = L'" using bL False by (auto simp: blocks_def blk_def)
    moreover have "\<forall>x<N. PageProperty (pages ?s') x \<longleftrightarrow> x \<in> set (free_list ?s')"
      using flg dist by auto
    ultimately show ?thesis using bL(1) by auto
  qed
qed

lemma alloc_contract:
  assumes inv: "ff_inv N s" and n: "0 < n"
  shows "\<exists>r s'. default_alloc_pages n s = Some (r, s') \<and> ff_inv N s' \<and> usable N s' = usable N s \<and>
    (case r of
       None \<Rightarrow> s' = s \<and> (\<forall>b. \<not> {b..<b + n} \<subseteq> free_set s)
     | Some b \<Rightarrow> {b..<b + n} \<subseteq> free_set s \<and> free_set s' = free_set s - {b..<b + n} \<and>
         (\<forall>c. {c..<c + n} \<subseteq> free_set s \<longrightarrow> b \<le> c))"
proof (cases "take_block n (blocks s)")
  case None
  then have "\<forall>b. \<not> {b..<b + n} \<subseteq> free_set s"
    using take_block_None [of 0 "blocks s" n] inv n by (simp add: ff_inv_def fits_def free_set_def)
  then show ?thesis using alloc_refines_none [OF inv n None] inv by auto
next
  case (Some bL)
  obtain b L' where bL: "bL = (b, L')" by (cases bL)
  obtain s' where s': "default_alloc_pages n s = Some (Some b, s')" "blocks s' = L'"
    "nr_free s' = nr_free s - n" "PageReserved (pages s') = PageReserved (pages s)"
    "\<forall>x<N. PageProperty (pages s') x \<longleftrightarrow> x \<in> set (free_list s')"
    using alloc_refines_some [OF inv n] Some bL by blast
  have t: "sep 0 L' \<and> cover L' = free_set s - {b..<b + n} \<and> {b..<b + n} \<subseteq> free_set s \<and>
      (\<forall>c. {c..<c + n} \<subseteq> free_set s \<longrightarrow> b \<le> c)"
    using take_block_Some [of 0 "blocks s" n b L'] inv n Some bL
    by (simp add: ff_inv_def fits_def free_set_def)
  have us: "usable N s' = usable N s" using s'(4) by (auto simp: usable_def)
  have "card (free_set s - {b..<b + n}) = card (free_set s) - n"
    using t by (simp add: card_Diff_subset)
  then have "ff_inv N s'" using inv t s' us by (simp add: ff_inv_def free_set_def)
  then show ?thesis using s' t us by (auto simp: free_set_def)
qed

section \<open>Freeing refines merging and placing\<close>

lemma free_reset_ok:
  "\<forall>x\<in>{p..<p + n}. \<not> PageReserved pg x \<and> \<not> PageProperty pg x \<Longrightarrow>
   \<exists>pg'. free_reset p n pg = Some pg' \<and> (\<forall>x. property (pg' x) = property (pg x)) \<and>
     (\<forall>x. PageProperty pg' x = PageProperty pg x) \<and>
     (\<forall>x. PageReserved pg' x = PageReserved pg x)"
proof (induction p n pg rule: free_reset.induct)
  case (2 p n pg)
  let ?pg = "set_page_ref p 0 (set_flags p 0 pg)"
  have p: "\<not> PageReserved pg p" "\<not> PageProperty pg p" using 2(2) by auto
  have "\<forall>x\<in>{Suc p..<Suc p + n}. \<not> PageReserved ?pg x \<and> \<not> PageProperty ?pg x"
    using 2(2) by auto
  then obtain pg' where "free_reset (Suc p) n ?pg = Some pg'"
    "\<forall>x. property (pg' x) = property (?pg x)" "\<forall>x. PageProperty pg' x = PageProperty ?pg x"
    "\<forall>x. PageReserved pg' x = PageReserved ?pg x"
    using 2(1) p by auto
  then show ?case using p by auto
qed simp

definition heads_ok :: "nat \<Rightarrow> pages \<Rightarrow> nat list \<Rightarrow> nat \<Rightarrow> bool" where
  "heads_ok N pg fl base \<longleftrightarrow> distinct fl \<and> base \<notin> set fl \<and> base < N \<and>
     (\<forall>x\<in>set fl. x < N) \<and> (\<forall>x<N. PageProperty pg x \<longleftrightarrow> x = base \<or> x \<in> set fl)"

lemma merge_loop_refines:
  assumes "heads_ok N pg (dn @ le) base" "merge_loop le pg (dn @ le) base = (pg', fl', base')"
    "merge_blocks (map (blk pg) le) (blk pg base) = (L', B')"
  shows "heads_ok N pg' fl' base' \<and> map (blk pg') fl' = map (blk pg) dn @ L' \<and>
    blk pg' base' = B' \<and> PageReserved pg' = PageReserved pg"
  using assms
proof (induction le arbitrary: pg base dn L')
  case Nil
  then show ?case by auto
next
  case (Cons p le)
  have h: "distinct (dn @ p # le)" "base \<notin> set (dn @ p # le)"
    using Cons.prems(1) by (auto simp: heads_ok_def)
  have rm: "remove1 p (dn @ p # le) = dn @ le" using h by (simp add: remove1_append)
  consider (joins_next) "base + property (pg base) = p"
    | (joins_prev) "base + property (pg base) \<noteq> p" "p + property (pg p) = base"
    | (apart) "base + property (pg base) \<noteq> p" "p + property (pg p) \<noteq> base" by blast
  then show ?case
  proof cases
    case joins_next
    let ?pg = "ClearPageProperty p (set_property base (property (pg base) + property (pg p)) pg)"
    have b: "map (blk ?pg) dn = map (blk pg) dn" "map (blk ?pg) le = map (blk pg) le"
      using h by (auto simp: blk_def)
    have "heads_ok N ?pg (dn @ le) base" using Cons.prems(1) by (auto simp: heads_ok_def)
    moreover have "merge_loop le ?pg (dn @ le) base = (pg', fl', base')"
      using Cons.prems(2) joins_next rm by simp
    moreover have "merge_blocks (map (blk ?pg) le) (blk ?pg base) = (L', B')"
      using Cons.prems(3) joins_next
      by (simp add: b blk_def [of pg p] blk_def [of pg base] blk_def [of ?pg base] del: map_eq_conv)
    ultimately show ?thesis using Cons.IH [of ?pg dn base L'] b by auto
  next
    case joins_prev
    let ?pg = "ClearPageProperty base (set_property p (property (pg p) + property (pg base)) pg)"
    have b: "map (blk ?pg) dn = map (blk pg) dn" "map (blk ?pg) le = map (blk pg) le"
      using h by (auto simp: blk_def)
    have "heads_ok N ?pg (dn @ le) p" using Cons.prems(1) by (auto simp: heads_ok_def)
    moreover have "merge_loop le ?pg (dn @ le) p = (pg', fl', base')"
      using Cons.prems(2) joins_prev rm by simp
    moreover have "merge_blocks (map (blk ?pg) le) (blk ?pg p) = (L', B')"
      using Cons.prems(3) joins_prev
      by (simp add: b blk_def [of pg p] blk_def [of pg base] blk_def [of ?pg p] del: map_eq_conv)
    ultimately show ?thesis using Cons.IH [of ?pg dn p L'] b by auto
  next
    case apart
    obtain L'' where L'': "merge_blocks (map (blk pg) le) (blk pg base) = (L'', B')"
      "L' = blk pg p # L''"
      using Cons.prems(3) apart
      by (auto simp: blk_def [of pg p] blk_def [of pg base] split: prod.splits)
    have "merge_loop le pg ((dn @ [p]) @ le) base = (pg', fl', base')"
      using Cons.prems(2) apart by simp
    then show ?thesis using Cons.IH [of pg "dn @ [p]" base L''] Cons.prems(1) L'' by simp
  qed
qed

lemma place_block_refines:
  assumes "sep lo (insert_block (blk pg base) (map (blk pg) fl))"
  shows "\<exists>fl'. place_block pg base fl = Some fl' \<and> set fl' = insert base (set fl) \<and>
    map (blk pg) fl' = insert_block (blk pg base) (map (blk pg) fl)"
  using assms
proof (induction fl arbitrary: lo)
  case (Cons p fl)
  show ?case
  proof (cases "base + property (pg base) \<le> p")
    case True
    then show ?thesis using Cons.prems by (auto simp: blk_def)
  next
    case False
    then obtain fl' where "place_block pg base fl = Some fl'" "set fl' = insert base (set fl)"
      "map (blk pg) fl' = insert_block (blk pg base) (map (blk pg) fl)"
      using Cons.IH [of "Suc (p + property (pg p))"] Cons.prems
      by (auto simp: blk_def [of pg p] blk_def [of pg base])
    then show ?thesis using False by (auto simp: blk_def [of pg p] blk_def [of pg base])
  qed
qed simp

lemma free_contract:
  assumes inv: "ff_inv N s" and n: "0 < n" and disj: "{b..<b + n} \<inter> free_set s = {}"
    and us: "\<forall>x\<in>{b..<b + n}. usable N s x"
  shows "\<exists>s'. default_free_pages b n s = Some s' \<and> ff_inv N s' \<and> usable N s' = usable N s \<and>
    free_set s' = free_set s \<union> {b..<b + n}"
proof -
  let ?fl = "free_list s"
  have sep: "sep 0 (map (blk (pages s)) ?fl)" using inv by (simp add: ff_inv_def blocks_def)
  have heads: "\<forall>x\<in>set ?fl. x \<in> free_set s"
    using sep_blk_cover [OF sep] by (simp add: free_set_def blocks_def)
  have flag: "PageProperty (pages s) x \<longleftrightarrow> x \<in> set ?fl" if "x < N" for x
    using inv that by (simp add: ff_inv_def)
  have clear: "\<not> PageReserved (pages s) x \<and> \<not> PageProperty (pages s) x" if "x \<in> {b..<b + n}" for x
    using that us disj heads flag [of x] by (auto simp: usable_def)
  then obtain pg where pg: "free_reset b n (pages s) = Some pg"
    "\<forall>x. property (pg x) = property (pages s x)"
    "\<forall>x. PageProperty pg x = PageProperty (pages s) x"
    "\<forall>x. PageReserved pg x = PageReserved (pages s) x"
    using free_reset_ok [of b n "pages s"] by blast
  define pg1 where "pg1 = SetPageProperty b (set_property b n pg)"
  have bs: "b \<in> {b..<b + n}" using n by simp
  have "b \<notin> free_set s" using bs disj by blast
  then have bfl: "b \<notin> set ?fl" using heads by blast
  have bN: "b < N" using bs us by (auto simp: usable_def)
  have h: "heads_ok N pg1 ?fl b"
    using sep_blk_distinct [OF sep] bfl bN flag inv heads pg
    by (auto simp: heads_ok_def pg1_def ff_inv_def usable_def)
  have bl: "map (blk pg1) ?fl = blocks s" "blk pg1 b = (b, n)"
    using bfl pg by (auto simp: pg1_def blocks_def blk_def)
  obtain pg2 fl2 b2 where ml: "merge_loop ?fl pg1 ?fl b = (pg2, fl2, b2)" by (cases "merge_loop ?fl pg1 ?fl b") auto
  obtain L' B' where mb: "merge_blocks (blocks s) (b, n) = (L', B')"
    by (cases "merge_blocks (blocks s) (b, n)")
  have m: "heads_ok N pg2 fl2 b2" "map (blk pg2) fl2 = L'" "blk pg2 b2 = B'" "PageReserved pg2 = PageReserved pg1"
    using merge_loop_refines [of N pg1 "[]" ?fl b pg2 fl2 b2 L' B'] h ml mb bl by auto
  have ib: "sep 0 (insert_block B' L')" "cover (insert_block B' L') = free_set s \<union> {b..<b + n}"
    using merge_insert [of 0 "blocks s" b n L' "fst B'" "snd B'"] sep n disj mb
    by (auto simp: blocks_def free_set_def)
  then obtain fl3 where pl: "place_block pg2 b2 fl2 = Some fl3" "set fl3 = insert b2 (set fl2)"
    "map (blk pg2) fl3 = insert_block B' L'"
    using place_block_refines [of 0 pg2 b2 fl2] m by auto
  let ?s' = "s\<lparr>pages := pg2, free_list := fl3, nr_free := nr_free s + n\<rparr>"
  have run: "default_free_pages b n s = Some ?s'"
    using n pg(1) pl(1) ml by (simp add: default_free_pages_def pg1_def)
  have fs: "free_set ?s' = free_set s \<union> {b..<b + n}" "sep 0 (blocks ?s')"
    using pl(3) ib by (simp_all add: free_set_def blocks_def)
  have us': "usable N ?s' = usable N s" using m(4) pg(4) by (auto simp: usable_def pg1_def)
  have "card (free_set s \<union> {b..<b + n}) = card (free_set s) + n"
    using disj by (simp add: card_Un_disjoint free_set_def Int_commute)
  moreover have "\<forall>x\<in>free_set ?s'. usable N ?s' x" using fs(1) us' us inv by (auto simp: ff_inv_def)
  moreover have "\<forall>x<N. PageProperty (pages ?s') x \<longleftrightarrow> x \<in> set (free_list ?s')"
    using m(1) pl(2) by (auto simp: heads_ok_def)
  ultimately have "ff_inv N ?s'" using fs inv by (simp add: ff_inv_def)
  then show ?thesis using run fs(1) us' by blast
qed

section \<open>Initialisation establishes the invariant\<close>

lemma init_pages_ok:
  "\<forall>x\<in>{p..<p + n}. PageReserved pg x \<Longrightarrow>
   \<exists>pg'. init_pages p n pg = Some pg' \<and>
     (\<forall>x. PageProperty pg' x \<longleftrightarrow> PageProperty pg x \<and> x \<notin> {p..<p + n}) \<and>
     (\<forall>x. PageReserved pg' x \<longleftrightarrow> PageReserved pg x \<and> x \<notin> {p..<p + n})"
proof (induction p n pg rule: init_pages.induct)
  case (2 p n pg)
  let ?pg = "set_page_ref p 0 (set_property p 0 (set_flags p 0 pg))"
  have p: "PageReserved pg p" using 2(2) by auto
  have "\<forall>x\<in>{Suc p..<Suc p + n}. PageReserved ?pg x" using 2(2) by auto
  from 2(1) [OF kassert_eq_Some [THEN iffD2, OF p] this]
  obtain pg' where pg': "init_pages (Suc p) n ?pg = Some pg'"
    "\<forall>x. PageProperty pg' x \<longleftrightarrow> PageProperty ?pg x \<and> x \<notin> {Suc p..<Suc p + n}"
    "\<forall>x. PageReserved pg' x \<longleftrightarrow> PageReserved ?pg x \<and> x \<notin> {Suc p..<Suc p + n}"
    by blast
  moreover have "{p..<p + Suc n} = insert p {Suc p..<Suc p + n}" by auto
  ultimately show ?case using p by (intro exI [of _ pg']) (simp, blast)
qed simp

lemma init_memmap_contract:
  assumes n: "0 < n" "b + n \<le> N" and res: "\<forall>x<N. PageReserved (pages s) x \<and> \<not> PageProperty (pages s) x"
  shows "\<exists>s'. default_init_memmap b n (default_init s) = Some s' \<and> ff_inv N s' \<and>
    free_set s' = {b..<b + n} \<and> (\<forall>x. usable N s' x \<longleftrightarrow> x \<in> {b..<b + n})"
proof -
  have "\<forall>x\<in>{b..<b + n}. PageReserved (pages s) x" using n res by auto
  then obtain pg where pg: "init_pages b n (pages s) = Some pg"
    "\<forall>x. PageProperty pg x \<longleftrightarrow> PageProperty (pages s) x \<and> x \<notin> {b..<b + n}"
    "\<forall>x. PageReserved pg x \<longleftrightarrow> PageReserved (pages s) x \<and> x \<notin> {b..<b + n}"
    using init_pages_ok [of b n "pages s"] by blast
  let ?s' = "s\<lparr>pages := SetPageProperty b (set_property b n pg), nr_free := n, free_list := [b]\<rparr>"
  have run: "default_init_memmap b n (default_init s) = Some ?s'"
    using n pg(1) by (simp add: default_init_memmap_def default_init_def)
  have bl: "blocks ?s' = [(b, n)]" by (simp add: blocks_def blk_def)
  have us: "usable N ?s' x \<longleftrightarrow> x \<in> {b..<b + n}" for x
    using pg(3) n res by (auto simp: usable_def)
  have "ff_inv N ?s'" using bl us n pg res by (auto simp: ff_inv_def free_set_def)
  then show ?thesis using run bl us by (auto simp: free_set_def)
qed

section \<open>The manager implements the interface\<close>

interpretation ff: page_allocator "ff_inv N" free_set "usable N" default_alloc_pages default_free_pages
  for N
proof
  show "\<exists>r s'. default_alloc_pages n s = Some (r, s') \<and> ff_inv N s' \<and> usable N s' = usable N s \<and>
      (case r of None \<Rightarrow> s' = s \<and> (\<forall>b. \<not> {b..<b + n} \<subseteq> free_set s)
       | Some b \<Rightarrow> {b..<b + n} \<subseteq> free_set s \<and> free_set s' = free_set s - {b..<b + n} \<and>
           (\<forall>c. {c..<c + n} \<subseteq> free_set s \<longrightarrow> b \<le> c))"
    if "ff_inv N s" "0 < n" for s n
    by (rule alloc_contract [OF that])
  show "\<exists>s'. default_free_pages b n s = Some s' \<and> ff_inv N s' \<and> usable N s' = usable N s \<and>
      free_set s' = free_set s \<union> {b..<b + n}"
    if "ff_inv N s" "0 < n" "{b..<b + n} \<inter> free_set s = {}" "\<forall>x\<in>{b..<b + n}. usable N s x" for s n b
    by (rule free_contract [OF that])
  show "usable N s x" if "ff_inv N s" "x \<in> free_set s" for s x
    using that by (simp add: ff_inv_def)
qed

lemma free_list_determined:
  assumes "ff_inv N s" "ff_inv N s'" "free_set s = free_set s'"
  shows "free_list s = free_list s' \<and> nr_free s = nr_free s' \<and>
    (\<forall>p\<in>set (free_list s). property (pages s p) = property (pages s' p))"
proof -
  have "blocks s = blocks s'"
    using sep_unique [of 0 "blocks s" 0 "blocks s'"] assms by (simp add: ff_inv_def free_set_def)
  then have b: "map (blk (pages s)) (free_list s) = map (blk (pages s')) (free_list s')"
    by (simp add: blocks_def)
  have "map fst (map (blk (pages s)) (free_list s)) = map fst (map (blk (pages s')) (free_list s'))"
    using b by simp
  then have fl: "free_list s = free_list s'" by simp
  then show ?thesis using b assms by (auto simp: ff_inv_def blk_def)
qed

section \<open>Properties of the page allocator\<close>

text \<open>A managed range of six pages, 3 to 8, of which page 5 is in use.\<close>

definition demo_pmm :: pmm where
  "demo_pmm = \<lparr>pages = (\<lambda>x.
       if x = 3 then \<lparr>ref = 0, flags = 2, property = 2\<rparr>
       else if x = 6 then \<lparr>ref = 0, flags = 2, property = 3\<rparr>
       else if x \<in> {4, 5, 7, 8} then \<lparr>ref = 0, flags = 0, property = 0\<rparr>
       else \<lparr>ref = 0, flags = 1, property = 0\<rparr>),
     free_list = [3, 6], nr_free = 5\<rparr>"

lemma demo_pmm_inv: "ff_inv 10 demo_pmm" "free_set demo_pmm = {3..<5} \<union> {6..<9}"
proof -
  have b: "blocks demo_pmm = [(3, 2), (6, 3)]" by (simp add: blocks_def blk_def demo_pmm_def)
  then show fs: "free_set demo_pmm = {3..<5} \<union> {6..<9}" by (simp add: free_set_def)
  have "\<forall>x<10. PageProperty (pages demo_pmm) x \<longleftrightarrow> x \<in> set (free_list demo_pmm)"
    by (auto simp: demo_pmm_def PageProperty_def PG_property_def bit_1_iff bit_iff_odd)
  moreover have "\<forall>x\<in>free_set demo_pmm. usable 10 demo_pmm x"
    unfolding fs by (auto simp: usable_def demo_pmm_def PageReserved_def PG_reserved_def)
  moreover have "nr_free demo_pmm = card (free_set demo_pmm)"
    unfolding fs by (simp add: demo_pmm_def card_Un_disjoint)
  ultimately show "ff_inv 10 demo_pmm" by (simp add: ff_inv_def b)
qed

text \<open>
  C11.  Allocation is first fit and exact: on a well-formed state a request for \<open>n\<close> pages returns
  the lowest start of a run of \<open>n\<close> free pages, takes exactly this run out of the free set, and
  answers null, with the state unchanged, only when no such run exists.  The well-formedness
  (sorted blocks that never touch, head flags, free count) is kept.
\<close>

theorem first_fit_alloc:
  assumes "ff_inv N s" "0 < n"
  shows "\<exists>r s'. default_alloc_pages n s = Some (r, s') \<and> ff_inv N s' \<and>
    (case r of
       None \<Rightarrow> s' = s \<and> (\<forall>b. \<not> {b..<b + n} \<subseteq> free_set s)
     | Some b \<Rightarrow> {b..<b + n} \<subseteq> free_set s \<and> free_set s' = free_set s - {b..<b + n} \<and>
         (\<forall>c. {c..<c + n} \<subseteq> free_set s \<longrightarrow> b \<le> c))"
  using ff.alloc_law [OF assms] by blast

theorem first_fit_alloc_witness:
  "\<exists>s'. default_alloc_pages 3 demo_pmm = Some (Some 6, s') \<and> ff_inv 10 s' \<and>
    free_set s' = {3..<5}"
proof -
  obtain r s' where r: "default_alloc_pages 3 demo_pmm = Some (r, s')" "ff_inv 10 s'"
    "case r of
       None \<Rightarrow> s' = demo_pmm \<and> (\<forall>b. \<not> {b..<b + 3} \<subseteq> free_set demo_pmm)
     | Some b \<Rightarrow> {b..<b + 3} \<subseteq> free_set demo_pmm \<and> free_set s' = free_set demo_pmm - {b..<b + 3} \<and>
         (\<forall>c. {c..<c + 3} \<subseteq> free_set demo_pmm \<longrightarrow> b \<le> c)"
    using first_fit_alloc [OF demo_pmm_inv(1), of 3] by auto
  have six: "r = Some 6"
    using r(1) by (simp add: default_alloc_pages_def demo_pmm_def Let_def split: if_splits)
  then have "free_set s' = ({3..<5} \<union> {6..<9}) - {6..<9}" using r(3) demo_pmm_inv(2) by simp
  also have "\<dots> = {3..<5}" by auto
  finally show ?thesis using r(1,2) six by auto
qed

text \<open>
   Returning a run of pages that are managed, not reserved and not free never panics -- in
  particular the assertion after the merging loop, that the block placed does not touch its
  successor, always holds -- and adds exactly this run to the free set.  The result is again
  well-formed: whatever the order of the list, the returned block has been merged with both
  neighbours and put in address order.
\<close>

theorem first_fit_free:
  assumes "ff_inv N s" "0 < n" "{b..<b + n} \<inter> free_set s = {}" "\<forall>x\<in>{b..<b + n}. usable N s x"
  shows "\<exists>s'. default_free_pages b n s = Some s' \<and> ff_inv N s' \<and>
    free_set s' = free_set s \<union> {b..<b + n} \<and> default_nr_free_pages s' = default_nr_free_pages s + n"
proof -
  obtain s' where s': "default_free_pages b n s = Some s'" "ff_inv N s'"
    "free_set s' = free_set s \<union> {b..<b + n}"
    using ff.free_law [OF assms] by blast
  moreover have "card (free_set s \<union> {b..<b + n}) = card (free_set s) + n"
    using assms(3) by (simp add: card_Un_disjoint free_set_def Int_commute)
  ultimately show ?thesis using assms(1) by (auto simp: ff_inv_def default_nr_free_pages_def)
qed

theorem first_fit_free_witness:
  "\<exists>s'. default_free_pages 5 1 demo_pmm = Some s' \<and> ff_inv 10 s' \<and> free_set s' = {3..<9} \<and>
     default_nr_free_pages s' = 6 \<and> free_list s' = [3]"
proof -
  have dj: "{5..<5 + 1} \<inter> free_set demo_pmm = {}" unfolding demo_pmm_inv(2) by auto
  have us: "\<forall>x\<in>{5..<5 + 1}. usable 10 demo_pmm x"
    by (simp add: usable_def PageReserved_def PG_reserved_def demo_pmm_def)
  obtain s' where s': "default_free_pages 5 1 demo_pmm = Some s'" "ff_inv 10 s'"
    "free_set s' = free_set demo_pmm \<union> {5..<5 + 1}"
    "default_nr_free_pages s' = default_nr_free_pages demo_pmm + 1"
    using first_fit_free [OF demo_pmm_inv(1) zero_less_one dj us] by blast
  have "{3..<5} \<union> {6..<9} \<union> {5..<5 + 1} = {3..<9 :: nat}" by auto
  then have fs: "free_set s' = {3..<9}" using s'(3) demo_pmm_inv(2) by simp
  have "cover (blocks s') = cover [(3, 6)]" using fs by (simp add: free_set_def)
  then have "blocks s' = [(3, 6)]"
    using sep_unique [of 0 "blocks s'" 0 "[(3, 6)]"] s'(2) by (simp add: ff_inv_def)
  then have "map fst (blocks s') = [3]" by simp
  then have "free_list s' = [3]" by (simp add: blocks_def)
  then show ?thesis using s' fs by (auto simp: default_nr_free_pages_def demo_pmm_def)
qed

text \<open>
   Allocating and then freeing the same run restores the free list entry for entry, the
  length of every block on it and the free count: splitting a block is undone by merging it.
\<close>

theorem alloc_free_roundtrip:
  assumes "ff_inv N s" "0 < n" "default_alloc_pages n s = Some (Some b, s1)"
  shows "\<exists>s2. default_free_pages b n s1 = Some s2 \<and> free_list s2 = free_list s \<and>
    nr_free s2 = nr_free s \<and> (\<forall>p\<in>set (free_list s). property (pages s2 p) = property (pages s p))"
proof -
  obtain s2 where s2: "default_free_pages b n s1 = Some s2" "ff_inv N s2" "free_set s2 = free_set s"
    using ff.alloc_free_restores [OF assms] by blast
  then have "free_list s = free_list s2 \<and> nr_free s = nr_free s2 \<and>
      (\<forall>p\<in>set (free_list s). property (pages s p) = property (pages s2 p))"
    using free_list_determined [OF assms(1)] by simp
  then show ?thesis using s2(1) by auto
qed

theorem alloc_free_roundtrip_witness:
  "\<exists>s1 s2. default_alloc_pages 1 demo_pmm = Some (Some 3, s1) \<and> free_list s1 = [4, 6] \<and>
     default_free_pages 3 1 s1 = Some s2 \<and> free_list s2 = [3, 6] \<and> nr_free s2 = 5"
proof -
  obtain s1 where s1: "default_alloc_pages 1 demo_pmm = Some (Some 3, s1)" "free_list s1 = [4, 6]"
    by (simp add: default_alloc_pages_def demo_pmm_def Let_def)
  then show ?thesis
    using alloc_free_roundtrip [OF demo_pmm_inv(1) _ s1(1)] by (auto simp: demo_pmm_def)
qed

text \<open>
   The runs granted to any sequence of requests never overlap and lie inside the free pages;
  giving all of them back restores the free set, and with it the free list.
\<close>

theorem grants_disjoint:
  assumes "ff_inv N s" "\<forall>n\<in>set ns. 0 < n"
  shows "\<exists>gs s1 s2. serve default_alloc_pages ns s = Some (gs, s1) \<and> apart gs \<and>
    cover gs \<subseteq> free_set s \<and> nr_free s1 = nr_free s - sum_list (map snd gs) \<and>
    release default_free_pages gs s1 = Some s2 \<and> free_list s2 = free_list s"
proof -
  obtain gs s1 where g: "serve default_alloc_pages ns s = Some (gs, s1)" "ff_inv N s1" "apart gs"
    "cover gs \<subseteq> free_set s" "free_set s1 = free_set s - cover gs"
    using ff.serve_grants [OF assms] by blast
  obtain s2 where s2: "release default_free_pages gs s1 = Some s2" "ff_inv N s2"
    "free_set s2 = free_set s"
    using ff.serve_release_restores [OF assms g(1)] by blast
  have "sum_list (map snd gs) = card (cover gs)"
    using g(3) by (induction gs rule: apart.induct) (auto simp: card_Un_disjoint)
  then have "nr_free s1 = nr_free s - sum_list (map snd gs)"
    using g(2,4,5) assms(1) by (simp add: ff_inv_def card_Diff_subset)
  moreover have "free_list s2 = free_list s"
    using free_list_determined [OF assms(1) s2(2)] s2(3) by simp
  ultimately show ?thesis using g s2 by blast
qed

theorem grants_disjoint_witness:
  "\<exists>gs s1 s2. serve default_alloc_pages [2, 4, 1] demo_pmm = Some (gs, s1) \<and> apart gs \<and>
     gs = [(3, 2), (6, 1)] \<and> nr_free s1 = 2 \<and>
     release default_free_pages gs s1 = Some s2 \<and> free_list s2 = [3, 6]"
proof -
  obtain gs s1 s2 where g: "serve default_alloc_pages [2, 4, 1] demo_pmm = Some (gs, s1)" "apart gs"
    "nr_free s1 = nr_free demo_pmm - sum_list (map snd gs)"
    "release default_free_pages gs s1 = Some s2" "free_list s2 = free_list demo_pmm"
    using grants_disjoint [OF demo_pmm_inv(1), of "[2, 4, 1]"] by auto
  have "gs = [(3, 2), (6, 1)]"
    using g(1) by (simp add: default_alloc_pages_def demo_pmm_def Let_def)
  then show ?thesis using g by (auto simp: demo_pmm_def)
qed

text \<open>
   Initialisation establishes all of this: \<^verbatim>\<open>default_init\<close> followed by
  \<^verbatim>\<open>default_init_memmap\<close> over a run of pages that are marked reserved does not panic, and leaves
  exactly this run free and no longer reserved, as one well-formed block.
\<close>

theorem init_memmap_establishes:
  assumes "0 < n" "b + n \<le> N" "\<forall>x<N. PageReserved (pages s) x \<and> \<not> PageProperty (pages s) x"
  shows "\<exists>s'. default_init_memmap b n (default_init s) = Some s' \<and> ff_inv N s' \<and>
    free_set s' = {b..<b + n} \<and> nr_free s' = n \<and> (\<forall>x. usable N s' x \<longleftrightarrow> x \<in> {b..<b + n})"
  using init_memmap_contract [OF assms] by (auto simp: ff_inv_def)

theorem init_memmap_establishes_witness:
  "\<exists>s'. default_init_memmap 3 6 (default_init
       \<lparr>pages = (\<lambda>_. \<lparr>ref = 7, flags = 1, property = 9\<rparr>), free_list = [1], nr_free = 4\<rparr>) = Some s' \<and>
     ff_inv 10 s' \<and> free_set s' = {3..<9}"
proof -
  let ?s = "\<lparr>pages = (\<lambda>_. \<lparr>ref = 7, flags = 1, property = 9\<rparr>), free_list = [1], nr_free = 4\<rparr>"
  have r: "\<forall>x<10. PageReserved (pages ?s) x \<and> \<not> PageProperty (pages ?s) x"
    by (simp add: PageReserved_def PageProperty_def PG_reserved_def PG_property_def bit_1_iff)
  from init_memmap_establishes [of 6 3 10 ?s, OF _ _ r] show ?thesis by auto
qed

end
