(* ===== verification/Process.thy ===== *)
theory Process
  imports Prelude
begin

text \<open>
  The process descriptor (\<^verbatim>\<open>struct proc_struct\<close>, \<^verbatim>\<open>kern/process/proc.h\<close>).  A descriptor is
  named by a number that stands for its address, and the descriptors are a function on these
  numbers.  Left out are the fields only the context switch reads (\<^verbatim>\<open>context\<close>, \<^verbatim>\<open>tf\<close>) and the
  embedded list and heap links, which the components that own the lists model.  There is one run
  queue, so \<^verbatim>\<open>proc->rq\<close> is the Boolean whether it points to it.
\<close>

datatype proc_state = PROC_UNINIT | PROC_SLEEPING | PROC_RUNNABLE | PROC_ZOMBIE

record proc_struct =
  pstate :: proc_state
  pid :: int
  runs :: int
  kstack :: "nat option"
  need_resched :: bool
  parent :: "nat option"
  mm :: "nat option"
  cr3 :: u32
  pflags :: u32
  pname :: string
  exit_code :: int
  wait_state :: u32
  cptr :: "nat option"
  yptr :: "nat option"
  optr :: "nat option"
  on_rq :: bool
  time_slice :: int
  fs_struct :: "nat option"
  lab6_stride :: u32
  lab6_priority :: u32

type_synonym procs = "nat \<Rightarrow> proc_struct"

definition PF_EXITING :: u32 where "PF_EXITING = 1"
definition WT_INTERRUPTED :: u32 where "WT_INTERRUPTED = 0x80000000"
definition WT_CHILD :: u32 where "WT_CHILD = 1 OR WT_INTERRUPTED"
definition WT_KSEM :: u32 where "WT_KSEM = 0x100"
definition WT_TIMER :: u32 where "WT_TIMER = 2 OR WT_INTERRUPTED"
definition WT_KBD :: u32 where "WT_KBD = 4 OR WT_INTERRUPTED"

lemma wait_state_nonzero [simp]:
  "WT_INTERRUPTED \<noteq> 0" "WT_CHILD \<noteq> 0" "WT_KSEM \<noteq> 0" "WT_TIMER \<noteq> 0" "WT_KBD \<noteq> 0"
  by (simp_all add: WT_INTERRUPTED_def WT_CHILD_def WT_KSEM_def WT_TIMER_def WT_KBD_def)

definition upd_proc :: "nat \<Rightarrow> (proc_struct \<Rightarrow> proc_struct) \<Rightarrow> procs \<Rightarrow> procs" where
  "upd_proc p f ps = ps(p := f (ps p))"

lemma upd_proc_apply [simp]: "upd_proc p f ps q = (if q = p then f (ps p) else ps q)"
  by (simp add: upd_proc_def)

text \<open>What the scheduling class leaves alone in a descriptor.\<close>

definition sched_view :: "proc_struct \<Rightarrow> proc_struct" where
  "sched_view p = p\<lparr>need_resched := False, on_rq := False, time_slice := 0, lab6_stride := 0\<rparr>"

lemma sched_view_simps [simp]:
  "sched_view (p\<lparr>need_resched := b\<rparr>) = sched_view p"
  "sched_view (p\<lparr>on_rq := b\<rparr>) = sched_view p"
  "sched_view (p\<lparr>time_slice := i\<rparr>) = sched_view p"
  "sched_view (p\<lparr>lab6_stride := w\<rparr>) = sched_view p"
  by (simp_all add: sched_view_def)

lemma sched_view_runs:
  assumes "sched_view p = sched_view q" shows "sched_view (p\<lparr>runs := n\<rparr>) = sched_view (q\<lparr>runs := n\<rparr>)"
    "sched_view p = sched_view (q\<lparr>runs := runs p\<rparr>)"
proof -
  have e: "sched_view (d\<lparr>runs := n\<rparr>) = (sched_view d)\<lparr>runs := n\<rparr>" for d n by (simp add: sched_view_def)
  show "sched_view (p\<lparr>runs := n\<rparr>) = sched_view (q\<lparr>runs := n\<rparr>)" unfolding e assms ..
  have "sched_view p = (sched_view p)\<lparr>runs := runs p\<rparr>" by (simp add: sched_view_def)
  then show "sched_view p = sched_view (q\<lparr>runs := runs p\<rparr>)" unfolding e assms .
qed

definition sched_same :: "procs \<Rightarrow> procs \<Rightarrow> bool" where
  "sched_same ps ps' \<longleftrightarrow> (\<forall>p. sched_view (ps p) = sched_view (ps' p))"

lemma sched_same_refl [simp]: "sched_same ps ps"
  by (simp add: sched_same_def)

lemma sched_same_trans: "sched_same a b \<Longrightarrow> sched_same b c \<Longrightarrow> sched_same a c"
  by (simp add: sched_same_def)

lemma sched_view_sel:
  "pstate (sched_view p) = pstate p" "wait_state (sched_view p) = wait_state p"
  "runs (sched_view p) = runs p" "lab6_priority (sched_view p) = lab6_priority p"
  "pid (sched_view p) = pid p"
  by (simp_all add: sched_view_def)

lemma sched_view_eqD:
  assumes "sched_view p = sched_view q"
  shows "pstate p = pstate q" "wait_state p = wait_state q" "runs p = runs q"
    "lab6_priority p = lab6_priority q" "pid p = pid q"
  using arg_cong [OF assms, of pstate] arg_cong [OF assms, of wait_state]
    arg_cong [OF assms, of runs] arg_cong [OF assms, of lab6_priority] arg_cong [OF assms, of pid]
  by (simp_all only: sched_view_sel)

lemma sched_sameD:
  assumes "sched_same ps ps'"
  shows "pstate (ps' p) = pstate (ps p)" "wait_state (ps' p) = wait_state (ps p)"
    "runs (ps' p) = runs (ps p)" "lab6_priority (ps' p) = lab6_priority (ps p)"
    "pid (ps' p) = pid (ps p)"
  using assms sched_view_eqD [of "ps p" "ps' p"] unfolding sched_same_def by simp_all

end
