(* ===== verification/Skew_Heap.thy ===== *)
theory Skew_Heap
  imports Prelude "HOL-Library.Tree" "HOL-Library.Multiset"
begin

text \<open>
  The skew heap of \<^verbatim>\<open>kern/libs/skew_heap.h\<close>, which holds the run pool of the stride scheduler.
  The entries live on an explicit store of \<^verbatim>\<open>parent\<close>, \<^verbatim>\<open>left\<close> and \<^verbatim>\<open>right\<close> pointers, NULL being
  \<open>None\<close>.  The pointer routines are refined to operations on trees (\<open>heap_merge\<close>,
  \<open>heap_remove\<close>), and these to operations on the set of entries that keep the heap order.
\<close>

section \<open>The pointer routines\<close>

record 'a heap_store =
  hparent :: "'a \<Rightarrow> 'a option"
  hleft :: "'a \<Rightarrow> 'a option"
  hright :: "'a \<Rightarrow> 'a option"

definition set_parent :: "'a \<Rightarrow> 'a option \<Rightarrow> 'a heap_store \<Rightarrow> 'a heap_store" where
  "set_parent x v h = h\<lparr>hparent := (hparent h)(x := v)\<rparr>"

definition set_left :: "'a \<Rightarrow> 'a option \<Rightarrow> 'a heap_store \<Rightarrow> 'a heap_store" where
  "set_left x v h = h\<lparr>hleft := (hleft h)(x := v)\<rparr>"

definition set_right :: "'a \<Rightarrow> 'a option \<Rightarrow> 'a heap_store \<Rightarrow> 'a heap_store" where
  "set_right x v h = h\<lparr>hright := (hright h)(x := v)\<rparr>"

text \<open>\<^verbatim>\<open>if (l) l->parent = a\<close>: a write through a pointer that may be NULL.\<close>

definition adopt :: "'a option \<Rightarrow> 'a option \<Rightarrow> 'a heap_store \<Rightarrow> 'a heap_store" where
  "adopt l par h = (case l of None \<Rightarrow> h | Some x \<Rightarrow> set_parent x par h)"

lemma heap_store_updates [simp]:
  "hparent (set_parent x v h) = (hparent h)(x := v)" "hleft (set_parent x v h) = hleft h"
  "hright (set_parent x v h) = hright h"
  "hparent (set_left x v h) = hparent h" "hleft (set_left x v h) = (hleft h)(x := v)"
  "hright (set_left x v h) = hright h"
  "hparent (set_right x v h) = hparent h" "hleft (set_right x v h) = hleft h"
  "hright (set_right x v h) = (hright h)(x := v)"
  "hleft (adopt l par h) = hleft h" "hright (adopt l par h) = hright h"
  by (simp_all add: set_parent_def set_left_def set_right_def adopt_def split: option.splits)

definition skew_heap_init :: "'a \<Rightarrow> 'a heap_store \<Rightarrow> 'a heap_store" where
  "skew_heap_init a h = set_left a None (set_right a None (set_parent a None h))"

partial_function (option) skew_heap_merge ::
  "('a \<Rightarrow> 'a \<Rightarrow> int) \<Rightarrow> 'a option \<Rightarrow> 'a option \<Rightarrow> 'a heap_store \<Rightarrow> ('a option \<times> 'a heap_store) option"
where
  "skew_heap_merge cmp a b h =
     (case a of None \<Rightarrow> Some (b, h) | Some x \<Rightarrow>
       (case b of None \<Rightarrow> Some (a, h) | Some y \<Rightarrow>
         (if cmp x y = -1 then
            Option.bind (skew_heap_merge cmp (hright h x) b h)
              (\<lambda>(l, h'). Some (Some x, adopt l (Some x) (set_right x (hleft h x) (set_left x l h'))))
          else
            Option.bind (skew_heap_merge cmp a (hright h y) h)
              (\<lambda>(l, h'). Some (Some y, adopt l (Some y) (set_right y (hleft h y) (set_left y l h')))))))"

definition skew_heap_insert ::
  "('a \<Rightarrow> 'a \<Rightarrow> int) \<Rightarrow> 'a option \<Rightarrow> 'a \<Rightarrow> 'a heap_store \<Rightarrow> ('a option \<times> 'a heap_store) option"
where
  "skew_heap_insert cmp a b h = skew_heap_merge cmp a (Some b) (skew_heap_init b h)"

definition skew_heap_remove ::
  "('a \<Rightarrow> 'a \<Rightarrow> int) \<Rightarrow> 'a option \<Rightarrow> 'a \<Rightarrow> 'a heap_store \<Rightarrow> ('a option \<times> 'a heap_store) option"
where
  "skew_heap_remove cmp a b h = do {
     let p = hparent h b;
     (rep, h) \<leftarrow> skew_heap_merge cmp (hleft h b) (hright h b) h;
     let h = adopt rep p h;
     (case p of
        Some q \<Rightarrow>
          if hleft h q = Some b then Some (a, set_left q rep h)
          else Some (a, set_right q rep h)
      | None \<Rightarrow> Some (rep, h))
   }"

section \<open>The same operations on trees\<close>

fun heap_merge :: "('a \<Rightarrow> 'a \<Rightarrow> int) \<Rightarrow> 'a tree \<Rightarrow> 'a tree \<Rightarrow> 'a tree" where
  "heap_merge cmp Leaf t = t"
| "heap_merge cmp t Leaf = t"
| "heap_merge cmp (Node l1 x r1) (Node l2 y r2) =
     (if cmp x y = -1 then Node (heap_merge cmp r1 (Node l2 y r2)) x l1
      else Node (heap_merge cmp (Node l1 x r1) r2) y l2)"

fun child_tree :: "'a \<Rightarrow> 'a tree \<Rightarrow> 'a tree" where
  "child_tree x Leaf = Leaf"
| "child_tree x (Node l y r) =
     (if x = y then Node l y r
      else if x \<in> set_tree l then child_tree x l else child_tree x r)"

fun plug :: "'a \<Rightarrow> 'a tree \<Rightarrow> 'a tree \<Rightarrow> 'a tree" where
  "plug x s Leaf = Leaf"
| "plug x s (Node l y r) =
     (if x = y then s
      else if x \<in> set_tree l then Node (plug x s l) y r else Node l y (plug x s r))"

definition heap_remove :: "('a \<Rightarrow> 'a \<Rightarrow> int) \<Rightarrow> 'a \<Rightarrow> 'a tree \<Rightarrow> 'a tree" where
  "heap_remove cmp x t = (case child_tree x t of
     Leaf \<Rightarrow> t | Node l _ r \<Rightarrow> plug x (heap_merge cmp l r) t)"

text \<open>The tree rooted at a pointer, with the parent pointer of its root.\<close>

fun root_ptr :: "'a tree \<Rightarrow> 'a option" where
  "root_ptr Leaf = None"
| "root_ptr (Node l x r) = Some x"

fun tree_at :: "'a heap_store \<Rightarrow> 'a option \<Rightarrow> 'a tree \<Rightarrow> bool" where
  "tree_at h par Leaf = True"
| "tree_at h par (Node l x r) =
     (hparent h x = par \<and> hleft h x = root_ptr l \<and> hright h x = root_ptr r \<and>
      tree_at h (Some x) l \<and> tree_at h (Some x) r)"

definition distinct_tree :: "'a tree \<Rightarrow> bool" where
  "distinct_tree t = distinct (inorder t)"

lemma distinct_tree_simps [simp]:
  "distinct_tree Leaf"
  "distinct_tree (Node l x r) \<longleftrightarrow> x \<notin> set_tree l \<and> x \<notin> set_tree r \<and>
     set_tree l \<inter> set_tree r = {} \<and> distinct_tree l \<and> distinct_tree r"
  by (auto simp: distinct_tree_def)

lemma root_ptr_in: "root_ptr t = Some x \<Longrightarrow> x \<in> set_tree t"
  by (cases t) auto

lemma tree_at_frame:
  "tree_at h par t \<Longrightarrow> \<forall>z\<in>set_tree t. hleft h' z = hleft h z \<and> hright h' z = hright h z \<and>
     hparent h' z = hparent h z \<Longrightarrow> tree_at h' par t"
  by (induction t arbitrary: par) auto

lemma tree_at_adopt:
  assumes "tree_at h par t" "distinct_tree t"
  shows "tree_at (adopt (root_ptr t) q h) q t"
proof (cases t)
  case (Node l x r)
  then have "tree_at (adopt (Some x) q h) (Some x) l" "tree_at (adopt (Some x) q h) (Some x) r"
    using assms by (auto intro!: tree_at_frame [of h] simp: adopt_def)
  then show ?thesis using assms Node by (simp add: adopt_def)
qed simp

lemma set_heap_merge [simp]: "set_tree (heap_merge cmp a b) = set_tree a \<union> set_tree b"
  by (induction cmp a b rule: heap_merge.induct) auto

lemma size_heap_merge [simp]: "size (heap_merge cmp a b) = size a + size b"
  by (induction cmp a b rule: heap_merge.induct) auto

lemma distinct_heap_merge:
  "distinct_tree a \<Longrightarrow> distinct_tree b \<Longrightarrow> set_tree a \<inter> set_tree b = {} \<Longrightarrow>
   distinct_tree (heap_merge cmp a b)"
  by (induction cmp a b rule: heap_merge.induct) auto

text \<open>Where a routine does not write.\<close>

definition same_outside :: "'a set \<Rightarrow> 'a heap_store \<Rightarrow> 'a heap_store \<Rightarrow> bool" where
  "same_outside X h h' \<longleftrightarrow> (\<forall>z. z \<notin> X \<longrightarrow>
     hleft h' z = hleft h z \<and> hright h' z = hright h z \<and> hparent h' z = hparent h z)"

lemma tree_at_outside:
  "tree_at h par t \<Longrightarrow> same_outside X h h' \<Longrightarrow> set_tree t \<inter> X = {} \<Longrightarrow> tree_at h' par t"
  by (rule tree_at_frame) (auto simp: same_outside_def)

section \<open>The pointer routines refine the tree operations\<close>

lemma merge_step_at:
  assumes t: "tree_at h' q t'" "distinct_tree t'" and y: "y \<notin> set_tree t'" "y \<notin> set_tree l"
    and l: "tree_at h (Some y) l" "set_tree l \<inter> set_tree t' = {}" "same_outside X h h'"
    "set_tree l \<inter> X = {}" "y \<notin> X"
    and p: "hparent h y = par" and lp: "root_ptr t' = lp"
  shows "tree_at (adopt lp (Some y) (set_right y (root_ptr l) (set_left y lp h'))) par
    (Node t' y l)"
proof -
  let ?h1 = "set_right y (root_ptr l) (set_left y lp h')"
  have 1: "tree_at (adopt (root_ptr t') (Some y) h1) (Some y) t'"
    if "tree_at h1 q t'" for h1
    by (rule tree_at_adopt [OF that t(2)])
  have "tree_at ?h1 q t'" using t(1) by (rule tree_at_frame) (use y in auto)
  then have a: "tree_at (adopt lp (Some y) ?h1) (Some y) t'" using 1 lp by auto
  have hp: "hparent (adopt lp (Some y) ?h1) z = hparent h' z" if "z \<notin> set_tree t'" for z
    using that lp root_ptr_in [of t'] by (auto simp: adopt_def split: option.splits)
  have "tree_at h' (Some y) l" using l by (auto intro: tree_at_outside)
  then have b: "tree_at (adopt lp (Some y) ?h1) (Some y) l"
    by (rule tree_at_frame) (use y l hp in auto)
  have "hparent h' y = par" using p l(3,5) by (auto simp: same_outside_def)
  then show ?thesis using a b hp [OF y(1)] lp by simp
qed

lemma skew_heap_merge_refines:
  assumes "tree_at h pa ta" "tree_at h pb tb" "distinct_tree ta" "distinct_tree tb"
    "set_tree ta \<inter> set_tree tb = {}"
  shows "\<exists>h' q. skew_heap_merge cmp (root_ptr ta) (root_ptr tb) h =
      Some (root_ptr (heap_merge cmp ta tb), h') \<and>
    tree_at h' q (heap_merge cmp ta tb) \<and> q \<in> {pa, pb} \<and>
    same_outside (set_tree ta \<union> set_tree tb) h h'"
  using assms
proof (induction cmp ta tb arbitrary: pa pb rule: heap_merge.induct)
  case (1 cmp t)
  then show ?case by (auto simp: skew_heap_merge.simps same_outside_def)
next
  case (2 cmp l x r)
  then show ?case by (auto simp: skew_heap_merge.simps same_outside_def)
next
  case (3 cmp l1 x r1 l2 y r2)
  let ?ta = "Node l1 x r1" and ?tb = "Node l2 y r2"
  have p1: "tree_at h (Some x) r1" "distinct_tree r1" and p2: "tree_at h (Some y) r2" "distinct_tree r2"
    and dj: "set_tree r1 \<inter> set_tree ?tb = {}" "set_tree ?ta \<inter> set_tree r2 = {}"
    using "3.prems" by auto
  show ?case
  proof (cases "cmp x y = -1")
    case True
    let ?t = "heap_merge cmp r1 ?tb"
    obtain h' q where m: "skew_heap_merge cmp (root_ptr r1) (root_ptr ?tb) h = Some (root_ptr ?t, h')"
      "tree_at h' q ?t" "same_outside (set_tree r1 \<union> set_tree ?tb) h h'"
      using "3.IH"(1) [OF True _ "3.prems"(2) _ "3.prems"(4), of "Some x"] p1 dj by blast
    let ?h2 = "adopt (root_ptr ?t) (Some x) (set_right x (root_ptr l1) (set_left x (root_ptr ?t) h'))"
    have d: "distinct_tree ?t" using "3.prems" by (intro distinct_heap_merge) auto
    have "tree_at ?h2 pa (Node ?t x l1)"
      by (rule merge_step_at [OF m(2) d _ _ _ _ m(3)]) (use "3.prems" in auto)
    moreover have "skew_heap_merge cmp (Some x) (Some y) h = Some (Some x, ?h2)"
      using m(1) True "3.prems"(1) by (subst skew_heap_merge.simps) simp
    moreover have "same_outside (set_tree ?ta \<union> set_tree ?tb) h ?h2"
      using m(3) root_ptr_in [of ?t] by (auto simp: same_outside_def adopt_def split: option.splits)
    ultimately show ?thesis using True by (auto simp del: tree_at.simps)
  next
    case False
    let ?t = "heap_merge cmp ?ta r2"
    obtain h' q where m: "skew_heap_merge cmp (root_ptr ?ta) (root_ptr r2) h = Some (root_ptr ?t, h')"
      "tree_at h' q ?t" "same_outside (set_tree ?ta \<union> set_tree r2) h h'"
      using "3.IH"(2) [OF False "3.prems"(1) _ "3.prems"(3), of "Some y"] p2 dj by blast
    let ?h2 = "adopt (root_ptr ?t) (Some y) (set_right y (root_ptr l2) (set_left y (root_ptr ?t) h'))"
    have d: "distinct_tree ?t" using "3.prems" by (intro distinct_heap_merge) auto
    have "tree_at ?h2 pb (Node ?t y l2)"
      by (rule merge_step_at [OF m(2) d _ _ _ _ m(3)]) (use "3.prems" in auto)
    moreover have "skew_heap_merge cmp (Some x) (Some y) h = Some (Some y, ?h2)"
      using m(1) False "3.prems"(2) by (subst skew_heap_merge.simps) simp
    moreover have "same_outside (set_tree ?ta \<union> set_tree ?tb) h ?h2"
      using m(3) root_ptr_in [of ?t] by (auto simp: same_outside_def adopt_def split: option.splits)
    ultimately show ?thesis using False by (auto simp del: tree_at.simps)
  qed
qed

lemma skew_heap_insert_refines:
  assumes "tree_at h None t" "distinct_tree t" "b \<notin> set_tree t"
  shows "\<exists>h'. skew_heap_insert cmp (root_ptr t) b h =
      Some (root_ptr (heap_merge cmp t (Node Leaf b Leaf)), h') \<and>
    tree_at h' None (heap_merge cmp t (Node Leaf b Leaf)) \<and> same_outside (insert b (set_tree t)) h h'"
proof -
  let ?h = "skew_heap_init b h"
  have "tree_at ?h None t"
    using assms by (auto intro!: tree_at_frame [of h] simp: skew_heap_init_def)
  moreover have "tree_at ?h None (Node Leaf b Leaf)" by (simp add: skew_heap_init_def)
  ultimately obtain h' where
    "skew_heap_merge cmp (root_ptr t) (root_ptr (Node Leaf b Leaf)) ?h =
      Some (root_ptr (heap_merge cmp t (Node Leaf b Leaf)), h')"
    "tree_at h' None (heap_merge cmp t (Node Leaf b Leaf))"
    "same_outside (set_tree t \<union> set_tree (Node Leaf b Leaf)) ?h h'"
    using skew_heap_merge_refines [of ?h None t None "Node Leaf b Leaf" cmp] assms by auto
  then show ?thesis
    by (auto simp: skew_heap_insert_def same_outside_def skew_heap_init_def)
qed

section \<open>Removing an entry in the middle\<close>

lemma child_tree_root:
  "x \<in> set_tree t \<Longrightarrow> \<exists>l r. child_tree x t = Node l x r"
  by (induction t) auto

lemma child_tree_subset: "set_tree (child_tree x t) \<subseteq> set_tree t"
  by (induction t) auto

lemma child_tree_distinct: "distinct_tree t \<Longrightarrow> distinct_tree (child_tree x t)"
  by (induction t) auto

lemma child_tree_at:
  "tree_at h par t \<Longrightarrow> x \<in> set_tree t \<Longrightarrow> tree_at h (hparent h x) (child_tree x t)"
  by (induction t arbitrary: par) auto

lemma plug_set:
  "distinct_tree t \<Longrightarrow> x \<in> set_tree t \<Longrightarrow>
   set_tree (plug x s t) = (set_tree t - set_tree (child_tree x t)) \<union> set_tree s"
proof (induction t)
  case (Node l y r)
  then show ?case using child_tree_subset [of x l] child_tree_subset [of x r] by auto
qed simp

text \<open>
  The redirection of the parent's child pointer puts the replacement subtree in the place of the
  removed entry, wherever this entry stands.
\<close>

definition redirect :: "'a \<Rightarrow> 'a \<Rightarrow> 'a option \<Rightarrow> 'a heap_store \<Rightarrow> 'a heap_store" where
  "redirect q x v h = (if hleft h q = Some x then set_left q v h else set_right q v h)"

lemma redirect_same: "same_outside {q} h (redirect q x v h)"
  by (simp add: redirect_def same_outside_def)

lemma plug_at:
  assumes "tree_at h par t" "distinct_tree t" "x \<in> set_tree t"
    and h': "same_outside (set_tree (child_tree x t)) h h'"
    and s: "tree_at h' (hparent h x) s" "set_tree s \<subseteq> set_tree (child_tree x t) - {x}"
  shows "if root_ptr t = Some x then hparent h x = par \<and> plug x s t = s
    else \<exists>q. hparent h x = Some q \<and> q \<in> set_tree t - set_tree (child_tree x t) \<and>
      tree_at (redirect q x (root_ptr s) h') par (plug x s t) \<and> root_ptr (plug x s t) = root_ptr t"
  using assms
proof (induction t arbitrary: par)
  case (Node l y r)
  show ?case
  proof (cases "x = y")
    case True
    then show ?thesis using Node.prems by auto
  next
    case ne: False
    have t: "hparent h y = par" "hleft h y = root_ptr l" "hright h y = root_ptr r"
      "tree_at h (Some y) l" "tree_at h (Some y) r" using Node.prems(1) by auto
    have d: "y \<notin> set_tree l" "y \<notin> set_tree r" "set_tree l \<inter> set_tree r = {}" "distinct_tree l"
      "distinct_tree r" using Node.prems(2) by auto
    show ?thesis
    proof (cases "x \<in> set_tree l")
      case True
      let ?S = "set_tree (child_tree x l)"
      have S: "child_tree x (Node l y r) = child_tree x l" "?S \<subseteq> set_tree l"
        using ne True child_tree_subset [of x l] by simp_all
      have same: "same_outside ?S h h'" using Node.prems(4) S by simp
      have y: "hparent h' y = par" "hleft h' y = root_ptr l" "hright h' y = root_ptr r"
        using same S(2) d(1) t(1-3) by (auto simp: same_outside_def)
      have r: "tree_at h' (Some y) r" using t(5) same by (rule tree_at_outside) (use S(2) d(3) in auto)
      show ?thesis
      proof (cases "root_ptr l = Some x")
        case root: True
        then have pl: "plug x s l = s" "hparent h x = Some y" using t(4) by (cases l; simp)+
        have s': "y \<notin> set_tree s" using Node.prems(6) S d(1) by auto
        have "tree_at (redirect y x (root_ptr s) h') (Some y) s"
          using Node.prems(5) pl(2) by (auto intro: tree_at_outside [OF _ redirect_same] simp: s')
        moreover have "tree_at (redirect y x (root_ptr s) h') (Some y) r"
          by (rule tree_at_outside [OF r redirect_same]) (use d(2) in simp)
        ultimately show ?thesis
          using pl y root ne True S d(1) by (auto simp: redirect_def)
      next
        case False
        then obtain q where q: "hparent h x = Some q" "q \<in> set_tree l - ?S"
          "tree_at (redirect q x (root_ptr s) h') (Some y) (plug x s l)"
          "root_ptr (plug x s l) = root_ptr l"
          using Node.IH(1) [OF t(4) d(4) True same Node.prems(5)] Node.prems(6) S(1) by auto
        have "y \<noteq> q" "q \<notin> set_tree r" using q(2) d by auto
        then have "tree_at (redirect q x (root_ptr s) h') (Some y) r"
          using tree_at_outside [OF r redirect_same] by auto
        moreover have "hparent (redirect q x (root_ptr s) h') y = par"
          "hleft (redirect q x (root_ptr s) h') y = root_ptr l"
          "hright (redirect q x (root_ptr s) h') y = root_ptr r"
          using y \<open>y \<noteq> q\<close> by (simp_all add: redirect_def)
        ultimately show ?thesis using q ne True S d by auto
      qed
    next
      case nl: False
      then have xr: "x \<in> set_tree r" using Node.prems(3) ne by auto
      let ?S = "set_tree (child_tree x r)"
      have S: "child_tree x (Node l y r) = child_tree x r" "?S \<subseteq> set_tree r"
        using ne nl child_tree_subset [of x r] by simp_all
      have same: "same_outside ?S h h'" using Node.prems(4) S by simp
      have y: "hparent h' y = par" "hleft h' y = root_ptr l" "hright h' y = root_ptr r"
        using same S(2) d(2) t(1-3) by (auto simp: same_outside_def)
      have l: "tree_at h' (Some y) l" using t(4) same by (rule tree_at_outside) (use S(2) d(3) in auto)
      have nlr: "root_ptr l \<noteq> Some x" using nl root_ptr_in by metis
      show ?thesis
      proof (cases "root_ptr r = Some x")
        case root: True
        then have pl: "plug x s r = s" "hparent h x = Some y" using t(5) by (cases r; simp)+
        have s': "y \<notin> set_tree s" using Node.prems(6) S d(2) by auto
        have "tree_at (redirect y x (root_ptr s) h') (Some y) s"
          using Node.prems(5) pl(2) by (auto intro: tree_at_outside [OF _ redirect_same] simp: s')
        moreover have "tree_at (redirect y x (root_ptr s) h') (Some y) l"
          by (rule tree_at_outside [OF l redirect_same]) (use d(1) in simp)
        ultimately show ?thesis
          using pl y root ne nl nlr S d(2) by (auto simp: redirect_def)
      next
        case False
        then obtain q where q: "hparent h x = Some q" "q \<in> set_tree r - ?S"
          "tree_at (redirect q x (root_ptr s) h') (Some y) (plug x s r)"
          "root_ptr (plug x s r) = root_ptr r"
          using Node.IH(2) [OF t(5) d(5) xr same Node.prems(5)] Node.prems(6) S(1) by auto
        have "y \<noteq> q" "q \<notin> set_tree l" using q(2) d by auto
        then have "tree_at (redirect q x (root_ptr s) h') (Some y) l"
          using tree_at_outside [OF l redirect_same] by auto
        moreover have "hparent (redirect q x (root_ptr s) h') y = par"
          "hleft (redirect q x (root_ptr s) h') y = root_ptr l"
          "hright (redirect q x (root_ptr s) h') y = root_ptr r"
          using y \<open>y \<noteq> q\<close> by (simp_all add: redirect_def)
        ultimately show ?thesis using q ne nl S d by auto
      qed
    qed
  qed
qed simp

lemma skew_heap_remove_refines:
  assumes "tree_at h None t" "distinct_tree t" "b \<in> set_tree t"
  shows "\<exists>h'. skew_heap_remove cmp (root_ptr t) b h = Some (root_ptr (heap_remove cmp b t), h') \<and>
    tree_at h' None (heap_remove cmp b t)"
proof -
  obtain l r where c: "child_tree b t = Node l b r" using child_tree_root [OF assms(3)] by auto
  let ?m = "heap_merge cmp l r" and ?p = "hparent h b"
  have at: "tree_at h ?p (Node l b r)" using child_tree_at [OF assms(1,3)] c by simp
  have d: "distinct_tree (Node l b r)" using child_tree_distinct [OF assms(2), of b] c by simp
  obtain h1 q1 where m: "skew_heap_merge cmp (root_ptr l) (root_ptr r) h = Some (root_ptr ?m, h1)"
    "tree_at h1 q1 ?m" "same_outside (set_tree l \<union> set_tree r) h h1"
    using skew_heap_merge_refines [of h "Some b" l "Some b" r cmp] at d by auto
  let ?h2 = "adopt (root_ptr ?m) ?p h1"
  have dm: "distinct_tree ?m" using d by (intro distinct_heap_merge) auto
  have h2: "tree_at ?h2 ?p ?m" by (rule tree_at_adopt [OF m(2) dm])
  have "same_outside (set_tree (child_tree b t)) h ?h2"
    using m(3) root_ptr_in [of ?m] c
    by (auto simp: same_outside_def adopt_def split: option.splits)
  then have P: "if root_ptr t = Some b then ?p = None \<and> plug b ?m t = ?m
    else \<exists>q. ?p = Some q \<and> q \<in> set_tree t - set_tree (child_tree b t) \<and>
      tree_at (redirect q b (root_ptr ?m) ?h2) None (plug b ?m t) \<and> root_ptr (plug b ?m t) = root_ptr t"
    using plug_at [OF assms _ h2] c d by auto
  have hl: "hleft h b = root_ptr l" "hright h b = root_ptr r" using at by auto
  have rm: "heap_remove cmp b t = plug b ?m t" by (simp add: heap_remove_def c)
  show ?thesis
  proof (cases "root_ptr t = Some b")
    case True
    then show ?thesis using P m(1) h2 hl rm by (auto simp: skew_heap_remove_def)
  next
    case False
    then obtain q where "?p = Some q" "tree_at (redirect q b (root_ptr ?m) ?h2) None (plug b ?m t)"
      "root_ptr (plug b ?m t) = root_ptr t" using P by auto
    then show ?thesis using m(1) hl rm by (auto simp: skew_heap_remove_def redirect_def Let_def)
  qed
qed

section \<open>Contents, distinctness and heap order\<close>

lemma child_tree_set_mem:
  "distinct_tree t \<Longrightarrow> x \<in> set_tree t \<Longrightarrow> child_tree x t = Node l x r \<Longrightarrow>
   set_tree (plug x (heap_merge cmp l r) t) = set_tree t - {x}"
proof -
  assume a: "distinct_tree t" "x \<in> set_tree t" "child_tree x t = Node l x r"
  have "x \<notin> set_tree l \<and> x \<notin> set_tree r" using child_tree_distinct [OF a(1), of x] a(3) by simp
  moreover have "set_tree (Node l x r) \<subseteq> set_tree t" using child_tree_subset [of x t] a(3) by simp
  ultimately show ?thesis using plug_set [OF a(1,2)] a(3) by auto
qed

lemma set_heap_remove:
  assumes "distinct_tree t" "x \<in> set_tree t"
  shows "set_tree (heap_remove cmp x t) = set_tree t - {x}"
proof -
  obtain l r where "child_tree x t = Node l x r" using child_tree_root [OF assms(2)] by blast
  then show ?thesis using child_tree_set_mem [OF assms] by (simp add: heap_remove_def)
qed

lemma plug_subset:
  "distinct_tree t \<Longrightarrow> x \<in> set_tree t \<Longrightarrow> set_tree s \<subseteq> set_tree (child_tree x t) \<Longrightarrow>
   set_tree (plug x s t) \<subseteq> set_tree t"
  using plug_set [of t x s] child_tree_subset [of x t] by auto

lemma plug_distinct:
  "distinct_tree t \<Longrightarrow> x \<in> set_tree t \<Longrightarrow> distinct_tree s \<Longrightarrow>
   set_tree s \<subseteq> set_tree (child_tree x t) \<Longrightarrow> distinct_tree (plug x s t)"
proof (induction t)
  case (Node l y r)
  show ?case
  proof (cases "x \<in> set_tree l")
    case True
    have ne: "x \<noteq> y" using True Node.prems by auto
    have "set_tree (plug x s l) \<subseteq> set_tree l"
      by (rule plug_subset) (use Node.prems True ne in auto)
    then show ?thesis using Node True ne by auto
  next
    case False
    have "set_tree (plug x s r) \<subseteq> set_tree r" if "x \<in> set_tree r" "x \<noteq> y"
      by (rule plug_subset) (use Node.prems that False in auto)
    then show ?thesis using Node False by (cases "x = y") auto
  qed
qed simp

lemma distinct_heap_remove:
  assumes "distinct_tree t" "x \<in> set_tree t"
  shows "distinct_tree (heap_remove cmp x t)"
proof -
  obtain l r where c: "child_tree x t = Node l x r" using child_tree_root [OF assms(2)] by blast
  have d: "distinct_tree (Node l x r)" using child_tree_distinct [OF assms(1), of x] c by simp
  have "distinct_tree (plug x (heap_merge cmp l r) t)"
    by (rule plug_distinct [OF assms])
      (use d c in \<open>auto intro: distinct_heap_merge\<close>)
  then show ?thesis using c by (simp add: heap_remove_def)
qed

definition key_heap :: "('a \<Rightarrow> 'k::linorder) \<Rightarrow> 'a tree \<Rightarrow> bool" where
  "key_heap key t = heap (map_tree key t)"

lemma key_heap_simps [simp]:
  "key_heap key Leaf"
  "key_heap key (Node l x r) \<longleftrightarrow>
     (\<forall>y\<in>set_tree l \<union> set_tree r. key x \<le> key y) \<and> key_heap key l \<and> key_heap key r"
  by (auto simp: key_heap_def tree.set_map)

lemma key_heap_cong: "\<forall>x\<in>set_tree t. key x = key' x \<Longrightarrow> key_heap key t = key_heap key' t"
  by (induction t) auto

lemma key_heap_shift:
  "\<forall>x\<in>set_tree t. key' x = key x + (c :: int) \<Longrightarrow> key_heap key t \<Longrightarrow> key_heap key' t"
  by (induction t) auto

lemma key_heap_root:
  "key_heap key t \<Longrightarrow> root_ptr t = Some x \<Longrightarrow> y \<in> set_tree t \<Longrightarrow> key x \<le> key y"
  by (cases t) auto

lemma key_heap_merge:
  "key_heap key a \<Longrightarrow> key_heap key b \<Longrightarrow>
   \<forall>x\<in>set_tree a. \<forall>y\<in>set_tree b. cmp x y = -1 \<longleftrightarrow> key x < key y \<Longrightarrow>
   key_heap key (heap_merge cmp a b)"
proof (induction cmp a b rule: heap_merge.induct)
  case (3 cmp l1 x r1 l2 y r2)
  show ?case
  proof (cases "cmp x y = -1")
    case True
    then have "key x \<le> key y" using 3(5) by simp
    then have "\<forall>z\<in>set_tree l2 \<union> set_tree r2. key x \<le> key z" using 3(4) by (auto intro: order_trans)
    moreover have "key_heap key (heap_merge cmp r1 (Node l2 y r2))" using 3 True by simp
    ultimately show ?thesis using 3(3) True \<open>key x \<le> key y\<close> by auto
  next
    case False
    then have "key y \<le> key x" using 3(5) by auto
    then have "\<forall>z\<in>set_tree l1 \<union> set_tree r1. key y \<le> key z" using 3(3) by (auto intro: order_trans)
    moreover have "key_heap key (heap_merge cmp (Node l1 x r1) r2)" using 3 False by simp
    ultimately show ?thesis using 3(4) False \<open>key y \<le> key x\<close> by auto
  qed
qed simp_all

lemma key_heap_child: "key_heap key t \<Longrightarrow> key_heap key (child_tree x t)"
  by (induction t) auto

lemma key_heap_plug:
  assumes "key_heap key t" "distinct_tree t" "x \<in> set_tree t" "key_heap key s"
    "set_tree s \<subseteq> set_tree (child_tree x t)"
  shows "key_heap key (plug x s t)"
  using assms
proof (induction t)
  case (Node l y r)
  show ?case
  proof (cases "x \<in> set_tree l")
    case True
    have ne: "x \<noteq> y" using True Node.prems by auto
    have "set_tree (plug x s l) \<subseteq> set_tree l"
      by (rule plug_subset) (use Node.prems True ne in auto)
    then show ?thesis using Node True ne by auto
  next
    case False
    have "set_tree (plug x s r) \<subseteq> set_tree r" if "x \<in> set_tree r" "x \<noteq> y"
      by (rule plug_subset) (use Node.prems that False in auto)
    then show ?thesis using Node False by (cases "x = y") auto
  qed
qed simp

lemma key_heap_remove:
  assumes "key_heap key t" "distinct_tree t" "x \<in> set_tree t"
    "\<forall>y\<in>set_tree t - {x}. \<forall>z\<in>set_tree t - {x}. cmp y z = -1 \<longleftrightarrow> key y < key z"
  shows "key_heap key (heap_remove cmp x t)"
proof -
  obtain l r where c: "child_tree x t = Node l x r" using child_tree_root [OF assms(3)] by blast
  have k: "key_heap key (Node l x r)" using key_heap_child [OF assms(1), of x] c by simp
  have sub: "set_tree l \<union> set_tree r \<subseteq> set_tree t - {x}"
    using child_tree_distinct [OF assms(2), of x] child_tree_subset [of x t] c by auto
  have cm: "\<forall>y\<in>set_tree l. \<forall>z\<in>set_tree r. cmp y z = -1 \<longleftrightarrow> key y < key z"
    using sub assms(4) by blast
  have "key_heap key (heap_merge cmp l r)"
    by (rule key_heap_merge [OF _ _ cm]) (use k in auto)
  then have "key_heap key (plug x (heap_merge cmp l r) t)"
    by (rule key_heap_plug [OF assms(1-3)]) (use c in auto)
  then show ?thesis using c by (simp add: heap_remove_def)
qed

section \<open>Property of the heap routines\<close>

definition heap_holds :: "('a \<Rightarrow> int) \<Rightarrow> 'a heap_store \<Rightarrow> 'a option \<Rightarrow> 'a set \<Rightarrow> bool" where
  "heap_holds key h root X \<longleftrightarrow> (\<exists>t. root = root_ptr t \<and> tree_at h None t \<and> distinct_tree t \<and>
     key_heap key t \<and> set_tree t = X)"

definition compares :: "('a \<Rightarrow> 'a \<Rightarrow> int) \<Rightarrow> ('a \<Rightarrow> int) \<Rightarrow> 'a set \<Rightarrow> bool" where
  "compares cmp key X \<longleftrightarrow> (\<forall>x\<in>X. \<forall>y\<in>X. cmp x y = -1 \<longleftrightarrow> key x < key y)"

lemma heap_holds_empty: "heap_holds key h None {}"
  unfolding heap_holds_def by (rule exI [of _ Leaf]) simp

lemma heap_holds_root:
  assumes "heap_holds key h root X"
  shows "case root of None \<Rightarrow> X = {} | Some m \<Rightarrow> m \<in> X \<and> (\<forall>y\<in>X. key m \<le> key y)"
proof -
  obtain t where t: "root = root_ptr t" "key_heap key t" "set_tree t = X"
    using assms by (auto simp: heap_holds_def)
  show ?thesis
    using t key_heap_root [OF t(2)] root_ptr_in [of t] by (cases t) (auto split: option.splits)
qed

lemma heap_holds_cong:
  "heap_holds key h root X \<Longrightarrow> \<forall>x\<in>X. key' x = key x + c \<Longrightarrow> heap_holds key' h root X"
  unfolding heap_holds_def using key_heap_shift by blast

lemma heap_holds_insert:
  assumes "heap_holds key h root X" "b \<notin> X" "compares cmp key (insert b X)"
  shows "\<exists>h' root'. skew_heap_insert cmp root b h = Some (root', h') \<and>
    heap_holds key h' root' (insert b X)"
proof -
  obtain t where t: "root = root_ptr t" "tree_at h None t" "distinct_tree t" "key_heap key t"
    "set_tree t = X" using assms(1) by (auto simp: heap_holds_def)
  let ?t = "heap_merge cmp t (Node Leaf b Leaf)"
  have b: "b \<notin> set_tree t" using t(5) assms(2) by simp
  obtain h' where h': "skew_heap_insert cmp root b h = Some (root_ptr ?t, h')" "tree_at h' None ?t"
    using skew_heap_insert_refines [OF t(2,3) b] t(1) by blast
  have "key_heap key ?t" by (rule key_heap_merge) (use t assms(3) in \<open>auto simp: compares_def\<close>)
  moreover have "distinct_tree ?t" by (rule distinct_heap_merge) (use t b in auto)
  moreover have "set_tree ?t = insert b X" using t(5) by auto
  ultimately have "heap_holds key h' (root_ptr ?t) (insert b X)"
    using h'(2) unfolding heap_holds_def by blast
  then show ?thesis using h'(1) by blast
qed

lemma heap_holds_remove:
  assumes "heap_holds key h root X" "b \<in> X" "compares cmp key (X - {b})"
  shows "\<exists>h' root'. skew_heap_remove cmp root b h = Some (root', h') \<and>
    heap_holds key h' root' (X - {b})"
proof -
  obtain t where t: "root = root_ptr t" "tree_at h None t" "distinct_tree t" "key_heap key t"
    "set_tree t = X" using assms(1) by (auto simp: heap_holds_def)
  let ?t = "heap_remove cmp b t"
  have b: "b \<in> set_tree t" using t(5) assms(2) by simp
  obtain h' where h': "skew_heap_remove cmp root b h = Some (root_ptr ?t, h')" "tree_at h' None ?t"
    using skew_heap_remove_refines [OF t(2,3) b] t(1) by blast
  have "key_heap key ?t"
    by (rule key_heap_remove [OF t(4,3) b]) (use assms(3) t(5) in \<open>auto simp: compares_def\<close>)
  then have "heap_holds key h' (root_ptr ?t) (X - {b})"
    using h'(2) distinct_heap_remove [OF t(3) b, of cmp] set_heap_remove [OF t(3) b, of cmp] t(5)
    unfolding heap_holds_def by blast
  then show ?thesis using h'(1) by blast
qed

text \<open>
  The shape alone -- which entries the pool holds -- is kept whatever the comparison answers.
\<close>

definition heap_shape :: "'a heap_store \<Rightarrow> 'a option \<Rightarrow> 'a set \<Rightarrow> bool" where
  "heap_shape h root X \<longleftrightarrow> (\<exists>t. root = root_ptr t \<and> tree_at h None t \<and> distinct_tree t \<and>
     set_tree t = X)"

lemma heap_holds_shape: "heap_holds key h root X \<Longrightarrow> heap_shape h root X"
  by (auto simp: heap_holds_def heap_shape_def)

lemma heap_shape_empty: "heap_shape h None {}"
  unfolding heap_shape_def by (rule exI [of _ Leaf]) simp

lemma heap_shape_root: "heap_shape h root X \<Longrightarrow> case root of None \<Rightarrow> X = {} | Some m \<Rightarrow> m \<in> X"
  unfolding heap_shape_def by (auto split: option.splits dest: root_ptr_in) (metis empty_iff root_ptr.elims option.discI tree.set(1))

lemma heap_shape_insert:
  assumes "heap_shape h root X" "b \<notin> X"
  shows "\<exists>h' root'. skew_heap_insert cmp root b h = Some (root', h') \<and> heap_shape h' root' (insert b X)"
proof -
  obtain t where t: "root = root_ptr t" "tree_at h None t" "distinct_tree t" "set_tree t = X"
    using assms(1) by (auto simp: heap_shape_def)
  let ?t = "heap_merge cmp t (Node Leaf b Leaf)"
  have b: "b \<notin> set_tree t" using t(4) assms(2) by simp
  have "distinct_tree ?t" by (rule distinct_heap_merge) (use t b in auto)
  moreover have "set_tree ?t = insert b X" using t(4) by auto
  ultimately show ?thesis
    using skew_heap_insert_refines [OF t(2,3) b, of cmp] t(1) unfolding heap_shape_def by blast
qed

lemma heap_shape_remove:
  assumes "heap_shape h root X" "b \<in> X"
  shows "\<exists>h' root'. skew_heap_remove cmp root b h = Some (root', h') \<and> heap_shape h' root' (X - {b})"
proof -
  obtain t where t: "root = root_ptr t" "tree_at h None t" "distinct_tree t" "set_tree t = X"
    using assms(1) by (auto simp: heap_shape_def)
  have b: "b \<in> set_tree t" using t(4) assms(2) by simp
  show ?thesis
    using skew_heap_remove_refines [OF t(2,3) b, of cmp] t(1,4) set_heap_remove [OF t(3) b, of cmp]
      distinct_heap_remove [OF t(3) b, of cmp] unfolding heap_shape_def by blast
qed

text \<open>A store that holds the heap of the three entries 1, 2 and 3, with their own values as keys.\<close>

definition demo_heap :: "nat heap_store" where
  "demo_heap = \<lparr>hparent = (\<lambda>x. if x = 1 then None else Some 1),
     hleft = (\<lambda>x. if x = 1 then Some 2 else None), hright = (\<lambda>x. if x = 1 then Some 3 else None)\<rparr>"

definition demo_cmp :: "nat \<Rightarrow> nat \<Rightarrow> int" where
  "demo_cmp x y = (if x < y then -1 else if x = y then 0 else 1)"

lemma demo_heap_holds: "heap_holds int demo_heap (Some 1) {1, 2, 3}"
  unfolding heap_holds_def
  by (rule exI [of _ "Node (Node Leaf 2 Leaf) 1 (Node Leaf 3 Leaf)"]) (auto simp: demo_heap_def)

lemma demo_compares: "compares demo_cmp int X"
  by (auto simp: compares_def demo_cmp_def)

text \<open>
  C22.  The skew heap routines are a correct priority queue on pointers.  From a store that holds a
  heap of the entries \<open>X\<close>, \<^verbatim>\<open>skew_heap_insert\<close> of a new entry and \<^verbatim>\<open>skew_heap_remove\<close> of any
  member -- also one in the middle, found through its parent pointer -- terminate and return the
  root of a heap that holds exactly one entry more or less, with every parent pointer right and
  the key order kept.  The root of a heap is an entry of minimal key, and null only for no entries.
\<close>

theorem skew_heap_priority_queue:
  assumes "heap_holds key h root X" "compares cmp key (insert b X)"
  shows "(b \<notin> X \<longrightarrow> (\<exists>h' root'. skew_heap_insert cmp root b h = Some (root', h') \<and>
        heap_holds key h' root' (insert b X))) \<and>
    (b \<in> X \<longrightarrow> (\<exists>h' root'. skew_heap_remove cmp root b h = Some (root', h') \<and>
        heap_holds key h' root' (X - {b}))) \<and>
    (case root of None \<Rightarrow> X = {} | Some m \<Rightarrow> m \<in> X \<and> (\<forall>y\<in>X. key m \<le> key y))"
proof (intro conjI impI)
  assume "b \<notin> X"
  then show "\<exists>h' root'. skew_heap_insert cmp root b h = Some (root', h') \<and>
      heap_holds key h' root' (insert b X)"
    using heap_holds_insert [OF assms(1) _ assms(2)] by blast
next
  assume b: "b \<in> X"
  have "compares cmp key (X - {b})" using assms(2) by (auto simp: compares_def)
  then show "\<exists>h' root'. skew_heap_remove cmp root b h = Some (root', h') \<and>
      heap_holds key h' root' (X - {b})"
    using heap_holds_remove [OF assms(1) b] by blast
qed (rule heap_holds_root [OF assms(1)])

theorem skew_heap_priority_queue_witness:
  "(\<exists>h' root'. skew_heap_insert demo_cmp (Some 1) 0 demo_heap = Some (root', h') \<and>
      heap_holds int h' root' {0, 1, 2, 3}) \<and>
   (\<exists>h' root'. skew_heap_remove demo_cmp (Some 1) 2 demo_heap = Some (root', h') \<and>
      heap_holds int h' root' {1, 3})"
proof -
  have i: "\<exists>h' root'. skew_heap_insert demo_cmp (Some 1) 0 demo_heap = Some (root', h') \<and>
      heap_holds int h' root' (insert 0 {1, 2, 3})"
    using skew_heap_priority_queue [OF demo_heap_holds demo_compares, of 0] by simp
  have "{1, 2, 3} - {2 :: nat} = {1, 3}" by auto
  then have "\<exists>h' root'. skew_heap_remove demo_cmp (Some 1) 2 demo_heap = Some (root', h') \<and>
      heap_holds int h' root' {1, 3}"
    using skew_heap_priority_queue [OF demo_heap_holds demo_compares, of 2] by simp
  with i show ?thesis by simp
qed

end
