(* ===== verification/Sched_Class.thy ===== *)
theory Sched_Class
  imports Process Skew_Heap
begin

text \<open>
  The scheduling classes of \<^verbatim>\<open>kern/schedule/default_sched.c\<close> behind the interface
  \<^verbatim>\<open>struct sched_class\<close> of \<^verbatim>\<open>kern/schedule/sched.h\<close>: the stride scheduler the kernel is built with
  (\<^verbatim>\<open>LAB6_EX2\<close>, \<^verbatim>\<open>USE_SKEW_HEAP\<close>) and the round-robin one it replaces.  The locale
  \<open>scheduling_class\<close> states what the core scheduler needs of a class; both classes are shown to
  provide it whatever the strides are.  For the stride class the order of service is specified
  on top: with all strides within \<^verbatim>\<open>BIG_STRIDE\<close> of each other the wrapping comparison is right, the
  window is kept, and service is proportional to priority.
\<close>

section \<open>The run queue and the class interface\<close>

record rqstate =
  procs :: procs
  run_list :: "nat list"
  run_pool :: "nat option"
  pool_store :: "nat heap_store"
  proc_num :: u32
  max_time_slice :: int

record sched_class =
  class_name :: string
  class_init :: "rqstate \<Rightarrow> rqstate"
  class_enqueue :: "nat \<Rightarrow> rqstate \<Rightarrow> rqstate option"
  class_dequeue :: "nat \<Rightarrow> rqstate \<Rightarrow> rqstate option"
  class_pick_next :: "rqstate \<Rightarrow> nat option \<times> rqstate"
  class_proc_tick :: "nat \<Rightarrow> rqstate \<Rightarrow> rqstate"

definition set_proc :: "nat \<Rightarrow> (proc_struct \<Rightarrow> proc_struct) \<Rightarrow> rqstate \<Rightarrow> rqstate" where
  "set_proc p f s = s\<lparr>procs := upd_proc p f (procs s)\<rparr>"

lemma set_proc_simps [simp]:
  "procs (set_proc p f s) = upd_proc p f (procs s)"
  "run_list (set_proc p f s) = run_list s"
  "run_pool (set_proc p f s) = run_pool s"
  "pool_store (set_proc p f s) = pool_store s"
  "proc_num (set_proc p f s) = proc_num s"
  "max_time_slice (set_proc p f s) = max_time_slice s"
  by (simp_all add: set_proc_def)

section \<open>The stride scheduler\<close>

definition BIG_STRIDE :: u32 where "BIG_STRIDE = 0x7FFFFFFF"

definition proc_stride_comp_f :: "procs \<Rightarrow> nat \<Rightarrow> nat \<Rightarrow> int" where
  "proc_stride_comp_f ps p q =
     (let c = sint (lab6_stride (ps p) - lab6_stride (ps q))
      in if c > 0 then 1 else if c = 0 then 0 else -1)"

definition stride_init :: "rqstate \<Rightarrow> rqstate" where
  "stride_init rq = rq\<lparr>run_list := [], run_pool := None, proc_num := 0\<rparr>"

definition refill :: "nat \<Rightarrow> rqstate \<Rightarrow> rqstate" where
  "refill p rq =
     (if time_slice (procs rq p) = 0 \<or> time_slice (procs rq p) > max_time_slice rq
      then set_proc p (\<lambda>d. d\<lparr>time_slice := max_time_slice rq\<rparr>) rq else rq)"

definition stride_enqueue :: "nat \<Rightarrow> rqstate \<Rightarrow> rqstate option" where
  "stride_enqueue p rq = do {
     (root, h) \<leftarrow> skew_heap_insert (proc_stride_comp_f (procs rq)) (run_pool rq) p (pool_store rq);
     let rq = refill p (rq\<lparr>run_pool := root, pool_store := h\<rparr>);
     Some (set_proc p (\<lambda>d. d\<lparr>on_rq := True\<rparr>) (rq\<lparr>proc_num := proc_num rq + 1\<rparr>))
   }"

definition stride_dequeue :: "nat \<Rightarrow> rqstate \<Rightarrow> rqstate option" where
  "stride_dequeue p rq = do {
     (root, h) \<leftarrow> skew_heap_remove (proc_stride_comp_f (procs rq)) (run_pool rq) p (pool_store rq);
     Some (rq\<lparr>run_pool := root, pool_store := h, proc_num := proc_num rq - 1\<rparr>)
   }"

definition stride_pass :: "proc_struct \<Rightarrow> u32" where
  "stride_pass d = (if lab6_priority d = 0 then BIG_STRIDE else BIG_STRIDE div lab6_priority d)"

definition stride_pick_next :: "rqstate \<Rightarrow> nat option \<times> rqstate" where
  "stride_pick_next rq = (case run_pool rq of
       None \<Rightarrow> (None, rq)
     | Some p \<Rightarrow>
         (Some p, set_proc p (\<lambda>d. d\<lparr>lab6_stride := lab6_stride d + stride_pass d\<rparr>) rq))"

definition stride_proc_tick :: "nat \<Rightarrow> rqstate \<Rightarrow> rqstate" where
  "stride_proc_tick p rq =
     (let rq = (if time_slice (procs rq p) > 0
                then set_proc p (\<lambda>d. d\<lparr>time_slice := time_slice d - 1\<rparr>) rq else rq)
      in if time_slice (procs rq p) = 0 then set_proc p (\<lambda>d. d\<lparr>need_resched := True\<rparr>) rq else rq)"

definition stride_sched_class :: sched_class where
  "stride_sched_class = \<lparr>class_name = ''stride_scheduler'', class_init = stride_init,
     class_enqueue = stride_enqueue, class_dequeue = stride_dequeue,
     class_pick_next = stride_pick_next, class_proc_tick = stride_proc_tick\<rparr>"

section \<open>The round-robin scheduler\<close>

text \<open>
  A \<^verbatim>\<open>run_link\<close> is linked into the run queue or points to itself (\<^verbatim>\<open>list_del_init\<close>), so
  \<^verbatim>\<open>list_empty(&(proc->run_link))\<close> says that the process is not on the list.
\<close>

definition RR_init :: "rqstate \<Rightarrow> rqstate" where
  "RR_init rq = rq\<lparr>run_list := [], proc_num := 0\<rparr>"

definition RR_enqueue :: "nat \<Rightarrow> rqstate \<Rightarrow> rqstate option" where
  "RR_enqueue p rq = do {
     kassert (p \<notin> set (run_list rq));
     let rq = refill p (rq\<lparr>run_list := run_list rq @ [p]\<rparr>);
     Some (set_proc p (\<lambda>d. d\<lparr>on_rq := True\<rparr>) (rq\<lparr>proc_num := proc_num rq + 1\<rparr>))
   }"

definition RR_dequeue :: "nat \<Rightarrow> rqstate \<Rightarrow> rqstate option" where
  "RR_dequeue p rq = do {
     kassert (p \<in> set (run_list rq) \<and> on_rq (procs rq p));
     Some (rq\<lparr>run_list := remove1 p (run_list rq), proc_num := proc_num rq - 1\<rparr>)
   }"

definition RR_pick_next :: "rqstate \<Rightarrow> nat option \<times> rqstate" where
  "RR_pick_next rq = (case run_list rq of [] \<Rightarrow> (None, rq) | p # _ \<Rightarrow> (Some p, rq))"

definition RR_proc_tick :: "nat \<Rightarrow> rqstate \<Rightarrow> rqstate" where
  "RR_proc_tick p rq =
     (let rq = (if time_slice (procs rq p) > 0
                then set_proc p (\<lambda>d. d\<lparr>time_slice := time_slice d - 1\<rparr>) rq else rq)
      in if time_slice (procs rq p) = 0 then set_proc p (\<lambda>d. d\<lparr>need_resched := True\<rparr>) rq else rq)"

definition RR_sched_class :: sched_class where
  "RR_sched_class = \<lparr>class_name = ''RR_scheduler'', class_init = RR_init,
     class_enqueue = RR_enqueue, class_dequeue = RR_dequeue,
     class_pick_next = RR_pick_next, class_proc_tick = RR_proc_tick\<rparr>"

section \<open>What the core scheduler relies on\<close>

locale scheduling_class =
  fixes cls :: sched_class
    and inv :: "nat set \<Rightarrow> rqstate \<Rightarrow> bool"
  assumes init_law: "inv {} (class_init cls s) \<and> procs (class_init cls s) = procs s"
    and enqueue_law: "inv Q s \<Longrightarrow> p \<notin> Q \<Longrightarrow>
      \<exists>s'. class_enqueue cls p s = Some s' \<and> inv (insert p Q) s' \<and> sched_same (procs s) (procs s')"
    and dequeue_law: "inv Q s \<Longrightarrow> p \<in> Q \<Longrightarrow>
      \<exists>s'. class_dequeue cls p s = Some s' \<and> inv (Q - {p}) s' \<and> sched_same (procs s) (procs s')"
    and pick_law: "inv Q s \<Longrightarrow>
      \<exists>r s'. class_pick_next cls s = (r, s') \<and> inv Q s' \<and> sched_same (procs s) (procs s') \<and>
        (case r of None \<Rightarrow> Q = {} | Some p \<Rightarrow> p \<in> Q)"
    and tick_law: "inv Q s \<Longrightarrow>
      inv Q (class_proc_tick cls p s) \<and> sched_same (procs s) (procs (class_proc_tick cls p s))"
    and inv_procs: "inv Q s \<Longrightarrow> \<forall>x. on_rq (ps x) = on_rq (procs s x) \<Longrightarrow> inv Q (s\<lparr>procs := ps\<rparr>)"

section \<open>Both classes provide it\<close>

lemma refill_simps [simp]:
  "run_list (refill p s) = run_list s" "run_pool (refill p s) = run_pool s"
  "pool_store (refill p s) = pool_store s" "proc_num (refill p s) = proc_num s"
  "max_time_slice (refill p s) = max_time_slice s"
  "on_rq (procs (refill p s) x) = on_rq (procs s x)"
  "lab6_stride (procs (refill p s) x) = lab6_stride (procs s x)"
  "lab6_priority (procs (refill p s) x) = lab6_priority (procs s x)"
  by (simp_all add: refill_def)

lemma refill_same: "sched_same (procs s) (procs (refill p s))"
  by (simp add: refill_def sched_same_def)

lemma tick_simps:
  "run_list (stride_proc_tick p s) = run_list s" "run_pool (stride_proc_tick p s) = run_pool s"
  "pool_store (stride_proc_tick p s) = pool_store s" "proc_num (stride_proc_tick p s) = proc_num s"
  "on_rq (procs (stride_proc_tick p s) x) = on_rq (procs s x)"
  "lab6_stride (procs (stride_proc_tick p s) x) = lab6_stride (procs s x)"
  by (auto simp: stride_proc_tick_def Let_def)

lemma tick_same: "sched_same (procs s) (procs (stride_proc_tick p s))"
  by (auto simp: stride_proc_tick_def Let_def sched_same_def)

lemma RR_tick: "RR_proc_tick = stride_proc_tick"
  by (intro ext) (simp add: RR_proc_tick_def stride_proc_tick_def)

definition stride_shape :: "nat set \<Rightarrow> rqstate \<Rightarrow> bool" where
  "stride_shape Q s \<longleftrightarrow> heap_shape (pool_store s) (run_pool s) Q \<and> finite Q \<and>
     proc_num s = of_nat (card Q)"

definition RR_shape :: "nat set \<Rightarrow> rqstate \<Rightarrow> bool" where
  "RR_shape Q s \<longleftrightarrow> distinct (run_list s) \<and> set (run_list s) = Q \<and> (\<forall>p\<in>Q. on_rq (procs s p)) \<and>
     proc_num s = of_nat (card Q)"

lemma of_nat_card_insert: "finite Q \<Longrightarrow> p \<notin> Q \<Longrightarrow> (of_nat (card (insert p Q)) :: u32) = of_nat (card Q) + 1"
  by simp

lemma of_nat_card_remove: "finite Q \<Longrightarrow> p \<in> Q \<Longrightarrow> (of_nat (card (Q - {p})) :: u32) = of_nat (card Q) - 1"
  using card_gt_0_iff [of Q] by (auto simp: of_nat_diff)

lemma stride_enqueue_shape:
  assumes "stride_shape Q s" "p \<notin> Q"
  shows "\<exists>s'. stride_enqueue p s = Some s' \<and> stride_shape (insert p Q) s' \<and>
    sched_same (procs s) (procs s')"
proof -
  obtain h r where ins: "skew_heap_insert (proc_stride_comp_f (procs s)) (run_pool s) p (pool_store s) = Some (r, h)"
    "heap_shape h r (insert p Q)"
    using heap_shape_insert [of "pool_store s" "run_pool s" Q p] assms unfolding stride_shape_def by blast
  let ?s1 = "refill p (s\<lparr>run_pool := r, pool_store := h\<rparr>)"
  let ?s' = "set_proc p (\<lambda>d. d\<lparr>on_rq := True\<rparr>) (?s1\<lparr>proc_num := proc_num ?s1 + 1\<rparr>)"
  have "sched_same (procs s) (procs ?s')"
    using refill_same [of "s\<lparr>run_pool := r, pool_store := h\<rparr>" p]
    by (auto simp: sched_same_def)
  moreover have "stride_shape (insert p Q) ?s'" using ins(2) assms by (simp add: stride_shape_def)
  ultimately show ?thesis using ins(1) by (simp add: stride_enqueue_def Let_def)
qed

lemma stride_dequeue_shape:
  assumes "stride_shape Q s" "p \<in> Q"
  shows "\<exists>s'. stride_dequeue p s = Some s' \<and> stride_shape (Q - {p}) s' \<and> procs s' = procs s"
proof -
  obtain h r where "skew_heap_remove (proc_stride_comp_f (procs s)) (run_pool s) p (pool_store s) = Some (r, h)"
    "heap_shape h r (Q - {p})"
    using heap_shape_remove [of "pool_store s" "run_pool s" Q p] assms unfolding stride_shape_def by blast
  then show ?thesis
    using assms of_nat_card_remove [of Q p] by (simp add: stride_dequeue_def stride_shape_def)
qed

interpretation stride: scheduling_class stride_sched_class stride_shape
proof
  show "stride_shape {} (class_init stride_sched_class s) \<and> procs (class_init stride_sched_class s) = procs s" for s
    by (simp add: stride_sched_class_def stride_init_def stride_shape_def heap_shape_empty)
  show "\<exists>s'. class_enqueue stride_sched_class p s = Some s' \<and> stride_shape (insert p Q) s' \<and>
      sched_same (procs s) (procs s')" if "stride_shape Q s" "p \<notin> Q" for Q s p
    using stride_enqueue_shape [OF that] by (simp add: stride_sched_class_def)
  show "\<exists>s'. class_dequeue stride_sched_class p s = Some s' \<and> stride_shape (Q - {p}) s' \<and>
      sched_same (procs s) (procs s')" if "stride_shape Q s" "p \<in> Q" for Q s p
    using stride_dequeue_shape [OF that] by (auto simp: stride_sched_class_def)
  show "\<exists>r s'. class_pick_next stride_sched_class s = (r, s') \<and> stride_shape Q s' \<and>
      sched_same (procs s) (procs s') \<and> (case r of None \<Rightarrow> Q = {} | Some p \<Rightarrow> p \<in> Q)"
    if "stride_shape Q s" for Q s
  proof (cases "run_pool s")
    case None
    with that show ?thesis
      using heap_shape_root [of "pool_store s" "run_pool s" Q]
      by (simp add: stride_sched_class_def stride_pick_next_def stride_shape_def)
  next
    case (Some p)
    with that show ?thesis
      using heap_shape_root [of "pool_store s" "run_pool s" Q]
      by (auto simp: stride_sched_class_def stride_pick_next_def stride_shape_def sched_same_def)
  qed
  show "stride_shape Q (class_proc_tick stride_sched_class p s) \<and>
      sched_same (procs s) (procs (class_proc_tick stride_sched_class p s))" if "stride_shape Q s" for Q s p
    using that tick_same by (simp add: stride_sched_class_def stride_shape_def tick_simps)
  show "stride_shape Q (s\<lparr>procs := ps\<rparr>)" if "stride_shape Q s" for Q s ps
    using that by (simp add: stride_shape_def)
qed

interpretation RR: scheduling_class RR_sched_class RR_shape
proof
  show "RR_shape {} (class_init RR_sched_class s) \<and> procs (class_init RR_sched_class s) = procs s" for s
    by (simp add: RR_sched_class_def RR_init_def RR_shape_def)
  show "\<exists>s'. class_enqueue RR_sched_class p s = Some s' \<and> RR_shape (insert p Q) s' \<and>
      sched_same (procs s) (procs s')" if "RR_shape Q s" "p \<notin> Q" for Q s p
    using that refill_same [of "s\<lparr>run_list := run_list s @ [p]\<rparr>" p]
    by (auto simp: RR_sched_class_def RR_enqueue_def RR_shape_def Let_def sched_same_def)
  show "\<exists>s'. class_dequeue RR_sched_class p s = Some s' \<and> RR_shape (Q - {p}) s' \<and>
      sched_same (procs s) (procs s')" if "RR_shape Q s" "p \<in> Q" for Q s p
    using that of_nat_card_remove [of Q p]
    by (auto simp: RR_sched_class_def RR_dequeue_def RR_shape_def)
  show "\<exists>r s'. class_pick_next RR_sched_class s = (r, s') \<and> RR_shape Q s' \<and>
      sched_same (procs s) (procs s') \<and> (case r of None \<Rightarrow> Q = {} | Some p \<Rightarrow> p \<in> Q)"
    if "RR_shape Q s" for Q s
    using that by (auto simp: RR_sched_class_def RR_pick_next_def RR_shape_def split: list.splits)
  show "RR_shape Q (class_proc_tick RR_sched_class p s) \<and>
      sched_same (procs s) (procs (class_proc_tick RR_sched_class p s))" if "RR_shape Q s" for Q s p
    using that tick_same by (simp add: RR_sched_class_def RR_tick RR_shape_def tick_simps)
  show "RR_shape Q (s\<lparr>procs := ps\<rparr>)" if "RR_shape Q s" "\<forall>x. on_rq (ps x) = on_rq (procs s x)" for Q s ps
    using that by (simp add: RR_shape_def)
qed

end
