(* ===== verification/Stride.thy ===== *)
theory Stride
  imports Sched_Class
begin

text \<open>
  The order of service of the stride scheduler.  The strides the code keeps wrap around; the
  invariant relates them to the true, unbounded ones \<open>v\<close>, says that those lie within
  \<^verbatim>\<open>BIG_STRIDE\<close> of each other, and that the run pool is a heap in their order.  From it follow
  that the wrapping comparison is the comparison of the true strides, that the next process is
  always one that is least advanced, and that service is proportional to priority.
\<close>

definition stride_inv :: "nat set \<Rightarrow> (nat \<Rightarrow> int) \<Rightarrow> rqstate \<Rightarrow> bool" where
  "stride_inv Q v s \<longleftrightarrow> finite Q \<and> proc_num s = of_nat (card Q) \<and>
     (\<forall>p\<in>Q. lab6_stride (procs s p) = word_of_int (v p)) \<and>
     (\<forall>p\<in>Q. \<forall>q\<in>Q. v p - v q \<le> uint BIG_STRIDE) \<and>
     heap_holds v (pool_store s) (run_pool s) Q"

lemma uint_BIG_STRIDE [simp]: "uint BIG_STRIDE = 2147483647"
  by (simp add: BIG_STRIDE_def)

lemma sint_small_diff:
  assumes "\<bar>a - b\<bar> \<le> 2147483647"
  shows "sint (word_of_int a - word_of_int b :: u32) = a - b"
proof -
  have *: "sint (word_of_int k :: u32) = signed_take_bit 31 k" for k by (simp add: signed_of_int)
  have "sint (word_of_int a - word_of_int b :: u32) = signed_take_bit 31 (a - b)"
    unfolding of_int_diff [symmetric] by (rule *)
  also have "\<dots> = a - b" by (rule signed_take_bit_int_eq_self) (use assms in auto)
  finally show ?thesis .
qed

lemma stride_comp_right:
  assumes "\<forall>p\<in>X. lab6_stride (ps p) = word_of_int (v p)"
    "\<forall>p\<in>X. \<forall>q\<in>X. v p - v q \<le> 2147483647" "p \<in> X" "q \<in> X"
  shows "proc_stride_comp_f ps p q = sgn (v p - v q)"
proof -
  have "v p - v q \<le> 2147483647" "v q - v p \<le> 2147483647" using assms by auto
  then have "\<bar>v p - v q\<bar> \<le> 2147483647" by arith
  then have "sint (lab6_stride (ps p) - lab6_stride (ps q)) = v p - v q"
    using assms sint_small_diff by simp
  then show ?thesis by (simp add: proc_stride_comp_f_def Let_def sgn_if)
qed

lemma stride_compares:
  assumes "\<forall>p\<in>X. lab6_stride (ps p) = word_of_int (v p)"
    "\<forall>p\<in>X. \<forall>q\<in>X. v p - v q \<le> 2147483647"
  shows "compares (proc_stride_comp_f ps) v X"
  using stride_comp_right [OF assms] by (auto simp: compares_def sgn_if split: if_splits)

lemma uint_stride_pass: "0 \<le> uint (stride_pass d)" "uint (stride_pass d) \<le> 2147483647"
proof -
  have "unat (stride_pass d) \<le> unat BIG_STRIDE" by (simp add: stride_pass_def unat_div)
  then have "int (unat (stride_pass d)) \<le> int (unat BIG_STRIDE)" by (simp only: of_nat_le_iff)
  then show "uint (stride_pass d) \<le> 2147483647" by simp
qed simp

text \<open>One turn: the process picked leaves the queue, runs, and is queued again.\<close>

definition stride_round :: "rqstate \<Rightarrow> (nat option \<times> rqstate) option" where
  "stride_round s = (case stride_pick_next s of
       (None, s) \<Rightarrow> Some (None, s)
     | (Some p, s) \<Rightarrow> do {
         s \<leftarrow> stride_dequeue p s;
         s \<leftarrow> stride_enqueue p s;
         Some (Some p, s)
       })"

definition same_pass :: "rqstate \<Rightarrow> rqstate \<Rightarrow> bool" where
  "same_pass s s' \<longleftrightarrow> (\<forall>p. lab6_priority (procs s' p) = lab6_priority (procs s p))"

lemma same_pass_eq: "same_pass s s' \<Longrightarrow> stride_pass (procs s' p) = stride_pass (procs s p)"
  by (simp add: same_pass_def stride_pass_def)

lemma stride_pick_least:
  assumes "stride_inv Q v s"
  shows "case stride_pick_next s of (r, s') \<Rightarrow>
    (case r of None \<Rightarrow> Q = {} \<and> s' = s
     | Some p \<Rightarrow> p \<in> Q \<and> (\<forall>q\<in>Q. v p \<le> v q) \<and>
         s' = set_proc p (\<lambda>d. d\<lparr>lab6_stride := lab6_stride d + stride_pass d\<rparr>) s)"
  using heap_holds_root [of v "pool_store s" "run_pool s" Q] assms
  by (auto simp: stride_pick_next_def stride_inv_def split: option.splits)

lemma stride_dequeue_order:
  assumes "stride_inv Q v s" "p \<in> Q" and ps: "\<forall>q. q \<noteq> p \<longrightarrow> procs s1 q = procs s q"
    and "s1 = s\<lparr>procs := procs s1\<rparr>"
  shows "\<exists>s'. stride_dequeue p s1 = Some s' \<and> stride_inv (Q - {p}) v s' \<and> procs s' = procs s1"
proof -
  have st: "pool_store s1 = pool_store s" "run_pool s1 = run_pool s" "proc_num s1 = proc_num s"
    using assms(4) by (metis rqstate.select_convs rqstate.surjective rqstate.update_convs(1))+
  have "\<forall>q\<in>Q - {p}. lab6_stride (procs s1 q) = word_of_int (v q)"
    "\<forall>x\<in>Q - {p}. \<forall>y\<in>Q - {p}. v x - v y \<le> 2147483647"
    using assms(1) ps by (auto simp: stride_inv_def)
  then have "compares (proc_stride_comp_f (procs s1)) v (Q - {p})" by (rule stride_compares)
  then obtain h r where
    "skew_heap_remove (proc_stride_comp_f (procs s1)) (run_pool s) p (pool_store s) = Some (r, h)"
    "heap_holds v h r (Q - {p})"
    using heap_holds_remove [of v "pool_store s" "run_pool s" Q p] assms(1,2)
    unfolding stride_inv_def by blast
  then show ?thesis
    using assms(1,2) ps st of_nat_card_remove [of Q p]
    by (auto simp: stride_dequeue_def stride_inv_def)
qed

lemma stride_enqueue_order:
  assumes "stride_inv Q v s" "p \<notin> Q" "lab6_stride (procs s p) = word_of_int (v p)"
    "\<forall>q\<in>Q. v p - v q \<le> 2147483647 \<and> v q - v p \<le> 2147483647"
  shows "\<exists>s'. stride_enqueue p s = Some s' \<and> stride_inv (insert p Q) v s' \<and> same_pass s s'"
proof -
  have a: "\<forall>q\<in>insert p Q. lab6_stride (procs s q) = word_of_int (v q)"
    "\<forall>x\<in>insert p Q. \<forall>y\<in>insert p Q. v x - v y \<le> 2147483647"
    using assms by (auto simp: stride_inv_def)
  then have "compares (proc_stride_comp_f (procs s)) v (insert p Q)" by (rule stride_compares)
  then obtain h r where ins:
    "skew_heap_insert (proc_stride_comp_f (procs s)) (run_pool s) p (pool_store s) = Some (r, h)"
    "heap_holds v h r (insert p Q)"
    using heap_holds_insert [of v "pool_store s" "run_pool s" Q p] assms(1,2)
    unfolding stride_inv_def by blast
  let ?s1 = "refill p (s\<lparr>run_pool := r, pool_store := h\<rparr>)"
  let ?s' = "set_proc p (\<lambda>d. d\<lparr>on_rq := True\<rparr>) (?s1\<lparr>proc_num := proc_num ?s1 + 1\<rparr>)"
  have "stride_inv (insert p Q) v ?s'" using ins(2) a assms(1,2) by (auto simp: stride_inv_def)
  moreover have "same_pass s ?s'" by (simp add: same_pass_def)
  ultimately show ?thesis using ins(1) by (simp add: stride_enqueue_def Let_def)
qed

lemma stride_round_step:
  assumes "stride_inv Q v s" "Q \<noteq> {}"
  shows "\<exists>p s'. stride_round s = Some (Some p, s') \<and> p \<in> Q \<and> (\<forall>q\<in>Q. v p \<le> v q) \<and>
    stride_inv Q (v(p := v p + uint (stride_pass (procs s p)))) s' \<and> same_pass s s'"
proof -
  obtain p where pick: "stride_pick_next s =
      (Some p, set_proc p (\<lambda>d. d\<lparr>lab6_stride := lab6_stride d + stride_pass d\<rparr>) s)"
    and p: "p \<in> Q" "\<forall>q\<in>Q. v p \<le> v q"
    using stride_pick_least [OF assms(1)] assms(2) by (auto split: prod.splits option.splits)
  let ?s1 = "set_proc p (\<lambda>d. d\<lparr>lab6_stride := lab6_stride d + stride_pass d\<rparr>) s"
  let ?v = "v(p := v p + uint (stride_pass (procs s p)))"
  have "?s1 = s\<lparr>procs := procs ?s1\<rparr>" by (simp add: set_proc_def)
  then obtain s2 where s2: "stride_dequeue p ?s1 = Some s2" "stride_inv (Q - {p}) v s2"
    "procs s2 = procs ?s1"
    using stride_dequeue_order [OF assms(1) p(1), of ?s1] by auto
  have win: "v x - v y \<le> 2147483647" if "x \<in> Q" "y \<in> Q" for x y
    using assms(1) that by (simp add: stride_inv_def)
  have v2: "stride_inv (Q - {p}) ?v s2"
    using s2(2) heap_holds_cong [of v "pool_store s2" "run_pool s2" "Q - {p}" ?v 0]
    by (simp add: stride_inv_def)
  have "lab6_stride (procs s2 p) = word_of_int (v p) + word_of_int (uint (stride_pass (procs s p)))"
    using assms(1) p(1) s2(3) by (simp add: stride_inv_def)
  then have "lab6_stride (procs s2 p) = word_of_int (?v p)" by simp
  moreover have "?v p - ?v q \<le> 2147483647 \<and> ?v q - ?v p \<le> 2147483647" if "q \<in> Q - {p}" for q
  proof -
    have "v q - v p \<le> 2147483647" "v p \<le> v q" using win [of q p] p that by auto
    moreover obtain k where "uint (stride_pass (procs s p)) = k" "0 \<le> k" "k \<le> 2147483647"
      using uint_stride_pass by blast
    ultimately show ?thesis using that by auto
  qed
  ultimately obtain s3 where s3: "stride_enqueue p s2 = Some s3" "stride_inv (insert p (Q - {p})) ?v s3"
    "same_pass s2 s3"
    using stride_enqueue_order [OF v2, of p] by blast
  have "insert p (Q - {p}) = Q" using p(1) by auto
  moreover have "same_pass s s3" using s3(3) s2(3) by (auto simp: same_pass_def)
  ultimately show ?thesis using pick s2(1) s3 p by (auto simp: stride_round_def)
qed

fun stride_rounds :: "nat \<Rightarrow> rqstate \<Rightarrow> (nat list \<times> rqstate) option" where
  "stride_rounds 0 s = Some ([], s)"
| "stride_rounds (Suc n) s = do {
     (r, s) \<leftarrow> stride_round s;
     (ps, s) \<leftarrow> stride_rounds n s;
     Some ((case r of None \<Rightarrow> ps | Some p \<Rightarrow> p # ps), s)
   }"

lemma stride_rounds_inv:
  assumes "stride_inv Q v s" "Q \<noteq> {}"
  shows "\<exists>ps s'. stride_rounds n s = Some (ps, s') \<and> length ps = n \<and> set ps \<subseteq> Q \<and> same_pass s s' \<and>
    stride_inv Q (\<lambda>p. v p + int (count_list ps p) * uint (stride_pass (procs s p))) s'"
  using assms
proof (induction n arbitrary: v s)
  case 0
  then show ?case by (simp add: same_pass_def)
next
  case (Suc n)
  obtain p s1 where r: "stride_round s = Some (Some p, s1)" "p \<in> Q"
    "stride_inv Q (v(p := v p + uint (stride_pass (procs s p)))) s1" "same_pass s s1"
    using stride_round_step [OF Suc.prems] by blast
  let ?v = "v(p := v p + uint (stride_pass (procs s p)))"
  obtain ps s' where rs: "stride_rounds n s1 = Some (ps, s')" "length ps = n" "set ps \<subseteq> Q"
    "same_pass s1 s'"
    "stride_inv Q (\<lambda>q. ?v q + int (count_list ps q) * uint (stride_pass (procs s1 q))) s'"
    using Suc.IH [OF r(3) Suc.prems(2)] by blast
  have "(\<lambda>q. ?v q + int (count_list ps q) * uint (stride_pass (procs s1 q))) =
      (\<lambda>q. v q + int (count_list (p # ps) q) * uint (stride_pass (procs s q)))"
    using same_pass_eq [OF r(4)] by (auto simp: fun_eq_iff algebra_simps)
  then have "stride_inv Q (\<lambda>q. v q + int (count_list (p # ps) q) * uint (stride_pass (procs s q))) s'"
    using rs(5) by simp
  moreover have "same_pass s s'" using r(4) rs(4) by (simp add: same_pass_def)
  ultimately show ?case using r(1,2) rs(1-3) by auto
qed

lemma key_heap_const: "key_heap (\<lambda>_. m) t"
  by (induction t) auto

lemma stride_inv_start:
  assumes "stride_shape Q s" "\<forall>p\<in>Q. lab6_stride (procs s p) = word_of_int m"
  shows "stride_inv Q (\<lambda>_. m) s"
proof -
  obtain t where t: "run_pool s = root_ptr t" "tree_at (pool_store s) None t" "distinct_tree t"
    "set_tree t = Q" using assms(1) by (auto simp: stride_shape_def heap_shape_def)
  then have "heap_holds (\<lambda>_. m) (pool_store s) (run_pool s) Q"
    using key_heap_const unfolding heap_holds_def by blast
  then show ?thesis using assms by (simp add: stride_inv_def stride_shape_def)
qed

section \<open>Properties of the stride scheduler\<close>

text \<open>Three queued processes; the strides of 1 and 2 have not wrapped, that of 3 has.\<close>

definition demo_proc :: proc_struct where
  "demo_proc = \<lparr>pstate = PROC_RUNNABLE, pid = 1, runs = 0, kstack = None, need_resched = False,
     parent = None, mm = None, cr3 = 0, pflags = 0, pname = '''', exit_code = 0, wait_state = 0,
     cptr = None, yptr = None, optr = None, on_rq = True, time_slice = 5, fs_struct = None,
     lab6_stride = 0, lab6_priority = 3\<rparr>"

definition demo_rq :: rqstate where
  "demo_rq = \<lparr>procs = (\<lambda>p. demo_proc\<lparr>lab6_stride := if p = 3 then 16 else if p = 2 then -1 else -16\<rparr>),
     run_list = [], run_pool = Some 1, pool_store = demo_heap, proc_num = 3, max_time_slice = 20\<rparr>"

definition demo_strides :: "nat \<Rightarrow> int" where
  "demo_strides p = (if p = 3 then 4294967312 else if p = 2 then 4294967295 else 4294967280)"

lemma demo_rq_inv: "stride_inv {1, 2, 3} demo_strides demo_rq"
proof -
  have "heap_holds demo_strides demo_heap (Some 1) {1, 2, 3}"
    unfolding heap_holds_def
    by (rule exI [of _ "Node (Node Leaf 2 Leaf) 1 (Node Leaf 3 Leaf)"])
      (auto simp: demo_heap_def demo_strides_def)
  then show ?thesis by (simp add: stride_inv_def demo_rq_def demo_strides_def)
qed
text \<open>
  C12.  Overflow does not disturb the stride scheduler.  While the true strides of the queued
  processes lie within \<^verbatim>\<open>BIG_STRIDE\<close> of each other, the comparison of wrapped 32-bit strides is
  the comparison of the true ones, the process picked is one with the least true stride, and after
  it has been charged its pass (\<^verbatim>\<open>BIG_STRIDE / priority\<close>), dequeued and queued again the same
  holds of the new strides, whatever the priorities.
\<close>

theorem stride_overflow_safe:
  assumes "stride_inv Q v s" "Q \<noteq> {}"
  shows "(\<forall>p\<in>Q. \<forall>q\<in>Q. proc_stride_comp_f (procs s) p q = sgn (v p - v q)) \<and>
    (\<exists>p s1 s2 s3. stride_pick_next s = (Some p, s1) \<and> p \<in> Q \<and> (\<forall>q\<in>Q. v p \<le> v q) \<and>
      stride_dequeue p s1 = Some s2 \<and> stride_enqueue p s2 = Some s3 \<and>
      stride_inv Q (v(p := v p + uint (stride_pass (procs s p)))) s3)"
proof -
  have "\<forall>p\<in>Q. \<forall>q\<in>Q. proc_stride_comp_f (procs s) p q = sgn (v p - v q)"
    using stride_comp_right [of Q "procs s" v] assms(1) by (simp add: stride_inv_def)
  moreover obtain p s3 where r: "stride_round s = Some (Some p, s3)" "p \<in> Q" "\<forall>q\<in>Q. v p \<le> v q"
    "stride_inv Q (v(p := v p + uint (stride_pass (procs s p)))) s3"
    using stride_round_step [OF assms] by blast
  then have "\<exists>s1 s2. stride_pick_next s = (Some p, s1) \<and> stride_dequeue p s1 = Some s2 \<and>
      stride_enqueue p s2 = Some s3"
    by (auto simp: stride_round_def bind_eq_Some_conv split: prod.splits option.splits)
  ultimately show ?thesis using r(2-4) by blast
qed

theorem stride_overflow_safe_witness:
  "proc_stride_comp_f (procs demo_rq) 2 3 = -1 \<and>
   (\<exists>s1 s2 s3. stride_pick_next demo_rq = (Some 1, s1) \<and> stride_dequeue 1 s1 = Some s2 \<and>
      stride_enqueue 1 s2 = Some s3 \<and> stride_inv {1, 2, 3} (demo_strides(1 := 5010795162)) s3)"
proof -
  have ne: "{1, 2, 3 :: nat} \<noteq> {}" by simp
  note t = stride_overflow_safe [OF demo_rq_inv ne]
  have c: "proc_stride_comp_f (procs demo_rq) 2 3 = -1" using t by (simp add: demo_strides_def)
  obtain p s1 s2 s3 where p: "stride_pick_next demo_rq = (Some p, s1)" "stride_dequeue p s1 = Some s2"
    "stride_enqueue p s2 = Some s3"
    "stride_inv {1, 2, 3} (demo_strides(p := demo_strides p + uint (stride_pass (procs demo_rq p)))) s3"
    using t by blast
  have "p = 1" using p(1) by (simp add: stride_pick_next_def demo_rq_def)
  moreover have "uint (stride_pass (procs demo_rq 1)) = 715827882"
    by (simp add: stride_pass_def demo_rq_def demo_proc_def BIG_STRIDE_def)
  ultimately have "stride_inv {1, 2, 3} (demo_strides(1 := 5010795162)) s3"
    using p(4) by (simp add: demo_strides_def)
  then show ?thesis using c p(1-3) \<open>p = 1\<close> by blast
qed

text \<open>Shares that differ by at most \<open>B\<close> leave nobody without a turn for long.\<close>

lemma shares_reach_all:
  fixes w :: "'a \<Rightarrow> int"
  assumes "finite Q" "set ps \<subseteq> Q" "\<forall>p\<in>Q. 0 < w p"
    and share: "\<forall>p\<in>Q. \<forall>q\<in>Q. int (count_list ps p) * w p \<le> int (count_list ps q) * w q + B"
    and n: "(\<Sum>p\<in>Q. B div w p) < int (length ps)"
  shows "set ps = Q"
proof (rule ccontr)
  assume "set ps \<noteq> Q"
  then obtain p where p: "p \<in> Q" "count_list ps p = 0" using assms(2) by (auto simp: count_list_0_iff)
  have "int (count_list ps q) \<le> B div w q" if q: "q \<in> Q" for q
  proof -
    have "int (count_list ps q) * w q \<le> B" using share q p by fastforce
    then show ?thesis using assms(3) q zdiv_mono1 [of "int (count_list ps q) * w q" B "w q"] by auto
  qed
  then have "(\<Sum>q\<in>Q. int (count_list ps q)) \<le> (\<Sum>q\<in>Q. B div w q)" by (rule sum_mono)
  moreover have "(\<Sum>q\<in>Q. count_list ps q) = length ps"
    using sum.mono_neutral_right [OF assms(1,2), of "count_list ps"] sum_count_set [of ps] by (auto simp: count_list_0_iff)
  ultimately show False using n by (metis int_sum not_less)
qed

text \<open>
  C23.  Service is proportional to priority.  If the queued processes start with equal strides, then
  after any number of turns the numbers of turns two of them have had, each weighted with its pass
  \<^verbatim>\<open>BIG_STRIDE / priority\<close>, differ by at most \<^verbatim>\<open>BIG_STRIDE\<close>.  If no pass is 0 - no
  priority is above \<^verbatim>\<open>BIG_STRIDE\<close> - then each process has had a turn once there have been
  more turns than the sum of \<^verbatim>\<open>BIG_STRIDE / pass\<close> over the processes, about the sum of their priorities: nobody starves.
  The turns never get stuck, and only queued processes are served.
\<close>

theorem stride_proportional_share:
  assumes "stride_shape Q s" "Q \<noteq> {}" "\<forall>p\<in>Q. lab6_stride (procs s p) = m"
  shows "\<exists>ps s'. stride_rounds n s = Some (ps, s') \<and> length ps = n \<and> set ps \<subseteq> Q \<and>
    (\<forall>p\<in>Q. \<forall>q\<in>Q. int (count_list ps p) * uint (stride_pass (procs s p)) \<le>
       int (count_list ps q) * uint (stride_pass (procs s q)) + uint BIG_STRIDE) \<and>
    ((\<forall>p\<in>Q. stride_pass (procs s p) \<noteq> 0) \<and>
     (\<Sum>p\<in>Q. uint BIG_STRIDE div uint (stride_pass (procs s p))) < int n \<longrightarrow> set ps = Q)"
proof -
  have "stride_inv Q (\<lambda>_. uint m) s" using stride_inv_start [OF assms(1)] assms(3) by simp
  then obtain ps s' where r: "stride_rounds n s = Some (ps, s')" "length ps = n" "set ps \<subseteq> Q"
    "stride_inv Q (\<lambda>p. uint m + int (count_list ps p) * uint (stride_pass (procs s p))) s'"
    using stride_rounds_inv [OF _ assms(2)] by blast
  then have share: "\<forall>p\<in>Q. \<forall>q\<in>Q. int (count_list ps p) * uint (stride_pass (procs s p)) \<le>
       int (count_list ps q) * uint (stride_pass (procs s q)) + uint BIG_STRIDE" by (fastforce simp: stride_inv_def)
  have "finite Q" using assms(1) by (simp add: stride_shape_def)
  then have "set ps = Q" if "\<forall>p\<in>Q. stride_pass (procs s p) \<noteq> 0"
    "(\<Sum>p\<in>Q. uint BIG_STRIDE div uint (stride_pass (procs s p))) < int n"
    using shares_reach_all [of Q ps "\<lambda>p. uint (stride_pass (procs s p))" "uint BIG_STRIDE"] that share r(2,3)
    by (simp add: less_le unsigned_eq_0_iff)
  then show ?thesis using r share by blast
qed

theorem stride_proportional_share_witness:
  "\<exists>ps s'. stride_rounds 1000 (demo_rq\<lparr>procs := \<lambda>p. demo_proc\<lparr>lab6_priority := of_nat p\<rparr>\<rparr>) = Some (ps, s') \<and>
     length ps = 1000 \<and> 2 * int (count_list ps 1) \<le> int (count_list ps 2) + 3"
proof -
  let ?s = "demo_rq\<lparr>procs := \<lambda>p. demo_proc\<lparr>lab6_priority := of_nat p\<rparr>\<rparr>"
  have sh: "stride_shape {1, 2, 3} ?s"
    using heap_holds_shape [OF demo_heap_holds] by (simp add: stride_shape_def demo_rq_def)
  have eq: "\<forall>p\<in>{1, 2, 3}. lab6_stride (procs ?s p) = 0" by (simp add: demo_proc_def)
  obtain ps s' where r: "stride_rounds 1000 ?s = Some (ps, s')" "length ps = 1000"
    "int (count_list ps 1) * uint (stride_pass (procs ?s 1)) \<le>
       int (count_list ps 2) * uint (stride_pass (procs ?s 2)) + uint BIG_STRIDE"
    using stride_proportional_share [OF sh _ eq, of 1000] by auto
  have "uint (stride_pass (procs ?s 1)) = 2147483647" "uint (stride_pass (procs ?s 2)) = 1073741823"
    by (simp_all add: stride_pass_def BIG_STRIDE_def)
  then have "int (count_list ps 1) * 2147483647 \<le> int (count_list ps 2) * 1073741823 + 2147483647"
    using r(3) by simp
  then show ?thesis using r(1,2) by auto
qed

end
