(* ===== verification/Timers.thy ===== *)
theory Timers
  imports Prelude "HOL-Library.Multiset"
begin

text \<open>
  The delta list of kernel timers (\<^verbatim>\<open>timer_t\<close>, \<^verbatim>\<open>add_timer\<close> and \<^verbatim>\<open>del_timer\<close> of
  \<^verbatim>\<open>kern/schedule/sched.c\<close>): each timer stores how many ticks it expires after its predecessor.
  The specification is the list of absolute deadlines; adding, deleting and ticking are shown to be
  what they should be on deadlines, with no wrap-around in the 32-bit differences.
\<close>

record timer =
  expires :: u32
  tproc :: "nat option"

type_synonym timers = "nat \<Rightarrow> timer"

definition set_expires :: "nat \<Rightarrow> u32 \<Rightarrow> timers \<Rightarrow> timers" where
  "set_expires t v ts = ts(t := (ts t)\<lparr>expires := v\<rparr>)"

lemma set_expires_simps [simp]:
  "expires (set_expires t v ts x) = (if x = t then v else expires (ts x))"
  "tproc (set_expires t v ts x) = tproc (ts x)"
  by (simp_all add: set_expires_def)

text \<open>A timer is linked, or its \<^verbatim>\<open>timer_link\<close> points to itself.\<close>

definition timer_init :: "nat \<Rightarrow> nat \<Rightarrow> int \<Rightarrow> timers \<Rightarrow> timers" where
  "timer_init t p e ts = ts(t := \<lparr>expires = word_of_int e, tproc = Some p\<rparr>)"

fun add_timer_loop :: "nat \<Rightarrow> timers \<Rightarrow> nat list \<Rightarrow> timers \<times> nat list" where
  "add_timer_loop t ts [] = (ts, [t])"
| "add_timer_loop t ts (n # le) =
     (if expires (ts t) < expires (ts n)
      then (set_expires n (expires (ts n) - expires (ts t)) ts, t # n # le)
      else let (ts', l) = add_timer_loop t (set_expires t (expires (ts t) - expires (ts n)) ts) le
           in (ts', n # l))"

definition timer_add :: "nat \<Rightarrow> timers \<Rightarrow> nat list \<Rightarrow> (timers \<times> nat list) option" where
  "timer_add t ts l = do {
     kassert (expires (ts t) > 0 \<and> tproc (ts t) \<noteq> None);
     kassert (t \<notin> set l);
     Some (add_timer_loop t ts l)
   }"

fun timer_next :: "nat \<Rightarrow> nat list \<Rightarrow> nat option" where
  "timer_next t [] = None"
| "timer_next t (x # xs) = (if x = t then (case xs of [] \<Rightarrow> None | y # _ \<Rightarrow> Some y) else timer_next t xs)"

definition timer_del :: "nat \<Rightarrow> timers \<Rightarrow> nat list \<Rightarrow> timers \<times> nat list" where
  "timer_del t ts l =
     (if t \<in> set l then
        (let ts' = (if expires (ts t) \<noteq> 0 then
             (case timer_next t l of
                None \<Rightarrow> ts
              | Some n \<Rightarrow> set_expires n (expires (ts n) + expires (ts t)) ts) else ts)
         in (ts', remove1 t l))
      else (ts, l))"

section \<open>Absolute deadlines\<close>

fun deadlines :: "nat \<Rightarrow> timers \<Rightarrow> nat list \<Rightarrow> (nat \<times> nat) list" where
  "deadlines acc ts [] = []"
| "deadlines acc ts (t # l) =
     (t, acc + unat (expires (ts t))) # deadlines (acc + unat (expires (ts t))) ts l"

definition due_before :: "nat \<times> nat \<Rightarrow> nat \<times> nat \<Rightarrow> bool" where
  "due_before x y \<longleftrightarrow> snd x \<le> snd y"

definition insert_due :: "nat \<times> nat \<Rightarrow> (nat \<times> nat) list \<Rightarrow> (nat \<times> nat) list" where
  "insert_due x xs = takeWhile (\<lambda>y. snd y \<le> snd x) xs @ x # dropWhile (\<lambda>y. snd y \<le> snd x) xs"

definition timers_ok :: "timers \<Rightarrow> nat list \<Rightarrow> bool" where
  "timers_ok ts l \<longleftrightarrow> distinct l \<and> (\<forall>t\<in>set l. tproc (ts t) \<noteq> None) \<and>
     (\<forall>(t, d)\<in>set (deadlines 0 ts l). 0 < d \<and> d < 2 ^ 32)"

lemma deadlines_fst [simp]: "map fst (deadlines acc ts l) = l"
  by (induction l arbitrary: acc) auto

lemma deadlines_cong:
  "\<forall>t\<in>set l. expires (ts t) = expires (ts' t) \<Longrightarrow> deadlines acc ts l = deadlines acc ts' l"
  by (induction l arbitrary: acc) auto

lemma deadlines_set_other [simp]:
  "t \<notin> set l \<Longrightarrow> deadlines acc (set_expires t v ts) l = deadlines acc ts l"
  by (rule deadlines_cong) auto

lemma deadlines_ge: "(t, d) \<in> set (deadlines acc ts l) \<Longrightarrow> acc \<le> d"
  by (induction l arbitrary: acc) fastforce+

lemma deadlines_sorted: "sorted (map snd (deadlines acc ts l))"
  by (induction l arbitrary: acc) (auto dest: deadlines_ge)

lemma deadlines_append:
  "deadlines acc ts (xs @ ys) = deadlines acc ts xs @
     deadlines (last (acc # map snd (deadlines acc ts xs))) ts ys"
  by (induction xs arbitrary: acc) auto

lemma add_timer_loop_frame:
  "add_timer_loop t ts l = (ts', l') \<Longrightarrow> tproc (ts' x) = tproc (ts x)"
  by (induction t ts l arbitrary: ts' l' rule: add_timer_loop.induct)
    (auto split: if_splits prod.splits)

lemma add_timer_loop_keeps:
  "add_timer_loop t ts l = (ts', l') \<Longrightarrow> x \<noteq> t \<Longrightarrow> x \<notin> set l \<Longrightarrow> ts' x = ts x"
  by (induction t ts l arbitrary: ts' l' rule: add_timer_loop.induct)
    (auto simp: set_expires_def split: if_splits prod.splits)

lemma add_timer_loop_deadlines:
  "distinct (t # l) \<Longrightarrow> add_timer_loop t ts l = (ts', l') \<Longrightarrow>
   deadlines acc ts' l' = insert_due (t, acc + unat (expires (ts t))) (deadlines acc ts l)"
proof (induction t ts l arbitrary: acc ts' l' rule: add_timer_loop.induct)
  case (1 t ts)
  then show ?case by (auto simp: insert_due_def)
next
  case (2 t ts n le)
  show ?case
  proof (cases "expires (ts t) < expires (ts n)")
    case True
    then have "unat (expires (ts t)) + unat (expires (ts n) - expires (ts t)) = unat (expires (ts n))"
      by (simp add: unat_sub_u32 word_less_nat_alt)
    then have "acc + unat (expires (ts t)) + unat (expires (ts n) - expires (ts t)) =
        acc + unat (expires (ts n))" by simp
    then show ?thesis
      using 2 True by (auto simp: insert_due_def word_less_nat_alt add.assoc)
  next
    case False
    let ?ts = "set_expires t (expires (ts t) - expires (ts n)) ts"
    obtain l'' where l'': "add_timer_loop t ?ts le = (ts', l'')" "l' = n # l''"
      using 2(3) False by (auto split: prod.splits)
    have le: "unat (expires (ts n)) \<le> unat (expires (ts t))"
      using False by (simp add: word_less_nat_alt)
    then have d: "acc + unat (expires (ts n)) + unat (expires (ts t) - expires (ts n)) =
        acc + unat (expires (ts t))"
      by (simp add: unat_sub_u32)
    have n: "expires (ts' n) = expires (ts n)"
      using add_timer_loop_keeps [OF l''(1), of n] 2(2) by auto
    have "deadlines (acc + unat (expires (ts n))) ts' l'' =
        insert_due (t, acc + unat (expires (ts t))) (deadlines (acc + unat (expires (ts n))) ts le)"
      using 2(1) [OF False _ l''(1), of "acc + unat (expires (ts n))"] 2(2) d by simp
    then show ?thesis using l''(2) n le by (simp add: insert_due_def)
  qed
qed

lemma insert_due_set [simp]: "set (insert_due x xs) = insert x (set xs)"
proof -
  have "set (takeWhile P xs @ dropWhile P xs) = set xs" for P by (simp only: takeWhile_dropWhile_id)
  then show ?thesis unfolding insert_due_def by (metis (no_types) Un_insert_right list.simps(15) set_append)
qed

lemma deadlines_mem: "t \<in> set l \<Longrightarrow> \<exists>d. (t, d) \<in> set (deadlines acc ts l)"
  by (induction l arbitrary: acc) auto

lemma timer_add_ok:
  assumes "timers_ok ts l" "t \<notin> set l" "expires (ts t) > 0" "tproc (ts t) \<noteq> None"
  shows "\<exists>ts' l'. timer_add t ts l = Some (ts', l') \<and> timers_ok ts' l' \<and> set l' = insert t (set l) \<and>
    deadlines 0 ts' l' = insert_due (t, unat (expires (ts t))) (deadlines 0 ts l)"
proof -
  obtain ts' l' where r: "add_timer_loop t ts l = (ts', l')" by (cases "add_timer_loop t ts l")
  have dl: "deadlines 0 ts' l' = insert_due (t, unat (expires (ts t))) (deadlines 0 ts l)"
    using add_timer_loop_deadlines [OF _ r, of 0] assms(1,2) by (simp add: timers_ok_def)
  have "l' = map fst (insert_due (t, unat (expires (ts t))) (deadlines 0 ts l))"
    using arg_cong [OF dl, of "map fst"] by simp
  then have l': "l' = map fst (takeWhile (\<lambda>y. snd y \<le> unat (expires (ts t))) (deadlines 0 ts l)) @ t #
      map fst (dropWhile (\<lambda>y. snd y \<le> unat (expires (ts t))) (deadlines 0 ts l))"
    by (simp add: insert_due_def)
  have "map fst (takeWhile P xs) @ map fst (dropWhile P xs) = map fst xs" for P and xs :: "(nat \<times> nat) list"
    by (metis map_append takeWhile_dropWhile_id)
  then have perm: "mset l' = add_mset t (mset l)"
    unfolding l' by (metis (no_types, lifting) deadlines_fst mset.simps(2) mset_append union_mset_add_mset_right)
  then have "set l' = insert t (set l)" by (metis set_mset_add_mset_insert set_mset_mset)
  moreover have "distinct l'"
    using perm assms(1,2) by (metis distinct.simps(2) mset.simps(2) mset_eq_imp_distinct_iff timers_ok_def)
  moreover have "\<forall>x\<in>set l'. tproc (ts' x) \<noteq> None"
    using calculation(1) assms(1,4) add_timer_loop_frame [OF r] by (auto simp: timers_ok_def)
  moreover have "0 < unat (expires (ts t))" using assms(3) by (simp add: word_less_nat_alt)
  ultimately have "timers_ok ts' l'"
    using assms(1) dl by (auto simp: timers_ok_def)
  then show ?thesis using r assms dl \<open>set l' = insert t (set l)\<close> by (auto simp: timer_add_def)
qed

lemma timer_next_append:
  "t \<notin> set xs \<Longrightarrow> timer_next t (xs @ t # ys) = (case ys of [] \<Rightarrow> None | y # _ \<Rightarrow> Some y)"
  by (induction xs) auto

lemma deadlines_in: "x \<in> set (deadlines acc ts l) \<Longrightarrow> fst x \<in> set l"
  by (induction l arbitrary: acc) auto

lemma deadlines_without: "t \<notin> set l \<Longrightarrow> filter (\<lambda>x. fst x \<noteq> t) (deadlines acc ts l) = deadlines acc ts l"
  by (rule filter_True) (auto dest: deadlines_in)

lemma timer_del_deadlines:
  assumes "timers_ok ts l" "timer_del t ts l = (ts', l')"
  shows "deadlines 0 ts' l' = filter (\<lambda>x. fst x \<noteq> t) (deadlines 0 ts l)"
proof (cases "t \<in> set l")
  case False
  then show ?thesis using assms(2) deadlines_without by (auto simp: timer_del_def)
next
  case True
  then obtain xs ys where l: "l = xs @ t # ys" "t \<notin> set xs" by (meson split_list_first)
  have dist: "distinct (xs @ t # ys)" and bound: "\<forall>(x, d)\<in>set (deadlines 0 ts l). d < 2 ^ 32"
    using assms(1) l by (auto simp: timers_ok_def)
  define acc where "acc = last (0 # map snd (deadlines 0 ts xs))"
  have dl: "deadlines 0 ts l = deadlines 0 ts xs @ (t, acc + unat (expires (ts t))) #
      deadlines (acc + unat (expires (ts t))) ts ys"
    by (simp add: l(1) deadlines_append acc_def)
  have goal: "filter (\<lambda>x. fst x \<noteq> t) (deadlines 0 ts l) =
      deadlines 0 ts xs @ deadlines (acc + unat (expires (ts t))) ts ys"
    using dl l(2) dist by (simp add: deadlines_without)
  have l': "l' = xs @ ys" using assms(2) True l by (auto simp: timer_del_def Let_def remove1_append)
  have tn: "timer_next t l = (case ys of [] \<Rightarrow> None | y # _ \<Rightarrow> Some y)"
    using timer_next_append [OF l(2)] l(1) by simp
  show ?thesis
  proof (cases ys)
    case Nil
    then have "ts' = ts" using assms(2) True tn by (auto simp: timer_del_def Let_def)
    then show ?thesis using goal l' Nil by simp
  next
    case (Cons n zs)
    have n: "n \<noteq> t" "n \<notin> set zs" "n \<notin> set xs" using dist Cons by auto
    have "(n, acc + unat (expires (ts t)) + unat (expires (ts n))) \<in> set (deadlines 0 ts l)"
      unfolding dl Cons by simp
    then have "acc + unat (expires (ts t)) + unat (expires (ts n)) < 2 ^ 32" using bound by blast
    then have sum: "unat (expires (ts n) + expires (ts t)) = unat (expires (ts n)) + unat (expires (ts t))"
      by (intro unat_add_u32) simp
    have ts': "ts' = (if expires (ts t) \<noteq> 0 then set_expires n (expires (ts n) + expires (ts t)) ts else ts)"
      using assms(2) True tn Cons by (auto simp: timer_del_def Let_def)
    have "deadlines 0 ts' xs = deadlines 0 ts xs" using ts' n(3) by simp
    moreover have "deadlines a ts' zs = deadlines a ts zs" for a using ts' n(2) by simp
    moreover have "unat (expires (ts' n)) = unat (expires (ts n)) + unat (expires (ts t))"
      using ts' sum by auto
    ultimately show ?thesis
      unfolding goal l' Cons deadlines_append acc_def [symmetric] by (simp add: acc_def add_ac)
  qed
qed

lemma timer_del_frame:
  "timer_del t ts l = (ts', l') \<Longrightarrow> l' = remove1 t l \<and> tproc (ts' x) = tproc (ts x)"
  by (auto simp: timer_del_def Let_def remove1_idem split: if_splits option.splits)

lemma timer_del_ok:
  assumes "timers_ok ts l" "timer_del t ts l = (ts', l')"
  shows "timers_ok ts' l' \<and> set l' = set l - {t}"
proof -
  have "l' = remove1 t l" "\<forall>x. tproc (ts' x) = tproc (ts x)" using timer_del_frame [OF assms(2)] by auto
  then show ?thesis
    using assms(1) unfolding timers_ok_def timer_del_deadlines [OF assms]
    by (auto simp: distinct_remove1)
qed

section \<open>A clock tick\<close>

definition timer_tick_head :: "nat \<Rightarrow> timers \<Rightarrow> timers" where
  "timer_tick_head t ts = set_expires t (expires (ts t) - 1) ts"

lemma deadlines_shift: "deadlines (acc + k) ts l = map (\<lambda>(t, d). (t, d + k)) (deadlines acc ts l)"
proof (induction l arbitrary: acc)
  case (Cons t l)
  show ?case using Cons [of "acc + unat (expires (ts t))"] by (simp add: add_ac)
qed simp

lemma timer_tick_deadlines:
  assumes "timers_ok ts (t # l)"
  shows "deadlines 0 (timer_tick_head t ts) (t # l) = map (\<lambda>(x, d). (x, d - 1)) (deadlines 0 ts (t # l))"
proof -
  let ?e = "unat (expires (ts t))"
  have e: "0 < ?e" "t \<notin> set l" using assms by (auto simp: timers_ok_def)
  then have "expires (ts t) \<noteq> 0" by auto
  then have d: "unat (expires (ts t) - 1) = ?e - 1" by (simp add: unat_minus_one)
  have "deadlines ?e ts l = deadlines (?e - 1 + 1) ts l" using e(1) by simp
  also have "\<dots> = map (\<lambda>(x, d). (x, d + 1)) (deadlines (?e - 1) ts l)" by (rule deadlines_shift)
  finally have "map (\<lambda>(x, d). (x, d - 1)) (deadlines ?e ts l) = deadlines (?e - 1) ts l"
    by (simp add: o_def case_prod_unfold)
  then show ?thesis using e d by (simp add: timer_tick_head_def)
qed

lemma deadlines_expired: "expires (ts t) = 0 \<Longrightarrow> deadlines acc ts (t # l) = (t, acc) # deadlines acc ts l"
  by simp

section \<open>Property of the timer list\<close>

text \<open>
  C19.  On absolute deadlines the delta list is what it should be: \<^verbatim>\<open>add_timer\<close> inserts the timer
  with the deadline it asked for, after every timer that is due no later, and \<^verbatim>\<open>del_timer\<close> takes
  just that timer out; no other deadline moves, and no 32-bit difference wraps.  Adding and then
  deleting a timer restores the deadlines.
\<close>

theorem timer_list_exact:
  assumes "timers_ok ts l" "t \<notin> set l" "expires (ts t) > 0" "tproc (ts t) \<noteq> None"
  shows "\<exists>ts' l'. timer_add t ts l = Some (ts', l') \<and> timers_ok ts' l' \<and>
    deadlines 0 ts' l' = insert_due (t, unat (expires (ts t))) (deadlines 0 ts l) \<and>
    (\<forall>u. case timer_del u ts' l' of (ts2, l2) \<Rightarrow> timers_ok ts2 l2 \<and>
       deadlines 0 ts2 l2 = filter (\<lambda>x. fst x \<noteq> u) (deadlines 0 ts' l') \<and>
       (u = t \<longrightarrow> deadlines 0 ts2 l2 = deadlines 0 ts l))"
proof -
  obtain ts' l' where r: "timer_add t ts l = Some (ts', l')" "timers_ok ts' l'"
    "deadlines 0 ts' l' = insert_due (t, unat (expires (ts t))) (deadlines 0 ts l)"
    using timer_add_ok [OF assms] by blast
  have undo: "filter (\<lambda>x. fst x \<noteq> t) (insert_due (t, e) xs) = filter (\<lambda>x. fst x \<noteq> t) xs" for e xs
  proof -
    have "filter P (takeWhile Q xs) @ filter P (dropWhile Q xs) = filter P xs" for P Q
      by (metis filter_append takeWhile_dropWhile_id)
    then show ?thesis by (simp add: insert_due_def)
  qed
  have "case timer_del u ts' l' of (ts2, l2) \<Rightarrow> timers_ok ts2 l2 \<and>
       deadlines 0 ts2 l2 = filter (\<lambda>x. fst x \<noteq> u) (deadlines 0 ts' l') \<and>
       (u = t \<longrightarrow> deadlines 0 ts2 l2 = deadlines 0 ts l)" for u
    using timer_del_ok [OF r(2), of u] timer_del_deadlines [OF r(2), of u] undo
      deadlines_without [OF assms(2), of 0 ts] r(3) by (auto split: prod.splits)
  with r show ?thesis by blast
qed

definition demo_timers :: timers where
  "demo_timers t = \<lparr>expires = (if t = 1 then 10 else if t = 2 then 5 else 12), tproc = Some t\<rparr>"

theorem timer_list_exact_witness:
  "\<exists>ts' l'. timer_add 3 demo_timers [1, 2] = Some (ts', l') \<and>
     deadlines 0 ts' l' = [(1, 10), (3, 12), (2, 15)] \<and>
     (case timer_del 3 ts' l' of (ts2, l2) \<Rightarrow> deadlines 0 ts2 l2 = [(1, 10), (2, 15)])"
proof -
  have "timers_ok demo_timers [1, 2]" by (simp add: timers_ok_def demo_timers_def)
  from timer_list_exact [OF this, of 3] show ?thesis
    by (auto simp: demo_timers_def insert_due_def)
qed

end
