(* ===== verification/Sched_Core.thy ===== *)
theory Sched_Core
  imports Stride Timers
begin

text \<open>
  The core scheduler \<^verbatim>\<open>kern/schedule/sched.c\<close>: wake-ups, the choice of the next process, kernel
  timers and the clock tick, over whatever scheduling class \<^verbatim>\<open>sched_class\<close> points to.  The
  invariant is that the run queue holds exactly the runnable processes other than the running one
  and the idle one; it is proved from the laws of the class only, and instantiated with both
  classes.  Interrupts are off in every operation (\<^verbatim>\<open>local_intr_save\<close>), so each is one step;
  \<^verbatim>\<open>proc_run\<close> is modelled by its effect on \<^verbatim>\<open>current\<close>, the context switch itself is assembly.
\<close>

record sched_state =
  rq :: rqstate
  scls :: sched_class
  current :: nat
  idleproc :: nat
  timers :: timers
  timer_list :: "nat list"

abbreviation proc_of :: "sched_state \<Rightarrow> nat \<Rightarrow> proc_struct" where
  "proc_of s p \<equiv> procs (rq s) p"

definition mod_proc :: "nat \<Rightarrow> (proc_struct \<Rightarrow> proc_struct) \<Rightarrow> sched_state \<Rightarrow> sched_state" where
  "mod_proc p f s = s\<lparr>rq := set_proc p f (rq s)\<rparr>"

lemma mod_proc_simps [simp]:
  "rq (mod_proc p f s) = set_proc p f (rq s)" "scls (mod_proc p f s) = scls s"
  "current (mod_proc p f s) = current s" "idleproc (mod_proc p f s) = idleproc s"
  "timers (mod_proc p f s) = timers s" "timer_list (mod_proc p f s) = timer_list s"
  by (simp_all add: mod_proc_def)

definition sched_class_enqueue :: "nat \<Rightarrow> sched_state \<Rightarrow> sched_state option" where
  "sched_class_enqueue p s =
     (if p \<noteq> idleproc s then map_option (\<lambda>q. s\<lparr>rq := q\<rparr>) (class_enqueue (scls s) p (rq s))
      else Some s)"

definition sched_class_dequeue :: "nat \<Rightarrow> sched_state \<Rightarrow> sched_state option" where
  "sched_class_dequeue p s = map_option (\<lambda>q. s\<lparr>rq := q\<rparr>) (class_dequeue (scls s) p (rq s))"

definition sched_class_pick_next :: "sched_state \<Rightarrow> nat option \<times> sched_state" where
  "sched_class_pick_next s = (case class_pick_next (scls s) (rq s) of (r, q) \<Rightarrow> (r, s\<lparr>rq := q\<rparr>))"

definition sched_class_proc_tick :: "nat \<Rightarrow> sched_state \<Rightarrow> sched_state" where
  "sched_class_proc_tick p s =
     (if p \<noteq> idleproc s then s\<lparr>rq := class_proc_tick (scls s) p (rq s)\<rparr>
      else mod_proc p (\<lambda>d. d\<lparr>need_resched := True\<rparr>) s)"

definition sched_init :: "sched_state \<Rightarrow> sched_state" where
  "sched_init s =
     (let s = s\<lparr>timer_list := [], scls := stride_sched_class\<rparr>;
          s = s\<lparr>rq := (rq s)\<lparr>max_time_slice := 20\<rparr>\<rparr>
      in s\<lparr>rq := class_init (scls s) (rq s)\<rparr>)"

definition wakeup_proc :: "nat \<Rightarrow> sched_state \<Rightarrow> sched_state option" where
  "wakeup_proc p s = do {
     kassert (pstate (proc_of s p) \<noteq> PROC_ZOMBIE);
     if pstate (proc_of s p) \<noteq> PROC_RUNNABLE then
       (let s = mod_proc p (\<lambda>d. d\<lparr>pstate := PROC_RUNNABLE, wait_state := 0\<rparr>) s
        in if p \<noteq> current s then sched_class_enqueue p s else Some s)
     else Some s
   }"

definition proc_run :: "nat \<Rightarrow> sched_state \<Rightarrow> sched_state" where
  "proc_run p s = (if p \<noteq> current s then s\<lparr>current := p\<rparr> else s)"

definition schedule :: "sched_state \<Rightarrow> sched_state option" where
  "schedule s = do {
     let s = mod_proc (current s) (\<lambda>d. d\<lparr>need_resched := False\<rparr>) s;
     s \<leftarrow> (if pstate (proc_of s (current s)) = PROC_RUNNABLE
           then sched_class_enqueue (current s) s else Some s);
     let (next, s) = sched_class_pick_next s;
     s \<leftarrow> (case next of Some p \<Rightarrow> sched_class_dequeue p s | None \<Rightarrow> Some s);
     let next = (case next of Some p \<Rightarrow> p | None \<Rightarrow> idleproc s);
     let s = mod_proc next (\<lambda>d. d\<lparr>runs := runs d + 1\<rparr>) s;
     Some (if next \<noteq> current s then proc_run next s else s)
   }"

definition add_timer :: "nat \<Rightarrow> sched_state \<Rightarrow> sched_state option" where
  "add_timer t s = map_option (\<lambda>(ts, l). s\<lparr>timers := ts, timer_list := l\<rparr>)
     (timer_add t (timers s) (timer_list s))"

definition del_timer :: "nat \<Rightarrow> sched_state \<Rightarrow> sched_state" where
  "del_timer t s = (case timer_del t (timers s) (timer_list s) of
     (ts, l) \<Rightarrow> s\<lparr>timers := ts, timer_list := l\<rparr>)"

text \<open>
  The loop over the expired timers: it reads the successor before it deletes a timer, and stops at
  the list head.  A timer without a process would be a null dereference, \<open>None\<close>.
\<close>

fun run_expired :: "nat list \<Rightarrow> sched_state \<Rightarrow> sched_state option" where
  "run_expired [] s = Some s"
| "run_expired (t # le) s =
     (if expires (timers s t) = 0 then do {
        p \<leftarrow> tproc (timers s t);
        kassert (wait_state (proc_of s p) = 0 \<or> wait_state (proc_of s p) AND WT_INTERRUPTED \<noteq> 0);
        s \<leftarrow> wakeup_proc p s;
        run_expired le (del_timer t s)
      } else Some s)"

definition run_timer_list :: "sched_state \<Rightarrow> sched_state option" where
  "run_timer_list s = do {
     s \<leftarrow> (case timer_list s of
        [] \<Rightarrow> Some s
      | t # _ \<Rightarrow> do {
          kassert (expires (timers s t) \<noteq> 0);
          run_expired (timer_list s) (s\<lparr>timers := timer_tick_head t (timers s)\<rparr>)
        });
     Some (sched_class_proc_tick (current s) s)
   }"

section \<open>The invariant\<close>

definition ready :: "sched_state \<Rightarrow> nat set" where
  "ready s = {p. pstate (proc_of s p) = PROC_RUNNABLE \<and> p \<noteq> current s \<and> p \<noteq> idleproc s}"

definition queue_exact :: "(nat set \<Rightarrow> rqstate \<Rightarrow> bool) \<Rightarrow> sched_class \<Rightarrow> sched_state \<Rightarrow> bool" where
  "queue_exact I cls s \<longleftrightarrow> scls s = cls \<and> I (ready s) (rq s)"

definition runnable_set :: "sched_state \<Rightarrow> nat set" where
  "runnable_set s = {p. pstate (proc_of s p) = PROC_RUNNABLE \<and> p \<noteq> idleproc s}"

lemma set_proc_eq: "set_proc p f s = s\<lparr>procs := upd_proc p f (procs s)\<rparr>"
  by (simp add: set_proc_def)

context scheduling_class begin

lemma inv_set_proc: "inv Q s \<Longrightarrow> (\<And>d. on_rq (f d) = on_rq d) \<Longrightarrow> inv Q (set_proc p f s)"
  unfolding set_proc_eq by (rule inv_procs) auto

lemma wakeup_keeps:
  assumes "queue_exact inv cls s" "pstate (proc_of s p) \<noteq> PROC_ZOMBIE"
  shows "\<exists>s'. wakeup_proc p s = Some s' \<and> queue_exact inv cls s' \<and>
    pstate (proc_of s' p) = PROC_RUNNABLE \<and> current s' = current s \<and> idleproc s' = idleproc s \<and>
    timers s' = timers s \<and> timer_list s' = timer_list s \<and>
    (wait_state (proc_of s' p) = 0 \<or> wait_state (proc_of s' p) = wait_state (proc_of s p)) \<and>
    (\<forall>q. q \<noteq> p \<longrightarrow> pstate (proc_of s' q) = pstate (proc_of s q) \<and>
       wait_state (proc_of s' q) = wait_state (proc_of s q))"
proof (cases "pstate (proc_of s p) = PROC_RUNNABLE")
  case True
  then show ?thesis using assms by (simp add: wakeup_proc_def)
next
  case False
  let ?s1 = "mod_proc p (\<lambda>d. d\<lparr>pstate := PROC_RUNNABLE, wait_state := 0\<rparr>) s"
  have i1: "inv (ready s) (rq ?s1)" using assms(1) by (auto simp: queue_exact_def intro: inv_set_proc)
  show ?thesis
  proof (cases "p = current s \<or> p = idleproc s")
    case True
    then have "ready ?s1 = ready s" using False by (auto simp: ready_def)
    then have "queue_exact inv cls ?s1" using i1 assms(1) by (simp add: queue_exact_def)
    then show ?thesis using False True assms(2)
      by (auto simp: wakeup_proc_def Let_def sched_class_enqueue_def)
  next
    case other: False
    then have np: "p \<notin> ready s" "ready ?s1 = insert p (ready s)" using False by (auto simp: ready_def)
    obtain q where q: "class_enqueue cls p (rq ?s1) = Some q" "inv (insert p (ready s)) q"
      "sched_same (procs (rq ?s1)) (procs q)"
      using enqueue_law [OF i1 np(1)] by blast
    have "ready (?s1\<lparr>rq := q\<rparr>) = ready ?s1" using sched_sameD [OF q(3)] by (simp add: ready_def)
    then have "queue_exact inv cls (?s1\<lparr>rq := q\<rparr>)"
      using q(2) np(2) assms(1) by (simp add: queue_exact_def)
    then show ?thesis using False other assms q(1) sched_sameD [OF q(3)]
      by (auto simp: wakeup_proc_def Let_def sched_class_enqueue_def queue_exact_def)
  qed
qed

end

context scheduling_class begin

lemma schedule_keeps:
  assumes "queue_exact inv cls s"
  shows "\<exists>s'. schedule s = Some s' \<and> queue_exact inv cls s' \<and>
    (if runnable_set s = {} then current s' = idleproc s else current s' \<in> runnable_set s) \<and>
    idleproc s' = idleproc s \<and> timers s' = timers s \<and> timer_list s' = timer_list s \<and>
    (\<forall>q. pstate (proc_of s' q) = pstate (proc_of s q) \<and>
       wait_state (proc_of s' q) = wait_state (proc_of s q)) \<and>
    (\<forall>q. sched_view (proc_of s' q) = sched_view ((proc_of s q)\<lparr>runs := runs (proc_of s' q)\<rparr>))"
proof -
  let ?s0 = "mod_proc (current s) (\<lambda>d. d\<lparr>need_resched := False\<rparr>) s"
  have c: "scls s = cls" and i0: "inv (ready s) (rq ?s0)"
    using assms by (auto simp: queue_exact_def intro: inv_set_proc)
  have "\<exists>q. (if pstate (proc_of ?s0 (current ?s0)) = PROC_RUNNABLE
      then sched_class_enqueue (current ?s0) ?s0 else Some ?s0) = Some (?s0\<lparr>rq := q\<rparr>) \<and>
      inv (runnable_set s) q \<and> sched_same (procs (rq ?s0)) (procs q)"
  proof (cases "current s \<in> runnable_set s")
    case True
    then have r: "pstate (proc_of s (current s)) = PROC_RUNNABLE" "current s \<noteq> idleproc s"
      and n: "current s \<notin> ready s" "insert (current s) (ready s) = runnable_set s"
      by (auto simp: runnable_set_def ready_def)
    show ?thesis using enqueue_law [OF i0 n(1)] r n(2) c
      by (auto simp: sched_class_enqueue_def)
  next
    case False
    then have "ready s = runnable_set s" by (auto simp: runnable_set_def ready_def)
    moreover have "pstate (proc_of s (current s)) = PROC_RUNNABLE \<longrightarrow> current s = idleproc s"
      using False by (auto simp: runnable_set_def)
    ultimately show ?thesis using i0
      by (intro exI [of _ "rq ?s0"]) (auto simp: sched_class_enqueue_def)
  qed
  then obtain q1 where q1: "(if pstate (proc_of ?s0 (current ?s0)) = PROC_RUNNABLE
      then sched_class_enqueue (current ?s0) ?s0 else Some ?s0) = Some (?s0\<lparr>rq := q1\<rparr>)"
    "inv (runnable_set s) q1" "sched_same (procs (rq ?s0)) (procs q1)" by blast
  obtain r q2 where q2: "class_pick_next cls q1 = (r, q2)" "inv (runnable_set s) q2"
    "sched_same (procs q1) (procs q2)" "case r of None \<Rightarrow> runnable_set s = {} | Some p \<Rightarrow> p \<in> runnable_set s"
    using pick_law [OF q1(2)] by blast
  have same: "sched_same (procs (rq ?s0)) (procs q2)" using q1(3) q2(3) by (rule sched_same_trans)
  define next' where "next' = (case r of Some p \<Rightarrow> p | None \<Rightarrow> idleproc s)"
  have "\<exists>q3. (case r of Some p \<Rightarrow> class_dequeue cls p q2 | None \<Rightarrow> Some q2) = Some q3 \<and>
      inv (runnable_set s - {next'}) q3 \<and> sched_same (procs q2) (procs q3)"
    using q2(2,4) dequeue_law [OF q2(2)] by (cases r) (auto simp: next'_def)
  then obtain q3 where q3: "(case r of Some p \<Rightarrow> class_dequeue cls p q2 | None \<Rightarrow> Some q2) = Some q3"
    "inv (runnable_set s - {next'}) q3" "sched_same (procs q2) (procs q3)" by blast
  define q4 where "q4 = set_proc next' (\<lambda>d. d\<lparr>runs := runs d + 1\<rparr>) q3"
  let ?s' = "?s0\<lparr>rq := q4, current := next'\<rparr>"
  have run: "schedule s = Some ?s'"
    unfolding schedule_def Let_def q1(1) bind.bind_lunit
    using q2(1) q3(1) c
    by (cases r) (simp_all add: sched_class_pick_next_def sched_class_dequeue_def proc_run_def
        next'_def mod_proc_def q4_def)
  have st: "pstate (procs q4 x) = pstate (proc_of s x) \<and> wait_state (procs q4 x) = wait_state (proc_of s x)" for x
    using sched_sameD(1,2) [OF sched_same_trans [OF same q3(3)], of x]
    by (cases "x = next'"; cases "x = current s") (simp_all add: q4_def)
  have vw: "sched_view (procs q4 x) = sched_view ((proc_of s x)\<lparr>runs := runs (procs q4 x)\<rparr>)" for x
  proof -
    have e: "sched_view (procs q3 x) = sched_view (proc_of s x)"
      using spec [OF sched_same_trans [OF same q3(3), unfolded sched_same_def], of x] by (cases "x = current s") simp_all
    show ?thesis
    proof (cases "x = next'")
      case True
      then have "procs q4 x = (procs q3 x)\<lparr>runs := runs (procs q3 x) + 1\<rparr>" by (simp add: q4_def)
      then show ?thesis by (simp only: sched_view_runs(1) [OF e]) simp
    next
      case False
      then have "procs q4 x = procs q3 x" by (simp add: q4_def)
      then show ?thesis using sched_view_runs(2) [OF e] by simp
    qed
  qed
  have "ready ?s' = runnable_set s - {next'}"
    by (auto simp: ready_def runnable_set_def st)
  moreover have "inv (runnable_set s - {next'}) q4"
    unfolding q4_def using q3(2) by (rule inv_set_proc) simp
  ultimately have "queue_exact inv cls ?s'" using c by (simp add: queue_exact_def)
  moreover have "if runnable_set s = {} then next' = idleproc s else next' \<in> runnable_set s"
    using q2(4) by (auto simp: next'_def split: option.splits)
  ultimately show ?thesis using run st vw by auto
qed

lemma tick_keeps:
  assumes "queue_exact inv cls s"
  shows "queue_exact inv cls (sched_class_proc_tick p s)"
proof (cases "p = idleproc s")
  case True
  have "ready (sched_class_proc_tick p s) = ready s"
    using True by (auto simp: sched_class_proc_tick_def ready_def)
  then show ?thesis using True assms
    by (auto simp: sched_class_proc_tick_def queue_exact_def intro: inv_set_proc)
next
  case False
  let ?q = "class_proc_tick cls p (rq s)"
  have t: "inv (ready s) ?q" "sched_same (procs (rq s)) (procs ?q)"
    using tick_law [of "ready s" "rq s" p] assms by (auto simp: queue_exact_def)
  have "ready (s\<lparr>rq := ?q\<rparr>) = ready s" using sched_sameD [OF t(2)] by (simp add: ready_def)
  then show ?thesis using False assms t(1) by (simp add: sched_class_proc_tick_def queue_exact_def)
qed

lemma queue_exact_timers: "queue_exact inv cls s \<Longrightarrow> queue_exact inv cls (s\<lparr>timers := ts, timer_list := l\<rparr>)"
  by (simp add: queue_exact_def ready_def)

end

section \<open>The clock tick\<close>

definition wakeable :: "sched_state \<Rightarrow> nat \<Rightarrow> bool" where
  "wakeable s p \<longleftrightarrow> pstate (proc_of s p) \<noteq> PROC_ZOMBIE \<and>
     (wait_state (proc_of s p) = 0 \<or> wait_state (proc_of s p) AND WT_INTERRUPTED \<noteq> 0)"

definition timers_linked :: "sched_state \<Rightarrow> bool" where
  "timers_linked s \<longleftrightarrow> distinct (timer_list s) \<and> (\<forall>t\<in>set (timer_list s). tproc (timers s t) \<noteq> None)"

abbreviation due :: "sched_state \<Rightarrow> (nat \<times> nat) list" where
  "due s \<equiv> deadlines 0 (timers s) (timer_list s)"

definition woken_at :: "nat \<Rightarrow> sched_state \<Rightarrow> nat set" where
  "woken_at n s = {p. \<exists>t. (t, n) \<in> set (due s) \<and> tproc (timers s t) = Some p}"

lemma timer_del_head:
  "expires (ts t) = 0 \<Longrightarrow> timer_del t ts (t # l) = (ts, l)"
  by (simp add: timer_del_def)

lemma deadlines_pos_iff:
  "expires (ts t) \<noteq> 0 \<Longrightarrow> \<forall>(x, d)\<in>set (deadlines 0 ts (t # l)). 0 < d"
proof clarify
  fix x d assume "expires (ts t) \<noteq> 0" "(x, d) \<in> set (deadlines 0 ts (t # l))"
  then have "0 < unat (expires (ts t))" "unat (expires (ts t)) \<le> d"
    by (auto simp: unat_gt_0 dest: deadlines_ge)
  then show "0 < d" by simp
qed

context scheduling_class begin

lemma run_expired_keeps:
  assumes "queue_exact inv cls s" "timers_linked s" "\<forall>p\<in>woken_at 0 s. wakeable s p"
  shows "\<exists>s'. run_expired (timer_list s) s = Some s' \<and> queue_exact inv cls s' \<and> timers_linked s' \<and>
    due s' = filter (\<lambda>(t, d). d \<noteq> 0) (due s) \<and> current s' = current s \<and> idleproc s' = idleproc s \<and>
    timers s' = timers s \<and>
    (\<forall>p. pstate (proc_of s' p) =
       (if p \<in> woken_at 0 s then PROC_RUNNABLE else pstate (proc_of s p)))"
  using assms
proof (induction "timer_list s" arbitrary: s)
  case Nil
  then show ?case using Nil.hyps [symmetric] by (simp add: woken_at_def)
next
  case (Cons t le)
  note tl = Cons.hyps(2) [symmetric]
  show ?case
  proof (cases "expires (timers s t) = 0")
    case False
    have "\<forall>(x, d)\<in>set (due s). 0 < d" using deadlines_pos_iff [of "timers s" t le] False tl by simp
    moreover have "filter (\<lambda>(t, d). d \<noteq> 0) (due s) = due s"
      by (rule filter_True) (use calculation in fastforce)
    ultimately show ?thesis using False Cons.prems tl by (fastforce simp: woken_at_def)
  next
    case True
    obtain p where p: "tproc (timers s t) = Some p" using Cons.prems(2) tl by (auto simp: timers_linked_def)
    have pw: "p \<in> woken_at 0 s" using p True tl by (auto simp: woken_at_def)
    then have w: "wakeable s p" using Cons.prems(3) by blast
    obtain s1 where s1: "wakeup_proc p s = Some s1" "queue_exact inv cls s1"
      "pstate (proc_of s1 p) = PROC_RUNNABLE" "current s1 = current s" "idleproc s1 = idleproc s"
      "timers s1 = timers s" "timer_list s1 = timer_list s"
      "\<forall>q. q \<noteq> p \<longrightarrow> pstate (proc_of s1 q) = pstate (proc_of s q) \<and>
         wait_state (proc_of s1 q) = wait_state (proc_of s q)"
      and ws: "wait_state (proc_of s1 p) = 0 \<or> wait_state (proc_of s1 p) = wait_state (proc_of s p)"
      using wakeup_keeps [OF Cons.prems(1)] w unfolding wakeable_def by blast
    let ?s2 = "s1\<lparr>timers := timers s, timer_list := le\<rparr>"
    have d: "del_timer t s1 = ?s2"
      using s1(6,7) tl True timer_del_head [of "timers s" t le] by (simp add: del_timer_def)
    have due2: "due s = (t, 0) # due ?s2" using tl True by simp
    have sub: "woken_at 0 s = insert p (woken_at 0 ?s2)"
      using due2 p by (auto simp: woken_at_def)
    have w2: "\<forall>q\<in>woken_at 0 ?s2. wakeable ?s2 q"
    proof
      fix q assume "q \<in> woken_at 0 ?s2"
      then have "wakeable s q" using Cons.prems(3) sub by blast
      then show "wakeable ?s2 q" using s1(3,8) ws by (cases "q = p") (auto simp: wakeable_def)
    qed
    obtain s' where s': "run_expired le ?s2 = Some s'" "queue_exact inv cls s'" "timers_linked s'"
      "due s' = filter (\<lambda>(t, d). d \<noteq> 0) (due ?s2)" "current s' = current s" "idleproc s' = idleproc s"
      "timers s' = timers s"
      "\<forall>q. pstate (proc_of s' q) =
         (if q \<in> woken_at 0 ?s2 then PROC_RUNNABLE else pstate (proc_of s1 q))"
      using Cons.hyps(1) [of ?s2] queue_exact_timers [OF s1(2)] Cons.prems(2) tl w2 s1(4,5)
      by (auto simp: timers_linked_def)
    have "run_expired (timer_list s) s = Some s'"
      using True p w s1(1) d s'(1) tl by (simp add: wakeable_def)
    moreover have "\<forall>q. pstate (proc_of s' q) =
        (if q \<in> woken_at 0 s then PROC_RUNNABLE else pstate (proc_of s q))"
      using s'(8) s1(3,8) sub by auto
    ultimately show ?thesis using s' due2 by auto
  qed
qed

end

lemma pred_mem:
  "\<forall>y\<in>set xs. 0 < snd y \<Longrightarrow>
   (x, n) \<in> set (map (\<lambda>(t, d). (t, d - 1)) xs) \<longleftrightarrow> (x, Suc n) \<in> set xs" for xs :: "(nat \<times> nat) list"
proof (induction xs)
  case (Cons y xs)
  obtain t d where y: "y = (t, d)" by (cases y)
  have "n = d - 1 \<longleftrightarrow> Suc n = d" using Cons.prems y by auto
  then show ?case using Cons y by (simp only: list.set list.map insert_iff split_conv prod.inject set_simps) auto
qed simp

lemma deadlines_pred:
  "map (\<lambda>(t, d). (t, d - 1)) (filter (\<lambda>(t, d). d \<noteq> 1) xs) =
     filter (\<lambda>(t, d). d \<noteq> 0) (map (\<lambda>(t, d). (t, d - 1)) xs)"
  if "\<forall>(t, d)\<in>set xs. 0 < d" for xs :: "(nat \<times> nat) list"
  using that by (induction xs) (auto simp: Suc_le_eq)

context scheduling_class begin

lemma tick_frame:
  assumes "inv Q (rq s)" "scls s = cls"
  shows "pstate (proc_of (sched_class_proc_tick p s) x) = pstate (proc_of s x)"
    "timers (sched_class_proc_tick p s) = timers s" "timer_list (sched_class_proc_tick p s) = timer_list s"
    "current (sched_class_proc_tick p s) = current s" "idleproc (sched_class_proc_tick p s) = idleproc s"
  using sched_sameD(1) [of "procs (rq s)" "procs (class_proc_tick cls p (rq s))" x] tick_law [OF assms(1), of p] assms(2)
  by (auto simp: sched_class_proc_tick_def)

lemma run_timer_list_keeps:
  assumes q: "queue_exact inv cls s" and t: "timers_ok (timers s) (timer_list s)"
    and w: "\<forall>p\<in>woken_at 1 s. wakeable s p"
  shows "\<exists>s'. run_timer_list s = Some s' \<and> queue_exact inv cls s' \<and>
    timers_ok (timers s') (timer_list s') \<and>
    due s' = map (\<lambda>(t, d). (t, d - 1)) (filter (\<lambda>(t, d). d \<noteq> 1) (due s)) \<and>
    (\<forall>p. pstate (proc_of s' p) =
       (if p \<in> woken_at 1 s then PROC_RUNNABLE else pstate (proc_of s p)))"
proof (cases "timer_list s")
  case Nil
  have "inv (ready s) (rq s)" "scls s = cls" using q by (auto simp: queue_exact_def)
  note fr = tick_frame [OF this]
  have "run_timer_list s = Some (sched_class_proc_tick (current s) s)"
    using Nil by (simp add: run_timer_list_def)
  then show ?thesis using tick_keeps [OF q] Nil t by (simp add: fr woken_at_def)
next
  case (Cons h l)
  let ?s1 = "s\<lparr>timers := timer_tick_head h (timers s)\<rparr>"
  have pos: "\<forall>(x, d)\<in>set (due s). 0 < d" using t by (auto simp: timers_ok_def)
  have d1: "due ?s1 = map (\<lambda>(x, d). (x, d - 1)) (due s)"
    using timer_tick_deadlines [of "timers s" h l] t Cons by (simp del: deadlines.simps)
  have tp: "tproc (timers ?s1 x) = tproc (timers s x)" for x by (simp add: timer_tick_head_def)
  have wk: "woken_at 0 ?s1 = woken_at 1 s"
  proof -
    have "(x, 0) \<in> set (due ?s1) \<longleftrightarrow> (x, Suc 0) \<in> set (due s)" for x
      unfolding d1 by (rule pred_mem) (use pos in fastforce)
    moreover have "tproc (timer_tick_head h (timers s) x) = tproc (timers s x)" for x
      by (simp add: timer_tick_head_def)
    ultimately show ?thesis by (simp add: woken_at_def)
  qed
  have q1: "queue_exact inv cls ?s1" using q by (simp add: queue_exact_def ready_def)
  have l1: "timers_linked ?s1" using t tp by (simp add: timers_linked_def timers_ok_def)
  have w1: "\<forall>p\<in>woken_at 0 ?s1. wakeable ?s1 p" using w by (simp add: wk wakeable_def)
  obtain s' where s': "run_expired (timer_list s) ?s1 = Some s'" "queue_exact inv cls s'" "timers_linked s'"
    "due s' = filter (\<lambda>(t, d). d \<noteq> 0) (due ?s1)"
    "\<forall>p. pstate (proc_of s' p) = (if p \<in> woken_at 0 ?s1 then PROC_RUNNABLE else pstate (proc_of ?s1 p))"
    using run_expired_keeps [OF q1 l1 w1] by auto
  have "expires (timers s h) \<noteq> 0" using pos Cons by auto
  then have run: "run_timer_list s = Some (sched_class_proc_tick (current s') s')"
    using s'(1) Cons by (simp add: run_timer_list_def)
  have "inv (ready s') (rq s')" "scls s' = cls" using s'(2) by (auto simp: queue_exact_def)
  note fr = tick_frame [OF this]
  have due': "due s' = map (\<lambda>(t, d). (t, d - 1)) (filter (\<lambda>(t, d). d \<noteq> 1) (due s))"
    using s'(4) d1 deadlines_pred [OF pos] by simp
  have "\<forall>(x, d)\<in>set (due s'). 0 < d \<and> d < 2 ^ 32"
    using s'(4) t unfolding d1 timers_ok_def by fastforce
  then have "timers_ok (timers s') (timer_list s')"
    using s'(3) by (simp add: timers_ok_def timers_linked_def)
  then show ?thesis using run tick_keeps [OF s'(2)] s'(5) due' by (simp add: fr wk)
qed

lemma wakeup_ready:
  assumes "queue_exact inv cls s" "pstate (proc_of s p) \<noteq> PROC_ZOMBIE"
  shows "\<exists>s'. wakeup_proc p s = Some s' \<and> queue_exact inv cls s' \<and> current s' = current s \<and>
    runnable_set s' = runnable_set s \<union> ({p} - {idleproc s})"
proof -
  obtain s' where s': "wakeup_proc p s = Some s'" "queue_exact inv cls s'"
    "pstate (proc_of s' p) = PROC_RUNNABLE" "idleproc s' = idleproc s" "current s' = current s"
    "\<forall>q. q \<noteq> p \<longrightarrow> pstate (proc_of s' q) = pstate (proc_of s q)"
    using wakeup_keeps [OF assms] by blast
  have "pstate (proc_of s' q) = PROC_RUNNABLE \<longleftrightarrow> q = p \<or> pstate (proc_of s q) = PROC_RUNNABLE" for q
    using s'(3,6) by (cases "q = p") auto
  then have "runnable_set s' = runnable_set s \<union> ({p} - {idleproc s})"
    using s'(4) by (auto simp: runnable_set_def)
  then show ?thesis using s' by blast
qed

lemma run_expired_returns:
  "queue_exact inv cls s \<Longrightarrow> run_expired le s = Some s' \<Longrightarrow> queue_exact inv cls s'"
proof (induction le s rule: run_expired.induct)
  case (2 t le s)
  show ?case
  proof (cases "expires (timers s t) = 0")
    case True
    then obtain p s1 where p: "tproc (timers s t) = Some p"
      "wait_state (proc_of s p) = 0 \<or> wait_state (proc_of s p) AND WT_INTERRUPTED \<noteq> 0"
      "wakeup_proc p s = Some s1" "run_expired le (del_timer t s1) = Some s'"
      using 2(3) by (auto simp: bind_eq_Some_conv split: if_splits)
    have "pstate (proc_of s p) \<noteq> PROC_ZOMBIE" using p(3) by (auto simp: wakeup_proc_def)
    then have "queue_exact inv cls s1" using wakeup_keeps [OF 2(2)] p(3) by fastforce
    then have "queue_exact inv cls (del_timer t s1)"
      using queue_exact_timers by (simp add: del_timer_def split: prod.splits)
    then show ?thesis using 2(1) [OF True p(1) _ p(3) _ p(4)] p(2) by simp
  qed (use 2 in simp)
qed simp

end

end
