(* ===== verification/Sched_Machine.thy ===== *)
theory Sched_Machine
  imports Sched_Core
begin

text \<open>
  The scheduler as a state machine: from the state \<^verbatim>\<open>sched_init\<close> leaves, any interleaving of
  wake-ups, reschedules, clock ticks, timer operations and of the running process going to sleep
  or dying.  The laws of \<open>scheduling_class\<close> are used through the two interpretations only.
\<close>

definition block_current :: "u32 \<Rightarrow> sched_state \<Rightarrow> sched_state" where
  "block_current w s = mod_proc (current s) (\<lambda>d. d\<lparr>pstate := PROC_SLEEPING, wait_state := w\<rparr>) s"

definition kill_current :: "int \<Rightarrow> sched_state \<Rightarrow> sched_state" where
  "kill_current e s = mod_proc (current s) (\<lambda>d. d\<lparr>pstate := PROC_ZOMBIE, exit_code := e\<rparr>) s"

inductive sched_step :: "sched_state \<Rightarrow> sched_state \<Rightarrow> bool" where
  wakes: "wakeup_proc p s = Some s' \<Longrightarrow> sched_step s s'"
| reschedules: "schedule s = Some s' \<Longrightarrow> sched_step s s'"
| ticks: "run_timer_list s = Some s' \<Longrightarrow> sched_step s s'"
| blocks: "sched_step s (block_current w s)"
| dies: "sched_step s (kill_current e s)"
| adds_timer: "add_timer t s = Some s' \<Longrightarrow> sched_step s s'"
| deletes_timer: "sched_step s (del_timer t s)"

inductive_cases sched_stepE: "sched_step s s'"

definition sched_boot :: "sched_state \<Rightarrow> bool" where
  "sched_boot s \<longleftrightarrow> (\<exists>s0. s = sched_init s0 \<and> runnable_set s0 \<subseteq> {current s0})"

inductive sched_reachable :: "sched_state \<Rightarrow> bool" where
  boots: "sched_boot s \<Longrightarrow> sched_reachable s"
| steps: "sched_reachable s \<Longrightarrow> sched_step s s' \<Longrightarrow> sched_reachable s'"

definition sched_ok :: "sched_state \<Rightarrow> bool" where
  "sched_ok s \<longleftrightarrow> queue_exact stride_shape stride_sched_class s \<or> queue_exact RR_shape RR_sched_class s"

lemma sched_ok_cases:
  assumes "sched_ok s" "queue_exact stride_shape stride_sched_class s \<Longrightarrow> P"
    "queue_exact RR_shape RR_sched_class s \<Longrightarrow> P"
  shows P
  using assms by (auto simp: sched_ok_def)

context scheduling_class begin

lemma step_queue_exact:
  assumes "queue_exact inv cls s" "sched_step s s'"
  shows "queue_exact inv cls s'"
  using assms(2)
proof (cases rule: sched_step.cases)
  case (wakes p)
  then have "pstate (proc_of s p) \<noteq> PROC_ZOMBIE" by (auto simp: wakeup_proc_def)
  then show ?thesis using wakeup_keeps [OF assms(1)] wakes by fastforce
next
  case reschedules
  then show ?thesis using schedule_keeps [OF assms(1)] by auto
next
  case ticks
  then obtain s1 where s1: "s' = sched_class_proc_tick (current s1) s1"
    "(case timer_list s of [] \<Rightarrow> Some s | t # _ \<Rightarrow> do {
          kassert (expires (timers s t) \<noteq> 0);
          run_expired (timer_list s) (s\<lparr>timers := timer_tick_head t (timers s)\<rparr>)
        }) = Some s1"
    by (auto simp: run_timer_list_def bind_eq_Some_conv)
  have "queue_exact inv cls (s\<lparr>timers := ts\<rparr>)" for ts
    using assms(1) by (simp add: queue_exact_def ready_def)
  then have "queue_exact inv cls s1"
    using s1(2) assms(1) run_expired_returns
    by (auto split: list.splits if_splits simp del: run_expired.simps)
  then show ?thesis using s1(1) tick_keeps by simp
next
  case (blocks w)
  have "ready (block_current w s) = ready s" by (auto simp: ready_def block_current_def)
  then show ?thesis using assms(1) blocks
    by (auto simp: queue_exact_def block_current_def intro: inv_set_proc)
next
  case (dies e)
  have "ready (kill_current e s) = ready s" by (auto simp: ready_def kill_current_def)
  then show ?thesis using assms(1) dies
    by (auto simp: queue_exact_def kill_current_def intro: inv_set_proc)
next
  case (adds_timer t)
  then show ?thesis using queue_exact_timers [OF assms(1)] by (auto simp: add_timer_def)
next
  case (deletes_timer t)
  then show ?thesis using queue_exact_timers [OF assms(1)]
    by (auto simp: del_timer_def split: prod.splits)
qed

end

lemma sched_ok_step: "sched_ok s \<Longrightarrow> sched_step s s' \<Longrightarrow> sched_ok s'"
  using stride.step_queue_exact RR.step_queue_exact unfolding sched_ok_def by blast

lemma sched_ok_boot:
  assumes "sched_boot s" shows "sched_ok s"
proof -
  obtain s0 where s0: "s = sched_init s0" "runnable_set s0 \<subseteq> {current s0}"
    using assms by (auto simp: sched_boot_def)
  let ?q = "class_init stride_sched_class ((rq s0)\<lparr>max_time_slice := 20\<rparr>)"
  have "stride_shape {} ?q" "procs ?q = procs (rq s0)"
    using stride.init_law [of "(rq s0)\<lparr>max_time_slice := 20\<rparr>"] by auto
  moreover have "ready (sched_init s0) = {}"
    using s0(2) calculation(2) by (auto simp: ready_def runnable_set_def sched_init_def Let_def)
  ultimately show ?thesis
    by (simp add: sched_ok_def queue_exact_def s0(1) sched_init_def Let_def)
qed

lemma sched_reachable_ok: "sched_reachable s \<Longrightarrow> sched_ok s"
  by (induction rule: sched_reachable.induct) (auto intro: sched_ok_boot sched_ok_step)

text \<open>A machine with the idle process 0 running and process 7 asleep, and a boot of it.\<close>

definition demo_sched :: sched_state where
  "demo_sched = \<lparr>rq = demo_rq\<lparr>procs := \<lambda>p. if p = 0 then demo_proc else demo_proc\<lparr>pstate := PROC_SLEEPING\<rparr>\<rparr>,
     scls = stride_sched_class, current = 0, idleproc = 0,
     timers = (\<lambda>_. \<lparr>expires = 3, tproc = Some 7\<rparr>), timer_list = []\<rparr>"

lemma demo_sched_boots: "sched_reachable (sched_init demo_sched)"
  by (rule boots) (auto simp: sched_boot_def runnable_set_def demo_sched_def)

lemma demo_sched_woken:
  "\<exists>s. wakeup_proc 7 (sched_init demo_sched) = Some s \<and> sched_reachable s \<and> runnable_set s = {7} \<and>
     current s = 0"
proof -
  have ok: "queue_exact stride_shape stride_sched_class (sched_init demo_sched)"
    using sched_reachable_ok [OF demo_sched_boots]
    by (auto simp: sched_ok_def queue_exact_def sched_init_def Let_def RR_sched_class_def stride_sched_class_def)
  have z: "pstate (proc_of (sched_init demo_sched) 7) \<noteq> PROC_ZOMBIE"
    by (simp add: sched_init_def demo_sched_def Let_def stride_sched_class_def stride_init_def)
  obtain s where s: "wakeup_proc 7 (sched_init demo_sched) = Some s"
    "current s = current (sched_init demo_sched)"
    "runnable_set s = runnable_set (sched_init demo_sched) \<union> ({7} - {idleproc (sched_init demo_sched)})"
    using stride.wakeup_ready [OF ok z] by blast
  have "runnable_set (sched_init demo_sched) = {}" "idleproc (sched_init demo_sched) = 0"
    "current (sched_init demo_sched) = 0"
    by (auto simp: runnable_set_def sched_init_def demo_sched_def Let_def stride_sched_class_def stride_init_def)
  then have "runnable_set s = {7}" "current s = 0" using s(2,3) by simp_all
  then show ?thesis using s(1) steps [OF demo_sched_boots wakes [OF s(1)]] by blast
qed

lemma ready_runnable: "ready s = runnable_set s - {current s}"
  by (auto simp: ready_def runnable_set_def)

lemma ready_after:
  "idleproc s' = idleproc s \<Longrightarrow> \<forall>p. pstate (proc_of s' p) = pstate (proc_of s p) \<and> W p \<Longrightarrow>
   ready s' = runnable_set s - {current s'}"
  by (auto simp: ready_def runnable_set_def)

lemma schedule_ok:
  assumes "sched_ok s"
  shows "\<exists>s'. schedule s = Some s' \<and> sched_ok s' \<and> idleproc s' = idleproc s \<and>
    (if runnable_set s = {} then current s' = idleproc s else current s' \<in> runnable_set s) \<and>
    (\<forall>p. pstate (proc_of s' p) = pstate (proc_of s p) \<and>
       wait_state (proc_of s' p) = wait_state (proc_of s p)) \<and>
    (\<forall>p. sched_view (proc_of s' p) = sched_view ((proc_of s p)\<lparr>runs := runs (proc_of s' p)\<rparr>))"
  using assms
proof (rule sched_ok_cases)
  assume "queue_exact stride_shape stride_sched_class s"
  from stride.schedule_keeps [OF this] show ?thesis unfolding sched_ok_def by blast
next
  assume "queue_exact RR_shape RR_sched_class s"
  from RR.schedule_keeps [OF this] show ?thesis unfolding sched_ok_def by blast
qed

lemma wakeup_ok:
  assumes "sched_ok s" "pstate (proc_of s p) \<noteq> PROC_ZOMBIE"
  shows "\<exists>s'. wakeup_proc p s = Some s' \<and> sched_ok s' \<and> idleproc s' = idleproc s \<and>
    current s' = current s \<and> pstate (proc_of s' p) = PROC_RUNNABLE \<and>
    (\<forall>q. q \<noteq> p \<longrightarrow> pstate (proc_of s' q) = pstate (proc_of s q) \<and>
       wait_state (proc_of s' q) = wait_state (proc_of s q))"
  using assms(1)
proof (rule sched_ok_cases)
  assume "queue_exact stride_shape stride_sched_class s"
  from stride.wakeup_keeps [OF this assms(2)] show ?thesis unfolding sched_ok_def by blast
next
  assume "queue_exact RR_shape RR_sched_class s"
  from RR.wakeup_keeps [OF this assms(2)] show ?thesis unfolding sched_ok_def by blast
qed

section \<open>Properties of the scheduler\<close>

text \<open>
  C1.  No runnable process is ever lost or queued twice: in every state the scheduler can reach by
  any interleaving of wake-ups, reschedules, ticks, timer operations, blocking and dying -- with
  the class \<^verbatim>\<open>sched_init\<close> installs -- the run queue holds exactly the runnable processes other
  than the running one and the idle one.
\<close>

theorem run_queue_exact:
  assumes "sched_reachable s"
  shows "scls s = stride_sched_class \<and> stride_shape (ready s) (rq s)"
proof -
  have "sched_reachable s \<Longrightarrow> queue_exact stride_shape stride_sched_class s"
  proof (induction rule: sched_reachable.induct)
    case (boots s)
    then obtain s0 where "s = sched_init s0" by (auto simp: sched_boot_def)
    moreover have "stride_sched_class \<noteq> RR_sched_class"
      by (simp add: stride_sched_class_def RR_sched_class_def)
    ultimately show ?case using sched_ok_boot [OF boots]
      by (auto simp: sched_ok_def queue_exact_def sched_init_def Let_def)
  next
    case (steps s s')
    then show ?case using stride.step_queue_exact by blast
  qed
  then show ?thesis using assms by (simp add: queue_exact_def)
qed

theorem run_queue_exact_witness:
  "\<exists>s. wakeup_proc 7 (sched_init demo_sched) = Some s \<and> stride_shape {7} (rq s)"
proof -
  obtain s where s: "wakeup_proc 7 (sched_init demo_sched) = Some s" "sched_reachable s"
    "runnable_set s = {7}" "current s = 0" using demo_sched_woken by blast
  then have "ready s = {7}" using ready_runnable [of s] s(3) by simp
  then show ?thesis using run_queue_exact [OF s(2)] s(1) by auto
qed

text \<open>
  C16.  With either scheduling class, \<^verbatim>\<open>schedule\<close> never panics, runs a runnable process whenever
  there is one -- the interrupted process included, if it is still runnable -- and the idle process
  only when there is none, and changes no process state; the process that stops running is back in
  the queue exactly when it is runnable.
\<close>

theorem schedule_runs_runnable:
  assumes "sched_ok s"
  shows "\<exists>s'. schedule s = Some s' \<and> sched_ok s' \<and>
    (if runnable_set s = {} then current s' = idleproc s else current s' \<in> runnable_set s) \<and>
    ready s' = runnable_set s - {current s'} \<and>
    (\<forall>p. pstate (proc_of s' p) = pstate (proc_of s p))"
  using schedule_ok [OF assms] ready_after by blast

theorem schedule_runs_runnable_witness:
  "\<exists>s s'. wakeup_proc 7 (sched_init demo_sched) = Some s \<and> schedule s = Some s' \<and> current s' = 7"
proof -
  obtain s where s: "wakeup_proc 7 (sched_init demo_sched) = Some s" "sched_reachable s"
    "runnable_set s = {7}" using demo_sched_woken by blast
  then show ?thesis using schedule_runs_runnable [OF sched_reachable_ok [OF s(2)]] by auto
qed

text \<open>
  C24.  A clock tick is exact.  If the processes of the timers due at the next tick can be woken
  (the conditions the code asserts), \<^verbatim>\<open>run_timer_list\<close> does not panic, every other deadline comes
  one tick closer, exactly the due timers leave the list, their processes are runnable afterwards
  and no other process changes state, with either scheduling class.
\<close>

theorem clock_tick_exact:
  assumes "sched_ok s" "timers_ok (timers s) (timer_list s)" "\<forall>p\<in>woken_at 1 s. wakeable s p"
  shows "\<exists>s'. run_timer_list s = Some s' \<and> sched_ok s' \<and> timers_ok (timers s') (timer_list s') \<and>
    due s' = map (\<lambda>(t, d). (t, d - 1)) (filter (\<lambda>(t, d). d \<noteq> 1) (due s)) \<and>
    (\<forall>p. pstate (proc_of s' p) =
       (if p \<in> woken_at 1 s then PROC_RUNNABLE else pstate (proc_of s p)))"
  using assms(1)
proof (rule sched_ok_cases)
  assume "queue_exact stride_shape stride_sched_class s"
  from stride.run_timer_list_keeps [OF this assms(2,3)] show ?thesis unfolding sched_ok_def by blast
next
  assume "queue_exact RR_shape RR_sched_class s"
  from RR.run_timer_list_keeps [OF this assms(2,3)] show ?thesis unfolding sched_ok_def by blast
qed

theorem clock_tick_exact_witness:
  "\<exists>s s'. add_timer 5 ((sched_init demo_sched)\<lparr>timers := \<lambda>_. \<lparr>expires = 1, tproc = Some 7\<rparr>\<rparr>) = Some s \<and>
     run_timer_list s = Some s' \<and> timer_list s' = [] \<and> pstate (proc_of s' 7) = PROC_RUNNABLE"
proof -
  let ?s = "(sched_init demo_sched)\<lparr>timers := \<lambda>_. \<lparr>expires = 1, tproc = Some 7\<rparr>, timer_list := [5]\<rparr>"
  have a: "add_timer 5 ((sched_init demo_sched)\<lparr>timers := \<lambda>_. \<lparr>expires = 1, tproc = Some 7\<rparr>\<rparr>) = Some ?s"
    by (simp add: add_timer_def timer_add_def sched_init_def demo_sched_def Let_def)
  have ok: "sched_ok ?s"
    using sched_ok_boot [of "sched_init demo_sched"] demo_sched_boots sched_reachable_ok
    by (simp add: sched_ok_def queue_exact_def ready_def)
  have t: "timers_ok (timers ?s) (timer_list ?s)" by (simp add: timers_ok_def)
  have w: "woken_at 1 ?s = {7}" by (simp add: woken_at_def)
  have "wakeable ?s 7"
    by (simp add: wakeable_def sched_init_def demo_sched_def demo_proc_def Let_def
        stride_sched_class_def stride_init_def)
  then have "\<forall>p\<in>woken_at 1 ?s. wakeable ?s p" using w by simp
  from clock_tick_exact [OF ok t this] obtain s' where "run_timer_list ?s = Some s'"
    "due s' = []" "pstate (proc_of s' 7) = PROC_RUNNABLE" using w by auto
  moreover have "timer_list s' = map fst (due s')" by simp
  ultimately show ?thesis using a by auto
qed

end
