(* ===== verification/Wait_Queue.thy ===== *)
theory Wait_Queue
  imports Sched_Machine
begin

text \<open>
  Wait queues (\<^verbatim>\<open>kern/sync/wait.c\<close>) and semaphores (\<^verbatim>\<open>kern/sync/sem.c\<close>) over the core
  scheduler.  Wait entries and queues are named by numbers; a queue is the list of the entries it
  links, and \<open>wlinked\<close> says whether an entry's \<^verbatim>\<open>wait_link\<close> is linked or points to itself.
\<close>

record wait =
  wproc :: "nat option"
  wakeup_flags :: u32
  wqueue :: nat
  wlinked :: bool

record sync_state =
  sch :: sched_state
  waits :: "nat \<Rightarrow> wait"
  queues :: "nat \<Rightarrow> nat list"
  sem_value :: "nat \<Rightarrow> int"

definition set_wait :: "nat \<Rightarrow> wait \<Rightarrow> sync_state \<Rightarrow> sync_state" where
  "set_wait w v s = s\<lparr>waits := (waits s)(w := v)\<rparr>"

definition set_queue :: "nat \<Rightarrow> nat list \<Rightarrow> sync_state \<Rightarrow> sync_state" where
  "set_queue q l s = s\<lparr>queues := (queues s)(q := l)\<rparr>"

lemma set_sync_simps [simp]:
  "sch (set_wait w v s) = sch s" "waits (set_wait w v s) = (waits s)(w := v)"
  "queues (set_wait w v s) = queues s" "sem_value (set_wait w v s) = sem_value s"
  "sch (set_queue q l s) = sch s" "waits (set_queue q l s) = waits s"
  "queues (set_queue q l s) = (queues s)(q := l)" "sem_value (set_queue q l s) = sem_value s"
  by (simp_all add: set_wait_def set_queue_def)

definition wait_init :: "nat \<Rightarrow> nat \<Rightarrow> sync_state \<Rightarrow> sync_state" where
  "wait_init w p s =
     set_wait w ((waits s w)\<lparr>wproc := Some p, wakeup_flags := WT_INTERRUPTED, wlinked := False\<rparr>) s"

definition wait_queue_init :: "nat \<Rightarrow> sync_state \<Rightarrow> sync_state" where
  "wait_queue_init q s = set_queue q [] s"

definition wait_queue_add :: "nat \<Rightarrow> nat \<Rightarrow> sync_state \<Rightarrow> sync_state option" where
  "wait_queue_add q w s = do {
     kassert (\<not> wlinked (waits s w) \<and> wproc (waits s w) \<noteq> None);
     let s = set_wait w ((waits s w)\<lparr>wqueue := q\<rparr>) s;
     Some (set_wait w ((waits s w)\<lparr>wlinked := True\<rparr>) (set_queue q (queues s q @ [w]) s))
   }"

definition wait_queue_del :: "nat \<Rightarrow> nat \<Rightarrow> sync_state \<Rightarrow> sync_state option" where
  "wait_queue_del q w s = do {
     kassert (wlinked (waits s w) \<and> wqueue (waits s w) = q);
     Some (set_wait w ((waits s w)\<lparr>wlinked := False\<rparr>) (set_queue q (remove1 w (queues s q)) s))
   }"

fun next_in :: "nat \<Rightarrow> nat list \<Rightarrow> nat option" where
  "next_in w [] = None"
| "next_in w (x # xs) = (if x = w then (case xs of [] \<Rightarrow> None | y # _ \<Rightarrow> Some y) else next_in w xs)"

definition wait_queue_next :: "nat \<Rightarrow> nat \<Rightarrow> sync_state \<Rightarrow> nat option option" where
  "wait_queue_next q w s = do {
     kassert (wlinked (waits s w) \<and> wqueue (waits s w) = q);
     Some (next_in w (queues s q))
   }"

definition wait_queue_prev :: "nat \<Rightarrow> nat \<Rightarrow> sync_state \<Rightarrow> nat option option" where
  "wait_queue_prev q w s = do {
     kassert (wlinked (waits s w) \<and> wqueue (waits s w) = q);
     Some (next_in w (rev (queues s q)))
   }"

definition wait_queue_first :: "nat \<Rightarrow> sync_state \<Rightarrow> nat option" where
  "wait_queue_first q s = (case queues s q of [] \<Rightarrow> None | w # _ \<Rightarrow> Some w)"

definition wait_queue_last :: "nat \<Rightarrow> sync_state \<Rightarrow> nat option" where
  "wait_queue_last q s = (case rev (queues s q) of [] \<Rightarrow> None | w # _ \<Rightarrow> Some w)"

definition wait_queue_empty :: "nat \<Rightarrow> sync_state \<Rightarrow> bool" where
  "wait_queue_empty q s = (queues s q = [])"

definition wait_in_queue :: "nat \<Rightarrow> sync_state \<Rightarrow> bool" where
  "wait_in_queue w s = wlinked (waits s w)"

definition wakeup_wait :: "nat \<Rightarrow> nat \<Rightarrow> u32 \<Rightarrow> bool \<Rightarrow> sync_state \<Rightarrow> sync_state option" where
  "wakeup_wait q w f del s = do {
     s \<leftarrow> (if del then wait_queue_del q w s else Some s);
     let s = set_wait w ((waits s w)\<lparr>wakeup_flags := f\<rparr>) s;
     p \<leftarrow> wproc (waits s w);
     sc \<leftarrow> wakeup_proc p (sch s);
     Some (s\<lparr>sch := sc\<rparr>)
   }"

definition wakeup_first :: "nat \<Rightarrow> u32 \<Rightarrow> bool \<Rightarrow> sync_state \<Rightarrow> sync_state option" where
  "wakeup_first q f del s = (case wait_queue_first q s of
     Some w \<Rightarrow> wakeup_wait q w f del s | None \<Rightarrow> Some s)"

text \<open>
  The two loops of \<^verbatim>\<open>wakeup_queue\<close>.  Each turn of the first takes an entry out of the queue, each
  turn of the second moves one entry on, so the length of the queue is enough fuel for either
  (\<open>wakeup_queue_all\<close> below); the fuel value is never used up.
\<close>

fun wakeup_all_del :: "nat \<Rightarrow> nat \<Rightarrow> u32 \<Rightarrow> sync_state \<Rightarrow> sync_state option" where
  "wakeup_all_del 0 q f s = None"
| "wakeup_all_del (Suc n) q f s = (case wait_queue_first q s of
     None \<Rightarrow> Some s
   | Some w \<Rightarrow> do { s \<leftarrow> wakeup_wait q w f True s; wakeup_all_del n q f s })"

fun wakeup_all_keep :: "nat \<Rightarrow> nat \<Rightarrow> nat \<Rightarrow> u32 \<Rightarrow> sync_state \<Rightarrow> sync_state option" where
  "wakeup_all_keep 0 q w f s = None"
| "wakeup_all_keep (Suc n) q w f s = do {
     s \<leftarrow> wakeup_wait q w f False s;
     r \<leftarrow> wait_queue_next q w s;
     (case r of None \<Rightarrow> Some s | Some w' \<Rightarrow> wakeup_all_keep n q w' f s)
   }"

definition wakeup_queue :: "nat \<Rightarrow> u32 \<Rightarrow> bool \<Rightarrow> sync_state \<Rightarrow> sync_state option" where
  "wakeup_queue q f del s = (case wait_queue_first q s of
     None \<Rightarrow> Some s
   | Some w \<Rightarrow> if del then wakeup_all_del (Suc (length (queues s q))) q f s
               else wakeup_all_keep (length (queues s q)) q w f s)"

definition wait_current_set :: "nat \<Rightarrow> nat \<Rightarrow> u32 \<Rightarrow> sync_state \<Rightarrow> sync_state option" where
  "wait_current_set q w ws s =
     (let p = current (sch s);
          s = wait_init w p s;
          s = s\<lparr>sch := mod_proc p (\<lambda>d. d\<lparr>pstate := PROC_SLEEPING, wait_state := ws\<rparr>) (sch s)\<rparr>
      in wait_queue_add q w s)"

definition wait_current_del :: "nat \<Rightarrow> nat \<Rightarrow> sync_state \<Rightarrow> sync_state option" where
  "wait_current_del q w s = (if wait_in_queue w s then wait_queue_del q w s else Some s)"

section \<open>Semaphores\<close>

text \<open>
  A semaphore \<open>q\<close> is a value and the queue of the same name.  \<^verbatim>\<open>__down\<close> gives up the processor in
  its middle; it is split there: \<open>down_enter\<close> runs up to \<^verbatim>\<open>schedule()\<close> (\<open>Inl\<close> the value returned
  at once, \<open>Inr\<close> blocked), \<open>down_leave\<close> is what the process does when it runs again.
\<close>

definition sem_init :: "nat \<Rightarrow> int \<Rightarrow> sync_state \<Rightarrow> sync_state" where
  "sem_init q v s = wait_queue_init q (s\<lparr>sem_value := (sem_value s)(q := v)\<rparr>)"

definition up_with :: "nat \<Rightarrow> u32 \<Rightarrow> sync_state \<Rightarrow> sync_state option" where
  "up_with q ws s = (case wait_queue_first q s of
     None \<Rightarrow> Some (s\<lparr>sem_value := (sem_value s)(q := sem_value s q + 1)\<rparr>)
   | Some w \<Rightarrow> do {
       p \<leftarrow> wproc (waits s w);
       kassert (wait_state (proc_of (sch s) p) = ws);
       wakeup_wait q w ws True s
     })"

definition down_enter :: "nat \<Rightarrow> nat \<Rightarrow> u32 \<Rightarrow> sync_state \<Rightarrow> ((u32 + unit) \<times> sync_state) option" where
  "down_enter q w ws s =
     (if sem_value s q > 0 then Some (Inl 0, s\<lparr>sem_value := (sem_value s)(q := sem_value s q - 1)\<rparr>)
      else do {
        s \<leftarrow> wait_current_set q w ws s;
        sc \<leftarrow> schedule (sch s);
        Some (Inr (), s\<lparr>sch := sc\<rparr>)
      })"

definition down_leave :: "nat \<Rightarrow> nat \<Rightarrow> u32 \<Rightarrow> sync_state \<Rightarrow> (u32 \<times> sync_state) option" where
  "down_leave q w ws s = do {
     s \<leftarrow> wait_current_del q w s;
     Some (if wakeup_flags (waits s w) \<noteq> ws then wakeup_flags (waits s w) else 0, s)
   }"

definition up :: "nat \<Rightarrow> sync_state \<Rightarrow> sync_state option" where
  "up q s = up_with q WT_KSEM s"

text \<open>\<^verbatim>\<open>down\<close>, both halves with the assertion on the flags.\<close>

definition down_begin :: "nat \<Rightarrow> nat \<Rightarrow> sync_state \<Rightarrow> (bool \<times> sync_state) option" where
  "down_begin q w s = do {
     (r, s) \<leftarrow> down_enter q w WT_KSEM s;
     (case r of Inl flags \<Rightarrow> do { kassert (flags = 0); Some (True, s) } | Inr _ \<Rightarrow> Some (False, s))
   }"

definition down_end :: "nat \<Rightarrow> nat \<Rightarrow> sync_state \<Rightarrow> sync_state option" where
  "down_end q w s = do {
     (flags, s) \<leftarrow> down_leave q w WT_KSEM s;
     kassert (flags = 0);
     Some s
   }"

definition try_down :: "nat \<Rightarrow> sync_state \<Rightarrow> bool \<times> sync_state" where
  "try_down q s =
     (if sem_value s q > 0 then (True, s\<lparr>sem_value := (sem_value s)(q := sem_value s q - 1)\<rparr>)
      else (False, s))"

end
