(* ===== verification/Semaphore.thy ===== *)
theory Semaphore
  imports Wait_Queue
begin

text \<open>
  What a kernel semaphore promises, as a state machine over \<^verbatim>\<open>up\<close>, \<^verbatim>\<open>try_down\<close>, the two halves of
  \<^verbatim>\<open>down\<close> and anything else the scheduler does in between.  Any process may call any of them: no
  process needs to have passed \<^verbatim>\<open>down\<close> to call \<^verbatim>\<open>up\<close>, and one may pass several times.  Each process
  waits with a wait entry of its own (the local \<^verbatim>\<open>__wait\<close> of \<^verbatim>\<open>__down\<close>), named like the process.
  The ghosts are the \<open>phase\<close> of a process with respect to the semaphore - outside its operations, on
  the queue, or woken by \<^verbatim>\<open>up\<close> but not yet running - and the numbers of passed \<^verbatim>\<open>down\<close>s and of \<^verbatim>\<open>up\<close>s.
\<close>

datatype phase = Outside | Waiting | Granted

text \<open>
  The rest of the kernel: it leaves the semaphore and its queue alone and wakes no process that sleeps
  in \<open>WT_KSEM\<close> (\<^verbatim>\<open>do_kill\<close>, \<^verbatim>\<open>do_exit\<close> and the timers wake other wait states only).
\<close>

definition others_step :: "nat \<Rightarrow> (nat \<Rightarrow> phase) \<Rightarrow> sync_state \<Rightarrow> sync_state \<Rightarrow> bool" where
  "others_step q ph s s' \<longleftrightarrow> sched_step (sch s) (sch s') \<and> idleproc (sch s') = idleproc (sch s) \<and>
     current (sch s') \<in> {current (sch s), idleproc (sch s)} \<union> runnable_set (sch s) \<and>
     queues s' q = queues s q \<and> sem_value s' q = sem_value s q \<and>
     (\<forall>p. ph p \<in> {Waiting, Granted} \<longrightarrow> waits s' p = waits s p) \<and>
     (\<forall>p. ph p = Waiting \<longrightarrow> pstate (proc_of (sch s') p) = pstate (proc_of (sch s) p) \<and>
        wait_state (proc_of (sch s') p) = wait_state (proc_of (sch s) p))"

text \<open>\<open>d\<close> and \<open>u\<close>: how often \<^verbatim>\<open>down\<close> has been passed and \<^verbatim>\<open>up\<close> been called.\<close>

inductive sem_step ::
  "nat \<Rightarrow> sync_state \<times> (nat \<Rightarrow> phase) \<times> nat \<times> nat \<Rightarrow> sync_state \<times> (nat \<Rightarrow> phase) \<times> nat \<times> nat \<Rightarrow> bool" for q where
  enters: "c = current (sch s) \<Longrightarrow> c \<noteq> idleproc (sch s) \<Longrightarrow> ph c = Outside \<Longrightarrow>
    down_begin q c s = Some (True, s') \<Longrightarrow> sem_step q (s, ph, d, u) (s', ph, Suc d, u)"
| waits_for: "c = current (sch s) \<Longrightarrow> c \<noteq> idleproc (sch s) \<Longrightarrow> ph c = Outside \<Longrightarrow>
    down_begin q c s = Some (False, s') \<Longrightarrow> sem_step q (s, ph, d, u) (s', ph(c := Waiting), d, u)"
| resumes: "c = current (sch s) \<Longrightarrow> ph c = Granted \<Longrightarrow>
    down_end q c s = Some s' \<Longrightarrow> sem_step q (s, ph, d, u) (s', ph(c := Outside), Suc d, u)"
| tries: "try_down q s = (ok, s') \<Longrightarrow> sem_step q (s, ph, d, u) (s', ph, if ok then Suc d else d, u)"
| releases: "up q s = Some s' \<Longrightarrow>
    sem_step q (s, ph, d, u) (s', case queues s q of [] \<Rightarrow> ph | w # _ \<Rightarrow> ph(w := Granted), d, Suc u)"
| others: "others_step q ph s s' \<Longrightarrow> sem_step q (s, ph, d, u) (s', ph, d, u)"

definition in_phase :: "(nat \<Rightarrow> phase) \<Rightarrow> phase set \<Rightarrow> nat set" where
  "in_phase ph F = {p. ph p \<in> F}"

definition sem_inv :: "int \<Rightarrow> nat \<Rightarrow> sync_state \<times> (nat \<Rightarrow> phase) \<times> nat \<times> nat \<Rightarrow> bool" where
  "sem_inv v q x \<longleftrightarrow> (case x of (s, ph, d, u) \<Rightarrow> sched_ok (sch s) \<and> 0 \<le> sem_value s q \<and>
     (queues s q \<noteq> [] \<longrightarrow> sem_value s q = 0) \<and>
     finite (in_phase ph {Granted}) \<and>
     int d + int (card (in_phase ph {Granted})) + sem_value s q = v + int u \<and>
     distinct (queues s q) \<and> set (queues s q) = in_phase ph {Waiting} \<and>
     (\<forall>p. ph p = Waiting \<longrightarrow> wproc (waits s p) = Some p \<and> wlinked (waits s p) \<and>
        wqueue (waits s p) = q \<and> pstate (proc_of (sch s) p) = PROC_SLEEPING \<and>
        wait_state (proc_of (sch s) p) = WT_KSEM \<and> p \<noteq> current (sch s) \<and> p \<noteq> idleproc (sch s)) \<and>
     (\<forall>p. ph p = Granted \<longrightarrow> \<not> wlinked (waits s p) \<and> wakeup_flags (waits s p) = WT_KSEM))"

lemma in_phase_upd:
  "in_phase (ph(c := x)) F = (if x \<in> F then insert c (in_phase ph F) else in_phase ph F - {c})"
  by (auto simp: in_phase_def)

lemma in_phase_iff: "p \<in> in_phase ph F \<longleftrightarrow> ph p \<in> F"
  by (simp add: in_phase_def)

lemma sem_down_fast:
  assumes "sem_inv v q (s, ph, d, u)" "sem_value s q > 0"
  shows "\<exists>s'. down_begin q c s = Some (True, s') \<and> try_down q s = (True, s') \<and> sem_inv v q (s', ph, Suc d, u)"
proof -
  have e: "queues s q = []" using assms by (auto simp: sem_inv_def)
  show ?thesis using assms e by (auto simp: down_begin_def down_enter_def try_down_def sem_inv_def)
qed

lemma block_ok: "sched_ok s \<Longrightarrow> sched_ok (mod_proc (current s) (\<lambda>d. d\<lparr>pstate := PROC_SLEEPING, wait_state := w\<rparr>) s)"
  using sched_ok_step [OF _ blocks] by (simp add: block_current_def)

lemma sem_down_slow:
  assumes inv: "sem_inv v q (s, ph, d, u)" and ph: "ph c = Outside" and c: "c = current (sch s)" "c \<noteq> idleproc (sch s)"
    and z: "\<not> sem_value s q > 0"
  shows "\<exists>s'. down_begin q c s = Some (False, s') \<and> sem_inv v q (s', ph(c := Waiting), d, u)"
proof -
  let ?s1 = "mod_proc c (\<lambda>d. d\<lparr>pstate := PROC_SLEEPING, wait_state := WT_KSEM\<rparr>) (sch s)"
  have "sched_ok (sch s)" using inv by (simp add: sem_inv_def)
  then have "sched_ok ?s1" unfolding c(1) by (rule block_ok)
  then obtain s2 where s2: "schedule ?s1 = Some s2" "sched_ok s2" "idleproc s2 = idleproc ?s1"
    "if runnable_set ?s1 = {} then current s2 = idleproc ?s1 else current s2 \<in> runnable_set ?s1"
    "\<forall>p. pstate (proc_of s2 p) = pstate (proc_of ?s1 p) \<and> wait_state (proc_of s2 p) = wait_state (proc_of ?s1 p)"
    using schedule_ok [of ?s1] by blast
  have cur: "pstate (proc_of ?s1 (current s2)) = PROC_RUNNABLE \<or> current s2 = idleproc (sch s)"
    using s2(4) by (auto simp: runnable_set_def split: if_splits)
  have W: "pstate (proc_of (sch s) p) = PROC_SLEEPING \<and> p \<noteq> idleproc (sch s) \<and> p \<noteq> current s2"
    if "ph p = Waiting" for p
    using inv that cur c by (auto simp: sem_inv_def split: if_splits)
  have n: "c \<notin> in_phase ph {Granted}" "c \<notin> in_phase ph {Waiting}" using ph by (auto simp: in_phase_def)
  let ?w = "(waits s c)\<lparr>wproc := Some c, wakeup_flags := WT_INTERRUPTED, wqueue := q, wlinked := True\<rparr>"
  let ?b = "s\<lparr>sch := ?s1, queues := (queues s)(q := queues s q @ [c]), waits := (waits s)(c := ?w)\<rparr>"
  let ?s' = "?b\<lparr>sch := s2\<rparr>"
  have "wait_current_set q c WT_KSEM s = Some ?b"
    using c by (simp add: wait_current_set_def wait_init_def wait_queue_add_def set_wait_def set_queue_def Let_def)
  then have run: "down_begin q c s = Some (False, ?s')"
    using z s2(1) by (simp add: down_begin_def down_enter_def)
  have "sem_inv v q (?s', ph(c := Waiting), d, u)"
    unfolding sem_inv_def prod.case
  proof (intro conjI)
    show "sched_ok (sch ?s')" using s2(2) by simp
    show "0 \<le> sem_value ?s' q" "int d + int (card (in_phase (ph(c := Waiting)) {Granted})) + sem_value ?s' q = v + int u"
      "finite (in_phase (ph(c := Waiting)) {Granted})"
      "queues ?s' q \<noteq> [] \<longrightarrow> sem_value ?s' q = 0"
      using inv n z by (auto simp: sem_inv_def in_phase_upd)
    show "distinct (queues ?s' q)" "set (queues ?s' q) = in_phase (ph(c := Waiting)) {Waiting}"
      using inv n by (auto simp: sem_inv_def in_phase_upd)
    show "\<forall>p. (ph(c := Waiting)) p = Waiting \<longrightarrow> wproc (waits ?s' p) = Some p \<and> wlinked (waits ?s' p) \<and>
        wqueue (waits ?s' p) = q \<and> pstate (proc_of (sch ?s') p) = PROC_SLEEPING \<and>
        wait_state (proc_of (sch ?s') p) = WT_KSEM \<and> p \<noteq> current (sch ?s') \<and> p \<noteq> idleproc (sch ?s')"
    proof (intro allI impI)
      fix p assume p: "(ph(c := Waiting)) p = Waiting"
      show "wproc (waits ?s' p) = Some p \<and> wlinked (waits ?s' p) \<and>
        wqueue (waits ?s' p) = q \<and> pstate (proc_of (sch ?s') p) = PROC_SLEEPING \<and>
        wait_state (proc_of (sch ?s') p) = WT_KSEM \<and> p \<noteq> current (sch ?s') \<and> p \<noteq> idleproc (sch ?s')"
      proof (cases "p = c")
        case True
        then show ?thesis using s2(3,5) cur c by auto
      next
        case False
        then show ?thesis using p W [of p] s2(3,5) inv by (auto simp: sem_inv_def)
      qed
    qed
    show "\<forall>p. (ph(c := Waiting)) p = Granted \<longrightarrow> \<not> wlinked (waits ?s' p) \<and> wakeup_flags (waits ?s' p) = WT_KSEM"
      using inv by (auto simp: sem_inv_def)
  qed
  then show ?thesis using run by blast
qed

lemma sem_up:
  assumes inv: "sem_inv v q (s, ph, d, u)"
  shows "\<exists>s'. up q s = Some s' \<and>
    sem_inv v q (s', case queues s q of [] \<Rightarrow> ph | w # _ \<Rightarrow> ph(w := Granted), d, Suc u)"
proof (cases "queues s q")
  case Nil
  then show ?thesis using inv by (auto simp: up_def up_with_def wait_queue_first_def sem_inv_def)
next
  case (Cons w l)
  have w: "ph w = Waiting" using inv Cons by (auto simp: sem_inv_def in_phase_def)
  then have wp: "wproc (waits s w) = Some w" "wlinked (waits s w)" "wqueue (waits s w) = q"
    "pstate (proc_of (sch s) w) = PROC_SLEEPING" "wait_state (proc_of (sch s) w) = WT_KSEM"
    "w \<noteq> current (sch s)" "w \<noteq> idleproc (sch s)"
    using inv by (auto simp: sem_inv_def)
  obtain s2 where s2: "wakeup_proc w (sch s) = Some s2" "sched_ok s2" "idleproc s2 = idleproc (sch s)"
    "current s2 = current (sch s)"
    "\<forall>p. p \<noteq> w \<longrightarrow> pstate (proc_of s2 p) = pstate (proc_of (sch s) p) \<and>
       wait_state (proc_of s2 p) = wait_state (proc_of (sch s) p)"
    using wakeup_ok [of "sch s" w] inv wp(4) by (auto simp: sem_inv_def)
  let ?w = "(waits s w)\<lparr>wlinked := False, wakeup_flags := WT_KSEM\<rparr>"
  let ?s' = "s\<lparr>queues := (queues s)(q := l), waits := (waits s)(w := ?w), sch := s2\<rparr>"
  have run: "up q s = Some ?s'"
    using Cons wp s2(1)
    by (simp add: up_def up_with_def wait_queue_first_def wakeup_wait_def wait_queue_del_def
        set_wait_def set_queue_def)
  let ?ph = "ph(w := Granted)"
  have H: "in_phase ?ph {Granted} = insert w (in_phase ph {Granted})" by (auto simp: in_phase_def)
  have "w \<notin> in_phase ph {Granted}" "finite (in_phase ph {Granted})" using w inv by (auto simp: in_phase_def sem_inv_def)
  then have card: "card (in_phase ?ph {Granted}) = Suc (card (in_phase ph {Granted}))"
    "finite (in_phase ?ph {Granted})" unfolding H by simp_all
  have "w \<notin> set l" "set l = in_phase ph {Waiting} - {w}" using inv Cons by (auto simp: sem_inv_def)
  moreover have "in_phase ?ph {Waiting} = in_phase ph {Waiting} - {w}" by (auto simp: in_phase_def)
  ultimately have W: "set l = in_phase ?ph {Waiting}" by simp
  have Wp: "ph p = Waiting \<and> p \<noteq> w" if "?ph p = Waiting" for p using that by (auto split: if_splits)
  have "sem_inv v q (?s', ?ph, d, Suc u)"
    unfolding sem_inv_def prod.case
  proof (intro conjI)
    show "sched_ok (sch ?s')" "finite (in_phase ?ph {Granted})" using s2(2) card by auto
    show "0 \<le> sem_value ?s' q" "queues ?s' q \<noteq> [] \<longrightarrow> sem_value ?s' q = 0"
      "int d + int (card (in_phase ?ph {Granted})) + sem_value ?s' q = v + int (Suc u)" "distinct (queues ?s' q)"
      using inv card Cons by (auto simp: sem_inv_def)
    show "set (queues ?s' q) = in_phase ?ph {Waiting}" using W by simp
    show "\<forall>p. ?ph p = Waiting \<longrightarrow> wproc (waits ?s' p) = Some p \<and> wlinked (waits ?s' p) \<and>
        wqueue (waits ?s' p) = q \<and> pstate (proc_of (sch ?s') p) = PROC_SLEEPING \<and>
        wait_state (proc_of (sch ?s') p) = WT_KSEM \<and> p \<noteq> current (sch ?s') \<and> p \<noteq> idleproc (sch ?s')"
      using Wp inv s2(3-5) by (auto simp: sem_inv_def)
    show "\<forall>p. ?ph p = Granted \<longrightarrow> \<not> wlinked (waits ?s' p) \<and> wakeup_flags (waits ?s' p) = WT_KSEM"
      using inv by (auto simp: sem_inv_def)
  qed
  then show ?thesis using run Cons by auto
qed

lemma sem_resume:
  assumes inv: "sem_inv v q (s, ph, d, u)" and ph: "ph c = Granted"
  shows "\<exists>s'. down_end q c s = Some s' \<and> sem_inv v q (s', ph(c := Outside), Suc d, u)"
proof -
  have g: "\<not> wlinked (waits s c)" "wakeup_flags (waits s c) = WT_KSEM" using inv ph by (auto simp: sem_inv_def)
  then have run: "down_end q c s = Some s"
    by (simp add: down_end_def down_leave_def wait_current_del_def wait_in_queue_def)
  have c: "c \<in> in_phase ph {Granted}" "finite (in_phase ph {Granted})" using ph inv by (simp_all add: in_phase_def sem_inv_def)
  have "in_phase (ph(c := Outside)) {Granted} = in_phase ph {Granted} - {c}"
    "in_phase (ph(c := Outside)) {Waiting} = in_phase ph {Waiting}"
    using ph by (auto simp: in_phase_def)
  moreover have "card (in_phase ph {Granted}) = Suc (card (in_phase ph {Granted} - {c}))"
    using card_Suc_Diff1 [OF c(2,1)] by simp
  ultimately have "sem_inv v q (s, ph(c := Outside), Suc d, u)" using inv c(2) by (auto simp: sem_inv_def)
  then show ?thesis using run by blast
qed

lemma sem_others:
  assumes inv: "sem_inv v q (s, ph, d, u)" and st: "others_step q ph s s'"
  shows "sem_inv v q (s', ph, d, u)"
proof -
  have st': "sched_step (sch s) (sch s')" "idleproc (sch s') = idleproc (sch s)"
    "current (sch s') \<in> {current (sch s), idleproc (sch s)} \<union> runnable_set (sch s)"
    "queues s' q = queues s q" "sem_value s' q = sem_value s q"
    "\<forall>p. ph p \<in> {Waiting, Granted} \<longrightarrow> waits s' p = waits s p"
    "\<forall>p. ph p = Waiting \<longrightarrow> pstate (proc_of (sch s') p) = pstate (proc_of (sch s) p) \<and>
        wait_state (proc_of (sch s') p) = wait_state (proc_of (sch s) p)"
    using st unfolding others_step_def by blast+
  have ok: "sched_ok (sch s')" using inv sched_ok_step [OF _ st'(1)] by (simp add: sem_inv_def)
  have "p \<noteq> current (sch s')" if "ph p = Waiting" for p
    using that inv st'(3) by (auto simp: sem_inv_def runnable_set_def)
  then show ?thesis using inv ok st' by (auto simp: sem_inv_def)
qed

lemma sem_step_inv: "sem_step q x y \<Longrightarrow> sem_inv v q x \<Longrightarrow> sem_inv v q y"
proof (induction rule: sem_step.induct)
  case (enters c s ph s' d u)
  show ?case
  proof (cases "sem_value s q > 0")
    case True
    then show ?thesis using sem_down_fast [OF enters.prems True, of c] enters by auto
  next
    case False
    then show ?thesis using sem_down_slow [OF enters.prems enters.hyps(3,1,2) False] enters by auto
  qed
next
  case (waits_for c s ph s' d u)
  show ?case
  proof (cases "sem_value s q > 0")
    case True
    then show ?thesis using sem_down_fast [OF waits_for.prems True, of c] waits_for by auto
  next
    case False
    then show ?thesis
      using sem_down_slow [OF waits_for.prems waits_for.hyps(3,1,2) False] waits_for by (auto simp del: fun_upd_apply)
  qed
next
  case (resumes c s ph s' d u)
  then show ?case using sem_resume [of v q s ph d u c] by (auto simp del: fun_upd_apply)
next
  case (tries s ok s' ph d u)
  show ?case
  proof (cases "sem_value s q > 0")
    case True
    then show ?thesis using sem_down_fast [OF tries.prems True, of 0] tries.hyps by auto
  next
    case False
    then show ?thesis using tries by (simp add: try_down_def)
  qed
next
  case (releases s s' ph d u)
  then show ?case using sem_up [of v q s ph d u] by (auto simp del: fun_upd_apply)
next
  case (others ph s s' d u)
  then show ?case using sem_others by simp
qed

section \<open>Properties of semaphores\<close>

inductive sem_run ::
  "nat \<Rightarrow> sync_state \<times> (nat \<Rightarrow> phase) \<times> nat \<times> nat \<Rightarrow> sync_state \<times> (nat \<Rightarrow> phase) \<times> nat \<times> nat \<Rightarrow> bool" for q where
  sem_run_refl: "sem_run q x x"
| sem_run_step: "sem_run q x y \<Longrightarrow> sem_step q y z \<Longrightarrow> sem_run q x z"

lemma sem_run_inv: "sem_run q x y \<Longrightarrow> sem_inv v q x \<Longrightarrow> sem_inv v q y"
  by (induction rule: sem_run.induct) (auto intro: sem_step_inv)

lemma sem_init_inv:
  assumes "sched_ok (sch s)" "0 \<le> v"
  shows "sem_inv v q (sem_init q v s, \<lambda>_. Outside, 0, 0)"
  using assms by (simp add: sem_inv_def sem_init_def wait_queue_init_def set_queue_def in_phase_def)

text \<open>
  C5.  A semaphore initialised with \<open>v\<close> conserves its units, however \<^verbatim>\<open>down\<close>, \<^verbatim>\<open>try_down\<close>, \<^verbatim>\<open>up\<close> - by
  any process, whether it has passed \<^verbatim>\<open>down\<close> or not - context switches, ticks and other wake-ups
  interleave, as long as the rest of the kernel does not touch the semaphore or its queue and wakes no process
  that waits on it: the passages of \<^verbatim>\<open>down\<close>, the processes \<^verbatim>\<open>up\<close> has already woken for it and the
  value always add up to \<open>v\<close> and the number of \<^verbatim>\<open>up\<close>s, so \<^verbatim>\<open>down\<close> is never passed more than \<open>v\<close> times
  beyond the number of \<^verbatim>\<open>up\<close>s.  Nobody waits while the value is positive, and no operation panics:
  \<^verbatim>\<open>up\<close>, the \<^verbatim>\<open>down\<close> of a running process other than the idle one, and what a woken process does next return.
\<close>

theorem semaphore_exclusion:
  assumes "sched_ok (sch s0)" "0 \<le> v" "sem_run q (sem_init q v s0, \<lambda>_. Outside, 0, 0) (s, ph, d, u)"
  shows "int d + int (card (in_phase ph {Granted})) + sem_value s q = v + int u \<and>
    int d \<le> v + int u \<and> 0 \<le> sem_value s q \<and>
    (sem_value s q > 0 \<longrightarrow> in_phase ph {Waiting} = {}) \<and>
    (ph (current (sch s)) = Outside \<and> current (sch s) \<noteq> idleproc (sch s) \<longrightarrow>
       down_begin q (current (sch s)) s \<noteq> None) \<and>
    (ph (current (sch s)) = Granted \<longrightarrow> down_end q (current (sch s)) s \<noteq> None) \<and>
    ph (current (sch s)) \<noteq> Waiting \<and> up q s \<noteq> None"
proof -
  have inv: "sem_inv v q (s, ph, d, u)" by (rule sem_run_inv [OF assms(3) sem_init_inv [OF assms(1,2)]])
  have sum: "0 \<le> sem_value s q" "int d + int (card (in_phase ph {Granted})) + sem_value s q = v + int u"
    using inv by (auto simp: sem_inv_def)
  have le: "int d \<le> v + int u" using sum by linarith
  have "sem_value s q > 0 \<longrightarrow> in_phase ph {Waiting} = {}" "ph (current (sch s)) \<noteq> Waiting"
    using inv by (auto simp: sem_inv_def)
  moreover have "down_begin q (current (sch s)) s \<noteq> None"
    if "ph (current (sch s)) = Outside" "current (sch s) \<noteq> idleproc (sch s)"
    using sem_down_fast [OF inv, of "current (sch s)"] sem_down_slow [OF inv that(1) refl that(2)]
    by (cases "sem_value s q > 0") auto
  moreover have "down_end q (current (sch s)) s \<noteq> None" if "ph (current (sch s)) = Granted"
    using sem_resume [OF inv that] by auto
  moreover have "up q s \<noteq> None" using sem_up [OF inv] by auto
  ultimately show ?thesis using sum le by blast
qed

text \<open>A machine on which process 7 runs, woken and scheduled after boot.\<close>

lemma demo_running:
  "\<exists>sc. sched_ok sc \<and> current sc = 7 \<and> idleproc sc = 0"
proof -
  obtain s where s: "wakeup_proc 7 (sched_init demo_sched) = Some s" "sched_reachable s"
    "runnable_set s = {7}" using demo_sched_woken by blast
  have "idleproc s = 0"
    using wakeup_ok [of "sched_init demo_sched" 7] sched_reachable_ok [OF demo_sched_boots] s(1)
    by (auto simp: demo_sched_def sched_init_def Let_def stride_sched_class_def stride_init_def)
  then show ?thesis using schedule_ok [OF sched_reachable_ok [OF s(2)]] s(3) by auto
qed

theorem semaphore_exclusion_witness:
  "\<exists>s0 s. sem_run 3 (sem_init 3 1 s0, \<lambda>_. Outside, 0, 0) (s, \<lambda>_. Outside, 1, 1) \<and> sem_value s 3 = 1 \<and> up 3 s \<noteq> None"
proof -
  obtain sc where sc: "sched_ok sc" "current sc = 7" "idleproc sc = 0" using demo_running by blast
  let ?s0 = "\<lparr>sch = sc, waits = (\<lambda>_. \<lparr>wproc = None, wakeup_flags = 0, wqueue = 0, wlinked = False\<rparr>),
    queues = (\<lambda>_. []), sem_value = (\<lambda>_. 9)\<rparr>"
  let ?s1 = "?s0\<lparr>sem_value := (\<lambda>_. 9)(3 := 0)\<rparr>" and ?s2 = "?s0\<lparr>sem_value := (\<lambda>_. 9)(3 := 1)\<rparr>"
  have "down_begin 3 7 (sem_init 3 1 ?s0) = Some (True, ?s1)"
    by (simp add: down_begin_def down_enter_def sem_init_def wait_queue_init_def set_queue_def fun_eq_iff)
  then have a: "sem_step 3 (sem_init 3 1 ?s0, \<lambda>_. Outside, 0, 0) (?s1, \<lambda>_. Outside, Suc 0, 0)"
    using sc by (intro sem_step.enters) (auto simp: sem_init_def wait_queue_init_def)
  have "up 3 ?s1 = Some ?s2" by (simp add: up_def up_with_def wait_queue_first_def fun_eq_iff)
  then have "sem_step 3 (?s1, \<lambda>_. Outside, Suc 0, 0)
      (?s2, case queues ?s1 3 of [] \<Rightarrow> \<lambda>_. Outside | w # _ \<Rightarrow> (\<lambda>_. Outside)(w := Granted), Suc 0, Suc 0)"
    by (rule sem_step.releases)
  then have b: "sem_step 3 (?s1, \<lambda>_. Outside, Suc 0, 0) (?s2, \<lambda>_. Outside, Suc 0, Suc 0)" by simp
  have r: "sem_run 3 (sem_init 3 1 ?s0, \<lambda>_. Outside, 0, 0) (?s2, \<lambda>_. Outside, 1, 1)"
    using sem_run_step [OF sem_run_step [OF sem_run_refl a] b] by simp
  have "sched_ok (sch ?s0)" using sc by simp
  from semaphore_exclusion [OF this _ r] have "sem_value ?s2 3 = 1" "up 3 ?s2 \<noteq> None"
    by (simp_all add: in_phase_def)
  then show ?thesis using r by blast
qed

section \<open>Waking a whole queue\<close>

definition wakeable_queue :: "nat \<Rightarrow> sync_state \<Rightarrow> bool" where
  "wakeable_queue q s \<longleftrightarrow> sched_ok (sch s) \<and> distinct (queues s q) \<and>
     (\<forall>w\<in>set (queues s q). wlinked (waits s w) \<and> wqueue (waits s w) = q \<and>
        (\<exists>p. wproc (waits s w) = Some p \<and> pstate (proc_of (sch s) p) \<noteq> PROC_ZOMBIE))"

definition awake :: "nat \<Rightarrow> u32 \<Rightarrow> sync_state \<Rightarrow> bool" where
  "awake w f s \<longleftrightarrow> wakeup_flags (waits s w) = f \<and>
     (\<exists>p. wproc (waits s w) = Some p \<and> pstate (proc_of (sch s) p) = PROC_RUNNABLE)"

lemma wakeup_wait_del:
  assumes "wakeable_queue q s" "queues s q = w # l"
  shows "\<exists>s'. wakeup_wait q w f True s = Some s' \<and> wakeable_queue q s' \<and> queues s' q = l \<and>
    awake w f s' \<and> \<not> wlinked (waits s' w) \<and>
    (\<forall>x. x \<noteq> w \<longrightarrow> waits s' x = waits s x) \<and>
    (\<forall>p. pstate (proc_of (sch s) p) = PROC_RUNNABLE \<longrightarrow> pstate (proc_of (sch s') p) = PROC_RUNNABLE)"
proof -
  obtain p where w: "wlinked (waits s w)" "wqueue (waits s w) = q" "wproc (waits s w) = Some p"
    "pstate (proc_of (sch s) p) \<noteq> PROC_ZOMBIE" using assms by (auto simp: wakeable_queue_def)
  obtain s2 where s2: "wakeup_proc p (sch s) = Some s2" "sched_ok s2"
    "pstate (proc_of s2 p) = PROC_RUNNABLE"
    "\<forall>x. x \<noteq> p \<longrightarrow> pstate (proc_of s2 x) = pstate (proc_of (sch s) x)"
    using wakeup_ok [OF _ w(4)] assms(1) unfolding wakeable_queue_def by blast
  let ?w = "(waits s w)\<lparr>wlinked := False, wakeup_flags := f\<rparr>"
  let ?s' = "s\<lparr>queues := (queues s)(q := l), waits := (waits s)(w := ?w), sch := s2\<rparr>"
  have run: "wakeup_wait q w f True s = Some ?s'"
    using assms(2) w s2(1) by (simp add: wakeup_wait_def wait_queue_del_def set_wait_def set_queue_def)
  have keep: "pstate (proc_of s2 x) \<noteq> PROC_ZOMBIE" if "pstate (proc_of (sch s) x) \<noteq> PROC_ZOMBIE" for x
    using that s2(3,4) by (cases "x = p") auto
  have d: "distinct (w # l)" using assms by (simp add: wakeable_queue_def)
  have "\<forall>x\<in>set l. wlinked (waits ?s' x) \<and> wqueue (waits ?s' x) = q \<and>
      (\<exists>p. wproc (waits ?s' x) = Some p \<and> pstate (proc_of (sch ?s') p) \<noteq> PROC_ZOMBIE)"
    using assms keep d unfolding wakeable_queue_def by fastforce
  then have "wakeable_queue q ?s'" using s2(2) d by (simp add: wakeable_queue_def)
  moreover have "awake w f ?s'" using w(3) s2(3) by (simp add: awake_def)
  moreover have "\<forall>x. pstate (proc_of (sch s) x) = PROC_RUNNABLE \<longrightarrow> pstate (proc_of (sch ?s') x) = PROC_RUNNABLE"
    using s2(3,4) by (metis sync_state.select_convs(1) sync_state.surjective sync_state.update_convs(1))
  ultimately show ?thesis using run by (intro exI [of _ ?s']) simp
qed

lemma awake_mono:
  "awake x f s \<Longrightarrow> waits s' x = waits s x \<Longrightarrow>
   \<forall>p. pstate (proc_of (sch s) p) = PROC_RUNNABLE \<longrightarrow> pstate (proc_of (sch s') p) = PROC_RUNNABLE \<Longrightarrow>
   awake x f s'"
  by (auto simp: awake_def)

lemma wakeup_all_del_ok:
  assumes "wakeable_queue q s" "length (queues s q) < n"
  shows "\<exists>s'. wakeup_all_del n q f s = Some s' \<and> sched_ok (sch s') \<and> queues s' q = [] \<and>
    (\<forall>w\<in>set (queues s q). awake w f s' \<and> \<not> wlinked (waits s' w)) \<and>
    (\<forall>w. w \<notin> set (queues s q) \<longrightarrow> waits s' w = waits s w) \<and>
    (\<forall>p. pstate (proc_of (sch s) p) = PROC_RUNNABLE \<longrightarrow> pstate (proc_of (sch s') p) = PROC_RUNNABLE)"
  using assms
proof (induction n arbitrary: s)
  case (Suc n)
  show ?case
  proof (cases "queues s q")
    case Nil
    then show ?thesis using Suc.prems by (simp add: wait_queue_first_def wakeable_queue_def)
  next
    case (Cons w l)
    obtain s1 where s1: "wakeup_wait q w f True s = Some s1" "wakeable_queue q s1" "queues s1 q = l"
      "awake w f s1" "\<not> wlinked (waits s1 w)" "\<forall>x. x \<noteq> w \<longrightarrow> waits s1 x = waits s x"
      "\<forall>p. pstate (proc_of (sch s) p) = PROC_RUNNABLE \<longrightarrow> pstate (proc_of (sch s1) p) = PROC_RUNNABLE"
      using wakeup_wait_del [OF Suc.prems(1) Cons] by blast
    have "length (queues s1 q) < n" using s1(3) Suc.prems(2) Cons by simp
    from Suc.IH [OF s1(2) this] obtain s' where s': "wakeup_all_del n q f s1 = Some s'" "sched_ok (sch s')"
      "queues s' q = []" "\<forall>x\<in>set l. awake x f s' \<and> \<not> wlinked (waits s' x)"
      "\<forall>x. x \<notin> set l \<longrightarrow> waits s' x = waits s1 x"
      "\<forall>p. pstate (proc_of (sch s1) p) = PROC_RUNNABLE \<longrightarrow> pstate (proc_of (sch s') p) = PROC_RUNNABLE"
      using s1(3) by auto
    have "w \<notin> set l" using Suc.prems(1) Cons by (simp add: wakeable_queue_def)
    then have "awake w f s'" "\<not> wlinked (waits s' w)"
      using awake_mono [OF s1(4) _ s'(6)] s'(5) s1(5) by auto
    then show ?thesis using s1 s' Cons by (auto simp: wait_queue_first_def)
  qed
qed simp

text \<open>
   \<^verbatim>\<open>wakeup_queue\<close> with removal terminates, empties the queue, and every process that waited is
  runnable afterwards with the given wake-up flags and an unlinked wait entry; entries that were
  not on the queue are untouched.
\<close>

theorem wakeup_queue_all:
  assumes "wakeable_queue q s"
  shows "\<exists>s'. wakeup_queue q f True s = Some s' \<and> sched_ok (sch s') \<and> queues s' q = [] \<and>
    (\<forall>w\<in>set (queues s q). awake w f s' \<and> \<not> wlinked (waits s' w)) \<and>
    (\<forall>w. w \<notin> set (queues s q) \<longrightarrow> waits s' w = waits s w)"
proof (cases "queues s q")
  case Nil
  then show ?thesis using assms by (simp add: wakeup_queue_def wait_queue_first_def wakeable_queue_def)
next
  case (Cons w l)
  have "length (queues s q) < Suc (length (queues s q))" by simp
  from wakeup_all_del_ok [OF assms this, of f] show ?thesis
    using Cons by (auto simp: wakeup_queue_def wait_queue_first_def simp del: wakeup_all_del.simps)
qed

theorem wakeup_queue_all_witness:
  "\<exists>sc s'. wakeup_queue 4 WT_KBD True \<lparr>sch = sc, waits = (\<lambda>w. \<lparr>wproc = Some 7, wakeup_flags = 0,
       wqueue = 4, wlinked = True\<rparr>), queues = (\<lambda>_. [1, 2]), sem_value = (\<lambda>_. 0)\<rparr> = Some s' \<and>
     queues s' 4 = [] \<and> awake 2 WT_KBD s'"
proof -
  obtain sc where sc: "sched_reachable sc" "runnable_set sc = {7}" using demo_sched_woken by blast
  let ?s = "\<lparr>sch = sc, waits = (\<lambda>w. \<lparr>wproc = Some 7, wakeup_flags = 0,
       wqueue = 4, wlinked = True\<rparr>), queues = (\<lambda>_. [1, 2]), sem_value = (\<lambda>_. 0)\<rparr>"
  have "7 \<in> runnable_set sc" using sc(2) by simp
  then have "pstate (proc_of sc 7) = PROC_RUNNABLE" by (simp add: runnable_set_def)
  then have "wakeable_queue 4 ?s"
    using sched_reachable_ok [OF sc(1)] by (simp add: wakeable_queue_def)
  from wakeup_queue_all [OF this, of WT_KBD] show ?thesis by auto
qed

end
