(* ===== verification/String_Lib.thy ===== *)
theory String_Lib
  imports Prelude
begin

text \<open>
  The string and memory routines of \<^verbatim>\<open>kern/libs/string.c\<close> (the user library has the same
  text), on a memory of bytes.  Addresses are natural numbers; a caller that stays inside the
  32-bit address space never wraps.  A scan with no bound that never meets a NUL does not return,
  \<open>None\<close>.  The block from \<^verbatim>\<open>strtol\<close> on that is disabled by \<^verbatim>\<open>#if 0\<close> is not modelled.
\<close>

type_synonym mem = "nat \<Rightarrow> u8"

section \<open>The routines\<close>

partial_function (option) strlen_loop :: "mem \<Rightarrow> nat \<Rightarrow> nat \<Rightarrow> nat option" where
  "strlen_loop m s cnt = (if m s \<noteq> 0 then strlen_loop m (s + 1) (cnt + 1) else Some cnt)"

definition strlen :: "mem \<Rightarrow> nat \<Rightarrow> nat option" where
  "strlen m s = strlen_loop m s 0"

function strnlen_loop :: "mem \<Rightarrow> nat \<Rightarrow> nat \<Rightarrow> nat \<Rightarrow> nat" where
  "strnlen_loop m s len cnt =
     (if cnt < len \<and> m s \<noteq> 0 then strnlen_loop m (s + 1) len (cnt + 1) else cnt)"
  by auto
termination by (relation "measure (\<lambda>(m, s, len, cnt). len - cnt)") auto

declare strnlen_loop.simps [simp del]

definition strnlen :: "mem \<Rightarrow> nat \<Rightarrow> nat \<Rightarrow> nat" where
  "strnlen m s len = strnlen_loop m s len 0"

partial_function (option) strcpy_loop :: "mem \<Rightarrow> nat \<Rightarrow> nat \<Rightarrow> mem option" where
  "strcpy_loop m p src =
     (let c = m src; m = m(p := c) in if c \<noteq> 0 then strcpy_loop m (p + 1) (src + 1) else Some m)"

definition strcpy :: "mem \<Rightarrow> nat \<Rightarrow> nat \<Rightarrow> (nat \<times> mem) option" where
  "strcpy m dst src = map_option (\<lambda>m. (dst, m)) (strcpy_loop m dst src)"

fun strncpy_loop :: "mem \<Rightarrow> nat \<Rightarrow> nat \<Rightarrow> nat \<Rightarrow> mem" where
  "strncpy_loop m p src 0 = m"
| "strncpy_loop m p src (Suc len) =
     (let c = m src in strncpy_loop (m(p := c)) (p + 1) (if c \<noteq> 0 then src + 1 else src) len)"

definition strncpy :: "mem \<Rightarrow> nat \<Rightarrow> nat \<Rightarrow> nat \<Rightarrow> nat \<times> mem" where
  "strncpy m dst src len = (dst, strncpy_loop m dst src len)"

definition byte_diff :: "u8 \<Rightarrow> u8 \<Rightarrow> int" where
  "byte_diff a b = uint a - uint b"

partial_function (option) strcmp :: "mem \<Rightarrow> nat \<Rightarrow> nat \<Rightarrow> int option" where
  "strcmp m s1 s2 =
     (if m s1 \<noteq> 0 \<and> m s1 = m s2 then strcmp m (s1 + 1) (s2 + 1)
      else Some (byte_diff (m s1) (m s2)))"

fun strncmp :: "mem \<Rightarrow> nat \<Rightarrow> nat \<Rightarrow> nat \<Rightarrow> int" where
  "strncmp m s1 s2 0 = 0"
| "strncmp m s1 s2 (Suc n) =
     (if m s1 \<noteq> 0 \<and> m s1 = m s2 then strncmp m (s1 + 1) (s2 + 1) n
      else byte_diff (m s1) (m s2))"

partial_function (option) strchr :: "mem \<Rightarrow> nat \<Rightarrow> u8 \<Rightarrow> nat option option" where
  "strchr m s c =
     (if m s \<noteq> 0 then (if m s = c then Some (Some s) else strchr m (s + 1) c) else Some None)"

partial_function (option) strfind :: "mem \<Rightarrow> nat \<Rightarrow> u8 \<Rightarrow> nat option" where
  "strfind m s c =
     (if m s \<noteq> 0 then (if m s = c then Some s else strfind m (s + 1) c) else Some s)"

fun memset :: "mem \<Rightarrow> nat \<Rightarrow> u8 \<Rightarrow> nat \<Rightarrow> mem" where
  "memset m p c 0 = m"
| "memset m p c (Suc n) = memset (m(p := c)) (p + 1) c n"

fun memcpy :: "mem \<Rightarrow> nat \<Rightarrow> nat \<Rightarrow> nat \<Rightarrow> mem" where
  "memcpy m d s 0 = m"
| "memcpy m d s (Suc n) = memcpy (m(d := m s)) (d + 1) (s + 1) n"

fun memcpy_down :: "mem \<Rightarrow> nat \<Rightarrow> nat \<Rightarrow> nat \<Rightarrow> mem" where
  "memcpy_down m d s 0 = m"
| "memcpy_down m d s (Suc n) = memcpy_down (m(d - 1 := m (s - 1))) (d - 1) (s - 1) n"

definition memmove :: "mem \<Rightarrow> nat \<Rightarrow> nat \<Rightarrow> nat \<Rightarrow> mem" where
  "memmove m d s n =
     (if s < d \<and> s + n > d then memcpy_down m (d + n) (s + n) n else memcpy m d s n)"

fun memcmp :: "mem \<Rightarrow> nat \<Rightarrow> nat \<Rightarrow> nat \<Rightarrow> int" where
  "memcmp m s1 s2 0 = 0"
| "memcmp m s1 s2 (Suc n) =
     (if m s1 \<noteq> m s2 then byte_diff (m s1) (m s2) else memcmp m (s1 + 1) (s2 + 1) n)"

text \<open>\<^verbatim>\<open>strdup\<close> and \<^verbatim>\<open>stradd\<close>, with the result of their call of \<^verbatim>\<open>kmalloc\<close> as an argument.\<close>

definition strdup :: "(nat \<Rightarrow> nat option) \<Rightarrow> mem \<Rightarrow> nat \<Rightarrow> (nat option \<times> mem) option" where
  "strdup kmalloc m src = do {
     len \<leftarrow> strlen m src;
     Some (case kmalloc (len + 1) of
         None \<Rightarrow> (None, m)
       | Some dst \<Rightarrow> (Some dst, (memcpy m dst src len)(dst + len := 0)))
   }"

definition stradd :: "(nat \<Rightarrow> nat option) \<Rightarrow> mem \<Rightarrow> nat \<Rightarrow> nat \<Rightarrow> (nat option \<times> mem) option" where
  "stradd kmalloc m src1 src2 = do {
     len1 \<leftarrow> strlen m src1;
     len2 \<leftarrow> strlen m src2;
     Some (case kmalloc (len1 + len2 + 1) of
         None \<Rightarrow> (None, m)
       | Some ret \<Rightarrow>
           let m = memcpy m ret src1 len1; m = memcpy m (ret + len1) src2 len2
           in (Some ret, m(ret + len1 + len2 := 0)))
   }"

section \<open>C strings\<close>

fun cstr :: "mem \<Rightarrow> nat \<Rightarrow> u8 list \<Rightarrow> bool" where
  "cstr m s [] = (m s = 0)"
| "cstr m s (c # cs) = (m s = c \<and> c \<noteq> 0 \<and> cstr m (s + 1) cs)"

definition bytes :: "mem \<Rightarrow> nat \<Rightarrow> nat \<Rightarrow> u8 list" where
  "bytes m s n = map (\<lambda>i. m (s + i)) [0..<n]"

lemma bytes_simps [simp]:
  "bytes m s 0 = []" "length (bytes m s n) = n"
  by (simp_all add: bytes_def)

lemma bytes_Suc: "bytes m s (Suc n) = m s # bytes m (s + 1) n"
  by (simp add: bytes_def map_upt_Suc del: upt_Suc)

lemma nth_bytes [simp]: "i < n \<Longrightarrow> bytes m s n ! i = m (s + i)"
  by (simp add: bytes_def)

lemma bytes_cong: "(\<And>i. i < n \<Longrightarrow> m (s + i) = m' (s' + i)) \<Longrightarrow> bytes m s n = bytes m' s' n"
  by (simp add: bytes_def)

lemma cstr_bytes: "cstr m s cs \<longleftrightarrow> bytes m s (length cs) = cs \<and> m (s + length cs) = 0 \<and> 0 \<notin> set cs"
  by (induction cs arbitrary: s) (auto simp: bytes_Suc)

lemma cstr_cong: "cstr m s cs \<Longrightarrow> (\<And>i. i \<le> length cs \<Longrightarrow> m' (s' + i) = m (s + i)) \<Longrightarrow> cstr m' s' cs"
  by (auto simp: cstr_bytes intro: bytes_cong) (metis bytes_cong less_imp_le)

lemma strlen_loop_cstr: "cstr m s cs \<Longrightarrow> strlen_loop m s k = Some (k + length cs)"
  by (induction cs arbitrary: s k) (simp_all add: strlen_loop.simps)

lemma strlen_cstr: "cstr m s cs \<Longrightarrow> strlen m s = Some (length cs)"
  by (simp add: strlen_def strlen_loop_cstr)

lemma strnlen_loop_cstr: "cstr m s cs \<Longrightarrow> k \<le> len \<Longrightarrow> strnlen_loop m s len k = min len (k + length cs)"
  by (induction cs arbitrary: s k) (subst strnlen_loop.simps, simp add: min_def)+

lemma strnlen_cstr: "cstr m s cs \<Longrightarrow> strnlen m s len = min len (length cs)"
  by (simp add: strnlen_def strnlen_loop_cstr)

lemma memset_at: "memset m p c n x = (if p \<le> x \<and> x < p + n then c else m x)"
  by (induction n arbitrary: m p) auto

lemma memcpy_at:
  "d \<le> s \<or> s + n \<le> d \<Longrightarrow> memcpy m d s n x = (if d \<le> x \<and> x < d + n then m (s + (x - d)) else m x)"
proof (induction n arbitrary: m d s)
  case (Suc n)
  then have "d + 1 \<le> s + 1 \<or> (s + 1) + n \<le> d + 1" by auto
  then show ?case unfolding memcpy.simps Suc.IH [OF \<open>d + 1 \<le> s + 1 \<or> (s + 1) + n \<le> d + 1\<close>]
    using Suc.prems by (auto simp: Suc_diff_Suc)
qed auto

lemma memcpy_down_at:
  "s \<le> d \<Longrightarrow> n \<le> s \<Longrightarrow> memcpy_down m d s n x = (if d - n \<le> x \<and> x < d then m (s - (d - x)) else m x)"
proof (induction n arbitrary: m d s)
  case (Suc n)
  have "s - 1 \<le> d - 1" "n \<le> s - 1" using Suc.prems by auto
  then show ?case unfolding memcpy_down.simps Suc.IH [OF \<open>s - 1 \<le> d - 1\<close> \<open>n \<le> s - 1\<close>]
    using Suc.prems by auto
qed auto

lemma memmove_at: "memmove m d s n x = (if d \<le> x \<and> x < d + n then m (s + (x - d)) else m x)"
proof (cases "s < d \<and> s + n > d")
  case True
  then show ?thesis using memcpy_down_at [of "s + n" "d + n" n m x] by (auto simp: memmove_def)
next
  case False
  then show ?thesis using memcpy_at [of d s n m x] by (auto simp: memmove_def)
qed

lemma bytes_memmove: "bytes (memmove m d s n) d n = bytes m s n"
  by (rule bytes_cong) (simp add: memmove_at)

lemma bytes_memcpy: "d \<le> s \<or> s + n \<le> d \<Longrightarrow> bytes (memcpy m d s n) d n = bytes m s n"
  by (rule bytes_cong) (simp add: memcpy_at)

lemma strcpy_loop_cstr:
  assumes "cstr m src cs" "p + length cs < src \<or> src + length cs < p"
  shows "\<exists>m'. strcpy_loop m p src = Some m' \<and> cstr m' p cs \<and>
    (\<forall>x. x < p \<or> p + length cs < x \<longrightarrow> m' x = m x)"
  using assms
proof (induction cs arbitrary: m p src)
  case Nil
  then show ?case by (simp add: strcpy_loop.simps)
next
  case (Cons c cs)
  let ?m = "m(p := c)"
  have m: "m src = c" "c \<noteq> 0" "cstr m (src + 1) cs" using Cons.prems(1) by auto
  have c': "cstr ?m (src + 1) cs" using m(3) by (rule cstr_cong) (use Cons.prems(2) in auto)
  have "(p + 1) + length cs < src + 1 \<or> (src + 1) + length cs < p + 1" using Cons.prems(2) by auto
  from Cons.IH [OF c' this] obtain m' where m': "strcpy_loop ?m (p + 1) (src + 1) = Some m'" "cstr m' (p + 1) cs"
    "\<forall>x. x < p + 1 \<or> (p + 1) + length cs < x \<longrightarrow> m' x = ?m x"
    by blast
  have "strcpy_loop m p src = Some m'" using m m'(1) by (subst strcpy_loop.simps) (simp add: Let_def)
  moreover have "m' p = c" using m'(3) by simp
  ultimately show ?case using m'(2,3) m(2) by auto
qed

lemma strncpy_loop_at:
  assumes "cstr m src cs" "p + n \<le> src \<or> src + length cs < p"
  shows "strncpy_loop m p src n x =
    (if p \<le> x \<and> x < p + n then (if x - p < length cs then cs ! (x - p) else 0) else m x)"
  using assms
proof (induction n arbitrary: m p src cs)
  case 0
  then show ?case by auto
next
  case (Suc n)
  show ?case
  proof (cases cs)
    case Nil
    then have z: "m src = 0" using Suc.prems(1) by simp
    have c': "cstr (m(p := 0)) src []" using Suc.prems Nil by auto
    have "(p + 1) + n \<le> src \<or> src + length [] < p + 1" using Suc.prems(2) Nil by auto
    note IH = Suc.IH [OF c' this]
    have "strncpy_loop m p src (Suc n) x = strncpy_loop (m(p := 0)) (p + 1) src n x"
      using z by (simp only: strncpy_loop.simps Let_def) simp
    then show ?thesis unfolding IH using Nil by auto
  next
    case (Cons c cs')
    have m: "m src = c" "c \<noteq> 0" "cstr m (src + 1) cs'" using Suc.prems(1) Cons by auto
    have c': "cstr (m(p := c)) (src + 1) cs'"
      using m(3) by (rule cstr_cong) (use Suc.prems(2) Cons in auto)
    have "(p + 1) + n \<le> src + 1 \<or> (src + 1) + length cs' < p + 1" using Suc.prems(2) Cons by auto
    note IH = Suc.IH [OF c' this]
    have "strncpy_loop m p src (Suc n) x = strncpy_loop (m(p := c)) (p + 1) (src + 1) n x"
      using m by (simp only: strncpy_loop.simps Let_def) simp
    then show ?thesis unfolding IH using Cons by (auto simp: nth_Cons' Suc_diff_Suc)
  qed
qed

lemma byte_diff_sign:
  "byte_diff a b = 0 \<longleftrightarrow> a = b" "byte_diff a b < 0 \<longleftrightarrow> a < b" "0 < byte_diff a b \<longleftrightarrow> b < a"
  by (auto simp: byte_diff_def word_less_def word_uint_eq_iff)

lemma strcmp_cstr:
  "cstr m a xs \<Longrightarrow> cstr m b ys \<Longrightarrow>
   \<exists>r. strcmp m a b = Some r \<and> (r = 0 \<longleftrightarrow> xs = ys) \<and> (r < 0 \<longleftrightarrow> ord_class.lexordp xs ys)"
proof (induction xs arbitrary: a b ys)
  case Nil
  then show ?case
    by (cases ys) (auto simp: strcmp.simps [of m a b] byte_diff_sign word_neq_0_conv)
next
  case (Cons x xs)
  show ?case
  proof (cases ys)
    case Nil
    then show ?thesis using Cons.prems
      by (auto simp: strcmp.simps [of m a b] byte_diff_sign)
  next
    case (Cons y ys')
    show ?thesis
    proof (cases "x = y")
      case True
      then show ?thesis using Cons.IH [of "a + 1" "b + 1" ys'] Cons.prems \<open>ys = y # ys'\<close>
        by (auto simp: strcmp.simps [of m a b])
    next
      case False
      then show ?thesis using Cons.prems \<open>ys = y # ys'\<close>
        by (auto simp: strcmp.simps [of m a b] byte_diff_sign)
    qed
  qed
qed

section \<open>Properties of the memory and string routines\<close>

text \<open>
   \<^verbatim>\<open>memmove\<close> is right for every overlap of source and destination: afterwards the
  destination holds what the source held before, and no byte outside the destination has changed.
\<close>

theorem memmove_exact:
  "bytes (memmove m d s n) d n = bytes m s n \<and>
   (\<forall>x. memmove m d s n x = (if d \<le> x \<and> x < d + n then m (s + (x - d)) else m x))"
  by (simp add: bytes_memmove memmove_at)

text \<open>
   \<^verbatim>\<open>strcpy\<close> of a C string into a place that does not overlap it terminates, leaves the same
  C string there, and writes nothing but its bytes and the terminating NUL; \<^verbatim>\<open>strncpy\<close> writes
  exactly \<open>n\<close> bytes, the string cut off or padded with NULs.
\<close>

theorem strcpy_exact:
  assumes "cstr m src cs" "dst + max n (length cs) < src \<or> src + length cs < dst"
  shows "\<exists>m'. strcpy m dst src = Some (dst, m') \<and> cstr m' dst cs \<and>
      (\<forall>x. x < dst \<or> dst + length cs < x \<longrightarrow> m' x = m x) \<and>
    bytes (snd (strncpy m dst src n)) dst n = take n cs @ replicate (n - length cs) 0 \<and>
      (\<forall>x. x < dst \<or> dst + n \<le> x \<longrightarrow> snd (strncpy m dst src n) x = m x)"
proof -
  have "dst + length cs < src \<or> src + length cs < dst" "dst + n \<le> src \<or> src + length cs < dst"
    using assms(2) by auto
  note a = strcpy_loop_cstr [OF assms(1) this(1)] strncpy_loop_at [OF assms(1) this(2)]
  have "bytes (strncpy_loop m dst src n) dst n = take n cs @ replicate (n - length cs) 0"
    by (rule nth_equalityI) (auto simp: a(2) nth_append min_def)
  then show ?thesis using a by (auto simp: strcpy_def strncpy_def)
qed

definition demo_mem :: mem where
  "demo_mem x = (if x = 100 then 104 else if x = 101 then 105 else if x = 200 then 104 else 0)"

theorem strcpy_exact_witness:
  "\<exists>m'. strcpy demo_mem 300 100 = Some (300, m') \<and> cstr m' 300 [104, 105] \<and>
     bytes (snd (strncpy demo_mem 300 100 4)) 300 4 = [104, 105, 0, 0]"
proof -
  have "replicate 2 (0 :: u8) = [0, 0]" by (simp add: numeral_2_eq_2)
  then show ?thesis
    using strcpy_exact [of demo_mem 100 "[104, 105]" 300 4] by (auto simp: demo_mem_def)
qed

text \<open>
   \<^verbatim>\<open>strcmp\<close> of two C strings terminates, and the sign of its result is their lexicographic
  order as unsigned bytes; it is 0 only for equal strings.
\<close>

theorem strcmp_order:
  assumes "cstr m a xs" "cstr m b ys"
  shows "\<exists>r. strcmp m a b = Some r \<and> (r = 0 \<longleftrightarrow> xs = ys) \<and> (r < 0 \<longleftrightarrow> ord_class.lexordp xs ys)"
  by (rule strcmp_cstr [OF assms])

theorem strcmp_order_witness:
  "\<exists>r. strcmp demo_mem 200 100 = Some r \<and> r < 0"
  using strcmp_order [of demo_mem 200 "[104]" 100 "[104, 105]"] by (auto simp: demo_mem_def)

end
