(* ===== verification/Printfmt.thy ===== *)
theory Printfmt
  imports Machine_Arith String_Lib
begin

text \<open>
  Formatted output, \<^verbatim>\<open>kern/libs/printfmt.c\<close>.  What a formatting routine does is the sequence of
  arguments it passes to \<^verbatim>\<open>putch\<close>; a \<^verbatim>\<open>va_list\<close> is the list of values still to be read, and
  reading a value of another size than the caller passed is undefined, \<open>None\<close>.  A format and a
  string argument are lists of characters without the terminating NUL; plain \<^verbatim>\<open>char\<close> is signed
  on the target.
\<close>

datatype va_arg = Word u32 | DWord "64 word" | Str "string option"

definition uchar :: "char \<Rightarrow> int" where
  "uchar c = int (of_char c)"

definition schar :: "char \<Rightarrow> int" where
  "schar c = (if uchar c < 128 then uchar c else uchar c - 256)"

definition putstr :: "string \<Rightarrow> int list" where
  "putstr = map uchar"

definition MAXERROR :: int where "MAXERROR = 24"

definition error_string :: "int \<Rightarrow> string option" where
  "error_string e =
     (if e = 1 then Some ''unspecified error''
      else if e = 2 then Some ''bad process''
      else if e = 3 then Some ''invalid parameter''
      else if e = 4 then Some ''out of memory''
      else if e = 5 then Some ''out of processes''
      else if e = 6 then Some ''segmentation fault''
      else if e = 8 then Some ''invalid elf file''
      else if e = 9 then Some ''process is killed''
      else if e = 10 then Some ''panic failure''
      else if e = 13 then Some ''no such device''
      else if e = 14 then Some ''device not available''
      else if e = 15 then Some ''device/file is busy''
      else if e = 16 then Some ''no such file or directory''
      else if e = 17 then Some ''is a directory''
      else if e = 18 then Some ''not a directory''
      else if e = 19 then Some ''cross device link''
      else if e = 20 then Some ''unimplemented feature''
      else if e = 21 then Some ''illegal seek''
      else if e = 22 then Some ''too many files are open''
      else if e = 23 then Some ''file or directory already exists''
      else if e = 24 then Some ''directory is not empty''
      else None)"

section \<open>Reading arguments and printing a number\<close>

fun getuint :: "va_arg list \<Rightarrow> int \<Rightarrow> (64 word \<times> va_arg list) option" where
  "getuint (DWord w # ap) lflag = (if lflag \<ge> 2 then Some (w, ap) else None)"
| "getuint (Word w # ap) lflag = (if lflag \<ge> 2 then None else Some (ucast w, ap))"
| "getuint ap lflag = None"

fun getint :: "va_arg list \<Rightarrow> int \<Rightarrow> (64 word \<times> va_arg list) option" where
  "getint (DWord w # ap) lflag = (if lflag \<ge> 2 then Some (w, ap) else None)"
| "getint (Word w # ap) lflag = (if lflag \<ge> 2 then None else Some (scast w, ap))"
| "getint ap lflag = None"

definition hexdigit :: "u32 \<Rightarrow> int" where
  "hexdigit d = uchar (''0123456789abcdef'' ! unat d)"

definition numstep :: "u32 \<Rightarrow> u32 \<Rightarrow> u32 \<times> u32" where
  "numstep num base =
     (if base = 10 then (num - mulu10 (divu10 num), divu10 num)
      else if base = 8 then (num AND 7, drop_bit 3 num)
      else (num AND 0xF, drop_bit 4 num))"

partial_function (option) printnum :: "u32 \<Rightarrow> u32 \<Rightarrow> int \<Rightarrow> int \<Rightarrow> int list option" where
  "printnum num base width padc =
     (let (m, result) = numstep num base in
      if num \<ge> base then
        Option.bind (printnum result base (width - 1) padc) (\<lambda>out. Some (out @ [hexdigit m]))
      else Some (replicate (nat (width - 1)) padc @ [hexdigit m]))"

section \<open>Conversion specifications\<close>

record spec =
  padc :: int
  width :: int
  precision :: int
  lflag :: int
  altflag :: bool

definition spec0 :: spec where
  "spec0 = \<lparr>padc = uchar CHR '' '', width = -1, precision = -1, lflag = 0, altflag = False\<rparr>"

definition is_digit :: "char \<Rightarrow> bool" where
  "is_digit c \<longleftrightarrow> uchar CHR ''0'' \<le> schar c \<and> schar c \<le> uchar CHR ''9''"

fun num_field :: "int \<Rightarrow> char \<Rightarrow> string \<Rightarrow> int \<times> string" where
  "num_field p ch [] = (p * 10 + uchar ch - uchar CHR ''0'', [])"
| "num_field p ch (c # fs) =
     (let p = p * 10 + uchar ch - uchar CHR ''0''
      in if is_digit c then num_field p c fs else (p, c # fs))"

definition process_precision :: "spec \<Rightarrow> spec" where
  "process_precision f =
     (if width f < 0 then f\<lparr>width := precision f, precision := -1\<rparr> else f)"

fun str_body :: "bool \<Rightarrow> string \<Rightarrow> int \<Rightarrow> int list" where
  "str_body alt [] prec = []"
| "str_body alt (c # p) prec =
     (if prec < 0 \<or> prec - 1 \<ge> 0 then
        (if alt \<and> (schar c < uchar CHR '' '' \<or> schar c > uchar CHR ''~'') then uchar CHR ''?''
         else schar c) # str_body alt p (if prec < 0 then prec else prec - 1)
      else [])"

definition printstr :: "spec \<Rightarrow> string option \<Rightarrow> int list" where
  "printstr f p =
     (let p = (case p of None \<Rightarrow> ''(null)'' | Some p \<Rightarrow> p);
          len = (if precision f < 0 then int (length p) else min (precision f) (int (length p)));
          lead = (if width f > 0 \<and> padc f \<noteq> uchar CHR ''-'' then width f - len else width f);
          pads = (if width f > 0 \<and> padc f \<noteq> uchar CHR ''-'' then replicate (nat lead) (padc f) else []);
          w = (if width f > 0 \<and> padc f \<noteq> uchar CHR ''-'' then min lead 0 else lead);
          body = str_body (altflag f) p (precision f)
      in pads @ body @ replicate (nat (w - int (length body))) (uchar CHR '' ''))"

definition print_signed :: "spec \<Rightarrow> 64 word \<Rightarrow> int list option" where
  "print_signed f num =
     (if sint num < 0
      then map_option ((#) (uchar CHR ''-'')) (printnum (ucast (- num)) 10 (width f) (padc f))
      else printnum (ucast num) 10 (width f) (padc f))"

definition print_error :: "u32 \<Rightarrow> int list option" where
  "print_error v =
     (let err = (if sint v < 0 then - v else v); e = sint err
      in if e > MAXERROR \<or> (0 \<le> e \<and> error_string e = None)
         then map_option ((@) (putstr ''error '')) (print_signed spec0 (scast err))
         else if e < 0 then None
         else Some (printstr spec0 (error_string e)))"

text \<open>
  The \<^verbatim>\<open>reswitch\<close> loop: flags and fields are read one after the other until a conversion is
  reached.  \<open>Literal\<close> is the default case, which prints the percent sign and goes back to the
  character after it (arguments read by a star field stay read).
\<close>

datatype conversion = Literal "va_arg list" | Conv "int list" string "va_arg list"

definition conv_with :: "string \<Rightarrow> va_arg list \<Rightarrow> int list option \<Rightarrow> conversion option" where
  "conv_with fs ap out = map_option (\<lambda>out. Conv out fs ap) out"

lemma num_field_length: "length (snd (num_field p ch fs)) \<le> length fs"
  by (induction p ch fs rule: num_field.induct) (auto simp: Let_def le_SucI)

function directive :: "spec \<Rightarrow> string \<Rightarrow> va_arg list \<Rightarrow> conversion option" where
  "directive f [] ap = Some (Literal ap)"
| "directive f (c # fs) ap =
     (if c = CHR ''-'' then directive (f\<lparr>padc := uchar CHR ''-''\<rparr>) fs ap
      else if c = CHR ''0'' then directive (f\<lparr>padc := uchar CHR ''0''\<rparr>) fs ap
      else if c \<noteq> CHR ''0'' \<and> is_digit c then
        (let (p, fs') = num_field 0 c fs
         in directive (process_precision (f\<lparr>precision := p\<rparr>)) fs' ap)
      else if c = CHR ''*'' then
        (case ap of Word w # ap' \<Rightarrow> directive (process_precision (f\<lparr>precision := sint w\<rparr>)) fs ap'
         | _ \<Rightarrow> None)
      else if c = CHR ''.'' then directive (if width f < 0 then f\<lparr>width := 0\<rparr> else f) fs ap
      else if c = CHR ''#'' then directive (f\<lparr>altflag := True\<rparr>) fs ap
      else if c = CHR ''l'' then directive (f\<lparr>lflag := lflag f + 1\<rparr>) fs ap
      else if c = CHR ''c'' then
        (case ap of Word w # ap' \<Rightarrow> Some (Conv [sint w] fs ap') | _ \<Rightarrow> None)
      else if c = CHR ''e'' then
        (case ap of Word w # ap' \<Rightarrow> conv_with fs ap' (print_error w) | _ \<Rightarrow> None)
      else if c = CHR ''s'' then
        (case ap of Str p # ap' \<Rightarrow> Some (Conv (printstr f p) fs ap') | _ \<Rightarrow> None)
      else if c = CHR ''d'' then
        Option.bind (getint ap (lflag f)) (\<lambda>(num, ap'). conv_with fs ap' (print_signed f num))
      else if c = CHR ''p'' then
        (case ap of Word w # ap' \<Rightarrow>
           conv_with fs ap' (map_option ((@) (putstr ''0x'')) (printnum w 16 (width f) (padc f)))
         | _ \<Rightarrow> None)
      else if c = CHR ''x'' then
        Option.bind (getuint ap (lflag f))
          (\<lambda>(num, ap'). conv_with fs ap' (printnum (ucast num) 16 (width f) (padc f)))
      else if c = CHR ''%'' then Some (Conv [uchar CHR ''%''] fs ap)
      else Some (Literal ap))"
  by pat_completeness auto

termination
  by (relation "measure (\<lambda>(f, fs, ap). length fs)")
    (auto simp: less_Suc_eq_le dest!: arg_cong [of _ _ "length \<circ> snd"] intro: le_trans [OF _ num_field_length])

lemma directive_length:
  "directive f fs ap = Some (Conv out fs' ap') \<Longrightarrow> length fs' \<le> length fs"
proof (induction "length fs" arbitrary: f fs ap rule: less_induct)
  case less
  show ?case
  proof (cases fs)
    case Nil
    then show ?thesis using less.prems by simp
  next
    case (Cons c fs1)
    have IH: "length fs' \<le> length fs"
      if "directive g fs2 bp = Some (Conv out fs' ap')" "length fs2 \<le> length fs1" for g fs2 bp
      using less.hyps [of fs2 g bp] that Cons by simp
    have nf: "length fs2 \<le> length fs1" if "num_field 0 c fs1 = (p, fs2)" for p fs2
      using num_field_length [of 0 c fs1] that by simp
    have fin: "length fs' \<le> length fs" if "conv_with fs1 bp r = Some (Conv out fs' ap')" for bp r
      using that Cons by (auto simp: conv_with_def)
    show ?thesis
      using less.prems unfolding Cons directive.simps Let_def
      by (auto simp: bind_eq_Some_conv Cons split: if_splits list.splits va_arg.splits prod.splits
          dest: fin IH [simplified Cons] nf intro: IH [simplified Cons])
  qed
qed

function vprintfmt :: "string \<Rightarrow> va_arg list \<Rightarrow> int list option" where
  "vprintfmt [] ap = Some []"
| "vprintfmt (c # fs) ap =
     (if c \<noteq> CHR ''%'' then map_option ((#) (uchar c)) (vprintfmt fs ap)
      else (case directive spec0 fs ap of
          None \<Rightarrow> None
        | Some (Literal ap') \<Rightarrow> map_option ((#) (uchar CHR ''%'')) (vprintfmt fs ap')
        | Some (Conv out fs' ap') \<Rightarrow> map_option ((@) out) (vprintfmt fs' ap')))"
  by pat_completeness auto
termination
  by (relation "measure (\<lambda>(fs, ap). length fs)") (auto dest: directive_length)

text \<open>\<^verbatim>\<open>printfmt\<close> is \<^verbatim>\<open>vprintfmt\<close> on the arguments after the format.\<close>

definition printfmt :: "string \<Rightarrow> va_arg list \<Rightarrow> int list option" where
  "printfmt fmt args = vprintfmt fmt args"

section \<open>Printing into a buffer\<close>

record sprintbuf =
  buf :: nat
  ebuf :: nat
  cnt :: int

definition sprintputch :: "int \<Rightarrow> sprintbuf \<times> mem \<Rightarrow> sprintbuf \<times> mem" where
  "sprintputch ch = (\<lambda>(b, m).
     (let b = b\<lparr>cnt := cnt b + 1\<rparr>
      in if buf b < ebuf b then (b\<lparr>buf := buf b + 1\<rparr>, m(buf b := word_of_int ch)) else (b, m)))"

text \<open>
  Addresses are natural numbers, so the buffer ends where it ends: a buffer said to run past the end of the
  32-bit address space, for which \<^verbatim>\<open>str + size - 1\<close> wraps in C and \<^verbatim>\<open>-E_INVAL\<close> is the answer, is not modelled.
\<close>

definition vsnprintf :: "mem \<Rightarrow> nat \<Rightarrow> nat \<Rightarrow> string \<Rightarrow> va_arg list \<Rightarrow> (int \<times> mem) option" where
  "vsnprintf m str sz fmt ap =
     (if str = 0 \<or> sz = 0 then Some (fail_code E_INVAL, m)
      else do {
        out \<leftarrow> vprintfmt fmt ap;
        let (b, m) = fold sprintputch out (\<lparr>buf = str, ebuf = str + sz - 1, cnt = 0\<rparr>, m);
        Some (cnt b, m(buf b := 0))
      })"

definition snprintf :: "mem \<Rightarrow> nat \<Rightarrow> nat \<Rightarrow> string \<Rightarrow> va_arg list \<Rightarrow> (int \<times> mem) option" where
  "snprintf m str sz fmt args = vsnprintf m str sz fmt args"

lemma sprintputch_step:
  "sprintputch c (\<lparr>buf = p, ebuf = e, cnt = k\<rparr>, m) =
     (if p < e then (\<lparr>buf = p + 1, ebuf = e, cnt = k + 1\<rparr>, m(p := word_of_int c))
      else (\<lparr>buf = p, ebuf = e, cnt = k + 1\<rparr>, m))"
  by (simp add: sprintputch_def Let_def)

lemma sprintputch_fold:
  assumes "p \<le> e"
  shows "\<exists>m'. fold sprintputch out (\<lparr>buf = p, ebuf = e, cnt = k\<rparr>, m) =
      (\<lparr>buf = min e (p + length out), ebuf = e, cnt = k + int (length out)\<rparr>, m') \<and>
    (\<forall>x. m' x = (if p \<le> x \<and> x < min e (p + length out) then word_of_int (out ! (x - p)) else m x))"
  using assms
proof (induction out arbitrary: p k m)
  case Nil
  then show ?case by auto
next
  case (Cons c out)
  show ?case
  proof (cases "p < e")
    case True
    let ?m = "m(p := word_of_int c)"
    have "p + 1 \<le> e" using True by simp
    from Cons.IH [OF this, of "k + 1" ?m]
    obtain m' where "fold sprintputch out (\<lparr>buf = p + 1, ebuf = e, cnt = k + 1\<rparr>, ?m) =
        (\<lparr>buf = min e (p + 1 + length out), ebuf = e, cnt = k + 1 + int (length out)\<rparr>, m')"
      "\<forall>x. m' x = (if p + 1 \<le> x \<and> x < min e (p + 1 + length out) then word_of_int (out ! (x - (p + 1))) else ?m x)"
      by blast
    then show ?thesis using True by (auto simp: sprintputch_step nth_Cons' add.assoc)
  next
    case False
    then have "p = e" using Cons.prems by simp
    then show ?thesis using Cons.IH [of p "k + 1" m] by (auto simp: sprintputch_step add.assoc)
  qed
qed

section \<open>Numerals\<close>

fun numeral_of :: "nat \<Rightarrow> nat \<Rightarrow> nat list" where
  "numeral_of b n = (if b < 2 \<or> n < b then [n] else numeral_of b (n div b) @ [n mod b])"

declare numeral_of.simps [simp del]

fun value_of :: "nat \<Rightarrow> nat list \<Rightarrow> nat" where
  "value_of b ds = foldl (\<lambda>v d. v * b + d) 0 ds"

lemma value_numeral: "2 \<le> b \<Longrightarrow> value_of b (numeral_of b n) = n"
proof (induction b n rule: numeral_of.induct)
  case (1 b n)
  then show ?case by (cases "n < b") (auto simp: numeral_of.simps [of b n])
qed

lemma numeral_digits: "2 \<le> b \<Longrightarrow> d \<in> set (numeral_of b n) \<Longrightarrow> d < b"
proof (induction b n rule: numeral_of.induct)
  case (1 b n)
  then show ?case by (cases "n < b") (auto simp: numeral_of.simps [of b n])
qed

definition digit_char :: "nat \<Rightarrow> int" where
  "digit_char d = uchar (''0123456789abcdef'' ! d)"

lemma numstep_exact:
  assumes "base \<in> {8, 10, 16}"
  shows "unat (fst (numstep num base)) = unat num mod unat base"
    "unat (snd (numstep num base)) = unat num div unat base"
proof -
  have "num AND 7 = take_bit 3 num" "num AND 0xF = take_bit 4 num"
    by (simp_all only: take_bit_eq_mask mask_eq_exp_minus_1) simp_all
  then have "num AND 7 = num mod 8" "num AND 0xF = num mod 16"
    by (simp_all add: take_bit_eq_mod)
  then have m: "unat (num AND 7) = unat num mod 8" "unat (num AND 0xF) = unat num mod 16"
    by (simp_all add: unat_mod)
  have "num - num div 10 * 10 = num mod 10" by (rule minus_div_mult_eq_mod)
  then have d: "num - mulu10 (divu10 num) = num mod 10" by (simp add: divu10_eq_div mulu10_eq)
  show "unat (fst (numstep num base)) = unat num mod unat base"
    using assms m d by (auto simp: numstep_def unat_mod)
  show "unat (snd (numstep num base)) = unat num div unat base"
    using assms by (auto simp: numstep_def unat_div divu10_eq_div unat_shiftr)
qed

lemma printnum_exact:
  assumes "base \<in> {8, 10, 16}"
  shows "printnum num base w c = Some (replicate (nat (w - int (length (numeral_of (unat base) (unat num))))) c @
    map digit_char (numeral_of (unat base) (unat num)))"
proof (induction "unat num" arbitrary: num w rule: less_induct)
  case less
  obtain r q where rq: "numstep num base = (r, q)" by (cases "numstep num base")
  have r: "unat r = unat num mod unat base" and q: "unat q = unat num div unat base"
    using numstep_exact [OF assms, of num] rq by auto
  have hd: "hexdigit r = digit_char (unat r)" by (simp add: hexdigit_def digit_char_def)
  have b: "2 \<le> unat base" using assms by auto
  show ?case
  proof (cases "num \<ge> base")
    case True
    then have n: "unat base \<le> unat num" by (simp add: word_le_nat_alt)
    have lt: "unat q < unat num" unfolding q using n b by (intro div_less_dividend) auto
    have nu: "numeral_of (unat base) (unat num) = numeral_of (unat base) (unat q) @ [unat r]"
      using n b q r by (subst numeral_of.simps) simp
    show ?thesis
      unfolding nu using True rq less.hyps [OF lt, of "w - 1"] hd
      by (subst printnum.simps) (simp add: Let_def algebra_simps)
  next
    case False
    then have n: "unat num < unat base" by (simp add: word_le_nat_alt)
    then have "numeral_of (unat base) (unat num) = [unat num]" by (subst numeral_of.simps) simp
    moreover have "unat r = unat num" using n r by simp
    ultimately show ?thesis using False rq hd by (subst printnum.simps) (simp add: Let_def)
  qed
qed

section \<open>Properties of formatted output\<close>

text \<open>
   Printing a number is exact.  \<^verbatim>\<open>%d\<close> prints every 32-bit integer, the smallest one
  included, as an optional minus sign and its decimal numeral, \<^verbatim>\<open>%x\<close> as its hexadecimal one; the
  digits are in range and evaluate to the number again.  A 64-bit argument (\<^verbatim>\<open>%llx\<close>) is cut to
  its low 32 bits by the parameter type of \<^verbatim>\<open>printnum\<close>.
\<close>

theorem printf_numbers_exact:
  "vprintfmt ''%d'' [Word w] = Some (if sint w < 0
      then uchar CHR ''-'' # map digit_char (numeral_of 10 (nat (- sint w)))
      else map digit_char (numeral_of 10 (nat (sint w)))) \<and>
   vprintfmt ''%x'' [Word w] = Some (map digit_char (numeral_of 16 (unat w))) \<and>
   vprintfmt ''%llx'' [DWord v] = Some (map digit_char (numeral_of 16 (unat v mod 2 ^ 32))) \<and>
   value_of 10 (numeral_of 10 n) = n \<and> value_of 16 (numeral_of 16 n) = n \<and>
   list_all (\<lambda>d. d < 10) (numeral_of 10 n) \<and> list_all (\<lambda>d. d < 16) (numeral_of 16 n)"
proof (intro conjI)
  have ch: "CHR ''d'' \<noteq> CHR ''0''" "\<not> is_digit CHR ''d''" "\<not> is_digit CHR ''x''" "\<not> is_digit CHR ''l''"
    by (simp_all add: is_digit_def schar_def uchar_def)
  have neg: "unat (- w) = nat (- sint w)" if "sint w < 0" by (metis int_unat_minus_neg [OF that] nat_int)
  have pos: "unat w = nat (sint w)" if "\<not> sint w < 0" by (metis int_unat_sint nat_int linorder_not_less that)
  show "vprintfmt ''%d'' [Word w] = Some (if sint w < 0
      then uchar CHR ''-'' # map digit_char (numeral_of 10 (nat (- sint w)))
      else map digit_char (numeral_of 10 (nat (sint w))))"
    using ch by (simp add: conv_with_def print_signed_def printnum_exact spec0_def sint_scast_u64
        ucast_minus_u64 ucast_scast_u64 neg pos)
  have uu: "ucast (ucast w :: 64 word) = w" by transfer (simp add: take_bit_take_bit)
  show "vprintfmt ''%x'' [Word w] = Some (map digit_char (numeral_of 16 (unat w)))"
    using ch by (simp add: conv_with_def printnum_exact spec0_def uu)
  have "unat (ucast v :: u32) = unat v mod 2 ^ 32"
    by (simp add: unsigned_ucast_eq take_bit_eq_mod)
  then show "vprintfmt ''%llx'' [DWord v] = Some (map digit_char (numeral_of 16 (unat v mod 2 ^ 32)))"
    using ch by (simp add: conv_with_def printnum_exact spec0_def)
qed (simp_all add: value_numeral list_all_iff numeral_digits del: value_of.simps)

text \<open>
  C17.  \<^verbatim>\<open>vsnprintf\<close> never writes outside the buffer it is given, whatever the format produces: into
  a buffer of \<open>sz\<close> bytes it writes the first \<open>sz - 1\<close> characters at most and the terminating NUL
  right after them, and it returns the number of characters the whole output has.
\<close>

theorem vsnprintf_bounded:
  assumes "str \<noteq> 0" "sz \<noteq> 0" "vprintfmt fmt ap = Some out"
  shows "\<exists>m'. vsnprintf m str sz fmt ap = Some (int (length out), m') \<and>
    bytes m' str (min (sz - 1) (length out)) = map word_of_int (take (sz - 1) out) \<and>
    m' (str + min (sz - 1) (length out)) = 0 \<and>
    (\<forall>x. x < str \<or> str + sz \<le> x \<longrightarrow> m' x = m x)"
proof -
  let ?e = "str + sz - 1"
  have le: "str \<le> ?e" using assms(2) by simp
  obtain m1 where m1: "fold sprintputch out (\<lparr>buf = str, ebuf = ?e, cnt = 0\<rparr>, m) =
      (\<lparr>buf = min ?e (str + length out), ebuf = ?e, cnt = 0 + int (length out)\<rparr>, m1)"
    "\<forall>x. m1 x = (if str \<le> x \<and> x < min ?e (str + length out) then word_of_int (out ! (x - str)) else m x)"
    using sprintputch_fold [OF le, of out 0 m] by blast
  let ?n = "min (sz - 1) (length out)"
  have e: "min ?e (str + length out) = str + ?n" using assms(2) by auto
  have "bytes (m1(str + ?n := 0)) str ?n = map word_of_int (take (sz - 1) out)"
    by (rule nth_equalityI) (auto simp: m1(2) e)
  moreover have "vsnprintf m str sz fmt ap = Some (int (length out), m1(str + ?n := 0))"
    using assms m1(1) e by (simp add: vsnprintf_def)
  moreover have "\<forall>x. x < str \<or> str + sz \<le> x \<longrightarrow> (m1(str + ?n := 0)) x = m x"
    using assms(2) by (auto simp: m1(2) e)
  moreover have "(m1(str + ?n := 0)) (str + ?n) = 0" by simp
  ultimately show ?thesis by (intro exI [of _ "m1(str + ?n := 0)"] conjI)
qed

theorem vsnprintf_bounded_witness:
  "\<exists>m'. vsnprintf (\<lambda>_. 255) 1000 3 ''%d'' [Word 12345] = Some (5, m') \<and> bytes m' 1000 2 = [49, 50] \<and>
     m' 1002 = 0 \<and> m' 1003 = 255"
proof -
  have d: "\<not> is_digit CHR ''d''" by (simp add: is_digit_def schar_def uchar_def)
  have "numeral_of 10 12345 = [1, 2, 3, 4, 5]" by (simp add: numeral_of.simps)
  then have out: "vprintfmt ''%d'' [Word 12345] = Some [49, 50, 51, 52, 53]"
    using d by (simp add: conv_with_def print_signed_def printnum_exact spec0_def sint_scast_u64
        ucast_scast_u64 digit_char_def uchar_def)
  have n: "min 2 (length [49, 50, 51, 52, 53 :: int]) = 2" "int (length [49, 50, 51, 52, 53 :: int]) = 5"
    "(3 :: nat) - 1 = 2" "(1000 :: nat) + 2 = 1002" "(1000 :: nat) + 3 = 1003" "(1000 :: nat) \<noteq> 0" "(3 :: nat) \<noteq> 0"
    by simp_all
  from vsnprintf_bounded [OF n(6,7) out, of "\<lambda>_. 255", unfolded n(2,3,4,5), unfolded n(1,4)]
  obtain m' where m': "vsnprintf (\<lambda>_. 255) 1000 3 ''%d'' [Word 12345] = Some (5, m')"
    "bytes m' 1000 2 = map word_of_int (take 2 [49, 50, 51, 52, 53])" "m' 1002 = 0"
    "\<forall>x. x < 1000 \<or> 1003 \<le> x \<longrightarrow> m' x = 255" by blast
  have t: "map word_of_int (take 2 [49, 50, 51, 52, 53]) = [49, 50 :: u8]" by (simp add: take_Cons')
  have k: "m' 1003 = 255" by (rule m'(4) [rule_format]) simp
  show ?thesis
    by (rule exI [of _ m'], intro conjI, rule m'(1), rule trans [OF m'(2) t], rule m'(3), rule k)
qed

end
