(* ===== verification/Proc_Table.thy ===== *)
theory Proc_Table
  imports Process Machine_Arith
begin

text \<open>
  The process table of \<^verbatim>\<open>kern/process/proc.c\<close>: the list of all processes, the hash table that
  finds a process by its pid, the pid allocator with its two static variables, and the family
  pointers (\<^verbatim>\<open>parent\<close>, \<^verbatim>\<open>cptr\<close>, \<^verbatim>\<open>yptr\<close>, \<^verbatim>\<open>optr\<close>).  The two kinds of
  linked lists are the lists of the processes they link.
\<close>

definition MAX_PROCESS :: int where "MAX_PROCESS = 4096"
definition MAX_PID :: int where "MAX_PID = MAX_PROCESS * 2"
definition PROC_NAME_LEN :: nat where "PROC_NAME_LEN = 30"
definition HASH_SHIFT :: nat where "HASH_SHIFT = 10"

lemma proc_limits: "MAX_PROCESS = 4096" "MAX_PID = 8192"
  by (simp_all add: MAX_PROCESS_def MAX_PID_def)

record proc_table =
  proc_list :: "nat list"
  hash_list :: "nat \<Rightarrow> nat list"
  nr_process :: int
  next_safe :: int
  last_pid :: int

section \<open>Allocating a pid\<close>

text \<open>
  The scan behind the labels \<^verbatim>\<open>inside\<close> and \<^verbatim>\<open>repeat\<close>: \<open>le\<close> is what is left of the
  list, and every collision that uses up the safe range starts over with the whole list.
\<close>

partial_function (option) pid_scan :: "procs \<Rightarrow> nat list \<Rightarrow> nat list \<Rightarrow> int \<Rightarrow> int \<Rightarrow> (int \<times> int) option" where
  "pid_scan ps l le lst safe = (case le of
     [] \<Rightarrow> Some (lst, safe)
   | p # le \<Rightarrow>
       if pid (ps p) = lst then
         if lst + 1 \<ge> safe
         then pid_scan ps l l (if lst + 1 \<ge> MAX_PID then 1 else lst + 1) MAX_PID
         else pid_scan ps l le (lst + 1) safe
       else if pid (ps p) > lst \<and> safe > pid (ps p) then pid_scan ps l le lst (pid (ps p))
       else pid_scan ps l le lst safe)"

definition get_pid :: "procs \<Rightarrow> proc_table \<Rightarrow> (int \<times> proc_table) option" where
  "get_pid ps t =
     (let l = proc_list t; lst = last_pid t + 1 in
      do {
        (lst, safe) \<leftarrow>
          (if lst \<ge> MAX_PID then pid_scan ps l l 1 MAX_PID
           else if lst \<ge> next_safe t then pid_scan ps l l lst MAX_PID
           else Some (lst, next_safe t));
        Some (lst, t\<lparr>last_pid := lst, next_safe := safe\<rparr>)
      })"

section \<open>Finding a process\<close>

definition pid_hashfn :: "int \<Rightarrow> nat" where
  "pid_hashfn x = unat (hash32 (word_of_int x) HASH_SHIFT)"

definition hash_proc :: "nat \<Rightarrow> procs \<Rightarrow> proc_table \<Rightarrow> proc_table" where
  "hash_proc p ps t =
     (let h = pid_hashfn (pid (ps p))
      in t\<lparr>hash_list := (hash_list t)(h := p # hash_list t h)\<rparr>)"

text \<open>
  \<^verbatim>\<open>list_del\<close> takes the process out of whichever bucket links it, which is the one of the pid it
  was hashed with.
\<close>

definition unhash_proc :: "nat \<Rightarrow> procs \<Rightarrow> proc_table \<Rightarrow> proc_table" where
  "unhash_proc p ps t =
     (let h = pid_hashfn (pid (ps p))
      in t\<lparr>hash_list := (hash_list t)(h := remove1 p (hash_list t h))\<rparr>)"

fun find_in_bucket :: "procs \<Rightarrow> int \<Rightarrow> nat list \<Rightarrow> nat option" where
  "find_in_bucket ps n [] = None"
| "find_in_bucket ps n (p # le) = (if pid (ps p) = n then Some p else find_in_bucket ps n le)"

definition find_proc :: "int \<Rightarrow> procs \<Rightarrow> proc_table \<Rightarrow> nat option" where
  "find_proc n ps t =
     (if 0 < n \<and> n < MAX_PID then find_in_bucket ps n (hash_list t (pid_hashfn n)) else None)"

section \<open>Family pointers\<close>

definition set_links :: "nat \<Rightarrow> procs \<Rightarrow> proc_table \<Rightarrow> (procs \<times> proc_table) option" where
  "set_links p ps t = do {
     par \<leftarrow> parent (ps p);
     let t = t\<lparr>proc_list := p # proc_list t\<rparr>;
     let ps = upd_proc p (\<lambda>d. d\<lparr>yptr := None\<rparr>) ps;
     let ps = upd_proc p (\<lambda>d. d\<lparr>optr := cptr (ps par)\<rparr>) ps;
     let ps = (case optr (ps p) of Some q \<Rightarrow> upd_proc q (\<lambda>d. d\<lparr>yptr := Some p\<rparr>) ps | None \<Rightarrow> ps);
     let ps = upd_proc par (\<lambda>d. d\<lparr>cptr := Some p\<rparr>) ps;
     Some (ps, t\<lparr>nr_process := nr_process t + 1\<rparr>)
   }"

definition remove_links :: "nat \<Rightarrow> procs \<Rightarrow> proc_table \<Rightarrow> (procs \<times> proc_table) option" where
  "remove_links p ps t = do {
     let t = t\<lparr>proc_list := remove1 p (proc_list t)\<rparr>;
     let ps = (case optr (ps p) of Some q \<Rightarrow> upd_proc q (\<lambda>d. d\<lparr>yptr := yptr (ps p)\<rparr>) ps | None \<Rightarrow> ps);
     ps \<leftarrow> (case yptr (ps p) of
         Some q \<Rightarrow> Some (upd_proc q (\<lambda>d. d\<lparr>optr := optr (ps p)\<rparr>) ps)
       | None \<Rightarrow> do { par \<leftarrow> parent (ps p); Some (upd_proc par (\<lambda>d. d\<lparr>cptr := optr (ps p)\<rparr>) ps) });
     Some (ps, t\<lparr>nr_process := nr_process t - 1\<rparr>)
   }"

text \<open>The pointer part of one turn of the loop of \<^verbatim>\<open>do_exit\<close> that gives the children away.\<close>

definition adopt_child :: "nat \<Rightarrow> nat \<Rightarrow> nat \<Rightarrow> procs \<Rightarrow> procs" where
  "adopt_child cur ini p ps =
     (let ps = upd_proc cur (\<lambda>d. d\<lparr>cptr := optr (ps p)\<rparr>) ps;
          ps = upd_proc p (\<lambda>d. d\<lparr>yptr := None\<rparr>) ps;
          ps = upd_proc p (\<lambda>d. d\<lparr>optr := cptr (ps ini)\<rparr>) ps;
          ps = (case optr (ps p) of Some q \<Rightarrow> upd_proc q (\<lambda>d. d\<lparr>yptr := Some p\<rparr>) ps | None \<Rightarrow> ps);
          ps = upd_proc p (\<lambda>d. d\<lparr>parent := Some ini\<rparr>) ps
      in upd_proc ini (\<lambda>d. d\<lparr>cptr := Some p\<rparr>) ps)"

definition set_proc_name :: "nat \<Rightarrow> string \<Rightarrow> procs \<Rightarrow> procs" where
  "set_proc_name p name ps = upd_proc p (\<lambda>d. d\<lparr>pname := take PROC_NAME_LEN name\<rparr>) ps"

definition get_proc_name :: "nat \<Rightarrow> procs \<Rightarrow> string" where
  "get_proc_name p ps = take PROC_NAME_LEN (pname (ps p))"

section \<open>A pid is fresh and found in finite time\<close>

definition pids :: "procs \<Rightarrow> proc_table \<Rightarrow> int set" where
  "pids ps t = (\<lambda>p. pid (ps p)) ` set (proc_list t)"

definition pid_ok :: "procs \<Rightarrow> proc_table \<Rightarrow> bool" where
  "pid_ok ps t \<longleftrightarrow> 1 \<le> last_pid t \<and> next_safe t \<le> MAX_PID \<and>
     (\<forall>n\<in>pids ps t. \<not> (last_pid t < n \<and> n < next_safe t))"

definition pid_dist :: "int \<Rightarrow> int \<Rightarrow> nat" where
  "pid_dist f lst = nat (if lst \<le> f then f - lst else f - lst + MAX_PID)"

lemma pid_dist_step:
  assumes "1 \<le> f" "f < MAX_PID" "1 \<le> lst" "lst < MAX_PID" "lst \<noteq> f"
  shows "pid_dist f (if lst + 1 \<ge> MAX_PID then 1 else lst + 1) < pid_dist f lst"
  using assms by (auto simp: pid_dist_def proc_limits)

lemma pid_scan_fresh:
  assumes f: "1 \<le> f" "f < MAX_PID" "\<forall>p\<in>set l. pid (ps p) \<noteq> f"
  shows "1 \<le> lst \<Longrightarrow> lst < safe \<Longrightarrow> safe \<le> MAX_PID \<Longrightarrow> set l = set sc \<union> set le \<Longrightarrow> length le \<le> length l \<Longrightarrow>
    \<forall>p\<in>set sc. pid (ps p) < lst \<or> safe \<le> pid (ps p) \<Longrightarrow>
    \<exists>n safe'. pid_scan ps l le lst safe = Some (n, safe') \<and> 1 \<le> n \<and> n < safe' \<and> safe' \<le> MAX_PID \<and>
      (\<forall>p\<in>set l. \<not> (n \<le> pid (ps p) \<and> pid (ps p) < safe'))"
proof (induction "pid_dist f lst * Suc (length l) + length le" arbitrary: le lst safe sc rule: less_induct)
  case less
  show ?case
  proof (cases le)
    case Nil
    then show ?thesis using less.prems by (subst pid_scan.simps) auto
  next
    case (Cons p le')
    have p: "p \<in> set l" using less.prems(4) Cons by simp
    show ?thesis
    proof (cases "pid (ps p) = lst")
      case True
      then have ne: "lst \<noteq> f" using f(3) p by auto
      let ?n = "if lst + 1 \<ge> MAX_PID then 1 else lst + 1"
      have lt: "pid_dist f ?n < pid_dist f lst"
        using pid_dist_step [OF f(1,2)] less.prems(1-3) ne by simp
      have m: "pid_dist f ?n * Suc (length l) + k < pid_dist f lst * Suc (length l) + length le"
        if "k \<le> length l" for k
      proof -
        have "Suc (pid_dist f ?n) * Suc (length l) \<le> pid_dist f lst * Suc (length l)"
          using lt by (intro mult_le_mono1) simp
        then show ?thesis using that by simp
      qed
      show ?thesis
      proof (cases "lst + 1 \<ge> safe")
        case restart: True
        have "?n < MAX_PID" "1 \<le> ?n" using less.prems(1) by (auto simp: proc_limits)
        then show ?thesis
          using less.hyps [OF m [of "length l"], of MAX_PID "[]"] True restart Cons
          by (subst pid_scan.simps) auto
      next
        case False
        then have n: "?n = lst + 1" using less.prems(3) by simp
        have "\<forall>q\<in>set (p # sc). pid (ps q) < lst + 1 \<or> safe \<le> pid (ps q)"
          using less.prems(6) True by auto
        then show ?thesis
          using less.hyps [OF m [of "length le'"], of safe "p # sc"] less.prems True False Cons
          unfolding n by (subst pid_scan.simps) auto
      qed
    next
      case other: False
      have m: "pid_dist f lst * Suc (length l) + length le' < pid_dist f lst * Suc (length l) + length le"
        using Cons by simp
      show ?thesis
      proof (cases "pid (ps p) > lst \<and> safe > pid (ps p)")
        case True
        have "\<forall>q\<in>set (p # sc). pid (ps q) < lst \<or> pid (ps p) \<le> pid (ps q)"
          using less.prems(6) True by auto
        then show ?thesis
          using less.hyps [OF m, of "pid (ps p)" "p # sc"] less.prems True other Cons
          by (subst pid_scan.simps) auto
      next
        case False
        have "\<forall>q\<in>set (p # sc). pid (ps q) < lst \<or> safe \<le> pid (ps q)"
          using less.prems(6) False other by auto
        then show ?thesis
          using less.hyps [OF m, of safe "p # sc"] less.prems False other Cons
          by (subst pid_scan.simps) auto
      qed
    qed
  qed
qed

lemma free_pid_exists:
  assumes "int (length l) < MAX_PID - 1"
  shows "\<exists>f. 1 \<le> f \<and> f < MAX_PID \<and> (\<forall>p\<in>set l. pid (ps p) \<noteq> f)"
proof (rule ccontr)
  assume "\<not> ?thesis"
  then have sub: "{1..<MAX_PID} \<subseteq> (\<lambda>p. pid (ps p)) ` set l" by force
  have "card {1..<MAX_PID} \<le> length l"
    using card_mono [OF _ sub] card_image_le [of "set l" "\<lambda>p. pid (ps p)"] card_length [of l] by simp
  then show False using assms by (simp add: proc_limits)
qed

lemma get_pid_ok:
  assumes "pid_ok ps t" "int (length (proc_list t)) < MAX_PID - 1"
  shows "\<exists>n t'. get_pid ps t = Some (n, t') \<and> 1 \<le> n \<and> n < MAX_PID \<and> n \<notin> pids ps t \<and>
    t' = t\<lparr>last_pid := n, next_safe := next_safe t'\<rparr> \<and> n < next_safe t' \<and> next_safe t' \<le> MAX_PID \<and>
    (\<forall>m\<in>pids ps t. \<not> (n \<le> m \<and> m < next_safe t'))"
proof -
  obtain f where f: "1 \<le> f" "f < MAX_PID" "\<forall>p\<in>set (proc_list t). pid (ps p) \<noteq> f"
    using free_pid_exists [OF assms(2)] by blast
  let ?lst = "last_pid t + 1" and ?l = "proc_list t"
  have scan: "\<exists>n safe'. pid_scan ps ?l ?l lst MAX_PID = Some (n, safe') \<and> 1 \<le> n \<and> n < safe' \<and>
      safe' \<le> MAX_PID \<and> (\<forall>m\<in>pids ps t. \<not> (n \<le> m \<and> m < safe'))" if "1 \<le> lst" "lst < MAX_PID" for lst
    using pid_scan_fresh [OF f, of lst MAX_PID "[]" "?l"] that by (auto simp: pids_def)
  have fin: ?thesis if "pid_scan ps ?l ?l lst MAX_PID = Some (n, safe)" "1 \<le> n" "n < safe" "safe \<le> MAX_PID"
      "\<forall>m\<in>pids ps t. \<not> (n \<le> m \<and> m < safe)"
      "get_pid ps t = Some (n, t\<lparr>last_pid := n, next_safe := safe\<rparr>)" for lst n safe
    using that by (intro exI [of _ n] exI [of _ "t\<lparr>last_pid := n, next_safe := safe\<rparr>"]) auto
  consider "?lst \<ge> MAX_PID" | "?lst < MAX_PID" "?lst \<ge> next_safe t" | "?lst < MAX_PID" "?lst < next_safe t"
    by linarith
  then show ?thesis
  proof cases
    case 1
    obtain n safe where s: "pid_scan ps ?l ?l 1 MAX_PID = Some (n, safe)" "1 \<le> n" "n < safe" "safe \<le> MAX_PID"
      "\<forall>m\<in>pids ps t. \<not> (n \<le> m \<and> m < safe)" using scan [of 1] by (auto simp: proc_limits)
    show ?thesis by (rule fin [OF s]) (use 1 s(1) in \<open>simp add: get_pid_def Let_def\<close>)
  next
    case 2
    obtain n safe where s: "pid_scan ps ?l ?l ?lst MAX_PID = Some (n, safe)" "1 \<le> n" "n < safe" "safe \<le> MAX_PID"
      "\<forall>m\<in>pids ps t. \<not> (n \<le> m \<and> m < safe)" using scan [of ?lst] 2 assms(1) by (auto simp: pid_ok_def)
    show ?thesis by (rule fin [OF s]) (use 2 s(1) in \<open>simp add: get_pid_def Let_def\<close>)
  next
    case 3
    then show ?thesis using assms(1)
      by (intro exI [of _ ?lst] exI [of _ "t\<lparr>last_pid := ?lst\<rparr>"]) (auto simp: get_pid_def Let_def pid_ok_def)
  qed
qed

section \<open>The table invariant\<close>

definition table_ok :: "procs \<Rightarrow> proc_table \<Rightarrow> bool" where
  "table_ok ps t \<longleftrightarrow> distinct (proc_list t) \<and> inj_on (\<lambda>p. pid (ps p)) (set (proc_list t)) \<and>
     (\<forall>p\<in>set (proc_list t). 1 \<le> pid (ps p) \<and> pid (ps p) < MAX_PID) \<and> pid_ok ps t \<and>
     nr_process t = int (length (proc_list t)) + 1 \<and>
     (\<forall>h. distinct (hash_list t h) \<and>
        set (hash_list t h) = {p \<in> set (proc_list t). pid_hashfn (pid (ps p)) = h})"

lemma table_ok_cong:
  assumes "table_ok ps t" "\<And>p. p \<in> set (proc_list t) \<Longrightarrow> pid (ps' p) = pid (ps p)"
  shows "table_ok ps' t"
proof -
  have "pids ps' t = pids ps t" using assms(2) by (simp add: pids_def)
  moreover have "inj_on (\<lambda>p. pid (ps' p)) (set (proc_list t)) = inj_on (\<lambda>p. pid (ps p)) (set (proc_list t))"
    by (rule inj_on_cong) (simp add: assms(2))
  moreover have "{p \<in> set (proc_list t). pid_hashfn (pid (ps' p)) = h} =
      {p \<in> set (proc_list t). pid_hashfn (pid (ps p)) = h}" for h using assms(2) by auto
  ultimately show ?thesis using assms by (simp add: table_ok_def pid_ok_def)
qed

lemma find_in_bucket_Some:
  "find_in_bucket ps n l = Some p \<Longrightarrow> p \<in> set l \<and> pid (ps p) = n"
  by (induction l) (auto split: if_splits)

lemma find_in_bucket_None: "find_in_bucket ps n l = None \<longleftrightarrow> (\<forall>p\<in>set l. pid (ps p) \<noteq> n)"
  by (induction l) auto

lemma find_proc_iff:
  assumes "table_ok ps t"
  shows "find_proc n ps t = Some p \<longleftrightarrow> p \<in> set (proc_list t) \<and> pid (ps p) = n"
proof
  assume "find_proc n ps t = Some p"
  then show "p \<in> set (proc_list t) \<and> pid (ps p) = n"
    using assms by (auto simp: find_proc_def table_ok_def split: if_splits dest!: find_in_bucket_Some)
next
  assume p: "p \<in> set (proc_list t) \<and> pid (ps p) = n"
  then have n: "0 < n" "n < MAX_PID" and b: "p \<in> set (hash_list t (pid_hashfn n))"
    using assms by (force simp: table_ok_def)+
  then obtain q where q: "find_in_bucket ps n (hash_list t (pid_hashfn n)) = Some q"
    using p find_in_bucket_None [of ps n "hash_list t (pid_hashfn n)"] by auto
  then have "q \<in> set (proc_list t)" "pid (ps q) = n"
    using find_in_bucket_Some [OF q] assms by (auto simp: table_ok_def)
  then have "q = p" using p assms by (auto simp: table_ok_def dest: inj_onD)
  then show "find_proc n ps t = Some p" using q n by (simp add: find_proc_def)
qed

lemma find_proc_None:
  assumes "table_ok ps t"
  shows "find_proc n ps t = None \<longleftrightarrow> n \<notin> pids ps t"
proof -
  have "(\<exists>p. find_proc n ps t = Some p) \<longleftrightarrow> n \<in> pids ps t"
    unfolding find_proc_iff [OF assms] pids_def by auto
  then show ?thesis by (metis not_None_eq)
qed

section \<open>Families\<close>

text \<open>
  \<open>siblings ps y c xs\<close>: from the pointer \<open>c\<close> the \<^verbatim>\<open>optr\<close> links run through \<open>xs\<close>, youngest
  first, and the \<^verbatim>\<open>yptr\<close> links run back to \<open>y\<close>.
\<close>

fun siblings :: "procs \<Rightarrow> nat option \<Rightarrow> nat option \<Rightarrow> nat list \<Rightarrow> bool" where
  "siblings ps y c [] \<longleftrightarrow> c = None"
| "siblings ps y c (x # xs) \<longleftrightarrow> c = Some x \<and> yptr (ps x) = y \<and> siblings ps (Some x) (optr (ps x)) xs"

fun sib_prefix :: "procs \<Rightarrow> nat option \<Rightarrow> nat option \<Rightarrow> nat list \<Rightarrow> bool" where
  "sib_prefix ps y c [] \<longleftrightarrow> True"
| "sib_prefix ps y c (x # xs) \<longleftrightarrow> c = Some x \<and> yptr (ps x) = y \<and> sib_prefix ps (Some x) (optr (ps x)) xs"

definition family :: "(nat \<Rightarrow> nat option) \<Rightarrow> procs \<Rightarrow> (nat \<Rightarrow> nat list) \<Rightarrow> bool" where
  "family Y ps kids \<longleftrightarrow> (\<forall>p. siblings ps (Y p) (cptr (ps p)) (kids p) \<and> distinct (kids p) \<and>
     (\<forall>c\<in>set (kids p). parent (ps c) = Some p))"

abbreviation no_elder :: "nat \<Rightarrow> nat option" where
  "no_elder \<equiv> \<lambda>_. None"

lemma siblings_cong:
  "(\<And>x. x \<in> set xs \<Longrightarrow> yptr (ps' x) = yptr (ps x) \<and> optr (ps' x) = optr (ps x)) \<Longrightarrow>
    siblings ps' y c xs = siblings ps y c xs"
  by (induction xs arbitrary: y c) auto

lemma sib_prefix_cong:
  "(\<And>x. x \<in> set xs \<Longrightarrow> yptr (ps' x) = yptr (ps x) \<and> optr (ps' x) = optr (ps x)) \<Longrightarrow>
    sib_prefix ps' y c xs = sib_prefix ps y c xs"
  by (induction xs arbitrary: y c) auto

lemma siblings_append:
  "siblings ps y c (xs @ ys) \<longleftrightarrow> sib_prefix ps y c xs \<and>
     siblings ps (if xs = [] then y else Some (last xs)) (if xs = [] then c else optr (ps (last xs))) ys"
  by (induction xs arbitrary: y c) auto

lemma sib_prefix_append:
  "sib_prefix ps y c (xs @ ys) \<longleftrightarrow> sib_prefix ps y c xs \<and>
     sib_prefix ps (if xs = [] then y else Some (last xs)) (if xs = [] then c else optr (ps (last xs))) ys"
  by (induction xs arbitrary: y c) auto

lemma familyD:
  assumes "family Y ps kids"
  shows "siblings ps (Y p) (cptr (ps p)) (kids p)" "distinct (kids p)"
    "c \<in> set (kids p) \<Longrightarrow> parent (ps c) = Some p"
    "c \<in> set (kids p) \<Longrightarrow> c \<in> set (kids q) \<longleftrightarrow> q = p"
  using assms unfolding family_def by (blast, blast, blast, metis option.inject)

lemma family_cong:
  assumes "family Y ps kids" "\<And>p. cptr (ps' p) = cptr (ps p)"
    "\<And>p. p \<in> set (kids (the (parent (ps p)))) \<Longrightarrow>
      yptr (ps' p) = yptr (ps p) \<and> optr (ps' p) = optr (ps p) \<and> parent (ps' p) = parent (ps p)"
  shows "family Y ps' kids"
proof -
  have k: "yptr (ps' c) = yptr (ps c) \<and> optr (ps' c) = optr (ps c) \<and> parent (ps' c) = Some p"
    if "c \<in> set (kids p)" for c p using assms(3) [of c] familyD(3) [OF assms(1) that] that by simp
  have "siblings ps' (Y p) (cptr (ps' p)) (kids p)" for p
    using familyD(1) [OF assms(1), of p] siblings_cong [of "kids p" ps' ps] k assms(2) by simp
  then show ?thesis using k familyD(2) [OF assms(1)] by (simp add: family_def)
qed

lemma siblings_push:
  assumes "siblings ps y c xs" "distinct xs" "p \<notin> set xs"
    "\<And>x. x \<in> set xs \<Longrightarrow> yptr (ps' x) = (if c = Some x then Some p else yptr (ps x)) \<and> optr (ps' x) = optr (ps x)"
    "optr (ps' p) = c" "yptr (ps' p) = y'"
  shows "siblings ps' y' (Some p) (p # xs)"
proof (cases xs)
  case (Cons x xs')
  then have "siblings ps (Some x) (optr (ps x)) xs'" "c = Some x" using assms(1) by auto
  moreover have "siblings ps' (Some x) (optr (ps x)) xs' = siblings ps (Some x) (optr (ps x)) xs'"
    using assms(2,4) Cons calculation(2) by (intro siblings_cong) auto
  ultimately show ?thesis using assms(4) [of x] assms(5,6) Cons by simp
qed (use assms in simp)

lemma links_view:
  assumes "p \<noteq> par" "\<And>q. cptr (ps par) = Some q \<Longrightarrow> q \<noteq> p"
  shows "(let ps = upd_proc p (\<lambda>d. d\<lparr>yptr := None\<rparr>) ps;
      ps = upd_proc p (\<lambda>d. d\<lparr>optr := cptr (ps par)\<rparr>) ps;
      ps = (case optr (ps p) of Some q \<Rightarrow> upd_proc q (\<lambda>d. d\<lparr>yptr := Some p\<rparr>) ps | None \<Rightarrow> ps)
    in upd_proc par (\<lambda>d. d\<lparr>cptr := Some p\<rparr>) ps) q =
    (ps q)\<lparr>cptr := if q = par then Some p else cptr (ps q),
      yptr := if q = p then None else if cptr (ps par) = Some q then Some p else yptr (ps q),
      optr := if q = p then cptr (ps par) else optr (ps q)\<rparr>"
proof (cases "cptr (ps par)")
  case None
  then show ?thesis using assms(1) by (simp add: Let_def)
next
  case (Some a)
  then have "a \<noteq> p" using assms(2) by blast
  then show ?thesis using assms(1) Some by (simp add: Let_def)
qed

lemma family_push:
  assumes fam: "family Y ps kids" and p: "\<And>q. p \<notin> set (kids q)" and Y: "Y par = None"
    and v: "\<And>q. cptr (ps' q) = (if q = par then Some p else cptr (ps q))"
    "\<And>q. optr (ps' q) = (if q = p then cptr (ps par) else optr (ps q))"
    "\<And>q. yptr (ps' q) = (if q = p then None else if cptr (ps par) = Some q then Some p else yptr (ps q))"
    "\<And>q. parent (ps' q) = (if q = p then Some par else parent (ps q))"
  shows "family Y ps' (kids(par := p # kids par))"
  unfolding family_def
proof (intro allI conjI ballI)
  fix q c
  let ?c = "cptr (ps par)"
  have sb: "siblings ps None ?c (kids par)" "distinct (kids par)" using familyD [OF fam, of par] Y by auto
  have hd: "q \<in> set (kids par)" if "?c = Some q" for q
    using sb that by (cases "kids par") auto
  show "siblings ps' (Y q) (cptr (ps' q)) ((kids(par := p # kids par)) q)"
  proof (cases "q = par")
    case True
    have "siblings ps' None (Some p) (p # kids par)"
      by (rule siblings_push [OF sb p]) (use p v in auto)
    then show ?thesis using True v(1) Y by simp
  next
    case False
    have "?c \<noteq> Some x" if "x \<in> set (kids q)" for x
      using hd [of x] familyD(4) [OF fam that, of par] False by auto
    then have "siblings ps' (Y q) (cptr (ps q)) (kids q) = siblings ps (Y q) (cptr (ps q)) (kids q)"
      using p by (intro siblings_cong) (auto simp: v)
    then show ?thesis using False familyD(1) [OF fam, of q] by (simp add: v(1))
  qed
  show "distinct ((kids(par := p # kids par)) q)" using familyD(2) [OF fam] p by simp
  show "parent (ps' c) = Some q" if "c \<in> set ((kids(par := p # kids par)) q)"
    using that familyD(3) [OF fam] p by (auto simp: v(4) split: if_splits)
qed

definition same_but_links :: "procs \<Rightarrow> procs \<Rightarrow> bool" where
  "same_but_links ps ps' \<longleftrightarrow> (\<forall>q. ps' q =
     (ps q)\<lparr>parent := parent (ps' q), cptr := cptr (ps' q), yptr := yptr (ps' q), optr := optr (ps' q)\<rparr>)"

lemma set_links_family:
  assumes "family no_elder ps kids" "parent (ps p) = Some par" "p \<noteq> par" "\<And>q. p \<notin> set (kids q)"
  shows "\<exists>ps'. set_links p ps t = Some (ps', t\<lparr>proc_list := p # proc_list t, nr_process := nr_process t + 1\<rparr>) \<and>
    family no_elder ps' (kids(par := p # kids par)) \<and> same_but_links ps ps' \<and>
    (\<forall>q. parent (ps' q) = parent (ps q))"
proof -
  have hd: "q \<noteq> p" if "cptr (ps par) = Some q" for q
    using familyD(1) [OF assms(1), of par] that assms(4) [of par] by (cases "kids par") auto
  define ps' where "ps' = (let ps = upd_proc p (\<lambda>d. d\<lparr>yptr := None\<rparr>) ps;
      ps = upd_proc p (\<lambda>d. d\<lparr>optr := cptr (ps par)\<rparr>) ps;
      ps = (case optr (ps p) of Some q \<Rightarrow> upd_proc q (\<lambda>d. d\<lparr>yptr := Some p\<rparr>) ps | None \<Rightarrow> ps)
    in upd_proc par (\<lambda>d. d\<lparr>cptr := Some p\<rparr>) ps)"
  have view: "ps' q = (ps q)\<lparr>cptr := if q = par then Some p else cptr (ps q),
      yptr := if q = p then None else if cptr (ps par) = Some q then Some p else yptr (ps q),
      optr := if q = p then cptr (ps par) else optr (ps q)\<rparr>" for q
    unfolding ps'_def by (rule links_view [OF assms(3) hd])
  have "family no_elder ps' (kids(par := p # kids par))"
    by (rule family_push [OF assms(1,4)]) (simp_all add: view assms(2))
  moreover have "same_but_links ps ps'" by (simp add: same_but_links_def view)
  moreover have "set_links p ps t = Some (ps', t\<lparr>proc_list := p # proc_list t, nr_process := nr_process t + 1\<rparr>)"
    using assms(2) by (simp add: set_links_def ps'_def Let_def)
  ultimately show ?thesis by (auto simp: view)
qed

lemma siblings_mid:
  assumes "siblings ps y c (xs @ p # ys)"
  shows "optr (ps p) = (case ys of [] \<Rightarrow> None | b # _ \<Rightarrow> Some b)"
    "yptr (ps p) = (if xs = [] then y else Some (last xs))"
    "(if xs = [] then c else optr (ps (last xs))) = Some p"
  using assms by (auto simp: siblings_append split: list.split)

lemma siblings_remove:
  assumes "siblings ps y c (xs @ p # ys)" "distinct (xs @ p # ys)" "\<forall>x\<in>set (xs @ ys). y \<noteq> Some x"
    "\<forall>x\<in>set (xs @ ys). yptr (ps' x) = (if optr (ps p) = Some x then yptr (ps p) else yptr (ps x)) \<and>
      optr (ps' x) = (if yptr (ps p) = Some x then optr (ps p) else optr (ps x))"
  shows "siblings ps' y (if xs = [] then optr (ps p) else c) (xs @ ys)"
  using assms
proof (induction xs arbitrary: y c)
  case Nil
  show ?case
  proof (cases ys)
    case (Cons b bs)
    have "siblings ps' (Some b) (optr (ps b)) bs = siblings ps (Some b) (optr (ps b)) bs"
      using Nil.prems Cons by (intro siblings_cong) auto
    then show ?thesis using Nil.prems Cons by auto
  qed (use Nil.prems in auto)
next
  case (Cons x xs)
  have mid: "optr (ps p) = (case ys of [] \<Rightarrow> None | b # _ \<Rightarrow> Some b)"
    "yptr (ps p) = (if xs = [] then Some x else Some (last xs))"
    using siblings_mid [OF Cons.prems(1)] by auto
  have x: "optr (ps p) \<noteq> Some x" using mid(1) Cons.prems(2) by (auto split: list.splits)
  have "siblings ps' (Some x) (if xs = [] then optr (ps p) else optr (ps x)) (xs @ ys)"
    using Cons.prems by (intro Cons.IH) auto
  moreover have "optr (ps' x) = (if xs = [] then optr (ps p) else optr (ps x))"
    using Cons.prems(2,4) mid(2) last_in_set [of xs] by auto
  ultimately show ?case using Cons.prems(1,4) x by auto
qed

lemma remove_links_view:
  assumes "parent (ps p) = Some par" "\<And>q. optr (ps p) = Some q \<Longrightarrow> q \<noteq> p"
    "\<And>q. yptr (ps p) = Some q \<Longrightarrow> q \<noteq> p" "\<And>q. optr (ps p) = Some q \<Longrightarrow> yptr (ps p) \<noteq> Some q"
  shows "\<exists>ps'. remove_links p ps t =
      Some (ps', t\<lparr>proc_list := remove1 p (proc_list t), nr_process := nr_process t - 1\<rparr>) \<and>
    (\<forall>q. ps' q = (ps q)\<lparr>cptr := if yptr (ps p) = None \<and> q = par then optr (ps p) else cptr (ps q),
      yptr := if optr (ps p) = Some q then yptr (ps p) else yptr (ps q),
      optr := if yptr (ps p) = Some q then optr (ps p) else optr (ps q)\<rparr>)"
proof (cases "optr (ps p)")
  case None
  then show ?thesis
    using assms(1) by (cases "yptr (ps p)") (auto simp: remove_links_def)
next
  case (Some b)
  then have "b \<noteq> p" "yptr (ps p) \<noteq> Some b" using assms(2,4) by auto
  then show ?thesis
    using assms(1) assms(3) Some by (cases "yptr (ps p)") (auto simp: remove_links_def)
qed

lemma remove_links_family:
  assumes "family no_elder ps kids" "parent (ps p) = Some par" "p \<in> set (kids par)"
  shows "\<exists>ps'. remove_links p ps t =
      Some (ps', t\<lparr>proc_list := remove1 p (proc_list t), nr_process := nr_process t - 1\<rparr>) \<and>
    family no_elder ps' (kids(par := remove1 p (kids par))) \<and> same_but_links ps ps' \<and>
    (\<forall>q. parent (ps' q) = parent (ps q))"
proof -
  obtain xs ys where k: "kids par = xs @ p # ys" using split_list [OF assms(3)] by blast
  have sb: "siblings ps None (cptr (ps par)) (xs @ p # ys)" "distinct (xs @ p # ys)"
    using familyD(1,2) [OF assms(1), of par] k by auto
  have rm: "remove1 p (kids par) = xs @ ys" using sb(2) k by (simp add: remove1_append)
  note mid = siblings_mid [OF sb(1)]
  have out: "optr (ps p) = Some q \<Longrightarrow> q \<in> set ys" "yptr (ps p) = Some q \<Longrightarrow> q \<in> set xs" for q
    using mid(1,2) by (auto split: list.splits if_splits)
  have ne: "optr (ps p) = Some q \<Longrightarrow> q \<noteq> p" "yptr (ps p) = Some q \<Longrightarrow> q \<noteq> p"
    "optr (ps p) = Some q \<Longrightarrow> yptr (ps p) \<noteq> Some q" for q using out [of q] sb(2) by auto
  obtain ps' where ps': "remove_links p ps t =
      Some (ps', t\<lparr>proc_list := remove1 p (proc_list t), nr_process := nr_process t - 1\<rparr>)"
    and view: "\<And>q. ps' q = (ps q)\<lparr>cptr := if yptr (ps p) = None \<and> q = par then optr (ps p) else cptr (ps q),
      yptr := if optr (ps p) = Some q then yptr (ps p) else yptr (ps q),
      optr := if yptr (ps p) = Some q then optr (ps p) else optr (ps q)\<rparr>"
    using remove_links_view [of ps p par t] ne assms(2) by blast
  have "family no_elder ps' (kids(par := xs @ ys))"
    unfolding family_def
  proof (intro allI conjI ballI)
    fix q c
    show "siblings ps' (no_elder q) (cptr (ps' q)) ((kids(par := xs @ ys)) q)"
    proof (cases "q = par")
      case True
      have "cptr (ps' par) = (if xs = [] then optr (ps p) else cptr (ps par))"
        using mid(2) by (simp add: view)
      then show ?thesis using siblings_remove [OF sb, of ps'] True by (simp add: view)
    next
      case False
      have "optr (ps p) \<noteq> Some x" "yptr (ps p) \<noteq> Some x" if "x \<in> set (kids q)" for x
        using out [of x] familyD(4) [OF assms(1) that, of par] False k by auto
      then have "siblings ps' None (cptr (ps q)) (kids q) = siblings ps None (cptr (ps q)) (kids q)"
        by (intro siblings_cong) (simp add: view)
      then show ?thesis using False familyD(1) [OF assms(1), of q] by (simp add: view)
    qed
    show "distinct ((kids(par := xs @ ys)) q)" using familyD(2) [OF assms(1)] sb(2) by simp
    show "parent (ps' c) = Some q" if "c \<in> set ((kids(par := xs @ ys)) q)"
      using that familyD(3) [OF assms(1)] k by (auto simp: view split: if_splits)
  qed
  moreover have "same_but_links ps ps'" by (simp add: same_but_links_def view)
  ultimately show ?thesis using ps' by (auto simp: rm view)
qed

text \<open>
  Giving a child away: while the loop runs, the \<^verbatim>\<open>yptr\<close> of the first child that is left still
  points to the one taken before it.
\<close>

lemma adopt_child_family:
  assumes fam: "family Y ps kids" and k: "kids cur = p # xs" and ini: "ini \<noteq> cur" "p \<noteq> ini" "p \<noteq> cur"
    and Y: "Y ini = None"
  shows "family (Y(cur := Some p)) (adopt_child cur ini p ps) (kids(cur := xs, ini := p # kids ini))"
    "same_but_links ps (adopt_child cur ini p ps)"
proof -
  let ?ps1 = "upd_proc cur (\<lambda>d. d\<lparr>cptr := optr (ps p)\<rparr>) ps"
  let ?Y = "Y(cur := Some p)" and ?kids = "kids(cur := xs)"
  have "family ?Y ?ps1 ?kids"
    unfolding family_def
  proof (intro allI conjI ballI)
    fix q c
    have same: "siblings ?ps1 y d l = siblings ps y d l" for y d l by (rule siblings_cong) simp
    show "siblings ?ps1 (?Y q) (cptr (?ps1 q)) (?kids q)"
      using familyD(1) [OF fam, of q] k unfolding same by (cases "q = cur") auto
    show "distinct (?kids q)" using familyD(2) [OF fam, of cur] familyD(2) [OF fam, of q] k by simp
    show "parent (?ps1 c) = Some q" if "c \<in> set (?kids q)"
      using that familyD(3) [OF fam, of c q] k by (auto split: if_splits)
  qed
  moreover have "p \<notin> set (?kids q)" for q
    using familyD(4) [OF fam, of p cur q] familyD(2) [OF fam, of cur] k by auto
  ultimately have push: "family ?Y (adopt_child cur ini p ps) (?kids(ini := p # ?kids ini))"
    if "\<And>q. cptr (adopt_child cur ini p ps q) = (if q = ini then Some p else cptr (?ps1 q))"
    "\<And>q. optr (adopt_child cur ini p ps q) = (if q = p then cptr (?ps1 ini) else optr (?ps1 q))"
    "\<And>q. yptr (adopt_child cur ini p ps q) =
      (if q = p then None else if cptr (?ps1 ini) = Some q then Some p else yptr (?ps1 q))"
    "\<And>q. parent (adopt_child cur ini p ps q) = (if q = p then Some ini else parent (?ps1 q))"
    by (rule family_push [OF _ _ _ that]) (use ini(1) Y in simp_all)
  have ne: "q \<noteq> p" if "cptr (ps ini) = Some q" for q
    using familyD(1) [OF fam, of ini] familyD(4) [OF fam, of p cur ini] that k ini(1)
    by (cases "kids ini") auto
  have view: "adopt_child cur ini p ps q = (ps q)\<lparr>
      parent := if q = p then Some ini else parent (ps q),
      cptr := if q = ini then Some p else if q = cur then optr (ps p) else cptr (ps q),
      yptr := if q = p then None else if cptr (ps ini) = Some q then Some p else yptr (ps q),
      optr := if q = p then cptr (ps ini) else optr (ps q)\<rparr>" for q
  proof (cases "cptr (ps ini)")
    case None
    then show ?thesis using ini by (auto simp: adopt_child_def Let_def)
  next
    case (Some a)
    have "a \<noteq> p" using ne [OF Some] .
    then show ?thesis using Some ini by (auto simp: adopt_child_def Let_def)
  qed
  show "family ?Y (adopt_child cur ini p ps) (kids(cur := xs, ini := p # kids ini))"
    using push ini by (simp add: view)
  show "same_but_links ps (adopt_child cur ini p ps)" by (simp add: same_but_links_def view)
qed

section \<open>Registering and reaping a process\<close>

text \<open>The critical sections of \<^verbatim>\<open>do_fork\<close> and \<^verbatim>\<open>do_wait\<close>.\<close>

definition register_proc :: "nat \<Rightarrow> procs \<Rightarrow> proc_table \<Rightarrow> (procs \<times> proc_table) option" where
  "register_proc p ps t = do {
     (n, t) \<leftarrow> get_pid ps t;
     let ps = upd_proc p (\<lambda>d. d\<lparr>pid := n\<rparr>) ps;
     set_links p ps (hash_proc p ps t)
   }"

definition reap_proc :: "nat \<Rightarrow> procs \<Rightarrow> proc_table \<Rightarrow> (procs \<times> proc_table) option" where
  "reap_proc p ps t = remove_links p ps (unhash_proc p ps t)"

lemma same_but_linksD:
  assumes "same_but_links ps ps'"
  shows "pid (ps' q) = pid (ps q)" "pstate (ps' q) = pstate (ps q)" "wait_state (ps' q) = wait_state (ps q)"
    "pflags (ps' q) = pflags (ps q)" "exit_code (ps' q) = exit_code (ps q)" "on_rq (ps' q) = on_rq (ps q)"
proof -
  have e: "ps' q = (ps q)\<lparr>parent := parent (ps' q), cptr := cptr (ps' q), yptr := yptr (ps' q), optr := optr (ps' q)\<rparr>"
    using assms by (simp add: same_but_links_def)
  show "pid (ps' q) = pid (ps q)" using arg_cong [OF e, of pid] by simp
  show "pstate (ps' q) = pstate (ps q)" using arg_cong [OF e, of pstate] by simp
  show "wait_state (ps' q) = wait_state (ps q)" using arg_cong [OF e, of wait_state] by simp
  show "pflags (ps' q) = pflags (ps q)" using arg_cong [OF e, of pflags] by simp
  show "exit_code (ps' q) = exit_code (ps q)" using arg_cong [OF e, of exit_code] by simp
  show "on_rq (ps' q) = on_rq (ps q)" using arg_cong [OF e, of on_rq] by simp
qed

lemma hash_proc_fields [simp]:
  "proc_list (hash_proc p ps t) = proc_list t" "nr_process (hash_proc p ps t) = nr_process t"
  "last_pid (hash_proc p ps t) = last_pid t" "next_safe (hash_proc p ps t) = next_safe t"
  "hash_list (hash_proc p ps t) h = (if h = pid_hashfn (pid (ps p)) then p # hash_list t h else hash_list t h)"
  "proc_list (unhash_proc p ps t) = proc_list t" "nr_process (unhash_proc p ps t) = nr_process t"
  "last_pid (unhash_proc p ps t) = last_pid t" "next_safe (unhash_proc p ps t) = next_safe t"
  "hash_list (unhash_proc p ps t) h =
    (if h = pid_hashfn (pid (ps p)) then remove1 p (hash_list t h) else hash_list t h)"
  by (simp_all add: hash_proc_def unhash_proc_def Let_def)

lemma table_length:
  assumes "table_ok ps t" "nr_process t < MAX_PROCESS"
  shows "int (length (proc_list t)) < MAX_PID - 1"
  using assms by (simp add: table_ok_def proc_limits)

lemma family_pid:
  assumes "family Y ps kids"
  shows "family Y (upd_proc p (\<lambda>d. d\<lparr>pid := n\<rparr>) ps) kids"
  by (rule family_cong [OF assms]) auto

lemma register_ok:
  assumes t: "table_ok ps t" "nr_process t < MAX_PROCESS" and f: "family no_elder ps kids"
    and p: "parent (ps p) = Some par" "p \<noteq> par" "\<And>q. p \<notin> set (kids q)" "p \<notin> set (proc_list t)"
  shows "\<exists>ps' t' n. register_proc p ps t = Some (ps', t') \<and> table_ok ps' t' \<and>
    family no_elder ps' (kids(par := p # kids par)) \<and> proc_list t' = p # proc_list t \<and>
    1 \<le> n \<and> n < MAX_PID \<and> n \<notin> pids ps t \<and> same_but_links (upd_proc p (\<lambda>d. d\<lparr>pid := n\<rparr>) ps) ps' \<and>
    (\<forall>q. parent (ps' q) = parent (ps q))"
proof -
  have pok: "pid_ok ps t" using t(1) by (simp add: table_ok_def)
  obtain n t1 where g: "get_pid ps t = Some (n, t1)" "1 \<le> n" "n < MAX_PID" "n \<notin> pids ps t"
    "t1 = t\<lparr>last_pid := n, next_safe := next_safe t1\<rparr>" "next_safe t1 \<le> MAX_PID"
    "\<forall>m\<in>pids ps t. \<not> (n \<le> m \<and> m < next_safe t1)"
    using get_pid_ok [OF pok table_length [OF t]] by blast
  let ?ps = "upd_proc p (\<lambda>d. d\<lparr>pid := n\<rparr>) ps"
  let ?t = "hash_proc p ?ps t1"
  have t1: "proc_list t1 = proc_list t" "hash_list t1 = hash_list t" "nr_process t1 = nr_process t"
    "last_pid t1 = n"
    by (subst g(5), simp)+
  obtain ps' where s: "set_links p ?ps ?t =
      Some (ps', ?t\<lparr>proc_list := p # proc_list ?t, nr_process := nr_process ?t + 1\<rparr>)"
    "family no_elder ps' (kids(par := p # kids par))" "same_but_links ?ps ps'" "\<forall>q. parent (ps' q) = parent (?ps q)"
    using set_links_family [OF family_pid [OF f, of p n], of p par ?t] p(1-3) by auto
  let ?t' = "?t\<lparr>proc_list := p # proc_list ?t, nr_process := nr_process ?t + 1\<rparr>"
  have old: "q \<noteq> p" "pid (ps q) \<noteq> n" if "q \<in> set (proc_list t)" for q
    using that p(4) g(4) by (auto simp: pids_def)
  have "table_ok ?ps ?t'"
    unfolding table_ok_def
  proof (intro conjI allI)
    show "distinct (proc_list ?t')" using t(1) p(4) by (simp add: table_ok_def t1)
    show "inj_on (\<lambda>q. pid (?ps q)) (set (proc_list ?t'))"
      using t(1) old by (auto simp: table_ok_def t1 inj_on_def)
    show "\<forall>q\<in>set (proc_list ?t'). 1 \<le> pid (?ps q) \<and> pid (?ps q) < MAX_PID"
      using t(1) g(2,3) by (auto simp: table_ok_def t1)
    show "pid_ok ?ps ?t'"
      using g(2,6,7) by (auto simp: pid_ok_def pids_def t1)
    show "nr_process ?t' = int (length (proc_list ?t')) + 1" using t(1) by (simp add: table_ok_def t1)
    fix h
    have h: "distinct (hash_list t h)" "set (hash_list t h) = {q \<in> set (proc_list t). pid_hashfn (pid (ps q)) = h}"
      using t(1) by (auto simp: table_ok_def)
    show "distinct (hash_list ?t' h)" using h p(4) by (auto simp: t1)
    show "set (hash_list ?t' h) = {q \<in> set (proc_list ?t'). pid_hashfn (pid (?ps q)) = h}"
      using h(2) old(1) by (auto simp: t1)
  qed
  then have "table_ok ps' ?t'" by (rule table_ok_cong) (rule same_but_linksD(1) [OF s(3)])
  moreover have "register_proc p ps t = Some (ps', ?t')" using g(1) s(1) by (simp add: register_proc_def)
  moreover have "\<forall>q. parent (ps' q) = parent (ps q)" using s(4) by auto
  ultimately show ?thesis using s g(2-4) t1
    by (intro exI [of _ ps'] exI [of _ ?t'] exI [of _ n]) simp
qed

lemma reap_ok:
  assumes t: "table_ok ps t" and f: "family no_elder ps kids"
    and p: "parent (ps p) = Some par" "p \<in> set (kids par)" "p \<in> set (proc_list t)"
  shows "\<exists>ps' t'. reap_proc p ps t = Some (ps', t') \<and> table_ok ps' t' \<and>
    family no_elder ps' (kids(par := remove1 p (kids par))) \<and> proc_list t' = remove1 p (proc_list t) \<and>
    same_but_links ps ps' \<and> (\<forall>q. parent (ps' q) = parent (ps q)) \<and> nr_process t' = nr_process t - 1"
proof -
  let ?t = "unhash_proc p ps t"
  obtain ps' where s: "remove_links p ps ?t =
      Some (ps', ?t\<lparr>proc_list := remove1 p (proc_list ?t), nr_process := nr_process ?t - 1\<rparr>)"
    "family no_elder ps' (kids(par := remove1 p (kids par)))" "same_but_links ps ps'"
    "\<forall>q. parent (ps' q) = parent (ps q)"
    using remove_links_family [OF f p(1,2), of ?t] by auto
  let ?t' = "?t\<lparr>proc_list := remove1 p (proc_list ?t), nr_process := nr_process ?t - 1\<rparr>"
  have d: "distinct (proc_list t)" using t by (simp add: table_ok_def)
  then have st: "set (remove1 p (proc_list t)) = set (proc_list t) - {p}" by (rule set_remove1_eq)
  have "table_ok ps ?t'"
    unfolding table_ok_def
  proof (intro conjI allI)
    show "distinct (proc_list ?t')" using d by simp
    show "inj_on (\<lambda>q. pid (ps q)) (set (proc_list ?t'))"
      using t st by (auto simp: table_ok_def intro: inj_on_subset)
    show "\<forall>q\<in>set (proc_list ?t'). 1 \<le> pid (ps q) \<and> pid (ps q) < MAX_PID"
      using t st by (auto simp: table_ok_def)
    show "pid_ok ps ?t'" using t st by (auto simp: table_ok_def pid_ok_def pids_def)
    have "length (proc_list t) \<noteq> 0" using p(3) by auto
    then show "nr_process ?t' = int (length (proc_list ?t')) + 1"
      using t p(3) by (simp add: table_ok_def length_remove1 of_nat_diff Suc_le_eq)
    fix h
    have h: "distinct (hash_list t h)" "set (hash_list t h) = {q \<in> set (proc_list t). pid_hashfn (pid (ps q)) = h}"
      using t by (auto simp: table_ok_def)
    show "distinct (hash_list ?t' h)" using h(1) by (auto intro: distinct_remove1)
    show "set (hash_list ?t' h) = {q \<in> set (proc_list ?t'). pid_hashfn (pid (ps q)) = h}"
      using h st by auto
  qed
  then have "table_ok ps' ?t'" by (rule table_ok_cong) (rule same_but_linksD(1) [OF s(3)])
  then show ?thesis using s by (simp add: reap_proc_def)
qed

section \<open>Properties of the process table\<close>

definition demo_table :: proc_table where
  "demo_table = \<lparr>proc_list = [5, 7], hash_list = (\<lambda>_. []), nr_process = 3, next_safe = 2, last_pid = 1\<rparr>"

definition demo_pids :: procs where
  "demo_pids p = \<lparr>pstate = PROC_RUNNABLE, pid = (if p = 5 then 2 else 1), runs = 0, kstack = None,
     need_resched = False, parent = None, mm = None, cr3 = 0, pflags = 0, pname = '''', exit_code = 0,
     wait_state = 0, cptr = None, yptr = None, optr = None, on_rq = False, time_slice = 0, fs_struct = None,
     lab6_stride = 0, lab6_priority = 0\<rparr>"

text \<open>
  C18. Let the two static variables be as \<^verbatim>\<open>get_pid\<close> leaves them (\<open>pid_ok\<close>): \<^verbatim>\<open>last_pid\<close>
  is at least 1, \<^verbatim>\<open>next_safe\<close> at most \<^verbatim>\<open>MAX_PID\<close>, and no process has a pid
  strictly between them.  As long as fewer than \<^verbatim>\<open>MAX_PID - 1\<close> processes exist, \<^verbatim>\<open>get_pid\<close> then
  ends and returns a pid between 1 and \<^verbatim>\<open>MAX_PID - 1\<close> that no process has; and \<open>pid_ok\<close> holds again when a
  process takes that pid and joins the list.
\<close>

theorem get_pid_fresh:
  assumes "pid_ok ps t" "int (length (proc_list t)) < MAX_PID - 1"
  shows "\<exists>n t'. get_pid ps t = Some (n, t') \<and> 1 \<le> n \<and> n < MAX_PID \<and> n \<notin> pids ps t \<and>
    pid_ok (upd_proc p (\<lambda>d. d\<lparr>pid := n\<rparr>) ps) (t'\<lparr>proc_list := p # removeAll p (proc_list t')\<rparr>)"
proof -
  obtain n t' where g: "get_pid ps t = Some (n, t')" "1 \<le> n" "n < MAX_PID" "n \<notin> pids ps t"
    "t' = t\<lparr>last_pid := n, next_safe := next_safe t'\<rparr>" "next_safe t' \<le> MAX_PID"
    "\<forall>m\<in>pids ps t. \<not> (n \<le> m \<and> m < next_safe t')"
    using get_pid_ok [OF assms] by blast
  have "last_pid t' = n" "proc_list t' = proc_list t" by (subst g(5), simp)+
  then show ?thesis using g by (auto simp: pid_ok_def pids_def)
qed

theorem get_pid_fresh_witness:
  "\<exists>t'. get_pid demo_pids demo_table = Some (3, t') \<and> 3 \<notin> pids demo_pids demo_table"
proof -
  have "pid_ok demo_pids demo_table" by (simp add: pid_ok_def pids_def demo_pids_def demo_table_def proc_limits)
  moreover have "int (length (proc_list demo_table)) < MAX_PID - 1"
    by (simp add: demo_table_def proc_limits)
  ultimately obtain n t' where g: "get_pid demo_pids demo_table = Some (n, t')" "n \<notin> pids demo_pids demo_table"
    using get_pid_fresh [of demo_pids demo_table 9] by blast
  have "n = 3"
    using g(1) by (simp add: get_pid_def Let_def demo_table_def demo_pids_def proc_limits pid_scan.simps)
  then show ?thesis using g by blast
qed

end
