(* ===== verification/Page_Table.thy ===== *)
theory Page_Table
  imports First_Fit Machine_Arith
begin

text \<open>
  Two-level page tables (\<^verbatim>\<open>kern/mm/pmm.c\<close>, \<^verbatim>\<open>mmu.h\<close>, \<^verbatim>\<open>pmm.h\<close>, \<^verbatim>\<open>la32_tlb.c\<close>) on top
  of the first-fit page allocator.  Managed memory is the array of its page frames, each of 1024
  words; a kernel pointer to a whole page is the index of its frame, a pointer to a table entry the
  frame and the index of the word.  What is stored in the tables are the 32-bit entries of the code,
  addresses and flags included, and the conversions between entries, addresses and frames check the
  bounds the macros check.  The reference count of a page, 32 bits wide in C, is an integer: it never comes near
  the number of entries of all page tables.  Invalidating the TLB is left out.
\<close>

section \<open>Addresses, entries and frames\<close>

definition KERNBASE :: u32 where "KERNBASE = 0xa0000000"
definition KMEMBASE :: u32 where "KMEMBASE = 0xbc000000"
definition KMEMSIZE :: nat where "KMEMSIZE = 16 * 2 ^ 20"
definition USERBASE :: u32 where "USERBASE = 0x10000000"
definition USERTOP :: u32 where "USERTOP = 0x80000000"
definition PGSIZE :: u32 where "PGSIZE = 4096"
definition PTSIZE :: u32 where "PTSIZE = 0x400000"
definition npage :: nat where "npage = 4096"

definition PTE_P :: u32 where "PTE_P = 1"
definition PTE_W :: u32 where "PTE_W = 2"
definition PTE_U :: u32 where "PTE_U = 4"
definition PTE_USER :: u32 where "PTE_USER = 7"

definition USER_ACCESS :: "u32 \<Rightarrow> u32 \<Rightarrow> bool" where
  "USER_ACCESS start en \<longleftrightarrow> USERBASE \<le> start \<and> start < en \<and> en \<le> USERTOP"

definition PDX :: "u32 \<Rightarrow> nat" where
  "PDX la = unat (drop_bit 22 la AND 0x3FF)"

definition PTX :: "u32 \<Rightarrow> nat" where
  "PTX la = unat (drop_bit 12 la AND 0x3FF)"

definition PPN :: "u32 \<Rightarrow> nat" where
  "PPN la = unat (drop_bit 12 (la - KMEMBASE))"

definition PTE_ADDR :: "u32 \<Rightarrow> u32" where
  "PTE_ADDR e = e AND NOT 0xFFF"

definition page2pa :: "nat \<Rightarrow> u32" where
  "page2pa p = KMEMBASE + push_bit 12 (of_nat p)"

definition pa2page :: "u32 \<Rightarrow> nat option" where
  "pa2page pa = do { kassert (PPN pa < npage); Some (PPN pa) }"

definition KADDR :: "u32 \<Rightarrow> u32 option" where
  "KADDR pa = do { kassert (PPN pa < npage); Some pa }"

definition PADDR :: "u32 \<Rightarrow> u32 option" where
  "PADDR kva = do { kassert (KMEMBASE \<le> kva); Some kva }"

definition page2kva :: "nat \<Rightarrow> u32 option" where
  "page2kva p = KADDR (page2pa p)"

definition kva2page :: "u32 \<Rightarrow> nat option" where
  "kva2page kva = Option.bind (PADDR kva) pa2page"

definition pte2page :: "u32 \<Rightarrow> nat option" where
  "pte2page e = do { kassert (e AND PTE_P \<noteq> 0); pa2page (PTE_ADDR e) }"

definition pde2page :: "u32 \<Rightarrow> nat option" where
  "pde2page e = pa2page (PTE_ADDR e)"

section \<open>The operations\<close>

record vmem =
  phys :: pmm
  frames :: "nat \<Rightarrow> nat \<Rightarrow> u32"

definition write_word :: "nat \<Rightarrow> nat \<Rightarrow> u32 \<Rightarrow> vmem \<Rightarrow> vmem" where
  "write_word f i v s = s\<lparr>frames := (frames s)(f := (frames s f)(i := v))\<rparr>"

definition page_ref :: "nat \<Rightarrow> vmem \<Rightarrow> int" where
  "page_ref p s = ref (pages (phys s) p)"

definition page_ref_inc :: "nat \<Rightarrow> vmem \<Rightarrow> vmem" where
  "page_ref_inc p s = s\<lparr>phys := (phys s)\<lparr>pages := set_page_ref p (page_ref p s + 1) (pages (phys s))\<rparr>\<rparr>"

definition page_ref_dec :: "nat \<Rightarrow> vmem \<Rightarrow> vmem" where
  "page_ref_dec p s = s\<lparr>phys := (phys s)\<lparr>pages := set_page_ref p (page_ref p s - 1) (pages (phys s))\<rparr>\<rparr>"

definition alloc_pages :: "nat \<Rightarrow> vmem \<Rightarrow> (nat option \<times> vmem) option" where
  "alloc_pages n s = do { (r, ph) \<leftarrow> default_alloc_pages n (phys s); Some (r, s\<lparr>phys := ph\<rparr>) }"

definition free_pages :: "nat \<Rightarrow> nat \<Rightarrow> vmem \<Rightarrow> vmem option" where
  "free_pages p n s = do { ph \<leftarrow> default_free_pages p n (phys s); Some (s\<lparr>phys := ph\<rparr>) }"

definition get_pte :: "nat \<Rightarrow> u32 \<Rightarrow> bool \<Rightarrow> vmem \<Rightarrow> ((nat \<times> nat) option \<times> vmem) option" where
  "get_pte pgdir la create s = do {
     (ok, s) \<leftarrow>
       (if frames s pgdir (PDX la) AND PTE_P = 0 then
          (if \<not> create then Some (False, s)
           else do {
             (new_pte, s) \<leftarrow> alloc_pages 1 s;
             (case new_pte of
                None \<Rightarrow> Some (False, s)
              | Some p \<Rightarrow> do {
                  let s = page_ref_inc p s;
                  pa \<leftarrow> page2kva p;
                  let s = s\<lparr>frames := (frames s)(p := (\<lambda>_. 0))\<rparr>;
                  pa \<leftarrow> PADDR pa;
                  let s = write_word pgdir (PDX la) pa s;
                  Some (True, write_word pgdir (PDX la)
                    (frames s pgdir (PDX la) OR (PTE_U OR PTE_P OR PTE_W)) s)
                })
           })
        else Some (True, s));
     if ok then do { p \<leftarrow> pde2page (frames s pgdir (PDX la)); Some (Some (p, PTX la), s) }
     else Some (None, s)
   }"

definition get_page :: "nat \<Rightarrow> u32 \<Rightarrow> vmem \<Rightarrow> (nat option \<times> (nat \<times> nat) option \<times> vmem) option" where
  "get_page pgdir la s = do {
     (ptep, s) \<leftarrow> get_pte pgdir la False s;
     (case ptep of
        Some (f, i) \<Rightarrow>
          if frames s f i AND PTE_P \<noteq> 0 then do { p \<leftarrow> pa2page (frames s f i); Some (Some p, ptep, s) }
          else Some (None, ptep, s)
      | None \<Rightarrow> Some (None, ptep, s))
   }"

definition page_remove_pte :: "nat \<Rightarrow> nat \<Rightarrow> vmem \<Rightarrow> vmem option" where
  "page_remove_pte f i s =
     (if frames s f i AND PTE_P \<noteq> 0 then do {
        p \<leftarrow> pte2page (frames s f i);
        let s = page_ref_dec p s;
        s \<leftarrow> (if page_ref p s = 0 then free_pages p 1 s else Some s);
        Some (write_word f i 0 s)
      } else Some s)"

definition page_remove :: "nat \<Rightarrow> u32 \<Rightarrow> vmem \<Rightarrow> vmem option" where
  "page_remove pgdir la s = do {
     (ptep, s) \<leftarrow> get_pte pgdir la False s;
     (case ptep of Some (f, i) \<Rightarrow> page_remove_pte f i s | None \<Rightarrow> Some s)
   }"

definition page_insert :: "nat \<Rightarrow> nat \<Rightarrow> u32 \<Rightarrow> u32 \<Rightarrow> vmem \<Rightarrow> (int \<times> vmem) option" where
  "page_insert pgdir page la perm s = do {
     (ptep, s) \<leftarrow> get_pte pgdir la True s;
     (case ptep of
        None \<Rightarrow> Some (fail_code E_NO_MEM, s)
      | Some (f, i) \<Rightarrow> do {
          let s = page_ref_inc page s;
          s \<leftarrow> (if frames s f i AND PTE_P \<noteq> 0 then do {
                 p \<leftarrow> pte2page (frames s f i);
                 if p = page then Some (page_ref_dec page s) else page_remove_pte f i s
               } else Some s);
          Some (0, write_word f i (page2pa page OR PTE_P OR perm) s)
        })
   }"

definition pgdir_alloc_page :: "nat \<Rightarrow> u32 \<Rightarrow> u32 \<Rightarrow> vmem \<Rightarrow> (nat option \<times> vmem) option" where
  "pgdir_alloc_page pgdir la perm s = do {
     (page, s) \<leftarrow> alloc_pages 1 s;
     (case page of
        None \<Rightarrow> Some (None, s)
      | Some p \<Rightarrow> do {
          (r, s) \<leftarrow> page_insert pgdir p la perm s;
          if r \<noteq> 0 then do { s \<leftarrow> free_pages p 1 s; Some (None, s) } else Some (Some p, s)
        })
   }"

text \<open>
  The loops over an address range are \<^verbatim>\<open>do ... while (start != 0 && start < end)\<close> on wrapping
  32-bit addresses.
\<close>

partial_function (option) unmap_loop :: "nat \<Rightarrow> u32 \<Rightarrow> u32 \<Rightarrow> vmem \<Rightarrow> vmem option" where
  "unmap_loop pgdir start en s = do {
     (ptep, s) \<leftarrow> get_pte pgdir start False s;
     (start, s) \<leftarrow> (case ptep of
         None \<Rightarrow> Some (rounddown_2n (start + PTSIZE) 22, s)
       | Some (f, i) \<Rightarrow> do {
           s \<leftarrow> (if frames s f i \<noteq> 0 then page_remove_pte f i s else Some s);
           Some (start + PGSIZE, s)
         });
     if start \<noteq> 0 \<and> start < en then unmap_loop pgdir start en s else Some s
   }"

definition unmap_range :: "nat \<Rightarrow> u32 \<Rightarrow> u32 \<Rightarrow> vmem \<Rightarrow> vmem option" where
  "unmap_range pgdir start en s = do {
     kassert (start mod PGSIZE = 0 \<and> en mod PGSIZE = 0);
     kassert (USER_ACCESS start en);
     unmap_loop pgdir start en s
   }"

partial_function (option) exit_loop :: "nat \<Rightarrow> u32 \<Rightarrow> u32 \<Rightarrow> vmem \<Rightarrow> vmem option" where
  "exit_loop pgdir start en s = do {
     s \<leftarrow> (if frames s pgdir (PDX start) AND PTE_P \<noteq> 0 then do {
            p \<leftarrow> pde2page (frames s pgdir (PDX start));
            s \<leftarrow> free_pages p 1 s;
            Some (write_word pgdir (PDX start) 0 s)
          } else Some s);
     let start = start + PTSIZE;
     if start \<noteq> 0 \<and> start < en then exit_loop pgdir start en s else Some s
   }"

definition exit_range :: "nat \<Rightarrow> u32 \<Rightarrow> u32 \<Rightarrow> vmem \<Rightarrow> vmem option" where
  "exit_range pgdir start en s = do {
     kassert (start mod PGSIZE = 0 \<and> en mod PGSIZE = 0);
     kassert (USER_ACCESS start en);
     exit_loop pgdir (rounddown_2n start 22) en s
   }"

text \<open>
  The return value of \<^verbatim>\<open>page_insert\<close> is not looked at, as in the code.  When a table is missing,
  \<^verbatim>\<open>copy_range\<close> rounds with \<^verbatim>\<open>PGSHIFT\<close>.
\<close>

partial_function (option) copy_loop :: "nat \<Rightarrow> nat \<Rightarrow> u32 \<Rightarrow> u32 \<Rightarrow> vmem \<Rightarrow> (int \<times> vmem) option" where
  "copy_loop dst src start en s = do {
     (ptep, s) \<leftarrow> get_pte src start False s;
     (case ptep of
        None \<Rightarrow>
          (let start = rounddown_2n (start + PTSIZE) 12
           in if start \<noteq> 0 \<and> start < en then copy_loop dst src start en s else Some (0, s))
      | Some (f, i) \<Rightarrow> do {
          (ok, s) \<leftarrow>
            (if frames s f i AND PTE_P \<noteq> 0 then do {
               (nptep, s) \<leftarrow> get_pte dst start True s;
               (case nptep of
                  None \<Rightarrow> Some (False, s)
                | Some _ \<Rightarrow> do {
                    let perm = frames s f i AND PTE_USER;
                    page \<leftarrow> pte2page (frames s f i);
                    (np, s) \<leftarrow> alloc_pages 1 s;
                    np \<leftarrow> np;
                    let s = s\<lparr>frames := (frames s)(np := frames s page)\<rparr>;
                    (r, s) \<leftarrow> page_insert dst np start perm s;
                    Some (True, s)
                  })
             } else Some (True, s));
          if \<not> ok then Some (fail_code E_NO_MEM, s)
          else (let start = start + PGSIZE
                in if start \<noteq> 0 \<and> start < en then copy_loop dst src start en s else Some (0, s))
        })
   }"

definition copy_range :: "nat \<Rightarrow> nat \<Rightarrow> u32 \<Rightarrow> u32 \<Rightarrow> vmem \<Rightarrow> (int \<times> vmem) option" where
  "copy_range dst src start en s = do {
     kassert (start mod PGSIZE = 0 \<and> en mod PGSIZE = 0);
     kassert (USER_ACCESS start en);
     copy_loop dst src start en s
   }"

fun map_segment_loop :: "nat \<Rightarrow> u32 \<Rightarrow> u32 \<Rightarrow> u32 \<Rightarrow> nat \<Rightarrow> vmem \<Rightarrow> vmem option" where
  "map_segment_loop pgdir la pa perm 0 s = Some s"
| "map_segment_loop pgdir la pa perm (Suc n) s = do {
     (ptep, s) \<leftarrow> get_pte pgdir la True s;
     (f, i) \<leftarrow> ptep;
     map_segment_loop pgdir (la + PGSIZE) (pa + PGSIZE) perm n (write_word f i (pa OR PTE_P OR perm) s)
   }"

definition PGOFF :: "u32 \<Rightarrow> u32" where
  "PGOFF la = la AND 0xFFF"

definition boot_map_segment :: "nat \<Rightarrow> u32 \<Rightarrow> u32 \<Rightarrow> u32 \<Rightarrow> u32 \<Rightarrow> vmem \<Rightarrow> vmem option" where
  "boot_map_segment pgdir la sz pa perm s = do {
     kassert (PGOFF la = PGOFF pa);
     let n = unat (drop_bit 12 (roundup_2n (sz + PGOFF la) 12));
     map_segment_loop pgdir (rounddown_2n la 12) (rounddown_2n pa 12) perm n s
   }"

section \<open>Arithmetic of addresses and entries\<close>

lemmas pte_flags = PTE_P_def PTE_W_def PTE_U_def PTE_USER_def

lemma unat_page2pa: "p < npage \<Longrightarrow> unat (page2pa p) = 0xbc000000 + p * 4096"
proof -
  assume p: "p < npage"
  then have "unat (of_nat p :: u32) = p" by (simp add: unsigned_of_nat take_bit_nat_eq_self npage_def)
  then have "unat (push_bit 12 (of_nat p) :: u32) = p * 4096"
    using p by (simp add: push_bit_eq_mult unat_mul_u32 npage_def)
  then show ?thesis using p unfolding page2pa_def KMEMBASE_def
    by (subst unat_add_u32) (simp_all add: npage_def)
qed

lemma page2pa_low: "page2pa p AND 0xFFF = 0"
proof -
  have "(0xFFF :: u32) = mask 12" by (simp add: mask_eq_exp_minus_1)
  moreover have "page2pa p = push_bit 12 (0xbc000 + of_nat p)"
    by (simp add: page2pa_def KMEMBASE_def push_bit_eq_mult algebra_simps)
  ultimately show ?thesis by (simp only: flip: take_bit_eq_mask) (simp add: take_bit_push_bit)
qed

lemma entry_bits:
  assumes "x AND NOT 0xFFF = 0"
  shows "(page2pa p OR x) AND NOT 0xFFF = page2pa p" "(page2pa p OR x) AND PTE_P = x AND PTE_P"
    "(page2pa p OR x) AND PTE_USER = x AND PTE_USER"
proof -
  have low: "page2pa p AND m = 0" if "m AND NOT 0xFFF = 0" for m
  proof -
    have "m = (m AND 0xFFF) OR (m AND NOT 0xFFF)" by (simp flip: bit.conj_disj_distrib)
    then have e: "m = 0xFFF AND m" using that by (simp add: and.commute)
    have "page2pa p AND m = (page2pa p AND 0xFFF) AND m" by (subst e) (simp only: and.assoc)
    then show ?thesis by (simp only: page2pa_low) simp
  qed
  have "page2pa p AND NOT 0xFFF = page2pa p"
  proof -
    have "page2pa p = (page2pa p AND 0xFFF) OR (page2pa p AND NOT 0xFFF)" by (simp flip: bit.conj_disj_distrib)
    then show ?thesis by (simp only: page2pa_low) simp
  qed
  then show "(page2pa p OR x) AND NOT 0xFFF = page2pa p"
    using assms by (simp add: bit.conj_disj_distrib2)
  show "(page2pa p OR x) AND PTE_P = x AND PTE_P" "(page2pa p OR x) AND PTE_USER = x AND PTE_USER"
    using low [of PTE_P] low [of PTE_USER] by (simp_all add: bit.conj_disj_distrib2 pte_flags)
qed

lemma unat_KMEMBASE: "unat KMEMBASE = 0xbc000000" by (simp add: KMEMBASE_def)

lemma PPN_page2pa: "p < npage \<Longrightarrow> PPN (page2pa p) = p"
proof -
  assume p: "p < npage"
  have "unat (page2pa p - KMEMBASE) = p * 4096"
    using unat_page2pa [OF p] by (subst unat_sub_u32) (simp_all add: unat_KMEMBASE)
  then show ?thesis by (simp add: PPN_def unat_shiftr)
qed

lemma kernel_conversions [simp]:
  assumes "p < npage"
  shows "page2kva p = Some (page2pa p)" "PADDR (page2pa p) = Some (page2pa p)"
    "kva2page (page2pa p) = Some p" "pa2page (page2pa p) = Some p" "KADDR (page2pa p) = Some (page2pa p)"
proof -
  have "KMEMBASE \<le> page2pa p" using unat_page2pa [OF assms] by (simp add: word_le_nat_alt unat_KMEMBASE)
  then show "page2kva p = Some (page2pa p)" "PADDR (page2pa p) = Some (page2pa p)"
    "kva2page (page2pa p) = Some p" "pa2page (page2pa p) = Some p" "KADDR (page2pa p) = Some (page2pa p)"
    using assms by (simp_all add: page2kva_def PADDR_def kva2page_def pa2page_def KADDR_def PPN_page2pa)
qed

lemma entry_decode:
  assumes "x AND NOT 0xFFF = 0"
  shows "PTE_ADDR (page2pa p OR x) = page2pa p" "(page2pa p OR x) AND PTE_P = x AND PTE_P"
    "p < npage \<Longrightarrow> pde2page (page2pa p OR x) = Some p"
  using entry_bits [OF assms] by (simp_all add: PTE_ADDR_def pde2page_def)

lemma PDX_PTX: "PDX la = unat la div 2 ^ 22" "PTX la = unat la div 2 ^ 12 mod 1024"
proof -
  have m: "unat (w AND 0x3FF) = unat w mod 1024" for w :: u32
  proof -
    have "(0x3FF :: u32) = mask 10" by (simp add: mask_eq_exp_minus_1)
    then show ?thesis by (simp only: flip: take_bit_eq_mask) (simp add: unsigned_take_bit_eq take_bit_eq_mod unat_mod)
  qed
  show "PTX la = unat la div 2 ^ 12 mod 1024" by (simp add: PTX_def m unat_shiftr)
  have "unat la div 2 ^ 22 < 1024" using unat_u32_bound [of la] by (simp add: less_mult_imp_div_less)
  then show "PDX la = unat la div 2 ^ 22" by (simp add: PDX_def m unat_shiftr)
qed

lemma PDX_bound: "PDX la < 1024" "PTX la < 1024"
  using unat_u32_bound [of la] by (simp_all add: PDX_PTX less_mult_imp_div_less)

lemma same_page: "PDX a = PDX b \<and> PTX a = PTX b \<longleftrightarrow> unat a div 4096 = unat b div 4096"
proof -
  have e: "unat c div 4194304 = unat c div 4096 div 1024" for c :: u32 by (simp flip: div_mult2_eq)
  show ?thesis by (simp add: PDX_PTX e) (metis div_mult_mod_eq)
qed

end
