(* ===== verification/Page_Map.thy ===== *)
theory Page_Map
  imports Page_Table
begin

text \<open>
  What the page-table routines do to an address space.  \<open>slot s pd d t\<close> is the entry that
  translates the page with directory index \<open>d\<close> and table index \<open>t\<close>; \<open>space_ok\<close> is the invariant of
  one address space: its tables and the pages it maps are allocated frames, pairwise different
  tables, and no reference count is below the number of mappings.
\<close>

section \<open>Reference counts and the page allocator\<close>

lemma alloc_keeps_refs:
  assumes "default_alloc_pages n s = Some (r, s')"
  shows "ref (pages s' x) = ref (pages s x)"
  using assms by (auto simp: default_alloc_pages_def Let_def split: if_splits option.splits)

lemma free_reset_ref:
  "free_reset b n pg = Some pg' \<Longrightarrow> ref (pg' x) = (if b \<le> x \<and> x < b + n then 0 else ref (pg x))"
proof (induction b n pg arbitrary: pg' rule: free_reset.induct)
  case (2 p n pg)
  then have "ref (pg' x) = (if Suc p \<le> x \<and> x < Suc p + n then 0 else ref (set_page_ref p 0 (set_flags p 0 pg) x))"
    by (auto split: if_splits)
  then show ?case by (auto simp: not_less_eq_eq le_less_Suc_eq)
qed simp

lemma merge_loop_ref: "ref (fst (merge_loop le pg fl base) x) = ref (pg x)"
  by (induction le arbitrary: pg fl base) auto

lemma free_refs:
  assumes "default_free_pages b n s = Some s'"
  shows "ref (pages s' x) = (if b \<le> x \<and> x < b + n then 0 else ref (pages s x))"
proof -
  obtain pg where pg: "free_reset b n (pages s) = Some pg"
    using assms by (cases "free_reset b n (pages s)") (auto simp: default_free_pages_def split: if_splits)
  let ?m = "merge_loop (free_list s) (SetPageProperty b (set_property b n pg)) (free_list s) b"
  obtain pg2 fl c where m: "?m = (pg2, fl, c)" by (cases ?m)
  have "pages s' = pg2"
    using assms pg m by (auto simp: default_free_pages_def bind_eq_Some_conv split: if_splits)
  then have s': "pages s' = fst ?m" by (simp add: m)
  show ?thesis using free_reset_ref [OF pg] by (simp add: s' merge_loop_ref)
qed

lemma ref_irrelevant [simp]:
  "ff_inv N (s\<lparr>pages := set_page_ref p v (pages s)\<rparr>) = ff_inv N s"
  "free_set (s\<lparr>pages := set_page_ref p v (pages s)\<rparr>) = free_set s"
  "usable N (s\<lparr>pages := set_page_ref p v (pages s)\<rparr>) = usable N s"
proof -
  have "blocks (s\<lparr>pages := set_page_ref p v (pages s)\<rparr>) = blocks s" by (simp add: blocks_def blk_def)
  then show "ff_inv N (s\<lparr>pages := set_page_ref p v (pages s)\<rparr>) = ff_inv N s"
    "free_set (s\<lparr>pages := set_page_ref p v (pages s)\<rparr>) = free_set s"
    "usable N (s\<lparr>pages := set_page_ref p v (pages s)\<rparr>) = usable N s"
    by (simp_all add: ff_inv_def free_set_def usable_def fun_eq_iff)
qed

section \<open>Address spaces\<close>

definition frame_of :: "u32 \<Rightarrow> nat" where
  "frame_of e = PPN (PTE_ADDR e)"

definition live :: "u32 \<Rightarrow> bool" where
  "live e \<longleftrightarrow> e AND PTE_P \<noteq> 0"

definition slot :: "vmem \<Rightarrow> nat \<Rightarrow> nat \<Rightarrow> nat \<Rightarrow> u32" where
  "slot s pd d t = (if live (frames s pd d) then frames s (frame_of (frames s pd d)) t else 0)"

definition dirs :: "vmem \<Rightarrow> nat \<Rightarrow> nat set" where
  "dirs s pd = {d. d < 1024 \<and> live (frames s pd d)}"

definition tables :: "vmem \<Rightarrow> nat \<Rightarrow> nat set" where
  "tables s pd = (\<lambda>d. frame_of (frames s pd d)) ` dirs s pd"

definition maps :: "vmem \<Rightarrow> nat \<Rightarrow> nat \<Rightarrow> (nat \<times> nat) set" where
  "maps s pd q = {(d, t). d < 1024 \<and> t < 1024 \<and> live (slot s pd d t) \<and> frame_of (slot s pd d t) = q}"

definition used :: "vmem \<Rightarrow> nat set" where
  "used s = {x. usable npage (phys s) x \<and> x \<notin> free_set (phys s)}"

definition space_ok :: "vmem \<Rightarrow> nat \<Rightarrow> bool" where
  "space_ok s pd \<longleftrightarrow> ff_inv npage (phys s) \<and> insert pd (tables s pd) \<subseteq> used s \<and> pd \<notin> tables s pd \<and>
     inj_on (\<lambda>d. frame_of (frames s pd d)) (dirs s pd) \<and>
     (\<forall>q. maps s pd q \<noteq> {} \<longrightarrow> q \<in> used s \<and> q \<notin> insert pd (tables s pd) \<and>
        int (card (maps s pd q)) \<le> page_ref q s)"

lemma live_0 [simp]: "\<not> live 0" by (simp add: live_def)

lemma maps_finite: "finite (maps s pd q)"
  by (rule finite_subset [of _ "{..<1024} \<times> {..<1024}"]) (auto simp: maps_def)

lemma used_npage: "x \<in> used s \<Longrightarrow> x < npage"
  by (simp add: used_def usable_def)

lemma page_ref_simps [simp]:
  "page_ref q (page_ref_inc p s) = (if q = p then page_ref p s + 1 else page_ref q s)"
  "page_ref q (page_ref_dec p s) = (if q = p then page_ref p s - 1 else page_ref q s)"
  "page_ref q (write_word f i v s) = page_ref q s"
  "frames (page_ref_inc p s) = frames s" "frames (page_ref_dec p s) = frames s"
  "ff_inv N (phys (page_ref_inc p s)) = ff_inv N (phys s)"
  "ff_inv N (phys (page_ref_dec p s)) = ff_inv N (phys s)"
  "used (page_ref_inc p s) = used s" "used (page_ref_dec p s) = used s" "used (write_word f i v s) = used s"
  "phys (write_word f i v s) = phys s"
  "free_set (phys (page_ref_inc p s)) = free_set (phys s)"
  "free_set (phys (page_ref_dec p s)) = free_set (phys s)"
  "frames (write_word f i v s) g j = (if g = f \<and> j = i then v else frames s g j)"
  by (simp_all add: page_ref_inc_def page_ref_dec_def write_word_def page_ref_def used_def)

lemma alloc_page_ok:
  assumes "ff_inv npage (phys s)"
  shows "\<exists>r s'. alloc_pages 1 s = Some (r, s') \<and> ff_inv npage (phys s') \<and> frames s' = frames s \<and>
    (\<forall>q. page_ref q s' = page_ref q s) \<and>
    (case r of None \<Rightarrow> s' = s \<and> free_set (phys s) = {}
     | Some p \<Rightarrow> p < npage \<and> p \<notin> used s \<and> used s' = insert p (used s) \<and>
         p \<in> free_set (phys s) \<and> free_set (phys s') = free_set (phys s) - {p})"
proof -
  obtain r ph where a: "default_alloc_pages 1 (phys s) = Some (r, ph)" "ff_inv npage ph"
    "usable npage ph = usable npage (phys s)"
    "case r of None \<Rightarrow> ph = phys s \<and> (\<forall>b. \<not> {b..<b + 1} \<subseteq> free_set (phys s))
     | Some b \<Rightarrow> {b..<b + 1} \<subseteq> free_set (phys s) \<and> free_set ph = free_set (phys s) - {b..<b + 1} \<and>
         (\<forall>c. {c..<c + 1} \<subseteq> free_set (phys s) \<longrightarrow> b \<le> c)"
    using ff.alloc_law [OF assms, of 1] by auto
  have u: "usable npage (phys s) x" if "x \<in> free_set (phys s)" for x
    using ff.free_usable [OF assms that] .
  have one: "{b..<b + 1} = {b :: nat}" for b by auto
  have "alloc_pages 1 s = Some (r, s\<lparr>phys := ph\<rparr>)" using a(1) by (simp add: alloc_pages_def)
  moreover have "page_ref q (s\<lparr>phys := ph\<rparr>) = page_ref q s" for q
    using alloc_keeps_refs [OF a(1)] by (simp add: page_ref_def)
  moreover have "case r of None \<Rightarrow> s\<lparr>phys := ph\<rparr> = s \<and> free_set (phys s) = {}
     | Some p \<Rightarrow> p < npage \<and> p \<notin> used s \<and> used (s\<lparr>phys := ph\<rparr>) = insert p (used s) \<and>
         p \<in> free_set (phys s) \<and> free_set ph = free_set (phys s) - {p}"
    using a(3,4) u unfolding one by (auto simp: used_def usable_def split: option.splits)
  ultimately show ?thesis using a(2) by (auto split: option.splits)
qed

lemma free_page_ok:
  assumes "ff_inv npage (phys s)" "p \<in> used s"
  shows "\<exists>s'. free_pages p 1 s = Some s' \<and> ff_inv npage (phys s') \<and> frames s' = frames s \<and>
    used s' = used s - {p} \<and> free_set (phys s') = insert p (free_set (phys s)) \<and>
    (\<forall>q. page_ref q s' = (if q = p then 0 else page_ref q s))"
proof -
  have one: "{p..<p + 1} = {p :: nat}" by auto
  have "{p..<p + 1} \<inter> free_set (phys s) = {}" "\<forall>x\<in>{p..<p + 1}. usable npage (phys s) x"
    unfolding one using assms(2) by (auto simp: used_def)
  then obtain ph where ph: "default_free_pages p 1 (phys s) = Some ph" "ff_inv npage ph"
    "usable npage ph = usable npage (phys s)" "free_set ph = free_set (phys s) \<union> {p}"
    using ff.free_law [OF assms(1), of 1 p] unfolding one by auto
  have "page_ref q (s\<lparr>phys := ph\<rparr>) = (if q = p then 0 else page_ref q s)" for q
    using free_refs [OF ph(1), of q] by (auto simp: page_ref_def)
  then show ?thesis using ph by (auto simp: free_pages_def used_def)
qed

lemma space_okD:
  assumes "space_ok s pd"
  shows "ff_inv npage (phys s)" "pd \<in> used s" "tables s pd \<subseteq> used s" "pd \<notin> tables s pd"
    "inj_on (\<lambda>d. frame_of (frames s pd d)) (dirs s pd)"
    "maps s pd q \<noteq> {} \<Longrightarrow> q \<in> used s \<and> q \<noteq> pd \<and> q \<notin> tables s pd \<and> int (card (maps s pd q)) \<le> page_ref q s"
  using assms unfolding space_ok_def by blast+

lemma dirs_table: "d < 1024 \<Longrightarrow> live (frames s pd d) \<Longrightarrow> frame_of (frames s pd d) \<in> tables s pd"
  by (auto simp: tables_def dirs_def)

lemma pde2page_frame: "frame_of e < npage \<Longrightarrow> pde2page e = Some (frame_of e)"
  by (simp add: pde2page_def pa2page_def frame_of_def)

lemma pte2page_frame: "live e \<Longrightarrow> frame_of e < npage \<Longrightarrow> pte2page e = Some (frame_of e)"
  by (simp add: pte2page_def pa2page_def frame_of_def live_def)

lemma table_frame:
  assumes "space_ok s pd" "d < 1024" "live (frames s pd d)"
  shows "frame_of (frames s pd d) \<in> used s" "frame_of (frames s pd d) \<noteq> pd" "frame_of (frames s pd d) < npage"
  using dirs_table [OF assms(2,3)] space_okD(3,4) [OF assms(1)] used_npage by auto

lemma get_pte_lookup:
  assumes "space_ok s pd"
  shows "get_pte pd la False s = Some (if live (frames s pd (PDX la))
      then Some (frame_of (frames s pd (PDX la)), PTX la) else None, s)"
  using table_frame(3) [OF assms PDX_bound(1)] pde2page_frame
  by (auto simp: get_pte_def live_def)

lemma new_entry:
  assumes "p < npage"
  shows "frame_of (page2pa p OR (PTE_U OR PTE_P OR PTE_W)) = p" "live (page2pa p OR (PTE_U OR PTE_P OR PTE_W))"
proof -
  have x: "(PTE_U OR PTE_P OR PTE_W) AND NOT 0xFFF = 0" "(PTE_U OR PTE_P OR PTE_W) AND PTE_P \<noteq> 0"
    by (simp_all add: pte_flags)
  show "frame_of (page2pa p OR (PTE_U OR PTE_P OR PTE_W)) = p" "live (page2pa p OR (PTE_U OR PTE_P OR PTE_W))"
    using entry_decode [OF x(1), of p] x(2) assms by (simp_all add: frame_of_def live_def PPN_page2pa)
qed

text \<open>A fresh, cleared table under an empty directory entry changes no translation.\<close>

lemma new_table:
  assumes ok: "space_ok s pd" and d: "d < 1024" "\<not> live (frames s pd d)"
    and p: "p < npage" "p \<notin> used s" and e: "frame_of e = p" "live e"
    and s': "frames s' = (frames s)(p := (\<lambda>_. 0), pd := (frames s pd)(d := e))"
    "ff_inv npage (phys s')" "used s' = insert p (used s)" "\<And>q. q \<in> used s \<Longrightarrow> page_ref q s' = page_ref q s"
  shows "space_ok s' pd" "\<And>x t. x < 1024 \<Longrightarrow> slot s' pd x t = slot s pd x t" "tables s' pd = insert p (tables s pd)"
proof -
  note [simp] = s'(1)
  have pd: "pd \<noteq> p" using space_okD(2) [OF ok] p(2) by auto
  have dirs: "dirs s' pd = insert d (dirs s pd)" using d(1) e pd by (auto simp: dirs_def)
  have nd: "d \<notin> dirs s pd" using d(2) by (simp add: dirs_def)
  have tb: "frame_of (frames s' pd x) = frame_of (frames s pd x)" if "x \<in> dirs s pd" for x
    using that nd pd by auto
  show tables: "tables s' pd = insert p (tables s pd)"
    unfolding tables_def dirs using tb e pd by (auto simp: image_iff intro: bexI)
  show slots: "slot s' pd x t = slot s pd x t" if "x < 1024" for x t
  proof (cases "x = d")
    case True
    then show ?thesis using e d(2) pd by (simp add: slot_def)
  next
    case False
    then show ?thesis
      using table_frame(1,2) [OF ok that] p(2) pd by (auto simp: slot_def)
  qed
  have maps: "maps s' pd q = maps s pd q" for q by (auto simp: maps_def slots)
  show "space_ok s' pd"
    unfolding space_ok_def
  proof (intro conjI allI impI)
    show "ff_inv npage (phys s')" by (rule s'(2))
    show "insert pd (tables s' pd) \<subseteq> used s'" using space_okD(2,3) [OF ok] s'(3) tables by auto
    show "pd \<notin> tables s' pd" using space_okD(4) [OF ok] tables pd by auto
    have "p \<notin> tables s pd" using space_okD(3) [OF ok] p(2) by auto
    then have "frame_of (frames s' pd d) \<notin> (\<lambda>x. frame_of (frames s' pd x)) ` dirs s pd"
      using e pd tb by (auto simp: tables_def)
    moreover have "inj_on (\<lambda>x. frame_of (frames s' pd x)) (dirs s pd)"
      using space_okD(5) [OF ok] by (rule inj_on_cong [THEN iffD2, rotated]) (rule tb)
    moreover have "dirs s pd - {d} = dirs s pd" using nd by blast
    ultimately show "inj_on (\<lambda>x. frame_of (frames s' pd x)) (dirs s' pd)"
      unfolding dirs inj_on_insert by metis
    fix q assume "maps s' pd q \<noteq> {}"
    then have q: "q \<in> used s" "q \<noteq> pd" "q \<notin> tables s pd" "int (card (maps s pd q)) \<le> page_ref q s"
      using space_okD(6) [OF ok] maps by auto
    then show "q \<in> used s'" "q \<notin> insert pd (tables s' pd)" "int (card (maps s' pd q)) \<le> page_ref q s'"
      using s'(3,4) p(2) tables maps by auto
  qed
qed

lemma get_pte_create:
  assumes ok: "space_ok s pd"
  shows "\<exists>r s'. get_pte pd la True s = Some (r, s') \<and> space_ok s' pd \<and>
    (\<forall>d<1024. \<forall>t. slot s' pd d t = slot s pd d t) \<and> used s \<subseteq> used s' \<and>
    (\<forall>q\<in>used s. page_ref q s' = page_ref q s) \<and>
    (\<forall>g\<in>used s. g \<noteq> pd \<longrightarrow> frames s' g = frames s g) \<and>
    tables s pd \<subseteq> tables s' pd \<and> tables s' pd \<inter> used s = tables s pd \<and> used s' - used s \<subseteq> tables s' pd \<and>
    (case r of None \<Rightarrow> s' = s \<and> free_set (phys s) = {}
     | Some (f, i) \<Rightarrow> i = PTX la \<and> live (frames s' pd (PDX la)) \<and> f = frame_of (frames s' pd (PDX la)))"
proof (cases "live (frames s pd (PDX la))")
  case True
  then have "get_pte pd la True s = Some (Some (frame_of (frames s pd (PDX la)), PTX la), s)"
    using table_frame(3) [OF ok PDX_bound(1)] pde2page_frame by (simp add: get_pte_def live_def)
  then show ?thesis using ok True space_okD(3) [OF ok] by auto
next
  case False
  obtain r s1 where a: "alloc_pages 1 s = Some (r, s1)" "ff_inv npage (phys s1)" "frames s1 = frames s"
    "\<forall>q. page_ref q s1 = page_ref q s"
    "case r of None \<Rightarrow> s1 = s \<and> free_set (phys s) = {}
     | Some p \<Rightarrow> p < npage \<and> p \<notin> used s \<and> used s1 = insert p (used s) \<and>
         p \<in> free_set (phys s) \<and> free_set (phys s1) = free_set (phys s) - {p}"
    using alloc_page_ok [OF space_okD(1) [OF ok]] by blast
  show ?thesis
  proof (cases r)
    case None
    then have "get_pte pd la True s = Some (None, s)"
      using a(1,5) False by (simp add: get_pte_def live_def)
    then show ?thesis using ok None a(5) space_okD(3) [OF ok] by auto
  next
    case (Some p)
    let ?e = "page2pa p OR (PTE_U OR PTE_P OR PTE_W)"
    let ?s = "write_word pd (PDX la) ?e
      (write_word pd (PDX la) (page2pa p) ((page_ref_inc p s1)\<lparr>frames := (frames s1)(p := (\<lambda>_. 0))\<rparr>))"
    have p: "p < npage" "p \<notin> used s" "used s1 = insert p (used s)" using a(5) Some by auto
    have pd: "pd \<noteq> p" using space_okD(2) [OF ok] p(2) by auto
    have fr: "frames ?s = (frames s)(p := (\<lambda>_. 0), pd := (frames s pd)(PDX la := ?e))"
      using pd a(3) by (auto simp: write_word_def fun_eq_iff)
    have us: "used ?s = insert p (used s)" "ff_inv npage (phys ?s)"
      "\<And>q. q \<in> used s \<Longrightarrow> page_ref q ?s = page_ref q s"
    proof -
      have u: "used (s1\<lparr>frames := x\<rparr>) = used s1" "page_ref q (s1\<lparr>frames := x\<rparr>) = page_ref q s1" for x q s1
        by (simp_all add: used_def page_ref_def)
      show "used ?s = insert p (used s)" "ff_inv npage (phys ?s)" using p(3) a(2) by (simp_all add: u)
      show "page_ref q ?s = page_ref q s" if "q \<in> used s" for q using that p(2) a(4) by (auto simp: u)
    qed
    note new = new_table [OF ok PDX_bound(1) False p(1,2) new_entry [OF p(1)] fr us(2,1,3)]
    have g: "get_pte pd la True s = Some (Some (p, PTX la), ?s)"
    proof -
      have "pde2page (frames ?s pd (PDX la)) = Some p"
        using pde2page_frame [of ?e] new_entry(1) [OF p(1)] p(1) by (simp add: fr)
      then show ?thesis using a(1,3) Some False p(1) by (simp add: get_pte_def live_def write_word_def)
    qed
    have "live (frames ?s pd (PDX la))" "frame_of (frames ?s pd (PDX la)) = p"
      using new_entry [OF p(1)] by (simp_all add: fr)
    moreover have "\<forall>g\<in>used s. g \<noteq> pd \<longrightarrow> frames ?s g = frames s g" using p(2) by (auto simp: fr)
    ultimately show ?thesis
      using g new us p space_okD(3) [OF ok]
      by (intro exI [of _ "Some (p, PTX la)"] exI [of _ ?s]) (auto simp del: page_ref_simps)
  qed
qed

lemma slot_write:
  assumes ok: "space_ok s pd" and d: "d < 1024" "live (frames s pd d)" and f: "f = frame_of (frames s pd d)"
    and s': "frames s' = (frames s)(f := (frames s f)(i := v))"
  shows "frames s' pd = frames s pd" "dirs s' pd = dirs s pd" "tables s' pd = tables s pd"
    "x < 1024 \<Longrightarrow> slot s' pd x t = (if x = d \<and> t = i then v else slot s pd x t)"
proof -
  have "f \<noteq> pd" using table_frame(2) [OF ok d] f by simp
  then show fr: "frames s' pd = frames s pd" by (simp add: s')
  then show "dirs s' pd = dirs s pd" "tables s' pd = tables s pd" by (simp_all add: dirs_def tables_def)
  show "slot s' pd x t = (if x = d \<and> t = i then v else slot s pd x t)" if x: "x < 1024"
  proof (cases "live (frames s pd x)")
    case True
    then have "x \<in> dirs s pd" "d \<in> dirs s pd" using x d by (simp_all add: dirs_def)
    then have "frame_of (frames s pd x) = f \<longleftrightarrow> x = d"
      using inj_on_eq_iff [OF space_okD(5) [OF ok]] f by simp
    then show ?thesis using True f by (simp add: slot_def fr) (auto simp: s')
  next
    case False
    then show ?thesis using d by (auto simp: slot_def fr)
  qed
qed

lemma set_slot_ok:
  assumes ok: "space_ok s pd" and d: "d < 1024" "i < 1024" "live (frames s pd d)"
    and f: "f = frame_of (frames s pd d)"
    and p: "p \<in> used s" "p \<notin> insert pd (tables s pd)" and only: "\<And>q. (d, i) \<in> maps s pd q \<Longrightarrow> q = p"
    and refs: "int (card (insert (d, i) (maps s pd p))) \<le> page_ref p s"
    and v: "live v" "frame_of v = p"
  shows "space_ok (write_word f i v s) pd"
proof -
  let ?s = "write_word f i v s"
  have fr: "frames ?s = (frames s)(f := (frames s f)(i := v))" by (simp add: write_word_def)
  note sw = slot_write [OF ok d(1,3) f fr]
  have mp: "maps ?s pd q = (if q = p then insert (d, i) (maps s pd p) else maps s pd q)" for q
  proof (cases "q = p")
    case True
    then show ?thesis using v d by (auto simp: maps_def sw(4) split: if_splits)
  next
    case False
    then have "(d, i) \<notin> maps s pd q" using only by blast
    then show ?thesis using False v by (auto simp: maps_def sw(4) split: if_splits)
  qed
  show ?thesis
    unfolding space_ok_def
  proof (intro conjI allI impI)
    show "ff_inv npage (phys ?s)" "insert pd (tables ?s pd) \<subseteq> used ?s" "pd \<notin> tables ?s pd"
      using space_okD(1-4) [OF ok] by (simp_all add: sw(3))
    show "inj_on (\<lambda>d. frame_of (frames ?s pd d)) (dirs ?s pd)"
      using space_okD(5) [OF ok] by (simp only: sw(1,2))
    fix q assume "maps ?s pd q \<noteq> {}"
    then show "q \<in> used ?s" "q \<notin> insert pd (tables ?s pd)" "int (card (maps ?s pd q)) \<le> page_ref q ?s"
      using p refs space_okD(6) [OF ok, of q] by (auto simp: mp sw(3) split: if_splits)
  qed
qed

lemma page_remove_pte_ok:
  assumes ok: "space_ok s pd" and d: "d < 1024" "i < 1024" "live (frames s pd d)"
    and f: "f = frame_of (frames s pd d)" and lv: "live (slot s pd d i)" and q: "q = frame_of (slot s pd d i)"
  shows "\<exists>s'. page_remove_pte f i s = Some s' \<and> space_ok s' pd \<and>
    frames s' = (frames s)(f := (frames s f)(i := 0)) \<and>
    (\<forall>x. page_ref x s' = page_ref x s - (if x = q then 1 else 0)) \<and>
    used s' = (if page_ref q s = 1 then used s - {q} else used s)"
proof -
  have e: "frames s f i = slot s pd d i" using d(3) by (simp add: slot_def f)
  have m: "(d, i) \<in> maps s pd q" using d lv q by (simp add: maps_def)
  then have qo: "q \<in> used s" "q \<noteq> pd" "q \<notin> tables s pd" "int (card (maps s pd q)) \<le> page_ref q s"
    using space_okD(6) [OF ok, of q] by auto
  have pte: "pte2page (frames s f i) = Some q"
    using pte2page_frame [OF lv] used_npage [OF qo(1)] by (simp add: e q)
  have other: "(d, i) \<notin> maps s pd x" if "x \<noteq> q" for x using that q by (simp add: maps_def)
  let ?s1 = "page_ref_dec q s"
  obtain s2 where s2: "(if page_ref q ?s1 = 0 then free_pages q 1 ?s1 else Some ?s1) = Some s2"
    "ff_inv npage (phys s2)" "frames s2 = frames s" "used s2 = (if page_ref q s = 1 then used s - {q} else used s)"
    "\<forall>x. page_ref x s2 = page_ref x s - (if x = q then 1 else 0)"
  proof (cases "page_ref q s = 1")
    case True
    obtain s2 where "free_pages q 1 ?s1 = Some s2" "ff_inv npage (phys s2)" "frames s2 = frames ?s1"
      "used s2 = used ?s1 - {q}" "\<forall>x. page_ref x s2 = (if x = q then 0 else page_ref x ?s1)"
      using free_page_ok [of ?s1 q] space_okD(1) [OF ok] qo(1) by auto
    then show thesis using True by (intro that) auto
  next
    case False
    then show thesis using space_okD(1) [OF ok] by (intro that [of ?s1]) auto
  qed
  let ?s = "write_word f i 0 s2"
  have fr: "frames ?s = (frames s)(f := (frames s f)(i := 0))" by (simp add: write_word_def s2(3))
  note sw = slot_write [OF ok d(1,3) f fr]
  have mp: "maps ?s pd x = maps s pd x - {(d, i)}" for x
    by (auto simp: maps_def sw(4) split: if_splits)
  have "space_ok ?s pd"
    unfolding space_ok_def
  proof (intro conjI allI impI)
    show "ff_inv npage (phys ?s)" "pd \<notin> tables ?s pd" using s2(2) space_okD(4) [OF ok] by (simp_all add: sw(3))
    show "insert pd (tables ?s pd) \<subseteq> used ?s"
      using space_okD(2,3) [OF ok] qo(2,3) by (auto simp: sw(3) s2(4))
    show "inj_on (\<lambda>d. frame_of (frames ?s pd d)) (dirs ?s pd)"
      using space_okD(5) [OF ok] by (simp only: sw(1,2))
    fix x assume x: "maps ?s pd x \<noteq> {}"
    then have xo: "x \<in> used s" "x \<noteq> pd" "x \<notin> tables s pd" "int (card (maps s pd x)) \<le> page_ref x s"
      using space_okD(6) [OF ok, of x] by (auto simp: mp)
    have c: "int (card (maps ?s pd x)) = int (card (maps s pd x)) - (if x = q then 1 else 0)"
      using m other maps_finite [of s pd x] card_gt_0_iff [of "maps s pd q"]
      by (auto simp: mp card_Diff_singleton of_nat_diff Suc_le_eq maps_finite)
    then show "int (card (maps ?s pd x)) \<le> page_ref x ?s" using xo(4) s2(5) by auto
    have "int (card (maps ?s pd x)) > 0" using x by (simp add: card_gt_0_iff mp maps_finite)
    then have "\<not> (x = q \<and> page_ref q s = 1)" using c xo(4) by auto
    then show "x \<in> used ?s" using xo(1) s2(4) by auto
    show "x \<notin> insert pd (tables ?s pd)" using xo by (simp add: sw(3))
  qed
  moreover have "page_remove_pte f i s = Some ?s"
    using lv pte s2(1) by (simp add: page_remove_pte_def e live_def)
  ultimately show ?thesis using fr s2(4,5) by auto
qed

text \<open>The translation of a virtual address: its entry in the table it goes through.\<close>

definition pte_of :: "vmem \<Rightarrow> nat \<Rightarrow> u32 \<Rightarrow> u32" where
  "pte_of s pd la = slot s pd (PDX la) (PTX la)"

definition page_no :: "u32 \<Rightarrow> nat" where
  "page_no la = unat la div 4096"

lemma page_no_eq: "PDX a = PDX b \<and> PTX a = PTX b \<longleftrightarrow> page_no a = page_no b"
  by (simp add: same_page page_no_def)

lemma page_remove_ok:
  assumes ok: "space_ok s pd"
  shows "\<exists>s'. page_remove pd la s = Some s' \<and> space_ok s' pd \<and>
    (\<forall>lb. pte_of s' pd lb = (if page_no lb = page_no la \<and> live (pte_of s pd la) then 0 else pte_of s pd lb)) \<and>
    (\<forall>x. page_ref x s' = page_ref x s - (if live (pte_of s pd la) \<and> x = frame_of (pte_of s pd la) then 1 else 0)) \<and>
    used s' = used s - {x. live (pte_of s pd la) \<and> x = frame_of (pte_of s pd la) \<and> page_ref x s = 1}"
proof (cases "live (pte_of s pd la)")
  case True
  note b = PDX_bound [of la]
  have dl: "live (frames s pd (PDX la))" using True by (auto simp: pte_of_def slot_def split: if_splits)
  obtain s' where s': "page_remove_pte (frame_of (frames s pd (PDX la))) (PTX la) s = Some s'" "space_ok s' pd"
    "frames s' = (frames s)(frame_of (frames s pd (PDX la)) := (frames s (frame_of (frames s pd (PDX la))))(PTX la := 0))"
    "\<forall>x. page_ref x s' = page_ref x s - (if x = frame_of (pte_of s pd la) then 1 else 0)"
    "used s' = (if page_ref (frame_of (pte_of s pd la)) s = 1 then used s - {frame_of (pte_of s pd la)} else used s)"
    using page_remove_pte_ok [OF ok b dl refl True [unfolded pte_of_def] refl] by (auto simp: pte_of_def)
  have "page_remove pd la s = Some s'"
    using s'(1) dl by (simp add: page_remove_def get_pte_lookup [OF ok])
  moreover have "pte_of s' pd lb = (if page_no lb = page_no la then 0 else pte_of s pd lb)" for lb
    using slot_write(4) [OF ok b(1) dl refl s'(3) PDX_bound(1) [of lb], of "PTX lb"] page_no_eq [of lb la]
    by (simp add: pte_of_def)
  moreover have "used s' = used s - {x. x = frame_of (pte_of s pd la) \<and> page_ref x s = 1}"
    using s'(5) by auto
  ultimately show ?thesis using True s'(2,4) by auto
next
  case False
  have "page_remove pd la s = Some s"
  proof (cases "live (frames s pd (PDX la))")
    case dl: True
    then have "\<not> live (frames s (frame_of (frames s pd (PDX la))) (PTX la))"
      using False by (simp add: pte_of_def slot_def)
    then show ?thesis using dl by (simp add: page_remove_def get_pte_lookup [OF ok] page_remove_pte_def live_def)
  qed (simp add: page_remove_def get_pte_lookup [OF ok])
  then show ?thesis using False ok by simp
qed

lemma page_ref_inc_dec: "page_ref_dec p (page_ref_inc p s) = s"
proof -
  have "(pages (phys s))(p := (pages (phys s) p)\<lparr>ref := ref (pages (phys s) p)\<rparr>) = pages (phys s)"
    by simp
  then show ?thesis by (simp add: page_ref_dec_def page_ref_inc_def page_ref_def set_page_ref_def)
qed

lemma space_ok_inc:
  assumes "space_ok s pd"
  shows "space_ok (page_ref_inc p s) pd" "slot (page_ref_inc p s) pd = slot s pd"
    "tables (page_ref_inc p s) pd = tables s pd" "maps (page_ref_inc p s) pd = maps s pd"
proof -
  show sl: "slot (page_ref_inc p s) pd = slot s pd" "tables (page_ref_inc p s) pd = tables s pd"
    by (simp_all add: slot_def fun_eq_iff tables_def dirs_def)
  then show mp: "maps (page_ref_inc p s) pd = maps s pd" by (simp add: maps_def fun_eq_iff)
  show "space_ok (page_ref_inc p s) pd"
    using assms unfolding space_ok_def by (force simp: sl mp dirs_def)
qed

lemma leaf_entry:
  assumes "perm AND NOT 0xFFF = 0" "p < npage"
  shows "frame_of (page2pa p OR PTE_P OR perm) = p" "live (page2pa p OR PTE_P OR perm)"
proof -
  have x: "(PTE_P OR perm) AND NOT 0xFFF = 0" using assms(1) by (simp add: bit.conj_disj_distrib2 pte_flags)
  have "PTE_P AND (PTE_P OR perm) = PTE_P" by (rule bit_word_eqI) (auto simp: bit_simps)
  then have "(PTE_P OR perm) AND PTE_P \<noteq> 0" by (simp add: and.commute pte_flags)
  then show "frame_of (page2pa p OR PTE_P OR perm) = p" "live (page2pa p OR PTE_P OR perm)"
    using entry_decode [OF x, of p] assms(2) by (simp_all add: frame_of_def live_def PPN_page2pa or.assoc)
qed

lemma page_insert_ok:
  assumes ok: "space_ok s pd" and p: "p \<in> used s" "p \<notin> insert pd (tables s pd)"
    and refs: "int (card (maps s pd p)) \<le> page_ref p s" and perm: "perm AND NOT 0xFFF = 0"
  shows "\<exists>r s'. page_insert pd p la perm s = Some (r, s') \<and> space_ok s' pd \<and>
    (r \<noteq> 0 \<longrightarrow> r = fail_code E_NO_MEM \<and> s' = s \<and> free_set (phys s) = {}) \<and>
    (r = 0 \<longrightarrow>
      (\<forall>lb. pte_of s' pd lb = (if page_no lb = page_no la then page2pa p OR PTE_P OR perm else pte_of s pd lb)) \<and>
      (\<forall>x\<in>used s. page_ref x s' = page_ref x s + (if x = p then 1 else 0) -
         (if live (pte_of s pd la) \<and> x = frame_of (pte_of s pd la) then 1 else 0)) \<and>
      (\<forall>x\<in>used s. x \<in> used s' \<longleftrightarrow> \<not> (live (pte_of s pd la) \<and> x = frame_of (pte_of s pd la) \<and>
         x \<noteq> p \<and> page_ref x s = 1)) \<and>
      (\<forall>g\<in>used s. g \<notin> insert pd (tables s pd) \<longrightarrow> frames s' g = frames s g))"
proof -
  let ?v = "page2pa p OR PTE_P OR perm"
  note b = PDX_bound [of la]
  obtain r s1 where g: "get_pte pd la True s = Some (r, s1)" "space_ok s1 pd"
    "\<forall>d<1024. \<forall>t. slot s1 pd d t = slot s pd d t" "used s \<subseteq> used s1"
    "\<forall>q\<in>used s. page_ref q s1 = page_ref q s" "\<forall>g\<in>used s. g \<noteq> pd \<longrightarrow> frames s1 g = frames s g"
    "tables s pd \<subseteq> tables s1 pd" "tables s1 pd \<inter> used s = tables s pd"
    "case r of None \<Rightarrow> s1 = s \<and> free_set (phys s) = {}
     | Some (f, i) \<Rightarrow> i = PTX la \<and> live (frames s1 pd (PDX la)) \<and> f = frame_of (frames s1 pd (PDX la))"
    using get_pte_create [OF ok, of la] by blast
  show ?thesis
  proof (cases r)
    case None
    then have "page_insert pd p la perm s = Some (fail_code E_NO_MEM, s)" "free_set (phys s) = {}"
      using g(1,9) by (simp_all add: page_insert_def)
    then show ?thesis using ok by auto
  next
    case (Some fi)
    let ?f = "frame_of (frames s1 pd (PDX la))"
    let ?s2 = "page_ref_inc p s1"
    let ?old = "pte_of s pd la"
    have fi: "fi = (?f, PTX la)" and dl: "live (frames s1 pd (PDX la))" using g(9) Some by (auto split: prod.splits)
    have mp1: "maps s1 pd q = maps s pd q" for q using g(3) by (auto simp: maps_def)
    have pt1: "p \<in> used s1" "p \<notin> insert pd (tables s1 pd)" "p < npage"
      using p g(4,8) used_npage by auto
    have pr1: "page_ref p s1 = page_ref p s" using g(5) p(1) by blast
    have old: "slot s1 pd (PDX la) (PTX la) = ?old" "frames s1 ?f (PTX la) = ?old"
    proof -
      show o: "slot s1 pd (PDX la) (PTX la) = ?old" using g(3) b by (simp add: pte_of_def)
      show "frames s1 ?f (PTX la) = ?old" using dl unfolding o [symmetric] by (simp add: slot_def)
    qed
    note inc = space_ok_inc [OF g(2), of p]
    have fin: ?thesis
      if s3: "space_ok s3 pd" "page_insert pd p la perm s = Some (0, write_word ?f (PTX la) ?v s3)"
        "frames s3 pd = frames s1 pd" "tables s3 pd = tables s1 pd"
        "\<And>x t. x < 1024 \<Longrightarrow> (x, t) \<noteq> (PDX la, PTX la) \<Longrightarrow> slot s3 pd x t = slot s1 pd x t"
        "p \<in> used s3" "\<And>q. (PDX la, PTX la) \<in> maps s3 pd q \<Longrightarrow> q = p"
        "int (card (insert (PDX la, PTX la) (maps s3 pd p))) \<le> page_ref p s3"
        "\<And>x. x \<in> used s \<Longrightarrow> page_ref x s3 = page_ref x s + (if x = p then 1 else 0) -
           (if live ?old \<and> x = frame_of ?old then 1 else 0)"
        "\<And>x. x \<in> used s \<Longrightarrow> x \<in> used s3 \<longleftrightarrow> \<not> (live ?old \<and> x = frame_of ?old \<and> x \<noteq> p \<and> page_ref x s = 1)"
        "\<And>h. h \<noteq> ?f \<Longrightarrow> frames s3 h = frames s1 h" for s3
    proof -
      let ?s4 = "write_word ?f (PTX la) ?v s3"
      have d3: "live (frames s3 pd (PDX la))" "?f = frame_of (frames s3 pd (PDX la))" using dl s3(3) by simp_all
      have fr: "frames ?s4 = (frames s3)(?f := (frames s3 ?f)(PTX la := ?v))" by (simp add: write_word_def)
      have "space_ok ?s4 pd"
        by (rule set_slot_ok [OF s3(1) b d3 s3(6) _ s3(7,8) leaf_entry(2,1) [OF perm pt1(3)]])
          (use pt1(2) s3(4) in simp)
      moreover have "pte_of ?s4 pd lb = (if page_no lb = page_no la then ?v else pte_of s pd lb)" for lb
        using slot_write(4) [OF s3(1) b(1) d3 fr PDX_bound(1) [of lb], of "PTX lb"] page_no_eq [of lb la]
          s3(5) [OF PDX_bound(1) [of lb], of "PTX lb"] g(3) PDX_bound(1) [of lb]
        by (auto simp: pte_of_def)
      moreover have "frames ?s4 h = frames s h" if "h \<in> used s" "h \<notin> insert pd (tables s pd)" for h
      proof -
        have "h \<noteq> ?f" using dirs_table [OF b(1) dl] that g(8) by blast
        then have "frames ?s4 h = frames s3 h" by (simp add: fr)
        then show ?thesis using \<open>h \<noteq> ?f\<close> s3(11) [of h] g(6) that by auto
      qed
      ultimately show ?thesis using s3(2,9,10) by (intro exI [of _ 0] exI [of _ ?s4]) auto
    qed
    have ins: "page_insert pd p la perm s = Some (0, write_word ?f (PTX la) ?v s3)"
      if "(if live ?old then do { q \<leftarrow> pte2page ?old; if q = p then Some (page_ref_dec p ?s2)
          else page_remove_pte ?f (PTX la) ?s2 } else Some ?s2) = Some s3" for s3
      using g(1) Some fi that old(2)
      by (cases "live ?old"; cases "pte2page ?old") (simp_all add: page_insert_def live_def Let_def split: if_splits)
    show ?thesis
    proof (cases "live ?old")
      case False
      then have no: "(PDX la, PTX la) \<notin> maps s1 pd q" for q using old(1) by (auto simp: maps_def)
      show ?thesis
      proof (rule fin [of ?s2])
        show "page_insert pd p la perm s = Some (0, write_word ?f (PTX la) ?v ?s2)" by (rule ins) (simp add: False)
        show "int (card (insert (PDX la, PTX la) (maps ?s2 pd p))) \<le> page_ref p ?s2"
          using no refs pr1 by (simp add: inc(4) mp1 maps_finite card_insert_if)
      qed (use inc no pt1 g(4,5) False in auto)
    next
      case True
      define q where "q = frame_of ?old"
      have m: "(PDX la, PTX la) \<in> maps s1 pd q" using True old(1) b by (simp add: maps_def q_def)
      have qo: "q \<in> used s1" "q < npage" using space_okD(6) [OF g(2), of q] m used_npage by auto
      have qs: "q \<in> used s" using space_okD(6) [OF ok, of q] m mp1 by auto
      have pq: "pte2page ?old = Some q" using pte2page_frame [OF True] qo(2) by (simp add: q_def)
      have only: "x = q" if "(PDX la, PTX la) \<in> maps s1 pd x" for x
        using that old(1) by (simp add: maps_def q_def)
      show ?thesis
      proof (cases "q = p")
        case same: True
        show ?thesis
        proof (rule fin [of s1])
          show "page_insert pd p la perm s = Some (0, write_word ?f (PTX la) ?v s1)"
            by (rule ins) (simp add: True pq same page_ref_inc_dec)
          show "int (card (insert (PDX la, PTX la) (maps s1 pd p))) \<le> page_ref p s1"
            using m refs pr1 same by (simp add: insert_absorb mp1)
        qed (use g(2,4,5) pt1 only same True q_def in auto)
      next
        case diff: False
        have sl2: "live (slot ?s2 pd (PDX la) (PTX la))" "q = frame_of (slot ?s2 pd (PDX la) (PTX la))"
          using True by (simp_all add: inc(2) old(1) q_def)
        obtain s3 where s3: "page_remove_pte ?f (PTX la) ?s2 = Some s3" "space_ok s3 pd"
          "frames s3 = (frames ?s2)(?f := (frames ?s2 ?f)(PTX la := 0))"
          "\<forall>x. page_ref x s3 = page_ref x ?s2 - (if x = q then 1 else 0)"
          "used s3 = (if page_ref q ?s2 = 1 then used ?s2 - {q} else used ?s2)"
          using page_remove_pte_ok [OF inc(1) b _ _ sl2] dl by auto
        have d2: "live (frames ?s2 pd (PDX la))" "?f = frame_of (frames ?s2 pd (PDX la))" using dl by simp_all
        note sw = slot_write [OF inc(1) b(1) d2 s3(3)]
        have mp3: "maps s3 pd x = maps s1 pd x - {(PDX la, PTX la)}" for x
          by (auto simp: maps_def sw(4) inc(2) split: if_splits)
        have np: "(PDX la, PTX la) \<notin> maps s1 pd p" using only diff by blast
        show ?thesis
        proof (rule fin [of s3])
          show "page_insert pd p la perm s = Some (0, write_word ?f (PTX la) ?v s3)"
            by (rule ins) (simp add: True pq diff s3(1))
          show "int (card (insert (PDX la, PTX la) (maps s3 pd p))) \<le> page_ref p s3"
            using np refs pr1 diff s3(4) by (simp add: mp3 mp1 maps_finite card_insert_if)
          show "space_ok s3 pd" by (rule s3(2))
          show "frames s3 pd = frames s1 pd" "tables s3 pd = tables s1 pd" using sw(1,3) inc(3) by simp_all
          show "slot s3 pd x t = slot s1 pd x t" if "x < 1024" "(x, t) \<noteq> (PDX la, PTX la)" for x t
            using that sw(4) [OF that(1), of t] by (auto simp: inc(2))
          show "p \<in> used s3" using pt1(1) diff s3(5) by simp
          show "x = p" if "(PDX la, PTX la) \<in> maps s3 pd x" for x using that by (simp add: mp3)
          show "page_ref x s3 = page_ref x s + (if x = p then 1 else 0) - (if live ?old \<and> x = frame_of ?old then 1 else 0)"
            if "x \<in> used s" for x using that g(5) p(1) s3(4) True diff by (auto simp: q_def)
          show "x \<in> used s3 \<longleftrightarrow> \<not> (live ?old \<and> x = frame_of ?old \<and> x \<noteq> p \<and> page_ref x s = 1)"
            if "x \<in> used s" for x
          proof -
            have "x \<in> used s1" "page_ref x s1 = page_ref x s" using that g(4,5) by auto
            moreover have "page_ref q ?s2 = page_ref q s" using diff qs g(5) by simp
            ultimately show ?thesis using s3(5) True diff by (auto simp: q_def [symmetric])
          qed
          show "frames s3 h = frames s1 h" if "h \<noteq> ?f" for h using that s3(3) by simp
        qed
      qed
    qed
  qed
qed

section \<open>Clearing a range\<close>

definition pte_at :: "vmem \<Rightarrow> nat \<Rightarrow> nat \<Rightarrow> u32" where
  "pte_at s pd n = slot s pd (n div 1024) (n mod 1024)"

lemma pte_of_at: "pte_of s pd la = pte_at s pd (page_no la)"
proof -
  have "unat la div 4194304 = unat la div 4096 div 1024" by (simp flip: div_mult2_eq)
  then show ?thesis by (simp add: pte_of_def pte_at_def page_no_def PDX_PTX)
qed

definition maps_to :: "vmem \<Rightarrow> nat \<Rightarrow> nat \<Rightarrow> nat \<Rightarrow> bool" where
  "maps_to s pd x n \<longleftrightarrow> live (pte_at s pd n) \<and> frame_of (pte_at s pd n) = x"

text \<open>Pages \<open>a\<close> up to \<open>b\<close> have been unmapped.\<close>

definition cleared :: "nat \<Rightarrow> nat \<Rightarrow> nat \<Rightarrow> vmem \<Rightarrow> vmem \<Rightarrow> bool" where
  "cleared pd a b s s' \<longleftrightarrow> space_ok s' pd \<and>
     (\<forall>n < 2 ^ 20. pte_at s' pd n = (if a \<le> n \<and> n < b \<and> live (pte_at s pd n) then 0 else pte_at s pd n)) \<and>
     (\<forall>x. page_ref x s' = page_ref x s - int (card {n \<in> {a..<b}. maps_to s pd x n})) \<and>
     (\<forall>x. x \<in> used s' \<longleftrightarrow> x \<in> used s \<and>
        \<not> (\<exists>n\<in>{a..<b}. maps_to s pd x n \<and> page_ref x s = int (card {n \<in> {a..<b}. maps_to s pd x n})))"

lemma page_no_bound: "page_no la < 2 ^ 20"
  using unat_u32_bound [of la] by (simp add: page_no_def less_mult_imp_div_less)

lemma cleared_none:
  assumes "space_ok s pd" "\<And>n. a \<le> n \<Longrightarrow> n < b \<Longrightarrow> \<not> live (pte_at s pd n)"
  shows "cleared pd a b s s"
proof -
  have "{n \<in> {a..<b}. maps_to s pd x n} = {}" for x using assms(2) by (auto simp: maps_to_def)
  moreover have "\<not> (\<exists>n\<in>{a..<b}. maps_to s pd x n)" for x using assms(2) by (auto simp: maps_to_def)
  ultimately show ?thesis using assms by (auto simp: cleared_def)
qed

lemma cleared_trans:
  assumes c: "cleared pd a b s s1" "cleared pd b c s1 s2" and le: "a \<le> b" "b \<le> c" "c \<le> 2 ^ 20"
  shows "cleared pd a c s s2"
proof -
  let ?A = "\<lambda>x. {n \<in> {a..<b}. maps_to s pd x n}" and ?B = "\<lambda>x. {n \<in> {b..<c}. maps_to s pd x n}"
    and ?C = "\<lambda>x. {n \<in> {a..<c}. maps_to s pd x n}"
  have same: "pte_at s1 pd n = pte_at s pd n" if "b \<le> n" "n < c" for n
    using c(1) that le(3) by (simp add: cleared_def)
  have B: "{n \<in> {b..<c}. maps_to s1 pd x n} = ?B x" for x using same by (auto simp: maps_to_def)
  have C: "?C x = ?A x \<union> ?B x" "?A x \<inter> ?B x = {}" for x using le by auto
  have cc: "card (?C x) = card (?A x) + card (?B x)" for x
    unfolding C(1) by (rule card_Un_disjoint) (use C(2) in auto)
  have fin: "finite (?A x)" "finite (?B x)" for x by auto
  show ?thesis
    unfolding cleared_def
  proof (intro conjI allI impI)
    show "space_ok s2 pd" using c(2) by (simp add: cleared_def)
    fix n :: nat assume "n < 2 ^ 20"
    then show "pte_at s2 pd n = (if a \<le> n \<and> n < c \<and> live (pte_at s pd n) then 0 else pte_at s pd n)"
      using c le by (auto simp: cleared_def)
  next
    fix x
    have r: "page_ref x s1 = page_ref x s - int (card (?A x))" "page_ref x s2 = page_ref x s1 - int (card (?B x))"
      using c B by (auto simp: cleared_def)
    then show "page_ref x s2 = page_ref x s - int (card (?C x))" unfolding cc by (simp only: of_nat_add)
    have u1: "x \<in> used s1 \<longleftrightarrow> x \<in> used s \<and> \<not> (?A x \<noteq> {} \<and> page_ref x s = int (card (?A x)))"
      using c(1) by (auto simp: cleared_def)
    have u2: "x \<in> used s2 \<longleftrightarrow> x \<in> used s1 \<and> \<not> (?B x \<noteq> {} \<and> page_ref x s1 = int (card (?B x)))"
    proof -
      have "x \<in> used s2 \<longleftrightarrow> x \<in> used s1 \<and> \<not> ({n \<in> {b..<c}. maps_to s1 pd x n} \<noteq> {} \<and>
          page_ref x s1 = int (card {n \<in> {b..<c}. maps_to s1 pd x n}))"
        using c(2) by (auto simp: cleared_def)
      then show ?thesis unfolding B .
    qed
    have zero: "?B x = {}" if "x \<notin> used s1"
    proof (rule ccontr)
      assume "?B x \<noteq> {}"
      then obtain n where "n \<in> ?B x" by blast
      then have "n \<in> {n \<in> {b..<c}. maps_to s1 pd x n}" unfolding B .
      then have n: "b \<le> n" "n < c" "maps_to s1 pd x n" by auto
      have "space_ok s1 pd" using c(1) by (simp add: cleared_def)
      moreover have "(n div 1024, n mod 1024) \<in> maps s1 pd x"
        using n le(3) by (auto simp: maps_def maps_to_def pte_at_def)
      ultimately show False using space_okD(6) that by blast
    qed
    show "x \<in> used s2 \<longleftrightarrow> x \<in> used s \<and>
        \<not> (\<exists>n\<in>{a..<c}. maps_to s pd x n \<and> page_ref x s = int (card (?C x)))"
    proof -
      have ex: "(\<exists>n\<in>{a..<c}. maps_to s pd x n \<and> P) \<longleftrightarrow> ?C x \<noteq> {} \<and> P" for P by blast
      have ne: "?C x \<noteq> {} \<longleftrightarrow> ?A x \<noteq> {} \<or> ?B x \<noteq> {}" unfolding C(1) by blast
      show ?thesis
      proof (cases "?B x = {}")
        case True
        then show ?thesis unfolding u2 u1 ex ne cc by (simp only: card.empty of_nat_0 add_0_right) simp
      next
        case False
        then have "x \<in> used s1" using zero by blast
        then show ?thesis unfolding u2 ex ne using False u1 r(1) cc [of x] by auto
      qed
    qed
  qed
qed

lemma cleared_page:
  assumes ok: "space_ok s pd" and n: "page_no la < 2 ^ 20"
  shows "\<exists>s'. page_remove pd la s = Some s' \<and> cleared pd (page_no la) (page_no la + 1) s s'"
proof -
  let ?n = "page_no la"
  let ?L = "live (pte_of s pd la)" and ?q = "frame_of (pte_of s pd la)"
  obtain s' where s': "page_remove pd la s = Some s'" "space_ok s' pd"
    "\<forall>lb. pte_of s' pd lb = (if page_no lb = ?n \<and> ?L then 0 else pte_of s pd lb)"
    "\<forall>x. page_ref x s' = page_ref x s - (if ?L \<and> x = ?q then 1 else 0)"
    "used s' = used s - {x. ?L \<and> x = ?q \<and> page_ref x s = 1}"
    using page_remove_ok [OF ok, of la] by blast
  have one: "{?n..<?n + 1} = {?n}" by auto
  have mt: "maps_to s pd x ?n \<longleftrightarrow> ?L \<and> x = ?q" for x by (auto simp: maps_to_def pte_of_at)
  have st: "{n \<in> {?n}. maps_to s pd x n} = (if ?L \<and> x = ?q then {?n} else {})" for x using mt by auto
  have at: "pte_at s' pd m = (if m = ?n \<and> ?L then 0 else pte_at s pd m)" if m: "m < 2 ^ 20" for m
  proof -
    let ?a = "of_nat (m * 4096) :: u32"
    have "unat ?a = m * 4096" using m by (simp add: unsigned_of_nat take_bit_nat_eq_self del: of_nat_mult)
    then have "page_no ?a = m" by (simp add: page_no_def)
    then show ?thesis using s'(3) by (metis pte_of_at)
  qed
  have "cleared pd ?n (?n + 1) s s'"
    unfolding cleared_def one st
  proof (intro conjI allI impI)
    show "space_ok s' pd" by (rule s'(2))
    fix m :: nat assume "m < 2 ^ 20"
    then show "pte_at s' pd m = (if ?n \<le> m \<and> m < ?n + 1 \<and> live (pte_at s pd m) then 0 else pte_at s pd m)"
      using at [of m] by (cases "m = ?n") (auto simp: pte_of_at)
  qed (use s'(4,5) mt in auto)
  then show ?thesis using s'(1) by blast
qed

lemma page_no_step:
  assumes "unat la + 4096 \<le> 2 ^ 31"
  shows "unat (la + PGSIZE) = unat la + 4096" "page_no (la + PGSIZE) = page_no la + 1"
proof -
  show "unat (la + PGSIZE) = unat la + 4096"
    using assms unfolding PGSIZE_def by (subst unat_add_u32) simp_all
  then show "page_no (la + PGSIZE) = page_no la + 1" by (simp add: page_no_def)
qed

lemma table_step:
  assumes "unat la < 2 ^ 31"
  shows "unat (rounddown_2n (la + PTSIZE) 22) = (unat la div 2 ^ 22 + 1) * 2 ^ 22"
    "page_no (rounddown_2n (la + PTSIZE) 22) = (page_no la div 1024 + 1) * 1024"
proof -
  have "unat (la + PTSIZE) = unat la + 2 ^ 22"
    using assms unfolding PTSIZE_def by (subst unat_add_u32) simp_all
  then show e: "unat (rounddown_2n (la + PTSIZE) 22) = (unat la div 2 ^ 22 + 1) * 2 ^ 22"
    by (simp add: unat_rounddown div_add_self2 [of "4194304 :: nat"])
  have "unat la div 4194304 = unat la div 4096 div 1024" by (simp flip: div_mult2_eq)
  then show "page_no (rounddown_2n (la + PTSIZE) 22) = (page_no la div 1024 + 1) * 1024"
    using e by (simp add: page_no_def)
qed

lemma unmap_body:
  assumes "space_ok s pd" "live (frames s pd (PDX la))"
  shows "(if frames s (frame_of (frames s pd (PDX la))) (PTX la) \<noteq> 0
      then page_remove_pte (frame_of (frames s pd (PDX la))) (PTX la) s else Some s) = page_remove pd la s"
  using assms(2) by (simp add: page_remove_def get_pte_lookup [OF assms(1)] page_remove_pte_def)

lemma unmap_loop_ok:
  "space_ok s pd \<Longrightarrow> unat start mod 4096 = 0 \<Longrightarrow> unat en mod 4096 = 0 \<Longrightarrow> unat start < unat en \<Longrightarrow>
    unat en \<le> 2 ^ 31 \<Longrightarrow> \<exists>s'. unmap_loop pd start en s = Some s' \<and> cleared pd (page_no start) (page_no en) s s'"
proof (induction "unat en - unat start" arbitrary: start s rule: less_induct)
  case less
  note ok = less.prems(1)
  have bnd: "page_no start < page_no en" "page_no en \<le> 2 ^ 19"
    using less.prems(2-5) by (auto simp: page_no_def)
  have lt: "unat start + 4096 \<le> unat en"
  proof -
    have "unat start = page_no start * 4096" "unat en = page_no en * 4096"
      using less.prems(2,3) by (auto simp: page_no_def)
    then show ?thesis using bnd(1) by simp
  qed
  show ?case
  proof (cases "live (frames s pd (PDX start))")
    case True
    obtain s1 where s1: "page_remove pd start s = Some s1" "cleared pd (page_no start) (page_no start + 1) s s1"
      using cleared_page [OF ok page_no_bound] by blast
    have ok1: "space_ok s1 pd" using s1(2) by (simp add: cleared_def)
    have st: "unat (start + PGSIZE) = unat start + 4096" "page_no (start + PGSIZE) = page_no start + 1"
      using page_no_step [of start] lt less.prems(5) by auto
    have nz: "start + PGSIZE \<noteq> 0" using st(1) by (metis add_is_0 unat_0 zero_neq_numeral)
    have unf: "unmap_loop pd start en s =
        (if start + PGSIZE < en then unmap_loop pd (start + PGSIZE) en s1 else Some s1)"
      using s1(1) unmap_body [OF ok True] True nz
      by (subst unmap_loop.simps) (simp add: get_pte_lookup [OF ok])
    show ?thesis
    proof (cases "start + PGSIZE < en")
      case more: True
      then have l: "unat (start + PGSIZE) < unat en" by (simp add: word_less_nat_alt)
      have "\<exists>s'. unmap_loop pd (start + PGSIZE) en s1 = Some s' \<and> cleared pd (page_no (start + PGSIZE)) (page_no en) s1 s'"
        using less.hyps [of "start + PGSIZE" s1] ok1 less.prems(2,3,5) l st(1) by simp
      then show ?thesis using unf more cleared_trans [OF s1(2)] st(2) bnd by auto
    next
      case False
      then have "unat en \<le> unat start + 4096" using st(1) by (simp add: word_less_nat_alt)
      then have "page_no en = page_no start + 1" using lt by (simp add: page_no_def)
      then show ?thesis using unf False s1(2) by simp
    qed
  next
    case False
    let ?st = "rounddown_2n (start + PTSIZE) 22"
    have st: "unat ?st = (unat start div 2 ^ 22 + 1) * 2 ^ 22" "page_no ?st = (page_no start div 1024 + 1) * 1024"
      using table_step [of start] less.prems(4,5) by auto
    have gt: "unat start < unat ?st" unfolding st(1) by (simp add: dividend_less_div_times)
    have nz: "?st \<noteq> 0" using gt by (metis unat_0 not_less_zero)
    have unf: "unmap_loop pd start en s = (if ?st < en then unmap_loop pd ?st en s else Some s)"
      using False nz by (subst unmap_loop.simps) (simp add: get_pte_lookup [OF ok])
    have dead: "\<not> live (pte_at s pd n)" if "page_no start \<le> n" "n < page_no ?st" for n
    proof -
      have "n div 1024 = page_no start div 1024"
        using that unfolding st(2) by (metis div_le_mono le_antisym less_Suc_eq_le less_mult_imp_div_less Suc_eq_plus1)
      also have "\<dots> = PDX start" by (simp add: page_no_def PDX_PTX flip: div_mult2_eq)
      finally show ?thesis using False by (simp add: pte_at_def slot_def)
    qed
    show ?thesis
    proof (cases "?st < en")
      case more: True
      then have l: "unat ?st < unat en" by (simp add: word_less_nat_alt)
      have "unat ?st mod 4096 = 0" unfolding st(1) by simp
      then obtain s' where s': "unmap_loop pd ?st en s = Some s'" "cleared pd (page_no ?st) (page_no en) s s'"
      proof -
        have "unat en - unat ?st < unat en - unat start" using gt l by simp
        from less.hyps [OF this ok \<open>unat ?st mod 4096 = 0\<close> less.prems(3) l less.prems(5)] show thesis
          using that by blast
      qed
      have "page_no start \<le> page_no ?st" "page_no ?st \<le> page_no en" using gt l by (simp_all add: page_no_def div_le_mono)
      then have "cleared pd (page_no start) (page_no en) s s'"
        using cleared_trans [OF cleared_none [OF ok dead] s'(2)] bnd by simp
      then show ?thesis using unf more s'(1) by simp
    next
      case stop: False
      then have "page_no en \<le> page_no ?st" by (simp add: page_no_def word_less_nat_alt div_le_mono)
      then have "cleared pd (page_no start) (page_no en) s s" using cleared_none [OF ok] dead by simp
      then show ?thesis using unf stop by simp
    qed
  qed
qed

section \<open>Properties of address spaces\<close>

text \<open>A memory with three frames in use: an empty directory, frame 0, and two others.\<close>

definition demo_vmem :: vmem where
  "demo_vmem = \<lparr>phys = \<lparr>pages = (\<lambda>p. \<lparr>ref = 0, flags = (if p = 3 then 2 else 0),
     property = (if p = 3 then 4093 else 0)\<rparr>), free_list = [3], nr_free = 4093\<rparr>, frames = (\<lambda>_ _. 0)\<rparr>"

lemma demo_vmem_phys:
  "free_set (phys demo_vmem) = {3..<4096}" "ff_inv npage (phys demo_vmem)" "used demo_vmem = {0, 1, 2}"
proof -
  have b: "blocks (phys demo_vmem) = [(3, 4093)]" by (simp add: blocks_def blk_def demo_vmem_def)
  then show fs: "free_set (phys demo_vmem) = {3..<4096}" by (simp add: free_set_def cover_def)
  have u: "usable npage (phys demo_vmem) x \<longleftrightarrow> x < 4096" for x
    by (auto simp: usable_def PageReserved_def PG_reserved_def demo_vmem_def npage_def bit_simps)
  have "\<forall>x<npage. PageProperty (pages (phys demo_vmem)) x \<longleftrightarrow> x \<in> set (free_list (phys demo_vmem))"
    by (auto simp: PageProperty_def PG_property_def demo_vmem_def bit_iff_odd)
  moreover have "nr_free (phys demo_vmem) = card (free_set (phys demo_vmem))"
    unfolding fs by (simp add: demo_vmem_def)
  ultimately show "ff_inv npage (phys demo_vmem)" by (simp add: ff_inv_def b u fs)
  show "used demo_vmem = {0, 1, 2}" by (auto simp: used_def u fs)
qed

lemma demo_vmem_ok: "space_ok demo_vmem 0" "tables demo_vmem 0 = {}" "maps demo_vmem 0 q = {}"
proof -
  show t: "tables demo_vmem 0 = {}" by (simp add: tables_def dirs_def demo_vmem_def)
  show m: "maps demo_vmem 0 q = {}" for q by (simp add: maps_def slot_def demo_vmem_def)
  have "dirs demo_vmem 0 = {}" by (simp add: dirs_def demo_vmem_def)
  then show "space_ok demo_vmem 0" unfolding space_ok_def t m demo_vmem_phys(3)
    by (simp add: demo_vmem_phys(2))
qed

text \<open>
   Addresses, table entries and pages convert into one another without loss: for every managed
  page, its kernel address leads back to it, and a table entry made of its address and flag bits
  yields the page, the address and the flags again.
\<close>

theorem page_entry_roundtrip:
  assumes "p < npage" "perm AND NOT 0xFFF = 0"
  shows "Option.bind (page2kva p) kva2page = Some p \<and> pte2page (page2pa p OR PTE_P OR perm) = Some p \<and>
    PTE_ADDR (page2pa p OR PTE_P OR perm) = page2pa p \<and>
    (page2pa p OR PTE_P OR perm) AND PTE_USER = (PTE_P OR perm) AND PTE_USER \<and> page2pa p AND 0xFFF = 0"
proof -
  have x: "(PTE_P OR perm) AND NOT 0xFFF = 0" using assms(2) by (simp add: bit.conj_disj_distrib2 pte_flags)
  show ?thesis
    using leaf_entry [OF assms(2,1)] assms(1) entry_bits(3) [OF x, of p] entry_decode(1) [OF x, of p]
      pte2page_frame [of "page2pa p OR PTE_P OR perm"] page2pa_low
    by (simp add: or.assoc)
qed

theorem page_entry_roundtrip_witness:
  "pte2page (page2pa 5 OR PTE_P OR (PTE_U OR PTE_W)) = Some 5 \<and> page2pa 5 = 0xbc005000"
proof -
  have "(5 :: nat) < npage" "(PTE_U OR PTE_W) AND NOT 0xFFF = 0" by (simp_all add: npage_def pte_flags)
  from page_entry_roundtrip [OF this] show ?thesis by (simp add: page2pa_def KMEMBASE_def)
qed

text \<open>
  C4.  \<^verbatim>\<open>page_insert\<close> in a well-formed address space either reports \<^verbatim>\<open>E_NO_MEM\<close>, changing
  nothing and only when no page is free, or maps exactly the one page: the entry of \<open>la\<close> holds the
  page and its permissions, every other address keeps its translation, the page gains a
  reference and the page mapped there before loses one and is freed if it was the last; the
  address space stays well-formed.
\<close>

theorem page_insert_maps:
  assumes "space_ok s pd" "p \<in> used s" "p \<notin> insert pd (tables s pd)"
    "int (card (maps s pd p)) \<le> page_ref p s" "perm AND NOT 0xFFF = 0"
  shows "\<exists>r s'. page_insert pd p la perm s = Some (r, s') \<and> space_ok s' pd \<and>
    (r \<noteq> 0 \<longrightarrow> r = fail_code E_NO_MEM \<and> s' = s \<and> free_set (phys s) = {}) \<and>
    (r = 0 \<longrightarrow>
      (\<forall>lb. pte_of s' pd lb = (if page_no lb = page_no la then page2pa p OR PTE_P OR perm else pte_of s pd lb)) \<and>
      (\<forall>x\<in>used s. page_ref x s' = page_ref x s + (if x = p then 1 else 0) -
         (if live (pte_of s pd la) \<and> x = frame_of (pte_of s pd la) then 1 else 0)) \<and>
      (\<forall>x\<in>used s. x \<in> used s' \<longleftrightarrow> \<not> (live (pte_of s pd la) \<and> x = frame_of (pte_of s pd la) \<and>
         x \<noteq> p \<and> page_ref x s = 1)))"
  using page_insert_ok [OF assms, of la] by (elim exE conjE) (intro exI conjI; blast)

theorem page_insert_maps_witness:
  "\<exists>s'. page_insert 0 1 0x10000000 (PTE_U OR PTE_W) demo_vmem = Some (0, s') \<and> space_ok s' 0 \<and>
     pte_of s' 0 0x10000000 = 0xbc001007 \<and> page_ref 1 s' = 1 \<and> page_ref 2 s' = 0"
proof -
  have h: "1 \<in> used demo_vmem" "2 \<in> used demo_vmem" "1 \<notin> insert 0 (tables demo_vmem 0)"
    "int (card (maps demo_vmem 0 1)) \<le> page_ref 1 demo_vmem" "(PTE_U OR PTE_W) AND NOT 0xFFF = 0"
    by (simp_all add: demo_vmem_phys(3) demo_vmem_ok(2,3) page_ref_def pte_flags)
      (simp add: demo_vmem_def)
  have z: "pte_of demo_vmem 0 0x10000000 = 0" by (simp add: pte_of_def slot_def demo_vmem_def)
  have r0: "page_ref x demo_vmem = 0" for x by (simp add: page_ref_def demo_vmem_def)
  obtain r s' where s': "page_insert 0 1 0x10000000 (PTE_U OR PTE_W) demo_vmem = Some (r, s')" "space_ok s' 0"
    "r \<noteq> 0 \<longrightarrow> r = fail_code E_NO_MEM \<and> s' = demo_vmem \<and> free_set (phys demo_vmem) = {}"
    and m: "r = 0 \<longrightarrow>
      (\<forall>lb. pte_of s' 0 lb = (if page_no lb = page_no 0x10000000 then page2pa 1 OR PTE_P OR (PTE_U OR PTE_W)
          else pte_of demo_vmem 0 lb)) \<and>
      (\<forall>x\<in>used demo_vmem. page_ref x s' = page_ref x demo_vmem + (if x = 1 then 1 else 0) -
         (if live (pte_of demo_vmem 0 0x10000000) \<and> x = frame_of (pte_of demo_vmem 0 0x10000000) then 1 else 0))"
    using page_insert_maps [OF demo_vmem_ok(1) h(1,3,4,5), of "0x10000000"] by blast
  have "r = 0" using s'(3) demo_vmem_phys(1) by force
  moreover have "pte_of s' 0 0x10000000 = page2pa 1 OR PTE_P OR (PTE_U OR PTE_W)" using m calculation by simp
  moreover have "page_ref 1 s' = 1" "page_ref 2 s' = 0" using m calculation(1) h(1,2) z r0 by simp_all
  ultimately show ?thesis using s'(1,2) by (simp add: page2pa_def KMEMBASE_def pte_flags)
qed

lemma aligned_mod: "start mod PGSIZE = 0 \<longleftrightarrow> unat start mod 4096 = 0"
  by (simp add: PGSIZE_def unat_mod flip: unat_eq_zero)

lemma user_range:
  assumes "USER_ACCESS start en"
  shows "unat start < unat en" "unat en \<le> 2 ^ 31"
  using assms by (auto simp: USER_ACCESS_def USERTOP_def word_less_nat_alt word_le_nat_alt)

lemma page_in_range:
  assumes "unat start mod 4096 = 0" "unat en mod 4096 = 0"
  shows "page_no start \<le> page_no lb \<and> page_no lb < page_no en \<longleftrightarrow> start \<le> lb \<and> lb < en"
proof -
  have e: "unat start = page_no start * 4096" "unat en = page_no en * 4096"
    using assms by (auto simp: page_no_def)
  have "page_no start * 4096 \<le> unat lb \<longleftrightarrow> page_no start \<le> page_no lb"
    unfolding page_no_def [of lb] by (simp add: less_eq_div_iff_mult_less_eq)
  moreover have "unat lb < page_no en * 4096 \<longleftrightarrow> page_no lb < page_no en"
    unfolding page_no_def [of lb] by (simp add: div_less_iff_less_mult)
  ultimately show ?thesis by (simp add: word_le_nat_alt word_less_nat_alt e)
qed

text \<open>
   \<^verbatim>\<open>unmap_range\<close> on a page-aligned user range always ends without a panic.  Afterwards
  no page of the range is mapped, every other translation is what it was, each page lost one
  reference per mapping removed and went back to the allocator exactly when that was the last, and
  the address space is still well-formed.
\<close>

theorem unmap_range_clears:
  assumes "space_ok s pd" "start mod PGSIZE = 0" "en mod PGSIZE = 0" "USER_ACCESS start en"
  shows "\<exists>s'. unmap_range pd start en s = Some s' \<and> space_ok s' pd \<and>
    (\<forall>lb. pte_of s' pd lb = (if start \<le> lb \<and> lb < en \<and> live (pte_of s pd lb) then 0 else pte_of s pd lb)) \<and>
    (\<forall>x. page_ref x s' = page_ref x s - int (card {n \<in> {page_no start..<page_no en}. maps_to s pd x n})) \<and>
    (\<forall>x. x \<in> used s' \<longleftrightarrow> x \<in> used s \<and> \<not> (\<exists>n\<in>{page_no start..<page_no en}. maps_to s pd x n \<and>
       page_ref x s = int (card {n \<in> {page_no start..<page_no en}. maps_to s pd x n})))"
proof -
  have al: "unat start mod 4096 = 0" "unat en mod 4096 = 0" using assms(2,3) aligned_mod by auto
  obtain s' where s': "unmap_loop pd start en s = Some s'" "cleared pd (page_no start) (page_no en) s s'"
    using unmap_loop_ok [OF assms(1) al user_range [OF assms(4)]] by blast
  have "unmap_range pd start en s = Some s'" using s'(1) assms(2-4) by (simp add: unmap_range_def)
  moreover have "pte_of s' pd lb = (if start \<le> lb \<and> lb < en \<and> live (pte_of s pd lb) then 0 else pte_of s pd lb)" for lb
    using s'(2) page_no_bound [of lb] page_in_range [OF al, of lb] unfolding cleared_def pte_of_at by auto
  ultimately show ?thesis using s'(2) unfolding cleared_def by (intro exI [of _ s'] conjI allI) auto
qed

lemma live_entry: "page2pa 1 = 0xbc001000" "live 0xbc001007" "frame_of 0xbc001007 = 1"
  by (simp_all add: page2pa_def KMEMBASE_def live_def frame_of_def PTE_ADDR_def PPN_def pte_flags)

text \<open>One page mapped: frame 1 is the table of directory entry 65, frame 2 the page \<^verbatim>\<open>0x10400000\<close>.\<close>

definition demo_mapped :: vmem where
  "demo_mapped = \<lparr>phys = \<lparr>pages = (\<lambda>p. \<lparr>ref = (if p \<in> {1, 2} then 1 else 0), flags = (if p = 3 then 2 else 0),
     property = (if p = 3 then 4093 else 0)\<rparr>), free_list = [3], nr_free = 4093\<rparr>,
     frames = (\<lambda>f i. if f = 0 \<and> i = 65 then 0xbc001007 else if f = 1 \<and> i = 0 then 0xbc002007 else 0)\<rparr>"

lemma live_entry2: "live 0xbc002007" "frame_of 0xbc002007 = 2"
  by (simp_all add: KMEMBASE_def live_def frame_of_def PTE_ADDR_def PPN_def pte_flags)

lemma demo_mapped_slots:
  "slot demo_mapped 0 d t = (if d = 65 \<and> t = 0 then 0xbc002007 else 0)"
  "dirs demo_mapped 0 = {65}" "tables demo_mapped 0 = {1}" "page_ref x demo_mapped = (if x \<in> {1, 2} then 1 else 0)"
  "maps demo_mapped 0 q = (if q = 2 then {(65, 0)} else {})"
proof -
  show s: "slot demo_mapped 0 d t = (if d = 65 \<and> t = 0 then 0xbc002007 else 0)" for d t
    by (auto simp: slot_def demo_mapped_def live_entry live_entry2)
  show d: "dirs demo_mapped 0 = {65}" by (auto simp: dirs_def demo_mapped_def live_entry split: if_splits)
  show "tables demo_mapped 0 = {1}" unfolding tables_def d by (simp add: demo_mapped_def live_entry)
  show "maps demo_mapped 0 q = (if q = 2 then {(65, 0)} else {})"
    by (auto simp: maps_def s live_entry2 split: if_splits)
  show "page_ref x demo_mapped = (if x \<in> {1, 2} then 1 else 0)" by (simp add: page_ref_def demo_mapped_def)
qed

lemma demo_mapped_ok: "space_ok demo_mapped 0" "used demo_mapped = {0, 1, 2}"
proof -
  have bl: "blocks (phys demo_mapped) = blocks (phys demo_vmem)"
    by (simp add: blocks_def blk_def demo_mapped_def demo_vmem_def)
  then have fs: "free_set (phys demo_mapped) = free_set (phys demo_vmem)" by (simp add: free_set_def)
  have us: "usable npage (phys demo_mapped) = usable npage (phys demo_vmem)"
    by (simp add: usable_def PageReserved_def demo_mapped_def demo_vmem_def fun_eq_iff)
  have "PageProperty (pages (phys demo_mapped)) x = PageProperty (pages (phys demo_vmem)) x" for x
    by (simp add: PageProperty_def demo_mapped_def demo_vmem_def)
  then have ff: "ff_inv npage (phys demo_mapped)"
    using demo_vmem_phys(2) unfolding ff_inv_def bl fs us by (simp add: demo_mapped_def demo_vmem_def)
  show u: "used demo_mapped = {0, 1, 2}" using demo_vmem_phys(3) unfolding used_def fs us .
  show "space_ok demo_mapped 0"
    unfolding space_ok_def u using ff by (simp add: demo_mapped_slots)
qed

theorem unmap_range_clears_witness:
  "\<exists>s'. unmap_range 0 0x10400000 0x10402000 demo_mapped = Some s' \<and> space_ok s' 0 \<and>
     pte_of demo_mapped 0 0x10400000 = 0xbc002007 \<and> pte_of s' 0 0x10400000 = 0 \<and> page_ref 2 s' = 0 \<and> 2 \<notin> used s'"
proof -
  have al: "(0x10400000 :: u32) mod PGSIZE = 0" "(0x10402000 :: u32) mod PGSIZE = 0"
    "USER_ACCESS 0x10400000 0x10402000" by (simp_all add: PGSIZE_def USER_ACCESS_def USERBASE_def USERTOP_def)
  have pte: "pte_of demo_mapped 0 0x10400000 = 0xbc002007"
    by (simp add: pte_of_def demo_mapped_slots PDX_PTX)
  have n: "page_no 0x10400000 = 66560" "page_no 0x10402000 = 66562" by (simp_all add: page_no_def)
  have "n \<in> {66560..<66562} \<Longrightarrow> maps_to demo_mapped 0 2 n \<longleftrightarrow> n = 66560" for n
    by (auto simp: maps_to_def pte_at_def demo_mapped_slots live_entry2)
  then have c: "{n \<in> {66560..<66562}. maps_to demo_mapped 0 2 n} = {66560}" by auto
  have m: "maps_to demo_mapped 0 2 66560" using c by blast
  from unmap_range_clears [OF demo_mapped_ok(1) al, unfolded n]
  obtain s' where s': "unmap_range 0 0x10400000 0x10402000 demo_mapped = Some s'" "space_ok s' 0"
    and p: "\<forall>lb. pte_of s' 0 lb = (if 0x10400000 \<le> lb \<and> lb < 0x10402000 \<and> live (pte_of demo_mapped 0 lb)
      then 0 else pte_of demo_mapped 0 lb)"
    and r: "\<forall>x. page_ref x s' = page_ref x demo_mapped - int (card {n \<in> {66560..<66562}. maps_to demo_mapped 0 x n})"
    and u: "\<forall>x. x \<in> used s' \<longleftrightarrow> x \<in> used demo_mapped \<and> \<not> (\<exists>n\<in>{66560..<66562}. maps_to demo_mapped 0 x n \<and>
       page_ref x demo_mapped = int (card {n \<in> {66560..<66562}. maps_to demo_mapped 0 x n}))"
    by blast
  have "pte_of s' 0 0x10400000 = 0" using spec [OF p, of "0x10400000"] pte live_entry2 by simp
  moreover have "page_ref 2 s' = 0" using spec [OF r, of 2] unfolding c by (simp add: demo_mapped_slots)
  moreover have "2 \<notin> used s'"
  proof -
    have "\<exists>n\<in>{66560..<66562}. maps_to demo_mapped 0 2 n \<and> page_ref 2 demo_mapped = int (card {66560 :: nat})"
      using m by (intro bexI [of _ 66560]) (simp_all add: demo_mapped_slots)
    then show ?thesis using spec [OF u, of 2] unfolding c by blast
  qed
  ultimately show ?thesis using s' pte by blast
qed

text \<open>
   \<^verbatim>\<open>copy_range\<close> rounds to a page, not to a table, when it steps over a missing table of
  the source.  If the range does not begin at a table boundary it therefore steps over the first
  pages of the next table too: a range shorter than a table whose first table is missing is
  reported as copied although nothing was, mapped pages included.
\<close>

theorem copy_range_skips:
  assumes "space_ok s src" "start mod PGSIZE = 0" "en mod PGSIZE = 0" "USER_ACCESS start en"
    "\<not> live (frames s src (PDX start))" "en \<le> start + PTSIZE"
  shows "copy_range dst src start en s = Some (0, s)"
proof -
  have b: "unat start < 2 ^ 31" using user_range [OF assms(4)] by simp
  then have "unat (start + PTSIZE) = unat start + 2 ^ 22"
    unfolding PTSIZE_def by (subst unat_add_u32) simp_all
  moreover have "unat start mod 4096 = 0" using assms(2) aligned_mod by auto
  ultimately have "unat (rounddown_2n (start + PTSIZE) 12) = unat (start + PTSIZE)"
    unfolding unat_rounddown by (simp add: mod_eq_0_iff_dvd dvd_add)
  then have e: "rounddown_2n (start + PTSIZE) 12 = start + PTSIZE" by (rule word_unat_eq_iff [THEN iffD2])
  have "copy_loop dst src start en s = Some (0, s)"
    using assms(5,6) by (subst copy_loop.simps) (auto simp: get_pte_lookup [OF assms(1)] e Let_def)
  then show ?thesis using assms(2-4) by (simp add: copy_range_def)
qed

theorem copy_range_skips_witness:
  "copy_range 2 0 0x10001000 0x10401000 demo_mapped = Some (0, demo_mapped) \<and>
   live (pte_of demo_mapped 0 0x10400000) \<and> (0x10001000 :: u32) \<le> 0x10400000 \<and> (0x10400000 :: u32) < 0x10401000"
proof -
  have "(0x10001000 :: u32) mod PGSIZE = 0" "(0x10401000 :: u32) mod PGSIZE = 0"
    "USER_ACCESS 0x10001000 0x10401000" "0x10401000 \<le> (0x10001000 :: u32) + PTSIZE"
    by (simp_all add: PGSIZE_def PTSIZE_def USER_ACCESS_def USERBASE_def USERTOP_def)
  moreover have "\<not> live (frames demo_mapped 0 (PDX 0x10001000))" by (simp add: demo_mapped_def PDX_PTX)
  ultimately have "copy_range 2 0 0x10001000 0x10401000 demo_mapped = Some (0, demo_mapped)"
    by (intro copy_range_skips [OF demo_mapped_ok(1)])
  moreover have "pte_of demo_mapped 0 0x10400000 = 0xbc002007"
    by (simp add: pte_of_def demo_mapped_slots PDX_PTX)
  ultimately show ?thesis using live_entry2 by simp
qed

end
