(* ===== verification/Tlb.thy ===== *)
theory Tlb
  imports Page_Map
begin

text \<open>
  The software-filled TLB (\<^verbatim>\<open>kern/mm/la32_tlb.c\<close>): a page-table entry is translated into the low
  half of a TLB entry, and a refill writes the even and the odd page of a pair.  The instruction
  that stores the pair at a random index is the hardware's; \<open>tlb_refill\<close> is the entry it is given,
  \<open>None\<close> when it is not executed because there is no entry in the page tables.
\<close>

definition TLB_V :: u32 where "TLB_V = 1"
definition TLB_D :: u32 where "TLB_D = 2"
definition TLB_G :: u32 where "TLB_G = 0x40"
definition TLB_MAT_CO :: u32 where "TLB_MAT_CO = 0x10"
definition TLB_PLV3 :: u32 where "TLB_PLV3 = 0xC"
definition TLB_VPPN_MASK :: u32 where "TLB_VPPN_MASK = NOT 0x1FFF"

definition ptep_present :: "u32 \<Rightarrow> bool" where "ptep_present e \<longleftrightarrow> e AND PTE_P \<noteq> 0"
definition ptep_s_write :: "u32 \<Rightarrow> bool" where "ptep_s_write e \<longleftrightarrow> e AND PTE_W \<noteq> 0"
definition ptep_u_read :: "u32 \<Rightarrow> bool" where "ptep_u_read e \<longleftrightarrow> e AND PTE_U \<noteq> 0"

definition pte2tlblow :: "u32 \<Rightarrow> u32" where
  "pte2tlblow e =
     (let t = push_bit 8 (drop_bit 12 (e - KERNBASE))
      in if \<not> ptep_present e then 0
         else let t = t OR TLB_V;
                  t = t OR TLB_G;
                  t = t OR TLB_MAT_CO;
                  t = (if ptep_u_read e then t OR TLB_PLV3 else t)
              in (if ptep_s_write e then t OR TLB_D else t))"

definition tlb_refill :: "u32 \<Rightarrow> (nat \<times> nat) option \<Rightarrow> vmem \<Rightarrow> (u32 \<times> u32 \<times> u32) option" where
  "tlb_refill badaddr ptep s = (case ptep of
     None \<Rightarrow> None
   | Some (f, i) \<Rightarrow>
       (let i = (if badaddr AND push_bit 12 1 \<noteq> 0 then i - 1 else i)
        in Some (badaddr AND TLB_VPPN_MASK, pte2tlblow (frames s f i), pte2tlblow (frames s f (i + 1)))))"

text \<open>The fields of an entry as the processor reads them.\<close>

definition tlb_half :: "u32 \<Rightarrow> u32 \<times> u32 \<times> u32 \<Rightarrow> u32" where
  "tlb_half va e = (case e of (hi, lo0, lo1) \<Rightarrow> if bit va 12 then lo1 else lo0)"

definition tlb_ppn :: "u32 \<Rightarrow> u32" where
  "tlb_ppn lo = drop_bit 8 lo"

lemmas tlb_flags = TLB_V_def TLB_D_def TLB_G_def TLB_MAT_CO_def TLB_PLV3_def

lemma bit12_odd: "bit va 12 \<longleftrightarrow> odd (PTX va)" for va :: u32
proof -
  have "bit va 12 \<longleftrightarrow> bit (unat va) 12" by (simp add: bit_unsigned_iff)
  also have "\<dots> \<longleftrightarrow> odd (unat va div 4096)" by (simp add: bit_iff_odd)
  also have "\<dots> \<longleftrightarrow> odd (PTX va)" unfolding PDX_PTX by (simp add: dvd_mod_iff)
  finally show ?thesis .
qed

lemma badaddr_bit: "va AND push_bit 12 1 \<noteq> 0 \<longleftrightarrow> bit va 12" for va :: u32
  by (simp add: bit_iff_and_push_bit_not_eq_0)

lemma pte2tlblow_cases:
  assumes "live e"
  shows "\<exists>fl \<in> {0x51, 0x53, 0x5D, 0x5F}. pte2tlblow e = push_bit 8 (drop_bit 12 (e - KERNBASE)) OR fl \<and>
    (bit fl 1 \<longleftrightarrow> ptep_s_write e) \<and> (bit fl 2 \<longleftrightarrow> ptep_u_read e) \<and> (bit fl 3 \<longleftrightarrow> ptep_u_read e)"
proof -
  have p: "ptep_present e" using assms by (simp add: ptep_present_def live_def)
  have o: "(TLB_V OR TLB_G OR TLB_MAT_CO :: u32) = 0x51" by (simp add: tlb_flags)
  show ?thesis
    by (cases "ptep_u_read e"; cases "ptep_s_write e")
      (simp_all add: pte2tlblow_def p Let_def or.assoc tlb_flags bit_iff_odd)
qed

lemma tlb_low_fields:
  assumes "p < npage" "perm AND NOT 0xFFF = 0"
  defines "lo \<equiv> pte2tlblow (page2pa p OR PTE_P OR perm)"
  shows "unat (tlb_ppn lo) = 0x1c000 + p" "bit lo 0"
    "bit lo 1 \<longleftrightarrow> bit perm 1" "bit lo 2 \<longleftrightarrow> bit perm 2" "bit lo 3 \<longleftrightarrow> bit perm 2"
proof -
  let ?e = "page2pa p OR PTE_P OR perm"
  let ?w = "drop_bit 12 (?e - KERNBASE)"
  obtain fl where fl: "fl \<in> {0x51, 0x53, 0x5D, 0x5F}" "lo = push_bit 8 ?w OR fl"
    "bit fl 1 \<longleftrightarrow> ptep_s_write ?e" "bit fl 2 \<longleftrightarrow> ptep_u_read ?e" "bit fl 3 \<longleftrightarrow> ptep_u_read ?e"
    using pte2tlblow_cases [OF leaf_entry(2) [OF assms(2,1)]] unfolding lo_def by blast
  have x: "(PTE_P OR perm) AND NOT 0xFFF = 0" using assms(2) by (simp add: bit.conj_disj_distrib2 pte_flags)
  have hi: "\<not> bit (PTE_P OR perm) n" if "12 \<le> n" for n
  proof -
    have "\<not> bit ((PTE_P OR perm) AND NOT 0xFFF) n" unfolding x by simp
    moreover have "\<not> bit (0xFFF :: u32) n"
    proof -
      have "(0xFFF :: u32) = mask 12" by (simp add: mask_eq_exp_minus_1)
      then show ?thesis using that by (simp only: bit_mask_iff) simp
    qed
    ultimately show ?thesis by (auto simp: bit_simps dest: bit_imp_le_length)
  qed
  have "drop_bit 12 (PTE_P OR perm) = 0"
    by (rule bit_word_eqI) (simp add: bit_drop_bit_eq hi del: drop_bit_or)
  then have "drop_bit 12 ?e = drop_bit 12 (page2pa p)"
    by (simp only: or.assoc drop_bit_or) simp
  then have "unat ?e div 2 ^ 12 = unat (page2pa p) div 2 ^ 12" by (simp only: flip: unat_shiftr)
  then have ed: "unat ?e div 4096 = 0xbc000 + p" using unat_page2pa [OF assms(1)] by simp
  define u v where "u = unat ?e" and "v = u mod 4096"
  have dm: "u = v + 4096 * (0xbc000 + p)"
    using ed mult_div_mod_eq [of 4096 u] unfolding u_def v_def by simp
  then have "unat ?e \<ge> 0xbc000000" unfolding u_def [symmetric] by simp
  then have "unat (?e - KERNBASE) = u - 0xa0000000"
    unfolding u_def by (subst unat_sub_u32) (simp_all add: KERNBASE_def)
  also have "\<dots> = v + 4096 * (0x1c000 + p)" using dm by simp
  finally have "unat (?e - KERNBASE) div 4096 = 0x1c000 + p" by (simp add: v_def)
  then have w: "unat ?w = 0x1c000 + p" by (simp add: unat_shiftr)
  have "drop_bit 8 fl = 0" using fl(1) by auto
  then have "tlb_ppn lo = drop_bit 8 (push_bit 8 ?w)" by (simp add: tlb_ppn_def fl(2) drop_bit_or)
  also have "unat \<dots> = unat (push_bit 8 ?w) div 2 ^ 8" by (rule unat_shiftr)
  also have "unat (push_bit 8 ?w) = unat ?w * 256"
    using assms(1) by (simp only: push_bit_eq_mult) (subst unat_mul_u32; simp add: w npage_def)
  finally show "unat (tlb_ppn lo) = 0x1c000 + p" by (simp add: w)
  have low: "bit lo n \<longleftrightarrow> bit fl n" if "n < 8" for n
    using that by (simp add: fl(2) bit_simps)
  have z: "\<not> bit (page2pa p) n" if "bit (0xFFF :: u32) n" for n
    using page2pa_low [of p] that by (metis bit_0_eq bit_and_iff bot_apply bot_bool_def)
  have "bit (0xFFF :: u32) 1" "bit (0xFFF :: u32) 2" "\<not> bit PTE_P 1" "\<not> bit PTE_P 2"
    by (simp_all add: bit_iff_odd PTE_P_def)
  then have e: "bit ?e n \<longleftrightarrow> bit perm n" if "n \<in> {1, 2}" for n
    using that z [of 1] z [of 2] unfolding bit_or_iff by blast
  have pw: "ptep_s_write ?e \<longleftrightarrow> bit ?e 1" "ptep_u_read ?e \<longleftrightarrow> bit ?e 2"
    using bit_iff_and_push_bit_not_eq_0 [of ?e 1] bit_iff_and_push_bit_not_eq_0 [of ?e 2]
    by (simp_all add: ptep_s_write_def ptep_u_read_def pte_flags)
  show "bit lo 0" unfolding low [of 0, simplified] using fl(1) by (auto simp: bit_iff_odd)
  show "bit lo 1 \<longleftrightarrow> bit perm 1" "bit lo 2 \<longleftrightarrow> bit perm 2" "bit lo 3 \<longleftrightarrow> bit perm 2"
    using fl(3-5) pw e by (simp_all add: low)
qed

lemma tlb_refill_entry:
  assumes "space_ok s pd" "get_pte pd va False s = Some (Some ptep, s')"
  shows "\<exists>e. tlb_refill va (Some ptep) s' = Some e \<and> fst e = va AND TLB_VPPN_MASK \<and> tlb_half va e = pte2tlblow (pte_of s pd va)"
proof -
  let ?f = "frame_of (frames s pd (PDX va))"
  have g: "live (frames s pd (PDX va))" "ptep = (?f, PTX va)" "s' = s"
    using assms(2) by (auto simp: get_pte_lookup [OF assms(1)] split: if_splits)
  let ?i = "if bit va 12 then PTX va - 1 else PTX va"
  let ?e = "(va AND TLB_VPPN_MASK, pte2tlblow (frames s ?f ?i), pte2tlblow (frames s ?f (?i + 1)))"
  have odd: "bit va 12 \<Longrightarrow> PTX va - 1 + 1 = PTX va" by (auto simp: bit12_odd elim: oddE)
  have t: "tlb_refill va (Some ptep) s' = Some ?e"
    unfolding tlb_refill_def badaddr_bit g(2,3) Let_def by simp
  have "tlb_half va ?e = pte2tlblow (pte_of s pd va)"
    using odd g(1) by (simp add: tlb_half_def pte_of_def slot_def)
  then show ?thesis using t by auto
qed

text \<open>
  C25.  A TLB refill installs what the page tables say.  For every address whose table exists, the
  entry handed to the processor is tagged with the page pair of the address, and the half that the
  processor will use for it comes from that address's own entry; when that entry maps a page, the
  half is valid, carries the page's physical frame number, is dirty-enabled exactly for writable
  pages and open to user mode exactly for user pages, and it is not valid when nothing is mapped.
\<close>

theorem tlb_refill_exact:
  assumes "space_ok s pd" "get_pte pd va False s = Some (Some ptep, s')"
  shows "\<exists>e. tlb_refill va (Some ptep) s' = Some e \<and> fst e = va AND TLB_VPPN_MASK \<and>
    tlb_half va e = pte2tlblow (pte_of s pd va) \<and>
    (\<not> live (pte_of s pd va) \<longrightarrow> tlb_half va e = 0) \<and>
    (\<forall>p perm. p < npage \<and> perm AND NOT 0xFFF = 0 \<and> pte_of s pd va = page2pa p OR PTE_P OR perm \<longrightarrow>
       bit (tlb_half va e) 0 \<and> unat (tlb_ppn (tlb_half va e)) = 0x1c000 + p \<and>
       (bit (tlb_half va e) 1 \<longleftrightarrow> bit perm 1) \<and> (bit (tlb_half va e) 3 \<longleftrightarrow> bit perm 2))"
proof -
  obtain e where e: "tlb_refill va (Some ptep) s' = Some e" "fst e = va AND TLB_VPPN_MASK"
    "tlb_half va e = pte2tlblow (pte_of s pd va)"
    using tlb_refill_entry [OF assms] by blast
  have "pte2tlblow (pte_of s pd va) = 0" if "\<not> live (pte_of s pd va)"
    using that by (simp add: pte2tlblow_def ptep_present_def live_def Let_def)
  then show ?thesis using e tlb_low_fields by (intro exI [of _ e]) auto
qed

theorem tlb_refill_exact_witness:
  "\<exists>e. tlb_refill 0x10400123 (Some (1, 0)) demo_mapped = Some e \<and> fst e = 0x10400000 \<and>
     bit (tlb_half 0x10400123 e) 0 \<and> unat (tlb_ppn (tlb_half 0x10400123 e)) = 0x1c002"
proof -
  have dl: "live (frames demo_mapped 0 (PDX 0x10400123))" "frame_of (frames demo_mapped 0 (PDX 0x10400123)) = 1"
    "PTX 0x10400123 = 0" by (simp_all add: demo_mapped_def PDX_PTX live_entry)
  then have g: "get_pte 0 0x10400123 False demo_mapped = Some (Some (1, 0), demo_mapped)"
    by (simp add: get_pte_lookup [OF demo_mapped_ok(1)])
  have e: "pte_of demo_mapped 0 0x10400123 = page2pa 2 OR PTE_P OR (PTE_U OR PTE_W)"
    by (simp add: pte_of_def demo_mapped_slots PDX_PTX page2pa_def KMEMBASE_def pte_flags)
  have p: "(2 :: nat) < npage" "(PTE_U OR PTE_W) AND NOT 0xFFF = 0" by (simp_all add: npage_def pte_flags)
  have v: "0x10400123 AND TLB_VPPN_MASK = 0x10400000" by (simp add: TLB_VPPN_MASK_def)
  from tlb_refill_exact [OF demo_mapped_ok(1) g] show ?thesis using e p unfolding v by fastforce
qed

end
