(* ===== verification/Vmm.thy ===== *)
theory Vmm
  imports Page_Map String_Lib
begin

text \<open>
  Virtual memory areas and memory descriptors (\<^verbatim>\<open>kern/mm/vmm.c\<close>, \<^verbatim>\<open>vmm.h\<close>) over the page
  tables.  Areas and descriptors are objects named by numbers, as their users hold pointers to
  them; \<^verbatim>\<open>mmap_list\<close> is the list of the areas it links.  What \<^verbatim>\<open>kmalloc\<close> answers is the list
  \<open>answers\<close>, one entry for each call to come, so that every pattern of failures is covered; \<open>kobjs\<close>
  are the objects it has handed out and not taken back.  \<^verbatim>\<open>mm_sem\<close> is not part of a descriptor:
  \<open>lock_mm\<close> and \<open>unlock_mm\<close> keep their effect on \<^verbatim>\<open>locked_by\<close>, and the semaphore itself is
  \<^verbatim>\<open>Semaphore\<close>'s.
\<close>

definition VM_READ :: u32 where "VM_READ = 1"
definition VM_WRITE :: u32 where "VM_WRITE = 2"
definition VM_EXEC :: u32 where "VM_EXEC = 4"
definition VM_STACK :: u32 where "VM_STACK = 8"

record vma_struct =
  vm_mm :: "nat option"
  vm_start :: u32
  vm_end :: u32
  vm_flags :: u32

record mm_struct =
  mmap_list :: "nat list"
  mmap_cache :: "nat option"
  pgdir :: "nat option"
  map_count :: int
  mm_count :: int
  locked_by :: int

record vmstate =
  vmas :: "nat \<Rightarrow> vma_struct"
  mms :: "nat \<Rightarrow> mm_struct"
  pgs :: vmem
  answers :: "nat option list"
  kobjs :: "nat set"
  pgfault_num :: u32

definition mod_mm :: "nat \<Rightarrow> (mm_struct \<Rightarrow> mm_struct) \<Rightarrow> vmstate \<Rightarrow> vmstate" where
  "mod_mm m f s = s\<lparr>mms := (mms s)(m := f (mms s m))\<rparr>"

definition mod_vma :: "nat \<Rightarrow> (vma_struct \<Rightarrow> vma_struct) \<Rightarrow> vmstate \<Rightarrow> vmstate" where
  "mod_vma v f s = s\<lparr>vmas := (vmas s)(v := f (vmas s v))\<rparr>"

definition kmalloc_obj :: "vmstate \<Rightarrow> nat option \<times> vmstate" where
  "kmalloc_obj s = (case answers s of
     Some a # as \<Rightarrow> (Some a, s\<lparr>answers := as, kobjs := insert a (kobjs s)\<rparr>)
   | None # as \<Rightarrow> (None, s\<lparr>answers := as\<rparr>)
   | [] \<Rightarrow> (None, s))"

definition kfree_obj :: "nat \<Rightarrow> vmstate \<Rightarrow> vmstate" where
  "kfree_obj a s = s\<lparr>kobjs := kobjs s - {a}\<rparr>"

section \<open>Descriptors and areas\<close>

definition mm_create :: "vmstate \<Rightarrow> nat option \<times> vmstate" where
  "mm_create s = (case kmalloc_obj s of
     (None, s) \<Rightarrow> (None, s)
   | (Some m, s) \<Rightarrow> (Some m, mod_mm m (\<lambda>d. d\<lparr>mmap_list := [], mmap_cache := None, pgdir := None,
       map_count := 0, mm_count := 0\<rparr>) s))"

definition mm_count_inc :: "nat \<Rightarrow> vmstate \<Rightarrow> int \<times> vmstate" where
  "mm_count_inc m s = (mm_count (mms s m) + 1, mod_mm m (\<lambda>d. d\<lparr>mm_count := mm_count d + 1\<rparr>) s)"

definition mm_count_dec :: "nat \<Rightarrow> vmstate \<Rightarrow> int \<times> vmstate" where
  "mm_count_dec m s = (mm_count (mms s m) - 1, mod_mm m (\<lambda>d. d\<lparr>mm_count := mm_count d - 1\<rparr>) s)"

definition lock_mm :: "nat option \<Rightarrow> int \<Rightarrow> vmstate \<Rightarrow> vmstate" where
  "lock_mm m cpid s = (case m of None \<Rightarrow> s | Some m \<Rightarrow> mod_mm m (\<lambda>d. d\<lparr>locked_by := cpid\<rparr>) s)"

definition unlock_mm :: "nat option \<Rightarrow> vmstate \<Rightarrow> vmstate" where
  "unlock_mm m s = (case m of None \<Rightarrow> s | Some m \<Rightarrow> mod_mm m (\<lambda>d. d\<lparr>locked_by := 0\<rparr>) s)"

definition vma_create :: "u32 \<Rightarrow> u32 \<Rightarrow> u32 \<Rightarrow> vmstate \<Rightarrow> nat option \<times> vmstate" where
  "vma_create st en fl s = (case kmalloc_obj s of
     (None, s) \<Rightarrow> (None, s)
   | (Some v, s) \<Rightarrow> (Some v, mod_vma v (\<lambda>d. d\<lparr>vm_start := st, vm_end := en, vm_flags := fl\<rparr>) s))"

definition find_vma :: "nat option \<Rightarrow> u32 \<Rightarrow> vmstate \<Rightarrow> nat option \<times> vmstate" where
  "find_vma mm addr s = (case mm of
     None \<Rightarrow> (None, s)
   | Some m \<Rightarrow>
       let hit = (case mmap_cache (mms s m) of
             Some v \<Rightarrow> vm_start (vmas s v) \<le> addr \<and> vm_end (vmas s v) > addr | None \<Rightarrow> False);
           r = (if hit then mmap_cache (mms s m)
                else find (\<lambda>v. addr < vm_end (vmas s v)) (mmap_list (mms s m)))
       in (r, if r \<noteq> None then mod_mm m (\<lambda>d. d\<lparr>mmap_cache := r\<rparr>) s else s))"

definition check_vma_overlap :: "nat \<Rightarrow> nat \<Rightarrow> vmstate \<Rightarrow> unit option" where
  "check_vma_overlap prv nxt s = do {
     kassert (vm_start (vmas s prv) < vm_end (vmas s prv));
     kassert (vm_end (vmas s prv) \<le> vm_start (vmas s nxt));
     kassert (vm_start (vmas s nxt) < vm_end (vmas s nxt))
   }"

text \<open>The list is split where the scan stops: before the first area that starts after the new one.\<close>

definition insert_vma_struct :: "nat \<Rightarrow> nat \<Rightarrow> vmstate \<Rightarrow> vmstate option" where
  "insert_vma_struct m v s = do {
     kassert (vm_start (vmas s v) < vm_end (vmas s v));
     let before = takeWhile (\<lambda>p. \<not> vm_start (vmas s p) > vm_start (vmas s v)) (mmap_list (mms s m));
     let after = dropWhile (\<lambda>p. \<not> vm_start (vmas s p) > vm_start (vmas s v)) (mmap_list (mms s m));
     (if before \<noteq> [] then check_vma_overlap (last before) v s else Some ());
     (case after of [] \<Rightarrow> Some () | n # _ \<Rightarrow> check_vma_overlap v n s);
     let s = mod_vma v (\<lambda>d. d\<lparr>vm_mm := Some m\<rparr>) s;
     let s = mod_mm m (\<lambda>d. d\<lparr>mmap_list := before @ v # after\<rparr>) s;
     Some (mod_mm m (\<lambda>d. d\<lparr>map_count := map_count d + 1\<rparr>) s)
   }"

definition mm_destroy :: "nat \<Rightarrow> vmstate \<Rightarrow> vmstate option" where
  "mm_destroy m s = do {
     kassert (mm_count (mms s m) = 0);
     let s' = fold kfree_obj (mmap_list (mms s m)) s;
     let s' = mod_mm m (\<lambda>d. d\<lparr>mmap_list := []\<rparr>) s';
     Some (kfree_obj m s')
   }"

definition mm_map :: "nat option \<Rightarrow> u32 \<Rightarrow> u32 \<Rightarrow> u32 \<Rightarrow> vmstate \<Rightarrow> (int \<times> nat option \<times> vmstate) option" where
  "mm_map mm addr len fl s =
     (let start = rounddown_2n addr 12; en = roundup_2n (addr + len) 12 in
      if \<not> USER_ACCESS start en then Some (fail_code E_INVAL, None, s)
      else do {
        m \<leftarrow> mm;
        let (r, s) = find_vma (Some m) start s;
        if (case r of Some v \<Rightarrow> en > vm_start (vmas s v) | None \<Rightarrow> False)
        then Some (fail_code E_INVAL, None, s)
        else (case vma_create start en fl s of
            (None, s) \<Rightarrow> Some (fail_code E_NO_MEM, None, s)
          | (Some v, s) \<Rightarrow> do { s \<leftarrow> insert_vma_struct m v s; Some (0, Some v, s) })
      })"

text \<open>\<^verbatim>\<open>dup_mmap\<close> goes through the areas from the last to the first.\<close>

fun dup_areas :: "nat \<Rightarrow> nat \<Rightarrow> nat list \<Rightarrow> vmstate \<Rightarrow> (int \<times> vmstate) option" where
  "dup_areas dst src [] s = Some (0, s)"
| "dup_areas dst src (v # le) s =
     (let d = vmas s v in
      case vma_create (vm_start d) (vm_end d) (vm_flags d) s of
        (None, s) \<Rightarrow> Some (fail_code E_NO_MEM, s)
      | (Some nv, s) \<Rightarrow> do {
          s \<leftarrow> insert_vma_struct dst nv s;
          dp \<leftarrow> pgdir (mms s dst);
          sp \<leftarrow> pgdir (mms s src);
          (r, pg) \<leftarrow> copy_range dp sp (vm_start (vmas s v)) (vm_end (vmas s v)) (pgs s);
          let s = s\<lparr>pgs := pg\<rparr>;
          if r \<noteq> 0 then Some (fail_code E_NO_MEM, s) else dup_areas dst src le s
        })"

definition dup_mmap :: "nat \<Rightarrow> nat \<Rightarrow> vmstate \<Rightarrow> (int \<times> vmstate) option" where
  "dup_mmap dst src s = dup_areas dst src (rev (mmap_list (mms s src))) s"

fun unmap_areas :: "nat \<Rightarrow> vma_struct list \<Rightarrow> vmem \<Rightarrow> vmem option" where
  "unmap_areas pd [] pg = Some pg"
| "unmap_areas pd (d # le) pg = do { pg \<leftarrow> unmap_range pd (vm_start d) (vm_end d) pg; unmap_areas pd le pg }"

fun exit_areas :: "nat \<Rightarrow> vma_struct list \<Rightarrow> vmem \<Rightarrow> vmem option" where
  "exit_areas pd [] pg = Some pg"
| "exit_areas pd (d # le) pg = do { pg \<leftarrow> exit_range pd (vm_start d) (vm_end d) pg; exit_areas pd le pg }"

definition exit_mmap :: "nat \<Rightarrow> vmstate \<Rightarrow> vmstate option" where
  "exit_mmap m s = do {
     kassert (mm_count (mms s m) = 0);
     pd \<leftarrow> pgdir (mms s m);
     pg \<leftarrow> unmap_areas pd (map (vmas s) (mmap_list (mms s m))) (pgs s);
     pg \<leftarrow> exit_areas pd (map (vmas s) (mmap_list (mms s m))) pg;
     Some (s\<lparr>pgs := pg\<rparr>)
   }"

section \<open>Checked access to user memory\<close>

definition KERNTOP :: u32 where "KERNTOP = KMEMBASE + of_nat KMEMSIZE"
definition KERNBASE_UNCACHED :: u32 where "KERNBASE_UNCACHED = 0x80000000"
definition KERNTOP_UNCACHED :: u32 where "KERNTOP_UNCACHED = KERNBASE_UNCACHED + of_nat KMEMSIZE"

definition KERN_ACCESS :: "u32 \<Rightarrow> u32 \<Rightarrow> bool" where
  "KERN_ACCESS start en \<longleftrightarrow> (KERNBASE \<le> start \<and> start < en \<and> en \<le> KERNTOP) \<or>
     (KERNBASE_UNCACHED \<le> start \<and> start < en \<and> en \<le> KERNTOP_UNCACHED)"

partial_function (option) check_areas ::
  "nat \<Rightarrow> u32 \<Rightarrow> u32 \<Rightarrow> bool \<Rightarrow> vmstate \<Rightarrow> (bool \<times> vmstate) option" where
  "check_areas m start en wr s =
     (if start < en then
        (case find_vma (Some m) start s of
           (None, s) \<Rightarrow> Some (False, s)
         | (Some v, s) \<Rightarrow>
             if start < vm_start (vmas s v) then Some (False, s)
             else if vm_flags (vmas s v) AND (if wr then VM_WRITE else VM_READ) = 0 then Some (False, s)
             else if wr \<and> vm_flags (vmas s v) AND VM_STACK \<noteq> 0 \<and> start < vm_start (vmas s v) + PGSIZE
             then Some (False, s)
             else check_areas m (vm_end (vmas s v)) en wr s)
      else Some (True, s))"

definition user_mem_check :: "nat option \<Rightarrow> u32 \<Rightarrow> u32 \<Rightarrow> bool \<Rightarrow> vmstate \<Rightarrow> (bool \<times> vmstate) option" where
  "user_mem_check mm addr len wr s = (case mm of
     Some m \<Rightarrow> if \<not> USER_ACCESS addr (addr + len) then Some (False, s)
                else check_areas m addr (addr + len) wr s
   | None \<Rightarrow> Some (KERN_ACCESS addr (addr + len), s))"

text \<open>
  Memory contents are a \<open>mem\<close> of \<^verbatim>\<open>String_Lib\<close>: the bytes at the addresses the kernel uses while
  the process is current.
\<close>

definition copy_from_user ::
  "nat option \<Rightarrow> u32 \<Rightarrow> u32 \<Rightarrow> u32 \<Rightarrow> bool \<Rightarrow> mem \<Rightarrow> vmstate \<Rightarrow> (bool \<times> mem \<times> vmstate) option" where
  "copy_from_user mm dst src len wr b s = do {
     (ok, s) \<leftarrow> user_mem_check mm src len wr s;
     if \<not> ok then Some (False, b, s) else Some (True, memcpy b (unat dst) (unat src) (unat len), s)
   }"

definition copy_to_user ::
  "nat option \<Rightarrow> u32 \<Rightarrow> u32 \<Rightarrow> u32 \<Rightarrow> mem \<Rightarrow> vmstate \<Rightarrow> (bool \<times> mem \<times> vmstate) option" where
  "copy_to_user mm dst src len b s = do {
     (ok, s) \<leftarrow> user_mem_check mm dst len True s;
     if \<not> ok then Some (False, b, s) else Some (True, memcpy b (unat dst) (unat src) (unat len), s)
   }"

partial_function (option) copy_parts ::
  "nat option \<Rightarrow> u32 \<Rightarrow> u32 \<Rightarrow> u32 \<Rightarrow> u32 \<Rightarrow> mem \<Rightarrow> vmstate \<Rightarrow> (bool \<times> mem \<times> vmstate) option" where
  "copy_parts mm dst src maxn part b s = do {
     let part = (if part > maxn then maxn else part);
     (ok, s) \<leftarrow> user_mem_check mm src part False s;
     if \<not> ok then Some (False, b, s)
     else (let alen = strnlen b (unat src) (unat part) in
           if alen < unat part then Some (True, memcpy b (unat dst) (unat src) (alen + 1), s)
           else if part = maxn then Some (False, b, s)
           else copy_parts mm (dst + part) (src + part) (maxn - part) PGSIZE
                  (memcpy b (unat dst) (unat src) (unat part)) s)
   }"

definition copy_string ::
  "nat option \<Rightarrow> u32 \<Rightarrow> u32 \<Rightarrow> u32 \<Rightarrow> mem \<Rightarrow> vmstate \<Rightarrow> (bool \<times> mem \<times> vmstate) option" where
  "copy_string mm dst src maxn b s =
     copy_parts mm dst src maxn (rounddown_2n (src + PGSIZE) 12 - src) b s"

section \<open>Page faults\<close>

definition do_pgfault :: "nat option \<Rightarrow> u32 \<Rightarrow> u32 \<Rightarrow> vmstate \<Rightarrow> (int \<times> vmstate) option" where
  "do_pgfault mm error_code addr s =
     (let (r, s) = find_vma mm addr s;
          s = s\<lparr>pgfault_num := pgfault_num s + 1\<rparr> in
      case r of
        None \<Rightarrow> Some (fail_code E_INVAL, s)
      | Some v \<Rightarrow>
          let fl = vm_flags (vmas s v); c = error_code AND 3 in
          if vm_start (vmas s v) > addr then Some (fail_code E_INVAL, s)
          else if (c = 2 \<or> c = 3) \<and> fl AND VM_WRITE = 0 then Some (fail_code E_INVAL, s)
          else if c = 1 then Some (fail_code E_INVAL, s)
          else if c = 0 \<and> fl AND (VM_READ OR VM_EXEC) = 0 then Some (fail_code E_INVAL, s)
          else do {
            let perm = (if fl AND VM_WRITE \<noteq> 0 then PTE_U OR PTE_W else PTE_U);
            let addr = rounddown_2n addr 12;
            m \<leftarrow> mm;
            pd \<leftarrow> pgdir (mms s m);
            (ptep, pg) \<leftarrow> get_pte pd addr True (pgs s);
            let s = s\<lparr>pgs := pg\<rparr>;
            (case ptep of
               None \<Rightarrow> Some (fail_code E_NO_MEM, s)
             | Some (f, i) \<Rightarrow>
                 if frames (pgs s) f i = 0 then do {
                   (page, pg) \<leftarrow> pgdir_alloc_page pd addr perm (pgs s);
                   let s = s\<lparr>pgs := pg\<rparr>;
                   Some (if page = None then fail_code E_NO_MEM else 0, s)
                 } else Some (0, s))
          })"

end
