(* ===== verification/Vma_Space.thy ===== *)
theory Vma_Space
  imports Vmm
begin

text \<open>
  What the virtual memory areas of a descriptor promise: they are sorted, non-empty and disjoint
  (\<open>mm_ok\<close>), the look-up cache never changes an answer, mapping adds exactly one area or
  reports why it cannot, and the checks on user pointers decide exactly whether every byte lies in
  an area with the right permission.
\<close>

fun areas_ok :: "vma_struct list \<Rightarrow> bool" where
  "areas_ok [] \<longleftrightarrow> True"
| "areas_ok (d # ds) \<longleftrightarrow> vm_start d < vm_end d \<and> vm_end d \<le> USERTOP \<and>
     (\<forall>e\<in>set ds. vm_end d \<le> vm_start e) \<and> areas_ok ds"

abbreviation areas :: "vmstate \<Rightarrow> nat \<Rightarrow> nat list" where
  "areas s m \<equiv> mmap_list (mms s m)"

definition mm_ok :: "vmstate \<Rightarrow> nat \<Rightarrow> bool" where
  "mm_ok s m \<longleftrightarrow> areas_ok (map (vmas s) (areas s m)) \<and> distinct (areas s m) \<and> set (areas s m) \<subseteq> kobjs s \<and>
     map_count (mms s m) = int (length (areas s m)) \<and>
     (\<forall>v. mmap_cache (mms s m) = Some v \<longrightarrow> v \<in> set (areas s m))"

text \<open>\<^verbatim>\<open>kmalloc\<close> never hands out an object that is in use.\<close>

definition heap_ok :: "vmstate \<Rightarrow> bool" where
  "heap_ok s \<longleftrightarrow> distinct (filter (\<lambda>a. a \<noteq> None) (answers s)) \<and> (\<forall>a. Some a \<in> set (answers s) \<longrightarrow> a \<notin> kobjs s)"

definition covers :: "vmstate \<Rightarrow> u32 \<Rightarrow> nat \<Rightarrow> bool" where
  "covers s a v \<longleftrightarrow> vm_start (vmas s v) \<le> a \<and> a < vm_end (vmas s v)"

lemma mod_mm_simps [simp]:
  "vmas (mod_mm m f s) = vmas s" "mms (mod_mm m f s) = (mms s)(m := f (mms s m))"
  "pgs (mod_mm m f s) = pgs s" "answers (mod_mm m f s) = answers s" "kobjs (mod_mm m f s) = kobjs s"
  "pgfault_num (mod_mm m f s) = pgfault_num s"
  by (simp_all add: mod_mm_def)

lemma mod_vma_simps [simp]:
  "vmas (mod_vma m f s) = (vmas s)(m := f (vmas s m))" "mms (mod_vma m f s) = mms s"
  "pgs (mod_vma m f s) = pgs s" "answers (mod_vma m f s) = answers s" "kobjs (mod_vma m f s) = kobjs s"
  by (simp_all add: mod_vma_def)

lemma areas_ok_mem: "areas_ok ds \<Longrightarrow> d \<in> set ds \<Longrightarrow> vm_start d < vm_end d \<and> vm_end d \<le> USERTOP"
  by (induction ds) auto

lemma areas_ok_append:
  "areas_ok (xs @ ys) \<longleftrightarrow> areas_ok xs \<and> areas_ok ys \<and> (\<forall>x\<in>set xs. \<forall>y\<in>set ys. vm_end x \<le> vm_start y)"
  by (induction xs) auto

section \<open>Looking up an area\<close>

lemma find_covering:
  assumes "areas_ok (map f l)" "v \<in> set l" "vm_start (f v) \<le> a" "a < vm_end (f v)"
  shows "find (\<lambda>v. a < vm_end (f v)) l = Some v"
  using assms by (induction l) auto

lemma covers_unique:
  assumes "mm_ok s m" "v \<in> set (areas s m)" "w \<in> set (areas s m)" "covers s a v" "covers s a w"
  shows "v = w"
proof -
  have "areas_ok (map (vmas s) (areas s m))" using assms(1) by (simp add: mm_ok_def)
  from find_covering [OF this] show ?thesis using assms(2-5) unfolding covers_def by (metis option.inject)
qed

text \<open>The only change a look-up makes.\<close>

definition cache_only :: "nat \<Rightarrow> vmstate \<Rightarrow> vmstate \<Rightarrow> bool" where
  "cache_only m s s' \<longleftrightarrow> (\<exists>c. s' = mod_mm m (\<lambda>d. d\<lparr>mmap_cache := c\<rparr>) s \<and> (\<forall>v. c = Some v \<longrightarrow> v \<in> set (areas s m)))"

lemma cache_only_refl: "mm_ok s m \<Longrightarrow> cache_only m s s"
  by (auto simp: cache_only_def mm_ok_def mod_mm_def intro!: exI [of _ "mmap_cache (mms s m)"])

lemma cache_only_trans: "cache_only m s s1 \<Longrightarrow> cache_only m s1 s2 \<Longrightarrow> cache_only m s s2"
  by (auto simp: cache_only_def mod_mm_def)

lemma cache_onlyD:
  assumes "cache_only m s s'"
  shows "areas s' m = areas s m" "vmas s' = vmas s" "pgs s' = pgs s" "answers s' = answers s" "kobjs s' = kobjs s"
    "mm_ok s m \<Longrightarrow> mm_ok s' m" "covers s' = covers s" "heap_ok s' = heap_ok s" "m' \<noteq> m \<Longrightarrow> mms s' m' = mms s m'"
    "pgdir (mms s' m) = pgdir (mms s m)" "mm_count (mms s' m) = mm_count (mms s m)"
  using assms by (auto simp: cache_only_def mm_ok_def covers_def heap_ok_def fun_eq_iff)

lemma find_vma_ok:
  assumes "mm_ok s m"
  shows "\<exists>s'. find_vma (Some m) a s = (find (\<lambda>v. a < vm_end (vmas s v)) (areas s m), s') \<and> cache_only m s s'"
proof -
  let ?f = "find (\<lambda>v. a < vm_end (vmas s v)) (areas s m)"
  have ok: "areas_ok (map (vmas s) (areas s m))" using assms by (simp add: mm_ok_def)
  have hit: "?f = mmap_cache (mms s m)"
    if "case mmap_cache (mms s m) of Some v \<Rightarrow> vm_start (vmas s v) \<le> a \<and> a < vm_end (vmas s v) | None \<Rightarrow> False"
    using that assms find_covering [OF ok] by (auto simp: mm_ok_def split: option.splits)
  have mem: "v \<in> set (areas s m)" if "?f = Some v" for v
    using that by (auto simp: find_Some_iff)
  have "find_vma (Some m) a s = (?f, if ?f \<noteq> None then mod_mm m (\<lambda>d. d\<lparr>mmap_cache := ?f\<rparr>) s else s)"
    using hit by (simp add: find_vma_def Let_def)
  moreover have "cache_only m s (if ?f \<noteq> None then mod_mm m (\<lambda>d. d\<lparr>mmap_cache := ?f\<rparr>) s else s)"
    using mem cache_only_refl [OF assms] by (cases ?f) (auto simp: cache_only_def)
  ultimately show ?thesis by blast
qed

lemma find_first:
  assumes "areas_ok (map f l)" "find (\<lambda>v. a < vm_end (f v)) l = r"
  shows "r = None \<Longrightarrow> v \<in> set l \<Longrightarrow> vm_end (f v) \<le> a"
    "r = Some w \<Longrightarrow> w \<in> set l \<and> a < vm_end (f w) \<and>
      (\<forall>v\<in>set l. v = w \<or> vm_end (f v) \<le> a \<or> vm_end (f w) \<le> vm_start (f v))"
  using assms by (induction l arbitrary: r) (auto split: if_splits)

section \<open>Inserting an area\<close>

definition apart_from :: "vma_struct \<Rightarrow> vma_struct \<Rightarrow> bool" where
  "apart_from d e \<longleftrightarrow> vm_end e \<le> vm_start d \<or> vm_end d \<le> vm_start e"

lemma insert_position:
  assumes ok: "areas_ok (map f l)" and d: "vm_start d < vm_end d" "vm_end d \<le> USERTOP"
    and ap: "\<forall>v\<in>set l. apart_from d (f v)"
  defines "bef \<equiv> takeWhile (\<lambda>p. \<not> vm_start (f p) > vm_start d) l"
    and "aft \<equiv> dropWhile (\<lambda>p. \<not> vm_start (f p) > vm_start d) l"
  shows "areas_ok (map f bef @ d # map f aft)" "l = bef @ aft"
    "\<forall>v\<in>set bef. vm_end (f v) \<le> vm_start d" "\<forall>v\<in>set aft. vm_end d \<le> vm_start (f v)"
proof -
  show l: "l = bef @ aft" by (simp add: bef_def aft_def)
  have ok2: "areas_ok (map f bef @ map f aft)" using ok l by (metis map_append)
  have wf: "vm_start (f v) < vm_end (f v)" if "v \<in> set l" for v using areas_ok_mem [OF ok] that by auto
  show b: "\<forall>v\<in>set bef. vm_end (f v) \<le> vm_start d"
  proof
    fix v assume v: "v \<in> set bef"
    then have "\<not> vm_start (f v) > vm_start d" using set_takeWhileD [of v "\<lambda>p. \<not> vm_start (f p) > vm_start d" l] unfolding bef_def by blast
    moreover have "v \<in> set l" using v l by auto
    ultimately show "vm_end (f v) \<le> vm_start d" using ap d(1) by (force simp: apart_from_def)
  qed
  show a: "\<forall>v\<in>set aft. vm_end d \<le> vm_start (f v)"
  proof
    fix v assume v: "v \<in> set aft"
    then obtain h t where ht: "aft = h # t" by (cases aft) auto
    have "vm_start (f h) > vm_start d"
      using ht hd_dropWhile [of "\<lambda>p. \<not> vm_start (f p) > vm_start d" l] unfolding aft_def by auto
    moreover have "v = h \<or> vm_end (f h) \<le> vm_start (f v)"
      using ok2 v ht by (auto simp: areas_ok_append)
    moreover have "h \<in> set l" "v \<in> set l" using v ht l by auto
    ultimately have "vm_start d < vm_start (f v)" using wf [of h] by auto
    then show "vm_end d \<le> vm_start (f v)"
      using ap \<open>v \<in> set l\<close> wf [of v] by (force simp: apart_from_def)
  qed
  show "areas_ok (map f bef @ d # map f aft)"
    using ok2 d a b by (auto simp: areas_ok_append)
qed

lemma insert_vma_ok:
  assumes ok: "mm_ok s m" and v: "v \<notin> set (areas s m)" "v \<in> kobjs s"
    "vm_start (vmas s v) < vm_end (vmas s v)" "vm_end (vmas s v) \<le> USERTOP"
    and ap: "\<forall>w\<in>set (areas s m). apart_from (vmas s v) (vmas s w)"
  shows "\<exists>s'. insert_vma_struct m v s = Some s' \<and> mm_ok s' m \<and> set (areas s' m) = insert v (set (areas s m)) \<and>
    vmas s' = (vmas s)(v := (vmas s v)\<lparr>vm_mm := Some m\<rparr>) \<and> pgs s' = pgs s \<and> answers s' = answers s \<and>
    kobjs s' = kobjs s \<and> (\<forall>n. n \<noteq> m \<longrightarrow> mms s' n = mms s n) \<and> pgdir (mms s' m) = pgdir (mms s m) \<and>
    mm_count (mms s' m) = mm_count (mms s m)"
proof -
  let ?P = "\<lambda>p. \<not> vm_start (vmas s p) > vm_start (vmas s v)"
  let ?b = "takeWhile ?P (areas s m)" and ?a = "dropWhile ?P (areas s m)"
  have ao: "areas_ok (map (vmas s) (areas s m))" using ok by (simp add: mm_ok_def)
  note pos = insert_position [OF ao v(3,4) ap]
  have st: "set (areas s m) = set ?b \<union> set ?a" using pos(2) by (metis set_append)
  have wf: "vm_start (vmas s w) < vm_end (vmas s w)" if "w \<in> set (areas s m)" for w
    using areas_ok_mem [OF ao] that by auto
  have c1: "check_vma_overlap (last ?b) v s = Some ()" if "?b \<noteq> []"
  proof -
    have "last ?b \<in> set ?b" using that by (rule last_in_set)
    then show ?thesis using pos(3) wf v(3) set_takeWhileD by (fastforce simp: check_vma_overlap_def)
  qed
  have c2: "check_vma_overlap v n s = Some ()" if "?a = n # t" for n t
  proof -
    have n: "n \<in> set ?a" using that by simp
    moreover have "n \<in> set (areas s m)" using set_dropWhileD [OF n] .
    ultimately have "n \<in> set ?a" "n \<in> set (areas s m)" by simp_all
    then show ?thesis using pos(4) wf v(3) by (simp add: check_vma_overlap_def)
  qed
  define s' where "s' = mod_mm m (\<lambda>d. d\<lparr>map_count := map_count d + 1\<rparr>)
    (mod_mm m (\<lambda>d. d\<lparr>mmap_list := ?b @ v # ?a\<rparr>) (mod_vma v (\<lambda>d. d\<lparr>vm_mm := Some m\<rparr>) s))"
  have "insert_vma_struct m v s = Some s'"
    using v(3) c1 c2 by (auto simp: insert_vma_struct_def s'_def Let_def split: list.split)
  moreover have "mm_ok s' m"
  proof -
    have l: "areas s' m = ?b @ v # ?a" by (simp add: s'_def)
    have vm: "vmas s' w = (if w = v then (vmas s v)\<lparr>vm_mm := Some m\<rparr> else vmas s w)" for w by (simp add: s'_def)
    have nb: "v \<notin> set ?b" "v \<notin> set ?a" using v(1) by (auto dest: set_takeWhileD set_dropWhileD)
    have "map (vmas s') (?b @ v # ?a) = map (vmas s) ?b @ (vmas s v)\<lparr>vm_mm := Some m\<rparr> # map (vmas s) ?a"
      using nb by (auto simp: vm)
    moreover have "areas_ok (map (vmas s) ?b @ (vmas s v)\<lparr>vm_mm := Some m\<rparr> # map (vmas s) ?a)"
      using pos(1) by (simp add: areas_ok_append)
    moreover have "distinct (?b @ v # ?a)"
    proof -
      have "distinct (?b @ ?a)" using ok by (simp add: mm_ok_def)
      then have "distinct ?b" "distinct ?a" "set ?b \<inter> set ?a = {}" unfolding distinct_append by blast+
      then show ?thesis using nb by auto
    qed
    moreover have ln: "length (areas s m) = length ?b + length ?a" using pos(2) by (metis length_append)
    have "map_count (mms s' m) = int (length (?b @ v # ?a))"
      using ok ln by (simp add: s'_def mm_ok_def)
    moreover have "set (?b @ v # ?a) = insert v (set (areas s m))" using st by auto
    ultimately show ?thesis using ok v(2) unfolding mm_ok_def l by (simp add: s'_def)
  qed
  moreover have "set (areas s' m) = insert v (set (areas s m))"
    using st by (auto simp: s'_def)
  ultimately show ?thesis by (intro exI [of _ s'] conjI) (auto simp: s'_def)
qed

lemma kmalloc_obj_ok:
  assumes "heap_ok s" "kmalloc_obj s = (r, s')"
  shows "heap_ok s'" "vmas s' = vmas s" "mms s' = mms s" "pgs s' = pgs s" "kobjs s \<subseteq> kobjs s'"
    "r = Some a \<Longrightarrow> a \<notin> kobjs s \<and> kobjs s' = insert a (kobjs s)" "r = None \<Longrightarrow> kobjs s' = kobjs s"
  using assms by (auto simp: heap_ok_def kmalloc_obj_def split: list.splits option.splits)

lemma fresh_area:
  assumes "mm_ok s m" "heap_ok s" "vma_create st en fl s = (Some v, s1)"
  shows "v \<notin> set (areas s m)" "v \<in> kobjs s1" "vmas s1 v = (vmas s v)\<lparr>vm_start := st, vm_end := en, vm_flags := fl\<rparr>"
    "mm_ok s1 m" "heap_ok s1" "mms s1 = mms s" "pgs s1 = pgs s" "w \<noteq> v \<Longrightarrow> vmas s1 w = vmas s w"
proof -
  obtain s0 where k: "kmalloc_obj s = (Some v, s0)"
    and s1: "s1 = mod_vma v (\<lambda>d. d\<lparr>vm_start := st, vm_end := en, vm_flags := fl\<rparr>) s0"
    using assms(3) by (auto simp: vma_create_def split: prod.splits option.splits)
  note ko = kmalloc_obj_ok [OF assms(2) k]
  show nv: "v \<notin> set (areas s m)" using ko(6) assms(1) by (auto simp: mm_ok_def)
  show "v \<in> kobjs s1" using ko(6) by (simp add: s1)
  show "vmas s1 v = (vmas s v)\<lparr>vm_start := st, vm_end := en, vm_flags := fl\<rparr>" by (simp add: s1 ko(2))
  show mms: "mms s1 = mms s" "pgs s1 = pgs s" by (simp_all add: s1 ko)
  show w: "vmas s1 w = vmas s w" if "w \<noteq> v" for w using that by (simp add: s1 ko)
  show "heap_ok s1" using ko(1) by (simp add: s1 heap_ok_def)
  have "map (vmas s1) (areas s m) = map (vmas s) (areas s m)" using nv by (intro map_cong refl w) auto
  then have "areas_ok (map (vmas s1) (areas s m))" using assms(1) by (simp only: mm_ok_def)
  moreover have "kobjs s1 = kobjs s0" by (simp add: s1)
  ultimately show "mm_ok s1 m" using assms(1) ko(5) unfolding mm_ok_def mms by auto
qed

text \<open>An interval is free when it meets no area.\<close>

definition interval_free :: "vmstate \<Rightarrow> nat \<Rightarrow> u32 \<Rightarrow> u32 \<Rightarrow> bool" where
  "interval_free s m st en \<longleftrightarrow>
     (\<forall>v\<in>set (areas s m). en \<le> vm_start (vmas s v) \<or> vm_end (vmas s v) \<le> st)"

lemma mm_map_ok:
  assumes ok: "mm_ok s m" "heap_ok s" and st: "st = rounddown_2n addr 12" and en: "en = roundup_2n (addr + len) 12"
  shows "\<exists>r v s'. mm_map (Some m) addr len fl s = Some (r, v, s') \<and> mm_ok s' m \<and>
    (if \<not> USER_ACCESS st en \<or> \<not> interval_free s m st en
     then r = fail_code E_INVAL \<and> v = None \<and> cache_only m s s'
     else if answers s = [] \<or> hd (answers s) = None
     then r = fail_code E_NO_MEM \<and> v = None \<and> areas s' m = areas s m \<and> vmas s' = vmas s \<and> pgs s' = pgs s
     else r = 0 \<and> v = hd (answers s) \<and> set (areas s' m) = insert (the v) (set (areas s m)) \<and>
       the v \<notin> set (areas s m) \<and> pgs s' = pgs s \<and>
       vm_start (vmas s' (the v)) = st \<and> vm_end (vmas s' (the v)) = en \<and> vm_flags (vmas s' (the v)) = fl \<and>
       (\<forall>w\<in>set (areas s m). vmas s' w = vmas s w))"
proof (cases "USER_ACCESS st en")
  case False
  then show ?thesis using ok cache_only_refl [OF ok(1)] by (simp add: mm_map_def Let_def st en)
next
  case ua: True
  let ?r = "find (\<lambda>v. st < vm_end (vmas s v)) (areas s m)"
  obtain s1 where f: "find_vma (Some m) st s = (?r, s1)" "cache_only m s s1"
    using find_vma_ok [OF ok(1)] by blast
  note cD = cache_onlyD [OF f(2)]
  have ok1: "mm_ok s1 m" "heap_ok s1" using cD(6,8) ok by auto
  have ao: "areas_ok (map (vmas s) (areas s m))" using ok(1) by (simp add: mm_ok_def)
  have lt: "st < en" "en \<le> USERTOP" using ua by (simp_all add: USER_ACCESS_def)
  have meet: "(case ?r of Some v \<Rightarrow> en > vm_start (vmas s v) | None \<Rightarrow> False) \<longleftrightarrow> \<not> interval_free s m st en"
  proof (cases ?r)
    case None
    then show ?thesis using find_first(1) [OF ao None] by (auto simp: interval_free_def)
  next
    case (Some w)
    have w: "w \<in> set (areas s m)" "st < vm_end (vmas s w)"
      "\<forall>v\<in>set (areas s m). v = w \<or> vm_end (vmas s v) \<le> st \<or> vm_end (vmas s w) \<le> vm_start (vmas s v)"
      using find_first(2) [OF ao Some refl] by auto
    have wf: "vm_start (vmas s w) < vm_end (vmas s w)" using areas_ok_mem [OF ao] w(1) by auto
    have "interval_free s m st en" if "en \<le> vm_start (vmas s w)"
      unfolding interval_free_def
    proof
      fix v assume "v \<in> set (areas s m)"
      then consider "v = w" | "vm_end (vmas s v) \<le> st" | "vm_end (vmas s w) \<le> vm_start (vmas s v)" using w(3) by blast
      then show "en \<le> vm_start (vmas s v) \<or> vm_end (vmas s v) \<le> st"
        by cases (use that wf in auto)
    qed
    moreover have "en \<le> vm_start (vmas s w)" if "interval_free s m st en"
      using that w(1,2) by (auto simp: interval_free_def)
    ultimately have "en \<le> vm_start (vmas s w) \<longleftrightarrow> interval_free s m st en" by blast
    then show ?thesis using Some by auto
  qed
  have hit: "(case ?r of Some v \<Rightarrow> en > vm_start (vmas s1 v) | None \<Rightarrow> False) \<longleftrightarrow> \<not> interval_free s m st en"
    using meet unfolding cD(2) .
  show ?thesis
  proof (cases "interval_free s m st en")
    case False
    have "mm_map (Some m) addr len fl s = Some (fail_code E_INVAL, None, s1)"
      unfolding mm_map_def Let_def st [symmetric] en [symmetric] using ua False by (simp add: f(1) hit)
    then show ?thesis using False ok1 f(2) by simp
  next
    case free: True
    then have eq: "mm_map (Some m) addr len fl s = (case vma_create st en fl s1 of
            (None, s) \<Rightarrow> Some (fail_code E_NO_MEM, None, s)
          | (Some v, s) \<Rightarrow> do { s \<leftarrow> insert_vma_struct m v s; Some (0, Some v, s) })"
      unfolding mm_map_def Let_def st [symmetric] en [symmetric] using ua free by (simp add: f(1) hit)
    show ?thesis
    proof (cases "answers s = [] \<or> hd (answers s) = None")
      case True
      then obtain s2 where s2: "vma_create st en fl s1 = (None, s2)" "mms s2 = mms s1" "vmas s2 = vmas s1"
        "pgs s2 = pgs s1" "kobjs s2 = kobjs s1"
        using cD(4) by (cases "answers s") (auto simp: vma_create_def kmalloc_obj_def)
      have "mm_ok s2 m" using ok1(1) by (simp add: mm_ok_def s2)
      then show ?thesis using eq s2 True free ua cD(1-3) by simp
    next
      case False
      then obtain v as where a: "answers s = Some v # as" by (cases "answers s") auto
      then obtain s2 where s2: "vma_create st en fl s1 = (Some v, s2)"
        using cD(4) by (auto simp: vma_create_def kmalloc_obj_def)
      note fr = fresh_area [OF ok1 s2]
      have ap: "\<forall>w\<in>set (areas s2 m). apart_from (vmas s2 v) (vmas s2 w)"
      proof
        fix w assume w: "w \<in> set (areas s2 m)"
        then have wi: "w \<in> set (areas s m)" using fr(6) cD(1) by simp
        then have "w \<noteq> v" using fr(1) cD(1) by auto
        then have "vmas s2 w = vmas s w" using fr(8) [of w] cD(2) by simp
        moreover have "en \<le> vm_start (vmas s w) \<or> vm_end (vmas s w) \<le> st"
          using free wi unfolding interval_free_def by blast
        ultimately show "apart_from (vmas s2 v) (vmas s2 w)" using fr(3) by (auto simp: apart_from_def)
      qed
      obtain s3 where s3: "insert_vma_struct m v s2 = Some s3" "mm_ok s3 m" "set (areas s3 m) = insert v (set (areas s2 m))"
        "vmas s3 = (vmas s2)(v := (vmas s2 v)\<lparr>vm_mm := Some m\<rparr>)" "pgs s3 = pgs s2"
        using insert_vma_ok [OF fr(4) _ fr(2) _ _ ap] fr(1,3,6) lt by auto
      have ar: "areas s2 m = areas s m" using fr(6) cD(1) by simp
      have "mm_map (Some m) addr len fl s = Some (0, Some v, s3)" using eq s2 s3(1) by simp
      moreover have "vmas s3 w = vmas s w" if "w \<in> set (areas s m)" for w
        using that fr(1,8) cD(1,2) by (auto simp: s3(4))
      ultimately show ?thesis using False free ua a s3 ar fr cD(1,3) by simp
    qed
  qed
qed

end
