(* ===== verification/User_Access.thy ===== *)
theory User_Access
  imports Vma_Space
begin

text \<open>
  The checks on user pointers and the handling of page faults over the areas of \<open>Vma_Space\<close>.
\<close>

section \<open>Which bytes a process may touch\<close>

definition byte_ok :: "vmstate \<Rightarrow> nat \<Rightarrow> bool \<Rightarrow> u32 \<Rightarrow> bool" where
  "byte_ok s m wr a \<longleftrightarrow> (\<exists>v\<in>set (areas s m). covers s a v \<and>
     vm_flags (vmas s v) AND (if wr then VM_WRITE else VM_READ) \<noteq> 0 \<and>
     (wr \<and> vm_flags (vmas s v) AND VM_STACK \<noteq> 0 \<longrightarrow> vm_start (vmas s v) + PGSIZE \<le> a))"

lemma guard_page: "x < y \<Longrightarrow> y \<le> USERTOP \<Longrightarrow> x \<le> x + PGSIZE"
  by (simp add: USERTOP_def PGSIZE_def word_le_nat_alt word_less_nat_alt unat_word_ariths)

lemma byte_ok_area:
  assumes "mm_ok s m" "v \<in> set (areas s m)" "covers s a v"
  shows "byte_ok s m wr a \<longleftrightarrow> vm_flags (vmas s v) AND (if wr then VM_WRITE else VM_READ) \<noteq> 0 \<and>
     (wr \<and> vm_flags (vmas s v) AND VM_STACK \<noteq> 0 \<longrightarrow> vm_start (vmas s v) + PGSIZE \<le> a)"
proof -
  have "w = v" if "w \<in> set (areas s m)" "covers s a w" for w
    using covers_unique [OF assms(1) that(1) assms(2) that(2) assms(3)] .
  then show ?thesis unfolding byte_ok_def using assms(2,3) by metis
qed

lemma byte_ok_cache: "cache_only m s s' \<Longrightarrow> byte_ok s' m = byte_ok s m"
  by (simp add: byte_ok_def fun_eq_iff cache_onlyD)

lemma check_areas_ok:
  "mm_ok s m \<Longrightarrow> \<exists>ok s'. check_areas m start en wr s = Some (ok, s') \<and> cache_only m s s' \<and>
     (ok \<longleftrightarrow> (\<forall>a. start \<le> a \<and> a < en \<longrightarrow> byte_ok s m wr a))"
proof (induction "unat en - unat start" arbitrary: start s rule: less_induct)
  case less
  note ok = less.prems
  have ao: "areas_ok (map (vmas s) (areas s m))" using ok by (simp add: mm_ok_def)
  show ?case
  proof (cases "start < en")
    case False
    then have "check_areas m start en wr s = Some (True, s)" by (simp add: check_areas.simps)
    then show ?thesis using False cache_only_refl [OF ok] by force
  next
    case lt: True
    obtain s1 where f: "find_vma (Some m) start s = (find (\<lambda>v. start < vm_end (vmas s v)) (areas s m), s1)"
      "cache_only m s s1" using find_vma_ok [OF ok] by blast
    note cD = cache_onlyD [OF f(2)]
    show ?thesis
    proof (cases "find (\<lambda>v. start < vm_end (vmas s v)) (areas s m)")
      case None
      then have "\<not> byte_ok s m wr start"
        using find_first(1) [OF ao None refl] by (force simp: byte_ok_def covers_def)
      moreover have "check_areas m start en wr s = Some (False, s1)"
        using None f lt by (simp add: check_areas.simps)
      ultimately show ?thesis using f(2) lt by blast
    next
      case (Some v)
      note v = find_first(2) [OF ao Some refl]
      have vin: "v \<in> set (areas s m)" and ve: "start < vm_end (vmas s v)" using v by auto
      have vu: "vm_start (vmas s v) < vm_end (vmas s v)" "vm_end (vmas s v) \<le> USERTOP"
        using areas_ok_mem [OF ao] vin by auto
      let ?d = "vmas s v"
      have eq: "check_areas m start en wr s =
          (if start < vm_start ?d then Some (False, s1)
           else if vm_flags ?d AND (if wr then VM_WRITE else VM_READ) = 0 then Some (False, s1)
           else if wr \<and> vm_flags ?d AND VM_STACK \<noteq> 0 \<and> start < vm_start ?d + PGSIZE then Some (False, s1)
           else check_areas m (vm_end ?d) en wr s1)"
        using Some f lt cD(2) by (subst check_areas.simps) simp
      show ?thesis
      proof (cases "byte_ok s m wr start")
        case False
        have "check_areas m start en wr s = Some (False, s1)"
        proof (cases "start < vm_start ?d")
          case True then show ?thesis by (simp add: eq)
        next
          case nl: False
          then have "covers s start v" using ve by (simp add: covers_def)
          then show ?thesis using False byte_ok_area [OF ok vin] nl by (auto simp: eq)
        qed
        then show ?thesis using f(2) False lt by blast
      next
        case True
        then obtain w where w: "w \<in> set (areas s m)" "covers s start w" by (auto simp: byte_ok_def)
        have "w = v" using w v vu(1) by (force simp: covers_def)
        then have cv: "covers s start v" using w by simp
        have step: "check_areas m start en wr s = check_areas m (vm_end ?d) en wr s1"
        proof -
          have "\<not> start < vm_start ?d" using cv by (simp add: covers_def not_less)
          moreover have "vm_flags ?d AND (if wr then VM_WRITE else VM_READ) \<noteq> 0"
            "\<not> (wr \<and> vm_flags ?d AND VM_STACK \<noteq> 0 \<and> start < vm_start ?d + PGSIZE)"
            using True byte_ok_area [OF ok vin cv, of wr] unfolding not_less [symmetric] by blast+
          ultimately show ?thesis unfolding eq by (simp only: if_False)
        qed
        have "unat en - unat (vm_end ?d) < unat en - unat start"
          using ve lt by (simp add: word_less_nat_alt)
        then obtain r s2 where r: "check_areas m (vm_end ?d) en wr s1 = Some (r, s2)" "cache_only m s1 s2"
          "r \<longleftrightarrow> (\<forall>a. vm_end ?d \<le> a \<and> a < en \<longrightarrow> byte_ok s m wr a)"
          using less.hyps [OF _ cD(6) [OF ok], of "vm_end ?d"] byte_ok_cache [OF f(2)] by auto
        have h: "byte_ok s m wr a" if "start \<le> a" "a < vm_end ?d" for a
        proof -
          have "covers s a v" using that cv by (auto simp: covers_def)
          then show ?thesis using True that byte_ok_area [OF ok vin] cv by (meson order.trans)
        qed
        have "byte_ok s m wr a" if r "start \<le> a" "a < en" for a
        proof (cases "a < vm_end ?d")
          case True then show ?thesis using h that(2) by blast
        next
          case False
          then have "vm_end ?d \<le> a" by simp
          then show ?thesis using that r(3) by blast
        qed
        moreover have "r" if "\<forall>a. start \<le> a \<and> a < en \<longrightarrow> byte_ok s m wr a"
          using that r(3) ve by (meson less_imp_le order.trans)
        moreover have "check_areas m start en wr s = Some (r, s2)" using step r(1) by simp
        ultimately show ?thesis using cache_only_trans [OF f(2) r(2)] by blast
      qed
    qed
  qed
qed

lemma user_mem_check_ok:
  assumes "mm_ok s m"
  shows "\<exists>ok s'. user_mem_check (Some m) addr len wr s = Some (ok, s') \<and> cache_only m s s' \<and>
    (ok \<longleftrightarrow> USER_ACCESS addr (addr + len) \<and> (\<forall>a. addr \<le> a \<and> a < addr + len \<longrightarrow> byte_ok s m wr a))"
  using check_areas_ok [OF assms, of addr "addr + len" wr] cache_only_refl [OF assms]
  by (cases "USER_ACCESS addr (addr + len)") (auto simp: user_mem_check_def)

section \<open>Copying a string\<close>

lemma strnlen_loop_ok:
  "cnt \<le> len \<Longrightarrow> \<exists>k. strnlen_loop m s len cnt = cnt + k \<and> cnt + k \<le> len \<and> (\<forall>i<k. m (s + i) \<noteq> 0) \<and>
     (cnt + k < len \<longrightarrow> m (s + k) = 0)"
proof (induction m s len cnt rule: strnlen_loop.induct)
  case (1 m s len cnt)
  show ?case
  proof (cases "cnt < len \<and> m s \<noteq> 0")
    case True
    then obtain k where k: "strnlen_loop m (s + 1) len (cnt + 1) = cnt + 1 + k" "cnt + 1 + k \<le> len"
      "\<forall>i<k. m (s + 1 + i) \<noteq> 0" "cnt + 1 + k < len \<longrightarrow> m (s + 1 + k) = 0" using 1 by auto
    have "\<forall>i<Suc k. m (s + i) \<noteq> 0" using k(3) True by (auto simp: less_Suc_eq_0_disj)
    then show ?thesis using k True by (intro exI [of _ "Suc k"]) (simp add: strnlen_loop.simps [of m s])
  qed (use 1 in \<open>auto simp: strnlen_loop.simps [of m s]\<close>)
qed

lemma strnlen_ok:
  "strnlen m s len \<le> len" "i < strnlen m s len \<Longrightarrow> m (s + i) \<noteq> 0"
  "strnlen m s len < len \<Longrightarrow> m (s + strnlen m s len) = 0"
  using strnlen_loop_ok [of 0 len m s] by (auto simp: strnlen_def)

lemma wrap_mod: "2 ^ 32 \<le> x \<Longrightarrow> x mod 2 ^ 32 \<le> x - 2 ^ 32" for x :: nat
proof -
  assume "2 ^ 32 \<le> x"
  then have "x mod 2 ^ 32 = (x - 2 ^ 32) mod 2 ^ 32" by (rule le_mod_geq)
  then show ?thesis by (metis mod_less_eq_dividend)
qed

lemma user_access_sum: "USER_ACCESS a (a + n) \<Longrightarrow> unat (a + n) = unat a + unat n \<and> n \<noteq> 0"
proof -
  assume "USER_ACCESS a (a + n)"
  then have l: "unat a < unat (a + n)" by (simp add: USER_ACCESS_def word_less_nat_alt)
  have "unat (a + n) = unat a + unat n"
  proof (cases "unat a + unat n < 2 ^ 32")
    case True
    then show ?thesis by (simp add: unat_word_ariths)
  next
    case False
    have "unat a + unat n < 2 ^ 32 + unat a" using unsigned_less [of n] by simp
    moreover have "(unat a + unat n) mod 2 ^ 32 \<le> unat a + unat n - 2 ^ 32"
      by (rule wrap_mod) (use False in simp)
    ultimately have "(unat a + unat n) mod 2 ^ 32 < unat a" using False by linarith
    then show ?thesis using l by (simp add: unat_word_ariths)
  qed
  moreover have "n \<noteq> 0" using l by (intro notI) simp
  ultimately show ?thesis by simp
qed


definition readable :: "vmstate \<Rightarrow> nat \<Rightarrow> nat \<Rightarrow> nat \<Rightarrow> bool" where
  "readable s m a n \<longleftrightarrow> (\<forall>x :: u32. a \<le> unat x \<and> unat x < a + n \<longrightarrow> byte_ok s m False x)"

definition user_buffer :: "u32 \<Rightarrow> nat \<Rightarrow> bool" where
  "user_buffer a n \<longleftrightarrow> USERBASE \<le> a \<and> unat a + n \<le> unat USERTOP"

lemma user_mem_check_read:
  assumes "mm_ok s m" "n \<noteq> 0"
  shows "\<exists>ok s'. user_mem_check (Some m) a n False s = Some (ok, s') \<and> cache_only m s s' \<and>
    (ok \<longleftrightarrow> user_buffer a (unat n) \<and> readable s m (unat a) (unat n))"
proof -
  obtain ok s' where c: "user_mem_check (Some m) a n False s = Some (ok, s')" "cache_only m s s'"
    "ok \<longleftrightarrow> USER_ACCESS a (a + n) \<and> (\<forall>x. a \<le> x \<and> x < a + n \<longrightarrow> byte_ok s m False x)"
    using user_mem_check_ok [OF assms(1)] by blast
  have ua: "USER_ACCESS a (a + n) \<longleftrightarrow> user_buffer a (unat n)"
  proof
    assume "USER_ACCESS a (a + n)"
    then show "user_buffer a (unat n)"
      using user_access_sum [of a n] by (simp add: user_buffer_def USER_ACCESS_def word_le_nat_alt)
  next
    assume b: "user_buffer a (unat n)"
    then have "unat a + unat n < 2 ^ 32" by (simp add: user_buffer_def USERTOP_def)
    then have "unat (a + n) = unat a + unat n" by (simp add: unat_word_ariths)
    moreover have "unat n \<noteq> 0" using assms(2) by (simp add: unat_eq_0)
    ultimately show "USER_ACCESS a (a + n)"
      using b by (simp add: user_buffer_def USER_ACCESS_def word_le_nat_alt word_less_nat_alt)
  qed
  have "(\<forall>x. a \<le> x \<and> x < a + n \<longrightarrow> byte_ok s m False x) \<longleftrightarrow> readable s m (unat a) (unat n)"
    if "USER_ACCESS a (a + n)"
    using user_access_sum [OF that] by (simp add: readable_def word_le_nat_alt word_less_nat_alt)
  then show ?thesis using c ua by blast
qed

lemma readable_append:
  "readable s m a (k + n) \<longleftrightarrow> readable s m a k \<and> readable s m (a + k) n"
proof -
  have "a \<le> x \<and> x < a + (k + n) \<longleftrightarrow> a \<le> x \<and> x < a + k \<or> a + k \<le> x \<and> x < a + k + n" for x :: nat by auto
  then show ?thesis unfolding readable_def by blast
qed

lemma readable_le: "readable s m a n \<Longrightarrow> k \<le> n \<Longrightarrow> readable s m a k"
  by (auto simp: readable_def)

lemma readable_cache: "cache_only m s s' \<Longrightarrow> readable s' m = readable s m"
  by (simp add: readable_def byte_ok_cache fun_eq_iff)

text \<open>What a call copies: the string at \<open>S\<close>, when it ends within \<open>n\<close> bytes.\<close>

definition string_within :: "mem \<Rightarrow> nat \<Rightarrow> nat \<Rightarrow> nat \<Rightarrow> bool" where
  "string_within b S n k \<longleftrightarrow> k < n \<and> (\<forall>i<k. b (S + i) \<noteq> 0) \<and> b (S + k) = 0"

lemma string_within_skip:
  assumes "\<forall>i<p. b (S + i) \<noteq> 0" "p < n" "\<forall>i<n - p. b' (S + p + i) = b (S + p + i)"
  shows "string_within b' (S + p) (n - p) k \<longleftrightarrow> string_within b S n (p + k)"
    "string_within b S n j \<Longrightarrow> p \<le> j"
proof -
  have "(\<forall>i<p + k. b (S + i) \<noteq> 0) \<longleftrightarrow> (\<forall>i<k. b (S + p + i) \<noteq> 0)"
    using assms(1) by (metis add.assoc le_add_diff_inverse less_add_eq_less nat_add_left_cancel_less not_less)
  then show "string_within b' (S + p) (n - p) k \<longleftrightarrow> string_within b S n (p + k)"
    using assms(2,3) by (auto simp: string_within_def add.assoc)
  show "p \<le> j" if "string_within b S n j"
    using that assms(1) by (metis string_within_def leI)
qed


lemma copy_parts_ok:
  "mm_ok s m \<Longrightarrow> maxn \<noteq> 0 \<Longrightarrow> part \<noteq> 0 \<Longrightarrow> unat dst + unat maxn \<le> 2 ^ 32 \<Longrightarrow>
   unat dst + unat maxn \<le> unat src \<or> unat src + unat maxn \<le> unat dst \<Longrightarrow>
   \<exists>ok b' s'. copy_parts (Some m) dst src maxn part b s = Some (ok, b', s') \<and> cache_only m s s' \<and>
     (\<forall>x. x < unat dst \<or> unat dst + unat maxn \<le> x \<longrightarrow> b' x = b x) \<and>
     (ok \<longrightarrow> (\<exists>k. string_within b (unat src) (unat maxn) k \<and> user_buffer src (k + 1) \<and>
        readable s m (unat src) (k + 1) \<and> (\<forall>i\<le>k. b' (unat dst + i) = b (unat src + i)))) \<and>
     (\<not> ok \<longrightarrow> \<not> (user_buffer src (unat maxn) \<and> readable s m (unat src) (unat maxn) \<and>
        (\<exists>k. string_within b (unat src) (unat maxn) k)))"
proof (induction "unat maxn" arbitrary: dst src maxn part b s rule: less_induct)
  case less
  define p where "p = (if part > maxn then maxn else part)"
  let ?S = "unat src" and ?D = "unat dst" and ?N = "unat maxn" and ?p = "unat p"
  have p: "p \<noteq> 0" "?p \<le> ?N" using less.prems(2,3) by (auto simp: p_def not_less word_le_nat_alt)
  have p0: "0 < ?p" using p(1) by (simp add: unat_gt_0)
  have dj: "?D \<le> ?S \<or> ?S + n \<le> ?D" if "n \<le> ?p" for n using less.prems(5) p that by auto
  obtain ok s1 where u: "user_mem_check (Some m) src p False s = Some (ok, s1)" "cache_only m s s1"
    "ok \<longleftrightarrow> user_buffer src ?p \<and> readable s m ?S ?p"
    using user_mem_check_read [OF less.prems(1) p(1)] by blast
  note cp = copy_parts.simps [of "Some m" dst src maxn part b s, folded p_def]
  let ?k = "strnlen b ?S ?p"
  note k = strnlen_ok [where m = b and s = ?S and len = ?p]
  consider "\<not> ok" | "ok" "?k < ?p" | "ok" "?k = ?p" "p = maxn" | "ok" "?k = ?p" "p \<noteq> maxn"
    using k(1) by linarith
  then show ?case
  proof cases
    case 1
    then have "copy_parts (Some m) dst src maxn part b s = Some (False, b, s1)"
      unfolding cp using u(1) by (simp add: p_def [symmetric])
    moreover have "\<not> (user_buffer src ?N \<and> readable s m ?S ?N)"
      using 1 u(3) p(2) readable_le by (auto simp: user_buffer_def)
    ultimately show ?thesis using u(2) by blast
  next
    case 2
    let ?b = "memcpy b ?D ?S (?k + 1)"
    have "copy_parts (Some m) dst src maxn part b s = Some (True, ?b, s1)"
      unfolding cp using u(1) 2 by (simp add: p_def [symmetric])
    moreover have at: "?b x = (if ?D \<le> x \<and> x < ?D + (?k + 1) then b (?S + (x - ?D)) else b x)" for x
      by (rule memcpy_at) (use dj [of "?k + 1"] 2 in simp)
    have "?b x = b x" if "x < ?D \<or> ?D + ?N \<le> x" for x using that 2 p(2) unfolding at by auto
    moreover have "?b (?D + i) = b (?S + i)" if "i \<le> ?k" for i using that unfolding at by simp
    moreover have "string_within b ?S ?N ?k" using k(2,3) 2 p(2) by (auto simp: string_within_def)
    moreover have "user_buffer src (?k + 1)" "readable s m ?S (?k + 1)"
      using u(3) 2 readable_le [of s m ?S ?p "?k + 1"] by (auto simp: user_buffer_def)
    ultimately show ?thesis using u(2) by blast
  next
    case 3
    then have "copy_parts (Some m) dst src maxn part b s = Some (False, b, s1)"
      unfolding cp using u(1) by (simp add: p_def [symmetric])
    moreover have "\<not> string_within b ?S ?N j" for j
      using k(2) 3(2,3) by (auto simp: string_within_def)
    ultimately show ?thesis using u(2) by blast
  next
    case 4
    let ?b = "memcpy b ?D ?S ?p"
    have lt: "?p < ?N" using 4(3) p(2) by (metis le_neq_implies_less word_unat_eq_iff)
    have nz: "i < ?p \<Longrightarrow> b (?S + i) \<noteq> 0" for i using k(2) 4(2) by simp
    have eq: "copy_parts (Some m) dst src maxn part b s =
        copy_parts (Some m) (dst + p) (src + p) (maxn - p) PGSIZE ?b s1"
      unfolding cp using u(1) 4 by (simp add: p_def [symmetric])
    have ub: "user_buffer src ?p" "readable s m ?S ?p" using u(3) 4(1) by auto
    have sz: "unat (maxn - p) = ?N - ?p" "unat (dst + p) = ?D + ?p" "unat (src + p) = ?S + ?p"
      using lt less.prems(4) ub(1) by (simp_all add: unat_word_ariths unat_sub word_le_nat_alt user_buffer_def USERTOP_def)
    have at: "?b x = (if ?D \<le> x \<and> x < ?D + ?p then b (?S + (x - ?D)) else b x)" for x
      by (rule memcpy_at) (use dj [of ?p] in simp)
    have pr: "?N - ?p < ?N" "maxn - p \<noteq> 0" "PGSIZE \<noteq> 0" "?D + ?p + (?N - ?p) \<le> 2 ^ 32"
      "?D + ?p + (?N - ?p) \<le> ?S + ?p \<or> ?S + ?p + (?N - ?p) \<le> ?D + ?p"
      using 4(3) lt p0 less.prems(4,5) by (auto simp: PGSIZE_def)
    note ih = less.hyps [of "maxn - p" s1 PGSIZE "dst + p" "src + p" ?b, unfolded sz, OF pr(1)
      cache_onlyD(6) [OF u(2) less.prems(1)] pr(2-5)]
    from ih obtain ok2 b2 s2 where r: "copy_parts (Some m) (dst + p) (src + p) (maxn - p) PGSIZE ?b s1 = Some (ok2, b2, s2)"
      "cache_only m s1 s2" "\<forall>x. x < ?D + ?p \<or> ?D + ?p + (?N - ?p) \<le> x \<longrightarrow> b2 x = ?b x"
      "ok2 \<longrightarrow> (\<exists>k. string_within ?b (?S + ?p) (?N - ?p) k \<and> user_buffer (src + p) (k + 1) \<and>
        readable s1 m (?S + ?p) (k + 1) \<and> (\<forall>i\<le>k. b2 (?D + ?p + i) = ?b (?S + ?p + i)))"
      "\<not> ok2 \<longrightarrow> \<not> (user_buffer (src + p) (?N - ?p) \<and> readable s1 m (?S + ?p) (?N - ?p) \<and>
        (\<exists>k. string_within ?b (?S + ?p) (?N - ?p) k))"
      by (elim exE conjE) (rule that)
    have src_b: "\<forall>i<?N - ?p. ?b (?S + ?p + i) = b (?S + ?p + i)"
      using less.prems(5) unfolding at by auto
    note skip = string_within_skip [OF _ lt src_b]
    have sk: "string_within ?b (?S + ?p) (?N - ?p) j \<longleftrightarrow> string_within b ?S ?N (?p + j)" for j
      using skip(1) nz by blast
    have up: "user_buffer (src + p) n \<longleftrightarrow> user_buffer src (?p + n)" for n
      using ub(1) sz(3) by (auto simp: user_buffer_def word_le_nat_alt)
    have "b2 x = b x" if "x < ?D \<or> ?D + ?N \<le> x" for x
      using that r(3) lt unfolding at by auto
    moreover have "\<exists>k. string_within b ?S ?N k \<and> user_buffer src (k + 1) \<and>
        readable s m ?S (k + 1) \<and> (\<forall>i\<le>k. b2 (?D + i) = b (?S + i))" if o: ok2
    proof -
      obtain j where j: "string_within b ?S ?N (?p + j)" "user_buffer src (?p + (j + 1))"
        "readable s m (?S + ?p) (j + 1)" "\<forall>i\<le>j. b2 (?D + ?p + i) = ?b (?S + ?p + i)"
        using r(4) o readable_cache [OF u(2)] unfolding sk up by auto
      have "readable s m ?S (?p + (j + 1))" using ub(2) j(3) by (simp only: readable_append)
      moreover have "b2 (?D + i) = b (?S + i)" if "i \<le> ?p + j" for i
      proof (cases "i < ?p")
        case True
        then show ?thesis using r(3) unfolding at by simp
      next
        case False
        then have "b2 (?D + ?p + (i - ?p)) = ?b (?S + ?p + (i - ?p))" using j(4) [rule_format, of "i - ?p"] that by simp
        moreover have "i - ?p < ?N - ?p" using that j(1) False by (auto simp: string_within_def)
        ultimately show ?thesis using src_b [rule_format, of "i - ?p"] False by simp
      qed
      ultimately show ?thesis using j(1,2) by (intro exI [of _ "?p + j"]) (simp add: add.assoc)
    qed
    moreover have "\<not> (user_buffer src ?N \<and> readable s m ?S ?N \<and> (\<exists>k. string_within b ?S ?N k))" if "\<not> ok2"
    proof
      assume a: "user_buffer src ?N \<and> readable s m ?S ?N \<and> (\<exists>k. string_within b ?S ?N k)"
      have sum: "?p + (?N - ?p) = ?N" using lt by simp
      obtain j where j: "string_within b ?S ?N j" using a by blast
      then have "?p \<le> j" using skip(2) nz by blast
      then have "string_within ?b (?S + ?p) (?N - ?p) (j - ?p)" using j by (simp add: sk)
      moreover have "readable s m (?S + ?p) (?N - ?p)" using a readable_append [of s m ?S ?p "?N - ?p"] sum by simp
      ultimately show False using r(5) that a readable_cache [OF u(2)] sum unfolding up by auto
    qed
    ultimately show ?thesis unfolding eq r(1) using cache_only_trans [OF u(2) r(2)] by blast
  qed
qed


text \<open>The bytes a process may read: those the copy may look at.\<close>

definition user_byte :: "vmstate \<Rightarrow> nat \<Rightarrow> nat \<Rightarrow> bool" where
  "user_byte s m x \<longleftrightarrow> user_buffer (of_nat x) 1 \<and> byte_ok s m False (of_nat x)"

lemma user_byte_cache: "cache_only m s s' \<Longrightarrow> user_byte s' m = user_byte s m"
  by (simp add: user_byte_def byte_ok_cache fun_eq_iff)

lemma checked_bytes:
  assumes "user_buffer a n" "readable s m (unat a) n" "i < n"
  shows "user_byte s m (unat a + i)"
proof -
  have l: "unat a + i < 2 ^ 32" using assms(1,3) by (simp add: user_buffer_def USERTOP_def)
  then have u: "unat (of_nat (unat a + i) :: u32) = unat a + i"
    by (simp only: unsigned_of_nat) (simp add: take_bit_nat_eq_self)
  then show ?thesis using assms unfolding user_byte_def readable_def user_buffer_def by (simp add: word_le_nat_alt)
qed

lemma strnlen_loop_cong:
  "\<forall>i. cnt + i < len \<longrightarrow> m' (s + i) = m (s + i) \<Longrightarrow> strnlen_loop m' s len cnt = strnlen_loop m s len cnt"
proof (induction m s len cnt rule: strnlen_loop.induct)
  case (1 m s len cnt)
  show ?case
  proof (cases "cnt < len \<and> m s \<noteq> 0")
    case True
    have "\<forall>i. cnt + 1 + i < len \<longrightarrow> m' (s + 1 + i) = m (s + 1 + i)" using 1(2) [rule_format, of "Suc i" for i] by simp
    then have "strnlen_loop m' (s + 1) len (cnt + 1) = strnlen_loop m (s + 1) len (cnt + 1)" by (rule 1(1) [OF True])
    moreover have "m' s = m s" using 1(2) [rule_format, of 0] True by simp
    ultimately show ?thesis by (simp add: strnlen_loop.simps [of m s] strnlen_loop.simps [of m' s])
  next
    case False
    moreover have "cnt < len \<Longrightarrow> m' s = m s" using 1(2) [rule_format, of 0] by simp
    ultimately show ?thesis by (auto simp: strnlen_loop.simps [of m s] strnlen_loop.simps [of m' s])
  qed
qed

text \<open>Two memories that agree on these bytes are treated alike.\<close>

lemma copy_parts_local:
  "mm_ok s m \<Longrightarrow> maxn \<noteq> 0 \<Longrightarrow> part \<noteq> 0 \<Longrightarrow> unat dst + unat maxn \<le> 2 ^ 32 \<Longrightarrow>
   unat dst + unat maxn \<le> unat src \<or> unat src + unat maxn \<le> unat dst \<Longrightarrow>
   \<forall>x. user_byte s m x \<longrightarrow> c x = b x \<Longrightarrow> copy_parts (Some m) dst src maxn part b s = Some (ok, b', s') \<Longrightarrow>
   \<exists>c'. copy_parts (Some m) dst src maxn part c s = Some (ok, c', s') \<and> (\<forall>x. c' x = b' x \<or> c' x = c x \<and> b' x = b x)"
proof (induction "unat maxn" arbitrary: dst src maxn part b c s rule: less_induct)
  case less
  define p where "p = (if part > maxn then maxn else part)"
  let ?S = "unat src" and ?D = "unat dst" and ?N = "unat maxn" and ?p = "unat p"
  have p: "p \<noteq> 0" "?p \<le> ?N" using less.prems(2,3) by (auto simp: p_def not_less word_le_nat_alt)
  have p0: "0 < ?p" using p(1) by (simp add: unat_gt_0)
  have dj: "?D \<le> ?S \<or> ?S + n \<le> ?D" if "n \<le> ?p" for n using less.prems(5) p that by auto
  obtain k s1 where u: "user_mem_check (Some m) src p False s = Some (k, s1)" "cache_only m s s1"
    "k \<longleftrightarrow> user_buffer src ?p \<and> readable s m ?S ?p"
    using user_mem_check_read [OF less.prems(1) p(1)] by blast
  note cp = copy_parts.simps [of "Some m" dst src maxn part b s, folded p_def]
    and cp' = copy_parts.simps [of "Some m" dst src maxn part c s, folded p_def]
  show ?case
  proof (cases k)
    case False
    then show ?thesis using less.prems(7) u(1) unfolding cp cp' by (simp add: p_def [symmetric])
  next
    case True
    then have ch: "c (?S + i) = b (?S + i)" if "i < ?p" for i
      using checked_bytes [of src ?p s m i] u(3) that less.prems(6) by blast
    then have l: "strnlen c ?S ?p = strnlen b ?S ?p" unfolding strnlen_def by (intro strnlen_loop_cong) simp
    let ?k = "strnlen b ?S ?p"
    note k = strnlen_ok [where m = b and s = ?S and len = ?p]
    have at: "memcpy e ?D ?S n x = (if ?D \<le> x \<and> x < ?D + n then e (?S + (x - ?D)) else e x)" if "n \<le> ?p" for e n x
      by (rule memcpy_at) (use dj [OF that] in simp)
    have same: "memcpy c ?D ?S n x = memcpy b ?D ?S n x \<or> memcpy c ?D ?S n x = c x \<and> memcpy b ?D ?S n x = b x"
      if "n \<le> ?p" for n x
    proof (cases "?D \<le> x \<and> x < ?D + n")
      case True
      then have "x - ?D < ?p" using that by linarith
      then have "c (?S + (x - ?D)) = b (?S + (x - ?D))" by (rule ch)
      then show ?thesis using True unfolding at [OF that] by simp
    next
      case False
      then show ?thesis unfolding at [OF that] if_not_P [OF False] by blast
    qed
    consider "?k < ?p" | "?k = ?p" "p = maxn" | "?k = ?p" "p \<noteq> maxn" using k(1) by linarith
    then show ?thesis
    proof cases
      case 1
      then have n: "?k + 1 \<le> ?p" by simp
      show ?thesis using less.prems(7) u(1) True 1 same [OF n] unfolding cp cp' l by (auto simp: p_def [symmetric] l)
    next
      case 2
      then have "strnlen c ?S ?N = strnlen b ?S ?N" using l by simp
      then show ?thesis using less.prems(7) u(1) True 2 unfolding cp cp' by (auto simp: p_def [symmetric])
    next
      case 3
      let ?b = "memcpy b ?D ?S ?p" and ?c = "memcpy c ?D ?S ?p"
      have lt: "?p < ?N" using 3(2) p(2) by (metis le_neq_implies_less word_unat_eq_iff)
      have run: "copy_parts (Some m) (dst + p) (src + p) (maxn - p) PGSIZE ?b s1 = Some (ok, b', s')"
        using less.prems(7) u(1) True 3 unfolding cp by (simp add: p_def [symmetric])
      have eq: "copy_parts (Some m) dst src maxn part c s =
          copy_parts (Some m) (dst + p) (src + p) (maxn - p) PGSIZE ?c s1"
        unfolding cp' using u(1) True 3 by (simp add: p_def [symmetric] l)
      have ub: "user_buffer src ?p" using u(3) True by blast
      have sz: "unat (maxn - p) = ?N - ?p" "unat (dst + p) = ?D + ?p" "unat (src + p) = ?S + ?p"
        using lt less.prems(4) ub by (simp_all add: unat_word_ariths unat_sub word_le_nat_alt user_buffer_def USERTOP_def)
      have pr: "?N - ?p < ?N" "maxn - p \<noteq> 0" "PGSIZE \<noteq> 0" "?D + ?p + (?N - ?p) \<le> 2 ^ 32"
        "?D + ?p + (?N - ?p) \<le> ?S + ?p \<or> ?S + ?p + (?N - ?p) \<le> ?D + ?p"
        using 3(2) lt p0 less.prems(4,5) by (auto simp: PGSIZE_def)
      have ag: "\<forall>x. user_byte s1 m x \<longrightarrow> ?c x = ?b x"
        using less.prems(6) same [OF order_refl] unfolding user_byte_cache [OF u(2)] by metis
      obtain c' where c': "copy_parts (Some m) (dst + p) (src + p) (maxn - p) PGSIZE ?c s1 = Some (ok, c', s')"
        "\<forall>x. c' x = b' x \<or> c' x = ?c x \<and> b' x = ?b x"
        using less.hyps [of "maxn - p" s1 PGSIZE "dst + p" "src + p" ?c ?b, unfolded sz, OF pr(1)
          cache_onlyD(6) [OF u(2) less.prems(1)] pr(2-5) ag run] by blast
      have "c' x = b' x \<or> c' x = c x \<and> b' x = b x" for x using c'(2) same [OF order_refl, of x] by metis
      then show ?thesis unfolding eq using c'(1) by blast
    qed
  qed
qed

lemma next_page: "x < (x + 4096) div 4096 * 4096" for x :: nat
proof -
  have "(x + 4096) div 4096 = x div 4096 + 1" by simp
  then show ?thesis
    using div_bounds(2) [of 4096 x] by (simp only: add_mult_distrib mult.commute [of 4096] mult_1)
qed

lemma first_part: "rounddown_2n (src + PGSIZE) 12 - src \<noteq> 0"
proof
  assume "rounddown_2n (src + PGSIZE) 12 - src = 0"
  then have e: "unat src = unat (src + PGSIZE) div 4096 * 4096"
    using unat_rounddown [of "src + PGSIZE" 12] by simp
  have s: "unat (src + PGSIZE) = (unat src + 4096) mod 2 ^ 32" by (simp add: unat_word_ariths PGSIZE_def)
  note dm = next_page [of "unat src"]
  show False
  proof (cases "unat src + 4096 < 2 ^ 32")
    case True
    then have "unat (src + PGSIZE) = unat src + 4096" using s by (simp only: mod_less)
    then show ?thesis using e dm by (simp only: less_irrefl)
  next
    case False
    have "unat (src + PGSIZE) div 4096 * 4096 \<le> unat (src + PGSIZE)" by simp
    moreover have "unat (src + PGSIZE) \<le> unat src + 4096 - 2 ^ 32"
      unfolding s by (rule wrap_mod) (use False in simp)
    ultimately show ?thesis using e False unsigned_less [of src] by simp
  qed
qed

section \<open>Page faults\<close>

text \<open>No free page is referenced, so that a page just allocated has no mapping.\<close>

definition free_unref :: "vmem \<Rightarrow> bool" where
  "free_unref s \<longleftrightarrow> (\<forall>x\<in>free_set (phys s). page_ref x s = 0)"

lemma get_pte_free:
  assumes "get_pte pd la c s = Some (r, s')" "ff_inv npage (phys s)" "free_unref s"
  shows "free_unref s' \<and> free_set (phys s') \<subseteq> free_set (phys s) \<and>
    (\<exists>p. free_set (phys s) \<subseteq> insert p (free_set (phys s')))"
proof (cases "frames s pd (PDX la) AND PTE_P = 0 \<and> c")
  case True
  obtain p s1 where a: "alloc_pages 1 s = Some (p, s1)" "\<forall>q. page_ref q s1 = page_ref q s"
    "case p of None \<Rightarrow> s1 = s \<and> free_set (phys s) = {}
     | Some p \<Rightarrow> p < npage \<and> p \<notin> used s \<and> used s1 = insert p (used s) \<and>
         p \<in> free_set (phys s) \<and> free_set (phys s1) = free_set (phys s) - {p}"
    using alloc_page_ok [OF assms(2)] by blast
  have ref: "page_ref q (s\<lparr>frames := f\<rparr>) = page_ref q s" for q f and s :: vmem by (simp add: page_ref_def)
  have sub: "\<exists>p. A \<subseteq> insert p (A - {x})" for A and x :: nat by blast
  show ?thesis
    using assms(1,3) True a by (auto simp: get_pte_def free_unref_def bind_eq_Some_conv ref sub split: option.splits)
qed (use assms in \<open>auto simp: get_pte_def bind_eq_Some_conv split: if_splits\<close>)

text \<open>A table is allocated only where there is none.\<close>

lemma get_pte_frames:
  assumes "get_pte pd la True s = Some (r, s')" "ff_inv npage (phys s)"
  shows "if live (frames s pd (PDX la)) then s' = s
    else if r = None then s' = s \<and> free_set (phys s) = {}
    else \<exists>t\<in>free_set (phys s). free_set (phys s') = free_set (phys s) - {t}"
proof (cases "live (frames s pd (PDX la))")
  case True
  then show ?thesis using assms(1) by (auto simp: get_pte_def live_def bind_eq_Some_conv split: if_splits)
next
  case False
  then have p: "frames s pd (PDX la) AND PTE_P = 0" by (simp add: live_def)
  obtain p s1 where a: "alloc_pages 1 s = Some (p, s1)" "\<forall>q. page_ref q s1 = page_ref q s"
    "case p of None \<Rightarrow> s1 = s \<and> free_set (phys s) = {}
     | Some p \<Rightarrow> p < npage \<and> p \<notin> used s \<and> used s1 = insert p (used s) \<and>
         p \<in> free_set (phys s) \<and> free_set (phys s1) = free_set (phys s) - {p}"
    using alloc_page_ok [OF assms(2)] by blast
  show ?thesis
    using assms(1) False p a by (auto simp: get_pte_def bind_eq_Some_conv split: option.splits intro!: bexI)
qed

lemma get_pte_live:
  assumes "space_ok s pd" "live (frames s pd (PDX la))"
  shows "get_pte pd la c s = Some (Some (frame_of (frames s pd (PDX la)), PTX la), s)"
  using table_frame(3) [OF assms(1) PDX_bound(1) assms(2)] pde2page_frame assms(2)
  by (auto simp: get_pte_def live_def)

lemma space_ok_alloc:
  assumes ok: "space_ok s pd" and a: "frames s' = frames s" "ff_inv npage (phys s')"
    "\<forall>q. page_ref q s' = page_ref q s" "used s \<subseteq> used s'"
  shows "space_ok s' pd" "tables s' pd = tables s pd" "slot s' pd d t = slot s pd d t" "maps s' pd = maps s pd"
proof -
  show t: "tables s' pd = tables s pd" and sl: "\<And>d t. slot s' pd d t = slot s pd d t"
    and m: "maps s' pd = maps s pd"
    using a(1) by (simp_all add: tables_def dirs_def slot_def maps_def fun_eq_iff)
  show "space_ok s' pd"
    using ok a t m unfolding space_ok_def by (auto simp: dirs_def)
qed

lemma page_insert_fresh_free:
  assumes "space_ok s pd" "live (frames s pd (PDX la))" "\<not> live (pte_of s pd la)"
    "page_insert pd p la perm s = Some (r, s')" "free_unref s" "p \<notin> free_set (phys s)"
  shows "r = 0 \<and> free_unref s' \<and> free_set (phys s') = free_set (phys s)"
proof -
  have "\<not> live (frames s (frame_of (frames s pd (PDX la))) (PTX la))"
    using assms(2,3) by (simp add: pte_of_def slot_def)
  then show ?thesis using assms(4-6) get_pte_live [OF assms(1,2)]
    by (auto simp: page_insert_def live_def free_unref_def)
qed


lemma pgdir_alloc_page_ok:
  assumes ok: "space_ok s pd" and lv: "live (frames s pd (PDX la))" and z: "\<not> live (pte_of s pd la)"
    and fu: "free_unref s" and perm: "perm AND NOT 0xFFF = 0"
  shows "\<exists>r s'. pgdir_alloc_page pd la perm s = Some (r, s') \<and> space_ok s' pd \<and> free_unref s' \<and>
    (case r of None \<Rightarrow> s' = s \<and> free_set (phys s) = {}
     | Some p \<Rightarrow> p \<in> free_set (phys s) \<and> free_set (phys s') = free_set (phys s) - {p} \<and>
        (\<forall>lb. pte_of s' pd lb = (if page_no lb = page_no la then page2pa p OR PTE_P OR perm else pte_of s pd lb)))"
proof -
  obtain r s1 where a: "alloc_pages 1 s = Some (r, s1)" "ff_inv npage (phys s1)" "frames s1 = frames s"
    "\<forall>q. page_ref q s1 = page_ref q s"
    "case r of None \<Rightarrow> s1 = s \<and> free_set (phys s) = {}
     | Some p \<Rightarrow> p < npage \<and> p \<notin> used s \<and> used s1 = insert p (used s) \<and>
         p \<in> free_set (phys s) \<and> free_set (phys s1) = free_set (phys s) - {p}"
    using alloc_page_ok [OF space_okD(1) [OF ok]] by blast
  show ?thesis
  proof (cases r)
    case None
    then have "pgdir_alloc_page pd la perm s = Some (None, s)" using a(1,5) by (simp add: pgdir_alloc_page_def)
    then show ?thesis using None a(5) ok fu by (intro exI [of _ None] exI [of _ s]) simp
  next
    case (Some p)
    have p: "p \<notin> used s" "used s1 = insert p (used s)" "p \<in> free_set (phys s)"
      "free_set (phys s1) = free_set (phys s) - {p}" using a(5) Some by auto
    note sa = space_ok_alloc [OF ok a(3,2,4), unfolded p(2), OF subset_insertI]
    have m: "maps s pd p = {}" using space_okD(6) [OF ok, of p] p(1) by blast
    have np: "p \<notin> insert pd (tables s pd)" using space_okD(2,3) [OF ok] p(1) by blast
    have r0: "page_ref p s1 = 0" using fu p(3) a(4) by (simp add: free_unref_def)
    have fu1: "free_unref s1" using fu a(4) p(4) by (simp add: free_unref_def)
    obtain r' s' where i: "page_insert pd p la perm s1 = Some (r', s')" "space_ok s' pd"
      "r' = 0 \<longrightarrow> (\<forall>lb. pte_of s' pd lb = (if page_no lb = page_no la then page2pa p OR PTE_P OR perm else pte_of s1 pd lb))"
      using page_insert_ok [OF sa(1) _ _ _ perm, of p la] p(2) np sa(2,4) m r0 by auto
    have "r' = 0 \<and> free_unref s' \<and> free_set (phys s') = free_set (phys s1)"
      by (rule page_insert_fresh_free [OF sa(1) _ _ i(1) fu1]) (use lv z p(4) a(3) sa(3) in \<open>auto simp: pte_of_def\<close>)
    then have f: "r' = 0" "free_unref s'" "free_set (phys s') = free_set (phys s1)" by blast+
    have "pgdir_alloc_page pd la perm s = Some (Some p, s')"
      using a(1) Some i(1) f(1) by (simp add: pgdir_alloc_page_def)
    moreover have "pte_of s1 pd lb = pte_of s pd lb" for lb by (simp add: pte_of_def sa(3))
    ultimately show ?thesis using i f p by (intro exI [of _ "Some p"] exI [of _ s']) simp
  qed
qed

definition fault_access :: "u32 \<Rightarrow> u32 \<Rightarrow> bool" where
  "fault_access ec fl \<longleftrightarrow> (ec AND 3 = 0 \<longrightarrow> fl AND (VM_READ OR VM_EXEC) \<noteq> 0) \<and> ec AND 3 \<noteq> 1 \<and>
     (ec AND 3 = 2 \<or> ec AND 3 = 3 \<longrightarrow> fl AND VM_WRITE \<noteq> 0)"

definition fault_perm :: "u32 \<Rightarrow> u32" where
  "fault_perm fl = (if fl AND VM_WRITE \<noteq> 0 then PTE_U OR PTE_W else PTE_U)"

lemma fault_perm_low: "fault_perm fl AND NOT 0xFFF = 0"
  by (simp add: fault_perm_def pte_flags)

lemma round_page: "page_no (rounddown_2n a 12) = page_no a" "PDX (rounddown_2n a 12) = PDX a"
  "PTX (rounddown_2n a 12) = PTX a"
proof -
  show p: "page_no (rounddown_2n a 12) = page_no a"
    using unat_rounddown [of a 12] by (simp add: page_no_def)
  then show "PDX (rounddown_2n a 12) = PDX a" "PTX (rounddown_2n a 12) = PTX a"
    using page_no_eq [of "rounddown_2n a 12" a] by auto
qed

text \<open>A legal fault at \<open>addr\<close> in the area \<open>v\<close>: the rest of the handler, on the page tables.\<close>

text \<open>
  A page that has an entry keeps it and nothing changes.  Otherwise one free frame becomes the page, and
  one more the table of its entry when that does not exist.  When memory runs out no translation changes;
  the one frame that was free may have become the table.
\<close>

definition fault_done :: "nat \<Rightarrow> u32 \<Rightarrow> u32 \<Rightarrow> vmem \<Rightarrow> int \<Rightarrow> vmem \<Rightarrow> bool" where
  "fault_done pd addr perm pg r pg' \<longleftrightarrow>
     (let F = free_set (phys pg); F' = free_set (phys pg'); table = live (frames pg pd (PDX addr)) in
      if r = 0 then
        (if pte_of pg pd addr \<noteq> 0 then pg' = pg
         else (\<forall>lb. page_no lb \<noteq> page_no addr \<longrightarrow> pte_of pg' pd lb = pte_of pg pd lb) \<and>
           (\<exists>p\<in>F. pte_of pg' pd addr = page2pa p OR PTE_P OR perm \<and>
              (if table then F' = F - {p} else \<exists>t\<in>F. t \<noteq> p \<and> F' = F - {t, p})))
      else r = fail_code E_NO_MEM \<and> pte_of pg pd addr = 0 \<and> (\<forall>lb. pte_of pg' pd lb = pte_of pg pd lb) \<and>
        (F = {} \<and> pg' = pg \<or> \<not> table \<and> (\<exists>t. F = {t}) \<and> F' = {}))"


definition fault_legal :: "vmstate \<Rightarrow> nat \<Rightarrow> u32 \<Rightarrow> u32 \<Rightarrow> nat \<Rightarrow> bool" where
  "fault_legal s m ec addr v \<longleftrightarrow> v \<in> set (areas s m) \<and> covers s addr v \<and> fault_access ec (vm_flags (vmas s v))"

lemma fault_page:
  assumes ok: "space_ok pg pd" "free_unref pg" and perm: "perm AND NOT 0xFFF = 0"
    and a: "a = rounddown_2n addr 12"
  shows "\<exists>ptep pg1. get_pte pd a True pg = Some (ptep, pg1) \<and>
    (case ptep of
       None \<Rightarrow> space_ok pg1 pd \<and> free_unref pg1 \<and> fault_done pd addr perm pg (fail_code E_NO_MEM) pg1
     | Some (f, i) \<Rightarrow>
         if frames pg1 f i = 0
         then \<exists>r pg2. pgdir_alloc_page pd a perm pg1 = Some (r, pg2) \<and> space_ok pg2 pd \<and> free_unref pg2 \<and>
           fault_done pd addr perm pg (if r = None then fail_code E_NO_MEM else 0) pg2
         else space_ok pg1 pd \<and> free_unref pg1 \<and> fault_done pd addr perm pg 0 pg1)"
proof -
  obtain ptep pg1 where g: "get_pte pd a True pg = Some (ptep, pg1)" "space_ok pg1 pd"
    "\<forall>d<1024. \<forall>t. slot pg1 pd d t = slot pg pd d t"
    "case ptep of None \<Rightarrow> pg1 = pg \<and> free_set (phys pg) = {}
     | Some (f, i) \<Rightarrow> i = PTX a \<and> live (frames pg1 pd (PDX a)) \<and> f = frame_of (frames pg1 pd (PDX a))"
    using get_pte_create [OF ok(1), of a] by blast
  have fr: "free_unref pg1" "free_set (phys pg1) \<subseteq> free_set (phys pg)"
    "\<exists>p. free_set (phys pg) \<subseteq> insert p (free_set (phys pg1))"
    using get_pte_free [OF g(1) space_okD(1) [OF ok(1)] ok(2)] by blast+
  have px: "PDX a = PDX addr" unfolding a by (simp add: round_page)
  note gf = get_pte_frames [OF g(1) space_okD(1) [OF ok(1)], unfolded px]
  have z0: "pte_of pg pd addr = 0" if "\<not> live (frames pg pd (PDX addr))" using that by (simp add: pte_of_def slot_def)
  have pt: "pte_of pg1 pd lb = pte_of pg pd lb" for lb using g(3) PDX_bound(1) by (simp add: pte_of_def)
  have pa: "pte_of pg1 pd a = pte_of pg pd addr" unfolding pt by (simp add: pte_of_def a round_page)
  have nz: "fail_code E_NO_MEM \<noteq> 0" by simp
  show ?thesis
  proof (cases ptep)
    case None
    have "pte_of pg pd addr = 0" using g(3,4) None gf z0 by (cases "live (frames pg pd (PDX addr))") (use get_pte_live [OF ok(1), of a] g(1) px in auto)
    then show ?thesis using g fr nz None by (simp add: fault_done_def Let_def)
  next
    case (Some fi)
    note ptep = Some
    then have fi: "fi = (frame_of (frames pg1 pd (PDX a)), PTX a)" and lv: "live (frames pg1 pd (PDX a))"
      using g(4) by auto
    have e: "frames pg1 (frame_of (frames pg1 pd (PDX a))) (PTX a) = pte_of pg pd addr"
      using lv pa by (simp add: pte_of_def slot_def)
    show ?thesis
    proof (cases "pte_of pg pd addr = 0")
      case False
      then have "pg1 = pg" using gf z0 by (auto split: if_splits)
      then show ?thesis using False g(1,2) fr Some fi e pt by (simp add: fault_done_def)
    next
      case True
      then have "\<not> live (pte_of pg1 pd a)" using pa by simp
      then obtain r pg2 where r: "pgdir_alloc_page pd a perm pg1 = Some (r, pg2)" "space_ok pg2 pd" "free_unref pg2"
        "case r of None \<Rightarrow> pg2 = pg1 \<and> free_set (phys pg1) = {}
         | Some p \<Rightarrow> p \<in> free_set (phys pg1) \<and> free_set (phys pg2) = free_set (phys pg1) - {p} \<and>
          (\<forall>lb. pte_of pg2 pd lb = (if page_no lb = page_no a then page2pa p OR PTE_P OR perm else pte_of pg1 pd lb))"
        using pgdir_alloc_page_ok [OF g(2) lv _ fr(1) perm] by blast
      have "fault_done pd addr perm pg (if r = None then fail_code E_NO_MEM else 0) pg2"
      proof (cases r)
        case None
        then have r4: "pg2 = pg1" "free_set (phys pg1) = {}" using r(4) by simp_all
        have "free_set (phys pg) = {} \<and> pg2 = pg \<or>
          \<not> live (frames pg pd (PDX addr)) \<and> (\<exists>t. free_set (phys pg) = {t}) \<and> free_set (phys pg2) = {}"
        proof (cases "live (frames pg pd (PDX addr))")
          case True
          then show ?thesis using gf r4 by simp
        next
          case l: False
          then obtain t where "t \<in> free_set (phys pg)" "{} = free_set (phys pg) - {t}" using gf Some r4 by auto
          then have "free_set (phys pg) = {t}" by blast
          then show ?thesis using l r4 by blast
        qed
        then show ?thesis using None pt nz True r4(1) unfolding fault_done_def Let_def by simp
      next
        case (Some p)
        then have p: "p \<in> free_set (phys pg)" "\<forall>lb. pte_of pg2 pd lb =
            (if page_no lb = page_no addr then page2pa p OR PTE_P OR perm else pte_of pg pd lb)"
          using r(4) fr(2) pt by (auto simp: a round_page)
        have p1: "p \<in> free_set (phys pg1)" "free_set (phys pg2) = free_set (phys pg1) - {p}" using r(4) Some by simp_all
        have "if live (frames pg pd (PDX addr)) then free_set (phys pg2) = free_set (phys pg) - {p}
          else \<exists>t\<in>free_set (phys pg). t \<noteq> p \<and> free_set (phys pg2) = free_set (phys pg) - {t, p}"
        proof (cases "live (frames pg pd (PDX addr))")
          case True
          then show ?thesis using gf p1 by simp
        next
          case l: False
          then obtain t where "t \<in> free_set (phys pg)" "free_set (phys pg1) = free_set (phys pg) - {t}" using gf ptep by auto
          then show ?thesis using l p1 by auto
        qed
        then show ?thesis using Some True p unfolding fault_done_def Let_def by auto
      qed
      then show ?thesis using g(1) r Some fi e True by simp
    qed
  qed
qed

lemma do_pgfault_ok:
  assumes ok: "mm_ok s m" and pd: "pgdir (mms s m) = Some pd" and sp: "space_ok (pgs s) pd" "free_unref (pgs s)"
  shows "\<exists>r s'. do_pgfault (Some m) ec addr s = Some (r, s') \<and> mm_ok s' m \<and> areas s' m = areas s m \<and>
    vmas s' = vmas s \<and> space_ok (pgs s') pd \<and> free_unref (pgs s') \<and>
    (case find (fault_legal s m ec addr) (areas s m) of
       None \<Rightarrow> r = fail_code E_INVAL \<and> pgs s' = pgs s
     | Some v \<Rightarrow> fault_done pd addr (fault_perm (vm_flags (vmas s v))) (pgs s) r (pgs s'))"
proof -
  let ?f = "find (\<lambda>v. addr < vm_end (vmas s v)) (areas s m)"
  have ao: "areas_ok (map (vmas s) (areas s m))" using ok by (simp add: mm_ok_def)
  obtain s1 where f: "find_vma (Some m) addr s = (?f, s1)" "cache_only m s s1" using find_vma_ok [OF ok] by blast
  note cD = cache_onlyD [OF f(2)]
  define s2 where "s2 = s1\<lparr>pgfault_num := pgfault_num s1 + 1\<rparr>"
  have s2: "mm_ok s2 m" "areas s2 m = areas s m" "vmas s2 = vmas s" "pgs s2 = pgs s" "pgdir (mms s2 m) = Some pd"
  proof -
    show "mm_ok s2 m" using cD(6) [OF ok] by (simp add: s2_def mm_ok_def)
    show "areas s2 m = areas s m" "vmas s2 = vmas s" "pgs s2 = pgs s" "pgdir (mms s2 m) = Some pd"
      by (simp_all add: s2_def cD(1-3,10) pd)
  qed
  show ?thesis
  proof (cases "\<exists>v. find (fault_legal s m ec addr) (areas s m) = Some v")
    case False
    then have nl: "find (fault_legal s m ec addr) (areas s m) = None" by auto
    have "do_pgfault (Some m) ec addr s = Some (fail_code E_INVAL, s2)"
    proof (cases ?f)
      case None then show ?thesis using f(1) by (simp add: do_pgfault_def Let_def s2_def)
    next
      case (Some v)
      then have v: "v \<in> set (areas s m)" "addr < vm_end (vmas s v)" using find_first(2) [OF ao Some refl] by auto
      have "vm_start (vmas s v) > addr \<or> \<not> fault_access ec (vm_flags (vmas s v))"
        using nl v by (force simp: find_None_iff fault_legal_def covers_def)
      then show ?thesis using f(1) Some
        by (auto simp: do_pgfault_def Let_def s2_def [symmetric] cD(2) fault_access_def)
    qed
    then show ?thesis using s2 sp nl by auto
  next
    case True
    then obtain v where v: "find (fault_legal s m ec addr) (areas s m) = Some v" by blast
    then have vin: "v \<in> set (areas s m)" "covers s addr v" "fault_access ec (vm_flags (vmas s v))"
      by (auto simp: find_Some_iff fault_legal_def)
    have fv: "?f = Some v" using find_covering [OF ao vin(1)] vin(2) by (simp add: covers_def)
    let ?perm = "fault_perm (vm_flags (vmas s v))"
    let ?a = "rounddown_2n addr 12"
    have eq: "do_pgfault (Some m) ec addr s = do {
        (ptep, pg) \<leftarrow> get_pte pd ?a True (pgs s);
        (case ptep of
           None \<Rightarrow> Some (fail_code E_NO_MEM, s2\<lparr>pgs := pg\<rparr>)
         | Some (f, i) \<Rightarrow>
             if frames pg f i = 0 then do {
               (page, pg) \<leftarrow> pgdir_alloc_page pd ?a ?perm pg;
               Some (if page = None then fail_code E_NO_MEM else 0, s2\<lparr>pgs := pg\<rparr>)
             } else Some (0, s2\<lparr>pgs := pg\<rparr>)) }"
    proof -
      let ?fl = "vm_flags (vmas s v)" and ?c = "ec AND 3"
      have n: "\<not> vm_start (vmas s v) > addr" "\<not> ((?c = 2 \<or> ?c = 3) \<and> ?fl AND VM_WRITE = 0)" "?c \<noteq> 1"
        "\<not> (?c = 0 \<and> ?fl AND (VM_READ OR VM_EXEC) = 0)"
        using vin(2,3) unfolding fault_access_def covers_def not_less by blast+
      show ?thesis
        unfolding do_pgfault_def Let_def f(1) fv prod.case option.case s2_def [symmetric] s2(3-5)
          fault_perm_def [symmetric] by (simp only: n if_False bind.simps s2(3-5)) (simp cong: option.case_cong if_cong)
    qed
    have keep: "mm_ok (s2\<lparr>pgs := pg\<rparr>) m" for pg using s2(1) by (simp add: mm_ok_def)
    have fin: "?thesis" if "do_pgfault (Some m) ec addr s = Some (r, s2\<lparr>pgs := pg\<rparr>)" "space_ok pg pd"
      "free_unref pg" "fault_done pd addr ?perm (pgs s) r pg" for r pg
      using that keep s2(2,3) v by simp
    obtain ptep pg1 where g: "get_pte pd ?a True (pgs s) = Some (ptep, pg1)"
      and c: "case ptep of
       None \<Rightarrow> space_ok pg1 pd \<and> free_unref pg1 \<and> fault_done pd addr ?perm (pgs s) (fail_code E_NO_MEM) pg1
     | Some (f, i) \<Rightarrow>
         if frames pg1 f i = 0
         then \<exists>r pg2. pgdir_alloc_page pd ?a ?perm pg1 = Some (r, pg2) \<and> space_ok pg2 pd \<and> free_unref pg2 \<and>
           fault_done pd addr ?perm (pgs s) (if r = None then fail_code E_NO_MEM else 0) pg2
         else space_ok pg1 pd \<and> free_unref pg1 \<and> fault_done pd addr ?perm (pgs s) 0 pg1"
      using fault_page [OF sp fault_perm_low [of "vm_flags (vmas s v)"] refl, of addr] by blast
    show ?thesis
    proof (cases ptep)
      case None
      then show ?thesis using c g by (intro fin [of "fail_code E_NO_MEM" pg1]) (simp_all add: eq)
    next
      case (Some fi)
      obtain f i where fi: "fi = (f, i)" by (cases fi)
      show ?thesis
      proof (cases "frames pg1 f i = 0")
        case True
        then obtain r pg2 where r: "pgdir_alloc_page pd ?a ?perm pg1 = Some (r, pg2)" "space_ok pg2 pd"
          "free_unref pg2" "fault_done pd addr ?perm (pgs s) (if r = None then fail_code E_NO_MEM else 0) pg2"
          using c Some fi by auto
        then show ?thesis using g Some fi True
          by (intro fin [OF _ r(2-4)]) (simp add: eq)
      next
        case False
        then show ?thesis using c g Some fi by (intro fin [of 0 pg1]) (simp_all add: eq)
      qed
    qed
  qed
qed


section \<open>The properties\<close>

text \<open>A descriptor \<open>0\<close> with one area, over the page tables of \<open>demo_vmem\<close>.\<close>

definition demo_space :: vmstate where
  "demo_space = \<lparr>
     vmas = (\<lambda>v. \<lparr>vm_mm = Some 0, vm_start = 0x10000000, vm_end = 0x10002000, vm_flags = VM_READ OR VM_WRITE\<rparr>),
     mms = (\<lambda>m. \<lparr>mmap_list = [1], mmap_cache = None, pgdir = Some 0, map_count = 1, mm_count = 1, locked_by = 0\<rparr>),
     pgs = demo_vmem, answers = [Some 2], kobjs = {0, 1}, pgfault_num = 0\<rparr>"

lemma demo_space_ok:
  "mm_ok demo_space 0" "heap_ok demo_space" "pgdir (mms demo_space 0) = Some 0" "pgs demo_space = demo_vmem"
  "free_unref demo_vmem" "areas demo_space 0 = [1]" "answers demo_space = [Some 2]"
  by (simp_all add: demo_space_def mm_ok_def heap_ok_def USERTOP_def free_unref_def page_ref_def)
    (simp add: demo_vmem_def)

lemma demo_covers: "covers demo_space a v \<longleftrightarrow> 0x10000000 \<le> a \<and> a < 0x10002000"
  by (simp add: covers_def demo_space_def)

lemma demo_flags: "vm_flags (vmas demo_space v) = 3"
  by (simp add: demo_space_def VM_READ_def VM_WRITE_def)

lemma demo_byte: "byte_ok demo_space 0 wr a \<longleftrightarrow> 0x10000000 \<le> a \<and> a < 0x10002000"
  by (simp add: byte_ok_def demo_covers demo_flags demo_space_ok VM_READ_def VM_WRITE_def VM_STACK_def)

text \<open>
  C26. \<^verbatim>\<open>mm_map\<close> rounds its range out to pages and then decides exactly: a range outside user
  space or meeting an area is \<open>E_INVAL\<close>, no memory for the area is \<open>E_NO_MEM\<close>, and otherwise one new
  area with the rounded bounds and the given flags is added, sorted and disjoint from the others,
  which do not change.  No page table is touched in any case.
\<close>

theorem mm_map_exact:
  assumes "mm_ok s m" "heap_ok s" "st = rounddown_2n addr 12" "en = roundup_2n (addr + len) 12"
  shows "\<exists>r v s'. mm_map (Some m) addr len fl s = Some (r, v, s') \<and> mm_ok s' m \<and>
    (if \<not> USER_ACCESS st en \<or> \<not> interval_free s m st en
     then r = fail_code E_INVAL \<and> v = None \<and> areas s' m = areas s m \<and> vmas s' = vmas s \<and> pgs s' = pgs s
     else if answers s = [] \<or> hd (answers s) = None
     then r = fail_code E_NO_MEM \<and> v = None \<and> areas s' m = areas s m \<and> vmas s' = vmas s \<and> pgs s' = pgs s
     else r = 0 \<and> v = hd (answers s) \<and> set (areas s' m) = insert (the v) (set (areas s m)) \<and>
       the v \<notin> set (areas s m) \<and> pgs s' = pgs s \<and>
       vm_start (vmas s' (the v)) = st \<and> vm_end (vmas s' (the v)) = en \<and> vm_flags (vmas s' (the v)) = fl \<and>
       (\<forall>w\<in>set (areas s m). vmas s' w = vmas s w))"
proof (cases "\<not> USER_ACCESS st en \<or> \<not> interval_free s m st en")
  case True
  then obtain s' where s': "mm_map (Some m) addr len fl s = Some (fail_code E_INVAL, None, s')" "mm_ok s' m"
    "cache_only m s s'" using mm_map_ok [OF assms, of fl] by auto
  then show ?thesis using True cache_onlyD(1-3) [OF s'(3)] by simp
next
  case False
  then show ?thesis using mm_map_ok [OF assms, of fl] by simp
qed

theorem mm_map_exact_witness:
  "\<exists>s'. mm_map (Some 0) 0x10002800 0x100 VM_READ demo_space = Some (0, Some 2, s') \<and> mm_ok s' 0 \<and>
     set (areas s' 0) = {1, 2} \<and> vm_start (vmas s' 2) = 0x10002000 \<and> vm_end (vmas s' 2) = 0x10003000"
proof -
  have r: "0x10002000 = rounddown_2n 0x10002800 12" "0x10003000 = roundup_2n (0x10002800 + 0x100) 12"
    by (simp_all add: rounddown_2n_def roundup_2n_def)
  have "USER_ACCESS 0x10002000 0x10003000" by (simp add: USER_ACCESS_def USERBASE_def USERTOP_def)
  moreover have "interval_free demo_space 0 0x10002000 0x10003000"
    by (simp add: interval_free_def demo_space_def)
  ultimately show ?thesis
    using mm_map_exact [OF demo_space_ok(1,2) r, of VM_READ] by (auto simp: demo_space_ok)
qed

text \<open>
  C10. \<^verbatim>\<open>user_mem_check\<close> always returns, and answers true exactly when the range lies in user space
  without wrapping and each of its bytes is in an area of the descriptor with the wanted permission
  - for writes, above the guard page of a stack area.  Its only side effect is on the look-up
  cache, so the areas and the page tables are as before.
\<close>

theorem user_mem_check_exact:
  assumes "mm_ok s m"
  shows "\<exists>ok s'. user_mem_check (Some m) addr len wr s = Some (ok, s') \<and> mm_ok s' m \<and>
    areas s' m = areas s m \<and> vmas s' = vmas s \<and> pgs s' = pgs s \<and>
    (ok \<longleftrightarrow> USER_ACCESS addr (addr + len) \<and>
       (\<forall>a. addr \<le> a \<and> a < addr + len \<longrightarrow>
          (\<exists>v\<in>set (areas s m). covers s a v \<and>
             vm_flags (vmas s v) AND (if wr then VM_WRITE else VM_READ) \<noteq> 0 \<and>
             (wr \<and> vm_flags (vmas s v) AND VM_STACK \<noteq> 0 \<longrightarrow> vm_start (vmas s v) + PGSIZE \<le> a))))"
proof -
  obtain ok s' where c: "user_mem_check (Some m) addr len wr s = Some (ok, s')" "cache_only m s s'"
    "ok \<longleftrightarrow> USER_ACCESS addr (addr + len) \<and> (\<forall>a. addr \<le> a \<and> a < addr + len \<longrightarrow> byte_ok s m wr a)"
    using user_mem_check_ok [OF assms] by blast
  then show ?thesis using cache_onlyD(1-3,6) [OF c(2)] assms unfolding byte_ok_def by blast
qed

theorem user_mem_check_exact_witness:
  "(\<exists>s'. user_mem_check (Some 0) 0x10001ff0 0x10 True demo_space = Some (True, s')) \<and>
   (\<exists>s'. user_mem_check (Some 0) 0x10001ff0 0x11 True demo_space = Some (False, s'))"
proof -
  have a: "USER_ACCESS 0x10001ff0 0x10002000" by (simp add: USER_ACCESS_def USERBASE_def USERTOP_def)
  have "\<forall>a. (0x10001ff0 :: u32) \<le> a \<and> a < 0x10002000 \<longrightarrow> byte_ok demo_space 0 True a"
    unfolding demo_byte by (auto elim: order.trans [rotated])
  moreover have "\<not> (\<forall>a. (0x10001ff0 :: u32) \<le> a \<and> a < 0x10002001 \<longrightarrow> byte_ok demo_space 0 True a)"
    unfolding demo_byte by (auto intro!: exI [of _ "0x10002000"])
  ultimately show ?thesis
    using user_mem_check_exact [OF demo_space_ok(1), of "0x10001ff0" "0x10" True]
      user_mem_check_exact [OF demo_space_ok(1), of "0x10001ff0" "0x11" True] a
    unfolding byte_ok_def [symmetric] by auto
qed


text \<open>
  C15. \<^verbatim>\<open>copy_string\<close> into a kernel buffer of \<open>maxn > 0\<close> bytes that neither wraps around nor overlaps the
  \<open>maxn\<close> bytes at the user's pointer always returns after finitely many page-sized pieces.  It writes only inside
  the \<open>maxn\<close> bytes at \<open>dst\<close>, and what it answers and writes depends on no byte that the process may
  not read: on two memories that agree on the bytes of its readable areas it does the same.  If it
  answers true, the user's string, terminator included, was shorter than \<open>maxn\<close>, lay wholly in
  readable areas, and is the string now at \<open>dst\<close>; and it does answer true whenever the whole
  buffer is readable and holds a string.
\<close>

theorem copy_string_safe:
  assumes "mm_ok s m" "maxn \<noteq> 0" "unat dst + unat maxn \<le> 2 ^ 32"
    "unat dst + unat maxn \<le> unat src \<or> unat src + unat maxn \<le> unat dst"
  shows "\<exists>ok b' s'. copy_string (Some m) dst src maxn b s = Some (ok, b', s') \<and> mm_ok s' m \<and>
    areas s' m = areas s m \<and> vmas s' = vmas s \<and> pgs s' = pgs s \<and>
    (\<forall>x. x < unat dst \<or> unat dst + unat maxn \<le> x \<longrightarrow> b' x = b x) \<and>
    (ok \<longrightarrow> (\<exists>cs. length cs < unat maxn \<and> cstr b (unat src) cs \<and> cstr b' (unat dst) cs \<and>
       user_buffer src (length cs + 1) \<and> readable s m (unat src) (length cs + 1))) \<and>
    (user_buffer src (unat maxn) \<and> readable s m (unat src) (unat maxn) \<and>
       (\<exists>cs. length cs < unat maxn \<and> cstr b (unat src) cs) \<longrightarrow> ok) \<and>
    (\<forall>c. (\<forall>x. user_byte s m x \<longrightarrow> c x = b x) \<longrightarrow>
       (\<exists>c'. copy_string (Some m) dst src maxn c s = Some (ok, c', s') \<and> (\<forall>x. c' x = b' x \<or> c' x = c x \<and> b' x = b x)))"
proof -
  obtain ok b' s' where c: "copy_string (Some m) dst src maxn b s = Some (ok, b', s')" "cache_only m s s'"
    "\<forall>x. x < unat dst \<or> unat dst + unat maxn \<le> x \<longrightarrow> b' x = b x"
    "ok \<longrightarrow> (\<exists>k. string_within b (unat src) (unat maxn) k \<and> user_buffer src (k + 1) \<and>
        readable s m (unat src) (k + 1) \<and> (\<forall>i\<le>k. b' (unat dst + i) = b (unat src + i)))"
    "\<not> ok \<longrightarrow> \<not> (user_buffer src (unat maxn) \<and> readable s m (unat src) (unat maxn) \<and>
        (\<exists>k. string_within b (unat src) (unat maxn) k))"
    using copy_parts_ok [OF assms(1,2) first_part [of src] assms(3,4), where b = b, folded copy_string_def]
    by (elim exE conjE) (rule that)
  have str: "string_within b S n k \<longleftrightarrow> k < n \<and> cstr b S (bytes b S k)" for S n k
    by (auto simp: string_within_def cstr_bytes in_set_conv_nth)
  have "\<exists>cs. length cs < unat maxn \<and> cstr b (unat src) cs \<and> cstr b' (unat dst) cs \<and>
       user_buffer src (length cs + 1) \<and> readable s m (unat src) (length cs + 1)" if o: ok
  proof -
    obtain k where k: "string_within b (unat src) (unat maxn) k" "user_buffer src (k + 1)"
      "readable s m (unat src) (k + 1)" "\<forall>i\<le>k. b' (unat dst + i) = b (unat src + i)" using c(4) o by blast
    have cs: "cstr b (unat src) (bytes b (unat src) k)" using k(1) unfolding str by blast
    have "cstr b' (unat dst) (bytes b (unat src) k)" by (rule cstr_cong [OF cs]) (use k(4) in simp)
    then show ?thesis using k(1-3) cs unfolding str by (intro exI [of _ "bytes b (unat src) k"]) simp
  qed
  moreover have "\<exists>k. string_within b (unat src) (unat maxn) k"
    if "\<exists>cs. length cs < unat maxn \<and> cstr b (unat src) cs"
    using that unfolding str by (metis cstr_bytes)
  moreover have "\<exists>c'. copy_string (Some m) dst src maxn e s = Some (ok, c', s') \<and> (\<forall>x. c' x = b' x \<or> c' x = e x \<and> b' x = b x)"
    if "\<forall>x. user_byte s m x \<longrightarrow> e x = b x" for e
    using copy_parts_local [OF assms(1,2) first_part [of src] assms(3,4) that] c(1) unfolding copy_string_def by blast
  ultimately show ?thesis
    using c(1,3,5) cache_onlyD(1-3,6) [OF c(2)] assms(1) by blast
qed

text \<open>A string that crosses a page boundary.\<close>

definition demo_bytes :: mem where
  "demo_bytes = (\<lambda>_. 0)(0x10000ffe := 97, 0x10000fff := 98, 0x10001000 := 99)"

theorem copy_string_safe_witness:
  "\<exists>b' s'. copy_string (Some 0) 0xbc001000 0x10000ffe 100 demo_bytes demo_space = Some (True, b', s') \<and>
     cstr b' 0xbc001000 [97, 98, 99]"
proof -
  let ?b = demo_bytes
  have st: "cstr ?b 0x10000ffe [97, 98, 99]" by (simp add: demo_bytes_def)
  have ub: "user_buffer 0x10000ffe 100" by (simp add: user_buffer_def USERBASE_def USERTOP_def)
  have rd: "readable demo_space 0 0x10000ffe 100"
    unfolding readable_def demo_byte by (auto simp: word_le_nat_alt word_less_nat_alt)
  obtain ok b' s' where c: "copy_string (Some 0) 0xbc001000 0x10000ffe 100 ?b demo_space = Some (ok, b', s')"
    "ok \<longrightarrow> (\<exists>cs. length cs < 100 \<and> cstr ?b 0x10000ffe cs \<and> cstr b' 0xbc001000 cs)"
    "user_buffer 0x10000ffe 100 \<and> readable demo_space 0 0x10000ffe 100 \<and>
       (\<exists>cs. length cs < 100 \<and> cstr ?b 0x10000ffe cs) \<longrightarrow> ok"
    using copy_string_safe [OF demo_space_ok(1), of 100 "0xbc001000" "0x10000ffe" ?b] by auto
  have ok using c(3) ub rd st by (intro mp [OF c(3)] conjI exI [of _ "[97, 98, 99]"]) simp_all
  then obtain cs where "cstr ?b 0x10000ffe cs" "cstr b' 0xbc001000 cs" using c(2) by blast
  moreover have "cs = [97, 98, 99]"
    using calculation(1) strlen_cstr [OF calculation(1)] strlen_cstr [OF st] st cstr_bytes by (metis option.inject)
  ultimately show ?thesis using c(1) \<open>ok\<close> by auto
qed

text \<open>
  C14. \<^verbatim>\<open>do_pgfault\<close>, in a well-formed address space.  A fault that no area allows - none covers the
  address, or its flags forbid the access - is \<open>E_INVAL\<close> and leaves the page tables alone.  A fault that an area
  allows is answered 0 without any change when the page already has an entry, whatever its rights; otherwise it
  takes exactly one free frame, which the page is then mapped to with the permissions of the area, and one more
  for the table when there is none, and no other page's translation changes; or, when there are not enough
  free frames for that, it is \<open>E_NO_MEM\<close> and no translation changes (a last free frame may have become the table).
  The invariants of the areas and of the address space are kept throughout.
\<close>

theorem do_pgfault_exact:
  assumes "mm_ok s m" "pgdir (mms s m) = Some pd" "space_ok (pgs s) pd" "free_unref (pgs s)"
  shows "\<exists>r s'. do_pgfault (Some m) ec addr s = Some (r, s') \<and> mm_ok s' m \<and> areas s' m = areas s m \<and>
    vmas s' = vmas s \<and> space_ok (pgs s') pd \<and> free_unref (pgs s') \<and>
    (case find (fault_legal s m ec addr) (areas s m) of
       None \<Rightarrow> r = fail_code E_INVAL \<and> pgs s' = pgs s
     | Some v \<Rightarrow>
        (let F = free_set (phys (pgs s)); F' = free_set (phys (pgs s')); table = live (frames (pgs s) pd (PDX addr)) in
         if r = 0 then
           (if pte_of (pgs s) pd addr \<noteq> 0 then pgs s' = pgs s
            else (\<forall>lb. page_no lb \<noteq> page_no addr \<longrightarrow> pte_of (pgs s') pd lb = pte_of (pgs s) pd lb) \<and>
              (\<exists>p\<in>F. pte_of (pgs s') pd addr = page2pa p OR PTE_P OR fault_perm (vm_flags (vmas s v)) \<and>
                 (if table then F' = F - {p} else \<exists>t\<in>F. t \<noteq> p \<and> F' = F - {t, p})))
         else r = fail_code E_NO_MEM \<and> pte_of (pgs s) pd addr = 0 \<and>
           (\<forall>lb. pte_of (pgs s') pd lb = pte_of (pgs s) pd lb) \<and>
           (F = {} \<and> pgs s' = pgs s \<or> \<not> table \<and> (\<exists>t. F = {t}) \<and> F' = {})))"
  using do_pgfault_ok [OF assms, of ec addr] unfolding fault_done_def .

theorem do_pgfault_exact_witness:
  "(\<exists>p s'. do_pgfault (Some 0) 2 0x10001234 demo_space = Some (0, s') \<and> p < 4096 \<and>
      pte_of (pgs s') 0 0x10001234 = page2pa p OR PTE_P OR (PTE_U OR PTE_W)) \<and>
   (\<exists>s'. do_pgfault (Some 0) 2 0x20000000 demo_space = Some (fail_code E_INVAL, s') \<and> pgs s' = demo_vmem)"
proof -
  have sp: "space_ok (pgs demo_space) 0" "free_unref (pgs demo_space)"
    using demo_vmem_ok(1) demo_space_ok(4,5) by simp_all
  have l: "fault_legal demo_space 0 2 0x10001234 1" "\<not> fault_legal demo_space 0 2 0x20000000 1"
    by (simp_all add: fault_legal_def demo_covers demo_flags demo_space_ok fault_access_def VM_WRITE_def)
  have perm: "fault_perm (vm_flags (vmas demo_space 1)) = PTE_U OR PTE_W"
    by (simp add: fault_perm_def demo_flags VM_WRITE_def)
  have many: "\<not> free_set (phys demo_vmem) \<subseteq> {p}" for p
  proof
    assume "free_set (phys demo_vmem) \<subseteq> {p}"
    moreover have "3 \<in> free_set (phys demo_vmem)" "4 \<in> free_set (phys demo_vmem)"
      unfolding demo_vmem_phys(1) by simp_all
    ultimately have "3 = p" "4 = p" by blast+
    then show False by simp
  qed
  have z: "pte_of demo_vmem 0 0x10001234 = 0" by (simp add: pte_of_def slot_def demo_vmem_def)
  note t = do_pgfault_exact [OF demo_space_ok(1,3) sp, unfolded demo_space_ok(4,6)]
  have f1: "find (fault_legal demo_space 0 2 0x10001234) [1] = Some 1"
    and f2: "find (fault_legal demo_space 0 2 0x20000000) [1] = None" using l by simp_all
  obtain r s' where r: "do_pgfault (Some 0) 2 0x10001234 demo_space = Some (r, s')"
    and c: "fault_done 0 0x10001234 (PTE_U OR PTE_W) demo_vmem r (pgs s')"
    using t [of 2 "0x10001234"] unfolding f1 option.case perm fault_done_def by blast
  have f: "if r = 0 then
        \<exists>p\<in>free_set (phys demo_vmem). pte_of (pgs s') 0 0x10001234 = page2pa p OR PTE_P OR (PTE_U OR PTE_W)
      else \<exists>p. free_set (phys demo_vmem) \<subseteq> {p}"
    using c z unfolding fault_done_def Let_def by (cases "r = 0") auto
  obtain s'' where s'': "do_pgfault (Some 0) 2 0x20000000 demo_space = Some (fail_code E_INVAL, s'')"
    "pgs s'' = demo_vmem"
    using t [of 2 "0x20000000"] unfolding f2 option.case by blast
  have "r = 0" using f many by (cases "r = 0") auto
  then show ?thesis using r f s'' demo_vmem_phys(1) by auto
qed

end
