(* ===== verification/Iobuf.thy ===== *)
theory Iobuf
  imports String_Lib
begin

text \<open>
  The I/O buffers of \<^verbatim>\<open>kern/fs/iobuf.c\<close>, which carry a transfer between the file layer and a file
  system: where in memory, at which file offset, how much of it, how much is left.
\<close>

record iobuf =
  io_base :: u32
  io_offset :: u32
  io_len :: u32
  io_resid :: u32

definition iobuf_init :: "u32 \<Rightarrow> u32 \<Rightarrow> u32 \<Rightarrow> iobuf" where
  "iobuf_init base len offset = \<lparr>io_base = base, io_offset = offset, io_len = len, io_resid = len\<rparr>"

definition iobuf_used :: "iobuf \<Rightarrow> u32" where
  "iobuf_used iob = io_len iob - io_resid iob"

definition iobuf_skip :: "u32 \<Rightarrow> iobuf \<Rightarrow> iobuf option" where
  "iobuf_skip n iob = do {
     kassert (n \<le> io_resid iob);
     Some (iob\<lparr>io_base := io_base iob + n, io_offset := io_offset iob + n, io_resid := io_resid iob - n\<rparr>)
   }"

text \<open>The result is the error code, \<^verbatim>\<open>*copiedp\<close>, the memory and the buffer.\<close>

definition iobuf_move :: "u32 \<Rightarrow> u32 \<Rightarrow> bool \<Rightarrow> mem \<Rightarrow> iobuf \<Rightarrow> (int \<times> u32 \<times> mem \<times> iobuf) option" where
  "iobuf_move data len m2b m iob =
     (let alen = (if io_resid iob > len then len else io_resid iob) in do {
        (m, iob, rest) \<leftarrow> (if alen > 0 then do {
            let (src, dst) = (if m2b then (data, io_base iob) else (io_base iob, data));
            let m = memmove m (unat dst) (unat src) (unat alen);
            iob \<leftarrow> iobuf_skip alen iob;
            Some (m, iob, len - alen)
          } else Some (m, iob, len));
        Some (if rest = 0 then 0 else fail_code E_NO_MEM, alen, m, iob)
      })"

definition iobuf_move_zeros :: "u32 \<Rightarrow> mem \<Rightarrow> iobuf \<Rightarrow> (int \<times> u32 \<times> mem \<times> iobuf) option" where
  "iobuf_move_zeros len m iob =
     (let alen = (if io_resid iob > len then len else io_resid iob) in do {
        (m, iob, rest) \<leftarrow> (if alen > 0 then do {
            let m = memset m (unat (io_base iob)) 0 (unat alen);
            iob \<leftarrow> iobuf_skip alen iob;
            Some (m, iob, len - alen)
          } else Some (m, iob, len));
        Some (if rest = 0 then 0 else fail_code E_NO_MEM, alen, m, iob)
      })"

text \<open>What is left never exceeds the whole, so \<open>iobuf_used\<close> is what the transfers moved.\<close>

definition iobuf_ok :: "iobuf \<Rightarrow> bool" where
  "iobuf_ok iob \<longleftrightarrow> io_resid iob \<le> io_len iob"

lemma iobuf_init_ok: "iobuf_ok (iobuf_init base len offset)" "iobuf_used (iobuf_init base len offset) = 0"
  by (simp_all add: iobuf_ok_def iobuf_init_def iobuf_used_def)

lemma iobuf_skip_ok:
  assumes "iobuf_ok iob" "n \<le> io_resid iob"
  shows "\<exists>iob'. iobuf_skip n iob = Some iob' \<and> iobuf_ok iob' \<and> iobuf_used iob' = iobuf_used iob + n \<and>
    io_base iob' = io_base iob + n \<and> io_offset iob' = io_offset iob + n \<and> io_len iob' = io_len iob \<and>
    io_resid iob' = io_resid iob - n"
proof -
  have "io_resid iob - n \<le> io_resid iob" using assms(2) by (simp add: word_le_nat_alt unat_sub)
  then have "io_resid iob - n \<le> io_len iob" using assms(1) unfolding iobuf_ok_def by (rule order.trans)
  then show ?thesis using assms(2) by (simp add: iobuf_skip_def iobuf_ok_def iobuf_used_def)
qed

lemma iobuf_move_ok:
  assumes "iobuf_ok iob" "alen = min (io_resid iob) len"
  shows "\<exists>iob'. iobuf_move data len m2b m iob = Some (if len \<le> io_resid iob then 0 else fail_code E_NO_MEM, alen,
      memmove m (unat (if m2b then io_base iob else data)) (unat (if m2b then data else io_base iob)) (unat alen), iob') \<and>
    iobuf_ok iob' \<and> iobuf_used iob' = iobuf_used iob + alen \<and> io_base iob' = io_base iob + alen \<and>
    io_offset iob' = io_offset iob + alen \<and> io_resid iob' = io_resid iob - alen \<and> io_len iob' = io_len iob"
proof -
  have a: "(if io_resid iob > len then len else io_resid iob) = alen" using assms(2) by (auto simp: min_def)
  have le: "alen \<le> io_resid iob" using assms(2) by simp
  have z: "len - alen = 0 \<longleftrightarrow> len \<le> io_resid iob" using assms(2) by (auto simp: min_def)
  show ?thesis
  proof (cases "alen = 0")
    case True
    then have "memmove m d s (unat alen) = m" for d s by (simp add: memmove_def)
    then show ?thesis using True assms(1) z by (simp add: iobuf_move_def Let_def a)
  next
    case False
    then have "alen > 0" by (simp add: word_greater_zero_iff)
    then show ?thesis using iobuf_skip_ok [OF assms(1) le] z
      by (cases m2b) (auto simp: iobuf_move_def Let_def a)
  qed
qed

end
