(* ===== verification/Inode.thy ===== *)
theory Inode
  imports Iobuf
begin

text \<open>
  Inodes above the file systems: the reference and open counts of \<^verbatim>\<open>kern/fs/vfs/inode.c\<close> and the
  opening and closing of files, \<^verbatim>\<open>kern/fs/vfs/vfsfile.c\<close>.  What lies behind \<^verbatim>\<open>node->in_ops\<close> - devices
  and SFS, with their memory - is the state \<open>fsdata\<close>, of any type; the table of operations is a
  record of functions on it, called with the node as its first argument as the source does.
\<close>

record inode =
  ref_count :: int
  iopen_count :: int

record stat =
  st_mode :: u32
  st_nlinks :: u32
  st_blocks :: u32
  st_size :: u32

record 'd vfs =
  inodes :: "nat \<Rightarrow> inode"
  fsdata :: 'd

text \<open>
  \<^verbatim>\<open>struct inode_ops\<close>, and the path look-ups of \<^verbatim>\<open>vfslookup.c\<close>.  An operation that panics is \<open>None\<close>;
  otherwise it yields its error code, what it stores through its pointers, and the new state.
  \<^verbatim>\<open>vfs_lookup\<close> may cut the path it is given, so it also yields what is left in the caller's buffer.
\<close>

record 'd inode_ops =
  vop_open :: "nat \<Rightarrow> u32 \<Rightarrow> 'd vfs \<Rightarrow> (int \<times> 'd vfs) option"
  vop_close :: "nat \<Rightarrow> 'd vfs \<Rightarrow> (int \<times> 'd vfs) option"
  vop_read :: "nat \<Rightarrow> iobuf \<Rightarrow> 'd vfs \<Rightarrow> (int \<times> iobuf \<times> 'd vfs) option"
  vop_write :: "nat \<Rightarrow> iobuf \<Rightarrow> 'd vfs \<Rightarrow> (int \<times> iobuf \<times> 'd vfs) option"
  vop_fstat :: "nat \<Rightarrow> 'd vfs \<Rightarrow> (int \<times> stat \<times> 'd vfs) option"
  vop_fsync :: "nat \<Rightarrow> 'd vfs \<Rightarrow> (int \<times> 'd vfs) option"
  vop_getdirentry :: "nat \<Rightarrow> iobuf \<Rightarrow> 'd vfs \<Rightarrow> (int \<times> iobuf \<times> 'd vfs) option"
  vop_reclaim :: "nat \<Rightarrow> 'd vfs \<Rightarrow> (int \<times> 'd vfs) option"
  vop_tryseek :: "nat \<Rightarrow> u32 \<Rightarrow> 'd vfs \<Rightarrow> (int \<times> 'd vfs) option"
  vop_truncate :: "nat \<Rightarrow> u32 \<Rightarrow> 'd vfs \<Rightarrow> (int \<times> 'd vfs) option"
  vop_create :: "nat \<Rightarrow> string \<Rightarrow> bool \<Rightarrow> 'd vfs \<Rightarrow> (int \<times> nat option \<times> 'd vfs) option"
  vfs_lookup :: "string \<Rightarrow> 'd vfs \<Rightarrow> (int \<times> nat option \<times> string \<times> 'd vfs) option"
  vfs_lookup_parent :: "string \<Rightarrow> 'd vfs \<Rightarrow> (int \<times> nat option \<times> string \<times> 'd vfs) option"

definition MAX_INODE_COUNT :: int where "MAX_INODE_COUNT = 0x10000"

definition mod_inode :: "nat \<Rightarrow> (inode \<Rightarrow> inode) \<Rightarrow> 'd vfs \<Rightarrow> 'd vfs" where
  "mod_inode n f v = v\<lparr>inodes := (inodes v)(n := f (inodes v n))\<rparr>"

definition inode_init :: "nat \<Rightarrow> 'd vfs \<Rightarrow> 'd vfs" where
  "inode_init n v = mod_inode n (\<lambda>d. d\<lparr>ref_count := ref_count d + 1\<rparr>)
     (mod_inode n (\<lambda>d. d\<lparr>ref_count := 0, iopen_count := 0\<rparr>) v)"

definition inode_kill :: "nat \<Rightarrow> 'd vfs \<Rightarrow> unit option" where
  "inode_kill n v = do { kassert (ref_count (inodes v n) = 0); kassert (iopen_count (inodes v n) = 0) }"

text \<open>The test before every operation, and the calls that carry it.\<close>

definition inode_check :: "nat \<Rightarrow> 'd vfs \<Rightarrow> bool" where
  "inode_check n v \<longleftrightarrow> iopen_count (inodes v n) \<le> ref_count (inodes v n) \<and> 0 \<le> iopen_count (inodes v n) \<and>
     ref_count (inodes v n) < MAX_INODE_COUNT \<and> iopen_count (inodes v n) < MAX_INODE_COUNT"

definition vop :: "nat \<Rightarrow> ('d vfs \<Rightarrow> 'a option) \<Rightarrow> 'd vfs \<Rightarrow> 'a option" where
  "vop n f v = do { kassert (inode_check n v); f v }"

definition inode_ref_inc :: "nat \<Rightarrow> 'd vfs \<Rightarrow> int \<times> 'd vfs" where
  "inode_ref_inc n v = (ref_count (inodes v n) + 1, mod_inode n (\<lambda>d. d\<lparr>ref_count := ref_count d + 1\<rparr>) v)"

definition inode_ref_dec :: "'d inode_ops \<Rightarrow> nat \<Rightarrow> 'd vfs \<Rightarrow> (int \<times> 'd vfs) option" where
  "inode_ref_dec ops n v = do {
     kassert (ref_count (inodes v n) > 0);
     let c = ref_count (inodes v n) - 1;
     let v = mod_inode n (\<lambda>d. d\<lparr>ref_count := ref_count d - 1\<rparr>) v;
     v \<leftarrow> (if c = 0 then do { (_, v) \<leftarrow> vop n (vop_reclaim ops n) v; Some v } else Some v);
     Some (c, v)
   }"

definition inode_open_inc :: "nat \<Rightarrow> 'd vfs \<Rightarrow> int \<times> 'd vfs" where
  "inode_open_inc n v = (iopen_count (inodes v n) + 1, mod_inode n (\<lambda>d. d\<lparr>iopen_count := iopen_count d + 1\<rparr>) v)"

definition inode_open_dec :: "'d inode_ops \<Rightarrow> nat \<Rightarrow> 'd vfs \<Rightarrow> (int \<times> 'd vfs) option" where
  "inode_open_dec ops n v = do {
     kassert (iopen_count (inodes v n) > 0);
     let c = iopen_count (inodes v n) - 1;
     let v = mod_inode n (\<lambda>d. d\<lparr>iopen_count := iopen_count d - 1\<rparr>) v;
     v \<leftarrow> (if c = 0 then do { (_, v) \<leftarrow> vop n (vop_close ops n) v; Some v } else Some v);
     Some (c, v)
   }"

definition O_ACCMODE :: u32 where "O_ACCMODE = 3"
definition O_CREAT :: u32 where "O_CREAT = 4"
definition O_EXCL :: u32 where "O_EXCL = 8"
definition O_TRUNC :: u32 where "O_TRUNC = 16"
definition O_APPEND :: u32 where "O_APPEND = 32"

definition vfs_close :: "'d inode_ops \<Rightarrow> nat \<Rightarrow> 'd vfs \<Rightarrow> (int \<times> 'd vfs) option" where
  "vfs_close ops n v = do {
     (_, v) \<leftarrow> inode_open_dec ops n v;
     (_, v) \<leftarrow> inode_ref_dec ops n v;
     Some (0, v)
   }"

text \<open>The node that a path names, created if need be.\<close>

definition vfs_find_node ::
  "'d inode_ops \<Rightarrow> string \<Rightarrow> bool \<Rightarrow> bool \<Rightarrow> 'd vfs \<Rightarrow> (int \<times> nat option \<times> 'd vfs) option" where
  "vfs_find_node ops path excl create v = do {
     (ret, n, path, v) \<leftarrow> vfs_lookup ops path v;
     if ret \<noteq> 0 then
       (if ret = -16 \<and> create then do {
          (ret, dir, name, v) \<leftarrow> vfs_lookup_parent ops path v;
          if ret \<noteq> 0 then Some (ret, None, v)
          else do {
            d \<leftarrow> dir;
            (ret, n, v) \<leftarrow> vop d (vop_create ops d name excl) v;
            Some (0, n, v)
          }
        } else Some (ret, None, v))
     else if excl \<and> create then Some (fail_code E_EXISTS, None, v)
     else Some (0, n, v)
   }"

definition vfs_open :: "'d inode_ops \<Rightarrow> string \<Rightarrow> u32 \<Rightarrow> 'd vfs \<Rightarrow> (int \<times> nat option \<times> 'd vfs) option" where
  "vfs_open ops path fl v =
     (let acc = fl AND O_ACCMODE; can_write = (acc = 1 \<or> acc = 2) in
      if acc \<noteq> 0 \<and> acc \<noteq> 1 \<and> acc \<noteq> 2 then Some (fail_code E_INVAL, None, v)
      else if fl AND O_TRUNC \<noteq> 0 \<and> \<not> can_write then Some (fail_code E_INVAL, None, v)
      else do {
        let excl = (fl AND O_EXCL \<noteq> 0);
        let create = (fl AND O_CREAT \<noteq> 0);
        (ret, n, v) \<leftarrow> vfs_find_node ops path excl create v;
        if ret \<noteq> 0 then Some (ret, None, v)
        else do {
          n \<leftarrow> n;
          (ret, v) \<leftarrow> vop n (vop_open ops n fl) v;
          if ret \<noteq> 0 then do { (_, v) \<leftarrow> inode_ref_dec ops n v; Some (ret, None, v) }
          else do {
            let (_, v) = inode_open_inc n v;
            (ret, v) \<leftarrow> (if fl AND O_TRUNC \<noteq> 0 \<or> create then vop n (vop_truncate ops n 0) v else Some (0, v));
            if ret \<noteq> 0 then do {
              (_, v) \<leftarrow> inode_open_dec ops n v;
              (_, v) \<leftarrow> inode_ref_dec ops n v;
              Some (ret, None, v)
            } else Some (0, Some n, v)
          }
        }
      })"

section \<open>Closing gives back what opening took\<close>

lemma mod_inode_simps [simp]:
  "inodes (mod_inode n f v) m = (if m = n then f (inodes v n) else inodes v m)"
  "fsdata (mod_inode n f v) = fsdata v"
  by (simp_all add: mod_inode_def)

text \<open>Uses of a node by open files: each counts as one reference and one opening.\<close>

definition shift :: "int \<Rightarrow> inode \<Rightarrow> inode" where
  "shift k d = d\<lparr>iopen_count := iopen_count d + k, ref_count := ref_count d + k\<rparr>"

lemma shift_simps [simp]:
  "iopen_count (shift k d) = iopen_count d + k" "ref_count (shift k d) = ref_count d + k"
  "shift k (shift l d) = shift (k + l) d" "shift 0 d = d"
  by (simp_all add: shift_def add.assoc add.commute)

text \<open>
  Closing a node takes back one opening and one reference and leaves the counts of the others alone,
  whatever the operations of the file system are called for: \<^verbatim>\<open>vop_close\<close> with the last opening,
  \<^verbatim>\<open>vop_reclaim\<close> with the last reference.
\<close>

definition can_close :: "'d inode_ops \<Rightarrow> nat \<Rightarrow> 'd vfs \<Rightarrow> bool" where
  "can_close ops n v \<longleftrightarrow>
     (\<exists>v'. vfs_close ops n v = Some (0, v') \<and> inodes v' = (inodes v)(n := shift (-1) (inodes v n)))"

lemma mod_inode_upd: "inodes (mod_inode n f v) = (inodes v)(n := f (inodes v n))"
  by (simp add: mod_inode_def)

lemma inode_open_dec_ok:
  assumes "inode_check n v" "0 < iopen_count (inodes v n)"
    and v1: "v1 = mod_inode n (\<lambda>d. d\<lparr>iopen_count := iopen_count d - 1\<rparr>) v"
    and c: "if iopen_count (inodes v n) = 1 then vop_close ops n v1 = Some (r, v2) else v2 = v1"
  shows "inode_open_dec ops n v = Some (iopen_count (inodes v n) - 1, v2)"
proof -
  have "inode_check n v1" using assms(1,2) by (simp add: inode_check_def v1)
  then show ?thesis using assms(2) c by (auto simp: inode_open_dec_def vop_def Let_def v1 split: if_splits)
qed

lemma inode_ref_dec_ok:
  assumes "inode_check n v" "iopen_count (inodes v n) < ref_count (inodes v n)"
    and v1: "v1 = mod_inode n (\<lambda>d. d\<lparr>ref_count := ref_count d - 1\<rparr>) v"
    and c: "if ref_count (inodes v n) = 1 then vop_reclaim ops n v1 = Some (r, v2) else v2 = v1"
  shows "inode_ref_dec ops n v = Some (ref_count (inodes v n) - 1, v2)"
proof -
  have "inode_check n v1" "0 < ref_count (inodes v n)" using assms(1,2) by (simp_all add: inode_check_def v1)
  then show ?thesis using c by (auto simp: inode_ref_dec_def vop_def Let_def v1 split: if_splits)
qed

text \<open>The two calls one after the other.\<close>

lemma vfs_close_steps:
  assumes n: "inode_check n v" "0 < iopen_count (inodes v n)"
    and c: "let v1 = mod_inode n (\<lambda>d. d\<lparr>iopen_count := iopen_count d - 1\<rparr>) v in
      if iopen_count (inodes v n) = 1 then vop_close ops n v1 = Some (r, v2) \<and> inodes v2 = inodes v1 else v2 = v1"
    and d: "let v3 = mod_inode n (\<lambda>d. d\<lparr>ref_count := ref_count d - 1\<rparr>) v2 in
      if ref_count (inodes v n) = 1 then vop_reclaim ops n v3 = Some (r', v4) \<and> inodes v4 = inodes v3 else v4 = v3"
  shows "vfs_close ops n v = Some (0, v4) \<and> inodes v4 = (inodes v)(n := shift (-1) (inodes v n))"
proof -
  let ?v1 = "mod_inode n (\<lambda>d. d\<lparr>iopen_count := iopen_count d - 1\<rparr>) v"
  let ?v3 = "mod_inode n (\<lambda>d. d\<lparr>ref_count := ref_count d - 1\<rparr>) v2"
  have i2: "inodes v2 = inodes ?v1" using c by (auto simp: Let_def split: if_splits)
  have i4: "inodes v4 = inodes ?v3" using d by (auto simp: Let_def split: if_splits)
  have o: "inode_open_dec ops n v = Some (iopen_count (inodes v n) - 1, v2)"
    using inode_open_dec_ok [OF n refl, of ops r v2] c by (simp add: Let_def split: if_splits)
  have k: "inode_check n v2" "iopen_count (inodes v2 n) < ref_count (inodes v2 n)" "ref_count (inodes v2 n) = ref_count (inodes v n)"
    using n by (simp_all add: inode_check_def i2)
  have "inode_ref_dec ops n v2 = Some (ref_count (inodes v n) - 1, v4)"
    using inode_ref_dec_ok [OF k(1,2) refl, of ops r' v4] d by (simp add: Let_def k(3) split: if_splits)
  then show ?thesis using o i2 i4 by (simp add: vfs_close_def mod_inode_upd shift_def)
qed

text \<open>While others have the node open no operation of the file system is called.\<close>

lemma can_close_shared:
  assumes "inode_check n v" "1 < iopen_count (inodes v n)"
  shows "can_close ops n v"
  unfolding can_close_def
  by (rule exI, rule vfs_close_steps [OF assms(1), where ?v2.0 = "mod_inode n (\<lambda>d. d\<lparr>iopen_count := iopen_count d - 1\<rparr>) v"])
    (use assms in \<open>auto simp: Let_def inode_check_def\<close>)

end
