(* ===== verification/File_Table.thy ===== *)
theory File_Table
  imports Inode "HOL-Library.Multiset"
begin

text \<open>
  The tables of open files (\<^verbatim>\<open>kern/fs/file.c\<close>, \<^verbatim>\<open>file.h\<close>) and the per-process structures that hold
  them (\<^verbatim>\<open>kern/fs/fs.c\<close>, \<^verbatim>\<open>fs.h\<close>).  A \<^verbatim>\<open>struct file\<close> (\<open>openfile\<close>) is named by its structure and its index;
  \<open>live_fs\<close> are the structures allocated and not freed, and the answer of \<^verbatim>\<open>kmalloc\<close> is an argument
  of \<open>fs_create\<close>.  Each transfer is split where the file system works, so that other processes may
  use the table in between, as they can while it sleeps: \<open>file_begin\<close> is \<^verbatim>\<open>fd2file\<close> with
  \<^verbatim>\<open>filemap_acquire\<close>, \<open>file_rw_end\<close> the rest.  The semaphore \<^verbatim>\<open>fs_sem\<close> is \<^verbatim>\<open>Semaphore\<close>'s.
\<close>

datatype fd_status = FD_NONE | FD_INIT | FD_OPENED | FD_CLOSED

record openfile =
  fstatus :: fd_status
  freadable :: bool
  fwritable :: bool
  ffd :: int
  fpos :: u32
  fnode :: "nat option"
  fopen_count :: int

record fs_struct =
  pwd :: "nat option"
  filemap :: "nat \<Rightarrow> openfile"
  fs_count :: int

record 'd fs_state =
  vfs :: "'d vfs"
  fss :: "nat \<Rightarrow> fs_struct"
  live_fs :: "nat set"
  cur_fs :: "nat option"

text \<open>\<^verbatim>\<open>(PGSIZE - sizeof(struct fs_struct)) / sizeof(struct file)\<close>\<close>

definition NENTRY :: nat where "NENTRY = (4096 - 24) div 28"
definition NO_FD :: int where "NO_FD = -0x9527"

lemma NENTRY: "NENTRY = 145" by (simp add: NENTRY_def)

definition mod_fs :: "nat \<Rightarrow> (fs_struct \<Rightarrow> fs_struct) \<Rightarrow> 'd fs_state \<Rightarrow> 'd fs_state" where
  "mod_fs f g s = s\<lparr>fss := (fss s)(f := g (fss s f))\<rparr>"

definition file_of :: "'d fs_state \<Rightarrow> nat \<Rightarrow> nat \<Rightarrow> openfile" where
  "file_of s f i = filemap (fss s f) i"

definition mod_file :: "nat \<Rightarrow> nat \<Rightarrow> (openfile \<Rightarrow> openfile) \<Rightarrow> 'd fs_state \<Rightarrow> 'd fs_state" where
  "mod_file f i g s = mod_fs f (\<lambda>d. d\<lparr>filemap := (filemap d)(i := g (filemap d i))\<rparr>) s"

section \<open>File table entries\<close>

definition get_filemap :: "'d fs_state \<Rightarrow> nat option" where
  "get_filemap s = do { f \<leftarrow> cur_fs s; kassert (fs_count (fss s f) > 0); Some f }"

fun filemap_init_from :: "nat \<Rightarrow> nat \<Rightarrow> (nat \<Rightarrow> openfile) \<Rightarrow> (nat \<Rightarrow> openfile)" where
  "filemap_init_from i 0 m = m"
| "filemap_init_from i (Suc n) m =
     filemap_init_from (Suc i) n (m(i := (m i)\<lparr>fopen_count := 0, fstatus := FD_NONE, ffd := int i\<rparr>))"

definition filemap_init :: "(nat \<Rightarrow> openfile) \<Rightarrow> (nat \<Rightarrow> openfile)" where
  "filemap_init m = filemap_init_from 0 NENTRY m"

definition testfd :: "int \<Rightarrow> bool" where
  "testfd n \<longleftrightarrow> 0 \<le> n \<and> n < int NENTRY"

definition filemap_alloc :: "int \<Rightarrow> 'd fs_state \<Rightarrow> (int \<times> (nat \<times> nat) option \<times> 'd fs_state) option" where
  "filemap_alloc n s = do {
     f \<leftarrow> get_filemap s;
     let r = (if n = NO_FD then
          (case find (\<lambda>i. fstatus (file_of s f i) = FD_NONE) [0..<NENTRY] of
             Some i \<Rightarrow> Inr i | None \<Rightarrow> Inl (fail_code E_MAX_OPEN))
        else if testfd n then
          (if fstatus (file_of s f (nat n)) = FD_NONE then Inr (nat n) else Inl (fail_code E_BUSY))
        else Inl (fail_code E_INVAL));
     (case r of
        Inl e \<Rightarrow> Some (e, None, s)
      | Inr i \<Rightarrow> do {
          kassert (fopen_count (file_of s f i) = 0);
          Some (0, Some (f, i), mod_file f i (\<lambda>d. d\<lparr>fstatus := FD_INIT, fnode := None\<rparr>) s)
        })
   }"

definition filemap_free :: "'d inode_ops \<Rightarrow> nat \<Rightarrow> nat \<Rightarrow> 'd fs_state \<Rightarrow> 'd fs_state option" where
  "filemap_free ops f i s = do {
     kassert (fstatus (file_of s f i) = FD_INIT \<or> fstatus (file_of s f i) = FD_CLOSED);
     kassert (fopen_count (file_of s f i) = 0);
     s \<leftarrow> (if fstatus (file_of s f i) = FD_CLOSED then do {
            n \<leftarrow> fnode (file_of s f i);
            (_, v) \<leftarrow> vfs_close ops n (vfs s);
            Some (s\<lparr>vfs := v\<rparr>)
          } else Some s);
     Some (mod_file f i (\<lambda>d. d\<lparr>fstatus := FD_NONE\<rparr>) s)
   }"

definition filemap_acquire :: "nat \<Rightarrow> nat \<Rightarrow> 'd fs_state \<Rightarrow> 'd fs_state option" where
  "filemap_acquire f i s = do {
     kassert (fstatus (file_of s f i) = FD_OPENED);
     Some (mod_file f i (\<lambda>d. d\<lparr>fopen_count := fopen_count d + 1\<rparr>) s)
   }"

definition filemap_release :: "'d inode_ops \<Rightarrow> nat \<Rightarrow> nat \<Rightarrow> 'd fs_state \<Rightarrow> 'd fs_state option" where
  "filemap_release ops f i s = do {
     kassert (fstatus (file_of s f i) = FD_OPENED \<or> fstatus (file_of s f i) = FD_CLOSED);
     kassert (fopen_count (file_of s f i) > 0);
     let s = mod_file f i (\<lambda>d. d\<lparr>fopen_count := fopen_count d - 1\<rparr>) s;
     if fopen_count (file_of s f i) = 0 then filemap_free ops f i s else Some s
   }"

definition filemap_open :: "nat \<Rightarrow> nat \<Rightarrow> 'd fs_state \<Rightarrow> 'd fs_state option" where
  "filemap_open f i s = do {
     kassert (fstatus (file_of s f i) = FD_INIT \<and> fnode (file_of s f i) \<noteq> None);
     Some (mod_file f i (\<lambda>d. d\<lparr>fstatus := FD_OPENED, fopen_count := fopen_count d + 1\<rparr>) s)
   }"

definition filemap_close :: "'d inode_ops \<Rightarrow> nat \<Rightarrow> nat \<Rightarrow> 'd fs_state \<Rightarrow> 'd fs_state option" where
  "filemap_close ops f i s = do {
     kassert (fstatus (file_of s f i) = FD_OPENED);
     kassert (fopen_count (file_of s f i) > 0);
     let s = mod_file f i (\<lambda>d. d\<lparr>fstatus := FD_CLOSED, fopen_count := fopen_count d - 1\<rparr>) s;
     if fopen_count (file_of s f i) = 0 then filemap_free ops f i s else Some s
   }"

definition filemap_dup :: "nat \<times> nat \<Rightarrow> nat \<times> nat \<Rightarrow> 'd fs_state \<Rightarrow> 'd fs_state option" where
  "filemap_dup to src s = do {
     let d = file_of s (fst src) (snd src);
     kassert (fstatus (file_of s (fst to) (snd to)) = FD_INIT \<and> fstatus d = FD_OPENED);
     let s = mod_file (fst to) (snd to)
       (\<lambda>e. e\<lparr>fpos := fpos d, freadable := freadable d, fwritable := fwritable d\<rparr>) s;
     n \<leftarrow> fnode d;
     let (_, v) = inode_ref_inc n (vfs s);
     let (_, v) = inode_open_inc n v;
     let s = s\<lparr>vfs := v\<rparr>;
     let s = mod_file (fst to) (snd to) (\<lambda>e. e\<lparr>fnode := Some n\<rparr>) s;
     filemap_open (fst to) (snd to) s
   }"

definition fd2file :: "int \<Rightarrow> 'd fs_state \<Rightarrow> (int \<times> (nat \<times> nat) option) option" where
  "fd2file n s =
     (if testfd n then do {
        f \<leftarrow> get_filemap s;
        let d = file_of s f (nat n);
        Some (if fstatus d = FD_OPENED \<and> ffd d = n then (0, Some (f, nat n)) else (fail_code E_INVAL, None))
      } else Some (fail_code E_INVAL, None))"

section \<open>Operations on descriptors\<close>

definition file_testfd :: "int \<Rightarrow> bool \<Rightarrow> bool \<Rightarrow> 'd fs_state \<Rightarrow> bool option" where
  "file_testfd n rd wr s = do {
     (ret, r) \<leftarrow> fd2file n s;
     Some (case r of
         None \<Rightarrow> False
       | Some (f, i) \<Rightarrow> (rd \<longrightarrow> freadable (file_of s f i)) \<and> (wr \<longrightarrow> fwritable (file_of s f i)))
   }"

definition file_open :: "'d inode_ops \<Rightarrow> string \<Rightarrow> u32 \<Rightarrow> 'd fs_state \<Rightarrow> (int \<times> 'd fs_state) option" where
  "file_open ops path fl s =
     (let acc = fl AND O_ACCMODE; rd = (acc = 0 \<or> acc = 2); wr = (acc = 1 \<or> acc = 2) in
      if acc \<noteq> 0 \<and> acc \<noteq> 1 \<and> acc \<noteq> 2 then Some (fail_code E_INVAL, s)
      else do {
        (ret, r, s) \<leftarrow> filemap_alloc NO_FD s;
        (case r of
           None \<Rightarrow> Some (ret, s)
         | Some (f, i) \<Rightarrow> do {
             (ret, n, v) \<leftarrow> vfs_open ops path fl (vfs s);
             let s = s\<lparr>vfs := v\<rparr>;
             if ret \<noteq> 0 then do { s \<leftarrow> filemap_free ops f i s; Some (ret, s) }
             else do {
               n \<leftarrow> n;
               let s = mod_file f i (\<lambda>d. d\<lparr>fpos := 0\<rparr>) s;
               (ret, s) \<leftarrow> (if fl AND O_APPEND \<noteq> 0 then do {
                   (ret, st, v) \<leftarrow> vop n (vop_fstat ops n) (vfs s);
                   let s = s\<lparr>vfs := v\<rparr>;
                   if ret \<noteq> 0 then do {
                     (_, v) \<leftarrow> vfs_close ops n (vfs s);
                     s \<leftarrow> filemap_free ops f i (s\<lparr>vfs := v\<rparr>);
                     Some (ret, s)
                   } else Some (0, mod_file f i (\<lambda>d. d\<lparr>fpos := st_size st\<rparr>) s)
                 } else Some (0, s));
               if ret \<noteq> 0 then Some (ret, s)
               else do {
                 let s = mod_file f i (\<lambda>d. d\<lparr>fnode := Some n, freadable := rd, fwritable := wr\<rparr>) s;
                 s \<leftarrow> filemap_open f i s;
                 Some (ffd (file_of s f i), s)
               }
             }
           })
      })"

definition file_close :: "'d inode_ops \<Rightarrow> int \<Rightarrow> 'd fs_state \<Rightarrow> (int \<times> 'd fs_state) option" where
  "file_close ops n s = do {
     (ret, r) \<leftarrow> fd2file n s;
     (case r of
        None \<Rightarrow> Some (ret, s)
      | Some (f, i) \<Rightarrow> do { s \<leftarrow> filemap_close ops f i s; Some (0, s) })
   }"


text \<open>The common start of the operations that use an open file.\<close>

definition file_begin :: "int \<Rightarrow> 'd fs_state \<Rightarrow> (int \<times> (nat \<times> nat) option \<times> 'd fs_state) option" where
  "file_begin n s = do {
     (ret, r) \<leftarrow> fd2file n s;
     (case r of
        None \<Rightarrow> Some (ret, None, s)
      | Some (f, i) \<Rightarrow> do { s \<leftarrow> filemap_acquire f i s; Some (0, Some (f, i), s) })
   }"

definition file_read_begin :: "int \<Rightarrow> 'd fs_state \<Rightarrow> (int \<times> (nat \<times> nat) option \<times> 'd fs_state) option" where
  "file_read_begin n s = do {
     (ret, r) \<leftarrow> fd2file n s;
     (case r of
        None \<Rightarrow> Some (ret, None, s)
      | Some (f, i) \<Rightarrow>
          if \<not> freadable (file_of s f i) then Some (fail_code E_INVAL, None, s)
          else do { s \<leftarrow> filemap_acquire f i s; Some (0, Some (f, i), s) })
   }"

definition file_write_begin :: "int \<Rightarrow> 'd fs_state \<Rightarrow> (int \<times> (nat \<times> nat) option \<times> 'd fs_state) option" where
  "file_write_begin n s = do {
     (ret, r) \<leftarrow> fd2file n s;
     (case r of
        None \<Rightarrow> Some (ret, None, s)
      | Some (f, i) \<Rightarrow>
          if \<not> fwritable (file_of s f i) then Some (fail_code E_INVAL, None, s)
          else do { s \<leftarrow> filemap_acquire f i s; Some (0, Some (f, i), s) })
   }"

text \<open>What follows the transfer: the position moves only if the file is still open.\<close>

definition file_rw_end :: "'d inode_ops \<Rightarrow> nat \<Rightarrow> nat \<Rightarrow> u32 \<Rightarrow> 'd fs_state \<Rightarrow> 'd fs_state option" where
  "file_rw_end ops f i copied s =
     filemap_release ops f i
       (if fstatus (file_of s f i) = FD_OPENED then mod_file f i (\<lambda>d. d\<lparr>fpos := fpos d + copied\<rparr>) s else s)"

definition file_read ::
  "'d inode_ops \<Rightarrow> int \<Rightarrow> u32 \<Rightarrow> u32 \<Rightarrow> 'd fs_state \<Rightarrow> (int \<times> u32 \<times> 'd fs_state) option" where
  "file_read ops n base len s = do {
     (ret, r, s) \<leftarrow> file_read_begin n s;
     (case r of
        None \<Rightarrow> Some (ret, 0, s)
      | Some (f, i) \<Rightarrow> do {
          k \<leftarrow> fnode (file_of s f i);
          (ret, iob, v) \<leftarrow> vop k (vop_read ops k (iobuf_init base len (fpos (file_of s f i)))) (vfs s);
          let copied = iobuf_used iob;
          s \<leftarrow> file_rw_end ops f i copied (s\<lparr>vfs := v\<rparr>);
          Some (ret, copied, s)
        })
   }"

definition file_write ::
  "'d inode_ops \<Rightarrow> int \<Rightarrow> u32 \<Rightarrow> u32 \<Rightarrow> 'd fs_state \<Rightarrow> (int \<times> u32 \<times> 'd fs_state) option" where
  "file_write ops n base len s = do {
     (ret, r, s) \<leftarrow> file_write_begin n s;
     (case r of
        None \<Rightarrow> Some (ret, 0, s)
      | Some (f, i) \<Rightarrow> do {
          k \<leftarrow> fnode (file_of s f i);
          (ret, iob, v) \<leftarrow> vop k (vop_write ops k (iobuf_init base len (fpos (file_of s f i)))) (vfs s);
          let copied = iobuf_used iob;
          s \<leftarrow> file_rw_end ops f i copied (s\<lparr>vfs := v\<rparr>);
          Some (ret, copied, s)
        })
   }"

definition file_seek :: "'d inode_ops \<Rightarrow> int \<Rightarrow> u32 \<Rightarrow> int \<Rightarrow> 'd fs_state \<Rightarrow> (int \<times> 'd fs_state) option" where
  "file_seek ops n pos whence s = do {
     (ret, r, s) \<leftarrow> file_begin n s;
     (case r of
        None \<Rightarrow> Some (ret, s)
      | Some (f, i) \<Rightarrow> do {
          k \<leftarrow> fnode (file_of s f i);
          (ret, pos, s) \<leftarrow>
            (if whence = 0 then Some (0, pos, s)
             else if whence = 1 then Some (0, pos + fpos (file_of s f i), s)
             else if whence = 2 then do {
               (ret, st, v) \<leftarrow> vop k (vop_fstat ops k) (vfs s);
               Some (ret, if ret = 0 then pos + st_size st else pos, s\<lparr>vfs := v\<rparr>)
             } else Some (fail_code E_INVAL, pos, s));
          (ret, s) \<leftarrow>
            (if ret = 0 then do {
               (ret, v) \<leftarrow> vop k (vop_tryseek ops k pos) (vfs s);
               let s = s\<lparr>vfs := v\<rparr>;
               Some (ret, if ret = 0 then mod_file f i (\<lambda>d. d\<lparr>fpos := pos\<rparr>) s else s)
             } else Some (ret, s));
          s \<leftarrow> filemap_release ops f i s;
          Some (ret, s)
        })
   }"

definition file_fstat :: "'d inode_ops \<Rightarrow> int \<Rightarrow> 'd fs_state \<Rightarrow> (int \<times> stat option \<times> 'd fs_state) option" where
  "file_fstat ops n s = do {
     (ret, r, s) \<leftarrow> file_begin n s;
     (case r of
        None \<Rightarrow> Some (ret, None, s)
      | Some (f, i) \<Rightarrow> do {
          k \<leftarrow> fnode (file_of s f i);
          (ret, st, v) \<leftarrow> vop k (vop_fstat ops k) (vfs s);
          s \<leftarrow> filemap_release ops f i (s\<lparr>vfs := v\<rparr>);
          Some (ret, Some st, s)
        })
   }"

definition file_fsync :: "'d inode_ops \<Rightarrow> int \<Rightarrow> 'd fs_state \<Rightarrow> (int \<times> 'd fs_state) option" where
  "file_fsync ops n s = do {
     (ret, r, s) \<leftarrow> file_begin n s;
     (case r of
        None \<Rightarrow> Some (ret, s)
      | Some (f, i) \<Rightarrow> do {
          k \<leftarrow> fnode (file_of s f i);
          (ret, v) \<leftarrow> vop k (vop_fsync ops k) (vfs s);
          s \<leftarrow> filemap_release ops f i (s\<lparr>vfs := v\<rparr>);
          Some (ret, s)
        })
   }"

text \<open>The directory entry is its \<^verbatim>\<open>offset\<close>, returned updated, and the address of its \<^verbatim>\<open>name\<close>.\<close>

definition file_getdirentry ::
  "'d inode_ops \<Rightarrow> int \<Rightarrow> u32 \<Rightarrow> u32 \<Rightarrow> 'd fs_state \<Rightarrow> (int \<times> u32 \<times> 'd fs_state) option" where
  "file_getdirentry ops n name offset s = do {
     (ret, r, s) \<leftarrow> file_begin n s;
     (case r of
        None \<Rightarrow> Some (ret, offset, s)
      | Some (f, i) \<Rightarrow> do {
          k \<leftarrow> fnode (file_of s f i);
          (ret, iob, v) \<leftarrow> vop k (vop_getdirentry ops k (iobuf_init name 256 offset)) (vfs s);
          s \<leftarrow> filemap_release ops f i (s\<lparr>vfs := v\<rparr>);
          Some (ret, if ret = 0 then offset + iobuf_used iob else offset, s)
        })
   }"

definition file_dup :: "int \<Rightarrow> int \<Rightarrow> 'd fs_state \<Rightarrow> (int \<times> 'd fs_state) option" where
  "file_dup fd1 fd2 s = do {
     (ret, r1) \<leftarrow> fd2file fd1 s;
     (case r1 of
        None \<Rightarrow> Some (ret, s)
      | Some src \<Rightarrow> do {
          (ret, r2, s) \<leftarrow> filemap_alloc fd2 s;
          (case r2 of
             None \<Rightarrow> Some (ret, s)
           | Some to \<Rightarrow> do {
               s \<leftarrow> filemap_dup to src s;
               Some (ffd (file_of s (fst to) (snd to)), s)
             })
        })
   }"

section \<open>The structures of processes\<close>

definition fs_count_inc :: "nat \<Rightarrow> 'd fs_state \<Rightarrow> int \<times> 'd fs_state" where
  "fs_count_inc f s = (fs_count (fss s f) + 1, mod_fs f (\<lambda>d. d\<lparr>fs_count := fs_count d + 1\<rparr>) s)"

definition fs_count_dec :: "nat \<Rightarrow> 'd fs_state \<Rightarrow> int \<times> 'd fs_state" where
  "fs_count_dec f s = (fs_count (fss s f) - 1, mod_fs f (\<lambda>d. d\<lparr>fs_count := fs_count d - 1\<rparr>) s)"

definition fs_create :: "nat option \<Rightarrow> 'd fs_state \<Rightarrow> nat option \<times> 'd fs_state" where
  "fs_create mem s = (case mem of
     None \<Rightarrow> (None, s)
   | Some f \<Rightarrow> (Some f, mod_fs f (\<lambda>d. d\<lparr>pwd := None, fs_count := 0, filemap := filemap_init (filemap d)\<rparr>)
       (s\<lparr>live_fs := insert f (live_fs s)\<rparr>)))"

fun close_all :: "'d inode_ops \<Rightarrow> bool \<Rightarrow> nat \<Rightarrow> nat list \<Rightarrow> 'd fs_state \<Rightarrow> 'd fs_state option" where
  "close_all ops final f [] s = Some s"
| "close_all ops final f (i # is) s = do {
     s \<leftarrow> (if fstatus (file_of s f i) = FD_OPENED then filemap_close ops f i s else Some s);
     (if final then kassert (fstatus (file_of s f i) = FD_NONE) else Some ());
     close_all ops final f is s
   }"

definition fs_destroy :: "'d inode_ops \<Rightarrow> nat \<Rightarrow> 'd fs_state \<Rightarrow> 'd fs_state option" where
  "fs_destroy ops f s = do {
     kassert (fs_count (fss s f) = 0);
     s \<leftarrow> (case pwd (fss s f) of
         Some n \<Rightarrow> do { (_, v) \<leftarrow> inode_ref_dec ops n (vfs s); Some (s\<lparr>vfs := v\<rparr>) }
       | None \<Rightarrow> Some s);
     s \<leftarrow> close_all ops True f [0..<NENTRY] s;
     Some (s\<lparr>live_fs := live_fs s - {f}\<rparr>)
   }"

definition fs_closeall :: "'d inode_ops \<Rightarrow> nat \<Rightarrow> 'd fs_state \<Rightarrow> 'd fs_state option" where
  "fs_closeall ops f s = do {
     kassert (fs_count (fss s f) > 0);
     close_all ops False f [2..<NENTRY] s
   }"

fun dup_files :: "nat \<Rightarrow> nat \<Rightarrow> nat list \<Rightarrow> 'd fs_state \<Rightarrow> 'd fs_state option" where
  "dup_files to src [] s = Some s"
| "dup_files to src (i # is) s = do {
     s \<leftarrow> (if fstatus (file_of s src i) = FD_OPENED
          then filemap_dup (to, i) (src, i) (mod_file to i (\<lambda>d. d\<lparr>fstatus := FD_INIT\<rparr>) s)
          else Some s);
     dup_files to src is s
   }"

definition dup_fs :: "nat \<Rightarrow> nat \<Rightarrow> 'd fs_state \<Rightarrow> (int \<times> 'd fs_state) option" where
  "dup_fs to src s = do {
     kassert (fs_count (fss s to) = 0 \<and> fs_count (fss s src) > 0);
     let s = mod_fs to (\<lambda>d. d\<lparr>pwd := pwd (fss s src)\<rparr>) s;
     let s = (case pwd (fss s to) of Some n \<Rightarrow> s\<lparr>vfs := snd (inode_ref_inc n (vfs s))\<rparr> | None \<Rightarrow> s);
     s \<leftarrow> dup_files to src [0..<NENTRY] s;
     Some (0, s)
   }"


section \<open>The invariant of the tables\<close>

lemma mod_fs_simps [simp]:
  "vfs (mod_fs f g s) = vfs s" "live_fs (mod_fs f g s) = live_fs s" "cur_fs (mod_fs f g s) = cur_fs s"
  "fss (mod_fs f g s) h = (if h = f then g (fss s f) else fss s h)"
  by (simp_all add: mod_fs_def)

lemma mod_file_simps [simp]:
  "vfs (mod_file f i g s) = vfs s" "live_fs (mod_file f i g s) = live_fs s" "cur_fs (mod_file f i g s) = cur_fs s"
  "file_of (mod_file f i g s) h j = (if h = f \<and> j = i then g (file_of s f i) else file_of s h j)"
  "file_of (s\<lparr>vfs := v\<rparr>) h j = file_of s h j"
  "pwd (fss (mod_file f i g s) h) = pwd (fss s h)" "fs_count (fss (mod_file f i g s) h) = fs_count (fss s h)"
  by (simp_all add: mod_file_def file_of_def)

text \<open>
  \<open>R\<close> are the transfers in progress: an open file is referenced by its table and by each of them, a
  closed one by them only.
\<close>

definition entry_ok :: "(nat \<times> nat) multiset \<Rightarrow> openfile \<Rightarrow> nat \<times> nat \<Rightarrow> bool" where
  "entry_ok R d fi \<longleftrightarrow> ffd d = int (snd fi) \<and>
     (if fstatus d = FD_OPENED then fnode d \<noteq> None \<and> fopen_count d = 1 + int (count R fi)
      else if fstatus d = FD_CLOSED then fnode d \<noteq> None \<and> fopen_count d = int (count R fi) \<and> 0 < fopen_count d
      else fopen_count d = 0 \<and> count R fi = 0)"

definition uses :: "openfile \<Rightarrow> nat \<Rightarrow> bool" where
  "uses d n \<longleftrightarrow> (fstatus d = FD_OPENED \<or> fstatus d = FD_CLOSED) \<and> fnode d = Some n"

definition users :: "'d fs_state \<Rightarrow> nat \<Rightarrow> (nat \<times> nat) set" where
  "users s n = {(f, i). f \<in> live_fs s \<and> i < NENTRY \<and> uses (file_of s f i) n}"

definition node_ok :: "'d fs_state \<Rightarrow> nat \<Rightarrow> bool" where
  "node_ok s n \<longleftrightarrow> (users s n \<noteq> {} \<longrightarrow> inode_check n (vfs s) \<and>
     int (card (users s n)) \<le> iopen_count (inodes (vfs s) n))"

definition file_inv :: "'d fs_state \<Rightarrow> (nat \<times> nat) multiset \<Rightarrow> bool" where
  "file_inv s R \<longleftrightarrow> finite (live_fs s) \<and>
     (\<forall>f\<in>live_fs s. \<forall>i<NENTRY. entry_ok R (file_of s f i) (f, i)) \<and>
     (\<forall>(f, i)\<in>#R. f \<in> live_fs s \<and> i < NENTRY) \<and> (\<forall>n. node_ok s n) \<and>
     (\<forall>f. cur_fs s = Some f \<longrightarrow> f \<in> live_fs s)"

lemma users_finite: "finite (live_fs s) \<Longrightarrow> finite (users s n)"
  by (rule finite_subset [of _ "live_fs s \<times> {..<NENTRY}"]) (auto simp: users_def)

lemma file_invD:
  assumes "file_inv s R"
  shows "finite (live_fs s)" "f \<in> live_fs s \<Longrightarrow> i < NENTRY \<Longrightarrow> entry_ok R (file_of s f i) (f, i)"
    "(f, i) \<in># R \<Longrightarrow> f \<in> live_fs s \<and> i < NENTRY" "node_ok s n" "cur_fs s = Some f \<Longrightarrow> f \<in> live_fs s"
  using assms by (auto simp: file_inv_def)

text \<open>Every operation changes one entry and, at most, one node.\<close>

definition only_entry :: "nat \<Rightarrow> nat \<Rightarrow> 'd fs_state \<Rightarrow> 'd fs_state \<Rightarrow> bool" where
  "only_entry f i s s' \<longleftrightarrow> live_fs s' = live_fs s \<and> cur_fs s' = cur_fs s \<and>
     (\<forall>g j. (g, j) \<noteq> (f, i) \<longrightarrow> file_of s' g j = file_of s g j) \<and>
     (\<forall>g. fs_count (fss s' g) = fs_count (fss s g) \<and> pwd (fss s' g) = pwd (fss s g))"

lemma only_entry_trans: "only_entry f i s s1 \<Longrightarrow> only_entry f i s1 s2 \<Longrightarrow> only_entry f i s s2"
  by (simp add: only_entry_def)

lemma only_entry_mod: "only_entry f i s (mod_file f i g s)" "only_entry f i s (s\<lparr>vfs := v\<rparr>)"
  by (auto simp: only_entry_def)

lemma users_entry:
  assumes "only_entry f i s s'" "f \<in> live_fs s" "i < NENTRY"
  shows "users s' n = (if uses (file_of s' f i) n then insert (f, i) (users s n - {(f, i)}) else users s n - {(f, i)})"
proof (intro set_eqI)
  fix gj :: "nat \<times> nat"
  obtain g j where gj: "gj = (g, j)" by (cases gj)
  have l: "live_fs s' = live_fs s" using assms(1) by (simp add: only_entry_def)
  show "gj \<in> users s' n \<longleftrightarrow> gj \<in> (if uses (file_of s' f i) n then insert (f, i) (users s n - {(f, i)}) else users s n - {(f, i)})"
  proof (cases "gj = (f, i)")
    case True
    then show ?thesis using assms(2,3) l by (simp add: users_def)
  next
    case False
    then have "file_of s' g j = file_of s g j" using assms(1) gj by (simp add: only_entry_def)
    then show ?thesis using False gj l by (auto simp: users_def)
  qed
qed

lemma file_inv_entry:
  assumes inv: "file_inv s R" and o: "only_entry f i s s'" and fi: "f \<in> live_fs s" "i < NENTRY"
    and e: "entry_ok R' (file_of s' f i) (f, i)" and R: "\<And>x. x \<noteq> (f, i) \<Longrightarrow> count R' x = count R x"
    and n: "\<And>n. node_ok s' n"
  shows "file_inv s' R'"
proof -
  have l: "live_fs s' = live_fs s" "cur_fs s' = cur_fs s" using o by (simp_all add: only_entry_def)
  have "entry_ok R' (file_of s' g j) (g, j)" if "g \<in> live_fs s" "j < NENTRY" for g j
  proof (cases "(g, j) = (f, i)")
    case True then show ?thesis using e by simp
  next
    case False
    then have e: "file_of s' g j = file_of s g j" "count R' (g, j) = count R (g, j)"
      using o R by (auto simp: only_entry_def)
    show ?thesis using file_invD(2) [OF inv that] unfolding entry_ok_def e .
  qed
  moreover have "g \<in> live_fs s \<and> j < NENTRY" if "(g, j) \<in># R'" for g j
  proof (cases "(g, j) = (f, i)")
    case True then show ?thesis using fi by simp
  next
    case False
    then have "count R (g, j) = count R' (g, j)" using R by simp
    then have "(g, j) \<in># R" using that by (metis not_in_iff)
    then show ?thesis using file_invD(3) [OF inv] by blast
  qed
  ultimately show ?thesis
    using file_invD(1,5) [OF inv] n unfolding file_inv_def l by blast
qed

lemma node_ok_same:
  assumes "node_ok s n" "users s' n = users s n" "inodes (vfs s') n = inodes (vfs s) n"
  shows "node_ok s' n"
  using assms by (simp add: node_ok_def inode_check_def)


lemma node_ok_add:
  assumes "finite (live_fs s)" "node_ok s n" "users s' n = insert x (users s n)"
    "inodes (vfs s') n = shift 1 (inodes (vfs s) n)" "inode_check n (vfs s)"
    "ref_count (inodes (vfs s) n) + 1 < MAX_INODE_COUNT"
  shows "node_ok s' n"
proof -
  have "card (insert x (users s n)) \<le> card (users s n) + 1"
    using users_finite [OF assms(1)] by (simp add: card_insert_if)
  moreover have "int (card (users s n)) \<le> iopen_count (inodes (vfs s) n)"
    using assms(2,5) by (cases "users s n = {}") (auto simp: node_ok_def inode_check_def)
  ultimately show ?thesis using assms(3-6) by (auto simp: node_ok_def inode_check_def)
qed

lemma node_ok_remove:
  assumes "finite (live_fs s)" "node_ok s n" "x \<in> users s n" "users s' n = users s n - {x}"
    "inodes (vfs s') n = shift (-1) (inodes (vfs s) n)"
  shows "node_ok s' n"
proof -
  have "card (users s n - {x}) = card (users s n) - 1" "0 < card (users s n)"
    using users_finite [OF assms(1)] assms(3) by (auto simp: card_gt_0_iff)
  moreover have "users s n \<noteq> {}" using assms(3) by blast
  ultimately show ?thesis using assms(2,4,5) by (auto simp: node_ok_def inode_check_def)
qed

section \<open>Closing\<close>

lemma filemap_free_ok:
  assumes "can_close ops n (vfs s)" "fstatus (file_of s f i) = FD_CLOSED" "fopen_count (file_of s f i) = 0" "fnode (file_of s f i) = Some n"
  shows "\<exists>s'. filemap_free ops f i s = Some s' \<and> only_entry f i s s' \<and>
    file_of s' f i = (file_of s f i)\<lparr>fstatus := FD_NONE\<rparr> \<and>
    inodes (vfs s') = (inodes (vfs s))(n := shift (-1) (inodes (vfs s) n))"
proof -
  obtain v where v: "vfs_close ops n (vfs s) = Some (0, v)"
    "inodes v = (inodes (vfs s))(n := shift (-1) (inodes (vfs s) n))"
    using assms(1) unfolding can_close_def by blast
  let ?s = "mod_file f i (\<lambda>d. d\<lparr>fstatus := FD_NONE\<rparr>) (s\<lparr>vfs := v\<rparr>)"
  have "filemap_free ops f i s = Some ?s" using assms(2-4) v(1) by (simp add: filemap_free_def)
  moreover have "only_entry f i s ?s" by (rule only_entry_trans [OF only_entry_mod(2) only_entry_mod(1)])
  ultimately show ?thesis using v(2) by simp
qed

text \<open>
  The end of a use of an entry - by its table, in \<^verbatim>\<open>filemap_close\<close>, or by a transfer, in
  \<^verbatim>\<open>filemap_release\<close>: the node is closed with the last use.
\<close>

lemma drop_entry:
  assumes q: "fopen_count d = 1 \<Longrightarrow> can_close ops (the (fnode d)) (vfs s)"
    and inv: "file_inv s R" and fi: "f \<in> live_fs s" "i < NENTRY"
    and d: "file_of s f i = d" "fstatus d = FD_OPENED \<or> fstatus d = FD_CLOSED"
    and s1: "only_entry f i s s1" "vfs s1 = vfs s"
      "file_of s1 f i = d\<lparr>fstatus := st, fopen_count := fopen_count d - 1\<rparr>" "st = FD_OPENED \<or> st = FD_CLOSED"
    and R: "\<And>x. x \<noteq> (f, i) \<Longrightarrow> count R' x = count R x"
      "fopen_count d - 1 = (if st = FD_OPENED then 1 else 0) + int (count R' (f, i))"
  shows "\<exists>s'. (if fopen_count (file_of s1 f i) = 0 then filemap_free ops f i s1 else Some s1) = Some s' \<and>
    file_inv s' R' \<and> only_entry f i s s' \<and>
    (if fopen_count d = 1 then file_of s' f i = d\<lparr>fstatus := FD_NONE, fopen_count := 0\<rparr> \<and>
       inodes (vfs s') = (inodes (vfs s))(the (fnode d) := shift (-1) (inodes (vfs s) (the (fnode d))))
     else s' = s1)"
proof -
  have eo: "entry_ok R d (f, i)" using file_invD(2) [OF inv fi] d(1) by simp
  then obtain n where n: "fnode d = Some n" using d(2) by (auto simp: entry_ok_def split: if_splits)
  have u: "uses d m \<longleftrightarrow> m = n" for m using d(2) n by (auto simp: uses_def)
  then have mem: "(f, i) \<in> users s n" using fi d(1) by (simp add: users_def)
  show ?thesis
  proof (cases "fopen_count d = 1")
    case True
    have st: "st = FD_CLOSED" "count R' (f, i) = 0" using R(2) s1(4) True by (auto split: if_splits)
    have pre: "can_close ops n (vfs s1)" "fstatus (file_of s1 f i) = FD_CLOSED"
      "fopen_count (file_of s1 f i) = 0" "fnode (file_of s1 f i) = Some n"
      using q [OF True] s1(2,3) st(1) True n by (simp_all add: s1(2))
    obtain s' where s': "filemap_free ops f i s1 = Some s'" "only_entry f i s1 s'"
      "file_of s' f i = (file_of s1 f i)\<lparr>fstatus := FD_NONE\<rparr>"
      "inodes (vfs s') = (inodes (vfs s1))(n := shift (-1) (inodes (vfs s1) n))"
      using filemap_free_ok [OF pre] by blast
    have o: "only_entry f i s s'" by (rule only_entry_trans [OF s1(1) s'(2)])
    have fin: "file_of s' f i = d\<lparr>fstatus := FD_NONE, fopen_count := 0\<rparr>" using s'(3) s1(3) True by simp
    have eo': "entry_ok R' (file_of s' f i) (f, i)" using eo st(2) by (simp add: fin entry_ok_def not_in_iff)
    have us: "users s' m = users s m - {(f, i)}" for m
      using users_entry [OF o fi, of m] by (simp add: fin uses_def)
    have "node_ok s' m" for m
    proof (cases "m = n")
      case True
      show ?thesis unfolding True
        by (rule node_ok_remove [OF file_invD(1) [OF inv] file_invD(4) [OF inv] mem us]) (simp add: s'(4) s1(2))
    next
      case False
      then have "(f, i) \<notin> users s m" using u d(1) by (simp add: users_def)
      then show ?thesis using us [of m] False
        by (intro node_ok_same [OF file_invD(4) [OF inv]]) (simp_all add: s'(4) s1(2))
    qed
    then have "file_inv s' R'" using file_inv_entry [OF inv o fi eo' R(1)] by blast
    then show ?thesis using s'(1,4) pre(3) o fin True n s1(2) by simp
  next
    case False
    have pos: "0 < fopen_count d" using eo d(2) by (auto simp: entry_ok_def split: if_splits)
    have eo': "entry_ok R' (file_of s1 f i) (f, i)"
      using eo False pos n R(2) s1(3,4) unfolding entry_ok_def by (auto simp del: count_greater_zero_iff)
    have "users s1 m = users s m" for m
    proof -
      have "uses (file_of s1 f i) m \<longleftrightarrow> uses d m" using u [of m] s1(3,4) n by (auto simp: uses_def)
      then show ?thesis using users_entry [OF s1(1) fi, of m] fi d(1) by (auto simp: users_def)
    qed
    then have "node_ok s1 m" for m
      by (rule node_ok_same [OF file_invD(4) [OF inv]]) (simp add: s1(2))
    then have "file_inv s1 R'" using file_inv_entry [OF inv s1(1) fi eo' R(1)] by blast
    then show ?thesis using False s1(1,3) by simp
  qed
qed


lemma fd2file_Some:
  assumes "fd2file n s = Some (r, Some fi)"
  obtains f where "cur_fs s = Some f" "fi = (f, nat n)" "nat n < NENTRY" "testfd n" "r = 0"
    "fstatus (file_of s f (nat n)) = FD_OPENED" "0 < fs_count (fss s f)"
  using assms that
  by (auto simp: fd2file_def get_filemap_def testfd_def bind_eq_Some_conv Let_def split: if_splits)

lemma filemap_close_ok:
  assumes q: "(f, i) \<notin># R \<Longrightarrow> can_close ops (the (fnode (file_of s f i))) (vfs s)"
    and inv: "file_inv s R" and fi: "f \<in> live_fs s" "i < NENTRY"
    and d: "fstatus (file_of s f i) = FD_OPENED"
  shows "\<exists>s'. filemap_close ops f i s = Some s' \<and> file_inv s' R \<and> only_entry f i s s' \<and>
    (if (f, i) \<in># R then file_of s' f i = (file_of s f i)\<lparr>fstatus := FD_CLOSED, fopen_count := int (count R (f, i))\<rparr> \<and>
       vfs s' = vfs s
     else file_of s' f i = (file_of s f i)\<lparr>fstatus := FD_NONE, fopen_count := 0\<rparr> \<and>
       inodes (vfs s') = (inodes (vfs s))(the (fnode (file_of s f i)) :=
         shift (-1) (inodes (vfs s) (the (fnode (file_of s f i))))))"
proof -
  let ?d = "file_of s f i"
  let ?s = "mod_file f i (\<lambda>d. d\<lparr>fstatus := FD_CLOSED, fopen_count := fopen_count d - 1\<rparr>) s"
  have oc: "fopen_count ?d = 1 + int (count R (f, i))"
    using file_invD(2) [OF inv fi] d by (simp add: entry_ok_def)
  have fs: "file_of ?s f i = ?d\<lparr>fstatus := FD_CLOSED, fopen_count := fopen_count ?d - 1\<rparr>" by simp
  have q': "fopen_count ?d = 1 \<Longrightarrow> can_close ops (the (fnode ?d)) (vfs s)"
    using q oc by (simp add: not_in_iff)
  note dr = drop_entry [OF q' inv fi refl disjI1 [OF d] only_entry_mod(1) mod_file_simps(1) fs, of R]
  obtain s' where s': "(if fopen_count (file_of ?s f i) = 0 then filemap_free ops f i ?s else Some ?s) = Some s'"
    "file_inv s' R" "only_entry f i s s'"
    "if fopen_count ?d = 1 then file_of s' f i = ?d\<lparr>fstatus := FD_NONE, fopen_count := 0\<rparr> \<and>
       inodes (vfs s') = (inodes (vfs s))(the (fnode ?d) := shift (-1) (inodes (vfs s) (the (fnode ?d))))
     else s' = ?s"
    using dr oc by auto
  have "filemap_close ops f i s = Some s'" using s'(1) d oc by (simp add: filemap_close_def Let_def)
  moreover have "fopen_count ?d = 1 \<longleftrightarrow> (f, i) \<notin># R" using oc by (simp add: not_in_iff)
  ultimately show ?thesis using s'(2-4) oc by (cases "(f, i) \<in># R") auto
qed

lemma file_rw_end_ok:
  assumes q: "fstatus (file_of s f i) \<noteq> FD_OPENED \<Longrightarrow> count R (f, i) = 1 \<Longrightarrow>
      can_close ops (the (fnode (file_of s f i))) (vfs s)"
    and inv: "file_inv s R" and fi: "(f, i) \<in># R"
  shows "\<exists>s'. file_rw_end ops f i c s = Some s' \<and> file_inv s' (R - {#(f, i)#}) \<and> only_entry f i s s' \<and>
    (if fstatus (file_of s f i) = FD_OPENED
     then file_of s' f i = (file_of s f i)\<lparr>fpos := fpos (file_of s f i) + c, fopen_count := fopen_count (file_of s f i) - 1\<rparr> \<and>
       vfs s' = vfs s
     else if count R (f, i) = 1
     then file_of s' f i = (file_of s f i)\<lparr>fstatus := FD_NONE, fopen_count := 0\<rparr> \<and>
       inodes (vfs s') = (inodes (vfs s))(the (fnode (file_of s f i)) :=
         shift (-1) (inodes (vfs s) (the (fnode (file_of s f i)))))
     else file_of s' f i = (file_of s f i)\<lparr>fopen_count := fopen_count (file_of s f i) - 1\<rparr> \<and> vfs s' = vfs s)"
proof -
  let ?d = "file_of s f i"
  let ?e = "if fstatus ?d = FD_OPENED then ?d\<lparr>fpos := fpos ?d + c\<rparr> else ?d"
  let ?t = "if fstatus ?d = FD_OPENED then mod_file f i (\<lambda>d. d\<lparr>fpos := fpos d + c\<rparr>) s else s"
  let ?s = "mod_file f i (\<lambda>d. d\<lparr>fopen_count := fopen_count d - 1\<rparr>) ?t"
  have l: "f \<in> live_fs s" "i < NENTRY" using file_invD(3) [OF inv fi] by simp_all
  have cnt: "0 < count R (f, i)" using fi by simp
  have eo: "entry_ok R ?d (f, i)" using file_invD(2) [OF inv l] .
  have st: "fstatus ?d = FD_OPENED \<or> fstatus ?d = FD_CLOSED"
    using eo cnt by (auto simp: entry_ok_def simp del: count_greater_zero_iff split: if_splits)
  have o0: "only_entry f i s ?t" by (cases "fstatus ?d = FD_OPENED") (simp_all add: only_entry_def)
  have inv0: "file_inv ?t R"
  proof (cases "fstatus ?d = FD_OPENED")
    case True
    have s0: "file_of ?t f i = ?d\<lparr>fpos := fpos ?d + c\<rparr>" using True by simp
    have e: "entry_ok R (file_of ?t f i) (f, i)" using eo True unfolding s0 entry_ok_def by simp
    have "users ?t m = users s m" for m
      using users_entry [OF o0 l, of m] l True by (auto simp: users_def uses_def)
    then have "node_ok ?t m" for m
      by (rule node_ok_same [OF file_invD(4) [OF inv]]) simp
    then show ?thesis using file_inv_entry [OF inv o0 l e] by blast
  qed (use inv in simp)
  have l0: "f \<in> live_fs ?t" using l(1) by simp
  have d1: "file_of ?t f i = ?e" by simp
  have st1: "fstatus ?e = FD_OPENED \<or> fstatus ?e = FD_CLOSED" using st by auto
  have fs: "file_of ?s f i = ?e\<lparr>fstatus := fstatus ?e, fopen_count := fopen_count ?e - 1\<rparr>" by simp
  have R: "fopen_count ?e - 1 = (if fstatus ?e = FD_OPENED then 1 else 0) + int (count (R - {#(f, i)#}) (f, i))"
    using eo st cnt by (auto simp: entry_ok_def of_nat_diff simp del: count_greater_zero_iff)
  have q': "fopen_count ?e = 1 \<Longrightarrow> can_close ops (the (fnode ?e)) (vfs ?t)"
    using q eo st cnt by (auto simp: entry_ok_def simp del: count_greater_zero_iff)
  obtain s' where s': "(if fopen_count (file_of ?s f i) = 0 then filemap_free ops f i ?s else Some ?s) = Some s'"
    "file_inv s' (R - {#(f, i)#})" "only_entry f i ?t s'"
    "if fopen_count ?e = 1 then file_of s' f i = ?e\<lparr>fstatus := FD_NONE, fopen_count := 0\<rparr> \<and>
       inodes (vfs s') = (inodes (vfs ?t))(the (fnode ?e) := shift (-1) (inodes (vfs ?t) (the (fnode ?e))))
     else s' = ?s"
    using drop_entry [OF q' inv0 l0 l(2) d1 st1 only_entry_mod(1) mod_file_simps(1) fs st1 _ R] by auto
  have pos: "0 < fopen_count ?e" using eo st by (auto simp: entry_ok_def simp del: count_greater_zero_iff)
  have "file_rw_end ops f i c s = Some s'"
    using s'(1) st1 pos d1 unfolding file_rw_end_def filemap_release_def Let_def by (simp only: bind_kassert if_True)
  moreover have "only_entry f i s s'" by (rule only_entry_trans [OF o0 s'(3)])
  moreover have "fopen_count ?e = 1 \<longleftrightarrow> fstatus ?d \<noteq> FD_OPENED \<and> count R (f, i) = 1"
    using eo st cnt by (auto simp: entry_ok_def simp del: count_greater_zero_iff)
  ultimately show ?thesis using s'(2,4) by (auto split: if_splits)
qed


section \<open>Opening, duplicating and starting a transfer\<close>

lemma acquire_ok:
  assumes inv: "file_inv s R" and fi: "f \<in> live_fs s" "i < NENTRY" and d: "fstatus (file_of s f i) = FD_OPENED"
  shows "\<exists>s'. filemap_acquire f i s = Some s' \<and> file_inv s' (add_mset (f, i) R) \<and> only_entry f i s s' \<and> vfs s' = vfs s \<and>
    file_of s' f i = (file_of s f i)\<lparr>fopen_count := fopen_count (file_of s f i) + 1\<rparr>"
proof -
  let ?s = "mod_file f i (\<lambda>d. d\<lparr>fopen_count := fopen_count d + 1\<rparr>) s"
  note o = only_entry_mod(1) [of f i s "\<lambda>d. d\<lparr>fopen_count := fopen_count d + 1\<rparr>"]
  have e: "entry_ok (add_mset (f, i) R) (file_of ?s f i) (f, i)"
    using file_invD(2) [OF inv fi] d by (simp add: entry_ok_def)
  have "users ?s m = users s m" for m
    using users_entry [OF o fi, of m] fi by (auto simp: users_def uses_def)
  then have "node_ok ?s m" for m by (rule node_ok_same [OF file_invD(4) [OF inv]]) simp
  then have "file_inv ?s (add_mset (f, i) R)" using file_inv_entry [OF inv o fi e] by simp
  then show ?thesis using d o by (simp add: filemap_acquire_def)
qed

text \<open>Where \<^verbatim>\<open>filemap_alloc\<close> puts a new file.\<close>

definition fd_slot :: "(nat \<Rightarrow> openfile) \<Rightarrow> int \<Rightarrow> int + nat" where
  "fd_slot m n = (if n = NO_FD then
       (case find (\<lambda>i. fstatus (m i) = FD_NONE) [0..<NENTRY] of
          Some i \<Rightarrow> Inr i | None \<Rightarrow> Inl (fail_code E_MAX_OPEN))
     else if testfd n then (if fstatus (m (nat n)) = FD_NONE then Inr (nat n) else Inl (fail_code E_BUSY))
     else Inl (fail_code E_INVAL))"

lemma fd_slot_ok:
  assumes "fd_slot m n = Inr i"
  shows "i < NENTRY" "fstatus (m i) = FD_NONE" "n = NO_FD \<Longrightarrow> j < i \<Longrightarrow> fstatus (m j) \<noteq> FD_NONE" "n \<noteq> NO_FD \<Longrightarrow> int i = n"
proof -
  have a: "i < NENTRY \<and> fstatus (m i) = FD_NONE \<and> (\<forall>j<i. fstatus (m j) \<noteq> FD_NONE)" if "n = NO_FD"
    using assms that by (auto simp: fd_slot_def find_Some_iff split: option.splits)
  have b: "i < NENTRY \<and> fstatus (m i) = FD_NONE \<and> int i = n" if "n \<noteq> NO_FD"
    using assms that by (auto simp: fd_slot_def testfd_def split: if_splits)
  show "i < NENTRY" "fstatus (m i) = FD_NONE" "n = NO_FD \<Longrightarrow> j < i \<Longrightarrow> fstatus (m j) \<noteq> FD_NONE" "n \<noteq> NO_FD \<Longrightarrow> int i = n"
    using a b by (cases "n = NO_FD"; simp)+
qed

lemma filemap_alloc_ok:
  assumes "file_inv s R" "cur_fs s = Some f" "0 < fs_count (fss s f)"
  shows "filemap_alloc n s = Some (case fd_slot (file_of s f) n of
      Inl e \<Rightarrow> (e, None, s)
    | Inr i \<Rightarrow> (0, Some (f, i), mod_file f i (\<lambda>d. d\<lparr>fstatus := FD_INIT, fnode := None\<rparr>) s))"
proof (cases "fd_slot (file_of s f) n")
  case (Inl e)
  then show ?thesis using assms(2,3)
    by (simp add: filemap_alloc_def get_filemap_def fd_slot_def [symmetric])
next
  case (Inr i)
  have "fopen_count (file_of s f i) = 0"
    using file_invD(2) [OF assms(1) file_invD(5) [OF assms(1,2)] fd_slot_ok(1) [OF Inr]] fd_slot_ok(2) [OF Inr]
    by (simp add: entry_ok_def)
  then show ?thesis using assms(2,3) Inr
    by (simp add: filemap_alloc_def get_filemap_def fd_slot_def [symmetric])
qed

text \<open>An unused entry becomes an open file on the node \<open>n\<close>.\<close>

lemma fill_entry:
  assumes inv: "file_inv s R" and fi: "f \<in> live_fs s" "i < NENTRY"
    and d: "fstatus (file_of s f i) = FD_NONE"
    and o: "only_entry f i s s'" and e: "fstatus (file_of s' f i) = FD_OPENED" "fopen_count (file_of s' f i) = 1"
      "fnode (file_of s' f i) = Some n" "ffd (file_of s' f i) = ffd (file_of s f i)"
    and v: "inodes (vfs s') = (inodes (vfs s))(n := shift 1 (inodes (vfs s) n))"
    and room: "inode_check n (vfs s)" "ref_count (inodes (vfs s) n) + 1 < MAX_INODE_COUNT"
  shows "file_inv s' R"
proof -
  have eo: "entry_ok R (file_of s' f i) (f, i)"
    using file_invD(2) [OF inv fi] d e by (simp add: entry_ok_def not_in_iff)
  have nu: "(f, i) \<notin> users s m" for m using d by (simp add: users_def uses_def)
  have us: "users s' m = (if m = n then insert (f, i) (users s m) else users s m)" for m
    using users_entry [OF o fi, of m] nu [of m] e by (auto simp: uses_def)
  have "node_ok s' m" for m
  proof (cases "m = n")
    case True
    show ?thesis unfolding True
      by (rule node_ok_add [OF file_invD(1) [OF inv] file_invD(4) [OF inv] _ _ room]) (simp_all add: us v)
  next
    case False
    then show ?thesis by (intro node_ok_same [OF file_invD(4) [OF inv]]) (simp_all add: us v)
  qed
  then show ?thesis using file_inv_entry [OF inv o fi eo] by blast
qed

definition dup_of :: "openfile \<Rightarrow> openfile \<Rightarrow> openfile" where
  "dup_of d e = e\<lparr>fpos := fpos d, freadable := freadable d, fwritable := fwritable d,
     fnode := fnode d, fstatus := FD_OPENED, fopen_count := 1\<rparr>"

lemma dup_of_simps [simp]:
  "fstatus (dup_of d e) = FD_OPENED" "fopen_count (dup_of d e) = 1" "fnode (dup_of d e) = fnode d"
  "fpos (dup_of d e) = fpos d" "ffd (dup_of d e) = ffd e"
  by (simp_all add: dup_of_def)

lemma filemap_dup_ok:
  assumes "fstatus (file_of s f i) = FD_INIT" "fopen_count (file_of s f i) = 0"
    "fstatus (file_of s g j) = FD_OPENED" "fnode (file_of s g j) = Some n"
  shows "\<exists>s'. filemap_dup (f, i) (g, j) s = Some s' \<and> only_entry f i s s' \<and>
    file_of s' f i = dup_of (file_of s g j) (file_of s f i) \<and>
    inodes (vfs s') = (inodes (vfs s))(n := shift 1 (inodes (vfs s) n))"
proof -
  let ?d = "file_of s g j"
  let ?a = "mod_file f i (\<lambda>e. e\<lparr>fpos := fpos ?d, freadable := freadable ?d, fwritable := fwritable ?d\<rparr>) s"
  let ?v = "snd (inode_open_inc n (snd (inode_ref_inc n (vfs s))))"
  let ?b = "mod_file f i (\<lambda>e. e\<lparr>fnode := Some n\<rparr>) (?a\<lparr>vfs := ?v\<rparr>)"
  let ?c = "mod_file f i (\<lambda>d. d\<lparr>fstatus := FD_OPENED, fopen_count := fopen_count d + 1\<rparr>) ?b"
  have v: "inodes ?v = (inodes (vfs s))(n := shift 1 (inodes (vfs s) n))"
    by (simp add: inode_ref_inc_def inode_open_inc_def fun_eq_iff shift_def)
  have "filemap_dup (f, i) (g, j) s = Some ?c"
    using assms(1,3,4) by (simp add: filemap_dup_def Let_def filemap_open_def inode_ref_inc_def inode_open_inc_def)
  moreover have "only_entry f i s ?c" by (auto simp: only_entry_def)
  moreover have "file_of ?c f i = dup_of ?d (file_of s f i)"
    using assms(2,4) by (cases "file_of s f i") (simp add: dup_of_def)
  moreover have "vfs ?c = ?v" by simp
  ultimately show ?thesis using v by (intro exI [of _ ?c]) simp
qed

lemma dup_of_init: "dup_of d (e\<lparr>fstatus := FD_INIT, fnode := None\<rparr>) = dup_of d e"
  by (cases e) (simp add: dup_of_def)

lemma file_dup_ok:
  assumes inv: "file_inv s R" and c: "cur_fs s = Some f" "0 < fs_count (fss s f)"
  shows "\<exists>r s'. file_dup a b s = Some (r, s') \<and>
    (if \<not> testfd a \<or> fstatus (file_of s f (nat a)) \<noteq> FD_OPENED then r = fail_code E_INVAL \<and> s' = s
     else (case fd_slot (file_of s f) b of
        Inl e \<Rightarrow> r = e \<and> s' = s
      | Inr j \<Rightarrow> r = int j \<and> only_entry f j s s' \<and> file_of s' f j = dup_of (file_of s f (nat a)) (file_of s f j) \<and>
          inodes (vfs s') = (inodes (vfs s))(the (fnode (file_of s f (nat a))) :=
            shift 1 (inodes (vfs s) (the (fnode (file_of s f (nat a)))))) \<and>
          (ref_count (inodes (vfs s) (the (fnode (file_of s f (nat a))))) + 1 < MAX_INODE_COUNT \<longrightarrow> file_inv s' R)))"
proof (cases "testfd a \<and> fstatus (file_of s f (nat a)) = FD_OPENED")
  case False
  have "ffd (file_of s f (nat a)) = a" if "testfd a"
    using file_invD(2) [OF inv file_invD(5) [OF inv c(1)], of "nat a"] that by (auto simp: entry_ok_def testfd_def)
  then have "fd2file a s = Some (fail_code E_INVAL, None)"
    using False c by (auto simp: fd2file_def get_filemap_def Let_def)
  then show ?thesis using False by (auto simp: file_dup_def)
next
  case True
  let ?i = "nat a"
  have live: "f \<in> live_fs s" using file_invD(5) [OF inv c(1)] .
  have i: "?i < NENTRY" using True by (auto simp: testfd_def)
  have eo: "entry_ok R (file_of s f ?i) (f, ?i)" using file_invD(2) [OF inv live i] .
  obtain n where n: "fnode (file_of s f ?i) = Some n" using eo True by (auto simp: entry_ok_def)
  have fd: "fd2file a s = Some (0, Some (f, ?i))"
    using True c eo by (auto simp: fd2file_def get_filemap_def Let_def entry_ok_def testfd_def)
  show ?thesis
  proof (cases "fd_slot (file_of s f) b")
    case (Inl e)
    then show ?thesis using True filemap_alloc_ok [OF inv c, of b] fd by (simp add: file_dup_def)
  next
    case (Inr j)
    note sl = fd_slot_ok [OF Inr]
    let ?s = "mod_file f j (\<lambda>d. d\<lparr>fstatus := FD_INIT, fnode := None\<rparr>) s"
    have ne: "?i \<noteq> j" using True sl(2) by auto
    have oc: "fopen_count (file_of s f j) = 0" "ffd (file_of s f j) = int j"
      using file_invD(2) [OF inv live sl(1)] sl(2) by (simp_all add: entry_ok_def)
    have pre: "fstatus (file_of ?s f j) = FD_INIT" "fopen_count (file_of ?s f j) = 0"
      "fstatus (file_of ?s f ?i) = FD_OPENED" "fnode (file_of ?s f ?i) = Some n"
      using ne oc True n by simp_all
    obtain s' where s': "filemap_dup (f, j) (f, ?i) ?s = Some s'" "only_entry f j ?s s'"
      "file_of s' f j = dup_of (file_of s f ?i) (file_of s f j)"
      "inodes (vfs s') = (inodes (vfs s))(n := shift 1 (inodes (vfs s) n))"
      using filemap_dup_ok [OF pre] ne by (auto simp: dup_of_init)
    have o: "only_entry f j s s'" by (rule only_entry_trans [OF only_entry_mod(1) s'(2)])
    have "(f, ?i) \<in> users s n" using live i True n by (simp add: users_def uses_def)
    then have "inode_check n (vfs s)" using file_invD(4) [OF inv, of n] by (auto simp: node_ok_def)
    then have "file_inv s' R" if "ref_count (inodes (vfs s) n) + 1 < MAX_INODE_COUNT"
      using fill_entry [OF inv live sl(1,2) o _ _ _ _ s'(4)] that n by (simp add: s'(3))
    moreover have "file_dup a b s = Some (int j, s')"
      using fd filemap_alloc_ok [OF inv c, of b] Inr s'(1,3) oc(2) by (simp add: file_dup_def)
    ultimately show ?thesis using True Inr o s'(3,4) n by simp
  qed
qed

end
