(* ===== verification/File_Space.thy ===== *)
theory File_Space
  imports File_Table
begin

text \<open>
  Open files as a state machine - any interleaving of openings, transfers, duplications and closings by the
  processes that share a table - and the copying of a whole table to a child process.
\<close>


section \<open>Copying a table\<close>

definition opens :: "(nat \<Rightarrow> openfile) \<Rightarrow> nat \<Rightarrow> nat list \<Rightarrow> nat" where
  "opens m n is = length (filter (\<lambda>i. fstatus (m i) = FD_OPENED \<and> fnode (m i) = Some n) is)"

lemma opens_simps [simp]:
  "opens m n [] = 0"
  "opens m n (i # is) = (if fstatus (m i) = FD_OPENED \<and> fnode (m i) = Some n then 1 else 0) + opens m n is"
  by (simp_all add: opens_def)

lemma opens_cong: "(\<And>i. i \<in> set is \<Longrightarrow> m i = m' i) \<Longrightarrow> opens m n is = opens m' n is"
  by (induction "is") auto

text \<open>A change of the entries \<open>is\<close> of the table \<open>f\<close> only.\<close>

definition only_entries :: "nat \<Rightarrow> nat set \<Rightarrow> 'd fs_state \<Rightarrow> 'd fs_state \<Rightarrow> bool" where
  "only_entries f I s s' \<longleftrightarrow> live_fs s' = live_fs s \<and> cur_fs s' = cur_fs s \<and>
     (\<forall>g j. g \<noteq> f \<or> j \<notin> I \<longrightarrow> file_of s' g j = file_of s g j) \<and>
     (\<forall>g. fs_count (fss s' g) = fs_count (fss s g) \<and> pwd (fss s' g) = pwd (fss s g))"

lemma only_entries_simps:
  "only_entry f i s s' \<Longrightarrow> only_entries f {i} s s'" "only_entries f {} s s"
  "only_entries f I s s1 \<Longrightarrow> only_entries f J s1 s2 \<Longrightarrow> only_entries f (I \<union> J) s s2"
  by (simp_all add: only_entries_def only_entry_def)

lemma dup_files_ok:
  assumes "to \<noteq> src" "distinct is" "\<forall>i\<in>set is. fopen_count (file_of s to i) = 0"
    "\<forall>i\<in>set is. fstatus (file_of s src i) = FD_OPENED \<longrightarrow> fnode (file_of s src i) \<noteq> None"
  shows "\<exists>s'. dup_files to src is s = Some s' \<and> only_entries to (set is) s s' \<and>
    (\<forall>i\<in>set is. file_of s' to i = (if fstatus (file_of s src i) = FD_OPENED
       then dup_of (file_of s src i) (file_of s to i) else file_of s to i)) \<and>
    (\<forall>n. inodes (vfs s') n = shift (int (opens (file_of s src) n is)) (inodes (vfs s) n))"
  using assms(2-4)
proof (induction "is" arbitrary: s)
  case Nil
  then show ?case by (simp add: only_entries_simps)
next
  case (Cons i "is")
  let ?m = "file_of s src"
  obtain s1 where s1: "(if fstatus (?m i) = FD_OPENED
      then filemap_dup (to, i) (src, i) (mod_file to i (\<lambda>d. d\<lparr>fstatus := FD_INIT\<rparr>) s) else Some s) = Some s1"
    "only_entry to i s s1"
    "file_of s1 to i = (if fstatus (?m i) = FD_OPENED then dup_of (?m i) (file_of s to i) else file_of s to i)"
    "\<forall>n. inodes (vfs s1) n = shift (if fstatus (?m i) = FD_OPENED \<and> fnode (?m i) = Some n then 1 else 0) (inodes (vfs s) n)"
  proof (cases "fstatus (?m i) = FD_OPENED")
    case True
    let ?s = "mod_file to i (\<lambda>d. d\<lparr>fstatus := FD_INIT\<rparr>) s"
    obtain n where n: "fnode (?m i) = Some n" using Cons.prems(3) True by auto
    have pre: "fstatus (file_of ?s to i) = FD_INIT" "fopen_count (file_of ?s to i) = 0"
      "fstatus (file_of ?s src i) = FD_OPENED" "fnode (file_of ?s src i) = Some n"
      using Cons.prems(2) assms(1) True n by simp_all
    have i: "dup_of d (e\<lparr>fstatus := FD_INIT\<rparr>) = dup_of d e" for d e by (cases e) (simp add: dup_of_def)
    obtain s1 where "filemap_dup (to, i) (src, i) ?s = Some s1" "only_entry to i ?s s1"
      "file_of s1 to i = dup_of (?m i) (file_of s to i)"
      "inodes (vfs s1) = (inodes (vfs s))(n := shift 1 (inodes (vfs s) n))"
      using filemap_dup_ok [OF pre] assms(1) by (auto simp: i)
    then show ?thesis using True n
      by (intro that [of s1]) (auto intro: only_entry_trans [OF only_entry_mod(1)])
  next
    case False
    then show ?thesis by (intro that [of s]) (auto simp: only_entry_def)
  qed
  have same: "file_of s1 g j = file_of s g j" if "g \<noteq> to \<or> j \<noteq> i" for g j
    using s1(2) that by (auto simp: only_entry_def)
  have src: "file_of s1 src j = ?m j" for j using same assms(1) by simp
  have to: "file_of s1 to j = file_of s to j" if "j \<in> set is" for j
    by (rule same) (use that Cons.prems(1) in auto)
  obtain s' where s': "dup_files to src is s1 = Some s'" "only_entries to (set is) s1 s'"
    "\<forall>i\<in>set is. file_of s' to i = (if fstatus (?m i) = FD_OPENED then dup_of (?m i) (file_of s to i) else file_of s to i)"
    "\<forall>n. inodes (vfs s') n = shift (int (opens ?m n is)) (inodes (vfs s1) n)"
    using Cons.IH [of s1] Cons.prems to by (auto simp: src opens_cong [of "is" "file_of s1 src" ?m])
  have "only_entries to ({i} \<union> set is) s s'"
    by (rule only_entries_simps(3) [OF only_entries_simps(1) [OF s1(2)] s'(2)])
  moreover have "file_of s' to i = file_of s1 to i" using s'(2) Cons.prems(1) by (simp add: only_entries_def)
  ultimately show ?case using s1 s' by (auto simp: add.commute)
qed

lemma filemap_init_from:
  "filemap_init_from i n m j = (if i \<le> j \<and> j < i + n
     then (m j)\<lparr>fopen_count := 0, fstatus := FD_NONE, ffd := int j\<rparr> else m j)"
proof (induction n arbitrary: i m)
  case (Suc n)
  show ?case unfolding filemap_init_from.simps Suc.IH by (cases "j = i") auto
qed auto

lemma inode_ref_inc_inodes:
  "inodes (snd (inode_ref_inc n v)) m =
     (if m = n then (inodes v n)\<lparr>ref_count := ref_count (inodes v n) + 1\<rparr> else inodes v m)"
  by (simp add: inode_ref_inc_def)

text \<open>The reference that a table holds to its working directory.\<close>

definition pwd_ref :: "nat option \<Rightarrow> nat \<Rightarrow> inode \<Rightarrow> inode" where
  "pwd_ref w n d = (if w = Some n then d\<lparr>ref_count := ref_count d + 1\<rparr> else d)"

lemma pwd_ref_simps [simp]:
  "iopen_count (pwd_ref w n d) = iopen_count d"
  "ref_count (pwd_ref w n d) = ref_count d + (if w = Some n then 1 else 0)"
  by (simp_all add: pwd_ref_def)

text \<open>What \<^verbatim>\<open>fs_create\<close> leaves in a new structure.\<close>

lemma fs_create_ok:
  assumes "fs_create (Some f) s = (r, s')"
  shows "r = Some f" "live_fs s' = insert f (live_fs s)" "cur_fs s' = cur_fs s" "vfs s' = vfs s"
    "fs_count (fss s' f) = 0" "pwd (fss s' f) = None"
    "i < NENTRY \<Longrightarrow> file_of s' f i = (file_of s f i)\<lparr>fopen_count := 0, fstatus := FD_NONE, ffd := int i\<rparr>"
    "g \<noteq> f \<Longrightarrow> fss s' g = fss s g"
  using assms by (auto simp: fs_create_def file_of_def filemap_init_def filemap_init_from)

section \<open>Transfers, openings and closings in any order\<close>

definition node_of :: "'d fs_state \<Rightarrow> nat \<Rightarrow> nat \<Rightarrow> nat" where
  "node_of s f i = the (fnode (file_of s f i))"

text \<open>The end of a transfer closes the node when the file has been closed meanwhile and no other transfer uses it.\<close>

definition last_end :: "'d fs_state \<Rightarrow> (nat \<times> nat) multiset \<Rightarrow> nat \<Rightarrow> nat \<Rightarrow> bool" where
  "last_end s R f i \<longleftrightarrow> fstatus (file_of s f i) \<noteq> FD_OPENED \<and> count R (f, i) = 1"

text \<open>Closing an open descriptor closes the node when no transfer uses it.\<close>

definition last_close :: "'d fs_state \<Rightarrow> (nat \<times> nat) multiset \<Rightarrow> nat \<Rightarrow> int \<Rightarrow> bool" where
  "last_close s R f n \<longleftrightarrow> testfd n \<and> fstatus (file_of s f (nat n)) = FD_OPENED \<and> (f, nat n) \<notin># R"

text \<open>
  What the openings of other nodes may do to those that tables use: no opening is lost, and a node
  just opened has one more.
\<close>

definition keeps_openings :: "nat option \<Rightarrow> 'd fs_state \<Rightarrow> 'd vfs \<Rightarrow> bool" where
  "keeps_openings new s v \<longleftrightarrow> (\<forall>m.
     (users s m \<noteq> {} \<longrightarrow> inode_check m v \<and>
        iopen_count (inodes (vfs s) m) + (if new = Some m then 1 else 0) \<le> iopen_count (inodes v m)) \<and>
     (new = Some m \<longrightarrow> inode_check m v \<and> 1 \<le> iopen_count (inodes v m)))"

definition opens_well :: "'d inode_ops \<Rightarrow> string \<Rightarrow> u32 \<Rightarrow> 'd fs_state \<Rightarrow> bool" where
  "opens_well ops path fl s \<longleftrightarrow>
     (\<forall>ret n v. vfs_open ops path fl (vfs s) = Some (ret, n, v) \<longrightarrow>
        (if ret = 0 then n \<noteq> None \<and> keeps_openings n s v else keeps_openings None s v)) \<and>
     (\<forall>n v ret st v'. vop_fstat ops n v = Some (ret, st, v') \<longrightarrow> ret = 0 \<and> inodes v' = inodes v)"

text \<open>
  The steps of the processes that share tables, one operation at a time; a transfer, which may sleep, is two
  steps, and \<open>R\<close> are those that have begun and not ended.  A step that closes a file for the last
  time closes its node; between two steps the rest of the kernel reads and writes files, looks
  names up and changes what lies below the nodes (\<open>others\<close>).
\<close>

inductive file_step :: "'d inode_ops \<Rightarrow> 'd fs_state \<times> (nat \<times> nat) multiset \<Rightarrow> 'd fs_state \<times> (nat \<times> nat) multiset \<Rightarrow> bool"
  for ops where
  begins_read: "file_read_begin n s = Some (r, Some fi, s') \<Longrightarrow> file_step ops (s, R) (s', add_mset fi R)"
| begins_write: "file_write_begin n s = Some (r, Some fi, s') \<Longrightarrow> file_step ops (s, R) (s', add_mset fi R)"
| begins_other: "file_begin n s = Some (r, Some fi, s') \<Longrightarrow> file_step ops (s, R) (s', add_mset fi R)"
| ends: "(f, i) \<in># R \<Longrightarrow> last_end s R f i \<longrightarrow> can_close ops (node_of s f i) (vfs s) \<Longrightarrow>
    file_rw_end ops f i c s = Some s' \<Longrightarrow> file_step ops (s, R) (s', R - {#(f, i)#})"
| opens_file: "opens_well ops path fl s \<Longrightarrow> file_open ops path fl s = Some (r, s') \<Longrightarrow> file_step ops (s, R) (s', R)"
| closes: "\<forall>f. cur_fs s = Some f \<and> last_close s R f n \<longrightarrow> can_close ops (node_of s f (nat n)) (vfs s) \<Longrightarrow>
    file_close ops n s = Some (r, s') \<Longrightarrow> file_step ops (s, R) (s', R)"
| dups: "\<forall>n. ref_count (inodes (vfs s) n) + 1 < MAX_INODE_COUNT \<Longrightarrow> file_dup a b s = Some (r, s') \<Longrightarrow>
    file_step ops (s, R) (s', R)"
| switches: "f \<in> live_fs s \<Longrightarrow> file_step ops (s, R) (s\<lparr>cur_fs := Some f\<rparr>, R)"
| others: "keeps_openings None s v \<Longrightarrow> file_step ops (s, R) (s\<lparr>vfs := v\<rparr>, R)"

inductive_cases file_stepE: "file_step ops x y"

lemma file_begins:
  assumes "file_read_begin n s = Some (r, Some fi, s') \<or> file_write_begin n s = Some (r, Some fi, s') \<or>
    file_begin n s = Some (r, Some fi, s')"
  obtains r0 f i where "fi = (f, i)" "fd2file n s = Some (r0, Some (f, i))" "filemap_acquire f i s = Some s'"
proof (cases "fd2file n s")
  case (Some ro)
  obtain r0 o0 where ro: "ro = (r0, o0)" by (cases ro)
  show ?thesis
  proof (cases o0)
    case o: (Some gj)
    obtain g j where gj: "gj = (g, j)" by (cases gj)
    show ?thesis using assms that [of g j r0] Some ro o gj
      by (auto simp: file_read_begin_def file_write_begin_def file_begin_def bind_eq_Some_conv split: if_splits)
  qed (use assms Some ro in \<open>auto simp: file_read_begin_def file_write_begin_def file_begin_def\<close>)
qed (use assms in \<open>auto simp: file_read_begin_def file_write_begin_def file_begin_def\<close>)

lemma begin_inv:
  assumes "file_inv s R" "fd2file n s = Some (r0, Some (f, i))" "filemap_acquire f i s = Some s'"
  shows "file_inv s' (add_mset (f, i) R)"
proof -
  obtain g where g: "cur_fs s = Some g" "f = g" "i = nat n" "nat n < NENTRY" "fstatus (file_of s g (nat n)) = FD_OPENED"
    using fd2file_Some [OF assms(2)] by (metis prod.inject)
  have l: "f \<in> live_fs s" "i < NENTRY" "fstatus (file_of s f i) = FD_OPENED"
    using file_invD(5) [OF assms(1) g(1)] g(2-5) by simp_all
  show ?thesis using acquire_ok [OF assms(1) l] assms(3) by auto
qed

lemma file_close_ok:
  assumes q: "last_close s R f n \<Longrightarrow> can_close ops (node_of s f (nat n)) (vfs s)"
    and inv: "file_inv s R" and c: "cur_fs s = Some f" "0 < fs_count (fss s f)"
  shows "\<exists>r s'. file_close ops n s = Some (r, s') \<and> file_inv s' R \<and>
    (if testfd n \<and> fstatus (file_of s f (nat n)) = FD_OPENED
     then r = 0 \<and> only_entry f (nat n) s s' \<and>
       (if (f, nat n) \<in># R then fstatus (file_of s' f (nat n)) = FD_CLOSED \<and> vfs s' = vfs s
        else fstatus (file_of s' f (nat n)) = FD_NONE \<and>
          inodes (vfs s') = (inodes (vfs s))(the (fnode (file_of s f (nat n))) :=
            shift (-1) (inodes (vfs s) (the (fnode (file_of s f (nat n)))))))
     else r = fail_code E_INVAL \<and> s' = s)"
proof (cases "testfd n \<and> fstatus (file_of s f (nat n)) = FD_OPENED")
  case True
  then have q': "(f, nat n) \<notin># R \<Longrightarrow> can_close ops (node_of s f (nat n)) (vfs s)"
    using q by (simp add: last_close_def)
  from True have l: "f \<in> live_fs s" "nat n < NENTRY" using file_invD(5) [OF inv c(1)] by (auto simp: testfd_def)
  have "ffd (file_of s f (nat n)) = n" using file_invD(2) [OF inv l] True by (simp add: entry_ok_def testfd_def)
  then have "fd2file n s = Some (0, Some (f, nat n))"
    using True c by (simp add: fd2file_def get_filemap_def Let_def)
  then have eq: "file_close ops n s = do { s \<leftarrow> filemap_close ops f (nat n) s; Some (0, s) }"
    by (simp add: file_close_def)
  have op: "fstatus (file_of s f (nat n)) = FD_OPENED" using True by simp
  show ?thesis
  proof (cases "(f, nat n) \<in># R")
    case r: True
    show ?thesis using filemap_close_ok [OF q' [unfolded node_of_def] inv l op] True r unfolding eq by auto
  next
    case r: False
    show ?thesis using filemap_close_ok [OF q' [unfolded node_of_def] inv l op] True r unfolding eq by auto
  qed
next
  case False
  have "ffd (file_of s f (nat n)) = n" if "testfd n"
    using file_invD(2) [OF inv file_invD(5) [OF inv c(1)], of "nat n"] that by (auto simp: entry_ok_def testfd_def)
  then have "fd2file n s = Some (fail_code E_INVAL, None)"
    using False c by (auto simp: fd2file_def get_filemap_def Let_def)
  then show ?thesis using False inv by (auto simp: file_close_def)
qed

lemma users_vfs: "users (s\<lparr>vfs := v\<rparr>) n = users s n" "users (s\<lparr>cur_fs := c\<rparr>) n = users s n"
  by (simp_all add: users_def file_of_def)

text \<open>The node of an entry in use, and the start of an operation on it.\<close>

lemma node_in_use:
  assumes "file_inv s R" "f \<in> live_fs s" "i < NENTRY" "fstatus (file_of s f i) = FD_OPENED \<or> fstatus (file_of s f i) = FD_CLOSED"
  shows "inode_check (node_of s f i) (vfs s)" "0 < iopen_count (inodes (vfs s) (node_of s f i))"
proof -
  have "(f, i) \<in> users s (node_of s f i)"
    using file_invD(2) [OF assms(1-3)] assms(2-4) by (auto simp: users_def uses_def node_of_def entry_ok_def)
  moreover from this have "0 < card (users s (node_of s f i))"
    using users_finite [OF file_invD(1) [OF assms(1)]] by (auto simp: card_gt_0_iff)
  ultimately show "inode_check (node_of s f i) (vfs s)" "0 < iopen_count (inodes (vfs s) (node_of s f i))"
    using file_invD(4) [OF assms(1), of "node_of s f i"] by (auto simp: node_ok_def)
qed

lemma begins_ok:
  assumes "cur_fs s = Some f" "0 < fs_count (fss s f)"
  shows "file_read_begin n s \<noteq> None" "file_write_begin n s \<noteq> None" "file_begin n s \<noteq> None"
  using assms
  by (auto simp: file_read_begin_def file_write_begin_def file_begin_def fd2file_def get_filemap_def filemap_acquire_def Let_def)

text \<open>An unused entry changes, and the nodes in use keep their openings.\<close>

lemma set_entry:
  assumes inv: "file_inv s R" and fi: "f \<in> live_fs s" "i < NENTRY"
    and d: "fstatus (file_of s f i) = FD_NONE" and o: "only_entry f i s s'"
    and e: "ffd (file_of s' f i) = ffd (file_of s f i)"
      "case new of None \<Rightarrow> fstatus (file_of s' f i) = FD_NONE \<and> fopen_count (file_of s' f i) = 0
       | Some n \<Rightarrow> fstatus (file_of s' f i) = FD_OPENED \<and> fopen_count (file_of s' f i) = 1 \<and> fnode (file_of s' f i) = Some n"
    and k: "keeps_openings new s (vfs s')"
  shows "file_inv s' R"
proof -
  have eo: "entry_ok R (file_of s' f i) (f, i)"
    using file_invD(2) [OF inv fi] d e by (cases new) (simp_all add: entry_ok_def not_in_iff)
  have nu: "(f, i) \<notin> users s m" for m using d by (simp add: users_def uses_def)
  have us: "users s' m = (if new = Some m then insert (f, i) (users s m) else users s m)" for m
    using users_entry [OF o fi, of m] nu [of m] e by (cases new) (auto simp: uses_def)
  have "node_ok s' m" for m
  proof -
    have f: "finite (users s m)" using users_finite [OF file_invD(1) [OF inv]] .
    have c: "users s m \<noteq> {} \<Longrightarrow> int (card (users s m)) \<le> iopen_count (inodes (vfs s) m)"
      using file_invD(4) [OF inv, of m] by (simp add: node_ok_def)
    show ?thesis
    proof (cases "users s m = {}")
      case True
      then show ?thesis using k us [of m] by (auto simp: node_ok_def keeps_openings_def)
    next
      case False
      then show ?thesis using k us [of m] c nu [of m] f by (auto simp: node_ok_def keeps_openings_def)
    qed
  qed
  then show ?thesis using file_inv_entry [OF inv o fi eo] by blast
qed

lemma keeps_openings_cong: "users s' = users s \<Longrightarrow> vfs s' = vfs s \<Longrightarrow> keeps_openings m s' v = keeps_openings m s v"
  by (simp add: keeps_openings_def)

lemma keeps_openings_inodes: "inodes v' = inodes v \<Longrightarrow> keeps_openings m s v' = keeps_openings m s v"
  by (simp add: keeps_openings_def inode_check_def)

lemma file_open_ok:
  assumes inv: "file_inv s R" and w: "opens_well ops path fl s" and o: "file_open ops path fl s = Some (r, s')"
  shows "file_inv s' R"
proof (cases "filemap_alloc NO_FD s")
  case None
  then show ?thesis using o inv by (auto simp: file_open_def Let_def split: if_splits)
next
  case (Some ros)
  obtain r0 x s0 where ros: "ros = (r0, x, s0)" by (cases ros)
  obtain f where f: "cur_fs s = Some f" "0 < fs_count (fss s f)"
    using Some by (auto simp: filemap_alloc_def get_filemap_def bind_eq_Some_conv split: if_splits)
  show ?thesis
  proof (cases "fd_slot (file_of s f) NO_FD")
    case (Inl e)
    then show ?thesis using o inv filemap_alloc_ok [OF inv f, of NO_FD]
      by (auto simp: file_open_def Let_def split: if_splits)
  next
    case (Inr i)
    let ?s = "mod_file f i (\<lambda>d. d\<lparr>fstatus := FD_INIT, fnode := None\<rparr>) s"
    note sl = fd_slot_ok [OF Inr]
    have live: "f \<in> live_fs s" using file_invD(5) [OF inv f(1)] .
    have oc: "fopen_count (file_of s f i) = 0" using file_invD(2) [OF inv live sl(1)] sl(2) by (simp add: entry_ok_def)
    note set = set_entry [OF inv live sl(1,2)]
    have al: "filemap_alloc NO_FD s = Some (0, Some (f, i), ?s)" using filemap_alloc_ok [OF inv f, of NO_FD] Inr by simp
    have acc: "fl AND O_ACCMODE = 0 \<or> fl AND O_ACCMODE = 1 \<or> fl AND O_ACCMODE = 2 \<or> s' = s"
      using o by (auto simp: file_open_def Let_def split: if_splits)
    show ?thesis
    proof (cases "vfs_open ops path fl (vfs s)")
      case None
      then show ?thesis using o inv al by (auto simp: file_open_def Let_def split: if_splits)
    next
      case (Some rnv)
      obtain ret n v where v: "rnv = (ret, n, v)" by (cases rnv)
      have fr: "filemap_free ops f i (?s\<lparr>vfs := v\<rparr>) = Some (mod_file f i (\<lambda>d. d\<lparr>fstatus := FD_NONE\<rparr>) (?s\<lparr>vfs := v\<rparr>))"
        using oc by (simp add: filemap_free_def)
      show ?thesis
      proof (cases "ret = 0")
        case False
        then have s': "s' = s \<or> s' = mod_file f i (\<lambda>d. d\<lparr>fstatus := FD_NONE\<rparr>) (?s\<lparr>vfs := v\<rparr>)"
          using o al Some v fr by (auto simp: file_open_def Let_def split: if_splits)
        have k: "keeps_openings None s v" using w Some v False by (auto simp: opens_well_def)
        show ?thesis using s' inv oc k
          by (elim disjE, simp, intro set [where new = None]) (auto simp: only_entry_def)
      next
        case True
        then obtain m where m: "n = Some m" "keeps_openings (Some m) s v" using w Some v by (auto simp: opens_well_def)
        let ?rd = "fl AND O_ACCMODE = 0 \<or> fl AND O_ACCMODE = 2" and ?wr = "fl AND O_ACCMODE = 1 \<or> fl AND O_ACCMODE = 2"
        let ?t = "mod_file f i (\<lambda>d. d\<lparr>fpos := 0\<rparr>) (?s\<lparr>vfs := v\<rparr>)"
        let ?m = "\<lambda>t. mod_file f i (\<lambda>d. d\<lparr>fnode := Some m, freadable := ?rd, fwritable := ?wr\<rparr>) t"
        let ?fin = "\<lambda>t. do { s \<leftarrow> filemap_open f i (?m t); Some (ffd (file_of s f i), s) }"
        have fin: "only_entry f i s s2 \<and> ffd (file_of s2 f i) = ffd (file_of s f i) \<and> fstatus (file_of s2 f i) = FD_OPENED \<and>
            fopen_count (file_of s2 f i) = 1 \<and> fnode (file_of s2 f i) = Some m \<and> inodes (vfs s2) = inodes v"
          if "?fin t = Some (r, s2)" "only_entry f i s t" "ffd (file_of t f i) = ffd (file_of s f i)"
            "fstatus (file_of t f i) = FD_INIT" "fopen_count (file_of t f i) = 0" "inodes (vfs t) = inodes v" for t s2
          using that by (auto simp: filemap_open_def only_entry_def)
        have ot: "only_entry f i s ?t" "only_entry f i s (mod_file f i (\<lambda>d. d\<lparr>fpos := p\<rparr>) (?t\<lparr>vfs := u\<rparr>))" for p u
          by (auto simp: only_entry_def)
        have "s' = s \<or> only_entry f i s s' \<and> ffd (file_of s' f i) = ffd (file_of s f i) \<and>
            fstatus (file_of s' f i) = FD_OPENED \<and> fopen_count (file_of s' f i) = 1 \<and> fnode (file_of s' f i) = Some m \<and>
            inodes (vfs s') = inodes v"
        proof (cases "(fl AND O_ACCMODE \<noteq> 0 \<and> fl AND O_ACCMODE \<noteq> 1 \<and> fl AND O_ACCMODE \<noteq> 2)")
          case True
          then show ?thesis using o by (simp add: file_open_def Let_def)
        next
          case acc0: False
          then have acc: "(fl AND O_ACCMODE \<noteq> 0 \<and> fl AND O_ACCMODE \<noteq> 1 \<and> fl AND O_ACCMODE \<noteq> 2) = False" by blast
          show ?thesis
          proof (cases "fl AND O_APPEND = 0")
            case app: True
            have "file_open ops path fl s = ?fin ?t"
              using al Some v True m(1) app unfolding file_open_def Let_def acc by simp
            then show ?thesis using fin [of ?t s'] o ot(1) oc by simp
          next
            case app: False
            show ?thesis
            proof (cases "vop m (vop_fstat ops m) (vfs ?t)")
              case None
              then have "file_open ops path fl s = None"
                using al Some v True m(1) app unfolding file_open_def Let_def acc by simp
              then show ?thesis using o by simp
            next
              case st: (Some rsv)
              obtain r1 st1 u where u: "rsv = (r1, st1, u)" by (cases rsv)
              have u': "r1 = 0" "inodes u = inodes v" using st u w by (auto simp: vop_def opens_well_def bind_eq_Some_conv split: if_splits)
              let ?t2 = "mod_file f i (\<lambda>d. d\<lparr>fpos := st_size st1\<rparr>) (?t\<lparr>vfs := u\<rparr>)"
              have "file_open ops path fl s = ?fin ?t2"
                using al Some v True m(1) app st u u'(1) unfolding file_open_def Let_def acc by simp
              then show ?thesis using fin [of ?t2 s'] o ot(2) oc u'(2) by simp
            qed
          qed
        qed
        then show ?thesis using inv set [where new = "Some m"] m(2) keeps_openings_inodes [of "vfs s'" v "Some m" s] by auto
      qed
    qed
  qed
qed

lemma file_step_inv:
  assumes "file_step ops x y"
  shows "file_inv (fst x) (snd x) \<Longrightarrow> file_inv (fst y) (snd y)"
  using assms(1)
proof (cases rule: file_step.cases)
  case (begins_read n s r fi s' R)
  assume inv: "file_inv (fst x) (snd x)"
  obtain r0 f i where "fi = (f, i)" "fd2file n s = Some (r0, Some (f, i))" "filemap_acquire f i s = Some s'"
    using begins_read by (metis file_begins)
  then show ?thesis using begin_inv [of s R n] begins_read inv by auto
next
  case (begins_write n s r fi s' R)
  assume inv: "file_inv (fst x) (snd x)"
  obtain r0 f i where "fi = (f, i)" "fd2file n s = Some (r0, Some (f, i))" "filemap_acquire f i s = Some s'"
    using begins_write by (metis file_begins)
  then show ?thesis using begin_inv [of s R n] begins_write inv by auto
next
  case (begins_other n s r fi s' R)
  assume inv: "file_inv (fst x) (snd x)"
  obtain r0 f i where "fi = (f, i)" "fd2file n s = Some (r0, Some (f, i))" "filemap_acquire f i s = Some s'"
    using begins_other by (metis file_begins)
  then show ?thesis using begin_inv [of s R n] begins_other inv by auto
next
  case (ends f i R s c s')
  assume inv: "file_inv (fst x) (snd x)"
  then show ?thesis using file_rw_end_ok [of s f i R ops c] ends by (auto simp: last_end_def node_of_def)
next
  case (closes s R n r s')
  assume inv: "file_inv (fst x) (snd x)"
  show ?thesis
  proof (cases "fd2file n s")
    case (Some ro)
    obtain r0 o0 where ro: "ro = (r0, o0)" by (cases ro)
    show ?thesis
    proof (cases o0)
      case None then show ?thesis using closes Some ro inv by (auto simp: file_close_def)
    next
      case (Some fi)
      then obtain f where "cur_fs s = Some f" "0 < fs_count (fss s f)"
        using fd2file_Some [of n s r0 fi] \<open>fd2file n s = Some ro\<close> ro by metis
      then show ?thesis using file_close_ok [of s R f n ops] closes inv by auto
    qed
  qed (use closes in \<open>simp add: file_close_def\<close>)
next
  case (dups s a b r s' R)
  assume inv: "file_inv (fst x) (snd x)"
  show ?thesis
  proof (cases "fd2file a s")
    case (Some ro)
    obtain r0 o0 where ro: "ro = (r0, o0)" by (cases ro)
    show ?thesis
    proof (cases o0)
      case None then show ?thesis using dups Some ro inv by (auto simp: file_dup_def)
    next
      case (Some fi)
      then obtain f where "cur_fs s = Some f" "0 < fs_count (fss s f)"
        using fd2file_Some [of a s r0 fi] \<open>fd2file a s = Some ro\<close> ro by metis
      then show ?thesis using file_dup_ok [of s R f a b] dups inv by (auto split: if_splits sum.splits)
    qed
  qed (use dups in \<open>simp add: file_dup_def\<close>)
next
  case (switches f s R)
  assume inv: "file_inv (fst x) (snd x)"
  then show ?thesis using switches by (simp add: file_inv_def node_ok_def users_vfs file_of_def)
next
  case (others s v R)
  assume inv: "file_inv (fst x) (snd x)"
  then have n: "node_ok s n" for n using others by (simp add: file_inv_def)
  have "node_ok (s\<lparr>vfs := v\<rparr>) n" for n
    using n [of n] others(3) by (auto simp: node_ok_def users_vfs keeps_openings_def dest!: spec [of _ n])
  then show ?thesis using others(1,2) inv by (simp add: file_inv_def file_of_def)
next
  case (opens_file path fl s r s' R)
  assume inv: "file_inv (fst x) (snd x)"
  then show ?thesis using file_open_ok [of s R ops path fl r s'] opens_file by simp
qed

lemma file_steps_inv:
  assumes "(file_step ops)\<^sup>*\<^sup>* x y" "file_inv (fst x) (snd x)"
  shows "file_inv (fst y) (snd y)"
  using assms by induction (auto dest: file_step_inv)


section \<open>Copying a table to a child\<close>

text \<open>File operations that do nothing, and a table with one file open, on node \<open>7\<close>.\<close>

definition demo_ops :: "unit inode_ops" where
  "demo_ops = \<lparr>vop_open = (\<lambda>n fl v. Some (0, v)), vop_close = (\<lambda>n v. Some (0, v)),
     vop_read = (\<lambda>n iob v. Some (0, iob, v)), vop_write = (\<lambda>n iob v. Some (0, iob, v)),
     vop_fstat = (\<lambda>n v. Some (0, \<lparr>st_mode = 0, st_nlinks = 0, st_blocks = 0, st_size = 0\<rparr>, v)), vop_fsync = (\<lambda>n v. Some (0, v)),
     vop_getdirentry = (\<lambda>n iob v. Some (0, iob, v)), vop_reclaim = (\<lambda>n v. Some (0, v)),
     vop_tryseek = (\<lambda>n p v. Some (0, v)), vop_truncate = (\<lambda>n l v. Some (0, v)),
     vop_create = (\<lambda>n p e v. Some (0, None, v)), vfs_lookup = (\<lambda>p v. Some (0, None, p, v)),
     vfs_lookup_parent = (\<lambda>p v. Some (0, None, p, v))\<rparr>"

definition demo_files :: "unit fs_state" where
  "demo_files = \<lparr>vfs = \<lparr>inodes = (\<lambda>n. \<lparr>ref_count = 2, iopen_count = 1\<rparr>), fsdata = ()\<rparr>,
     fss = (\<lambda>f. \<lparr>pwd = Some 3, filemap = (\<lambda>i. \<lparr>fstatus = (if i = 0 then FD_OPENED else FD_NONE), freadable = True,
         fwritable = True, ffd = int i, fpos = 0, fnode = Some 7, fopen_count = (if i = 0 then 1 else 0)\<rparr>),
       fs_count = 1\<rparr>),
     live_fs = {0}, cur_fs = Some 0\<rparr>"

lemma demo_file: "file_of demo_files f i = \<lparr>fstatus = (if i = 0 then FD_OPENED else FD_NONE), freadable = True,
    fwritable = True, ffd = int i, fpos = 0, fnode = Some 7, fopen_count = (if i = 0 then 1 else 0)\<rparr>"
  by (simp add: file_of_def demo_files_def)

lemma demo_files_inv: "file_inv demo_files {#}"
proof -
  have "users demo_files n = (if n = 7 then {(0, 0)} else {})" for n
    by (auto simp: users_def uses_def demo_file NENTRY) (simp_all add: demo_files_def)
  then have "node_ok demo_files n" for n
    by (simp add: node_ok_def inode_check_def MAX_INODE_COUNT_def) (simp add: demo_files_def)
  then show ?thesis
    by (simp add: file_inv_def entry_ok_def demo_file) (simp add: demo_files_def)
qed

text \<open>
  C27. Giving a child a copy of its parent's table of open files: every file open in the parent is
  open in the child under the same descriptor, on the same node, with the same position and
  rights and one use; every other entry of the child stays as \<^verbatim>\<open>fs_create\<close> made it.  The child
  works in the parent's directory, each inode has exactly as many openings and references more as the
  copy and the directory account for, and the parent's table, the other tables and all use counts are as
  before.  It never fails an assertion.
\<close>

theorem dup_fs_exact:
  assumes "to \<noteq> src" "0 < fs_count (fss s src)" "fs_create (Some to) s0 = (r, s)"
    "\<forall>i<NENTRY. fstatus (file_of s src i) = FD_OPENED \<longrightarrow> fnode (file_of s src i) \<noteq> None"
  shows "\<exists>s'. dup_fs to src s = Some (0, s') \<and> live_fs s' = live_fs s \<and> cur_fs s' = cur_fs s \<and>
    (\<forall>g. fs_count (fss s' g) = fs_count (fss s g)) \<and> pwd (fss s' to) = pwd (fss s src) \<and>
    (\<forall>g. g \<noteq> to \<longrightarrow> (\<forall>j. file_of s' g j = file_of s g j) \<and> pwd (fss s' g) = pwd (fss s g)) \<and>
    (\<forall>i<NENTRY. let d = file_of s src i; e = file_of s' to i in
       ffd e = int i \<and>
       (if fstatus d = FD_OPENED
        then fstatus e = FD_OPENED \<and> fopen_count e = 1 \<and> fnode e = fnode d \<and> fpos e = fpos d \<and>
          freadable e = freadable d \<and> fwritable e = fwritable d
        else fstatus e = FD_NONE \<and> fopen_count e = 0)) \<and>
    (\<forall>n. inodes (vfs s') n = shift (int (opens (file_of s src) n [0..<NENTRY]))
       (pwd_ref (pwd (fss s src)) n (inodes (vfs s) n)))"
proof -
  let ?w = "pwd (fss s src)"
  let ?b = "mod_fs to (\<lambda>d. d\<lparr>pwd := ?w\<rparr>) s"
  note cr = fs_create_ok [OF assms(3)]
  define t where "t = (case ?w of Some n \<Rightarrow> ?b\<lparr>vfs := snd (inode_ref_inc n (vfs ?b))\<rparr> | None \<Rightarrow> ?b)"
  have tf: "fss t = fss ?b" "live_fs t = live_fs s" "cur_fs t = cur_fs s"
    "inodes (vfs t) n = pwd_ref ?w n (inodes (vfs s) n)" for n
    by (simp_all add: t_def pwd_ref_def inode_ref_inc_inodes split: option.split)
  have fo: "file_of t g j = file_of s g j" for g j by (simp add: file_of_def tf(1))
  have p3: "\<forall>i\<in>set [0..<NENTRY]. fopen_count (file_of t to i) = 0" using cr(7) by (simp add: fo)
  have p4: "\<forall>i\<in>set [0..<NENTRY]. fstatus (file_of t src i) = FD_OPENED \<longrightarrow> fnode (file_of t src i) \<noteq> None"
    using assms(4) fo by simp
  obtain u where u: "dup_files to src [0..<NENTRY] t = Some u" "only_entries to (set [0..<NENTRY]) t u"
    "\<forall>i\<in>set [0..<NENTRY]. file_of u to i = (if fstatus (file_of s src i) = FD_OPENED
       then dup_of (file_of s src i) (file_of t to i) else file_of t to i)"
    "\<forall>n. inodes (vfs u) n = shift (int (opens (file_of s src) n [0..<NENTRY])) (inodes (vfs t) n)"
    using dup_files_ok [OF assms(1) distinct_upt p3 p4]
    by (auto simp: fo opens_cong [of "[0..<NENTRY]" "file_of t src" "file_of s src"])
  have w: "pwd (fss ?b to) = ?w" "fs_count (fss s to) = 0 \<and> fs_count (fss s src) > 0"
    using assms(2) cr(5) by simp_all
  have "dup_fs to src s = Some (0, u)"
    unfolding dup_fs_def Let_def w(1) t_def [symmetric] using u(1) w(2) by (simp only: bind_kassert if_True bind.simps) simp
  moreover have "let d = file_of s src i; e = file_of u to i in ffd e = int i \<and> (if fstatus d = FD_OPENED
        then fstatus e = FD_OPENED \<and> fopen_count e = 1 \<and> fnode e = fnode d \<and> fpos e = fpos d \<and>
          freadable e = freadable d \<and> fwritable e = fwritable d
        else fstatus e = FD_NONE \<and> fopen_count e = 0)" if "i < NENTRY" for i
    using u(3) cr(7) [OF that] that by (simp add: fo Let_def) (simp add: dup_of_def)
  moreover have "file_of u g j = file_of s g j" if "g \<noteq> to" for g j
    using u(2) that by (simp add: only_entries_def fo)
  moreover have "live_fs u = live_fs s" "cur_fs u = cur_fs s"
    "fs_count (fss u g) = fs_count (fss t g)" "pwd (fss u g) = pwd (fss t g)" for g
    using u(2) tf(2,3) by (simp_all add: only_entries_def)
  ultimately show ?thesis using u(4) tf(1,4) by (intro exI [of _ u]) auto
qed

theorem dup_fs_exact_witness:
  "\<exists>s'. dup_fs 1 0 (snd (fs_create (Some 1) demo_files)) = Some (0, s') \<and> fstatus (file_of s' 1 0) = FD_OPENED \<and>
     fnode (file_of s' 1 0) = Some 7 \<and> pwd (fss s' 1) = Some 3"
proof -
  let ?s = "snd (fs_create (Some 1) demo_files)"
  obtain r where r: "fs_create (Some 1) demo_files = (r, ?s)" by (cases "fs_create (Some 1) demo_files") auto
  have f: "fss ?s 0 = fss demo_files 0" using fs_create_ok(8) [OF r, of 0] by simp
  then have e: "file_of ?s 0 i = file_of demo_files 0 i" for i by (simp add: file_of_def)
  have n: "0 < NENTRY" by (simp add: NENTRY)
  have o: "fstatus (file_of ?s 0 0) = FD_OPENED" "fnode (file_of ?s 0 0) = Some 7" unfolding e by (simp_all add: demo_file)
  have p: "pwd (fss ?s 0) = Some 3" "0 < fs_count (fss ?s 0)" unfolding f by (simp_all add: demo_files_def)
  have a: "\<forall>i<NENTRY. fstatus (file_of ?s 0 i) = FD_OPENED \<longrightarrow> fnode (file_of ?s 0 i) \<noteq> None" unfolding e by (simp add: demo_file)
  have ne: "(1 :: nat) \<noteq> 0" by simp
  show ?thesis using dup_fs_exact [OF ne p(2) r a] n o p by (auto simp: Let_def)
qed

end
