(* ===== verification/Bitmap.thy ===== *)
theory Bitmap
  imports Machine_Arith String_Lib
begin

text \<open>
  The bitmaps of \<^verbatim>\<open>kern/fs/sfs/bitmap.c\<close>, in which SFS keeps the free blocks of a disk: a set bit
  is a free number.  The words of the map are a list.  The buffers that the file system takes from
  \<^verbatim>\<open>kmalloc\<close> are objects of their own; \<open>kans\<close> holds what the calls to come answer and \<open>kout\<close> counts
  the objects that are out.
\<close>

record heap_st =
  kans :: "bool list"
  kout :: nat

definition get_obj :: "heap_st \<Rightarrow> bool \<times> heap_st" where
  "get_obj h = (case kans h of
     True # as \<Rightarrow> (True, \<lparr>kans = as, kout = kout h + 1\<rparr>)
   | False # as \<Rightarrow> (False, h\<lparr>kans := as\<rparr>)
   | [] \<Rightarrow> (False, h))"

definition put_obj :: "heap_st \<Rightarrow> heap_st" where
  "put_obj h = h\<lparr>kout := kout h - 1\<rparr>"

definition WORD_BITS :: u32 where "WORD_BITS = 32"
definition WORD_BITS_SHIFT :: nat where "WORD_BITS_SHIFT = 2 + 3"

record bitmap =
  nbits :: u32
  nwords :: u32
  wmap :: "u32 list"

text \<open>The loop that marks the bits above the last number as in use.\<close>

fun clear_over :: "nat \<Rightarrow> u32 \<Rightarrow> u32" where
  "clear_over 0 w = w"
| "clear_over (Suc n) w = clear_over n (w XOR push_bit (32 - Suc n) 1)"

definition bitmap_create :: "u32 \<Rightarrow> heap_st \<Rightarrow> (bitmap option \<times> heap_st) option" where
  "bitmap_create n h = do {
     kassert (n \<noteq> 0 \<and> n + WORD_BITS > n);
     let (ok, h) = get_obj h;
     if \<not> ok then Some (None, h)
     else do {
       let nw = roundup_div_2n n WORD_BITS_SHIFT;
       let (ok, h) = get_obj h;
       if \<not> ok then Some (None, put_obj h)
       else do {
         let m = replicate (unat nw) (0xFFFFFFFF :: u32);
         m \<leftarrow> (if n \<noteq> nw * WORD_BITS then do {
             let ix = nw - 1;
             let overbits = n - ix * WORD_BITS;
             kassert (n div WORD_BITS = ix);
             kassert (overbits > 0 \<and> overbits < WORD_BITS);
             Some (m[unat ix := clear_over (unat (WORD_BITS - overbits)) (m ! unat ix)])
           } else Some m);
         Some (Some \<lparr>nbits = n, nwords = nw, wmap = m\<rparr>, h)
       }
     }
   }"

text \<open>The error code, the number found and the map.\<close>

definition bitmap_alloc :: "bitmap \<Rightarrow> (int \<times> nat option \<times> bitmap) option" where
  "bitmap_alloc b = (case find (\<lambda>ix. wmap b ! ix \<noteq> 0) [0..<unat (nwords b)] of
     None \<Rightarrow> Some (fail_code E_NO_MEM, None, b)
   | Some ix \<Rightarrow> (case find (\<lambda>off. wmap b ! ix AND push_bit off 1 \<noteq> 0) [0..<32] of
       None \<Rightarrow> None
     | Some off \<Rightarrow> Some (0, Some (ix * 32 + off), b\<lparr>wmap := (wmap b)[ix := (wmap b ! ix) XOR push_bit off 1]\<rparr>)))"

text \<open>The word and the mask that hold a number.\<close>

definition bitmap_translate :: "bitmap \<Rightarrow> nat \<Rightarrow> (nat \<times> u32) option" where
  "bitmap_translate b i = do { kassert (i < unat (nbits b)); Some (i div 32, push_bit (i mod 32) 1) }"

definition bitmap_test :: "bitmap \<Rightarrow> nat \<Rightarrow> bool option" where
  "bitmap_test b i = do { (w, m) \<leftarrow> bitmap_translate b i; Some (wmap b ! w AND m \<noteq> 0) }"

definition bitmap_free :: "bitmap \<Rightarrow> nat \<Rightarrow> bitmap option" where
  "bitmap_free b i = do {
     (w, m) \<leftarrow> bitmap_translate b i;
     kassert (wmap b ! w AND m = 0);
     Some (b\<lparr>wmap := (wmap b)[w := (wmap b ! w) OR m]\<rparr>)
   }"

definition bitmap_destroy :: "heap_st \<Rightarrow> heap_st" where
  "bitmap_destroy h = put_obj (put_obj h)"

section \<open>Words as bytes\<close>

text \<open>The bytes of a word in memory, lowest first.\<close>

definition word_bytes :: "u32 \<Rightarrow> u8 list" where
  "word_bytes w = map (\<lambda>k. ucast (drop_bit (8 * k) w)) [0..<4]"

definition bytes_word :: "u8 list \<Rightarrow> u32" where
  "bytes_word bs = foldr (\<lambda>b w. ucast b OR push_bit 8 w) (take 4 bs) 0"

definition bitmap_getdata :: "bitmap \<Rightarrow> u8 list" where
  "bitmap_getdata b = concat (map word_bytes (wmap b))"

fun words_of :: "nat \<Rightarrow> u8 list \<Rightarrow> u32 list" where
  "words_of 0 bs = []"
| "words_of (Suc n) bs = bytes_word bs # words_of n (drop 4 bs)"

lemma length_word_bytes [simp]: "length (word_bytes w) = 4"
  by (simp add: word_bytes_def)

lemma bytes_word_bytes [simp]: "bytes_word (word_bytes w @ bs) = w"
proof -
  have "[0..<4] = [0, 1, 2, 3]" by (simp add: upt_conv_Cons)
  then have "bytes_word (word_bytes w @ bs) = ucast (ucast w :: u8) OR push_bit 8 (ucast (ucast (drop_bit 8 w) :: u8) OR
      push_bit 8 (ucast (ucast (drop_bit 16 w) :: u8) OR push_bit 8 (ucast (ucast (drop_bit 24 w) :: u8) OR 0)))"
    by (simp add: bytes_word_def word_bytes_def)
  also have "\<dots> = w"
  proof (rule bit_word_eqI)
    fix n assume "n < LENGTH(32)"
    then show "bit (ucast (ucast w :: u8) OR push_bit 8 (ucast (ucast (drop_bit 8 w) :: u8) OR
      push_bit 8 (ucast (ucast (drop_bit 16 w) :: u8) OR push_bit 8 (ucast (ucast (drop_bit 24 w) :: u8) OR 0))) :: u32) n = bit w n"
      by (cases "n < 8"; cases "n < 16"; cases "n < 24") (auto simp: bit_simps)
  qed
  finally show ?thesis .
qed

lemma words_of_bytes: "words_of (length ws) (concat (map word_bytes ws)) = ws"
  by (induction ws) auto

lemma length_bytes: "length (concat (map word_bytes ws)) = 4 * length ws"
  by (induction ws) auto

section \<open>The set of free numbers\<close>

definition bitmap_ok :: "bitmap \<Rightarrow> bool" where
  "bitmap_ok b \<longleftrightarrow> length (wmap b) = unat (nwords b) \<and> unat (nbits b) \<le> 32 * unat (nwords b) \<and>
     32 * unat (nwords b) < unat (nbits b) + 32 \<and> (\<forall>i. unat (nbits b) \<le> i \<longrightarrow> i < 32 * unat (nwords b) \<longrightarrow> \<not> bit (wmap b ! (i div 32)) (i mod 32))"

definition free_nos :: "bitmap \<Rightarrow> nat set" where
  "free_nos b = {i. i < unat (nbits b) \<and> bit (wmap b ! (i div 32)) (i mod 32)}"

lemma and_mask_bit: "n < 32 \<Longrightarrow> (w AND push_bit n 1 = 0) = (\<not> bit (w :: u32) n)"
proof
  assume n: "n < 32" and e: "w AND push_bit n 1 = 0"
  have "bit (w AND push_bit n 1) n = bit w n" using n by (simp add: bit_simps)
  then show "\<not> bit w n" using e by simp
next
  assume "n < 32" "\<not> bit w n"
  then show "w AND push_bit n 1 = 0" by (intro bit_word_eqI) (auto simp: bit_simps)
qed

lemma find_first_some:
  assumes "find P [0..<n] = Some k"
  shows "k < n" "P k" "\<And>j. j < k \<Longrightarrow> \<not> P j"
  using assms by (auto simp: find_Some_iff)

lemma find_first_none: "find P [0..<n] = None \<Longrightarrow> k < n \<Longrightarrow> \<not> P k"
  by (auto simp: find_None_iff)

lemma word_nonzero_bit: "(w :: u32) \<noteq> 0 \<longleftrightarrow> (\<exists>n<32. bit w n)"
  using bit_word_eqI [of w 0] by auto

lemma no_free_word:
  assumes "bitmap_ok b" "ix < unat (nwords b)" "\<And>i. i < 32 * Suc ix \<Longrightarrow> 32 * ix \<le> i \<Longrightarrow> i \<notin> free_nos b"
  shows "wmap b ! ix = 0"
proof (rule ccontr)
  assume "wmap b ! ix \<noteq> 0"
  then obtain n where n: "n < 32" "bit (wmap b ! ix) n" unfolding word_nonzero_bit by blast
  have d: "(32 * ix + n) div 32 = ix" "(32 * ix + n) mod 32 = n" using n(1) by simp_all
  have "32 * ix + n < 32 * unat (nwords b)" using assms(2) n(1) by linarith
  then have "32 * ix + n < unat (nbits b)" using assms(1) n(2) d unfolding bitmap_ok_def by (metis not_le)
  then have "32 * ix + n \<in> free_nos b" using n(2) d by (simp add: free_nos_def)
  then show False using assms(3) [of "32 * ix + n"] n(1) by simp
qed

text \<open>A map that differs in the bit of one number only.\<close>

lemma set_one_bit:
  assumes "bitmap_ok b" "i < unat (nbits b)" "nbits b' = nbits b" "nwords b' = nwords b" "length (wmap b') = length (wmap b)"
    and bits: "\<And>k n. n < 32 \<Longrightarrow> bit (wmap b' ! (k div 32)) n \<longleftrightarrow>
      (if k div 32 = i div 32 \<and> n = i mod 32 then v else bit (wmap b ! (k div 32)) n)"
  shows "free_nos b' = (if v then insert i (free_nos b) else free_nos b - {i}) \<and> bitmap_ok b'"
proof -
  have same: "k = i \<longleftrightarrow> k div 32 = i div 32 \<and> k mod 32 = i mod 32" for k by (metis div_mult_mod_eq)
  have b: "bit (wmap b' ! (k div 32)) (k mod 32) \<longleftrightarrow> (if k = i then v else bit (wmap b ! (k div 32)) (k mod 32))" for k
    using bits [of "k mod 32" k] unfolding same by simp
  have "k \<in> free_nos b' \<longleftrightarrow> k \<in> (if v then insert i (free_nos b) else free_nos b - {i})" for k
    unfolding free_nos_def mem_Collect_eq b using assms(2,3) by auto
  moreover have "bitmap_ok b'"
    using assms(1-5) unfolding bitmap_ok_def b by auto
  ultimately show ?thesis by blast
qed

text \<open>\<^verbatim>\<open>bitmap_alloc\<close> takes the least free number.\<close>

lemma bitmap_alloc_ok:
  assumes "bitmap_ok b"
  shows "if free_nos b = {} then bitmap_alloc b = Some (fail_code E_NO_MEM, None, b)
    else \<exists>b'. bitmap_alloc b = Some (0, Some (Min (free_nos b)), b') \<and> bitmap_ok b' \<and>
      free_nos b' = free_nos b - {Min (free_nos b)} \<and> nbits b' = nbits b"
proof -
  have len: "length (wmap b) = unat (nwords b)" using assms by (simp add: bitmap_ok_def)
  have in_word: "i div 32 < unat (nwords b)" if "i \<in> free_nos b" for i
  proof -
    have "i < 32 * unat (nwords b)" using that assms unfolding free_nos_def bitmap_ok_def by auto
    then show ?thesis by (simp add: less_mult_imp_div_less mult.commute)
  qed
  have nz: "wmap b ! (i div 32) \<noteq> 0" if "i \<in> free_nos b" for i
    using that unfolding free_nos_def by auto
  show ?thesis
  proof (cases "find (\<lambda>ix. wmap b ! ix \<noteq> 0) [0..<unat (nwords b)]")
    case None
    then have "free_nos b = {}" using find_first_none [OF None] in_word nz by blast
    then show ?thesis using None by (simp add: bitmap_alloc_def)
  next
    case (Some ix)
    note ix = find_first_some [OF Some]
    from ix(2) obtain n where n: "n < 32" "bit (wmap b ! ix) n" unfolding word_nonzero_bit by blast
    have "find (\<lambda>off. wmap b ! ix AND push_bit off 1 \<noteq> 0) [0..<32] \<noteq> None"
      using find_first_none [of _ 32 n] n and_mask_bit [OF n(1)] by blast
    then obtain off where off: "find (\<lambda>off. wmap b ! ix AND push_bit off 1 \<noteq> 0) [0..<32] = Some off" by blast
    note o = find_first_some [OF off]
    have ob: "bit (wmap b ! ix) off" using o(1,2) and_mask_bit [OF o(1)] by blast
    have least: "\<not> bit (wmap b ! ix) j" if "j < off" for j
    proof -
      have "j < 32" using that o(1) by simp
      then show ?thesis using o(3) [OF that] and_mask_bit by blast
    qed
    let ?i = "ix * 32 + off"
    let ?b = "b\<lparr>wmap := (wmap b)[ix := (wmap b ! ix) XOR push_bit off 1]\<rparr>"
    have d: "?i div 32 = ix" "?i mod 32 = off" using o(1) by simp_all
    have lt: "?i < 32 * unat (nwords b)" using ix(1) o(1) by linarith
    then have "?i < unat (nbits b)" using assms ob d unfolding bitmap_ok_def by (metis not_le)
    then have i: "?i \<in> free_nos b" using ob d by (simp add: free_nos_def)
    have min: "?i \<le> j" if j: "j \<in> free_nos b" for j
    proof -
      have "ix \<le> j div 32" using ix(3) nz [OF j] not_le by blast
      moreover have "off \<le> j mod 32" if "ix = j div 32"
        using least [of "j mod 32"] j that unfolding free_nos_def by (cases "j mod 32 < off") simp_all
      moreover have "j = j div 32 * 32 + j mod 32" by simp
      moreover have "ix * 32 + off < j" if "ix < j div 32" using that o(1) by linarith
      ultimately show ?thesis by (metis add_le_mono le_neq_implies_less less_imp_le mult_le_mono1)
    qed
    have fin: "finite (free_nos b)" unfolding free_nos_def by simp
    have m: "Min (free_nos b) = ?i" using fin i min by (intro Min_eqI) auto
    have bits: "bit (wmap ?b ! (k div 32)) n \<longleftrightarrow> bit (wmap b ! (k div 32)) n \<and> \<not> (k div 32 = ix \<and> n = off)"
      if "n < 32" for k n
      using ob o(1) ix(1) len that by (auto simp: nth_list_update bit_simps)
    have f: "free_nos ?b = free_nos b - {?i}" and ok: "bitmap_ok ?b"
      using set_one_bit [OF assms \<open>?i < unat (nbits b)\<close>, of ?b False] bits len unfolding d by auto
    have "bitmap_alloc b = Some (0, Some ?i, ?b)" using Some off by (simp add: bitmap_alloc_def)
    then show ?thesis using f ok i m by auto
  qed
qed


lemma bitmap_test_ok: "bitmap_test b i = (if i < unat (nbits b) then Some (i \<in> free_nos b) else None)"
proof -
  have "i mod 32 < 32" by simp
  from and_mask_bit [OF this] show ?thesis by (simp add: bitmap_test_def bitmap_translate_def free_nos_def)
qed

lemma bitmap_free_ok:
  assumes "bitmap_ok b" "i < unat (nbits b)" "i \<notin> free_nos b"
  shows "\<exists>b'. bitmap_free b i = Some b' \<and> bitmap_ok b' \<and> free_nos b' = insert i (free_nos b) \<and> nbits b' = nbits b"
proof -
  let ?b = "b\<lparr>wmap := (wmap b)[i div 32 := (wmap b ! (i div 32)) OR push_bit (i mod 32) 1]\<rparr>"
  have m: "i mod 32 < 32" by simp
  have "\<not> bit (wmap b ! (i div 32)) (i mod 32)" using assms(2,3) by (simp add: free_nos_def)
  then have r: "bitmap_free b i = Some ?b"
    using assms(2) and_mask_bit [OF m] by (simp add: bitmap_free_def bitmap_translate_def)
  have "i < 32 * unat (nwords b)" using assms(1,2) by (simp add: bitmap_ok_def)
  then have "i div 32 < length (wmap b)" using assms(1) by (simp add: bitmap_ok_def less_mult_imp_div_less mult.commute)
  then have "bit (wmap ?b ! (k div 32)) n \<longleftrightarrow> (if k div 32 = i div 32 \<and> n = i mod 32 then True else bit (wmap b ! (k div 32)) n)"
    if "n < 32" for k n using that m by (auto simp: nth_list_update bit_simps simp del: mod_less_divisor)
  from set_one_bit [OF assms(1,2), of ?b True] this r show ?thesis by auto
qed

lemma clear_over_bits: "k \<le> 32 \<Longrightarrow> n < 32 \<Longrightarrow> bit (clear_over k w) n = (if 32 - k \<le> n then \<not> bit w n else bit w n)"
proof (induction k arbitrary: w)
  case (Suc k)
  have "bit (w XOR push_bit (32 - Suc k) 1) n = (if n = 32 - Suc k then \<not> bit w n else bit w n)"
    using Suc.prems by (auto simp: bit_simps)
  then show ?case using Suc by auto
qed simp

lemma unat_roundup_div:
  assumes "unat n + 31 < 4294967296"
  shows "unat (roundup_div_2n n WORD_BITS_SHIFT) = (unat n + 31) div 32"
proof -
  have "unat (n + 31) = unat n + 31" using assms by (subst unat_add_u32) simp_all
  then show ?thesis by (simp add: roundup_div_2n_def WORD_BITS_SHIFT_def unat_shiftr push_bit_eq_mult add.commute)
qed

lemma bitmap_create_ok:
  assumes "0 < n" "unat n + 32 < 4294967296" "get_obj h = (True, h1)" "get_obj h1 = (True, h2)"
  shows "\<exists>b. bitmap_create n h = Some (Some b, h2) \<and> bitmap_ok b \<and> nbits b = n \<and> free_nos b = {..<unat n} \<and>
    unat (nwords b) = (unat n + 31) div 32"
proof -
  define nw where "nw = roundup_div_2n n WORD_BITS_SHIFT"
  have w: "unat nw = (unat n + 31) div 32" unfolding nw_def using assms(2) by (intro unat_roundup_div) simp
  have pos: "0 < unat n" using assms(1) by (simp add: word_greater_zero_iff unat_gt_0)
  then have nw1: "1 \<le> unat nw" unfolding w by (simp add: Suc_leI div_greater_zero_iff)
  have m32: "unat (nw * WORD_BITS) = unat nw * 32"
    using assms(2) w by (subst unat_mul_u32) (simp_all add: WORD_BITS_def)
  have g: "n + WORD_BITS > n" using assms(2) by (simp add: word_less_nat_alt WORD_BITS_def unat_add_u32)
  have n0: "n \<noteq> 0" using pos by auto
  let ?ones = "replicate (unat nw) (0xFFFFFFFF :: u32)"
  have ones: "bit (0xFFFFFFFF :: u32) k" if "k < 32" for k
  proof -
    have "(0xFFFFFFFF :: u32) = mask 32" by (simp add: mask_eq_exp_minus_1)
    then show ?thesis using that by (simp only: bit_mask_iff) simp
  qed
  show ?thesis
  proof (cases "n = nw * WORD_BITS")
    case True
    then have u: "unat n = 32 * unat nw" using m32 by simp
    let ?b = "\<lparr>nbits = n, nwords = nw, wmap = ?ones\<rparr>"
    have r: "bitmap_create n h = Some (Some ?b, h2)"
      using assms(3,4) n0 g True unfolding bitmap_create_def nw_def [symmetric] by simp
    have "i div 32 < unat nw" if "i < unat n" for i using that u by (simp add: less_mult_imp_div_less mult.commute)
    then have "free_nos ?b = {..<unat n}" using ones by (auto simp: free_nos_def)
    moreover have "bitmap_ok ?b" using u by (simp add: bitmap_ok_def)
    ultimately show ?thesis using r w by auto
  next
    case False
    have n31: "32 * (unat nw - 1) \<le> unat n" "unat n < 32 * unat nw"
    proof -
      show "32 * (unat nw - 1) \<le> unat n" unfolding w by simp
      have "unat n \<noteq> unat nw * 32" using False m32 by (metis word_unat_eq_iff)
      moreover have "unat n \<le> 32 * unat nw" unfolding w by simp
      ultimately show "unat n < 32 * unat nw" by simp
    qed
    have one: "1 \<le> nw" using nw1 by (simp add: word_le_nat_alt)
    have ix: "unat (nw - 1) = unat nw - 1" using nw1 by (subst unat_sub_u32) simp_all
    have ix32: "unat ((nw - 1) * WORD_BITS) = 32 * (unat nw - 1)"
      using ix n31 assms(2) by (subst unat_mul_u32) (simp_all add: WORD_BITS_def)
    define ob where "ob = n - (nw - 1) * WORD_BITS"
    have uob: "unat ob = unat n - 32 * (unat nw - 1)" using ix32 n31 unfolding ob_def by (subst unat_sub_u32) simp_all
    have ob: "0 < unat ob" "unat ob < 32"
    proof -
      have "unat n + 31 < 32 * unat nw + 32" using n31 by simp
      moreover have "32 * (unat nw - 1) < unat n"
      proof -
        have "(unat n + 31) div 32 * 32 \<le> unat n + 31" by simp
        then show ?thesis using w nw1 pos by linarith
      qed
      ultimately show "0 < unat ob" "unat ob < 32" using uob nw1 n31 by linarith+
    qed
    have dv: "n div WORD_BITS = nw - 1"
    proof -
      have "unat n div 32 = unat nw - 1" using n31 nw1 by (intro div_nat_eqI) simp_all
      then have "unat (n div WORD_BITS) = unat (nw - 1)" using ix by (simp add: WORD_BITS_def unat_div)
      then show ?thesis by (metis word_unat_eq_iff)
    qed
    let ?k = "unat (WORD_BITS - ob)"
    have k: "?k = 32 - unat ob" using ob(2) by (subst unat_sub_u32) (simp_all add: WORD_BITS_def)
    let ?m = "?ones[unat (nw - 1) := clear_over ?k (?ones ! unat (nw - 1))]"
    let ?b = "\<lparr>nbits = n, nwords = nw, wmap = ?m\<rparr>"
    have obw: "ob > 0 \<and> ob < WORD_BITS" using ob by (simp add: word_less_nat_alt WORD_BITS_def)
    have r: "bitmap_create n h = Some (Some ?b, h2)"
      using assms(3,4) n0 g False dv obw unfolding bitmap_create_def nw_def [symmetric] Let_def ob_def by simp
    have last: "?ones ! unat (nw - 1) = 0xFFFFFFFF" using ix nw1 by simp
    have "bit (?m ! (i div 32)) (i mod 32) \<longleftrightarrow> i < unat n" if i: "i < 32 * unat nw" for i
    proof -
      have d: "i div 32 < unat nw" using i by (simp add: less_mult_imp_div_less mult.commute)
      have m: "i mod 32 < 32" by simp
      have c: "bit (clear_over ?k 0xFFFFFFFF) (i mod 32) \<longleftrightarrow> i mod 32 < unat ob"
        using clear_over_bits [of ?k "i mod 32" "0xFFFFFFFF"] ones [OF m] k m ob(2) by auto
      show ?thesis
      proof (cases "i div 32 = unat nw - 1")
        case True
        have "i = i div 32 * 32 + i mod 32" by simp
        then have "i < unat n \<longleftrightarrow> i mod 32 < unat ob" using True uob n31 by linarith
        then show ?thesis using True c d last ix by simp
      next
        case ne: False
        then have "i div 32 < unat nw - 1" using d by simp
        then have "i < 32 * (unat nw - 1)" by (simp add: less_mult_imp_div_less div_less_iff_less_mult mult.commute)
        then show ?thesis using ne d ix n31 ones [OF m] by simp
      qed
    qed
    moreover have "32 * unat nw < unat n + 32" using uob ob(1) nw1 by linarith
    ultimately have "free_nos ?b = {..<unat n}" "bitmap_ok ?b"
      using n31 unfolding free_nos_def bitmap_ok_def by auto
    then show ?thesis using r w by auto
  qed
qed

end
