(* ===== verification/Vfs.thy ===== *)
theory Vfs
  imports Inode Bitmap
begin

text \<open>
  Names above the file systems: the table of named devices (\<^verbatim>\<open>kern/fs/vfs/vfsdev.c\<close>), the current
  directory (\<^verbatim>\<open>vfspath.c\<close>), the file system that paths from \<^verbatim>\<open>/\<close> start in (\<^verbatim>\<open>vfs.c\<close>) and the look-up of
  a path (\<^verbatim>\<open>vfslookup.c\<close>).  The operations that these routines call through \<^verbatim>\<open>node->in_ops\<close> and through
  \<^verbatim>\<open>struct fs\<close> are a record of functions; a mounted file system is named by a number, the address of
  its \<^verbatim>\<open>struct fs\<close>.  A path is the C string, without the 0 that ends it.  The list of devices, linked by
  \<^verbatim>\<open>vdev_link\<close>, is a list; \<open>cwd\<close> is \<^verbatim>\<open>pwd\<close> in the \<^verbatim>\<open>fs_struct\<close> of the running process; \<open>nheap\<close> answers
  \<^verbatim>\<open>kmalloc\<close>.  The locks around these are semaphores, which \<open>Semaphore\<close> models; messages are left out.
\<close>

record vfs_dev_t =
  devname :: string
  devnode :: "nat option"
  dev_fs :: "nat option"
  mountable :: bool

record 'd names =
  vdev_list :: "vfs_dev_t list"
  bootfs_node :: "nat option"
  cwd :: "nat option"
  nheap :: heap_st
  low :: 'd

text \<open>The operations of nodes and of file systems beyond those of \<open>inode_ops\<close>.\<close>

record 'd name_ops =
  node_ops :: "'d inode_ops"
  vop_gettype :: "nat \<Rightarrow> 'd vfs \<Rightarrow> (int \<times> u32 \<times> 'd vfs) option"
  vop_lookup :: "nat \<Rightarrow> string \<Rightarrow> 'd vfs \<Rightarrow> (int \<times> nat option \<times> 'd vfs) option"
  vop_namefile :: "nat \<Rightarrow> iobuf \<Rightarrow> 'd vfs \<Rightarrow> (int \<times> iobuf \<times> 'd vfs) option"
  in_fs :: "nat \<Rightarrow> 'd vfs \<Rightarrow> nat option"
  is_device :: "nat \<Rightarrow> 'd vfs \<Rightarrow> bool"
  fs_sync :: "nat \<Rightarrow> 'd vfs \<Rightarrow> (int \<times> 'd vfs) option"
  fs_get_root :: "nat \<Rightarrow> 'd vfs \<Rightarrow> (nat option \<times> 'd vfs) option"
  fs_unmount :: "nat \<Rightarrow> 'd vfs \<Rightarrow> (int \<times> 'd vfs) option"
  fs_cleanup :: "nat \<Rightarrow> 'd vfs \<Rightarrow> 'd vfs option"
  memory :: "'d vfs \<Rightarrow> mem"
  set_memory :: "mem \<Rightarrow> 'd vfs \<Rightarrow> 'd vfs"

definition FS_MAX_DNAME_LEN :: nat where "FS_MAX_DNAME_LEN = 31"

definition mod_names :: "('d names \<Rightarrow> 'd names) \<Rightarrow> 'd names vfs \<Rightarrow> 'd names vfs" where
  "mod_names f v = v\<lparr>fsdata := f (fsdata v)\<rparr>"

definition node_ref_dec :: "'d name_ops \<Rightarrow> nat \<Rightarrow> 'd vfs \<Rightarrow> 'd vfs option" where
  "node_ref_dec ops n v = do { (_, v) \<leftarrow> inode_ref_dec (node_ops ops) n v; Some v }"

definition node_ref_inc :: "nat \<Rightarrow> 'd vfs \<Rightarrow> 'd vfs" where
  "node_ref_inc n v = snd (inode_ref_inc n v)"

section \<open>Named devices (vfsdev.c)\<close>

definition vfs_devlist_init :: "'d names \<Rightarrow> 'd names" where
  "vfs_devlist_init s = s\<lparr>vdev_list := []\<rparr>"

fun cleanup_devs :: "'d names name_ops \<Rightarrow> vfs_dev_t list \<Rightarrow> 'd names vfs \<Rightarrow> 'd names vfs option" where
  "cleanup_devs ops [] v = Some v"
| "cleanup_devs ops (d # ds) v = do {
     v \<leftarrow> (case dev_fs d of None \<Rightarrow> Some v | Some f \<Rightarrow> fs_cleanup ops f v);
     cleanup_devs ops ds v
   }"

definition vfs_cleanup :: "'d names name_ops \<Rightarrow> 'd names vfs \<Rightarrow> 'd names vfs option" where
  "vfs_cleanup ops v = cleanup_devs ops (vdev_list (fsdata v)) v"

definition vfs_get_root :: "'d names name_ops \<Rightarrow> string \<Rightarrow> 'd names vfs \<Rightarrow> (int \<times> nat option \<times> 'd names vfs) option" where
  "vfs_get_root ops name v = (case find (\<lambda>d. devname d = name) (vdev_list (fsdata v)) of
     None \<Rightarrow> Some (fail_code E_NO_DEV, None, v)
   | Some d \<Rightarrow> do {
       (found, v) \<leftarrow> (case dev_fs d of
           Some f \<Rightarrow> fs_get_root ops f v
         | None \<Rightarrow> if \<not> mountable d then do { n \<leftarrow> devnode d; Some (Some n, node_ref_inc n v) } else Some (None, v));
       Some (if found \<noteq> None then 0 else fail_code E_NA_DEV, found, v)
     })"

definition vfs_get_devname :: "nat \<Rightarrow> 'd names \<Rightarrow> string option" where
  "vfs_get_devname f s = map_option devname (find (\<lambda>d. dev_fs d = Some f) (vdev_list s))"

definition check_devname_conflict :: "string \<Rightarrow> 'd names \<Rightarrow> bool" where
  "check_devname_conflict name s = list_all (\<lambda>d. devname d \<noteq> name) (vdev_list s)"

definition take_mem :: "'d names vfs \<Rightarrow> bool \<times> 'd names vfs" where
  "take_mem v = (let (ok, h) = get_obj (nheap (fsdata v)) in (ok, mod_names (\<lambda>s. s\<lparr>nheap := h\<rparr>) v))"

definition give_mem :: "'d names vfs \<Rightarrow> 'd names vfs" where
  "give_mem v = mod_names (\<lambda>s. s\<lparr>nheap := put_obj (nheap s)\<rparr>) v"

definition vfs_do_add ::
  "'d names name_ops \<Rightarrow> string \<Rightarrow> nat option \<Rightarrow> nat option \<Rightarrow> bool \<Rightarrow> 'd names vfs \<Rightarrow> (int \<times> 'd names vfs) option" where
  "vfs_do_add ops name node fs mnt v = do {
     kassert ((node = None \<and> \<not> mnt) \<or> (\<exists>n \<in> set_option node. is_device ops n v));
     if length name > FS_MAX_DNAME_LEN then Some (fail_code E_TOO_BIG, v)
     else (let (ok, v) = take_mem v in
       if \<not> ok then Some (fail_code E_NO_MEM, v)
       else (let (ok, v) = take_mem v in
         if \<not> ok then Some (fail_code E_NO_MEM, give_mem v)
         else if \<not> check_devname_conflict name (fsdata v) then Some (fail_code E_EXISTS, give_mem (give_mem v))
         else Some (0, mod_names (\<lambda>s. s\<lparr>vdev_list :=
           \<lparr>devname = name, devnode = node, dev_fs = fs, mountable = mnt\<rparr> # vdev_list s\<rparr>) v)))
   }"

definition vfs_add_fs :: "'d names name_ops \<Rightarrow> string \<Rightarrow> nat \<Rightarrow> 'd names vfs \<Rightarrow> (int \<times> 'd names vfs) option" where
  "vfs_add_fs ops name fs v = vfs_do_add ops name None (Some fs) False v"

definition vfs_add_dev :: "'d names name_ops \<Rightarrow> string \<Rightarrow> nat \<Rightarrow> bool \<Rightarrow> 'd names vfs \<Rightarrow> (int \<times> 'd names vfs) option" where
  "vfs_add_dev ops name node mnt v = vfs_do_add ops name (Some node) None mnt v"

text \<open>The index of the device in the list.\<close>

definition find_mount :: "string \<Rightarrow> 'd names \<Rightarrow> nat option" where
  "find_mount name s = find (\<lambda>k. mountable (vdev_list s ! k) \<and> devname (vdev_list s ! k) = name) [0..<length (vdev_list s)]"

definition set_dev_fs :: "nat \<Rightarrow> nat option \<Rightarrow> 'd names vfs \<Rightarrow> 'd names vfs" where
  "set_dev_fs k f = mod_names (\<lambda>s. s\<lparr>vdev_list := (vdev_list s)[k := (vdev_list s ! k)\<lparr>dev_fs := f\<rparr>]\<rparr>)"

definition vfs_mount ::
  "'d names name_ops \<Rightarrow> string \<Rightarrow> (nat \<Rightarrow> 'd names vfs \<Rightarrow> (int \<times> nat option \<times> 'd names vfs) option) \<Rightarrow> 'd names vfs \<Rightarrow> (int \<times> 'd names vfs) option" where
  "vfs_mount ops name mountfunc v = (case find_mount name (fsdata v) of
     None \<Rightarrow> Some (fail_code E_NO_DEV, v)
   | Some k \<Rightarrow> (let d = vdev_list (fsdata v) ! k in
       if dev_fs d \<noteq> None then Some (fail_code E_BUSY, v)
       else do {
         n \<leftarrow> devnode d;
         kassert (is_device ops n v);
         (ret, fs, v) \<leftarrow> mountfunc n v;
         let v = set_dev_fs k fs v;
         kassert (ret = 0 \<longrightarrow> fs \<noteq> None);
         Some (ret, v)
       }))"

definition vfs_unmount :: "'d names name_ops \<Rightarrow> string \<Rightarrow> 'd names vfs \<Rightarrow> (int \<times> 'd names vfs) option" where
  "vfs_unmount ops name v = (case find_mount name (fsdata v) of
     None \<Rightarrow> Some (fail_code E_NO_DEV, v)
   | Some k \<Rightarrow> (case dev_fs (vdev_list (fsdata v) ! k) of
       None \<Rightarrow> Some (fail_code E_INVAL, v)
     | Some f \<Rightarrow> do {
         (ret, v) \<leftarrow> fs_sync ops f v;
         if ret \<noteq> 0 then Some (ret, v)
         else do {
           (ret, v) \<leftarrow> fs_unmount ops f v;
           Some (ret, if ret = 0 then set_dev_fs k None v else v)
         }
       }))"

fun unmount_from :: "'d names name_ops \<Rightarrow> nat list \<Rightarrow> 'd names vfs \<Rightarrow> 'd names vfs option" where
  "unmount_from ops [] v = Some v"
| "unmount_from ops (k # ks) v = do {
     let d = vdev_list (fsdata v) ! k;
     v \<leftarrow> (case dev_fs d of
         Some f \<Rightarrow> if mountable d then do {
             (ret, v) \<leftarrow> fs_sync ops f v;
             if ret \<noteq> 0 then Some v
             else do {
               (ret, v) \<leftarrow> fs_unmount ops f v;
               Some (if ret \<noteq> 0 then v else set_dev_fs k None v)
             }
           } else Some v
       | None \<Rightarrow> Some v);
     unmount_from ops ks v
   }"

definition vfs_unmount_all :: "'d names name_ops \<Rightarrow> 'd names vfs \<Rightarrow> (int \<times> 'd names vfs) option" where
  "vfs_unmount_all ops v = do { v \<leftarrow> unmount_from ops [0..<length (vdev_list (fsdata v))] v; Some (0, v) }"

section \<open>The current directory (vfspath.c)\<close>

definition vfs_get_curdir :: "'d names vfs \<Rightarrow> int \<times> nat option \<times> 'd names vfs" where
  "vfs_get_curdir v = (case cwd (fsdata v) of
     Some n \<Rightarrow> (0, Some n, node_ref_inc n v) | None \<Rightarrow> (fail_code E_NOENT, None, v))"

definition S_ISDIR :: "u32 \<Rightarrow> bool" where
  "S_ISDIR mode \<longleftrightarrow> mode AND 0x7000 = 0x2000"

definition vfs_set_curdir :: "'d names name_ops \<Rightarrow> nat option \<Rightarrow> 'd names vfs \<Rightarrow> (int \<times> 'd names vfs) option" where
  "vfs_set_curdir ops dir v =
     (let old = cwd (fsdata v) in
      if old = dir then Some (0, v)
      else do {
        (ret, v) \<leftarrow> (case dir of
            None \<Rightarrow> Some (0, v)
          | Some n \<Rightarrow> do {
              (ret, ty, v) \<leftarrow> vop n (vop_gettype ops n) v;
              Some (if ret \<noteq> 0 then (ret, v)
                else if \<not> S_ISDIR ty then (fail_code E_NOTDIR, v)
                else (0, node_ref_inc n v))
            });
        if ret \<noteq> 0 then Some (ret, v)
        else do {
          let v = mod_names (\<lambda>s. s\<lparr>cwd := dir\<rparr>) v;
          v \<leftarrow> (case old of None \<Rightarrow> Some v | Some o' \<Rightarrow> node_ref_dec ops o' v);
          Some (0, v)
        }
      })"

section \<open>The file system of paths from the root (vfs.c)\<close>

definition vfs_init :: "'d names \<Rightarrow> 'd names" where
  "vfs_init s = vfs_devlist_init s"

definition change_bootfs :: "'d names name_ops \<Rightarrow> nat option \<Rightarrow> 'd names vfs \<Rightarrow> 'd names vfs option" where
  "change_bootfs ops node v =
     (let old = bootfs_node (fsdata v); v = mod_names (\<lambda>s. s\<lparr>bootfs_node := node\<rparr>) v
      in case old of None \<Rightarrow> Some v | Some o' \<Rightarrow> node_ref_dec ops o' v)"

definition vfs_get_bootfs :: "'d names vfs \<Rightarrow> int \<times> nat option \<times> 'd names vfs" where
  "vfs_get_bootfs v = (case bootfs_node (fsdata v) of
     Some n \<Rightarrow> (0, Some n, node_ref_inc n v) | None \<Rightarrow> (fail_code E_NOENT, None, v))"

section \<open>Looking up a path (vfslookup.c)\<close>

text \<open>Where the first slash or the first colon is, whichever comes first: \<^verbatim>\<open>slash\<close> and \<^verbatim>\<open>colon\<close>.\<close>

fun path_scan :: "int \<Rightarrow> string \<Rightarrow> int \<times> int" where
  "path_scan i [] = (-1, -1)"
| "path_scan i (c # cs) = (if c = CHR '':'' then (-1, i) else if c = CHR ''/'' then (i, -1) else path_scan (i + 1) cs)"

text \<open>The code puts a 0 over the colon after a device name, in the buffer of the caller.\<close>

definition cut_path :: "string \<Rightarrow> string" where
  "cut_path path = (let (slash, colon) = path_scan 0 path in if colon > 0 then take (nat colon) path else path)"

definition skip_slashes :: "string \<Rightarrow> string" where
  "skip_slashes p = dropWhile (\<lambda>c. c = CHR ''/'') p"

definition get_device :: "'d names name_ops \<Rightarrow> string \<Rightarrow> 'd names vfs \<Rightarrow> (int \<times> nat option \<times> string \<times> 'd names vfs) option" where
  "get_device ops path v =
     (let (slash, colon) = path_scan 0 path in
      if colon < 0 \<and> slash \<noteq> 0 then
        (let (ret, node, v) = vfs_get_curdir v in Some (ret, node, path, v))
      else if colon > 0 then do {
        (ret, node, v) \<leftarrow> vfs_get_root ops (take (nat colon) path) v;
        Some (ret, node, skip_slashes (drop (nat colon + 1) path), v)
      }
      else if path ! 0 = CHR ''/'' then
        (let (ret, node, v) = vfs_get_bootfs v in Some (ret, node, skip_slashes (tl path), v))
      else do {
        kassert (path ! 0 = CHR '':'');
        let (ret, node, v) = vfs_get_curdir v;
        if ret \<noteq> 0 then Some (ret, None, path, v)
        else do {
          n \<leftarrow> node;
          f \<leftarrow> in_fs ops n v;
          (root, v) \<leftarrow> fs_get_root ops f v;
          v \<leftarrow> node_ref_dec ops n v;
          Some (0, root, skip_slashes (tl path), v)
        }
      })"

text \<open>The third component is what the caller's buffer holds afterwards.\<close>

definition vfs_lookup_path ::
  "'d names name_ops \<Rightarrow> string \<Rightarrow> 'd names vfs \<Rightarrow> (int \<times> nat option \<times> string \<times> 'd names vfs) option" where
  "vfs_lookup_path ops path v = do {
     (ret, node, sub, v) \<leftarrow> get_device ops path v;
     if ret \<noteq> 0 then Some (ret, None, cut_path path, v)
     else if sub \<noteq> [] then do {
       n \<leftarrow> node;
       (ret, found, v) \<leftarrow> vop n (vop_lookup ops n sub) v;
       v \<leftarrow> node_ref_dec ops n v;
       Some (ret, found, cut_path path, v)
     } else Some (0, node, cut_path path, v)
   }"

definition vfs_lookup_parent_path ::
  "'d names name_ops \<Rightarrow> string \<Rightarrow> 'd names vfs \<Rightarrow> (int \<times> nat option \<times> string \<times> 'd names vfs) option" where
  "vfs_lookup_parent_path ops path v = do {
     (ret, node, path, v) \<leftarrow> get_device ops path v;
     if ret \<noteq> 0 then Some (ret, None, path, v) else Some (0, node, path, v)
   }"

definition vfs_chdir :: "'d names name_ops \<Rightarrow> string \<Rightarrow> 'd names vfs \<Rightarrow> (int \<times> 'd names vfs) option" where
  "vfs_chdir ops path v = do {
     (ret, node, _, v) \<leftarrow> vfs_lookup_path ops path v;
     if ret = 0 then do {
       (ret, v) \<leftarrow> vfs_set_curdir ops node v;
       n \<leftarrow> node;
       v \<leftarrow> node_ref_dec ops n v;
       Some (ret, v)
     } else Some (ret, v)
   }"

definition vfs_set_bootfs :: "'d names name_ops \<Rightarrow> string option \<Rightarrow> 'd names vfs \<Rightarrow> (int \<times> 'd names vfs) option" where
  "vfs_set_bootfs ops fsname v = (case fsname of
     None \<Rightarrow> do { v \<leftarrow> change_bootfs ops None v; Some (0, v) }
   | Some name \<Rightarrow>
       if dropWhile (\<lambda>c. c \<noteq> CHR '':'') name \<noteq> '':'' then Some (fail_code E_INVAL, v)
       else do {
         (ret, v) \<leftarrow> vfs_chdir ops name v;
         if ret \<noteq> 0 then Some (ret, v)
         else (let (ret, node, v) = vfs_get_curdir v in
           if ret \<noteq> 0 then Some (ret, v)
           else do { v \<leftarrow> change_bootfs ops node v; Some (0, v) })
       })"

text \<open>\<^verbatim>\<open>iobuf_move\<close> of a string of the kernel's own into the buffer.\<close>

definition name_put :: "'d name_ops \<Rightarrow> string \<Rightarrow> iobuf \<Rightarrow> 'd vfs \<Rightarrow> (int \<times> iobuf \<times> 'd vfs) option" where
  "name_put ops p iob v =
     (let len = of_nat (length p); alen = (if io_resid iob > len then len else io_resid iob) in do {
        let m = memory ops v;
        let v = set_memory ops (\<lambda>x. if unat (io_base iob) \<le> x \<and> x < unat (io_base iob) + unat alen
          then of_char (p ! (x - unat (io_base iob))) else m x) v;
        iob \<leftarrow> (if alen > 0 then iobuf_skip alen iob else Some iob);
        Some (if len - alen = 0 then 0 else fail_code E_NO_MEM, iob, v)
      })"

definition vfs_getcwd :: "'d names name_ops \<Rightarrow> iobuf \<Rightarrow> 'd names vfs \<Rightarrow> (int \<times> iobuf \<times> 'd names vfs) option" where
  "vfs_getcwd ops iob v =
     (let (ret, node, v) = vfs_get_curdir v in
      if ret \<noteq> 0 then Some (ret, iob, v)
      else do {
        n \<leftarrow> node;
        f \<leftarrow> in_fs ops n v;
        name \<leftarrow> vfs_get_devname f (fsdata v);
        (ret, iob, v) \<leftarrow> name_put ops name iob v;
        (ret, iob, v) \<leftarrow> (if ret \<noteq> 0 then Some (ret, iob, v) else name_put ops '':'' iob v);
        (ret, iob, v) \<leftarrow> (if ret \<noteq> 0 then Some (ret, iob, v) else vop n (vop_namefile ops n iob) v);
        v \<leftarrow> node_ref_dec ops n v;
        Some (ret, iob, v)
      })"

text \<open>The table that the opening of files uses.\<close>

definition vfs_ops :: "'d names name_ops \<Rightarrow> 'd names inode_ops" where
  "vfs_ops ops = (node_ops ops)\<lparr>vfs_lookup := vfs_lookup_path ops, vfs_lookup_parent := vfs_lookup_parent_path ops\<rparr>"

end
