(* ===== verification/Disk.thy ===== *)
theory Disk
  imports Bitmap "HOL-Library.Signed_Division"
begin

text \<open>
  The disk of the file system: the RAM disk of \<^verbatim>\<open>kern/driver/ramdisk.c\<close> behind the table of IDE
  devices of \<^verbatim>\<open>kern/driver/ide.c\<close>, and \<^verbatim>\<open>disk0\<close>, \<^verbatim>\<open>kern/fs/devs/dev_disk0.c\<close>, which moves blocks of
  a page through its own buffer.  The memory that a transfer reads or writes - the bytes from
  \<^verbatim>\<open>io_base\<close> on - is a list of bytes; \<open>ram\<close> is the memory of the RAM disk from \<^verbatim>\<open>iobase\<close> on.
\<close>

definition SECTSIZE :: nat where "SECTSIZE = 512"
definition MAX_IDE :: nat where "MAX_IDE = 4"
definition DISK0_DEV_NO :: nat where "DISK0_DEV_NO = 2"
definition DISK0_BLKSIZE :: nat where "DISK0_BLKSIZE = 4096"
definition DISK0_BUFSIZE :: nat where "DISK0_BUFSIZE = 4 * DISK0_BLKSIZE"
definition DISK0_BLK_NSECT :: nat where "DISK0_BLK_NSECT = DISK0_BLKSIZE div SECTSIZE"

record ide_device =
  dvalid :: bool
  sects :: u32
  has_ops :: bool
  ram :: "nat \<Rightarrow> u8"

record disk =
  ide_devices :: "nat \<Rightarrow> ide_device"
  d_blocks :: nat
  d_blocksize :: nat
  disk0_buffer :: "u8 list"

text \<open>Bytes put into a buffer at an offset.\<close>

definition overlay :: "nat \<Rightarrow> 'a list \<Rightarrow> 'a list \<Rightarrow> 'a list" where
  "overlay k bs buf = take k buf @ bs @ drop (k + length bs) buf"

definition bytes_from :: "(nat \<Rightarrow> u8) \<Rightarrow> nat \<Rightarrow> nat \<Rightarrow> u8 list" where
  "bytes_from m a n = map (\<lambda>k. m (a + k)) [0..<n]"

definition bytes_to :: "(nat \<Rightarrow> u8) \<Rightarrow> nat \<Rightarrow> u8 list \<Rightarrow> nat \<Rightarrow> u8" where
  "bytes_to m a bs x = (if a \<le> x \<and> x < a + length bs then bs ! (x - a) else m x)"

section \<open>The RAM disk\<close>

definition ramdisk_read :: "ide_device \<Rightarrow> u32 \<Rightarrow> u32 \<Rightarrow> u8 list \<Rightarrow> int \<times> u8 list" where
  "ramdisk_read dev secno nsecs dst =
     (let n = min nsecs (sects dev - secno)
      in (0, overlay 0 (bytes_from (ram dev) (unat secno * SECTSIZE) (unat n * SECTSIZE)) dst))"

definition ramdisk_write :: "ide_device \<Rightarrow> u32 \<Rightarrow> u32 \<Rightarrow> u8 list \<Rightarrow> int \<times> ide_device" where
  "ramdisk_write dev secno nsecs src =
     (let n = min nsecs (sects dev - secno)
      in (0, dev\<lparr>ram := bytes_to (ram dev) (unat secno * SECTSIZE) (take (unat n * SECTSIZE) src)\<rparr>))"

definition ramdisk_init_struct :: "nat \<Rightarrow> (nat \<Rightarrow> u8) \<Rightarrow> ide_device option" where
  "ramdisk_init_struct len m = do {
     kassert (len mod SECTSIZE = 0);
     Some (if len \<noteq> 0 then \<lparr>dvalid = True, sects = of_nat (len div SECTSIZE), has_ops = True, ram = m\<rparr>
       else \<lparr>dvalid = False, sects = 0, has_ops = False, ram = m\<rparr>)
   }"

definition ide_init :: "nat \<Rightarrow> (nat \<Rightarrow> u8) \<Rightarrow> disk \<Rightarrow> disk option" where
  "ide_init len m s = do {
     let devs = (\<lambda>i. if i < MAX_IDE then (ide_devices s i)\<lparr>dvalid := False\<rparr> else ide_devices s i);
     kassert (DISK0_DEV_NO < MAX_IDE);
     d \<leftarrow> ramdisk_init_struct len m;
     Some (s\<lparr>ide_devices := devs(DISK0_DEV_NO := d)\<rparr>)
   }"

definition ide_device_valid :: "disk \<Rightarrow> nat \<Rightarrow> bool" where
  "ide_device_valid s i \<longleftrightarrow> i < MAX_IDE \<and> dvalid (ide_devices s i)"

definition ide_device_size :: "disk \<Rightarrow> nat \<Rightarrow> u32" where
  "ide_device_size s i = (if ide_device_valid s i then sects (ide_devices s i) else 0)"

text \<open>A device that is not there answers 0 and moves nothing.\<close>

definition ide_read_secs :: "disk \<Rightarrow> nat \<Rightarrow> u32 \<Rightarrow> u8 list \<Rightarrow> u32 \<Rightarrow> int \<times> u8 list" where
  "ide_read_secs s i secno dst nsecs =
     (if ide_device_valid s i \<and> has_ops (ide_devices s i) then ramdisk_read (ide_devices s i) secno nsecs dst else (0, dst))"

definition ide_write_secs :: "disk \<Rightarrow> nat \<Rightarrow> u32 \<Rightarrow> u8 list \<Rightarrow> u32 \<Rightarrow> int \<times> disk" where
  "ide_write_secs s i secno src nsecs =
     (if ide_device_valid s i \<and> has_ops (ide_devices s i)
      then (case ramdisk_write (ide_devices s i) secno nsecs src of (r, d) \<Rightarrow> (r, s\<lparr>ide_devices := (ide_devices s)(i := d)\<rparr>))
      else (0, s))"

section \<open>disk0\<close>

definition disk0_read_blks_nolock :: "u32 \<Rightarrow> u32 \<Rightarrow> disk \<Rightarrow> disk option" where
  "disk0_read_blks_nolock blkno nblks s =
     (case ide_read_secs s DISK0_DEV_NO (blkno * of_nat DISK0_BLK_NSECT) (disk0_buffer s) (nblks * of_nat DISK0_BLK_NSECT) of
        (ret, buf) \<Rightarrow> do { kassert (ret = 0); Some (s\<lparr>disk0_buffer := buf\<rparr>) })"

definition disk0_write_blks_nolock :: "u32 \<Rightarrow> u32 \<Rightarrow> disk \<Rightarrow> disk option" where
  "disk0_write_blks_nolock blkno nblks s =
     (case ide_write_secs s DISK0_DEV_NO (blkno * of_nat DISK0_BLK_NSECT) (disk0_buffer s) (nblks * of_nat DISK0_BLK_NSECT) of
        (ret, s) \<Rightarrow> do { kassert (ret = 0); Some s })"

text \<open>The loop of \<^verbatim>\<open>disk0_io\<close>, which takes 16 KB at a time from what is left of the transfer.\<close>

function disk0_write_loop :: "u8 list \<Rightarrow> u32 \<Rightarrow> disk \<Rightarrow> disk option" where
  "disk0_write_loop data blkno s =
     (if data = [] then Some s
      else (let copied = min (length data) DISK0_BUFSIZE;
                s = s\<lparr>disk0_buffer := overlay 0 (take copied data) (disk0_buffer s)\<rparr>
            in do {
              kassert (copied mod DISK0_BLKSIZE = 0);
              let nblks = of_nat (copied div DISK0_BLKSIZE);
              s \<leftarrow> disk0_write_blks_nolock blkno nblks s;
              disk0_write_loop (drop copied data) (blkno + nblks) s
            }))"
  by auto
termination by (relation "measure (\<lambda>(data, _, _). length data)") (auto simp: DISK0_BUFSIZE_def DISK0_BLKSIZE_def)

function disk0_read_loop :: "nat \<Rightarrow> u32 \<Rightarrow> disk \<Rightarrow> (u8 list \<times> disk) option" where
  "disk0_read_loop resid blkno s =
     (if resid = 0 then Some ([], s)
      else (let alen = min resid DISK0_BUFSIZE;
                nblks = of_nat (alen div DISK0_BLKSIZE)
            in do {
              s \<leftarrow> disk0_read_blks_nolock blkno nblks s;
              kassert (alen mod DISK0_BLKSIZE = 0);
              let got = take alen (disk0_buffer s);
              (rest, s) \<leftarrow> disk0_read_loop (resid - alen) (blkno + nblks) s;
              Some (got @ rest, s)
            }))"
  by auto
termination by (relation "measure (\<lambda>(resid, _, _). resid)") (auto simp: DISK0_BUFSIZE_def DISK0_BLKSIZE_def)

declare disk0_write_loop.simps [simp del] disk0_read_loop.simps [simp del]

text \<open>
  \<^verbatim>\<open>disk0_io\<close> on the transfer of \<open>data\<close> at the offset: the error code, the bytes of the transfer
  afterwards, and the disk.
\<close>

definition disk0_io :: "u32 \<Rightarrow> u8 list \<Rightarrow> bool \<Rightarrow> disk \<Rightarrow> (int \<times> u8 list \<times> disk) option" where
  "disk0_io offset data write s =
     (let blkno = word_of_int (sint offset sdiv int DISK0_BLKSIZE) :: u32;
          resid = length data;
          nblks = of_nat (resid div DISK0_BLKSIZE) :: u32
      in if sint offset smod int DISK0_BLKSIZE \<noteq> 0 \<or> resid mod DISK0_BLKSIZE \<noteq> 0 then Some (fail_code E_INVAL, data, s)
         else if unat (blkno + nblks) > d_blocks s then Some (fail_code E_INVAL, data, s)
         else if nblks = 0 then Some (0, data, s)
         else if write then do { s \<leftarrow> disk0_write_loop data blkno s; Some (0, data, s) }
         else do { (data, s) \<leftarrow> disk0_read_loop resid blkno s; Some (0, data, s) })"

definition disk0_device_init :: "heap_st \<Rightarrow> disk \<Rightarrow> (heap_st \<times> disk) option" where
  "disk0_device_init h s = do {
     kassert (ide_device_valid s DISK0_DEV_NO);
     let s = s\<lparr>d_blocks := unat (ide_device_size s DISK0_DEV_NO) div DISK0_BLK_NSECT, d_blocksize := DISK0_BLKSIZE\<rparr>;
     let (ok, h) = get_obj h;
     kassert ok;
     Some (h, s\<lparr>disk0_buffer := replicate DISK0_BUFSIZE 0\<rparr>)
   }"

section \<open>The disk as an array of blocks\<close>

definition block :: "disk \<Rightarrow> nat \<Rightarrow> u8 list" where
  "block s b = bytes_from (ram (ide_devices s DISK0_DEV_NO)) (b * 4096) 4096"

definition disk_ok :: "disk \<Rightarrow> bool" where
  "disk_ok s \<longleftrightarrow> dvalid (ide_devices s DISK0_DEV_NO) \<and> has_ops (ide_devices s DISK0_DEV_NO) \<and>
     8 * d_blocks s \<le> unat (sects (ide_devices s DISK0_DEV_NO)) \<and> d_blocks s < 2 ^ 19 \<and> length (disk0_buffer s) = DISK0_BUFSIZE"

text \<open>One disk after another: the same device, other contents.\<close>

definition same_disk :: "disk \<Rightarrow> disk \<Rightarrow> bool" where
  "same_disk s s' \<longleftrightarrow> disk_ok s' \<and> d_blocks s' = d_blocks s \<and> d_blocksize s' = d_blocksize s"

lemma disk_consts: "SECTSIZE = 512" "DISK0_BLKSIZE = 4096" "DISK0_BUFSIZE = 16384" "DISK0_BLK_NSECT = 8" "DISK0_DEV_NO = 2" "MAX_IDE = 4"
  by (simp_all add: SECTSIZE_def DISK0_BLKSIZE_def DISK0_BUFSIZE_def DISK0_BLK_NSECT_def DISK0_DEV_NO_def MAX_IDE_def)

lemma length_bytes_from [simp]: "length (bytes_from m a n) = n"
  by (simp add: bytes_from_def)

lemma length_block [simp]: "length (block s b) = 4096"
  by (simp add: block_def)

lemma sector_run:
  assumes "disk_ok s" "b < d_blocks s"
  shows "unat (of_nat b * 8 :: u32) = b * 8" "min 8 (sects (ide_devices s 2) - of_nat b * 8) = 8"
proof -
  have b: "b * 8 + 8 \<le> unat (sects (ide_devices s 2))" "b < 2 ^ 19"
    using assms by (simp_all add: disk_ok_def disk_consts)
  then have u: "unat (of_nat b :: u32) = b" by (simp only: unsigned_of_nat) (simp add: take_bit_nat_eq_self)
  then show m: "unat (of_nat b * 8 :: u32) = b * 8" using b(2) by (subst unat_mul_u32) simp_all
  have "unat (sects (ide_devices s 2) - of_nat b * 8) = unat (sects (ide_devices s 2)) - b * 8"
    using m b(1) by (subst unat_sub_u32) simp_all
  then have "8 \<le> sects (ide_devices s 2) - of_nat b * 8" using b(1) by (simp add: word_le_nat_alt)
  then show "min 8 (sects (ide_devices s 2) - of_nat b * 8) = 8" by (simp add: min_def)
qed

lemma block_offset:
  assumes "b < 2 ^ 19"
  shows "sint (of_nat b * 4096 :: u32) = int b * 4096"
proof -
  have "of_nat b * 4096 = (word_of_int (int b * 4096) :: u32)" by simp
  then have "sint (of_nat b * 4096 :: u32) = signed_take_bit 31 (int b * 4096)" by (simp only: signed_of_int) simp
  also have "\<dots> = int b * 4096" using assms by (intro signed_take_bit_int_eq_self) simp_all
  finally show ?thesis .
qed


lemma block_args:
  assumes "disk_ok s" "b < d_blocks s"
  shows "word_of_int (sint (of_nat b * 4096 :: u32) sdiv 4096) = (of_nat b :: u32)"
    "sint (of_nat b * 4096 :: u32) smod 4096 = 0" "\<not> unat (of_nat b + 1 :: u32) > d_blocks s"
proof -
  have b: "b < 2 ^ 19" using assms by (simp add: disk_ok_def)
  have pos: "(int b * 4096) sdiv 4096 = int b" "(int b * 4096) smod 4096 = 0"
    by (cases "b = 0"; simp add: signed_divide_int_def signed_modulo_int_def sgn_mult abs_mult)+
  then show "word_of_int (sint (of_nat b * 4096 :: u32) sdiv 4096) = (of_nat b :: u32)"
    "sint (of_nat b * 4096 :: u32) smod 4096 = 0" unfolding block_offset [OF b] by simp_all
  have "unat (of_nat b :: u32) = b" using b by (simp only: unsigned_of_nat) (simp add: take_bit_nat_eq_self)
  then have "unat (of_nat b + 1 :: u32) = b + 1" using b by (subst unat_add_u32) simp_all
  then show "\<not> unat (of_nat b + 1 :: u32) > d_blocks s" using assms(2) by simp
qed

lemma overlay_all: "length bs = length buf \<Longrightarrow> overlay 0 bs buf = bs"
  by (simp add: overlay_def)

lemma length_overlay: "k + length bs \<le> length buf \<Longrightarrow> length (overlay k bs buf) = length buf"
  by (simp add: overlay_def)

lemma take_overlay: "length bs = n \<Longrightarrow> take n (overlay 0 bs buf) = bs"
  by (simp add: overlay_def)

lemma disk0_read_block:
  assumes "disk_ok s" "b < d_blocks s" "length data = 4096"
  shows "\<exists>s'. disk0_io (of_nat b * 4096) data False s = Some (0, block s b, s') \<and> same_disk s s' \<and> block s' = block s"
proof -
  note a = block_args [OF assms(1,2)] and r = sector_run [OF assms(1,2)]
  let ?dev = "ide_devices s 2"
  define s' where "s' = s\<lparr>disk0_buffer := overlay 0 (block s b) (disk0_buffer s)\<rparr>"
  have dv: "ide_device_valid s 2" "has_ops ?dev" "length (disk0_buffer s) = 16384"
    using assms(1) by (simp_all add: disk_ok_def ide_device_valid_def disk_consts)
  have rd: "disk0_read_blks_nolock (of_nat b) 1 s = Some s'"
    using dv r by (simp add: disk0_read_blks_nolock_def disk_consts ide_read_secs_def ramdisk_read_def Let_def s'_def block_def mult.commute)
  have "disk0_read_loop 0 x s' = Some ([], s')" for x by (simp add: disk0_read_loop.simps)
  then have "disk0_read_loop 4096 (of_nat b) s = Some (take 4096 (disk0_buffer s'), s')"
    using rd by (subst disk0_read_loop.simps) (simp add: disk_consts Let_def)
  moreover have "take 4096 (disk0_buffer s') = block s b" by (simp add: s'_def take_overlay)
  ultimately have "disk0_io (of_nat b * 4096) data False s = Some (0, block s b, s')"
    using a assms(3) by (simp add: disk0_io_def disk_consts Let_def)
  moreover have "length (disk0_buffer s') = 16384" using dv(3) by (simp add: s'_def length_overlay)
  then have "same_disk s s'" using assms(1) by (simp add: same_disk_def disk_ok_def s'_def disk_consts)
  moreover have "block s' = block s" by (simp add: block_def s'_def fun_eq_iff)
  ultimately show ?thesis by blast
qed

lemma bytes_to_from: "length bs = n \<Longrightarrow> bytes_from (bytes_to m a bs) a n = bs"
  by (intro nth_equalityI) (simp_all add: bytes_from_def bytes_to_def)

lemma bytes_to_other: "x + n \<le> a \<or> a + length bs \<le> x \<Longrightarrow> bytes_from (bytes_to m a bs) x n = bytes_from m x n"
  by (auto simp: bytes_from_def bytes_to_def)

lemma disk0_write_block:
  assumes "disk_ok s" "b < d_blocks s" "length data = 4096"
  shows "\<exists>s'. disk0_io (of_nat b * 4096) data True s = Some (0, data, s') \<and> same_disk s s' \<and> block s' = (block s)(b := data)"
proof -
  note a = block_args [OF assms(1,2)] and r = sector_run [OF assms(1,2)]
  let ?dev = "ide_devices s 2"
  let ?s = "s\<lparr>disk0_buffer := overlay 0 data (disk0_buffer s)\<rparr>"
  define s' where "s' = ?s\<lparr>ide_devices := (ide_devices s)(2 := ?dev\<lparr>ram := bytes_to (ram ?dev) (b * 4096) data\<rparr>)\<rparr>"
  have dv: "ide_device_valid ?s 2" "has_ops ?dev" "length (disk0_buffer s) = 16384"
    using assms(1) by (simp_all add: disk_ok_def ide_device_valid_def disk_consts)
  have b8: "b * 8 * 512 = b * 4096" by simp
  have wr: "disk0_write_blks_nolock (of_nat b) 1 ?s = Some s'"
    using dv r assms(3) by (simp add: disk0_write_blks_nolock_def disk_consts ide_write_secs_def ramdisk_write_def Let_def s'_def take_overlay mult.commute)
  have "disk0_write_loop [] x s' = Some s'" for x by (simp add: disk0_write_loop.simps)
  then have "disk0_write_loop data (of_nat b) s = Some s'"
    using wr assms(3) by (subst disk0_write_loop.simps) (auto simp: disk_consts Let_def)
  then have "disk0_io (of_nat b * 4096) data True s = Some (0, data, s')"
    using a assms(3) by (simp add: disk0_io_def disk_consts Let_def)
  moreover have "length (disk0_buffer s') = 16384" using dv(3) assms(3) by (simp add: s'_def length_overlay)
  then have "same_disk s s'" using assms(1) by (simp add: same_disk_def disk_ok_def s'_def disk_consts)
  moreover have "block s' = (block s)(b := data)"
  proof
    fix x
    have "x * 4096 + 4096 \<le> b * 4096 \<or> b * 4096 + 4096 \<le> x * 4096" if "x \<noteq> b" using that by (cases "x < b") auto
    then show "block s' x = ((block s)(b := data)) x"
      using bytes_to_from [OF assms(3)] bytes_to_other [of "x * 4096" 4096 "b * 4096" data] assms(3)
      by (simp add: block_def s'_def disk_consts)
  qed
  ultimately show ?thesis by blast
qed

end
