(* ===== verification/Stdin.thy ===== *)
theory Stdin
  imports Semaphore Disk Iobuf
begin

text \<open>
  The keyboard as a device (\<^verbatim>\<open>kern/fs/devs/dev_stdin.c\<close>): a ring of 2048 characters between the
  interrupt that types them and the processes that read.  The positions \<^verbatim>\<open>p_rpos\<close> and \<^verbatim>\<open>p_wpos\<close> only
  grow and are natural numbers here; in C they are signed, so that a machine that has been typed
  \<open>2 ^ 31\<close> characters leaves what the language defines.  The queue of the readers is named \<open>q\<close>, the wait
  entry on the stack of a reader like the process.  A reader that finds the ring empty calls
  \<^verbatim>\<open>schedule\<close> in the middle, so \<^verbatim>\<open>dev_stdin_read\<close> is split there: \<open>stdin_read_loop\<close> runs up to the end or
  to the switch, \<open>stdin_read_resume\<close> goes on when the process runs again.
\<close>

definition STDIN_BUFSIZE :: nat where "STDIN_BUFSIZE = 2048"

record stdin_state =
  sync :: sync_state
  stdin_buffer :: "nat \<Rightarrow> u8"
  p_rpos :: nat
  p_wpos :: nat
  kmem :: mem

definition dev_stdin_write :: "nat \<Rightarrow> u8 \<Rightarrow> stdin_state \<Rightarrow> stdin_state option" where
  "dev_stdin_write q c s =
     (if c \<noteq> 0 then
        (let s = s\<lparr>stdin_buffer := (stdin_buffer s)(p_wpos s mod STDIN_BUFSIZE := c)\<rparr>;
             s = (if p_wpos s - p_rpos s < STDIN_BUFSIZE then s\<lparr>p_wpos := p_wpos s + 1\<rparr> else s)
         in if \<not> wait_queue_empty q (sync s) then do {
              y \<leftarrow> wakeup_queue q WT_KBD True (sync s);
              Some (s\<lparr>sync := y\<rparr>)
            } else Some s)
      else Some s)"

text \<open>The characters that are there, at most \<open>k\<close> of them, go to \<open>buf\<close>; the result is how many.\<close>

fun stdin_take :: "nat \<Rightarrow> nat \<Rightarrow> stdin_state \<Rightarrow> nat \<times> stdin_state" where
  "stdin_take buf 0 s = (0, s)"
| "stdin_take buf (Suc k) s =
     (if p_rpos s < p_wpos s then
        (let c = stdin_buffer s (p_rpos s mod STDIN_BUFSIZE);
             (n, s) = stdin_take (buf + 1) k (s\<lparr>kmem := (kmem s)(buf := c), p_rpos := p_rpos s + 1\<rparr>)
         in (n + 1, s))
      else (0, s))"

text \<open>\<open>Inl\<close> the value returned, \<open>Inr\<close> how many characters there were before the wait.\<close>

definition stdin_read_loop :: "nat \<Rightarrow> nat \<Rightarrow> nat \<Rightarrow> nat \<Rightarrow> nat \<Rightarrow> stdin_state \<Rightarrow> ((int + nat) \<times> stdin_state) option" where
  "stdin_read_loop q w buf len ret s =
     (let (n, s) = stdin_take (buf + ret) (len - ret) s; ret = ret + n in
      if ret < len then do {
        y \<leftarrow> wait_current_set q w WT_KBD (sync s);
        sc \<leftarrow> schedule (sch y);
        Some (Inr ret, s\<lparr>sync := y\<lparr>sch := sc\<rparr>\<rparr>)
      } else Some (Inl (int ret), s))"

definition dev_stdin_read :: "nat \<Rightarrow> nat \<Rightarrow> nat \<Rightarrow> nat \<Rightarrow> stdin_state \<Rightarrow> ((int + nat) \<times> stdin_state) option" where
  "dev_stdin_read q w buf len s = stdin_read_loop q w buf len 0 s"

definition stdin_read_resume :: "nat \<Rightarrow> nat \<Rightarrow> nat \<Rightarrow> nat \<Rightarrow> nat \<Rightarrow> stdin_state \<Rightarrow> ((int + nat) \<times> stdin_state) option" where
  "stdin_read_resume q w buf len ret s = do {
     y \<leftarrow> wait_current_del q w (sync s);
     let s = s\<lparr>sync := y\<rparr>;
     if wakeup_flags (waits y w) = WT_KBD then stdin_read_loop q w buf len ret s
     else Some (Inl (int ret), s)
   }"

definition stdin_open :: "u32 \<Rightarrow> int" where
  "stdin_open fl = (if fl \<noteq> 0 then fail_code E_INVAL else 0)"

definition stdin_close :: int where "stdin_close = 0"

definition stdin_ioctl :: int where "stdin_ioctl = fail_code E_INVAL"

text \<open>\<^verbatim>\<open>stdin_io\<close> up to the switch, and what it does with the value that the read returned.\<close>

definition stdin_io :: "nat \<Rightarrow> nat \<Rightarrow> iobuf \<Rightarrow> bool \<Rightarrow> stdin_state \<Rightarrow> ((int + nat) \<times> stdin_state) option" where
  "stdin_io q w iob write s =
     (if \<not> write then dev_stdin_read q w (unat (io_base iob)) (unat (io_resid iob)) s
      else Some (Inl (fail_code E_INVAL), s))"

definition stdin_io_end :: "int \<Rightarrow> iobuf \<Rightarrow> iobuf" where
  "stdin_io_end ret iob = (if ret > 0 then iob\<lparr>io_resid := io_resid iob - of_int ret\<rparr> else iob)"

definition stdin_device_init :: "nat \<Rightarrow> stdin_state \<Rightarrow> stdin_state" where
  "stdin_device_init q s = s\<lparr>p_rpos := 0, p_wpos := 0, sync := wait_queue_init q (sync s)\<rparr>"

section \<open>The ring is a bounded queue\<close>

text \<open>The characters typed and not yet read, and what the device is meant to do with them.\<close>

definition typed :: "stdin_state \<Rightarrow> u8 list" where
  "typed s = map (\<lambda>k. stdin_buffer s (k mod STDIN_BUFSIZE)) [p_rpos s..<p_wpos s]"

definition ring_ok :: "stdin_state \<Rightarrow> bool" where
  "ring_ok s \<longleftrightarrow> p_rpos s \<le> p_wpos s \<and> p_wpos s \<le> p_rpos s + STDIN_BUFSIZE"

definition type_in :: "u8 \<Rightarrow> u8 list \<Rightarrow> u8 list" where
  "type_in c l = (if c = 0 then l else if length l < STDIN_BUFSIZE then l @ [c] else c # tl l)"

lemma length_typed [simp]: "length (typed s) = p_wpos s - p_rpos s"
  by (simp add: typed_def)

lemma full_gap: "\<not> w - r < b \<Longrightarrow> r \<le> w \<Longrightarrow> w \<le> r + b \<Longrightarrow> w = r + (b :: nat)"
  by arith

lemma ring_write:
  fixes c :: u8
  assumes "ring_ok s"
  defines "t \<equiv> s\<lparr>stdin_buffer := (stdin_buffer s)(p_wpos s mod STDIN_BUFSIZE := c)\<rparr>"
  shows "p_wpos s - p_rpos s < STDIN_BUFSIZE \<Longrightarrow> typed (t\<lparr>p_wpos := p_wpos s + 1\<rparr>) = typed s @ [c]"
    and "\<not> p_wpos s - p_rpos s < STDIN_BUFSIZE \<Longrightarrow> typed t = c # tl (typed s)"
proof -
  have ne: "k mod STDIN_BUFSIZE \<noteq> p_wpos s mod STDIN_BUFSIZE" if "k < p_wpos s" "p_wpos s < k + STDIN_BUFSIZE" for k
  proof
    assume "k mod STDIN_BUFSIZE = p_wpos s mod STDIN_BUFSIZE"
    then have "STDIN_BUFSIZE dvd p_wpos s - k" using that(1) mod_eq_dvd_iff_nat [of k "p_wpos s" STDIN_BUFSIZE] by simp
    then show False using that by (auto dest: dvd_imp_le)
  qed
  show "typed (t\<lparr>p_wpos := p_wpos s + 1\<rparr>) = typed s @ [c]" if "p_wpos s - p_rpos s < STDIN_BUFSIZE"
    using that assms(1) ne by (auto simp: typed_def t_def ring_ok_def)
  show "typed t = c # tl (typed s)" if "\<not> p_wpos s - p_rpos s < STDIN_BUFSIZE"
  proof -
    have full: "p_wpos s = p_rpos s + STDIN_BUFSIZE" using that assms(1) by (auto simp: ring_ok_def intro: full_gap)
    then have u: "[p_rpos s..<p_wpos s] = p_rpos s # [Suc (p_rpos s)..<p_wpos s]"
      by (intro upt_conv_Cons) (simp add: STDIN_BUFSIZE_def)
    show ?thesis using ne full by (auto simp: typed_def t_def u [unfolded full])
  qed
qed

lemma bytes_to_Nil [simp]: "bytes_to m a [] = m"
  by (rule ext) (auto simp: bytes_to_def)

lemma stdin_take_ok:
  assumes "ring_ok s" "stdin_take buf k s = (n, s')"
  shows "n = min k (length (typed s)) \<and> s' = s\<lparr>kmem := bytes_to (kmem s) buf (take n (typed s)), p_rpos := p_rpos s + n\<rparr> \<and>
    ring_ok s' \<and> typed s' = drop n (typed s)"
  using assms
proof (induction k arbitrary: buf s n)
  case 0
  then show ?case by auto
next
  case (Suc k)
  show ?case
  proof (cases "p_rpos s < p_wpos s")
    case True
    define c where "c = stdin_buffer s (p_rpos s mod STDIN_BUFSIZE)"
    define s1 where "s1 = s\<lparr>kmem := (kmem s)(buf := c), p_rpos := p_rpos s + 1\<rparr>"
    obtain m where m: "stdin_take (buf + 1) k s1 = (m, s')" "n = m + 1"
      using Suc.prems(2) True by (auto simp: Let_def c_def s1_def split: prod.splits)
    have r1: "ring_ok s1" using Suc.prems(1) True by (simp add: ring_ok_def s1_def)
    have t: "typed s = c # typed s1"
      using True by (simp add: typed_def upt_conv_Cons s1_def c_def)
    have i: "m = min k (length (typed s1))"
      "s' = s1\<lparr>kmem := bytes_to (kmem s1) (buf + 1) (take m (typed s1)), p_rpos := p_rpos s1 + m\<rparr>"
      "ring_ok s'" "typed s' = drop m (typed s1)"
      using Suc.IH [OF r1 m(1)] by auto
    have "bytes_to (kmem s1) (buf + 1) (take m (typed s1)) = bytes_to (kmem s) buf (take n (typed s))"
      unfolding t m(2) by (rule ext) (auto simp: bytes_to_def s1_def nth_Cons' )
    then have "s' = s\<lparr>kmem := bytes_to (kmem s) buf (take n (typed s)), p_rpos := p_rpos s + n\<rparr>"
      using i(2) m(2) by (simp add: s1_def)
    then show ?thesis using i m(2) t by (simp del: length_typed)
  next
    case False
    then have "typed s = []" by (simp add: typed_def)
    then show ?thesis using Suc.prems False by auto
  qed
qed



section \<open>The device as a state machine\<close>

text \<open>
  What the device does, as events: a character is typed, characters reach a reader.  A process that
  is in the middle of a read has the buffer, the length and what it got so far in \<open>rd\<close>.  Anything
  else may happen in between, as long as it leaves the ring and the entries of the readers alone: a
  reader may also be woken by a kill.
\<close>

datatype kbd_event = Typed u8 | Got "u8 list"

type_synonym reading = "nat \<Rightarrow> (nat \<times> nat \<times> nat) option"

fun got_of :: "int + nat \<Rightarrow> nat" where
  "got_of (Inl i) = nat i"
| "got_of (Inr k) = k"

fun reading_of :: "nat \<Rightarrow> nat \<Rightarrow> int + nat \<Rightarrow> (nat \<times> nat \<times> nat) option" where
  "reading_of buf len (Inl i) = None"
| "reading_of buf len (Inr k) = Some (buf, len, k)"

definition stdin_others :: "nat \<Rightarrow> reading \<Rightarrow> stdin_state \<Rightarrow> stdin_state \<Rightarrow> bool" where
  "stdin_others q rd s s' \<longleftrightarrow> sched_step (sch (sync s)) (sch (sync s')) \<and>
     idleproc (sch (sync s')) = idleproc (sch (sync s)) \<and> queues (sync s') q = queues (sync s) q \<and>
     (\<forall>p. rd p \<noteq> None \<longrightarrow> waits (sync s') p = waits (sync s) p \<and> pstate (proc_of (sch (sync s')) p) \<noteq> PROC_ZOMBIE) \<and>
     stdin_buffer s' = stdin_buffer s \<and> p_rpos s' = p_rpos s \<and> p_wpos s' = p_wpos s"

inductive stdin_step :: "nat \<Rightarrow> kbd_event list \<Rightarrow> stdin_state \<times> reading \<Rightarrow> stdin_state \<times> reading \<Rightarrow> bool" for q where
  types: "dev_stdin_write q c s = Some s' \<Longrightarrow> stdin_step q [Typed c] (s, rd) (s', rd)"
| reads: "w = current (sch (sync s)) \<Longrightarrow> w \<noteq> idleproc (sch (sync s)) \<Longrightarrow> rd w = None \<Longrightarrow>
    dev_stdin_read q w buf len s = Some (r, s') \<Longrightarrow>
    stdin_step q [Got (bytes_from (kmem s') buf (got_of r))] (s, rd) (s', rd(w := reading_of buf len r))"
| resumes: "w = current (sch (sync s)) \<Longrightarrow> rd w = Some (buf, len, ret) \<Longrightarrow>
    stdin_read_resume q w buf len ret s = Some (r, s') \<Longrightarrow>
    stdin_step q [Got (bytes_from (kmem s') (buf + ret) (got_of r - ret))] (s, rd) (s', rd(w := reading_of buf len r))"
| others: "stdin_others q rd s s' \<Longrightarrow> stdin_step q [] (s, rd) (s', rd)"

inductive stdin_run :: "nat \<Rightarrow> kbd_event list \<Rightarrow> stdin_state \<times> reading \<Rightarrow> stdin_state \<times> reading \<Rightarrow> bool" for q where
  stdin_run_refl: "stdin_run q [] x x"
| stdin_run_step: "stdin_run q es x y \<Longrightarrow> stdin_step q e y z \<Longrightarrow> stdin_run q (es @ e) x z"

definition stdin_inv :: "nat \<Rightarrow> stdin_state \<Rightarrow> reading \<Rightarrow> bool" where
  "stdin_inv q s rd \<longleftrightarrow> sched_ok (sch (sync s)) \<and> ring_ok s \<and> distinct (queues (sync s) q) \<and>
     (\<forall>p\<in>set (queues (sync s) q). rd p \<noteq> None) \<and>
     (\<forall>p. rd p \<noteq> None \<longrightarrow> p \<noteq> idleproc (sch (sync s)) \<and>
        (if p \<in> set (queues (sync s) q) then wlinked (waits (sync s) p) \<and> wqueue (waits (sync s) p) = q \<and>
           wakeup_flags (waits (sync s) p) = WT_INTERRUPTED \<and>
           wproc (waits (sync s) p) = Some p \<and> pstate (proc_of (sch (sync s)) p) \<noteq> PROC_ZOMBIE
         else \<not> wlinked (waits (sync s) p) \<and> wakeup_flags (waits (sync s) p) = WT_KBD)) \<and>
     (\<forall>p buf len ret. rd p = Some (buf, len, ret) \<longrightarrow> ret \<le> len)"

lemma WT_KBD_INTERRUPTED [simp]: "WT_INTERRUPTED \<noteq> WT_KBD"
  by (simp add: WT_KBD_def WT_INTERRUPTED_def)

lemma stdin_ring_frame [simp]:
  "typed (s\<lparr>sync := y\<rparr>) = typed s" "ring_ok (s\<lparr>sync := y\<rparr>) = ring_ok s"
  by (simp_all add: typed_def ring_ok_def)

lemma wakeup_zombie: "wakeup_proc p s = Some s' \<Longrightarrow> pstate (proc_of s p) \<noteq> PROC_ZOMBIE"
  by (auto simp: wakeup_proc_def)

lemma wakeup_wait_wproc:
  "wakeup_wait q w f del s = Some s' \<Longrightarrow> wproc (waits s' x) = wproc (waits s x)"
  by (auto simp: wakeup_wait_def wait_queue_del_def set_wait_def bind_eq_Some_conv split: if_splits)

lemma wakeup_all_del_wproc:
  "wakeup_all_del n q f s = Some s' \<Longrightarrow> wproc (waits s' x) = wproc (waits s x)"
  by (induction n arbitrary: s)
    (auto simp: bind_eq_Some_conv dest: wakeup_wait_wproc split: option.splits)

lemma wakeup_queue_wproc:
  "wakeup_queue q f True s = Some s' \<Longrightarrow> wproc (waits s' x) = wproc (waits s x)"
  by (auto simp: wakeup_queue_def dest: wakeup_all_del_wproc simp del: wakeup_all_del.simps split: option.splits)

lemma wakeup_idle:
  assumes "wakeup_proc p s = Some s'" "sched_ok s"
  shows "sched_ok s' \<and> idleproc s' = idleproc s"
  using wakeup_ok [OF assms(2) wakeup_zombie [OF assms(1)]] assms(1) by auto

lemma wakeup_wait_idle:
  assumes "wakeup_wait q w f True s = Some s'" "sched_ok (sch s)"
  shows "sched_ok (sch s') \<and> idleproc (sch s') = idleproc (sch s)"
proof -
  obtain p sc where "wakeup_proc p (sch s) = Some sc" "sch s' = sc"
    using assms(1) by (auto simp: wakeup_wait_def wait_queue_del_def bind_eq_Some_conv split: if_splits)
  then show ?thesis using wakeup_idle assms(2) by blast
qed

lemma wakeup_all_del_idle:
  "wakeup_all_del n q f s = Some s' \<Longrightarrow> sched_ok (sch s) \<Longrightarrow> idleproc (sch s') = idleproc (sch s)"
  by (induction n arbitrary: s)
    (auto simp: bind_eq_Some_conv dest!: wakeup_wait_idle split: option.splits)

lemma wakeup_queue_idle:
  "wakeup_queue q f True s = Some s' \<Longrightarrow> sched_ok (sch s) \<Longrightarrow> idleproc (sch s') = idleproc (sch s)"
  by (auto simp: wakeup_queue_def dest: wakeup_all_del_idle simp del: wakeup_all_del.simps split: option.splits)

lemma stdin_loop_ok:
  assumes inv: "stdin_inv q s rd" and c: "w = current (sch (sync s))" "w \<noteq> idleproc (sch (sync s))"
    "rd w = None" and le: "ret \<le> len"
  shows "\<exists>r s'. stdin_read_loop q w buf len ret s = Some (r, s') \<and> stdin_inv q s' (rd(w := reading_of buf len r)) \<and>
    got_of r = ret + min (len - ret) (length (typed s)) \<and> (reading_of buf len r = None \<longleftrightarrow> got_of r = len) \<and>
    bytes_from (kmem s') (buf + ret) (got_of r - ret) = take (got_of r - ret) (typed s) \<and>
    typed s' = drop (got_of r - ret) (typed s)"
proof -
  obtain n t where tk: "stdin_take (buf + ret) (len - ret) s = (n, t)" by (cases "stdin_take (buf + ret) (len - ret) s")
  have r: "ring_ok s" using inv by (simp add: stdin_inv_def)
  have t: "n = min (len - ret) (length (typed s))"
    "t = s\<lparr>kmem := bytes_to (kmem s) (buf + ret) (take n (typed s)), p_rpos := p_rpos s + n\<rparr>"
    "ring_ok t" "typed t = drop n (typed s)"
    using stdin_take_ok [OF r tk] by blast+
  have sy: "sync t = sync s" using t(2) by simp
  have k: "bytes_from (kmem t) (buf + ret) n = take n (typed s)"
    using bytes_to_from [of "take n (typed s)" n] t(1) by (simp add: t(2) del: length_typed)
  show ?thesis
  proof (cases "ret + n < len")
    case False
    have "stdin_read_loop q w buf len ret s = Some (Inl (int (ret + n)), t)"
      using False tk by (simp add: stdin_read_loop_def)
    moreover have "stdin_inv q t (rd(w := None))" using inv t(3) c(3) by (auto simp: stdin_inv_def sy)
    moreover have "ret + n = len" using False t(1) le by auto
    ultimately show ?thesis using k t by (intro exI [of _ "Inl (int (ret + n))"] exI [of _ t]) (auto simp del: length_typed)
  next
    case True
    let ?y = "sync s"
    have nq: "w \<notin> set (queues ?y q)" using inv c(3) by (auto simp: stdin_inv_def)
    let ?s1 = "mod_proc w (\<lambda>d. d\<lparr>pstate := PROC_SLEEPING, wait_state := WT_KBD\<rparr>) (sch ?y)"
    have "sched_ok (sch ?y)" using inv by (simp add: stdin_inv_def)
    then have "sched_ok ?s1" unfolding c(1) by (rule block_ok)
    then obtain s2 where s2: "schedule ?s1 = Some s2" "sched_ok s2" "idleproc s2 = idleproc ?s1"
      "\<forall>p. pstate (proc_of s2 p) = pstate (proc_of ?s1 p)"
      using schedule_ok [of ?s1] by blast
    let ?w = "(waits ?y w)\<lparr>wproc := Some w, wakeup_flags := WT_INTERRUPTED, wqueue := q, wlinked := True\<rparr>"
    let ?b = "?y\<lparr>sch := ?s1, queues := (queues ?y)(q := queues ?y q @ [w]), waits := (waits ?y)(w := ?w)\<rparr>"
    let ?t = "t\<lparr>sync := ?b\<lparr>sch := s2\<rparr>\<rparr>"
    have "wait_current_set q w WT_KBD ?y = Some ?b"
      using c by (simp add: wait_current_set_def wait_init_def wait_queue_add_def set_wait_def set_queue_def Let_def)
    then have run: "stdin_read_loop q w buf len ret s = Some (Inr (ret + n), ?t)"
      using True tk s2(1) by (simp add: stdin_read_loop_def sy)
    have "stdin_inv q ?t (rd(w := Some (buf, len, ret + n)))"
      unfolding stdin_inv_def
    proof (intro conjI)
      show "sched_ok (sch (sync ?t))" "ring_ok ?t" using s2(2) t(3) by auto
      show "distinct (queues (sync ?t) q)" using inv nq by (simp add: stdin_inv_def)
      show "\<forall>p\<in>set (queues (sync ?t) q). (rd(w := Some (buf, len, ret + n))) p \<noteq> None"
        using inv by (simp add: stdin_inv_def)
      show "\<forall>p. (rd(w := Some (buf, len, ret + n))) p \<noteq> None \<longrightarrow> p \<noteq> idleproc (sch (sync ?t)) \<and>
        (if p \<in> set (queues (sync ?t) q) then wlinked (waits (sync ?t) p) \<and> wqueue (waits (sync ?t) p) = q \<and>
           wakeup_flags (waits (sync ?t) p) = WT_INTERRUPTED \<and>
           wproc (waits (sync ?t) p) = Some p \<and> pstate (proc_of (sch (sync ?t)) p) \<noteq> PROC_ZOMBIE
         else \<not> wlinked (waits (sync ?t) p) \<and> wakeup_flags (waits (sync ?t) p) = WT_KBD)"
        using inv nq c s2(3,4) unfolding stdin_inv_def by (auto simp: split: if_splits)
      show "\<forall>p buf' len' ret'. (rd(w := Some (buf, len, ret + n))) p = Some (buf', len', ret') \<longrightarrow> ret' \<le> len'"
        using inv True unfolding stdin_inv_def by (auto split: if_splits)
    qed
    moreover have "kmem ?t = kmem t" "typed ?t = typed t" by simp_all
    ultimately show ?thesis
      using run k t True by (intro exI [of _ "Inr (ret + n)"] exI [of _ ?t]) (auto simp del: length_typed)
  qed
qed

lemma stdin_resume_ok:
  assumes inv: "stdin_inv q s rd" and c: "w = current (sch (sync s))" and rd: "rd w = Some (buf, len, ret)"
  shows "\<exists>r s' k. stdin_read_resume q w buf len ret s = Some (r, s') \<and> stdin_inv q s' (rd(w := reading_of buf len r)) \<and>
    got_of r = ret + k \<and> k \<le> length (typed s) \<and>
    bytes_from (kmem s') (buf + ret) k = take k (typed s) \<and> typed s' = drop k (typed s)"
proof -
  let ?y = "sync s"
  have rn: "rd w \<noteq> None" using rd by simp
  have w: "w \<noteq> idleproc (sch ?y)" "ret \<le> len" using inv rd unfolding stdin_inv_def by fastforce+
  let ?y' = "if w \<in> set (queues ?y q) then
      ?y\<lparr>queues := (queues ?y)(q := remove1 w (queues ?y q)), waits := (waits ?y)(w := (waits ?y w)\<lparr>wlinked := False\<rparr>)\<rparr> else ?y"
  have del: "wait_current_del q w ?y = Some ?y'"
    using inv rn by (auto simp: wait_current_del_def wait_in_queue_def wait_queue_del_def stdin_inv_def set_wait_def set_queue_def
      split: if_splits)
  have inv': "stdin_inv q (s\<lparr>sync := ?y'\<rparr>) (rd(w := None))"
    using inv unfolding stdin_inv_def by auto
  show ?thesis
  proof (cases "wakeup_flags (waits ?y w) = WT_KBD")
    case True
    then have "w \<notin> set (queues ?y q)" using inv rn by (auto simp: stdin_inv_def)
    then have y': "?y' = ?y" by simp
    have "stdin_read_resume q w buf len ret s = stdin_read_loop q w buf len ret s"
      using del True unfolding y' by (simp add: stdin_read_resume_def)
    moreover have "stdin_inv q s (rd(w := None))" using inv' unfolding y' by simp
    from stdin_loop_ok [OF this c w(1) fun_upd_same w(2), of buf] obtain r s' where
      "stdin_read_loop q w buf len ret s = Some (r, s')" "stdin_inv q s' (rd(w := reading_of buf len r))"
      "got_of r = ret + min (len - ret) (length (typed s))"
      "bytes_from (kmem s') (buf + ret) (got_of r - ret) = take (got_of r - ret) (typed s)"
      "typed s' = drop (got_of r - ret) (typed s)" unfolding fun_upd_upd by blast
    ultimately show ?thesis
      by (intro exI [of _ r] exI [of _ s'] exI [of _ "min (len - ret) (length (typed s))"]) (simp del: length_typed)
  next
    case False
    then have q: "w \<in> set (queues ?y q)" using inv rn unfolding stdin_inv_def by metis
    have "wakeup_flags (waits ?y' w) \<noteq> WT_KBD" using False q by simp
    then have "stdin_read_resume q w buf len ret s = Some (Inl (int ret), s\<lparr>sync := ?y'\<rparr>)"
      using del by (simp add: stdin_read_resume_def)
    then show ?thesis using inv'
      by (intro exI [of _ "Inl (int ret)"] exI [of _ "s\<lparr>sync := ?y'\<rparr>"] exI [of _ 0]) (simp add: bytes_from_def)
  qed
qed

lemma stdin_write_ok:
  assumes inv: "stdin_inv q s rd"
  shows "\<exists>s'. dev_stdin_write q c s = Some s' \<and> stdin_inv q s' rd \<and> typed s' = type_in c (typed s) \<and>
    (c \<noteq> 0 \<longrightarrow> queues (sync s') q = [] \<and> (\<forall>w\<in>set (queues (sync s) q). awake w WT_KBD (sync s') \<and> wproc (waits (sync s') w) = Some w))"
proof (cases "c = 0")
  case True
  then show ?thesis using inv by (simp add: dev_stdin_write_def type_in_def)
next
  case False
  define t where "t = s\<lparr>stdin_buffer := (stdin_buffer s)(p_wpos s mod STDIN_BUFSIZE := c)\<rparr>"
  define t' where "t' = (if p_wpos t - p_rpos t < STDIN_BUFSIZE then t\<lparr>p_wpos := p_wpos t + 1\<rparr> else t)"
  have r: "ring_ok s" using inv by (simp add: stdin_inv_def)
  have pos: "p_wpos t = p_wpos s" "p_rpos t = p_rpos s" "sync t = sync s" by (simp_all add: t_def)
  have sy: "sync t' = sync s" by (simp add: t'_def pos)
  have ty: "typed t' = type_in c (typed s)"
    using ring_write [OF r, of c] False by (simp add: t'_def t_def type_in_def)
  have ro: "ring_ok t'" using r by (auto simp: t'_def ring_ok_def pos)
  have wq: "wakeable_queue q (sync s)"
    using inv unfolding stdin_inv_def wakeable_queue_def by metis
  obtain y where y: "wakeup_queue q WT_KBD True (sync s) = Some y" "sched_ok (sch y)" "queues y q = []"
    "\<forall>w\<in>set (queues (sync s) q). awake w WT_KBD y \<and> \<not> wlinked (waits y w)"
    "\<forall>w. w \<notin> set (queues (sync s) q) \<longrightarrow> waits y w = waits (sync s) w"
    using wakeup_queue_all [OF wq] by blast
  have yid: "idleproc (sch y) = idleproc (sch (sync s))" using wakeup_queue_idle [OF y(1)] inv by (simp add: stdin_inv_def)
  have wp: "wproc (waits y w) = Some w" if "w \<in> set (queues (sync s) q)" for w
    using wakeup_queue_wproc [OF y(1)] inv that unfolding stdin_inv_def by metis
  show ?thesis
  proof (cases "queues (sync s) q = []")
    case True
    have "dev_stdin_write q c s = Some t'"
      using True \<open>c \<noteq> 0\<close> by (simp add: dev_stdin_write_def Let_def t'_def t_def wait_queue_empty_def)
    moreover have "stdin_inv q t' rd" using inv ro by (simp add: stdin_inv_def sy)
    ultimately show ?thesis using ty True by (intro exI [of _ t']) (simp add: sy)
  next
    case ne: False
    have "dev_stdin_write q c s = Some (t'\<lparr>sync := y\<rparr>)"
      using ne \<open>c \<noteq> 0\<close> y(1) by (simp add: dev_stdin_write_def Let_def t'_def t_def wait_queue_empty_def)
    moreover have "stdin_inv q (t'\<lparr>sync := y\<rparr>) rd"
      unfolding stdin_inv_def
    proof (intro conjI allI impI)
      show "sched_ok (sch (sync (t'\<lparr>sync := y\<rparr>)))" "ring_ok (t'\<lparr>sync := y\<rparr>)"
        "distinct (queues (sync (t'\<lparr>sync := y\<rparr>)) q)" "\<forall>p\<in>set (queues (sync (t'\<lparr>sync := y\<rparr>)) q). rd p \<noteq> None"
        using y ro by simp_all
      fix p
      show "ret \<le> len" if "rd p = Some (buf, len, ret)" for buf len ret
        using inv that unfolding stdin_inv_def by blast
      assume p: "rd p \<noteq> None"
      show "p \<noteq> idleproc (sch (sync (t'\<lparr>sync := y\<rparr>)))" using inv p yid by (simp add: stdin_inv_def)
      have "\<not> wlinked (waits y p) \<and> wakeup_flags (waits y p) = WT_KBD"
      proof (cases "p \<in> set (queues (sync s) q)")
        case True then show ?thesis using y(4) by (auto simp: awake_def)
      next
        case F: False
        then have "waits y p = waits (sync s) p" using y(5) by blast
        then show ?thesis using inv p F unfolding stdin_inv_def by auto
      qed
      then show "if p \<in> set (queues (sync (t'\<lparr>sync := y\<rparr>)) q) then wlinked (waits (sync (t'\<lparr>sync := y\<rparr>)) p) \<and>
          wqueue (waits (sync (t'\<lparr>sync := y\<rparr>)) p) = q \<and> wakeup_flags (waits (sync (t'\<lparr>sync := y\<rparr>)) p) = WT_INTERRUPTED \<and>
          wproc (waits (sync (t'\<lparr>sync := y\<rparr>)) p) = Some p \<and> pstate (proc_of (sch (sync (t'\<lparr>sync := y\<rparr>))) p) \<noteq> PROC_ZOMBIE
        else \<not> wlinked (waits (sync (t'\<lparr>sync := y\<rparr>)) p) \<and> wakeup_flags (waits (sync (t'\<lparr>sync := y\<rparr>)) p) = WT_KBD"
        using y(3) by simp
    qed
    ultimately show ?thesis using ty y wp by (intro exI [of _ "t'\<lparr>sync := y\<rparr>"]) simp
  qed
qed

lemma stdin_others_ok:
  assumes inv: "stdin_inv q s rd" and st: "stdin_others q rd s s'"
  shows "stdin_inv q s' rd" "typed s' = typed s"
proof -
  have "sched_ok (sch (sync s'))"
    using inv st sched_ok_step by (auto simp: stdin_inv_def stdin_others_def)
  then show "stdin_inv q s' rd"
    using inv st unfolding stdin_inv_def stdin_others_def ring_ok_def by auto
  show "typed s' = typed s" using st by (simp add: stdin_others_def typed_def)
qed

text \<open>What the events make of the queue; a reader can only get what is at its front.\<close>

fun kbd_spec :: "kbd_event list \<Rightarrow> u8 list \<Rightarrow> u8 list option" where
  "kbd_spec [] l = Some l"
| "kbd_spec (Typed c # es) l = kbd_spec es (type_in c l)"
| "kbd_spec (Got cs # es) l = (if take (length cs) l = cs then kbd_spec es (drop (length cs) l) else None)"

definition typed_in :: "kbd_event list \<Rightarrow> u8 list" where
  "typed_in es = concat (map (\<lambda>e. case e of Typed c \<Rightarrow> if c = 0 then [] else [c] | Got _ \<Rightarrow> []) es)"

definition got_in :: "kbd_event list \<Rightarrow> u8 list" where
  "got_in es = concat (map (\<lambda>e. case e of Typed c \<Rightarrow> [] | Got cs \<Rightarrow> cs) es)"

text \<open>No character comes while 2048 are waiting.\<close>

fun no_overrun :: "kbd_event list \<Rightarrow> u8 list \<Rightarrow> bool" where
  "no_overrun [] l = True"
| "no_overrun (Typed c # es) l = ((c = 0 \<or> length l < STDIN_BUFSIZE) \<and> no_overrun es (type_in c l))"
| "no_overrun (Got cs # es) l = no_overrun es (drop (length cs) l)"

lemma kbd_spec_append: "kbd_spec (es @ fs) l = Option.bind (kbd_spec es l) (kbd_spec fs)"
  by (induction es l rule: kbd_spec.induct) auto

lemma kbd_spec_fifo: "kbd_spec es l = Some x \<Longrightarrow> no_overrun es l \<Longrightarrow> got_in es @ x = l @ typed_in es"
proof (induction es l rule: kbd_spec.induct)
  case (1 l)
  then show ?case by (simp add: got_in_def typed_in_def)
next
  case (2 c es l)
  have "no_overrun es (type_in c l)" using 2(3) by simp
  then have "got_in es @ x = type_in c l @ typed_in es" using 2 by simp
  moreover have "c \<noteq> 0 \<longrightarrow> length l < STDIN_BUFSIZE" using 2(3) by auto
  ultimately show ?case by (auto simp: type_in_def got_in_def typed_in_def split: if_splits)
next
  case (3 cs es l)
  have t: "take (length cs) l = cs" "kbd_spec es (drop (length cs) l) = Some x" using 3(2) by (auto split: if_splits)
  have "no_overrun es (drop (length cs) l)" using 3(3) by simp
  then have "got_in es @ x = drop (length cs) l @ typed_in es" using 3(1) t by simp
  then have "cs @ got_in es @ x = (take (length cs) l @ drop (length cs) l) @ typed_in es" using t(1) by simp
  then show ?case by (simp add: got_in_def typed_in_def)
qed

lemma stdin_step_ok:
  assumes "stdin_step q e x y" "stdin_inv q (fst x) (snd x)"
  shows "stdin_inv q (fst y) (snd y) \<and> kbd_spec e (typed (fst x)) = Some (typed (fst y))"
  using assms
proof (induction rule: stdin_step.induct)
  case (types c s s' rd)
  then show ?case using stdin_write_ok [of q s rd c] by auto
next
  case (reads w s rd buf len r s')
  obtain r' t where "stdin_read_loop q w buf len 0 s = Some (r', t)" "stdin_inv q t (rd(w := reading_of buf len r'))"
    "bytes_from (kmem t) buf (got_of r') = take (got_of r') (typed s)" "typed t = drop (got_of r') (typed s)"
    "got_of r' \<le> length (typed s)"
    using stdin_loop_ok [of q s rd w 0 len buf] reads by (auto simp del: length_typed)
  then show ?case using reads(4) by (auto simp: dev_stdin_read_def simp del: length_typed fun_upd_apply)
next
  case (resumes w s rd buf len ret r s')
  obtain r' t k where "stdin_read_resume q w buf len ret s = Some (r', t)" "stdin_inv q t (rd(w := reading_of buf len r'))"
    "got_of r' = ret + k" "bytes_from (kmem t) (buf + ret) k = take k (typed s)" "typed t = drop k (typed s)"
    "k \<le> length (typed s)"
    using stdin_resume_ok [of q s rd w buf len ret] resumes by (auto simp del: length_typed)
  then show ?case using resumes(3) by (auto simp del: length_typed fun_upd_apply)
next
  case (others rd s s')
  then show ?case using stdin_others_ok [of q s rd s'] by simp
qed

lemma stdin_run_ok:
  "stdin_run q es x y \<Longrightarrow> stdin_inv q (fst x) (snd x) \<Longrightarrow>
   stdin_inv q (fst y) (snd y) \<and> kbd_spec es (typed (fst x)) = Some (typed (fst y))"
  by (induction rule: stdin_run.induct) (auto simp: kbd_spec_append dest: stdin_step_ok)

lemma stdin_init_inv: "sched_ok (sch (sync s)) \<Longrightarrow> stdin_inv q (stdin_device_init q s) (\<lambda>_. None)"
  by (simp add: stdin_inv_def stdin_device_init_def wait_queue_init_def set_queue_def ring_ok_def)

text \<open>The position of the writer counts characters that were typed, so it fits where fewer than \<open>2 ^ 31\<close> have been.\<close>

lemma stdin_take_wpos: "p_wpos (snd (stdin_take buf k s)) = p_wpos s"
proof (induction k arbitrary: buf s)
  case (Suc k)
  let ?t = "s\<lparr>kmem := (kmem s)(buf := stdin_buffer s (p_rpos s mod STDIN_BUFSIZE)), p_rpos := p_rpos s + 1\<rparr>"
  show ?case using Suc [of "buf + 1" ?t] by (cases "stdin_take (buf + 1) k ?t") simp
qed simp

lemma stdin_loop_wpos: "stdin_read_loop q w buf len ret s = Some (r, s') \<Longrightarrow> p_wpos s' = p_wpos s"
  using stdin_take_wpos [of "buf + ret" "len - ret" s]
  by (auto simp: stdin_read_loop_def Let_def bind_eq_Some_conv split: prod.splits if_splits)

lemma stdin_resume_wpos: "stdin_read_resume q w buf len ret s = Some (r, s') \<Longrightarrow> p_wpos s' = p_wpos s"
  by (auto simp: stdin_read_resume_def Let_def bind_eq_Some_conv dest!: stdin_loop_wpos split: if_splits)

lemma stdin_step_wpos:
  assumes "stdin_step q e x y"
  shows "p_wpos (fst y) \<le> p_wpos (fst x) + length (typed_in e)"
  using assms
proof (induction rule: stdin_step.induct)
  case (types c s s' rd)
  then show ?case
    by (auto simp: dev_stdin_write_def Let_def typed_in_def bind_eq_Some_conv split: if_splits)
next
  case (reads w s rd buf len r s')
  then show ?case using stdin_loop_wpos by (auto simp: dev_stdin_read_def)
next
  case (resumes w s rd buf len ret r s')
  then show ?case using stdin_resume_wpos by auto
qed (simp add: stdin_others_def)

lemma stdin_run_wpos: "stdin_run q es x y \<Longrightarrow> p_wpos (fst y) \<le> p_wpos (fst x) + length (typed_in es)"
proof (induction rule: stdin_run.induct)
qed (fastforce simp: typed_in_def dest: stdin_step_wpos)+

text \<open>
  C34.  The keyboard, whatever the order of key presses, reads that wait, wake-ups, kills and context switches:
  what has been read and what is still in the ring are what the specified queue \<open>kbd_spec\<close> makes of the
  events - never more than 2048 characters, where a key pressed while 2048 are waiting takes the place of the
  oldest.  As long as none is, it is a first-in first-out queue: what has been read and what is in the ring are
  together exactly the characters typed, in order.  A key press never panics and leaves no reader
  asleep; a read never panics either, and without a kill returns only when it has all the
  characters it was asked for.  The position of the writer is at most the number of characters typed, so
  below \<open>2 ^ 31\<close> of them the positions fit the signed 32-bit variables of the source.
\<close>

theorem stdin_fifo:
  assumes "sched_ok (sch (sync s0))" "stdin_run q es (stdin_device_init q s0, \<lambda>_. None) (s, rd)"
  shows "kbd_spec es [] = Some (typed s) \<and> length (typed s) \<le> STDIN_BUFSIZE \<and>
    (no_overrun es [] \<longrightarrow> got_in es @ typed s = typed_in es) \<and>
    p_rpos s \<le> p_wpos s \<and> p_wpos s \<le> length (typed_in es) \<and>
    (\<forall>c. \<exists>s'. dev_stdin_write q c s = Some s' \<and> typed s' = type_in c (typed s) \<and>
      (c \<noteq> 0 \<longrightarrow> (\<forall>w\<in>set (queues (sync s) q). wakeup_flags (waits (sync s') w) = WT_KBD \<and>
         pstate (proc_of (sch (sync s')) w) = PROC_RUNNABLE))) \<and>
    (\<forall>w buf len. w = current (sch (sync s)) \<and> w \<noteq> idleproc (sch (sync s)) \<and> rd w = None \<longrightarrow>
      (\<exists>r s'. dev_stdin_read q w buf len s = Some (r, s') \<and> (r = Inl (int len) \<or> (\<exists>k<len. r = Inr k \<and> typed s' = [])))) \<and>
    (\<forall>w buf len ret. w = current (sch (sync s)) \<and> rd w = Some (buf, len, ret) \<longrightarrow>
      stdin_read_resume q w buf len ret s \<noteq> None)"
proof -
  have t0: "typed (stdin_device_init q s0) = []" by (simp add: typed_def stdin_device_init_def)
  have inv: "stdin_inv q s rd" and spec: "kbd_spec es [] = Some (typed s)"
    using stdin_run_ok [OF assms(2)] stdin_init_inv [OF assms(1)] t0 by auto
  have "length (typed s) \<le> STDIN_BUFSIZE" "p_rpos s \<le> p_wpos s" using inv by (auto simp: stdin_inv_def ring_ok_def)
  moreover have "p_wpos s \<le> length (typed_in es)" using stdin_run_wpos [OF assms(2)] by (simp add: stdin_device_init_def)
  moreover have "no_overrun es [] \<longrightarrow> got_in es @ typed s = typed_in es" using kbd_spec_fifo [OF spec] by simp
  moreover have "\<exists>s'. dev_stdin_write q c s = Some s' \<and> typed s' = type_in c (typed s) \<and>
      (c \<noteq> 0 \<longrightarrow> (\<forall>w\<in>set (queues (sync s) q). wakeup_flags (waits (sync s') w) = WT_KBD \<and>
         pstate (proc_of (sch (sync s')) w) = PROC_RUNNABLE))" for c
    using stdin_write_ok [OF inv, of c] unfolding awake_def by fastforce
  moreover have "\<exists>r s'. dev_stdin_read q w buf len s = Some (r, s') \<and> (r = Inl (int len) \<or> (\<exists>k<len. r = Inr k \<and> typed s' = []))"
    if w: "w = current (sch (sync s))" "w \<noteq> idleproc (sch (sync s))" "rd w = None" for w buf len
  proof -
    obtain r s' where r: "stdin_read_loop q w buf len 0 s = Some (r, s')" "got_of r = min len (length (typed s))"
      "reading_of buf len r = None \<longleftrightarrow> got_of r = len" "typed s' = drop (got_of r) (typed s)"
      using stdin_loop_ok [OF inv w, of 0 len buf] by (auto simp del: length_typed)
    have "r = Inl (int len) \<or> (\<exists>k<len. r = Inr k \<and> typed s' = [])"
    proof (cases r)
      case (Inl i)
      then have "0 \<le> i" using r(1) by (auto simp: stdin_read_loop_def Let_def bind_eq_Some_conv split: prod.splits if_splits)
      then show ?thesis using Inl r(3) by auto
    next
      case (Inr k)
      then show ?thesis using r(2-4) by (auto simp del: length_typed)
    qed
    then show ?thesis using r(1) unfolding dev_stdin_read_def by blast
  qed
  moreover have "stdin_read_resume q w buf len ret s \<noteq> None"
    if "w = current (sch (sync s))" "rd w = Some (buf, len, ret)" for w buf len ret
    using stdin_resume_ok [OF inv that] by auto
  ultimately show ?thesis using spec by (intro conjI allI impI) auto
qed

theorem stdin_fifo_witness:
  "\<exists>s0 s rd. stdin_run 5 [Typed 104, Typed 0, Typed 105, Got [104]] (stdin_device_init 5 s0, \<lambda>_. None) (s, rd) \<and>
     typed s = [105] \<and> got_in [Typed 104, Typed 0, Typed 105, Got [104]] @ typed s = [104, 105]"
proof -
  obtain sc where sc: "sched_ok sc" "current sc = 7" "idleproc sc = 0" using demo_running by blast
  let ?y = "\<lparr>sch = sc, waits = (\<lambda>_. \<lparr>wproc = None, wakeup_flags = 0, wqueue = 0, wlinked = False\<rparr>),
    queues = (\<lambda>_. []), sem_value = (\<lambda>_. 9)\<rparr>"
  let ?s0 = "\<lparr>sync = ?y, stdin_buffer = (\<lambda>_. 0), p_rpos = 0, p_wpos = 0, kmem = (\<lambda>_. 0)\<rparr>"
  let ?i = "stdin_device_init 5 ?s0"
  let ?s1 = "?i\<lparr>stdin_buffer := (\<lambda>_. 0)(0 := 104), p_wpos := 1\<rparr>"
  let ?s2 = "?i\<lparr>stdin_buffer := (\<lambda>_. 0)(0 := 104, 1 := 105), p_wpos := 2\<rparr>"
  let ?s3 = "?s2\<lparr>kmem := (\<lambda>_. 0)(80 := 104), p_rpos := 1\<rparr>"
  let ?rd = "\<lambda>_ :: nat. None :: (nat \<times> nat \<times> nat) option"
  note d = dev_stdin_write_def stdin_device_init_def wait_queue_init_def set_queue_def wait_queue_empty_def STDIN_BUFSIZE_def
  have w: "dev_stdin_write 5 104 ?i = Some ?s1" "dev_stdin_write 5 0 ?s1 = Some ?s1" "dev_stdin_write 5 105 ?s1 = Some ?s2"
    by (simp_all add: d)
  have r: "dev_stdin_read 5 7 80 1 ?s2 = Some (Inl 1, ?s3)"
    by (simp add: d dev_stdin_read_def stdin_read_loop_def)
  have g: "bytes_from (kmem ?s3) 80 (got_of (Inl 1)) = [104]" by (simp add: bytes_from_def)
  have st: "stdin_step 5 [Got [104]] (?s2, ?rd) (?s3, ?rd)"
    using stdin_step.reads [of 7 ?s2 ?rd 5 80 1 "Inl 1" ?s3] r sc(2,3) unfolding g
    by (simp add: stdin_device_init_def wait_queue_init_def set_queue_def del: fun_upd_apply)
  have run: "stdin_run 5 ([] @ [Typed 104] @ [Typed 0] @ [Typed 105] @ [Got [104]]) (?i, ?rd) (?s3, ?rd)"
    using stdin_run_step [OF stdin_run_step [OF stdin_run_step [OF stdin_run_step [OF stdin_run_refl
      stdin_step.types [OF w(1)]] stdin_step.types [OF w(2)]] stdin_step.types [OF w(3)]] st] by simp
  have ok: "sched_ok (sch (sync ?s0))" using sc(1) by simp
  have "typed ?s3 = [105]" by (simp add: typed_def STDIN_BUFSIZE_def stdin_device_init_def upt_rec numeral_2_eq_2)
  moreover have "no_overrun [Typed 104, Typed 0, Typed 105, Got [104]] []"
    by (simp add: type_in_def STDIN_BUFSIZE_def)
  ultimately show ?thesis
    using stdin_fifo [OF ok run] run by (intro exI [of _ ?s0] exI [of _ ?s3] exI [of _ ?rd]) (simp add: typed_in_def)
qed

end
