(* ===== verification/Sfs.thy ===== *)
theory Sfs
  imports Disk Inode
begin

text \<open>
  The simple file system of \<^verbatim>\<open>kern/fs/sfs\<close>, on \<^verbatim>\<open>disk0\<close>.  An inode in memory is named by the number
  of its VFS inode; \<^verbatim>\<open>sin->din\<close> is a record and is turned into bytes when it goes to the disk.
  \<^verbatim>\<open>sfs_buffer\<close>, which every use fills first, is a value of the routine that uses it; the directory
  entries that routines take from \<^verbatim>\<open>kmalloc\<close> for their own use likewise, with the request and the
  release counted.  \<^verbatim>\<open>node_ans\<close> holds the addresses that \<^verbatim>\<open>alloc_inode\<close> will answer, \<open>fmem\<close> is the
  memory that transfers read and write.  A routine runs from taking its locks to giving them back
  without another one in between; the locks are semaphores, which \<open>Semaphore\<close> models.
\<close>

definition SFS_MAGIC :: u32 where "SFS_MAGIC = 0x2f8dbe2a"
definition SFS_BLKSIZE :: nat where "SFS_BLKSIZE = 4096"
definition SFS_NDIRECT :: nat where "SFS_NDIRECT = 12"
definition SFS_MAX_INFO_LEN :: nat where "SFS_MAX_INFO_LEN = 31"
definition SFS_MAX_FNAME_LEN :: nat where "SFS_MAX_FNAME_LEN = 255"
definition SFS_MAX_FILE_SIZE :: u32 where "SFS_MAX_FILE_SIZE = 1024 * 1024 * 128"
definition SFS_BLKN_SUPER :: nat where "SFS_BLKN_SUPER = 0"
definition SFS_BLKN_ROOT :: nat where "SFS_BLKN_ROOT = 1"
definition SFS_BLKN_FREEMAP :: nat where "SFS_BLKN_FREEMAP = 2"
definition SFS_BLKBITS_SHIFT :: nat where "SFS_BLKBITS_SHIFT = 12 + 3"
definition SFS_BLK_NENTRY :: nat where "SFS_BLK_NENTRY = SFS_BLKSIZE div 4"
definition SFS_TYPE_FILE :: nat where "SFS_TYPE_FILE = 1"
definition SFS_TYPE_DIR :: nat where "SFS_TYPE_DIR = 2"
definition SFS_TYPE_LINK :: nat where "SFS_TYPE_LINK = 3"

record sfs_disk_inode =
  dsize :: u32
  dtype :: nat
  nlinks :: nat
  dblocks :: nat
  direct :: "nat list"
  indirect :: nat

record sfs_disk_entry =
  eino :: nat
  ename :: "u8 list"

record sfs_inode =
  din :: sfs_disk_inode
  ino :: nat
  dirty :: bool
  reclaim_count :: int

record sfs_super =
  magic :: u32
  blocks_of :: nat
  unused_blocks :: nat
  info :: "u8 list"

record sfs_fs =
  super :: sfs_super
  sdev :: disk
  freemap :: bitmap
  super_dirty :: bool
  sfs_inodes :: "nat \<Rightarrow> sfs_inode"
  inode_list :: "nat list"
  hash_list :: "nat \<Rightarrow> nat list"
  fmem :: mem
  fheap :: heap_st
  node_ans :: "nat option list"

definition mod_sin :: "nat \<Rightarrow> (sfs_inode \<Rightarrow> sfs_inode) \<Rightarrow> sfs_fs \<Rightarrow> sfs_fs" where
  "mod_sin n f s = s\<lparr>sfs_inodes := (sfs_inodes s)(n := f (sfs_inodes s n))\<rparr>"

definition mod_din :: "nat \<Rightarrow> (sfs_disk_inode \<Rightarrow> sfs_disk_inode) \<Rightarrow> sfs_fs \<Rightarrow> sfs_fs" where
  "mod_din n f = mod_sin n (\<lambda>i. i\<lparr>din := f (din i)\<rparr>)"

definition mod_super :: "(sfs_super \<Rightarrow> sfs_super) \<Rightarrow> sfs_fs \<Rightarrow> sfs_fs" where
  "mod_super f s = s\<lparr>super := f (super s)\<rparr>"

definition mark_dirty :: "nat \<Rightarrow> sfs_fs \<Rightarrow> sfs_fs" where
  "mark_dirty n = mod_sin n (\<lambda>i. i\<lparr>dirty := True\<rparr>)"

section \<open>What is on the disk\<close>

definition super_bytes :: "sfs_super \<Rightarrow> u8 list" where
  "super_bytes p = word_bytes (magic p) @ word_bytes (of_nat (blocks_of p)) @ word_bytes (of_nat (unused_blocks p)) @ info p"

definition bytes_super :: "u8 list \<Rightarrow> sfs_super" where
  "bytes_super bs = \<lparr>magic = bytes_word bs, blocks_of = unat (bytes_word (drop 4 bs)),
     unused_blocks = unat (bytes_word (drop 8 bs)), info = take 32 (drop 12 bs)\<rparr>"

definition sizeof_din :: nat where "sizeof_din = 64"

definition din_bytes :: "sfs_disk_inode \<Rightarrow> u8 list" where
  "din_bytes d = concat (map word_bytes ([dsize d, of_nat (dtype d) OR push_bit 16 (of_nat (nlinks d)), of_nat (dblocks d)] @
     map of_nat (direct d) @ [of_nat (indirect d)]))"

definition bytes_din :: "u8 list \<Rightarrow> sfs_disk_inode" where
  "bytes_din bs = (let w = words_of 16 bs; t = w ! 1 in
     \<lparr>dsize = w ! 0, dtype = unat (t AND 0xFFFF), nlinks = unat (drop_bit 16 t), dblocks = unat (w ! 2),
      direct = map unat (take 12 (drop 3 w)), indirect = unat (w ! 15)\<rparr>)"

definition sizeof_entry :: nat where "sizeof_entry = 260"

definition bytes_entry :: "u8 list \<Rightarrow> sfs_disk_entry" where
  "bytes_entry bs = \<lparr>eino = unat (bytes_word bs), ename = take 256 (drop 4 bs)\<rparr>"

text \<open>The C string at the start of an array.\<close>

definition cstr :: "u8 list \<Rightarrow> u8 list" where
  "cstr bs = takeWhile (\<lambda>b. b \<noteq> 0) bs"

section \<open>Blocks (sfs\_io.c)\<close>

type_synonym 'a sfs_op = "sfs_fs \<Rightarrow> ('a \<times> sfs_fs) option"

text \<open>The error code and the bytes of the buffer.\<close>

definition sfs_rwblock_nolock :: "u8 list \<Rightarrow> nat \<Rightarrow> bool \<Rightarrow> bool \<Rightarrow> (int \<times> u8 list) sfs_op" where
  "sfs_rwblock_nolock buf blkno write check s = do {
     kassert ((blkno \<noteq> 0 \<or> \<not> check) \<and> blkno < blocks_of (super s));
     (ret, buf, d) \<leftarrow> disk0_io (of_nat blkno * 4096) buf write (sdev s);
     Some ((ret, buf), s\<lparr>sdev := d\<rparr>)
   }"

fun sfs_rwblock :: "u8 list \<Rightarrow> nat \<Rightarrow> nat \<Rightarrow> bool \<Rightarrow> (int \<times> u8 list) sfs_op" where
  "sfs_rwblock buf blkno 0 write s = Some ((0, buf), s)"
| "sfs_rwblock buf blkno (Suc nblks) write s = do {
     ((ret, b), s) \<leftarrow> sfs_rwblock_nolock (take SFS_BLKSIZE buf) blkno write True s;
     if ret \<noteq> 0 then Some ((ret, b @ drop SFS_BLKSIZE buf), s)
     else do {
       ((ret, rest), s) \<leftarrow> sfs_rwblock (drop SFS_BLKSIZE buf) (blkno + 1) nblks write s;
       Some ((ret, b @ rest), s)
     }
   }"

definition sfs_rblock :: "u8 list \<Rightarrow> nat \<Rightarrow> nat \<Rightarrow> (int \<times> u8 list) sfs_op" where
  "sfs_rblock buf blkno nblks = sfs_rwblock buf blkno nblks False"

definition sfs_wblock :: "u8 list \<Rightarrow> nat \<Rightarrow> nat \<Rightarrow> (int \<times> u8 list) sfs_op" where
  "sfs_wblock buf blkno nblks = sfs_rwblock buf blkno nblks True"

definition zeros :: "u8 list" where
  "zeros = replicate SFS_BLKSIZE 0"

text \<open>The bytes read are meant only when the code is 0.\<close>

definition sfs_rbuf :: "nat \<Rightarrow> nat \<Rightarrow> nat \<Rightarrow> (int \<times> u8 list) sfs_op" where
  "sfs_rbuf len blkno offset s = do {
     kassert (offset < SFS_BLKSIZE \<and> offset + len \<le> SFS_BLKSIZE);
     ((ret, b), s) \<leftarrow> sfs_rwblock_nolock zeros blkno False True s;
     Some ((ret, take len (drop offset b)), s)
   }"

definition sfs_wbuf :: "u8 list \<Rightarrow> nat \<Rightarrow> nat \<Rightarrow> int sfs_op" where
  "sfs_wbuf bs blkno offset s = do {
     kassert (offset < SFS_BLKSIZE \<and> offset + length bs \<le> SFS_BLKSIZE);
     ((ret, b), s) \<leftarrow> sfs_rwblock_nolock zeros blkno False True s;
     if ret = 0 then do {
       ((ret, _), s) \<leftarrow> sfs_rwblock_nolock (overlay offset bs b) blkno True True s;
       Some (ret, s)
     } else Some (ret, s)
   }"

definition sfs_sync_super :: "int sfs_op" where
  "sfs_sync_super s = do {
     ((ret, _), s) \<leftarrow> sfs_rwblock_nolock (overlay 0 (super_bytes (super s)) zeros) SFS_BLKN_SUPER True False s;
     Some (ret, s)
   }"

definition sfs_freemap_bits :: "sfs_super \<Rightarrow> u32" where
  "sfs_freemap_bits p = roundup_2n (of_nat (blocks_of p)) SFS_BLKBITS_SHIFT"

definition sfs_freemap_blocks :: "sfs_super \<Rightarrow> nat" where
  "sfs_freemap_blocks p = unat (roundup_div_2n (of_nat (blocks_of p)) SFS_BLKBITS_SHIFT)"

definition sfs_sync_freemap :: "int sfs_op" where
  "sfs_sync_freemap s = do {
     ((ret, _), s) \<leftarrow> sfs_wblock (bitmap_getdata (freemap s)) SFS_BLKN_FREEMAP (sfs_freemap_blocks (super s)) s;
     Some (ret, s)
   }"

fun sfs_clear_block :: "nat \<Rightarrow> nat \<Rightarrow> int sfs_op" where
  "sfs_clear_block blkno 0 s = Some (0, s)"
| "sfs_clear_block blkno (Suc nblks) s = do {
     ((ret, _), s) \<leftarrow> sfs_rwblock_nolock zeros blkno True True s;
     if ret \<noteq> 0 then Some (ret, s) else sfs_clear_block (blkno + 1) nblks s
   }"

section \<open>The free blocks\<close>

definition sfs_block_inuse :: "sfs_fs \<Rightarrow> nat \<Rightarrow> bool option" where
  "sfs_block_inuse s i = (if i \<noteq> 0 \<and> i < blocks_of (super s) then map_option Not (bitmap_test (freemap s) i) else None)"

definition sfs_block_alloc :: "(int \<times> nat) sfs_op" where
  "sfs_block_alloc s = do {
     (ret, i, b) \<leftarrow> bitmap_alloc (freemap s);
     let s = s\<lparr>freemap := b\<rparr>;
     if ret \<noteq> 0 then Some ((ret, 0), s)
     else do {
       i \<leftarrow> i;
       kassert (unused_blocks (super s) > 0);
       let s = (mod_super (\<lambda>p. p\<lparr>unused_blocks := unused_blocks p - 1\<rparr>) s)\<lparr>super_dirty := True\<rparr>;
       u \<leftarrow> sfs_block_inuse s i;
       kassert u;
       (ret, s) \<leftarrow> sfs_clear_block i 1 s;
       Some ((ret, i), s)
     }
   }"

definition sfs_block_free :: "nat \<Rightarrow> sfs_fs \<Rightarrow> sfs_fs option" where
  "sfs_block_free i s = do {
     u \<leftarrow> sfs_block_inuse s i;
     kassert u;
     b \<leftarrow> bitmap_free (freemap s) i;
     Some ((mod_super (\<lambda>p. p\<lparr>unused_blocks := unused_blocks p + 1\<rparr>) (s\<lparr>freemap := b\<rparr>))\<lparr>super_dirty := True\<rparr>)
   }"

section \<open>The blocks of a file\<close>

text \<open>The error code, the block of entries and the block found.\<close>

definition sfs_bmap_get_sub_nolock :: "nat \<Rightarrow> nat \<Rightarrow> bool \<Rightarrow> (int \<times> nat \<times> nat) sfs_op" where
  "sfs_bmap_get_sub_nolock entp index create s = do {
     kassert (index < SFS_BLK_NENTRY);
     ((ret, ent, i), s) \<leftarrow> (if entp \<noteq> 0 then do {
         ((ret, bs), s) \<leftarrow> sfs_rbuf 4 entp (index * 4) s;
         Some ((ret, entp, unat (bytes_word bs)), s)
       } else if \<not> create then Some ((0, 0, 0), s)
       else do { ((ret, ent), s) \<leftarrow> sfs_block_alloc s; Some ((ret, ent, 0), s) });
     if ret \<noteq> 0 then Some ((ret, entp, 0), s)
     else if i \<noteq> 0 \<or> \<not> create then Some ((0, ent, i), s)
     else do {
       ((ret, i), s) \<leftarrow> sfs_block_alloc s;
       (ret, s) \<leftarrow> (if ret \<noteq> 0 then Some (ret, s)
         else do {
           (ret, s) \<leftarrow> sfs_wbuf (word_bytes (of_nat i)) ent (index * 4) s;
           if ret \<noteq> 0 then do { s \<leftarrow> sfs_block_free i s; Some (ret, s) } else Some (0, s)
         });
       if ret \<noteq> 0 then (if ent \<noteq> entp then do { s \<leftarrow> sfs_block_free ent s; Some ((ret, entp, 0), s) } else Some ((ret, entp, 0), s))
       else Some ((0, ent, i), s)
     }
   }"

text \<open>Beyond the last entry of the indirect block the routine reads a variable it has not set: \<open>None\<close>.\<close>

definition sfs_bmap_get_nolock :: "nat \<Rightarrow> nat \<Rightarrow> bool \<Rightarrow> (int \<times> nat) sfs_op" where
  "sfs_bmap_get_nolock n index create s = do {
     ((ret, i), s) \<leftarrow> (if index < SFS_NDIRECT then
         (let i = direct (din (sfs_inodes s n)) ! index in
          if i = 0 \<and> create then do {
            ((ret, i), s) \<leftarrow> sfs_block_alloc s;
            if ret \<noteq> 0 then Some ((ret, 0), s)
            else Some ((0, i), mark_dirty n (mod_din n (\<lambda>d. d\<lparr>direct := (direct d)[index := i]\<rparr>) s))
          } else Some ((0, i), s))
       else if index - SFS_NDIRECT < SFS_BLK_NENTRY then do {
         let entp = indirect (din (sfs_inodes s n));
         ((ret, ent, i), s) \<leftarrow> sfs_bmap_get_sub_nolock entp (index - SFS_NDIRECT) create s;
         if ret \<noteq> 0 then Some ((ret, 0), s)
         else if ent \<noteq> entp then do {
           kassert (entp = 0);
           Some ((0, i), mark_dirty n (mod_din n (\<lambda>d. d\<lparr>indirect := ent\<rparr>) s))
         } else Some ((0, i), s)
       } else None);
     if ret \<noteq> 0 then Some ((ret, 0), s)
     else do {
       u \<leftarrow> (if i = 0 then Some True else sfs_block_inuse s i);
       kassert u;
       Some ((0, i), s)
     }
   }"

definition sfs_bmap_free_sub_nolock :: "nat \<Rightarrow> nat \<Rightarrow> int sfs_op" where
  "sfs_bmap_free_sub_nolock ent index s = do {
     u \<leftarrow> sfs_block_inuse s ent;
     kassert (u \<and> index < SFS_BLK_NENTRY);
     ((ret, bs), s) \<leftarrow> sfs_rbuf 4 ent (index * 4) s;
     if ret \<noteq> 0 then Some (ret, s)
     else if unat (bytes_word bs) \<noteq> 0 then do {
       (ret, s) \<leftarrow> sfs_wbuf (word_bytes 0) ent (index * 4) s;
       if ret \<noteq> 0 then Some (ret, s)
       else do { s \<leftarrow> sfs_block_free (unat (bytes_word bs)) s; Some (0, s) }
     } else Some (0, s)
   }"

definition sfs_bmap_free_nolock :: "nat \<Rightarrow> nat \<Rightarrow> int sfs_op" where
  "sfs_bmap_free_nolock n index s =
     (if index < SFS_NDIRECT then
        (let i = direct (din (sfs_inodes s n)) ! index in
         if i \<noteq> 0 then do {
           s \<leftarrow> sfs_block_free i s;
           Some (0, mark_dirty n (mod_din n (\<lambda>d. d\<lparr>direct := (direct d)[index := 0]\<rparr>) s))
         } else Some (0, s))
      else if index - SFS_NDIRECT < SFS_BLK_NENTRY then
        (let ent = indirect (din (sfs_inodes s n)) in
         if ent \<noteq> 0 then sfs_bmap_free_sub_nolock ent (index - SFS_NDIRECT) s else Some (0, s))
      else Some (0, s))"

definition sfs_bmap_load_nolock :: "nat \<Rightarrow> nat \<Rightarrow> (int \<times> nat) sfs_op" where
  "sfs_bmap_load_nolock n index s = do {
     kassert (index \<le> dblocks (din (sfs_inodes s n)));
     let create = (index = dblocks (din (sfs_inodes s n)));
     ((ret, i), s) \<leftarrow> sfs_bmap_get_nolock n index create s;
     if ret \<noteq> 0 then Some ((ret, 0), s)
     else do {
       u \<leftarrow> sfs_block_inuse s i;
       kassert u;
       Some ((0, i), if create then mod_din n (\<lambda>d. d\<lparr>dblocks := dblocks d + 1\<rparr>) s else s)
     }
   }"

definition sfs_bmap_truncate_nolock :: "nat \<Rightarrow> int sfs_op" where
  "sfs_bmap_truncate_nolock n s = do {
     kassert (dblocks (din (sfs_inodes s n)) \<noteq> 0);
     (ret, s) \<leftarrow> sfs_bmap_free_nolock n (dblocks (din (sfs_inodes s n)) - 1) s;
     if ret \<noteq> 0 then Some (ret, s)
     else Some (0, mark_dirty n (mod_din n (\<lambda>d. d\<lparr>dblocks := dblocks d - 1\<rparr>) s))
   }"

section \<open>Reading and writing\<close>

text \<open>A part of one block, and a whole block, to or from the memory at \<open>addr\<close>.\<close>

definition io_part :: "nat \<Rightarrow> bool \<Rightarrow> nat \<Rightarrow> nat \<Rightarrow> nat \<Rightarrow> nat \<Rightarrow> int sfs_op" where
  "io_part n write blkno blkoff len addr s = do {
     ((ret, i), s) \<leftarrow> sfs_bmap_load_nolock n blkno s;
     if ret \<noteq> 0 then Some (ret, s)
     else if write then sfs_wbuf (bytes_from (fmem s) addr len) i blkoff s
     else do {
       ((ret, bs), s) \<leftarrow> sfs_rbuf len i blkoff s;
       Some (ret, if ret = 0 then s\<lparr>fmem := bytes_to (fmem s) addr bs\<rparr> else s)
     }
   }"

definition io_block :: "nat \<Rightarrow> bool \<Rightarrow> nat \<Rightarrow> nat \<Rightarrow> int sfs_op" where
  "io_block n write blkno addr s = do {
     ((ret, i), s) \<leftarrow> sfs_bmap_load_nolock n blkno s;
     if ret \<noteq> 0 then Some (ret, s)
     else do {
       ((ret, bs), s) \<leftarrow> (if write then sfs_wblock else sfs_rblock) (bytes_from (fmem s) addr SFS_BLKSIZE) i 1 s;
       Some (ret, if write then s else s\<lparr>fmem := bytes_to (fmem s) addr bs\<rparr>)
     }
   }"

text \<open>The error code and the number of bytes moved.\<close>

fun io_blocks :: "nat \<Rightarrow> bool \<Rightarrow> nat \<Rightarrow> nat \<Rightarrow> nat \<Rightarrow> (int \<times> nat) sfs_op" where
  "io_blocks n write blkno 0 addr s = Some ((0, 0), s)"
| "io_blocks n write blkno (Suc nblks) addr s = do {
     (ret, s) \<leftarrow> io_block n write blkno addr s;
     if ret \<noteq> 0 then Some ((ret, 0), s)
     else do {
       ((ret, k), s) \<leftarrow> io_blocks n write (blkno + 1) nblks (addr + SFS_BLKSIZE) s;
       Some ((ret, SFS_BLKSIZE + k), s)
     }
   }"

text \<open>The three steps of \<^verbatim>\<open>sfs_io_nolock\<close>: up to the end of the first block, whole blocks, the rest.\<close>

definition io_steps :: "nat \<Rightarrow> bool \<Rightarrow> nat \<Rightarrow> nat \<Rightarrow> nat \<Rightarrow> (int \<times> nat) sfs_op" where
  "io_steps n write addr offset endpos s =
     (let blkno = offset div SFS_BLKSIZE;
          nblks = endpos div SFS_BLKSIZE - blkno;
          blkoff = offset mod SFS_BLKSIZE
      in do {
        ((ret, fin, alen, blkno, nblks), s) \<leftarrow> (if blkoff \<noteq> 0 then do {
            let len = (if nblks \<noteq> 0 then SFS_BLKSIZE - blkoff else endpos - offset);
            (ret, s) \<leftarrow> io_part n write blkno blkoff len addr s;
            if ret \<noteq> 0 then Some ((ret, True, 0, blkno, nblks), s)
            else Some ((0, nblks = 0, len, blkno + 1, nblks - 1), s)
          } else Some ((0, False, 0, blkno, nblks), s));
        if fin then Some ((ret, alen), s)
        else do {
          ((ret, k), s) \<leftarrow> io_blocks n write blkno nblks (addr + alen) s;
          if ret \<noteq> 0 \<or> endpos mod SFS_BLKSIZE = 0 then Some ((ret, alen + k), s)
          else do {
            (ret, s) \<leftarrow> io_part n write (blkno + nblks) 0 (endpos mod SFS_BLKSIZE) (addr + alen + k) s;
            Some ((ret, if ret \<noteq> 0 then alen + k else alen + k + endpos mod SFS_BLKSIZE), s)
          }
        }
      })"

definition sfs_io_nolock :: "nat \<Rightarrow> nat \<Rightarrow> u32 \<Rightarrow> u32 \<Rightarrow> bool \<Rightarrow> (int \<times> nat) sfs_op" where
  "sfs_io_nolock n addr offset alen write s = do {
     let d = din (sfs_inodes s n);
     kassert (dtype d \<noteq> SFS_TYPE_DIR);
     let endpos = offset + alen;
     if sint offset < 0 \<or> offset \<ge> SFS_MAX_FILE_SIZE \<or> sint offset > sint endpos then Some ((fail_code E_INVAL, 0), s)
     else if offset = endpos then Some ((0, 0), s)
     else (let endpos = (if endpos > SFS_MAX_FILE_SIZE then SFS_MAX_FILE_SIZE else endpos) in
       if \<not> write \<and> offset \<ge> dsize d then Some ((0, 0), s)
       else (let endpos = (if \<not> write \<and> endpos > dsize d then dsize d else endpos) in do {
         ((ret, k), s) \<leftarrow> io_steps n write addr (unat offset) (unat endpos) s;
         let s = (if offset + of_nat k > dsize (din (sfs_inodes s n))
           then mark_dirty n (mod_din n (\<lambda>d. d\<lparr>dsize := offset + of_nat k\<rparr>) s) else s);
         Some ((ret, k), s)
       }))
   }"

end
