(* ===== verification/Sfs_Map.thy ===== *)
theory Sfs_Map
  imports Sfs
begin

text \<open>
  The blocks of SFS files (\<^verbatim>\<open>kern/fs/sfs/sfs_inode.c\<close>): the free map and the block numbers in the
  inodes and in the blocks of entries agree, whatever is allocated belongs to the file that asked
  for it, and other blocks are left alone.
\<close>

section \<open>Blocks of the device\<close>

definition blk :: "sfs_fs \<Rightarrow> nat \<Rightarrow> u8 list" where
  "blk s = block (sdev s)"

definition dev_ok :: "sfs_fs \<Rightarrow> bool" where
  "dev_ok s \<longleftrightarrow> disk_ok (sdev s) \<and> blocks_of (super s) \<le> d_blocks (sdev s)"

text \<open>Only the device differs.\<close>

definition disk_only :: "sfs_fs \<Rightarrow> sfs_fs \<Rightarrow> bool" where
  "disk_only s s' \<longleftrightarrow> s' = s\<lparr>sdev := sdev s'\<rparr> \<and> same_disk (sdev s) (sdev s')"

lemma disk_onlyD:
  assumes "disk_only s s'"
  shows "super s' = super s" "freemap s' = freemap s" "super_dirty s' = super_dirty s" "sfs_inodes s' = sfs_inodes s"
    "inode_list s' = inode_list s" "hash_list s' = hash_list s" "fmem s' = fmem s" "fheap s' = fheap s"
    "node_ans s' = node_ans s" "d_blocks (sdev s') = d_blocks (sdev s)" "dev_ok s \<Longrightarrow> dev_ok s'"
proof -
  from assms have e: "s' = s\<lparr>sdev := sdev s'\<rparr>" and d: "same_disk (sdev s) (sdev s')" by (simp_all add: disk_only_def)
  show "super s' = super s" "freemap s' = freemap s" "super_dirty s' = super_dirty s" "sfs_inodes s' = sfs_inodes s"
    "inode_list s' = inode_list s" "hash_list s' = hash_list s" "fmem s' = fmem s" "fheap s' = fheap s"
    "node_ans s' = node_ans s" by (subst e; simp)+
  then show "d_blocks (sdev s') = d_blocks (sdev s)" "dev_ok s \<Longrightarrow> dev_ok s'"
    using d by (simp_all add: same_disk_def dev_ok_def)
qed

lemma disk_only_trans: "disk_only a b \<Longrightarrow> disk_only b c \<Longrightarrow> disk_only a c"
proof -
  assume h: "disk_only a b" "disk_only b c"
  then have "b = a\<lparr>sdev := sdev b\<rparr>" "c = b\<lparr>sdev := sdev c\<rparr>" by (simp_all add: disk_only_def)
  then have "c = a\<lparr>sdev := sdev c\<rparr>" by (metis sfs_fs.update_convs(2) sfs_fs.surjective)
  moreover have "same_disk (sdev a) (sdev c)" using h by (simp add: disk_only_def same_disk_def)
  ultimately show ?thesis by (simp add: disk_only_def)
qed

lemma read_block:
  assumes "dev_ok s" "b \<noteq> 0 \<or> \<not> c" "b < blocks_of (super s)" "length buf = 4096"
  shows "\<exists>s'. sfs_rwblock_nolock buf b False c s = Some ((0, blk s b), s') \<and> disk_only s s' \<and> blk s' = blk s"
proof -
  have "disk_ok (sdev s)" "b < d_blocks (sdev s)" using assms(1,3) by (auto simp: dev_ok_def)
  from disk0_read_block [OF this assms(4)] obtain d where d: "disk0_io (of_nat b * 4096) buf False (sdev s) = Some (0, block (sdev s) b, d)"
    "same_disk (sdev s) d" "block d = block (sdev s)" by blast
  then show ?thesis using assms(2,3)
    by (intro exI [of _ "s\<lparr>sdev := d\<rparr>"]) (simp add: sfs_rwblock_nolock_def disk_only_def blk_def)
qed

lemma write_block:
  assumes "dev_ok s" "b \<noteq> 0 \<or> \<not> c" "b < blocks_of (super s)" "length buf = 4096"
  shows "\<exists>s'. sfs_rwblock_nolock buf b True c s = Some ((0, buf), s') \<and> disk_only s s' \<and> blk s' = (blk s)(b := buf)"
proof -
  have "disk_ok (sdev s)" "b < d_blocks (sdev s)" using assms(1,3) by (auto simp: dev_ok_def)
  from disk0_write_block [OF this assms(4)] obtain d where d: "disk0_io (of_nat b * 4096) buf True (sdev s) = Some (0, buf, d)"
    "same_disk (sdev s) d" "block d = (block (sdev s))(b := buf)" by blast
  then show ?thesis using assms(2,3)
    by (intro exI [of _ "s\<lparr>sdev := d\<rparr>"]) (simp add: sfs_rwblock_nolock_def disk_only_def blk_def)
qed

lemma length_blk [simp]: "length (blk s b) = 4096"
  by (simp add: blk_def)

lemma zeros_length [simp]: "length zeros = 4096"
  by (simp add: zeros_def SFS_BLKSIZE_def)

lemma rbuf_ok:
  assumes "dev_ok s" "b \<noteq> 0" "b < blocks_of (super s)" "off < 4096" "off + len \<le> 4096"
  shows "\<exists>s'. sfs_rbuf len b off s = Some ((0, take len (drop off (blk s b))), s') \<and> disk_only s s' \<and> blk s' = blk s"
  using read_block [OF assms(1) _ assms(3) zeros_length, of True] assms(2,4,5) by (auto simp: sfs_rbuf_def SFS_BLKSIZE_def)

lemma wbuf_ok:
  assumes "dev_ok s" "b \<noteq> 0" "b < blocks_of (super s)" "off < 4096" "off + length bs \<le> 4096"
  shows "\<exists>s'. sfs_wbuf bs b off s = Some (0, s') \<and> disk_only s s' \<and> blk s' = (blk s)(b := overlay off bs (blk s b))"
proof -
  obtain s1 where s1: "sfs_rwblock_nolock zeros b False True s = Some ((0, blk s b), s1)" "disk_only s s1" "blk s1 = blk s"
    using read_block [OF assms(1) _ assms(3) zeros_length, of True] assms(2) by blast
  have l: "length (overlay off bs (blk s b)) = 4096" using assms(5) by (simp add: length_overlay)
  have "dev_ok s1" "b < blocks_of (super s1)" using disk_onlyD [OF s1(2)] assms(1,3) by simp_all
  from write_block [OF this(1) _ this(2) l, of True] assms(2) obtain s2 where
    s2: "sfs_rwblock_nolock (overlay off bs (blk s b)) b True True s1 = Some ((0, overlay off bs (blk s b)), s2)"
    "disk_only s1 s2" "blk s2 = (blk s1)(b := overlay off bs (blk s b))" by blast
  then show ?thesis
    using s1 assms(4,5) disk_only_trans [OF s1(2) s2(2)] by (simp add: sfs_wbuf_def SFS_BLKSIZE_def)
qed

lemma clear_block_ok:
  assumes "dev_ok s" "b \<noteq> 0" "b < blocks_of (super s)"
  shows "\<exists>s'. sfs_clear_block b 1 s = Some (0, s') \<and> disk_only s s' \<and> blk s' = (blk s)(b := zeros)"
  using write_block [OF assms(1) _ assms(3) zeros_length, of True] assms(2) by auto

section \<open>The free map\<close>

definition free_blocks :: "sfs_fs \<Rightarrow> nat set" where
  "free_blocks s = free_nos (freemap s)"

definition space_inv :: "sfs_fs \<Rightarrow> bool" where
  "space_inv s \<longleftrightarrow> dev_ok s \<and> bitmap_ok (freemap s) \<and> blocks_of (super s) \<le> unat (nbits (freemap s)) \<and>
     free_blocks s \<subseteq> {1..<blocks_of (super s)} \<and> unused_blocks (super s) = card (free_blocks s)"

definition used_blocks :: "sfs_fs \<Rightarrow> nat set" where
  "used_blocks s = {1..<blocks_of (super s)} - free_blocks s"

lemma space_invD:
  assumes "space_inv s"
  shows "dev_ok s" "bitmap_ok (freemap s)" "blocks_of (super s) \<le> unat (nbits (freemap s))"
    "free_blocks s \<subseteq> {1..<blocks_of (super s)}" "unused_blocks (super s) = card (free_blocks s)" "finite (free_blocks s)"
    "blocks_of (super s) < 2 ^ 19"
  using assms finite_subset [of "free_blocks s" "{1..<blocks_of (super s)}"] by (auto simp: space_inv_def dev_ok_def disk_ok_def)

lemma inuse_iff: "space_inv s \<Longrightarrow> i \<noteq> 0 \<Longrightarrow> i < blocks_of (super s) \<Longrightarrow> sfs_block_inuse s i = Some (i \<in> used_blocks s)"
  using space_invD(3) [of s] by (auto simp: sfs_block_inuse_def bitmap_test_ok used_blocks_def free_blocks_def)

lemma inuse_used: "space_inv s \<Longrightarrow> i \<in> used_blocks s \<Longrightarrow> sfs_block_inuse s i = Some True"
  using inuse_iff [of s i] by (auto simp: used_blocks_def)

text \<open>Only the device, the free map and the superblock differ.\<close>

definition same_files :: "sfs_fs \<Rightarrow> sfs_fs \<Rightarrow> bool" where
  "same_files s s' \<longleftrightarrow> sfs_inodes s' = sfs_inodes s \<and> inode_list s' = inode_list s \<and> hash_list s' = hash_list s \<and>
     fmem s' = fmem s \<and> fheap s' = fheap s \<and> node_ans s' = node_ans s \<and> blocks_of (super s') = blocks_of (super s)"

lemma same_files_trans: "same_files a b \<Longrightarrow> same_files b c \<Longrightarrow> same_files a c"
  by (simp add: same_files_def)

lemma disk_only_same: "disk_only s s' \<Longrightarrow> same_files s s' \<and> free_blocks s' = free_blocks s \<and> used_blocks s' = used_blocks s"
  using disk_onlyD [of s s'] by (simp add: same_files_def free_blocks_def used_blocks_def)

lemma disk_only_space: "space_inv s \<Longrightarrow> disk_only s s' \<Longrightarrow> space_inv s'"
  using disk_onlyD [of s s'] by (simp add: space_inv_def free_blocks_def)

lemma block_alloc_ok:
  assumes "space_inv s"
  shows "if free_blocks s = {} then sfs_block_alloc s = Some ((fail_code E_NO_MEM, 0), s)
    else \<exists>s' i. sfs_block_alloc s = Some ((0, i), s') \<and> i \<in> free_blocks s \<and> space_inv s' \<and> same_files s s' \<and>
      free_blocks s' = free_blocks s - {i} \<and> used_blocks s' = insert i (used_blocks s) \<and> blk s' = (blk s)(i := zeros)"
proof (cases "free_blocks s = {}")
  case True
  then have "bitmap_alloc (freemap s) = Some (fail_code E_NO_MEM, None, freemap s)"
    using bitmap_alloc_ok [OF space_invD(2) [OF assms]] by (simp add: free_blocks_def)
  then show ?thesis using True by (simp add: sfs_block_alloc_def)
next
  case False
  note sp = space_invD [OF assms]
  define i where "i = Min (free_blocks s)"
  obtain b where b: "bitmap_alloc (freemap s) = Some (0, Some i, b)" "bitmap_ok b" "free_nos b = free_blocks s - {i}"
    "nbits b = nbits (freemap s)"
    using bitmap_alloc_ok [OF sp(2)] False by (auto simp: free_blocks_def i_def)
  have i: "i \<in> free_blocks s" using False sp(6) by (simp add: i_def)
  have pos: "0 < unused_blocks (super s)" using sp(5,6) False by (simp add: card_gt_0_iff)
  have rng: "i \<noteq> 0" "i < blocks_of (super s)" using i sp(4) by auto
  let ?s1 = "(mod_super (\<lambda>p. p\<lparr>unused_blocks := unused_blocks p - 1\<rparr>) (s\<lparr>freemap := b\<rparr>))\<lparr>super_dirty := True\<rparr>"
  have f1: "free_blocks ?s1 = free_blocks s - {i}" using b(3) by (simp add: free_blocks_def mod_super_def)
  have sp1: "space_inv ?s1"
    using sp b i f1 unfolding space_inv_def f1 by (auto simp: mod_super_def dev_ok_def)
  have u1: "used_blocks ?s1 = insert i (used_blocks s)"
    unfolding used_blocks_def f1 using i sp(4) by (auto simp: mod_super_def)
  have b1: "blk ?s1 = blk s" "blocks_of (super ?s1) = blocks_of (super s)" by (simp_all add: blk_def mod_super_def)
  have inu: "sfs_block_inuse ?s1 i = Some True" using inuse_used [OF sp1] u1 by simp
  obtain s' where s': "sfs_clear_block i 1 ?s1 = Some (0, s')" "disk_only ?s1 s'" "blk s' = (blk ?s1)(i := zeros)"
    using clear_block_ok [OF space_invD(1) [OF sp1] rng(1)] rng(2) b1(2) by auto
  have "sfs_block_alloc s = Some ((0, i), s')"
    using b(1) pos inu s'(1) by (simp add: sfs_block_alloc_def mod_super_def del: sfs_clear_block.simps)
  moreover have "same_files s ?s1" by (simp add: same_files_def mod_super_def)
  ultimately show ?thesis
    using False i disk_only_space [OF sp1 s'(2)] disk_only_same [OF s'(2)] f1 u1 s'(3) b1(1) same_files_trans by auto
qed

lemma block_free_ok:
  assumes "space_inv s" "i \<in> used_blocks s"
  shows "\<exists>s'. sfs_block_free i s = Some s' \<and> space_inv s' \<and> same_files s s' \<and> free_blocks s' = insert i (free_blocks s) \<and>
    used_blocks s' = used_blocks s - {i} \<and> blk s' = blk s"
proof -
  note sp = space_invD [OF assms(1)]
  have rng: "i \<noteq> 0" "i < blocks_of (super s)" "i \<notin> free_blocks s" using assms(2) by (auto simp: used_blocks_def)
  obtain b where b: "bitmap_free (freemap s) i = Some b" "bitmap_ok b" "free_nos b = insert i (free_blocks s)"
    "nbits b = nbits (freemap s)"
    using bitmap_free_ok [OF sp(2), of i] rng sp(3) by (auto simp: free_blocks_def)
  let ?s' = "(mod_super (\<lambda>p. p\<lparr>unused_blocks := unused_blocks p + 1\<rparr>) (s\<lparr>freemap := b\<rparr>))\<lparr>super_dirty := True\<rparr>"
  have f: "free_blocks ?s' = insert i (free_blocks s)" using b(3) by (simp add: free_blocks_def mod_super_def)
  have "space_inv ?s'" using sp b rng unfolding space_inv_def f by (auto simp: mod_super_def dev_ok_def)
  moreover have "used_blocks ?s' = used_blocks s - {i}" unfolding used_blocks_def f by (auto simp: mod_super_def)
  moreover have "sfs_block_free i s = Some ?s'" using inuse_used [OF assms] b(1) by (simp add: sfs_block_free_def)
  ultimately show ?thesis using f by (auto simp: same_files_def mod_super_def blk_def)
qed

end
