(* ===== verification/Sfs_File.thy ===== *)
theory Sfs_File
  imports Sfs_Map
begin

text \<open>
  The files of SFS (\<^verbatim>\<open>kern/fs/sfs/sfs_inode.c\<close>) as arrays of blocks: which blocks an inode owns,
  what \<^verbatim>\<open>sfs_bmap_load_nolock\<close> and \<^verbatim>\<open>sfs_bmap_truncate_nolock\<close> do to them.
\<close>

section \<open>The blocks a file owns\<close>

definition word_at :: "u8 list \<Rightarrow> nat \<Rightarrow> nat" where
  "word_at bs i = unat (bytes_word (take 4 (drop (i * 4) bs)))"

definition entry :: "sfs_fs \<Rightarrow> sfs_disk_inode \<Rightarrow> nat \<Rightarrow> nat" where
  "entry s d i = (if i < 12 then direct d ! i else if indirect d = 0 then 0 else word_at (blk s (indirect d)) (i - 12))"

definition file_ok :: "sfs_fs \<Rightarrow> sfs_disk_inode \<Rightarrow> bool" where
  "file_ok s d \<longleftrightarrow> length (direct d) = 12 \<and> dblocks d \<le> 1036 \<and> (indirect d = 0 \<longrightarrow> dblocks d \<le> 12) \<and>
     (indirect d \<noteq> 0 \<longrightarrow> indirect d \<in> used_blocks s) \<and>
     (\<forall>i<dblocks d. entry s d i \<in> used_blocks s \<and> entry s d i \<noteq> indirect d) \<and>
     (\<forall>i. dblocks d \<le> i \<longrightarrow> i < 1036 \<longrightarrow> entry s d i = 0) \<and> inj_on (entry s d) {..<dblocks d}"

definition own :: "sfs_fs \<Rightarrow> sfs_disk_inode \<Rightarrow> nat set" where
  "own s d = entry s d ` {..<dblocks d} \<union> (if indirect d = 0 then {} else {indirect d})"

abbreviation din_of :: "sfs_fs \<Rightarrow> nat \<Rightarrow> sfs_disk_inode" where
  "din_of s n \<equiv> din (sfs_inodes s n)"

lemma file_okD:
  assumes "file_ok s d"
  shows "length (direct d) = 12" "dblocks d \<le> 1036" "indirect d = 0 \<Longrightarrow> dblocks d \<le> 12"
    "indirect d \<noteq> 0 \<Longrightarrow> indirect d \<in> used_blocks s" "i < dblocks d \<Longrightarrow> entry s d i \<in> used_blocks s"
    "i < dblocks d \<Longrightarrow> entry s d i \<noteq> indirect d" "dblocks d \<le> i \<Longrightarrow> i < 1036 \<Longrightarrow> entry s d i = 0"
    "inj_on (entry s d) {..<dblocks d}"
  using assms unfolding file_ok_def by blast+

lemma used_pos: "i \<in> used_blocks s \<Longrightarrow> i \<noteq> 0 \<and> i < blocks_of (super s) \<and> i \<notin> free_blocks s"
  by (auto simp: used_blocks_def)

lemma own_used: "file_ok s d \<Longrightarrow> own s d \<subseteq> used_blocks s"
  using file_okD(4,5) [of s d] by (auto simp: own_def)

lemma own_not_free: "file_ok s d \<Longrightarrow> own s d \<inter> free_blocks s = {}"
  using own_used used_pos by blast

text \<open>Entries in a block.\<close>

lemma overlay_nth:
  assumes "k + length bs \<le> length buf" "x < length buf"
  shows "overlay k bs buf ! x = (if k \<le> x \<and> x < k + length bs then bs ! (x - k) else buf ! x)"
proof (cases "x < k")
  case True
  then show ?thesis using assms by (simp add: overlay_def nth_append)
next
  case False
  then obtain y where y: "x = k + y" using le_Suc_ex not_less by blast
  then have "overlay k bs buf ! x = (bs @ drop (k + length bs) buf) ! y"
    using assms by (simp add: overlay_def nth_append)
  then show ?thesis using assms y by (simp add: nth_append)
qed

lemma overlay_out:
  "k + length bs \<le> length buf \<Longrightarrow> x < length buf \<Longrightarrow> \<not> (k \<le> x \<and> x < k + length bs) \<Longrightarrow> overlay k bs buf ! x = buf ! x"
  by (subst overlay_nth) auto

lemma word_at_zeros: "i < 1024 \<Longrightarrow> word_at zeros i = 0"
proof -
  assume i: "i < 1024"
  have "[0..<4] = [0, 1, 2, 3]" by (simp add: upt_conv_Cons)
  then have "word_bytes 0 = replicate 4 0" by (simp add: word_bytes_def numeral_eq_Suc)
  moreover have "take 4 (drop (i * 4) zeros) = replicate 4 0"
    using i by (simp add: zeros_def SFS_BLKSIZE_def min_def)
  ultimately show ?thesis using bytes_word_bytes [of 0 "[]"] by (simp add: word_at_def)
qed

lemma word_at_put:
  assumes "length bs = 4096" "i < 1024" "j < 1024"
  shows "word_at (overlay (i * 4) (word_bytes w) bs) j = (if j = i then unat w else word_at bs j)"
proof (cases "j = i")
  case True
  have "take 4 (drop (i * 4) (overlay (i * 4) (word_bytes w) bs)) = word_bytes w"
    using assms(1,2) by (simp add: overlay_def)
  then show ?thesis using True bytes_word_bytes [of w "[]"] by (simp add: word_at_def)
next
  case False
  have "take 4 (drop (j * 4) (overlay (i * 4) (word_bytes w) bs)) = take 4 (drop (j * 4) bs)"
  proof (rule nth_equalityI)
    show "length (take 4 (drop (j * 4) (overlay (i * 4) (word_bytes w) bs))) = length (take 4 (drop (j * 4) bs))"
      using assms by (simp add: length_overlay)
    fix k assume "k < length (take 4 (drop (j * 4) (overlay (i * 4) (word_bytes w) bs)))"
    then have k: "k < 4" by simp
    have "\<not> (i * 4 \<le> j * 4 + k \<and> j * 4 + k < i * 4 + 4)" "j * 4 + k < 4096" "i * 4 + 4 \<le> 4096"
      using False k assms by linarith+
    then show "take 4 (drop (j * 4) (overlay (i * 4) (word_bytes w) bs)) ! k = take 4 (drop (j * 4) bs) ! k"
      using assms(1,3) k overlay_out [of "i * 4" "word_bytes w" bs "j * 4 + k"] by (simp add: length_overlay)
  qed
  then show ?thesis using False by (simp add: word_at_def)
qed

text \<open>A file sees only its own blocks.\<close>

lemma file_ok_cong:
  assumes "file_ok s d" "indirect d \<noteq> 0 \<Longrightarrow> blk s' (indirect d) = blk s (indirect d)" "own s d \<subseteq> used_blocks s'"
  shows "file_ok s' d" "entry s' d = entry s d" "own s' d = own s d"
proof -
  show e: "entry s' d = entry s d" using assms(2) by (auto simp: entry_def)
  then show "own s' d = own s d" by (simp add: own_def)
  show "file_ok s' d" using assms(1,3) unfolding file_ok_def e own_def by (auto split: if_splits)
qed

section \<open>A file that grows\<close>

text \<open>
  From one state to a later one the inode \<open>n\<close> gained blocks, all of them free before and none lost;
  every block that was in use for something else is as it was.
\<close>

definition grows :: "nat \<Rightarrow> sfs_fs \<Rightarrow> sfs_fs \<Rightarrow> bool" where
  "grows n s s' \<longleftrightarrow> space_inv s' \<and> file_ok s' (din_of s' n) \<and> blocks_of (super s') = blocks_of (super s) \<and>
     inode_list s' = inode_list s \<and> hash_list s' = hash_list s \<and> fheap s' = fheap s \<and> node_ans s' = node_ans s \<and>
     (\<forall>m. m \<noteq> n \<longrightarrow> sfs_inodes s' m = sfs_inodes s m) \<and>
     (\<exists>db di bl dt. sfs_inodes s' n = (sfs_inodes s n)\<lparr>din := (din_of s n)\<lparr>direct := db, indirect := di, dblocks := bl\<rparr>, dirty := dt\<rparr> \<and>
        dblocks (din_of s n) \<le> bl \<and> (dirty (sfs_inodes s n) \<longrightarrow> dt)) \<and>
     free_blocks s' \<subseteq> free_blocks s \<and> own s' (din_of s' n) = own s (din_of s n) \<union> (free_blocks s - free_blocks s') \<and>
     (\<forall>i<dblocks (din_of s n). entry s' (din_of s' n) i = entry s (din_of s n) i) \<and>
     (\<forall>b. b \<notin> free_blocks s \<longrightarrow> b \<notin> own s (din_of s n) \<longrightarrow> blk s' b = blk s b)"

lemma growsD:
  assumes "grows n s s'"
  shows "space_inv s'" "file_ok s' (din_of s' n)" "blocks_of (super s') = blocks_of (super s)"
    "m \<noteq> n \<Longrightarrow> sfs_inodes s' m = sfs_inodes s m" "dsize (din_of s' n) = dsize (din_of s n)"
    "dtype (din_of s' n) = dtype (din_of s n)" "nlinks (din_of s' n) = nlinks (din_of s n)"
    "dblocks (din_of s n) \<le> dblocks (din_of s' n)" "free_blocks s' \<subseteq> free_blocks s"
    "own s' (din_of s' n) = own s (din_of s n) \<union> (free_blocks s - free_blocks s')"
    "i < dblocks (din_of s n) \<Longrightarrow> entry s' (din_of s' n) i = entry s (din_of s n) i"
    "b \<notin> free_blocks s \<Longrightarrow> b \<notin> own s (din_of s n) \<Longrightarrow> blk s' b = blk s b"
  using assms unfolding grows_def by auto

lemma grows_trans:
  assumes "grows n a b" "grows n b c"
  shows "grows n a c"
proof -
  have "\<exists>db di bl dt. sfs_inodes c n = (sfs_inodes a n)\<lparr>din := (din_of a n)\<lparr>direct := db, indirect := di, dblocks := bl\<rparr>, dirty := dt\<rparr> \<and>
        dblocks (din_of a n) \<le> bl \<and> (dirty (sfs_inodes a n) \<longrightarrow> dt)"
  proof -
    from assms(1) obtain db di bl dt where 1: "sfs_inodes b n = (sfs_inodes a n)\<lparr>din := (din_of a n)\<lparr>direct := db, indirect := di, dblocks := bl\<rparr>, dirty := dt\<rparr>"
      "dblocks (din_of a n) \<le> bl" "dirty (sfs_inodes a n) \<longrightarrow> dt" unfolding grows_def by blast
    from assms(2) obtain db' di' bl' dt' where 2: "sfs_inodes c n = (sfs_inodes b n)\<lparr>din := (din_of b n)\<lparr>direct := db', indirect := di', dblocks := bl'\<rparr>, dirty := dt'\<rparr>"
      "dblocks (din_of b n) \<le> bl'" "dirty (sfs_inodes b n) \<longrightarrow> dt'" unfolding grows_def by blast
    show ?thesis using 1 2 by (intro exI [of _ db'] exI [of _ di'] exI [of _ bl'] exI [of _ dt']) simp
  qed
  moreover have "entry c (din_of c n) i = entry a (din_of a n) i" if "i < dblocks (din_of a n)" for i
    using growsD(11) [OF assms(2)] growsD(11) [OF assms(1) that] growsD(8) [OF assms(1)] that by simp
  moreover have "own c (din_of c n) = own a (din_of a n) \<union> (free_blocks a - free_blocks c)"
    using growsD(9,10) [OF assms(1)] growsD(9,10) [OF assms(2)] by blast
  moreover have "blk c x = blk a x" if "x \<notin> free_blocks a" "x \<notin> own a (din_of a n)" for x
    using growsD(12) [OF assms(1) that] growsD(12) [OF assms(2), of x] growsD(9,10) [OF assms(1)] that by auto
  ultimately show ?thesis using assms unfolding grows_def by auto
qed

lemma grows_same:
  assumes "space_inv s" "file_ok s (din_of s n)" "space_inv s'" "same_files s s'" "free_blocks s' = free_blocks s"
    "\<And>b. b \<notin> free_blocks s \<Longrightarrow> blk s' b = blk s b"
  shows "grows n s s'"
proof -
  have i: "sfs_inodes s' = sfs_inodes s" "blocks_of (super s') = blocks_of (super s)" using assms(4) by (simp_all add: same_files_def)
  have u: "used_blocks s' = used_blocks s" using assms(5) i(2) by (simp add: used_blocks_def)
  have ind: "blk s' (indirect (din_of s n)) = blk s (indirect (din_of s n))" if "indirect (din_of s n) \<noteq> 0"
    using assms(6) used_pos [OF file_okD(4) [OF assms(2) that]] by simp
  note c = file_ok_cong [OF assms(2) ind]
  have o: "own s (din_of s n) \<subseteq> used_blocks s'" using own_used [OF assms(2)] u by simp
  have "\<exists>db di bl dt. sfs_inodes s' n = (sfs_inodes s n)\<lparr>din := (din_of s n)\<lparr>direct := db, indirect := di, dblocks := bl\<rparr>, dirty := dt\<rparr> \<and>
        dblocks (din_of s n) \<le> bl \<and> (dirty (sfs_inodes s n) \<longrightarrow> dt)"
    by (rule exI [of _ "direct (din_of s n)"], rule exI [of _ "indirect (din_of s n)"], rule exI [of _ "dblocks (din_of s n)"],
        rule exI [of _ "dirty (sfs_inodes s n)"]) (simp add: i)
  then show ?thesis
    using c [OF _ o] assms(3-6) i unfolding grows_def same_files_def by auto
qed

lemma grows_refl: "space_inv s \<Longrightarrow> file_ok s (din_of s n) \<Longrightarrow> grows n s s"
  by (rule grows_same) (simp_all add: same_files_def)

lemma grows_disk: "space_inv s \<Longrightarrow> file_ok s (din_of s n) \<Longrightarrow> disk_only s s' \<Longrightarrow> blk s' = blk s \<Longrightarrow> grows n s s'"
  using disk_only_same [of s s'] disk_only_space [of s s'] by (intro grows_same) auto


section \<open>Finding a block\<close>

lemma sfs_consts: "SFS_NDIRECT = 12" "SFS_BLK_NENTRY = 1024" "SFS_BLKSIZE = 4096"
  by (simp_all add: SFS_NDIRECT_def SFS_BLK_NENTRY_def SFS_BLKSIZE_def)

lemma read_entry:
  assumes "space_inv s" "b \<in> used_blocks s" "i < 1024"
  shows "\<exists>bs s'. sfs_rbuf 4 b (i * 4) s = Some ((0, bs), s') \<and> unat (bytes_word bs) = word_at (blk s b) i \<and>
    disk_only s s' \<and> blk s' = blk s"
  using rbuf_ok [OF space_invD(1) [OF assms(1)], of b "i * 4" 4] used_pos [OF assms(2)] assms(3) by (auto simp: word_at_def)

lemma bmap_load_old:
  assumes inv: "space_inv s" and f: "file_ok s (din_of s n)" and i: "i < dblocks (din_of s n)"
  shows "\<exists>s'. sfs_bmap_load_nolock n i s = Some ((0, entry s (din_of s n) i), s') \<and> disk_only s s' \<and> blk s' = blk s"
proof -
  let ?d = "din_of s n"
  have u: "entry s ?d i \<in> used_blocks s" using file_okD(5) [OF f i] .
  then have nz: "entry s ?d i \<noteq> 0" using used_pos by blast
  have "\<exists>s'. sfs_bmap_get_nolock n i False s = Some ((0, entry s ?d i), s') \<and> disk_only s s' \<and> blk s' = blk s"
  proof (cases "i < 12")
    case True
    then have e: "entry s ?d i = direct ?d ! i" by (simp add: entry_def)
    have "disk_only s s" using space_invD(1) [OF inv] by (simp add: disk_only_def same_disk_def dev_ok_def)
    then show ?thesis using True e nz inuse_used [OF inv u] by (simp add: sfs_bmap_get_nolock_def sfs_consts)
  next
    case False
    have ind: "indirect ?d \<noteq> 0" using file_okD(3) [OF f] i False by auto
    have i12: "i - 12 < 1024" using i file_okD(2) [OF f] False by simp
    have e: "entry s ?d i = word_at (blk s (indirect ?d)) (i - 12)" using False ind by (simp add: entry_def)
    obtain bs s' where r: "sfs_rbuf 4 (indirect ?d) ((i - 12) * 4) s = Some ((0, bs), s')" "unat (bytes_word bs) = entry s ?d i"
      "disk_only s s'" "blk s' = blk s"
      using read_entry [OF inv file_okD(4) [OF f ind] i12] e by auto
    have "entry s ?d i \<in> used_blocks s'" using u disk_only_same [OF r(3)] by simp
    then have "sfs_block_inuse s' (entry s ?d i) = Some True" using inuse_used disk_only_space [OF inv r(3)] by blast
    then show ?thesis
      using False ind i12 r nz by (simp add: sfs_bmap_get_nolock_def sfs_bmap_get_sub_nolock_def sfs_consts)
  qed
  then obtain s' where s': "sfs_bmap_get_nolock n i False s = Some ((0, entry s ?d i), s')" "disk_only s s'" "blk s' = blk s" by blast
  have "entry s ?d i \<in> used_blocks s'" using u disk_only_same [OF s'(2)] by simp
  then have "sfs_block_inuse s' (entry s ?d i) = Some True" using inuse_used disk_only_space [OF inv s'(2)] by blast
  then show ?thesis using s' i by (simp add: sfs_bmap_load_nolock_def)
qed

text \<open>A block more at the end.\<close>

definition appended :: "nat \<Rightarrow> sfs_fs \<Rightarrow> nat \<Rightarrow> sfs_fs \<Rightarrow> bool" where
  "appended n s i s' \<longleftrightarrow> grows n s s' \<and> dblocks (din_of s' n) = dblocks (din_of s n) + 1 \<and> fmem s' = fmem s \<and>
     entry s' (din_of s' n) (dblocks (din_of s n)) = i \<and> blk s' i = zeros \<and>
     (\<forall>b. b \<notin> free_blocks s \<longrightarrow> b \<notin> {indirect (din_of s n)} - {0} \<longrightarrow> blk s' b = blk s b)"

text \<open>The state once block \<open>i\<close> has been taken and entered.\<close>

lemma appendI:
  assumes inv: "space_inv s" and f: "file_ok s (din_of s n)" and room: "dblocks (din_of s n) < 1036"
    and inv': "space_inv s'" and rest: "inode_list s' = inode_list s" "hash_list s' = hash_list s" "fmem s' = fmem s"
      "fheap s' = fheap s" "node_ans s' = node_ans s" "blocks_of (super s') = blocks_of (super s)"
    and sin: "sfs_inodes s' = (sfs_inodes s)(n := (sfs_inodes s n)\<lparr>din := d', dirty := dt\<rparr>)" "dirty (sfs_inodes s n) \<longrightarrow> dt"
    and d': "d' = (din_of s n)\<lparr>direct := db, indirect := di, dblocks := dblocks (din_of s n) + 1\<rparr>" "length db = 12"
    and e: "\<And>k. k < 1036 \<Longrightarrow> entry s' d' k = (if k = dblocks (din_of s n) then i else entry s (din_of s n) k)"
    and i: "i \<in> free_blocks s" "i \<noteq> di" "i \<notin> free_blocks s'" "blk s' i = zeros"
    and di: "di = indirect (din_of s n) \<or> indirect (din_of s n) = 0 \<and> di \<in> free_blocks s" "di = 0 \<Longrightarrow> dblocks (din_of s n) < 12"
    and fr: "free_blocks s' = free_blocks s - {i, di}"
    and bk: "\<And>b. b \<notin> free_blocks s \<Longrightarrow> b \<notin> {indirect (din_of s n)} - {0} \<Longrightarrow> blk s' b = blk s b"
  shows "appended n s i s'"
proof -
  let ?d = "din_of s n" and ?k = "dblocks (din_of s n)"
  have d: "din_of s' n = d'" "dblocks d' = ?k + 1" "indirect d' = di" "direct d' = db" using sin(1) d'(1) by simp_all
  have fb: "free_blocks s \<subseteq> {1..<blocks_of (super s)}" using space_invD(4) [OF inv] .
  have di_used: "di \<in> used_blocks s'" if "di \<noteq> 0"
    using that di(1) file_okD(4) [OF f] fr fb rest(6) by (auto simp: used_blocks_def)
  have i_used: "i \<in> used_blocks s'" using i(1,3) fb rest(6) by (auto simp: used_blocks_def)
  have old_used: "entry s ?d k \<in> used_blocks s'" if "k < ?k" for k
    using file_okD(5) [OF f that] fr rest(6) by (auto simp: used_blocks_def)
  have old: "entry s' d' k = entry s ?d k" if "k < ?k" for k using e [of k] that file_okD(2) [OF f] by simp
  have new: "entry s' d' ?k = i" using e [OF room] by simp
  have "entry s ?d k \<noteq> i" if "k < ?k" for k using used_pos [OF file_okD(5) [OF f that]] i(1) by auto
  moreover have "entry s ?d k \<noteq> di" if "k < ?k" for k
    using file_okD(6) [OF f that] used_pos [OF file_okD(5) [OF f that]] di(1) by auto
  ultimately have ne: "entry s ?d k \<noteq> i \<and> entry s ?d k \<noteq> di" if "k < ?k" for k using that by blast
  have cases_k: "k < ?k + 1 \<longleftrightarrow> k < ?k \<or> k = ?k" for k by auto
  have "inj_on (entry s' d') {..<?k + 1}"
  proof (rule inj_onI)
    fix x y assume "x \<in> {..<?k + 1}" "y \<in> {..<?k + 1}" "entry s' d' x = entry s' d' y"
    then show "x = y"
      using inj_onD [OF file_okD(8) [OF f], of x y] old [of x] old [of y] new ne [of x] ne [of y] by (auto simp: cases_k less_Suc_eq)
  qed
  moreover have "entry s' d' k = 0" if "?k + 1 \<le> k" "k < 1036" for k
    using e [OF that(2)] that file_okD(7) [OF f, of k] by simp
  moreover have "di = 0 \<longrightarrow> ?k + 1 \<le> 12" using di(2) by auto
  ultimately have fo: "file_ok s' d'"
    unfolding file_ok_def d using d'(2) room di_used i_used old_used old new ne i(2) by (auto simp: cases_k less_Suc_eq)
  have ownd: "own s' d' = own s ?d \<union> (free_blocks s - free_blocks s')"
  proof -
    have "entry s' d' ` {..<?k + 1} = insert i (entry s ?d ` {..<?k})"
      using old new by (force simp: cases_k less_Suc_eq image_iff)
    moreover have "free_blocks s - free_blocks s' = {i, di} \<inter> free_blocks s" using fr by auto
    moreover have "di \<in> free_blocks s \<Longrightarrow> di \<noteq> 0" using fb by auto
    moreover have "indirect ?d \<noteq> 0 \<Longrightarrow> indirect ?d \<notin> free_blocks s" using file_okD(4) [OF f] used_pos by blast
    ultimately show ?thesis using i(1) di(1) unfolding own_def d by auto
  qed
  have "\<exists>db di bl dt. sfs_inodes s' n = (sfs_inodes s n)\<lparr>din := ?d\<lparr>direct := db, indirect := di, dblocks := bl\<rparr>, dirty := dt\<rparr> \<and>
        ?k \<le> bl \<and> (dirty (sfs_inodes s n) \<longrightarrow> dt)"
    by (rule exI [of _ db], rule exI [of _ di], rule exI [of _ "?k + 1"], rule exI [of _ dt]) (use sin d'(1) in simp)
  moreover have "blk s' b = blk s b" if "b \<notin> free_blocks s" "b \<notin> own s ?d" for b
    using that by (intro bk) (auto simp: own_def)
  moreover have "\<forall>m. m \<noteq> n \<longrightarrow> sfs_inodes s' m = sfs_inodes s m" "free_blocks s' \<subseteq> free_blocks s" using sin(1) fr by auto
  ultimately have "grows n s s'"
    using inv' fo rest ownd old unfolding grows_def d(1) by blast
  then show ?thesis using d new i(4) bk rest(3) by (simp add: appended_def)
qed


definition no_space :: "nat \<Rightarrow> sfs_fs \<Rightarrow> sfs_fs \<Rightarrow> bool" where
  "no_space n s s' \<longleftrightarrow> grows n s s' \<and> sfs_inodes s' = sfs_inodes s \<and> fmem s' = fmem s \<and> free_blocks s' = free_blocks s \<and>
     (\<forall>b. b \<notin> free_blocks s \<longrightarrow> blk s' b = blk s b) \<and> card (free_blocks s) < 2"

lemma no_spaceI:
  assumes "space_inv s" "file_ok s (din_of s n)" "space_inv s'" "same_files s s'" "free_blocks s' = free_blocks s"
    "\<And>b. b \<notin> free_blocks s \<Longrightarrow> blk s' b = blk s b" "card (free_blocks s) < 2"
  shows "no_space n s s'"
  using grows_same [OF assms(1-6)] assms(4-7) by (simp add: no_space_def same_files_def)

lemma mark_simps:
  "sfs_inodes (mod_sin n f s) = (sfs_inodes s)(n := f (sfs_inodes s n))" "space_inv (mod_sin n f s) = space_inv s"
  "free_blocks (mod_sin n f s) = free_blocks s" "used_blocks (mod_sin n f s) = used_blocks s" "blk (mod_sin n f s) = blk s"
  "inode_list (mod_sin n f s) = inode_list s" "hash_list (mod_sin n f s) = hash_list s" "fmem (mod_sin n f s) = fmem s"
  "fheap (mod_sin n f s) = fheap s" "node_ans (mod_sin n f s) = node_ans s" "super (mod_sin n f s) = super s"
  "freemap (mod_sin n f s) = freemap s" "sdev (mod_sin n f s) = sdev s"
  by (simp_all add: mod_sin_def space_inv_def free_blocks_def used_blocks_def blk_def dev_ok_def)

lemma entry_mark [simp]: "entry (mod_sin n f s) d = entry s d"
  by (simp add: entry_def mark_simps fun_eq_iff)

lemma get_new_direct:
  assumes inv: "space_inv s" and f: "file_ok s (din_of s n)" and k: "dblocks (din_of s n) = k" "k < 12"
  shows "\<exists>ret i s'. sfs_bmap_get_nolock n k True s = Some ((ret, i), s') \<and>
    (ret = 0 \<and> i \<in> used_blocks s' \<and> appended n s i (mod_din n (\<lambda>d. d\<lparr>dblocks := dblocks d + 1\<rparr>) s') \<or>
     ret = fail_code E_NO_MEM \<and> no_space n s s')"
proof -
  let ?d = "din_of s n"
  have z: "direct ?d ! k = 0" using file_okD(7) [OF f, of k] k by (simp add: entry_def)
  show ?thesis
  proof (cases "free_blocks s = {}")
    case True
    then have a: "sfs_block_alloc s = Some ((fail_code E_NO_MEM, 0), s)" using block_alloc_ok [OF inv] by simp
    have "no_space n s s" using True by (intro no_spaceI [OF inv f inv]) (simp_all add: same_files_def)
    then show ?thesis using a z k by (simp add: sfs_bmap_get_nolock_def sfs_consts)
  next
    case False
    then obtain s1 i where a: "sfs_block_alloc s = Some ((0, i), s1)" "i \<in> free_blocks s" "space_inv s1" "same_files s s1"
      "free_blocks s1 = free_blocks s - {i}" "used_blocks s1 = insert i (used_blocks s)" "blk s1 = (blk s)(i := zeros)"
      using block_alloc_ok [OF inv] by auto
    have i0: "i \<noteq> 0" using space_invD(4) [OF inv] a(2) by auto
    let ?s2 = "mark_dirty n (mod_din n (\<lambda>d. d\<lparr>direct := (direct d)[k := i]\<rparr>) s1)"
    let ?s3 = "mod_din n (\<lambda>d. d\<lparr>dblocks := dblocks d + 1\<rparr>) ?s2"
    have u2: "i \<in> used_blocks ?s2" "space_inv ?s2" using a(3,6) by (simp_all add: mark_dirty_def mod_din_def mark_simps)
    have g: "sfs_bmap_get_nolock n k True s = Some ((0, i), ?s2)"
      using z k a(1,4) i0 inuse_used [OF u2(2,1)] by (simp add: sfs_bmap_get_nolock_def sfs_consts same_files_def)
    have in1: "sfs_inodes s1 = sfs_inodes s" using a(4) by (simp add: same_files_def)
    let ?d' = "?d\<lparr>direct := (direct ?d)[k := i], indirect := indirect ?d, dblocks := dblocks ?d + 1\<rparr>"
    have ind_ne: "indirect ?d \<noteq> i" using file_okD(4) [OF f] used_pos a(2) i0 by metis
    have ent: "entry ?s3 ?d' x = (if x = dblocks ?d then i else entry s ?d x)" if "x < 1036" for x
    proof -
      have "blk s1 (indirect ?d) = blk s (indirect ?d)" using a(7) ind_ne by simp
      then show ?thesis using k file_okD(1) [OF f] by (simp add: entry_def mark_dirty_def mod_din_def mark_simps)
    qed
    have "appended n s i ?s3"
    proof (rule appendI [OF inv f, where d' = ?d' and db = "(direct ?d)[k := i]" and di = "indirect ?d"])
      show "sfs_inodes ?s3 = (sfs_inodes s)(n := (sfs_inodes s n)\<lparr>din := ?d', dirty := True\<rparr>)"
        by (simp add: mark_dirty_def mod_din_def mark_simps in1 fun_upd_def fun_eq_iff)
      show "free_blocks ?s3 = free_blocks s - {i, indirect ?d}"
        using a(5) file_okD(4) [OF f] used_pos space_invD(4) [OF inv]
        by (cases "indirect ?d = 0") (auto simp: mark_dirty_def mod_din_def mark_simps)
      show "entry ?s3 ?d' x = (if x = dblocks ?d then i else entry s ?d x)" if "x < 1036" for x using ent [OF that] .
    qed (use a k file_okD(1) [OF f] ind_ne in \<open>auto simp: mark_dirty_def mod_din_def mark_simps same_files_def\<close>)
    then show ?thesis using g u2(1) by blast
  qed
qed


text \<open>Entering a new block in a block of entries.\<close>

lemma enter_block:
  assumes inv: "space_inv s" and ent: "ent \<in> used_blocks s" and k: "k < 1024"
  shows "if free_blocks s = {} then sfs_block_alloc s = Some ((fail_code E_NO_MEM, 0), s)
    else \<exists>i s1 s'. sfs_block_alloc s = Some ((0, i), s1) \<and> sfs_wbuf (word_bytes (of_nat i)) ent (k * 4) s1 = Some (0, s') \<and>
      i \<in> free_blocks s \<and> i \<noteq> ent \<and> space_inv s' \<and> same_files s s' \<and> free_blocks s' = free_blocks s - {i} \<and>
      used_blocks s' = insert i (used_blocks s) \<and> blk s' i = zeros \<and> (\<forall>b. b \<noteq> i \<longrightarrow> b \<noteq> ent \<longrightarrow> blk s' b = blk s b) \<and>
      (\<forall>x<1024. word_at (blk s' ent) x = (if x = k then i else word_at (blk s ent) x))"
proof (cases "free_blocks s = {}")
  case True
  then show ?thesis using block_alloc_ok [OF inv] by simp
next
  case False
  then obtain s1 i where a: "sfs_block_alloc s = Some ((0, i), s1)" "i \<in> free_blocks s" "space_inv s1" "same_files s s1"
    "free_blocks s1 = free_blocks s - {i}" "used_blocks s1 = insert i (used_blocks s)" "blk s1 = (blk s)(i := zeros)"
    using block_alloc_ok [OF inv] by auto
  have ne: "i \<noteq> ent" using used_pos [OF ent] a(2) by auto
  have e1: "ent \<noteq> 0" "ent < blocks_of (super s1)" using used_pos [OF ent] a(4) by (simp_all add: same_files_def)
  have o: "k * 4 < 4096" "k * 4 + length (word_bytes (of_nat i)) \<le> 4096" using k by simp_all
  obtain s' where w: "sfs_wbuf (word_bytes (of_nat i)) ent (k * 4) s1 = Some (0, s')" "disk_only s1 s'"
    "blk s' = (blk s1)(ent := overlay (k * 4) (word_bytes (of_nat i)) (blk s1 ent))"
    using wbuf_ok [OF space_invD(1) [OF a(3)] e1 o] by blast
  have ib: "i < 2 ^ 19" using a(2) space_invD(4,7) [OF inv] by auto
  have ui: "unat (of_nat i :: u32) = i"
    using ib by (simp only: unsigned_of_nat) (simp add: take_bit_nat_eq_self)
  have "word_at (blk s' ent) x = (if x = k then i else word_at (blk s ent) x)" if "x < 1024" for x
    using word_at_put [OF length_blk k that, of "of_nat i" s1 ent] ui ne by (simp add: w(3) a(7))
  then show ?thesis
    using False a w(1) ne disk_only_space [OF a(3) w(2)] disk_only_same [OF w(2)] same_files_trans [OF a(4)]
    by (simp add: w(3) a(7))
qed

lemma get_sub_old_table:
  assumes inv: "space_inv s" and e: "entp \<in> used_blocks s" "word_at (blk s entp) k = 0" and k: "k < 1024"
  shows "if free_blocks s = {} then \<exists>s'. sfs_bmap_get_sub_nolock entp k True s = Some ((fail_code E_NO_MEM, entp, 0), s') \<and>
      space_inv s' \<and> same_files s s' \<and> free_blocks s' = free_blocks s \<and> blk s' = blk s
    else \<exists>i s'. sfs_bmap_get_sub_nolock entp k True s = Some ((0, entp, i), s') \<and> i \<in> free_blocks s \<and> i \<noteq> entp \<and>
      space_inv s' \<and> same_files s s' \<and> free_blocks s' = free_blocks s - {i} \<and> used_blocks s' = insert i (used_blocks s) \<and>
      blk s' i = zeros \<and> (\<forall>b. b \<noteq> i \<longrightarrow> b \<noteq> entp \<longrightarrow> blk s' b = blk s b) \<and>
      (\<forall>x<1024. word_at (blk s' entp) x = (if x = k then i else word_at (blk s entp) x))"
proof -
  have e0: "entp \<noteq> 0" using used_pos [OF e(1)] by simp
  obtain bs s1 where r: "sfs_rbuf 4 entp (k * 4) s = Some ((0, bs), s1)" "unat (bytes_word bs) = 0" "disk_only s s1" "blk s1 = blk s"
    using read_entry [OF inv e(1) k] e(2) by auto
  note d = disk_only_same [OF r(3)] and inv1 = disk_only_space [OF inv r(3)]
  have fu: "free_blocks s1 = free_blocks s" "used_blocks s1 = used_blocks s" using d by simp_all
  have e1: "entp \<in> used_blocks s1" using e(1) d by simp
  note en = enter_block [OF inv1 e1 k]
  show ?thesis
  proof (cases "free_blocks s = {}")
    case True
    then have "sfs_block_alloc s1 = Some ((fail_code E_NO_MEM, 0), s1)" using en d by simp
    then show ?thesis using True e0 k r inv1 d by (simp add: sfs_bmap_get_sub_nolock_def sfs_consts)
  next
    case False
    then obtain i s2 s' where x: "sfs_block_alloc s1 = Some ((0, i), s2)" "sfs_wbuf (word_bytes (of_nat i)) entp (k * 4) s2 = Some (0, s')"
      "i \<in> free_blocks s" "i \<noteq> entp" "space_inv s'" "same_files s1 s'" "free_blocks s' = free_blocks s - {i}"
      "used_blocks s' = insert i (used_blocks s)" "blk s' i = zeros" "\<forall>b. b \<noteq> i \<longrightarrow> b \<noteq> entp \<longrightarrow> blk s' b = blk s b"
      "\<forall>x<1024. word_at (blk s' entp) x = (if x = k then i else word_at (blk s entp) x)"
      using en [unfolded fu r(4) if_not_P [OF False]] by blast
    have "sfs_bmap_get_sub_nolock entp k True s = Some ((0, entp, i), s')"
      using e0 k r x(1,2) by (simp add: sfs_bmap_get_sub_nolock_def sfs_consts)
    moreover have "same_files s s'" using same_files_trans [OF _ x(6)] d by blast
    ultimately show ?thesis unfolding if_not_P [OF False] using x(3-5,7-11) by blast
  qed
qed

lemma get_sub_new_table:
  assumes inv: "space_inv s" and k: "k < 1024"
  shows "if card (free_blocks s) < 2 then \<exists>s'. sfs_bmap_get_sub_nolock 0 k True s = Some ((fail_code E_NO_MEM, 0, 0), s') \<and>
      space_inv s' \<and> same_files s s' \<and> free_blocks s' = free_blocks s \<and> (\<forall>b. b \<notin> free_blocks s \<longrightarrow> blk s' b = blk s b)
    else \<exists>ent i s'. sfs_bmap_get_sub_nolock 0 k True s = Some ((0, ent, i), s') \<and> ent \<in> free_blocks s \<and> i \<in> free_blocks s \<and> i \<noteq> ent \<and>
      space_inv s' \<and> same_files s s' \<and> free_blocks s' = free_blocks s - {i, ent} \<and> used_blocks s' = {i, ent} \<union> used_blocks s \<and>
      blk s' i = zeros \<and> (\<forall>b. b \<noteq> i \<longrightarrow> b \<noteq> ent \<longrightarrow> blk s' b = blk s b) \<and>
      (\<forall>x<1024. word_at (blk s' ent) x = (if x = k then i else 0))"
proof (cases "free_blocks s = {}")
  case True
  then have "sfs_block_alloc s = Some ((fail_code E_NO_MEM, 0), s)" using block_alloc_ok [OF inv] by simp
  then show ?thesis using True k inv by (simp add: sfs_bmap_get_sub_nolock_def sfs_consts same_files_def)
next
  case False
  then obtain s1 ent where a: "sfs_block_alloc s = Some ((0, ent), s1)" "ent \<in> free_blocks s" "space_inv s1" "same_files s s1"
    "free_blocks s1 = free_blocks s - {ent}" "used_blocks s1 = insert ent (used_blocks s)" "blk s1 = (blk s)(ent := zeros)"
    using block_alloc_ok [OF inv] by auto
  have e0: "ent \<noteq> 0" and e1: "ent \<in> used_blocks s1" using a(2,6) space_invD(4) [OF inv] by auto
  note en = enter_block [OF a(3) e1 k]
  have card: "card (free_blocks s) < 2 \<longleftrightarrow> free_blocks s1 = {}"
  proof -
    have "card (free_blocks s) = Suc (card (free_blocks s1))"
      using card_Suc_Diff1 [OF space_invD(6) [OF inv] a(2)] a(5) by simp
    then show ?thesis using space_invD(6) [OF a(3)] by (simp add: card_eq_0_iff)
  qed
  show ?thesis
  proof (cases "free_blocks s1 = {}")
    case True
    then have na: "sfs_block_alloc s1 = Some ((fail_code E_NO_MEM, 0), s1)" using en by simp
    obtain s2 where f: "sfs_block_free ent s1 = Some s2" "space_inv s2" "same_files s1 s2"
      "free_blocks s2 = insert ent (free_blocks s1)" "blk s2 = blk s1" using block_free_ok [OF a(3) e1] by blast
    have "free_blocks s2 = free_blocks s" unfolding f(4) a(5) using a(2) by (simp add: insert_absorb)
    moreover have "sfs_bmap_get_sub_nolock 0 k True s = Some ((fail_code E_NO_MEM, 0, 0), s2)"
      using na f(1) a(1) e0 k by (simp add: sfs_bmap_get_sub_nolock_def sfs_consts)
    moreover have "\<forall>b. b \<notin> free_blocks s \<longrightarrow> blk s2 b = blk s b" using f(5) a(2,7) by auto
    ultimately show ?thesis
      unfolding if_P [OF card [THEN iffD2, OF True]] using f(2) same_files_trans [OF a(4) f(3)] by blast
  next
    case f1: False
    then obtain i s2 s' where x: "sfs_block_alloc s1 = Some ((0, i), s2)" "sfs_wbuf (word_bytes (of_nat i)) ent (k * 4) s2 = Some (0, s')"
      "i \<in> free_blocks s1" "i \<noteq> ent" "space_inv s'" "same_files s1 s'" "free_blocks s' = free_blocks s1 - {i}"
      "used_blocks s' = insert i (used_blocks s1)" "blk s' i = zeros" "\<forall>b. b \<noteq> i \<longrightarrow> b \<noteq> ent \<longrightarrow> blk s' b = blk s1 b"
      "\<forall>x<1024. word_at (blk s' ent) x = (if x = k then i else word_at (blk s1 ent) x)"
      using en [unfolded if_not_P [OF f1]] by blast
    have nc: "\<not> card (free_blocks s) < 2" using card f1 by simp
    have "sfs_bmap_get_sub_nolock 0 k True s = Some ((0, ent, i), s')"
      using a(1) e0 k x(1,2) by (simp add: sfs_bmap_get_sub_nolock_def sfs_consts)
    moreover have "\<forall>x<1024. word_at (blk s' ent) x = (if x = k then i else 0)" using x(11) a(7) word_at_zeros by simp
    moreover have "\<forall>b. b \<noteq> i \<longrightarrow> b \<noteq> ent \<longrightarrow> blk s' b = blk s b" using x(10) a(7) by simp
    moreover have "free_blocks s' = free_blocks s - {i, ent}" "used_blocks s' = {i, ent} \<union> used_blocks s" "i \<in> free_blocks s"
      using x(3,7,8) a(5,6) by auto
    ultimately show ?thesis
      unfolding if_not_P [OF nc] using a(2) x(4,5,9) same_files_trans [OF a(4) x(6)] by blast
  qed
qed

end
