(* ===== verification/Sfs_Load.thy ===== *)
theory Sfs_Load
  imports Sfs_File
begin

text \<open>
  \<^verbatim>\<open>sfs_bmap_load_nolock\<close> one past the last block, and the release of the last block of a file
  (\<^verbatim>\<open>kern/fs/sfs/sfs_inode.c\<close>).
\<close>

lemma get_new_indirect:
  assumes inv: "space_inv s" and f: "file_ok s (din_of s n)" and k: "dblocks (din_of s n) = k" "12 \<le> k" "k < 1036"
  shows "\<exists>ret i s'. sfs_bmap_get_nolock n k True s = Some ((ret, i), s') \<and>
    (ret = 0 \<and> i \<in> used_blocks s' \<and> space_inv s' \<and> appended n s i (mod_din n (\<lambda>d. d\<lparr>dblocks := dblocks d + 1\<rparr>) s') \<or>
     ret = fail_code E_NO_MEM \<and> no_space n s s')"
proof -
  let ?d = "din_of s n" and ?k = "k - 12"
  have k': "?k < 1024" using k by simp
  show ?thesis
  proof (cases "indirect ?d = 0")
    case False
    have ent: "indirect ?d \<in> used_blocks s" using file_okD(4) [OF f False] .
    have z: "word_at (blk s (indirect ?d)) ?k = 0" using file_okD(7) [OF f, of k] k False by (simp add: entry_def)
    note g = get_sub_old_table [OF inv ent z k']
    show ?thesis
    proof (cases "free_blocks s = {}")
      case True
      from g [unfolded if_P [OF True]] obtain s' where s': "sfs_bmap_get_sub_nolock (indirect ?d) ?k True s = Some ((fail_code E_NO_MEM, indirect ?d, 0), s')"
        "space_inv s'" "same_files s s'" "free_blocks s' = free_blocks s" "blk s' = blk s" by blast
      have "no_space n s s'" using s' True by (intro no_spaceI [OF inv f]) simp_all
      then show ?thesis using s'(1) k by (simp add: sfs_bmap_get_nolock_def sfs_consts)
    next
      case nf: False
      from g [unfolded if_not_P [OF nf]] obtain i s' where s': "sfs_bmap_get_sub_nolock (indirect ?d) ?k True s = Some ((0, indirect ?d, i), s')"
        "i \<in> free_blocks s" "i \<noteq> indirect ?d" "space_inv s'" "same_files s s'" "free_blocks s' = free_blocks s - {i}"
        "used_blocks s' = insert i (used_blocks s)" "blk s' i = zeros" "\<forall>b. b \<noteq> i \<longrightarrow> b \<noteq> indirect ?d \<longrightarrow> blk s' b = blk s b"
        "\<forall>x<1024. word_at (blk s' (indirect ?d)) x = (if x = ?k then i else word_at (blk s (indirect ?d)) x)" by blast
      have u: "i \<in> used_blocks s'" using s'(7) by simp
      have i0: "i \<noteq> 0" using used_pos [OF u] by simp
      have get: "sfs_bmap_get_nolock n k True s = Some ((0, i), s')"
        using s'(1) k inuse_used [OF s'(4) u] i0 by (simp add: sfs_bmap_get_nolock_def sfs_consts)
      let ?s3 = "mod_din n (\<lambda>d. d\<lparr>dblocks := dblocks d + 1\<rparr>) s'"
      let ?d' = "?d\<lparr>direct := direct ?d, indirect := indirect ?d, dblocks := dblocks ?d + 1\<rparr>"
      have in1: "sfs_inodes s' = sfs_inodes s" using s'(5) by (simp add: same_files_def)
      have "appended n s i ?s3"
      proof (rule appendI [OF inv f, where d' = ?d' and db = "direct ?d" and di = "indirect ?d" and dt = "dirty (sfs_inodes s n)"])
        show "sfs_inodes ?s3 = (sfs_inodes s)(n := (sfs_inodes s n)\<lparr>din := ?d', dirty := dirty (sfs_inodes s n)\<rparr>)"
          by (simp add: mod_din_def mark_simps in1)
        show "free_blocks ?s3 = free_blocks s - {i, indirect ?d}"
          using s'(6) used_pos [OF ent] by (auto simp: mod_din_def mark_simps)
        show "entry ?s3 ?d' x = (if x = dblocks ?d then i else entry s ?d x)" if "x < 1036" for x
          using s'(10) that k False by (auto simp: entry_def mod_din_def mark_simps)
        show "blk ?s3 b = blk s b" if b: "b \<notin> free_blocks s" "b \<notin> {indirect ?d} - {0}" for b
        proof -
          have "b \<noteq> i" "b \<noteq> indirect ?d" using b s'(2) False by auto
          then show ?thesis using s'(9) by (simp add: mod_din_def mark_simps)
        qed
      qed (use s' k file_okD(1) [OF f] False in \<open>simp_all add: mod_din_def mark_simps same_files_def\<close>)
      then show ?thesis using get u s'(4) by blast
    qed
  next
    case True
    have k12: "k = 12" using file_okD(3) [OF f True] k by simp
    note g = get_sub_new_table [OF inv k']
    show ?thesis
    proof (cases "card (free_blocks s) < 2")
      case c: True
      from g [unfolded if_P [OF c]] obtain s' where s': "sfs_bmap_get_sub_nolock 0 ?k True s = Some ((fail_code E_NO_MEM, 0, 0), s')"
        "space_inv s'" "same_files s s'" "free_blocks s' = free_blocks s" "\<forall>b. b \<notin> free_blocks s \<longrightarrow> blk s' b = blk s b" by blast
      have "no_space n s s'" using s' c by (intro no_spaceI [OF inv f]) simp_all
      then show ?thesis using s'(1) k True by (simp add: sfs_bmap_get_nolock_def sfs_consts)
    next
      case c: False
      from g [unfolded if_not_P [OF c]] obtain ent i s' where s': "sfs_bmap_get_sub_nolock 0 ?k True s = Some ((0, ent, i), s')"
        "ent \<in> free_blocks s" "i \<in> free_blocks s" "i \<noteq> ent" "space_inv s'" "same_files s s'" "free_blocks s' = free_blocks s - {i, ent}"
        "used_blocks s' = {i, ent} \<union> used_blocks s" "blk s' i = zeros" "\<forall>b. b \<noteq> i \<longrightarrow> b \<noteq> ent \<longrightarrow> blk s' b = blk s b"
        "\<forall>x<1024. word_at (blk s' ent) x = (if x = ?k then i else 0)" by blast
      let ?s2 = "mark_dirty n (mod_din n (\<lambda>d. d\<lparr>indirect := ent\<rparr>) s')"
      have u: "i \<in> used_blocks ?s2" "space_inv ?s2" using s'(5,8) by (simp_all add: mark_dirty_def mod_din_def mark_simps)
      have i0: "i \<noteq> 0" "ent \<noteq> 0" using s'(2,3) space_invD(4) [OF inv] by auto
      have get: "sfs_bmap_get_nolock n k True s = Some ((0, i), ?s2)"
        using s'(1) k True inuse_used [OF u(2,1)] i0 by (simp add: sfs_bmap_get_nolock_def sfs_consts)
      let ?s3 = "mod_din n (\<lambda>d. d\<lparr>dblocks := dblocks d + 1\<rparr>) ?s2"
      let ?d' = "?d\<lparr>direct := direct ?d, indirect := ent, dblocks := dblocks ?d + 1\<rparr>"
      have in1: "sfs_inodes s' = sfs_inodes s" using s'(6) by (simp add: same_files_def)
      have bks: "blk s' b = blk s b" if "b \<notin> free_blocks s" for b using that s'(2,3,10) by metis
      have "appended n s i ?s3"
      proof (rule appendI [OF inv f, where d' = ?d' and db = "direct ?d" and di = ent and dt = True])
        show "sfs_inodes ?s3 = (sfs_inodes s)(n := (sfs_inodes s n)\<lparr>din := ?d', dirty := True\<rparr>)"
          by (simp add: mark_dirty_def mod_din_def mark_simps in1 fun_upd_def fun_eq_iff)
        show "entry ?s3 ?d' x = (if x = dblocks ?d then i else entry s ?d x)" if "x < 1036" for x
          using s'(11) that k k12 True i0 by (auto simp: entry_def mark_dirty_def mod_din_def mark_simps)
        show "blk ?s3 b = blk s b" if "b \<notin> free_blocks s" for b
          using bks [OF that] by (simp add: mark_dirty_def mod_din_def mark_simps)
      qed (use s' k True file_okD(1) [OF f] i0 in \<open>simp_all add: mark_dirty_def mod_din_def mark_simps same_files_def\<close>)
      then show ?thesis using get u by blast
    qed
  qed
qed

lemma bmap_load_new:
  assumes inv: "space_inv s" and f: "file_ok s (din_of s n)" and k: "dblocks (din_of s n) = k" "k < 1036"
  shows "\<exists>ret i s'. sfs_bmap_load_nolock n k s = Some ((ret, i), s') \<and>
    (ret = 0 \<and> appended n s i s' \<or> ret = fail_code E_NO_MEM \<and> no_space n s s')"
proof -
  have "\<exists>ret i s'. sfs_bmap_get_nolock n k True s = Some ((ret, i), s') \<and>
    (ret = 0 \<and> i \<in> used_blocks s' \<and> space_inv s' \<and> appended n s i (mod_din n (\<lambda>d. d\<lparr>dblocks := dblocks d + 1\<rparr>) s') \<or>
     ret = fail_code E_NO_MEM \<and> no_space n s s')"
  proof (cases "k < 12")
    case True
    from get_new_direct [OF inv f k(1) True] obtain ret i s' where g: "sfs_bmap_get_nolock n k True s = Some ((ret, i), s')"
      "ret = 0 \<and> i \<in> used_blocks s' \<and> appended n s i (mod_din n (\<lambda>d. d\<lparr>dblocks := dblocks d + 1\<rparr>) s') \<or>
     ret = fail_code E_NO_MEM \<and> no_space n s s'" by blast
    then have "space_inv s'" if "ret = 0"
      using that growsD(1) [of n s "mod_din n (\<lambda>d. d\<lparr>dblocks := dblocks d + 1\<rparr>) s'"]
      by (auto simp: appended_def mod_din_def mark_simps)
    then show ?thesis using g by blast
  next
    case False
    then show ?thesis using get_new_indirect [OF inv f k(1) _ k(2)] by simp
  qed
  then obtain ret i s' where g: "sfs_bmap_get_nolock n k True s = Some ((ret, i), s')"
    "ret = 0 \<and> i \<in> used_blocks s' \<and> space_inv s' \<and> appended n s i (mod_din n (\<lambda>d. d\<lparr>dblocks := dblocks d + 1\<rparr>) s') \<or>
     ret = fail_code E_NO_MEM \<and> no_space n s s'" by blast
  then show ?thesis using k inuse_used [of s' i] by (auto simp: sfs_bmap_load_nolock_def)
qed

end
