(* ===== verification/Sfs_Rw.thy ===== *)
theory Sfs_Rw
  imports Sfs_Load
begin

text \<open>
  \<^verbatim>\<open>sfs_io_nolock\<close> (\<^verbatim>\<open>kern/fs/sfs/sfs_inode.c\<close>) on a file as an array of bytes.  The splitting of a
  transfer into the end of a block, whole blocks and the start of a block is reasoned about once,
  for any transfer of blocks, and used for reading and for writing.
\<close>

section \<open>Transfers in blocks\<close>

text \<open>
  \<open>T a lo hi s s'\<close>: between the two states the bytes \<open>lo\<close> to \<open>hi\<close> of the file and those of memory
  from \<open>a\<close> on have been brought together.  \<open>ready s b\<close> and \<open>legal b\<close> allow a transfer of block \<open>b\<close>,
  and \<open>full\<close> holds of a state in which a transfer could fail.
\<close>

lemma part_fits: "x = b + r \<Longrightarrow> x < e \<Longrightarrow> e < b + c \<Longrightarrow> r + (e - x) \<le> (c::nat)"
  by linarith

lemma to_block_end: "x = b + r \<Longrightarrow> r < c \<Longrightarrow> x + (c - r) = b + (c::nat)"
  by linarith

locale block_transfer =
  fixes n :: nat and wr :: bool
    and good :: "sfs_fs \<Rightarrow> bool" and ready :: "sfs_fs \<Rightarrow> nat \<Rightarrow> bool" and legal :: "nat \<Rightarrow> bool"
    and T :: "nat \<Rightarrow> nat \<Rightarrow> nat \<Rightarrow> sfs_fs \<Rightarrow> sfs_fs \<Rightarrow> bool" and full :: "sfs_fs \<Rightarrow> bool"
  assumes T_refl: "good s \<Longrightarrow> T a lo lo s s"
    and T_trans: "T a lo mid s s' \<Longrightarrow> T (a + (mid - lo)) mid hi s' s'' \<Longrightarrow> lo \<le> mid \<Longrightarrow> mid \<le> hi \<Longrightarrow> T a lo hi s s''"
    and T_good: "T a lo hi s s' \<Longrightarrow> good s'"
    and part: "good s \<Longrightarrow> ready s b \<Longrightarrow> legal b \<Longrightarrow> 0 < len \<Longrightarrow> off < 4096 \<Longrightarrow> off + len \<le> 4096 \<Longrightarrow>
      \<exists>ret s'. io_part n wr b off len a s = Some (ret, s') \<and>
        (ret = 0 \<and> T a (b * 4096 + off) (b * 4096 + off + len) s s' \<and> ready s' (b + 1) \<or>
         ret = fail_code E_NO_MEM \<and> T a (b * 4096 + off) (b * 4096 + off) s s' \<and> full s')"
    and whole: "good s \<Longrightarrow> ready s b \<Longrightarrow> legal b \<Longrightarrow> \<exists>ret s'. io_block n wr b a s = Some (ret, s') \<and>
        (ret = 0 \<and> T a (b * 4096) (b * 4096 + 4096) s s' \<and> ready s' (b + 1) \<or>
         ret = fail_code E_NO_MEM \<and> T a (b * 4096) (b * 4096) s s' \<and> full s')"
begin

definition moved :: "nat \<Rightarrow> nat \<Rightarrow> nat \<Rightarrow> int \<Rightarrow> nat \<Rightarrow> sfs_fs \<Rightarrow> sfs_fs \<Rightarrow> bool" where
  "moved a lo hi ret k s s' \<longleftrightarrow> T a lo (lo + k) s s' \<and> lo + k \<le> hi \<and> (ret = 0 \<longrightarrow> lo + k = hi) \<and>
     (ret \<noteq> 0 \<longrightarrow> ret = fail_code E_NO_MEM \<and> full s')"

lemma blocks:
  "\<lbrakk>good s; ready s b; \<And>x. b \<le> x \<Longrightarrow> x < b + m \<Longrightarrow> legal x\<rbrakk> \<Longrightarrow>
   \<exists>ret k s'. io_blocks n wr b m a s = Some ((ret, k), s') \<and> moved a (b * 4096) ((b + m) * 4096) ret k s s' \<and>
     (ret = 0 \<longrightarrow> ready s' (b + m))"
proof (induction m arbitrary: b a s)
  case 0
  then show ?case using T_refl by (simp add: moved_def)
next
  case (Suc m)
  have "legal b" using Suc.prems(3) [of b] by simp
  from whole [OF Suc.prems(1,2) this, of a] obtain ret s1 where w: "io_block n wr b a s = Some (ret, s1)"
    "ret = 0 \<and> T a (b * 4096) (b * 4096 + 4096) s s1 \<and> ready s1 (b + 1) \<or>
     ret = fail_code E_NO_MEM \<and> T a (b * 4096) (b * 4096) s s1 \<and> full s1" by blast
  show ?case
  proof (cases "ret = 0")
    case True
    then have t: "T a (b * 4096) (b * 4096 + 4096) s s1" "ready s1 (b + 1)" using w(2) by auto
    have "legal x" if "b + 1 \<le> x" "x < b + 1 + m" for x using Suc.prems(3) [of x] that by simp
    from Suc.IH [OF T_good [OF t(1)] t(2) this, of "a + 4096"] obtain ret' k s2 where
      r: "io_blocks n wr (b + 1) m (a + 4096) s1 = Some ((ret', k), s2)"
      "moved (a + 4096) ((b + 1) * 4096) ((b + 1 + m) * 4096) ret' k s1 s2" "ret' = 0 \<longrightarrow> ready s2 (b + 1 + m)" by auto
    have "T (a + (b * 4096 + 4096 - b * 4096)) (b * 4096 + 4096) (b * 4096 + 4096 + k) s1 s2"
      using r(2) by (simp add: moved_def algebra_simps)
    from T_trans [OF t(1) this] have "moved a (b * 4096) ((b + Suc m) * 4096) ret' (4096 + k) s s2"
      using r(2) by (auto simp: moved_def algebra_simps)
    then show ?thesis using w(1) True r(1,3) by (simp add: sfs_consts)
  next
    case False
    then have "moved a (b * 4096) ((b + Suc m) * 4096) ret 0 s s1" using w(2) by (auto simp: moved_def)
    then show ?thesis using w(1) False by simp
  qed
qed

lemma tail:
  assumes "good s" "ready s b" "\<And>x. b \<le> x \<Longrightarrow> x * 4096 < e \<Longrightarrow> legal x" "b * 4096 \<le> e" "m = e div 4096 - b"
  shows "\<exists>ret k s'. (do {
      ((ret, k), s) \<leftarrow> io_blocks n wr b m a s;
      if ret \<noteq> 0 \<or> e mod SFS_BLKSIZE = 0 then Some ((ret, c + k), s)
      else do {
        (ret, s) \<leftarrow> io_part n wr (b + m) 0 (e mod SFS_BLKSIZE) (a + k) s;
        Some ((ret, if ret \<noteq> 0 then c + k else c + k + e mod SFS_BLKSIZE), s)
      }
    }) = Some ((ret, c + k), s') \<and> moved a (b * 4096) e ret k s s'"
proof -
  have m: "b + m = e div 4096" using assms(4,5) by (simp add: less_eq_div_iff_mult_less_eq)
  have "legal x" if "b \<le> x" "x < b + m" for x
  proof -
    have "Suc x \<le> e div 4096" using that m by simp
    then have "Suc x * 4096 \<le> e" by (simp add: less_eq_div_iff_mult_less_eq)
    then show ?thesis using assms(3) [OF that(1)] by simp
  qed
  from blocks [OF assms(1,2) this, of m a] obtain ret k s1 where r: "io_blocks n wr b m a s = Some ((ret, k), s1)"
    "moved a (b * 4096) ((b + m) * 4096) ret k s s1" "ret = 0 \<longrightarrow> ready s1 (b + m)" by blast
  have em: "e = (b + m) * 4096 + e mod 4096" using m by simp
  show ?thesis
  proof (cases "ret \<noteq> 0 \<or> e mod 4096 = 0")
    case True
    then have "moved a (b * 4096) e ret k s s1" using r(2) em unfolding moved_def by auto
    then show ?thesis using r(1) True by (simp add: sfs_consts)
  next
    case False
    then have r0: "ret = 0" "0 < e mod 4096" by simp_all
    have t: "T a (b * 4096) ((b + m) * 4096) s s1" "k = m * 4096" using r(2) r0(1) by (auto simp: moved_def algebra_simps)
    have "(b + m) * 4096 < e" using em r0(2) by linarith
    then have lg: "legal (b + m)" using assms(3) [of "b + m"] by simp
    have rd: "ready s1 (b + m)" using r(3) r0(1) by simp
    from part [OF T_good [OF t(1)] rd lg r0(2), of 0 "a + k"] obtain ret' s2 where
      p: "io_part n wr (b + m) 0 (e mod 4096) (a + k) s1 = Some (ret', s2)"
      "ret' = 0 \<and> T (a + k) ((b + m) * 4096) ((b + m) * 4096 + e mod 4096) s1 s2 \<or>
       ret' = fail_code E_NO_MEM \<and> T (a + k) ((b + m) * 4096) ((b + m) * 4096) s1 s2 \<and> full s2" by auto
    have km: "(b + m) * 4096 - b * 4096 = k" "(b + m) * 4096 = b * 4096 + k" using t(2) by (simp_all add: algebra_simps)
    show ?thesis
    proof (cases "ret' = 0")
      case True
      then have "T (a + k) ((b + m) * 4096) e s1 s2" using p(2) em by auto
      then have "T a (b * 4096) e s s2" using T_trans [OF t(1), of e s2] km em by auto
      moreover have "b * 4096 + (k + e mod 4096) = e" using em km(2) by linarith
      ultimately have "moved a (b * 4096) e 0 (k + e mod 4096) s s2" by (simp add: moved_def)
      then show ?thesis using r(1) r0 p(1) True by (intro exI [of _ 0] exI [of _ "k + e mod 4096"] exI [of _ s2]) (simp add: sfs_consts)
    next
      case ne: False
      then have "T a (b * 4096) ((b + m) * 4096) s s2" "full s2" "ret' = fail_code E_NO_MEM"
        using p(2) T_trans [OF t(1), of "(b + m) * 4096" s2] km by auto
      then have "moved a (b * 4096) e ret' k s s2" using em km(2) ne by (auto simp: moved_def)
      then show ?thesis using r(1) r0 p(1) ne by (simp add: sfs_consts)
    qed
  qed
qed

lemma steps:
  assumes "good s" "ready s (o' div 4096)" "\<And>x. o' div 4096 \<le> x \<Longrightarrow> x * 4096 < e \<Longrightarrow> legal x" "o' < e"
  shows "\<exists>ret k s'. io_steps n wr a o' e s = Some ((ret, k), s') \<and> moved a o' e ret k s s'"
proof (cases "o' mod 4096 = 0")
  case True
  then have b: "o' div 4096 * 4096 = o'" using div_mult_mod_eq [of o' 4096] by linarith
  have b1: "o' div 4096 * 4096 \<le> e" using b assms(4) by simp
  obtain ret k s' where r: "do {
      ((ret, k), s) \<leftarrow> io_blocks n wr (o' div 4096) (e div 4096 - o' div 4096) a s;
      if ret \<noteq> 0 \<or> e mod SFS_BLKSIZE = 0 then Some ((ret, 0 + k), s)
      else do {
        (ret, s) \<leftarrow> io_part n wr (o' div 4096 + (e div 4096 - o' div 4096)) 0 (e mod SFS_BLKSIZE) (a + k) s;
        Some ((ret, if ret \<noteq> 0 then 0 + k else 0 + k + e mod SFS_BLKSIZE), s)
      }
    } = Some ((ret, 0 + k), s')" "moved a (o' div 4096 * 4096) e ret k s s'"
    using tail [OF assms(1-3) b1 refl, of a 0] by blast
  have "io_steps n wr a o' e s = Some ((ret, k), s')"
    using r(1) True unfolding io_steps_def sfs_consts Let_def by (simp, unfold add_0_right add_0_left, simp)
  then show ?thesis using r(2) b by metis
next
  case False
  let ?b = "o' div 4096" and ?off = "o' mod 4096"
  define nb where "nb = e div 4096 - ?b"
  define len where "len = (if nb \<noteq> 0 then 4096 - ?off else e - o')"
  have o: "o' = ?b * 4096 + ?off" and off: "?off < 4096" by simp_all
  have len: "0 < len" "?off + len \<le> 4096" "o' + len \<le> e" "nb = 0 \<Longrightarrow> o' + len = e" "nb \<noteq> 0 \<Longrightarrow> o' + len = (?b + 1) * 4096"
  proof -
    show "0 < len" using assms(4) by (simp add: len_def)
    have same: "e div 4096 = ?b" if "nb = 0" using that div_le_mono [of o' e 4096] assms(4) by (simp add: nb_def)
    show "?off + len \<le> 4096"
    proof (cases "nb = 0")
      case True
      have "e < (?b + 1) * 4096" using same [OF True] by (metis Suc_eq_plus1 div_less_iff_less_mult lessI zero_less_numeral)
      then have "?off + (e - o') \<le> 4096" using part_fits [OF o assms(4)] by simp
      then show ?thesis using True by (simp add: len_def)
    qed (simp add: len_def)
    show "o' + len \<le> e"
    proof (cases "nb = 0")
      case False
      then have "?b + 1 \<le> e div 4096" by (simp add: nb_def)
      then have "(?b + 1) * 4096 \<le> e" by (simp add: less_eq_div_iff_mult_less_eq)
      then have "?b * 4096 + 4096 \<le> e" by simp
      then show ?thesis using False to_block_end [OF o off] by (simp add: len_def)
    qed (use assms(4) in \<open>simp add: len_def\<close>)
    show "nb = 0 \<Longrightarrow> o' + len = e" using assms(4) by (simp add: len_def)
    show "nb \<noteq> 0 \<Longrightarrow> o' + len = (?b + 1) * 4096" using to_block_end [OF o off] by (simp add: len_def)
  qed
  have "?b * 4096 < e" using assms(4) o by linarith
  then have lg: "legal ?b" using assms(3) [of ?b] by simp
  obtain ret s1 where p: "io_part n wr ?b ?off len a s = Some (ret, s1)"
    "ret = 0 \<and> T a o' (o' + len) s s1 \<and> ready s1 (?b + 1) \<or> ret = fail_code E_NO_MEM \<and> T a o' o' s s1 \<and> full s1"
    using part [OF assms(1,2) lg len(1) off len(2), of a] by auto
  show ?thesis
  proof (cases "ret = 0 \<and> nb \<noteq> 0")
    case nz: True
    then have t: "T a o' (o' + len) s s1" "ready s1 (?b + 1)" using p(2) by auto
    have b1: "(?b + 1) * 4096 \<le> e" "nb - 1 = e div 4096 - (?b + 1)" using len(3,5) nz by (simp_all add: nb_def)
    have "legal x" if "?b + 1 \<le> x" "x * 4096 < e" for x using assms(3) [of x] that by simp
    from tail [OF T_good [OF t(1)] t(2) this b1, of "a + len" len] obtain ret' k s' where
      r: "do {
      ((ret, k), s) \<leftarrow> io_blocks n wr (?b + 1) (nb - 1) (a + len) s1;
      if ret \<noteq> 0 \<or> e mod SFS_BLKSIZE = 0 then Some ((ret, len + k), s)
      else do {
        (ret, s) \<leftarrow> io_part n wr (?b + 1 + (nb - 1)) 0 (e mod SFS_BLKSIZE) (a + len + k) s;
        Some ((ret, if ret \<noteq> 0 then len + k else len + k + e mod SFS_BLKSIZE), s)
      }
    } = Some ((ret', len + k), s')" "moved (a + len) ((?b + 1) * 4096) e ret' k s1 s'" by blast
    have ol: "(?b + 1) * 4096 = o' + len" using len(5) nz by simp
    have r2: "moved (a + len) (o' + len) e ret' k s1 s'" using r(2) unfolding ol .
    have "T a o' (o' + len + k) s s'"
      using T_trans [OF t(1), of "o' + len + k" s'] r2 by (simp add: moved_def)
    then have "moved a o' e ret' (len + k) s s'" using r2 by (auto simp: moved_def add.assoc)
    moreover have "io_steps n wr a o' e s = Some ((ret', len + k), s')"
      using r(1) p(1) nz False unfolding io_steps_def sfs_consts Let_def nb_def [symmetric] len_def [symmetric]
      by (simp del: One_nat_def add_0_left add_0_right add_Suc_right add_Suc Suc_eq_plus1)
    ultimately show ?thesis by blast
  next
    case z: False
    have "moved a o' e ret (if ret = 0 then len else 0) s s1"
      using p(2) z len(3,4) assms(4) by (auto simp: moved_def)
    moreover have "io_steps n wr a o' e s = Some ((ret, if ret = 0 then len else 0), s1)"
      using p(1) z False unfolding io_steps_def sfs_consts Let_def nb_def [symmetric] len_def [symmetric] by auto
    ultimately show ?thesis by blast
  qed
qed

end

end
