(* ===== verification/Sfs_Io.thy ===== *)
theory Sfs_Io
  imports Sfs_Rw
begin

text \<open>
  Reading and writing SFS files (\<^verbatim>\<open>sfs_io_nolock\<close> in \<^verbatim>\<open>kern/fs/sfs/sfs_inode.c\<close>): the file is an array
  of bytes, a write changes the bytes asked for and a read returns them.
\<close>

section \<open>The bytes of a file\<close>

definition fbyte :: "sfs_fs \<Rightarrow> nat \<Rightarrow> nat \<Rightarrow> u8" where
  "fbyte s n x = blk s (entry s (din_of s n) (x div 4096)) ! (x mod 4096)"

definition sound :: "nat \<Rightarrow> sfs_fs \<Rightarrow> bool" where
  "sound n s \<longleftrightarrow> space_inv s \<and> file_ok s (din_of s n)"

lemma block_of_byte: "x < 4096 * d \<longleftrightarrow> x div 4096 < (d::nat)"
  by (simp add: div_less_iff_less_mult mult.commute)

lemma grows_sound: "grows n s s' \<Longrightarrow> sound n s'"
  using growsD(1,2) by (simp add: sound_def)

lemma same_fbyte:
  assumes "sound n s" "grows n s s'" "\<And>b. b \<notin> free_blocks s \<Longrightarrow> blk s' b = blk s b" "x < 4096 * dblocks (din_of s n)"
  shows "fbyte s' n x = fbyte s n x"
proof -
  have k: "x div 4096 < dblocks (din_of s n)" using assms(4) by (simp add: block_of_byte)
  have "entry s (din_of s n) (x div 4096) \<notin> free_blocks s"
    using file_okD(5) [OF _ k] used_pos assms(1) by (auto simp: sound_def)
  then show ?thesis using growsD(11) [OF assms(2) k] assms(3) by (simp add: fbyte_def)
qed

text \<open>Writing to a block of the file.\<close>

lemma put_block:
  assumes "sound n s" "k < dblocks (din_of s n)" "disk_only s s'" "blk s' = (blk s)(entry s (din_of s n) k := c)"
  shows "grows n s s'" "x < 4096 * dblocks (din_of s n) \<Longrightarrow> fbyte s' n x = (if x div 4096 = k then c ! (x mod 4096) else fbyte s n x)"
proof -
  let ?d = "din_of s n"
  have inv: "space_inv s" and f: "file_ok s ?d" using assms(1) by (simp_all add: sound_def)
  have i: "sfs_inodes s' = sfs_inodes s" and sd: "same_files s s'" "free_blocks s' = free_blocks s" "used_blocks s' = used_blocks s"
    using disk_onlyD(4) [OF assms(3)] disk_only_same [OF assms(3)] by simp_all
  have "blk s' (indirect ?d) = blk s (indirect ?d)" using file_okD(6) [OF f assms(2)] assms(4) by simp
  note c = file_ok_cong [OF f this]
  have o: "own s ?d \<subseteq> used_blocks s'" using own_used [OF f] sd(3) by simp
  have ent: "entry s ?d k \<in> own s ?d" using assms(2) by (simp add: own_def)
  have "\<exists>db di bl dt. sfs_inodes s' n = (sfs_inodes s n)\<lparr>din := ?d\<lparr>direct := db, indirect := di, dblocks := bl\<rparr>, dirty := dt\<rparr> \<and>
        dblocks ?d \<le> bl \<and> (dirty (sfs_inodes s n) \<longrightarrow> dt)"
    by (rule exI [of _ "direct ?d"], rule exI [of _ "indirect ?d"], rule exI [of _ "dblocks ?d"],
        rule exI [of _ "dirty (sfs_inodes s n)"]) (simp add: i)
  then show "grows n s s'"
    using c [OF o] disk_only_space [OF inv assms(3)] sd(1,2) i assms(4) ent unfolding grows_def same_files_def by auto
  show "fbyte s' n x = (if x div 4096 = k then c ! (x mod 4096) else fbyte s n x)" if "x < 4096 * dblocks ?d"
  proof -
    have "entry s ?d (x div 4096) = entry s ?d k \<longleftrightarrow> x div 4096 = k"
      using inj_onD [OF file_okD(8) [OF f], of "x div 4096" k] that assms(2) by (auto simp: block_of_byte)
    then show ?thesis using c(2) [OF o] i assms(4) by (simp add: fbyte_def)
  qed
qed

text \<open>The block to transfer, new when it is the next one.\<close>

definition opened :: "nat \<Rightarrow> sfs_fs \<Rightarrow> nat \<Rightarrow> nat \<Rightarrow> sfs_fs \<Rightarrow> bool" where
  "opened n s b i s' \<longleftrightarrow> grows n s s' \<and> fmem s' = fmem s \<and> dblocks (din_of s' n) = max (dblocks (din_of s n)) (b + 1) \<and>
     i = entry s' (din_of s' n) b \<and>
     (\<forall>x<4096 * dblocks (din_of s' n). fbyte s' n x = (if x < 4096 * dblocks (din_of s n) then fbyte s n x else 0))"

lemma load_block:
  assumes "sound n s" "b \<le> dblocks (din_of s n)" "b < 1036"
  shows "\<exists>ret i s'. sfs_bmap_load_nolock n b s = Some ((ret, i), s') \<and>
    (ret = 0 \<and> opened n s b i s' \<or> ret = fail_code E_NO_MEM \<and> no_space n s s')"
proof -
  let ?d = "din_of s n"
  have inv: "space_inv s" and f: "file_ok s ?d" using assms(1) by (simp_all add: sound_def)
  show ?thesis
  proof (cases "b < dblocks ?d")
    case True
    obtain s' where l: "sfs_bmap_load_nolock n b s = Some ((0, entry s ?d b), s')" "disk_only s s'" "blk s' = blk s"
      using bmap_load_old [OF inv f True] by blast
    have g: "grows n s s'" using grows_disk [OF inv f l(2,3)] .
    have i: "sfs_inodes s' = sfs_inodes s" "fmem s' = fmem s" using disk_onlyD [OF l(2)] by simp_all
    have "opened n s b (entry s ?d b) s'"
      using g i True growsD(11) [OF g True] same_fbyte [OF assms(1) g] l(3) by (auto simp: opened_def)
    then show ?thesis using l(1) by blast
  next
    case False
    then have b: "dblocks ?d = b" using assms(2) by simp
    from bmap_load_new [OF inv f b assms(3)] obtain ret i s' where l: "sfs_bmap_load_nolock n b s = Some ((ret, i), s')"
      "ret = 0 \<and> appended n s i s' \<or> ret = fail_code E_NO_MEM \<and> no_space n s s'" by blast
    have "opened n s b i s'" if a: "appended n s i s'"
    proof -
      have g: "grows n s s'" and d: "dblocks (din_of s' n) = b + 1" and m: "fmem s' = fmem s"
        and e: "entry s' (din_of s' n) b = i" "blk s' i = zeros"
        and bk: "\<And>x. x \<notin> free_blocks s \<Longrightarrow> x \<notin> {indirect ?d} - {0} \<Longrightarrow> blk s' x = blk s x"
        using a b by (simp_all add: appended_def)
      have old: "fbyte s' n x = fbyte s n x" if x: "x < 4096 * dblocks ?d" for x
      proof -
        have k: "x div 4096 < dblocks ?d" using x by (simp add: block_of_byte)
        have "entry s ?d (x div 4096) \<notin> free_blocks s" "entry s ?d (x div 4096) \<notin> {indirect ?d} - {0}"
          using file_okD(6) [OF f k] used_pos [OF file_okD(5) [OF f k]] by simp_all
        then show ?thesis using growsD(11) [OF g k] bk by (simp add: fbyte_def)
      qed
      have new: "fbyte s' n x = 0" if "x < 4096 * (b + 1)" "\<not> x < 4096 * b" for x
      proof -
        have "x div 4096 = b" using that unfolding block_of_byte by simp
        then show ?thesis using e by (simp add: fbyte_def zeros_def SFS_BLKSIZE_def)
      qed
      show ?thesis using g m d e(1) b old new by (simp add: opened_def)
    qed
    then show ?thesis using l by blast
  qed
qed


section \<open>Writing\<close>

text \<open>
  \<open>wrote n a lo hi s s'\<close>: bytes \<open>lo\<close> to \<open>hi\<close> of the file are those of memory from \<open>a\<close> on, its other
  bytes are as they were, and bytes that it had no room for before are 0.
\<close>

definition wrote :: "nat \<Rightarrow> nat \<Rightarrow> nat \<Rightarrow> nat \<Rightarrow> sfs_fs \<Rightarrow> sfs_fs \<Rightarrow> bool" where
  "wrote n a lo hi s s' \<longleftrightarrow> grows n s s' \<and> fmem s' = fmem s \<and>
     dblocks (din_of s' n) = (if lo < hi then max (dblocks (din_of s n)) ((hi + 4095) div 4096) else dblocks (din_of s n)) \<and>
     (\<forall>x<4096 * dblocks (din_of s' n). fbyte s' n x =
        (if lo \<le> x \<and> x < hi then fmem s (a + (x - lo)) else if x < 4096 * dblocks (din_of s n) then fbyte s n x else 0))"

lemma wroteD:
  assumes "wrote n a lo hi s s'"
  shows "grows n s s'" "fmem s' = fmem s"
    "x < 4096 * dblocks (din_of s' n) \<Longrightarrow> \<not> (lo \<le> x \<and> x < hi) \<Longrightarrow> fbyte s' n x = (if x < 4096 * dblocks (din_of s n) then fbyte s n x else 0)"
    "x < 4096 * dblocks (din_of s' n) \<Longrightarrow> lo \<le> x \<and> x < hi \<Longrightarrow> fbyte s' n x = fmem s (a + (x - lo))"
  using assms unfolding wrote_def by (metis)+

lemma wrote_room: "wrote n a lo hi s s' \<Longrightarrow> lo < hi \<Longrightarrow> hi \<le> 4096 * dblocks (din_of s' n)"
proof -
  assume w: "wrote n a lo hi s s'" "lo < hi"
  have "hi + 4095 = (hi + 4095) div 4096 * 4096 + (hi + 4095) mod 4096" "(hi + 4095) mod 4096 < 4096"
    by (rule div_mult_mod_eq [symmetric]) simp
  then have "hi \<le> 4096 * ((hi + 4095) div 4096)" by linarith
  also have "\<dots> \<le> 4096 * dblocks (din_of s' n)" using w by (simp add: wrote_def)
  finally show ?thesis .
qed

lemma wrote_trans:
  assumes "wrote n a lo mid s s'" "wrote n (a + (mid - lo)) mid hi s' s''" "lo \<le> mid" "mid \<le> hi"
  shows "wrote n a lo hi s s''"
proof -
  have le: "(mid + 4095) div 4096 \<le> (hi + 4095) div 4096" using assms(4) by (intro div_le_mono) simp
  have "fbyte s'' n x = (if lo \<le> x \<and> x < hi then fmem s (a + (x - lo))
      else if x < 4096 * dblocks (din_of s n) then fbyte s n x else 0)" if "x < 4096 * dblocks (din_of s'' n)" for x
  proof (cases "mid \<le> x \<and> x < hi")
    case True
    have "a + (mid - lo) + (x - mid) = a + (x - lo)" using True assms(3) by simp
    then show ?thesis using True assms(3) wroteD(4) [OF assms(2) that True] wroteD(2) [OF assms(1)] by simp
  next
    case False
    have old: "x < 4096 * dblocks (din_of s n) \<Longrightarrow> x < 4096 * dblocks (din_of s' n)"
      using growsD(8) [OF wroteD(1) [OF assms(1)]] by simp
    have new: "lo \<le> x \<and> x < mid \<Longrightarrow> x < 4096 * dblocks (din_of s' n)" using wrote_room [OF assms(1)] by simp
    note e = wroteD(3) [OF assms(2) that False]
    have r: "lo \<le> x \<and> x < hi \<longleftrightarrow> lo \<le> x \<and> x < mid" using False assms(4) by auto
    show ?thesis
    proof (cases "x < 4096 * dblocks (din_of s' n)")
      case True
      then show ?thesis using e wroteD(3,4) [OF assms(1) True] unfolding r by auto
    next
      case out: False
      then show ?thesis using e new old unfolding r by auto
    qed
  qed
  moreover have "dblocks (din_of s'' n) = (if lo < hi then max (dblocks (din_of s n)) ((hi + 4095) div 4096) else dblocks (din_of s n))"
  proof -
    have "dblocks (din_of s' n) = (if lo < mid then max (dblocks (din_of s n)) ((mid + 4095) div 4096) else dblocks (din_of s n))"
      "dblocks (din_of s'' n) = (if mid < hi then max (dblocks (din_of s' n)) ((hi + 4095) div 4096) else dblocks (din_of s' n))"
      using assms(1,2) by (simp_all add: wrote_def)
    then show ?thesis using le assms(3,4) by (cases "lo < mid"; cases "mid < hi") (auto simp: max_def)
  qed
  moreover have "fmem s'' = fmem s" using wroteD(2) [OF assms(1)] wroteD(2) [OF assms(2)] by simp
  ultimately show ?thesis
    using grows_trans [OF wroteD(1) [OF assms(1)] wroteD(1) [OF assms(2)]] by (simp add: wrote_def)
qed

lemma wrote_nothing: "no_space n s s' \<Longrightarrow> sound n s \<Longrightarrow> wrote n a lo lo s s'"
  using same_fbyte [of n s s'] by (auto simp: wrote_def no_space_def)

lemma wrote_block:
  assumes o: "opened n s b i s1" and d: "disk_only s1 s2" "blk s2 = (blk s1)(i := c)" "length c = 4096"
    and len: "0 < len" "off < 4096" "off + len \<le> 4096"
    and c: "\<And>k. k < 4096 \<Longrightarrow> c ! k = (if off \<le> k \<and> k < off + len then fmem s (a + (k - off)) else blk s1 i ! k)"
    and b: "b \<le> dblocks (din_of s n)"
  shows "wrote n a (b * 4096 + off) (b * 4096 + off + len) s s2" "b + 1 \<le> dblocks (din_of s2 n)"
proof -
  have g1: "grows n s s1" and m: "fmem s1 = fmem s" and D: "dblocks (din_of s1 n) = max (dblocks (din_of s n)) (b + 1)"
    and i: "i = entry s1 (din_of s1 n) b"
    and fb: "\<And>x. x < 4096 * dblocks (din_of s1 n) \<Longrightarrow> fbyte s1 n x = (if x < 4096 * dblocks (din_of s n) then fbyte s n x else 0)"
    using o by (simp_all add: opened_def)
  have bd: "b < dblocks (din_of s1 n)" using D by simp
  note p = put_block [OF grows_sound [OF g1] bd d(1) d(2) [unfolded i]]
  have i2: "sfs_inodes s2 = sfs_inodes s1" "fmem s2 = fmem s" using disk_onlyD [OF d(1)] m by simp_all
  have "(b * 4096 + off + len + 4095) div 4096 = b + 1"
  proof -
    have "b * 4096 + off + len + 4095 = (b + 1) * 4096 + (off + len - 1)" using len(1) by simp
    then show ?thesis using len by simp
  qed
  moreover have "fbyte s2 n x = (if b * 4096 + off \<le> x \<and> x < b * 4096 + off + len then fmem s (a + (x - (b * 4096 + off)))
      else if x < 4096 * dblocks (din_of s n) then fbyte s n x else 0)" if x: "x < 4096 * dblocks (din_of s1 n)" for x
  proof (cases "x div 4096 = b")
    case True
    then have xe: "x = b * 4096 + x mod 4096" by (metis div_mult_mod_eq)
    have bi: "blk s1 i ! (x mod 4096) = fbyte s1 n x" using True i by (simp add: fbyte_def)
    have "fbyte s2 n x = (if off \<le> x mod 4096 \<and> x mod 4096 < off + len then fmem s (a + (x mod 4096 - off)) else fbyte s1 n x)"
      using p(2) [OF x] True c [of "x mod 4096"] bi by simp
    moreover have "b * 4096 + off \<le> x \<and> x < b * 4096 + off + len \<longleftrightarrow> off \<le> x mod 4096 \<and> x mod 4096 < off + len"
      "x - (b * 4096 + off) = x mod 4096 - off" using xe by linarith+
    ultimately show ?thesis using fb [OF x] by simp
  next
    case False
    have nin: "\<not> (b * 4096 + off \<le> x \<and> x < b * 4096 + off + len)"
    proof
      assume "b * 4096 + off \<le> x \<and> x < b * 4096 + off + len"
      then have "b * 4096 \<le> x" "x < Suc b * 4096" using len(3) by simp_all
      then show False using False div_nat_eqI [of 4096 b x] by (simp add: mult.commute)
    qed
    show ?thesis unfolding if_not_P [OF nin] using p(2) [OF x] False fb [OF x] by simp
  qed
  ultimately show "wrote n a (b * 4096 + off) (b * 4096 + off + len) s s2"
    using grows_trans [OF g1 p(1)] i2 D len(1) by (simp add: wrote_def)
  show "b + 1 \<le> dblocks (din_of s2 n)" using D i2 by simp
qed

lemma bytes_from_nth: "k < m \<Longrightarrow> bytes_from f a m ! k = f (a + k)"
  by (simp add: bytes_from_def)

text \<open>The block is one of the device.\<close>

lemma opened_dev:
  assumes "opened n s b i s'"
  shows "dev_ok s'" "i \<noteq> 0" "i < blocks_of (super s')"
proof -
  have g: "grows n s s'" and b: "b < dblocks (din_of s' n)" "i = entry s' (din_of s' n) b" using assms by (auto simp: opened_def)
  show "dev_ok s'" using growsD(1) [OF g] space_invD(1) by blast
  show "i \<noteq> 0" "i < blocks_of (super s')" using file_okD(5) [OF growsD(2) [OF g] b(1)] b(2) used_pos by auto
qed

lemma write_part:
  assumes "sound n s" "b \<le> dblocks (din_of s n)" "b < 1036" "0 < len" "off < 4096" "off + len \<le> 4096"
  shows "\<exists>ret s'. io_part n True b off len a s = Some (ret, s') \<and>
    (ret = 0 \<and> wrote n a (b * 4096 + off) (b * 4096 + off + len) s s' \<and> b + 1 \<le> dblocks (din_of s' n) \<or>
     ret = fail_code E_NO_MEM \<and> wrote n a (b * 4096 + off) (b * 4096 + off) s s' \<and> card (free_blocks s') < 2)"
proof -
  from load_block [OF assms(1-3)] obtain ret i s1 where l: "sfs_bmap_load_nolock n b s = Some ((ret, i), s1)"
    "ret = 0 \<and> opened n s b i s1 \<or> ret = fail_code E_NO_MEM \<and> no_space n s s1" by blast
  show ?thesis
  proof (cases "ret = 0")
    case True
    then have o: "opened n s b i s1" using l(2) by auto
    have m: "fmem s1 = fmem s" using o by (simp add: opened_def)
    have "off + length (bytes_from (fmem s) a len) \<le> 4096" using assms(6) by simp
    then obtain s2 where w: "sfs_wbuf (bytes_from (fmem s) a len) i off s1 = Some (0, s2)" "disk_only s1 s2"
      "blk s2 = (blk s1)(i := overlay off (bytes_from (fmem s) a len) (blk s1 i))"
      using wbuf_ok [OF opened_dev [OF o] assms(5)] by blast
    have "overlay off (bytes_from (fmem s) a len) (blk s1 i) ! k =
        (if off \<le> k \<and> k < off + len then fmem s (a + (k - off)) else blk s1 i ! k)" if "k < 4096" for k
      using overlay_nth [of off "bytes_from (fmem s) a len" "blk s1 i" k] that assms(6)
      by (auto simp: bytes_from_nth)
    then show ?thesis
      using wrote_block [OF o w(2,3) _ assms(4-6) _ assms(2)] l(1) w(1) True m assms(6) by (simp add: io_part_def length_overlay)
  next
    case False
    then have ns: "no_space n s s1" "ret = fail_code E_NO_MEM" using l(2) by auto
    then show ?thesis using False l(1) wrote_nothing [OF ns(1) assms(1)] by (simp add: io_part_def no_space_def)
  qed
qed

lemma write_whole:
  assumes "sound n s" "b \<le> dblocks (din_of s n)" "b < 1036"
  shows "\<exists>ret s'. io_block n True b a s = Some (ret, s') \<and>
    (ret = 0 \<and> wrote n a (b * 4096) (b * 4096 + 4096) s s' \<and> b + 1 \<le> dblocks (din_of s' n) \<or>
     ret = fail_code E_NO_MEM \<and> wrote n a (b * 4096) (b * 4096) s s' \<and> card (free_blocks s') < 2)"
proof -
  from load_block [OF assms] obtain ret i s1 where l: "sfs_bmap_load_nolock n b s = Some ((ret, i), s1)"
    "ret = 0 \<and> opened n s b i s1 \<or> ret = fail_code E_NO_MEM \<and> no_space n s s1" by blast
  show ?thesis
  proof (cases "ret = 0")
    case True
    then have o: "opened n s b i s1" using l(2) by auto
    have m: "fmem s1 = fmem s" using o by (simp add: opened_def)
    have bl: "length (bytes_from (fmem s) a 4096) = 4096" by simp
    obtain s2 where w: "sfs_rwblock_nolock (bytes_from (fmem s) a 4096) i True True s1 = Some ((0, bytes_from (fmem s) a 4096), s2)"
      "disk_only s1 s2" "blk s2 = (blk s1)(i := bytes_from (fmem s) a 4096)"
      using write_block [OF opened_dev(1) [OF o] _ opened_dev(3) [OF o] bl, of True] opened_dev(2) [OF o] by blast
    have "io_block n True b a s = Some (0, s2)"
      using l(1) True m w(1) by (simp add: io_block_def sfs_wblock_def sfs_consts)
    moreover have "wrote n a (b * 4096 + 0) (b * 4096 + 0 + 4096) s s2" "b + 1 \<le> dblocks (din_of s2 n)"
      using wrote_block [OF o w(2,3) bl, of 4096 0 a] assms(2) by (simp_all add: bytes_from_nth)
    ultimately show ?thesis by simp
  next
    case False
    then have ns: "no_space n s s1" "ret = fail_code E_NO_MEM" using l(2) by auto
    then show ?thesis using False l(1) wrote_nothing [OF ns(1) assms(1)] by (simp add: io_block_def no_space_def)
  qed
qed

interpretation wr: block_transfer n True "sound n" "\<lambda>s b. b \<le> dblocks (din_of s n)" "\<lambda>b. b < 1036" "wrote n"
  "\<lambda>s. card (free_blocks s) < 2" for n
proof unfold_locales
  show "wrote n a lo lo s s" if "sound n s" for s a lo
    using that grows_refl [of s n] by (auto simp: wrote_def sound_def)
  show "sound n s'" if "wrote n a lo hi s s'" for a lo hi s s'
    using wroteD(1) [OF that] by (rule grows_sound)
qed (use wrote_trans write_part write_whole in blast)+


section \<open>Reading\<close>

text \<open>\<open>fetched n a lo hi s s'\<close>: bytes \<open>lo\<close> to \<open>hi\<close> of the file are in memory from \<open>a\<close> on, and nothing else changed.\<close>

definition fetched :: "nat \<Rightarrow> nat \<Rightarrow> nat \<Rightarrow> nat \<Rightarrow> sfs_fs \<Rightarrow> sfs_fs \<Rightarrow> bool" where
  "fetched n a lo hi s s' \<longleftrightarrow> sound n s \<and> blk s' = blk s \<and>
     disk_only (s\<lparr>fmem := \<lambda>x. if a \<le> x \<and> x < a + (hi - lo) then fbyte s n (lo + (x - a)) else fmem s x\<rparr>) s'"

lemma fetchedD:
  assumes "fetched n a lo hi s s'"
  shows "sfs_inodes s' = sfs_inodes s" "blk s' = blk s" "fbyte s' = fbyte s" "sound n s'"
    "fmem s' = (\<lambda>x. if a \<le> x \<and> x < a + (hi - lo) then fbyte s n (lo + (x - a)) else fmem s x)"
proof -
  let ?m = "s\<lparr>fmem := \<lambda>x. if a \<le> x \<and> x < a + (hi - lo) then fbyte s n (lo + (x - a)) else fmem s x\<rparr>"
  have d: "disk_only ?m s'" and b: "blk s' = blk s" and g: "sound n s" using assms by (simp_all add: fetched_def)
  show i: "sfs_inodes s' = sfs_inodes s" "blk s' = blk s" using disk_onlyD(4) [OF d] b by simp_all
  have e: "entry s' = entry s" using b by (simp add: entry_def fun_eq_iff)
  then show "fbyte s' = fbyte s" using i by (simp add: fbyte_def fun_eq_iff)
  have "space_inv ?m" using g by (simp add: sound_def space_inv_def dev_ok_def free_blocks_def)
  then have "space_inv s'" using d disk_only_space by blast
  moreover have "used_blocks s' = used_blocks s" using disk_onlyD(1,2) [OF d] by (simp add: used_blocks_def free_blocks_def)
  ultimately show "sound n s'" using g e i by (simp add: sound_def file_ok_def)
  show "fmem s' = (\<lambda>x. if a \<le> x \<and> x < a + (hi - lo) then fbyte s n (lo + (x - a)) else fmem s x)"
    using disk_onlyD(7) [OF d] by simp
qed

lemma fmem_over: "disk_only (s\<lparr>fmem := f\<rparr>) s' \<Longrightarrow> disk_only (s\<lparr>fmem := g\<rparr>) (s'\<lparr>fmem := g\<rparr>)"
proof -
  assume d: "disk_only (s\<lparr>fmem := f\<rparr>) s'"
  then have e: "s' = s\<lparr>fmem := f, sdev := sdev s'\<rparr>" by (simp add: disk_only_def)
  have "s'\<lparr>fmem := g\<rparr> = s\<lparr>fmem := g, sdev := sdev s'\<rparr>" by (subst e) simp
  then show ?thesis using d by (simp add: disk_only_def)
qed

lemma fetched_trans:
  assumes "fetched n a lo mid s s'" "fetched n (a + (mid - lo)) mid hi s' s''" "lo \<le> mid" "mid \<le> hi"
  shows "fetched n a lo hi s s''"
proof -
  note d1 = fetchedD [OF assms(1)] and d2 = fetchedD [OF assms(2)]
  let ?f = "\<lambda>x. if a \<le> x \<and> x < a + (hi - lo) then fbyte s n (lo + (x - a)) else fmem s x"
  have f: "fmem s'' = ?f"
  proof
    fix x
    have "mid + (x - (a + (mid - lo))) = lo + (x - a)" if "a + (mid - lo) \<le> x" using that assms(3) by simp
    moreover have "a + (mid - lo) + (hi - mid) = a + (hi - lo)" using assms(3,4) by simp
    ultimately show "fmem s'' x = ?f x" using assms(3,4) unfolding d2(5) d1(5) d1(3) by auto
  qed
  have "disk_only (s'\<lparr>fmem := ?f\<rparr>) (s''\<lparr>fmem := ?f\<rparr>)"
    using assms(2) by (auto simp: fetched_def intro: fmem_over)
  moreover have "disk_only (s\<lparr>fmem := ?f\<rparr>) (s'\<lparr>fmem := ?f\<rparr>)"
    using assms(1) by (auto simp: fetched_def intro: fmem_over)
  ultimately have "disk_only (s\<lparr>fmem := ?f\<rparr>) (s''\<lparr>fmem := ?f\<rparr>)" using disk_only_trans by blast
  moreover have "s''\<lparr>fmem := ?f\<rparr> = s''" by (simp add: f [symmetric])
  ultimately have "disk_only (s\<lparr>fmem := ?f\<rparr>) s''" by simp
  then show ?thesis using assms(1) d1(2) d2(2) by (simp add: fetched_def)
qed

lemma fetched_bytes:
  assumes "sound n s" "b < dblocks (din_of s n)" "disk_only s s'" "blk s' = blk s" "off + len \<le> 4096" "off < 4096"
  shows "fetched n a (b * 4096 + off) (b * 4096 + off + len) s
    (s'\<lparr>fmem := bytes_to (fmem s') a (take len (drop off (blk s (entry s (din_of s n) b))))\<rparr>)"
proof -
  let ?bs = "take len (drop off (blk s (entry s (din_of s n) b)))"
  have m: "fmem s' = fmem s" using disk_onlyD [OF assms(3)] by simp
  have "bytes_to (fmem s) a ?bs x = (if a \<le> x \<and> x < a + len then fbyte s n (b * 4096 + off + (x - a)) else fmem s x)" for x
  proof (cases "a \<le> x \<and> x < a + len")
    case True
    then have o: "off + (x - a) < 4096" using assms(5) by linarith
    then have "(b * 4096 + (off + (x - a))) div 4096 = b" "(b * 4096 + (off + (x - a))) mod 4096 = off + (x - a)" by simp_all
    moreover have "x - a < len" using True by auto
    then have "?bs ! (x - a) = blk s (entry s (din_of s n) b) ! (off + (x - a))" using o by simp
    ultimately show ?thesis using True assms(5) by (simp only: bytes_to_def fbyte_def add.assoc) simp
  qed (use assms(5) in \<open>auto simp: bytes_to_def\<close>)
  then have "bytes_to (fmem s') a ?bs = (\<lambda>x. if a \<le> x \<and> x < a + (b * 4096 + off + len - (b * 4096 + off))
      then fbyte s n (b * 4096 + off + (x - a)) else fmem s x)" unfolding m add_diff_cancel_left' by (rule ext)
  then show ?thesis
    using assms(1,4) fmem_over [where s = s and f = "fmem s" and s' = s'] assms(3) by (simp add: fetched_def blk_def)
qed

lemma read_part:
  assumes "sound n s" "b < dblocks (din_of s n)" "off < 4096" "off + len \<le> 4096"
  shows "\<exists>s'. io_part n False b off len a s = Some (0, s') \<and> fetched n a (b * 4096 + off) (b * 4096 + off + len) s s'"
proof -
  let ?i = "entry s (din_of s n) b"
  have inv: "space_inv s" and f: "file_ok s (din_of s n)" using assms(1) by (simp_all add: sound_def)
  obtain s1 where l: "sfs_bmap_load_nolock n b s = Some ((0, ?i), s1)" "disk_only s s1" "blk s1 = blk s"
    using bmap_load_old [OF inv f assms(2)] by blast
  have d: "dev_ok s1" "?i \<noteq> 0" "?i < blocks_of (super s1)"
    using disk_onlyD [OF l(2)] space_invD(1) [OF inv] used_pos [OF file_okD(5) [OF f assms(2)]] by simp_all
  obtain s2 where r: "sfs_rbuf len ?i off s1 = Some ((0, take len (drop off (blk s1 ?i))), s2)" "disk_only s1 s2" "blk s2 = blk s1"
    using rbuf_ok [OF d assms(3,4)] by blast
  have "fetched n a (b * 4096 + off) (b * 4096 + off + len) s (s2\<lparr>fmem := bytes_to (fmem s2) a (take len (drop off (blk s ?i)))\<rparr>)"
    using disk_only_trans [OF l(2) r(2)] l(3) r(3) assms by (intro fetched_bytes) simp_all
  then show ?thesis using l(1,3) r(1) by (simp add: io_part_def)
qed

lemma read_whole:
  assumes "sound n s" "b < dblocks (din_of s n)"
  shows "\<exists>s'. io_block n False b a s = Some (0, s') \<and> fetched n a (b * 4096) (b * 4096 + 4096) s s'"
proof -
  let ?i = "entry s (din_of s n) b"
  have inv: "space_inv s" and f: "file_ok s (din_of s n)" using assms(1) by (simp_all add: sound_def)
  obtain s1 where l: "sfs_bmap_load_nolock n b s = Some ((0, ?i), s1)" "disk_only s s1" "blk s1 = blk s"
    using bmap_load_old [OF inv f assms(2)] by blast
  have d: "dev_ok s1" "?i \<noteq> 0 \<or> \<not> True" "?i < blocks_of (super s1)"
    using disk_onlyD [OF l(2)] space_invD(1) [OF inv] used_pos [OF file_okD(5) [OF f assms(2)]] by simp_all
  have bl: "length (bytes_from (fmem s1) a 4096) = 4096" by simp
  obtain s2 where r: "sfs_rwblock_nolock (bytes_from (fmem s1) a 4096) ?i False True s1 = Some ((0, blk s1 ?i), s2)"
    "disk_only s1 s2" "blk s2 = blk s1" using read_block [OF d bl] by blast
  have "fetched n a (b * 4096 + 0) (b * 4096 + 0 + 4096) s (s2\<lparr>fmem := bytes_to (fmem s2) a (take 4096 (drop 0 (blk s ?i)))\<rparr>)"
    using disk_only_trans [OF l(2) r(2)] l(3) r(3) assms by (intro fetched_bytes) simp_all
  then show ?thesis using l(1,3) r(1) by (simp add: io_block_def sfs_rblock_def sfs_consts)
qed

interpretation rd: block_transfer n False "sound n" "\<lambda>s b. D \<le> dblocks (din_of s n)" "\<lambda>b. b < D" "fetched n" "\<lambda>s. False" for n D
proof unfold_locales
  show "fetched n a lo lo s s" if "sound n s" for s a lo
  proof -
    have "disk_only s s" using that space_invD(1) [of s] by (simp add: sound_def disk_only_def same_disk_def dev_ok_def)
    moreover have "(\<lambda>x. if a \<le> x \<and> x < a + (lo - lo) then fbyte s n (lo + (x - a)) else fmem s x) = fmem s" by (rule ext) auto
    then have "s\<lparr>fmem := \<lambda>x. if a \<le> x \<and> x < a + (lo - lo) then fbyte s n (lo + (x - a)) else fmem s x\<rparr> = s" by simp
    ultimately show ?thesis using that by (simp add: fetched_def)
  qed
  show "sound n s'" if "fetched n a lo hi s s'" for a lo hi s s'
    using fetchedD(4) [OF that] .
  show "\<exists>ret s'. io_part n False b off len a s = Some (ret, s') \<and>
      (ret = 0 \<and> fetched n a (b * 4096 + off) (b * 4096 + off + len) s s' \<and> D \<le> dblocks (din_of s' n) \<or>
       ret = fail_code E_NO_MEM \<and> fetched n a (b * 4096 + off) (b * 4096 + off) s s' \<and> False)"
    if "sound n s" "D \<le> dblocks (din_of s n)" "b < D" "0 < len" "off < 4096" "off + len \<le> 4096" for s b len off a
    using read_part [OF that(1) _ that(5,6), of b a] that(2,3) fetchedD(1) [of n] by fastforce
  show "\<exists>ret s'. io_block n False b a s = Some (ret, s') \<and>
      (ret = 0 \<and> fetched n a (b * 4096) (b * 4096 + 4096) s s' \<and> D \<le> dblocks (din_of s' n) \<or>
       ret = fail_code E_NO_MEM \<and> fetched n a (b * 4096) (b * 4096) s s' \<and> False)"
    if "sound n s" "D \<le> dblocks (din_of s n)" "b < D" for s b a
    using read_whole [OF that(1), of b a] that(2,3) fetchedD(1) [of n] by fastforce
qed (use fetched_trans in blast)

end
