(* ===== verification/Sfs_Bytes.thy ===== *)
theory Sfs_Bytes
  imports Sfs_Io
begin

text \<open>
  The contract of \<^verbatim>\<open>sfs_io_nolock\<close> and \<^verbatim>\<open>sfs_bmap_truncate_nolock\<close> (\<^verbatim>\<open>kern/fs/sfs/sfs_inode.c\<close>).
  \<open>contents s n\<close> is what the file of inode \<open>n\<close> holds.
\<close>

definition contents :: "sfs_fs \<Rightarrow> nat \<Rightarrow> u8 list" where
  "contents s n = map (fbyte s n) [0..<unat (dsize (din_of s n))]"

definition sized :: "sfs_disk_inode \<Rightarrow> bool" where
  "sized d \<longleftrightarrow> unat (dsize d) \<le> 4096 * dblocks d"

definition max_bytes :: nat where "max_bytes = 1036 * 4096"

lemma length_contents [simp]: "length (contents s n) = unat (dsize (din_of s n))"
  by (simp add: contents_def)

lemma contents_nth: "x < unat (dsize (din_of s n)) \<Longrightarrow> contents s n ! x = fbyte s n x"
  by (simp add: contents_def)

lemma size_small: "sound n s \<Longrightarrow> sized (din_of s n) \<Longrightarrow> unat (dsize (din_of s n)) \<le> max_bytes"
  using file_okD(2) [of s "din_of s n"] by (simp add: sound_def sized_def max_bytes_def)

lemma offsets:
  assumes "x \<le> 2 * max_bytes"
  shows "unat (of_nat x :: u32) = x" "sint (of_nat x :: u32) = int x"
proof -
  have x: "x < 2 ^ 31" using assms by (simp add: max_bytes_def)
  then show u: "unat (of_nat x :: u32) = x" by (simp only: unsigned_of_nat) (simp add: take_bit_nat_eq_self)
  show "sint (of_nat x :: u32) = int x"
    using x by (simp add: signed_of_nat signed_take_bit_int_eq_self)
qed

text \<open>The size is set after the transfer.\<close>

lemma set_size:
  "space_inv (mark_dirty n (mod_din n (\<lambda>d. d\<lparr>dsize := z\<rparr>) s)) = space_inv s"
  "fbyte (mark_dirty n (mod_din n (\<lambda>d. d\<lparr>dsize := z\<rparr>) s)) n = fbyte s n"
  "sound n (mark_dirty n (mod_din n (\<lambda>d. d\<lparr>dsize := z\<rparr>) s)) = sound n s"
  "own (mark_dirty n (mod_din n (\<lambda>d. d\<lparr>dsize := z\<rparr>) s)) (d\<lparr>dsize := z\<rparr>) = own s d"
proof -
  have e: "entry s (d\<lparr>dsize := z\<rparr>) = entry s d" for d s by (simp add: entry_def fun_eq_iff)
  show "space_inv (mark_dirty n (mod_din n (\<lambda>d. d\<lparr>dsize := z\<rparr>) s)) = space_inv s"
    "fbyte (mark_dirty n (mod_din n (\<lambda>d. d\<lparr>dsize := z\<rparr>) s)) n = fbyte s n"
    "sound n (mark_dirty n (mod_din n (\<lambda>d. d\<lparr>dsize := z\<rparr>) s)) = sound n s"
    "own (mark_dirty n (mod_din n (\<lambda>d. d\<lparr>dsize := z\<rparr>) s)) (d\<lparr>dsize := z\<rparr>) = own s d"
    by (simp_all add: mark_dirty_def mod_din_def mark_simps fbyte_def e fun_eq_iff sound_def file_ok_def own_def)
qed

lemma write_steps:
  assumes "sound n s" "sized (din_of s n)" "o' \<le> unat (dsize (din_of s n))" "o' < e" "e \<le> max_bytes"
  shows "\<exists>ret k s'. io_steps n True a o' e s = Some ((ret, k), s') \<and> o' + k \<le> e \<and> wrote n a o' (o' + k) s s' \<and>
    (ret = 0 \<and> o' + k = e \<or> ret = fail_code E_NO_MEM \<and> card (free_blocks s') < 2)"
proof -
  have "o' \<le> 4096 * dblocks (din_of s n)" using assms(2,3) by (simp add: sized_def)
  then have "o' div 4096 \<le> dblocks (din_of s n)" using div_le_mono [of o' "4096 * dblocks (din_of s n)" 4096] by simp
  moreover have "x < 1036" if "x * 4096 < e" for x using that assms(5) by (simp add: max_bytes_def)
  ultimately obtain ret k s' where "io_steps n True a o' e s = Some ((ret, k), s')"
    "block_transfer.moved (wrote n) (\<lambda>s. card (free_blocks s) < 2) a o' e ret k s s'"
    using wr.steps [of n s o' e a] assms(1,4) by blast
  then show ?thesis by (auto simp: wr.moved_def)
qed

lemma read_steps:
  assumes "sound n s" "o' < e" "e \<le> 4096 * dblocks (din_of s n)"
  shows "\<exists>s'. io_steps n False a o' e s = Some ((0, e - o'), s') \<and> fetched n a o' e s s'"
proof -
  have "x < dblocks (din_of s n)" if "x * 4096 < e" for x using that assms(3) by linarith
  then obtain ret k s' where r: "io_steps n False a o' e s = Some ((ret, k), s')"
    "block_transfer.moved (fetched n) (\<lambda>s. False) a o' e ret k s s'"
    using rd.steps [of n s "dblocks (din_of s n)" o' e a] assms(1,2) by blast
  then have "ret = 0" "o' + k = e" "fetched n a o' (o' + k) s s'" by (auto simp: rd.moved_def)
  then show ?thesis using r(1) by auto
qed


text \<open>
  What a change of the file \<open>n\<close> leaves alone: the other inodes, and every block that was neither free
  nor of this file; blocks only pass between the file and the free map.
\<close>

definition others_kept :: "nat \<Rightarrow> sfs_fs \<Rightarrow> sfs_fs \<Rightarrow> bool" where
  "others_kept n s s' \<longleftrightarrow> (\<forall>m. m \<noteq> n \<longrightarrow> sfs_inodes s' m = sfs_inodes s m) \<and>
     own s' (din_of s' n) \<union> free_blocks s' = own s (din_of s n) \<union> free_blocks s \<and>
     (\<forall>b. b \<notin> free_blocks s \<longrightarrow> b \<notin> own s (din_of s n) \<longrightarrow> blk s' b = blk s b) \<and>
     blocks_of (super s') = blocks_of (super s)"

lemma written_contents:
  assumes w: "wrote n a o' (o' + k) s s1" and fb: "fbyte s' n = fbyte s1 n" "dblocks (din_of s' n) = dblocks (din_of s1 n)"
    and sz: "sized (din_of s n)" "o' \<le> unat (dsize (din_of s n))" "sized (din_of s' n)"
    and d: "unat (dsize (din_of s' n)) = max (unat (dsize (din_of s n))) (o' + k)"
  shows "contents s' n = take o' (contents s n) @ bytes_from (fmem s) a k @ drop (o' + k) (contents s n)"
proof (rule nth_equalityI)
  let ?r = "take o' (contents s n) @ bytes_from (fmem s) a k @ drop (o' + k) (contents s n)"
  show l: "length (contents s' n) = length ?r" using d sz(2) by (simp add: max_def)
  fix x assume "x < length (contents s' n)"
  then have x: "x < unat (dsize (din_of s' n))" "x < 4096 * dblocks (din_of s1 n)" using sz(3) fb(2) by (simp_all add: sized_def)
  have old: "x < unat (dsize (din_of s n)) \<Longrightarrow> x < 4096 * dblocks (din_of s n)" using sz(1) by (simp add: sized_def)
  have "fbyte s1 n x = ?r ! x"
  proof (cases "o' \<le> x \<and> x < o' + k")
    case True
    then have "x - o' < k" by auto
    then show ?thesis using True wroteD(4) [OF w x(2) True] sz(2) by (simp add: nth_append bytes_from_nth)
  next
    case False
    then have "x < unat (dsize (din_of s n))" using x(1) d sz(2) by auto
    then show ?thesis using wroteD(3) [OF w x(2) False] old False sz(2) by (auto simp: nth_append contents_nth)
  qed
  then show "contents s' n ! x = ?r ! x" using x(1) fb(1) by (simp add: contents_nth)
qed

lemma io_write_eq:
  assumes "dtype (din_of s n) \<noteq> SFS_TYPE_DIR" "0 < m" "o' + m \<le> max_bytes"
    "io_steps n True a o' (o' + m) s = Some ((ret, k), s')" "k \<le> m"
  shows "sfs_io_nolock n a (of_nat o') (of_nat m) True s = Some ((ret, k),
    if unat (dsize (din_of s' n)) < o' + k then mark_dirty n (mod_din n (\<lambda>d. d\<lparr>dsize := of_nat (o' + k)\<rparr>) s') else s')"
proof -
  have mb: "max_bytes = 4243456" by (simp add: max_bytes_def)
  have o: "unat (of_nat o' :: u32) = o'" "sint (of_nat o' :: u32) = int o'" using offsets [of o'] assms(3) by simp_all
  have e: "(of_nat o' + of_nat m :: u32) = of_nat (o' + m)" "(of_nat o' + of_nat k :: u32) = of_nat (o' + k)" by simp_all
  have oe: "unat (of_nat (o' + m) :: u32) = o' + m" "sint (of_nat (o' + m) :: u32) = int (o' + m)"
    "unat (of_nat (o' + k) :: u32) = o' + k"
    using offsets [of "o' + m"] offsets [of "o' + k"] assms(3,5) by simp_all
  have ne: "(of_nat o' :: u32) \<noteq> of_nat (o' + m)" using o oe assms(2) by (metis add_cancel_left_right less_irrefl)
  have le: "\<not> (of_nat (o' + m) > SFS_MAX_FILE_SIZE)" "\<not> (of_nat o' \<ge> SFS_MAX_FILE_SIZE)"
    using o oe assms(3) by (simp_all add: word_less_nat_alt word_le_nat_alt SFS_MAX_FILE_SIZE_def mb)
  have r: "io_steps n True a (unat (of_nat o' :: u32)) (unat (of_nat (o' + m) :: u32)) s = Some ((ret, k), s')"
    unfolding o oe using assms(4) .
  have gt: "(dsize (din_of s' n) < of_nat (o' + k)) = (unat (dsize (din_of s' n)) < o' + k)" using oe by (simp add: word_less_nat_alt)
  show ?thesis
    unfolding sfs_io_nolock_def e Let_def using assms(1) ne le r gt o(2) oe(2) by (simp add: e(2) del: of_nat_add)
qed

text \<open>A write takes a block for every 4096 bytes and at most one for the entries.\<close>

lemma wrote_takes:
  assumes w: "wrote n a o' (o' + k) s s'" and sn: "sound n s" and o: "o' \<le> 4096 * dblocks (din_of s n)"
  shows "card (free_blocks s) \<le> card (free_blocks s') + (k + 4095) div 4096 + 1"
proof -
  let ?d = "din_of s n" and ?d' = "din_of s' n"
  note g = growsD [OF wroteD(1) [OF w]]
  have f: "file_ok s ?d" using sn by (simp add: sound_def)
  have "free_blocks s - free_blocks s' \<subseteq> own s' ?d' - own s ?d" using g(10) own_not_free [OF f] by auto
  also have "\<dots> \<subseteq> insert (indirect ?d') (entry s' ?d' ` {dblocks ?d..<dblocks ?d'})"
  proof
    fix x assume x: "x \<in> own s' ?d' - own s ?d"
    show "x \<in> insert (indirect ?d') (entry s' ?d' ` {dblocks ?d..<dblocks ?d'})"
    proof (cases "x = indirect ?d'")
      case False
      then obtain i where i: "i < dblocks ?d'" "x = entry s' ?d' i" using x by (auto simp: own_def split: if_splits)
      have "\<not> i < dblocks ?d" using x i(2) g(11) [of i] by (auto simp: own_def)
      then show ?thesis using i by auto
    qed simp
  qed
  finally have "card (free_blocks s - free_blocks s') \<le> card (insert (indirect ?d') (entry s' ?d' ` {dblocks ?d..<dblocks ?d'}))"
    by (intro card_mono) simp_all
  also have "\<dots> \<le> Suc (card (entry s' ?d' ` {dblocks ?d..<dblocks ?d'}))" by (simp add: card_insert_if)
  also have "card (entry s' ?d' ` {dblocks ?d..<dblocks ?d'}) \<le> dblocks ?d' - dblocks ?d" using card_image_le [of "{dblocks ?d..<dblocks ?d'}"] by simp
  also have "dblocks ?d' - dblocks ?d \<le> (k + 4095) div 4096"
  proof -
    have "(o' + k + 4095) div 4096 \<le> (dblocks ?d * 4096 + (k + 4095)) div 4096" using o by (intro div_le_mono) simp
    also have "\<dots> = dblocks ?d + (k + 4095) div 4096" by simp
    finally show ?thesis using w by (auto simp: wrote_def split: if_splits)
  qed
  finally have "card (free_blocks s - free_blocks s') \<le> Suc ((k + 4095) div 4096)" by simp
  moreover have "card (free_blocks s) = card (free_blocks s') + card (free_blocks s - free_blocks s')"
  proof -
    have fin: "finite (free_blocks s)" using space_invD(6) sn by (simp add: sound_def)
    have "free_blocks s = free_blocks s' \<union> (free_blocks s - free_blocks s')" using g(9) by blast
    then show ?thesis
      using card_Un_disjoint [of "free_blocks s'" "free_blocks s - free_blocks s'"] fin finite_subset [OF g(9) fin] by auto
  qed
  ultimately show ?thesis by simp
qed

lemma io_write_ok:
  assumes "sound n s" "sized (din_of s n)" "dtype (din_of s n) \<noteq> SFS_TYPE_DIR"
    "o' \<le> unat (dsize (din_of s n))" "o' + m \<le> max_bytes"
  shows "\<exists>ret k s'. sfs_io_nolock n a (of_nat o') (of_nat m) True s = Some ((ret, k), s') \<and>
    (ret = 0 \<and> k = m \<or> ret = fail_code E_NO_MEM \<and> k \<le> m \<and> card (free_blocks s) < (m + 4095) div 4096 + 3) \<and>
    contents s' n = take o' (contents s n) @ bytes_from (fmem s) a k @ drop (o' + k) (contents s n) \<and>
    sound n s' \<and> sized (din_of s' n) \<and> dtype (din_of s' n) = dtype (din_of s n) \<and> others_kept n s s'"
proof (cases "m = 0")
  case True
  have o: "sint (of_nat o' :: u32) = int o'" "unat (of_nat o' :: u32) = o'" using offsets [of o'] assms(5) by simp_all
  have "\<not> SFS_MAX_FILE_SIZE \<le> (of_nat o' :: u32)"
    using o assms(5) by (simp add: word_le_nat_alt SFS_MAX_FILE_SIZE_def max_bytes_def)
  then have "sfs_io_nolock n a (of_nat o') (of_nat m) True s = Some ((0, 0), s)"
    using True assms(3) o by (simp add: sfs_io_nolock_def)
  then show ?thesis using True assms(1,2,4) by (auto simp: others_kept_def bytes_from_def)
next
  case False
  then have m: "0 < m" "o' < o' + m" by simp_all
  from write_steps [OF assms(1,2,4) m(2) assms(5), of a] obtain ret k s1 where
    st: "io_steps n True a o' (o' + m) s = Some ((ret, k), s1)" and k: "k \<le> m" and w: "wrote n a o' (o' + k) s s1"
    and rt: "ret = 0 \<and> k = m \<or> ret = fail_code E_NO_MEM \<and> card (free_blocks s1) < 2" by auto
  define s' where "s' = (if unat (dsize (din_of s1 n)) < o' + k then mark_dirty n (mod_din n (\<lambda>d. d\<lparr>dsize := of_nat (o' + k)\<rparr>) s1) else s1)"
  note g = growsD [OF wroteD(1) [OF w]]
  have "o' \<le> 4096 * dblocks (din_of s n)" using assms(2,4) by (simp add: sized_def)
  moreover have "(k + 4095) div 4096 \<le> (m + 4095) div 4096" using k by (intro div_le_mono) simp
  ultimately have rm: "card (free_blocks s1) < 2 \<Longrightarrow> card (free_blocks s) < (m + 4095) div 4096 + 3"
    using wrote_takes [OF w assms(1)] by linarith
  have zk: "unat (of_nat (o' + k) :: u32) = o' + k" using offsets [of "o' + k"] k assms(5) by simp
  have d: "unat (dsize (din_of s' n)) = max (unat (dsize (din_of s n))) (o' + k)" "dblocks (din_of s' n) = dblocks (din_of s1 n)"
    using zk g(5) by (auto simp: s'_def mark_dirty_def mod_din_def mark_simps simp del: of_nat_add)
  have fb: "fbyte s' n = fbyte s1 n" "free_blocks s' = free_blocks s1" "blk s' = blk s1" "fmem s' = fmem s"
    using set_size(2) wroteD(2) [OF w] by (simp_all add: s'_def mark_dirty_def mod_din_def mark_simps)
  have bs: "blocks_of (super s') = blocks_of (super s)"
    using g(3) by (simp add: s'_def mark_dirty_def mod_din_def mark_simps)
  have ty: "dtype (din_of s' n) = dtype (din_of s n)"
    using g(6) by (simp add: s'_def mark_dirty_def mod_din_def mark_simps)
  have sn: "sound n s'" using set_size(3) grows_sound [OF wroteD(1) [OF w]] by (simp add: s'_def)
  have ow: "own s' (din_of s' n) = own s1 (din_of s1 n)"
    using set_size(4) by (simp add: s'_def mark_dirty_def mod_din_def mark_simps)
  have sz: "sized (din_of s' n)"
  proof -
    have "unat (dsize (din_of s n)) \<le> 4096 * dblocks (din_of s1 n)"
      by (rule order_trans [OF assms(2) [unfolded sized_def]]) (simp add: g(8))
    moreover have "0 < k \<Longrightarrow> o' + k \<le> 4096 * dblocks (din_of s1 n)" using wrote_room [OF w] by simp
    ultimately show ?thesis using d assms(4) by (cases "k = 0") (simp_all add: sized_def)
  qed
  have "sfs_inodes s' x = sfs_inodes s x" if "x \<noteq> n" for x
    using g(4) [OF that] that by (simp add: s'_def mark_dirty_def mod_din_def mark_simps)
  moreover have "own s' (din_of s' n) \<union> free_blocks s' = own s (din_of s n) \<union> free_blocks s"
    unfolding ow fb(2) g(10) using g(9) by blast
  ultimately have ok: "others_kept n s s'"
    unfolding others_kept_def fb(3) using g(12) bs by simp
  then show ?thesis
    using io_write_eq [OF assms(3) m(1) assms(5) st k, folded s'_def] rt rm k sn sz fb(2) ok ty
      written_contents [OF w fb(1) d(2) assms(2,4) sz d(1)] by (intro exI [of _ ret] exI [of _ k] exI [of _ s']) auto
qed


lemma io_read_ok:
  assumes "sound n s" "sized (din_of s n)" "dtype (din_of s n) \<noteq> SFS_TYPE_DIR" "o' \<le> max_bytes" "m \<le> max_bytes"
  shows "\<exists>s'. sfs_io_nolock n a (of_nat o') (of_nat m) False s = Some ((0, length (take m (drop o' (contents s n)))), s') \<and>
    fmem s' = bytes_to (fmem s) a (take m (drop o' (contents s n))) \<and> sfs_inodes s' = sfs_inodes s \<and> blk s' = blk s \<and>
    free_blocks s' = free_blocks s \<and> contents s' n = contents s n"
proof -
  let ?z = "dsize (din_of s n)"
  have mb: "max_bytes = 4243456" by (simp add: max_bytes_def)
  have o: "unat (of_nat o' :: u32) = o'" "sint (of_nat o' :: u32) = int o'" using offsets [of o'] assms(4) by simp_all
  have e: "(of_nat o' + of_nat m :: u32) = of_nat (o' + m)" by simp
  have oe: "unat (of_nat (o' + m) :: u32) = o' + m" "sint (of_nat (o' + m) :: u32) = int (o' + m)"
    using offsets [of "o' + m"] assms(4,5) by simp_all
  have le: "\<not> (of_nat (o' + m) > SFS_MAX_FILE_SIZE)" "\<not> (of_nat o' \<ge> SFS_MAX_FILE_SIZE)"
    using o oe assms(4,5) by (simp_all add: word_less_nat_alt word_le_nat_alt SFS_MAX_FILE_SIZE_def mb)
  have none: ?thesis if "m = 0 \<or> unat ?z \<le> o'"
  proof -
    have "((of_nat o' :: u32) = of_nat (o' + m)) = (m = 0)" using o oe by (metis add_cancel_left_right)
    moreover have "((of_nat o' :: u32) \<ge> ?z) = (unat ?z \<le> o')" using o by (simp add: word_le_nat_alt)
    ultimately have "sfs_io_nolock n a (of_nat o') (of_nat m) False s = Some ((0, 0), s)"
      unfolding sfs_io_nolock_def e Let_def using assms(3) le o(2) oe(2) that
      by (cases "m = 0") (simp_all del: of_nat_add)
    moreover have "take m (drop o' (contents s n)) = []" using that by auto
    ultimately show ?thesis by (auto simp: bytes_to_def fun_eq_iff)
  qed
  show ?thesis
  proof (cases "m = 0 \<or> unat ?z \<le> o'")
    case False
    define fin where "fin = min (o' + m) (unat ?z)"
    have f: "o' < fin" "fin \<le> 4096 * dblocks (din_of s n)" using False assms(2) by (auto simp: fin_def sized_def)
    obtain s' where st: "io_steps n False a o' fin s = Some ((0, fin - o'), s')" and w: "fetched n a o' fin s s'"
      using read_steps [OF assms(1) f, of a] by blast
    note d = fetchedD [OF w]
    have ne: "(of_nat o' :: u32) \<noteq> of_nat (o' + m)" "\<not> (of_nat o' :: u32) \<ge> ?z"
      using o oe False by (metis add_cancel_left_right, simp add: word_le_nat_alt)
    have fe: "of_nat (o' + m) > ?z \<Longrightarrow> unat ?z = fin" "\<not> of_nat (o' + m) > ?z \<Longrightarrow> unat (of_nat (o' + m) :: u32) = fin"
      using oe by (auto simp: word_less_nat_alt fin_def)
    have su: "of_nat o' + of_nat (fin - o') = (of_nat fin :: u32)" "unat (of_nat fin :: u32) = fin"
      using f(1) offsets [of fin] assms(4,5) by (simp_all add: of_nat_diff fin_def)
    have gt: "\<not> (of_nat fin > ?z)" using su(2) by (simp add: word_less_nat_alt fin_def)
    have r: "sfs_io_nolock n a (of_nat o') (of_nat m) False s = Some ((0, fin - o'), s')"
      unfolding sfs_io_nolock_def e Let_def using assms(3) le ne o oe(2) st gt d(1)
      by (cases "of_nat (o' + m) > ?z") (simp_all add: su(1) fe del: of_nat_add)
    let ?bs = "take m (drop o' (contents s n))"
    have l: "length ?bs = fin - o'" by (auto simp: fin_def min_def)
    have "fmem s' = bytes_to (fmem s) a ?bs"
    proof
      fix x
      show "fmem s' x = bytes_to (fmem s) a ?bs x"
      proof (cases "a \<le> x \<and> x < a + (fin - o')")
        case True
        then have k: "x - a < length ?bs" "o' + (x - a) < unat ?z" unfolding l by (auto simp: fin_def)
        then have "?bs ! (x - a) = fbyte s n (o' + (x - a))" by (simp add: contents_nth)
        then show ?thesis using True unfolding d(5) bytes_to_def l by simp
      next
        case False
        show ?thesis unfolding d(5) bytes_to_def l if_not_P [OF False] ..
      qed
    qed
    moreover have "free_blocks s' = free_blocks s"
      using w disk_onlyD(2) by (fastforce simp: fetched_def free_blocks_def)
    ultimately show ?thesis using r d(1-3) l by (simp add: contents_def)
  qed (rule none)
qed

section \<open>Files apart\<close>

text \<open>A set of files: each one sound, no block in two of them.\<close>

definition files_ok :: "nat set \<Rightarrow> sfs_fs \<Rightarrow> bool" where
  "files_ok L s \<longleftrightarrow> (\<forall>n\<in>L. sound n s \<and> sized (din_of s n)) \<and>
     (\<forall>n\<in>L. \<forall>m\<in>L. n \<noteq> m \<longrightarrow> own s (din_of s n) \<inter> own s (din_of s m) = {})"

lemma kept_file:
  assumes "others_kept n s s'" "space_inv s'" "sound m s" "m \<noteq> n" "own s (din_of s m) \<inter> own s (din_of s n) = {}"
    "sized (din_of s m)"
  shows "sound m s'" "contents s' m = contents s m" "own s' (din_of s' m) = own s (din_of s m)" "din_of s' m = din_of s m"
proof -
  let ?d = "din_of s m"
  have f: "file_ok s ?d" using assms(3) by (simp add: sound_def)
  show i: "din_of s' m = ?d" using assms(1,4) by (simp add: others_kept_def)
  have b: "blk s' x = blk s x" if "x \<in> own s ?d" for x
    using assms(1,5) that own_not_free [OF f] unfolding others_kept_def by blast
  have "blk s' (indirect ?d) = blk s (indirect ?d)" if "indirect ?d \<noteq> 0" using b that by (simp add: own_def)
  note c = file_ok_cong [OF f this]
  have "own s ?d \<inter> free_blocks s' = {}" "blocks_of (super s') = blocks_of (super s)"
    using assms(1,5) own_not_free [OF f] unfolding others_kept_def by blast+
  then have "own s ?d \<subseteq> used_blocks s'" using own_used [OF f] by (auto simp: used_blocks_def)
  note c = c [OF _ this, simplified]
  show "sound m s'" "own s' (din_of s' m) = own s ?d" using c(1,3) assms(2) i by (simp_all add: sound_def)
  show "contents s' m = contents s m"
  proof -
    have "fbyte s' m x = fbyte s m x" if "x < 4096 * dblocks ?d" for x
      using that b [of "entry s ?d (x div 4096)"] c(2) i by (simp add: fbyte_def own_def block_of_byte)
    then show ?thesis using i assms(6) by (simp add: contents_def sized_def)
  qed
qed


lemma files_kept:
  assumes "files_ok L s" "n \<in> L" "sound n s'" "sized (din_of s' n)" "others_kept n s s'"
  shows "files_ok L s'" "m \<in> L \<Longrightarrow> m \<noteq> n \<Longrightarrow> contents s' m = contents s m"
proof -
  have sn: "sound m s" "sized (din_of s m)" if "m \<in> L" for m using assms(1) that by (simp_all add: files_ok_def)
  have ap: "own s (din_of s m) \<inter> own s (din_of s k) = {}" if "m \<in> L" "k \<in> L" "m \<noteq> k" for m k
    using assms(1) that by (simp add: files_ok_def)
  have inv: "space_inv s'" using assms(3) by (simp add: sound_def)
  note k = kept_file [OF assms(5) inv sn(1) _ ap [OF _ assms(2)] sn(2)]
  show "contents s' m = contents s m" if "m \<in> L" "m \<noteq> n" using k(2) that by blast
  have o: "own s' (din_of s' n) \<subseteq> own s (din_of s n) \<union> free_blocks s"
    using assms(5) by (auto simp: others_kept_def)
  have apart: "own s' (din_of s' m) \<inter> own s' (din_of s' n) = {}" if "m \<in> L" "m \<noteq> n" for m
  proof -
    have "own s (din_of s m) \<inter> free_blocks s = {}" using own_not_free sn(1) [OF that(1)] by (simp add: sound_def)
    moreover have "own s' (din_of s' m) = own s (din_of s m)" using k(3) that by blast
    moreover note ap [OF that(1) assms(2) that(2)]
    ultimately show ?thesis using o by blast
  qed
  have "sound m s' \<and> sized (din_of s' m)" if "m \<in> L" for m
    using k(1,4) that assms(3,4) sn(2) by (cases "m = n") auto
  moreover have "own s' (din_of s' m) \<inter> own s' (din_of s' x) = {}" if "m \<in> L" "x \<in> L" "m \<noteq> x" for m x
  proof (cases "m = n \<or> x = n")
    case True
    then show ?thesis using apart [of m] apart [of x] that by blast
  next
    case False
    then have "own s' (din_of s' m) = own s (din_of s m)" "own s' (din_of s' x) = own s (din_of s x)" using k(3) that by blast+
    then show ?thesis using ap [OF that] by simp
  qed
  ultimately show "files_ok L s'" by (simp add: files_ok_def)
qed

section \<open>Properties\<close>

text \<open>A small file system: 32 blocks, of which 3 to 10 are free; inode 5 is an empty file.\<close>

definition small_fs :: sfs_fs where
  "small_fs = \<lparr>super = \<lparr>magic = SFS_MAGIC, blocks_of = 32, unused_blocks = 8, info = replicate 32 0\<rparr>,
     sdev = \<lparr>ide_devices = \<lambda>i. \<lparr>dvalid = i = 2, sects = 256, has_ops = i = 2, ram = \<lambda>x. 0\<rparr>, d_blocks = 32, d_blocksize = 4096,
       disk0_buffer = bytes_from (\<lambda>x. 0) 0 16384\<rparr>,
     freemap = \<lparr>nbits = 32, nwords = 1, wmap = [0x7F8]\<rparr>, super_dirty = False,
     sfs_inodes = \<lambda>n. \<lparr>din = \<lparr>dsize = 0, dtype = 1, nlinks = 1, dblocks = 0, direct = replicate 12 0, indirect = 0\<rparr>,
       ino = 2, dirty = False, reclaim_count = 1\<rparr>,
     inode_list = [5], hash_list = \<lambda>i. [], fmem = \<lambda>x. of_nat x, fheap = \<lparr>kans = [], kout = 0\<rparr>, node_ans = []\<rparr>"


lemma one_word:
  assumes "nbits (freemap s) = 32" "wmap (freemap s) = [w]"
  shows "free_blocks s = {i. i < 32 \<and> bit w i}"
  by (auto simp: free_blocks_def free_nos_def assms)

lemma small_free: "free_blocks small_fs = {3..<11}"
proof -
  have b: "bit (0x7F8 :: u32) i \<longleftrightarrow> 3 \<le> i \<and> i < 11" for i
  proof -
    have "(0x7F8 :: u32) = push_bit 3 (mask 8)" by (simp add: mask_eq_exp_minus_1)
    then have "bit (0x7F8 :: u32) i \<longleftrightarrow> 3 \<le> i \<and> i < 32 \<and> i - 3 < 8"
      by (simp only: bit_push_bit_iff bit_mask_iff) auto
    then show ?thesis by auto
  qed
  have "free_blocks small_fs = {i. i < 32 \<and> bit (0x7F8 :: u32) i}"
    by (rule one_word) (simp_all only: small_fs_def sfs_fs.simps bitmap.simps)
  then show ?thesis
    unfolding b set_eq_iff mem_Collect_eq atLeastLessThan_iff by (intro allI iffI conjI) simp_all
qed

lemma small_ok: "sound n small_fs" "sized (din_of small_fs n)" "files_ok {5, 6} small_fs"
proof -
  have "bitmap_ok (freemap small_fs)" by (simp add: bitmap_ok_def small_fs_def)
  moreover have "dev_ok small_fs" by (simp add: dev_ok_def disk_ok_def small_fs_def disk_consts)
  ultimately have "space_inv small_fs"
    unfolding space_inv_def small_free by (simp add: small_fs_def)
  moreover have "direct (din_of small_fs n) ! i = 0" if "i < 12" for i n using that by (simp add: small_fs_def)
  then have f: "file_ok small_fs (din_of small_fs n)" for n by (simp add: file_ok_def entry_def) (simp add: small_fs_def)
  ultimately have sn: "sound n small_fs" for n by (simp add: sound_def)
  have sz: "sized (din_of small_fs n)" for n by (simp add: sized_def small_fs_def)
  have "own small_fs (din_of small_fs n) = {}" for n by (simp add: own_def) (simp add: small_fs_def)
  then show "files_ok {5, 6} small_fs" using sn sz by (simp add: files_ok_def)
  show "sound n small_fs" "sized (din_of small_fs n)" by (rule sn, rule sz)
qed

lemma small_vals: "dtype (din_of small_fs n) = 1" "dsize (din_of small_fs n) = 0"
  by (simp_all add: small_fs_def)

lemma small_hyps:
  "dtype (din_of small_fs 5) \<noteq> SFS_TYPE_DIR" "0 \<le> unat (dsize (din_of small_fs 5))" "0 + 9000 \<le> max_bytes"
  by (simp_all add: small_vals SFS_TYPE_DIR_def max_bytes_def)

lemma small_write: "\<exists>s'. sfs_io_nolock 5 65 (of_nat 0) (of_nat 9000) True small_fs = Some ((0, 9000), s')"
  using io_write_ok [OF small_ok(1,2) small_hyps, of 65] unfolding small_free by auto

text \<open>
  C29. A write of \<open>m\<close> bytes to a regular file, at an offset within it and up to an end of at most
  \<open>12 + 1024\<close> blocks, what its block map can hold (beyond that the source reads an unset variable),
  returns; the file then holds its old bytes with the first \<open>k\<close> of the written ones in place,
  \<open>k = m\<close> when the code is 0.  Under these conditions the only other code is \<^verbatim>\<open>-E_NO_MEM\<close>, and never when the
  device has three free blocks more than the \<open>m\<close> bytes fill.  Blocks of other files and their inodes
  are untouched; every block that leaves the free map becomes one of this file, and none is lost.
\<close>

theorem sfs_write_exact:
  assumes "sound n s" "sized (din_of s n)" "dtype (din_of s n) \<noteq> SFS_TYPE_DIR"
    "o' \<le> unat (dsize (din_of s n))" "o' + m \<le> max_bytes"
  shows "\<exists>ret k s'. sfs_io_nolock n a (of_nat o') (of_nat m) True s = Some ((ret, k), s') \<and>
    (ret = 0 \<and> k = m \<or> ret = fail_code E_NO_MEM \<and> k \<le> m \<and> card (free_blocks s) < (m + 4095) div 4096 + 3) \<and>
    contents s' n = take o' (contents s n) @ bytes_from (fmem s) a k @ drop (o' + k) (contents s n) \<and>
    sound n s' \<and> sized (din_of s' n) \<and> others_kept n s s'"
  using io_write_ok [OF assms, of a] by blast

theorem sfs_write_exact_witness:
  "\<exists>s'. sfs_io_nolock 5 65 0 9000 True small_fs = Some ((0, 9000), s') \<and>
    contents s' 5 = bytes_from (fmem small_fs) 65 9000"
  using sfs_write_exact [OF small_ok(1,2) small_hyps, of 65] by (auto simp: contents_def small_vals small_free)

text \<open>
  C30. What was written comes back: after a write that answers 0, a read of the same bytes of the file
  answers 0 and their number, the memory it is given holds what the memory written from held, and
  the blocks and inodes are as the write left them.
\<close>

theorem sfs_read_back:
  assumes "sound n s" "sized (din_of s n)" "dtype (din_of s n) \<noteq> SFS_TYPE_DIR"
    "o' \<le> unat (dsize (din_of s n))" "o' + m \<le> max_bytes"
    "sfs_io_nolock n a (of_nat o') (of_nat m) True s = Some ((0, k), s1)"
  shows "\<exists>s2. sfs_io_nolock n c (of_nat o') (of_nat m) False s1 = Some ((0, m), s2) \<and>
    fmem s2 = bytes_to (fmem s1) c (bytes_from (fmem s) a m) \<and> sfs_inodes s2 = sfs_inodes s1 \<and> blk s2 = blk s1"
proof -
  obtain ret j s' where w: "sfs_io_nolock n a (of_nat o') (of_nat m) True s = Some ((ret, j), s')"
    "ret = 0 \<and> j = m \<or> ret = fail_code E_NO_MEM \<and> j \<le> m \<and> card (free_blocks s) < (m + 4095) div 4096 + 3"
    "contents s' n = take o' (contents s n) @ bytes_from (fmem s) a j @ drop (o' + j) (contents s n)"
    "sound n s'" "sized (din_of s' n)" "dtype (din_of s' n) = dtype (din_of s n)" using io_write_ok [OF assms(1-5), of a] by blast
  then have e: "s' = s1" "j = m" using assms(6) by auto
  have r: "take m (drop o' (contents s1 n)) = bytes_from (fmem s) a m" using w(3) assms(4) unfolding e by simp
  have ty: "dtype (din_of s1 n) \<noteq> SFS_TYPE_DIR" using w(6) assms(3) unfolding e by simp
  have b: "o' \<le> max_bytes" "m \<le> max_bytes" using assms(5) by simp_all
  show ?thesis using io_read_ok [OF w(4,5) [unfolded e] ty b, of c] unfolding r length_bytes_from by blast
qed

theorem sfs_read_back_witness:
  "\<exists>s1 s2. sfs_io_nolock 5 65 0 9000 True small_fs = Some ((0, 9000), s1) \<and>
    sfs_io_nolock 5 70000 0 9000 False s1 = Some ((0, 9000), s2) \<and> fmem s2 78999 = of_nat 9064"
proof -
  obtain s1 where w: "sfs_io_nolock 5 65 (of_nat 0) (of_nat 9000) True small_fs = Some ((0, 9000), s1)" using small_write by blast
  from sfs_read_back [OF small_ok(1,2) small_hyps w, of 70000] obtain s2 where
    r: "sfs_io_nolock 5 70000 (of_nat 0) (of_nat 9000) False s1 = Some ((0, 9000), s2)"
    "fmem s2 = bytes_to (fmem s1) 70000 (bytes_from (fmem small_fs) 65 9000)" by blast
  have "fmem s2 78999 = fmem small_fs 9064" unfolding r(2) by (simp add: bytes_to_def bytes_from_nth)
  then show ?thesis using w r(1) by (auto simp: small_fs_def)
qed

text \<open>
  C31. Files stay apart: in a set of files that share no block, a write to one of them leaves the set
  so, whatever it answers, and what the others hold does not change.
\<close>

theorem sfs_files_separate:
  assumes "files_ok L s" "n \<in> L" "dtype (din_of s n) \<noteq> SFS_TYPE_DIR"
    "o' \<le> unat (dsize (din_of s n))" "o' + m \<le> max_bytes"
    "sfs_io_nolock n a (of_nat o') (of_nat m) True s = Some (r, s')"
  shows "files_ok L s' \<and> (\<forall>x\<in>L. x \<noteq> n \<longrightarrow> contents s' x = contents s x)"
proof -
  have n: "sound n s" "sized (din_of s n)" using assms(1,2) by (simp_all add: files_ok_def)
  have "sound n s'" "sized (din_of s' n)" "others_kept n s s'" using io_write_ok [OF n assms(3-5), of a] assms(6) by auto
  from files_kept [OF assms(1,2) this] show ?thesis by blast
qed

theorem sfs_files_separate_witness:
  "\<exists>s'. sfs_io_nolock 5 65 0 9000 True small_fs = Some ((0, 9000), s') \<and> files_ok {5, 6} s' \<and> contents s' 6 = contents small_fs 6"
proof -
  obtain s' where w: "sfs_io_nolock 5 65 (of_nat 0) (of_nat 9000) True small_fs = Some ((0, 9000), s')" using small_write by blast
  from sfs_files_separate [OF small_ok(3) _ small_hyps w] show ?thesis using w by auto
qed

end
