(* ===== verification/Sfs_Node.thy ===== *)
theory Sfs_Node
  imports Sfs_Bytes
begin

text \<open>
  The inodes of SFS as the VFS sees them (\<^verbatim>\<open>kern/fs/sfs/sfs_inode.c\<close>): directories, loading and
  reclaiming an inode, seeking, setting the length of a file, names of directories.  The table of
  operations of an inode is settled by the type that its disk inode has when it is loaded; nothing
  changes the type later, so the operations are chosen by \<open>is_dir\<close>.
\<close>

type_synonym 'a node_op = "sfs_fs vfs \<Rightarrow> ('a \<times> sfs_fs vfs) option"

definition on_fs :: "'a sfs_op \<Rightarrow> 'a node_op" where
  "on_fs f v = do { (x, s) \<leftarrow> f (fsdata v); Some (x, v\<lparr>fsdata := s\<rparr>) }"

definition mod_fs :: "(sfs_fs \<Rightarrow> sfs_fs) \<Rightarrow> sfs_fs vfs \<Rightarrow> sfs_fs vfs" where
  "mod_fs f v = v\<lparr>fsdata := f (fsdata v)\<rparr>"

definition is_dir :: "sfs_fs vfs \<Rightarrow> nat \<Rightarrow> bool" where
  "is_dir v n \<longleftrightarrow> dtype (din_of (fsdata v) n) = SFS_TYPE_DIR"

text \<open>Objects of the routines' own, from \<^verbatim>\<open>kmalloc\<close>.\<close>

definition take_obj :: "sfs_fs \<Rightarrow> bool \<times> sfs_fs" where
  "take_obj s = (let (ok, h) = get_obj (fheap s) in (ok, s\<lparr>fheap := h\<rparr>))"

definition give_obj :: "sfs_fs \<Rightarrow> sfs_fs" where
  "give_obj s = s\<lparr>fheap := put_obj (fheap s)\<rparr>"

section \<open>Inodes in memory\<close>

text \<open>\<^verbatim>\<open>alloc_inode(sfs_inode)\<close>.\<close>

definition alloc_node :: "sfs_fs \<Rightarrow> nat option \<times> sfs_fs" where
  "alloc_node s = (case node_ans s of
     Some n # as \<Rightarrow> (Some n, s\<lparr>node_ans := as, fheap := (fheap s)\<lparr>kout := kout (fheap s) + 1\<rparr>\<rparr>)
   | None # as \<Rightarrow> (None, s\<lparr>node_ans := as\<rparr>)
   | [] \<Rightarrow> (None, s))"

text \<open>Whether the table is the one of directories.\<close>

definition sfs_get_ops :: "nat \<Rightarrow> bool option" where
  "sfs_get_ops t = (if t = SFS_TYPE_DIR then Some True else if t = SFS_TYPE_FILE then Some False else None)"

definition sin_hashfn :: "nat \<Rightarrow> nat" where
  "sin_hashfn x = unat (hash32 (of_nat x) 10)"

definition sfs_hash_list :: "sfs_fs \<Rightarrow> nat \<Rightarrow> nat list" where
  "sfs_hash_list s i = hash_list s (sin_hashfn i)"

definition sfs_set_links :: "nat \<Rightarrow> sfs_fs \<Rightarrow> sfs_fs" where
  "sfs_set_links n s = (let h = sin_hashfn (ino (sfs_inodes s n)) in
     s\<lparr>inode_list := n # inode_list s, hash_list := (hash_list s)(h := n # hash_list s h)\<rparr>)"

definition sfs_remove_links :: "nat \<Rightarrow> sfs_fs \<Rightarrow> sfs_fs" where
  "sfs_remove_links n s = (let h = sin_hashfn (ino (sfs_inodes s n)) in
     s\<lparr>inode_list := remove1 n (inode_list s), hash_list := (hash_list s)(h := remove1 n (hash_list s h))\<rparr>)"

definition sfs_create_inode :: "sfs_disk_inode \<Rightarrow> nat \<Rightarrow> (int \<times> nat) node_op" where
  "sfs_create_inode d i v = (let (a, s) = alloc_node (fsdata v) in case a of
     None \<Rightarrow> Some ((fail_code E_NO_MEM, 0), v\<lparr>fsdata := s\<rparr>)
   | Some n \<Rightarrow> do {
       _ \<leftarrow> sfs_get_ops (dtype d);
       let v = inode_init n (v\<lparr>fsdata := s\<rparr>);
       Some ((0, n), mod_fs (mod_sin n (\<lambda>_. \<lparr>din = d, ino = i, dirty = False, reclaim_count = 1\<rparr>)) v)
     })"

definition lookup_sfs_nolock :: "nat \<Rightarrow> sfs_fs vfs \<Rightarrow> nat option \<times> sfs_fs vfs" where
  "lookup_sfs_nolock i v = (case find (\<lambda>n. ino (sfs_inodes (fsdata v) n) = i) (sfs_hash_list (fsdata v) i) of
     None \<Rightarrow> (None, v)
   | Some n \<Rightarrow> (let (c, v) = inode_ref_inc n v in
       (Some n, if c = 1 then mod_fs (mod_sin n (\<lambda>x. x\<lparr>reclaim_count := reclaim_count x + 1\<rparr>)) v else v)))"

definition sfs_load_inode :: "nat \<Rightarrow> (int \<times> nat) node_op" where
  "sfs_load_inode i v = (let (found, v) = lookup_sfs_nolock i v in case found of
     Some n \<Rightarrow> Some ((0, n), v)
   | None \<Rightarrow> (let (ok, s) = take_obj (fsdata v); v = v\<lparr>fsdata := s\<rparr> in
       if \<not> ok then Some ((fail_code E_NO_MEM, 0), v)
       else do {
         u \<leftarrow> sfs_block_inuse (fsdata v) i;
         kassert u;
         ((ret, bs), v) \<leftarrow> on_fs (sfs_rbuf sizeof_din i 0) v;
         if ret \<noteq> 0 then Some ((ret, 0), mod_fs give_obj v)
         else do {
           let d = bytes_din bs;
           kassert (nlinks d \<noteq> 0);
           ((ret, n), v) \<leftarrow> sfs_create_inode d i v;
           if ret \<noteq> 0 then Some ((ret, 0), mod_fs give_obj v)
           else Some ((0, n), mod_fs (sfs_set_links n) v)
         }
       }))"

section \<open>Directories\<close>

definition sfs_dirent_read_nolock :: "nat \<Rightarrow> nat \<Rightarrow> (int \<times> sfs_disk_entry) sfs_op" where
  "sfs_dirent_read_nolock n slot s = do {
     kassert (dtype (din_of s n) = SFS_TYPE_DIR \<and> slot < dblocks (din_of s n));
     ((ret, i), s) \<leftarrow> sfs_bmap_load_nolock n slot s;
     if ret \<noteq> 0 then Some ((ret, bytes_entry []), s)
     else do {
       u \<leftarrow> sfs_block_inuse s i;
       kassert u;
       ((ret, bs), s) \<leftarrow> sfs_rbuf sizeof_entry i 0 s;
       let e = bytes_entry bs;
       Some ((ret, if ret \<noteq> 0 then e else e\<lparr>ename := (ename e)[SFS_MAX_FNAME_LEN := 0]\<rparr>), s)
     }
   }"

definition name_bytes :: "string \<Rightarrow> u8 list" where
  "name_bytes p = map of_char p"

text \<open>The error code, \<^verbatim>\<open>*ino_store\<close> and \<^verbatim>\<open>*slot\<close>, searching \<open>k\<close> slots from \<open>i\<close> on.\<close>

fun dirent_search_from :: "nat \<Rightarrow> string \<Rightarrow> nat \<Rightarrow> nat \<Rightarrow> (int \<times> nat \<times> nat) sfs_op" where
  "dirent_search_from n p i 0 s = Some ((fail_code E_NOENT, 0, 0), s)"
| "dirent_search_from n p i (Suc k) s = do {
     ((ret, e), s) \<leftarrow> sfs_dirent_read_nolock n i s;
     if ret \<noteq> 0 then Some ((ret, 0, 0), s)
     else if eino e \<noteq> 0 \<and> name_bytes p = cstr (ename e) then Some ((0, eino e, i), s)
     else dirent_search_from n p (i + 1) k s
   }"

definition sfs_dirent_search_nolock :: "nat \<Rightarrow> string \<Rightarrow> (int \<times> nat \<times> nat) sfs_op" where
  "sfs_dirent_search_nolock n p s = do {
     kassert (length p \<le> SFS_MAX_FNAME_LEN);
     let (ok, s) = take_obj s;
     if \<not> ok then Some ((fail_code E_NO_MEM, 0, 0), s)
     else do {
       (r, s) \<leftarrow> dirent_search_from n p 0 (dblocks (din_of s n)) s;
       Some (r, give_obj s)
     }
   }"

fun dirent_findino_from :: "nat \<Rightarrow> nat \<Rightarrow> nat \<Rightarrow> nat \<Rightarrow> (int \<times> sfs_disk_entry) sfs_op" where
  "dirent_findino_from n x i 0 s = Some ((fail_code E_NOENT, bytes_entry []), s)"
| "dirent_findino_from n x i (Suc k) s = do {
     ((ret, e), s) \<leftarrow> sfs_dirent_read_nolock n i s;
     if ret \<noteq> 0 then Some ((ret, e), s)
     else if eino e = x then Some ((0, e), s)
     else dirent_findino_from n x (i + 1) k s
   }"

definition sfs_dirent_findino_nolock :: "nat \<Rightarrow> nat \<Rightarrow> (int \<times> sfs_disk_entry) sfs_op" where
  "sfs_dirent_findino_nolock n x s = dirent_findino_from n x 0 (dblocks (din_of s n)) s"

definition sfs_lookup_once :: "nat \<Rightarrow> string \<Rightarrow> (int \<times> nat) node_op" where
  "sfs_lookup_once n p v = do {
     ((ret, i, _), v) \<leftarrow> on_fs (sfs_dirent_search_nolock n p) v;
     if ret = 0 then sfs_load_inode i v else Some ((ret, 0), v)
   }"

definition sfs_opendir :: "u32 \<Rightarrow> int" where
  "sfs_opendir fl = (if fl AND O_ACCMODE \<noteq> 0 then fail_code E_ISDIR
     else if fl AND O_APPEND \<noteq> 0 then fail_code E_ISDIR else 0)"

definition sfs_openfile :: "u32 \<Rightarrow> int" where
  "sfs_openfile fl = 0"

section \<open>Files\<close>

definition sfs_io :: "nat \<Rightarrow> iobuf \<Rightarrow> bool \<Rightarrow> (int \<times> iobuf) node_op" where
  "sfs_io n iob write v = do {
     ((ret, k), v) \<leftarrow> on_fs (sfs_io_nolock n (unat (io_base iob)) (io_offset iob) (io_resid iob) write) v;
     iob \<leftarrow> (if k \<noteq> 0 then iobuf_skip (of_nat k) iob else Some iob);
     Some ((ret, iob), v)
   }"

definition sfs_read :: "nat \<Rightarrow> iobuf \<Rightarrow> (int \<times> iobuf) node_op" where
  "sfs_read n iob = sfs_io n iob False"

definition sfs_write :: "nat \<Rightarrow> iobuf \<Rightarrow> (int \<times> iobuf) node_op" where
  "sfs_write n iob = sfs_io n iob True"

definition S_IFMT :: u32 where "S_IFMT = 0x7000"
definition S_IFREG :: u32 where "S_IFREG = 0x1000"
definition S_IFDIR :: u32 where "S_IFDIR = 0x2000"
definition S_IFLNK :: u32 where "S_IFLNK = 0x3000"
definition S_IFCHR :: u32 where "S_IFCHR = 0x4000"
definition S_IFBLK :: u32 where "S_IFBLK = 0x5000"

definition sfs_gettype :: "nat \<Rightarrow> (int \<times> u32) node_op" where
  "sfs_gettype n v = (let t = dtype (din_of (fsdata v) n) in
     if t = SFS_TYPE_DIR then Some ((0, S_IFDIR), v)
     else if t = SFS_TYPE_FILE then Some ((0, S_IFREG), v)
     else if t = SFS_TYPE_LINK then Some ((0, S_IFLNK), v)
     else None)"

definition sfs_fstat :: "nat \<Rightarrow> (int \<times> stat) node_op" where
  "sfs_fstat n v = do {
     ((ret, mode), v) \<leftarrow> vop n (sfs_gettype n) v;
     let st = \<lparr>st_mode = mode, st_nlinks = 0, st_blocks = 0, st_size = 0\<rparr>;
     if ret \<noteq> 0 then Some ((ret, st), v)
     else (let d = din_of (fsdata v) n in
       Some ((0, st\<lparr>st_nlinks := of_nat (nlinks d), st_blocks := of_nat (dblocks d), st_size := dsize d\<rparr>), v))
   }"

definition sfs_fsync_nolock :: "nat \<Rightarrow> int sfs_op" where
  "sfs_fsync_nolock n s = (if dirty (sfs_inodes s n) then do {
       let s = mod_sin n (\<lambda>x. x\<lparr>dirty := False\<rparr>) s;
       (ret, s) \<leftarrow> sfs_wbuf (din_bytes (din_of s n)) (ino (sfs_inodes s n)) 0 s;
       Some (ret, if ret \<noteq> 0 then mark_dirty n s else s)
     } else Some (0, s))"

definition sfs_fsync :: "nat \<Rightarrow> int node_op" where
  "sfs_fsync n = on_fs (sfs_fsync_nolock n)"

definition sfs_close :: "nat \<Rightarrow> int node_op" where
  "sfs_close n = vop n (sfs_fsync n)"

section \<open>The length of a file\<close>

fun load_blocks :: "nat \<Rightarrow> nat \<Rightarrow> nat \<Rightarrow> int sfs_op" where
  "load_blocks n nblks 0 s = Some (0, s)"
| "load_blocks n nblks (Suc k) s = do {
     ((ret, _), s) \<leftarrow> sfs_bmap_load_nolock n nblks s;
     if ret \<noteq> 0 then Some (ret, s) else load_blocks n (nblks + 1) k s
   }"

fun drop_blocks :: "nat \<Rightarrow> nat \<Rightarrow> int sfs_op" where
  "drop_blocks n 0 s = Some (0, s)"
| "drop_blocks n (Suc k) s = do {
     (ret, s) \<leftarrow> sfs_bmap_truncate_nolock n s;
     if ret \<noteq> 0 then Some (ret, s) else drop_blocks n k s
   }"

definition sfs_truncfile_nolock :: "nat \<Rightarrow> u32 \<Rightarrow> int sfs_op" where
  "sfs_truncfile_nolock n len s =
     (if sint len < 0 \<or> len > SFS_MAX_FILE_SIZE then Some (fail_code E_INVAL, s)
      else (let d = din_of s n; tblks = unat (roundup_div_2n len 12) in
        if dsize d = len then do { kassert (tblks = dblocks d); Some (0, s) }
        else do {
          let nblks = dblocks d;
          (ret, s) \<leftarrow> (if nblks < tblks then load_blocks n nblks (tblks - nblks) s
            else drop_blocks n (nblks - tblks) s);
          if ret \<noteq> 0 then Some (ret, s)
          else do {
            kassert (dblocks (din_of s n) = tblks);
            Some (0, mark_dirty n (mod_din n (\<lambda>d. d\<lparr>dsize := len\<rparr>) s))
          }
        }))"

definition sfs_truncfile :: "nat \<Rightarrow> u32 \<Rightarrow> int node_op" where
  "sfs_truncfile n len = on_fs (sfs_truncfile_nolock n len)"

text \<open>The table of directories has no \<^verbatim>\<open>vop_truncate\<close>.\<close>

definition vop_truncate_sfs :: "nat \<Rightarrow> u32 \<Rightarrow> int node_op" where
  "vop_truncate_sfs n len v = (if is_dir v n then None else vop n (sfs_truncfile n len) v)"

definition sfs_tryseek :: "nat \<Rightarrow> u32 \<Rightarrow> int node_op" where
  "sfs_tryseek n pos v =
     (if sint pos < 0 \<or> pos \<ge> SFS_MAX_FILE_SIZE then Some (fail_code E_INVAL, v)
      else if pos > dsize (din_of (fsdata v) n) then vop_truncate_sfs n pos v
      else Some (0, v))"

section \<open>Listing a directory\<close>

fun getdirentry_from :: "nat \<Rightarrow> nat \<Rightarrow> nat \<Rightarrow> nat \<Rightarrow> (int \<times> sfs_disk_entry) sfs_op" where
  "getdirentry_from n slot i 0 s = Some ((fail_code E_NOENT, bytes_entry []), s)"
| "getdirentry_from n slot i (Suc k) s = do {
     ((ret, e), s) \<leftarrow> sfs_dirent_read_nolock n i s;
     if ret \<noteq> 0 then Some ((ret, e), s)
     else if eino e \<noteq> 0 then (if slot = 0 then Some ((0, e), s) else getdirentry_from n (slot - 1) (i + 1) k s)
     else getdirentry_from n slot (i + 1) k s
   }"

definition sfs_getdirentry_sub_nolock :: "nat \<Rightarrow> nat \<Rightarrow> (int \<times> sfs_disk_entry) sfs_op" where
  "sfs_getdirentry_sub_nolock n slot s = getdirentry_from n slot 0 (dblocks (din_of s n)) s"

text \<open>\<^verbatim>\<open>iobuf_move\<close> from a private buffer.\<close>

definition iobuf_put :: "u8 list \<Rightarrow> iobuf \<Rightarrow> (int \<times> iobuf) node_op" where
  "iobuf_put bs iob v =
     (let len = of_nat (length bs); alen = (if io_resid iob > len then len else io_resid iob) in do {
        let v = mod_fs (\<lambda>s. s\<lparr>fmem := bytes_to (fmem s) (unat (io_base iob)) (take (unat alen) bs)\<rparr>) v;
        iob \<leftarrow> (if alen > 0 then iobuf_skip alen iob else Some iob);
        Some ((if len - alen = 0 then 0 else fail_code E_NO_MEM, iob), v)
      })"

definition sfs_getdirentry :: "nat \<Rightarrow> iobuf \<Rightarrow> (int \<times> iobuf) node_op" where
  "sfs_getdirentry n iob v = (let (ok, s) = take_obj (fsdata v); v = v\<lparr>fsdata := s\<rparr> in
     if \<not> ok then Some ((fail_code E_NO_MEM, iob), v)
     else if sint (io_offset iob) < 0 \<or> io_offset iob mod 256 \<noteq> 0 then Some ((fail_code E_INVAL, iob), mod_fs give_obj v)
     else (let slot = unat (io_offset iob div 256) in
       if slot > dblocks (din_of (fsdata v) n) then Some ((fail_code E_NOENT, iob), mod_fs give_obj v)
       else do {
         ((ret, e), v) \<leftarrow> on_fs (sfs_getdirentry_sub_nolock n slot) v;
         ((ret, iob), v) \<leftarrow> (if ret \<noteq> 0 then Some ((ret, iob), v) else iobuf_put (ename e) iob v);
         Some ((ret, iob), mod_fs give_obj v)
       }))"

section \<open>Giving an inode back\<close>

definition sfs_reclaim :: "nat \<Rightarrow> int node_op" where
  "sfs_reclaim n v = do {
     kassert (reclaim_count (sfs_inodes (fsdata v) n) > 0);
     let v = mod_fs (mod_sin n (\<lambda>x. x\<lparr>reclaim_count := reclaim_count x - 1\<rparr>)) v;
     if reclaim_count (sfs_inodes (fsdata v) n) \<noteq> 0 \<or> ref_count (inodes v n) \<noteq> 0 then Some (fail_code E_BUSY, v)
     else do {
       (ret, v) \<leftarrow> (if nlinks (din_of (fsdata v) n) = 0 then vop_truncate_sfs n 0 v else Some (0, v));
       if ret \<noteq> 0 then Some (ret, v)
       else do {
         (ret, v) \<leftarrow> (if dirty (sfs_inodes (fsdata v) n) then vop n (sfs_fsync n) v else Some (0, v));
         if ret \<noteq> 0 then Some (ret, v)
         else do {
           let v = mod_fs (sfs_remove_links n) v;
           let d = din_of (fsdata v) n;
           s \<leftarrow> (if nlinks d = 0 then do {
               s \<leftarrow> sfs_block_free (ino (sfs_inodes (fsdata v) n)) (fsdata v);
               if indirect d \<noteq> 0 then sfs_block_free (indirect d) s else Some s
             } else Some (fsdata v));
           let v = v\<lparr>fsdata := give_obj s\<rparr>;
           _ \<leftarrow> inode_kill n v;
           Some (0, mod_fs give_obj v)
         }
       }
     }
   }"

text \<open>The operations that the inode layer itself calls.\<close>

definition sfs_node_ops :: "sfs_fs inode_ops" where
  "sfs_node_ops = \<lparr>vop_open = \<lambda>n fl v. Some (if is_dir v n then sfs_opendir fl else sfs_openfile fl, v),
     vop_close = sfs_close,
     vop_read = \<lambda>n iob v. if is_dir v n then None else do { ((ret, iob), v) \<leftarrow> sfs_read n iob v; Some (ret, iob, v) },
     vop_write = \<lambda>n iob v. if is_dir v n then None else do { ((ret, iob), v) \<leftarrow> sfs_write n iob v; Some (ret, iob, v) },
     vop_fstat = \<lambda>n v. do { ((ret, st), v) \<leftarrow> sfs_fstat n v; Some (ret, st, v) },
     vop_fsync = sfs_fsync,
     vop_getdirentry = \<lambda>n iob v. if is_dir v n then do { ((ret, iob), v) \<leftarrow> sfs_getdirentry n iob v; Some (ret, iob, v) } else None,
     vop_reclaim = sfs_reclaim,
     vop_tryseek = \<lambda>n pos v. if is_dir v n then None else sfs_tryseek n pos v,
     vop_truncate = \<lambda>n len v. if is_dir v n then None else sfs_truncfile n len v,
     vop_create = \<lambda>n p excl v. None,
     vfs_lookup = \<lambda>p v. None,
     vfs_lookup_parent = \<lambda>p v. None\<rparr>"

section \<open>Looking up\<close>

definition sfs_ref_dec :: "nat \<Rightarrow> sfs_fs vfs \<Rightarrow> sfs_fs vfs option" where
  "sfs_ref_dec n v = do { (_, v) \<leftarrow> inode_ref_dec sfs_node_ops n v; Some v }"

definition sfs_lookup :: "nat \<Rightarrow> string \<Rightarrow> (int \<times> nat) node_op" where
  "sfs_lookup n path v = do {
     kassert (path \<noteq> [] \<and> hd path \<noteq> CHR ''/'');
     let (_, v) = inode_ref_inc n v;
     if \<not> is_dir v n then do { v \<leftarrow> sfs_ref_dec n v; Some ((fail_code E_NOTDIR, 0), v) }
     else do {
       ((ret, m), v) \<leftarrow> sfs_lookup_once n path v;
       v \<leftarrow> sfs_ref_dec n v;
       Some ((ret, if ret \<noteq> 0 then 0 else m), v)
     }
   }"

text \<open>
  The walk up to the root, with the code, where the name starts and how much room is left.  Nothing
  bounds the walk but the directories on the disk: it need not end.
\<close>

partial_function (option) namefile_loop :: "nat \<Rightarrow> nat \<Rightarrow> nat \<Rightarrow> (int \<times> nat \<times> nat) node_op" where
  "namefile_loop n ptr resid v = do {
     ((ret, parent), v) \<leftarrow> sfs_lookup_once n ''..'' v;
     if ret \<noteq> 0 then do { v \<leftarrow> sfs_ref_dec n v; Some ((ret, ptr, resid), v) }
     else do {
       let i = ino (sfs_inodes (fsdata v) n);
       v \<leftarrow> sfs_ref_dec n v;
       if n = parent then do { v \<leftarrow> sfs_ref_dec n v; Some ((0, ptr, resid), v) }
       else do {
         kassert (i \<noteq> ino (sfs_inodes (fsdata v) parent) \<and> is_dir v parent);
         ((ret, e), v) \<leftarrow> on_fs (sfs_dirent_findino_nolock parent i) v;
         if ret \<noteq> 0 then do { v \<leftarrow> sfs_ref_dec parent v; Some ((ret, ptr, resid), v) }
         else (let name = cstr (ename e); alen = length name + 1 in
           if alen > resid then do { v \<leftarrow> sfs_ref_dec parent v; Some ((fail_code E_NO_MEM, ptr, resid), v) }
           else namefile_loop parent (ptr - alen) (resid - alen)
             (mod_fs (\<lambda>s. s\<lparr>fmem := bytes_to (fmem s) (ptr - alen) (name @ [of_char (CHR ''/'')])\<rparr>) v))
       }
     }
   }"

definition sfs_namefile :: "nat \<Rightarrow> iobuf \<Rightarrow> (int \<times> iobuf) node_op" where
  "sfs_namefile n iob v =
     (if io_resid iob \<le> 2 then Some ((fail_code E_NO_MEM, iob), v)
      else (let (ok, s) = take_obj (fsdata v); v = v\<lparr>fsdata := s\<rparr> in
        if \<not> ok then Some ((fail_code E_NO_MEM, iob), v)
        else do {
          let base = unat (io_base iob);
          let room = unat (io_resid iob);
          let (_, v) = inode_ref_inc n v;
          ((ret, ptr, resid), v) \<leftarrow> namefile_loop n (base + room) (room - 2) v;
          if ret \<noteq> 0 then Some ((ret, iob), mod_fs give_obj v)
          else do {
            let alen = room - resid - 2;
            let v = mod_fs (\<lambda>s. let m = bytes_to (fmem s) (base + 1) (bytes_from (fmem s) ptr alen)
              in s\<lparr>fmem := m(base := of_char (CHR ''/''), base + 1 + alen := 0)\<rparr>) v;
            iob \<leftarrow> iobuf_skip (of_nat alen) iob;
            Some ((0, iob), mod_fs give_obj v)
          }
        }))"

end
