(* ===== verification/Sfs_Mount.thy ===== *)
theory Sfs_Mount
  imports Sfs_Node
begin

text \<open>
  Mounting SFS, writing it back and unmounting it (\<^verbatim>\<open>kern/fs/sfs/sfs_fs.c\<close>).  The state that
  \<^verbatim>\<open>sfs_do_mount\<close> starts from gives the device, the memory and what \<^verbatim>\<open>kmalloc\<close> will answer; it fills in
  the rest.  \<^verbatim>\<open>kprintf\<close> and \<^verbatim>\<open>warn\<close> leave no trace in the state, and the count of free blocks that is only
  printed is left out.
\<close>

fun sync_nodes :: "nat list \<Rightarrow> sfs_fs vfs \<Rightarrow> sfs_fs vfs option" where
  "sync_nodes [] v = Some v"
| "sync_nodes (n # ns) v = do { (_, v) \<leftarrow> vop n (sfs_fsync n) v; sync_nodes ns v }"

definition sfs_sync_meta :: "int sfs_op" where
  "sfs_sync_meta s = (if super_dirty s then do {
       let s = s\<lparr>super_dirty := False\<rparr>;
       (ret, s) \<leftarrow> sfs_sync_super s;
       if ret \<noteq> 0 then Some (ret, s\<lparr>super_dirty := True\<rparr>)
       else do {
         (ret, s) \<leftarrow> sfs_sync_freemap s;
         Some (ret, if ret \<noteq> 0 then s\<lparr>super_dirty := True\<rparr> else s)
       }
     } else Some (0, s))"

definition sfs_sync :: "int node_op" where
  "sfs_sync v = do { v \<leftarrow> sync_nodes (inode_list (fsdata v)) v; on_fs sfs_sync_meta v }"

definition sfs_get_root :: "nat node_op" where
  "sfs_get_root v = do {
     ((ret, n), v) \<leftarrow> sfs_load_inode SFS_BLKN_ROOT v;
     kassert (ret = 0);
     Some (n, v)
   }"

definition sfs_unmount :: "int node_op" where
  "sfs_unmount v =
     (if inode_list (fsdata v) \<noteq> [] then Some (fail_code E_BUSY, v)
      else do {
        kassert (\<not> super_dirty (fsdata v));
        Some (0, mod_fs (\<lambda>s. give_obj (give_obj (give_obj (s\<lparr>fheap := bitmap_destroy (fheap s)\<rparr>)))) v)
      })"

text \<open>At most 32 attempts.\<close>

fun sfs_cleanup_tries :: "nat \<Rightarrow> sfs_fs vfs \<Rightarrow> sfs_fs vfs option" where
  "sfs_cleanup_tries 0 v = Some v"
| "sfs_cleanup_tries (Suc k) v = do { (ret, v) \<leftarrow> sfs_sync v; if ret = 0 then Some v else sfs_cleanup_tries k v }"

definition sfs_cleanup :: "sfs_fs vfs \<Rightarrow> sfs_fs vfs option" where
  "sfs_cleanup v = sfs_cleanup_tries 32 v"

section \<open>Mounting\<close>

definition sfs_init_read :: "nat \<Rightarrow> u8 list \<Rightarrow> (int \<times> u8 list) sfs_op" where
  "sfs_init_read blkno buf s = do {
     (ret, buf, d) \<leftarrow> disk0_io (of_nat blkno * 4096) buf False (sdev s);
     Some ((ret, buf), s\<lparr>sdev := d\<rparr>)
   }"

text \<open>The code and the data of the map, read into \<open>data\<close> block by block.\<close>

fun init_freemap_blocks :: "u8 list \<Rightarrow> nat \<Rightarrow> nat \<Rightarrow> (int \<times> u8 list) sfs_op" where
  "init_freemap_blocks data blkno 0 s = Some ((0, data), s)"
| "init_freemap_blocks data blkno (Suc nblks) s = do {
     ((ret, b), s) \<leftarrow> sfs_init_read blkno (take SFS_BLKSIZE data) s;
     if ret \<noteq> 0 then Some ((ret, b @ drop SFS_BLKSIZE data), s)
     else do {
       ((ret, rest), s) \<leftarrow> init_freemap_blocks (drop SFS_BLKSIZE data) (blkno + 1) nblks s;
       Some ((ret, b @ rest), s)
     }
   }"

definition sfs_init_freemap :: "bitmap \<Rightarrow> nat \<Rightarrow> nat \<Rightarrow> (int \<times> bitmap) sfs_op" where
  "sfs_init_freemap b blkno nblks s = do {
     kassert (4 * unat (nwords b) = nblks * SFS_BLKSIZE);
     ((ret, data), s) \<leftarrow> init_freemap_blocks (bitmap_getdata b) blkno nblks s;
     Some ((ret, b\<lparr>wmap := words_of (unat (nwords b)) data\<rparr>), s)
   }"

definition sfs_do_mount :: "int sfs_op" where
  "sfs_do_mount s =
     (if d_blocksize (sdev s) \<noteq> SFS_BLKSIZE then Some (fail_code E_NA_DEV, s)
      else (let (ok, s) = take_obj s in
        if \<not> ok then Some (fail_code E_NO_MEM, s)
        else (let (ok, s) = take_obj s in
          if \<not> ok then Some (fail_code E_NO_MEM, give_obj s)
          else do {
            ((ret, buf), s) \<leftarrow> sfs_init_read SFS_BLKN_SUPER zeros s;
            let p = bytes_super buf;
            let undo = (\<lambda>s. give_obj (give_obj s));
            if ret \<noteq> 0 then Some (ret, undo s)
            else if magic p \<noteq> SFS_MAGIC then Some (fail_code E_INVAL, undo s)
            else if blocks_of p > d_blocks (sdev s) then Some (fail_code E_INVAL, undo s)
            else do {
              let s = s\<lparr>super := p\<lparr>info := (info p)[SFS_MAX_INFO_LEN := 0]\<rparr>\<rparr>;
              let (ok, s) = take_obj s;
              if \<not> ok then Some (fail_code E_NO_MEM, undo s)
              else do {
                let s = s\<lparr>hash_list := \<lambda>_. []\<rparr>;
                (b, h) \<leftarrow> bitmap_create (sfs_freemap_bits p) (fheap s);
                let s = s\<lparr>fheap := h\<rparr>;
                case b of None \<Rightarrow> Some (fail_code E_NO_MEM, undo (give_obj s))
                | Some b \<Rightarrow> do {
                    ((ret, b), s) \<leftarrow> sfs_init_freemap b SFS_BLKN_FREEMAP (sfs_freemap_blocks p) s;
                    if ret \<noteq> 0 then Some (ret, undo (give_obj (s\<lparr>fheap := bitmap_destroy (fheap s)\<rparr>)))
                    else Some (0, s\<lparr>freemap := b, super_dirty := False, inode_list := []\<rparr>)
                  }
              }
            }
          })))"

end
