(* ===== verification/Devices.thy ===== *)
theory Devices
  imports Vfs Stdin Sfs_Mount
begin

text \<open>
  Device files (\<^verbatim>\<open>kern/fs/devs/dev.c\<close>, \<^verbatim>\<open>dev_stdout.c\<close>) and the file systems of the machine put together
  (\<^verbatim>\<open>kern/fs/fs.c\<close>, \<^verbatim>\<open>sfs.c\<close>): the keyboard, the console and \<^verbatim>\<open>disk0\<close> as named devices, SFS mounted on the
  disk, and the table of operations that paths and open files go through.  A \<^verbatim>\<open>struct device\<close> is told by its
  kind, which fixes its functions; the sizes of the disk are those in \<open>sdev\<close>.  The memory of all transfers
  is \<open>fmem\<close>.  The SFS on \<^verbatim>\<open>disk0\<close>, the only device that can be mounted, is the file system number 0.
\<close>

datatype dev_kind = Stdin_dev | Stdout_dev | Disk0_dev

text \<open>
  A read of the keyboard may put the process to sleep.  What the rest of the machine does to the keyboard and
  the scheduler during each sleep is an element of \<open>naps\<close>; a read that needs one more sleeps for ever and has no
  result.
\<close>

record sys =
  sfs :: sfs_fs
  node_dev :: "nat \<Rightarrow> dev_kind option"
  kbd :: stdin_state
  console :: "u8 list"
  naps :: "(stdin_state \<Rightarrow> stdin_state) list"

type_synonym 'a sys_op = "sys names vfs \<Rightarrow> ('a \<times> sys names vfs) option"

definition sys_of :: "sys names vfs \<Rightarrow> sys" where
  "sys_of v = low (fsdata v)"

definition mod_sys :: "(sys \<Rightarrow> sys) \<Rightarrow> sys names vfs \<Rightarrow> sys names vfs" where
  "mod_sys f v = mod_names (\<lambda>s. s\<lparr>low := f (low s)\<rparr>) v"

definition on_sfs :: "'a node_op \<Rightarrow> 'a sys_op" where
  "on_sfs f v = do {
     (x, u) \<leftarrow> f \<lparr>inodes = inodes v, fsdata = sfs (sys_of v)\<rparr>;
     Some (x, mod_sys (\<lambda>s. s\<lparr>sfs := fsdata u\<rparr>) (v\<lparr>inodes := inodes u\<rparr>))
   }"

definition is_dev_node :: "nat \<Rightarrow> sys names vfs \<Rightarrow> bool" where
  "is_dev_node n v \<longleftrightarrow> node_dev (sys_of v) n \<noteq> None"

section \<open>What a device does\<close>

fun dev_blocks :: "dev_kind \<Rightarrow> sys \<Rightarrow> nat" where
  "dev_blocks Disk0_dev s = d_blocks (sdev (sfs s))"
| "dev_blocks _ s = 0"

fun dev_blocksize :: "dev_kind \<Rightarrow> sys \<Rightarrow> nat" where
  "dev_blocksize Disk0_dev s = d_blocksize (sdev (sfs s))"
| "dev_blocksize _ s = 1"

definition stdout_open :: "u32 \<Rightarrow> int" where
  "stdout_open fl = (if fl \<noteq> 1 then fail_code E_INVAL else 0)"

fun dop_open :: "dev_kind \<Rightarrow> u32 \<Rightarrow> int" where
  "dop_open Stdin_dev fl = stdin_open fl"
| "dop_open Stdout_dev fl = stdout_open fl"
| "dop_open Disk0_dev fl = 0"

fun dop_close :: "dev_kind \<Rightarrow> int" where
  "dop_close Stdin_dev = stdin_close"
| "dop_close Stdout_dev = 0"
| "dop_close Disk0_dev = 0"

fun dop_ioctl :: "dev_kind \<Rightarrow> int" where
  "dop_ioctl Stdin_dev = stdin_ioctl"
| "dop_ioctl Stdout_dev = fail_code E_INVAL"
| "dop_ioctl Disk0_dev = fail_code E_UNIMP"

definition stdin_wq :: nat where "stdin_wq = 0"

fun stdin_finish ::
  "nat \<Rightarrow> nat \<Rightarrow> nat \<Rightarrow> (stdin_state \<Rightarrow> stdin_state) list \<Rightarrow> (int + nat) \<times> stdin_state \<Rightarrow>
   (int \<times> stdin_state \<times> (stdin_state \<Rightarrow> stdin_state) list) option" where
  "stdin_finish w buf len fs (Inl r, s) = Some (r, s, fs)"
| "stdin_finish w buf len [] (Inr k, s) = None"
| "stdin_finish w buf len (f # fs) (Inr k, s) = do {
     x \<leftarrow> stdin_read_resume stdin_wq w buf len k (f s);
     stdin_finish w buf len fs x
   }"

definition kbd_io :: "iobuf \<Rightarrow> bool \<Rightarrow> sys \<Rightarrow> (int \<times> iobuf \<times> sys) option" where
  "kbd_io iob write s =
     (let k = (kbd s)\<lparr>kmem := fmem (sfs s)\<rparr>; w = current (sch (sync k)) in do {
        x \<leftarrow> stdin_io stdin_wq w iob write k;
        (r, k, fs) \<leftarrow> stdin_finish w (unat (io_base iob)) (unat (io_resid iob)) (naps s) x;
        Some (r, stdin_io_end r iob, s\<lparr>kbd := k, naps := fs, sfs := (sfs s)\<lparr>fmem := kmem k\<rparr>\<rparr>)
      })"

definition stdout_io :: "iobuf \<Rightarrow> bool \<Rightarrow> sys \<Rightarrow> int \<times> iobuf \<times> sys" where
  "stdout_io iob write s =
     (if write then (0, iob\<lparr>io_resid := 0\<rparr>,
        s\<lparr>console := console s @ bytes_from (fmem (sfs s)) (unat (io_base iob)) (unat (io_resid iob))\<rparr>)
      else (fail_code E_INVAL, iob, s))"

text \<open>\<^verbatim>\<open>disk0_io\<close> on the buffer itself, which it moves along as it goes.\<close>

definition disk0_iobuf :: "iobuf \<Rightarrow> bool \<Rightarrow> sys \<Rightarrow> (int \<times> iobuf \<times> sys) option" where
  "disk0_iobuf iob write s =
     (let a = unat (io_base iob); n = unat (io_resid iob) in do {
        (r, data, d) \<leftarrow> disk0_io (io_offset iob) (bytes_from (fmem (sfs s)) a n) write (sdev (sfs s));
        iob \<leftarrow> (if r = 0 then iobuf_skip (io_resid iob) iob else Some iob);
        Some (r, iob, s\<lparr>sfs := (sfs s)\<lparr>sdev := d, fmem := if r = 0 \<and> \<not> write then bytes_to (fmem (sfs s)) a data else fmem (sfs s)\<rparr>\<rparr>)
      })"

fun dop_io :: "dev_kind \<Rightarrow> iobuf \<Rightarrow> bool \<Rightarrow> sys \<Rightarrow> (int \<times> iobuf \<times> sys) option" where
  "dop_io Stdin_dev iob write s = kbd_io iob write s"
| "dop_io Stdout_dev iob write s = Some (stdout_io iob write s)"
| "dop_io Disk0_dev iob write s = disk0_iobuf iob write s"

section \<open>Device files (dev.c)\<close>

definition dev_open :: "nat \<Rightarrow> u32 \<Rightarrow> int sys_op" where
  "dev_open n fl v =
     (if fl AND (O_CREAT OR O_TRUNC OR O_EXCL OR O_APPEND) \<noteq> 0 then Some (fail_code E_INVAL, v)
      else do { d \<leftarrow> node_dev (sys_of v) n; Some (dop_open d fl, v) })"

definition dev_close :: "nat \<Rightarrow> int sys_op" where
  "dev_close n v = do { d \<leftarrow> node_dev (sys_of v) n; Some (dop_close d, v) }"

definition dev_io :: "bool \<Rightarrow> nat \<Rightarrow> iobuf \<Rightarrow> (int \<times> iobuf) sys_op" where
  "dev_io write n iob v = do {
     d \<leftarrow> node_dev (sys_of v) n;
     (r, iob, s) \<leftarrow> dop_io d iob write (sys_of v);
     Some ((r, iob), mod_sys (\<lambda>_. s) v)
   }"

definition dev_read :: "nat \<Rightarrow> iobuf \<Rightarrow> (int \<times> iobuf) sys_op" where
  "dev_read n iob = dev_io False n iob"

definition dev_write :: "nat \<Rightarrow> iobuf \<Rightarrow> (int \<times> iobuf) sys_op" where
  "dev_write n iob = dev_io True n iob"

definition dev_ioctl :: "nat \<Rightarrow> int sys_op" where
  "dev_ioctl n v = do { d \<leftarrow> node_dev (sys_of v) n; Some (dop_ioctl d, v) }"

definition dev_gettype :: "nat \<Rightarrow> (int \<times> u32) sys_op" where
  "dev_gettype n v = do {
     d \<leftarrow> node_dev (sys_of v) n;
     Some ((0, if dev_blocks d (sys_of v) > 0 then S_IFBLK else S_IFCHR), v)
   }"

definition dev_fstat :: "nat \<Rightarrow> (int \<times> stat) sys_op" where
  "dev_fstat n v = do {
     ((ret, mode), v) \<leftarrow> vop n (dev_gettype n) v;
     let st = \<lparr>st_mode = mode, st_nlinks = 0, st_blocks = 0, st_size = 0\<rparr>;
     if ret \<noteq> 0 then Some ((ret, st), v)
     else do {
       d \<leftarrow> node_dev (sys_of v) n;
       let b = of_nat (dev_blocks d (sys_of v));
       Some ((0, st\<lparr>st_nlinks := 1, st_blocks := b, st_size := b * of_nat (dev_blocksize d (sys_of v))\<rparr>), v)
     }
   }"

text \<open>The position is signed, the remainder and the comparison with the size are unsigned.\<close>

definition dev_tryseek :: "nat \<Rightarrow> u32 \<Rightarrow> int sys_op" where
  "dev_tryseek n pos v = do {
     d \<leftarrow> node_dev (sys_of v) n;
     let b = (of_nat (dev_blocks d (sys_of v)) :: u32);
     let z = (of_nat (dev_blocksize d (sys_of v)) :: u32);
     Some (if b > 0 \<and> pos mod z = 0 \<and> sint pos \<ge> 0 \<and> pos < b * z then 0 else fail_code E_INVAL, v)
   }"

definition dev_lookup :: "nat \<Rightarrow> string \<Rightarrow> (int \<times> nat option) sys_op" where
  "dev_lookup n path v =
     (if path \<noteq> [] then Some ((fail_code E_NOENT, None), v) else Some ((0, Some n), node_ref_inc n v))"

definition dev_create_inode :: "nat option sys_op" where
  "dev_create_inode v =
     (let (a, s) = alloc_node (sfs (sys_of v)); v = mod_sys (\<lambda>x. x\<lparr>sfs := s\<rparr>) v
      in case a of None \<Rightarrow> Some (None, v) | Some n \<Rightarrow> Some (Some n, inode_init n v))"

section \<open>The operations of the nodes\<close>

text \<open>What neither table has (\<^verbatim>\<open>assert\<close> in \<^verbatim>\<open>__vop_op\<close>) panics.\<close>

definition sys_node_ops :: "sys names inode_ops" where
  "sys_node_ops = \<lparr>
     vop_open = \<lambda>n fl v. if is_dev_node n v then dev_open n fl v else on_sfs (vop_open sfs_node_ops n fl) v,
     vop_close = \<lambda>n v. if is_dev_node n v then dev_close n v else on_sfs (sfs_close n) v,
     vop_read = \<lambda>n iob v. do {
       ((ret, iob), v) \<leftarrow> (if is_dev_node n v then dev_read n iob v
         else if is_dir \<lparr>inodes = inodes v, fsdata = sfs (sys_of v)\<rparr> n then None else on_sfs (sfs_read n iob) v);
       Some (ret, iob, v) },
     vop_write = \<lambda>n iob v. do {
       ((ret, iob), v) \<leftarrow> (if is_dev_node n v then dev_write n iob v
         else if is_dir \<lparr>inodes = inodes v, fsdata = sfs (sys_of v)\<rparr> n then None else on_sfs (sfs_write n iob) v);
       Some (ret, iob, v) },
     vop_fstat = \<lambda>n v. do {
       ((ret, st), v) \<leftarrow> (if is_dev_node n v then dev_fstat n v else on_sfs (sfs_fstat n) v);
       Some (ret, st, v) },
     vop_fsync = \<lambda>n v. if is_dev_node n v then None else on_sfs (sfs_fsync n) v,
     vop_getdirentry = \<lambda>n iob v. do {
       ((ret, iob), v) \<leftarrow> (if is_dev_node n v \<or> \<not> is_dir \<lparr>inodes = inodes v, fsdata = sfs (sys_of v)\<rparr> n then None
         else on_sfs (sfs_getdirentry n iob) v);
       Some (ret, iob, v) },
     vop_reclaim = \<lambda>n v. if is_dev_node n v then None else on_sfs (sfs_reclaim n) v,
     vop_tryseek = \<lambda>n pos v. if is_dev_node n v then dev_tryseek n pos v
       else if is_dir \<lparr>inodes = inodes v, fsdata = sfs (sys_of v)\<rparr> n then None else on_sfs (sfs_tryseek n pos) v,
     vop_truncate = \<lambda>n len v. if is_dev_node n v \<or> is_dir \<lparr>inodes = inodes v, fsdata = sfs (sys_of v)\<rparr> n then None
       else on_sfs (sfs_truncfile n len) v,
     vop_create = \<lambda>n p excl v. None,
     vfs_lookup = \<lambda>p v. None,
     vfs_lookup_parent = \<lambda>p v. None\<rparr>"

definition sys_lookup :: "nat \<Rightarrow> string \<Rightarrow> sys names vfs \<Rightarrow> (int \<times> nat option \<times> sys names vfs) option" where
  "sys_lookup n path v =
     (if is_dev_node n v then do { ((ret, m), v) \<leftarrow> dev_lookup n path v; Some (ret, m, v) }
      else if is_dir \<lparr>inodes = inodes v, fsdata = sfs (sys_of v)\<rparr> n then do {
        ((ret, m), v) \<leftarrow> on_sfs (sfs_lookup n path) v;
        Some (ret, if ret = 0 then Some m else None, v)
      } else None)"

definition sys_ops :: "sys names name_ops" where
  "sys_ops = \<lparr>node_ops = sys_node_ops,
     vop_gettype = \<lambda>n v. do {
       ((ret, ty), v) \<leftarrow> (if is_dev_node n v then dev_gettype n v else on_sfs (sfs_gettype n) v);
       Some (ret, ty, v) },
     vop_lookup = sys_lookup,
     vop_namefile = \<lambda>n iob v. do {
       ((ret, iob), v) \<leftarrow> (if is_dev_node n v \<or> \<not> is_dir \<lparr>inodes = inodes v, fsdata = sfs (sys_of v)\<rparr> n then None
         else on_sfs (sfs_namefile n iob) v);
       Some (ret, iob, v) },
     in_fs = \<lambda>n v. if is_dev_node n v then None else Some 0,
     is_device = is_dev_node,
     fs_sync = \<lambda>f. on_sfs sfs_sync,
     fs_get_root = \<lambda>f v. do { (n, v) \<leftarrow> on_sfs sfs_get_root v; Some (Some n, v) },
     fs_unmount = \<lambda>f. on_sfs sfs_unmount,
     fs_cleanup = \<lambda>f v. do { (_, v) \<leftarrow> on_sfs (\<lambda>u. do { u \<leftarrow> sfs_cleanup u; Some ((), u) }) v; Some v },
     memory = \<lambda>v. fmem (sfs (sys_of v)),
     set_memory = \<lambda>m. mod_sys (\<lambda>s. s\<lparr>sfs := (sfs s)\<lparr>fmem := m\<rparr>\<rparr>)\<rparr>"

section \<open>Starting up\<close>

definition add_device :: "dev_kind \<Rightarrow> string \<Rightarrow> bool \<Rightarrow> (sys \<Rightarrow> sys option) \<Rightarrow> sys names vfs \<Rightarrow> sys names vfs option" where
  "add_device k name mnt init v = do {
     (node, v) \<leftarrow> dev_create_inode v;
     n \<leftarrow> node;
     s \<leftarrow> init ((sys_of v)\<lparr>node_dev := (node_dev (sys_of v))(n := Some k)\<rparr>);
     (ret, v) \<leftarrow> vfs_add_dev sys_ops name n mnt (mod_sys (\<lambda>_. s) v);
     kassert (ret = 0);
     Some v
   }"

definition dev_init_stdin :: "sys names vfs \<Rightarrow> sys names vfs option" where
  "dev_init_stdin = add_device Stdin_dev ''stdin'' False (\<lambda>s. Some (s\<lparr>kbd := stdin_device_init stdin_wq (kbd s)\<rparr>))"

definition dev_init_stdout :: "sys names vfs \<Rightarrow> sys names vfs option" where
  "dev_init_stdout = add_device Stdout_dev ''stdout'' False Some"

definition dev_init_disk0 :: "sys names vfs \<Rightarrow> sys names vfs option" where
  "dev_init_disk0 = add_device Disk0_dev ''disk0'' True (\<lambda>s. do {
     (h, d) \<leftarrow> disk0_device_init (fheap (sfs s)) (sdev (sfs s));
     Some (s\<lparr>sfs := (sfs s)\<lparr>fheap := h, sdev := d\<rparr>\<rparr>)
   })"

definition dev_init :: "sys names vfs \<Rightarrow> sys names vfs option" where
  "dev_init v = do { v \<leftarrow> dev_init_stdin v; v \<leftarrow> dev_init_stdout v; dev_init_disk0 v }"

definition sfs_mount :: "string \<Rightarrow> int sys_op" where
  "sfs_mount name = vfs_mount sys_ops name (\<lambda>n v. do {
     kassert (node_dev (sys_of v) n = Some Disk0_dev);
     (ret, v) \<leftarrow> on_sfs (on_fs sfs_do_mount) v;
     Some (ret, if ret = 0 then Some 0 else None, v)
   })"

definition sfs_init :: "sys names vfs \<Rightarrow> sys names vfs option" where
  "sfs_init v = do { (ret, v) \<leftarrow> sfs_mount ''disk0'' v; kassert (ret = 0); Some v }"

definition fs_init :: "sys names vfs \<Rightarrow> sys names vfs option" where
  "fs_init v = do { v \<leftarrow> dev_init (mod_names vfs_init v); sfs_init v }"

definition fs_cleanup_all :: "sys names vfs \<Rightarrow> sys names vfs option" where
  "fs_cleanup_all v = vfs_cleanup sys_ops v"

end
