(* ===== verification/Sfs_Dir.thy ===== *)
theory Sfs_Dir
  imports Sfs_Mount
begin

text \<open>
  Directories of SFS (\<^verbatim>\<open>kern/fs/sfs/sfs_inode.c\<close>): a directory is the list of the entries in its blocks.  A
  look-up finds the first entry with the name, loads its inode if it is not in memory and takes one
  reference to it; nothing else of the file system changes.
\<close>

definition dirent :: "sfs_fs \<Rightarrow> nat \<Rightarrow> nat \<Rightarrow> sfs_disk_entry" where
  "dirent s n i = (let e = bytes_entry (take 260 (blk s (entry s (din_of s n) i))) in e\<lparr>ename := (ename e)[255 := 0]\<rparr>)"

text \<open>The slot of a name: the first entry in use that has it.\<close>

definition named :: "sfs_fs \<Rightarrow> nat \<Rightarrow> string \<Rightarrow> nat \<Rightarrow> bool" where
  "named s n p i \<longleftrightarrow> eino (dirent s n i) \<noteq> 0 \<and> name_bytes p = cstr (ename (dirent s n i))"

definition slot_of :: "sfs_fs \<Rightarrow> nat \<Rightarrow> string \<Rightarrow> nat option" where
  "slot_of s n p = find (named s n p) [0..<dblocks (din_of s n)]"

lemma dirent_disk: "disk_only s s' \<Longrightarrow> blk s' = blk s \<Longrightarrow> dirent s' n = dirent s n \<and> din_of s' n = din_of s n"
  using disk_onlyD(4) [of s s'] by (simp add: dirent_def entry_def fun_eq_iff)

lemma sound_disk: "sound n s \<Longrightarrow> disk_only s s' \<Longrightarrow> blk s' = blk s \<Longrightarrow> sound n s'"
proof -
  assume h: "sound n s" "disk_only s s'" "blk s' = blk s"
  then have "entry s' (din_of s n) = entry s (din_of s n)" by (simp add: entry_def fun_eq_iff)
  then show "sound n s'"
    using h disk_only_space [OF _ h(2)] disk_only_same [OF h(2)] disk_onlyD(4) [OF h(2)]
    by (simp add: sound_def file_ok_def)
qed

lemma dirent_read_ok:
  assumes "sound n s" "dtype (din_of s n) = SFS_TYPE_DIR" "i < dblocks (din_of s n)"
  shows "\<exists>s'. sfs_dirent_read_nolock n i s = Some ((0, dirent s n i), s') \<and> disk_only s s' \<and> blk s' = blk s"
proof -
  let ?b = "entry s (din_of s n) i"
  have f: "space_inv s" "file_ok s (din_of s n)" using assms(1) by (simp_all add: sound_def)
  obtain s1 where s1: "sfs_bmap_load_nolock n i s = Some ((0, ?b), s1)" "disk_only s s1" "blk s1 = blk s"
    using bmap_load_old [OF f assms(3)] by blast
  have u: "?b \<in> used_blocks s1" using file_okD(5) [OF f(2) assms(3)] disk_only_same [OF s1(2)] by simp
  have inv: "space_inv s1" using disk_only_space [OF f(1) s1(2)] .
  obtain s2 where s2: "sfs_rbuf 260 ?b 0 s1 = Some ((0, take 260 (blk s ?b)), s2)" "disk_only s1 s2" "blk s2 = blk s1"
    using rbuf_ok [OF space_invD(1) [OF inv], of ?b 0 260] used_pos [OF u] s1(3) by auto
  have "sfs_dirent_read_nolock n i s = Some ((0, dirent s n i), s2)"
    using assms(2,3) s1(1) inuse_used [OF inv u] s2(1)
    by (simp add: sfs_dirent_read_nolock_def sizeof_entry_def dirent_def SFS_MAX_FNAME_LEN_def Let_def)
  then show ?thesis using disk_only_trans [OF s1(2) s2(2)] s1(3) s2(3) by auto
qed

text \<open>The search from slot \<open>i\<close> on.\<close>

lemma dirent_search_from_ok:
  assumes "sound n s" "dtype (din_of s n) = SFS_TYPE_DIR" "i + k \<le> dblocks (din_of s n)"
  shows "\<exists>s'. dirent_search_from n p i k s = Some (case find (named s n p) [i..<i + k] of
      None \<Rightarrow> (fail_code E_NOENT, 0, 0) | Some j \<Rightarrow> (0, eino (dirent s n j), j), s') \<and> disk_only s s' \<and> blk s' = blk s"
  using assms
proof (induction k arbitrary: i s)
  case 0
  have "disk_only s s" using 0(1) by (simp add: sound_def space_inv_def dev_ok_def disk_only_def same_disk_def)
  then show ?case by simp
next
  case (Suc k)
  obtain s1 where s1: "sfs_dirent_read_nolock n i s = Some ((0, dirent s n i), s1)" "disk_only s s1" "blk s1 = blk s"
    using dirent_read_ok [OF Suc.prems(1,2), of i] Suc.prems(3) by auto
  have e: "dirent s1 n = dirent s n" "din_of s1 n = din_of s n" using dirent_disk [OF s1(2,3)] by simp_all
  have nm: "named s1 n p = named s n p" by (simp add: named_def fun_eq_iff e)
  have u: "[i..<i + Suc k] = i # [Suc i..<Suc i + k]" by (simp add: upt_conv_Cons del: upt_Suc)
  show ?case
  proof (cases "named s n p i")
    case True
    then show ?thesis using s1 unfolding u by (auto simp: named_def)
  next
    case False
    obtain s2 where s2: "dirent_search_from n p (Suc i) k s1 = Some (case find (named s n p) [Suc i..<Suc i + k] of
        None \<Rightarrow> (fail_code E_NOENT, 0, 0) | Some j \<Rightarrow> (0, eino (dirent s n j), j), s2)" "disk_only s1 s2" "blk s2 = blk s1"
      using Suc.IH [of s1 "Suc i"] sound_disk [OF Suc.prems(1) s1(2,3)] Suc.prems(2,3) unfolding nm e by auto
    have "dirent_search_from n p i (Suc k) s = dirent_search_from n p (Suc i) k s1"
      using s1(1) False by (auto simp: named_def)
    then show ?thesis using s2 False disk_only_trans [OF s1(2) s2(2)] s1(3) unfolding u by simp
  qed
qed

text \<open>Between two states only the device and the count of objects differ, and no block has changed.\<close>

definition reads :: "sfs_fs \<Rightarrow> sfs_fs \<Rightarrow> bool" where
  "reads s s' \<longleftrightarrow> s' = s\<lparr>sdev := sdev s', fheap := fheap s'\<rparr> \<and> same_disk (sdev s) (sdev s') \<and> blk s' = blk s"

lemma readsD:
  assumes "reads s s'"
  shows "super s' = super s" "freemap s' = freemap s" "super_dirty s' = super_dirty s" "sfs_inodes s' = sfs_inodes s"
    "inode_list s' = inode_list s" "hash_list s' = hash_list s" "fmem s' = fmem s" "node_ans s' = node_ans s" "blk s' = blk s"
    "same_disk (sdev s) (sdev s')" "space_inv s \<Longrightarrow> space_inv s'" "used_blocks s' = used_blocks s"
proof -
  from assms have e: "s' = s\<lparr>sdev := sdev s', fheap := fheap s'\<rparr>" and d: "same_disk (sdev s) (sdev s')"
    and b: "blk s' = blk s" by (simp_all add: reads_def)
  show g: "super s' = super s" "freemap s' = freemap s" "super_dirty s' = super_dirty s" "sfs_inodes s' = sfs_inodes s"
    "inode_list s' = inode_list s" "hash_list s' = hash_list s" "fmem s' = fmem s" "node_ans s' = node_ans s"
    by (subst e; simp)+
  show "blk s' = blk s" "same_disk (sdev s) (sdev s')" by (rule b, rule d)
  show "space_inv s \<Longrightarrow> space_inv s'" "used_blocks s' = used_blocks s"
    using d g by (simp_all add: space_inv_def free_blocks_def used_blocks_def dev_ok_def same_disk_def)
qed

lemma over_dev_heap: "b = a\<lparr>sdev := u, fheap := w\<rparr> \<Longrightarrow> b\<lparr>sdev := x, fheap := y\<rparr> = a\<lparr>sdev := x, fheap := y\<rparr>"
  for a b :: sfs_fs
  by simp

lemma reads_trans:
  assumes "reads a b" "reads b c" shows "reads a c"
proof -
  have "b = a\<lparr>sdev := sdev b, fheap := fheap b\<rparr>" "c = b\<lparr>sdev := sdev c, fheap := fheap c\<rparr>"
    using assms by (simp_all add: reads_def)
  then have "c = a\<lparr>sdev := sdev c, fheap := fheap c\<rparr>" using over_dev_heap by metis
  then show ?thesis using assms by (simp add: reads_def same_disk_def)
qed

lemma reads_disk: "disk_only s s' \<Longrightarrow> blk s' = blk s \<Longrightarrow> reads s s'"
proof -
  assume h: "disk_only s s'" "blk s' = blk s"
  then have "s' = s\<lparr>sdev := sdev s'\<rparr>" by (simp add: disk_only_def)
  then have "s' = s\<lparr>sdev := sdev s', fheap := fheap s'\<rparr>" using disk_onlyD(8) [OF h(1)] by simp
  then show ?thesis using h by (simp add: reads_def disk_only_def)
qed

lemma reads_heap: "space_inv s \<Longrightarrow> reads s (s\<lparr>fheap := h\<rparr>)"
  by (simp add: reads_def blk_def same_disk_def space_inv_def dev_ok_def)

lemma reads_sound: "sound n s \<Longrightarrow> reads s s' \<Longrightarrow> sound n s' \<and> dirent s' n = dirent s n"
proof -
  assume h: "sound n s" "reads s s'"
  then have "entry s' (din_of s n) = entry s (din_of s n)" using readsD(9) [OF h(2)] by (rule_tac ext) (simp add: entry_def)
  then show "sound n s' \<and> dirent s' n = dirent s n"
    using h(1) readsD [OF h(2)] by (auto simp: sound_def file_ok_def dirent_def)
qed

lemma search_ok:
  assumes "sound n s" "dtype (din_of s n) = SFS_TYPE_DIR" "length p \<le> 255"
  shows "\<exists>r s'. sfs_dirent_search_nolock n p s = Some (r, s') \<and> reads s s' \<and>
    (if fst (take_obj s) then r = (case slot_of s n p of None \<Rightarrow> (fail_code E_NOENT, 0, 0) | Some j \<Rightarrow> (0, eino (dirent s n j), j)) \<and>
       kans (fheap s') = tl (kans (fheap s)) else r = (fail_code E_NO_MEM, 0, 0))"
proof -
  have inv: "space_inv s" using assms(1) by (simp add: sound_def)
  let ?ok = "fst (get_obj (fheap s))" and ?h = "snd (get_obj (fheap s))"
  let ?s1 = "s\<lparr>fheap := ?h\<rparr>"
  have t: "take_obj s = (?ok, ?s1)" by (simp add: take_obj_def split_def Let_def)
  have r1: "reads s ?s1" by (rule reads_heap [OF inv])
  show ?thesis
  proof (cases ?ok)
    case False
    then show ?thesis using t r1 assms(3) by (simp add: sfs_dirent_search_nolock_def SFS_MAX_FNAME_LEN_def)
  next
    case True
    have k: "kans ?h = tl (kans (fheap s))" using True by (auto simp: get_obj_def split: list.splits bool.splits)
    have so: "sound n ?s1" "dirent ?s1 n = dirent s n" using reads_sound [OF assms(1) r1] by simp_all
    have "named ?s1 n p = named s n p" by (simp add: named_def fun_eq_iff so(2))
    then obtain s2 where s2: "dirent_search_from n p 0 (dblocks (din_of s n)) ?s1 = Some (case slot_of s n p of
        None \<Rightarrow> (fail_code E_NOENT, 0, 0) | Some j \<Rightarrow> (0, eino (dirent s n j), j), s2)" "disk_only ?s1 s2" "blk s2 = blk ?s1"
      using dirent_search_from_ok [OF so(1), of 0 "dblocks (din_of s n)" p] assms(2) so(2) \<open>named ?s1 n p = named s n p\<close>
      by (auto simp: slot_of_def so(2) cong: option.case_cong)
    have run: "sfs_dirent_search_nolock n p s = Some (case slot_of s n p of
        None \<Rightarrow> (fail_code E_NOENT, 0, 0) | Some j \<Rightarrow> (0, eino (dirent s n j), j), give_obj s2)"
      using True t assms(3) s2(1) by (simp add: sfs_dirent_search_nolock_def SFS_MAX_FNAME_LEN_def)
    have r2: "reads s s2" using reads_trans [OF r1 reads_disk [OF s2(2,3)]] .
    then have "reads s (give_obj s2)"
      using reads_trans [OF r2 reads_heap [OF readsD(11) [OF r2 inv]]] by (simp add: give_obj_def)
    moreover have "kans (fheap (give_obj s2)) = kans ?h"
      using disk_onlyD(8) [OF s2(2)] by (simp add: give_obj_def put_obj_def)
    ultimately show ?thesis using True t run k by (intro exI conjI) auto
  qed
qed

section \<open>Loading an inode\<close>

definition loaded :: "sfs_fs \<Rightarrow> nat \<Rightarrow> nat option" where
  "loaded s i = find (\<lambda>n. ino (sfs_inodes s n) = i) (sfs_hash_list s i)"

definition inode_at :: "sfs_fs \<Rightarrow> nat \<Rightarrow> sfs_disk_inode" where
  "inode_at s i = bytes_din (take 64 (blk s i))"

text \<open>What is on the disk, and what the superblock and the free map say, is as it was.\<close>

definition same_store :: "sfs_fs \<Rightarrow> sfs_fs \<Rightarrow> bool" where
  "same_store s s' \<longleftrightarrow> blk s' = blk s \<and> super s' = super s \<and> freemap s' = freemap s \<and> super_dirty s' = super_dirty s \<and>
     fmem s' = fmem s \<and> same_disk (sdev s) (sdev s')"

text \<open>
  The node \<open>m\<close> of inode \<open>i\<close> has one more reference, or has been loaded from the disk with one reference;
  no other node has changed.
\<close>

definition got_node :: "nat \<Rightarrow> nat \<Rightarrow> sfs_fs vfs \<Rightarrow> sfs_fs vfs \<Rightarrow> bool" where
  "got_node i m v v' \<longleftrightarrow> ino (sfs_inodes (fsdata v') m) = i \<and> loaded (fsdata v') i = Some m \<and>
     (\<forall>k. k \<noteq> m \<longrightarrow> sfs_inodes (fsdata v') k = sfs_inodes (fsdata v) k \<and> inodes v' k = inodes v k) \<and>
     (case loaded (fsdata v) i of
       Some x \<Rightarrow> m = x \<and> din_of (fsdata v') m = din_of (fsdata v) m \<and> inode_list (fsdata v') = inode_list (fsdata v) \<and>
         inodes v' m = (inodes v m)\<lparr>ref_count := ref_count (inodes v m) + 1\<rparr>
     | None \<Rightarrow> (\<exists>as. node_ans (fsdata v) = Some m # as) \<and> din_of (fsdata v') m = inode_at (fsdata v) i \<and>
         inode_list (fsdata v') = m # inode_list (fsdata v) \<and> inodes v' m = \<lparr>ref_count = 1, iopen_count = 0\<rparr>)"

definition can_alloc :: "sfs_fs \<Rightarrow> bool" where
  "can_alloc s \<longleftrightarrow> fst (take_obj s) \<and> (\<exists>m as. node_ans s = Some m # as)"

lemma same_store_reads: "reads s s' \<Longrightarrow> same_store s s'"
  using readsD [of s s'] by (simp add: same_store_def)

lemma same_store_trans: "same_store a b \<Longrightarrow> same_store b c \<Longrightarrow> same_store a c"
  by (simp add: same_store_def same_disk_def)

lemma bump_self: "space_inv s \<Longrightarrow> same_store s s"
  by (simp add: same_store_def same_disk_def space_inv_def dev_ok_def)

lemma no_node:
  assumes "\<And>m as. node_ans s \<noteq> Some m # as"
  shows "\<exists>s'. alloc_node s = (None, s') \<and> s' = s\<lparr>node_ans := node_ans s'\<rparr>"
proof (cases "node_ans s")
  case Nil
  then show ?thesis by (simp add: alloc_node_def)
next
  case (Cons a as)
  then show ?thesis using assms by (cases a) (simp_all add: alloc_node_def)
qed

lemma load_inode_ok:
  assumes inv: "space_inv (fsdata v)" and i: "i \<in> used_blocks (fsdata v)"
    and d: "loaded (fsdata v) i = None \<Longrightarrow> nlinks (inode_at (fsdata v) i) \<noteq> 0 \<and> dtype (inode_at (fsdata v) i) \<in> {SFS_TYPE_FILE, SFS_TYPE_DIR}"
  shows "\<exists>ret m v'. sfs_load_inode i v = Some ((ret, m), v') \<and> same_store (fsdata v) (fsdata v') \<and>
    (ret = 0 \<and> got_node i m v v' \<or>
     ret = fail_code E_NO_MEM \<and> inodes v' = inodes v \<and> sfs_inodes (fsdata v') = sfs_inodes (fsdata v) \<and>
       \<not> can_alloc (fsdata v) \<and> loaded (fsdata v) i = None)"
proof (cases "loaded (fsdata v) i")
  case (Some x)
  let ?s = "fsdata v"
  let ?v1 = "mod_inode x (\<lambda>d. d\<lparr>ref_count := ref_count d + 1\<rparr>) v"
  define w where "w = (if ref_count (inodes v x) + 1 = 1 then Sfs_Node.mod_fs (mod_sin x (\<lambda>y. y\<lparr>reclaim_count := reclaim_count y + 1\<rparr>)) ?v1 else ?v1)"
  have run: "sfs_load_inode i v = Some ((0, x), w)"
    using Some by (simp add: sfs_load_inode_def lookup_sfs_nolock_def loaded_def inode_ref_inc_def Let_def w_def)
  have x: "ino (sfs_inodes ?s x) = i" using Some unfolding loaded_def find_Some_iff by auto
  have sin: "sfs_inodes (fsdata w) k = (if k = x \<and> ref_count (inodes v x) = 0 then (sfs_inodes ?s k)\<lparr>reclaim_count := reclaim_count (sfs_inodes ?s k) + 1\<rparr> else sfs_inodes ?s k)" for k
    by (simp add: w_def Sfs_Node.mod_fs_def mod_sin_def mod_inode_def)
  have p: "(\<lambda>k. ino (sfs_inodes (fsdata w) k) = i) = (\<lambda>k. ino (sfs_inodes ?s k) = i)" unfolding sin by (rule ext) simp
  have "sfs_hash_list (fsdata w) i = sfs_hash_list ?s i"
    by (simp add: sfs_hash_list_def w_def Sfs_Node.mod_fs_def mod_sin_def mod_inode_def)
  then have "loaded (fsdata w) i = loaded ?s i" unfolding loaded_def p by simp
  moreover have "same_store ?s (fsdata w)"
    using bump_self [OF inv] by (simp add: same_store_def w_def Sfs_Node.mod_fs_def mod_sin_def mod_inode_def blk_def)
  moreover have "inode_list (fsdata w) = inode_list ?s" "inodes w = (inodes v)(x := (inodes v x)\<lparr>ref_count := ref_count (inodes v x) + 1\<rparr>)"
    by (simp_all add: w_def Sfs_Node.mod_fs_def mod_sin_def mod_inode_def)
  ultimately have "same_store ?s (fsdata w) \<and> got_node i x v w"
    using Some x by (simp add: got_node_def sin)
  then show ?thesis using run by blast
next
  case None
  let ?s = "fsdata v"
  let ?ok = "fst (take_obj ?s)" and ?s1 = "snd (take_obj ?s)"
  have t: "take_obj ?s = (?ok, ?s1)" by simp
  have r1: "reads ?s ?s1" using reads_heap [OF inv] by (simp add: take_obj_def split_def Let_def)
  have lk: "lookup_sfs_nolock i v = (None, v)" using None by (simp add: lookup_sfs_nolock_def loaded_def)
  show ?thesis
  proof (cases ?ok)
    case False
    then have "sfs_load_inode i v = Some ((fail_code E_NO_MEM, 0), v\<lparr>fsdata := ?s1\<rparr>)"
      using lk t by (simp add: sfs_load_inode_def Let_def split_def)
    then show ?thesis using same_store_reads [OF r1] readsD(4) [OF r1] False None by (auto simp: can_alloc_def)
  next
    case True
    have inv1: "space_inv ?s1" and u1: "i \<in> used_blocks ?s1" using readsD(11,12) [OF r1] inv i by simp_all
    obtain s2 where s2: "sfs_rbuf 64 i 0 ?s1 = Some ((0, take 64 (blk ?s i)), s2)" "disk_only ?s1 s2" "blk s2 = blk ?s1"
      using rbuf_ok [OF space_invD(1) [OF inv1], of i 0 64] used_pos [OF u1] readsD(9) [OF r1] by auto
    have r2: "reads ?s s2" using reads_trans [OF r1 reads_disk [OF s2(2,3)]] .
    have inv2: "space_inv s2" using readsD(11) [OF r2 inv] .
    have dd: "nlinks (inode_at ?s i) \<noteq> 0" "sfs_get_ops (dtype (inode_at ?s i)) \<noteq> None"
      using d [OF None] by (auto simp: sfs_get_ops_def)
    let ?v2 = "v\<lparr>fsdata := s2\<rparr>"
    have head: "sfs_load_inode i v = do {
        ((ret, n), v) \<leftarrow> sfs_create_inode (inode_at ?s i) i ?v2;
        if ret \<noteq> 0 then Some ((ret, 0), Sfs_Node.mod_fs give_obj v)
        else Some ((0, n), Sfs_Node.mod_fs (sfs_set_links n) v) }"
      using True lk t s2(1) dd(1) inuse_used [OF inv1 u1]
      by (simp add: sfs_load_inode_def on_fs_def sizeof_din_def inode_at_def Let_def split_def)
    have na: "node_ans s2 = node_ans ?s" using readsD(8) [OF r2] .
    show ?thesis
    proof (cases "\<exists>m as. node_ans ?s = Some m # as")
      case False
      then obtain s3 where a: "alloc_node s2 = (None, s3)" "s3 = s2\<lparr>node_ans := node_ans s3\<rparr>"
        using na no_node [of s2] by auto
      have c: "sfs_create_inode (inode_at ?s i) i ?v2 = Some ((fail_code E_NO_MEM, 0), v\<lparr>fsdata := s3\<rparr>)"
        using a(1) by (simp add: sfs_create_inode_def)
      have run: "sfs_load_inode i v = Some ((fail_code E_NO_MEM, 0), v\<lparr>fsdata := give_obj s3\<rparr>)"
        unfolding head c by (simp add: Sfs_Node.mod_fs_def)
      have "same_store ?s (give_obj s3)" "sfs_inodes (give_obj s3) = sfs_inodes ?s"
        using readsD [OF r2] by (subst a(2), simp add: same_store_def give_obj_def blk_def)+
      then show ?thesis using run False None by (auto simp: can_alloc_def)
    next
      case True
      then obtain m as where m: "node_ans ?s = Some m # as" by blast
      define s3 where "s3 = s2\<lparr>node_ans := as, fheap := (fheap s2)\<lparr>kout := kout (fheap s2) + 1\<rparr>\<rparr>"
      define s4 where "s4 = mod_sin m (\<lambda>_. \<lparr>din = inode_at ?s i, ino = i, dirty = False, reclaim_count = 1\<rparr>) s3"
      let ?v4 = "Sfs_Node.mod_fs (sfs_set_links m) (inode_init m (v\<lparr>fsdata := s3\<rparr>)\<lparr>fsdata := s4\<rparr>)"
      have a: "alloc_node s2 = (Some m, s3)" using m na by (simp add: alloc_node_def s3_def)
      obtain ops where o': "sfs_get_ops (dtype (inode_at ?s i)) = Some ops" using dd(2) by blast
      have c: "sfs_create_inode (inode_at ?s i) i ?v2 = Some ((0, m), inode_init m (v\<lparr>fsdata := s3\<rparr>)\<lparr>fsdata := s4\<rparr>)"
        using a o' by (simp add: sfs_create_inode_def Sfs_Node.mod_fs_def s4_def inode_init_def mod_inode_def)
      have run: "sfs_load_inode i v = Some ((0, m), ?v4)" unfolding head c by simp
      have f4: "fsdata ?v4 = sfs_set_links m s4" by (simp add: Sfs_Node.mod_fs_def)
      have i4: "inodes ?v4 = (inodes v)(m := \<lparr>ref_count = 1, iopen_count = 0\<rparr>)"
        by (simp add: Sfs_Node.mod_fs_def inode_init_def mod_inode_def fun_eq_iff)
      have sin: "sfs_inodes (sfs_set_links m s4) = (sfs_inodes ?s)(m := \<lparr>din = inode_at ?s i, ino = i, dirty = False, reclaim_count = 1\<rparr>)"
        using readsD(4) [OF r2] by (simp add: sfs_set_links_def Let_def s4_def mod_sin_def s3_def)
      have ls: "hash_list (sfs_set_links m s4) (sin_hashfn i) = m # hash_list ?s (sin_hashfn i)"
        "inode_list (sfs_set_links m s4) = m # inode_list ?s"
        using readsD(5,6) [OF r2] by (simp_all add: sfs_set_links_def Let_def s4_def mod_sin_def s3_def)
      have "loaded (sfs_set_links m s4) i = Some m" by (simp add: loaded_def sfs_hash_list_def ls sin)
      moreover have "same_store ?s (sfs_set_links m s4)"
        using readsD [OF r2] by (simp add: same_store_def sfs_set_links_def Let_def s4_def mod_sin_def s3_def blk_def)
      ultimately show ?thesis using run None m
        by (intro exI [of _ 0] exI [of _ m] exI [of _ ?v4]) (simp add: got_node_def f4 i4 sin ls)
    qed
  qed
qed

section \<open>Looking up a name\<close>

text \<open>
  The entries of a directory name inodes that can be loaded.
\<close>

definition dir_sound :: "nat \<Rightarrow> sfs_fs \<Rightarrow> bool" where
  "dir_sound n s \<longleftrightarrow> sound n s \<and> dtype (din_of s n) = SFS_TYPE_DIR \<and>
     (\<forall>i<dblocks (din_of s n). eino (dirent s n i) \<noteq> 0 \<longrightarrow> eino (dirent s n i) \<in> used_blocks s \<and>
        (loaded s (eino (dirent s n i)) = None \<longrightarrow> nlinks (inode_at s (eino (dirent s n i))) \<noteq> 0 \<and>
           dtype (inode_at s (eino (dirent s n i))) \<in> {SFS_TYPE_FILE, SFS_TYPE_DIR}))"

lemma slot_ofD: "slot_of s n p = Some j \<Longrightarrow> j < dblocks (din_of s n) \<and> named s n p j"
  by (auto simp: slot_of_def find_Some_iff)

lemma ref_dec_live:
  assumes "1 < ref_count (inodes v n)"
  shows "inode_ref_dec ops n v = Some (ref_count (inodes v n) - 1, mod_inode n (\<lambda>d. d\<lparr>ref_count := ref_count d - 1\<rparr>) v)"
  using assms by (simp add: inode_ref_dec_def Let_def)

text \<open>What a look-up of \<open>p\<close> in \<open>n\<close> answers, and what it does to the counts.\<close>

definition looked_up :: "nat \<Rightarrow> string \<Rightarrow> int \<Rightarrow> nat \<Rightarrow> sfs_fs vfs \<Rightarrow> sfs_fs vfs \<Rightarrow> bool" where
  "looked_up n p ret m v v' \<longleftrightarrow> same_store (fsdata v) (fsdata v') \<and>
     (ret = 0 \<and> (\<exists>j. slot_of (fsdata v) n p = Some j \<and> got_node (eino (dirent (fsdata v) n j)) m v v') \<or>
      ret = fail_code E_NOENT \<and> slot_of (fsdata v) n p = None \<and> inodes v' = inodes v \<and> sfs_inodes (fsdata v') = sfs_inodes (fsdata v) \<or>
      ret = fail_code E_NO_MEM \<and> inodes v' = inodes v \<and> sfs_inodes (fsdata v') = sfs_inodes (fsdata v))"

lemma reads_loaded:
  "reads s s' \<Longrightarrow> loaded s' i = loaded s i \<and> inode_at s' i = inode_at s i"
  using readsD [of s s'] by (simp add: loaded_def sfs_hash_list_def inode_at_def)

text \<open>The reference that the look-up holds on the directory comes and goes.\<close>

lemma got_node_under:
  assumes g: "got_node i m (mod_inode n (\<lambda>d. d\<lparr>ref_count := ref_count d + 1\<rparr>) v\<lparr>fsdata := s2\<rparr>) v3"
    and r: "reads (fsdata v) s2" and live: "0 < ref_count (inodes v n)"
    and fresh: "\<And>k as. node_ans (fsdata v) = Some k # as \<Longrightarrow> ref_count (inodes v k) = 0"
  shows "1 < ref_count (inodes v3 n)"
    "got_node i m v (mod_inode n (\<lambda>d. d\<lparr>ref_count := ref_count d - 1\<rparr>) v3)"
proof -
  let ?w = "mod_inode n (\<lambda>d. d\<lparr>ref_count := ref_count d + 1\<rparr>) v\<lparr>fsdata := s2\<rparr>"
  let ?v' = "mod_inode n (\<lambda>d. d\<lparr>ref_count := ref_count d - 1\<rparr>) v3"
  have w: "inodes ?w k = (if k = n then (inodes v n)\<lparr>ref_count := ref_count (inodes v n) + 1\<rparr> else inodes v k)" "fsdata ?w = s2" for k
    by (simp_all add: mod_inode_def)
  have ls: "loaded s2 i = loaded (fsdata v) i" "inode_at s2 i = inode_at (fsdata v) i" "node_ans s2 = node_ans (fsdata v)"
    "sfs_inodes s2 = sfs_inodes (fsdata v)" "inode_list s2 = inode_list (fsdata v)"
    using reads_loaded [OF r] readsD [OF r] by simp_all
  have ne: "m \<noteq> n" if "loaded (fsdata v) i = None"
    using g that fresh live unfolding got_node_def w ls by auto
  have o: "inodes v3 k = inodes ?w k" if "k \<noteq> m" for k using g that by (simp add: got_node_def)
  have sm: "ref_count (inodes v3 n) = ref_count (inodes v n) + 1 + (if m = n then 1 else 0)"
  proof (cases "m = n")
    case True
    then obtain x where "loaded (fsdata v) i = Some x" using ne by (cases "loaded (fsdata v) i") auto
    then have "inodes v3 m = (inodes ?w m)\<lparr>ref_count := ref_count (inodes ?w m) + 1\<rparr>"
      using g unfolding got_node_def w(2) ls by (auto simp del: mod_inode_simps)
    then show ?thesis using True by (simp add: w)
  next
    case False
    then show ?thesis using o [of n] by (simp add: w)
  qed
  then show "1 < ref_count (inodes v3 n)" using live by simp
  define v' where "v' = ?v'"
  have f: "fsdata v' = fsdata v3" "inodes v' k = (if k = n then (inodes v3 n)\<lparr>ref_count := ref_count (inodes v3 n) - 1\<rparr> else inodes v3 k)" for k
    by (simp_all add: v'_def mod_inode_def)
  have "got_node i m v v'"
  proof (cases "loaded (fsdata v) i")
    case None
    then show ?thesis using g ne [OF None] sm unfolding got_node_def w(2) ls f by (auto simp: w)
  next
    case (Some x)
    then have x: "m = x" "inodes v3 m = (inodes ?w m)\<lparr>ref_count := ref_count (inodes ?w m) + 1\<rparr>"
      using g unfolding got_node_def w(2) ls by (auto simp del: mod_inode_simps)
    have m: "inodes v' m = (inodes v m)\<lparr>ref_count := ref_count (inodes v m) + 1\<rparr>"
      using x(2) unfolding f w by (cases "m = n") auto
    have k: "inodes v' k = inodes v k" if "k \<noteq> m" for k
      using o [OF that] unfolding f w by (cases "k = n") simp_all
    show ?thesis using g Some m k unfolding got_node_def w(2) ls f(1) by auto
  qed
  then show "got_node i m v ?v'" unfolding v'_def .
qed

lemma sfs_lookup_found:
  assumes "dir_sound n (fsdata v)" "0 < ref_count (inodes v n)" "p \<noteq> []" "hd p \<noteq> CHR ''/''" "length p \<le> 255"
    "\<And>k as. node_ans (fsdata v) = Some k # as \<Longrightarrow> ref_count (inodes v k) = 0"
  shows "\<exists>ret m v'. sfs_lookup n p v = Some ((ret, m), v') \<and> looked_up n p ret m v v' \<and>
    ((\<exists>ks k as. kans (fheap (fsdata v)) = True # True # ks \<and> node_ans (fsdata v) = Some k # as) \<longrightarrow> ret \<noteq> fail_code E_NO_MEM)"
proof -
  let ?s = "fsdata v"
  let ?w = "mod_inode n (\<lambda>d. d\<lparr>ref_count := ref_count d + 1\<rparr>) v"
  have so: "sound n ?s" "dtype (din_of ?s n) = SFS_TYPE_DIR" using assms(1) by (simp_all add: dir_sound_def)
  have inv: "space_inv ?s" using so(1) by (simp add: sound_def)
  have w: "fsdata ?w = ?s" by simp
  have wn: "1 < ref_count (inodes ?w n)" using assms(2) by simp
  have dr: "is_dir ?w n" using so(2) by (simp add: is_dir_def)
  obtain r s2 where sr: "sfs_dirent_search_nolock n p ?s = Some (r, s2)" "reads ?s s2"
    "if fst (take_obj ?s) then r = (case slot_of ?s n p of None \<Rightarrow> (fail_code E_NOENT, 0, 0) | Some j \<Rightarrow> (0, eino (dirent ?s n j), j)) \<and>
       kans (fheap s2) = tl (kans (fheap ?s)) else r = (fail_code E_NO_MEM, 0, 0)"
    using search_ok [OF so assms(5)] by blast
  have lk: "sfs_lookup n p v = do {
      ((ret, m), v) \<leftarrow> sfs_lookup_once n p ?w;
      v \<leftarrow> sfs_ref_dec n v;
      Some ((ret, if ret \<noteq> 0 then 0 else m), v) }"
    using assms(3,4) dr by (simp add: sfs_lookup_def inode_ref_inc_def)
  let ?w2 = "?w\<lparr>fsdata := s2\<rparr>"
  have dec: "sfs_ref_dec n u = Some (mod_inode n (\<lambda>d. d\<lparr>ref_count := ref_count d - 1\<rparr>) u)" if "1 < ref_count (inodes u n)" for u
    using ref_dec_live [OF that] by (simp add: sfs_ref_dec_def)
  have once: "sfs_lookup_once n p ?w = (if fst r = 0 then sfs_load_inode (fst (snd r)) ?w2 else Some ((fst r, 0), ?w2))"
    using sr(1) by (simp add: sfs_lookup_once_def on_fs_def w split_def)
  have st2: "same_store ?s s2" using same_store_reads [OF sr(2)] .
  have "1 < ref_count (inodes ?w2 n)" using assms(2) by simp
  moreover have "mod_inode n (\<lambda>d. d\<lparr>ref_count := ref_count d - 1\<rparr>) ?w2 = v\<lparr>fsdata := s2\<rparr>" by (simp add: mod_inode_def)
  ultimately have drop: "sfs_ref_dec n ?w2 = Some (v\<lparr>fsdata := s2\<rparr>)" using dec by simp
  have plain: "sfs_lookup n p v = Some ((fst r, 0), v\<lparr>fsdata := s2\<rparr>)" if "fst r \<noteq> 0"
    using that by (simp add: lk once drop)
  have mem: "fst (take_obj ?s)" if "kans (fheap ?s) = True # ks" for ks using that by (simp add: take_obj_def get_obj_def)
  show ?thesis
  proof (cases "fst (take_obj ?s)")
    case False
    then have r: "r = (fail_code E_NO_MEM, 0, 0)" using sr(3) by simp
    then show ?thesis using plain st2 readsD(4) [OF sr(2)] False mem by (auto simp: looked_up_def)
  next
    case True
    show ?thesis
    proof (cases "slot_of ?s n p")
      case None
      then have r: "r = (fail_code E_NOENT, 0, 0)" using sr(3) True by simp
      then show ?thesis using plain st2 readsD(4) [OF sr(2)] None by (auto simp: looked_up_def)
    next
      case (Some j)
      let ?i = "eino (dirent ?s n j)"
      have r: "r = (0, ?i, j)" and k2: "kans (fheap s2) = tl (kans (fheap ?s))" using sr(3) True Some by simp_all
      have j: "j < dblocks (din_of ?s n)" "?i \<noteq> 0" using slot_ofD [OF Some] by (simp_all add: named_def)
      have ds: "?i \<in> used_blocks ?s" "loaded ?s ?i = None \<Longrightarrow> nlinks (inode_at ?s ?i) \<noteq> 0 \<and> dtype (inode_at ?s ?i) \<in> {SFS_TYPE_FILE, SFS_TYPE_DIR}"
        using assms(1) j unfolding dir_sound_def by blast+
      have "space_inv (fsdata ?w2)" "?i \<in> used_blocks (fsdata ?w2)"
        "loaded (fsdata ?w2) ?i = None \<Longrightarrow> nlinks (inode_at (fsdata ?w2) ?i) \<noteq> 0 \<and> dtype (inode_at (fsdata ?w2) ?i) \<in> {SFS_TYPE_FILE, SFS_TYPE_DIR}"
        using ds readsD(11,12) [OF sr(2)] inv reads_loaded [OF sr(2)] by simp_all
      from load_inode_ok [OF this] obtain ret m v3 where l: "sfs_load_inode ?i ?w2 = Some ((ret, m), v3)"
        "same_store s2 (fsdata v3)" "ret = 0 \<and> got_node ?i m ?w2 v3 \<or> ret = fail_code E_NO_MEM \<and> inodes v3 = inodes ?w2 \<and>
          sfs_inodes (fsdata v3) = sfs_inodes s2 \<and> \<not> can_alloc s2" by auto
      have st: "same_store ?s (fsdata v3)" using same_store_trans [OF st2 l(2)] .
      from l(3) show ?thesis
      proof (elim disjE conjE)
        assume g: "ret = 0" "got_node ?i m ?w2 v3"
        note u = got_node_under [OF g(2) sr(2) assms(2,6)]
        have "sfs_lookup n p v = Some ((0, m), mod_inode n (\<lambda>d. d\<lparr>ref_count := ref_count d - 1\<rparr>) v3)"
          using dec [OF u(1)] by (simp add: lk once r l(1) g(1))
        moreover have "looked_up n p 0 m v (mod_inode n (\<lambda>d. d\<lparr>ref_count := ref_count d - 1\<rparr>) v3)"
          using u(2) st Some by (simp add: looked_up_def)
        ultimately show ?thesis by (intro exI conjI) auto
      next
        assume e: "ret = fail_code E_NO_MEM" "inodes v3 = inodes ?w2" "sfs_inodes (fsdata v3) = sfs_inodes s2" "\<not> can_alloc s2"
        let ?v' = "mod_inode n (\<lambda>d. d\<lparr>ref_count := ref_count d - 1\<rparr>) v3"
        have i: "inodes ?v' = inodes v" using e(2) by (simp add: mod_inode_def)
        have "sfs_lookup n p v = Some ((fail_code E_NO_MEM, 0), ?v')"
          using dec [of v3] wn by (simp add: lk once r l(1) e(1,2))
        moreover have "looked_up n p (fail_code E_NO_MEM) 0 v ?v'"
          using st i e(3) readsD(4) [OF sr(2)] by (simp add: looked_up_def)
        moreover have "\<not> (\<exists>ks k as. kans (fheap ?s) = True # True # ks \<and> node_ans ?s = Some k # as)"
          using e(4) k2 readsD(8) [OF sr(2)] by (auto simp: can_alloc_def take_obj_def get_obj_def)
        ultimately show ?thesis by (intro exI conjI) auto
      qed
    qed
  qed
qed

text \<open>
  C35.  A look-up in a directory finds exactly its entries: it answers \<^verbatim>\<open>E_NOENT\<close> just when no entry has
  the name, and otherwise the node of the inode that the first such entry names - the one already in
  memory with one more reference, or a new one with what the disk holds - unless memory runs out.
  The directory itself keeps its count, every other node and every block of the disk stay as they are,
  and nothing panics.
\<close>

theorem sfs_lookup_exact:
  assumes "dir_sound n (fsdata v)" "0 < ref_count (inodes v n)" "p \<noteq> []" "hd p \<noteq> CHR ''/''" "length p \<le> 255"
    "\<And>k as. node_ans (fsdata v) = Some k # as \<Longrightarrow> ref_count (inodes v k) = 0"
  shows "\<exists>ret m v'. sfs_lookup n p v = Some ((ret, m), v') \<and> looked_up n p ret m v v' \<and>
    ((\<exists>ks k as. kans (fheap (fsdata v)) = True # True # ks \<and> node_ans (fsdata v) = Some k # as) \<longrightarrow> ret \<noteq> fail_code E_NO_MEM)"
  by (rule sfs_lookup_found [OF assms(1-5)]) (rule assms(6))

text \<open>A directory of one entry, whose name is a dot and whose inode is its own.\<close>

definition dir_ram :: "nat \<Rightarrow> u8" where
  "dir_ram x = (if x = 49152 then 1 else if x = 49156 then 46 else 0)"

definition dir_fs :: sfs_fs where
  "dir_fs = small_fs\<lparr>sdev := (sdev small_fs)\<lparr>ide_devices := \<lambda>i. \<lparr>dvalid = i = 2, sects = 256, has_ops = i = 2, ram = dir_ram\<rparr>\<rparr>,
     sfs_inodes := \<lambda>n. \<lparr>din = \<lparr>dsize = 4096, dtype = 2, nlinks = 1, dblocks = 1, direct = 12 # replicate 11 0, indirect = 0\<rparr>,
       ino = 1, dirty = False, reclaim_count = 1\<rparr>,
     hash_list := \<lambda>h. [5], fheap := \<lparr>kans = [True, True], kout = 0\<rparr>, node_ans := [Some 9]\<rparr>"

lemma bytes_from_Suc: "bytes_from m a (Suc n) = m a # bytes_from m (a + 1) n"
  by (simp add: bytes_from_def upt_conv_Cons map_Suc_upt [symmetric] del: upt_Suc map_Suc_upt)

lemma bytes_from_part: "k + n \<le> z \<Longrightarrow> take n (drop k (bytes_from m a z)) = bytes_from m (a + k) n"
  by (intro nth_equalityI) (simp_all add: bytes_from_def add.assoc)

lemma dir_entry: "dirent dir_fs 5 0 = \<lparr>eino = 1, ename = (46 # bytes_from dir_ram 49157 255)[255 := 0]\<rparr>"
proof -
  have e: "entry dir_fs (din_of dir_fs 5) 0 = 12" by (simp add: entry_def dir_fs_def)
  have b: "blk dir_fs 12 = bytes_from dir_ram 49152 4096" by (simp add: blk_def block_def dir_fs_def disk_consts)
  have t: "take 260 (blk dir_fs 12) = bytes_from dir_ram 49152 260"
    unfolding b using bytes_from_part [of 0 260 4096 dir_ram 49152] by simp
  have n: "take 256 (drop 4 (bytes_from dir_ram 49152 260)) = 46 # bytes_from dir_ram 49157 255"
    using bytes_from_part [of 4 256 260 dir_ram 49152] bytes_from_Suc [of dir_ram 49156 255] by (simp add: dir_ram_def)
  have w: "bytes_from dir_ram 49152 260 = [1, 0, 0, 0] @ bytes_from dir_ram 49156 256"
    using bytes_from_Suc [of dir_ram 49152 259] bytes_from_Suc [of dir_ram 49153 258] bytes_from_Suc [of dir_ram 49154 257]
      bytes_from_Suc [of dir_ram 49155 256] by (simp add: dir_ram_def)
  have "bytes_word (bytes_from dir_ram 49152 260) = 1" unfolding w by (simp add: bytes_word_def)
  then show ?thesis by (simp add: dirent_def e t bytes_entry_def n)
qed

lemma dir_free: "free_blocks dir_fs = {3..<11}"
  using small_free by (simp add: dir_fs_def free_blocks_def)

lemma dir_ok: "dir_sound 5 dir_fs" "slot_of dir_fs 5 ''.'' = Some 0" "loaded dir_fs 1 = Some 5"
proof -
  have f: "freemap dir_fs = freemap small_fs" "super dir_fs = super small_fs" by (simp_all add: dir_fs_def)
  have "space_inv small_fs" using small_ok(1) [of 5] by (simp add: sound_def)
  moreover have "dev_ok dir_fs" by (simp add: dev_ok_def disk_ok_def dir_fs_def small_fs_def disk_consts)
  ultimately have si: "space_inv dir_fs" unfolding space_inv_def dir_free small_free f by simp
  have ub: "used_blocks dir_fs = {1..<32} - {3..<11}" unfolding used_blocks_def dir_free by (simp add: dir_fs_def small_fs_def)
  have dn: "din_of dir_fs 5 = \<lparr>dsize = 4096, dtype = 2, nlinks = 1, dblocks = 1, direct = 12 # replicate 11 0, indirect = 0\<rparr>"
    by (simp add: dir_fs_def)
  have "entry dir_fs (din_of dir_fs 5) i = (if i = 0 then 12 else 0)" if "i < 1036" for i
    unfolding entry_def dn using that by (cases i) (simp_all add: nth_Cons')
  then have "file_ok dir_fs (din_of dir_fs 5)" by (simp add: file_ok_def ub) (simp add: dn lessThan_Suc)
  then have so: "sound 5 dir_fs" using si by (simp add: sound_def)
  show l: "loaded dir_fs 1 = Some 5" by (simp add: loaded_def sfs_hash_list_def dir_fs_def)
  show "dir_sound 5 dir_fs"
    unfolding dir_sound_def using so l by (simp add: ub dir_entry dn SFS_TYPE_DIR_def)
  have "255 = Suc (Suc 253)" by simp
  then have "(46 # bytes_from dir_ram 49157 255)[255 := 0] = 46 # 0 # (bytes_from dir_ram 49158 254)[253 := 0]"
    using bytes_from_Suc [of dir_ram 49157 254] by (simp add: dir_ram_def)
  then have "named dir_fs 5 ''.'' 0" by (simp add: named_def dir_entry name_bytes_def Sfs.cstr_def)
  then show "slot_of dir_fs 5 ''.'' = Some 0" by (simp add: slot_of_def dn)
qed

theorem sfs_lookup_exact_witness:
  "\<exists>v'. sfs_lookup 5 ''.'' \<lparr>inodes = \<lambda>k. \<lparr>ref_count = if k = 5 then 1 else 0, iopen_count = 0\<rparr>, fsdata = dir_fs\<rparr> = Some ((0, 5), v') \<and>
     ref_count (inodes v' 5) = 2"
proof -
  let ?v = "\<lparr>inodes = \<lambda>k. \<lparr>ref_count = if k = 5 then 1 else 0, iopen_count = 0\<rparr>, fsdata = dir_fs\<rparr> :: sfs_fs vfs"
  have a: "kans (fheap dir_fs) = [True, True]" "node_ans dir_fs = [Some 9]" by (simp_all add: dir_fs_def)
  obtain ret m v' where r: "sfs_lookup 5 ''.'' ?v = Some ((ret, m), v')" "looked_up 5 ''.'' ret m ?v v'" "ret \<noteq> fail_code E_NO_MEM"
    using sfs_lookup_exact [of 5 ?v "''.''"] dir_ok(1) a by auto
  then have g: "ret = 0" "got_node 1 m ?v v'" using dir_ok(2) by (auto simp: looked_up_def dir_entry)
  then have "m = 5" "ref_count (inodes v' 5) = 2" using dir_ok(3) by (auto simp: got_node_def)
  then show ?thesis using r(1) g(1) by auto
qed

end
