(* ===== verification/Vfs_Paths.thy ===== *)
theory Vfs_Paths
  imports Devices Sfs_Dir
begin

text \<open>
  What paths name (\<^verbatim>\<open>kern/fs/vfs/vfslookup.c\<close>, \<^verbatim>\<open>vfsdev.c\<close>), on the machine as it is after start-up: SFS on a
  mounted device, the console and the keyboard as devices of their own.
\<close>

section \<open>The forms of a path\<close>

definition plain :: "string \<Rightarrow> bool" where
  "plain d \<longleftrightarrow> list_all (\<lambda>c. c \<noteq> CHR '':'' \<and> c \<noteq> CHR ''/'') d"

lemma plain_Cons [simp]: "plain (c # d) \<longleftrightarrow> c \<noteq> CHR '':'' \<and> c \<noteq> CHR ''/'' \<and> plain d"
  by (simp add: plain_def)

lemma plain_Nil [simp]: "plain []"
  by (simp add: plain_def)

lemma path_scan_plain:
  "plain d \<Longrightarrow> path_scan i d = (-1, -1)"
  "plain d \<Longrightarrow> path_scan i (d @ CHR '':'' # r) = (-1, i + int (length d))"
  "plain d \<Longrightarrow> path_scan i (d @ CHR ''/'' # r) = (i + int (length d), -1)"
  by (induction d arbitrary: i) simp_all

lemma named_path:
  assumes "plain d" "d \<noteq> []"
  shows "get_device ops (d @ CHR '':'' # r) v = do {
      (ret, node, v) \<leftarrow> vfs_get_root ops d v; Some (ret, node, skip_slashes r, v) }"
    "cut_path (d @ CHR '':'' # r) = d"
  using assms path_scan_plain(2) [OF assms(1)] by (simp_all add: get_device_def cut_path_def)

lemma boot_path:
  "get_device ops (CHR ''/'' # r) v = (case vfs_get_bootfs v of (ret, node, v) \<Rightarrow> Some (ret, node, skip_slashes r, v))"
  "cut_path (CHR ''/'' # r) = CHR ''/'' # r"
  by (simp_all add: get_device_def cut_path_def)

lemma here_path:
  assumes "plain d" "d \<noteq> []"
  shows "get_device ops d v = (case vfs_get_curdir v of (ret, node, v) \<Rightarrow> Some (ret, node, d, v))" "cut_path d = d"
  using path_scan_plain(1) [OF assms(1), of 0] by (simp_all add: get_device_def cut_path_def)

lemma root_path:
  "get_device ops (CHR '':'' # r) v = (case vfs_get_curdir v of (ret, node, v) \<Rightarrow>
     if ret \<noteq> 0 then Some (ret, None, CHR '':'' # r, v)
     else do {
       n \<leftarrow> node;
       f \<leftarrow> in_fs ops n v;
       (root, v) \<leftarrow> fs_get_root ops f v;
       v \<leftarrow> node_ref_dec ops n v;
       Some (0, root, skip_slashes r, v)
     })"
  "cut_path (CHR '':'' # r) = CHR '':'' # r"
  by (auto simp: get_device_def cut_path_def split: prod.split)

lemma skip_plain: "plain p \<Longrightarrow> skip_slashes p = p" "skip_slashes (CHR ''/'' # p) = skip_slashes p"
  by (cases p) (simp_all add: skip_slashes_def)

section \<open>The root directory under its names\<close>

definition view :: "sys names vfs \<Rightarrow> sfs_fs vfs" where
  "view v = \<lparr>inodes = inodes v, fsdata = sfs (sys_of v)\<rparr>"

definition bump :: "nat \<Rightarrow> 'd vfs \<Rightarrow> 'd vfs" where
  "bump n = mod_inode n (\<lambda>d. d\<lparr>ref_count := ref_count d + 1\<rparr>)"

definition unbump :: "nat \<Rightarrow> 'd vfs \<Rightarrow> 'd vfs" where
  "unbump n = mod_inode n (\<lambda>d. d\<lparr>ref_count := ref_count d - 1\<rparr>)"

lemma node_ref_inc_bump: "node_ref_inc n v = bump n v"
  by (simp add: node_ref_inc_def inode_ref_inc_def bump_def)

lemma node_ref_dec_unbump: "1 < ref_count (inodes v n) \<Longrightarrow> node_ref_dec ops n v = Some (unbump n v)"
  by (simp add: node_ref_dec_def ref_dec_live unbump_def)

lemma unbump_bump [simp]: "unbump n (bump n v) = v"
  by (simp add: unbump_def bump_def mod_inode_def)

lemma bump_simps [simp]:
  "fsdata (bump n v) = fsdata v" "fsdata (unbump n v) = fsdata v"
  "ref_count (inodes (bump n v) m) = ref_count (inodes v m) + (if m = n then 1 else 0)"
  "iopen_count (inodes (bump n v) m) = iopen_count (inodes v m)"
  by (simp_all add: bump_def unbump_def)

lemma bump_sys [simp]:
  "sys_of (bump n v) = sys_of v" "view (bump n v) = bump n (view v)"
  "sys_of (unbump n v) = sys_of v" "view (unbump n v) = unbump n (view v)"
  by (simp_all add: bump_def unbump_def sys_of_def view_def mod_inode_def)

text \<open>The file system that \<open>name\<close> is mounted under has the root directory \<open>R\<close>, where paths start.\<close>

definition mounted :: "string \<Rightarrow> nat \<Rightarrow> sys names vfs \<Rightarrow> bool" where
  "mounted name R v \<longleftrightarrow> (\<exists>d f. find (\<lambda>d. devname d = name) (vdev_list (fsdata v)) = Some d \<and> dev_fs d = Some f) \<and>
     cwd (fsdata v) = Some R \<and> bootfs_node (fsdata v) = Some R \<and> \<not> is_dev_node R v \<and>
     loaded (sfs (sys_of v)) SFS_BLKN_ROOT = Some R \<and> dir_sound R (sfs (sys_of v)) \<and>
     0 < ref_count (inodes v R) \<and> ref_count (inodes v R) + 2 < MAX_INODE_COUNT \<and>
     0 \<le> iopen_count (inodes v R) \<and> iopen_count (inodes v R) \<le> ref_count (inodes v R)"

lemma get_root_live:
  assumes "loaded (sfs (sys_of v)) SFS_BLKN_ROOT = Some R" "0 < ref_count (inodes v R)"
  shows "fs_get_root sys_ops f v = Some (Some R, bump R v)"
proof -
  have "sfs_load_inode SFS_BLKN_ROOT (view v) = Some ((0, R), bump R (view v))"
    using assms by (simp add: sfs_load_inode_def lookup_sfs_nolock_def loaded_def inode_ref_inc_def view_def bump_def)
  then have "sfs_get_root (view v) = Some (R, bump R (view v))" by (simp add: sfs_get_root_def)
  then show ?thesis
    by (simp add: sys_ops_def on_sfs_def view_def bump_def mod_inode_def mod_sys_def mod_names_def sys_of_def)
qed

text \<open>Each of the spellings leads to the root directory, with one reference more, and to the name.\<close>

lemma spelling_device:
  assumes m: "mounted name R v" and p: "plain p" "p \<noteq> []" and nm: "plain name" "name \<noteq> []"
    and sp: "path \<in> {p, CHR ''/'' # p, name @ CHR '':'' # p, name @ CHR '':'' # CHR ''/'' # p, CHR '':'' # p}"
  shows "get_device sys_ops path v = Some (0, Some R, p, bump R v)"
proof -
  have c: "cwd (fsdata v) = Some R" "bootfs_node (fsdata v) = Some R" "0 < ref_count (inodes v R)"
    "loaded (sfs (sys_of v)) SFS_BLKN_ROOT = Some R" "\<not> is_dev_node R v" using m by (simp_all add: mounted_def)
  obtain d f where d: "find (\<lambda>d. devname d = name) (vdev_list (fsdata v)) = Some d" "dev_fs d = Some f"
    using m by (auto simp: mounted_def)
  have cur: "vfs_get_curdir v = (0, Some R, bump R v)" using c(1) by (simp add: vfs_get_curdir_def node_ref_inc_bump)
  have bo: "vfs_get_bootfs v = (0, Some R, bump R v)" using c(2) by (simp add: vfs_get_bootfs_def node_ref_inc_bump)
  have rt: "vfs_get_root sys_ops name v = Some (0, Some R, bump R v)"
    using d get_root_live [OF c(4,3)] by (simp add: vfs_get_root_def)
  have "loaded (sfs (sys_of (bump R v))) SFS_BLKN_ROOT = Some R" "0 < ref_count (inodes (bump R v) R)" using c(3,4) by simp_all
  from get_root_live [OF this] have r2: "fs_get_root sys_ops g (bump R v) = Some (Some R, bump R (bump R v))" for g .
  have "\<not> is_dev_node R (bump R v)" using c(5) by (simp add: is_dev_node_def)
  then have inf: "in_fs sys_ops R (bump R v) = Some 0" by (simp add: sys_ops_def)
  have dec: "node_ref_dec sys_ops R (bump R (bump R v)) = Some (bump R v)" using c(3) by (simp add: node_ref_dec_unbump)
  from sp show ?thesis
    by (elim insertE emptyE)
      (simp_all add: named_path(1) [OF nm] here_path(1) [OF p] boot_path(1) root_path(1) skip_plain(1) [OF p(1)] skip_plain(2)
        cur bo rt inf r2 dec)
qed

text \<open>
  C36.  The names of a file: from the root directory of the mounted file system, as current directory,
  \<^verbatim>\<open>p\<close>, \<^verbatim>\<open>/p\<close>, \<^verbatim>\<open>dev:p\<close>, \<^verbatim>\<open>dev:/p\<close> and \<^verbatim>\<open>:p\<close> are one file.  Looked up by any of them, it is found exactly when
  the directory has an entry \<open>p\<close>, and is answered with one reference, to the inode that the entry names;
  no other count changes, however many references the look-up takes on its way, nor do the blocks of the
  disk or the tables of names.  Nothing panics.
\<close>

theorem vfs_lookup_exact:
  assumes "mounted name R v" "plain name" "name \<noteq> []" "plain p" "p \<noteq> []" "length p \<le> 255"
    "\<And>k as. node_ans (sfs (sys_of v)) = Some k # as \<Longrightarrow> ref_count (inodes v k) = 0"
    "path \<in> {p, CHR ''/'' # p, name @ CHR '':'' # p, name @ CHR '':'' # CHR ''/'' # p, CHR '':'' # p}"
  shows "\<exists>ret m v'. vfs_lookup_path sys_ops path v = Some (ret, m, cut_path path, v') \<and> (ret = 0 \<longleftrightarrow> m \<noteq> None) \<and>
    looked_up R p ret (case m of Some n \<Rightarrow> n | None \<Rightarrow> 0) (view v) (view v') \<and>
    fsdata v' = (fsdata v)\<lparr>low := (sys_of v)\<lparr>sfs := sfs (sys_of v')\<rparr>\<rparr> \<and>
    ((\<exists>ks k as. kans (fheap (sfs (sys_of v))) = True # True # ks \<and> node_ans (sfs (sys_of v)) = Some k # as) \<longrightarrow> ret \<noteq> fail_code E_NO_MEM)"
proof -
  have g: "get_device sys_ops path v = Some (0, Some R, p, bump R v)"
    using spelling_device [OF assms(1,4,5,2,3,8)] .
  have R: "\<not> is_dev_node R v" "dir_sound R (sfs (sys_of v))" "0 < ref_count (inodes v R)" "inode_check R (bump R v)"
    using assms(1) by (simp_all add: mounted_def inode_check_def)
  have hd: "hd p \<noteq> CHR ''/''" using assms(4,5) by (cases p) simp_all
  have ds: "dir_sound R (fsdata (bump R (view v)))" "0 < ref_count (inodes (bump R (view v)) R)"
    using R(2,3) by (simp_all add: view_def)
  have fr: "ref_count (inodes (bump R (view v)) k) = 0" if "node_ans (fsdata (bump R (view v))) = Some k # as" for k as
    using assms(7) [of k as] that R(3) by (auto simp: view_def)
  obtain ret m w where l: "sfs_lookup R p (bump R (view v)) = Some ((ret, m), w)" "looked_up R p ret m (bump R (view v)) w"
    "(\<exists>ks k as. kans (fheap (sfs (sys_of v))) = True # True # ks \<and> node_ans (sfs (sys_of v)) = Some k # as) \<longrightarrow> ret \<noteq> fail_code E_NO_MEM"
  proof -
    have "\<exists>ret m w. sfs_lookup R p (bump R (view v)) = Some ((ret, m), w) \<and> looked_up R p ret m (bump R (view v)) w \<and>
      ((\<exists>ks k as. kans (fheap (fsdata (bump R (view v)))) = True # True # ks \<and> node_ans (fsdata (bump R (view v))) = Some k # as) \<longrightarrow>
        ret \<noteq> fail_code E_NO_MEM)"
      by (rule sfs_lookup_found [OF ds assms(5) hd assms(6)]) (rule fr)
    moreover have fv: "fsdata (bump R (view v)) = sfs (sys_of v)" by (simp add: view_def)
    ultimately show thesis using that unfolding fv by blast
  qed
  let ?u = "mod_sys (\<lambda>s. s\<lparr>sfs := fsdata w\<rparr>) ((bump R v)\<lparr>inodes := inodes w\<rparr>)"
  have dir: "is_dir (view v) R" using R(2) by (simp add: dir_sound_def is_dir_def view_def)
  then have dir': "is_dir \<lparr>inodes = inodes (bump R v), fsdata = sfs (sys_of (bump R v))\<rparr> R" by (simp add: is_dir_def view_def)
  have nd: "\<not> is_dev_node R (bump R v)" using R(1) by (simp add: is_dev_node_def)
  have eq: "\<lparr>inodes = inodes (bump R v), fsdata = sfs (sys_of (bump R v))\<rparr> = bump R (view v)"
    by (simp add: bump_def view_def mod_inode_def sys_of_def)
  have sl: "sys_lookup R p (bump R v) = Some (ret, if ret = 0 then Some m else None, ?u)"
    using l(1) dir' nd unfolding sys_lookup_def on_sfs_def eq by simp
  have vu: "view ?u = w" by (simp add: view_def mod_sys_def mod_names_def sys_of_def)
  have iu: "inodes ?u = inodes w" by (simp add: mod_sys_def mod_names_def)
  have st: "same_store (sfs (sys_of v)) (fsdata w)" using l(2) by (simp add: looked_up_def view_def)
  have refl: "reads (sfs (sys_of v)) (sfs (sys_of v))"
    using R(2) by (simp add: reads_def dir_sound_def sound_def space_inv_def dev_ok_def same_disk_def)
  have bf: "bump R (view v)\<lparr>fsdata := sfs (sys_of v)\<rparr> = bump R (view v)" by (simp add: bump_def view_def mod_inode_def)
  have ok: "1 < ref_count (inodes w R) \<and> looked_up R p ret m (view v) (unbump R w)"
  proof (cases "ret = 0")
    case True
    then obtain j where j: "slot_of (fsdata (view v)) R p = Some j"
      "got_node (eino (dirent (fsdata (view v)) R j)) m (bump R (view v)) w"
      using l(2) by (auto simp: looked_up_def)
    have "got_node (eino (dirent (fsdata (view v)) R j)) m (mod_inode R (\<lambda>d. d\<lparr>ref_count := ref_count d + 1\<rparr>) (view v)\<lparr>fsdata := sfs (sys_of v)\<rparr>) w"
      using j(2) bf by (simp add: bump_def)
    from got_node_under [OF this, unfolded view_def vfs.select_convs, OF refl R(3) assms(7)]
    have "1 < ref_count (inodes w R)" "got_node (eino (dirent (fsdata (view v)) R j)) m (view v) (unbump R w)"
      by (simp_all add: unbump_def view_def)
    then show ?thesis using True j(1) st by (auto simp: looked_up_def) (simp add: view_def)
  next
    case False
    then have i: "inodes w = inodes (bump R (view v))" "sfs_inodes (fsdata w) = sfs_inodes (fsdata (view v))"
      using l(2) by (auto simp: looked_up_def)
    then have "inodes (unbump R w) = inodes (view v)" by (simp add: unbump_def bump_def mod_inode_def)
    then show ?thesis using False l(2) i R(3) by (auto simp: looked_up_def) (simp_all add: view_def)
  qed
  have "vfs_lookup_path sys_ops path v = Some (ret, if ret = 0 then Some m else None, cut_path path, unbump R ?u)"
    using g assms(5) R(4) sl ok iu node_ref_dec_unbump [of ?u R sys_ops]
    by (simp add: vfs_lookup_path_def vop_def) (simp add: sys_ops_def)
  moreover have "looked_up R p ret (if ret = 0 then m else 0) (view v) (view (unbump R ?u))"
    using ok vu by (auto simp: looked_up_def)
  moreover have "fsdata (unbump R ?u) = (fsdata v)\<lparr>low := (sys_of v)\<lparr>sfs := sfs (sys_of (unbump R ?u))\<rparr>\<rparr>"
    by (simp add: mod_sys_def mod_names_def sys_of_def)
  ultimately show ?thesis using l(3) by (intro exI [of _ ret] exI [of _ "if ret = 0 then Some m else None"] exI [of _ "unbump R ?u"] conjI)
    (auto split: if_splits)
qed

text \<open>A machine with SFS of one entry on \<^verbatim>\<open>disk0\<close>, keyboard and console.\<close>

definition small_sys :: "sys names vfs" where
  "small_sys = \<lparr>inodes = \<lambda>n. \<lparr>ref_count = if n = 5 then 2 else if n \<in> {20, 21, 22} then 1 else 0, iopen_count = 0\<rparr>,
     fsdata = \<lparr>vdev_list = [\<lparr>devname = ''disk0'', devnode = Some 22, dev_fs = Some 0, mountable = True\<rparr>,
         \<lparr>devname = ''stdout'', devnode = Some 21, dev_fs = None, mountable = False\<rparr>,
         \<lparr>devname = ''stdin'', devnode = Some 20, dev_fs = None, mountable = False\<rparr>],
       bootfs_node = Some 5, cwd = Some 5, nheap = \<lparr>kans = [], kout = 0\<rparr>,
       low = \<lparr>sfs = dir_fs, node_dev = [20 \<mapsto> Stdin_dev, 21 \<mapsto> Stdout_dev, 22 \<mapsto> Disk0_dev],
         kbd = \<lparr>sync = \<lparr>sch = demo_sched, waits = \<lambda>_. \<lparr>wproc = None, wakeup_flags = 0, wqueue = 0, wlinked = False\<rparr>,
           queues = \<lambda>_. [], sem_value = \<lambda>_. 1\<rparr>, stdin_buffer = \<lambda>_. 0, p_rpos = 0, p_wpos = 0, kmem = \<lambda>_. 0\<rparr>,
         console = [], naps = []\<rparr>\<rparr>\<rparr>"

lemma small_sys_sfs: "sfs (sys_of small_sys) = dir_fs" "inodes (view small_sys) 5 = \<lparr>ref_count = 2, iopen_count = 0\<rparr>"
  by (simp_all add: small_sys_def sys_of_def view_def)

lemma small_mounted: "mounted ''disk0'' 5 small_sys"
  unfolding mounted_def small_sys_sfs using dir_ok(1,3)
  by (simp add: SFS_BLKN_ROOT_def MAX_INODE_COUNT_def) (simp add: small_sys_def is_dev_node_def sys_of_def)

theorem vfs_lookup_exact_witness:
  "\<exists>v'. vfs_lookup_path sys_ops ''disk0:/.'' small_sys = Some (0, Some 5, ''disk0'', v') \<and> ref_count (inodes v' 5) = 3"
proof -
  have n: "node_ans dir_fs = [Some 9]" by (simp add: dir_fs_def)
  have f: "ref_count (inodes small_sys k) = 0" if "node_ans (sfs (sys_of small_sys)) = Some k # as" for k as
    using that unfolding small_sys_sfs n by (auto simp: small_sys_def)
  have "\<exists>ret m v'. vfs_lookup_path sys_ops ''disk0:/.'' small_sys = Some (ret, m, cut_path ''disk0:/.'', v') \<and> (ret = 0 \<longleftrightarrow> m \<noteq> None) \<and>
      looked_up 5 ''.'' ret (case m of Some n \<Rightarrow> n | None \<Rightarrow> 0) (view small_sys) (view v') \<and>
      fsdata v' = (fsdata small_sys)\<lparr>low := (sys_of small_sys)\<lparr>sfs := sfs (sys_of v')\<rparr>\<rparr> \<and>
      ((\<exists>ks k as. kans (fheap (sfs (sys_of small_sys))) = True # True # ks \<and> node_ans (sfs (sys_of small_sys)) = Some k # as) \<longrightarrow> ret \<noteq> fail_code E_NO_MEM)"
    by (rule vfs_lookup_exact [OF small_mounted _ _ _ _ _ f]) simp_all
  then obtain ret m v' where r: "vfs_lookup_path sys_ops ''disk0:/.'' small_sys = Some (ret, m, ''disk0'', v')" "ret = 0 \<longleftrightarrow> m \<noteq> None"
    "looked_up 5 ''.'' ret (case m of Some n \<Rightarrow> n | None \<Rightarrow> 0) (view small_sys) (view v')" "ret \<noteq> fail_code E_NO_MEM"
    by (auto simp: cut_path_def small_sys_sfs dir_fs_def)
  have vs: "fsdata (view small_sys) = dir_fs" by (simp add: view_def small_sys_sfs)
  then have g: "ret = 0" "got_node 1 (the m) (view small_sys) (view v')"
    using r(2,3,4) dir_ok(2) by (auto simp: looked_up_def vs dir_entry)
  then have "the m = 5" "ref_count (inodes (view v') 5) = 3"
    using dir_ok(3) by (auto simp: got_node_def vs small_sys_sfs)
  then show ?thesis using r(1,2) g(1) by (auto simp: view_def)
qed

section \<open>The table of devices\<close>

definition devs_ok :: "'d names \<Rightarrow> bool" where
  "devs_ok s \<longleftrightarrow> distinct (map devname (vdev_list s)) \<and> (\<forall>d\<in>set (vdev_list s). length (devname d) \<le> FS_MAX_DNAME_LEN)"

lemma take_mem_eq: "take_mem v = (fst (get_obj (nheap (fsdata v))), v\<lparr>fsdata := (fsdata v)\<lparr>nheap := snd (get_obj (nheap (fsdata v)))\<rparr>\<rparr>)"
  by (simp add: take_mem_def mod_names_def split_def Let_def)

lemma get_obj_out: "kout (snd (get_obj h)) = (if fst (get_obj h) then kout h + 1 else kout h)"
  by (simp add: get_obj_def split: list.splits bool.splits)

lemma conflict_iff: "check_devname_conflict name s \<longleftrightarrow> name \<notin> devname ` set (vdev_list s)"
  by (auto simp: check_devname_conflict_def list_all_iff)

text \<open>
  C37. Adding a device keeps the names in the table distinct and short.  It is refused with \<^verbatim>\<open>E_TOO_BIG\<close> for a name of
  more than 31 characters, with \<^verbatim>\<open>E_NO_MEM\<close> when memory runs out and with \<^verbatim>\<open>E_EXISTS\<close> just when the name is taken,
  and then gives back what it allocated and leaves the table as it was.  Otherwise, from then on: the path \<^verbatim>\<open>name:\<close> of a
  device that is not mountable names it, with one reference more; that of a mountable one, which is not mounted yet, is
  answered \<^verbatim>\<open>E_NA_DEV\<close>, and \<^verbatim>\<open>nameraw:\<close>, which \<^verbatim>\<open>vfs.h\<close> announces for it, is answered
  \<^verbatim>\<open>E_NO_DEV\<close> unless a device has that very name.  Other names find the device they found before, and paths that begin with
  unknown ones are answered \<^verbatim>\<open>E_NO_DEV\<close>.
\<close>

theorem vfs_add_dev_exact:
  assumes "devs_ok (fsdata v)" "is_device ops n v" "plain name" "name \<noteq> []"
  defines "mem1 \<equiv> fst (get_obj (nheap (fsdata v)))" and "mem2 \<equiv> fst (get_obj (snd (get_obj (nheap (fsdata v)))))"
  shows "\<exists>ret v'. vfs_add_dev ops name n mnt v = Some (ret, v') \<and> devs_ok (fsdata v') \<and> inodes v' = inodes v \<and>
    ret = (if length name > FS_MAX_DNAME_LEN then fail_code E_TOO_BIG else if \<not> mem1 \<or> \<not> mem2 then fail_code E_NO_MEM
      else if name \<in> devname ` set (vdev_list (fsdata v)) then fail_code E_EXISTS else 0) \<and>
    (ret \<noteq> 0 \<longrightarrow> vdev_list (fsdata v') = vdev_list (fsdata v) \<and> kout (nheap (fsdata v')) = kout (nheap (fsdata v))) \<and>
    (ret = 0 \<longrightarrow> vfs_lookup_path ops (name @ '':'') v' =
        (if mnt then Some (fail_code E_NA_DEV, None, name, v') else Some (0, Some n, name, bump n v'))) \<and>
    (name @ ''raw'' \<notin> devname ` set (vdev_list (fsdata v)) \<longrightarrow>
      vfs_lookup_path ops (name @ ''raw:'') v' = Some (fail_code E_NO_DEV, None, name @ ''raw'', v')) \<and>
    (\<forall>other. plain other \<longrightarrow> other \<noteq> [] \<longrightarrow> other \<noteq> name \<longrightarrow>
      find (\<lambda>d. devname d = other) (vdev_list (fsdata v')) = find (\<lambda>d. devname d = other) (vdev_list (fsdata v)) \<and>
      (other \<notin> devname ` set (vdev_list (fsdata v)) \<longrightarrow>
        vfs_lookup_path ops (other @ '':'') v' = Some (fail_code E_NO_DEV, None, other, v')))"
proof -
  let ?h1 = "snd (get_obj (nheap (fsdata v)))"
  let ?h2 = "snd (get_obj ?h1)"
  let ?d = "\<lparr>devname = name, devnode = Some n, dev_fs = None, mountable = mnt\<rparr>"
  let ?ret = "if length name > FS_MAX_DNAME_LEN then fail_code E_TOO_BIG else if \<not> mem1 \<or> \<not> mem2 then fail_code E_NO_MEM
      else if name \<in> devname ` set (vdev_list (fsdata v)) then fail_code E_EXISTS else 0"
  define h where "h = (if length name > FS_MAX_DNAME_LEN then nheap (fsdata v) else if \<not> mem1 then ?h1 else if \<not> mem2 then put_obj ?h2
      else if ?ret = 0 then ?h2 else put_obj (put_obj ?h2))"
  define v' where "v' = v\<lparr>fsdata := (fsdata v)\<lparr>nheap := h, vdev_list := if ?ret = 0 then ?d # vdev_list (fsdata v) else vdev_list (fsdata v)\<rparr>\<rparr>"
  have run: "vfs_add_dev ops name n mnt v = Some (?ret, v')"
    using assms(2) by (auto simp: vfs_add_dev_def vfs_do_add_def take_mem_eq give_mem_def mod_names_def conflict_iff Let_def
      mem1_def mem2_def h_def v'_def)
  have l: "vdev_list (fsdata v') = (if ?ret = 0 then ?d # vdev_list (fsdata v) else vdev_list (fsdata v))" by (simp add: v'_def)
  have other: "find (\<lambda>d. devname d = x) (vdev_list (fsdata v')) = find (\<lambda>d. devname d = x) (vdev_list (fsdata v))" if "x \<noteq> name" for x
    using that unfolding l by simp
  have new: "vfs_lookup_path ops (name @ '':'') v' =
      (if mnt then Some (fail_code E_NA_DEV, None, name, v') else Some (0, Some n, name, bump n v'))" if "?ret = 0"
    using that named_path(1) [OF assms(3,4), of ops "[]" v'] named_path(2) [OF assms(3,4), of "[]"]
    by (simp add: vfs_lookup_path_def vfs_get_root_def l skip_slashes_def node_ref_inc_bump)
  have unknown: "vfs_lookup_path ops (x @ '':'') v' = Some (fail_code E_NO_DEV, None, x, v')"
    if "plain x" "x \<noteq> []" "x \<noteq> name" "x \<notin> devname ` set (vdev_list (fsdata v))" for x
  proof -
    have "find (\<lambda>d. devname d = x) (vdev_list (fsdata v')) = None"
      using other [OF that(3)] that(4) by (auto simp: find_None_iff)
    then show ?thesis using named_path(1) [OF that(1,2), of ops "[]" v'] named_path(2) [OF that(1,2), of "[]"] by (simp add: vfs_lookup_path_def vfs_get_root_def)
  qed
  have "plain (name @ ''raw'')" using assms(3) by (auto simp: plain_def)
  then have raw: "vfs_lookup_path ops (name @ ''raw:'') v' = Some (fail_code E_NO_DEV, None, name @ ''raw'', v')"
    if "name @ ''raw'' \<notin> devname ` set (vdev_list (fsdata v))"
    using unknown [of "name @ ''raw''"] that by simp
  have out: "?ret \<noteq> 0 \<Longrightarrow> kout h = kout (nheap (fsdata v))"
    using get_obj_out [of "nheap (fsdata v)", folded mem1_def] get_obj_out [of ?h1, folded mem2_def]
    by (cases mem1; cases mem2) (auto simp: h_def put_obj_def split: if_splits)
  have "devs_ok (fsdata v')"
    using assms(1) unfolding devs_ok_def l by (auto split: if_splits)
  moreover have "inodes v' = inodes v" "nheap (fsdata v') = h" by (simp_all add: v'_def)
  ultimately show ?thesis using run l out other new unknown raw by (intro exI [of _ ?ret] exI [of _ v']) auto
qed

theorem vfs_add_dev_exact_witness:
  "\<exists>v'. vfs_add_dev sys_ops ''con'' 21 False (mod_names (\<lambda>s. s\<lparr>nheap := \<lparr>kans = [True, True], kout = 0\<rparr>\<rparr>) small_sys) = Some (0, v') \<and>
     vfs_lookup_path sys_ops ''con:'' v' = Some (0, Some 21, ''con'', bump 21 v')"
proof -
  let ?v = "mod_names (\<lambda>s. s\<lparr>nheap := \<lparr>kans = [True, True], kout = 0\<rparr>\<rparr>) small_sys"
  have d: "devs_ok (fsdata ?v)" by (simp add: devs_ok_def small_sys_def mod_names_def FS_MAX_DNAME_LEN_def)
  have i: "is_device sys_ops 21 ?v" by (simp add: sys_ops_def is_dev_node_def sys_of_def small_sys_def mod_names_def)
  have k: "nheap (fsdata ?v) = \<lparr>kans = [True, True], kout = 0\<rparr>" "vdev_list (fsdata ?v) = vdev_list (fsdata small_sys)"
    by (simp_all add: mod_names_def)
  have p: "plain ''con''" by simp
  have free: "''con'' \<notin> devname ` set (vdev_list (fsdata small_sys))" by (simp add: small_sys_def)
  show ?thesis
    using vfs_add_dev_exact [OF d i p, of False] free unfolding k
    by (auto simp: get_obj_def FS_MAX_DNAME_LEN_def simp del: image_iff)
qed

end
