(* ===== verification/Sfs_Trunc.thy ===== *)
theory Sfs_Trunc
  imports Sfs_Mount
begin

text \<open>
  \<^verbatim>\<open>sfs_truncfile\<close> (\<^verbatim>\<open>kern/fs/sfs/sfs_inode.c\<close>): the length of a file can be set to anything its
  block map can hold, blocks that are no longer needed are given back, and other files keep theirs.
\<close>

section \<open>The last block of a file\<close>

text \<open>From one state to a later one the inode \<open>n\<close> lost its blocks from \<open>k\<close> on.\<close>

definition shrinks :: "nat \<Rightarrow> nat \<Rightarrow> sfs_fs \<Rightarrow> sfs_fs \<Rightarrow> bool" where
  "shrinks n k s s' \<longleftrightarrow> space_inv s' \<and> file_ok s' (din_of s' n) \<and> blocks_of (super s') = blocks_of (super s) \<and>
     fmem s' = fmem s \<and> (\<forall>m. m \<noteq> n \<longrightarrow> sfs_inodes s' m = sfs_inodes s m) \<and>
     dblocks (din_of s' n) = k \<and> k \<le> dblocks (din_of s n) \<and> dsize (din_of s' n) = dsize (din_of s n) \<and>
     dtype (din_of s' n) = dtype (din_of s n) \<and>
     indirect (din_of s' n) = indirect (din_of s n) \<and>
     (\<forall>i<k. entry s' (din_of s' n) i = entry s (din_of s n) i) \<and>
     free_blocks s' = free_blocks s \<union> entry s (din_of s n) ` {k..<dblocks (din_of s n)} \<and>
     (\<forall>b. b \<noteq> indirect (din_of s n) \<or> b = 0 \<longrightarrow> blk s' b = blk s b)"

lemma shrinksD:
  assumes "shrinks n k s s'"
  shows "space_inv s'" "file_ok s' (din_of s' n)" "blocks_of (super s') = blocks_of (super s)" "fmem s' = fmem s"
    "m \<noteq> n \<Longrightarrow> sfs_inodes s' m = sfs_inodes s m" "dblocks (din_of s' n) = k" "k \<le> dblocks (din_of s n)"
    "dsize (din_of s' n) = dsize (din_of s n)" "dtype (din_of s' n) = dtype (din_of s n)"
    "indirect (din_of s' n) = indirect (din_of s n)"
    "i < k \<Longrightarrow> entry s' (din_of s' n) i = entry s (din_of s n) i"
    "free_blocks s' = free_blocks s \<union> entry s (din_of s n) ` {k..<dblocks (din_of s n)}"
    "b \<noteq> indirect (din_of s n) \<or> b = 0 \<Longrightarrow> blk s' b = blk s b"
  using assms unfolding shrinks_def by auto

lemma shrinks_refl: "space_inv s \<Longrightarrow> file_ok s (din_of s n) \<Longrightarrow> shrinks n (dblocks (din_of s n)) s s"
  by (simp add: shrinks_def)

lemma shrinks_trans:
  assumes "shrinks n j s s'" "shrinks n k s' s''"
  shows "shrinks n k s s''"
proof -
  note a = shrinksD [OF assms(1)] and b = shrinksD [OF assms(2)]
  have k: "k \<le> j" using b(7) a(6) by simp
  have "entry s' (din_of s' n) ` {k..<j} = entry s (din_of s n) ` {k..<j}" using a(11) by (intro image_cong) auto
  moreover have "{k..<dblocks (din_of s n)} = {k..<j} \<union> {j..<dblocks (din_of s n)}" using k a(7) by auto
  ultimately have "free_blocks s'' = free_blocks s \<union> entry s (din_of s n) ` {k..<dblocks (din_of s n)}"
    unfolding b(12) a(12) a(6) by (simp add: image_Un Un_ac)
  then show ?thesis using a b k assms(2) unfolding shrinks_def by auto
qed

lemma shrinkI:
  assumes inv: "space_inv s" and f: "file_ok s (din_of s n)" and k: "dblocks (din_of s n) = Suc k"
    and inv': "space_inv s'" and rest: "fmem s' = fmem s" "blocks_of (super s') = blocks_of (super s)"
    and sin: "\<And>m. m \<noteq> n \<Longrightarrow> sfs_inodes s' m = sfs_inodes s m" "din_of s' n = (din_of s n)\<lparr>direct := db, dblocks := k\<rparr>"
    and db: "length db = 12"
    and e: "\<And>i. i < 1036 \<Longrightarrow> entry s' (din_of s' n) i = (if i = k then 0 else entry s (din_of s n) i)"
    and fr: "free_blocks s' = insert (entry s (din_of s n) k) (free_blocks s)"
    and bk: "\<And>b. b \<noteq> indirect (din_of s n) \<or> b = 0 \<Longrightarrow> blk s' b = blk s b"
  shows "shrinks n k s s'"
proof -
  let ?d = "din_of s n"
  have d: "dblocks (din_of s' n) = k" "indirect (din_of s' n) = indirect ?d" "direct (din_of s' n) = db"
    "dsize (din_of s' n) = dsize ?d" "dtype (din_of s' n) = dtype ?d" using sin(2) by simp_all
  have kb: "k < 1036" using file_okD(2) [OF f] k by simp
  have old: "entry s' (din_of s' n) i = entry s ?d i" if "i < k" for i using e [of i] that kb by simp
  have u: "x \<in> used_blocks s'" if "x \<in> used_blocks s" "x \<noteq> entry s ?d k" for x
    using that fr rest(2) by (simp add: used_blocks_def)
  have ek: "entry s ?d i \<noteq> entry s ?d k" if "i < k" for i
    using inj_onD [OF file_okD(8) [OF f], of i k] that k by auto
  have oldu: "entry s ?d i \<in> used_blocks s'" if "i < k" for i
    using u [OF _ ek [OF that]] file_okD(5) [OF f, of i] that k by simp
  have "indirect ?d \<noteq> 0 \<Longrightarrow> indirect ?d \<in> used_blocks s'"
    using u [OF file_okD(4) [OF f]] file_okD(6) [OF f, of k] k by simp
  moreover have "inj_on (entry s' (din_of s' n)) {..<k}"
  proof (rule inj_onI)
    fix x y assume "x \<in> {..<k}" "y \<in> {..<k}" "entry s' (din_of s' n) x = entry s' (din_of s' n) y"
    then show "x = y" using inj_onD [OF file_okD(8) [OF f], of x y] old [of x] old [of y] k by simp
  qed
  moreover have "entry s' (din_of s' n) i = 0" if "k \<le> i" "i < 1036" for i
    using e [OF that(2)] that file_okD(7) [OF f, of i] k by (cases "i = k") simp_all
  moreover have "indirect ?d = 0 \<longrightarrow> k \<le> 12" using file_okD(3) [OF f] k by auto
  ultimately have "file_ok s' (din_of s' n)"
    unfolding file_ok_def d using db kb k oldu old file_okD(6) [OF f] by (simp add: less_Suc_eq)
  moreover have "{k..<Suc k} = {k}" by auto
  ultimately show ?thesis
    unfolding shrinks_def k d using inv' rest sin(1) old fr bk by simp
qed

lemma truncate_one:
  assumes inv: "space_inv s" and f: "file_ok s (din_of s n)" and k: "dblocks (din_of s n) = Suc k"
  shows "\<exists>s'. sfs_bmap_truncate_nolock n s = Some (0, s') \<and> shrinks n k s s'"
proof -
  let ?d = "din_of s n"
  let ?e = "entry s ?d k"
  have u: "?e \<in> used_blocks s" using file_okD(5) [OF f, of k] k by simp
  have kb: "k < 1036" "?e \<noteq> 0" using file_okD(2) [OF f] k used_pos [OF u] by simp_all
  show ?thesis
  proof (cases "k < 12")
    case True
    then have e: "direct ?d ! k = ?e" by (simp add: entry_def)
    obtain s1 where f1: "sfs_block_free ?e s = Some s1" "space_inv s1" "same_files s s1"
      "free_blocks s1 = insert ?e (free_blocks s)" "used_blocks s1 = used_blocks s - {?e}" "blk s1 = blk s"
      using block_free_ok [OF inv u] by blast
    let ?s' = "mark_dirty n (mod_din n (\<lambda>d. d\<lparr>dblocks := dblocks d - 1\<rparr>)
      (mark_dirty n (mod_din n (\<lambda>d. d\<lparr>direct := (direct d)[k := 0]\<rparr>) s1)))"
    have in1: "sfs_inodes s1 = sfs_inodes s" using f1(3) by (simp add: same_files_def)
    have r: "sfs_bmap_truncate_nolock n s = Some (0, ?s')"
      using True e f1(1) kb(2) k in1 by (simp add: sfs_bmap_truncate_nolock_def sfs_bmap_free_nolock_def sfs_consts)
    have "shrinks n k s ?s'"
    proof (rule shrinkI [OF inv f k, where db = "(direct ?d)[k := 0]"])
      show "din_of ?s' n = ?d\<lparr>direct := (direct ?d)[k := 0], dblocks := k\<rparr>"
        by (simp add: mark_dirty_def mod_din_def mark_simps in1 k)
      show "entry ?s' (din_of ?s' n) i = (if i = k then 0 else entry s ?d i)" if "i < 1036" for i
        using True file_okD(1) [OF f] f1(6) by (simp add: entry_def mark_dirty_def mod_din_def mark_simps in1 nth_list_update)
    qed (use f1 file_okD(1) [OF f] in1 in \<open>simp_all add: mark_dirty_def mod_din_def mark_simps same_files_def\<close>)
    then show ?thesis using r by blast
  next
    case False
    have ind: "indirect ?d \<noteq> 0" using file_okD(3) [OF f] k False by auto
    note iu = file_okD(4) [OF f ind]
    have k12: "k - 12 < 1024" using kb(1) by simp
    have w0: "word_at (blk s (indirect ?d)) (k - 12) = ?e" using False ind by (simp add: entry_def)
    have ne: "?e \<noteq> indirect ?d" using file_okD(6) [OF f, of k] k by simp
    obtain bs s1 where r: "sfs_rbuf 4 (indirect ?d) ((k - 12) * 4) s = Some ((0, bs), s1)" "unat (bytes_word bs) = ?e"
      "disk_only s s1" "blk s1 = blk s" using read_entry [OF inv iu k12] w0 by auto
    note inv1 = disk_only_space [OF inv r(3)] and d1 = disk_only_same [OF r(3)]
    have i1: "indirect ?d \<in> used_blocks s1" using iu d1 by simp
    have o: "(k - 12) * 4 < 4096" "(k - 12) * 4 + length (word_bytes 0) \<le> 4096" using k12 by simp_all
    obtain s2 where w: "sfs_wbuf (word_bytes 0) (indirect ?d) ((k - 12) * 4) s1 = Some (0, s2)" "disk_only s1 s2"
      "blk s2 = (blk s1)(indirect ?d := overlay ((k - 12) * 4) (word_bytes 0) (blk s1 (indirect ?d)))"
      using wbuf_ok [OF space_invD(1) [OF inv1] _ _ o] used_pos [OF i1] by blast
    note inv2 = disk_only_space [OF inv1 w(2)] and d2 = disk_only_same [OF w(2)]
    have u2: "?e \<in> used_blocks s2" using u d1 d2 by simp
    obtain s3 where f3: "sfs_block_free ?e s2 = Some s3" "space_inv s3" "same_files s2 s3"
      "free_blocks s3 = insert ?e (free_blocks s2)" "blk s3 = blk s2" using block_free_ok [OF inv2 u2] by blast
    have sf: "same_files s s3" using d1 d2 f3(3) same_files_trans by blast
    then have in3: "sfs_inodes s3 = sfs_inodes s" by (simp add: same_files_def)
    let ?s' = "mark_dirty n (mod_din n (\<lambda>d. d\<lparr>dblocks := dblocks d - 1\<rparr>) s3)"
    have "sfs_bmap_free_nolock n k s = Some (0, s3)"
      using False k12 ind r(1,2) w(1) f3(1) kb(2) inuse_used [OF inv iu]
      by (simp add: sfs_bmap_free_nolock_def sfs_bmap_free_sub_nolock_def sfs_consts)
    then have res: "sfs_bmap_truncate_nolock n s = Some (0, ?s')" using k by (simp add: sfs_bmap_truncate_nolock_def)
    have wa: "word_at (blk s3 (indirect ?d)) i = (if i = k - 12 then 0 else word_at (blk s (indirect ?d)) i)" if "i < 1024" for i
      using word_at_put [OF length_blk k12 that, of 0 s1 "indirect ?d"] by (simp add: f3(5) w(3) r(4))
    have "shrinks n k s ?s'"
    proof (rule shrinkI [OF inv f k, where db = "direct ?d"])
      show "din_of ?s' n = ?d\<lparr>direct := direct ?d, dblocks := k\<rparr>"
        by (simp add: mark_dirty_def mod_din_def mark_simps in3 k)
      show "entry ?s' (din_of ?s' n) i = (if i = k then 0 else entry s ?d i)" if "i < 1036" for i
        using wa [of "i - 12"] that False ind by (auto simp: entry_def mark_dirty_def mod_din_def mark_simps in3)
      show "blk ?s' b = blk s b" if "b \<noteq> indirect ?d \<or> b = 0" for b
        using that ind by (auto simp add: mark_dirty_def mod_din_def mark_simps f3(5) w(3) r(4))
    qed (use f3 d1 d2 sf file_okD(1) [OF f] in \<open>simp_all add: mark_dirty_def mod_din_def mark_simps same_files_def\<close>)
    then show ?thesis using res by blast
  qed
qed

lemma drop_blocks_ok:
  "space_inv s \<Longrightarrow> file_ok s (din_of s n) \<Longrightarrow> dblocks (din_of s n) = k + m \<Longrightarrow>
   \<exists>s'. drop_blocks n m s = Some (0, s') \<and> shrinks n k s s'"
proof (induction m arbitrary: s)
  case 0
  then show ?case using shrinks_refl [of s n] by simp
next
  case (Suc m)
  have "dblocks (din_of s n) = Suc (k + m)" using Suc.prems(3) by simp
  from truncate_one [OF Suc.prems(1,2) this] obtain s1 where t: "sfs_bmap_truncate_nolock n s = Some (0, s1)"
    "shrinks n (k + m) s s1" by blast
  from Suc.IH [OF shrinksD(1,2,6) [OF t(2)]] obtain s2 where "drop_blocks n m s1 = Some (0, s2)" "shrinks n k s1 s2" by blast
  then show ?case using t shrinks_trans by auto
qed


lemma shrinks_others: "shrinks n k s s' \<Longrightarrow> file_ok s (din_of s n) \<Longrightarrow> others_kept n s s'"
proof -
  assume h: "shrinks n k s s'" and f: "file_ok s (din_of s n)"
  note a = shrinksD [OF h]
  have "entry s' (din_of s' n) ` {..<k} = entry s (din_of s n) ` {..<k}" using a(11) by (intro image_cong) auto
  then have "own s' (din_of s' n) = entry s (din_of s n) ` {..<k} \<union> (if indirect (din_of s n) = 0 then {} else {indirect (din_of s n)})"
    by (simp add: own_def a(6,10))
  moreover have "own s (din_of s n) = entry s (din_of s n) ` {..<k} \<union> entry s (din_of s n) ` {k..<dblocks (din_of s n)} \<union>
      (if indirect (din_of s n) = 0 then {} else {indirect (din_of s n)})"
  proof -
    have "{..<dblocks (din_of s n)} = {..<k} \<union> {k..<dblocks (din_of s n)}" using a(7) by auto
    then show ?thesis by (simp add: own_def image_Un)
  qed
  ultimately have "own s' (din_of s' n) \<union> free_blocks s' = own s (din_of s n) \<union> free_blocks s"
    unfolding a(12) by blast
  moreover have "blk s' b = blk s b" if "b \<notin> own s (din_of s n)" for b
  proof -
    have "b \<noteq> indirect (din_of s n) \<or> b = 0" using that by (auto simp: own_def split: if_splits)
    then show ?thesis by (rule a(13))
  qed
  ultimately show ?thesis using a(3,5) by (simp add: others_kept_def)
qed

lemma shrinks_fbyte:
  assumes "shrinks n k s s'" "file_ok s (din_of s n)" "x < 4096 * k"
  shows "fbyte s' n x = fbyte s n x"
proof -
  note a = shrinksD [OF assms(1)]
  have k: "x div 4096 < k" using assms(3) by (simp add: block_of_byte)
  then have "entry s (din_of s n) (x div 4096) \<noteq> indirect (din_of s n)" using file_okD(6) [OF assms(2)] a(7) by simp
  then show ?thesis using a(11) [OF k] a(13) by (simp add: fbyte_def)
qed

section \<open>More blocks\<close>

text \<open>From one state to a later one the inode \<open>n\<close> gained empty blocks, and has \<open>k\<close> now.\<close>

definition widens :: "nat \<Rightarrow> nat \<Rightarrow> sfs_fs \<Rightarrow> sfs_fs \<Rightarrow> bool" where
  "widens n k s s' \<longleftrightarrow> grows n s s' \<and> dblocks (din_of s' n) = k \<and>
     (\<forall>x<4096 * k. fbyte s' n x = (if x < 4096 * dblocks (din_of s n) then fbyte s n x else 0))"

lemma widens_trans: "widens n j s s' \<Longrightarrow> widens n k s' s'' \<Longrightarrow> widens n k s s''"
proof -
  assume h: "widens n j s s'" "widens n k s' s''"
  then have "dblocks (din_of s n) \<le> j" using growsD(8) by (auto simp: widens_def)
  then have "x < 4096 * dblocks (din_of s n) \<Longrightarrow> x < 4096 * j" for x by simp
  then show ?thesis using h grows_trans unfolding widens_def by auto
qed

lemma load_blocks_ok:
  "sound n s \<Longrightarrow> dblocks (din_of s n) = k \<Longrightarrow> k + m \<le> 1036 \<Longrightarrow>
   \<exists>ret j s'. load_blocks n k m s = Some (ret, s') \<and> widens n j s s' \<and>
     (ret = 0 \<and> j = k + m \<or> ret = fail_code E_NO_MEM \<and> card (free_blocks s') < 2)"
proof (induction m arbitrary: s k)
  case 0
  then have "widens n k s s" using grows_refl by (auto simp: widens_def sound_def)
  then show ?case by auto
next
  case (Suc m)
  have kb: "k \<le> dblocks (din_of s n)" "k < 1036" using Suc.prems by simp_all
  from load_block [OF Suc.prems(1) kb] obtain ret i s1 where l: "sfs_bmap_load_nolock n k s = Some ((ret, i), s1)"
    "ret = 0 \<and> opened n s k i s1 \<or> ret = fail_code E_NO_MEM \<and> no_space n s s1" by blast
  show ?case
  proof (cases "ret = 0")
    case True
    then have o: "opened n s k i s1" using l(2) by auto
    then have d: "dblocks (din_of s1 n) = k + 1" and g: "grows n s s1" using Suc.prems(2) by (simp_all add: opened_def)
    have w: "widens n (k + 1) s s1" using o d by (simp add: opened_def widens_def)
    have b: "k + 1 + m \<le> 1036" using Suc.prems(3) by simp
    from Suc.IH [OF grows_sound [OF g] d b] obtain ret' j s' where
      "load_blocks n (k + 1) m s1 = Some (ret', s')" "widens n j s1 s'"
      "ret' = 0 \<and> j = k + 1 + m \<or> ret' = fail_code E_NO_MEM \<and> card (free_blocks s') < 2" by blast
    then show ?thesis using l(1) True widens_trans [OF w] by auto
  next
    case False
    then have ns: "no_space n s s1" "ret = fail_code E_NO_MEM" using l(2) by auto
    have "widens n k s s1" using wrote_nothing [OF ns(1) Suc.prems(1), of 0 0] Suc.prems(2)
      by (auto simp: wrote_def widens_def)
    then show ?thesis using l(1) False ns by (auto simp: no_space_def)
  qed
qed

lemma widens_others: "widens n k s s' \<Longrightarrow> others_kept n s s'"
  using growsD(3,4,9,10,12) [of n s s'] unfolding widens_def others_kept_def by blast

section \<open>Setting the length\<close>

lemma roundup_blocks: "x \<le> max_bytes \<Longrightarrow> unat (roundup_div_2n (of_nat x) 12) = (x + 4095) div 4096"
proof -
  assume x: "x \<le> max_bytes"
  have "unat (of_nat x + 4095 :: u32) = x + 4095"
    using offsets(1) [of x] x by (subst unat_add_u32) (simp_all add: max_bytes_def)
  then show ?thesis by (simp add: roundup_div_2n_def unat_shiftr push_bit_eq_mult add.commute)
qed

text \<open>The blocks of a file are exactly those that its length needs.\<close>

definition tight :: "sfs_disk_inode \<Rightarrow> bool" where
  "tight d \<longleftrightarrow> dblocks d = (unat (dsize d) + 4095) div 4096"


lemma size_set:
  fixes s :: sfs_fs and t :: u32 and n :: nat
  defines "s' \<equiv> mark_dirty n (mod_din n (\<lambda>d. d\<lparr>dsize := t\<rparr>) s)"
  shows "dsize (din_of s' n) = t" "dblocks (din_of s' n) = dblocks (din_of s n)" "fbyte s' n = fbyte s n"
    "sound n s' = sound n s" "others_kept n s0 s \<Longrightarrow> others_kept n s0 s'"
proof -
  have d: "din_of s' n = (din_of s n)\<lparr>dsize := t\<rparr>" by (simp add: s'_def mark_dirty_def mod_din_def mark_simps)
  then show "dsize (din_of s' n) = t" "dblocks (din_of s' n) = dblocks (din_of s n)" by simp_all
  show "fbyte s' n = fbyte s n" "sound n s' = sound n s" unfolding s'_def by (rule set_size)+
  have o: "own s' (din_of s' n) = own s (din_of s n)" unfolding d unfolding s'_def by (rule set_size)
  show "others_kept n s0 s'" if "others_kept n s0 s"
    using that o by (simp add: others_kept_def) (simp add: s'_def mark_dirty_def mod_din_def mark_simps)
qed

lemma set_contents:
  assumes "dsize (din_of s' n) = of_nat len" "len \<le> max_bytes"
    "\<And>x. x < len \<Longrightarrow> fbyte s' n x = (if x < 4096 * dblocks (din_of s n) then fbyte s n x else 0)"
    "sized (din_of s n)"
  shows "contents s' n = take len (contents s n) @
    map (\<lambda>x. if x < 4096 * dblocks (din_of s n) then fbyte s n x else 0) [unat (dsize (din_of s n))..<len]"
proof (rule nth_equalityI)
  let ?z = "unat (dsize (din_of s n))"
  have u: "unat (dsize (din_of s' n)) = len" using assms(1,2) offsets(1) [of len] by simp
  then show "length (contents s' n) = length (take len (contents s n) @
    map (\<lambda>x. if x < 4096 * dblocks (din_of s n) then fbyte s n x else 0) [?z..<len])" by simp
  fix x assume "x < length (contents s' n)"
  then have x: "x < len" using u by simp
  show "contents s' n ! x = (take len (contents s n) @
    map (\<lambda>x. if x < 4096 * dblocks (din_of s n) then fbyte s n x else 0) [?z..<len]) ! x"
  proof (cases "x < ?z")
    case True
    then have "x < 4096 * dblocks (din_of s n)" using assms(4) by (simp add: sized_def)
    then show ?thesis using True x u assms(3) [OF x] by (simp add: nth_append contents_nth)
  next
    case False
    then have "min len ?z = ?z" "?z + (x - ?z) = x" using x by auto
    then show ?thesis using False x u assms(3) [OF x] by (simp add: nth_append contents_nth)
  qed
qed

lemma blocks_for: "(len :: nat) \<le> 4096 * ((len + 4095) div 4096)"
  using div_mult_mod_eq [of "len + 4095" 4096] mod_less_divisor [of 4096 "len + 4095"] by linarith

lemma trunc_result:
  assumes "files_ok L s" "n \<in> L" "len \<le> max_bytes"
    "sfs_truncfile_nolock n (of_nat len) s = Some (ret, s')" "sound n s'" "others_kept n s s'"
    "ret = 0 \<and> dsize (din_of s' n) = of_nat len \<and> dblocks (din_of s' n) = (len + 4095) div 4096 \<and>
       (\<forall>x<len. fbyte s' n x = (if x < 4096 * dblocks (din_of s n) then fbyte s n x else 0)) \<or>
     ret = fail_code E_NO_MEM \<and> contents s' n = contents s n \<and> card (free_blocks s') < 2 \<and> sized (din_of s' n)"
  shows "\<exists>ret s'. sfs_truncfile_nolock n (of_nat len) s = Some (ret, s') \<and>
    (ret = 0 \<and> tight (din_of s' n) \<and> dsize (din_of s' n) = of_nat len \<and>
       contents s' n = take len (contents s n) @
         map (\<lambda>x. if x < 4096 * dblocks (din_of s n) then fbyte s n x else 0) [unat (dsize (din_of s n))..<len] \<or>
     ret = fail_code E_NO_MEM \<and> contents s' n = contents s n \<and> card (free_blocks s') < 2) \<and>
    others_kept n s s' \<and> files_ok L s' \<and> (\<forall>x\<in>L. x \<noteq> n \<longrightarrow> contents s' x = contents s x)"
proof -
  have u: "unat (of_nat len :: u32) = len" using offsets [of len] assms(3) by simp
  have "sized (din_of s' n)" using assms(7) u blocks_for [of len] by (auto simp: sized_def)
  note k = files_kept [OF assms(1,2,5) this assms(6)]
  have "sized (din_of s n)" using assms(1,2) by (simp add: files_ok_def)
  then have "ret = 0 \<Longrightarrow> tight (din_of s' n) \<and> contents s' n = take len (contents s n) @
       map (\<lambda>x. if x < 4096 * dblocks (din_of s n) then fbyte s n x else 0) [unat (dsize (din_of s n))..<len]"
    using assms(7) u set_contents [of s' n len s] assms(3) by (simp add: tight_def)
  then show ?thesis using assms(4,6,7) k by blast
qed

text \<open>
  C32. Setting the length of a file that has exactly the blocks it needs (\<open>tight\<close>), to at most what its
  block map can hold (\<open>12 + 1024\<close> blocks), returns.  With the code 0 the length is set, the file again has exactly
  the blocks that it needs, its bytes are kept up to the shorter of the two lengths, and in blocks
  that are new the bytes added are 0.  The only other code is \<^verbatim>\<open>-E_NO_MEM\<close>, and then the file holds what it
  held, but may keep blocks that it does not need, so that this says nothing of a later call.  In both cases other
  files are left alone and blocks pass between this file and the free map only.
\<close>

theorem sfs_truncfile_exact:
  assumes "files_ok L s" "n \<in> L" "tight (din_of s n)" "len \<le> max_bytes"
  shows "\<exists>ret s'. sfs_truncfile_nolock n (of_nat len) s = Some (ret, s') \<and>
    (ret = 0 \<and> tight (din_of s' n) \<and> dsize (din_of s' n) = of_nat len \<and>
       contents s' n = take len (contents s n) @
         map (\<lambda>x. if x < 4096 * dblocks (din_of s n) then fbyte s n x else 0) [unat (dsize (din_of s n))..<len] \<or>
     ret = fail_code E_NO_MEM \<and> contents s' n = contents s n \<and> card (free_blocks s') < 2) \<and>
    others_kept n s s' \<and> files_ok L s' \<and> (\<forall>x\<in>L. x \<noteq> n \<longrightarrow> contents s' x = contents s x)"
proof -
  let ?d = "din_of s n" and ?t = "of_nat len :: u32" and ?k = "(len + 4095) div 4096"
  have sn: "sound n s" "sized ?d" using assms(1,2) by (simp_all add: files_ok_def)
  have inv: "space_inv s" and f: "file_ok s ?d" using sn(1) by (simp_all add: sound_def)
  have u: "unat ?t = len" "sint ?t = int len" "unat (roundup_div_2n ?t 12) = ?k"
    using offsets [of len] assms(4) roundup_blocks by simp_all
  have kb: "?k \<le> 1036" using div_le_mono [of "len + 4095" "1036 * 4096 + 4095" 4096] assms(4) by (simp add: max_bytes_def)
  have ok: "\<not> (sint ?t < 0 \<or> ?t > SFS_MAX_FILE_SIZE)"
    using u assms(4) by (simp add: word_less_nat_alt SFS_MAX_FILE_SIZE_def max_bytes_def)
  note fin = trunc_result [OF assms(1,2,4)]
  show ?thesis
  proof (cases "dsize ?d = ?t")
    case True
    then have "dblocks ?d = ?k" using assms(3) u(1) by (simp add: tight_def)
    moreover from this have "sfs_truncfile_nolock n ?t s = Some (0, s)"
      using ok True u(3) by (simp add: sfs_truncfile_nolock_def Let_def)
    ultimately show ?thesis
      using True sn(1) blocks_for [of len] by (intro fin) (auto simp: others_kept_def)
  next
    case ne: False
    show ?thesis
    proof (cases "dblocks ?d < ?k")
      case True
      then have "dblocks ?d + (?k - dblocks ?d) \<le> 1036" using kb by simp
      from load_blocks_ok [OF sn(1) refl this] obtain ret j s1 where l: "load_blocks n (dblocks ?d) (?k - dblocks ?d) s = Some (ret, s1)"
        "widens n j s s1" "ret = 0 \<and> j = ?k \<or> ret = fail_code E_NO_MEM \<and> card (free_blocks s1) < 2" using True by auto
      have s1: "sound n s1" "others_kept n s s1" using l(2) grows_sound widens_others by (auto simp: widens_def)
      show ?thesis
      proof (cases "ret = 0")
        case z: True
        then have j: "dblocks (din_of s1 n) = ?k" using l(2,3) by (simp add: widens_def)
        have "x < len \<Longrightarrow> fbyte s1 n x = (if x < 4096 * dblocks ?d then fbyte s n x else 0)" for x
          using l(2,3) z blocks_for [of len] by (simp add: widens_def)
        then show ?thesis
          using ok ne True u(3) l(1) z j s1 by (intro fin [of 0 "mark_dirty n (mod_din n (\<lambda>d. d\<lparr>dsize := ?t\<rparr>) s1)"])
            (simp_all add: sfs_truncfile_nolock_def Let_def size_set)
      next
        case nz: False
        have g: "grows n s s1" using l(2) by (simp add: widens_def)
        have z: "dsize (din_of s1 n) = dsize ?d" "dblocks ?d \<le> dblocks (din_of s1 n)" using growsD(5,8) [OF g] by simp_all
        then have sz: "sized (din_of s1 n)" using sn(2) by (simp add: sized_def)
        have "fbyte s1 n x = fbyte s n x" if "x < unat (dsize ?d)" for x
        proof -
          have "x < 4096 * dblocks ?d" "x < 4096 * dblocks (din_of s1 n)" using that sn(2) sz z(1) by (simp_all add: sized_def)
          then show ?thesis using l(2) by (simp add: widens_def)
        qed
        then have "contents s1 n = contents s n" using z(1) by (simp add: contents_def)
        then show ?thesis
          using ok ne True u(3) l(1,3) nz s1 sz by (intro fin [of ret s1]) (simp_all add: sfs_truncfile_nolock_def Let_def)
      qed
    next
      case False
      then have "dblocks ?d = ?k + (dblocks ?d - ?k)" by simp
      from drop_blocks_ok [OF inv f this] obtain s1 where l: "drop_blocks n (dblocks ?d - ?k) s = Some (0, s1)"
        "shrinks n ?k s s1" by blast
      have s1: "sound n s1" "others_kept n s s1" "dblocks (din_of s1 n) = ?k"
        using shrinksD(1,2,6) [OF l(2)] shrinks_others [OF l(2) f] by (simp_all add: sound_def)
      have "x < len \<Longrightarrow> fbyte s1 n x = (if x < 4096 * dblocks ?d then fbyte s n x else 0)" for x
        using shrinks_fbyte [OF l(2) f] False blocks_for [of len] by simp
      then show ?thesis
        using ok ne False u(3) l(1) s1 by (intro fin [of 0 "mark_dirty n (mod_din n (\<lambda>d. d\<lparr>dsize := ?t\<rparr>) s1)"])
          (simp_all add: sfs_truncfile_nolock_def Let_def size_set)
    qed
  qed
qed

theorem sfs_truncfile_exact_witness:
  "\<exists>ret s'. sfs_truncfile_nolock 5 5000 small_fs = Some (ret, s') \<and>
    (ret = 0 \<and> contents s' 5 = replicate 5000 0 \<or> ret = fail_code E_NO_MEM \<and> contents s' 5 = contents small_fs 5) \<and>
    contents s' 6 = contents small_fs 6"
proof -
  have "tight (din_of small_fs 5)" "5000 \<le> max_bytes" by (simp_all add: tight_def max_bytes_def small_fs_def)
  from sfs_truncfile_exact [OF small_ok(3) _ this] obtain ret s' where
    r: "sfs_truncfile_nolock 5 (of_nat 5000) small_fs = Some (ret, s')"
    "ret = 0 \<and> contents s' 5 = take 5000 (contents small_fs 5) @ map (\<lambda>x. if x < 4096 * dblocks (din_of small_fs 5)
       then fbyte small_fs 5 x else 0) [unat (dsize (din_of small_fs 5))..<5000] \<or>
     ret = fail_code E_NO_MEM \<and> contents s' 5 = contents small_fs 5" "contents s' 6 = contents small_fs 6" by auto
  have "take 5000 (contents small_fs 5) @ map (\<lambda>x. if x < 4096 * dblocks (din_of small_fs 5)
       then fbyte small_fs 5 x else 0) [unat (dsize (din_of small_fs 5))..<5000] = replicate 5000 0"
  proof -
    have d: "dblocks (din_of small_fs 5) = 0" "contents small_fs 5 = []"
      by (simp add: small_fs_def) (simp add: contents_def small_vals)
    have "map (\<lambda>x. if x < 4096 * (0 :: nat) then fbyte small_fs 5 x else 0) xs = replicate (length xs) 0" for xs
      by (simp add: map_replicate_const)
    then show ?thesis unfolding d small_vals by (simp only: length_upt take_Nil append_Nil unsigned_0 diff_zero)
  qed
  then show ?thesis using r by auto
qed

end
