(* ===== verification/Sfs_Remount.thy ===== *)
theory Sfs_Remount
  imports Sfs_Trunc
begin

text \<open>
  What is written back can be mounted again (\<^verbatim>\<open>sfs_sync\<close> and \<^verbatim>\<open>sfs_do_mount\<close> in \<^verbatim>\<open>kern/fs/sfs/sfs_fs.c\<close>): the
  superblock, the free map and the inodes come back as they were in memory.
\<close>

section \<open>Records as bytes\<close>

lemma bytes_words: "bytes_word (concat (map word_bytes (w # ws)) @ bs) = w"
  by (simp add: append_assoc)

lemma words_of_append: "words_of (length ws) (concat (map word_bytes ws) @ bs) = ws"
  by (induction ws) auto

lemma u32_of_nat: "k < 2 ^ 32 \<Longrightarrow> unat (of_nat k :: u32) = k"
  by (simp only: unsigned_of_nat) (simp add: take_bit_nat_eq_self)

definition din_fits :: "sfs_disk_inode \<Rightarrow> bool" where
  "din_fits d \<longleftrightarrow> dtype d < 2 ^ 16 \<and> nlinks d < 2 ^ 16 \<and> dblocks d < 2 ^ 32 \<and> length (direct d) = 12 \<and>
     (\<forall>x\<in>set (direct d). x < 2 ^ 32) \<and> indirect d < 2 ^ 32"

lemma half_words:
  assumes "a < 2 ^ 16" "b < 2 ^ 16"
  shows "unat ((of_nat a OR push_bit 16 (of_nat b) :: u32) AND 0xFFFF) = a"
    "unat (drop_bit 16 (of_nat a OR push_bit 16 (of_nat b) :: u32)) = b"
proof -
  have a: "bit a i \<Longrightarrow> i < 16" for i
    using assms(1) by (metis bit_take_bit_iff take_bit_nat_eq_self)
  have m: "(0xFFFF :: u32) = mask 16" by (simp add: mask_eq_exp_minus_1)
  have "(of_nat a OR push_bit 16 (of_nat b) :: u32) AND 0xFFFF = of_nat a"
    unfolding m by (rule bit_word_eqI) (auto simp: bit_simps dest: a)
  then show "unat ((of_nat a OR push_bit 16 (of_nat b) :: u32) AND 0xFFFF) = a" using u32_of_nat [of a] assms(1) by simp
  have b: "bit b i \<Longrightarrow> i < 16" for i
    using assms(2) by (metis bit_take_bit_iff take_bit_nat_eq_self)
  have "(drop_bit 16 (of_nat a OR push_bit 16 (of_nat b)) :: u32) = of_nat b"
  proof (rule bit_word_eqI)
    fix i assume "i < LENGTH(32)"
    have "\<not> bit (of_nat a :: u32) (16 + i)" using a [of "16 + i"] by (auto simp: bit_simps)
    then show "bit (drop_bit 16 (of_nat a OR push_bit 16 (of_nat b)) :: u32) i = bit (of_nat b :: u32) i"
      by (auto simp: bit_drop_bit_eq bit_or_iff bit_push_bit_iff bit_simps dest: b)
  qed
  then show "unat (drop_bit 16 (of_nat a OR push_bit 16 (of_nat b) :: u32)) = b" using u32_of_nat [of b] assms(2) by simp
qed

lemma din_roundtrip:
  assumes "din_fits d"
  shows "bytes_din (din_bytes d @ bs) = d"
proof -
  let ?t = "of_nat (dtype d) OR push_bit 16 (of_nat (nlinks d)) :: u32"
  let ?ws = "[dsize d, ?t, of_nat (dblocks d)] @ map of_nat (direct d) @ [of_nat (indirect d)] :: u32 list"
  have l: "length ?ws = 16" "length (direct d) = 12" using assms by (simp_all add: din_fits_def)
  have "words_of 16 (din_bytes d @ bs) = ?ws"
    using words_of_append [of ?ws bs] unfolding l(1) din_bytes_def .
  moreover have "?ws ! 15 = of_nat (indirect d)" using l(2) by (simp add: nth_append)
  moreover have "map unat (take 12 (drop 3 ?ws)) = direct d"
    using l(2) u32_of_nat assms by (simp add: din_fits_def comp_def map_idI)
  ultimately show ?thesis
    using half_words [of "dtype d" "nlinks d"] u32_of_nat [of "dblocks d"] u32_of_nat [of "indirect d"] assms
    by (simp add: bytes_din_def Let_def din_fits_def)
qed

lemma length_din_bytes: "length (direct d) = 12 \<Longrightarrow> length (din_bytes d) = 64"
proof -
  have "length (concat (map word_bytes ws)) = 4 * length ws" for ws by (rule length_bytes)
  then show "length (direct d) = 12 \<Longrightarrow> length (din_bytes d) = 64" by (simp only: din_bytes_def) simp
qed

definition super_fits :: "sfs_super \<Rightarrow> bool" where
  "super_fits p \<longleftrightarrow> blocks_of p < 2 ^ 19 \<and> unused_blocks p < 2 ^ 19 \<and> length (info p) = 32"

lemma length_super: "super_fits p \<Longrightarrow> length (super_bytes p) = 44"
  by (simp add: super_bytes_def super_fits_def)

lemma super_roundtrip: "super_fits p \<Longrightarrow> bytes_super (super_bytes p @ bs) = p"
proof -
  assume f: "super_fits p"
  then have u: "unat (of_nat (blocks_of p) :: u32) = blocks_of p" "unat (of_nat (unused_blocks p) :: u32) = unused_blocks p"
    using u32_of_nat [of "blocks_of p"] u32_of_nat [of "unused_blocks p"] by (simp_all add: super_fits_def)
  have d: "drop 4 (word_bytes w @ xs) = xs" "drop 8 (word_bytes w @ word_bytes w' @ xs) = xs"
    "drop 12 (word_bytes w @ word_bytes w' @ word_bytes w'' @ xs) = xs" for w w' w'' xs by simp_all
  have i: "take 32 (info p @ bs) = info p" using f by (simp add: super_fits_def)
  show ?thesis by (simp only: bytes_super_def super_bytes_def append_assoc d bytes_word_bytes u i) simp
qed

section \<open>Runs of blocks\<close>

lemma drop_div: "b < x \<Longrightarrow> drop (4096 * (x - Suc b)) (drop 4096 buf) = drop (4096 * (x - b)) buf"
proof -
  assume "b < x"
  then have "4096 * (x - Suc b) + 4096 = 4096 * (x - b)" by simp
  then show ?thesis by (simp add: add.commute)
qed

lemma write_run:
  "\<lbrakk>dev_ok s; 0 < b; b + m \<le> blocks_of (super s); length buf = 4096 * m\<rbrakk> \<Longrightarrow>
   \<exists>s'. sfs_rwblock buf b m True s = Some ((0, buf), s') \<and> disk_only s s' \<and>
     blk s' = (\<lambda>x. if b \<le> x \<and> x < b + m then take 4096 (drop (4096 * (x - b)) buf) else blk s x)"
proof (induction m arbitrary: b buf s)
  case 0
  then have "disk_only s s" by (simp add: disk_only_def same_disk_def dev_ok_def)
  moreover have "blk s = (\<lambda>x. if b \<le> x \<and> x < b + 0 then take 4096 (drop (4096 * (x - b)) buf) else blk s x)"
    by (rule ext) auto
  ultimately show ?case using 0 by (intro exI [of _ s]) auto
next
  case (Suc m)
  have l: "length (take 4096 buf) = 4096" "length (drop 4096 buf) = 4096 * m" using Suc.prems(4) by simp_all
  obtain s1 where w: "sfs_rwblock_nolock (take 4096 buf) b True True s = Some ((0, take 4096 buf), s1)" "disk_only s s1"
    "blk s1 = (blk s)(b := take 4096 buf)"
    using write_block [OF Suc.prems(1) _ _ l(1), of b True] Suc.prems(2,3) by auto
  have p: "dev_ok s1" "0 < b + 1" "b + 1 + m \<le> blocks_of (super s1)" using disk_onlyD [OF w(2)] Suc.prems by simp_all
  from Suc.IH [OF p l(2)] obtain s' where r: "sfs_rwblock (drop 4096 buf) (b + 1) m True s1 = Some ((0, drop 4096 buf), s')"
    "disk_only s1 s'" "blk s' = (\<lambda>x. if b + 1 \<le> x \<and> x < b + 1 + m then take 4096 (drop (4096 * (x - (b + 1))) (drop 4096 buf)) else blk s1 x)"
    by blast
  have "blk s' x = (if b \<le> x \<and> x < b + Suc m then take 4096 (drop (4096 * (x - b)) buf) else blk s x)" for x
    using drop_div [of b x buf] unfolding r(3) w(3) by (cases "x = b") auto
  then show ?case using w(1) r(1) disk_only_trans [OF w(2) r(2)] by (auto simp: sfs_consts)
qed

lemma dev_read:
  assumes "disk_ok (sdev s)" "b < d_blocks (sdev s)" "length buf = 4096"
  shows "\<exists>s'. sfs_init_read b buf s = Some ((0, blk s b), s') \<and> s' = s\<lparr>sdev := sdev s'\<rparr> \<and> same_disk (sdev s) (sdev s') \<and> blk s' = blk s"
proof -
  obtain d where "disk0_io (of_nat b * 4096) buf False (sdev s) = Some (0, block (sdev s) b, d)" "same_disk (sdev s) d"
    "block d = block (sdev s)" using disk0_read_block [OF assms] by blast
  then show ?thesis by (intro exI [of _ "s\<lparr>sdev := d\<rparr>"]) (simp add: sfs_init_read_def blk_def)
qed

lemma read_run:
  "\<lbrakk>disk_ok (sdev s); b + m \<le> d_blocks (sdev s); length buf = 4096 * m\<rbrakk> \<Longrightarrow>
   \<exists>s'. init_freemap_blocks buf b m s = Some ((0, concat (map (blk s) [b..<b + m])), s') \<and> s' = s\<lparr>sdev := sdev s'\<rparr> \<and>
     same_disk (sdev s) (sdev s') \<and> blk s' = blk s"
proof (induction m arbitrary: b buf s)
  case 0
  then have "same_disk (sdev s) (sdev s)" by (simp add: same_disk_def)
  then show ?case using 0 by (intro exI [of _ s]) simp
next
  case (Suc m)
  have l: "length (take 4096 buf) = 4096" "length (drop 4096 buf) = 4096 * m" using Suc.prems(3) by simp_all
  obtain s1 where w: "sfs_init_read b (take 4096 buf) s = Some ((0, blk s b), s1)" "s1 = s\<lparr>sdev := sdev s1\<rparr>"
    "same_disk (sdev s) (sdev s1)" "blk s1 = blk s"
    using dev_read [OF Suc.prems(1) _ l(1), of b] Suc.prems(2) by auto
  have p: "disk_ok (sdev s1)" "b + 1 + m \<le> d_blocks (sdev s1)" using w(3) Suc.prems(2) by (simp_all add: same_disk_def)
  from Suc.IH [OF p l(2)] obtain s' where r: "init_freemap_blocks (drop 4096 buf) (b + 1) m s1 =
      Some ((0, concat (map (blk s1) [b + 1..<b + 1 + m])), s')" "s' = s1\<lparr>sdev := sdev s'\<rparr>"
    "same_disk (sdev s1) (sdev s')" "blk s' = blk s1" by blast
  have "s' = s\<lparr>sdev := sdev s'\<rparr>" by (subst r(2), subst w(2)) simp
  moreover have "same_disk (sdev s) (sdev s')" using w(3) r(3) by (simp add: same_disk_def)
  moreover have "[b..<b + Suc m] = b # [b + 1..<b + 1 + m]" by (simp add: upt_conv_Cons)
  ultimately show ?case using w(1,4) r(1,4) by (simp add: sfs_consts)
qed


section \<open>The superblock and the free map\<close>

definition meta_ok :: "sfs_fs \<Rightarrow> bool" where
  "meta_ok s \<longleftrightarrow> space_inv s \<and> super_fits (super s) \<and> magic (super s) = SFS_MAGIC \<and> info (super s) ! 31 = 0 \<and>
     0 < blocks_of (super s) \<and> nbits (freemap s) = sfs_freemap_bits (super s) \<and>
     2 + sfs_freemap_blocks (super s) \<le> blocks_of (super s)"

lemma freemap_size:
  assumes "0 < blocks_of p" "blocks_of p < 2 ^ 19"
  shows "sfs_freemap_blocks p = (blocks_of p + 32767) div 32768" "unat (sfs_freemap_bits p) = sfs_freemap_blocks p * 32768"
    "0 < sfs_freemap_blocks p" "sfs_freemap_blocks p \<le> 16"
proof -
  have u: "unat (of_nat (blocks_of p) :: u32) = blocks_of p" using u32_of_nat assms(2) by simp
  have a: "unat (of_nat (blocks_of p) + 32767 :: u32) = blocks_of p + 32767"
    using u assms(2) by (subst unat_add_u32) simp_all
  show b: "sfs_freemap_blocks p = (blocks_of p + 32767) div 32768"
    using a by (simp add: sfs_freemap_blocks_def roundup_div_2n_def SFS_BLKBITS_SHIFT_def unat_shiftr push_bit_eq_mult add.commute)
  have r: "unat (roundup_2n (of_nat (blocks_of p)) 15) = (unat (of_nat (blocks_of p) :: u32) + 2 ^ 15 - 1) div 2 ^ 15 * 2 ^ 15"
    using u assms(2) by (intro unat_roundup) simp_all
  show "unat (sfs_freemap_bits p) = sfs_freemap_blocks p * 32768"
    using r unfolding u b by (simp add: sfs_freemap_bits_def SFS_BLKBITS_SHIFT_def)
  show "0 < sfs_freemap_blocks p" unfolding b using assms(1) by (simp add: div_greater_zero_iff)
  have "(blocks_of p + 32767) div 32768 \<le> (2 ^ 19 + 32767) div 32768" using assms(2) by (intro div_le_mono) simp
  then show "sfs_freemap_blocks p \<le> 16" unfolding b by simp
qed

lemma meta_words:
  assumes "meta_ok s"
  shows "unat (nwords (freemap s)) = sfs_freemap_blocks (super s) * 1024" "length (bitmap_getdata (freemap s)) = 4096 * sfs_freemap_blocks (super s)"
    "words_of (unat (nwords (freemap s))) (bitmap_getdata (freemap s)) = wmap (freemap s)"
proof -
  have p: "0 < blocks_of (super s)" "blocks_of (super s) < 2 ^ 19" and bo: "bitmap_ok (freemap s)"
    and n: "unat (nbits (freemap s)) = sfs_freemap_blocks (super s) * 32768"
    using assms freemap_size(2) [of "super s"] space_invD(2) by (simp_all add: meta_ok_def super_fits_def)
  have l: "length (wmap (freemap s)) = unat (nwords (freemap s))" using bo by (simp add: bitmap_ok_def)
  have "sfs_freemap_blocks (super s) * 32768 \<le> 32 * unat (nwords (freemap s))"
    "32 * unat (nwords (freemap s)) < sfs_freemap_blocks (super s) * 32768 + 32" using bo n by (simp_all add: bitmap_ok_def)
  then show w: "unat (nwords (freemap s)) = sfs_freemap_blocks (super s) * 1024" by linarith
  show "length (bitmap_getdata (freemap s)) = 4096 * sfs_freemap_blocks (super s)"
    using l w by (simp add: bitmap_getdata_def length_bytes)
  show "words_of (unat (nwords (freemap s))) (bitmap_getdata (freemap s)) = wmap (freemap s)"
    using words_of_bytes [of "wmap (freemap s)"] l by (simp add: bitmap_getdata_def)
qed

text \<open>The device holds the superblock and the free map that the memory has.\<close>

definition meta_on_disk :: "sfs_fs \<Rightarrow> (nat \<Rightarrow> u8 list) \<Rightarrow> bool" where
  "meta_on_disk s f \<longleftrightarrow> f 0 = overlay 0 (super_bytes (super s)) zeros \<and>
     (\<forall>k. k < sfs_freemap_blocks (super s) \<longrightarrow> f (2 + k) = take 4096 (drop (4096 * k) (bitmap_getdata (freemap s))))"

lemma sync_meta_ok:
  assumes "meta_ok s" "super_dirty s"
  shows "\<exists>s'. sfs_sync_meta s = Some (0, s') \<and> meta_ok s' \<and> super s' = super s \<and> freemap s' = freemap s \<and> \<not> super_dirty s' \<and>
    sfs_inodes s' = sfs_inodes s \<and> inode_list s' = inode_list s \<and> meta_on_disk s (blk s') \<and>
    same_disk (sdev s) (sdev s') \<and>
    (\<forall>x. x \<noteq> 0 \<longrightarrow> \<not> (2 \<le> x \<and> x < 2 + sfs_freemap_blocks (super s)) \<longrightarrow> blk s' x = blk s x)"
proof -
  let ?k = "sfs_freemap_blocks (super s)" and ?s0 = "s\<lparr>super_dirty := False\<rparr>"
  have inv: "space_inv s" using assms(1) by (simp add: meta_ok_def)
  have dv: "dev_ok ?s0" using space_invD(1) [OF inv] by (simp add: dev_ok_def)
  have fits: "super_fits (super s)" "0 < blocks_of (super s)" "2 + ?k \<le> blocks_of (super s)" using assms(1) by (simp_all add: meta_ok_def)
  have l: "length (overlay 0 (super_bytes (super s)) zeros) = 4096"
    using length_super [OF fits(1)] by (simp add: length_overlay)
  obtain s1 where w1: "sfs_rwblock_nolock (overlay 0 (super_bytes (super s)) zeros) 0 True False ?s0 =
      Some ((0, overlay 0 (super_bytes (super s)) zeros), s1)" "disk_only ?s0 s1"
    "blk s1 = (blk ?s0)(0 := overlay 0 (super_bytes (super s)) zeros)"
    using write_block [OF dv _ _ l, of 0 False] fits(2) by auto
  note d1 = disk_onlyD [OF w1(2)]
  have p: "dev_ok s1" "0 < (2 :: nat)" "2 + ?k \<le> blocks_of (super s1)" using d1 dv fits by simp_all
  obtain s2 where w2: "sfs_rwblock (bitmap_getdata (freemap s)) 2 ?k True s1 = Some ((0, bitmap_getdata (freemap s)), s2)"
    "disk_only s1 s2" "blk s2 = (\<lambda>x. if 2 \<le> x \<and> x < 2 + ?k then take 4096 (drop (4096 * (x - 2)) (bitmap_getdata (freemap s))) else blk s1 x)"
    using write_run [OF p meta_words(2) [OF assms(1)]] by blast
  note d2 = disk_onlyD [OF w2(2)]
  have r: "sfs_sync_meta s = Some (0, s2)"
    using assms(2) w1(1) w2(1) d1 by (simp add: sfs_sync_meta_def sfs_sync_super_def sfs_sync_freemap_def sfs_wblock_def
      SFS_BLKN_SUPER_def SFS_BLKN_FREEMAP_def)
  have b0: "blk ?s0 = blk s" by (simp add: blk_def)
  have "disk_only ?s0 s2" using disk_only_trans [OF w1(2) w2(2)] .
  then have "space_inv s2" using disk_only_space [of ?s0 s2] inv by (simp add: space_inv_def dev_ok_def free_blocks_def)
  then have "meta_ok s2" using assms(1) d1 d2 by (simp add: meta_ok_def)
  moreover have "same_disk (sdev s) (sdev s2)" using w1(2) w2(2) by (simp add: disk_only_def same_disk_def)
  moreover have "meta_on_disk s (blk s2)" by (simp add: meta_on_disk_def w2(3) w1(3))
  ultimately show ?thesis
    using r d1 d2 by (intro exI [of _ s2]) (auto simp: w2(3) w1(3) b0)
qed

lemma concat_parts: "length buf = 4096 * m \<Longrightarrow> concat (map (\<lambda>k. take 4096 (drop (4096 * k) buf)) [0..<m]) = buf"
proof (induction m arbitrary: buf)
  case (Suc m)
  have "[0..<Suc m] = 0 # map Suc [0..<m]" by (simp add: upt_conv_Cons map_Suc_upt del: upt_Suc)
  moreover have "map (\<lambda>k. take 4096 (drop (4096 * k) buf)) (map Suc [0..<m]) = map (\<lambda>k. take 4096 (drop (4096 * k) (drop 4096 buf))) [0..<m]"
    by (simp add: add.commute)
  moreover have "concat (map (\<lambda>k. take 4096 (drop (4096 * k) (drop 4096 buf))) [0..<m]) = drop 4096 buf"
    using Suc.prems by (intro Suc.IH) simp
  ultimately show ?case by (simp only: list.map concat.simps) simp
qed simp

lemma take_obj_True: "kans (fheap s) = True # as \<Longrightarrow> \<exists>s'. take_obj s = (True, s') \<and> s' = s\<lparr>fheap := fheap s'\<rparr> \<and> kans (fheap s') = as"
  by (simp add: take_obj_def get_obj_def)

lemma mount_ok:
  assumes m: "meta_ok s" "meta_on_disk s (blk t)" and d: "same_disk (sdev s) (sdev t)" "d_blocksize (sdev t) = 4096"
    and h: "kans (fheap t) = True # True # True # True # True # as"
  shows "\<exists>t'. sfs_do_mount t = Some (0, t') \<and> super t' = super s \<and> freemap t' = freemap s \<and> \<not> super_dirty t' \<and>
    inode_list t' = [] \<and> blk t' = blk t \<and> space_inv t'"
proof -
  let ?p = "super s" and ?k = "sfs_freemap_blocks (super s)"
  have inv: "space_inv s" and fits: "super_fits ?p" "0 < blocks_of ?p" "2 + ?k \<le> blocks_of ?p" "magic ?p = SFS_MAGIC"
    using m(1) by (simp_all add: meta_ok_def)
  have i31: "(info ?p)[31 := 0] = info ?p" using m(1) by (simp add: meta_ok_def list_update_same_conv super_fits_def)
  obtain h1 where t1: "take_obj t = (True, t\<lparr>fheap := h1\<rparr>)" "kans h1 = True # True # True # True # as"
    using take_obj_True [OF h] by auto
  obtain h2 where t2: "take_obj (t\<lparr>fheap := h1\<rparr>) = (True, t\<lparr>fheap := h2\<rparr>)" "kans h2 = True # True # True # as"
    using take_obj_True [of "t\<lparr>fheap := h1\<rparr>"] t1(2) by auto
  have dk: "disk_ok (sdev t)" "d_blocks (sdev t) = d_blocks (sdev s)" using d(1) by (simp_all add: same_disk_def)
  have bd: "blocks_of ?p \<le> d_blocks (sdev t)" using space_invD(1) [OF inv] dk(2) by (simp add: dev_ok_def)
  let ?t2 = "t\<lparr>fheap := h2\<rparr>"
  obtain e where r1: "sfs_init_read 0 zeros ?t2 = Some ((0, blk ?t2 0), ?t2\<lparr>sdev := e\<rparr>)" "same_disk (sdev t) e" "blk (?t2\<lparr>sdev := e\<rparr>) = blk ?t2"
    using dev_read [of ?t2 0 zeros] dk(1) bd fits(2) by auto
  have bt: "blk ?t2 = blk t" "blk (t\<lparr>fheap := x, sdev := e\<rparr>) = blk t" for x using r1(3) by (simp_all add: blk_def)
  have p: "bytes_super (blk t 0) = ?p"
    using m(2) super_roundtrip [OF fits(1)] by (simp add: meta_on_disk_def overlay_def)
  let ?t3 = "?t2\<lparr>sdev := e, super := ?p\<rparr>"
  obtain h3 where t3: "take_obj ?t3 = (True, ?t3\<lparr>fheap := h3\<rparr>)" "kans h3 = True # True # as"
    using take_obj_True [of ?t3] t2(2) by auto
  obtain h4 where g1: "get_obj h3 = (True, h4)" "kans h4 = True # as" using t3(2) by (auto simp: get_obj_def)
  obtain h5 where g2: "get_obj h4 = (True, h5)" using g1(2) by (auto simp: get_obj_def)
  note fs = freemap_size [OF fits(2)]
  have b19: "blocks_of ?p < 2 ^ 19" using fits(1) by (simp add: super_fits_def)
  have nb: "0 < sfs_freemap_bits ?p" "unat (sfs_freemap_bits ?p) + 32 < 4294967296"
    using fs [OF b19] by (simp_all add: word_less_nat_alt)
  obtain b where b: "bitmap_create (sfs_freemap_bits ?p) h3 = Some (Some b, h5)" "nbits b = sfs_freemap_bits ?p"
    "unat (nwords b) = (unat (sfs_freemap_bits ?p) + 31) div 32" "bitmap_ok b"
    using bitmap_create_ok [OF nb g1(1) g2] by blast
  have nw: "unat (nwords b) = ?k * 1024" using b(3) fs(2) [OF b19] by simp
  have lb: "length (bitmap_getdata b) = 4096 * ?k" using b(4) nw by (simp add: bitmap_ok_def bitmap_getdata_def length_bytes)
  let ?t4 = "?t3\<lparr>hash_list := \<lambda>_. [], fheap := h5\<rparr>"
  have dk4: "disk_ok (sdev ?t4)" "2 + ?k \<le> d_blocks (sdev ?t4)" using r1(2) dk bd fits(3) by (simp_all add: same_disk_def)
  obtain e2 where r2: "init_freemap_blocks (bitmap_getdata b) 2 ?k ?t4 = Some ((0, concat (map (blk ?t4) [2..<2 + ?k])), ?t4\<lparr>sdev := e2\<rparr>)"
    "same_disk e e2" "blk (?t4\<lparr>sdev := e2\<rparr>) = blk ?t4"
    using read_run [OF dk4 lb] by auto
  have bt4: "blk ?t4 = blk t" using r1(3) by (simp add: blk_def)
  have "map (blk t) [2..<2 + ?k] = map (\<lambda>k. take 4096 (drop (4096 * k) (bitmap_getdata (freemap s)))) [0..<?k]"
    using m(2) by (intro nth_equalityI) (simp_all add: meta_on_disk_def del: upt_Suc add_2_eq_Suc add_2_eq_Suc')
  then have data: "concat (map (blk ?t4) [2..<2 + ?k]) = bitmap_getdata (freemap s)"
    using concat_parts [OF meta_words(2) [OF m(1)]] bt4 by simp
  have "nwords b = nwords (freemap s)" using nw meta_words(1) [OF m(1)] by (simp add: word_unat_eq_iff)
  moreover have "nbits b = nbits (freemap s)" using b(2) m(1) by (simp add: meta_ok_def)
  ultimately have fm: "b\<lparr>wmap := words_of (unat (nwords b)) (bitmap_getdata (freemap s))\<rparr> = freemap s"
    using meta_words(3) [OF m(1)] by simp
  have init: "sfs_init_freemap b 2 ?k ?t4 = Some ((0, freemap s), ?t4\<lparr>sdev := e2\<rparr>)"
    using nw r2(1) data fm by (simp add: sfs_init_freemap_def SFS_BLKSIZE_def)
  let ?t' = "?t4\<lparr>sdev := e2, freemap := freemap s, super_dirty := False, inode_list := []\<rparr>"
  have "sfs_do_mount t = Some (0, ?t')"
    using t1(1) t2(1) t3(1) r1(1) b(1) init p i31 fits(4) bd d(2) dk r1(2)
    by (simp add: sfs_do_mount_def Let_def SFS_BLKSIZE_def SFS_BLKN_SUPER_def SFS_BLKN_FREEMAP_def SFS_MAX_INFO_LEN_def bt same_disk_def)
  moreover have "blk ?t' = blk t" using r2(3) bt4 by (simp add: blk_def)
  moreover have "space_inv ?t'"
    using inv r2(2) r1(2) dk bd by (simp add: space_inv_def dev_ok_def same_disk_def free_blocks_def)
  ultimately show ?thesis by (intro exI [of _ ?t']) simp
qed


section \<open>The inodes\<close>

definition saved :: "sfs_fs \<Rightarrow> nat \<Rightarrow> bool" where
  "saved s n \<longleftrightarrow> take 64 (blk s (ino (sfs_inodes s n))) = din_bytes (din_of s n)"

text \<open>Inodes in memory: each has a block of its own outside the free map, and is dirty unless that block holds it.\<close>

definition nodes_ok :: "nat set \<Rightarrow> sfs_fs \<Rightarrow> bool" where
  "nodes_ok L s \<longleftrightarrow> inj_on (\<lambda>n. ino (sfs_inodes s n)) L \<and>
     (\<forall>n\<in>L. ino (sfs_inodes s n) \<in> used_blocks s \<and> din_fits (din_of s n) \<and> (dirty (sfs_inodes s n) \<or> saved s n) \<and>
        \<not> (2 \<le> ino (sfs_inodes s n) \<and> ino (sfs_inodes s n) < 2 + sfs_freemap_blocks (super s)))"

text \<open>The blocks of the superblock and of the free map.\<close>

definition meta_block :: "sfs_fs \<Rightarrow> nat \<Rightarrow> bool" where
  "meta_block s x \<longleftrightarrow> x = 0 \<or> 2 \<le> x \<and> x < 2 + sfs_freemap_blocks (super s)"

text \<open>Between two states only blocks of inodes on the device and marks of dirty inodes differ.\<close>

definition flushed :: "sfs_fs \<Rightarrow> sfs_fs \<Rightarrow> bool" where
  "flushed s s' \<longleftrightarrow> super s' = super s \<and> freemap s' = freemap s \<and> super_dirty s' = super_dirty s \<and> inode_list s' = inode_list s \<and>
     same_disk (sdev s) (sdev s') \<and> (\<forall>n. din_of s' n = din_of s n \<and> ino (sfs_inodes s' n) = ino (sfs_inodes s n) \<and>
       reclaim_count (sfs_inodes s' n) = reclaim_count (sfs_inodes s n) \<and> (dirty (sfs_inodes s' n) \<longrightarrow> dirty (sfs_inodes s n))) \<and>
     (\<forall>x. meta_block s x \<longrightarrow> blk s' x = blk s x)"

lemma flushed_trans: "flushed a b \<Longrightarrow> flushed b c \<Longrightarrow> flushed a c"
  by (simp add: flushed_def same_disk_def meta_block_def)

lemma flushed_meta: "flushed s s' \<Longrightarrow> meta_ok s \<Longrightarrow> meta_ok s'"
  unfolding flushed_def meta_ok_def space_inv_def dev_ok_def free_blocks_def same_disk_def by auto

lemma fsync_ok:
  assumes inv: "space_inv s" and L: "nodes_ok L s" and n: "n \<in> L"
  shows "\<exists>s'. sfs_fsync_nolock n s = Some (0, s') \<and> flushed s s' \<and> space_inv s' \<and> nodes_ok L s' \<and> \<not> dirty (sfs_inodes s' n)"
proof (cases "dirty (sfs_inodes s n)")
  case False
  have "same_disk (sdev s) (sdev s)" using space_invD(1) [OF inv] by (simp add: same_disk_def dev_ok_def)
  then have "flushed s s" by (simp add: flushed_def)
  then show ?thesis using False inv L by (simp add: sfs_fsync_nolock_def)
next
  case True
  let ?s1 = "mod_sin n (\<lambda>x. x\<lparr>dirty := False\<rparr>) s" and ?i = "ino (sfs_inodes s n)" and ?d = "din_of s n"
  have u: "?i \<in> used_blocks s" "din_fits ?d" using L n by (simp_all add: nodes_ok_def)
  have l: "length (din_bytes ?d) = 64" using u(2) by (simp add: length_din_bytes din_fits_def)
  have i0: "?i \<noteq> 0" "?i < blocks_of (super ?s1)" using used_pos [OF u(1)] by (simp_all add: mark_simps)
  have dv: "dev_ok ?s1" using space_invD(1) [OF inv] by (simp add: mod_sin_def dev_ok_def)
  have o: "(0 :: nat) < 4096" "0 + length (din_bytes ?d) \<le> 4096" using l by simp_all
  obtain s' where w: "sfs_wbuf (din_bytes ?d) ?i 0 ?s1 = Some (0, s')" "disk_only ?s1 s'"
    "blk s' = (blk ?s1)(?i := overlay 0 (din_bytes ?d) (blk ?s1 ?i))"
    using wbuf_ok [OF dv i0 o] by blast
  note e = disk_onlyD [OF w(2)]
  have r: "sfs_fsync_nolock n s = Some (0, s')" using True w(1) by (simp add: sfs_fsync_nolock_def mark_simps)
  have "\<not> meta_block s ?i" using L n i0(1) by (auto simp: nodes_ok_def meta_block_def)
  then have mb: "meta_block s x \<Longrightarrow> blk s' x = blk s x" for x unfolding w(3) by (auto simp: mark_simps)
  have fl: "flushed s s'"
    using e w(2) mb by (simp add: flushed_def mark_simps disk_only_def) (simp add: mod_sin_def)
  have sp: "space_inv s'" using disk_only_space [OF _ w(2)] inv by (simp add: mark_simps)
  have b: "blk s' x = (if x = ?i then overlay 0 (din_bytes ?d) (blk s ?i) else blk s x)" for x
    unfolding w(3) by (simp add: mark_simps)
  have us: "used_blocks s' = used_blocks s" using fl by (simp add: flushed_def used_blocks_def free_blocks_def)
  have "saved s' m" if m: "m \<in> L" "dirty (sfs_inodes s m) \<longrightarrow> m = n" for m
  proof (cases "m = n")
    case True
    then show ?thesis using fl l by (simp add: saved_def flushed_def b overlay_def)
  next
    case False
    then have "ino (sfs_inodes s m) \<noteq> ?i" using L n m(1) unfolding nodes_ok_def inj_on_def by blast
    moreover have "saved s m" using L m False by (auto simp: nodes_ok_def)
    ultimately show ?thesis using fl by (simp add: saved_def flushed_def b)
  qed
  moreover have "dirty (sfs_inodes s' m) \<longleftrightarrow> dirty (sfs_inodes s m) \<and> m \<noteq> n" for m using e(4) by (simp add: mark_simps)
  ultimately have "nodes_ok L s'" using L fl us unfolding nodes_ok_def flushed_def by (auto simp: inj_on_def)
  then show ?thesis using r fl sp e(4) by (simp add: mark_simps)
qed

lemma sync_nodes_ok:
  "\<lbrakk>space_inv (fsdata v); nodes_ok L (fsdata v); set ns \<subseteq> L; \<forall>n\<in>set ns. inode_check n v\<rbrakk> \<Longrightarrow>
   \<exists>v'. sync_nodes ns v = Some v' \<and> inodes v' = inodes v \<and> flushed (fsdata v) (fsdata v') \<and> nodes_ok L (fsdata v') \<and>
     (\<forall>n\<in>set ns. \<not> dirty (sfs_inodes (fsdata v') n))"
proof (induction ns arbitrary: v)
  case Nil
  then have "same_disk (sdev (fsdata v)) (sdev (fsdata v))" using space_invD(1) by (simp add: same_disk_def dev_ok_def)
  then show ?case using Nil by (simp add: flushed_def)
next
  case (Cons n ns)
  obtain s' where f: "sfs_fsync_nolock n (fsdata v) = Some (0, s')" "flushed (fsdata v) s'" "space_inv s'" "nodes_ok L s'"
    "\<not> dirty (sfs_inodes s' n)" using fsync_ok [OF Cons.prems(1,2), of n] Cons.prems(3) by auto
  let ?v = "v\<lparr>fsdata := s'\<rparr>"
  have c: "\<forall>m\<in>set ns. inode_check m ?v" using Cons.prems(4) by (simp add: inode_check_def)
  obtain v' where r: "sync_nodes ns ?v = Some v'" "inodes v' = inodes v" "flushed s' (fsdata v')" "nodes_ok L (fsdata v')"
    "\<forall>n\<in>set ns. \<not> dirty (sfs_inodes (fsdata v') n)"
    using Cons.IH [of ?v] f(3,4) Cons.prems(3) c by auto
  have "sync_nodes (n # ns) v = Some v'"
    using Cons.prems(4) f(1) r(1) by (simp add: vop_def sfs_fsync_def on_fs_def)
  moreover have "\<not> dirty (sfs_inodes (fsdata v') n)" using r(3) f(5) by (auto simp: flushed_def)
  ultimately show ?case using r flushed_trans [OF f(2) r(3)] by auto
qed

lemma flushed_on_disk: "meta_on_disk s (blk s) \<Longrightarrow> flushed s s' \<Longrightarrow> meta_on_disk s' (blk s')"
  by (simp add: meta_on_disk_def flushed_def meta_block_def)

lemma sync_meta_any:
  assumes "meta_ok s" "super_dirty s \<or> meta_on_disk s (blk s)"
  shows "\<exists>s'. sfs_sync_meta s = Some (0, s') \<and> meta_ok s' \<and> super s' = super s \<and> freemap s' = freemap s \<and> \<not> super_dirty s' \<and>
    sfs_inodes s' = sfs_inodes s \<and> inode_list s' = inode_list s \<and> meta_on_disk s (blk s') \<and>
    same_disk (sdev s) (sdev s') \<and> (\<forall>x. \<not> meta_block s x \<longrightarrow> blk s' x = blk s x)"
proof (cases "super_dirty s")
  case True
  then show ?thesis using sync_meta_ok [OF assms(1)] unfolding meta_block_def by auto
next
  case False
  have "same_disk (sdev s) (sdev s)" using assms(1) by (simp add: same_disk_def meta_ok_def space_inv_def dev_ok_def)
  then show ?thesis using False assms by (simp add: sfs_sync_meta_def)
qed

text \<open>
  C33. What is written back can be mounted again.  Let each inode in memory be marked dirty unless its
  block on the disk holds it, and the superblock unless it and the free map are on the disk as they
  are in memory.  Then \<^verbatim>\<open>sfs_sync\<close> answers 0 and leaves nothing marked; mounting the device it leaves
  answers 0 when \<^verbatim>\<open>kmalloc\<close> does, the superblock and the free map are those that were in
  memory, and the block of each inode that was in memory holds it as it was.
\<close>

theorem sfs_remount:
  assumes "meta_ok (fsdata v)" "super_dirty (fsdata v) \<or> meta_on_disk (fsdata v) (blk (fsdata v))" "nodes_ok (set (inode_list (fsdata v))) (fsdata v)"
    "\<forall>n\<in>set (inode_list (fsdata v)). inode_check n v" "d_blocksize (sdev (fsdata v)) = 4096"
  shows "\<exists>v'. sfs_sync v = Some (0, v') \<and> inodes v' = inodes v \<and> \<not> super_dirty (fsdata v') \<and>
    (\<forall>n\<in>set (inode_list (fsdata v)). \<not> dirty (sfs_inodes (fsdata v') n)) \<and>
    (\<forall>t as. sdev t = sdev (fsdata v') \<longrightarrow> kans (fheap t) = True # True # True # True # True # as \<longrightarrow>
      (\<exists>t'. sfs_do_mount t = Some (0, t') \<and> super t' = super (fsdata v) \<and> freemap t' = freemap (fsdata v) \<and> space_inv t' \<and>
        (\<forall>n\<in>set (inode_list (fsdata v)).
           bytes_din (take sizeof_din (blk t' (ino (sfs_inodes (fsdata v) n)))) = din_of (fsdata v) n)))"
proof -
  let ?s = "fsdata v" and ?L = "set (inode_list (fsdata v))"
  have inv: "space_inv ?s" using assms(1) by (simp add: meta_ok_def)
  obtain v1 where n: "sync_nodes (inode_list ?s) v = Some v1" "inodes v1 = inodes v" "flushed ?s (fsdata v1)"
    "nodes_ok ?L (fsdata v1)" "\<forall>n\<in>?L. \<not> dirty (sfs_inodes (fsdata v1) n)"
    using sync_nodes_ok [OF inv assms(3) order_refl assms(4)] by blast
  have m1: "meta_ok (fsdata v1)" "super_dirty (fsdata v1) \<or> meta_on_disk (fsdata v1) (blk (fsdata v1))"
    using flushed_meta [OF n(3) assms(1)] flushed_on_disk [OF _ n(3)] n(3) assms(2) by (auto simp: flushed_def)
  from sync_meta_any [OF this] obtain s2 where s2: "sfs_sync_meta (fsdata v1) = Some (0, s2)" "meta_ok s2" "super s2 = super (fsdata v1)"
    "freemap s2 = freemap (fsdata v1)" "sfs_inodes s2 = sfs_inodes (fsdata v1)" "meta_on_disk (fsdata v1) (blk s2)"
    "same_disk (sdev (fsdata v1)) (sdev s2)"
    "\<forall>x. \<not> meta_block (fsdata v1) x \<longrightarrow> blk s2 x = blk (fsdata v1) x" "\<not> super_dirty s2" by blast
  let ?v' = "v1\<lparr>fsdata := s2\<rparr>"
  have r: "sfs_sync v = Some (0, ?v')" using n(1) s2(1) by (simp add: sfs_sync_def on_fs_def)
  have same: "super s2 = super ?s" "freemap s2 = freemap ?s" "meta_on_disk s2 (blk s2)"
    using s2(3,4,6) n(3) by (simp_all add: flushed_def meta_on_disk_def)
  have dev: "same_disk (sdev s2) (sdev s2)" "d_blocksize (sdev s2) = 4096"
    using s2(7) n(3) assms(5) by (simp_all add: same_disk_def flushed_def)
  have "\<exists>t'. sfs_do_mount t = Some (0, t') \<and> super t' = super ?s \<and> freemap t' = freemap ?s \<and> space_inv t' \<and>
        (\<forall>x\<in>?L. bytes_din (take sizeof_din (blk t' (ino (sfs_inodes ?s x)))) = din_of ?s x)"
    if t: "sdev t = sdev s2" "kans (fheap t) = True # True # True # True # True # as" for t as
  proof -
    have b: "blk t = blk s2" using t(1) by (simp add: blk_def)
    obtain t' where t': "sfs_do_mount t = Some (0, t')" "super t' = super s2" "freemap t' = freemap s2" "blk t' = blk t" "space_inv t'"
      using mount_ok [OF s2(2) same(3) [folded b] _ _ t(2)] dev [folded t(1)] unfolding t(1) by blast
    have "bytes_din (take sizeof_din (blk t' (ino (sfs_inodes ?s x)))) = din_of ?s x" if x: "x \<in> ?L" for x
    proof -
      let ?i = "ino (sfs_inodes (fsdata v1) x)"
      have ok: "?i \<in> used_blocks (fsdata v1)" "din_fits (din_of (fsdata v1) x)" "saved (fsdata v1) x"
        "\<not> (2 \<le> ?i \<and> ?i < 2 + sfs_freemap_blocks (super (fsdata v1)))"
        using n(4,5) x by (simp_all add: nodes_ok_def)
      have "blk t' ?i = blk (fsdata v1) ?i" using s2(8) ok(4) used_pos [OF ok(1)] t'(4) b by (simp add: meta_block_def)
      then have "take 64 (blk t' ?i) = din_bytes (din_of (fsdata v1) x)" using ok(3) by (simp add: saved_def)
      then show ?thesis using din_roundtrip [OF ok(2), of "[]"] n(3) by (simp add: flushed_def sizeof_din_def)
    qed
    then show ?thesis using t' same by auto
  qed
  then show ?thesis using r n(2,5) s2(5,9) by (intro exI [of _ ?v']) auto
qed


text \<open>A file system without free blocks, one inode of which is in memory and changed.\<close>

definition full_fs :: sfs_fs where
  "full_fs = small_fs\<lparr>super := \<lparr>magic = SFS_MAGIC, blocks_of = 32, unused_blocks = 0, info = replicate 32 0\<rparr>,
     freemap := \<lparr>nbits = 32768, nwords = 1024, wmap = replicate 1024 0\<rparr>, super_dirty := True,
     sfs_inodes := \<lambda>n. \<lparr>din = \<lparr>dsize = 77, dtype = 1, nlinks = 1, dblocks = 1, direct = 9 # replicate 11 0, indirect = 0\<rparr>,
       ino = n, dirty = True, reclaim_count = 1\<rparr>\<rparr>"

lemma full_ok: "meta_ok full_fs" "nodes_ok {5} full_fs"
proof -
  have fr: "free_blocks full_fs = {}"
    by (auto simp: free_blocks_def free_nos_def full_fs_def less_mult_imp_div_less)
  have fb: "sfs_freemap_blocks (super full_fs) = 1" "sfs_freemap_bits (super full_fs) = 32768"
  proof -
    have b: "0 < blocks_of (super full_fs)" "blocks_of (super full_fs) < 2 ^ 19" by (simp_all add: full_fs_def)
    show k: "sfs_freemap_blocks (super full_fs) = 1" using freemap_size(1) [OF b] by (simp add: full_fs_def)
    show "sfs_freemap_bits (super full_fs) = 32768" using freemap_size(2) [OF b] k by (simp add: word_unat_eq_iff)
  qed
  have "bitmap_ok (freemap full_fs)" by (auto simp: bitmap_ok_def full_fs_def less_mult_imp_div_less)
  moreover have "dev_ok full_fs" by (simp add: dev_ok_def disk_ok_def full_fs_def small_fs_def disk_consts)
  ultimately have "space_inv full_fs"
    unfolding space_inv_def fr by (simp add: full_fs_def)
  then show "meta_ok full_fs" using fb by (simp add: meta_ok_def super_fits_def) (simp add: full_fs_def)
  show "nodes_ok {5} full_fs"
    using fb fr by (simp add: nodes_ok_def used_blocks_def) (simp add: full_fs_def din_fits_def)
qed

theorem sfs_remount_witness:
  "\<exists>v' t'. sfs_sync \<lparr>inodes = \<lambda>_. \<lparr>ref_count = 1, iopen_count = 0\<rparr>, fsdata = full_fs\<rparr> = Some (0, v') \<and>
    sfs_do_mount ((fsdata v')\<lparr>fheap := \<lparr>kans = [True, True, True, True, True], kout = 0\<rparr>\<rparr>) = Some (0, t') \<and>
    super t' = super full_fs \<and> bytes_din (take sizeof_din (blk t' 5)) = din_of full_fs 5"
proof -
  let ?v = "\<lparr>inodes = \<lambda>_. \<lparr>ref_count = 1, iopen_count = 0\<rparr>, fsdata = full_fs\<rparr> :: sfs_fs vfs"
  have l: "inode_list full_fs = [5]" "super_dirty full_fs \<or> meta_on_disk full_fs (blk full_fs)" "d_blocksize (sdev full_fs) = 4096" "ino (sfs_inodes full_fs 5) = 5"
    by (simp_all add: full_fs_def small_fs_def)
  have c: "\<forall>n\<in>set (inode_list full_fs). inode_check n ?v" by (simp add: inode_check_def MAX_INODE_COUNT_def)
  have nd: "nodes_ok (set (inode_list full_fs)) full_fs" using full_ok(2) l(1) by simp
  obtain v' where s: "sfs_sync ?v = Some (0, v')"
    "\<forall>t as. sdev t = sdev (fsdata v') \<longrightarrow> kans (fheap t) = True # True # True # True # True # as \<longrightarrow>
      (\<exists>t'. sfs_do_mount t = Some (0, t') \<and> super t' = super full_fs \<and> freemap t' = freemap full_fs \<and> space_inv t' \<and>
        (\<forall>n\<in>set (inode_list full_fs). bytes_din (take sizeof_din (blk t' (ino (sfs_inodes full_fs n)))) = din_of full_fs n))"
    using sfs_remount [of ?v, unfolded vfs.select_convs, OF full_ok(1) l(2) nd c l(3)] by blast
  have "\<exists>t'. sfs_do_mount ((fsdata v')\<lparr>fheap := \<lparr>kans = [True, True, True, True, True], kout = 0\<rparr>\<rparr>) = Some (0, t') \<and>
    super t' = super full_fs \<and> (\<forall>n\<in>set (inode_list full_fs). bytes_din (take sizeof_din (blk t' (ino (sfs_inodes full_fs n)))) = din_of full_fs n)"
    using s(2) [rule_format, of "(fsdata v')\<lparr>fheap := \<lparr>kans = [True, True, True, True, True], kout = 0\<rparr>\<rparr>" "[]"] by auto
  then show ?thesis using s(1) l(1,4) by auto
qed

end
