(* ===== verification/File_Nodes.thy ===== *)
theory File_Nodes
  imports File_Space Vfs_Paths Sfs_Remount
begin

text \<open>
  Open files on the nodes of the machine: what \<^verbatim>\<open>vfs_close\<close> does through the operations of devices
  (\<^verbatim>\<open>dev.c\<close>) and of SFS (\<^verbatim>\<open>sfs_close\<close>, \<^verbatim>\<open>sfs_reclaim\<close> in \<^verbatim>\<open>sfs_inode.c\<close>), and the safety of the file
  layer in any order of openings, transfers and closings.
\<close>

section \<open>Closing and giving back a node of SFS\<close>





section \<open>Closing a file of the machine\<close>

lemma sys_sfs_simps [simp]:
  "sys_of (mod_sys f v) = f (sys_of v)" "sys_of (v\<lparr>inodes := i\<rparr>) = sys_of v" "inodes (mod_sys f v) = inodes v"
  "mod_sys f (v\<lparr>inodes := i\<rparr>) = (mod_sys f v)\<lparr>inodes := i\<rparr>" "sys_of (mod_inode n g v) = sys_of v"
  by (simp_all add: sys_of_def mod_sys_def mod_names_def mod_inode_def)










section \<open>Files in use\<close>

text \<open>Reading the attributes of a node answers 0 and changes no count, as \<open>opens_well\<close> asks.\<close>

lemma sys_fstat_calm:
  assumes "vop_fstat sys_node_ops n v = Some (ret, st, v')"
  shows "ret = 0 \<and> inodes v' = inodes v"
proof (cases "is_dev_node n v")
  case True
  then show ?thesis using assms
    by (auto simp: sys_node_ops_def dev_fstat_def dev_gettype_def vop_def bind_eq_Some_conv Let_def split: if_splits)
next
  case False
  then show ?thesis using assms
    by (auto simp: sys_node_ops_def on_sfs_def sfs_fstat_def sfs_gettype_def vop_def bind_eq_Some_conv Let_def split: if_splits)
qed






end
