(* ===== verification/Proc_Life.thy ===== *)
theory Proc_Life
  imports Proc_Table Sched_Machine User_Access File_Space
begin

text \<open>
  The life of a process (\<^verbatim>\<open>kern/process/proc.c\<close>): creation by fork, exit, waiting, killing, sleeping,
  and the start of the first two.  One state holds the scheduler, the process table, memory and
  open files.  A descriptor's address is what \<^verbatim>\<open>kmalloc\<close> answers; the trap frame and the saved
  context, which live on the kernel stack, are \<open>tfs\<close> and \<open>ctxs\<close>.  A call of \<open>schedule\<close> in the middle
  of a routine splits it: the part before runs to the switch, the part after is what the process
  does when it is scheduled again.
\<close>

definition KSTACKPAGE :: nat where "KSTACKPAGE = 2"
definition KSTACKSIZE :: u32 where "KSTACKSIZE = 8192"
definition CLONE_VM :: u32 where "CLONE_VM = 0x100"
definition CLONE_FS :: u32 where "CLONE_FS = 0x800"

text \<open>Indices into \<^verbatim>\<open>tf_regs.reg_r\<close>.\<close>

definition REG_SP :: nat where "REG_SP = 1"
definition REG_A0 :: nat where "REG_A0 = 2"
definition REG_A1 :: nat where "REG_A1 = 3"
definition REG_A7 :: nat where "REG_A7 = 9"

record trapframe =
  tf_badv :: u32
  tf_estat :: u32
  tf_prmd :: u32
  tf_ra :: u32
  tf_regs :: "nat \<Rightarrow> u32"
  tf_era :: u32

definition sizeof_trapframe :: u32 where "sizeof_trapframe = 4 * 4 + 30 * 4 + 4"

text \<open>\<^verbatim>\<open>sf_s0\<close> to \<^verbatim>\<open>sf_s8\<close> are \<open>sf_s\<close>.\<close>

record cpu_context =
  sf_s :: "nat \<Rightarrow> u32"
  sf_tp :: u32
  sf_ra :: u32
  sf_fp :: u32
  sf_sp :: u32

definition zero_context :: cpu_context where
  "zero_context = \<lparr>sf_s = (\<lambda>_. 0), sf_tp = 0, sf_ra = 0, sf_fp = 0, sf_sp = 0\<rparr>"

definition set_reg :: "nat \<Rightarrow> u32 \<Rightarrow> trapframe \<Rightarrow> trapframe" where
  "set_reg r v tf = tf\<lparr>tf_regs := (tf_regs tf)(r := v)\<rparr>"

record 'd os_state =
  osch :: sched_state
  otbl :: proc_table
  ovm :: vmstate
  ofs :: "'d fs_state"
  initproc :: "nat option"
  tfs :: "nat \<Rightarrow> trapframe"
  ctxs :: "nat \<Rightarrow> cpu_context"
  boot_pgdir :: nat
  boot_cr3 :: u32

abbreviation oprocs :: "'d os_state \<Rightarrow> procs" where
  "oprocs s \<equiv> procs (rq (osch s))"

abbreviation cur :: "'d os_state \<Rightarrow> nat" where
  "cur s \<equiv> current (osch s)"

definition mod_p :: "nat \<Rightarrow> (proc_struct \<Rightarrow> proc_struct) \<Rightarrow> 'd os_state \<Rightarrow> 'd os_state" where
  "mod_p p f s = s\<lparr>osch := mod_proc p f (osch s)\<rparr>"

definition put_procs :: "procs \<Rightarrow> 'd os_state \<Rightarrow> 'd os_state" where
  "put_procs ps s = s\<lparr>osch := (osch s)\<lparr>rq := (rq (osch s))\<lparr>procs := ps\<rparr>\<rparr>\<rparr>"

definition wakeup :: "nat \<Rightarrow> 'd os_state \<Rightarrow> 'd os_state option" where
  "wakeup p s = map_option (\<lambda>q. s\<lparr>osch := q\<rparr>) (wakeup_proc p (osch s))"

definition resched :: "'d os_state \<Rightarrow> 'd os_state option" where
  "resched s = map_option (\<lambda>q. s\<lparr>osch := q\<rparr>) (schedule (osch s))"

section \<open>The parts of a process\<close>

definition alloc_proc :: "'d os_state \<Rightarrow> nat option \<times> 'd os_state" where
  "alloc_proc s = (case kmalloc_obj (ovm s) of
     (None, v) \<Rightarrow> (None, s\<lparr>ovm := v\<rparr>)
   | (Some p, v) \<Rightarrow> (Some p, mod_p p (\<lambda>d. d\<lparr>pstate := PROC_UNINIT, pid := -1, runs := 0, kstack := None,
       need_resched := False, parent := None, mm := None, pflags := 0, cr3 := boot_cr3 s,
       pname := '''', exit_code := 0, wait_state := 0, cptr := None, yptr := None, optr := None,
       fs_struct := None, on_rq := False, time_slice := 0\<rparr>) (s\<lparr>ovm := v, ctxs := (ctxs s)(p := zero_context)\<rparr>)))"

definition setup_kstack :: "nat \<Rightarrow> 'd os_state \<Rightarrow> (int \<times> 'd os_state) option" where
  "setup_kstack p s = do {
     (page, pg) \<leftarrow> alloc_pages KSTACKPAGE (pgs (ovm s));
     let s = s\<lparr>ovm := (ovm s)\<lparr>pgs := pg\<rparr>\<rparr>;
     (case page of
        None \<Rightarrow> Some (fail_code E_NO_MEM, s)
      | Some b \<Rightarrow> do { va \<leftarrow> page2kva b; Some (0, mod_p p (\<lambda>d. d\<lparr>kstack := Some (unat va)\<rparr>) s) })
   }"

definition put_kstack :: "nat \<Rightarrow> 'd os_state \<Rightarrow> 'd os_state option" where
  "put_kstack p s = do {
     va \<leftarrow> kstack (oprocs s p);
     b \<leftarrow> kva2page (of_nat va);
     pg \<leftarrow> free_pages b KSTACKPAGE (pgs (ovm s));
     Some (s\<lparr>ovm := (ovm s)\<lparr>pgs := pg\<rparr>\<rparr>)
   }"

definition setup_pgdir :: "nat \<Rightarrow> 'd os_state \<Rightarrow> (int \<times> 'd os_state) option" where
  "setup_pgdir m s = do {
     (page, pg) \<leftarrow> alloc_pages 1 (pgs (ovm s));
     (case page of
        None \<Rightarrow> Some (fail_code E_NO_MEM, s\<lparr>ovm := (ovm s)\<lparr>pgs := pg\<rparr>\<rparr>)
      | Some p \<Rightarrow> do {
          va \<leftarrow> page2kva p;
          let pg = pg\<lparr>frames := (frames pg)(p := frames pg (boot_pgdir s))\<rparr>;
          Some (0, s\<lparr>ovm := mod_mm m (\<lambda>d. d\<lparr>pgdir := Some p\<rparr>) ((ovm s)\<lparr>pgs := pg\<rparr>)\<rparr>)
        })
   }"

definition put_pgdir :: "nat \<Rightarrow> vmstate \<Rightarrow> vmstate option" where
  "put_pgdir m v = do { pd \<leftarrow> pgdir (mms v m); pg \<leftarrow> free_pages pd 1 (pgs v); Some (v\<lparr>pgs := pg\<rparr>) }"

text \<open>The last part of \<^verbatim>\<open>copy_mm\<close>, and the part that gives memory back, shared with \<^verbatim>\<open>do_exit\<close>.\<close>

definition good_mm :: "nat \<Rightarrow> nat \<Rightarrow> 'd os_state \<Rightarrow> (int \<times> 'd os_state) option" where
  "good_mm m p s = do {
     let s = s\<lparr>ovm := snd (mm_count_inc m (ovm s))\<rparr>;
     let s = mod_p p (\<lambda>d. d\<lparr>mm := Some m\<rparr>) s;
     pd \<leftarrow> pgdir (mms (ovm s) m);
     Some (0, mod_p p (\<lambda>d. d\<lparr>cr3 := page2pa pd\<rparr>) s)
   }"

definition release_mm :: "nat \<Rightarrow> vmstate \<Rightarrow> vmstate option" where
  "release_mm m v = do { v \<leftarrow> exit_mmap m v; v \<leftarrow> put_pgdir m v; mm_destroy m v }"

definition copy_mm :: "u32 \<Rightarrow> nat \<Rightarrow> 'd os_state \<Rightarrow> (int \<times> 'd os_state) option" where
  "copy_mm cf p s = (case mm (oprocs s (cur s)) of
     None \<Rightarrow> Some (0, s)
   | Some oldmm \<Rightarrow>
       if cf AND CLONE_VM \<noteq> 0 then good_mm oldmm p s
       else (case mm_create (ovm s) of
          (None, v) \<Rightarrow> Some (fail_code E_NO_MEM, s\<lparr>ovm := v\<rparr>)
        | (Some m, v) \<Rightarrow> do {
            (ret, s) \<leftarrow> setup_pgdir m (s\<lparr>ovm := v\<rparr>);
            if ret \<noteq> 0 then do { v \<leftarrow> mm_destroy m (ovm s); Some (fail_code E_NO_MEM, s\<lparr>ovm := v\<rparr>) }
            else do {
              let v = lock_mm (Some oldmm) (pid (oprocs s (cur s))) (ovm s);
              (ret, v) \<leftarrow> dup_mmap m oldmm v;
              let v = unlock_mm (Some oldmm) v;
              if ret \<noteq> 0 then do { v \<leftarrow> release_mm m v; Some (ret, s\<lparr>ovm := v\<rparr>) }
              else good_mm m p (s\<lparr>ovm := v\<rparr>)
            }
          }))"

text \<open>\<open>forkret\<close> is the address of that routine.\<close>

definition copy_thread :: "u32 \<Rightarrow> nat \<Rightarrow> u32 \<Rightarrow> trapframe \<Rightarrow> 'd os_state \<Rightarrow> 'd os_state option" where
  "copy_thread forkret p esp tf s = do {
     k \<leftarrow> kstack (oprocs s p);
     let tfa = of_nat k + KSTACKSIZE - sizeof_trapframe;
     let tf = set_reg REG_A7 0 tf;
     let esp = (if esp = 0 then tfa - 32 else esp);
     let tf = set_reg REG_SP esp tf;
     Some (s\<lparr>tfs := (tfs s)(p := tf), ctxs := (ctxs s)(p := (ctxs s p)\<lparr>sf_ra := forkret, sf_sp := tfa - 32\<rparr>)\<rparr>)
   }"

definition os_fs_create :: "'d os_state \<Rightarrow> nat option \<times> 'd os_state" where
  "os_fs_create s = (case kmalloc_obj (ovm s) of
     (r, v) \<Rightarrow> (case fs_create r (ofs s) of (r, f) \<Rightarrow> (r, s\<lparr>ovm := v, ofs := f\<rparr>)))"

definition os_fs_destroy :: "'d inode_ops \<Rightarrow> nat \<Rightarrow> 'd os_state \<Rightarrow> 'd os_state option" where
  "os_fs_destroy ops f s = do {
     g \<leftarrow> fs_destroy ops f (ofs s);
     Some (s\<lparr>ofs := g, ovm := kfree_obj f (ovm s)\<rparr>)
   }"

definition good_fs_struct :: "nat \<Rightarrow> nat \<Rightarrow> 'd os_state \<Rightarrow> int \<times> 'd os_state" where
  "good_fs_struct f p s =
     (0, mod_p p (\<lambda>d. d\<lparr>fs_struct := Some f\<rparr>) (s\<lparr>ofs := snd (fs_count_inc f (ofs s))\<rparr>))"

definition copy_fs :: "'d inode_ops \<Rightarrow> u32 \<Rightarrow> nat \<Rightarrow> 'd os_state \<Rightarrow> (int \<times> 'd os_state) option" where
  "copy_fs ops cf p s = do {
     old \<leftarrow> fs_struct (oprocs s (cur s));
     if cf AND CLONE_FS \<noteq> 0 then Some (good_fs_struct old p s)
     else (case os_fs_create s of
        (None, s) \<Rightarrow> Some (fail_code E_NO_MEM, s)
      | (Some f, s) \<Rightarrow> do {
          (ret, g) \<leftarrow> dup_fs f old (ofs s);
          let s = s\<lparr>ofs := g\<rparr>;
          if ret \<noteq> 0 then do { s \<leftarrow> os_fs_destroy ops f s; Some (ret, s) }
          else Some (good_fs_struct f p s)
        })
   }"

definition put_fs :: "'d inode_ops \<Rightarrow> nat \<Rightarrow> 'd os_state \<Rightarrow> 'd os_state option" where
  "put_fs ops p s = (case fs_struct (oprocs s p) of
     None \<Rightarrow> Some s
   | Some f \<Rightarrow> (case fs_count_dec f (ofs s) of
       (c, g) \<Rightarrow> if c = 0 then os_fs_destroy ops f (s\<lparr>ofs := g\<rparr>) else Some (s\<lparr>ofs := g\<rparr>)))"

section \<open>Fork\<close>

text \<open>The labels at the end of \<^verbatim>\<open>do_fork\<close>, each falling through to the next.\<close>

definition bad_fork_cleanup_proc :: "nat \<Rightarrow> 'd os_state \<Rightarrow> (int \<times> 'd os_state) option" where
  "bad_fork_cleanup_proc p s = Some (fail_code E_NO_MEM, s\<lparr>ovm := kfree_obj p (ovm s)\<rparr>)"

definition bad_fork_cleanup_kstack :: "nat \<Rightarrow> 'd os_state \<Rightarrow> (int \<times> 'd os_state) option" where
  "bad_fork_cleanup_kstack p s = do { s \<leftarrow> put_kstack p s; bad_fork_cleanup_proc p s }"

definition bad_fork_cleanup_fs :: "'d inode_ops \<Rightarrow> nat \<Rightarrow> 'd os_state \<Rightarrow> (int \<times> 'd os_state) option" where
  "bad_fork_cleanup_fs ops p s = do { s \<leftarrow> put_fs ops p s; bad_fork_cleanup_kstack p s }"

definition fork_register :: "nat \<Rightarrow> 'd os_state \<Rightarrow> (int \<times> 'd os_state) option" where
  "fork_register p s = do {
     (n, t) \<leftarrow> get_pid (oprocs s) (otbl s);
     let s = mod_p p (\<lambda>d. d\<lparr>pid := n\<rparr>) s;
     let t = hash_proc p (oprocs s) t;
     (ps, t) \<leftarrow> set_links p (oprocs s) t;
     let s = (put_procs ps s)\<lparr>otbl := t\<rparr>;
     s \<leftarrow> wakeup p s;
     Some (pid (oprocs s p), s)
   }"

definition do_fork ::
  "'d inode_ops \<Rightarrow> u32 \<Rightarrow> u32 \<Rightarrow> u32 \<Rightarrow> trapframe \<Rightarrow> 'd os_state \<Rightarrow> (int \<times> 'd os_state) option" where
  "do_fork ops forkret cf stack tf s =
     (if nr_process (otbl s) \<ge> MAX_PROCESS then Some (fail_code E_NO_FREE_PROC, s)
      else (case alloc_proc s of
         (None, s) \<Rightarrow> Some (fail_code E_NO_MEM, s)
       | (Some p, s) \<Rightarrow> do {
           let s = mod_p p (\<lambda>d. d\<lparr>parent := Some (cur s)\<rparr>) s;
           (ret, s) \<leftarrow> setup_kstack p s;
           if ret \<noteq> 0 then bad_fork_cleanup_proc p s
           else do {
             (ret, s) \<leftarrow> copy_fs ops cf p s;
             if ret \<noteq> 0 then bad_fork_cleanup_kstack p s
             else do {
               (ret, s) \<leftarrow> copy_mm cf p s;
               if ret \<noteq> 0 then bad_fork_cleanup_fs ops p s
               else do {
                 s \<leftarrow> copy_thread forkret p stack tf s;
                 fork_register p s
               }
             }
           }
         }))"

text \<open>\<open>entry\<close> is the address of \<^verbatim>\<open>kernel_thread_entry\<close> and \<open>crmd\<close> what \<^verbatim>\<open>read_csr_crmd\<close> reads.\<close>

definition kernel_thread ::
  "'d inode_ops \<Rightarrow> u32 \<Rightarrow> u32 \<Rightarrow> u32 \<Rightarrow> u32 \<Rightarrow> u32 \<Rightarrow> u32 \<Rightarrow> 'd os_state \<Rightarrow> (int \<times> 'd os_state) option" where
  "kernel_thread ops forkret entry crmd fn arg cf s =
     (let tf = \<lparr>tf_badv = 0, tf_estat = 0, tf_prmd = 0, tf_ra = 0, tf_regs = (\<lambda>_. 0), tf_era = 0\<rparr>;
          tf = set_reg REG_A0 arg tf;
          tf = set_reg REG_A1 fn tf;
          tf = set_reg REG_A7 0 tf;
          tf = tf\<lparr>tf_prmd := crmd\<rparr>;
          tf = tf\<lparr>tf_prmd := tf_prmd tf AND NOT 3\<rparr>;
          tf = tf\<lparr>tf_estat := tf_estat tf OR 4\<rparr>;
          tf = tf\<lparr>tf_era := entry\<rparr>
      in do_fork ops forkret (cf OR CLONE_VM) 0 tf s)"


section \<open>Exit\<close>

text \<open>One turn of the loop that hands the children of an exiting process to \<^verbatim>\<open>initproc\<close>.\<close>

definition give_child :: "nat \<Rightarrow> nat \<Rightarrow> 'd os_state \<Rightarrow> 'd os_state option" where
  "give_child ini p s = do {
     let s = put_procs (adopt_child (cur s) ini p (oprocs s)) s;
     if pstate (oprocs s p) = PROC_ZOMBIE \<and> wait_state (oprocs s ini) = WT_CHILD then wakeup ini s else Some s
   }"

partial_function (option) give_children :: "nat \<Rightarrow> 'd os_state \<Rightarrow> 'd os_state option" where
  "give_children ini s = (case cptr (oprocs s (cur s)) of
     None \<Rightarrow> Some s
   | Some p \<Rightarrow> do { s \<leftarrow> give_child ini p s; give_children ini s })"

definition exit_mm :: "'d os_state \<Rightarrow> 'd os_state option" where
  "exit_mm s = (case mm (oprocs s (cur s)) of
     None \<Rightarrow> Some s
   | Some m \<Rightarrow> do {
       let (c, v) = mm_count_dec m (ovm s);
       v \<leftarrow> (if c = 0 then release_mm m v else Some v);
       Some (mod_p (cur s) (\<lambda>d. d\<lparr>mm := None\<rparr>) (s\<lparr>ovm := v\<rparr>))
     })"

text \<open>The critical section of \<^verbatim>\<open>do_exit\<close>: the parent is told, the children are given away.\<close>

definition exit_family :: "'d os_state \<Rightarrow> 'd os_state option" where
  "exit_family s = do {
     par \<leftarrow> parent (oprocs s (cur s));
     s \<leftarrow> (if wait_state (oprocs s par) = WT_CHILD then wakeup par s else Some s);
     (if cptr (oprocs s (cur s)) = None then Some s
      else do { ini \<leftarrow> initproc s; give_children ini s })
   }"

definition do_exit :: "'d inode_ops \<Rightarrow> int \<Rightarrow> 'd os_state \<Rightarrow> 'd os_state option" where
  "do_exit ops error_code s = do {
     kassert (cur s \<noteq> idleproc (osch s));
     kassert (initproc s \<noteq> Some (cur s));
     s \<leftarrow> exit_mm s;
     s \<leftarrow> put_fs ops (cur s) s;
     let s = mod_p (cur s) (\<lambda>d. d\<lparr>pstate := PROC_ZOMBIE\<rparr>) s;
     let s = mod_p (cur s) (\<lambda>d. d\<lparr>exit_code := error_code\<rparr>) s;
     s \<leftarrow> exit_family s;
     resched s
   }"

section \<open>Waiting, killing, sleeping\<close>

definition do_yield :: "'d os_state \<Rightarrow> int \<times> 'd os_state" where
  "do_yield s = (0, mod_p (cur s) (\<lambda>d. d\<lparr>need_resched := True\<rparr>) s)"

text \<open>The scan of the children: whether there is one, and the first zombie.\<close>

partial_function (option) zombie_child :: "procs \<Rightarrow> nat option \<Rightarrow> bool \<Rightarrow> (bool \<times> nat option) option" where
  "zombie_child ps c haskid = (case c of
     None \<Rightarrow> Some (haskid, None)
   | Some p \<Rightarrow> if pstate (ps p) = PROC_ZOMBIE then Some (True, Some p) else zombie_child ps (optr (ps p)) True)"

definition wait_scan :: "int \<Rightarrow> 'd os_state \<Rightarrow> (bool \<times> nat option) option" where
  "wait_scan n s =
     (if n \<noteq> 0 then
        (case find_proc n (oprocs s) (otbl s) of
           Some p \<Rightarrow> if parent (oprocs s p) = Some (cur s)
             then Some (True, if pstate (oprocs s p) = PROC_ZOMBIE then Some p else None)
             else Some (False, None)
         | None \<Rightarrow> Some (False, None))
      else zombie_child (oprocs s) (cptr (oprocs s (cur s))) False)"

definition wait_found :: "nat \<Rightarrow> 'd os_state \<Rightarrow> (int \<times> 'd os_state) option" where
  "wait_found p s = do {
     kassert (p \<noteq> idleproc (osch s) \<and> initproc s \<noteq> Some p);
     let code = exit_code (oprocs s p);
     let t = unhash_proc p (oprocs s) (otbl s);
     (ps, t) \<leftarrow> remove_links p (oprocs s) t;
     let s = (put_procs ps s)\<lparr>otbl := t\<rparr>;
     s \<leftarrow> put_kstack p s;
     Some (code, s\<lparr>ovm := kfree_obj p (ovm s)\<rparr>)
   }"

text \<open>
  One pass from the label \<^verbatim>\<open>repeat\<close>: \<open>Inl\<close> the result, with what \<^verbatim>\<open>*code_store\<close> gets, or \<open>Inr\<close> asleep.
\<close>

definition wait_pass :: "int \<Rightarrow> u32 \<Rightarrow> 'd os_state \<Rightarrow> ((int \<times> int option + unit) \<times> 'd os_state) option" where
  "wait_pass n code_store s = do {
     (haskid, found) \<leftarrow> wait_scan n s;
     (case found of
        Some p \<Rightarrow> do { (code, s) \<leftarrow> wait_found p s; Some (Inl (0, if code_store \<noteq> 0 then Some code else None), s) }
      | None \<Rightarrow>
          if haskid then do {
            let s = mod_p (cur s) (\<lambda>d. d\<lparr>pstate := PROC_SLEEPING\<rparr>) s;
            let s = mod_p (cur s) (\<lambda>d. d\<lparr>wait_state := WT_CHILD\<rparr>) s;
            s \<leftarrow> resched s;
            Some (Inr (), s)
          } else Some (Inl (fail_code E_BAD_PROC, None), s))
   }"

definition do_wait :: "int \<Rightarrow> u32 \<Rightarrow> 'd os_state \<Rightarrow> ((int \<times> int option + unit) \<times> 'd os_state) option" where
  "do_wait n code_store s = do {
     (ok, v) \<leftarrow> (if code_store \<noteq> 0 then user_mem_check (mm (oprocs s (cur s))) code_store 4 True (ovm s)
                else Some (True, ovm s));
     let s = s\<lparr>ovm := v\<rparr>;
     if \<not> ok then Some (Inl (fail_code E_INVAL, None), s) else wait_pass n code_store s
   }"

text \<open>What the waiter does when it runs again.\<close>

definition wait_resume ::
  "'d inode_ops \<Rightarrow> int \<Rightarrow> u32 \<Rightarrow> 'd os_state \<Rightarrow> ((int \<times> int option + unit) \<times> 'd os_state) option" where
  "wait_resume ops n code_store s =
     (if pflags (oprocs s (cur s)) AND PF_EXITING \<noteq> 0
      then do { s \<leftarrow> do_exit ops (fail_code E_KILLED) s; Some (Inr (), s) }
      else wait_pass n code_store s)"

definition do_kill :: "int \<Rightarrow> 'd os_state \<Rightarrow> (int \<times> 'd os_state) option" where
  "do_kill n s = (case find_proc n (oprocs s) (otbl s) of
     None \<Rightarrow> Some (fail_code E_INVAL, s)
   | Some p \<Rightarrow>
       if pflags (oprocs s p) AND PF_EXITING = 0 then do {
         let s = mod_p p (\<lambda>d. d\<lparr>pflags := pflags d OR PF_EXITING\<rparr>) s;
         s \<leftarrow> (if wait_state (oprocs s p) AND WT_INTERRUPTED \<noteq> 0 then wakeup p s else Some s);
         Some (0, s)
       } else Some (fail_code E_KILLED, s))"

text \<open>\<open>t\<close> is the timer on the sleeper's stack.\<close>

definition do_sleep :: "nat \<Rightarrow> u32 \<Rightarrow> 'd os_state \<Rightarrow> ((int + unit) \<times> 'd os_state) option" where
  "do_sleep t time s =
     (if time = 0 then Some (Inl 0, s)
      else do {
        let s = s\<lparr>osch := (osch s)\<lparr>timers := timer_init t (cur s) (sint time) (timers (osch s))\<rparr>\<rparr>;
        let s = mod_p (cur s) (\<lambda>d. d\<lparr>pstate := PROC_SLEEPING\<rparr>) s;
        let s = mod_p (cur s) (\<lambda>d. d\<lparr>wait_state := WT_TIMER\<rparr>) s;
        q \<leftarrow> add_timer t (osch s);
        s \<leftarrow> resched (s\<lparr>osch := q\<rparr>);
        Some (Inr (), s)
      })"

definition sleep_resume :: "nat \<Rightarrow> 'd os_state \<Rightarrow> int \<times> 'd os_state" where
  "sleep_resume t s = (0, s\<lparr>osch := del_timer t (osch s)\<rparr>)"

section \<open>The first processes\<close>

definition proc_init ::
  "'d inode_ops \<Rightarrow> nat \<Rightarrow> u32 \<Rightarrow> u32 \<Rightarrow> u32 \<Rightarrow> u32 \<Rightarrow> 'd os_state \<Rightarrow> 'd os_state option" where
  "proc_init ops bootstack forkret entry crmd init_main s = do {
     let s = s\<lparr>otbl := (otbl s)\<lparr>proc_list := []\<rparr>\<rparr>;
     let s = s\<lparr>otbl := (otbl s)\<lparr>hash_list := (\<lambda>h. if h < 2 ^ HASH_SHIFT then [] else hash_list (otbl s) h)\<rparr>\<rparr>;
     let (idle, s) = alloc_proc s;
     idle \<leftarrow> idle;
     let s = s\<lparr>osch := (osch s)\<lparr>idleproc := idle\<rparr>\<rparr>;
     let s = mod_p idle (\<lambda>d. d\<lparr>pid := 0, pstate := PROC_RUNNABLE, kstack := Some bootstack, need_resched := True\<rparr>) s;
     let (f, s) = os_fs_create s;
     f \<leftarrow> f;
     let s = mod_p idle (\<lambda>d. d\<lparr>fs_struct := Some f\<rparr>) s;
     let s = s\<lparr>ofs := snd (fs_count_inc f (ofs s))\<rparr>;
     let s = put_procs (set_proc_name idle ''idle'' (oprocs s)) s;
     let s = s\<lparr>otbl := (otbl s)\<lparr>nr_process := nr_process (otbl s) + 1\<rparr>\<rparr>;
     let s = s\<lparr>osch := (osch s)\<lparr>current := idle\<rparr>\<rparr>;
     (n, s) \<leftarrow> kernel_thread ops forkret entry crmd init_main 0 0 s;
     kassert (n > 0);
     let s = s\<lparr>initproc := find_proc n (oprocs s) (otbl s)\<rparr>;
     ini \<leftarrow> initproc s;
     let s = put_procs (set_proc_name ini ''init'' (oprocs s)) s;
     kassert (pid (oprocs s idle) = 0);
     kassert (pid (oprocs s ini) = 1);
     Some s
   }"

end
