(* ===== verification/Proc_State.thy ===== *)
theory Proc_State
  imports Proc_Life
begin

text \<open>
  What fork, exit, wait and kill do to the process table, the family tree and the scheduler
  together.
\<close>

section \<open>Wake-ups change only what the scheduler owns\<close>

definition woken :: "proc_struct \<Rightarrow> proc_struct" where
  "woken d = (if pstate d = PROC_RUNNABLE then d else d\<lparr>pstate := PROC_RUNNABLE, wait_state := 0\<rparr>)"

context scheduling_class begin

lemma wakeup_view:
  assumes "queue_exact inv cls s" "wakeup_proc p s = Some s'"
  shows "sched_view (proc_of s' q) = sched_view (if q = p then woken (proc_of s p) else proc_of s q)"
proof (cases "pstate (proc_of s p) = PROC_RUNNABLE")
  case True
  then have "s' = s" using assms(2) by (auto simp: wakeup_proc_def split: if_splits)
  then show ?thesis using True by (simp add: woken_def)
next
  case False
  let ?s1 = "mod_proc p (\<lambda>d. d\<lparr>pstate := PROC_RUNNABLE, wait_state := 0\<rparr>) s"
  have nz: "pstate (proc_of s p) \<noteq> PROC_ZOMBIE" using assms(2) by (auto simp: wakeup_proc_def)
  have base: "sched_view (proc_of ?s1 q) = sched_view (if q = p then woken (proc_of s p) else proc_of s q)"
    using False by (simp add: woken_def)
  show ?thesis
  proof (cases "p = current s \<or> p = idleproc s")
    case True
    then have "s' = ?s1" using assms(2) False nz by (auto simp: wakeup_proc_def Let_def sched_class_enqueue_def split: if_splits)
    then show ?thesis using base by simp
  next
    case other: False
    then have np: "p \<notin> ready s" "ready ?s1 = insert p (ready s)" using False by (auto simp: ready_def)
    have i1: "inv (ready s) (rq ?s1)" using assms(1) by (auto simp: queue_exact_def intro: inv_set_proc)
    obtain q where q: "class_enqueue cls p (rq ?s1) = Some q" "sched_same (procs (rq ?s1)) (procs q)"
      using enqueue_law [OF i1 np(1)] by blast
    have "s' = ?s1\<lparr>rq := q\<rparr>"
      using assms False other nz q(1) by (simp add: wakeup_proc_def Let_def sched_class_enqueue_def queue_exact_def)
    then show ?thesis using base q(2) by (simp add: sched_same_def)
  qed
qed

end

lemma wakeup_sched:
  assumes "sched_ok s" "pstate (proc_of s p) \<noteq> PROC_ZOMBIE"
  shows "\<exists>s'. wakeup_proc p s = Some s' \<and> sched_ok s' \<and> current s' = current s \<and> idleproc s' = idleproc s \<and>
    (\<forall>q. sched_view (proc_of s' q) = sched_view (if q = p then woken (proc_of s p) else proc_of s q))"
proof (rule sched_ok_cases)
  show "sched_ok s" by fact
next
  assume q: "queue_exact stride_shape stride_sched_class s"
  from stride.wakeup_keeps [OF this assms(2)] stride.wakeup_view [OF this]
  show ?thesis unfolding sched_ok_def by blast
next
  assume q: "queue_exact RR_shape RR_sched_class s"
  from RR.wakeup_keeps [OF this assms(2)] RR.wakeup_view [OF this]
  show ?thesis unfolding sched_ok_def by blast
qed

text \<open>The fields that neither the scheduler nor a wake-up changes.\<close>

definition keeps_table :: "procs \<Rightarrow> procs \<Rightarrow> bool" where
  "keeps_table ps ps' \<longleftrightarrow> (\<forall>q. pid (ps' q) = pid (ps q) \<and> parent (ps' q) = parent (ps q) \<and> cptr (ps' q) = cptr (ps q) \<and>
     yptr (ps' q) = yptr (ps q) \<and> optr (ps' q) = optr (ps q) \<and> kstack (ps' q) = kstack (ps q) \<and>
     pflags (ps' q) = pflags (ps q) \<and> exit_code (ps' q) = exit_code (ps q))"

lemma sched_view_table:
  assumes "sched_view d = sched_view e"
  shows "pid d = pid e" "parent d = parent e" "cptr d = cptr e" "yptr d = yptr e" "optr d = optr e"
    "kstack d = kstack e" "pflags d = pflags e" "exit_code d = exit_code e" "pstate d = pstate e"
    "wait_state d = wait_state e"
  using arg_cong [OF assms, of pid] arg_cong [OF assms, of parent] arg_cong [OF assms, of cptr]
    arg_cong [OF assms, of yptr] arg_cong [OF assms, of optr] arg_cong [OF assms, of kstack]
    arg_cong [OF assms, of pflags] arg_cong [OF assms, of exit_code] arg_cong [OF assms, of pstate]
    arg_cong [OF assms, of wait_state]
  by (simp_all add: sched_view_def)

lemma woken_fields [simp]:
  "pid (woken d) = pid d" "parent (woken d) = parent d" "cptr (woken d) = cptr d" "yptr (woken d) = yptr d"
  "optr (woken d) = optr d" "kstack (woken d) = kstack d" "pflags (woken d) = pflags d"
  "exit_code (woken d) = exit_code d" "pstate (woken d) = PROC_RUNNABLE"
  "wait_state (woken d) = (if pstate d = PROC_RUNNABLE then wait_state d else 0)"
  by (simp_all add: woken_def)

lemma os_wakeup_ok:
  assumes "sched_ok (osch s)" "pstate (oprocs s p) \<noteq> PROC_ZOMBIE"
  shows "\<exists>s'. wakeup p s = Some s' \<and> sched_ok (osch s') \<and> cur s' = cur s \<and> idleproc (osch s') = idleproc (osch s) \<and>
    keeps_table (oprocs s) (oprocs s') \<and>
    (\<forall>q. pstate (oprocs s' q) = (if q = p then PROC_RUNNABLE else pstate (oprocs s q)) \<and>
       wait_state (oprocs s' q) = wait_state (if q = p then woken (oprocs s p) else oprocs s q)) \<and>
    s' = s\<lparr>osch := osch s'\<rparr>"
proof -
  obtain q where q: "wakeup_proc p (osch s) = Some q" "sched_ok q" "current q = cur s" "idleproc q = idleproc (osch s)"
    "\<forall>x. sched_view (proc_of q x) = sched_view (if x = p then woken (oprocs s p) else oprocs s x)"
    using wakeup_sched [OF assms] by blast
  note v = sched_view_table [OF q(5) [rule_format]]
  have "keeps_table (oprocs s) (procs (rq q))" using v(1-8) by (simp add: keeps_table_def)
  then show ?thesis using q v(9,10) by (intro exI [of _ "s\<lparr>osch := q\<rparr>"]) (simp add: wakeup_def)
qed

lemma os_wakeup_view:
  assumes "sched_ok (osch s)" "pstate (oprocs s p) \<noteq> PROC_ZOMBIE" "wakeup p s = Some s'"
  shows "sched_view (oprocs s' q) = sched_view (if q = p then woken (oprocs s p) else oprocs s q)"
  using wakeup_sched [OF assms(1,2)] assms(3) by (auto simp: wakeup_def)

text \<open>A descriptor but for its family links and what the scheduler keeps in it.\<close>

definition links_view :: "proc_struct \<Rightarrow> proc_struct" where
  "links_view d = (sched_view d)\<lparr>cptr := None, yptr := None, optr := None\<rparr>"

lemma links_view_sched: "sched_view d = sched_view e \<Longrightarrow> links_view d = links_view e"
  by (simp add: links_view_def)

lemma links_view_links [simp]:
  "links_view (d\<lparr>cptr := a\<rparr>) = links_view d" "links_view (d\<lparr>yptr := a\<rparr>) = links_view d"
  "links_view (d\<lparr>optr := a\<rparr>) = links_view d"
  by (simp_all add: links_view_def sched_view_def)

lemma links_view_fields:
  assumes "links_view d = links_view e"
  shows "mm d = mm e" "cr3 d = cr3 e" "fs_struct d = fs_struct e" "parent d = parent e" "pid d = pid e"
    "kstack d = kstack e" "pflags d = pflags e" "exit_code d = exit_code e" "pstate d = pstate e"
    "wait_state d = wait_state e"
  using arg_cong [OF assms, of mm] arg_cong [OF assms, of cr3] arg_cong [OF assms, of fs_struct]
    arg_cong [OF assms, of parent] arg_cong [OF assms, of pid] arg_cong [OF assms, of kstack]
    arg_cong [OF assms, of pflags] arg_cong [OF assms, of exit_code] arg_cong [OF assms, of pstate]
    arg_cong [OF assms, of wait_state]
  by (simp_all add: links_view_def sched_view_def)

lemma links_view_state:
  assumes "links_view d = links_view e"
  shows "links_view (d\<lparr>pstate := x, wait_state := y\<rparr>) = links_view (e\<lparr>pstate := x, wait_state := y\<rparr>)"
proof -
  have "links_view (d\<lparr>pstate := x, wait_state := y\<rparr>) = (links_view d)\<lparr>pstate := x, wait_state := y\<rparr>" for d
    by (simp add: links_view_def sched_view_def)
  then show ?thesis using assms by simp
qed

lemma links_view_same:
  assumes "same_but_links ps ps'" "parent (ps' q) = parent (ps q)"
  shows "links_view (ps' q) = links_view (ps q)"
proof -
  have "ps' q = (ps q)\<lparr>parent := parent (ps' q), cptr := cptr (ps' q), yptr := yptr (ps' q), optr := optr (ps' q)\<rparr>"
    using assms(1) unfolding same_but_links_def by blast
  then have "links_view (ps' q) =
      links_view ((ps q)\<lparr>parent := parent (ps' q), cptr := cptr (ps' q), yptr := yptr (ps' q), optr := optr (ps' q)\<rparr>)"
    by (rule arg_cong)
  also have "\<dots> = links_view ((ps q)\<lparr>parent := parent (ps q)\<rparr>)" unfolding assms(2) by simp
  finally show ?thesis by simp
qed

lemma keeps_tableD:
  assumes "keeps_table ps ps'"
  shows "pid (ps' q) = pid (ps q)" "parent (ps' q) = parent (ps q)" "cptr (ps' q) = cptr (ps q)"
    "yptr (ps' q) = yptr (ps q)" "optr (ps' q) = optr (ps q)" "kstack (ps' q) = kstack (ps q)"
    "pflags (ps' q) = pflags (ps q)" "exit_code (ps' q) = exit_code (ps q)"
  using assms by (simp_all add: keeps_table_def)

lemma keeps_family: "keeps_table ps ps' \<Longrightarrow> family Y ps kids \<Longrightarrow> family Y ps' kids"
  by (rule family_cong) (auto simp: keeps_table_def)

lemma keeps_table_ok: "keeps_table ps ps' \<Longrightarrow> table_ok ps t \<Longrightarrow> table_ok ps' t"
  by (rule table_ok_cong) (auto simp: keeps_table_def)

lemma mod_p_simps [simp]:
  "oprocs (mod_p p f s) q = (if q = p then f (oprocs s p) else oprocs s q)" "cur (mod_p p f s) = cur s"
  "idleproc (osch (mod_p p f s)) = idleproc (osch s)" "otbl (mod_p p f s) = otbl s" "ovm (mod_p p f s) = ovm s"
  "ofs (mod_p p f s) = ofs s" "initproc (mod_p p f s) = initproc s" "tfs (mod_p p f s) = tfs s"
  "ctxs (mod_p p f s) = ctxs s" "boot_pgdir (mod_p p f s) = boot_pgdir s" "boot_cr3 (mod_p p f s) = boot_cr3 s"
  by (simp_all add: mod_p_def)

lemma put_procs_simps [simp]:
  "oprocs (put_procs ps s) = ps" "cur (put_procs ps s) = cur s" "idleproc (osch (put_procs ps s)) = idleproc (osch s)"
  "otbl (put_procs ps s) = otbl s" "ovm (put_procs ps s) = ovm s" "ofs (put_procs ps s) = ofs s"
  "initproc (put_procs ps s) = initproc s" "tfs (put_procs ps s) = tfs s" "ctxs (put_procs ps s) = ctxs s"
  by (simp_all add: put_procs_def)

text \<open>Changes that keep every state and the run queue's flags keep the scheduler's invariant.\<close>

lemma sched_ok_procs:
  assumes "sched_ok s" "\<And>q. on_rq (ps q) = on_rq (proc_of s q)"
    "\<And>q. q \<noteq> current s \<Longrightarrow> pstate (ps q) = PROC_RUNNABLE \<longleftrightarrow> pstate (proc_of s q) = PROC_RUNNABLE"
  shows "sched_ok (s\<lparr>rq := (rq s)\<lparr>procs := ps\<rparr>\<rparr>)"
proof -
  have r: "ready (s\<lparr>rq := (rq s)\<lparr>procs := ps\<rparr>\<rparr>) = ready s" using assms(3) by (auto simp: ready_def)
  show ?thesis using assms(1)
  proof (rule sched_ok_cases)
    assume "queue_exact stride_shape stride_sched_class s"
    then have "queue_exact stride_shape stride_sched_class (s\<lparr>rq := (rq s)\<lparr>procs := ps\<rparr>\<rparr>)"
      using stride.inv_procs [of "ready s" "rq s" ps] assms(2) by (simp add: queue_exact_def r)
    then show ?thesis by (simp add: sched_ok_def)
  next
    assume "queue_exact RR_shape RR_sched_class s"
    then have "queue_exact RR_shape RR_sched_class (s\<lparr>rq := (rq s)\<lparr>procs := ps\<rparr>\<rparr>)"
      using RR.inv_procs [of "ready s" "rq s" ps] assms(2) by (simp add: queue_exact_def r)
    then show ?thesis by (simp add: sched_ok_def)
  qed
qed

lemma sched_ok_put:
  assumes "sched_ok (osch s)" "\<And>q. on_rq (ps q) = on_rq (oprocs s q)"
    "\<And>q. q \<noteq> cur s \<Longrightarrow> pstate (ps q) = PROC_RUNNABLE \<longleftrightarrow> pstate (oprocs s q) = PROC_RUNNABLE"
  shows "sched_ok (osch (put_procs ps s))"
  using sched_ok_procs [OF assms] by (simp add: put_procs_def)

lemma sched_ok_mod:
  assumes "sched_ok (osch s)" "on_rq (f (oprocs s p)) = on_rq (oprocs s p)"
    "p = cur s \<or> (pstate (f (oprocs s p)) = PROC_RUNNABLE \<longleftrightarrow> pstate (oprocs s p) = PROC_RUNNABLE)"
  shows "sched_ok (osch (mod_p p f s))"
proof -
  have eq: "mod_p p f s = put_procs ((oprocs s)(p := f (oprocs s p))) s"
    by (simp add: mod_p_def put_procs_def mod_proc_def set_proc_def upd_proc_def)
  show ?thesis unfolding eq by (rule sched_ok_put [OF assms(1)]) (use assms(2,3) in auto)
qed


section \<open>Exit: the children go to \<open>initproc\<close>\<close>

definition keeps_ids :: "procs \<Rightarrow> procs \<Rightarrow> bool" where
  "keeps_ids ps ps' \<longleftrightarrow> (\<forall>q. pid (ps' q) = pid (ps q) \<and> kstack (ps' q) = kstack (ps q) \<and>
     pflags (ps' q) = pflags (ps q) \<and> exit_code (ps' q) = exit_code (ps q))"

lemma keeps_ids_trans: "keeps_ids a b \<Longrightarrow> keeps_ids b c \<Longrightarrow> keeps_ids a c"
  by (simp add: keeps_ids_def)

lemma keeps_ids_refl [simp]: "keeps_ids a a"
  by (simp add: keeps_ids_def)

lemma keeps_table_ids: "keeps_table ps ps' \<Longrightarrow> keeps_ids ps ps'"
  by (simp add: keeps_ids_def keeps_table_def)

lemma keeps_ids_ok: "keeps_ids ps ps' \<Longrightarrow> table_ok ps t \<Longrightarrow> table_ok ps' t"
  by (rule table_ok_cong) (auto simp: keeps_ids_def)

lemma links_ids: "same_but_links ps ps' \<Longrightarrow> keeps_ids ps ps'"
  unfolding keeps_ids_def
proof
  fix q assume "same_but_links ps ps'"
  then have e: "ps' q = (ps q)\<lparr>parent := parent (ps' q), cptr := cptr (ps' q), yptr := yptr (ps' q), optr := optr (ps' q)\<rparr>"
    by (simp add: same_but_links_def)
  show "pid (ps' q) = pid (ps q) \<and> kstack (ps' q) = kstack (ps q) \<and> pflags (ps' q) = pflags (ps q) \<and> exit_code (ps' q) = exit_code (ps q)"
    using arg_cong [OF e, of pid] arg_cong [OF e, of kstack] arg_cong [OF e, of pflags] arg_cong [OF e, of exit_code]
    by simp
qed

definition others_same :: "'d os_state \<Rightarrow> 'd os_state \<Rightarrow> bool" where
  "others_same s s' \<longleftrightarrow> otbl s' = otbl s \<and> ovm s' = ovm s \<and> ofs s' = ofs s \<and> initproc s' = initproc s \<and>
     cur s' = cur s \<and> idleproc (osch s') = idleproc (osch s)"

lemma others_same_simps [simp]:
  "others_same s s" "others_same s (put_procs ps s)" "others_same s (mod_p p f s)"
  by (simp_all add: others_same_def)

lemma others_same_trans: "others_same a b \<Longrightarrow> others_same b c \<Longrightarrow> others_same a c"
  by (simp add: others_same_def)

lemma wakeup_others: "s' = s\<lparr>osch := osch s'\<rparr> \<Longrightarrow> cur s' = cur s \<Longrightarrow> idleproc (osch s') = idleproc (osch s) \<Longrightarrow> others_same s s'"
proof -
  assume e: "s' = s\<lparr>osch := osch s'\<rparr>" and c: "cur s' = cur s" "idleproc (osch s') = idleproc (osch s)"
  obtain q where q: "s' = s\<lparr>osch := q\<rparr>" using e by blast
  show ?thesis using c by (simp add: others_same_def q)
qed

lemma younger_parent:
  "parent ((case c of Some q \<Rightarrow> upd_proc q (\<lambda>d. d\<lparr>yptr := y\<rparr>) ps | None \<Rightarrow> ps) x) = parent (ps x)"
  by (simp split: option.split)

lemma adopt_parent:
  "parent (adopt_child c ini p ps q) = (if q = p then Some ini else parent (ps q))"
  unfolding adopt_child_def Let_def by (simp add: younger_parent)

lemma give_child_ok:
  assumes ok: "sched_ok (osch s)" and fam: "family Y (oprocs s) kids" and k: "kids (cur s) = p # xs"
    and ini: "ini \<noteq> cur s" "p \<noteq> ini" "p \<noteq> cur s" and Y: "Y ini = None"
    and z: "wait_state (oprocs s ini) = WT_CHILD \<longrightarrow> pstate (oprocs s ini) \<noteq> PROC_ZOMBIE"
  shows "\<exists>s'. give_child ini p s = Some s' \<and> sched_ok (osch s') \<and> others_same s s' \<and> keeps_ids (oprocs s) (oprocs s') \<and>
    family (Y(cur s := Some p)) (oprocs s') (kids(cur s := xs, ini := p # kids ini)) \<and>
    (\<forall>q. parent (oprocs s' q) = (if q = p then Some ini else parent (oprocs s q))) \<and>
    (\<forall>q. q \<noteq> ini \<longrightarrow> pstate (oprocs s' q) = pstate (oprocs s q) \<and> wait_state (oprocs s' q) = wait_state (oprocs s q)) \<and>
    (let e = if pstate (oprocs s p) = PROC_ZOMBIE \<and> wait_state (oprocs s ini) = WT_CHILD then woken (oprocs s ini)
       else oprocs s ini
     in pstate (oprocs s' ini) = pstate e \<and> wait_state (oprocs s' ini) = wait_state e)"
proof -
  let ?ps = "adopt_child (cur s) ini p (oprocs s)"
  let ?s = "put_procs ?ps s"
  note ad = adopt_child_family [OF fam k ini Y]
  note sd = same_but_linksD [OF ad(2)]
  have ok1: "sched_ok (osch ?s)" by (rule sched_ok_put [OF ok]) (simp_all add: sd)
  show ?thesis
  proof (cases "pstate (oprocs s p) = PROC_ZOMBIE \<and> wait_state (oprocs s ini) = WT_CHILD")
    case False
    then have "give_child ini p s = Some ?s" by (auto simp: give_child_def Let_def sd)
    then show ?thesis using False ad ok1 links_ids [OF ad(2)] by (auto simp: sd adopt_parent)
  next
    case True
    have nz: "pstate (oprocs ?s ini) \<noteq> PROC_ZOMBIE" using True z by (simp add: sd)
    obtain s' where w: "wakeup ini ?s = Some s'" "sched_ok (osch s')" "cur s' = cur ?s"
      "idleproc (osch s') = idleproc (osch ?s)" "keeps_table (oprocs ?s) (oprocs s')"
      "\<forall>q. pstate (oprocs s' q) = (if q = ini then PROC_RUNNABLE else pstate (oprocs ?s q)) \<and>
        wait_state (oprocs s' q) = wait_state (if q = ini then woken (oprocs ?s ini) else oprocs ?s q)"
      "s' = ?s\<lparr>osch := osch s'\<rparr>"
      using os_wakeup_ok [OF ok1 nz] by blast
    have "give_child ini p s = Some s'" using True w(1) by (simp add: give_child_def Let_def sd)
    moreover have "others_same s s'"
      by (rule others_same_trans [OF others_same_simps(2) wakeup_others [OF w(7,3,4)]])
    moreover have "keeps_ids (oprocs s) (oprocs s')"
      using keeps_ids_trans [OF links_ids [OF ad(2)]] keeps_table_ids [OF w(5)] by simp
    moreover have "family (Y(cur s := Some p)) (oprocs s') (kids(cur s := xs, ini := p # kids ini))"
      by (rule keeps_family [OF w(5)]) (use ad(1) in simp)
    ultimately show ?thesis using True w(2,6) keeps_tableD(2) [OF w(5)] by (simp add: sd adopt_parent)
  qed
qed

lemma give_children_ok:
  "sched_ok (osch s) \<Longrightarrow> family Y (oprocs s) kids \<Longrightarrow> kids (cur s) = xs \<Longrightarrow> ini \<noteq> cur s \<Longrightarrow> ini \<notin> set xs \<Longrightarrow>
   cur s \<notin> set xs \<Longrightarrow> Y ini = None \<Longrightarrow>
   wait_state (oprocs s ini) = WT_CHILD \<longrightarrow> pstate (oprocs s ini) \<noteq> PROC_ZOMBIE \<Longrightarrow>
   \<exists>s' y. give_children ini s = Some s' \<and> sched_ok (osch s') \<and> others_same s s' \<and> keeps_ids (oprocs s) (oprocs s') \<and>
     family (Y(cur s := y)) (oprocs s') (kids(cur s := [], ini := rev xs @ kids ini)) \<and>
     (\<forall>q. parent (oprocs s' q) = (if q \<in> set xs then Some ini else parent (oprocs s q))) \<and>
     (\<forall>q. q \<noteq> ini \<longrightarrow> pstate (oprocs s' q) = pstate (oprocs s q) \<and> wait_state (oprocs s' q) = wait_state (oprocs s q)) \<and>
     (let e = if (\<exists>p\<in>set xs. pstate (oprocs s p) = PROC_ZOMBIE) \<and> wait_state (oprocs s ini) = WT_CHILD
        then woken (oprocs s ini) else oprocs s ini
      in pstate (oprocs s' ini) = pstate e \<and> wait_state (oprocs s' ini) = wait_state e)"
proof (induction xs arbitrary: s Y kids)
  case Nil
  have "cptr (oprocs s (cur s)) = None" using familyD(1) [OF Nil.prems(2), of "cur s"] Nil.prems(3) by simp
  then have "give_children ini s = Some s" by (simp add: give_children.simps)
  moreover have kk: "kids(cur s := [], ini := rev [] @ kids ini) = kids" using Nil.prems(3) by (auto simp: fun_eq_iff)
  moreover have "family (Y(cur s := Y (cur s))) (oprocs s) kids" using Nil.prems(2) by simp
  ultimately show ?case using Nil.prems(1) unfolding kk
    by (intro exI [of _ s] exI [of _ "Y (cur s)"]) auto
next
  case (Cons p xs)
  have p: "p \<noteq> ini" "p \<noteq> cur s" using Cons.prems(5,6) by auto
  obtain s1 where g: "give_child ini p s = Some s1" "sched_ok (osch s1)" "others_same s s1"
    "keeps_ids (oprocs s) (oprocs s1)"
    "family (Y(cur s := Some p)) (oprocs s1) (kids(cur s := xs, ini := p # kids ini))"
    "\<forall>q. parent (oprocs s1 q) = (if q = p then Some ini else parent (oprocs s q))"
    "\<forall>q. q \<noteq> ini \<longrightarrow> pstate (oprocs s1 q) = pstate (oprocs s q) \<and> wait_state (oprocs s1 q) = wait_state (oprocs s q)"
    "let e = if pstate (oprocs s p) = PROC_ZOMBIE \<and> wait_state (oprocs s ini) = WT_CHILD then woken (oprocs s ini)
       else oprocs s ini
     in pstate (oprocs s1 ini) = pstate e \<and> wait_state (oprocs s1 ini) = wait_state e"
    using give_child_ok [OF Cons.prems(1-4) p Cons.prems(7,8)] by blast
  have c: "cur s1 = cur s" using g(3) by (simp add: others_same_def)
  let ?Y = "Y(cur s := Some p)" and ?kids = "kids(cur s := xs, ini := p # kids ini)"
  have pre: "?kids (cur s1) = xs" "ini \<noteq> cur s1" "ini \<notin> set xs" "cur s1 \<notin> set xs" "?Y ini = None"
    "wait_state (oprocs s1 ini) = WT_CHILD \<longrightarrow> pstate (oprocs s1 ini) \<noteq> PROC_ZOMBIE"
    using Cons.prems(4-8) g(8) c by (auto split: if_splits)
  obtain s' y where r: "give_children ini s1 = Some s'" "sched_ok (osch s')" "others_same s1 s'"
    "keeps_ids (oprocs s1) (oprocs s')"
    "family (?Y(cur s1 := y)) (oprocs s') (?kids(cur s1 := [], ini := rev xs @ ?kids ini))"
    "\<forall>q. parent (oprocs s' q) = (if q \<in> set xs then Some ini else parent (oprocs s1 q))"
    "\<forall>q. q \<noteq> ini \<longrightarrow> pstate (oprocs s' q) = pstate (oprocs s1 q) \<and> wait_state (oprocs s' q) = wait_state (oprocs s1 q)"
    "let e = if (\<exists>p\<in>set xs. pstate (oprocs s1 p) = PROC_ZOMBIE) \<and> wait_state (oprocs s1 ini) = WT_CHILD
        then woken (oprocs s1 ini) else oprocs s1 ini
      in pstate (oprocs s' ini) = pstate e \<and> wait_state (oprocs s' ini) = wait_state e"
    using Cons.IH [OF g(2,5) pre] by blast
  have "cptr (oprocs s (cur s)) = Some p" using familyD(1) [OF Cons.prems(2), of "cur s"] Cons.prems(3) by simp
  then have "give_children ini s = Some s'" using g(1) r(1) by (subst give_children.simps) simp
  moreover have "others_same s s'" by (rule others_same_trans [OF g(3) r(3)])
  moreover have "keeps_ids (oprocs s) (oprocs s')" by (rule keeps_ids_trans [OF g(4) r(4)])
  moreover have "family (Y(cur s := y)) (oprocs s') (kids(cur s := [], ini := rev (p # xs) @ kids ini))"
  proof -
    have "?kids(cur s1 := [], ini := rev xs @ ?kids ini) = kids(cur s := [], ini := rev (p # xs) @ kids ini)"
      using Cons.prems(4) c by (auto simp: fun_eq_iff)
    then show ?thesis using r(5) c by (simp add: fun_upd_upd)
  qed
  moreover have "\<forall>q. parent (oprocs s' q) = (if q \<in> set (p # xs) then Some ini else parent (oprocs s q))"
    using r(6) g(6) by simp
  moreover have "\<forall>q. q \<noteq> ini \<longrightarrow> pstate (oprocs s' q) = pstate (oprocs s q) \<and> wait_state (oprocs s' q) = wait_state (oprocs s q)"
    using r(7) g(7) by simp
  moreover have zx: "(\<exists>p\<in>set xs. pstate (oprocs s1 p) = PROC_ZOMBIE) \<longleftrightarrow> (\<exists>p\<in>set xs. pstate (oprocs s p) = PROC_ZOMBIE)"
  proof -
    have "pstate (oprocs s1 x) = pstate (oprocs s x)" if "x \<in> set xs" for x
      using g(7) [rule_format, of x] Cons.prems(5) that by auto
    then show ?thesis by (intro bex_cong) simp_all
  qed
  have "let e = if (\<exists>p\<in>set (p # xs). pstate (oprocs s p) = PROC_ZOMBIE) \<and> wait_state (oprocs s ini) = WT_CHILD
        then woken (oprocs s ini) else oprocs s ini
      in pstate (oprocs s' ini) = pstate e \<and> wait_state (oprocs s' ini) = wait_state e"
    using g(8) r(8) unfolding zx Let_def
    by (cases "pstate (oprocs s p) = PROC_ZOMBIE"; cases "wait_state (oprocs s ini) = WT_CHILD";
        cases "\<exists>p\<in>set xs. pstate (oprocs s p) = PROC_ZOMBIE") auto
  ultimately show ?case using r(2) by blast
qed

lemma family_elder: "family Y ps kids \<Longrightarrow> kids p = [] \<Longrightarrow> family (Y(p := None)) ps kids"
  using familyD(1) [of Y ps kids p] by (auto simp: family_def)


text \<open>Whom an exit wakes: the parent when it waits for children, and \<open>ini\<close> when it does and is given a zombie.\<close>

definition exit_wakes :: "(nat \<Rightarrow> nat list) \<Rightarrow> nat \<Rightarrow> nat \<Rightarrow> 'd os_state \<Rightarrow> nat \<Rightarrow> bool" where
  "exit_wakes kids par ini s q \<longleftrightarrow> wait_state (oprocs s q) = WT_CHILD \<and>
     (q = par \<or> q = ini \<and> (\<exists>p\<in>set (kids (cur s)). pstate (oprocs s p) = PROC_ZOMBIE))"

lemma exit_family_ok:
  assumes ok: "sched_ok (osch s)" and t: "table_ok (oprocs s) (otbl s)" and fam: "family no_elder (oprocs s) kids"
    and par: "parent (oprocs s (cur s)) = Some par" "par \<noteq> cur s" and ini: "initproc s = Some ini" "ini \<noteq> cur s"
    "ini \<notin> set (kids (cur s))" "cur s \<notin> set (kids (cur s))"
    and z: "\<forall>p. wait_state (oprocs s p) = WT_CHILD \<longrightarrow> pstate (oprocs s p) \<noteq> PROC_ZOMBIE"
  shows "\<exists>s'. exit_family s = Some s' \<and> sched_ok (osch s') \<and> others_same s s' \<and> table_ok (oprocs s') (otbl s') \<and>
    keeps_ids (oprocs s) (oprocs s') \<and>
    family no_elder (oprocs s') (kids(cur s := [], ini := rev (kids (cur s)) @ kids ini)) \<and>
    (\<forall>q. parent (oprocs s' q) = (if q \<in> set (kids (cur s)) then Some ini else parent (oprocs s q))) \<and>
    (\<forall>q. let e = if exit_wakes kids par ini s q then woken (oprocs s q) else oprocs s q
       in pstate (oprocs s' q) = pstate e \<and> wait_state (oprocs s' q) = wait_state e)"
proof -
  let ?xs = "kids (cur s)"
  obtain s1 where s1: "(if wait_state (oprocs s par) = WT_CHILD then wakeup par s else Some s) = Some s1"
    "sched_ok (osch s1)" "others_same s s1" "keeps_table (oprocs s) (oprocs s1)"
    "\<forall>q. let e = if q = par \<and> wait_state (oprocs s q) = WT_CHILD then woken (oprocs s q) else oprocs s q
       in pstate (oprocs s1 q) = pstate e \<and> wait_state (oprocs s1 q) = wait_state e"
    "wait_state (oprocs s par) \<noteq> WT_CHILD \<longrightarrow> s1 = s"
  proof (cases "wait_state (oprocs s par) = WT_CHILD")
    case True
    then have "pstate (oprocs s par) \<noteq> PROC_ZOMBIE" using z by blast
    from os_wakeup_ok [OF ok this] obtain s1 where "wakeup par s = Some s1" "sched_ok (osch s1)" "cur s1 = cur s"
      "idleproc (osch s1) = idleproc (osch s)" "keeps_table (oprocs s) (oprocs s1)"
      "\<forall>q. pstate (oprocs s1 q) = (if q = par then PROC_RUNNABLE else pstate (oprocs s q)) \<and>
       wait_state (oprocs s1 q) = wait_state (if q = par then woken (oprocs s par) else oprocs s q)"
      "s1 = s\<lparr>osch := osch s1\<rparr>" by blast
    then show ?thesis using True wakeup_others [of s1 s] by (intro that [of s1]) auto
  next
    case False
    then show ?thesis using ok by (intro that [of s]) (auto simp: keeps_table_def)
  qed
  note st1 = s1(5) [unfolded Let_def, rule_format]
  have c: "cur s1 = cur s" "initproc s1 = Some ini" using s1(3) ini(1) by (simp_all add: others_same_def)
  have fam1: "family no_elder (oprocs s1) kids" by (rule keeps_family [OF s1(4) fam])
  have pre: "ini \<noteq> cur s1" "ini \<notin> set ?xs" "cur s1 \<notin> set ?xs" "(None :: nat option) = None"
    "wait_state (oprocs s1 ini) = WT_CHILD \<longrightarrow> pstate (oprocs s1 ini) \<noteq> PROC_ZOMBIE"
    using ini c z st1 [of ini] by (auto split: if_splits)
  obtain s' y where g: "give_children ini s1 = Some s'" "sched_ok (osch s')" "others_same s1 s'"
    "keeps_ids (oprocs s1) (oprocs s')"
    "family (no_elder(cur s1 := y)) (oprocs s') (kids(cur s1 := [], ini := rev ?xs @ kids ini))"
    "\<forall>q. parent (oprocs s' q) = (if q \<in> set ?xs then Some ini else parent (oprocs s1 q))"
    "\<forall>q. q \<noteq> ini \<longrightarrow> pstate (oprocs s' q) = pstate (oprocs s1 q) \<and> wait_state (oprocs s' q) = wait_state (oprocs s1 q)"
    "let e = if (\<exists>p\<in>set ?xs. pstate (oprocs s1 p) = PROC_ZOMBIE) \<and> wait_state (oprocs s1 ini) = WT_CHILD
        then woken (oprocs s1 ini) else oprocs s1 ini
      in pstate (oprocs s' ini) = pstate e \<and> wait_state (oprocs s' ini) = wait_state e"
    using give_children_ok [OF s1(2) fam1 refl [of "kids (cur s1)"], of ini] pre unfolding c(1) by blast
  have run: "exit_family s = Some s'"
  proof (cases "cptr (oprocs s1 (cur s1)) = None")
    case True
    then have "give_children ini s1 = Some s1" by (simp add: give_children.simps)
    then show ?thesis using True s1(1) g(1) par(1) by (simp add: exit_family_def)
  next
    case False
    then show ?thesis using s1(1) g(1) par(1) c(2) by (auto simp: exit_family_def)
  qed
  have ids: "keeps_ids (oprocs s) (oprocs s')"
    by (rule keeps_ids_trans [OF keeps_table_ids [OF s1(4)] g(4)])
  have o: "others_same s s'" by (rule others_same_trans [OF s1(3) g(3)])
  have tb: "table_ok (oprocs s') (otbl s')" using keeps_ids_ok [OF ids t] o by (simp add: others_same_def)
  have fam': "family no_elder (oprocs s') (kids(cur s := [], ini := rev ?xs @ kids ini))"
    using family_elder [OF g(5), of "cur s1"] ini(2) unfolding c(1) by (simp add: fun_upd_idem)
  have pars: "\<forall>q. parent (oprocs s' q) = (if q \<in> set ?xs then Some ini else parent (oprocs s q))"
    using g(6) keeps_tableD(2) [OF s1(4)] by simp
  have zx: "(\<exists>p\<in>set ?xs. pstate (oprocs s1 p) = PROC_ZOMBIE) \<longleftrightarrow> (\<exists>p\<in>set ?xs. pstate (oprocs s p) = PROC_ZOMBIE)"
    by (intro bex_cong refl) (use st1 z in \<open>auto split: if_splits\<close>)
  have st: "let e = if exit_wakes kids par ini s q then woken (oprocs s q) else oprocs s q
      in pstate (oprocs s' q) = pstate e \<and> wait_state (oprocs s' q) = wait_state e" for q
  proof (cases "q = ini")
    case False
    then have "exit_wakes kids par ini s q \<longleftrightarrow> q = par \<and> wait_state (oprocs s q) = WT_CHILD"
      by (auto simp: exit_wakes_def)
    then show ?thesis unfolding Let_def using g(7) st1 [of q] False by simp
  next
    case True
    then show ?thesis using g(8) [unfolded zx] st1 [of ini]
      by (cases "ini = par"; cases "wait_state (oprocs s ini) = WT_CHILD";
          cases "\<exists>p\<in>set ?xs. pstate (oprocs s p) = PROC_ZOMBIE")
        (auto simp: exit_wakes_def Let_def split: if_splits)
  qed
  show ?thesis using run g(2) o tb ids fam' pars st by blast
qed


section \<open>Kill\<close>

text \<open>The family tree and the process table agree.\<close>

definition tree_ok :: "procs \<Rightarrow> proc_table \<Rightarrow> (nat \<Rightarrow> nat list) \<Rightarrow> bool" where
  "tree_ok ps t kids \<longleftrightarrow> (\<forall>p\<in>set (proc_list t). \<forall>q. parent (ps p) = Some q \<longrightarrow> p \<in> set (kids q)) \<and>
     (\<forall>q. set (kids q) \<subseteq> set (proc_list t))"

lemma keeps_tree: "keeps_table ps ps' \<Longrightarrow> tree_ok ps t kids \<Longrightarrow> tree_ok ps' t kids"
  by (simp add: tree_ok_def keeps_table_def)

lemma do_kill_ok:
  assumes ok: "sched_ok (osch s)" and t: "table_ok (oprocs s) (otbl s)" and fam: "family no_elder (oprocs s) kids"
    and tree: "tree_ok (oprocs s) (otbl s) kids"
    and z: "\<forall>p. wait_state (oprocs s p) AND WT_INTERRUPTED \<noteq> 0 \<longrightarrow> pstate (oprocs s p) \<noteq> PROC_ZOMBIE"
  shows "\<exists>r s'. do_kill n s = Some (r, s') \<and> sched_ok (osch s') \<and> others_same s s' \<and>
    table_ok (oprocs s') (otbl s') \<and> family no_elder (oprocs s') kids \<and>
    tree_ok (oprocs s') (otbl s') kids \<and>
    (case find_proc n (oprocs s) (otbl s) of
       None \<Rightarrow> r = fail_code E_INVAL \<and> s' = s
     | Some p \<Rightarrow>
         if pflags (oprocs s p) AND PF_EXITING \<noteq> 0 then r = fail_code E_KILLED \<and> s' = s
         else r = 0 \<and> pflags (oprocs s' p) = pflags (oprocs s p) OR PF_EXITING \<and>
           pstate (oprocs s' p) = (if wait_state (oprocs s p) AND WT_INTERRUPTED \<noteq> 0 then PROC_RUNNABLE
             else pstate (oprocs s p)) \<and>
           (\<forall>q. q \<noteq> p \<longrightarrow> pflags (oprocs s' q) = pflags (oprocs s q) \<and> pstate (oprocs s' q) = pstate (oprocs s q)))"
proof (cases "find_proc n (oprocs s) (otbl s)")
  case None
  then show ?thesis using ok t fam tree by (simp add: do_kill_def)
next
  case (Some p)
  show ?thesis
  proof (cases "pflags (oprocs s p) AND PF_EXITING \<noteq> 0")
    case True
    then show ?thesis using ok t fam tree Some by (simp add: do_kill_def)
  next
    case False
    let ?s = "mod_p p (\<lambda>d. d\<lparr>pflags := pflags d OR PF_EXITING\<rparr>) s"
    have ok1: "sched_ok (osch ?s)" by (rule sched_ok_mod [OF ok]) simp_all
    have t1: "table_ok (oprocs ?s) (otbl ?s)" using table_ok_cong [OF t, of "oprocs ?s"] by simp
    have tree1: "tree_ok (oprocs ?s) (otbl ?s) kids" using tree by (simp add: tree_ok_def)
    have fam1: "family no_elder (oprocs ?s) kids" by (rule family_cong [OF fam]) auto
    show ?thesis
    proof (cases "wait_state (oprocs s p) AND WT_INTERRUPTED \<noteq> 0")
      case w: False
      then have "do_kill n s = Some (0, ?s)" using Some False by (simp add: do_kill_def Let_def)
      then show ?thesis using ok1 t1 fam1 tree1 Some False w by simp
    next
      case w: True
      have nz: "pstate (oprocs ?s p) \<noteq> PROC_ZOMBIE" using z w by simp
      obtain s' where s': "wakeup p ?s = Some s'" "sched_ok (osch s')" "cur s' = cur ?s"
        "idleproc (osch s') = idleproc (osch ?s)" "keeps_table (oprocs ?s) (oprocs s')"
        "\<forall>q. pstate (oprocs s' q) = (if q = p then PROC_RUNNABLE else pstate (oprocs ?s q)) \<and>
         wait_state (oprocs s' q) = wait_state (if q = p then woken (oprocs ?s p) else oprocs ?s q)"
        "s' = ?s\<lparr>osch := osch s'\<rparr>" using os_wakeup_ok [OF ok1 nz] by blast
      have "do_kill n s = Some (0, s')" using Some False w s'(1) by (simp add: do_kill_def Let_def)
      moreover have o: "others_same s s'"
        by (rule others_same_trans [OF others_same_simps(3) wakeup_others [OF s'(7,3,4)]])
      moreover have "tree_ok (oprocs s') (otbl s') kids"
        using keeps_tree [OF s'(5) tree1] o by (simp add: others_same_def)
      moreover have "table_ok (oprocs s') (otbl s')"
        using keeps_table_ok [OF s'(5) t1] o by (simp add: others_same_def)
      ultimately show ?thesis
        using s'(2,6) keeps_family [OF s'(5) fam1] keeps_tableD(7) [OF s'(5)] Some False w by simp
    qed
  qed
qed

section \<open>Wait\<close>

lemma zombie_child_ok:
  "siblings ps y c xs \<Longrightarrow>
   zombie_child ps c h = Some (h \<or> xs \<noteq> [], find (\<lambda>p. pstate (ps p) = PROC_ZOMBIE) xs)"
proof (induction xs arbitrary: y c h)
  case Nil
  then show ?case by (simp add: zombie_child.simps)
next
  case (Cons x xs)
  have r: "c = Some x" "siblings ps (Some x) (optr (ps x)) xs" using Cons.prems by simp_all
  show ?case using Cons.IH [OF r(2), of True] unfolding r(1) by (subst zombie_child.simps) simp
qed

text \<open>The children the caller asks for.\<close>

definition wanted :: "int \<Rightarrow> 'd os_state \<Rightarrow> (nat \<Rightarrow> nat list) \<Rightarrow> nat list" where
  "wanted n s kids = (if n = 0 then kids (cur s) else filter (\<lambda>p. pid (oprocs s p) = n) (kids (cur s)))"

abbreviation zombie :: "'d os_state \<Rightarrow> nat \<Rightarrow> bool" where
  "zombie s p \<equiv> pstate (oprocs s p) = PROC_ZOMBIE"

lemma wait_scan_ok:
  assumes t: "table_ok (oprocs s) (otbl s)" and fam: "family no_elder (oprocs s) kids"
    and tree: "tree_ok (oprocs s) (otbl s) kids"
  shows "wait_scan n s = Some (wanted n s kids \<noteq> [], find (zombie s) (wanted n s kids))"
proof (cases "n = 0")
  case True
  then show ?thesis
    using zombie_child_ok [OF familyD(1) [OF fam, of "cur s"], of False] by (simp add: wait_scan_def wanted_def)
next
  case False
  show ?thesis
  proof (cases "\<exists>p\<in>set (kids (cur s)). pid (oprocs s p) = n")
    case True
    then obtain p where p: "p \<in> set (kids (cur s))" "pid (oprocs s p) = n" by blast
    have pl: "p \<in> set (proc_list (otbl s))" using tree p(1) by (auto simp: tree_ok_def)
    have "q = p" if "q \<in> set (kids (cur s))" "pid (oprocs s q) = n" for q
    proof -
      have "q \<in> set (proc_list (otbl s))" using tree that(1) by (auto simp: tree_ok_def)
      then show ?thesis using t pl p(2) that(2) by (auto simp: table_ok_def dest: inj_onD)
    qed
    then have "filter (\<lambda>q. pid (oprocs s q) = n) (kids (cur s)) = filter (\<lambda>q. q = p) (kids (cur s))"
      using p(2) by (intro filter_cong) auto
    also have "\<dots> = [p]"
      using familyD(2) [OF fam, of "cur s"] p(1)
    proof (induction "kids (cur s)" arbitrary: kids)
      case (Cons x xs)
      have f: "filter (\<lambda>q. q = p) ys = (if p \<in> set ys then [p] else [])" if "distinct ys" for ys
        using that by (induction ys) auto
      show ?case using f [OF Cons.prems(1)] Cons.prems(2) by simp
    qed simp
    finally have w: "wanted n s kids = [p]" using False by (simp add: wanted_def)
    have "find_proc n (oprocs s) (otbl s) = Some p" using find_proc_iff [OF t] pl p(2) by simp
    moreover have "parent (oprocs s p) = Some (cur s)" using familyD(3) [OF fam p(1)] .
    ultimately show ?thesis using False w by (simp add: wait_scan_def)
  next
    case none: False
    then have w: "wanted n s kids = []" using False by (simp add: wanted_def filter_empty_conv)
    have "parent (oprocs s p) \<noteq> Some (cur s)" if "find_proc n (oprocs s) (otbl s) = Some p" for p
    proof -
      have "p \<in> set (proc_list (otbl s))" "pid (oprocs s p) = n" using that find_proc_iff [OF t] by blast+
      then show ?thesis using tree none by (auto simp: tree_ok_def)
    qed
    then show ?thesis using False w by (simp add: wait_scan_def split: option.split)
  qed
qed

text \<open>The kernel stack of \<open>p\<close> is the two pages from \<open>b\<close>.\<close>

definition stack_at :: "'d os_state \<Rightarrow> nat \<Rightarrow> nat \<Rightarrow> bool" where
  "stack_at s p b \<longleftrightarrow> kstack (oprocs s p) = Some (unat (page2pa b)) \<and> b + 1 < npage \<and>
     b \<in> used (pgs (ovm s)) \<and> b + 1 \<in> used (pgs (ovm s))"

lemma put_kstack_ok:
  assumes "stack_at s p b" "ff_inv npage (phys (pgs (ovm s)))"
  shows "\<exists>s'. put_kstack p s = Some s' \<and> osch s' = osch s \<and> otbl s' = otbl s \<and> initproc s' = initproc s \<and>
    used (pgs (ovm s')) = used (pgs (ovm s)) - {b, b + 1} \<and> ff_inv npage (phys (pgs (ovm s'))) \<and>
    frames (pgs (ovm s')) = frames (pgs (ovm s)) \<and> s' = s\<lparr>ovm := (ovm s)\<lparr>pgs := pgs (ovm s')\<rparr>\<rparr>"
proof -
  have two: "{b..<b + 2} = {b, b + 1}" by auto
  let ?pg = "pgs (ovm s)"
  have "{b..<b + 2} \<inter> free_set (phys ?pg) = {}" "\<forall>x\<in>{b..<b + 2}. usable npage (phys ?pg) x"
    unfolding two using assms(1) by (auto simp: stack_at_def used_def)
  then obtain ph where ph: "default_free_pages b 2 (phys ?pg) = Some ph" "ff_inv npage ph"
    "usable npage ph = usable npage (phys ?pg)" "free_set ph = free_set (phys ?pg) \<union> {b, b + 1}"
    using ff.free_law [OF assms(2), of 2 b] unfolding two by auto
  have "put_kstack p s = Some (s\<lparr>ovm := (ovm s)\<lparr>pgs := ?pg\<lparr>phys := ph\<rparr>\<rparr>\<rparr>)"
    using assms(1) ph(1) by (simp add: put_kstack_def stack_at_def free_pages_def KSTACKPAGE_def)
  moreover have "used (?pg\<lparr>phys := ph\<rparr>) = used ?pg - {b, b + 1}" using ph(3,4) by (auto simp: used_def)
  ultimately show ?thesis using ph(2) by simp
qed


lemma links_kstack: "same_but_links ps ps' \<Longrightarrow> kstack (ps' q) = kstack (ps q)"
  using links_ids [of ps ps'] by (simp add: keeps_ids_def)

lemma tree_remove:
  assumes tree: "tree_ok ps t kids" and fam: "family no_elder ps kids" and p: "p \<in> set (kids c)"
    and d: "distinct (proc_list t)" and "\<forall>q. parent (ps' q) = parent (ps q)" "proc_list t' = remove1 p (proc_list t)"
  shows "tree_ok ps' t' (kids(c := remove1 p (kids c)))"
proof -
  have k: "set (remove1 p (kids c)) = set (kids c) - {p}"
    by (rule set_remove1_eq [OF familyD(2) [OF fam]])
  have only: "q = c" if "p \<in> set (kids q)" for q
    using familyD(3) [OF fam that] familyD(3) [OF fam p] by simp
  have s: "set (proc_list t') = set (proc_list t) - {p}" using set_remove1_eq [OF d] assms(6) by simp
  show ?thesis
    unfolding tree_ok_def
  proof (intro conjI ballI allI impI)
    fix x q assume "x \<in> set (proc_list t')" "parent (ps' x) = Some q"
    then have "x \<in> set (kids q)" "x \<noteq> p" using tree s assms(5) by (auto simp: tree_ok_def)
    then show "x \<in> set ((kids(c := remove1 p (kids c))) q)" using k by auto
  next
    fix q
    have "set (kids q) \<subseteq> set (proc_list t)" using tree by (simp add: tree_ok_def)
    then show "set ((kids(c := remove1 p (kids c))) q) \<subseteq> set (proc_list t')"
      using k s only by auto
  qed
qed

lemma wait_found_ok:
  assumes ok: "sched_ok (osch s)" and t: "table_ok (oprocs s) (otbl s)" and fam: "family no_elder (oprocs s) kids"
    and tree: "tree_ok (oprocs s) (otbl s) kids" and p: "p \<in> set (kids (cur s))"
    and no: "p \<noteq> idleproc (osch s)" "initproc s \<noteq> Some p"
    and st: "stack_at s p b" "ff_inv npage (phys (pgs (ovm s)))"
  shows "\<exists>s'. wait_found p s = Some (exit_code (oprocs s p), s') \<and> sched_ok (osch s') \<and>
    table_ok (oprocs s') (otbl s') \<and> family no_elder (oprocs s') (kids(cur s := remove1 p (kids (cur s)))) \<and>
    tree_ok (oprocs s') (otbl s') (kids(cur s := remove1 p (kids (cur s)))) \<and>
    proc_list (otbl s') = remove1 p (proc_list (otbl s)) \<and>
    used (pgs (ovm s')) = used (pgs (ovm s)) - {b, b + 1} \<and> kobjs (ovm s') = kobjs (ovm s) - {p} \<and>
    frames (pgs (ovm s')) = frames (pgs (ovm s)) \<and> mms (ovm s') = mms (ovm s) \<and> ofs s' = ofs s \<and>
    cur s' = cur s \<and> (\<forall>q. links_view (oprocs s' q) = links_view (oprocs s q))"
proof -
  have pl: "p \<in> set (proc_list (otbl s))" using tree p by (auto simp: tree_ok_def)
  have par: "parent (oprocs s p) = Some (cur s)" by (rule familyD(3) [OF fam p])
  obtain ps t' where r: "reap_proc p (oprocs s) (otbl s) = Some (ps, t')" "table_ok ps t'"
    "family no_elder ps (kids(cur s := remove1 p (kids (cur s))))" "proc_list t' = remove1 p (proc_list (otbl s))"
    "same_but_links (oprocs s) ps" "\<forall>q. parent (ps q) = parent (oprocs s q)"
    using reap_ok [OF t fam par p pl] by blast
  let ?s = "(put_procs ps s)\<lparr>otbl := t'\<rparr>"
  have "stack_at ?s p b" using st(1) links_kstack [OF r(5)] by (simp add: stack_at_def)
  then obtain s' where s': "put_kstack p ?s = Some s'" "osch s' = osch ?s" "otbl s' = otbl ?s"
    "used (pgs (ovm s')) = used (pgs (ovm ?s)) - {b, b + 1}" "frames (pgs (ovm s')) = frames (pgs (ovm ?s))"
    "s' = ?s\<lparr>ovm := (ovm ?s)\<lparr>pgs := pgs (ovm s')\<rparr>\<rparr>"
    using put_kstack_ok [of ?s p b] st(2) by auto
  have keep: "mms (ovm s') = mms (ovm s)" "ofs s' = ofs s" "kobjs (ovm s') = kobjs (ovm s)"
    by (subst s'(6), simp)+
  have so: "sched_ok (osch (put_procs ps s))"
    by (rule sched_ok_put [OF ok]) (simp_all add: same_but_linksD [OF r(5)])
  have d: "distinct (proc_list (otbl s))" using t by (simp add: table_ok_def)
  have "wait_found p s = Some (exit_code (oprocs s p), s'\<lparr>ovm := kfree_obj p (ovm s')\<rparr>)"
    using no r(1) s'(1) by (simp add: wait_found_def reap_proc_def Let_def kassert_def)
  moreover have "tree_ok ps t' (kids(cur s := remove1 p (kids (cur s))))"
    by (rule tree_remove [OF tree fam p d r(6,4)])
  moreover have "oprocs s' = ps" "cur s' = cur s" using s'(2) by (simp_all add: put_procs_def)
  moreover have "osch s' = osch (put_procs ps s)" using s'(2) by simp
  moreover have "pgs (kfree_obj p (ovm s')) = pgs (ovm s')" by (simp add: kfree_obj_def)
  moreover have "kobjs (kfree_obj p (ovm s')) = kobjs (ovm s) - {p}" "mms (kfree_obj p (ovm s')) = mms (ovm s)"
    using keep by (simp_all add: kfree_obj_def)
  moreover have "\<forall>q. links_view (ps q) = links_view (oprocs s q)" using links_view_same [OF r(5)] r(6) by blast
  ultimately show ?thesis using r(2-4) s'(3-5) so keep(2) by (intro exI [of _ "s'\<lparr>ovm := kfree_obj p (ovm s')\<rparr>"]) simp
qed


text \<open>What one pass of \<^verbatim>\<open>do_wait\<close> finds decides what it does.\<close>

lemma resched_ok:
  assumes "sched_ok (osch s)"
  shows "\<exists>s'. resched s = Some s' \<and> sched_ok (osch s') \<and> idleproc (osch s') = idleproc (osch s) \<and>
    (if runnable_set (osch s) = {} then cur s' = idleproc (osch s) else cur s' \<in> runnable_set (osch s)) \<and>
    (\<forall>p. pstate (oprocs s' p) = pstate (oprocs s p) \<and> wait_state (oprocs s' p) = wait_state (oprocs s p)) \<and>
    keeps_table (oprocs s) (oprocs s') \<and> s' = s\<lparr>osch := osch s'\<rparr>"
proof -
  obtain q where q: "schedule (osch s) = Some q" "sched_ok q" "idleproc q = idleproc (osch s)"
    "if runnable_set (osch s) = {} then current q = idleproc (osch s) else current q \<in> runnable_set (osch s)"
    "\<forall>p. pstate (proc_of q p) = pstate (oprocs s p) \<and> wait_state (proc_of q p) = wait_state (oprocs s p)"
    "\<forall>p. sched_view (proc_of q p) = sched_view ((oprocs s p)\<lparr>runs := runs (proc_of q p)\<rparr>)"
    using schedule_ok [OF assms] by blast
  have "keeps_table (oprocs s) (procs (rq q))"
    using sched_view_table(1-8) [OF spec [OF q(6)]] by (simp add: keeps_table_def)
  then show ?thesis using q(1-5) by (intro exI [of _ "s\<lparr>osch := q\<rparr>"]) (simp add: resched_def)
qed

lemma wait_sleep_ok:
  assumes ok: "sched_ok (osch s)" and t: "table_ok (oprocs s) (otbl s)" and fam: "family no_elder (oprocs s) kids"
    and tree: "tree_ok (oprocs s) (otbl s) kids"
    and w: "wanted n s kids \<noteq> []" "\<forall>p\<in>set (wanted n s kids). \<not> zombie s p"
  shows "\<exists>s'. wait_pass n code_store s = Some (Inr (), s') \<and> sched_ok (osch s') \<and>
    table_ok (oprocs s') (otbl s') \<and> family no_elder (oprocs s') kids \<and> tree_ok (oprocs s') (otbl s') kids \<and>
    pstate (oprocs s' (cur s)) = PROC_SLEEPING \<and> wait_state (oprocs s' (cur s)) = WT_CHILD \<and>
    (\<forall>q. q \<noteq> cur s \<longrightarrow> pstate (oprocs s' q) = pstate (oprocs s q) \<and> wait_state (oprocs s' q) = wait_state (oprocs s q)) \<and>
    otbl s' = otbl s \<and> ovm s' = ovm s \<and> ofs s' = ofs s \<and> (cur s' = cur s \<longrightarrow> cur s = idleproc (osch s))"
proof -
  let ?s = "mod_p (cur s) (\<lambda>d. d\<lparr>wait_state := WT_CHILD\<rparr>) (mod_p (cur s) (\<lambda>d. d\<lparr>pstate := PROC_SLEEPING\<rparr>) s)"
  have so: "sched_ok (osch ?s)" by (intro sched_ok_mod ok) simp_all
  from resched_ok [OF so] obtain s' where s': "resched ?s = Some s'" "sched_ok (osch s')"
    "if runnable_set (osch ?s) = {} then cur s' = idleproc (osch ?s) else cur s' \<in> runnable_set (osch ?s)"
    "\<forall>p. pstate (oprocs s' p) = pstate (oprocs ?s p) \<and> wait_state (oprocs s' p) = wait_state (oprocs ?s p)"
    "keeps_table (oprocs ?s) (oprocs s')" "s' = ?s\<lparr>osch := osch s'\<rparr>" by blast
  have k: "keeps_table (oprocs s) (oprocs s')" using s'(5) by (simp add: keeps_table_def)
  have tb: "otbl s' = otbl s" "ovm s' = ovm s" "ofs s' = ofs s" by (subst s'(6), simp)+
  have "find (zombie s) (wanted n s kids) = None" using w(2) by (auto simp: find_None_iff)
  then have "wait_pass n code_store s = Some (Inr (), s')"
    using wait_scan_ok [OF t fam tree, of n] w(1) s'(1) by (simp add: wait_pass_def Let_def)
  moreover have "cur s' = cur s \<longrightarrow> cur s = idleproc (osch s)"
    using s'(3) by (auto simp: runnable_set_def split: if_splits)
  moreover have "table_ok (oprocs s') (otbl s')" "tree_ok (oprocs s') (otbl s') kids"
    unfolding tb(1) by (rule keeps_table_ok [OF k t], rule keeps_tree [OF k tree])
  ultimately show ?thesis using s'(2,4) keeps_family [OF k fam] tb by auto
qed

end
