(* ===== verification/Proc_Fork.thy ===== *)
theory Proc_Fork
  imports Proc_State
begin

text \<open>
  Fork as a whole: the invariant \<open>proc_inv\<close> of the scheduler, the process table and the family tree
  together, the new process before and after its registration, and the properties of fork, exit,
  wait and kill.
\<close>

definition proc_inv :: "'d os_state \<Rightarrow> (nat \<Rightarrow> nat list) \<Rightarrow> bool" where
  "proc_inv s kids \<longleftrightarrow> sched_ok (osch s) \<and> table_ok (oprocs s) (otbl s) \<and> family no_elder (oprocs s) kids \<and>
     tree_ok (oprocs s) (otbl s) kids"

text \<open>A descriptor that no list links and the scheduler does not know.\<close>

definition fresh :: "'d os_state \<Rightarrow> (nat \<Rightarrow> nat list) \<Rightarrow> nat \<Rightarrow> bool" where
  "fresh s kids p \<longleftrightarrow> p \<notin> set (proc_list (otbl s)) \<and> kids p = [] \<and> p \<noteq> cur s \<and> p \<noteq> idleproc (osch s) \<and>
     \<not> on_rq (oprocs s p) \<and> pstate (oprocs s p) \<noteq> PROC_RUNNABLE"

text \<open>Between two states only the descriptor of \<open>p\<close>, memory and files differ.\<close>

definition only :: "nat \<Rightarrow> 'd os_state \<Rightarrow> 'd os_state \<Rightarrow> bool" where
  "only p s s' \<longleftrightarrow> otbl s' = otbl s \<and> initproc s' = initproc s \<and>
     (\<exists>d. osch s' = (osch s)\<lparr>rq := (rq (osch s))\<lparr>procs := (oprocs s)(p := d)\<rparr>\<rparr>)"

lemma only_mod_p [simp]: "only p s (mod_p p f s)"
  by (auto simp: only_def mod_p_def mod_proc_def set_proc_def upd_proc_def)

lemma only_same: "osch s' = osch s \<Longrightarrow> otbl s' = otbl s \<Longrightarrow> initproc s' = initproc s \<Longrightarrow> only p s s'"
  unfolding only_def by (intro conjI exI [of _ "oprocs s p"]) auto

lemma only_trans: "only p a b \<Longrightarrow> only p b c \<Longrightarrow> only p a c"
  unfolding only_def by fastforce

lemma only_procs: "only p s s' \<Longrightarrow> q \<noteq> p \<Longrightarrow> oprocs s' q = oprocs s q"
  by (auto simp: only_def)

lemma only_cur: "only p s s' \<Longrightarrow> cur s' = cur s \<and> idleproc (osch s') = idleproc (osch s) \<and> otbl s' = otbl s"
  by (auto simp: only_def)

lemma fresh_not_kid: "proc_inv s kids \<Longrightarrow> fresh s kids p \<Longrightarrow> p \<notin> set (kids q)"
  by (auto simp: proc_inv_def fresh_def tree_ok_def)

lemma family_fresh:
  assumes "family no_elder ps kids" "\<And>q. p \<notin> set (kids q)" "kids p = []"
    "\<And>q. q \<noteq> p \<Longrightarrow> ps' q = ps q" "cptr (ps' p) = None"
  shows "family no_elder ps' kids"
  unfolding family_def
proof
  fix q
  have c: "ps' c = ps c" if "c \<in> set (kids q)" for c using assms(2) [of q] assms(4) [of c] that by auto
  have "siblings ps' None (cptr (ps' q)) (kids q)"
    using familyD(1) [OF assms(1), of q] siblings_cong [of "kids q" ps' ps] c assms(3-5) by (cases "q = p") auto
  then show "siblings ps' None (cptr (ps' q)) (kids q) \<and> distinct (kids q) \<and> (\<forall>c\<in>set (kids q). parent (ps' c) = Some q)"
    using familyD(2) [OF assms(1), of q] familyD(3) [OF assms(1)] c by auto
qed

lemma only_inv:
  assumes i: "proc_inv s kids" and f: "fresh s kids p" and o: "only p s s'"
    and d: "\<not> on_rq (oprocs s' p)" "pstate (oprocs s' p) \<noteq> PROC_RUNNABLE" "cptr (oprocs s' p) = None"
  shows "proc_inv s' kids" "fresh s' kids p"
proof -
  have p: "p \<notin> set (kids q)" for q by (rule fresh_not_kid [OF i f])
  obtain e where e: "osch s' = (osch s)\<lparr>rq := (rq (osch s))\<lparr>procs := (oprocs s)(p := e)\<rparr>\<rparr>" and t: "otbl s' = otbl s"
    using o by (auto simp: only_def)
  have ps: "oprocs s' = (oprocs s)(p := e)" using e by simp
  have so: "sched_ok (osch s')"
    unfolding e by (rule sched_ok_procs) (use i f d in \<open>auto simp: proc_inv_def fresh_def ps\<close>)
  have "table_ok (oprocs s') (otbl s')" unfolding t
    by (rule table_ok_cong [of "oprocs s"]) (use i f in \<open>auto simp: proc_inv_def fresh_def ps\<close>)
  moreover have "family no_elder (oprocs s') kids"
    by (rule family_fresh [of "oprocs s" _ p]) (use i f p d(3) in \<open>auto simp: proc_inv_def fresh_def ps\<close>)
  moreover have "tree_ok (oprocs s') (otbl s') kids"
    using i f by (auto simp: proc_inv_def fresh_def tree_ok_def ps t)
  ultimately show "proc_inv s' kids" using so by (simp add: proc_inv_def)
  show "fresh s' kids p" using f d only_cur [OF o] by (simp add: fresh_def)
qed

section \<open>Registering the new process\<close>

lemma fork_register_parts:
  "fork_register p s = do {
     (ps, t) \<leftarrow> register_proc p (oprocs s) (otbl s);
     s \<leftarrow> wakeup p ((put_procs ps s)\<lparr>otbl := t\<rparr>);
     Some (pid (oprocs s p), s)
   }"
proof -
  have u: "oprocs (mod_p p f s) = upd_proc p f (oprocs s)" for f by (rule ext) (simp add: upd_proc_def)
  have m: "(put_procs ps (mod_p p f s))\<lparr>otbl := t\<rparr> = (put_procs ps s)\<lparr>otbl := t\<rparr>" for ps f and t
    by (simp add: put_procs_def mod_p_def mod_proc_def set_proc_def)
  show ?thesis
    by (cases "get_pid (oprocs s) (otbl s)") (auto simp: fork_register_def register_proc_def Let_def u m bind_assoc split_def)
qed

lemma fork_register_ok:
  assumes i: "proc_inv s kids" and f: "fresh s kids p" and n: "nr_process (otbl s) < MAX_PROCESS"
    and p: "parent (oprocs s p) = Some par" "p \<noteq> par" "pstate (oprocs s p) = PROC_UNINIT"
  shows "\<exists>n s'. fork_register p s = Some (n, s') \<and> 1 \<le> n \<and> n < MAX_PID \<and> n \<notin> pids (oprocs s) (otbl s) \<and>
    proc_inv s' (kids(par := p # kids par)) \<and> proc_list (otbl s') = p # proc_list (otbl s) \<and>
    find_proc n (oprocs s') (otbl s') = Some p \<and>
    (\<forall>q. pstate (oprocs s' q) = (if q = p then PROC_RUNNABLE else pstate (oprocs s q))) \<and>
    kstack (oprocs s' p) = kstack (oprocs s p) \<and> cur s' = cur s \<and>
    (\<exists>t q. s' = s\<lparr>otbl := t, osch := q\<rparr>) \<and>
    (\<forall>q. links_view (oprocs s' q) = links_view (if q = p
       then (oprocs s p)\<lparr>pid := n, pstate := PROC_RUNNABLE, wait_state := 0\<rparr> else oprocs s q))"
proof -
  have t: "table_ok (oprocs s) (otbl s)" and fam: "family no_elder (oprocs s) kids" and so: "sched_ok (osch s)"
    and tree: "tree_ok (oprocs s) (otbl s) kids" using i by (auto simp: proc_inv_def)
  have pk: "\<And>q. p \<notin> set (kids q)" "p \<notin> set (proc_list (otbl s))" using fresh_not_kid [OF i f] f by (auto simp: fresh_def)
  obtain ps t' n where r: "register_proc p (oprocs s) (otbl s) = Some (ps, t')" "table_ok ps t'"
    "family no_elder ps (kids(par := p # kids par))" "proc_list t' = p # proc_list (otbl s)"
    "1 \<le> n" "n < MAX_PID" "n \<notin> pids (oprocs s) (otbl s)"
    "same_but_links (upd_proc p (\<lambda>d. d\<lparr>pid := n\<rparr>) (oprocs s)) ps" "\<forall>q. parent (ps q) = parent (oprocs s q)"
    using register_ok [OF t n fam p(1,2) pk] by blast
  note sd = same_but_linksD [OF r(8)]
  let ?s = "(put_procs ps s)\<lparr>otbl := t'\<rparr>"
  have so1: "sched_ok (osch (put_procs ps s))" by (rule sched_ok_put [OF so]) (auto simp: sd)
  have so': "sched_ok (osch ?s)" using so1 by simp
  have z: "pstate (oprocs ?s p) \<noteq> PROC_ZOMBIE" using p(3) by (simp add: sd put_procs_def)
  obtain s' where w: "wakeup p ?s = Some s'" "sched_ok (osch s')" "cur s' = cur ?s" "keeps_table (oprocs ?s) (oprocs s')"
    "\<forall>q. pstate (oprocs s' q) = (if q = p then PROC_RUNNABLE else pstate (oprocs ?s q))" "s' = ?s\<lparr>osch := osch s'\<rparr>"
    using os_wakeup_ok [OF so' z] by blast
  have ps: "oprocs ?s = ps" by (simp add: put_procs_def)
  have k: "keeps_table ps (oprocs s')" using w(4) unfolding ps .
  have tb: "otbl s' = t'" by (subst w(6)) simp
  have tok: "table_ok (oprocs s') (otbl s')" unfolding tb by (rule keeps_table_ok [OF k r(2)])
  have pn: "pid (oprocs s' p) = n" using keeps_tableD(1) [OF k] by (simp add: sd)
  have par: "parent (oprocs s' q) = parent (oprocs s q)" for q using keeps_tableD(2) [OF k] r(9) by simp
  have "tree_ok (oprocs s') (otbl s') (kids(par := p # kids par))"
    using tree p(1) r(4) unfolding tree_ok_def tb by (auto simp: par)
  then have "proc_inv s' (kids(par := p # kids par))"
    using w(2) tok keeps_family [OF k r(3)] by (simp add: proc_inv_def)
  moreover have "find_proc n (oprocs s') (otbl s') = Some p"
    unfolding find_proc_iff [OF tok] using pn r(4) tb by simp
  moreover have "fork_register p s = Some (n, s')"
    unfolding fork_register_parts using r(1) w(1) pn by simp
  moreover have "\<forall>q. pstate (oprocs s' q) = (if q = p then PROC_RUNNABLE else pstate (oprocs s q))"
    using w(5) unfolding ps by (simp add: sd)
  moreover have "kstack (oprocs s' p) = kstack (oprocs s p)"
    using keeps_tableD(6) [OF k] links_kstack [OF r(8)] by simp
  moreover have "\<exists>t q. s' = s\<lparr>otbl := t, osch := q\<rparr>"
    by (intro exI [of _ t'] exI [of _ "osch s'"]) (subst w(6), simp add: put_procs_def)
  moreover have "cur s' = cur s" using w(3) by (simp add: put_procs_def)
  moreover have "\<forall>q. links_view (oprocs s' q) = links_view (if q = p
       then (oprocs s p)\<lparr>pid := n, pstate := PROC_RUNNABLE, wait_state := 0\<rparr> else oprocs s q)"
  proof
    fix q
    have l: "links_view (ps x) = links_view (upd_proc p (\<lambda>d. d\<lparr>pid := n\<rparr>) (oprocs s) x)" for x
      by (rule links_view_same [OF r(8)]) (simp add: r(9) upd_proc_def)
    have v: "links_view (oprocs s' q) = links_view (if q = p then woken (ps p) else ps q)"
      using links_view_sched [OF os_wakeup_view [OF so' z w(1)]] unfolding ps .
    have "links_view (woken (ps p)) = links_view ((ps p)\<lparr>pstate := PROC_RUNNABLE, wait_state := 0\<rparr>)"
      using z unfolding ps by (simp add: woken_def sd p(3))
    also have "\<dots> = links_view ((upd_proc p (\<lambda>d. d\<lparr>pid := n\<rparr>) (oprocs s) p)\<lparr>pstate := PROC_RUNNABLE, wait_state := 0\<rparr>)"
      by (rule links_view_state [OF l])
    finally have wp: "links_view (woken (ps p)) =
        links_view ((upd_proc p (\<lambda>d. d\<lparr>pid := n\<rparr>) (oprocs s) p)\<lparr>pstate := PROC_RUNNABLE, wait_state := 0\<rparr>)" .
    show "links_view (oprocs s' q) = links_view (if q = p
       then (oprocs s p)\<lparr>pid := n, pstate := PROC_RUNNABLE, wait_state := 0\<rparr> else oprocs s q)"
      using v wp l [of q] by (cases "q = p") (simp_all add: upd_proc_def)
  qed
  ultimately show ?thesis using r(4-7) tb by blast
qed

section \<open>The whole fork of a thread\<close>

lemma setup_kstack_ok:
  assumes f: "ff_inv npage (phys (pgs (ovm s)))"
  shows "(\<exists>s'. setup_kstack p s = Some (0, s') \<and> only p s s' \<and> ofs s' = ofs s \<and> tfs s' = tfs s \<and> ctxs s' = ctxs s \<and>
      (\<exists>k. oprocs s' p = (oprocs s p)\<lparr>kstack := Some k\<rparr>) \<and> mms (ovm s') = mms (ovm s) \<and>
      kobjs (ovm s') = kobjs (ovm s) \<and> frames (pgs (ovm s')) = frames (pgs (ovm s)) \<and>
      ff_inv npage (phys (pgs (ovm s'))) \<and>
      (\<exists>b. stack_at s' p b \<and> used (pgs (ovm s')) = used (pgs (ovm s)) \<union> {b, b + 1} \<and>
         {b, b + 1} \<inter> used (pgs (ovm s)) = {})) \<or>
    (setup_kstack p s = Some (fail_code E_NO_MEM, s) \<and> (\<forall>b. \<not> {b, b + 1} \<subseteq> free_set (phys (pgs (ovm s)))))"
proof -
  let ?pg = "pgs (ovm s)"
  obtain r ph where a: "default_alloc_pages 2 (phys ?pg) = Some (r, ph)" "ff_inv npage ph"
    "usable npage ph = usable npage (phys ?pg)"
    "case r of None \<Rightarrow> ph = phys ?pg \<and> (\<forall>b. \<not> {b..<b + 2} \<subseteq> free_set (phys ?pg))
     | Some b \<Rightarrow> {b..<b + 2} \<subseteq> free_set (phys ?pg) \<and> free_set ph = free_set (phys ?pg) - {b..<b + 2} \<and>
         (\<forall>c. {c..<c + 2} \<subseteq> free_set (phys ?pg) \<longrightarrow> b \<le> c)"
    using ff.alloc_law [OF f, of 2] by auto
  have two: "{b..<b + 2} = {b, b + 1 :: nat}" for b by auto
  have al: "alloc_pages KSTACKPAGE ?pg = Some (r, ?pg\<lparr>phys := ph\<rparr>)"
    using a(1) by (simp add: alloc_pages_def KSTACKPAGE_def)
  show ?thesis
  proof (cases r)
    case None
    then have "setup_kstack p s = Some (fail_code E_NO_MEM, s)" using al a(4) by (simp add: setup_kstack_def)
    moreover have "\<forall>b. \<not> {b, b + 1} \<subseteq> free_set (phys ?pg)" using a(4) None unfolding two by simp
    ultimately show ?thesis by blast
  next
    case (Some b)
    have free: "{b, b + 1} \<subseteq> free_set (phys ?pg)" "free_set ph = free_set (phys ?pg) - {b, b + 1}"
      using a(4) Some unfolding two by simp_all
    have us: "usable npage (phys ?pg) x" if "x \<in> {b, b + 1}" for x
      using ff.free_usable [OF f] free(1) that by blast
    then have lt: "b + 1 < npage" by (auto simp: usable_def)
    have va: "page2kva b = Some (page2pa b)"
      using lt by (simp add: page2kva_def KADDR_def PPN_page2pa)
    let ?s1 = "s\<lparr>ovm := (ovm s)\<lparr>pgs := ?pg\<lparr>phys := ph\<rparr>\<rparr>\<rparr>"
    let ?s = "mod_p p (\<lambda>d. d\<lparr>kstack := Some (unat (page2pa b))\<rparr>) ?s1"
    have "setup_kstack p s = Some (0, ?s)" using al va Some by (simp add: setup_kstack_def Let_def)
    moreover have "only p s ?s" by (rule only_trans [OF only_same only_mod_p]) simp_all
    moreover have u: "used (?pg\<lparr>phys := ph\<rparr>) = used ?pg \<union> {b, b + 1}" "{b, b + 1} \<inter> used ?pg = {}"
      using us free a(3) by (auto simp: used_def)
    moreover have "stack_at ?s p b" using u lt by (simp add: stack_at_def)
    ultimately show ?thesis using a(2) by auto
  qed
qed

text \<open>What \<^verbatim>\<open>do_fork\<close> needs of the current process to share its memory and files with the child.\<close>

definition can_share :: "u32 \<Rightarrow> 'd os_state \<Rightarrow> bool" where
  "can_share cf s \<longleftrightarrow> cf AND CLONE_FS \<noteq> 0 \<and> fs_struct (oprocs s (cur s)) \<noteq> None \<and>
     (case mm (oprocs s (cur s)) of None \<Rightarrow> True
      | Some m \<Rightarrow> cf AND CLONE_VM \<noteq> 0 \<and> pgdir (mms (ovm s) m) \<noteq> None)"

text \<open>The state of the new process, from the registers the parent had.\<close>

definition child_frame :: "u32 \<Rightarrow> u32 \<Rightarrow> trapframe \<Rightarrow> nat \<Rightarrow> nat \<Rightarrow> 'd os_state \<Rightarrow> bool" where
  "child_frame forkret stack tf p b s \<longleftrightarrow>
     (let top = page2pa b + KSTACKSIZE - sizeof_trapframe
      in sf_ra (ctxs s p) = forkret \<and> sf_sp (ctxs s p) = top - 32 \<and>
         tfs s p = set_reg REG_SP (if stack = 0 then top - 32 else stack) (set_reg REG_A7 0 tf))"

text \<open>
  What sharing does: the child's descriptor names the file table and the address space of the caller,
  and its page directory; each has one user more.
\<close>

definition shared_desc :: "'d os_state \<Rightarrow> proc_struct \<Rightarrow> proc_struct" where
  "shared_desc s d = (let d = d\<lparr>fs_struct := fs_struct (oprocs s (cur s))\<rparr> in
     case mm (oprocs s (cur s)) of None \<Rightarrow> d
     | Some m \<Rightarrow> d\<lparr>mm := Some m, cr3 := page2pa (the (pgdir (mms (ovm s) m)))\<rparr>)"

definition shared_files :: "'d os_state \<Rightarrow> 'd fs_state" where
  "shared_files s = (case fs_struct (oprocs s (cur s)) of None \<Rightarrow> ofs s
     | Some f \<Rightarrow> (ofs s)\<lparr>fss := (fss (ofs s))(f := (fss (ofs s) f)\<lparr>fs_count := fs_count (fss (ofs s) f) + 1\<rparr>)\<rparr>)"

definition shared_mms :: "'d os_state \<Rightarrow> nat \<Rightarrow> mm_struct" where
  "shared_mms s = (case mm (oprocs s (cur s)) of None \<Rightarrow> mms (ovm s)
     | Some m \<Rightarrow> (mms (ovm s))(m := (mms (ovm s) m)\<lparr>mm_count := mm_count (mms (ovm s) m) + 1\<rparr>))"

lemma share_ok:
  assumes s: "can_share cf s" and c: "p \<noteq> cur s"
  shows "\<exists>s'. (do {
       (ret, s) \<leftarrow> copy_fs ops cf p s;
       if ret \<noteq> 0 then bad_fork_cleanup_kstack p s
       else do {
         (ret, s) \<leftarrow> copy_mm cf p s;
         if ret \<noteq> 0 then bad_fork_cleanup_fs ops p s else K s
       }
     }) = K s' \<and> only p s s' \<and> tfs s' = tfs s \<and> ctxs s' = ctxs s \<and> pgs (ovm s') = pgs (ovm s) \<and>
     kobjs (ovm s') = kobjs (ovm s) \<and>
     oprocs s' p = shared_desc s (oprocs s p) \<and> ofs s' = shared_files s \<and> mms (ovm s') = shared_mms s"
proof -
  obtain f where f: "fs_struct (oprocs s (cur s)) = Some f" "cf AND CLONE_FS \<noteq> 0" using s by (auto simp: can_share_def)
  let ?s1 = "mod_p p (\<lambda>d. d\<lparr>fs_struct := Some f\<rparr>) (s\<lparr>ofs := snd (fs_count_inc f (ofs s))\<rparr>)"
  have 1: "copy_fs ops cf p s = Some (0, ?s1)" using f by (simp add: copy_fs_def good_fs_struct_def)
  have o1: "only p s ?s1" by (rule only_trans [OF only_same only_mod_p]) simp_all
  show ?thesis
  proof (cases "mm (oprocs s (cur s))")
    case None
    then have "copy_mm cf p ?s1 = Some (0, ?s1)" using c by (simp add: copy_mm_def)
    then show ?thesis using 1 None c f o1
      by (intro exI [of _ ?s1])
        (simp add: fs_count_inc_def mod_fs_def Let_def shared_desc_def shared_files_def shared_mms_def)
  next
    case (Some m)
    then obtain pd where m: "pgdir (mms (ovm s) m) = Some pd" "cf AND CLONE_VM \<noteq> 0" using s by (auto simp: can_share_def)
    let ?s2 = "mod_p p (\<lambda>d. d\<lparr>cr3 := page2pa pd\<rparr>) (mod_p p (\<lambda>d. d\<lparr>mm := Some m\<rparr>)
      (?s1\<lparr>ovm := snd (mm_count_inc m (ovm s))\<rparr>))"
    have "copy_mm cf p ?s1 = Some (0, ?s2)"
      using Some c m by (simp add: copy_mm_def good_mm_def mm_count_inc_def mod_mm_def Let_def)
    moreover have "only p ?s1 (?s1\<lparr>ovm := snd (mm_count_inc m (ovm s))\<rparr>)" by (rule only_same) simp_all
    then have "only p s ?s2"
      by (rule only_trans [OF only_trans [OF only_trans [OF o1] only_mod_p] only_mod_p])
    ultimately show ?thesis using 1 Some c f
      by (intro exI [of _ ?s2]) (simp add: fs_count_inc_def mod_fs_def mm_count_inc_def mod_mm_def Let_def
        shared_desc_def shared_files_def shared_mms_def m)
  qed
qed


lemma kmalloc_keeps:
  "kmalloc_obj v = (Some p, v') \<Longrightarrow> pgs v' = pgs v \<and> mms v' = mms v \<and> kobjs v' = insert p (kobjs v)"
  by (auto simp: kmalloc_obj_def split: list.splits option.splits)

lemma copy_thread_ok:
  assumes "stack_at s p b"
  shows "\<exists>s'. copy_thread forkret p stack tf s = Some s' \<and> child_frame forkret stack tf p b s' \<and>
    osch s' = osch s \<and> otbl s' = otbl s \<and> ovm s' = ovm s \<and> ofs s' = ofs s \<and> initproc s' = initproc s \<and>
    (\<forall>q. q \<noteq> p \<longrightarrow> tfs s' q = tfs s q \<and> ctxs s' q = ctxs s q)"
  using assms by (simp add: copy_thread_def stack_at_def child_frame_def Let_def)

lemma child_frame_cong: "tfs s' = tfs s \<Longrightarrow> ctxs s' = ctxs s \<Longrightarrow> child_frame k st tf p b s' = child_frame k st tf p b s"
  by (simp add: child_frame_def)

text \<open>After \<^verbatim>\<open>alloc_proc\<close>: an empty descriptor, child of the current process.\<close>

lemma alloc_proc_ok:
  assumes "kmalloc_obj (ovm s) = (Some p, v)" "p \<noteq> cur s"
  shows "\<exists>s1. alloc_proc s = (Some p, s1) \<and>
    (let s2 = mod_p p (\<lambda>d. d\<lparr>parent := Some (cur s)\<rparr>) s1; d = oprocs s2 p in
       only p s s2 \<and> ovm s2 = v \<and> ofs s2 = ofs s \<and> cur s1 = cur s \<and> parent d = Some (cur s) \<and> pstate d = PROC_UNINIT \<and>
       \<not> on_rq d \<and> cptr d = None \<and> mm d = None \<and> fs_struct d = None \<and> cr3 d = boot_cr3 s \<and> pflags d = 0 \<and>
       exit_code d = 0 \<and> tfs s2 = tfs s \<and> ctxs s2 = (ctxs s)(p := zero_context) \<and>
       s2 = (put_procs ((oprocs s)(p := d)) s)\<lparr>ovm := v, ctxs := (ctxs s)(p := zero_context)\<rparr>)"
proof -
  let ?s = "s\<lparr>ovm := v, ctxs := (ctxs s)(p := zero_context)\<rparr>"
  have "only p s ?s" by (rule only_same) simp_all
  then have "only p s (mod_p p g (mod_p p h ?s))" for g h
    by (rule only_trans [OF only_trans [OF _ only_mod_p] only_mod_p])
  then show ?thesis using assms
    by (simp add: alloc_proc_def Let_def) (simp add: mod_p_def mod_proc_def set_proc_def upd_proc_def put_procs_def)
qed

text \<open>
  C2. A fork that shares memory and files (every kernel thread and every thread of a process), with
  a descriptor at hand and the process table not full, has two outcomes.  When no two adjacent
  frames are free it answers \<open>E_NO_MEM\<close> and nothing has changed but the bytes of the descriptor, which
  has been given back: no count, no other descriptor, no list, no frame, no trap frame.  Otherwise
  the child gets a pid no process has, is found under it, is the youngest child of the
  caller and runnable, has a stack of two frames that nobody used, has the file table, the address space
  and the page directory of the caller, and starts in \<^verbatim>\<open>forkret\<close> with the
  caller's registers, \<open>A7\<close> cleared; the shared file table and address space count one more user,
  nothing else of files and address spaces changes, every other descriptor keeps everything but family links,
  and the invariants of the scheduler, the process table and the family tree hold.
\<close>

theorem do_fork_thread:
  assumes i: "proc_inv s kids" and f: "ff_inv npage (phys (pgs (ovm s)))" and c: "can_share cf s"
    and k: "kmalloc_obj (ovm s) = (Some p, v)" "fresh s kids p" and n: "nr_process (otbl s) < MAX_PROCESS"
  shows "\<exists>r s'. do_fork ops forkret cf stack tf s = Some (r, s') \<and>
    (r = fail_code E_NO_MEM \<and> (\<forall>b. \<not> {b, b + 1} \<subseteq> free_set (phys (pgs (ovm s)))) \<and> proc_inv s' kids \<and>
       s' = (put_procs ((oprocs s)(p := oprocs s' p)) s)\<lparr>ovm := kfree_obj p v, ctxs := (ctxs s)(p := zero_context)\<rparr> \<and>
       pgs (ovm s') = pgs (ovm s) \<and> mms (ovm s') = mms (ovm s) \<and> kobjs (ovm s') = kobjs (ovm s) - {p} \<or>
     1 \<le> r \<and> r < MAX_PID \<and> r \<notin> pids (oprocs s) (otbl s) \<and>
       proc_inv s' (kids(cur s := p # kids (cur s))) \<and> find_proc r (oprocs s') (otbl s') = Some p \<and>
       (\<forall>q. pstate (oprocs s' q) = (if q = p then PROC_RUNNABLE else pstate (oprocs s q))) \<and>
       (\<forall>q. q \<noteq> p \<longrightarrow> links_view (oprocs s' q) = links_view (oprocs s q) \<and> tfs s' q = tfs s q \<and> ctxs s' q = ctxs s q) \<and>
       (let d = oprocs s' p; e = oprocs s (cur s) in
          parent d = Some (cur s) \<and> fs_struct d = fs_struct e \<and> mm d = mm e \<and>
          cr3 d = (case mm e of None \<Rightarrow> boot_cr3 s | Some m \<Rightarrow> page2pa (the (pgdir (mms (ovm s) m)))) \<and>
          pflags d = 0 \<and> exit_code d = 0 \<and> wait_state d = 0) \<and>
       (\<exists>b. stack_at s' p b \<and> child_frame forkret stack tf p b s' \<and>
          used (pgs (ovm s')) = used (pgs (ovm s)) \<union> {b, b + 1} \<and> {b, b + 1} \<inter> used (pgs (ovm s)) = {}) \<and>
       cur s' = cur s \<and> frames (pgs (ovm s')) = frames (pgs (ovm s)) \<and> kobjs (ovm s') = insert p (kobjs (ovm s)) \<and>
       ofs s' = shared_files s \<and> mms (ovm s') = shared_mms s)"
proof -
  have pc: "p \<noteq> cur s" using k(2) by (simp add: fresh_def)
  note kk = kmalloc_keeps [OF k(1)]
  obtain s1 where a: "alloc_proc s = (Some p, s1)" and s1: "let s2 = mod_p p (\<lambda>d. d\<lparr>parent := Some (cur s)\<rparr>) s1;
      d = oprocs s2 p in only p s s2 \<and> ovm s2 = v \<and> ofs s2 = ofs s \<and> cur s1 = cur s \<and> parent d = Some (cur s) \<and>
      pstate d = PROC_UNINIT \<and> \<not> on_rq d \<and> cptr d = None \<and> mm d = None \<and> fs_struct d = None \<and> cr3 d = boot_cr3 s \<and>
      pflags d = 0 \<and> exit_code d = 0 \<and> tfs s2 = tfs s \<and> ctxs s2 = (ctxs s)(p := zero_context) \<and>
      s2 = (put_procs ((oprocs s)(p := d)) s)\<lparr>ovm := v, ctxs := (ctxs s)(p := zero_context)\<rparr>"
    using alloc_proc_ok [OF k(1) pc] by blast
  let ?s2 = "mod_p p (\<lambda>d. d\<lparr>parent := Some (cur s)\<rparr>) s1"
  have o2: "only p s ?s2" and c1: "cur s1 = cur s" and s2: "ovm ?s2 = v" "ofs ?s2 = ofs s" "parent (oprocs ?s2 p) = Some (cur s)" "pstate (oprocs ?s2 p) = PROC_UNINIT"
      "\<not> on_rq (oprocs ?s2 p)" "cptr (oprocs ?s2 p) = None" "mm (oprocs ?s2 p) = None" "cr3 (oprocs ?s2 p) = boot_cr3 s"
      "pflags (oprocs ?s2 p) = 0" "exit_code (oprocs ?s2 p) = 0" "tfs ?s2 = tfs s" "ctxs ?s2 = (ctxs s)(p := zero_context)"
    and eq2: "?s2 = (put_procs ((oprocs s)(p := oprocs ?s2 p)) s)\<lparr>ovm := v, ctxs := (ctxs s)(p := zero_context)\<rparr>"
    using s1 unfolding Let_def by blast+
  have f2: "ff_inv npage (phys (pgs (ovm ?s2)))" using f kk s2(1) by simp
  have nr: "\<not> nr_process (otbl s) \<ge> MAX_PROCESS" using n by simp
  show ?thesis
  proof (rule disjE [OF setup_kstack_ok [OF f2, of p]])
    assume e: "setup_kstack p ?s2 = Some (fail_code E_NO_MEM, ?s2) \<and>
      (\<forall>b. \<not> {b, b + 1} \<subseteq> free_set (phys (pgs (ovm ?s2))))"
    let ?s' = "?s2\<lparr>ovm := kfree_obj p (ovm ?s2)\<rparr>"
    have "do_fork ops forkret cf stack tf s = Some (fail_code E_NO_MEM, ?s')"
      using e nr a c1 by (simp add: do_fork_def bad_fork_cleanup_proc_def Let_def)
    moreover have "only p s ?s'" by (rule only_trans [OF o2 only_same]) simp_all
    then have "proc_inv ?s' kids" by (rule only_inv(1) [OF i k(2)]) (use s2(4-6) in simp_all)
    moreover have "?s' = (put_procs ((oprocs s)(p := oprocs ?s' p)) s)\<lparr>ovm := kfree_obj p v, ctxs := (ctxs s)(p := zero_context)\<rparr>"
      using arg_cong [OF eq2, of "\<lambda>x. x\<lparr>ovm := kfree_obj p v\<rparr>"] s2(1) by simp
    moreover have "pgs (ovm ?s') = pgs (ovm s)" "mms (ovm ?s') = mms (ovm s)" "kobjs (ovm ?s') = kobjs (ovm s) - {p}"
      using kk s2(1) by (auto simp: kfree_obj_def)
    moreover have "\<forall>b. \<not> {b, b + 1} \<subseteq> free_set (phys (pgs (ovm s)))" using e kk s2(1) by simp
    ultimately show ?thesis by blast
  next
    assume "\<exists>s'. setup_kstack p ?s2 = Some (0, s') \<and> only p ?s2 s' \<and> ofs s' = ofs ?s2 \<and> tfs s' = tfs ?s2 \<and> ctxs s' = ctxs ?s2 \<and>
      (\<exists>k. oprocs s' p = (oprocs ?s2 p)\<lparr>kstack := Some k\<rparr>) \<and> mms (ovm s') = mms (ovm ?s2) \<and>
      kobjs (ovm s') = kobjs (ovm ?s2) \<and> frames (pgs (ovm s')) = frames (pgs (ovm ?s2)) \<and> ff_inv npage (phys (pgs (ovm s'))) \<and>
      (\<exists>b. stack_at s' p b \<and> used (pgs (ovm s')) = used (pgs (ovm ?s2)) \<union> {b, b + 1} \<and>
         {b, b + 1} \<inter> used (pgs (ovm ?s2)) = {})"
    then obtain s3 j b where s3: "setup_kstack p ?s2 = Some (0, s3)" "only p ?s2 s3" "ofs s3 = ofs ?s2"
      "oprocs s3 p = (oprocs ?s2 p)\<lparr>kstack := Some j\<rparr>" "mms (ovm s3) = mms (ovm ?s2)" "stack_at s3 p b"
      "used (pgs (ovm s3)) = used (pgs (ovm ?s2)) \<union> {b, b + 1}" "{b, b + 1} \<inter> used (pgs (ovm ?s2)) = {}"
      "tfs s3 = tfs ?s2" "ctxs s3 = ctxs ?s2" "kobjs (ovm s3) = kobjs (ovm ?s2)" "frames (pgs (ovm s3)) = frames (pgs (ovm ?s2))"
      by blast
    have o3: "only p s s3" by (rule only_trans [OF o2 s3(2)])
    have c3: "cur s3 = cur s" "oprocs s3 (cur s) = oprocs s (cur s)" using only_cur [OF o3] only_procs [OF o3, of "cur s"] pc by auto
    have sh: "can_share cf s3" using c c3 s3(5) s2(1) kk by (simp add: can_share_def split: option.splits)
    let ?K = "\<lambda>s. do { s \<leftarrow> copy_thread forkret p stack tf s; fork_register p s }"
    obtain s4 where s4: "do_fork ops forkret cf stack tf s = ?K s4" "only p s3 s4" "pgs (ovm s4) = pgs (ovm s3)"
      "oprocs s4 p = shared_desc s3 (oprocs s3 p)" "ofs s4 = shared_files s3" "mms (ovm s4) = shared_mms s3"
      "tfs s4 = tfs s3" "ctxs s4 = ctxs s3" "kobjs (ovm s4) = kobjs (ovm s3)"
      using share_ok [OF sh, of p ops ?K] pc c3 nr a c1 s3(1) by (auto simp: do_fork_def Let_def)
    have sd: "shared_desc s3 d = shared_desc s d" "shared_files s3 = shared_files s" "shared_mms s3 = shared_mms s" for d
      using c3 s3(3,5) s2(1,2) kk
      by (auto simp: shared_desc_def shared_files_def shared_mms_def Let_def split: option.split)
    have "stack_at s4 p b" using s3(6) s4(3,4) by (simp add: stack_at_def shared_desc_def Let_def split: option.split)
    from copy_thread_ok [OF this, of forkret stack tf] obtain s5 where s5: "copy_thread forkret p stack tf s4 = Some s5"
      "child_frame forkret stack tf p b s5" "osch s5 = osch s4" "otbl s5 = otbl s4" "ovm s5 = ovm s4" "ofs s5 = ofs s4"
      "initproc s5 = initproc s4" "\<forall>q. q \<noteq> p \<longrightarrow> tfs s5 q = tfs s4 q \<and> ctxs s5 q = ctxs s4 q" by blast
    have o5: "only p s s5" by (rule only_trans [OF only_trans [OF o3 s4(2)] only_same]) (use s5 in simp_all)
    have e5: "oprocs s5 p = shared_desc s ((oprocs ?s2 p)\<lparr>kstack := Some j\<rparr>)" using s5(3) s4(4) s3(4) sd(1) by simp
    have d5: "parent (oprocs s5 p) = Some (cur s)" "pstate (oprocs s5 p) = PROC_UNINIT" "\<not> on_rq (oprocs s5 p)"
      "cptr (oprocs s5 p) = None" "fs_struct (oprocs s5 p) = fs_struct (oprocs s (cur s))" "pflags (oprocs s5 p) = 0"
      "exit_code (oprocs s5 p) = 0" "mm (oprocs s5 p) = mm (oprocs s (cur s))"
      "cr3 (oprocs s5 p) = (case mm (oprocs s (cur s)) of None \<Rightarrow> boot_cr3 s | Some m \<Rightarrow> page2pa (the (pgdir (mms (ovm s) m))))"
      unfolding e5 using s2(3-10) by (simp_all add: shared_desc_def Let_def split: option.split)
    have i5: "proc_inv s5 kids" "fresh s5 kids p" by (rule only_inv [OF i k(2) o5]; use d5 in simp)+
    have t5: "otbl s5 = otbl s" "cur s5 = cur s" using only_cur [OF o5] by blast+
    have n5: "nr_process (otbl s5) < MAX_PROCESS" using n t5 by simp
    obtain r s' where r: "fork_register p s5 = Some (r, s')" "1 \<le> r" "r < MAX_PID" "r \<notin> pids (oprocs s5) (otbl s5)"
      "proc_inv s' (kids(cur s := p # kids (cur s)))" "find_proc r (oprocs s') (otbl s') = Some p"
      "\<forall>q. pstate (oprocs s' q) = (if q = p then PROC_RUNNABLE else pstate (oprocs s5 q))"
      "kstack (oprocs s' p) = kstack (oprocs s5 p)" "\<exists>t q. s' = s5\<lparr>otbl := t, osch := q\<rparr>"
      "\<forall>q. links_view (oprocs s' q) = links_view (if q = p
         then (oprocs s5 p)\<lparr>pid := r, pstate := PROC_RUNNABLE, wait_state := 0\<rparr> else oprocs s5 q)" "cur s' = cur s5"
      using fork_register_ok [OF i5 n5 d5(1) pc d5(2)] by blast
    have same: "ovm s' = ovm s5" "ofs s' = ofs s5" "tfs s' = tfs s5" "ctxs s' = ctxs s5" using r(9) by auto
    have "pids (oprocs s5) (otbl s5) = pids (oprocs s) (otbl s)"
      unfolding pids_def t5
    proof (rule image_cong [OF refl])
      fix x assume "x \<in> set (proc_list (otbl s))"
      then have "x \<noteq> p" using k(2) by (auto simp: fresh_def)
      then show "pid (oprocs s5 x) = pid (oprocs s x)" using only_procs [OF o5] by simp
    qed
    then have "r \<notin> pids (oprocs s) (otbl s)" using r(4) by simp
    moreover have "\<forall>q. pstate (oprocs s' q) = (if q = p then PROC_RUNNABLE else pstate (oprocs s q))"
      using r(7) only_procs [OF o5] by simp
    moreover have "\<forall>q. q \<noteq> p \<longrightarrow> links_view (oprocs s' q) = links_view (oprocs s q) \<and> tfs s' q = tfs s q \<and> ctxs s' q = ctxs s q"
      using r(10) only_procs [OF o5] same(3,4) s5(8) s4(7,8) s3(9,10) s2(11,12) by simp
    moreover have "links_view (oprocs s' p) = links_view ((oprocs s5 p)\<lparr>pid := r, pstate := PROC_RUNNABLE, wait_state := 0\<rparr>)"
      using r(10) by simp
    from links_view_fields [OF this] d5 have "let d = oprocs s' p; e = oprocs s (cur s) in
          parent d = Some (cur s) \<and> fs_struct d = fs_struct e \<and> mm d = mm e \<and>
          cr3 d = (case mm e of None \<Rightarrow> boot_cr3 s | Some m \<Rightarrow> page2pa (the (pgdir (mms (ovm s) m)))) \<and>
          pflags d = 0 \<and> exit_code d = 0 \<and> wait_state d = 0"
      unfolding Let_def by simp
    moreover have "stack_at s' p b"
      using s3(6) s4(3,4) s5(3,5) r(8) same(1) by (simp add: stack_at_def shared_desc_def Let_def split: option.split)
    moreover have "child_frame forkret stack tf p b s'" using s5(2) same(3,4) child_frame_cong by blast
    moreover have "do_fork ops forkret cf stack tf s = Some (r, s')" using s4(1) s5(1) r(1) by simp
    moreover have "used (pgs (ovm s')) = used (pgs (ovm s)) \<union> {b, b + 1}" "{b, b + 1} \<inter> used (pgs (ovm s)) = {}"
      "frames (pgs (ovm s')) = frames (pgs (ovm s))" "kobjs (ovm s') = insert p (kobjs (ovm s))"
      using s3(7,8,11,12) s4(3,9) s5(5) same(1) s2(1) kk by simp_all
    moreover have "ofs s' = shared_files s" "mms (ovm s') = shared_mms s" "cur s' = cur s"
      using s5(5,6) s4(5,6) same(1,2) sd(2,3) r(11) t5(2) by simp_all
    ultimately show ?thesis using r(2,3,5,6) by blast
  qed
qed


section \<open>Exit and wait as a whole\<close>

lemma put_fs_osch: "put_fs ops p s = Some s' \<Longrightarrow> osch s' = osch s \<and> otbl s' = otbl s \<and> initproc s' = initproc s"
  by (auto simp: put_fs_def os_fs_destroy_def bind_eq_Some_conv split: option.splits if_splits prod.splits)

lemma only_mod_ovm: "only p s (mod_p p f (s\<lparr>ovm := v\<rparr>))"
  by (rule only_trans [OF only_same only_mod_p]) simp_all

lemma exit_mm_only: "exit_mm s = Some s' \<Longrightarrow> only (cur s) s s'"
  by (auto simp: exit_mm_def Let_def bind_eq_Some_conv only_same only_mod_ovm
      split: option.splits prod.splits if_splits)

lemma exit_mm_fields:
  assumes "exit_mm s = Some s'"
  shows "oprocs s' (cur s) = oprocs s (cur s) \<or> oprocs s' (cur s) = (oprocs s (cur s))\<lparr>mm := None\<rparr>"
  using assms by (auto simp: exit_mm_def Let_def bind_eq_Some_conv split: option.splits prod.splits if_splits)

lemma tree_give:
  assumes tree: "tree_ok ps t kids" and "ini \<noteq> c"
    and par: "\<And>q. parent (ps' q) = (if q \<in> set (kids c) then Some ini else parent (ps q))"
  shows "tree_ok ps' t (kids(c := [], ini := rev (kids c) @ kids ini))"
  unfolding tree_ok_def
proof (intro conjI ballI allI impI)
  fix x q assume x: "x \<in> set (proc_list t)" "parent (ps' x) = Some q"
  show "x \<in> set ((kids(c := [], ini := rev (kids c) @ kids ini)) q)"
  proof (cases "x \<in> set (kids c)")
    case True
    then show ?thesis using x(2) par by simp
  next
    case False
    then have "x \<in> set (kids q)" using x par tree by (simp add: tree_ok_def)
    then show ?thesis using False by auto
  qed
next
  fix q
  show "set ((kids(c := [], ini := rev (kids c) @ kids ini)) q) \<subseteq> set (proc_list t)"
    using tree by (auto simp: tree_ok_def)
qed

text \<open>
  C6. \<^verbatim>\<open>do_exit\<close> never returns to the caller and hands everything over, provided the releases of memory
  (\<open>exit_mm\<close>) and of files (\<open>put_fs\<close>) it starts with return; what they do to memory and files is all
  that happens to these.  The process is a zombie with its exit code and another process runs; all its
  children, in reverse order, are the youngest children of \<^verbatim>\<open>initproc\<close>; woken are exactly the parent, if
  it waits for children, and \<^verbatim>\<open>initproc\<close>, if it waits for children and is given a zombie; no other
  process changes state, wait state, pid, stack, flags or exit code, and the invariants hold.
\<close>

theorem do_exit_exact:
  assumes i: "proc_inv s kids" and n: "cur s \<noteq> idleproc (osch s)" and ini: "initproc s = Some ini" "ini \<noteq> cur s"
    "parent (oprocs s ini) \<noteq> Some (cur s)" and par: "parent (oprocs s (cur s)) = Some par" "par \<noteq> cur s"
    and z: "\<forall>p. wait_state (oprocs s p) = WT_CHILD \<longrightarrow> p \<noteq> cur s \<and> pstate (oprocs s p) \<noteq> PROC_ZOMBIE"
    and m: "exit_mm s = Some s1" "put_fs ops (cur s) s1 = Some s2"
  shows "\<exists>s'. do_exit ops error_code s = Some s' \<and> cur s' \<noteq> cur s \<and>
    proc_inv s' (kids(cur s := [], ini := rev (kids (cur s)) @ kids ini)) \<and>
    pstate (oprocs s' (cur s)) = PROC_ZOMBIE \<and> exit_code (oprocs s' (cur s)) = error_code \<and>
    (\<forall>q. parent (oprocs s' q) = (if q \<in> set (kids (cur s)) then Some ini else parent (oprocs s q))) \<and>
    (\<forall>q. q \<noteq> cur s \<longrightarrow>
       pstate (oprocs s' q) = (if exit_wakes kids par ini s q then PROC_RUNNABLE else pstate (oprocs s q)) \<and>
       wait_state (oprocs s' q) = (if exit_wakes kids par ini s q \<and> pstate (oprocs s q) \<noteq> PROC_RUNNABLE then 0
         else wait_state (oprocs s q)) \<and>
       pid (oprocs s' q) = pid (oprocs s q) \<and> kstack (oprocs s' q) = kstack (oprocs s q) \<and>
       pflags (oprocs s' q) = pflags (oprocs s q) \<and> exit_code (oprocs s' q) = exit_code (oprocs s q)) \<and>
    otbl s' = otbl s \<and> ovm s' = ovm s2 \<and> ofs s' = ofs s2"
proof -
  let ?c = "cur s"
  let ?s3 = "mod_p ?c (\<lambda>d. d\<lparr>exit_code := error_code\<rparr>) (mod_p ?c (\<lambda>d. d\<lparr>pstate := PROC_ZOMBIE\<rparr>) s2)"
  have t: "table_ok (oprocs s) (otbl s)" and fam: "family no_elder (oprocs s) kids" and so: "sched_ok (osch s)"
    and tree: "tree_ok (oprocs s) (otbl s) kids" using i by (auto simp: proc_inv_def)
  have o2: "only ?c s s2" by (rule only_trans [OF exit_mm_only [OF m(1)] only_same]) (use put_fs_osch [OF m(2)] in simp_all)
  have o3: "only ?c s ?s3" by (rule only_trans [OF only_trans [OF o2 only_mod_p] only_mod_p])
  have c2: "oprocs s2 ?c = oprocs s ?c \<or> oprocs s2 ?c = (oprocs s ?c)\<lparr>mm := None\<rparr>"
    using exit_mm_fields [OF m(1)] put_fs_osch [OF m(2)] by simp
  have same: "pid (oprocs ?s3 q) = pid (oprocs s q)" "parent (oprocs ?s3 q) = parent (oprocs s q)"
    "cptr (oprocs ?s3 q) = cptr (oprocs s q)" "yptr (oprocs ?s3 q) = yptr (oprocs s q)"
    "optr (oprocs ?s3 q) = optr (oprocs s q)" "on_rq (oprocs ?s3 q) = on_rq (oprocs s q)"
    "wait_state (oprocs ?s3 q) = wait_state (oprocs s q)"
    "pstate (oprocs ?s3 q) = (if q = ?c then PROC_ZOMBIE else pstate (oprocs s q))" for q
    using c2 only_procs [OF o2, of q] by (cases "q = ?c"; auto)+
  have c3: "cur ?s3 = ?c" "idleproc (osch ?s3) = idleproc (osch s)" "otbl ?s3 = otbl s" using only_cur [OF o3] by auto
  have ini3: "initproc ?s3 = Some ini" using o3 ini(1) by (auto simp: only_def)
  obtain d where d: "osch ?s3 = (osch s)\<lparr>rq := (rq (osch s))\<lparr>procs := (oprocs s)(?c := d)\<rparr>\<rparr>" using o3 by (auto simp: only_def)
  have so3: "sched_ok (osch ?s3)"
  proof -
    have "oprocs ?s3 = (oprocs s)(?c := d)" using d by simp
    then have "on_rq d = on_rq (oprocs s ?c)" using same(6) [of ?c] by simp
    then show ?thesis unfolding d by (intro sched_ok_procs [OF so]) auto
  qed
  have t3: "table_ok (oprocs ?s3) (otbl ?s3)" unfolding c3(3) by (rule table_ok_cong [OF t same(1)])
  have fam3: "family no_elder (oprocs ?s3) kids" by (rule family_cong [OF fam]) (use same(2-5) in blast)+
  have nk: "ini \<notin> set (kids (cur ?s3))" "cur ?s3 \<notin> set (kids (cur ?s3))"
    using familyD(3) [OF fam, of _ ?c] ini(3) par unfolding c3 by auto
  have par3: "parent (oprocs ?s3 (cur ?s3)) = Some par" "par \<noteq> cur ?s3" "ini \<noteq> cur ?s3" 
    unfolding c3(1) same(2) using par ini(2) by simp_all
  have z3: "\<forall>p. wait_state (oprocs ?s3 p) = WT_CHILD \<longrightarrow> pstate (oprocs ?s3 p) \<noteq> PROC_ZOMBIE"
    using z unfolding same(7,8) by simp
  obtain s4 where s4: "exit_family ?s3 = Some s4" "sched_ok (osch s4)" "others_same ?s3 s4" "table_ok (oprocs s4) (otbl s4)"
    "keeps_ids (oprocs ?s3) (oprocs s4)"
    "family no_elder (oprocs s4) (kids(cur ?s3 := [], ini := rev (kids (cur ?s3)) @ kids ini))"
    "\<forall>q. parent (oprocs s4 q) = (if q \<in> set (kids (cur ?s3)) then Some ini else parent (oprocs ?s3 q))"
    "\<forall>q. let e = if exit_wakes kids par ini ?s3 q then woken (oprocs ?s3 q) else oprocs ?s3 q
       in pstate (oprocs s4 q) = pstate e \<and> wait_state (oprocs s4 q) = wait_state e"
    using exit_family_ok [OF so3 t3 fam3 par3(1,2) ini3 par3(3) nk z3] by blast
  have c4: "cur s4 = ?c" "otbl s4 = otbl s" "idleproc (osch s4) = idleproc (osch s)" using s4(3) c3 by (simp_all add: others_same_def)
  obtain s' where s': "resched s4 = Some s'" "sched_ok (osch s')" "idleproc (osch s') = idleproc (osch s4)"
    "if runnable_set (osch s4) = {} then cur s' = idleproc (osch s4) else cur s' \<in> runnable_set (osch s4)"
    "\<forall>p. pstate (oprocs s' p) = pstate (oprocs s4 p) \<and> wait_state (oprocs s' p) = wait_state (oprocs s4 p)"
    "keeps_table (oprocs s4) (oprocs s')" "s' = s4\<lparr>osch := osch s'\<rparr>" using resched_ok [OF s4(2)] by blast
  have run: "do_exit ops error_code s = Some s'"
    using n ini(1,2) m s4(1) s'(1) only_cur [OF o2] only_cur [OF exit_mm_only [OF m(1)]]
    by (simp add: do_exit_def Let_def)
  have w3: "exit_wakes kids par ini ?s3 q \<longleftrightarrow> exit_wakes kids par ini s q" for q
  proof -
    have "(\<exists>p\<in>set (kids ?c). zombie ?s3 p) \<longleftrightarrow> (\<exists>p\<in>set (kids ?c). zombie s p)"
      using nk(2) unfolding c3(1) same(8) by auto
    then show ?thesis unfolding exit_wakes_def c3(1) same(7) by simp
  qed
  note st4 = s4(8) [unfolded Let_def w3, rule_format]
  have nw: "\<not> exit_wakes kids par ini s ?c" using par(2) ini(2) by (simp add: exit_wakes_def)
  have zc: "pstate (oprocs s4 ?c) = PROC_ZOMBIE" using st4 [of ?c] same(8) [of ?c] nw by simp
  have cur: "cur s' \<noteq> ?c"
    using s'(4) zc n c4(3) by (auto simp: runnable_set_def split: if_splits)
  have tb: "otbl s' = otbl s" by (subst s'(7)) (simp add: c4)
  let ?kids = "kids(?c := [], ini := rev (kids ?c) @ kids ini)"
  have ps: "parent (oprocs s' q) = (if q \<in> set (kids ?c) then Some ini else parent (oprocs s q))" for q
    using keeps_tableD(2) [OF s'(6)] s4(7) same(2) unfolding c3(1) by simp
  have "tree_ok (oprocs s') (otbl s') ?kids"
    unfolding tb by (rule tree_give [OF tree ini(2) ps])
  moreover have "table_ok (oprocs s') (otbl s')" unfolding tb
    using keeps_table_ok [OF s'(6) s4(4)] c4(2) by simp
  moreover have "family no_elder (oprocs s') ?kids" using keeps_family [OF s'(6) s4(6)] unfolding c3(1) .
  ultimately have inv: "proc_inv s' ?kids" using s'(2) by (simp add: proc_inv_def)
  have code: "exit_code (oprocs s' ?c) = error_code"
    using keeps_tableD(8) [OF s'(6)] s4(5) by (simp add: keeps_ids_def)
  have rest: "pstate (oprocs s' q) = (if exit_wakes kids par ini s q then PROC_RUNNABLE else pstate (oprocs s q)) \<and>
      wait_state (oprocs s' q) = (if exit_wakes kids par ini s q \<and> pstate (oprocs s q) \<noteq> PROC_RUNNABLE then 0
        else wait_state (oprocs s q))" if "q \<noteq> ?c" for q
    using s'(5) st4 [of q] same(7,8) [of q] that by simp
  have ids: "pid (oprocs s' q) = pid (oprocs s q) \<and> kstack (oprocs s' q) = kstack (oprocs s q) \<and>
      pflags (oprocs s' q) = pflags (oprocs s q) \<and> exit_code (oprocs s' q) = exit_code (oprocs s q)" if "q \<noteq> ?c" for q
    using keeps_tableD [OF s'(6), of q] s4(5) only_procs [OF o3 that] by (simp add: keeps_ids_def)
  have "ovm s' = ovm s4" "ofs s' = ofs s4" by (subst s'(7), simp)+
  then have mem: "ovm s' = ovm s2" "ofs s' = ofs s2" using s4(3) by (simp_all add: others_same_def)
  have zs: "pstate (oprocs s' ?c) = PROC_ZOMBIE" using s'(5) zc by simp
  show ?thesis using run cur inv zs code ps rest ids tb mem by (intro exI [of _ s']) blast
qed


text \<open>May the exit code be stored at \<open>c\<close>: nowhere, or in four bytes the process may write.\<close>

definition store_ok :: "u32 \<Rightarrow> 'd os_state \<Rightarrow> bool" where
  "store_ok c s \<longleftrightarrow> c = 0 \<or> (\<exists>m. mm (oprocs s (cur s)) = Some m \<and> USER_ACCESS c (c + 4) \<and>
     (\<forall>a. c \<le> a \<and> a < c + 4 \<longrightarrow> byte_ok (ovm s) m True a))"

lemma do_wait_check:
  assumes "c \<noteq> 0 \<Longrightarrow> \<exists>m. mm (oprocs s (cur s)) = Some m \<and> mm_ok (ovm s) m"
  shows "\<exists>v. do_wait n c s = (if store_ok c s then wait_pass n c (s\<lparr>ovm := v\<rparr>)
      else Some (Inl (fail_code E_INVAL, None), s\<lparr>ovm := v\<rparr>)) \<and> pgs v = pgs (ovm s) \<and> kobjs v = kobjs (ovm s)"
proof (cases "c = 0")
  case True
  then show ?thesis by (intro exI [of _ "ovm s"]) (simp add: do_wait_def store_ok_def)
next
  case False
  then obtain m where m: "mm (oprocs s (cur s)) = Some m" "mm_ok (ovm s) m" using assms by blast
  obtain ok v where v: "user_mem_check (Some m) c 4 True (ovm s) = Some (ok, v)" "cache_only m (ovm s) v"
    "ok \<longleftrightarrow> USER_ACCESS c (c + 4) \<and> (\<forall>a. c \<le> a \<and> a < c + 4 \<longrightarrow> byte_ok (ovm s) m True a)"
    using user_mem_check_ok [OF m(2)] by blast
  have "ok \<longleftrightarrow> store_ok c s" using False m(1) v(3) by (simp add: store_ok_def)
  moreover have "do_wait n c s = (if ok then wait_pass n c (s\<lparr>ovm := v\<rparr>)
      else Some (Inl (fail_code E_INVAL, None), s\<lparr>ovm := v\<rparr>))"
    using False m(1) v(1) by (simp add: do_wait_def Let_def)
  ultimately show ?thesis using cache_onlyD [OF v(2)] by auto
qed

text \<open>
  What a pass over the children promises: a zombie among those asked for - the first in sibling order -
  is reaped; without a child to wait for the answer is an error; otherwise the caller sleeps.
\<close>

definition reaped :: "nat \<Rightarrow> (nat \<Rightarrow> nat list) \<Rightarrow> 'd os_state \<Rightarrow> 'd os_state \<Rightarrow> bool" where
  "reaped p kids s s' \<longleftrightarrow> proc_inv s' (kids(cur s := remove1 p (kids (cur s)))) \<and> cur s' = cur s \<and>
     proc_list (otbl s') = remove1 p (proc_list (otbl s)) \<and>
     (\<exists>b. stack_at s p b \<and> used (pgs (ovm s')) = used (pgs (ovm s)) - {b, b + 1}) \<and>
     kobjs (ovm s') = kobjs (ovm s) - {p} \<and> frames (pgs (ovm s')) = frames (pgs (ovm s)) \<and> ofs s' = ofs s \<and>
     (\<forall>q. links_view (oprocs s' q) = links_view (oprocs s q))"

definition same_kernel :: "'d os_state \<Rightarrow> 'd os_state \<Rightarrow> bool" where
  "same_kernel s s' \<longleftrightarrow> otbl s' = otbl s \<and> pgs (ovm s') = pgs (ovm s) \<and> kobjs (ovm s') = kobjs (ovm s) \<and> ofs s' = ofs s"

definition waiting :: "(nat \<Rightarrow> nat list) \<Rightarrow> 'd os_state \<Rightarrow> 'd os_state \<Rightarrow> bool" where
  "waiting kids s s' \<longleftrightarrow> proc_inv s' kids \<and> pstate (oprocs s' (cur s)) = PROC_SLEEPING \<and>
     wait_state (oprocs s' (cur s)) = WT_CHILD \<and> (cur s' = cur s \<longrightarrow> cur s = idleproc (osch s)) \<and> same_kernel s s' \<and>
     (\<forall>q. q \<noteq> cur s \<longrightarrow> pstate (oprocs s' q) = pstate (oprocs s q) \<and> wait_state (oprocs s' q) = wait_state (oprocs s q))"

definition wait_outcome ::
  "int \<Rightarrow> u32 \<Rightarrow> (nat \<Rightarrow> nat list) \<Rightarrow> 'd os_state \<Rightarrow> int \<times> int option + unit \<Rightarrow> 'd os_state \<Rightarrow> bool" where
  "wait_outcome n c kids s r s' \<longleftrightarrow>
     (case find (zombie s) (wanted n s kids) of
        Some p \<Rightarrow> r = Inl (0, if c \<noteq> 0 then Some (exit_code (oprocs s p)) else None) \<and> reaped p kids s s'
      | None \<Rightarrow>
          if wanted n s kids = [] then r = Inl (fail_code E_BAD_PROC, None) \<and> osch s' = osch s \<and> same_kernel s s'
          else r = Inr () \<and> waiting kids s s')"

lemma wait_outcome_cache:
  assumes "pgs v = pgs (ovm s)" "kobjs v = kobjs (ovm s)"
  shows "wait_outcome n c kids (s\<lparr>ovm := v\<rparr>) r s' = wait_outcome n c kids s r s'"
proof -
  have "wanted n (s\<lparr>ovm := v\<rparr>) kids = wanted n s kids" "zombie (s\<lparr>ovm := v\<rparr>) = zombie s"
    "stack_at (s\<lparr>ovm := v\<rparr>) = stack_at s"
    using assms by (simp_all add: wanted_def stack_at_def fun_eq_iff)
  then show ?thesis using assms by (simp add: wait_outcome_def reaped_def waiting_def same_kernel_def split: option.split)
qed

lemma wait_pass_ok:
  assumes i: "proc_inv s kids" and f: "ff_inv npage (phys (pgs (ovm s)))"
    and k: "\<forall>p\<in>set (kids (cur s)). p \<noteq> idleproc (osch s) \<and> initproc s \<noteq> Some p \<and> (zombie s p \<longrightarrow> (\<exists>b. stack_at s p b))"
  shows "\<exists>r s'. wait_pass n c s = Some (r, s') \<and> wait_outcome n c kids s r s'"
proof -
  have t: "table_ok (oprocs s) (otbl s)" and fam: "family no_elder (oprocs s) kids" and so: "sched_ok (osch s)"
    and tree: "tree_ok (oprocs s) (otbl s) kids" using i by (auto simp: proc_inv_def)
  show ?thesis
  proof (cases "find (zombie s) (wanted n s kids)")
    case None
    show ?thesis
    proof (cases "wanted n s kids = []")
      case True
      have "wait_pass n c s = Some (Inl (fail_code E_BAD_PROC, None), s)"
        using wait_scan_ok [OF t fam tree, of n] True by (simp add: wait_pass_def)
      then show ?thesis using True by (simp add: wait_outcome_def same_kernel_def)
    next
      case ne: False
      have nz: "\<forall>p\<in>set (wanted n s kids). \<not> zombie s p" using None by (auto simp: find_None_iff)
      from wait_sleep_ok [OF so t fam tree ne nz, of c] obtain s' where "wait_pass n c s = Some (Inr (), s')"
        "waiting kids s s'" by (auto simp: waiting_def proc_inv_def same_kernel_def)
      then show ?thesis using None ne by (simp add: wait_outcome_def)
    qed
  next
    case (Some p)
    then obtain p: "zombie s p" "p \<in> set (wanted n s kids)" by (auto simp: find_Some_iff)
    then have pk: "p \<in> set (kids (cur s))" by (auto simp: wanted_def split: if_splits)
    then obtain b where b: "stack_at s p b" using k p(1) by auto
    have no: "p \<noteq> idleproc (osch s)" "initproc s \<noteq> Some p" using k pk by auto
    from wait_found_ok [OF so t fam tree pk no b f] obtain s' where s':
      "wait_found p s = Some (exit_code (oprocs s p), s')" "reaped p kids s s'"
      using b unfolding reaped_def proc_inv_def by blast
    have "wait_pass n c s = Some (Inl (0, if c \<noteq> 0 then Some (exit_code (oprocs s p)) else None), s')"
      using wait_scan_ok [OF t fam tree, of n] Some s'(1) by (simp add: wait_pass_def)
    then show ?thesis using Some s'(2) by (simp add: wait_outcome_def)
  qed
qed

text \<open>
  C7. \<^verbatim>\<open>do_wait\<close>, when its store address is none or in the caller's own, well-formed address space.
  An address the caller may not write is \<open>E_INVAL\<close>.  Otherwise the first pass - and each pass after a
  wake-up, as long as the caller has not been killed - decides exactly by the children the caller asks
  for, all or the one with the given pid: the first zombie in sibling order is reaped, that is, its
  exit code is delivered, its stack and its descriptor are freed, it leaves the process list and the
  family, and nothing of any other process changes but family links; when there is no such child the
  answer is \<open>E_BAD_PROC\<close> and nothing changes; otherwise the caller sleeps, interruptibly, in \<open>WT_CHILD\<close>, another
  process runs and no other process changes state.  A caller that was killed while it slept exits with
  \<open>E_KILLED\<close> instead of looking again.
\<close>

theorem do_wait_exact:
  assumes i: "proc_inv s kids" and f: "ff_inv npage (phys (pgs (ovm s)))"
    and k: "\<forall>p\<in>set (kids (cur s)). p \<noteq> idleproc (osch s) \<and> initproc s \<noteq> Some p \<and> (zombie s p \<longrightarrow> (\<exists>b. stack_at s p b))"
    and m: "c \<noteq> 0 \<longrightarrow> (\<exists>m. mm (oprocs s (cur s)) = Some m \<and> mm_ok (ovm s) m)"
  shows "(\<exists>r s'. do_wait n c s = Some (r, s') \<and>
      (if store_ok c s then wait_outcome n c kids s r s'
       else r = Inl (fail_code E_INVAL, None) \<and> osch s' = osch s \<and> same_kernel s s')) \<and>
    (if pflags (oprocs s (cur s)) AND PF_EXITING = 0
     then \<exists>r s'. wait_resume ops n c s = Some (r, s') \<and> wait_outcome n c kids s r s'
     else wait_resume ops n c s = map_option (Pair (Inr ())) (do_exit ops (fail_code E_KILLED) s))"
proof (rule conjI)
  obtain v where v: "do_wait n c s = (if store_ok c s then wait_pass n c (s\<lparr>ovm := v\<rparr>)
      else Some (Inl (fail_code E_INVAL, None), s\<lparr>ovm := v\<rparr>))" "pgs v = pgs (ovm s)" "kobjs v = kobjs (ovm s)"
    using do_wait_check [of c s n] m by blast
  let ?s = "s\<lparr>ovm := v\<rparr>"
  have "proc_inv ?s kids" "ff_inv npage (phys (pgs (ovm ?s)))" using i f v(2) by (simp_all add: proc_inv_def)
  moreover have "\<forall>p\<in>set (kids (cur ?s)). p \<noteq> idleproc (osch ?s) \<and> initproc ?s \<noteq> Some p \<and> (zombie ?s p \<longrightarrow> (\<exists>b. stack_at ?s p b))"
    using k v(2) by (simp add: stack_at_def)
  ultimately obtain r s' where "wait_pass n c ?s = Some (r, s')" "wait_outcome n c kids ?s r s'"
    using wait_pass_ok by blast
  then show "\<exists>r s'. do_wait n c s = Some (r, s') \<and>
      (if store_ok c s then wait_outcome n c kids s r s'
       else r = Inl (fail_code E_INVAL, None) \<and> osch s' = osch s \<and> same_kernel s s')"
    unfolding wait_outcome_cache [OF v(2,3)] using v by (cases "store_ok c s") (auto simp: same_kernel_def)
  show "if pflags (oprocs s (cur s)) AND PF_EXITING = 0
     then \<exists>r s'. wait_resume ops n c s = Some (r, s') \<and> wait_outcome n c kids s r s'
     else wait_resume ops n c s = map_option (Pair (Inr ())) (do_exit ops (fail_code E_KILLED) s)"
    using wait_pass_ok [OF i f k, of n c]
    by (cases "do_exit ops (fail_code E_KILLED) s") (simp_all add: wait_resume_def)
qed

section \<open>Kill\<close>

text \<open>
  C13. \<^verbatim>\<open>do_kill\<close> answers \<open>E_INVAL\<close> for a pid that is not in use and \<open>E_KILLED\<close> for a process already
  told to exit, changing nothing; otherwise it marks exactly that process, makes it runnable if it
  sleeps interruptibly, leaves every other process alone and keeps the invariants.
\<close>

theorem do_kill_exact:
  assumes i: "proc_inv s kids"
    and z: "\<forall>p. wait_state (oprocs s p) AND WT_INTERRUPTED \<noteq> 0 \<longrightarrow> pstate (oprocs s p) \<noteq> PROC_ZOMBIE"
  shows "\<exists>r s'. do_kill n s = Some (r, s') \<and> proc_inv s' kids \<and>
    (if \<forall>p\<in>set (proc_list (otbl s)). pid (oprocs s p) \<noteq> n then r = fail_code E_INVAL \<and> s' = s
     else \<exists>p\<in>set (proc_list (otbl s)). pid (oprocs s p) = n \<and>
       (if pflags (oprocs s p) AND PF_EXITING \<noteq> 0 then r = fail_code E_KILLED \<and> s' = s
        else r = 0 \<and> pflags (oprocs s' p) = pflags (oprocs s p) OR PF_EXITING \<and>
          pstate (oprocs s' p) = (if wait_state (oprocs s p) AND WT_INTERRUPTED \<noteq> 0 then PROC_RUNNABLE
            else pstate (oprocs s p)) \<and>
          (\<forall>q. q \<noteq> p \<longrightarrow> pflags (oprocs s' q) = pflags (oprocs s q) \<and> pstate (oprocs s' q) = pstate (oprocs s q))))"
proof -
  have t: "table_ok (oprocs s) (otbl s)" and fam: "family no_elder (oprocs s) kids" and so: "sched_ok (osch s)"
    and tree: "tree_ok (oprocs s) (otbl s) kids" using i by (auto simp: proc_inv_def)
  obtain r s' where k: "do_kill n s = Some (r, s')" "sched_ok (osch s')" "table_ok (oprocs s') (otbl s')"
    "family no_elder (oprocs s') kids" "tree_ok (oprocs s') (otbl s') kids"
    and c: "case find_proc n (oprocs s) (otbl s) of
       None \<Rightarrow> r = fail_code E_INVAL \<and> s' = s
     | Some p \<Rightarrow>
         if pflags (oprocs s p) AND PF_EXITING \<noteq> 0 then r = fail_code E_KILLED \<and> s' = s
         else r = 0 \<and> pflags (oprocs s' p) = pflags (oprocs s p) OR PF_EXITING \<and>
           pstate (oprocs s' p) = (if wait_state (oprocs s p) AND WT_INTERRUPTED \<noteq> 0 then PROC_RUNNABLE
             else pstate (oprocs s p)) \<and>
           (\<forall>q. q \<noteq> p \<longrightarrow> pflags (oprocs s' q) = pflags (oprocs s q) \<and> pstate (oprocs s' q) = pstate (oprocs s q))"
    using do_kill_ok [OF so t fam tree z, of n] by blast
  have inv: "proc_inv s' kids" using k by (simp add: proc_inv_def)
  show ?thesis
  proof (cases "find_proc n (oprocs s) (otbl s)")
    case None
    then have "\<forall>p\<in>set (proc_list (otbl s)). pid (oprocs s p) \<noteq> n" using find_proc_iff [OF t] by (metis option.distinct(1))
    then show ?thesis using k(1) inv c None by auto
  next
    case (Some p)
    then have "p \<in> set (proc_list (otbl s))" "pid (oprocs s p) = n" using find_proc_iff [OF t] by blast+
    then show ?thesis using k(1) inv c Some by auto
  qed
qed

section \<open>Four processes\<close>

text \<open>
  The idle process 0, \<^verbatim>\<open>initproc\<close> 1 waiting for children, the current process 2, its children 4,
  asleep, and 3, a zombie with stack frames 1 and 2.  The next descriptor is 9.
\<close>

definition demo_parent :: "nat \<Rightarrow> nat option" where
  "demo_parent p = (if p = 1 then Some 0 else if p = 2 then Some 1 else if p = 3 \<or> p = 4 then Some 2 else None)"

definition demo_procs :: procs where
  "demo_procs p = demo_proc\<lparr>
     pstate := (if p = 0 \<or> p = 2 then PROC_RUNNABLE else if p = 1 \<or> p = 4 then PROC_SLEEPING
       else if p = 3 then PROC_ZOMBIE else PROC_UNINIT),
     pid := int p, parent := demo_parent p, exit_code := (if p = 3 then 42 else 0),
     wait_state := (if p = 1 \<or> p = 4 then WT_CHILD else 0),
     kstack := (if p = 3 then Some (unat (page2pa 1)) else None),
     cptr := (if p = 0 then Some 1 else if p = 1 then Some 2 else if p = 2 then Some 4 else None),
     yptr := (if p = 3 then Some 4 else None), optr := (if p = 4 then Some 3 else None),
     fs_struct := Some 0, on_rq := False\<rparr>"

definition demo_kids :: "nat \<Rightarrow> nat list" where
  "demo_kids p = (if p = 0 then [1] else if p = 1 then [2] else if p = 2 then [4, 3] else [])"

definition demo_os :: "unit os_state" where
  "demo_os = \<lparr>osch = \<lparr>rq = \<lparr>procs = demo_procs, run_list = [], run_pool = None, pool_store = demo_heap, proc_num = 0,
       max_time_slice = 20\<rparr>, scls = RR_sched_class, current = 2, idleproc = 0, timers = demo_timers, timer_list = []\<rparr>,
     otbl = \<lparr>proc_list = [4, 3, 2, 1], hash_list = (\<lambda>h. filter (\<lambda>p. pid_hashfn (int p) = h) [4, 3, 2, 1]),
       nr_process = 5, next_safe = MAX_PID, last_pid = 4\<rparr>,
     ovm = demo_space\<lparr>answers := [Some 9]\<rparr>, ofs = demo_files\<lparr>fss := (fss demo_files)(0 := (fss demo_files 0)\<lparr>fs_count := 2\<rparr>)\<rparr>,
     initproc = Some 1, tfs = (\<lambda>_. \<lparr>tf_badv = 0, tf_estat = 0, tf_prmd = 0, tf_ra = 0, tf_regs = (\<lambda>_. 0), tf_era = 0\<rparr>),
     ctxs = (\<lambda>_. zero_context), boot_pgdir = 0, boot_cr3 = 0\<rparr>"

lemma demo_os_sel [simp]:
  "oprocs demo_os = demo_procs" "cur demo_os = 2" "idleproc (osch demo_os) = 0" "initproc demo_os = Some 1"
  "proc_list (otbl demo_os) = [4, 3, 2, 1]" "nr_process (otbl demo_os) = 5" "pgs (ovm demo_os) = demo_vmem"
  "kmalloc_obj (ovm demo_os) = (Some 9, (ovm demo_os)\<lparr>answers := [], kobjs := insert 9 (kobjs (ovm demo_os))\<rparr>)"
  by (simp_all add: demo_os_def kmalloc_obj_def demo_space_def)

lemma demo_os_inv: "proc_inv demo_os demo_kids"
proof -
  have r: "ready (osch demo_os) = {}"
    by (auto simp: ready_def demo_os_def demo_procs_def)
  have "RR_shape {} (rq (osch demo_os))" by (simp add: RR_shape_def demo_os_def)
  moreover have "scls (osch demo_os) = RR_sched_class" by (simp add: demo_os_def)
  ultimately have "sched_ok (osch demo_os)" by (simp add: sched_ok_def queue_exact_def r)
  moreover have "table_ok demo_procs (otbl demo_os)"
    by (auto simp: table_ok_def demo_os_def demo_procs_def pid_ok_def pids_def proc_limits)
  moreover have "family no_elder demo_procs demo_kids"
    by (simp add: family_def demo_kids_def demo_procs_def demo_parent_def)
  moreover have "tree_ok demo_procs (otbl demo_os) demo_kids"
    by (auto simp: tree_ok_def demo_kids_def demo_procs_def demo_parent_def demo_os_def)
  ultimately show ?thesis by (simp add: proc_inv_def)
qed

theorem do_kill_exact_witness:
  "\<exists>s'. do_kill 4 demo_os = Some (0, s') \<and> pstate (oprocs s' 4) = PROC_RUNNABLE \<and>
     do_kill 7 demo_os = Some (fail_code E_INVAL, demo_os)"
proof -
  have z: "\<forall>p. wait_state (oprocs demo_os p) AND WT_INTERRUPTED \<noteq> 0 \<longrightarrow> pstate (oprocs demo_os p) \<noteq> PROC_ZOMBIE"
    by (simp add: demo_procs_def)
  have w: "wait_state (demo_procs 4) AND WT_INTERRUPTED \<noteq> 0" "pflags (demo_procs 4) = 0" "pid (demo_procs p) = int p" for p
    by (simp_all add: demo_procs_def demo_proc_def WT_CHILD_def WT_INTERRUPTED_def)
  have "\<exists>s'. do_kill 4 demo_os = Some (0, s') \<and> pstate (oprocs s' 4) = PROC_RUNNABLE"
    using do_kill_exact [OF demo_os_inv z, of 4] w by auto
  moreover have "do_kill 7 demo_os = Some (fail_code E_INVAL, demo_os)"
    using do_kill_exact [OF demo_os_inv z, of 7] w by auto
  ultimately show ?thesis by blast
qed

theorem do_wait_exact_witness:
  "\<exists>s'. do_wait 0 0 demo_os = Some (Inl (0, None), s') \<and> proc_list (otbl s') = [4, 2, 1] \<and>
     used (pgs (ovm s')) = {0}"
proof -
  have st: "stack_at demo_os 3 1" "\<And>b. stack_at demo_os 3 b \<Longrightarrow> b = 1"
  proof -
    show "stack_at demo_os 3 1" by (simp add: stack_at_def demo_procs_def demo_vmem_phys(3) npage_def)
    show "b = 1" if b: "stack_at demo_os 3 b" for b
      using b unat_page2pa [of b] unat_page2pa [of 1] by (simp add: stack_at_def demo_procs_def npage_def)
  qed
  have k: "\<forall>p\<in>set (demo_kids (cur demo_os)). p \<noteq> idleproc (osch demo_os) \<and> initproc demo_os \<noteq> Some p \<and>
      (zombie demo_os p \<longrightarrow> (\<exists>b. stack_at demo_os p b))"
    using st(1) by (auto simp: demo_kids_def demo_procs_def)
  have f: "find (zombie demo_os) (wanted 0 demo_os demo_kids) = Some 3"
    by (simp add: wanted_def demo_kids_def demo_procs_def)
  have ff: "ff_inv npage (phys (pgs (ovm demo_os)))" using demo_vmem_phys(2) by simp
  have m: "(0 :: u32) \<noteq> 0 \<longrightarrow> (\<exists>m. mm (oprocs demo_os (cur demo_os)) = Some m \<and> mm_ok (ovm demo_os) m)" by simp
  have c: "store_ok 0 demo_os" by (simp add: store_ok_def)
  obtain r s' where o: "do_wait 0 0 demo_os = Some (r, s')" "wait_outcome 0 0 demo_kids demo_os r s'"
    using conjunct1 [OF do_wait_exact [OF demo_os_inv ff k m, of 0 demo_ops]] c by auto
  then have rd: "r = Inl (0, None)" "reaped 3 demo_kids demo_os s'" using f by (simp_all add: wait_outcome_def)
  obtain b where r: "do_wait 0 0 demo_os = Some (r, s')" "r = Inl (0, None)"
    "proc_list (otbl s') = remove1 3 (proc_list (otbl demo_os))"
    "stack_at demo_os 3 b" "used (pgs (ovm s')) = used (pgs (ovm demo_os)) - {b, b + 1}"
    using o(1) rd unfolding reaped_def by blast
  have b: "b = 1" by (rule st(2) [OF r(4)])
  have "used (pgs (ovm s')) = {0, 1, 2} - {1, 1 + 1}" using r(5) unfolding b demo_os_sel(7) demo_vmem_phys(3) .
  also have "\<dots> = {0}" by auto
  finally have "used (pgs (ovm s')) = {0}" .
  then show ?thesis using r(1-3) by (intro exI [of _ s']) simp
qed
theorem do_exit_exact_witness:
  "\<exists>s'. do_exit demo_ops 7 demo_os = Some s' \<and> exit_code (oprocs s' 2) = 7 \<and> parent (oprocs s' 3) = Some 1 \<and>
     pstate (oprocs s' 1) = PROC_RUNNABLE \<and> pstate (oprocs s' 4) = PROC_SLEEPING \<and> cur s' \<noteq> 2"
proof -
  let ?s = "demo_os\<lparr>ofs := snd (fs_count_dec 0 (ofs demo_os))\<rparr>"
  have m: "exit_mm demo_os = Some demo_os"
    by (simp add: exit_mm_def demo_procs_def demo_proc_def)
  have f: "put_fs demo_ops (cur demo_os) demo_os = Some ?s"
    by (simp add: put_fs_def demo_procs_def) (simp add: demo_os_def fs_count_dec_def)
  have z: "\<forall>p. wait_state (oprocs demo_os p) = WT_CHILD \<longrightarrow> p \<noteq> cur demo_os \<and> pstate (oprocs demo_os p) \<noteq> PROC_ZOMBIE"
    by (auto simp: demo_procs_def)
  have h: "cur demo_os \<noteq> idleproc (osch demo_os)" "initproc demo_os = Some 1" "(1 :: nat) \<noteq> cur demo_os"
    "parent (oprocs demo_os 1) \<noteq> Some (cur demo_os)" "parent (oprocs demo_os (cur demo_os)) = Some 1"
    by (simp_all add: demo_procs_def demo_parent_def)
  have k: "3 \<in> set (demo_kids (cur demo_os))" "wait_state (oprocs demo_os 1) = WT_CHILD"
    by (simp_all add: demo_kids_def demo_procs_def)
  obtain s' where "do_exit demo_ops 7 demo_os = Some s'" "cur s' \<noteq> cur demo_os" "exit_code (oprocs s' (cur demo_os)) = 7"
    "\<forall>q. parent (oprocs s' q) = (if q \<in> set (demo_kids (cur demo_os)) then Some 1 else parent (oprocs demo_os q))"
    "\<forall>q. q \<noteq> cur demo_os \<longrightarrow>
       pstate (oprocs s' q) = (if exit_wakes demo_kids 1 1 demo_os q then PROC_RUNNABLE else pstate (oprocs demo_os q))"
    using do_exit_exact [OF demo_os_inv h(1-3) h(4) h(5) h(3) z m f, of 7] by blast
  moreover have "exit_wakes demo_kids 1 1 demo_os 1" "\<not> exit_wakes demo_kids 1 1 demo_os 4"
    using k by (simp_all add: exit_wakes_def)
  ultimately show ?thesis using k h(3) by (intro exI [of _ s']) (auto simp: demo_procs_def)
qed

theorem do_fork_thread_witness:
  "\<exists>r s'. do_fork demo_ops 0xbc000100 CLONE_FS 0 (tfs demo_os 2) demo_os = Some (r, s') \<and> 1 \<le> r \<and>
     find_proc r (oprocs s') (otbl s') = Some 9 \<and> pstate (oprocs s' 9) = PROC_RUNNABLE"
proof -
  have ff: "ff_inv npage (phys (pgs (ovm demo_os)))" using demo_vmem_phys(2) by simp
  have c: "can_share CLONE_FS demo_os"
    by (simp add: can_share_def demo_procs_def demo_proc_def CLONE_FS_def)
  have f: "fresh demo_os demo_kids 9"
    by (simp add: fresh_def demo_kids_def demo_procs_def)
  have n: "nr_process (otbl demo_os) < MAX_PROCESS" by (simp add: proc_limits)
  have "{3, 3 + 1} \<subseteq> free_set (phys (pgs (ovm demo_os)))" by (simp add: demo_vmem_phys(1))
  then have "\<not> (\<forall>b. \<not> {b, b + 1} \<subseteq> free_set (phys (pgs (ovm demo_os))))" by blast
  then show ?thesis
    using do_fork_thread [OF demo_os_inv ff c demo_os_sel(8) f n, of demo_ops "0xbc000100" 0 "tfs demo_os 2"] by metis
qed

end
