(* ===== verification/Slab.thy ===== *)
theory Slab
  imports Page_Map
begin

text \<open>
  The object allocator \<^verbatim>\<open>kmalloc\<close>/\<^verbatim>\<open>kfree\<close> (\<^verbatim>\<open>kern/mm/kmalloc.c\<close>) over the page allocator.  Kernel
  addresses are words; a cache is named by its index in \<^verbatim>\<open>slab_cache\<close>, a slab by the address of its
  \<^verbatim>\<open>slab_t\<close>, whose fields and trailing array \<^verbatim>\<open>slab_bufctl\<close> are kept in \<open>slab_at\<close>; the two pointers
  that \<^verbatim>\<open>SET_PAGE_CACHE\<close> and \<^verbatim>\<open>SET_PAGE_SLAB\<close> store in the free link of a page are \<open>page_cache\<close> and
  \<open>page_slab\<close>.  Counts and indices are natural numbers, bounded by the size of a slab.  An off-slab
  cache takes its control structures from another cache, so \<^verbatim>\<open>kmem_cache_alloc\<close> and
  \<^verbatim>\<open>kmem_cache_free\<close> call themselves through the routines below them; these get the recursive call as
  an argument and the recursion carries a depth, which \<open>slab_depth\<close> suffices for.
\<close>

definition BUFCTL_END :: nat where "BUFCTL_END = 0xFFFFFFFF"
definition SLAB_LIMIT :: nat where "SLAB_LIMIT = 0xFFFFFFFE"
definition MIN_SIZE_ORDER :: nat where "MIN_SIZE_ORDER = 5"
definition MAX_SIZE_ORDER :: nat where "MAX_SIZE_ORDER = 17"
definition SLAB_CACHE_NUM :: nat where "SLAB_CACHE_NUM = MAX_SIZE_ORDER - MIN_SIZE_ORDER + 1"
definition ALIGN_SHIFT :: nat where "ALIGN_SHIFT = 4"
definition KMALLOC_MAX_ORDER :: nat where "KMALLOC_MAX_ORDER = 10"
definition PG_slab :: nat where "PG_slab = 2"

lemma slab_limits: "SLAB_CACHE_NUM = 13" "MIN_SIZE_ORDER = 5" "MAX_SIZE_ORDER = 17"
  by (simp_all add: SLAB_CACHE_NUM_def MIN_SIZE_ORDER_def MAX_SIZE_ORDER_def)

record slab_t =
  s_mem :: u32
  inuse :: nat
  s_offset :: nat
  s_free :: nat
  bufctl :: "nat \<Rightarrow> nat"

definition sizeof_slab :: nat where "sizeof_slab = 24"

record kmem_cache =
  slabs_full :: "u32 list"
  slabs_notfull :: "u32 list"
  objsize :: nat
  objsize_shift :: nat
  num :: nat
  c_offset :: nat
  off_slab :: bool
  page_order :: nat
  slab_cachep :: "nat option"

record slab_state =
  smem :: vmem
  slab_cache :: "nat \<Rightarrow> kmem_cache"
  slab_at :: "u32 \<Rightarrow> slab_t"
  page_cache :: "nat \<Rightarrow> nat"
  page_slab :: "nat \<Rightarrow> u32"

definition mod_cache :: "nat \<Rightarrow> (kmem_cache \<Rightarrow> kmem_cache) \<Rightarrow> slab_state \<Rightarrow> slab_state" where
  "mod_cache c f s = s\<lparr>slab_cache := (slab_cache s)(c := f (slab_cache s c))\<rparr>"

definition mod_slab :: "u32 \<Rightarrow> (slab_t \<Rightarrow> slab_t) \<Rightarrow> slab_state \<Rightarrow> slab_state" where
  "mod_slab a f s = s\<lparr>slab_at := (slab_at s)(a := f (slab_at s a))\<rparr>"

definition mod_flags :: "nat \<Rightarrow> (u32 \<Rightarrow> u32) \<Rightarrow> slab_state \<Rightarrow> slab_state" where
  "mod_flags p f s = s\<lparr>smem := (smem s)\<lparr>phys := (phys (smem s))\<lparr>pages :=
     set_flags p (f (flags (pages (phys (smem s)) p))) (pages (phys (smem s)))\<rparr>\<rparr>\<rparr>"

definition PageSlab :: "nat \<Rightarrow> slab_state \<Rightarrow> bool" where
  "PageSlab p s = bit (flags (pages (phys (smem s)) p)) PG_slab"

definition SetPageSlab :: "nat \<Rightarrow> slab_state \<Rightarrow> slab_state" where
  "SetPageSlab p = mod_flags p (set_bit PG_slab)"

definition ClearPageSlab :: "nat \<Rightarrow> slab_state \<Rightarrow> slab_state" where
  "ClearPageSlab p = mod_flags p (unset_bit PG_slab)"

section \<open>The geometry of the caches\<close>

definition getorder :: "nat \<Rightarrow> nat option" where
  "getorder n = find (\<lambda>k. n \<le> 2 ^ k) [MIN_SIZE_ORDER..<MAX_SIZE_ORDER + 1]"

definition slab_mgmt_size :: "nat \<Rightarrow> nat" where
  "slab_mgmt_size n = unat (roundup_2n (of_nat (sizeof_slab + n * 4)) ALIGN_SHIFT)"

text \<open>\<^verbatim>\<open>__slab_div_table\<close> has one row of eight columns, of which four are given; reading outside is \<open>None\<close>.\<close>

definition slab_div_table :: "nat \<Rightarrow> nat \<Rightarrow> nat option" where
  "slab_div_table order i = (if order = 0 \<and> i < 8 then Some ([113, 59, 30, 15, 0, 0, 0, 0] ! i) else None)"

fun fit_objs :: "nat \<Rightarrow> nat \<Rightarrow> nat \<Rightarrow> nat" where
  "fit_objs slab_size sz 0 = 0"
| "fit_objs slab_size sz (Suc n) =
     (if slab_mgmt_size (Suc n) + Suc n * sz > slab_size then fit_objs slab_size sz n else Suc n)"

text \<open>The remainder and the number of objects.\<close>

definition cache_estimate :: "nat \<Rightarrow> nat \<Rightarrow> bool \<Rightarrow> (nat \<times> nat) option" where
  "cache_estimate order shift off = (
     let slab_size = 4096 * 2 ^ order;
         sz = 2 ^ shift
     in if off then
          (let nr_objs = slab_size div 2 ^ shift;
               nr_objs = (if nr_objs > SLAB_LIMIT then SLAB_LIMIT else nr_objs)
           in Some (slab_size - nr_objs * sz, nr_objs))
        else do {
          nr_objs \<leftarrow> slab_div_table order (shift - 5);
          let nr_objs = fit_objs slab_size sz nr_objs;
          let nr_objs = (if nr_objs > SLAB_LIMIT then SLAB_LIMIT else nr_objs);
          let mgmt_size = slab_mgmt_size nr_objs;
          Some (slab_size - nr_objs * sz - mgmt_size, nr_objs)
        })"

text \<open>The number of objects, the order and what is left over, or a panic.\<close>

fun calculate_slab_order :: "nat list \<Rightarrow> nat \<Rightarrow> bool \<Rightarrow> (nat \<times> nat \<times> nat) option" where
  "calculate_slab_order [] shift off = None"
| "calculate_slab_order (order # os) shift off = do {
     (remainder, n) \<leftarrow> cache_estimate order shift off;
     kassert (n \<noteq> 0 \<and> off \<longrightarrow> n \<le> (2 ^ shift - sizeof_slab) div 4);
     if n \<noteq> 0 \<and> remainder * 8 \<le> 4096 * 2 ^ order then Some (n, order, remainder)
     else calculate_slab_order os shift off
   }"

definition init_kmem_cache :: "nat \<Rightarrow> kmem_cache \<Rightarrow> kmem_cache option" where
  "init_kmem_cache sz c = do {
     let c = c\<lparr>slabs_full := [], slabs_notfull := []\<rparr>;
     let sz = unat (roundup_2n (of_nat sz) ALIGN_SHIFT);
     let c = c\<lparr>objsize := sz, off_slab := sz \<ge> 4096 div 8\<rparr>;
     shift \<leftarrow> getorder sz;
     let c = c\<lparr>objsize_shift := shift\<rparr>;
     (n, order, left_over) \<leftarrow> calculate_slab_order [0..<KMALLOC_MAX_ORDER + 1] shift (off_slab c);
     let c = c\<lparr>num := n, page_order := order\<rparr>;
     kassert (num c > 0);
     let mgmt_size = slab_mgmt_size (num c);
     let c = (if off_slab c \<and> left_over \<ge> mgmt_size then c\<lparr>off_slab := False\<rparr> else c);
     if off_slab c then do {
       k \<leftarrow> getorder mgmt_size;
       Some (c\<lparr>c_offset := 0, slab_cachep := Some (k - MIN_SIZE_ORDER)\<rparr>)
     } else Some (c\<lparr>c_offset := mgmt_size\<rparr>)
   }"

fun init_caches :: "nat list \<Rightarrow> slab_state \<Rightarrow> slab_state option" where
  "init_caches [] s = Some s"
| "init_caches (i # is) s = do {
     c \<leftarrow> init_kmem_cache (2 ^ (i + MIN_SIZE_ORDER)) (slab_cache s i);
     init_caches is (mod_cache i (\<lambda>_. c) s)
   }"

definition slab_init :: "slab_state \<Rightarrow> slab_state option" where
  "slab_init s = init_caches [0..<SLAB_CACHE_NUM] s"

section \<open>Allocation\<close>

type_synonym cache_alloc = "nat \<Rightarrow> slab_state \<Rightarrow> (u32 option \<times> slab_state) option"
type_synonym cache_free = "nat \<Rightarrow> u32 \<Rightarrow> slab_state \<Rightarrow> slab_state option"

definition kmem_cache_slabmgmt :: "cache_alloc \<Rightarrow> nat \<Rightarrow> nat \<Rightarrow> slab_state \<Rightarrow> (u32 option \<times> slab_state) option" where
  "kmem_cache_slabmgmt alloc c page s = do {
     objp \<leftarrow> page2kva page;
     (slabp, s) \<leftarrow> (if off_slab (slab_cache s c) then do { k \<leftarrow> slab_cachep (slab_cache s c); alloc k s }
                  else Some (Some objp, s));
     (case slabp of
        None \<Rightarrow> Some (None, s)
      | Some a \<Rightarrow>
          let off = c_offset (slab_cache s c)
          in Some (Some a, mod_slab a (\<lambda>d. d\<lparr>inuse := 0, s_offset := off, s_mem := objp + of_nat off\<rparr>) s))
   }"

fun mark_pages :: "nat \<Rightarrow> nat \<Rightarrow> nat \<Rightarrow> u32 \<Rightarrow> slab_state \<Rightarrow> slab_state" where
  "mark_pages page 0 c a s = s"
| "mark_pages page (Suc n) c a s =
     mark_pages (Suc page) n c a
       (SetPageSlab page (s\<lparr>page_cache := (page_cache s)(page := c), page_slab := (page_slab s)(page := a)\<rparr>))"

definition kmem_cache_grow :: "cache_alloc \<Rightarrow> nat \<Rightarrow> slab_state \<Rightarrow> (bool \<times> slab_state) option" where
  "kmem_cache_grow alloc c s = do {
     (page, m) \<leftarrow> alloc_pages (2 ^ page_order (slab_cache s c)) (smem s);
     let s = s\<lparr>smem := m\<rparr>;
     (case page of
        None \<Rightarrow> Some (False, s)
      | Some p \<Rightarrow> do {
          (slabp, s) \<leftarrow> kmem_cache_slabmgmt alloc c p s;
          (case slabp of
             None \<Rightarrow> do {
               m \<leftarrow> free_pages p (2 ^ page_order (slab_cache s c)) (smem s);
               Some (False, s\<lparr>smem := m\<rparr>)
             }
           | Some a \<Rightarrow>
               let s = mark_pages p (2 ^ page_order (slab_cache s c)) c a s;
                   n = num (slab_cache s c);
                   s = mod_slab a (\<lambda>d. d\<lparr>bufctl := foldl (\<lambda>b i. b(i := i + 1)) (bufctl d) [0..<n]\<rparr>) s;
                   s = mod_slab a (\<lambda>d. d\<lparr>bufctl := (bufctl d)(n - 1 := BUFCTL_END), s_free := 0\<rparr>) s
               in Some (True, mod_cache c (\<lambda>d. d\<lparr>slabs_notfull := a # slabs_notfull d\<rparr>) s))
        })
   }"

definition kmem_cache_alloc_one :: "nat \<Rightarrow> u32 \<Rightarrow> slab_state \<Rightarrow> u32 \<times> slab_state" where
  "kmem_cache_alloc_one c a s =
     (let s = mod_slab a (\<lambda>d. d\<lparr>inuse := inuse d + 1\<rparr>) s;
          objp = s_mem (slab_at s a) + of_nat (s_free (slab_at s a) * objsize (slab_cache s c));
          s = mod_slab a (\<lambda>d. d\<lparr>s_free := bufctl d (s_free d)\<rparr>) s
      in (objp, if s_free (slab_at s a) = BUFCTL_END
          then mod_cache c (\<lambda>d. d\<lparr>slabs_notfull := remove1 a (slabs_notfull d), slabs_full := a # slabs_full d\<rparr>) s
          else s))"

fun kmem_cache_alloc :: "nat \<Rightarrow> cache_alloc" where
  "kmem_cache_alloc 0 c s = None"
| "kmem_cache_alloc (Suc k) c s = (case slabs_notfull (slab_cache s c) of
     a # _ \<Rightarrow> (case kmem_cache_alloc_one c a s of (objp, s) \<Rightarrow> Some (Some objp, s))
   | [] \<Rightarrow> do {
       (ok, s) \<leftarrow> kmem_cache_grow (kmem_cache_alloc k) c s;
       if ok then kmem_cache_alloc k c s else Some (None, s)
     })"

definition slab_depth :: nat where "slab_depth = 3"

definition kmalloc :: "nat \<Rightarrow> slab_state \<Rightarrow> (u32 option \<times> slab_state) option" where
  "kmalloc n s = do {
     kassert (n > 0);
     order \<leftarrow> getorder n;
     if order > MAX_SIZE_ORDER then Some (None, s)
     else kmem_cache_alloc slab_depth (order - MIN_SIZE_ORDER) s
   }"

section \<open>Release\<close>

fun unmark_pages :: "nat \<Rightarrow> nat \<Rightarrow> slab_state \<Rightarrow> slab_state option" where
  "unmark_pages p 0 s = Some s"
| "unmark_pages p (Suc n) s = do { kassert (PageSlab p s); unmark_pages (Suc p) n (ClearPageSlab p s) }"

definition kmem_slab_destroy :: "cache_free \<Rightarrow> nat \<Rightarrow> u32 \<Rightarrow> slab_state \<Rightarrow> slab_state option" where
  "kmem_slab_destroy free c a s = do {
     page \<leftarrow> kva2page (s_mem (slab_at s a) - of_nat (s_offset (slab_at s a)));
     s \<leftarrow> unmark_pages page (2 ^ page_order (slab_cache s c)) s;
     m \<leftarrow> free_pages page (2 ^ page_order (slab_cache s c)) (smem s);
     let s = s\<lparr>smem := m\<rparr>;
     if off_slab (slab_cache s c) then do { k \<leftarrow> slab_cachep (slab_cache s c); free k a s } else Some s
   }"

text \<open>\<^verbatim>\<open>list_del\<close> takes the slab out of whichever list links it.\<close>

definition slab_unlink :: "u32 \<Rightarrow> kmem_cache \<Rightarrow> kmem_cache" where
  "slab_unlink a d = d\<lparr>slabs_full := remove1 a (slabs_full d), slabs_notfull := remove1 a (slabs_notfull d)\<rparr>"

definition kmem_cache_free_one :: "cache_free \<Rightarrow> nat \<Rightarrow> u32 \<Rightarrow> u32 \<Rightarrow> slab_state \<Rightarrow> slab_state option" where
  "kmem_cache_free_one free c a objp s =
     (let objnr = unat (drop_bit (objsize_shift (slab_cache s c)) (objp - s_mem (slab_at s a)));
          s = mod_slab a (\<lambda>d. d\<lparr>bufctl := (bufctl d)(objnr := s_free d)\<rparr>) s;
          s = mod_slab a (\<lambda>d. d\<lparr>s_free := objnr\<rparr>) s;
          s = mod_slab a (\<lambda>d. d\<lparr>inuse := inuse d - 1\<rparr>) s
      in if inuse (slab_at s a) = 0 then kmem_slab_destroy free c a (mod_cache c (slab_unlink a) s)
         else if inuse (slab_at s a) = num (slab_cache s c) - 1
         then Some (mod_cache c (\<lambda>d. d\<lparr>slabs_notfull := a # slabs_notfull d\<rparr>) (mod_cache c (slab_unlink a) s))
         else Some s)"

fun kmem_cache_free :: "nat \<Rightarrow> cache_free" where
  "kmem_cache_free 0 c objp s = None"
| "kmem_cache_free (Suc k) c objp s = do {
     page \<leftarrow> kva2page objp;
     kassert (PageSlab page s);
     kmem_cache_free_one (kmem_cache_free k) c (page_slab s page) objp s
   }"

definition kfree :: "u32 \<Rightarrow> slab_state \<Rightarrow> slab_state option" where
  "kfree objp s = do { page \<leftarrow> kva2page objp; kmem_cache_free slab_depth (page_cache s page) objp s }"

section \<open>Accounting\<close>

definition slab_allocated :: "slab_state \<Rightarrow> nat" where
  "slab_allocated s = sum_list (map (\<lambda>i. let c = slab_cache s i in
     length (slabs_full c) * (num c * objsize c) +
     sum_list (map (\<lambda>a. inuse (slab_at s a) * objsize c) (slabs_notfull c))) [0..<SLAB_CACHE_NUM])"

section \<open>The geometry is sound\<close>

text \<open>What \<^verbatim>\<open>init_kmem_cache\<close> computes for cache \<open>c\<close>: objects, order, offset and control cache.\<close>

definition geometry :: "nat \<Rightarrow> nat \<times> nat \<times> nat \<times> nat option" where
  "geometry c = (
     if c < 4 then ([113, 59, 30, 15] ! c, 0, [480, 272, 144, 96] ! c, None)
     else if c < 7 then (2 ^ (7 - c), 0, 0, Some (if c < 6 then 1 else 0))
     else (1, c - 7, 0, Some 0))"

lemma less_13: "(c :: nat) < 13 \<longleftrightarrow> c \<in> {0, 1, 2, 3, 4, 5, 6, 7, 8, 9, 10, 11, 12}"
proof
  assume "c < 13"
  then have "c \<in> set [0..<13]" by simp
  then show "c \<in> {0, 1, 2, 3, 4, 5, 6, 7, 8, 9, 10, 11, 12}" by (simp add: upt_conv_Cons numeral_eq_Suc)
qed auto

lemma orders: "[0..<11] = [0, 1, 2, 3, 4, 5, 6, 7, 8, 9, 10]" by (simp add: upt_conv_Cons)

lemma size_orders: "[5..<18] = [5, 6, 7, 8, 9, 10, 11, 12, 13, 14, 15, 16, 17]" by (simp add: upt_conv_Cons)

lemma mgmt_size:
  assumes "n < 1000" shows "slab_mgmt_size n = (24 + 4 * n + 15) div 16 * 16"
proof -
  have u: "unat (of_nat (24 + n * 4) :: u32) = 24 + 4 * n"
    using assms by (simp only: unsigned_of_nat) (simp add: take_bit_nat_eq_self)
  show ?thesis
    unfolding slab_mgmt_size_def sizeof_slab_def ALIGN_SHIFT_def
    by (subst unat_roundup) (use assms u in simp_all)
qed

lemma mgmt_pos: "n < 1000 \<Longrightarrow> 0 < slab_mgmt_size n"
  using div_le_mono [of 16 "24 + 4 * n + 15" 16] by (simp add: mgmt_size)

lemma fit_objs_all: "slab_mgmt_size n + n * sz \<le> m \<Longrightarrow> fit_objs m sz n = n"
  by (cases n) auto

text \<open>The number of objects, the order and what is left over, for every cache.\<close>

lemma slab_order_small:
  assumes "c < 4"
  shows "calculate_slab_order [0..<11] (c + 5) False = Some ([113, 59, 30, 15] ! c, 0, [0, 48, 112, 160] ! c)"
    "slab_mgmt_size ([113, 59, 30, 15] ! c) = [480, 272, 144, 96] ! c"
proof -
  have "c = 0 \<or> c = 1 \<or> c = 2 \<or> c = 3" using assms by auto
  then show "calculate_slab_order [0..<11] (c + 5) False = Some ([113, 59, 30, 15] ! c, 0, [0, 48, 112, 160] ! c)"
    "slab_mgmt_size ([113, 59, 30, 15] ! c) = [480, 272, 144, 96] ! c"
    unfolding orders
    by (elim disjE; simp add: cache_estimate_def slab_div_table_def mgmt_size fit_objs_all SLAB_LIMIT_def sizeof_slab_def)+
qed

lemma slab_order_big:
  assumes "4 \<le> c" "c < 13"
  shows "calculate_slab_order [0..<11] (c + 5) True = Some (if c < 7 then 2 ^ (7 - c) else 1, c - 7, 0)"
    "getorder (slab_mgmt_size (if c < 7 then 2 ^ (7 - c) else 1)) = Some (if c < 6 then 6 else 5)"
proof -
  have "c = 4 \<or> c = 5 \<or> c = 6 \<or> c = 7 \<or> c = 8 \<or> c = 9 \<or> c = 10 \<or> c = 11 \<or> c = 12"
    using assms less_13 [of c] by auto
  then show "calculate_slab_order [0..<11] (c + 5) True = Some (if c < 7 then 2 ^ (7 - c) else 1, c - 7, 0)"
    "getorder (slab_mgmt_size (if c < 7 then 2 ^ (7 - c) else 1)) = Some (if c < 6 then 6 else 5)"
    unfolding orders
    by (elim disjE; simp add: cache_estimate_def mgmt_size getorder_def slab_limits size_orders SLAB_LIMIT_def sizeof_slab_def)+
qed

lemma getorder_pow: "c < 13 \<Longrightarrow> getorder (2 ^ (c + 5)) = Some (c + 5)"
  unfolding less_13 by (elim insertE; simp add: getorder_def slab_limits size_orders)

lemma init_cache:
  assumes "c < 13"
  shows "\<exists>n o' off k. geometry c = (n, o', off, k) \<and> init_kmem_cache (2 ^ (c + 5)) d = Some (d\<lparr>slabs_full := [], slabs_notfull := [],
     objsize := 2 ^ (c + 5), objsize_shift := c + 5, num := n, c_offset := off, off_slab := k \<noteq> None,
     page_order := o', slab_cachep := (if k = None then slab_cachep d else k)\<rparr>)"
proof -
  have sz: "unat (roundup_2n (of_nat (2 ^ (c + 5))) ALIGN_SHIFT) = 2 ^ (c + 5)"
    using assms unfolding less_13 by (elim insertE; simp add: roundup_2n_def unat_rounddown ALIGN_SHIFT_def)
  have big: "4096 div 8 \<le> (2 :: nat) ^ (c + 5) \<longleftrightarrow> 4 \<le> c"
    using assms unfolding less_13 by (elim insertE; simp)
  have k: "[0..<KMALLOC_MAX_ORDER + 1] = [0..<11]" by (simp add: KMALLOC_MAX_ORDER_def)
  note init = init_kmem_cache_def [of "2 ^ (c + 5)" d, unfolded Let_def sz k getorder_pow [OF assms] big]
  show ?thesis
  proof (cases "c < 4")
    case True
    have "c = 0 \<or> c = 1 \<or> c = 2 \<or> c = 3" using True by auto
    then have "[113, 59, 30, 15] ! c > (0 :: nat)" by (elim disjE; simp)
    then show ?thesis
      using True slab_order_small [OF True] unfolding init by (simp add: geometry_def)
  next
    case False
    have "(2 :: nat) ^ (7 - c) \<le> 2 ^ 7" by (rule power_increasing) simp_all
    moreover define n where "n = (if c < 7 then 2 ^ (7 - c) else 1 :: nat)"
    ultimately have pos: "0 < slab_mgmt_size n" "0 < n" by (auto intro: mgmt_pos)
    have f: "4 \<le> c" using False by simp
    note so = slab_order_big [OF f assms, folded n_def]
    have g: "geometry c = (n, c - 7, 0, Some (if c < 6 then 1 else 0))"
      using f by (simp add: geometry_def n_def)
    have m: "(if c < 6 then 6 else 5) - MIN_SIZE_ORDER = (if c < 6 then 1 else 0)" by (simp add: slab_limits)
    show ?thesis unfolding init g using f pos by (simp add: so m [simplified])
  qed
qed

end
