(* ===== verification/Slab_Inv.thy ===== *)
theory Slab_Inv
  imports Slab
begin

text \<open>
  The invariant of the slab allocator: every slab of every cache owns its pages, its control
  structure describes them, and the array of indices is the list of its free objects.  From it
  follow which objects are live, who owns them and that no two overlap.
\<close>

section \<open>Objects of a slab\<close>

fun chain :: "(nat \<Rightarrow> nat) \<Rightarrow> nat \<Rightarrow> nat list \<Rightarrow> bool" where
  "chain b f [] \<longleftrightarrow> f = BUFCTL_END"
| "chain b f (x # xs) \<longleftrightarrow> f = x \<and> chain b (b x) xs"

fun chain_of :: "(nat \<Rightarrow> nat) \<Rightarrow> nat \<Rightarrow> nat \<Rightarrow> nat list" where
  "chain_of b 0 f = []"
| "chain_of b (Suc n) f = f # chain_of b n (b f)"

definition frees :: "slab_state \<Rightarrow> nat \<Rightarrow> u32 \<Rightarrow> nat list" where
  "frees s c a = chain_of (bufctl (slab_at s a)) (num (slab_cache s c) - inuse (slab_at s a)) (s_free (slab_at s a))"

definition head :: "slab_state \<Rightarrow> u32 \<Rightarrow> nat" where
  "head s a = PPN (s_mem (slab_at s a) - of_nat (s_offset (slab_at s a)))"

definition pages_of :: "slab_state \<Rightarrow> nat \<Rightarrow> u32 \<Rightarrow> nat set" where
  "pages_of s c a = {head s a..<head s a + 2 ^ page_order (slab_cache s c)}"

definition obj :: "slab_state \<Rightarrow> nat \<Rightarrow> u32 \<Rightarrow> nat \<Rightarrow> u32" where
  "obj s c a i = s_mem (slab_at s a) + of_nat (i * objsize (slab_cache s c))"

definition objs :: "slab_state \<Rightarrow> nat \<Rightarrow> u32 \<Rightarrow> u32 set" where
  "objs s c a = obj s c a ` ({..<num (slab_cache s c)} - set (frees s c a))"

definition slabs :: "slab_state \<Rightarrow> nat \<Rightarrow> u32 set" where
  "slabs s c = set (slabs_full (slab_cache s c)) \<union> set (slabs_notfull (slab_cache s c))"

definition slab_live :: "slab_state \<Rightarrow> u32 set" where
  "slab_live s = (\<Union>c<SLAB_CACHE_NUM. \<Union>a\<in>slabs s c. objs s c a)"

text \<open>The objects that are control structures of other slabs, and the others.\<close>

definition ctrl :: "slab_state \<Rightarrow> u32 set" where
  "ctrl s = (\<Union>c\<in>{c. c < SLAB_CACHE_NUM \<and> off_slab (slab_cache s c)}. slabs s c)"

definition user :: "slab_state \<Rightarrow> u32 set" where
  "user s = slab_live s - ctrl s"

definition slab_pages :: "slab_state \<Rightarrow> nat set" where
  "slab_pages s = (\<Union>c<SLAB_CACHE_NUM. \<Union>a\<in>slabs s c. pages_of s c a)"

text \<open>The frames in use for other purposes.\<close>

definition outside :: "slab_state \<Rightarrow> nat set" where
  "outside s = used (smem s) - slab_pages s"

section \<open>The invariant\<close>

definition cache_ok :: "nat \<Rightarrow> kmem_cache \<Rightarrow> bool" where
  "cache_ok c k \<longleftrightarrow> objsize k = 2 ^ (c + 5) \<and> objsize_shift k = c + 5 \<and> 0 < num k \<and> num k \<le> 113 \<and>
     c_offset k + num k * 2 ^ (c + 5) \<le> 4096 * 2 ^ page_order k \<and> page_order k \<le> 5 \<and> (off_slab k \<longleftrightarrow> 4 \<le> c) \<and>
     (off_slab k \<longrightarrow> (\<exists>j<4. slab_cachep k = Some j \<and> sizeof_slab + 4 * num k \<le> 2 ^ (j + 5))) \<and>
     (\<not> off_slab k \<longrightarrow> sizeof_slab + 4 * num k \<le> c_offset k \<and> page_order k = 0)"

definition slab_ok :: "slab_state \<Rightarrow> nat \<Rightarrow> u32 \<Rightarrow> bool" where
  "slab_ok s c a \<longleftrightarrow> (let d = slab_at s a; k = slab_cache s c; p = head s a; xs = frees s c a in
     s_offset d = c_offset k \<and> s_mem d = page2pa p + of_nat (c_offset k) \<and> p + 2 ^ page_order k \<le> npage \<and>
     inuse d \<le> num k \<and> chain (bufctl d) (s_free d) xs \<and> distinct xs \<and> set xs \<subseteq> {..<num k} \<and>
     (\<forall>q\<in>pages_of s c a. q \<in> used (smem s) \<and> PageSlab q s \<and> page_cache s q = c \<and> page_slab s q = a) \<and>
     (\<not> off_slab k \<longrightarrow> a = page2pa p))"

text \<open>\<open>E\<close> are the slabs that may be empty for the moment.\<close>

definition slab_inv :: "u32 set \<Rightarrow> slab_state \<Rightarrow> bool" where
  "slab_inv E s \<longleftrightarrow> ff_inv npage (phys (smem s)) \<and>
     (\<forall>c<SLAB_CACHE_NUM. cache_ok c (slab_cache s c) \<and>
        distinct (slabs_full (slab_cache s c) @ slabs_notfull (slab_cache s c)) \<and>
        (\<forall>a\<in>slabs s c. slab_ok s c a \<and> (a \<in> E \<or> 0 < inuse (slab_at s a)) \<and>
           (frees s c a = [] \<longleftrightarrow> a \<in> set (slabs_full (slab_cache s c))))) \<and>
     (\<forall>c<SLAB_CACHE_NUM. \<forall>j. off_slab (slab_cache s c) \<longrightarrow> slab_cachep (slab_cache s c) = Some j \<longrightarrow>
        (\<forall>a\<in>slabs s c. \<exists>a'\<in>slabs s j. a \<in> objs s j a'))"

lemma chain_length: "length (chain_of b n f) = n"
  by (induction n arbitrary: f) auto

lemma chain_upd: "x \<notin> set xs \<Longrightarrow> chain (b(x := v)) f xs = chain b f xs"
  by (induction xs arbitrary: f) auto

lemma chain_of_upd: "x \<notin> set (chain_of b n f) \<Longrightarrow> chain_of (b(x := v)) n f = chain_of b n f"
  by (induction n arbitrary: f) auto

lemma slab_invD:
  assumes "slab_inv E s" "c < 13"
  shows "cache_ok c (slab_cache s c)" "distinct (slabs_full (slab_cache s c) @ slabs_notfull (slab_cache s c))"
    "a \<in> slabs s c \<Longrightarrow> slab_ok s c a" "a \<in> slabs s c \<Longrightarrow> a \<in> E \<or> 0 < inuse (slab_at s a)"
    "a \<in> slabs s c \<Longrightarrow> frees s c a = [] \<longleftrightarrow> a \<in> set (slabs_full (slab_cache s c))"
    "off_slab (slab_cache s c) \<Longrightarrow> slab_cachep (slab_cache s c) = Some j \<Longrightarrow> a \<in> slabs s c \<Longrightarrow>
      \<exists>a'\<in>slabs s j. a \<in> objs s j a'"
proof -
  have i: "cache_ok c (slab_cache s c) \<and> distinct (slabs_full (slab_cache s c) @ slabs_notfull (slab_cache s c)) \<and>
      (\<forall>a\<in>slabs s c. slab_ok s c a \<and> (a \<in> E \<or> 0 < inuse (slab_at s a)) \<and>
         (frees s c a = [] \<longleftrightarrow> a \<in> set (slabs_full (slab_cache s c))))"
    and j: "\<forall>j. off_slab (slab_cache s c) \<longrightarrow> slab_cachep (slab_cache s c) = Some j \<longrightarrow>
        (\<forall>a\<in>slabs s c. \<exists>a'\<in>slabs s j. a \<in> objs s j a')"
    using assms unfolding slab_inv_def slab_limits by simp_all
  show "cache_ok c (slab_cache s c)" "distinct (slabs_full (slab_cache s c) @ slabs_notfull (slab_cache s c))"
    using i by simp_all
  show "slab_ok s c a" "a \<in> E \<or> 0 < inuse (slab_at s a)" "frees s c a = [] \<longleftrightarrow> a \<in> set (slabs_full (slab_cache s c))"
    if "a \<in> slabs s c" using i that by simp_all
  show "\<exists>a'\<in>slabs s j. a \<in> objs s j a'"
    if "off_slab (slab_cache s c)" "slab_cachep (slab_cache s c) = Some j" "a \<in> slabs s c"
    using j that by blast
qed

lemma slab_okD:
  assumes "slab_ok s c a"
  shows "s_offset (slab_at s a) = c_offset (slab_cache s c)"
    "s_mem (slab_at s a) = page2pa (head s a) + of_nat (c_offset (slab_cache s c))"
    "head s a + 2 ^ page_order (slab_cache s c) \<le> npage" "inuse (slab_at s a) \<le> num (slab_cache s c)"
    "chain (bufctl (slab_at s a)) (s_free (slab_at s a)) (frees s c a)" "distinct (frees s c a)"
    "set (frees s c a) \<subseteq> {..<num (slab_cache s c)}"
    "q \<in> pages_of s c a \<Longrightarrow> q \<in> used (smem s) \<and> PageSlab q s \<and> page_cache s q = c \<and> page_slab s q = a"
    "\<not> off_slab (slab_cache s c) \<Longrightarrow> a = page2pa (head s a)"
  using assms unfolding slab_ok_def Let_def by simp_all

lemma cache_okD:
  assumes "cache_ok c k"
  shows "objsize k = 2 ^ (c + 5)" "objsize_shift k = c + 5" "0 < num k" "num k \<le> 113"
    "c_offset k + num k * 2 ^ (c + 5) \<le> 4096 * 2 ^ page_order k" "off_slab k \<longleftrightarrow> 4 \<le> c"
    "off_slab k \<Longrightarrow> \<exists>j<4. slab_cachep k = Some j" "\<not> off_slab k \<Longrightarrow> sizeof_slab + 4 * num k \<le> c_offset k"
    "\<not> off_slab k \<Longrightarrow> page_order k = 0"
    "off_slab k \<Longrightarrow> slab_cachep k = Some j \<Longrightarrow> sizeof_slab + 4 * num k \<le> 2 ^ (j + 5)"
    "page_order k \<le> 5"
  using assms unfolding cache_ok_def by auto

section \<open>Addresses\<close>

lemma unat_in_pages:
  assumes "x < 4096 * n" "p + n \<le> npage"
  shows "unat (page2pa p + of_nat x) = 0xbc000000 + p * 4096 + x"
proof -
  have b: "x < 16777216" "p < npage" using assms by (auto simp: npage_def)
  then have "unat (of_nat x :: u32) = x" by (simp only: unsigned_of_nat) (simp add: take_bit_nat_eq_self)
  then show ?thesis using unat_page2pa [OF b(2)] assms by (subst unat_add_u32) (simp_all add: npage_def)
qed

lemma kva2page_in_pages:
  assumes "x < 4096 * n" "p + n \<le> npage"
  shows "kva2page (page2pa p + of_nat x) = Some (p + x div 4096)"
proof -
  let ?o = "page2pa p + of_nat x :: u32"
  note u = unat_in_pages [OF assms]
  have le: "KMEMBASE \<le> ?o" using u by (simp add: word_le_nat_alt unat_KMEMBASE)
  have "unat (?o - KMEMBASE) = p * 4096 + x" using u le by (subst unat_sub_u32) (simp_all add: unat_KMEMBASE)
  then have "PPN ?o = p + x div 4096" by (simp add: PPN_def unat_shiftr)
  moreover have "x div 4096 < n" using assms(1) by (simp add: less_mult_imp_div_less mult.commute)
  ultimately show ?thesis using le assms(2) by (simp add: kva2page_def PADDR_def pa2page_def)
qed

lemma in_pages_inj:
  assumes "x < 4096 * n" "p + n \<le> npage" "x' < 4096 * n'" "p' + n' \<le> npage"
    "page2pa p + of_nat x = page2pa p' + of_nat x'"
  shows "p * 4096 + x = p' * 4096 + x'"
  using unat_in_pages [OF assms(1,2)] unat_in_pages [OF assms(3,4)] assms(5) by simp

section \<open>The frames of a slab\<close>

definition slab_bit :: "vmem \<Rightarrow> nat \<Rightarrow> bool" where
  "slab_bit m q = bit (flags (pages (phys m) q)) PG_slab"

lemma PageSlab_bit: "PageSlab q s = slab_bit (smem s) q"
  by (simp add: PageSlab_def slab_bit_def)

lemma property_keeps_slab:
  "bit (flags (SetPageProperty p pg x)) PG_slab = bit (flags (pg x)) PG_slab"
  "bit (flags (ClearPageProperty p pg x)) PG_slab = bit (flags (pg x)) PG_slab"
  by (simp_all add: SetPageProperty_def ClearPageProperty_def PG_slab_def PG_property_def bit_set_bit_iff bit_unset_bit_iff)

lemma alloc_keeps_slab:
  "default_alloc_pages n s = Some (r, s') \<Longrightarrow> bit (flags (pages s' x)) PG_slab = bit (flags (pages s x)) PG_slab"
  by (auto simp: default_alloc_pages_def Let_def property_keeps_slab split: if_splits option.splits)

lemma free_reset_slab:
  "free_reset b n pg = Some pg' \<Longrightarrow> x < b \<or> b + n \<le> x \<Longrightarrow> flags (pg' x) = flags (pg x)"
  by (induction b n pg arbitrary: pg' rule: free_reset.induct) (auto split: if_splits)

lemma merge_loop_slab: "bit (flags (fst (merge_loop le pg fl base) x)) PG_slab = bit (flags (pg x)) PG_slab"
  by (induction le arbitrary: pg fl base) (auto simp: property_keeps_slab)

lemma free_keeps_slab:
  assumes "default_free_pages b n s = Some s'" "x < b \<or> b + n \<le> x"
  shows "bit (flags (pages s' x)) PG_slab = bit (flags (pages s x)) PG_slab"
proof -
  obtain pg where pg: "free_reset b n (pages s) = Some pg"
    using assms(1) by (cases "free_reset b n (pages s)") (auto simp: default_free_pages_def split: if_splits)
  let ?m = "merge_loop (free_list s) (SetPageProperty b (set_property b n pg)) (free_list s) b"
  obtain pg2 fl c where m: "?m = (pg2, fl, c)" by (cases ?m)
  have "pages s' = pg2"
    using assms(1) pg m by (auto simp: default_free_pages_def bind_eq_Some_conv split: if_splits)
  then have s': "pages s' = fst ?m" by (simp add: m)
  show ?thesis using free_reset_slab [OF pg assms(2)] by (simp add: s' merge_loop_slab property_keeps_slab)
qed

lemma alloc_run_ok:
  assumes "ff_inv npage (phys m)" "0 < n"
  shows "\<exists>r m'. alloc_pages n m = Some (r, m') \<and> ff_inv npage (phys m') \<and> slab_bit m' = slab_bit m \<and>
    (case r of None \<Rightarrow> m' = m \<and> (\<forall>b. \<not> {b..<b + n} \<subseteq> free_set (phys m))
     | Some p \<Rightarrow> p + n \<le> npage \<and> {p..<p + n} \<inter> used m = {} \<and> used m' = used m \<union> {p..<p + n} \<and>
         free_set (phys m') = free_set (phys m) - {p..<p + n})"
proof -
  obtain r ph where a: "default_alloc_pages n (phys m) = Some (r, ph)" "ff_inv npage ph"
    "usable npage ph = usable npage (phys m)"
    "case r of None \<Rightarrow> ph = phys m \<and> (\<forall>b. \<not> {b..<b + n} \<subseteq> free_set (phys m))
     | Some b \<Rightarrow> {b..<b + n} \<subseteq> free_set (phys m) \<and> free_set ph = free_set (phys m) - {b..<b + n} \<and>
         (\<forall>c. {c..<c + n} \<subseteq> free_set (phys m) \<longrightarrow> b \<le> c)"
    using ff.alloc_law [OF assms] by auto
  have u: "usable npage (phys m) x" if "x \<in> free_set (phys m)" for x
    using ff.free_usable [OF assms(1) that] .
  have "alloc_pages n m = Some (r, m\<lparr>phys := ph\<rparr>)" using a(1) by (simp add: alloc_pages_def)
  moreover have "slab_bit (m\<lparr>phys := ph\<rparr>) = slab_bit m"
    using alloc_keeps_slab [OF a(1)] by (simp add: slab_bit_def fun_eq_iff)
  moreover have "case r of None \<Rightarrow> m\<lparr>phys := ph\<rparr> = m \<and> (\<forall>b. \<not> {b..<b + n} \<subseteq> free_set (phys m))
     | Some p \<Rightarrow> p + n \<le> npage \<and> {p..<p + n} \<inter> used m = {} \<and> used (m\<lparr>phys := ph\<rparr>) = used m \<union> {p..<p + n} \<and>
         free_set (phys (m\<lparr>phys := ph\<rparr>)) = free_set (phys m) - {p..<p + n}"
  proof (cases r)
    case (Some p)
    then have f: "{p..<p + n} \<subseteq> free_set (phys m)" "free_set ph = free_set (phys m) - {p..<p + n}" using a(4) by auto
    have "usable npage (phys m) (p + n - 1)" using f(1) assms(2) by (intro u) auto
    then have "p + n - 1 < npage" by (simp add: usable_def)
    then have "p + n \<le> npage" using assms(2) by linarith
    then show ?thesis using Some f u a(3) by (auto simp: used_def)
  qed (use a(4) in simp)
  ultimately show ?thesis using a(2) by (auto split: option.splits)
qed

lemma free_run_ok:
  assumes "ff_inv npage (phys m)" "0 < n" "{p..<p + n} \<subseteq> used m"
  shows "\<exists>m'. free_pages p n m = Some m' \<and> ff_inv npage (phys m') \<and> used m' = used m - {p..<p + n} \<and>
    (\<forall>q. q \<notin> {p..<p + n} \<longrightarrow> slab_bit m' q = slab_bit m q)"
proof -
  have "{p..<p + n} \<inter> free_set (phys m) = {}" "\<forall>x\<in>{p..<p + n}. usable npage (phys m) x"
    using assms(3) unfolding used_def by blast+
  then obtain ph where ph: "default_free_pages p n (phys m) = Some ph" "ff_inv npage ph"
    "usable npage ph = usable npage (phys m)" "free_set ph = free_set (phys m) \<union> {p..<p + n}"
    using ff.free_law [OF assms(1,2), of p] by auto
  have "slab_bit (m\<lparr>phys := ph\<rparr>) q = slab_bit m q" if "q \<notin> {p..<p + n}" for q
    using free_keeps_slab [OF ph(1), of q] that by (auto simp: slab_bit_def)
  moreover have "used (m\<lparr>phys := ph\<rparr>) = used m - {p..<p + n}" 
    unfolding used_def by (simp add: ph(3,4) del: atLeastLessThan_iff) blast
  ultimately show ?thesis using ph(1,2) by (intro exI [of _ "m\<lparr>phys := ph\<rparr>"]) (simp add: free_pages_def)
qed

text \<open>Marking a page touches its slab bit and its two pointers only.\<close>

definition flag_only :: "slab_state \<Rightarrow> slab_state \<Rightarrow> bool" where
  "flag_only s s' \<longleftrightarrow> slab_cache s' = slab_cache s \<and> slab_at s' = slab_at s \<and>
     ff_inv npage (phys (smem s')) = ff_inv npage (phys (smem s)) \<and> used (smem s') = used (smem s)"

lemma flag_only_trans: "flag_only a b \<Longrightarrow> flag_only b c \<Longrightarrow> flag_only a c"
  by (simp add: flag_only_def)

lemma flag_irrelevant:
  assumes "\<And>x. bit (f x) PG_reserved = bit x PG_reserved" "\<And>x. bit (f x) PG_property = bit x PG_property"
  shows "flag_only s (mod_flags p f s)"
proof -
  let ?ph = "phys (smem s)"
  let ?ph' = "?ph\<lparr>pages := set_flags p (f (flags (pages ?ph p))) (pages ?ph)\<rparr>"
  have b: "blocks ?ph' = blocks ?ph" by (simp add: blocks_def blk_def)
  have r: "PageReserved (pages ?ph') = PageReserved (pages ?ph)" "PageProperty (pages ?ph') = PageProperty (pages ?ph)"
    by (simp_all add: PageReserved_def PageProperty_def assms fun_eq_iff)
  then have "ff_inv npage ?ph' = ff_inv npage ?ph" "free_set ?ph' = free_set ?ph" "usable npage ?ph' = usable npage ?ph"
    using b by (simp_all add: ff_inv_def free_set_def usable_def fun_eq_iff)
  then show ?thesis by (simp add: flag_only_def mod_flags_def used_def)
qed

lemma set_page_slab: "flag_only s (SetPageSlab p s)" "PageSlab q (SetPageSlab p s) = (q = p \<or> PageSlab q s)"
  "page_cache (SetPageSlab p s) = page_cache s" "page_slab (SetPageSlab p s) = page_slab s"
proof -
  show "flag_only s (SetPageSlab p s)" unfolding SetPageSlab_def
    by (rule flag_irrelevant) (simp_all add: bit_set_bit_iff PG_slab_def PG_reserved_def PG_property_def)
qed (auto simp: SetPageSlab_def mod_flags_def PageSlab_def bit_set_bit_iff PG_slab_def)

lemma clear_page_slab: "flag_only s (ClearPageSlab p s)" "PageSlab q (ClearPageSlab p s) = (q \<noteq> p \<and> PageSlab q s)"
  "page_cache (ClearPageSlab p s) = page_cache s" "page_slab (ClearPageSlab p s) = page_slab s"
proof -
  show "flag_only s (ClearPageSlab p s)" unfolding ClearPageSlab_def
    by (rule flag_irrelevant) (simp_all add: bit_unset_bit_iff PG_slab_def PG_reserved_def PG_property_def)
qed (auto simp: ClearPageSlab_def mod_flags_def PageSlab_def bit_unset_bit_iff PG_slab_def)

lemma mark_pages_ok:
  "flag_only s (mark_pages p n c a s) \<and>
   (\<forall>q. PageSlab q (mark_pages p n c a s) = (q \<in> {p..<p + n} \<or> PageSlab q s) \<and>
     page_cache (mark_pages p n c a s) q = (if q \<in> {p..<p + n} then c else page_cache s q) \<and>
     page_slab (mark_pages p n c a s) q = (if q \<in> {p..<p + n} then a else page_slab s q))"
proof (induction n arbitrary: p s)
  case 0
  then show ?case by (simp add: flag_only_def)
next
  case (Suc n)
  let ?s = "SetPageSlab p (s\<lparr>page_cache := (page_cache s)(p := c), page_slab := (page_slab s)(p := a)\<rparr>)"
  have "flag_only s (s\<lparr>page_cache := (page_cache s)(p := c), page_slab := (page_slab s)(p := a)\<rparr>)"
    by (simp add: flag_only_def)
  from flag_only_trans [OF this set_page_slab(1)] have f: "flag_only s ?s" .
  have i: "flag_only ?s (mark_pages (Suc p) n c a ?s)"
    "PageSlab q (mark_pages (Suc p) n c a ?s) = (q \<in> {Suc p..<Suc p + n} \<or> PageSlab q ?s)"
    "page_cache (mark_pages (Suc p) n c a ?s) q = (if q \<in> {Suc p..<Suc p + n} then c else page_cache ?s q)"
    "page_slab (mark_pages (Suc p) n c a ?s) q = (if q \<in> {Suc p..<Suc p + n} then a else page_slab ?s q)" for q
    using Suc.IH [of ?s "Suc p"] by blast+
  have r: "q \<in> {p..<p + Suc n} \<longleftrightarrow> q = p \<or> q \<in> {Suc p..<Suc p + n}" for q by auto
  have b: "PageSlab q ?s = (q = p \<or> PageSlab q s)" for q
    using set_page_slab(2) by (simp add: PageSlab_def)
  show ?case
    using flag_only_trans [OF f i(1)] unfolding mark_pages.simps i(2-4) r b set_page_slab(3,4) by auto
qed

lemma unmark_pages_ok:
  "\<forall>q\<in>{p..<p + n}. PageSlab q s \<Longrightarrow>
   \<exists>s'. unmark_pages p n s = Some s' \<and> flag_only s s' \<and> page_cache s' = page_cache s \<and> page_slab s' = page_slab s \<and>
     (\<forall>q. PageSlab q s' = (q \<notin> {p..<p + n} \<and> PageSlab q s))"
proof (induction n arbitrary: p s)
  case 0
  then show ?case by (simp add: flag_only_def)
next
  case (Suc n)
  have "\<forall>q\<in>{Suc p..<Suc p + n}. PageSlab q (ClearPageSlab p s)" using Suc.prems by (auto simp: clear_page_slab(2))
  from Suc.IH [OF this] obtain s' where s': "unmark_pages (Suc p) n (ClearPageSlab p s) = Some s'"
    "flag_only (ClearPageSlab p s) s'" "page_cache s' = page_cache (ClearPageSlab p s)"
    "page_slab s' = page_slab (ClearPageSlab p s)"
    "\<forall>q. PageSlab q s' = (q \<notin> {Suc p..<Suc p + n} \<and> PageSlab q (ClearPageSlab p s))" by blast
  have r: "q \<in> {p..<p + Suc n} \<longleftrightarrow> q = p \<or> q \<in> {Suc p..<Suc p + n}" for q by auto
  have "unmark_pages p (Suc n) s = Some s'" using Suc.prems s'(1) by simp
  moreover have "PageSlab q s' = (q \<notin> {p..<p + Suc n} \<and> PageSlab q s)" for q
    unfolding r using s'(5) clear_page_slab(2) [of q p s] by blast
  ultimately show ?case
    using s'(3,4) flag_only_trans [OF clear_page_slab(1) s'(2)] unfolding clear_page_slab(3,4) by blast
qed

end
