(* ===== verification/Slab_Ops.thy ===== *)
theory Slab_Ops
  imports Slab_Inv
begin

text \<open>
  Each operation of the slab allocator keeps the invariant and changes the set of live objects by
  exactly the object it hands out or takes back.
\<close>

section \<open>What the parts of a slab depend on\<close>

definition same_geo :: "slab_state \<Rightarrow> slab_state \<Rightarrow> bool" where
  "same_geo s s' \<longleftrightarrow> (\<forall>c. objsize (slab_cache s' c) = objsize (slab_cache s c) \<and>
     objsize_shift (slab_cache s' c) = objsize_shift (slab_cache s c) \<and> num (slab_cache s' c) = num (slab_cache s c) \<and>
     c_offset (slab_cache s' c) = c_offset (slab_cache s c) \<and> off_slab (slab_cache s' c) = off_slab (slab_cache s c) \<and>
     page_order (slab_cache s' c) = page_order (slab_cache s c) \<and>
     slab_cachep (slab_cache s' c) = slab_cachep (slab_cache s c))"

lemma same_geoD:
  assumes "same_geo s s'"
  shows "objsize (slab_cache s' c) = objsize (slab_cache s c)" "objsize_shift (slab_cache s' c) = objsize_shift (slab_cache s c)"
    "num (slab_cache s' c) = num (slab_cache s c)" "c_offset (slab_cache s' c) = c_offset (slab_cache s c)"
    "off_slab (slab_cache s' c) = off_slab (slab_cache s c)" "page_order (slab_cache s' c) = page_order (slab_cache s c)"
    "slab_cachep (slab_cache s' c) = slab_cachep (slab_cache s c)" "cache_ok i (slab_cache s' c) = cache_ok i (slab_cache s c)"
  using assms by (simp_all add: same_geo_def cache_ok_def)

lemma same_geo_trans: "same_geo a b \<Longrightarrow> same_geo b c \<Longrightarrow> same_geo a c"
  by (simp add: same_geo_def)

lemma slab_view:
  assumes "same_geo s s'" "slab_at s' a = slab_at s a"
  shows "head s' a = head s a" "frees s' c a = frees s c a" "pages_of s' c a = pages_of s c a"
    "obj s' c a i = obj s c a i" "objs s' c a = objs s c a"
  using assms(2) same_geoD [OF assms(1)]
  by (simp_all add: head_def frees_def pages_of_def obj_def objs_def fun_eq_iff [of "obj s' c a"])

lemma slab_ok_cong:
  assumes "slab_ok s c a" "same_geo s s'" "slab_at s' a = slab_at s a"
    "\<And>q. q \<in> pages_of s c a \<Longrightarrow> q \<in> used (smem s') \<and> PageSlab q s' \<and> page_cache s' q = page_cache s q \<and>
       page_slab s' q = page_slab s q"
  shows "slab_ok s' c a"
  using assms(1,4) slab_view [OF assms(2,3)] same_geoD [OF assms(2)] assms(3)
  unfolding slab_ok_def Let_def by simp

section \<open>No two slabs and no two objects overlap\<close>

lemma head_in: "head s a \<in> pages_of s c a"
  by (simp add: pages_of_def)

lemma slab_unique:
  assumes "slab_inv E s" "c < 13" "c' < 13" "a \<in> slabs s c" "a' \<in> slabs s c'" "q \<in> pages_of s c a" "q \<in> pages_of s c' a'"
  shows "c = c' \<and> a = a'"
  using slab_okD(8) [OF slab_invD(3) [OF assms(1,2,4)] assms(6)] slab_okD(8) [OF slab_invD(3) [OF assms(1,3,5)] assms(7)]
  by simp

lemma slab_one_cache: "slab_inv E s \<Longrightarrow> c < 13 \<Longrightarrow> c' < 13 \<Longrightarrow> a \<in> slabs s c \<Longrightarrow> a \<in> slabs s c' \<Longrightarrow> c = c'"
  using slab_unique [of E s c c' a a "head s a"] head_in by blast

lemma obj_inside:
  assumes "i < num k" "cache_ok c k"
  shows "c_offset k + i * 2 ^ (c + 5) + 2 ^ (c + 5) \<le> 4096 * 2 ^ page_order k"
proof -
  have "(i + 1) * 2 ^ (c + 5) \<le> num k * 2 ^ (c + 5)" using assms(1) by (intro mult_le_mono1) simp
  then show ?thesis using cache_okD(5) [OF assms(2)] by (simp add: algebra_simps)
qed

lemma obj_addr:
  assumes "slab_ok s c a" "cache_ok c (slab_cache s c)" "i < num (slab_cache s c)"
  shows "obj s c a i = page2pa (head s a) + of_nat (c_offset (slab_cache s c) + i * 2 ^ (c + 5))"
    "unat (obj s c a i) = 0xbc000000 + head s a * 4096 + c_offset (slab_cache s c) + i * 2 ^ (c + 5)"
    "\<exists>q. kva2page (obj s c a i) = Some q \<and> q \<in> pages_of s c a"
proof -
  let ?k = "slab_cache s c" and ?x = "c_offset (slab_cache s c) + i * 2 ^ (c + 5)"
  have x: "?x < 4096 * 2 ^ page_order ?k" using obj_inside [OF assms(3,2)] by (rule less_le_trans [rotated]) simp
  show o: "obj s c a i = page2pa (head s a) + of_nat ?x"
    using slab_okD(2) [OF assms(1)] cache_okD(1) [OF assms(2)] by (simp add: obj_def algebra_simps)
  show "unat (obj s c a i) = 0xbc000000 + head s a * 4096 + c_offset ?k + i * 2 ^ (c + 5)"
    unfolding o by (subst unat_in_pages [OF x slab_okD(3) [OF assms(1)]]) simp
  have "?x div 4096 < 2 ^ page_order ?k" using x by (simp add: less_mult_imp_div_less mult.commute)
  then show "\<exists>q. kva2page (obj s c a i) = Some q \<and> q \<in> pages_of s c a"
    unfolding o using kva2page_in_pages [OF x slab_okD(3) [OF assms(1)]] by (simp add: pages_of_def)
qed

lemma obj_unique:
  assumes "slab_inv E s" "c < 13" "c' < 13" "a \<in> slabs s c" "a' \<in> slabs s c'" "i < num (slab_cache s c)"
    "i' < num (slab_cache s c')" "obj s c a i = obj s c' a' i'"
  shows "c = c' \<and> a = a' \<and> i = i'"
proof -
  note s = slab_invD(3) [OF assms(1,2,4)] slab_invD(3) [OF assms(1,3,5)]
  note k = slab_invD(1) [OF assms(1,2)] slab_invD(1) [OF assms(1,3)]
  obtain q where q: "kva2page (obj s c a i) = Some q" "q \<in> pages_of s c a" using obj_addr(3) [OF s(1) k(1) assms(6)] by blast
  obtain q' where q': "kva2page (obj s c' a' i') = Some q'" "q' \<in> pages_of s c' a'"
    using obj_addr(3) [OF s(2) k(2) assms(7)] by blast
  have "q' = q" using q(1) q'(1) unfolding assms(8) by simp
  then have ca: "c = c'" "a = a'" using slab_unique [OF assms(1-5) q(2)] q'(2) by simp_all
  have "unat (obj s c a i) = unat (obj s c' a' i')" using assms(8) by simp
  then have "i * 2 ^ (c + 5) = i' * (2 :: nat) ^ (c + 5)"
    unfolding obj_addr(2) [OF s(1) k(1) assms(6)] obj_addr(2) [OF s(2) k(2) assms(7)] unfolding ca [symmetric] by simp
  then show ?thesis using ca by simp
qed

lemma live_iff:
  "x \<in> slab_live s \<longleftrightarrow> (\<exists>c<13. \<exists>a\<in>slabs s c. \<exists>i<num (slab_cache s c). i \<notin> set (frees s c a) \<and> x = obj s c a i)"
  by (auto simp: slab_live_def objs_def slab_limits)

lemma obj_live:
  assumes "slab_inv E s" "c < 13" "a \<in> slabs s c" "i < num (slab_cache s c)"
  shows "obj s c a i \<in> slab_live s \<longleftrightarrow> i \<notin> set (frees s c a)"
  using obj_unique [OF assms(1,2) _ assms(3) _ assms(4)] assms unfolding live_iff by blast

lemma ctrl_iff: "x \<in> ctrl s \<longleftrightarrow> (\<exists>c<13. off_slab (slab_cache s c) \<and> x \<in> slabs s c)"
  by (auto simp: ctrl_def slab_limits)

lemma ctrl_live: "slab_inv E s \<Longrightarrow> ctrl s \<subseteq> slab_live s"
proof
  fix x assume i: "slab_inv E s" and "x \<in> ctrl s"
  then obtain c where c: "c < 13" "off_slab (slab_cache s c)" "x \<in> slabs s c" by (auto simp: ctrl_iff)
  obtain j where j: "j < 4" "slab_cachep (slab_cache s c) = Some j" using cache_okD(7) [OF slab_invD(1) [OF i c(1)] c(2)] by blast
  obtain a' where "a' \<in> slabs s j" "x \<in> objs s j a'" using slab_invD(6) [OF i c(1,2) j(2) c(3)] by blast
  then show "x \<in> slab_live s" using j(1) by (auto simp: slab_live_def slab_limits)
qed

lemma used_pages: "slab_inv E s \<Longrightarrow> slab_pages s \<subseteq> used (smem s)"
  using slab_okD(8) slab_invD(3) unfolding slab_pages_def slab_limits by blast

section \<open>Taking an object from a slab\<close>

lemma frees_next:
  assumes "frees s c a = f # xs" "slab_ok s c a"
  shows "s_free (slab_at s a) = f" "chain (bufctl (slab_at s a)) (bufctl (slab_at s a) f) xs"
    "chain_of (bufctl (slab_at s a)) (num (slab_cache s c) - Suc (inuse (slab_at s a))) (bufctl (slab_at s a) f) = xs"
    "inuse (slab_at s a) < num (slab_cache s c)" "f < num (slab_cache s c)" "f \<notin> set xs" "distinct xs"
    "set xs \<subseteq> {..<num (slab_cache s c)}"
proof -
  show f: "s_free (slab_at s a) = f" "chain (bufctl (slab_at s a)) (bufctl (slab_at s a) f) xs"
    using slab_okD(5) [OF assms(2)] assms(1) by simp_all
  obtain n where n: "num (slab_cache s c) - inuse (slab_at s a) = Suc n"
    using assms(1) by (cases "num (slab_cache s c) - inuse (slab_at s a)") (auto simp: frees_def)
  then show "inuse (slab_at s a) < num (slab_cache s c)" by simp
  have "num (slab_cache s c) - Suc (inuse (slab_at s a)) = n" using n by simp
  then show "chain_of (bufctl (slab_at s a)) (num (slab_cache s c) - Suc (inuse (slab_at s a))) (bufctl (slab_at s a) f) = xs"
    using assms(1) n f(1) by (simp add: frees_def)
  show "f < num (slab_cache s c)" "f \<notin> set xs" "distinct xs" "set xs \<subseteq> {..<num (slab_cache s c)}"
    using slab_okD(6,7) [OF assms(2)] assms(1) by auto
qed

lemma chain_end: "chain b f xs \<Longrightarrow> set xs \<subseteq> {..<n} \<Longrightarrow> n \<le> 113 \<Longrightarrow> f = BUFCTL_END \<longleftrightarrow> xs = []"
  by (cases xs) (auto simp: BUFCTL_END_def)


text \<open>A step that leaves every slab but \<open>a\<close> as it was keeps the invariant when \<open>a\<close> and the control structures are in order.\<close>

lemma slab_inv_step:
  assumes "slab_inv E s" "same_geo s s'" "ff_inv npage (phys (smem s'))"
    and other: "\<And>c x. c < 13 \<Longrightarrow> x \<in> slabs s' c \<Longrightarrow> x \<noteq> a \<Longrightarrow> x \<in> slabs s c \<and> slab_at s' x = slab_at s x \<and>
      (x \<in> set (slabs_full (slab_cache s' c)) \<longleftrightarrow> x \<in> set (slabs_full (slab_cache s c)))"
    and page: "\<And>c x q. c < 13 \<Longrightarrow> x \<in> slabs s' c \<Longrightarrow> x \<noteq> a \<Longrightarrow> q \<in> pages_of s c x \<Longrightarrow>
      q \<in> used (smem s') \<and> PageSlab q s' \<and> page_cache s' q = page_cache s q \<and> page_slab s' q = page_slab s q"
    and dist: "\<And>c. c < 13 \<Longrightarrow> distinct (slabs_full (slab_cache s' c) @ slabs_notfull (slab_cache s' c))"
    and this_slab: "\<And>c. c < 13 \<Longrightarrow> a \<in> slabs s' c \<Longrightarrow> slab_ok s' c a \<and> (a \<in> E' \<or> 0 < inuse (slab_at s' a)) \<and>
      (frees s' c a = [] \<longleftrightarrow> a \<in> set (slabs_full (slab_cache s' c)))"
    and e: "E \<subseteq> insert a E'"
    and control: "\<And>c j x. c < 13 \<Longrightarrow> off_slab (slab_cache s c) \<Longrightarrow> slab_cachep (slab_cache s c) = Some j \<Longrightarrow> x \<in> slabs s' c \<Longrightarrow>
      \<exists>a'\<in>slabs s' j. x \<in> objs s' j a'"
  shows "slab_inv E' s'"
proof -
  have "slab_ok s' c x \<and> (x \<in> E' \<or> 0 < inuse (slab_at s' x)) \<and> (frees s' c x = [] \<longleftrightarrow> x \<in> set (slabs_full (slab_cache s' c)))"
    if cx: "c < 13" "x \<in> slabs s' c" for c x
  proof (cases "x = a")
    case True
    then show ?thesis using this_slab [OF cx(1)] cx(2) by simp
  next
    case False
    note o = other [OF cx False]
    then have x: "x \<in> slabs s c" and d: "slab_at s' x = slab_at s x" by blast+
    note i = slab_invD [OF assms(1) cx(1)]
    have "slab_ok s' c x" by (rule slab_ok_cong [OF i(3) [OF x] assms(2) d page [OF cx False]])
    moreover have "x \<in> E' \<or> 0 < inuse (slab_at s' x)" unfolding d using i(4) [OF x] e False by (elim disjE) auto
    ultimately show ?thesis using i(5) [OF x] o slab_view(2) [OF assms(2) d] by simp
  qed
  then show ?thesis
    using assms(3) dist slab_invD(1) [OF assms(1)] control same_geoD [OF assms(2)]
    unfolding slab_inv_def slab_limits by simp
qed

lemma mod_simps:
  "slab_at (mod_slab a f s) = (slab_at s)(a := f (slab_at s a))" "slab_cache (mod_slab a f s) = slab_cache s"
  "smem (mod_slab a f s) = smem s" "page_cache (mod_slab a f s) = page_cache s" "page_slab (mod_slab a f s) = page_slab s"
  "slab_cache (mod_cache c g s) = (slab_cache s)(c := g (slab_cache s c))" "slab_at (mod_cache c g s) = slab_at s"
  "smem (mod_cache c g s) = smem s" "page_cache (mod_cache c g s) = page_cache s" "page_slab (mod_cache c g s) = page_slab s"
  "PageSlab q (mod_slab a f s) = PageSlab q s" "PageSlab q (mod_cache c g s) = PageSlab q s"
  by (simp_all add: mod_slab_def mod_cache_def PageSlab_def)

text \<open>The live objects of the other slabs.\<close>

definition others :: "u32 \<Rightarrow> slab_state \<Rightarrow> u32 set" where
  "others a s = (\<Union>c<SLAB_CACHE_NUM. \<Union>x\<in>slabs s c - {a}. objs s c x)"

lemma live_split:
  assumes "a \<in> slabs s c" "c < 13" "\<And>c'. c' < 13 \<Longrightarrow> a \<in> slabs s c' \<Longrightarrow> c' = c"
  shows "slab_live s = others a s \<union> objs s c a"
  using assms unfolding slab_live_def others_def slab_limits by blast

lemma live_none: "(\<And>c. c < 13 \<Longrightarrow> a \<notin> slabs s c) \<Longrightarrow> slab_live s = others a s"
  unfolding slab_live_def others_def slab_limits by (intro SUP_cong) auto

lemma others_cong:
  assumes "same_geo s s'" "\<And>x. x \<noteq> a \<Longrightarrow> slab_at s' x = slab_at s x"
    "\<And>c. c < 13 \<Longrightarrow> slabs s' c - {a} = slabs s c - {a}"
  shows "others a s' = others a s"
  unfolding others_def slab_limits using assms(3) slab_view(5) [OF assms(1) assms(2)] by (intro SUP_cong) auto

lemma others_disjoint:
  assumes "slab_inv E s" "c < 13" "a \<in> slabs s c"
  shows "others a s \<inter> objs s c a = {}"
  using obj_unique [OF assms(1,2) _ assms(3)] unfolding others_def objs_def slab_limits by fastforce


section \<open>Changing the free objects of one slab\<close>

lemma slab_change:
  assumes inv: "slab_inv E s" and c: "c < 13" and a: "a \<in> slabs s c" and geo: "same_geo s s'"
    and mem: "smem s' = smem s" "page_cache s' = page_cache s" "page_slab s' = page_slab s"
    and at: "slab_at s' = (slab_at s)(a := d)" "s_mem d = s_mem (slab_at s a)" "s_offset d = s_offset (slab_at s a)"
    and sl: "\<And>c'. slabs s' c' = slabs s c'" "\<And>c' x. x \<noteq> a \<Longrightarrow>
      x \<in> set (slabs_full (slab_cache s' c')) \<longleftrightarrow> x \<in> set (slabs_full (slab_cache s c'))"
      "\<And>c'. c' < 13 \<Longrightarrow> distinct (slabs_full (slab_cache s' c') @ slabs_notfull (slab_cache s' c'))"
    and d: "inuse d \<le> num (slab_cache s c)" "chain (bufctl d) (s_free d) xs"
      "chain_of (bufctl d) (num (slab_cache s c) - inuse d) (s_free d) = xs" "distinct xs" "set xs \<subseteq> {..<num (slab_cache s c)}"
    and e: "xs = [] \<longleftrightarrow> a \<in> set (slabs_full (slab_cache s' c))" "a \<in> E' \<or> 0 < inuse d" "E \<subseteq> insert a E'"
    and o: "ctrl s \<inter> objs s c a \<subseteq> obj s c a ` ({..<num (slab_cache s c)} - set xs)"
  shows "slab_inv E' s'" "slab_live s' = others a s \<union> obj s c a ` ({..<num (slab_cache s c)} - set xs)"
    "ctrl s' = ctrl s" "slab_pages s' = slab_pages s" "frees s' c a = xs" "\<And>i. obj s' c a i = obj s c a i"
proof -
  note g = same_geoD [OF geo]
  have one: "c' = c" if "c' < 13" "a \<in> slabs s c'" for c' using slab_one_cache [OF inv c that(1) a that(2)] by simp
  have h: "head s' x = head s x" "pages_of s' c' x = pages_of s c' x" for c' x
    using at g by (simp_all add: head_def pages_of_def)
  show f: "frees s' c a = xs" using at(1) d(3) g by (simp add: frees_def)
  show ob: "obj s' c a i = obj s c a i" for i using at g by (simp add: obj_def)
  have os: "objs s' c a = obj s c a ` ({..<num (slab_cache s c)} - set xs)" using f ob g by (simp add: objs_def)
  have v: "slab_at s' x = slab_at s x" if "x \<noteq> a" for x using at(1) that by simp
  have ps: "PageSlab q s' = PageSlab q s" for q using mem(1) by (simp add: PageSlab_def)
  have page: "q \<in> used (smem s') \<and> PageSlab q s' \<and> page_cache s' q = page_cache s q \<and> page_slab s' q = page_slab s q"
    if "c' < 13" "x \<in> slabs s c'" "q \<in> pages_of s c' x" for c' x q
    using slab_okD(8) [OF slab_invD(3) [OF inv that(1,2)] that(3)] mem ps by simp
  have ok: "slab_ok s' c a"
    using slab_okD [OF slab_invD(3) [OF inv c a]] page [OF c a] d at f h g mem ps
    unfolding slab_ok_def Let_def by simp
  show i': "slab_inv E' s'"
  proof (rule slab_inv_step [OF inv geo, where a = a])
    show "ff_inv npage (phys (smem s'))" using inv mem(1) by (simp add: slab_inv_def)
    show "x \<in> slabs s c' \<and> slab_at s' x = slab_at s x \<and> (x \<in> set (slabs_full (slab_cache s' c')) \<longleftrightarrow> x \<in> set (slabs_full (slab_cache s c')))"
      if "x \<in> slabs s' c'" "x \<noteq> a" for c' x using that sl v by simp
    show "q \<in> used (smem s') \<and> PageSlab q s' \<and> page_cache s' q = page_cache s q \<and> page_slab s' q = page_slab s q"
      if "c' < 13" "x \<in> slabs s' c'" "q \<in> pages_of s c' x" for c' x q using page that sl(1) by simp
    show "slab_ok s' c' a \<and> (a \<in> E' \<or> 0 < inuse (slab_at s' a)) \<and> (frees s' c' a = [] \<longleftrightarrow> a \<in> set (slabs_full (slab_cache s' c')))"
      if "c' < 13" "a \<in> slabs s' c'" for c' using one [of c'] that sl(1) ok e f at(1) by simp
    show "\<exists>a'\<in>slabs s' j. x \<in> objs s' j a'"
      if x: "c' < 13" "off_slab (slab_cache s c')" "slab_cachep (slab_cache s c') = Some j" "x \<in> slabs s' c'" for c' j x
    proof -
      obtain a' where a': "a' \<in> slabs s j" "x \<in> objs s j a'" using slab_invD(6) [OF inv x(1-3)] x(4) sl(1) by blast
      have j: "j < 13" using cache_okD(7) [OF slab_invD(1) [OF inv x(1)] x(2)] x(3) by auto
      have "x \<in> objs s' j a'"
      proof (cases "a' = a")
        case True
        then have "j = c" using one [OF j] a'(1) by simp
        moreover have "x \<in> ctrl s" using x sl(1) unfolding ctrl_iff by blast
        ultimately show ?thesis using o a'(2) True os by auto
      next
        case False
        then show ?thesis using slab_view(5) [OF geo v] a'(2) by simp
      qed
      then show ?thesis using a'(1) unfolding sl(1) by blast
    qed
  qed (use sl(3) e(3) in simp_all)
  have "slab_live s' = others a s' \<union> objs s' c a"
    by (rule live_split [OF _ c]) (unfold sl(1), rule a, rule one)
  moreover have "others a s' = others a s" using others_cong [OF geo v] sl(1) by simp
  ultimately show "slab_live s' = others a s \<union> obj s c a ` ({..<num (slab_cache s c)} - set xs)" using os by simp
  show "ctrl s' = ctrl s" "slab_pages s' = slab_pages s" using sl(1) g h by (simp_all add: ctrl_def slab_pages_def)
qed

lemma alloc_one_ok:
  assumes inv: "slab_inv E s" and c: "c < 13" and a: "a \<in> set (slabs_notfull (slab_cache s c))"
    and r: "kmem_cache_alloc_one c a s = (x, s')" and E: "E \<subseteq> {a}"
  shows "slab_inv {} s'" "same_geo s s'" "slab_live s' = insert x (slab_live s)" "x \<notin> slab_live s" "ctrl s' = ctrl s"
    "slab_pages s' = slab_pages s" "smem s' = smem s" "page_cache s' = page_cache s"
    "\<exists>a\<in>slabs s' c. \<exists>i<num (slab_cache s' c). x = obj s' c a i"
proof -
  have as: "a \<in> slabs s c" using a by (simp add: slabs_def)
  note ok = slab_invD(3) [OF inv c as] and k = slab_invD(1) [OF inv c] and ds = slab_invD(2) [OF inv c]
  have "frees s c a \<noteq> []" using slab_invD(5) [OF inv c as] ds a by auto
  then obtain f xs where fx: "frees s c a = f # xs" by (cases "frees s c a") auto
  note n = frees_next [OF fx ok]
  let ?d = "(slab_at s a)\<lparr>inuse := inuse (slab_at s a) + 1, s_free := bufctl (slab_at s a) f\<rparr>"
  have e: "bufctl (slab_at s a) f = BUFCTL_END \<longleftrightarrow> xs = []"
    using chain_end [OF n(2,8) cache_okD(4) [OF k]] .
  define g where "g = (\<lambda>d :: kmem_cache. if xs = [] then d\<lparr>slabs_notfull := remove1 a (slabs_notfull d), slabs_full := a # slabs_full d\<rparr> else d)"
  have x: "x = obj s c a f" using r n(1) by (auto simp: kmem_cache_alloc_one_def Let_def obj_def mod_simps)
  have s': "smem s' = smem s" "page_cache s' = page_cache s" "page_slab s' = page_slab s"
    "slab_at s' = (slab_at s)(a := ?d)" "slab_cache s' = (slab_cache s)(c := g (slab_cache s c))"
    using r n(1) e by (auto simp: kmem_cache_alloc_one_def Let_def mod_simps g_def)
  have geo: "same_geo s s'" using s'(5) by (simp add: same_geo_def g_def)
  have sl: "slabs s' c' = slabs s c'" for c'
    using s'(5) a ds by (auto simp: slabs_def g_def)
  have fl: "y \<in> set (slabs_full (slab_cache s' c')) \<longleftrightarrow> y \<in> set (slabs_full (slab_cache s c'))" if "y \<noteq> a" for c' y
    using that s'(5) by (simp add: g_def)
  have dist: "distinct (slabs_full (slab_cache s' c') @ slabs_notfull (slab_cache s' c'))" if "c' < 13" for c'
    using slab_invD(2) [OF inv that] s'(5) a by (auto simp: g_def)
  have fa: "xs = [] \<longleftrightarrow> a \<in> set (slabs_full (slab_cache s' c))" using s'(5) a ds by (auto simp: g_def)
  have fs: "objs s c a \<subseteq> obj s c a ` ({..<num (slab_cache s c)} - set xs)" unfolding objs_def fx by auto
  note ch = slab_change [OF inv c as geo s'(1-4) _ _ sl fl dist _ _ _ n(7,8) fa, where E' = "{}", simplified]
  have hyps: "Suc (inuse (slab_at s a)) \<le> num (slab_cache s c)"
    "ctrl s \<inter> objs s c a \<subseteq> obj s c a ` ({..<num (slab_cache s c)} - set xs)" "E \<subseteq> {a}"
    using n(4) fs E by auto
  show "slab_inv {} s'" using hyps n(2,3) by (intro ch(1)) simp_all
  have l: "slab_live s' = others a s \<union> obj s c a ` ({..<num (slab_cache s c)} - set xs)"
    using hyps n(2,3) by (intro ch(2)) simp_all
  show "ctrl s' = ctrl s" using hyps n(2,3) by (intro ch(3)) simp_all
  show "slab_pages s' = slab_pages s" using hyps n(2,3) by (intro ch(4)) simp_all
  have "obj s' c a f = obj s c a f" using hyps n(2,3) by (intro ch(6)) simp_all
  then show "\<exists>a\<in>slabs s' c. \<exists>i<num (slab_cache s' c). x = obj s' c a i"
    unfolding sl same_geoD(3) [OF geo] x using as n(5) by metis
  have "{..<num (slab_cache s c)} - set xs = insert f ({..<num (slab_cache s c)} - set (frees s c a))"
    using n(5,6) fx by auto
  moreover have "slab_live s = others a s \<union> objs s c a"
    using live_split [OF as c] slab_one_cache [OF inv c _ as] by blast
  ultimately show "slab_live s' = insert x (slab_live s)" using l x by (simp add: objs_def)
  show "x \<notin> slab_live s" using obj_live [OF inv c as n(5)] x fx by simp
  show "smem s' = smem s" "page_cache s' = page_cache s" "same_geo s s'" using s'(1,2) geo by simp_all
qed

end
