(* ===== verification/Slab_Alloc.thy ===== *)
theory Slab_Alloc
  imports Slab_Ops
begin

text \<open>
  \<^verbatim>\<open>kmem_cache_grow\<close> and \<^verbatim>\<open>kmem_cache_alloc\<close> (\<^verbatim>\<open>kern/mm/kmalloc.c\<close>): a new slab takes a run of free
  frames and, in an off-slab cache, an object of a smaller cache; an allocation hands out one object
  that was not live.
\<close>

section \<open>A fresh slab\<close>

lemma chain_fresh:
  assumes "\<And>i. i < n \<Longrightarrow> b i = (if i = n - 1 then BUFCTL_END else i + 1)" "k < n"
  shows "chain_of b (n - k) k = [k..<n] \<and> chain b k [k..<n]"
  using assms(2)
proof (induction "n - k" arbitrary: k)
  case (Suc m)
  have u: "[k..<n] = k # [Suc k..<n]" "n - k = Suc (n - Suc k)" using Suc.prems by (simp_all add: upt_conv_Cons)
  show ?case
  proof (cases "Suc k < n")
    case True
    then have "k \<noteq> n - 1" by linarith
    then have "b k = Suc k" using assms(1) [OF Suc.prems] by simp
    then show ?thesis using Suc.hyps(1) [of "Suc k"] Suc.hyps(2) True u by simp
  next
    case False
    then have "k = n - 1" using Suc.prems by simp
    then show ?thesis using assms(1) [OF Suc.prems] False u by simp
  qed
qed simp

lemma init_bufctl: "foldl (\<lambda>b i. b(i := Suc i)) b [0..<n] i = (if i < n then Suc i else b i)"
  by (induction n) auto

lemma link_slab:
  assumes inv: "slab_inv {} s" and c: "c < 13" and p: "p + 2 ^ page_order (slab_cache s c) \<le> npage"
    and R: "R = {p..<p + 2 ^ page_order (slab_cache s c)}" "R \<subseteq> used (smem s)" "R \<inter> slab_pages s = {}"
    and fresh: "\<And>c'. c' < 13 \<Longrightarrow> a \<notin> slabs s c'"
    and off: "\<And>j. off_slab (slab_cache s c) \<Longrightarrow> slab_cachep (slab_cache s c) = Some j \<Longrightarrow> \<exists>a'\<in>slabs s j. a \<in> objs s j a'"
    and on: "\<not> off_slab (slab_cache s c) \<Longrightarrow> a = page2pa p"
    and at: "slab_at s' = (slab_at s)(a := d)" "s_mem d = page2pa p + of_nat (c_offset (slab_cache s c))"
      "s_offset d = c_offset (slab_cache s c)" "inuse d = 0" "s_free d = 0"
      "\<And>i. i < num (slab_cache s c) \<Longrightarrow> bufctl d i = (if i = num (slab_cache s c) - 1 then BUFCTL_END else i + 1)"
    and ca: "slab_cache s' = (slab_cache s)(c := (slab_cache s c)\<lparr>slabs_notfull := a # slabs_notfull (slab_cache s c)\<rparr>)"
    and mem: "ff_inv npage (phys (smem s'))" "used (smem s') = used (smem s)"
      "\<And>q. PageSlab q s' \<longleftrightarrow> q \<in> R \<or> PageSlab q s" "\<And>q. page_cache s' q = (if q \<in> R then c else page_cache s q)"
      "\<And>q. page_slab s' q = (if q \<in> R then a else page_slab s q)"
  shows "slab_inv {a} s'" "same_geo s s'" "slab_live s' = slab_live s" "slab_pages s' = slab_pages s \<union> R"
    "ctrl s' = ctrl s \<union> (if off_slab (slab_cache s c) then {a} else {})"
proof -
  show geo: "same_geo s s'" using ca by (simp add: same_geo_def)
  note g = same_geoD [OF geo]
  note k = slab_invD(1) [OF inv c]
  have v: "slab_at s' x = slab_at s x" if "x \<noteq> a" for x using at(1) that by simp
  have sl: "slabs s' c' = (if c' = c then insert a (slabs s c') else slabs s c')" for c'
    using ca by (simp add: slabs_def)
  have fl: "slabs_full (slab_cache s' c') = slabs_full (slab_cache s c')" for c' using ca by simp
  have h: "head s' a = p"
  proof -
    have "p < npage" using p zero_less_power [of "2 :: nat" "page_order (slab_cache s c)"] by linarith
    then show ?thesis using PPN_page2pa [of p] at(1-3) by (simp add: head_def)
  qed
  have pg: "pages_of s' c a = R" using h g R(1) by (simp add: pages_of_def)
  have fr: "frees s' c a = [0..<num (slab_cache s c)]" "chain (bufctl d) (s_free d) [0..<num (slab_cache s c)]"
    using chain_fresh [OF at(6), of 0] cache_okD(3) [OF k] at g by (simp_all add: frees_def)
  have ob: "objs s' c a = {}" using fr(1) g by (auto simp: objs_def)
  have nf: "a \<notin> set (slabs_full (slab_cache s c))" using fresh [OF c] by (simp add: slabs_def)
  have old: "x \<noteq> a" if "c' < 13" "x \<in> slabs s c'" for c' x using fresh that by auto
  have page: "q \<in> used (smem s') \<and> PageSlab q s' \<and> page_cache s' q = page_cache s q \<and> page_slab s' q = page_slab s q"
    if "c' < 13" "x \<in> slabs s c'" "q \<in> pages_of s c' x" for c' x q
  proof -
    have "q \<notin> R" using that R(3) unfolding slab_pages_def slab_limits by blast
    then show ?thesis using slab_okD(8) [OF slab_invD(3) [OF inv that(1,2)] that(3)] mem by simp
  qed
  have ok: "slab_ok s' c a"
    unfolding slab_ok_def Let_def h pg fr(1) g
    using at p fr(2) R(2) mem on by (simp add: subset_iff)
  show "slab_inv {a} s'"
  proof (rule slab_inv_step [OF inv geo mem(1), where a = a])
    show "x \<in> slabs s c' \<and> slab_at s' x = slab_at s x \<and> (x \<in> set (slabs_full (slab_cache s' c')) \<longleftrightarrow> x \<in> set (slabs_full (slab_cache s c')))"
      if "x \<in> slabs s' c'" "x \<noteq> a" for c' x using that sl v fl by (simp split: if_splits)
    show "q \<in> used (smem s') \<and> PageSlab q s' \<and> page_cache s' q = page_cache s q \<and> page_slab s' q = page_slab s q"
      if "c' < 13" "x \<in> slabs s' c'" "x \<noteq> a" "q \<in> pages_of s c' x" for c' x q using page that sl by (simp split: if_splits)
    show "distinct (slabs_full (slab_cache s' c') @ slabs_notfull (slab_cache s' c'))" if "c' < 13" for c'
      using slab_invD(2) [OF inv that] fresh [OF that] ca by (auto simp: slabs_def)
    show "slab_ok s' c' a \<and> (a \<in> {a} \<or> 0 < inuse (slab_at s' a)) \<and> (frees s' c' a = [] \<longleftrightarrow> a \<in> set (slabs_full (slab_cache s' c')))"
      if x: "c' < 13" "a \<in> slabs s' c'" for c'
    proof -
      have "c' = c" using x sl fresh by (simp split: if_splits)
      then show ?thesis using ok fr(1) cache_okD(3) [OF k] nf fl by simp
    qed
    show "\<exists>a'\<in>slabs s' j. x \<in> objs s' j a'"
      if x: "c' < 13" "off_slab (slab_cache s c')" "slab_cachep (slab_cache s c') = Some j" "x \<in> slabs s' c'" for c' j x
    proof -
      have "\<exists>a'\<in>slabs s j. x \<in> objs s j a'"
        using off [of j] slab_invD(6) [OF inv x(1-3)] x sl by (cases "x \<in> slabs s c'") (simp_all split: if_splits)
      then obtain a' where a': "a' \<in> slabs s j" "x \<in> objs s j a'" by blast
      have "j < 13" using cache_okD(7) [OF slab_invD(1) [OF inv x(1)] x(2)] x(3) by auto
      then have "x \<in> objs s' j a'" using slab_view(5) [OF geo v] a' old by simp
      then show ?thesis using a'(1) sl by (metis insertCI)
    qed
  qed simp
  have "slab_live s' = others a s' \<union> objs s' c a"
    using sl fresh by (intro live_split [OF _ c]) (simp_all split: if_splits)
  moreover have "others a s' = others a s" using others_cong [OF geo v] sl by simp
  moreover have "slab_live s = others a s" using live_none fresh by blast
  ultimately show "slab_live s' = slab_live s" using ob by simp
  have pv: "pages_of s' c' x = pages_of s c' x" if "c' < 13" "x \<in> slabs s c'" for c' x
    using slab_view(3) [OF geo v] old that by simp
  have "slab_pages s' = (\<Union>c'<SLAB_CACHE_NUM. \<Union>x\<in>slabs s c'. pages_of s' c' x) \<union> pages_of s' c a"
  proof (rule set_eqI)
    fix q
    have "q \<in> slab_pages s' \<longleftrightarrow> (\<exists>c'<13. \<exists>x. x \<in> slabs s' c' \<and> q \<in> pages_of s' c' x)"
      by (auto simp: slab_pages_def slab_limits)
    also have "\<dots> \<longleftrightarrow> (\<exists>c'<13. \<exists>x. x \<in> slabs s c' \<and> q \<in> pages_of s' c' x) \<or> q \<in> pages_of s' c a"
      using sl c by (metis insert_iff)
    also have "\<dots> \<longleftrightarrow> q \<in> (\<Union>c'<SLAB_CACHE_NUM. \<Union>x\<in>slabs s c'. pages_of s' c' x) \<union> pages_of s' c a"
      by (auto simp: slab_limits)
    finally show "q \<in> slab_pages s' \<longleftrightarrow> q \<in> (\<Union>c'<SLAB_CACHE_NUM. \<Union>x\<in>slabs s c'. pages_of s' c' x) \<union> pages_of s' c a" .
  qed
  also have "(\<Union>c'<SLAB_CACHE_NUM. \<Union>x\<in>slabs s c'. pages_of s' c' x) = slab_pages s"
    unfolding slab_pages_def using pv by (intro SUP_cong) (simp_all add: slab_limits)
  finally show "slab_pages s' = slab_pages s \<union> R" using pg by simp
  show "ctrl s' = ctrl s \<union> (if off_slab (slab_cache s c) then {a} else {})"
  proof (rule set_eqI)
    fix x
    have "x \<in> ctrl s' \<longleftrightarrow> x \<in> ctrl s \<or> off_slab (slab_cache s c) \<and> x = a"
      unfolding ctrl_iff g(5) using sl c by (metis insert_iff)
    then show "x \<in> ctrl s' \<longleftrightarrow> x \<in> ctrl s \<union> (if off_slab (slab_cache s c) then {a} else {})" by simp
  qed
qed


section \<open>Changing the frames around the slabs\<close>

lemma smem_view:
  "same_geo s (s\<lparr>smem := m\<rparr>)" "slab_live (s\<lparr>smem := m\<rparr>) = slab_live s" "ctrl (s\<lparr>smem := m\<rparr>) = ctrl s"
  "slab_pages (s\<lparr>smem := m\<rparr>) = slab_pages s" "slabs (s\<lparr>smem := m\<rparr>) c = slabs s c" "user (s\<lparr>smem := m\<rparr>) = user s"
  "objs (s\<lparr>smem := m\<rparr>) c a = objs s c a" "pages_of (s\<lparr>smem := m\<rparr>) c a = pages_of s c a" "head (s\<lparr>smem := m\<rparr>) a = head s a"
proof -
  show geo: "same_geo s (s\<lparr>smem := m\<rparr>)" by (simp add: same_geo_def)
  show sl: "slabs (s\<lparr>smem := m\<rparr>) c = slabs s c" for c by (simp add: slabs_def)
  note v = slab_view [OF geo, simplified]
  show "slab_live (s\<lparr>smem := m\<rparr>) = slab_live s" "slab_pages (s\<lparr>smem := m\<rparr>) = slab_pages s"
    "objs (s\<lparr>smem := m\<rparr>) c a = objs s c a" "pages_of (s\<lparr>smem := m\<rparr>) c a = pages_of s c a" "head (s\<lparr>smem := m\<rparr>) a = head s a"
    by (simp_all add: slab_live_def slab_pages_def sl v)
  then show "ctrl (s\<lparr>smem := m\<rparr>) = ctrl s" "user (s\<lparr>smem := m\<rparr>) = user s" by (simp_all add: ctrl_def user_def sl)
qed

lemma smem_inv:
  assumes "slab_inv E s" "ff_inv npage (phys m)"
    and q: "\<And>q. q \<in> slab_pages s \<Longrightarrow> q \<in> used m \<and> slab_bit m q = slab_bit (smem s) q"
  shows "slab_inv E (s\<lparr>smem := m\<rparr>)"
proof -
  have "slab_ok (s\<lparr>smem := m\<rparr>) c a" if "c < 13" "a \<in> slabs s c" for c a
  proof (rule slab_ok_cong [OF slab_invD(3) [OF assms(1) that] smem_view(1)])
    fix x assume x: "x \<in> pages_of s c a"
    then have "x \<in> slab_pages s" using that unfolding slab_pages_def slab_limits by blast
    then show "x \<in> used (smem (s\<lparr>smem := m\<rparr>)) \<and> PageSlab x (s\<lparr>smem := m\<rparr>) \<and> page_cache (s\<lparr>smem := m\<rparr>) x = page_cache s x \<and>
      page_slab (s\<lparr>smem := m\<rparr>) x = page_slab s x"
      using q slab_okD(8) [OF slab_invD(3) [OF assms(1) that] x] by (simp add: PageSlab_bit)
  qed simp
  moreover have "frees (s\<lparr>smem := m\<rparr>) c a = frees s c a" for c a by (simp add: frees_def)
  ultimately show ?thesis
    using assms(1,2) slab_invD(3) [OF assms(1)] unfolding slab_inv_def smem_view slab_limits by simp
qed

text \<open>The end of \<^verbatim>\<open>kmem_cache_grow\<close>, once the run \<open>p\<close> and the control structure \<open>a\<close> are there.\<close>

definition link_state :: "nat \<Rightarrow> nat \<Rightarrow> u32 \<Rightarrow> slab_state \<Rightarrow> slab_state" where
  "link_state c p a s = (
     let off = c_offset (slab_cache s c);
         s = mod_slab a (\<lambda>d. d\<lparr>inuse := 0, s_offset := off, s_mem := page2pa p + of_nat off\<rparr>) s;
         s = mark_pages p (2 ^ page_order (slab_cache s c)) c a s;
         n = num (slab_cache s c);
         s = mod_slab a (\<lambda>d. d\<lparr>bufctl := foldl (\<lambda>b i. b(i := i + 1)) (bufctl d) [0..<n]\<rparr>) s;
         s = mod_slab a (\<lambda>d. d\<lparr>bufctl := (bufctl d)(n - 1 := BUFCTL_END), s_free := 0\<rparr>) s
     in mod_cache c (\<lambda>d. d\<lparr>slabs_notfull := a # slabs_notfull d\<rparr>) s)"

lemma link_state_ok:
  assumes "slab_inv {} s" "c < 13" "p + 2 ^ page_order (slab_cache s c) \<le> npage"
    and R: "R = {p..<p + 2 ^ page_order (slab_cache s c)}" "R \<subseteq> used (smem s)" "R \<inter> slab_pages s = {}"
    and fresh: "\<And>c'. c' < 13 \<Longrightarrow> a \<notin> slabs s c'"
    and off: "\<And>j. off_slab (slab_cache s c) \<Longrightarrow> slab_cachep (slab_cache s c) = Some j \<Longrightarrow> \<exists>a'\<in>slabs s j. a \<in> objs s j a'"
    and on: "\<not> off_slab (slab_cache s c) \<Longrightarrow> a = page2pa p"
  shows "slab_inv {a} (link_state c p a s)" "same_geo s (link_state c p a s)" "slab_live (link_state c p a s) = slab_live s"
    "slab_pages (link_state c p a s) = slab_pages s \<union> R"
    "ctrl (link_state c p a s) = ctrl s \<union> (if off_slab (slab_cache s c) then {a} else {})"
    "used (smem (link_state c p a s)) = used (smem s)"
    "slabs_notfull (slab_cache (link_state c p a s) c) = a # slabs_notfull (slab_cache s c)"
    "page_cache (link_state c p a s) q = (if q \<in> R then c else page_cache s q)"
proof -
  let ?off = "c_offset (slab_cache s c)" and ?n = "num (slab_cache s c)" and ?o = "2 ^ page_order (slab_cache s c)"
  let ?s1 = "mod_slab a (\<lambda>d. d\<lparr>inuse := 0, s_offset := ?off, s_mem := page2pa p + of_nat ?off\<rparr>) s"
  let ?s2 = "mark_pages p ?o c a ?s1"
  define d where "d = (slab_at s a)\<lparr>inuse := 0, s_offset := ?off, s_mem := page2pa p + of_nat ?off,
    bufctl := (foldl (\<lambda>b i. b(i := i + 1)) (bufctl (slab_at s a)) [0..<?n])(?n - 1 := BUFCTL_END), s_free := 0\<rparr>"
  have m: "flag_only ?s1 ?s2" "PageSlab q ?s2 = (q \<in> R \<or> PageSlab q s)"
    "page_cache ?s2 q = (if q \<in> R then c else page_cache s q)" "page_slab ?s2 q = (if q \<in> R then a else page_slab s q)" for q
    using mark_pages_ok [of ?s1 p ?o c a] unfolding R(1) by (simp_all add: mod_simps)
  have f: "slab_cache ?s2 = slab_cache s" "slab_at ?s2 = slab_at ?s1" "used (smem ?s2) = used (smem s)"
    "ff_inv npage (phys (smem ?s2)) = ff_inv npage (phys (smem s))"
    using m(1) by (simp_all add: flag_only_def mod_simps)
  have s': "slab_at (link_state c p a s) = (slab_at s)(a := d)"
    "slab_cache (link_state c p a s) = (slab_cache s)(c := (slab_cache s c)\<lparr>slabs_notfull := a # slabs_notfull (slab_cache s c)\<rparr>)"
    "smem (link_state c p a s) = smem ?s2" "page_cache (link_state c p a s) = page_cache ?s2"
    "page_slab (link_state c p a s) = page_slab ?s2" "PageSlab q (link_state c p a s) = PageSlab q ?s2" for q
    unfolding link_state_def Let_def by (simp_all add: mod_simps f d_def)
  have b: "bufctl d i = (if i = ?n - 1 then BUFCTL_END else i + 1)" if "i < ?n" for i
    using that by (simp add: d_def init_bufctl)
  have i: "ff_inv npage (phys (smem (link_state c p a s)))" using f(4) s'(3) assms(1) by (simp add: slab_inv_def)
  have d: "s_mem d = page2pa p + of_nat ?off" "s_offset d = ?off" "inuse d = 0" "s_free d = 0" by (simp_all add: d_def)
  have mm: "used (smem (link_state c p a s)) = used (smem s)" "PageSlab q (link_state c p a s) \<longleftrightarrow> q \<in> R \<or> PageSlab q s"
    "page_cache (link_state c p a s) q = (if q \<in> R then c else page_cache s q)"
    "page_slab (link_state c p a s) q = (if q \<in> R then a else page_slab s q)" for q
    unfolding s' f(3) m by (rule refl)+
  show "slab_inv {a} (link_state c p a s)"
    by (rule link_slab(1) [where d = d]) (fact assms s' d b i mm)+
  show "same_geo s (link_state c p a s)"
    by (rule link_slab(2) [where d = d]) (fact assms s' d b i mm)+
  show "slab_live (link_state c p a s) = slab_live s"
    by (rule link_slab(3) [where d = d]) (fact assms s' d b i mm)+
  show "slab_pages (link_state c p a s) = slab_pages s \<union> R"
    by (rule link_slab(4) [where d = d]) (fact assms s' d b i mm)+
  show "ctrl (link_state c p a s) = ctrl s \<union> (if off_slab (slab_cache s c) then {a} else {})"
    by (rule link_slab(5) [where d = d]) (fact assms s' d b i mm)+
  show "used (smem (link_state c p a s)) = used (smem s)" using s'(3) f(3) by simp
  show "slabs_notfull (slab_cache (link_state c p a s) c) = a # slabs_notfull (slab_cache s c)" using s'(2) by simp
  show "page_cache (link_state c p a s) q = (if q \<in> R then c else page_cache s q)" by (rule mm(3))
qed


section \<open>Allocation from a cache\<close>

definition alloc_post :: "nat \<Rightarrow> slab_state \<Rightarrow> u32 option \<Rightarrow> slab_state \<Rightarrow> bool" where
  "alloc_post c s r s' \<longleftrightarrow> slab_inv {} s' \<and> same_geo s s' \<and> outside s' = outside s \<and> slab_live s \<subseteq> slab_live s' \<and>
     (\<forall>q\<in>slab_pages s. q \<in> slab_pages s' \<and> page_cache s' q = page_cache s q) \<and> (case r of
     None \<Rightarrow> user s' = user s
   | Some x \<Rightarrow> x \<notin> slab_live s \<and> user s' = insert x (user s) \<and>
       (\<exists>a\<in>slabs s' c. \<exists>i<num (slab_cache s' c). x = obj s' c a i))"

lemma alloc_hit:
  assumes "slab_inv E s" "c < 13" "slabs_notfull (slab_cache s c) = a # as" "E \<subseteq> {a}"
  shows "\<exists>x s'. kmem_cache_alloc (Suc k) c s = Some (Some x, s') \<and> alloc_post c s (Some x) s'"
proof -
  obtain x s' where r: "kmem_cache_alloc_one c a s = (x, s')" by (cases "kmem_cache_alloc_one c a s")
  have "a \<in> set (slabs_notfull (slab_cache s c))" using assms(3) by simp
  note o = alloc_one_ok [OF assms(1,2) this r assms(4)]
  have "user s' = insert x (user s)"
    using o(3-5) ctrl_live [OF assms(1)] by (auto simp: user_def)
  then have "alloc_post c s (Some x) s'" using o by (auto simp: alloc_post_def outside_def)
  then show ?thesis using assms(3) r by simp
qed

lemma alloc_post_from:
  assumes "alloc_post c s r s'" "same_geo s0 s" "slab_live s0 \<subseteq> slab_live s" "user s = user s0" "outside s = outside s0"
    "\<And>q. q \<in> slab_pages s0 \<Longrightarrow> q \<in> slab_pages s \<and> page_cache s q = page_cache s0 q"
  shows "alloc_post c s0 r s'"
  using assms same_geo_trans [OF assms(2)] by (auto simp: alloc_post_def split: option.splits)

lemma run_pages:
  assumes "alloc_pages n m = Some (r, m')" "ff_inv npage (phys m)" "0 < n"
  shows "ff_inv npage (phys m')" "slab_bit m' = slab_bit m" "r = None \<Longrightarrow> m' = m"
    "r = Some p \<Longrightarrow> p + n \<le> npage" "r = Some p \<Longrightarrow> {p..<p + n} \<inter> used m = {}"
    "r = Some p \<Longrightarrow> used m' = used m \<union> {p..<p + n}"
    "r = None \<Longrightarrow> \<not> {b..<b + n} \<subseteq> free_set (phys m)"
    "r = Some p \<Longrightarrow> free_set (phys m') = free_set (phys m) - {p..<p + n}"
  using alloc_run_ok [OF assms(2,3)] assms(1) by auto

lemma grown_mem:
  assumes "slab_inv {} s" "alloc_pages n (smem s) = Some (Some p, m')" "0 < n"
  shows "slab_inv {} (s\<lparr>smem := m'\<rparr>)" "p + n \<le> npage" "{p..<p + n} \<inter> slab_pages s = {}"
    "outside (s\<lparr>smem := m'\<rparr>) = outside s \<union> {p..<p + n}" "{p..<p + n} \<inter> outside s = {}" "{p..<p + n} \<subseteq> used m'"
proof -
  have "ff_inv npage (phys (smem s))" using assms(1) by (simp add: slab_inv_def)
  note r = run_pages [OF assms(2) this assms(3)]
  have u: "used m' = used (smem s) \<union> {p..<p + n}" using r(6) by simp
  have d: "{p..<p + n} \<inter> used (smem s) = {}" using r(5) by simp
  show "slab_inv {} (s\<lparr>smem := m'\<rparr>)"
    using used_pages [OF assms(1)] u r(2) by (intro smem_inv [OF assms(1) r(1)]) (auto simp del: atLeastLessThan_iff)
  show "p + n \<le> npage" using r(4) by simp
  show k: "{p..<p + n} \<inter> slab_pages s = {}" using d used_pages [OF assms(1)] by blast
  show "outside (s\<lparr>smem := m'\<rparr>) = outside s \<union> {p..<p + n}"
    unfolding outside_def smem_view using u k by (simp del: atLeastLessThan_iff) blast
  show "{p..<p + n} \<inter> outside s = {}" "{p..<p + n} \<subseteq> used m'" using d u unfolding outside_def by blast+
qed

text \<open>A control structure lies in the frames of a slab.\<close>

lemma slab_addr:
  assumes inv: "slab_inv E s" and c: "c < 13" and x: "x \<in> slabs s c"
  shows "\<exists>q. kva2page x = Some q \<and> q \<in> slab_pages s"
proof (cases "off_slab (slab_cache s c)")
  case True
  then have "x \<in> slab_live s" using subsetD [OF ctrl_live [OF inv], of x] ctrl_iff [of x s] c x by blast
  then obtain c1 a1 i where i: "c1 < 13" "a1 \<in> slabs s c1" "i < num (slab_cache s c1)" "x = obj s c1 a1 i"
    unfolding live_iff by blast
  from obj_addr(3) [OF slab_invD(3) [OF inv i(1,2)] slab_invD(1) [OF inv i(1)] i(3)]
  obtain q where "kva2page x = Some q" "q \<in> pages_of s c1 a1" unfolding i(4) by blast
  then show ?thesis using i(1,2) unfolding slab_pages_def slab_limits by blast
next
  case False
  note ok = slab_invD(3) [OF inv c x]
  have h: "head s x < npage" using slab_okD(3) [OF ok] zero_less_power [of "2 :: nat" "page_order (slab_cache s c)"] by linarith
  have "kva2page x = Some (head s x)" using slab_okD(9) [OF ok False] kernel_conversions(3) [OF h] by simp
  moreover have "head s x \<in> slab_pages s" using head_in c x unfolding slab_pages_def slab_limits by blast
  ultimately show ?thesis by blast
qed

lemma alloc_small:
  assumes inv: "slab_inv {} s" and c: "c < 4"
  shows "\<exists>r s'. kmem_cache_alloc (Suc (Suc k)) c s = Some (r, s') \<and> alloc_post c s r s' \<and>
    (r = None \<longrightarrow> free_set (phys (smem s)) = {})"
proof (cases "slabs_notfull (slab_cache s c)")
  case (Cons a as)
  have "c < 13" using c by simp
  from alloc_hit [OF inv this Cons, of "Suc k"] show ?thesis by blast
next
  case Nil
  have c13: "c < 13" using c by simp
  note kc = cache_okD [OF slab_invD(1) [OF inv c13]]
  have on: "\<not> off_slab (slab_cache s c)" using kc(6) c by simp
  define n :: nat where "n = 2 ^ page_order (slab_cache s c)"
  have n: "0 < n" by (simp add: n_def)
  have ff: "ff_inv npage (phys (smem s))" using inv by (simp add: slab_inv_def)
  obtain r m' where a: "alloc_pages n (smem s) = Some (r, m')" using alloc_run_ok [OF ff n] by blast
  show ?thesis
  proof (cases r)
    case None
    then have "m' = smem s" using run_pages(3) [OF a ff n] by simp
    then have "kmem_cache_alloc (Suc (Suc k)) c s = Some (None, s)"
      using Nil a None by (simp add: kmem_cache_grow_def n_def)
    moreover have "alloc_post c s None s" using inv by (simp add: alloc_post_def same_geo_def)
    moreover have "free_set (phys (smem s)) = {}"
      using run_pages(7) [OF a ff n None] kc(9) [OF on] by (auto simp: n_def)
    ultimately show ?thesis by blast
  next
    case (Some p)
    let ?s1 = "s\<lparr>smem := m'\<rparr>" and ?R = "{p..<p + n}" and ?a = "page2pa p"
    let ?s2 = "link_state c p ?a ?s1"
    note g = grown_mem [OF inv a [unfolded Some] n]
    have p: "p < npage" using g(2) n by simp
    have fresh: "?a \<notin> slabs ?s1 c'" if c': "c' < 13" for c'
    proof
      assume "?a \<in> slabs ?s1 c'"
      then have "?a \<in> slabs s c'" by (simp add: smem_view)
      then have "p \<in> slab_pages s" using slab_addr [OF inv c'] p by fastforce
      moreover have "p \<in> ?R" using n by simp
      ultimately show False using g(3) by blast
    qed
    have cs: "slab_cache ?s1 = slab_cache s" by simp
    have h1: "p + 2 ^ page_order (slab_cache ?s1 c) \<le> npage" "?R = {p..<p + 2 ^ page_order (slab_cache ?s1 c)}"
      "?R \<subseteq> used (smem ?s1)" "?R \<inter> slab_pages ?s1 = {}"
      using g by (simp_all add: n_def smem_view)
    note l = link_state_ok [OF g(1) c13 h1 fresh, unfolded cs, simplified on not_False_eq_True simp_thms]
    have l': "slab_inv {?a} ?s2" "same_geo ?s1 ?s2" "slab_live ?s2 = slab_live ?s1" "slab_pages ?s2 = slab_pages ?s1 \<union> ?R"
      "ctrl ?s2 = ctrl ?s1" "used (smem ?s2) = used (smem ?s1)" "slabs_notfull (slab_cache ?s2 c) = [?a]"
      "page_cache ?s2 q = (if q \<in> ?R then c else page_cache s q)" for q
      using l(1-7) l(8) [of q] on Nil by (simp_all del: atLeastLessThan_iff)
    obtain x s' where x: "kmem_cache_alloc (Suc k) c ?s2 = Some (Some x, s')" "alloc_post c ?s2 (Some x) s'"
      using alloc_hit [OF l'(1) c13 l'(7)] by blast
    have gr: "kmem_cache_grow f c s = Some (True, ?s2)" for f
      using a Some p on by (simp add: kmem_cache_grow_def n_def kmem_cache_slabmgmt_def link_state_def Let_def mod_simps)
    have o: "outside ?s2 = outside s" using g(3,4,5) l'(4,6) unfolding outside_def smem_view by (simp del: atLeastLessThan_iff) blast
    have pc: "q \<in> slab_pages ?s2 \<and> page_cache ?s2 q = page_cache s q" if "q \<in> slab_pages s" for q
      using that g(3) l'(4,8) unfolding smem_view by (simp del: atLeastLessThan_iff) blast
    have "alloc_post c s (Some x) s'"
      by (rule alloc_post_from [OF x(2) same_geo_trans [OF smem_view(1) l'(2)] _ _ o pc])
        (use l' in \<open>simp_all add: smem_view user_def\<close>)
    then show ?thesis using Nil x(1) by (simp add: gr)
  qed
qed


text \<open>An object of an on-slab cache is not the head of an on-slab slab.\<close>

lemma obj_not_slab:
  assumes inv: "slab_inv E s" and j: "j < 4" "a \<in> slabs s j" "i < num (slab_cache s j)" and c: "c < 13"
    "\<not> off_slab (slab_cache s c)"
  shows "obj s j a i \<notin> slabs s c"
proof
  assume x: "obj s j a i \<in> slabs s c"
  have j13: "j < 13" using j(1) by simp
  note ok = slab_invD(3) [OF inv c(1) x] slab_invD(3) [OF inv j13 j(2)]
  note k = slab_invD(1) [OF inv j13]
  have h: "head s (obj s j a i) < npage"
    using slab_okD(3) [OF ok(1)] zero_less_power [of "2 :: nat" "page_order (slab_cache s c)"] by linarith
  have e: "obj s j a i = page2pa (head s (obj s j a i))" using slab_okD(9) [OF ok(1) c(2)] .
  then have kv: "kva2page (obj s j a i) = Some (head s (obj s j a i))" using kernel_conversions(3) [OF h] by simp
  obtain q where q: "kva2page (obj s j a i) = Some q" "q \<in> pages_of s j a" using obj_addr(3) [OF ok(2) k j(3)] by blast
  then have "head s (obj s j a i) \<in> pages_of s j a" using kv by simp
  from slab_unique [OF inv c(1) j13 x j(2) head_in this] have ca: "c = j" "obj s j a i = a" by blast+
  have on: "\<not> off_slab (slab_cache s j)" using c(2) ca(1) by simp
  have "unat (page2pa (head s a)) = 0xbc000000 + head s a * 4096" using h ca(2) by (intro unat_page2pa) simp
  moreover have "unat (obj s j a i) = 0xbc000000 + head s a * 4096 + c_offset (slab_cache s j) + i * 2 ^ (j + 5)"
    using obj_addr(2) [OF ok(2) k j(3)] .
  moreover have "obj s j a i = page2pa (head s a)" using e ca(2) by simp
  ultimately have "c_offset (slab_cache s j) = 0" by simp
  then show False using cache_okD(8) [OF k on] by (simp add: sizeof_slab_def)
qed

lemma alloc_big:
  assumes inv: "slab_inv {} s" and c: "4 \<le> c" "c < 13"
  shows "\<exists>r s'. kmem_cache_alloc (Suc (Suc (Suc k))) c s = Some (r, s') \<and> alloc_post c s r s' \<and>
    (r = None \<longrightarrow> (\<forall>b. \<not> {b..<b + 2 ^ page_order (slab_cache s c) + 1} \<subseteq> free_set (phys (smem s))))"
proof (cases "slabs_notfull (slab_cache s c)")
  case (Cons a as)
  from alloc_hit [OF inv c(2) this, of "Suc (Suc k)"] show ?thesis by blast
next
  case Nil
  have off: "off_slab (slab_cache s c)" using cache_okD(6) [OF slab_invD(1) [OF inv c(2)]] c by simp
  obtain j where j: "j < 4" "slab_cachep (slab_cache s c) = Some j"
    using cache_okD(7) [OF slab_invD(1) [OF inv c(2)] off] by blast
  have j13: "j < 13" using j(1) by simp
  define n :: nat where "n = 2 ^ page_order (slab_cache s c)"
  have n: "0 < n" by (simp add: n_def)
  have ff: "ff_inv npage (phys (smem s))" using inv by (simp add: slab_inv_def)
  obtain r m' where a: "alloc_pages n (smem s) = Some (r, m')" using alloc_run_ok [OF ff n] by blast
  show ?thesis
  proof (cases r)
    case None
    then have "m' = smem s" using run_pages(3) [OF a ff n] by simp
    then have "kmem_cache_alloc (Suc (Suc (Suc k))) c s = Some (None, s)"
      using Nil a None by (simp add: kmem_cache_grow_def n_def)
    moreover have "alloc_post c s None s" using inv by (simp add: alloc_post_def same_geo_def)
    moreover have "\<not> {b..<b + n + 1} \<subseteq> free_set (phys (smem s))" for b
      using run_pages(7) [OF a ff n None, of b] by force
    ultimately show ?thesis unfolding n_def by blast
  next
    case (Some p)
    let ?s1 = "s\<lparr>smem := m'\<rparr>" and ?R = "{p..<p + n}"
    note g = grown_mem [OF inv a [unfolded Some] n]
    have p: "p < npage" using g(2) n by simp
    obtain x s2 where x: "kmem_cache_alloc (Suc (Suc k)) j ?s1 = Some (x, s2)" "alloc_post j ?s1 x s2"
      "x = None \<longrightarrow> free_set (phys m') = {}"
      using alloc_small [OF g(1) j(1), of k] by (auto simp del: kmem_cache_alloc.simps)
    have s2: "slab_inv {} s2" "same_geo ?s1 s2" "outside s2 = outside s \<union> ?R"
      using x(2) g(4) by (simp_all add: alloc_post_def)
    note geo = same_geo_trans [OF smem_view(1) s2(2)]
    note gg = same_geoD [OF geo]
    have R2: "?R \<subseteq> used (smem s2)" "?R \<inter> slab_pages s2 = {}" using s2(3) unfolding outside_def by blast+
    show ?thesis
    proof (cases x)
      case x_none: None
      have ff2: "ff_inv npage (phys (smem s2))" using s2(1) by (simp add: slab_inv_def)
      obtain m3 where m3: "free_pages p n (smem s2) = Some m3" "ff_inv npage (phys m3)" "used m3 = used (smem s2) - ?R"
        "\<forall>q. q \<notin> ?R \<longrightarrow> slab_bit m3 q = slab_bit (smem s2) q"
        using free_run_ok [OF ff2 n R2(1)] by blast
      let ?s3 = "s2\<lparr>smem := m3\<rparr>"
      have i3: "slab_inv {} ?s3"
      proof (rule smem_inv [OF s2(1) m3(2)])
        fix q assume "q \<in> slab_pages s2"
        then show "q \<in> used m3 \<and> slab_bit m3 q = slab_bit (smem s2) q" using used_pages [OF s2(1)] R2(2) m3(3,4) by blast
      qed
      have "outside ?s3 = outside s"
        using s2(3) g(5) m3(3) unfolding outside_def smem_view by (simp del: atLeastLessThan_iff) blast
      then have "alloc_post c s None ?s3"
        using i3 x(2) x_none same_geo_trans [OF geo smem_view(1)] by (simp add: alloc_post_def smem_view)
      moreover have "kmem_cache_alloc (Suc (Suc (Suc k))) c s = Some (None, ?s3)"
        using Nil a Some p off j(2) x(1) x_none m3(1) gg(6) by (simp add: kmem_cache_grow_def n_def kmem_cache_slabmgmt_def)
      moreover have "\<not> {b..<b + n + 1} \<subseteq> free_set (phys (smem s))" for b
      proof
        assume "{b..<b + n + 1} \<subseteq> free_set (phys (smem s))"
        moreover have "free_set (phys (smem s)) \<subseteq> ?R" using run_pages(8) [OF a ff n Some] x(3) x_none by blast
        ultimately have "card {b..<b + n + 1} \<le> card ?R" by (intro card_mono [OF finite_atLeastLessThan]) (rule subset_trans)
        then show False by simp
      qed
      ultimately show ?thesis unfolding n_def by blast
    next
      case x_some: (Some b)
      let ?s3 = "link_state c p b s2"
      obtain a' i where b: "b \<notin> slab_live s" "user s2 = insert b (user s)" "a' \<in> slabs s2 j" "i < num (slab_cache s2 j)"
        "b = obj s2 j a' i" using x(2) x_some by (auto simp: alloc_post_def smem_view)
      have bu: "b \<in> slab_live s2" "b \<notin> ctrl s2" using b(2) by (auto simp: user_def)
      have fresh: "b \<notin> slabs s2 c'" if c': "c' < 13" for c'
        using bu(2) obj_not_slab [OF s2(1) j(1) b(3,4) c'] b(5) ctrl_iff [of b s2] c' by blast
      have bo: "b \<in> objs s2 j a'"
        using obj_live [OF s2(1) j13 b(3,4)] bu(1) b(4,5) by (auto simp: objs_def)
      have h1: "p + 2 ^ page_order (slab_cache s2 c) \<le> npage" "?R = {p..<p + 2 ^ page_order (slab_cache s2 c)}"
        using g(2) gg(6) by (simp_all add: n_def)
      have h2: "\<exists>a'\<in>slabs s2 j'. b \<in> objs s2 j' a'" if "slab_cachep (slab_cache s2 c) = Some j'" for j'
        using that gg(7) j(2) b(3) bo by auto
      have h3: "b = page2pa p" if "\<not> off_slab (slab_cache s2 c)" using that off gg(5) by simp
      note l = link_state_ok [OF s2(1) c(2) h1 R2 fresh h2 h3]
      have nf: "slabs_notfull (slab_cache ?s3 c) = b # slabs_notfull (slab_cache s2 c)" using l(7) .
      obtain y s' where y: "kmem_cache_alloc (Suc (Suc k)) c ?s3 = Some (Some y, s')" "alloc_post c ?s3 (Some y) s'"
        using alloc_hit [OF l(1) c(2) nf] by blast
      have gr: "kmem_cache_grow (kmem_cache_alloc (Suc (Suc k))) c s = Some (True, ?s3)"
        using a Some p off j(2) x(1) x_some gg by (simp add: kmem_cache_grow_def n_def kmem_cache_slabmgmt_def link_state_def Let_def mod_simps)
      have us: "user ?s3 = user s" using l(3,5) b(1,2) gg(5) off by (auto simp: user_def)
      have o: "outside ?s3 = outside s" using s2(3) R2 g(5) l(4,6) unfolding outside_def by blast
      have pc: "q \<in> slab_pages ?s3 \<and> page_cache ?s3 q = page_cache s q" if "q \<in> slab_pages s" for q
        using that x(2) R2(2) l(4) l(8) [of q] unfolding alloc_post_def smem_view by (simp del: atLeastLessThan_iff) blast
      have lv: "slab_live s \<subseteq> slab_live ?s3" using l(3) x(2) by (simp add: alloc_post_def smem_view)
      have "alloc_post c s (Some y) s'" using alloc_post_from [OF y(2) same_geo_trans [OF geo l(2)] lv us o pc] .
      then show ?thesis using Nil y(1) by (simp add: gr)
    qed
  qed
qed

end
