(* ===== verification/Slab_Free.thy ===== *)
theory Slab_Free
  imports Slab_Alloc
begin

text \<open>
  \<^verbatim>\<open>kmem_cache_free\<close> and \<^verbatim>\<open>kfree\<close> (\<^verbatim>\<open>kern/mm/kmalloc.c\<close>): the object leaves its slab; the slab goes
  back to the list of partly used slabs when it was full, and its frames and its control structure
  are released when it was the last one.
\<close>

section \<open>The object returned\<close>

definition holds_obj :: "slab_state \<Rightarrow> nat \<Rightarrow> u32 \<Rightarrow> nat \<Rightarrow> u32 \<Rightarrow> bool" where
  "holds_obj s c a i x \<longleftrightarrow> c < 13 \<and> a \<in> slabs s c \<and> i < num (slab_cache s c) \<and> i \<notin> set (frees s c a) \<and> x = obj s c a i"

lemma holds_objD:
  assumes "holds_obj s c a i x"
  shows "c < 13" "a \<in> slabs s c" "i < num (slab_cache s c)" "i \<notin> set (frees s c a)" "x = obj s c a i"
  using assms by (simp_all add: holds_obj_def)

lemma holds_inuse:
  assumes "slab_inv E s" "holds_obj s c a i x"
  shows "0 < inuse (slab_at s a)" "inuse (slab_at s a) \<le> num (slab_cache s c)"
    "inuse (slab_at s a) = 1 \<Longrightarrow> objs s c a = {x}"
proof -
  note h = holds_objD [OF assms(2)]
  note ok = slab_invD(3) [OF assms(1) h(1,2)]
  have "distinct (i # frees s c a)" "set (i # frees s c a) \<subseteq> {..<num (slab_cache s c)}"
    using slab_okD(6,7) [OF ok] h(3,4) by simp_all
  then have card: "card (set (i # frees s c a)) = Suc (num (slab_cache s c) - inuse (slab_at s a))"
    "card (set (i # frees s c a)) \<le> num (slab_cache s c)"
    using card_mono [of "{..<num (slab_cache s c)}" "set (i # frees s c a)"] distinct_card [of "i # frees s c a"]
    by (simp_all add: frees_def chain_length del: set_simps)
  then show "0 < inuse (slab_at s a)" using h(3) by simp
  show "inuse (slab_at s a) \<le> num (slab_cache s c)" using slab_okD(4) [OF ok] .
  assume "inuse (slab_at s a) = 1"
  then have "card (set (i # frees s c a)) = card {..<num (slab_cache s c)}" using card h(3) by simp
  then have "set (i # frees s c a) = {..<num (slab_cache s c)}"
    using \<open>set (i # frees s c a) \<subseteq> _\<close> by (intro card_subset_eq) simp_all
  then have "{..<num (slab_cache s c)} - set (frees s c a) = {i}" using h(4) by auto
  then show "objs s c a = {x}" using h(5) by (simp add: objs_def)
qed

lemma objnr:
  assumes "slab_inv E s" "holds_obj s c a i x"
  shows "unat (drop_bit (objsize_shift (slab_cache s c)) (x - s_mem (slab_at s a))) = i"
proof -
  note h = holds_objD [OF assms(2)]
  note k = cache_okD [OF slab_invD(1) [OF assms(1) h(1)]]
  have le: "(2 :: nat) ^ (c + 5) \<le> 2 ^ 17" using h(1) by (intro power_increasing) simp_all
  have "i * 2 ^ (c + 5) \<le> 113 * 2 ^ 17" using h(3) k(4) le by (intro mult_le_mono) simp_all
  then have "unat (of_nat (i * 2 ^ (c + 5)) :: u32) = i * 2 ^ (c + 5)"
    by (simp only: unsigned_of_nat) (simp add: take_bit_nat_eq_self)
  moreover have "x - s_mem (slab_at s a) = of_nat (i * 2 ^ (c + 5))" using h(5) k(1) by (simp add: obj_def)
  ultimately show ?thesis using k(2) by (simp only: unat_shiftr) simp
qed

definition free_post :: "slab_state \<Rightarrow> u32 \<Rightarrow> slab_state \<Rightarrow> bool" where
  "free_post s x s' \<longleftrightarrow> slab_inv {} s' \<and> same_geo s s' \<and> outside s' = outside s \<and> user s' = user s - {x} \<and>
     page_cache s' = page_cache s"

text \<open>The slab with the object put back in front of its free objects.\<close>

definition put_back :: "slab_state \<Rightarrow> u32 \<Rightarrow> nat \<Rightarrow> slab_t" where
  "put_back s a i = (slab_at s a)\<lparr>bufctl := (bufctl (slab_at s a))(i := s_free (slab_at s a)), s_free := i,
     inuse := inuse (slab_at s a) - 1\<rparr>"

lemma put_back_chain:
  assumes inv: "slab_inv E s" and h: "holds_obj s c a i x"
  shows "chain (bufctl (put_back s a i)) (s_free (put_back s a i)) (i # frees s c a)"
    "chain_of (bufctl (put_back s a i)) (num (slab_cache s c) - inuse (put_back s a i)) (s_free (put_back s a i)) = i # frees s c a"
    "distinct (i # frees s c a)" "set (i # frees s c a) \<subseteq> {..<num (slab_cache s c)}"
    "inuse (put_back s a i) \<le> num (slab_cache s c)"
proof -
  note hh = holds_objD [OF h]
  note ok = slab_okD [OF slab_invD(3) [OF inv hh(1,2)]]
  note u = holds_inuse [OF inv h]
  have n: "num (slab_cache s c) - (inuse (slab_at s a) - 1) = Suc (num (slab_cache s c) - inuse (slab_at s a))" using u(1,2) by linarith
  have nf: "i \<notin> set (chain_of (bufctl (slab_at s a)) (num (slab_cache s c) - inuse (slab_at s a)) (s_free (slab_at s a)))"
    using hh(4) by (simp add: frees_def)
  show "chain (bufctl (put_back s a i)) (s_free (put_back s a i)) (i # frees s c a)"
    using ok(5) hh(4) by (simp add: put_back_def chain_upd)
  show "chain_of (bufctl (put_back s a i)) (num (slab_cache s c) - inuse (put_back s a i)) (s_free (put_back s a i)) = i # frees s c a"
    using chain_of_upd [OF nf] by (simp add: put_back_def n [unfolded One_nat_def] frees_def)
  show "distinct (i # frees s c a)" "set (i # frees s c a) \<subseteq> {..<num (slab_cache s c)}" using ok(6,7) hh(3,4) by simp_all
  show "inuse (put_back s a i) \<le> num (slab_cache s c)" using u by (simp add: put_back_def)
qed

lemma free_one_keep:
  assumes inv: "slab_inv {} s" and h: "holds_obj s c a i x" and x: "x \<notin> ctrl s" and two: "inuse (slab_at s a) \<noteq> 1"
  shows "\<exists>s'. kmem_cache_free_one free c a x s = Some s' \<and> free_post s x s'"
proof -
  note hh = holds_objD [OF h]
  note u = holds_inuse [OF inv h] and ds = slab_invD(2) [OF inv hh(1)] and pb = put_back_chain [OF inv h]
  have full: "frees s c a = [] \<longleftrightarrow> a \<in> set (slabs_full (slab_cache s c))" using slab_invD(5) [OF inv hh(1,2)] .
  have num: "frees s c a = [] \<longleftrightarrow> inuse (slab_at s a) = num (slab_cache s c)"
    using u(2) unfolding frees_def length_0_conv [symmetric] chain_length by linarith
  define g where "g = (\<lambda>d :: kmem_cache. if frees s c a = [] then (slab_unlink a d)\<lparr>slabs_notfull := a # slabs_notfull (slab_unlink a d)\<rparr> else d)"
  define s' where "s' = s\<lparr>slab_at := (slab_at s)(a := put_back s a i), slab_cache := (slab_cache s)(c := g (slab_cache s c))\<rparr>"
  have n1: "inuse (slab_at s a) - 1 = num (slab_cache s c) - 1 \<longleftrightarrow> frees s c a = []"
    using num u(1,2) by linarith
  have r: "kmem_cache_free_one free c a x s = Some s'"
    unfolding kmem_cache_free_one_def Let_def objnr [OF inv h]
    using u(1) two n1 by (simp add: mod_simps s'_def g_def) (auto simp: mod_slab_def mod_cache_def put_back_def)
  have at: "slab_at s' = (slab_at s)(a := put_back s a i)" "s_mem (put_back s a i) = s_mem (slab_at s a)"
    "s_offset (put_back s a i) = s_offset (slab_at s a)" "inuse (put_back s a i) = inuse (slab_at s a) - 1"
    by (simp_all add: s'_def put_back_def)
  have m: "smem s' = smem s" "page_cache s' = page_cache s" "page_slab s' = page_slab s" by (simp_all add: s'_def)
  have ca: "slab_cache s' = (slab_cache s)(c := g (slab_cache s c))" by (simp add: s'_def)
  have geo: "same_geo s s'" using ca by (simp add: same_geo_def g_def slab_unlink_def)
  have sl: "slabs s' c' = slabs s c'" for c'
    using ca full ds by (auto simp: slabs_def g_def slab_unlink_def remove1_idem)
  have fl: "y \<in> set (slabs_full (slab_cache s' c')) \<longleftrightarrow> y \<in> set (slabs_full (slab_cache s c'))" if "y \<noteq> a" for c' y
    using that ca by (simp add: g_def slab_unlink_def)
  have dist: "distinct (slabs_full (slab_cache s' c') @ slabs_notfull (slab_cache s' c'))" if "c' < 13" for c'
    using slab_invD(2) [OF inv that] ca full by (auto simp: g_def slab_unlink_def remove1_idem dest: notin_set_remove1)
  have fa: "i # frees s c a = [] \<longleftrightarrow> a \<in> set (slabs_full (slab_cache s' c))"
    using ca full ds by (auto simp: g_def slab_unlink_def)
  have e: "a \<in> {} \<or> 0 < inuse (put_back s a i)" "{} \<subseteq> insert a ({} :: u32 set)" using at(4) u(1) two by auto
  have cut: "obj s c a ` ({..<num (slab_cache s c)} - set (i # frees s c a)) = objs s c a - {x}"
    using obj_unique [OF inv hh(1) hh(1) hh(2) hh(2)] hh(3,5) unfolding objs_def by fastforce
  have o: "ctrl s \<inter> objs s c a \<subseteq> obj s c a ` ({..<num (slab_cache s c)} - set (i # frees s c a))"
    unfolding cut using x by blast
  note ch = slab_change [OF inv hh(1,2) geo m at(1-3) sl fl dist pb(5,1,2,3,4) fa e o]
  have l: "slab_live s = others a s \<union> objs s c a"
    using live_split [OF hh(2,1)] slab_one_cache [OF inv hh(1) _ hh(2)] by blast
  have "x \<in> objs s c a" using hh(3-5) by (auto simp: objs_def)
  then have "slab_live s' = slab_live s - {x}"
    using ch(2) l others_disjoint [OF inv hh(1,2)] unfolding cut by blast
  then have "user s' = user s - {x}" using ch(3) by (auto simp: user_def)
  moreover have "outside s' = outside s" using ch(4) m by (simp add: outside_def)
  ultimately have "free_post s x s'" using ch(1) geo m(2) by (simp add: free_post_def)
  then show ?thesis using r by blast
qed


section \<open>The last object of a slab\<close>

text \<open>A state without the slab \<open>a\<close>, whose frames are free again.\<close>

lemma drop_slab:
  assumes inv: "slab_inv {} s" and h: "holds_obj s c a i x" and x: "x \<notin> ctrl s" and one: "inuse (slab_at s a) = 1"
    and ca: "slab_cache s' = (slab_cache s)(c := slab_unlink a (slab_cache s c))"
    and at: "\<And>y. y \<noteq> a \<Longrightarrow> slab_at s' y = slab_at s y"
    and mem: "ff_inv npage (phys (smem s'))" "used (smem s') = used (smem s) - pages_of s c a"
      "page_cache s' = page_cache s" "page_slab s' = page_slab s" "\<And>q. q \<notin> pages_of s c a \<Longrightarrow> PageSlab q s' = PageSlab q s"
  shows "slab_inv {} s'" "same_geo s s'" "slab_live s' = slab_live s - {x}" "outside s' = outside s"
    "ctrl s' = ctrl s - (if off_slab (slab_cache s c) then {a} else {})"
proof -
  note hh = holds_objD [OF h]
  have ds: "distinct (slabs_full (slab_cache s c') @ slabs_notfull (slab_cache s c'))" if "c' < 13" for c'
    using slab_invD(2) [OF inv that] .
  show geo: "same_geo s s'" using ca by (simp add: same_geo_def slab_unlink_def)
  have own: "c' = c" if "c' < 13" "a \<in> slabs s c'" for c' using slab_one_cache [OF inv hh(1) that(1) hh(2) that(2)] by simp
  have sl: "slabs s' c' = slabs s c' - {a}" if "c' < 13" for c'
    using ca ds [OF that] own [OF that] by (cases "c' = c") (auto simp: slabs_def slab_unlink_def dest: notin_set_remove1)
  have away: "q \<notin> pages_of s c a" if "c' < 13" "y \<in> slabs s c'" "y \<noteq> a" "q \<in> pages_of s c' y" for c' y q
    using slab_unique [OF inv hh(1) that(1) hh(2) that(2) _ that(4)] that(3) by blast
  show "slab_inv {} s'"
  proof (rule slab_inv_step [OF inv geo mem(1), where a = a])
    show "y \<in> slabs s c' \<and> slab_at s' y = slab_at s y \<and> (y \<in> set (slabs_full (slab_cache s' c')) \<longleftrightarrow> y \<in> set (slabs_full (slab_cache s c')))"
      if "c' < 13" "y \<in> slabs s' c'" "y \<noteq> a" for c' y using that sl at ca by (simp add: slab_unlink_def)
    show "q \<in> used (smem s') \<and> PageSlab q s' \<and> page_cache s' q = page_cache s q \<and> page_slab s' q = page_slab s q"
      if y: "c' < 13" "y \<in> slabs s' c'" "y \<noteq> a" "q \<in> pages_of s c' y" for c' y q
    proof -
      have ys: "y \<in> slabs s c'" using y(1,2) sl by blast
      show ?thesis
        using away [OF y(1) ys y(3,4)] slab_okD(8) [OF slab_invD(3) [OF inv y(1) ys] y(4)] mem(2-5) by simp
    qed
    show "distinct (slabs_full (slab_cache s' c') @ slabs_notfull (slab_cache s' c'))" if "c' < 13" for c'
      using ds [OF that] ca by (auto simp: slab_unlink_def dest: notin_set_remove1)
    show "slab_ok s' c' a \<and> (a \<in> {} \<or> 0 < inuse (slab_at s' a)) \<and> (frees s' c' a = [] \<longleftrightarrow> a \<in> set (slabs_full (slab_cache s' c')))"
      if "c' < 13" "a \<in> slabs s' c'" for c' using that sl by blast
    show "\<exists>a'\<in>slabs s' j. y \<in> objs s' j a'"
      if y: "c' < 13" "off_slab (slab_cache s c')" "slab_cachep (slab_cache s c') = Some j" "y \<in> slabs s' c'" for c' j y
    proof -
      have ys: "y \<in> slabs s c'" using y(1,4) sl by blast
      obtain a' where a': "a' \<in> slabs s j" "y \<in> objs s j a'" using slab_invD(6) [OF inv y(1-3) ys] by blast
      have j: "j < 13" using cache_okD(7) [OF slab_invD(1) [OF inv y(1)] y(2)] y(3) by auto
      have "a' \<noteq> a"
      proof
        assume "a' = a"
        then have "y = x" using own [OF j] a' holds_inuse(3) [OF inv h one] by simp
        then show False using x y(1,2) ys ctrl_iff [of x s] by blast
      qed
      then show ?thesis using slab_view(5) [OF geo at] a' sl [OF j] by blast
    qed
  qed simp
  have "slab_live s' = others a s'" using sl by (intro live_none) simp
  also have "\<dots> = others a s" using others_cong [OF geo at] sl by simp
  finally show "slab_live s' = slab_live s - {x}"
    using live_split [OF hh(2,1) own] others_disjoint [OF inv hh(1,2)] holds_inuse(3) [OF inv h one] by simp
  have pv: "pages_of s' c' y = pages_of s c' y" if "y \<noteq> a" for c' y using slab_view(3) [OF geo at [OF that]] .
  have "slab_pages s' = slab_pages s - pages_of s c a"
  proof (rule set_eqI)
    fix q
    have "q \<in> slab_pages s' \<longleftrightarrow> (\<exists>c'<13. \<exists>y. y \<in> slabs s c' \<and> y \<noteq> a \<and> q \<in> pages_of s c' y)"
      unfolding slab_pages_def slab_limits using sl pv by blast
    also have "\<dots> \<longleftrightarrow> (\<exists>c'<13. \<exists>y. y \<in> slabs s c' \<and> q \<in> pages_of s c' y) \<and> q \<notin> pages_of s c a"
      using away own by metis
    finally show "q \<in> slab_pages s' \<longleftrightarrow> q \<in> slab_pages s - pages_of s c a"
      unfolding slab_pages_def slab_limits by blast
  qed
  moreover have "pages_of s c a \<subseteq> slab_pages s" using hh(1,2) unfolding slab_pages_def slab_limits by blast
  ultimately show "outside s' = outside s" using mem(2) unfolding outside_def by blast
  show "ctrl s' = ctrl s - (if off_slab (slab_cache s c) then {a} else {})"
  proof (rule set_eqI)
    fix y
    have "y \<in> ctrl s' \<longleftrightarrow> y \<in> ctrl s \<and> y \<noteq> a" unfolding ctrl_iff same_geoD(5) [OF geo] using sl by blast
    moreover have "a \<in> ctrl s \<longleftrightarrow> off_slab (slab_cache s c)" using ctrl_iff [of a s] hh(1,2) own by blast
    ultimately show "y \<in> ctrl s' \<longleftrightarrow> y \<in> ctrl s - (if off_slab (slab_cache s c) then {a} else {})" by auto
  qed
qed


lemma destroy_ok:
  assumes inv: "slab_inv {} s" and h: "holds_obj s c a i x" and x: "x \<notin> ctrl s" and one: "inuse (slab_at s a) = 1"
  shows "\<exists>s'. kmem_cache_free_one free c a x s =
      (if off_slab (slab_cache s c) then do { k \<leftarrow> slab_cachep (slab_cache s c); free k a s' } else Some s') \<and>
    slab_inv {} s' \<and> same_geo s s' \<and> slab_live s' = slab_live s - {x} \<and> outside s' = outside s \<and>
    ctrl s' = ctrl s - (if off_slab (slab_cache s c) then {a} else {}) \<and> page_cache s' = page_cache s"
proof -
  note hh = holds_objD [OF h]
  note ok = slab_okD [OF slab_invD(3) [OF inv hh(1,2)]]
  let ?n = "2 ^ page_order (slab_cache s c)" and ?p = "head s a"
  define s1 where "s1 = mod_cache c (slab_unlink a) (s\<lparr>slab_at := (slab_at s)(a := put_back s a i)\<rparr>)"
  have s1: "slab_at s1 = (slab_at s)(a := put_back s a i)" "smem s1 = smem s" "page_cache s1 = page_cache s"
    "page_slab s1 = page_slab s" "slab_cache s1 = (slab_cache s)(c := slab_unlink a (slab_cache s c))"
    "PageSlab q s1 = PageSlab q s" for q
    by (simp_all add: s1_def mod_cache_def PageSlab_def)
  have g: "page_order (slab_cache s1 c) = page_order (slab_cache s c)" "off_slab (slab_cache s1 c) = off_slab (slab_cache s c)"
    "slab_cachep (slab_cache s1 c) = slab_cachep (slab_cache s c)"
    using s1(5) by (simp_all add: slab_unlink_def)
  have P: "pages_of s c a = {?p..<?p + ?n}" by (simp add: pages_of_def)
  have "?p < npage" using ok(3) zero_less_power [of "2 :: nat" "page_order (slab_cache s c)"] by linarith
  moreover have "s_mem (slab_at s1 a) - of_nat (s_offset (slab_at s1 a)) = page2pa ?p"
    using ok(1,2) s1(1) by (simp add: put_back_def)
  ultimately have pg: "kva2page (s_mem (slab_at s1 a) - of_nat (s_offset (slab_at s1 a))) = Some ?p" by simp
  have "\<forall>q\<in>{?p..<?p + ?n}. PageSlab q s1" using ok(8) s1(6) unfolding P by blast
  from unmark_pages_ok [OF this] obtain s2 where s2: "unmark_pages ?p ?n s1 = Some s2" "flag_only s1 s2"
    "page_cache s2 = page_cache s1" "page_slab s2 = page_slab s1" "\<forall>q. PageSlab q s2 = (q \<notin> {?p..<?p + ?n} \<and> PageSlab q s1)"
    by blast
  have f: "slab_cache s2 = slab_cache s1" "slab_at s2 = slab_at s1" "used (smem s2) = used (smem s)"
    "ff_inv npage (phys (smem s2))" using s2(2) s1(2) inv by (simp_all add: flag_only_def slab_inv_def)
  have run: "{?p..<?p + ?n} \<subseteq> used (smem s2)" using ok(8) f(3) unfolding P by blast
  have n: "0 < (2 :: nat) ^ page_order (slab_cache s c)" by simp
  obtain m where m: "free_pages ?p ?n (smem s2) = Some m" "ff_inv npage (phys m)" "used m = used (smem s2) - {?p..<?p + ?n}"
    "\<forall>q. q \<notin> {?p..<?p + ?n} \<longrightarrow> slab_bit m q = slab_bit (smem s2) q"
    using free_run_ok [OF f(4) n run] by blast
  define s' where "s' = s2\<lparr>smem := m\<rparr>"
  have "kmem_cache_free_one free c a x s = kmem_slab_destroy free c a s1"
    unfolding kmem_cache_free_one_def Let_def objnr [OF inv h]
    using one by (simp add: mod_simps) (simp add: s1_def mod_slab_def mod_cache_def put_back_def)
  also have "\<dots> = (if off_slab (slab_cache s c) then do { k \<leftarrow> slab_cachep (slab_cache s c); free k a s' } else Some s')"
    unfolding kmem_slab_destroy_def pg g using s2(1) m(1) f(1) g by (simp add: s'_def)
  finally have r: "kmem_cache_free_one free c a x s = \<dots>" .
  have sc: "slab_cache s' = (slab_cache s)(c := slab_unlink a (slab_cache s c))" using f(1) s1(5) by (simp add: s'_def)
  have at: "slab_at s' y = slab_at s y" if "y \<noteq> a" for y using that f(2) s1(1) by (simp add: s'_def)
  have mem: "ff_inv npage (phys (smem s'))" "used (smem s') = used (smem s) - pages_of s c a"
    "page_cache s' = page_cache s" "page_slab s' = page_slab s"
    using m(2,3) f(3) s2(3,4) s1(3,4) unfolding P by (simp_all add: s'_def)
  have ps: "PageSlab q s' = PageSlab q s" if "q \<notin> pages_of s c a" for q
    using that m(4) s2(5) s1(6) [of q] unfolding P PageSlab_bit s'_def by (simp del: atLeastLessThan_iff)
  from r drop_slab [OF inv h x one sc at mem ps] mem(3) show ?thesis by blast
qed

lemma holds_exists:
  assumes "slab_inv E s" "x \<in> user s"
  shows "\<exists>c a i. holds_obj s c a i x"
  using assms(2) live_iff [of x s] unfolding user_def holds_obj_def by blast

lemma cache_free_step:
  assumes inv: "slab_inv E s" and h: "holds_obj s c a i x"
  shows "kmem_cache_free (Suc k) c' x s = kmem_cache_free_one (kmem_cache_free k) c' a x s"
    "\<exists>q. kva2page x = Some q \<and> page_cache s q = c"
proof -
  note hh = holds_objD [OF h]
  obtain q where q: "kva2page x = Some q" "q \<in> pages_of s c a"
    using obj_addr(3) [OF slab_invD(3) [OF inv hh(1,2)] slab_invD(1) [OF inv hh(1)] hh(3)] hh(5) by blast
  from slab_okD(8) [OF slab_invD(3) [OF inv hh(1,2)] q(2)] q(1)
  show "kmem_cache_free (Suc k) c' x s = kmem_cache_free_one (kmem_cache_free k) c' a x s"
    "\<exists>q. kva2page x = Some q \<and> page_cache s q = c" by simp_all
qed

lemma free_on_slab:
  assumes inv: "slab_inv {} s" and h: "holds_obj s c a i x" and x: "x \<notin> ctrl s" and on: "\<not> off_slab (slab_cache s c)"
  shows "\<exists>s'. kmem_cache_free (Suc k) c x s = Some s' \<and> free_post s x s'"
proof (cases "inuse (slab_at s a) = 1")
  case False
  then show ?thesis using free_one_keep [OF inv h x] cache_free_step(1) [OF inv h] by simp
next
  case True
  obtain s' where s': "kmem_cache_free_one (kmem_cache_free k) c a x s = Some s'" "slab_inv {} s'" "same_geo s s'"
    "slab_live s' = slab_live s - {x}" "outside s' = outside s" "ctrl s' = ctrl s"
    "page_cache s' = page_cache s"
    using destroy_ok [OF inv h x True, of "kmem_cache_free k"] on by auto
  then have "free_post s x s'" unfolding free_post_def user_def by blast
  then show ?thesis using s'(1) cache_free_step(1) [OF inv h] by simp
qed

lemma free_off_slab:
  assumes inv: "slab_inv {} s" and h: "holds_obj s c a i x" and x: "x \<notin> ctrl s" and off: "off_slab (slab_cache s c)"
  shows "\<exists>s'. kmem_cache_free (Suc (Suc k)) c x s = Some s' \<and> free_post s x s'"
proof (cases "inuse (slab_at s a) = 1")
  case False
  then show ?thesis using free_one_keep [OF inv h x] cache_free_step(1) [OF inv h] by simp
next
  case True
  note hh = holds_objD [OF h]
  obtain j where j: "j < 4" "slab_cachep (slab_cache s c) = Some j"
    using cache_okD(7) [OF slab_invD(1) [OF inv hh(1)] off] by blast
  have j13: "j < 13" using j(1) by simp
  have c4: "4 \<le> c" using cache_okD(6) [OF slab_invD(1) [OF inv hh(1)]] off by simp
  obtain s1 where s1: "kmem_cache_free_one (kmem_cache_free (Suc k)) c a x s = kmem_cache_free (Suc k) j a s1"
    "slab_inv {} s1" "same_geo s s1" "slab_live s1 = slab_live s - {x}" "outside s1 = outside s" "ctrl s1 = ctrl s - {a}"
    "page_cache s1 = page_cache s"
    using destroy_ok [OF inv h x True, of "kmem_cache_free (Suc k)"] off j(2) by auto
  have ac: "a \<in> ctrl s" using ctrl_iff [of a s] hh(1,2) off by blast
  then have "a \<in> slab_live s1" using ctrl_live [OF inv] x s1(4) by blast
  moreover have au: "a \<notin> ctrl s1" using s1(6) by blast
  ultimately obtain c1 a1 i1 where h1: "holds_obj s1 c1 a1 i1 a"
    using holds_exists [OF s1(2), of a] unfolding user_def by blast
  have on1: "\<not> off_slab (slab_cache s1 j)"
    using cache_okD(6) [OF slab_invD(1) [OF s1(2) j13]] j(1) by simp
  have "c1 = j"
  proof -
    obtain a' where a': "a' \<in> slabs s j" "a \<in> objs s j a'" using slab_invD(6) [OF inv hh(1) off j(2) hh(2)] by blast
    obtain i' where i': "i' < num (slab_cache s j)" "a = obj s j a' i'" using a'(2) by (auto simp: objs_def)
    obtain q where q: "kva2page a = Some q" "q \<in> pages_of s j a'"
      using obj_addr(3) [OF slab_invD(3) [OF inv j13 a'(1)] slab_invD(1) [OF inv j13] i'(1)] i'(2) by blast
    have "page_cache s q = j" using slab_okD(8) [OF slab_invD(3) [OF inv j13 a'(1)] q(2)] by blast
    moreover obtain q1 where "kva2page a = Some q1" "page_cache s1 q1 = c1" using cache_free_step(2) [OF s1(2) h1] by blast
    ultimately show ?thesis using q(1) s1(7) by simp
  qed
  then obtain s' where s': "kmem_cache_free (Suc k) j a s1 = Some s'" "free_post s1 a s'"
    using free_on_slab [OF s1(2) h1 au, of k] on1 by auto
  have "user s1 - {a} = user s - {x}" using s1(4,6) ac unfolding user_def by blast
  then have "free_post s x s'"
    using s'(2) s1(5,7) same_geo_trans [OF s1(3)] by (simp add: free_post_def)
  then show ?thesis using s'(1) s1(1) cache_free_step(1) [OF inv h] by simp
qed

end
