(* ===== verification/Slab_Heap.thy ===== *)
theory Slab_Heap
  imports Slab_Free
begin

text \<open>
  What \<^verbatim>\<open>kmalloc\<close> and \<^verbatim>\<open>kfree\<close> (\<^verbatim>\<open>kern/mm/kmalloc.c\<close>) promise: \<^verbatim>\<open>slab_init\<close> establishes the
  invariant, no object overlaps another or a control structure, an allocation adds one object that is
  large enough, a release takes back exactly the object, and a client that returns all it got leaves
  the frames as they were.
\<close>

section \<open>The start\<close>

lemma geometry_ok:
  assumes "c < 13" "geometry c = (n, o', off, k)"
  shows "cache_ok c (d\<lparr>objsize := 2 ^ (c + 5), objsize_shift := c + 5, num := n, c_offset := off, off_slab := k \<noteq> None,
    page_order := o', slab_cachep := (if k = None then slab_cachep d else k)\<rparr>)"
  using assms unfolding less_13
  by (elim insertE; simp add: geometry_def cache_ok_def sizeof_slab_def) auto

lemma init_caches_ok:
  "\<lbrakk>b \<le> 13; \<And>c. c < b \<Longrightarrow> cache_ok c (slab_cache s c) \<and> slabs s c = {} \<and> distinct (slabs_full (slab_cache s c) @ slabs_notfull (slab_cache s c))\<rbrakk> \<Longrightarrow>
   \<exists>s'. init_caches [b..<13] s = Some s' \<and> smem s' = smem s \<and>
     (\<forall>c<13. cache_ok c (slab_cache s' c) \<and> slabs s' c = {} \<and> distinct (slabs_full (slab_cache s' c) @ slabs_notfull (slab_cache s' c)))"
proof (induction "13 - b" arbitrary: b s)
  case 0
  then have "b = 13" by simp
  then show ?case using "0.prems"(2) by simp
next
  case (Suc m)
  then have b: "b < 13" by simp
  obtain n o' off k where i: "geometry b = (n, o', off, k)"
    "init_kmem_cache (2 ^ (b + 5)) (slab_cache s b) = Some ((slab_cache s b)\<lparr>slabs_full := [], slabs_notfull := [],
     objsize := 2 ^ (b + 5), objsize_shift := b + 5, num := n, c_offset := off, off_slab := k \<noteq> None,
     page_order := o', slab_cachep := (if k = None then slab_cachep (slab_cache s b) else k)\<rparr>)"
    using init_cache [OF b] by blast
  let ?d = "(slab_cache s b)\<lparr>slabs_full := [], slabs_notfull := [],
     objsize := 2 ^ (b + 5), objsize_shift := b + 5, num := n, c_offset := off, off_slab := k \<noteq> None,
     page_order := o', slab_cachep := (if k = None then slab_cachep (slab_cache s b) else k)\<rparr>"
  let ?s = "mod_cache b (\<lambda>_. ?d) s"
  have d: "cache_ok b ?d" using geometry_ok [OF b i(1), of "(slab_cache s b)\<lparr>slabs_full := [], slabs_notfull := []\<rparr>"] by (cases k) simp_all
  have bb: "m = 13 - Suc b" "Suc b \<le> 13" using Suc.hyps(2) b by simp_all
  have nx: "cache_ok c (slab_cache ?s c) \<and> slabs ?s c = {} \<and> distinct (slabs_full (slab_cache ?s c) @ slabs_notfull (slab_cache ?s c))"
    if "c < Suc b" for c
    using Suc.prems(2) [of c] that d by (cases "c = b") (simp_all add: mod_simps slabs_def)
  obtain s' where "init_caches [Suc b..<13] ?s = Some s'" "smem s' = smem ?s"
    "\<forall>c<13. cache_ok c (slab_cache s' c) \<and> slabs s' c = {} \<and> distinct (slabs_full (slab_cache s' c) @ slabs_notfull (slab_cache s' c))"
    using Suc.hyps(1) [OF bb nx] by blast
  then show ?case using i(2) b by (simp add: upt_conv_Cons mod_simps slab_limits)
qed

lemma slab_init_ok:
  assumes "ff_inv npage (phys (smem s))"
  shows "\<exists>s'. slab_init s = Some s' \<and> smem s' = smem s \<and> slab_inv {} s' \<and> user s' = {} \<and> slab_pages s' = {}"
proof -
  obtain s' where s': "init_caches [0..<13] s = Some s'" "smem s' = smem s"
    "\<forall>c<13. cache_ok c (slab_cache s' c) \<and> slabs s' c = {} \<and> distinct (slabs_full (slab_cache s' c) @ slabs_notfull (slab_cache s' c))"
    using init_caches_ok [of 0 s] by auto
  have "slab_inv {} s'" unfolding slab_inv_def slab_limits using s' assms by simp
  moreover have "user s' = {}" "slab_pages s' = {}" using s'(3) by (simp_all add: user_def slab_live_def slab_pages_def slab_limits)
  ultimately show ?thesis using s'(1,2) by (simp add: slab_init_def slab_limits)
qed

section \<open>The bytes of an object\<close>

text \<open>The size that the cache of its page gives an object, its bytes, and the bytes of a control structure.\<close>

definition ksize :: "slab_state \<Rightarrow> u32 \<Rightarrow> nat" where
  "ksize s x = objsize (slab_cache s (page_cache s (the (kva2page x))))"

definition extent :: "slab_state \<Rightarrow> u32 \<Rightarrow> nat set" where
  "extent s x = {unat x..<unat x + ksize s x}"

definition slab_ctl :: "slab_state \<Rightarrow> nat \<Rightarrow> u32 \<Rightarrow> nat set" where
  "slab_ctl s c a = {unat a..<unat a + sizeof_slab + 4 * num (slab_cache s c)}"

definition frame_bytes :: "nat set \<Rightarrow> nat set" where
  "frame_bytes P = {b. \<exists>p\<in>P. 0xbc000000 + p * 4096 \<le> b \<and> b < 0xbc000000 + p * 4096 + 4096}"

lemma holds_size:
  assumes "slab_inv E s" "holds_obj s c a i x"
  shows "ksize s x = 2 ^ (c + 5)" "page_cache s (the (kva2page x)) = c"
  using cache_free_step(2) [OF assms] cache_okD(1) [OF slab_invD(1) [OF assms(1) holds_objD(1) [OF assms(2)]]]
  by (auto simp: ksize_def)

lemma holds_addr:
  assumes "slab_inv E s" "holds_obj s c a i x"
  shows "unat x = 0xbc000000 + head s a * 4096 + c_offset (slab_cache s c) + i * 2 ^ (c + 5)"
  using obj_addr(2) [OF slab_invD(3) slab_invD(1)] assms holds_objD [OF assms(2)] by blast

text \<open>Objects of one slab follow each other, those of two slabs lie in different frames.\<close>

lemma between:
  assumes "B \<le> b" "b < B + 4096 * n"
  shows "\<exists>p\<in>{h..<h + n}. B + (p - h) * 4096 \<le> b \<and> b < B + (p - h) * 4096 + (4096 :: nat)"
proof -
  let ?q = "(b - B) div 4096"
  have "?q < n" using assms by (simp add: less_mult_imp_div_less mult.commute)
  moreover have "B + ?q * 4096 \<le> b" "b < B + ?q * 4096 + 4096" using assms(1) by linarith+
  ultimately show ?thesis by (intro bexI [of _ "h + ?q"]) simp_all
qed

lemma run_bytes: "frame_bytes {h..<h + n} = {0xbc000000 + h * 4096..<0xbc000000 + h * 4096 + 4096 * n}"
proof (rule set_eqI)
  fix b
  have "\<exists>p\<in>{h..<h + n}. 0xbc000000 + p * 4096 \<le> b \<and> b < 0xbc000000 + p * 4096 + 4096"
    if i: "0xbc000000 + h * 4096 \<le> b" "b < 0xbc000000 + h * 4096 + 4096 * n"
  proof -
    obtain p where p: "p \<in> {h..<h + n}" "0xbc000000 + h * 4096 + (p - h) * 4096 \<le> b"
      "b < 0xbc000000 + h * 4096 + (p - h) * 4096 + 4096" using between [OF i] by blast
    have "h * 4096 + (p - h) * 4096 = p * 4096" using p(1) by (simp add: algebra_simps)
    then show ?thesis using p by (intro bexI [of _ p]) simp_all
  qed
  moreover have "0xbc000000 + h * 4096 \<le> b \<and> b < 0xbc000000 + h * 4096 + 4096 * n"
    if "p \<in> {h..<h + n}" "0xbc000000 + p * 4096 \<le> b" "b < 0xbc000000 + p * 4096 + 4096" for p
    using that by auto
  ultimately show "b \<in> frame_bytes {h..<h + n} \<longleftrightarrow> b \<in> {0xbc000000 + h * 4096..<0xbc000000 + h * 4096 + 4096 * n}"
    unfolding frame_bytes_def by (simp del: atLeastLessThan_iff) (metis atLeastLessThan_iff)
qed

lemma frame_bytes_disjoint: "P \<inter> Q = {} \<Longrightarrow> frame_bytes P \<inter> frame_bytes Q = {}"
proof -
  assume d: "P \<inter> Q = {}"
  have "p = q" if "0xbc000000 + p * 4096 \<le> b" "b < 0xbc000000 + p * 4096 + 4096"
    "0xbc000000 + q * 4096 \<le> b" "b < 0xbc000000 + q * 4096 + (4096 :: nat)" for b p q using that by linarith
  then show ?thesis using d unfolding frame_bytes_def by blast
qed

lemma frame_bytes_mono: "P \<subseteq> Q \<Longrightarrow> frame_bytes P \<subseteq> frame_bytes Q"
  unfolding frame_bytes_def by blast

lemma extent_in_slab:
  assumes inv: "slab_inv E s" and h: "holds_obj s c a i x"
  shows "extent s x \<subseteq> frame_bytes (pages_of s c a)"
proof -
  note hh = holds_objD [OF h]
  note in' = obj_inside [OF hh(3) slab_invD(1) [OF inv hh(1)]]
  show ?thesis
    unfolding pages_of_def run_bytes extent_def holds_size(1) [OF inv h] holds_addr [OF inv h]
    using in' by auto
qed

lemma extents_disjoint:
  assumes inv: "slab_inv E s" and h: "holds_obj s c a i x" "holds_obj s c' a' i' y" and ne: "x \<noteq> y"
  shows "extent s x \<inter> extent s y = {}"
proof (cases "c = c' \<and> a = a'")
  case True
  then have "i \<noteq> i'" using ne holds_objD(5) [OF h(1)] holds_objD(5) [OF h(2)] by auto
  then have "i * 2 ^ (c + 5) + 2 ^ (c + 5) \<le> i' * (2 :: nat) ^ (c + 5) \<or> i' * 2 ^ (c + 5) + 2 ^ (c + 5) \<le> i * (2 :: nat) ^ (c + 5)"
    using mult_le_mono1 [of "Suc i" i' "2 ^ (c + 5)"] mult_le_mono1 [of "Suc i'" i "2 ^ (c + 5)"] by (cases "i < i'") auto
  then show ?thesis
    using True unfolding extent_def holds_size(1) [OF inv h(1)] holds_size(1) [OF inv h(2)]
      holds_addr [OF inv h(1)] holds_addr [OF inv h(2)] by auto
next
  case False
  note hh = holds_objD [OF h(1)] and hh' = holds_objD [OF h(2)]
  have "pages_of s c a \<inter> pages_of s c' a' = {}" using slab_unique [OF inv hh(1) hh'(1) hh(2) hh'(2)] False by blast
  from frame_bytes_disjoint [OF this] extent_in_slab [OF inv h(1)] extent_in_slab [OF inv h(2)] show ?thesis by blast
qed

text \<open>A control structure lies before the objects of its own slab, or is an object of another.\<close>

lemma ctl_on_frames:
  assumes inv: "slab_inv E s" and c: "c < 13" "a \<in> slabs s c" and off: "\<not> off_slab (slab_cache s c)"
  shows "slab_ctl s c a \<subseteq> frame_bytes (pages_of s c a)" "unat a = 0xbc000000 + head s a * 4096"
proof -
  note ok = slab_okD [OF slab_invD(3) [OF inv c]] and k = cache_okD [OF slab_invD(1) [OF inv c(1)]]
  have lt: "head s a < npage" using ok(3) zero_less_power [of "2 :: nat" "page_order (slab_cache s c)"] by linarith
  show u: "unat a = 0xbc000000 + head s a * 4096" using unat_page2pa [OF lt] ok(9) [OF off] by simp
  have "sizeof_slab + 4 * num (slab_cache s c) \<le> 4096 * 2 ^ page_order (slab_cache s c)" using k(5) k(8) [OF off] by linarith
  then show "slab_ctl s c a \<subseteq> frame_bytes (pages_of s c a)"
    unfolding pages_of_def run_bytes slab_ctl_def u by auto
qed

lemma ctl_on_extent:
  assumes inv: "slab_inv E s" and h: "holds_obj s c a i x" and c': "c' < 13" "a' \<in> slabs s c'" and off: "\<not> off_slab (slab_cache s c')"
  shows "extent s x \<inter> slab_ctl s c' a' = {}"
proof (cases "c = c' \<and> a = a'")
  case True
  then show ?thesis using cache_okD(8) [OF slab_invD(1) [OF inv c'(1)] off] ctl_on_frames(2) [OF inv c' off]
    unfolding slab_ctl_def extent_def holds_addr [OF inv h] by auto
next
  case ne: False
  note hh = holds_objD [OF h]
  have d: "pages_of s c a \<inter> pages_of s c' a' = {}" using slab_unique [OF inv hh(1) c'(1) hh(2) c'(2)] ne by blast
  then show ?thesis using ctl_on_frames(1) [OF inv c' off] frame_bytes_disjoint [OF d] extent_in_slab [OF inv h] by blast
qed

lemma ctl_off_object:
  assumes inv: "slab_inv E s" and c': "c' < 13" "a' \<in> slabs s c'" and off: "off_slab (slab_cache s c')"
  obtains j a1 i1 where "holds_obj s j a1 i1 a'" "slab_ctl s c' a' \<subseteq> extent s a'"
proof -
  obtain j where j: "slab_cachep (slab_cache s c') = Some j" "j < 4" using cache_okD(7) [OF slab_invD(1) [OF inv c'(1)] off] by blast
  obtain a1 where a1: "a1 \<in> slabs s j" "a' \<in> objs s j a1" using slab_invD(6) [OF inv c'(1) off j(1) c'(2)] by blast
  then obtain i1 where h1: "holds_obj s j a1 i1 a'" using j(2) by (auto simp: objs_def holds_obj_def)
  have "slab_ctl s c' a' \<subseteq> extent s a'"
    using cache_okD(10) [OF slab_invD(1) [OF inv c'(1)] off j(1)] unfolding slab_ctl_def extent_def holds_size(1) [OF inv h1] by auto
  then show ?thesis using that h1 by blast
qed

lemma ctl_extent:
  assumes inv: "slab_inv E s" and h: "holds_obj s c a i x" and x: "x \<notin> ctrl s" and c': "c' < 13" "a' \<in> slabs s c'"
  shows "extent s x \<inter> slab_ctl s c' a' = {}"
proof (cases "off_slab (slab_cache s c')")
  case True
  have "a' \<in> ctrl s" using ctrl_iff [of a' s] c' True by blast
  then have ne: "x \<noteq> a'" using x by blast
  obtain j a1 i1 where h': "holds_obj s j a1 i1 a'" "slab_ctl s c' a' \<subseteq> extent s a'" by (rule ctl_off_object [OF inv c' True])
  show ?thesis using h'(2) extents_disjoint [OF inv h h'(1) ne] by blast
next
  case False
  then show ?thesis by (rule ctl_on_extent [OF inv h c'])
qed

lemma ctls_disjoint:
  assumes inv: "slab_inv E s" and c: "c < 13" "a \<in> slabs s c" and c': "c' < 13" "a' \<in> slabs s c'" and ne: "(c, a) \<noteq> (c', a')"
  shows "slab_ctl s c a \<inter> slab_ctl s c' a' = {}" "pages_of s c a \<inter> pages_of s c' a' = {}"
proof -
  show d: "pages_of s c a \<inter> pages_of s c' a' = {}" using slab_unique [OF inv c(1) c'(1) c(2) c'(2)] ne by blast
  show "slab_ctl s c a \<inter> slab_ctl s c' a' = {}"
  proof (cases "off_slab (slab_cache s c)")
    case o: True
    obtain j a1 i1 where h: "holds_obj s j a1 i1 a" "slab_ctl s c a \<subseteq> extent s a" by (rule ctl_off_object [OF inv c o])
    show ?thesis
    proof (cases "off_slab (slab_cache s c')")
      case o': True
      obtain j' a1' i1' where h': "holds_obj s j' a1' i1' a'" "slab_ctl s c' a' \<subseteq> extent s a'"
        by (rule ctl_off_object [OF inv c' o'])
      have "a \<noteq> a'"
      proof
        assume "a = a'"
        then have "head s a \<in> pages_of s c a" "head s a \<in> pages_of s c' a'" using head_in by blast+
        then show False using d by blast
      qed
      then show ?thesis using h(2) h'(2) extents_disjoint [OF inv h(1) h'(1)] by blast
    next
      case False
      then show ?thesis using h(2) ctl_on_extent [OF inv h(1) c'] by blast
    qed
  next
    case o: False
    show ?thesis
    proof (cases "off_slab (slab_cache s c')")
      case o': True
      obtain j' a1' i1' where h': "holds_obj s j' a1' i1' a'" "slab_ctl s c' a' \<subseteq> extent s a'"
        by (rule ctl_off_object [OF inv c' o'])
      then show ?thesis using ctl_on_extent [OF inv h'(1) c o] by blast
    next
      case o': False
      show ?thesis
        using ctl_on_frames(1) [OF inv c o] ctl_on_frames(1) [OF inv c' o'] frame_bytes_disjoint [OF d] by blast
    qed
  qed
qed

section \<open>kmalloc and kfree\<close>

lemma find_upt:
  assumes "find P [a..<b] = Some k"
  shows "a \<le> k \<and> k < b \<and> P k \<and> (\<forall>m. a \<le> m \<longrightarrow> m < k \<longrightarrow> \<not> P m)"
proof -
  obtain i where i: "i < b - a" "P ([a..<b] ! i)" "k = [a..<b] ! i" "\<forall>j<i. \<not> P ([a..<b] ! j)"
    using assms by (auto simp: find_Some_iff)
  have "\<not> P m" if "a \<le> m" "m < k" for m using i(1,3) i(4) [rule_format, of "m - a"] that by simp
  then show ?thesis using i(1-3) by simp
qed

lemma getorder_total:
  "getorder n = None \<longleftrightarrow> 2 ^ 17 < n"
  "getorder n = Some k \<Longrightarrow> 5 \<le> k \<and> k \<le> 17 \<and> n \<le> 2 ^ k \<and> (\<forall>m. 5 \<le> m \<longrightarrow> m < k \<longrightarrow> 2 ^ m < n)"
proof -
  have le: "(2 :: nat) ^ m \<le> 2 ^ 17" if "m < 18" for m using that by (intro power_increasing) simp_all
  have "getorder n = None \<longleftrightarrow> (\<forall>m. 5 \<le> m \<and> m < 17 + 1 \<longrightarrow> \<not> n \<le> 2 ^ m)"
    unfolding getorder_def slab_limits find_None_iff set_upt atLeastLessThan_iff by blast
  also have "\<dots> \<longleftrightarrow> 2 ^ 17 < n"
  proof
    assume "\<forall>m. 5 \<le> m \<and> m < 17 + 1 \<longrightarrow> \<not> n \<le> 2 ^ m"
    from this [rule_format, of 17] show "2 ^ 17 < n" by simp
  next
    assume n: "2 ^ 17 < n"
    show "\<forall>m. 5 \<le> m \<and> m < 17 + 1 \<longrightarrow> \<not> n \<le> 2 ^ m"
    proof (intro allI impI)
      fix m :: nat assume "5 \<le> m \<and> m < 17 + 1"
      then have "(2 :: nat) ^ m \<le> 2 ^ 17" by (intro le) simp
      then show "\<not> n \<le> 2 ^ m" using n by linarith
    qed
  qed
  finally show "getorder n = None \<longleftrightarrow> 2 ^ 17 < n" .
  show "5 \<le> k \<and> k \<le> 17 \<and> n \<le> 2 ^ k \<and> (\<forall>m. 5 \<le> m \<longrightarrow> m < k \<longrightarrow> 2 ^ m < n)" if g: "getorder n = Some k"
    using find_upt [OF g [unfolded getorder_def slab_limits]] by (auto simp: not_le)
qed

lemma kmalloc_ok:
  assumes "slab_inv {} s" "0 < n" "n \<le> 2 ^ 17"
  shows "\<exists>c r s'. getorder n = Some (c + 5) \<and> c < 13 \<and> kmalloc n s = Some (r, s') \<and> alloc_post c s r s' \<and>
    (r = None \<longrightarrow> (\<forall>b. \<not> {b..<b + 2 ^ page_order (slab_cache s c) + 1} \<subseteq> free_set (phys (smem s))))"
proof -
  obtain k where k: "getorder n = Some k" using getorder_total(1) [of n] assms(3) by (cases "getorder n") auto
  define c where "c = k - 5"
  have c: "k = c + 5" "c < 13" using getorder_total(2) [OF k] unfolding c_def by linarith+
  have m: "kmalloc n s = kmem_cache_alloc (Suc (Suc (Suc 0))) c s"
    using k c assms(2) by (simp add: kmalloc_def slab_limits slab_depth_def numeral_3_eq_3 del: kmem_cache_alloc.simps)
  show ?thesis
  proof (cases "c < 4")
    case True
    from alloc_small [OF assms(1) True, of "Suc 0"] obtain r s' where
      a: "kmem_cache_alloc (Suc (Suc (Suc 0))) c s = Some (r, s')" "alloc_post c s r s'"
      "r = None \<longrightarrow> free_set (phys (smem s)) = {}" by blast
    have "{b..<b + 2 ^ page_order (slab_cache s c) + 1} \<noteq> {}" for b :: nat by simp
    then show ?thesis using a k c m by (intro exI [of _ c] exI [of _ r] exI [of _ s']) auto
  next
    case False
    then have "4 \<le> c" by simp
    from alloc_big [OF assms(1) this c(2), of 0] show ?thesis using k c m by auto
  qed
qed

lemma live_size_kept:
  assumes "slab_inv E s" "same_geo s s'" "\<forall>q\<in>slab_pages s. page_cache s' q = page_cache s q" "x \<in> slab_live s"
  shows "ksize s' x = ksize s x"
proof -
  obtain c a i where h: "c < 13" "a \<in> slabs s c" "i < num (slab_cache s c)" "x = obj s c a i" using assms(4) live_iff [of x s] by blast
  from obj_addr(3) [OF slab_invD(3) [OF assms(1) h(1,2)] slab_invD(1) [OF assms(1) h(1)] h(3)]
  obtain q where q: "kva2page x = Some q" "q \<in> pages_of s c a" unfolding h(4) by blast
  then have "q \<in> slab_pages s" using h(1,2) unfolding slab_pages_def slab_limits by blast
  then show ?thesis using q(1) assms(3) same_geoD(1) [OF assms(2)] by (simp add: ksize_def)
qed

lemma alloc_post_size:
  assumes "alloc_post c s (Some x) s'" "c < 13"
  shows "ksize s' x = 2 ^ (c + 5)"
proof -
  from assms obtain a i where p: "slab_inv {} s'" "a \<in> slabs s' c" "i < num (slab_cache s' c)" "x = obj s' c a i"
    by (auto simp: alloc_post_def)
  from obj_addr(3) [OF slab_invD(3) [OF p(1) assms(2) p(2)] slab_invD(1) [OF p(1) assms(2)] p(3)]
  obtain q where q: "kva2page x = Some q" "q \<in> pages_of s' c a" unfolding p(4) by blast
  from slab_okD(8) [OF slab_invD(3) [OF p(1) assms(2) p(2)] q(2)] q(1)
  show ?thesis using cache_okD(1) [OF slab_invD(1) [OF p(1) assms(2)]] by (simp add: ksize_def)
qed

lemma kfree_ok:
  assumes "slab_inv {} s" "x \<in> user s"
  shows "\<exists>s'. kfree x s = Some s' \<and> free_post s x s'"
proof -
  obtain c a i where h: "holds_obj s c a i x" using holds_exists [OF assms] by blast
  obtain q where q: "kva2page x = Some q" "page_cache s q = c" using cache_free_step(2) [OF assms(1) h] by blast
  have x: "x \<notin> ctrl s" using assms(2) by (simp add: user_def)
  have "kfree x s = kmem_cache_free (Suc (Suc (Suc 0))) c x s"
    using q by (simp add: kfree_def slab_depth_def numeral_3_eq_3 del: kmem_cache_free.simps)
  then show ?thesis
    using free_on_slab [OF assms(1) h x, of "Suc (Suc 0)"] free_off_slab [OF assms(1) h x, of "Suc 0"]
    by (cases "off_slab (slab_cache s c)") simp_all
qed

text \<open>Without objects of the clients there is no slab.\<close>

lemma no_user_no_slab:
  assumes inv: "slab_inv {} s" and u: "user s = {}"
  shows "slab_pages s = {}"
proof -
  have live_ctrl: "x \<in> ctrl s" if "holds_obj s c a i x" for c a i x
    using that u live_iff [of x s] unfolding user_def holds_obj_def by blast
  have busy: "\<exists>i. holds_obj s c a i (obj s c a i)" if ca: "c < 13" "a \<in> slabs s c" for c a
  proof -
    note ok = slab_okD [OF slab_invD(3) [OF inv ca]]
    have "0 < inuse (slab_at s a)" using slab_invD(4) [OF inv ca] by simp
    then have "card (set (frees s c a)) < card {..<num (slab_cache s c)}"
      using ok(4) distinct_card [OF ok(6)] by (simp add: frees_def chain_length)
    then have "\<not> {..<num (slab_cache s c)} \<subseteq> set (frees s c a)" by (metis card_mono finite_set not_le)
    then show ?thesis using ca by (auto simp: holds_obj_def)
  qed
  have off: "4 \<le> c" if "c < 13" "a \<in> slabs s c" "off_slab (slab_cache s c)" for c a
    using cache_okD(6) [OF slab_invD(1) [OF inv that(1)]] that(3) by simp
  have no_big: False if ca: "c < 13" "off_slab (slab_cache s c)" "a \<in> slabs s c" for c a
  proof -
    obtain i where h: "holds_obj s c a i (obj s c a i)" using busy [OF ca(1,3)] by blast
    then obtain c1 where c1: "c1 < 13" "off_slab (slab_cache s c1)" "obj s c a i \<in> slabs s c1"
      using live_ctrl ctrl_iff by blast
    obtain j where j: "slab_cachep (slab_cache s c1) = Some j" "j < 4" using cache_okD(7) [OF slab_invD(1) [OF inv c1(1)] c1(2)] by blast
    obtain a' where a': "a' \<in> slabs s j" "obj s c a i \<in> objs s j a'" using slab_invD(6) [OF inv c1(1,2) j(1) c1(3)] by blast
    then obtain i' where i': "i' < num (slab_cache s j)" "obj s c a i = obj s j a' i'" by (auto simp: objs_def)
    have j13: "j < 13" using j(2) by simp
    have "c = j" using obj_unique [OF inv ca(1) j13 ca(3) a'(1) holds_objD(3) [OF h] i'] by blast
    then show False using off [OF ca(1,3,2)] j(2) by simp
  qed
  have "slabs s c = {}" if c: "c < 13" for c
  proof (rule ccontr)
    assume "slabs s c \<noteq> {}"
    then obtain a where a: "a \<in> slabs s c" by blast
    then obtain i where "holds_obj s c a i (obj s c a i)" using busy [OF c] by blast
    then have "obj s c a i \<in> ctrl s" using live_ctrl by blast
    then show False using no_big ctrl_iff by blast
  qed
  then show ?thesis by (simp add: slab_pages_def slab_limits)
qed

section \<open>Clients of an object allocator\<close>

datatype heap_req = Get nat | Put nat

text \<open>A client asks for objects and returns the \<open>k\<close>-th one it holds.\<close>

fun heap_run :: "(nat \<Rightarrow> 's \<Rightarrow> ('a option \<times> 's) option) \<Rightarrow> ('a \<Rightarrow> 's \<Rightarrow> 's option) \<Rightarrow> heap_req list \<Rightarrow> 'a list \<Rightarrow> 's \<Rightarrow>
    ('a list \<times> 's) option" where
  "heap_run get put [] hs s = Some (hs, s)"
| "heap_run get put (Get n # rs) hs s = do {
     (r, s) \<leftarrow> get n s;
     heap_run get put rs (case r of None \<Rightarrow> hs | Some x \<Rightarrow> hs @ [x]) s
   }"
| "heap_run get put (Put k # rs) hs s =
     (if k < length hs then do { s \<leftarrow> put (hs ! k) s; heap_run get put rs (take k hs @ drop (Suc k) hs) s }
      else heap_run get put rs hs s)"

locale object_heap =
  fixes ok :: "'s \<Rightarrow> bool"
    and owned :: "'s \<Rightarrow> 'a set"
    and rest :: "'s \<Rightarrow> 'f set"
    and fits :: "nat \<Rightarrow> bool"
    and get :: "nat \<Rightarrow> 's \<Rightarrow> ('a option \<times> 's) option"
    and put :: "'a \<Rightarrow> 's \<Rightarrow> 's option"
  assumes get_law: "ok s \<Longrightarrow> fits n \<Longrightarrow> \<exists>r s'. get n s = Some (r, s') \<and> ok s' \<and> rest s' = rest s \<and>
      (case r of None \<Rightarrow> owned s' = owned s | Some x \<Rightarrow> x \<notin> owned s \<and> owned s' = insert x (owned s))"
    and put_law: "ok s \<Longrightarrow> x \<in> owned s \<Longrightarrow> \<exists>s'. put x s = Some s' \<and> ok s' \<and> rest s' = rest s \<and> owned s' = owned s - {x}"
begin

lemma cut_nth: "k < length hs \<Longrightarrow> distinct hs \<Longrightarrow> distinct (take k hs @ drop (Suc k) hs) \<and> set (take k hs @ drop (Suc k) hs) = set hs - {hs ! k}"
proof -
  assume k: "k < length hs" "distinct hs"
  have "distinct (xs @ ys) \<and> set (xs @ ys) = set hs - {y}" if "hs = xs @ y # ys" for xs y ys using that k(2) by auto
  from this [OF id_take_nth_drop [OF k(1)]] show ?thesis .
qed

lemma run_keeps:
  "\<lbrakk>ok s; distinct hs; owned s = A \<union> set hs; A \<inter> set hs = {}; \<And>n. Get n \<in> set rs \<Longrightarrow> fits n\<rbrakk> \<Longrightarrow>
   \<exists>hs' s'. heap_run get put rs hs s = Some (hs', s') \<and> ok s' \<and> rest s' = rest s \<and> distinct hs' \<and>
     owned s' = A \<union> set hs' \<and> A \<inter> set hs' = {}"
proof (induction rs arbitrary: hs s)
  case (Cons r rs)
  have f: "\<And>n. Get n \<in> set rs \<Longrightarrow> fits n" using Cons.prems(5) by simp
  show ?case
  proof (cases r)
    case (Get n)
    obtain x s' where x: "get n s = Some (x, s')" "ok s'" "rest s' = rest s"
      "case x of None \<Rightarrow> owned s' = owned s | Some x \<Rightarrow> x \<notin> owned s \<and> owned s' = insert x (owned s)"
      using get_law [OF Cons.prems(1), of n] Cons.prems(5) Get by auto
    let ?hs = "case x of None \<Rightarrow> hs | Some x \<Rightarrow> hs @ [x]"
    have "distinct ?hs" "owned s' = A \<union> set ?hs" "A \<inter> set ?hs = {}" using x(4) Cons.prems(2-4) by (auto split: option.splits)
    from Cons.IH [OF x(2) this f] show ?thesis using x(1,3) Get by simp
  next
    case (Put k)
    show ?thesis
    proof (cases "k < length hs")
      case True
      note c = cut_nth [OF True Cons.prems(2)]
      have k: "hs ! k \<in> set hs" using True by simp
      obtain s' where s': "put (hs ! k) s = Some s'" "ok s'" "rest s' = rest s" "owned s' = owned s - {hs ! k}"
        using put_law [OF Cons.prems(1), of "hs ! k"] k Cons.prems(3) by blast
      have "owned s' = A \<union> set (take k hs @ drop (Suc k) hs)" "A \<inter> set (take k hs @ drop (Suc k) hs) = {}"
        using s'(4) c k Cons.prems(3,4) by blast+
      from Cons.IH [OF s'(2) _ this f] c show ?thesis using s'(1,3) Put True by simp
    next
      case False
      then show ?thesis using Cons.IH [OF Cons.prems(1-4) f] Put by simp
    qed
  qed
qed simp

end

interpretation kheap: object_heap "slab_inv {}" user outside "\<lambda>n. 0 < n \<and> n \<le> 2 ^ 17" kmalloc kfree
proof (unfold_locales, goal_cases)
  case (1 s n)
  obtain c r s' where "kmalloc n s = Some (r, s')" "alloc_post c s r s'" using kmalloc_ok [OF 1(1), of n] 1(2) by blast
  then show ?case by (auto simp: alloc_post_def user_def split: option.splits)
next
  case (2 s x)
  then show ?case using kfree_ok [OF 2] by (auto simp: free_post_def)
qed


section \<open>The properties\<close>

lemma used_split: "slab_inv {} s \<Longrightarrow> used (smem s) = outside s \<union> slab_pages s"
  using used_pages [of "{}" s] by (auto simp: outside_def)

lemma live_holds: "x \<in> slab_live s \<Longrightarrow> \<exists>c a i. holds_obj s c a i x"
  using live_iff [of x s] unfolding holds_obj_def by blast

definition demo_slab :: slab_state where
  "demo_slab = \<lparr>smem = demo_vmem, slab_cache = (\<lambda>_. \<lparr>slabs_full = [], slabs_notfull = [], objsize = 0, objsize_shift = 0,
     num = 0, c_offset = 0, off_slab = False, page_order = 0, slab_cachep = None\<rparr>),
     slab_at = (\<lambda>_. \<lparr>s_mem = 0, inuse = 0, s_offset = 0, s_free = 0, bufctl = (\<lambda>_. 0)\<rparr>), page_cache = (\<lambda>_. 0), page_slab = (\<lambda>_. 0)\<rparr>"

lemma demo_slab:
  obtains s where "slab_init demo_slab = Some s" "slab_inv {} s" "user s = {}" "free_set (phys (smem s)) = {3..<4096}"
  using slab_init_ok [of demo_slab] demo_vmem_phys by (auto simp: demo_slab_def)

lemma demo_run: "{3..<3 + 33} \<subseteq> {3..<4096 :: nat}"
  by auto

lemma demo_alloc:
  assumes "slab_inv {} s" "free_set (phys (smem s)) = {3..<4096}" "0 < n" "n \<le> 2 ^ 17"
  obtains x s' where "kmalloc n s = Some (Some x, s')" "slab_inv {} s'" "user s' = insert x (user s)" "outside s' = outside s"
proof -
  obtain c r s' where k: "kmalloc n s = Some (r, s')" "alloc_post c s r s'" "c < 13"
    "r = None \<longrightarrow> (\<forall>b. \<not> {b..<b + 2 ^ page_order (slab_cache s c) + 1} \<subseteq> free_set (phys (smem s)))"
    using kmalloc_ok [OF assms(1,3,4)] by blast
  have "(2 :: nat) ^ page_order (slab_cache s c) \<le> 2 ^ 5"
    using cache_okD(11) [OF slab_invD(1) [OF assms(1) k(3)]] by (intro power_increasing) simp_all
  then have "{3..<3 + 2 ^ page_order (slab_cache s c) + 1} \<subseteq> {3..<4096 :: nat}" by auto
  then have "r \<noteq> None" using k(4) unfolding assms(2) by blast
  then show ?thesis using that k(1,2) by (auto simp: alloc_post_def)
qed

text \<open>
  kmalloc in a consistent heap, for every size from 1 to 128 KB: it does not panic and keeps the heap consistent,
  frames used for other things stay as they are and no existing object changes its size.  Either it hands out an
  address that was no object, at which the object is at least as large as the size asked for, and exactly this
  object is added; or it returns NULL with the objects unchanged, and then no 33 consecutive frames were free.
\<close>

theorem kmalloc_exact:
  assumes "slab_inv {} s" "0 < n" "n \<le> 2 ^ 17"
  shows "\<exists>r s'. kmalloc n s = Some (r, s') \<and> slab_inv {} s' \<and> outside s' = outside s \<and>
    (\<forall>y\<in>user s. ksize s' y = ksize s y) \<and> (case r of
       None \<Rightarrow> user s' = user s \<and> (\<forall>b. \<not> {b..<b + 33} \<subseteq> free_set (phys (smem s)))
     | Some x \<Rightarrow> x \<notin> user s \<and> user s' = insert x (user s) \<and> n \<le> ksize s' x)"
proof -
  obtain c r s' where k: "getorder n = Some (c + 5)" "c < 13" "kmalloc n s = Some (r, s')" "alloc_post c s r s'"
    "r = None \<longrightarrow> (\<forall>b. \<not> {b..<b + 2 ^ page_order (slab_cache s c) + 1} \<subseteq> free_set (phys (smem s)))"
    using kmalloc_ok [OF assms] by blast
  have p: "slab_inv {} s'" "same_geo s s'" "outside s' = outside s" "\<forall>q\<in>slab_pages s. page_cache s' q = page_cache s q"
    using k(4) by (simp_all add: alloc_post_def)
  have "ksize s' y = ksize s y" if "y \<in> user s" for y
    using live_size_kept [OF assms(1) p(2,4)] that by (simp add: user_def)
  moreover have "\<not> {b..<b + 33} \<subseteq> free_set (phys (smem s))" if "r = None" for b
  proof -
    have "(2 :: nat) ^ page_order (slab_cache s c) \<le> 2 ^ 5"
      using cache_okD(11) [OF slab_invD(1) [OF assms(1) k(2)]] by (intro power_increasing) simp_all
    then have "{b..<b + 2 ^ page_order (slab_cache s c) + 1} \<subseteq> {b..<b + 33}" by auto
    then show ?thesis using k(5) that by blast
  qed
  moreover have "n \<le> ksize s' x" if "r = Some x" for x
    using alloc_post_size [OF _ k(2)] k(4) getorder_total(2) [OF k(1)] that by simp
  ultimately show ?thesis using k(3,4) p by (auto simp: alloc_post_def user_def split: option.splits)
qed

theorem kmalloc_exact_witness:
  "\<exists>s x s'. slab_init demo_slab = Some s \<and> kmalloc 5000 s = Some (Some x, s') \<and> user s' = {x} \<and> 5000 \<le> ksize s' x"
proof -
  obtain s where s: "slab_init demo_slab = Some s" "slab_inv {} s" "user s = {}" "free_set (phys (smem s)) = {3..<4096}"
    by (rule demo_slab)
  obtain r s' where r: "kmalloc 5000 s = Some (r, s')" "case r of
       None \<Rightarrow> user s' = user s \<and> (\<forall>b. \<not> {b..<b + 33} \<subseteq> free_set (phys (smem s)))
     | Some x \<Rightarrow> x \<notin> user s \<and> user s' = insert x (user s) \<and> 5000 \<le> ksize s' x"
    using kmalloc_exact [OF s(2), of 5000] by auto
  moreover have "\<not> (\<forall>b. \<not> {b..<b + 33} \<subseteq> free_set (phys (smem s)))" unfolding s(4) using demo_run by blast
  ultimately have "r \<noteq> None" by (cases r) simp_all
  then show ?thesis using r s by auto
qed

lemma kfree_keeps_sizes:
  assumes "slab_inv {} s" "x \<in> user s"
  shows "\<exists>s'. kfree x s = Some s' \<and> slab_inv {} s' \<and> user s' = user s - {x} \<and> outside s' = outside s \<and>
    (\<forall>y\<in>user s'. ksize s' y = ksize s y)"
proof -
  obtain s' where s': "kfree x s = Some s'" "free_post s x s'" using kfree_ok [OF assms] by blast
  have p: "slab_inv {} s'" "same_geo s s'" "outside s' = outside s" "user s' = user s - {x}" "page_cache s' = page_cache s"
    using s'(2) by (simp_all add: free_post_def)
  have "ksize s' y = ksize s y" if "y \<in> user s'" for y
  proof -
    have "y \<in> user s" using that p(4) by blast
    then show ?thesis using live_size_kept [OF assms(1) p(2)] p(5) by (simp add: user_def)
  qed
  then show ?thesis using s'(1) p by blast
qed

text \<open>
  C28. kfree of an object that kmalloc handed out: it does not panic and keeps the heap consistent, exactly this
  object is taken away, the others keep their size, and frames used for other things stay as they are.  When it
  was the last object, every frame the allocator had taken is free again.
\<close>

theorem kfree_exact:
  assumes "slab_inv {} s" "x \<in> user s"
  shows "\<exists>s'. kfree x s = Some s' \<and> slab_inv {} s' \<and> user s' = user s - {x} \<and> outside s' = outside s \<and>
    (\<forall>y\<in>user s'. ksize s' y = ksize s y) \<and> (user s' = {} \<longrightarrow> used (smem s') = outside s)"
proof -
  obtain s' where p: "kfree x s = Some s'" "slab_inv {} s'" "user s' = user s - {x}" "outside s' = outside s"
    "\<forall>y\<in>user s'. ksize s' y = ksize s y" using kfree_keeps_sizes [OF assms] by blast
  have "used (smem s') = outside s" if "user s' = {}"
    using no_user_no_slab [OF p(2) that] used_split [OF p(2)] p(4) by simp
  then show ?thesis using p by blast
qed

theorem kfree_exact_witness:
  "\<exists>s x s' s''. slab_init demo_slab = Some s \<and> kmalloc 5000 s = Some (Some x, s') \<and> kfree x s' = Some s'' \<and>
     used (smem s'') = used (smem s)"
proof -
  obtain s where s: "slab_init demo_slab = Some s" "slab_inv {} s" "user s = {}" "free_set (phys (smem s)) = {3..<4096}"
    by (rule demo_slab)
  obtain x s' where k: "kmalloc 5000 s = Some (Some x, s')" "slab_inv {} s'" "user s' = insert x (user s)" "outside s' = outside s"
    by (rule demo_alloc [OF s(2,4), of 5000]) auto
  have "used (smem s) = outside s" using no_user_no_slab [OF s(2,3)] used_split [OF s(2)] by simp
  then show ?thesis using kfree_exact [OF k(2), of x] k s(1,3) by auto
qed

text \<open>The allocator with a record of the size each object was asked for.\<close>

definition sized_get :: "nat \<Rightarrow> slab_state \<times> (u32 \<Rightarrow> nat) \<Rightarrow> (u32 option \<times> slab_state \<times> (u32 \<Rightarrow> nat)) option" where
  "sized_get n x = do {
     (r, s) \<leftarrow> kmalloc n (fst x);
     Some (r, s, case r of None \<Rightarrow> snd x | Some a \<Rightarrow> (snd x)(a := n))
   }"

definition sized_put :: "u32 \<Rightarrow> slab_state \<times> (u32 \<Rightarrow> nat) \<Rightarrow> (slab_state \<times> (u32 \<Rightarrow> nat)) option" where
  "sized_put a x = do { s \<leftarrow> kfree a (fst x); Some (s, snd x) }"

definition sized_ok :: "slab_state \<times> (u32 \<Rightarrow> nat) \<Rightarrow> bool" where
  "sized_ok x \<longleftrightarrow> slab_inv {} (fst x) \<and> (\<forall>a\<in>user (fst x). snd x a \<le> ksize (fst x) a)"

interpretation sized_heap: object_heap sized_ok "\<lambda>x. user (fst x)" "\<lambda>x. outside (fst x)" "\<lambda>n. 0 < n \<and> n \<le> 2 ^ 17"
  sized_get sized_put
proof (unfold_locales, goal_cases)
  case (1 x n)
  then have "slab_inv {} (fst x)" "0 < n" "n \<le> 2 ^ 17" and g: "\<forall>a\<in>user (fst x). snd x a \<le> ksize (fst x) a"
    by (auto simp: sized_ok_def)
  then obtain r s' where "kmalloc n (fst x) = Some (r, s')" "slab_inv {} s'" "outside s' = outside (fst x)"
    "\<forall>y\<in>user (fst x). ksize s' y = ksize (fst x) y" "case r of
       None \<Rightarrow> user s' = user (fst x) \<and> (\<forall>b. \<not> {b..<b + 33} \<subseteq> free_set (phys (smem (fst x))))
     | Some a \<Rightarrow> a \<notin> user (fst x) \<and> user s' = insert a (user (fst x)) \<and> n \<le> ksize s' a"
    using kmalloc_exact by blast
  then show ?case using g by (cases r) (auto simp: sized_get_def sized_ok_def)
next
  case (2 x a)
  then have "slab_inv {} (fst x)" and g: "\<forall>a\<in>user (fst x). snd x a \<le> ksize (fst x) a" by (auto simp: sized_ok_def)
  then obtain s' where "kfree a (fst x) = Some s'" "slab_inv {} s'" "user s' = user (fst x) - {a}"
    "outside s' = outside (fst x)" "\<forall>y\<in>user s'. ksize s' y = ksize (fst x) y"
    using kfree_keeps_sizes [OF _ 2(2)] by blast
  then show ?case using g by (auto simp: sized_put_def sized_ok_def)
qed

text \<open>
  C9. Memory that the allocator has handed out is the client's alone.  After slab_init and any sequence of
  requests for 1 byte to 128 KB and releases of objects held, each object held has at least the bytes it was
  asked for, no two of them share a byte, and none shares a byte with the control structure of a slab, wherever
  that lies; control structures of different slabs share no byte and different slabs no frame; and objects and
  control structures lie in frames of the slabs, none of which was in use before.
\<close>

theorem slab_separate:
  assumes "ff_inv npage (phys (smem s))" "\<forall>n. Get n \<in> set rs \<longrightarrow> 0 < n \<and> n \<le> 2 ^ 17"
  shows "\<exists>s1 hs s2 g. slab_init s = Some s1 \<and> heap_run sized_get sized_put rs [] (s1, \<lambda>_. 0) = Some (hs, s2, g) \<and>
    (\<forall>x\<in>set hs. g x \<le> ksize s2 x \<and> extent s2 x \<subseteq> frame_bytes (slab_pages s2) \<and>
       (\<forall>y\<in>set hs. x \<noteq> y \<longrightarrow> extent s2 x \<inter> extent s2 y = {}) \<and>
       (\<forall>c<SLAB_CACHE_NUM. \<forall>a\<in>slabs s2 c. extent s2 x \<inter> slab_ctl s2 c a = {})) \<and>
    (\<forall>c<SLAB_CACHE_NUM. \<forall>a\<in>slabs s2 c. slab_ctl s2 c a \<subseteq> frame_bytes (slab_pages s2) \<and>
       (\<forall>c'<SLAB_CACHE_NUM. \<forall>a'\<in>slabs s2 c'. (c, a) \<noteq> (c', a') \<longrightarrow>
          slab_ctl s2 c a \<inter> slab_ctl s2 c' a' = {} \<and> pages_of s2 c a \<inter> pages_of s2 c' a' = {})) \<and>
    slab_pages s2 \<inter> used (smem s) = {}"
proof -
  obtain s1 where s1: "slab_init s = Some s1" "smem s1 = smem s" "slab_inv {} s1" "user s1 = {}" "slab_pages s1 = {}"
    using slab_init_ok [OF assms(1)] by blast
  have ok: "sized_ok (s1, \<lambda>_. 0)" using s1(3) by (simp add: sized_ok_def)
  obtain hs s2 g where r: "heap_run sized_get sized_put rs [] (s1, \<lambda>_. 0) = Some (hs, s2, g)" "sized_ok (s2, g)"
    "outside s2 = outside s1" "user s2 = set hs"
    using sized_heap.run_keeps [OF ok, of "[]" "{}" rs] s1(4) assms(2) by auto
  have i: "slab_inv {} s2" and g: "\<forall>x\<in>set hs. g x \<le> ksize s2 x" using r(2,4) by (auto simp: sized_ok_def)
  have hold: "\<exists>c a i. holds_obj s2 c a i x" if "x \<in> set hs" for x
    using live_holds [of x s2] that r(4) by (auto simp: user_def)
  have pg: "frame_bytes (pages_of s2 c a) \<subseteq> frame_bytes (slab_pages s2)" if "c < 13" "a \<in> slabs s2 c" for c a
    by (rule frame_bytes_mono) (use that in \<open>auto simp: slab_pages_def slab_limits\<close>)
  have ex: "extent s2 x \<subseteq> frame_bytes (slab_pages s2)" if "holds_obj s2 c a i x" for c a i x
    using extent_in_slab [OF i that] pg [OF holds_objD(1,2) [OF that]] by blast
  have two: "extent s2 x \<inter> extent s2 y = {}" if "x \<in> set hs" "y \<in> set hs" "x \<noteq> y" for x y
    using hold [OF that(1)] hold [OF that(2)] extents_disjoint [OF i _ _ that(3)] by blast
  have xc: "extent s2 x \<inter> slab_ctl s2 c a = {}" if "x \<in> set hs" "c < 13" "a \<in> slabs s2 c" for x c a
  proof -
    have "x \<notin> ctrl s2" using that(1) r(4) by (auto simp: user_def)
    then show ?thesis using hold [OF that(1)] ctl_extent [OF i _ _ that(2,3)] by blast
  qed
  have cf: "slab_ctl s2 c a \<subseteq> frame_bytes (slab_pages s2)" if "c < 13" "a \<in> slabs s2 c" for c a
  proof (cases "off_slab (slab_cache s2 c)")
    case True
    from that obtain j a1 i1 where "holds_obj s2 j a1 i1 a" "slab_ctl s2 c a \<subseteq> extent s2 a" using ctl_off_object [OF i _ _ True] by blast
    then show ?thesis using ex by blast
  next
    case False
    then show ?thesis using ctl_on_frames(1) [OF i that] pg [OF that] by blast
  qed
  have "outside s2 = used (smem s)" using s1(2,5) r(3) by (simp add: outside_def)
  then have "slab_pages s2 \<inter> used (smem s) = {}" by (auto simp: outside_def)
  moreover have "\<forall>x\<in>set hs. g x \<le> ksize s2 x \<and> extent s2 x \<subseteq> frame_bytes (slab_pages s2) \<and>
       (\<forall>y\<in>set hs. x \<noteq> y \<longrightarrow> extent s2 x \<inter> extent s2 y = {}) \<and>
       (\<forall>c<SLAB_CACHE_NUM. \<forall>a\<in>slabs s2 c. extent s2 x \<inter> slab_ctl s2 c a = {})"
    using g hold ex two xc unfolding slab_limits by blast
  moreover have "\<forall>c<SLAB_CACHE_NUM. \<forall>a\<in>slabs s2 c. slab_ctl s2 c a \<subseteq> frame_bytes (slab_pages s2) \<and>
       (\<forall>c'<SLAB_CACHE_NUM. \<forall>a'\<in>slabs s2 c'. (c, a) \<noteq> (c', a') \<longrightarrow>
          slab_ctl s2 c a \<inter> slab_ctl s2 c' a' = {} \<and> pages_of s2 c a \<inter> pages_of s2 c' a' = {})"
    unfolding slab_limits using cf ctls_disjoint [OF i] by (intro allI impI ballI conjI) simp_all
  ultimately show ?thesis using s1(1) r(1) by blast
qed

theorem slab_separate_witness:
  "\<exists>s1 hs s2 g. slab_init demo_slab = Some s1 \<and>
     heap_run sized_get sized_put [Get 24, Get 600, Put 0, Get 131072] [] (s1, \<lambda>_. 0) = Some (hs, s2, g) \<and>
     (\<forall>x\<in>set hs. \<forall>y\<in>set hs. x \<noteq> y \<longrightarrow> extent s2 x \<inter> extent s2 y = {}) \<and> slab_pages s2 \<inter> {0, 1, 2} = {}"
proof -
  have "ff_inv npage (phys (smem demo_slab))" and u: "used (smem demo_slab) = {0, 1, 2}"
    using demo_vmem_phys by (simp_all add: demo_slab_def)
  from slab_separate [OF this(1), of "[Get 24, Get 600, Put 0, Get 131072]"] show ?thesis unfolding u by auto
qed

text \<open>
  C8. A client that starts after slab_init with the frames as they are and, in any order, asks for objects of
  1 byte to 128 KB and returns objects it holds: no call panics, whatever it holds at the end are different
  objects, exactly those of the heap, the frames in use for other things are those it started with, and when it
  has returned everything the frames in use are those from before slab_init.
\<close>

theorem kmalloc_scripts:
  assumes "ff_inv npage (phys (smem s))" "\<forall>n. Get n \<in> set rs \<longrightarrow> 0 < n \<and> n \<le> 2 ^ 17"
  shows "\<exists>s1 hs s2. slab_init s = Some s1 \<and> heap_run kmalloc kfree rs [] s1 = Some (hs, s2) \<and> slab_inv {} s2 \<and>
    distinct hs \<and> user s2 = set hs \<and> outside s2 = used (smem s) \<and> (hs = [] \<longrightarrow> used (smem s2) = used (smem s))"
proof -
  obtain s1 where s1: "slab_init s = Some s1" "smem s1 = smem s" "slab_inv {} s1" "user s1 = {}" "slab_pages s1 = {}"
    using slab_init_ok [OF assms(1)] by blast
  obtain hs s2 where r: "heap_run kmalloc kfree rs [] s1 = Some (hs, s2)" "slab_inv {} s2" "outside s2 = outside s1" "distinct hs"
    "user s2 = set hs" using kheap.run_keeps [OF s1(3), of "[]" "{}" rs] s1(4) assms(2) by auto
  have "outside s1 = used (smem s)" using s1(2,5) by (simp add: outside_def)
  moreover have "used (smem s2) = outside s2" if "hs = []"
    using no_user_no_slab [OF r(2)] used_split [OF r(2)] r(5) that by simp
  ultimately show ?thesis using s1(1) r by auto
qed

theorem kmalloc_scripts_witness:
  "\<exists>s1 hs s2. slab_init demo_slab = Some s1 \<and> heap_run kmalloc kfree [Get 24, Get 600, Put 0, Get 131072] [] s1 = Some (hs, s2) \<and>
     user s2 = set hs"
proof -
  have "ff_inv npage (phys (smem demo_slab))" using demo_vmem_phys by (simp add: demo_slab_def)
  from kmalloc_scripts [OF this, of "[Get 24, Get 600, Put 0, Get 131072]"] show ?thesis by auto
qed

end
