(* ===== verification/Sysfile.thy ===== *)
theory Sysfile
  imports Proc_Life Vfs
begin

text \<open>
  The system calls on files (\<^verbatim>\<open>kern/fs/sysfile.c\<close>): arguments in user memory are checked and copied
  to and from buffers of the kernel, and the work is done by the file layer.  The machine is the state
  of \<open>Proc_Life\<close>, its nodes and names those of \<open>Vfs\<close>; the bytes of memory are \<open>memory\<close>.  An operation
  on files sees the running process through \<open>on_files\<close>: \<^verbatim>\<open>current->fs_struct\<close> and its \<^verbatim>\<open>pwd\<close>, which every
  process has from its creation until it exits.
\<close>

type_synonym ('a, 'd) os_op = "'d names os_state \<Rightarrow> ('a \<times> 'd names os_state) option"

abbreviation cur_mm :: "'d os_state \<Rightarrow> nat option" where
  "cur_mm s \<equiv> mm (oprocs s (cur s))"

definition on_files :: "('d names fs_state \<Rightarrow> ('a \<times> 'd names fs_state) option) \<Rightarrow> ('a, 'd) os_op" where
  "on_files f s = do {
     k \<leftarrow> fs_struct (oprocs s (cur s));
     (r, g) \<leftarrow> f ((ofs s)\<lparr>cur_fs := Some k, vfs := mod_names (\<lambda>x. x\<lparr>cwd := pwd (fss (ofs s) k)\<rparr>) (vfs (ofs s))\<rparr>);
     Some (r, s\<lparr>ofs := mod_fs k (\<lambda>d. d\<lparr>pwd := cwd (fsdata (vfs g))\<rparr>) g\<rparr>)
   }"

section \<open>Memory\<close>

definition os_mem :: "'d names name_ops \<Rightarrow> 'd names os_state \<Rightarrow> mem" where
  "os_mem ops s = memory ops (vfs (ofs s))"

definition set_os_mem :: "'d names name_ops \<Rightarrow> mem \<Rightarrow> 'd names os_state \<Rightarrow> 'd names os_state" where
  "set_os_mem ops m s = s\<lparr>ofs := (ofs s)\<lparr>vfs := set_memory ops m (vfs (ofs s))\<rparr>\<rparr>"

definition lock_cur :: "'d os_state \<Rightarrow> 'd os_state" where
  "lock_cur s = s\<lparr>ovm := lock_mm (cur_mm s) (pid (oprocs s (cur s))) (ovm s)\<rparr>"

definition unlock_cur :: "'d os_state \<Rightarrow> 'd os_state" where
  "unlock_cur s = s\<lparr>ovm := unlock_mm (cur_mm s) (ovm s)\<rparr>"

definition kalloc :: "'d os_state \<Rightarrow> nat option \<times> 'd os_state" where
  "kalloc s = (case kmalloc_obj (ovm s) of (r, v) \<Rightarrow> (r, s\<lparr>ovm := v\<rparr>))"

definition kfree_os :: "nat \<Rightarrow> 'd os_state \<Rightarrow> 'd os_state" where
  "kfree_os a s = s\<lparr>ovm := kfree_obj a (ovm s)\<rparr>"

definition to_user :: "'d names name_ops \<Rightarrow> u32 \<Rightarrow> u32 \<Rightarrow> u32 \<Rightarrow> (bool, 'd) os_op" where
  "to_user ops dst src len s = do {
     (ok, m, v) \<leftarrow> copy_to_user (cur_mm s) dst src len (os_mem ops s) (ovm s);
     Some (ok, set_os_mem ops m (s\<lparr>ovm := v\<rparr>))
   }"

definition from_user :: "'d names name_ops \<Rightarrow> u32 \<Rightarrow> u32 \<Rightarrow> u32 \<Rightarrow> bool \<Rightarrow> (bool, 'd) os_op" where
  "from_user ops dst src len wr s = do {
     (ok, m, v) \<leftarrow> copy_from_user (cur_mm s) dst src len wr (os_mem ops s) (ovm s);
     Some (ok, set_os_mem ops m (s\<lparr>ovm := v\<rparr>))
   }"

definition string_from_user :: "'d names name_ops \<Rightarrow> u32 \<Rightarrow> u32 \<Rightarrow> u32 \<Rightarrow> (bool, 'd) os_op" where
  "string_from_user ops dst src maxn s = do {
     (ok, m, v) \<leftarrow> copy_string (cur_mm s) dst src maxn (os_mem ops s) (ovm s);
     Some (ok, set_os_mem ops m (s\<lparr>ovm := v\<rparr>))
   }"

definition poke :: "mem \<Rightarrow> nat \<Rightarrow> u8 list \<Rightarrow> mem" where
  "poke m a bs x = (if a \<le> x \<and> x < a + length bs then bs ! (x - a) else m x)"

text \<open>\<^verbatim>\<open>copy_to_user\<close> of a local variable of the caller, whose bytes are \<open>bs\<close>.\<close>

definition local_to_user :: "'d names name_ops \<Rightarrow> u32 \<Rightarrow> u8 list \<Rightarrow> (bool, 'd) os_op" where
  "local_to_user ops dst bs s = do {
     (ok, v) \<leftarrow> user_mem_check (cur_mm s) dst (of_nat (length bs)) True (ovm s);
     let s = s\<lparr>ovm := v\<rparr>;
     Some (ok, if ok then set_os_mem ops (poke (os_mem ops s) (unat dst) bs) s else s)
   }"

text \<open>Words in memory, little endian.\<close>

definition load_word :: "mem \<Rightarrow> nat \<Rightarrow> u32" where
  "load_word m a = bytes_word (bytes m a 4)"

definition store_word :: "nat \<Rightarrow> u32 \<Rightarrow> mem \<Rightarrow> mem" where
  "store_word a w m = poke m a (word_bytes w)"

text \<open>The C string at an address, at most \<open>n\<close> characters of it.\<close>

definition string_at :: "mem \<Rightarrow> nat \<Rightarrow> nat \<Rightarrow> string" where
  "string_at m a n = map (\<lambda>i. char_of (unat (m (a + i)))) [0..<strnlen m a n]"

section \<open>Paths\<close>

definition FS_MAX_FPATH_LEN :: nat where "FS_MAX_FPATH_LEN = 4095"
definition IOBUF_SIZE :: u32 where "IOBUF_SIZE = 4096"

definition copy_path :: "'d names name_ops \<Rightarrow> u32 \<Rightarrow> (int \<times> nat option, 'd) os_op" where
  "copy_path ops frm s = (case kalloc s of
     (None, s) \<Rightarrow> Some ((fail_code E_NO_MEM, None), s)
   | (Some buffer, s) \<Rightarrow> do {
       let s = lock_cur s;
       (ok, s) \<leftarrow> string_from_user ops (of_nat buffer) frm (of_nat (FS_MAX_FPATH_LEN + 1)) s;
       let s = unlock_cur s;
       Some (if ok then ((0, Some buffer), s) else ((fail_code E_INVAL, None), kfree_os buffer s))
     })"

text \<open>
  What the routines do between \<^verbatim>\<open>copy_path\<close> and \<^verbatim>\<open>kfree\<close>.  The look-up cuts the path in the buffer, which is
  freed next; that change of the buffer is left out.
\<close>

definition with_path :: "'d names name_ops \<Rightarrow> u32 \<Rightarrow> (string \<Rightarrow> (int, 'd) os_op) \<Rightarrow> (int, 'd) os_op" where
  "with_path ops path f s = do {
     ((ret, p), s) \<leftarrow> copy_path ops path s;
     if ret \<noteq> 0 then Some (ret, s)
     else do {
       p \<leftarrow> p;
       (ret, s) \<leftarrow> f (string_at (os_mem ops s) p (FS_MAX_FPATH_LEN + 1)) s;
       Some (ret, kfree_os p s)
     }
   }"

definition with_paths :: "'d names name_ops \<Rightarrow> u32 \<Rightarrow> u32 \<Rightarrow> (string \<Rightarrow> string \<Rightarrow> int) \<Rightarrow> (int, 'd) os_op" where
  "with_paths ops path1 path2 f s = do {
     ((ret, p), s) \<leftarrow> copy_path ops path1 s;
     if ret \<noteq> 0 then Some (ret, s)
     else do {
       p \<leftarrow> p;
       ((ret, q), s) \<leftarrow> copy_path ops path2 s;
       if ret \<noteq> 0 then Some (ret, kfree_os p s)
       else do {
         q \<leftarrow> q;
         let ret = f (string_at (os_mem ops s) p (FS_MAX_FPATH_LEN + 1)) (string_at (os_mem ops s) q (FS_MAX_FPATH_LEN + 1));
         Some (ret, kfree_os q (kfree_os p s))
       }
     }
   }"

definition sysfile_open :: "'d names name_ops \<Rightarrow> u32 \<Rightarrow> u32 \<Rightarrow> (int, 'd) os_op" where
  "sysfile_open ops path fl = with_path ops path (\<lambda>p. on_files (file_open (vfs_ops ops) p fl))"

definition sysfile_close :: "'d names name_ops \<Rightarrow> int \<Rightarrow> (int, 'd) os_op" where
  "sysfile_close ops fd = on_files (file_close (vfs_ops ops) fd)"

section \<open>Reading and writing\<close>

text \<open>One turn of the loop: what is left to do, and whether to go on.\<close>

definition read_turn ::
  "'d names name_ops \<Rightarrow> int \<Rightarrow> u32 \<Rightarrow> u32 \<times> u32 \<times> u32 \<Rightarrow> ((int \<times> bool) \<times> u32 \<times> u32 \<times> u32, 'd) os_op" where
  "read_turn ops fd buffer = (\<lambda>(base, len, copied) s. do {
     let alen = (if IOBUF_SIZE > len then len else IOBUF_SIZE);
     ((ret, alen), s) \<leftarrow> on_files (\<lambda>g. do { (ret, n, g) \<leftarrow> file_read (vfs_ops ops) fd buffer alen g; Some ((ret, n), g) }) s;
     ((ret, base, len, copied), s) \<leftarrow>
       (if alen \<noteq> 0 then do {
          let s = lock_cur s;
          (ok, s) \<leftarrow> to_user ops base buffer alen s;
          r \<leftarrow> (if ok then do { kassert (len \<ge> alen); Some (ret, base + alen, len - alen, copied + alen) }
                else Some (if ret = 0 then fail_code E_INVAL else ret, base, len, copied));
          Some (r, unlock_cur s)
        } else Some ((ret, base, len, copied), s));
     Some (((ret, ret = 0 \<and> alen \<noteq> 0), base, len, copied), s)
   })"

partial_function (option) read_loop ::
  "'d names name_ops \<Rightarrow> int \<Rightarrow> u32 \<Rightarrow> u32 \<times> u32 \<times> u32 \<Rightarrow> (int \<times> u32, 'd) os_op" where
  "read_loop ops fd buffer r s =
     (if fst (snd r) \<noteq> 0 then do {
        (((ret, more), r), s) \<leftarrow> read_turn ops fd buffer r s;
        if more then read_loop ops fd buffer r s else Some ((ret, snd (snd r)), s)
      } else Some ((0, snd (snd r)), s))"

definition sysfile_read :: "'d names name_ops \<Rightarrow> int \<Rightarrow> u32 \<Rightarrow> u32 \<Rightarrow> (int, 'd) os_op" where
  "sysfile_read ops fd base len s =
     (if len = 0 then Some (0, s)
      else do {
        (ok, s) \<leftarrow> on_files (\<lambda>g. do { b \<leftarrow> file_testfd fd True False g; Some (b, g) }) s;
        if \<not> ok then Some (fail_code E_INVAL, s)
        else (case kalloc s of
           (None, s) \<Rightarrow> Some (fail_code E_NO_MEM, s)
         | (Some buffer, s) \<Rightarrow> do {
             ((ret, copied), s) \<leftarrow> read_loop ops fd (of_nat buffer) (base, len, 0) s;
             let s = kfree_os buffer s;
             Some (if copied \<noteq> 0 then sint copied else ret, s)
           })
      })"

definition write_turn ::
  "'d names name_ops \<Rightarrow> int \<Rightarrow> u32 \<Rightarrow> u32 \<times> u32 \<times> u32 \<Rightarrow> ((int \<times> bool) \<times> u32 \<times> u32 \<times> u32, 'd) os_op" where
  "write_turn ops fd buffer = (\<lambda>(base, len, copied) s. do {
     let alen = (if IOBUF_SIZE > len then len else IOBUF_SIZE);
     let s = lock_cur s;
     (ok, s) \<leftarrow> from_user ops buffer base alen False s;
     let s = unlock_cur s;
     if ok then do {
       ((ret, alen), s) \<leftarrow> on_files (\<lambda>g. do { (ret, n, g) \<leftarrow> file_write (vfs_ops ops) fd buffer alen g; Some ((ret, n), g) }) s;
       (base, len, copied) \<leftarrow>
         (if alen \<noteq> 0 then do { kassert (len \<ge> alen); Some (base + alen, len - alen, copied + alen) }
          else Some (base, len, copied));
       Some (((ret, ret = 0 \<and> alen \<noteq> 0), base, len, copied), s)
     } else Some (((fail_code E_INVAL, False), base, len, copied), s)
   })"

partial_function (option) write_loop ::
  "'d names name_ops \<Rightarrow> int \<Rightarrow> u32 \<Rightarrow> u32 \<times> u32 \<times> u32 \<Rightarrow> (int \<times> u32, 'd) os_op" where
  "write_loop ops fd buffer r s =
     (if fst (snd r) \<noteq> 0 then do {
        (((ret, more), r), s) \<leftarrow> write_turn ops fd buffer r s;
        if more then write_loop ops fd buffer r s else Some ((ret, snd (snd r)), s)
      } else Some ((0, snd (snd r)), s))"

definition sysfile_write :: "'d names name_ops \<Rightarrow> int \<Rightarrow> u32 \<Rightarrow> u32 \<Rightarrow> (int, 'd) os_op" where
  "sysfile_write ops fd base len s =
     (if len = 0 then Some (0, s)
      else do {
        (ok, s) \<leftarrow> on_files (\<lambda>g. do { b \<leftarrow> file_testfd fd False True g; Some (b, g) }) s;
        if \<not> ok then Some (fail_code E_INVAL, s)
        else (case kalloc s of
           (None, s) \<Rightarrow> Some (fail_code E_NO_MEM, s)
         | (Some buffer, s) \<Rightarrow> do {
             ((ret, copied), s) \<leftarrow> write_loop ops fd (of_nat buffer) (base, len, 0) s;
             let s = kfree_os buffer s;
             Some (if copied \<noteq> 0 then sint copied else ret, s)
           })
      })"

section \<open>The other calls\<close>

definition sysfile_seek :: "'d names name_ops \<Rightarrow> int \<Rightarrow> u32 \<Rightarrow> int \<Rightarrow> (int, 'd) os_op" where
  "sysfile_seek ops fd pos whence = on_files (file_seek (vfs_ops ops) fd pos whence)"

definition stat_bytes :: "stat \<Rightarrow> u8 list" where
  "stat_bytes st = concat (map word_bytes [st_mode st, st_nlinks st, st_blocks st, st_size st])"

definition sysfile_fstat :: "'d names name_ops \<Rightarrow> int \<Rightarrow> u32 \<Rightarrow> (int, 'd) os_op" where
  "sysfile_fstat ops fd ustat s = do {
     ((ret, st), s) \<leftarrow> on_files (\<lambda>g. do { (ret, st, g) \<leftarrow> file_fstat (vfs_ops ops) fd g; Some ((ret, st), g) }) s;
     if ret \<noteq> 0 then Some (ret, s)
     else do {
       st \<leftarrow> st;
       let s = lock_cur s;
       (ok, s) \<leftarrow> local_to_user ops ustat (stat_bytes st) s;
       Some (if ok then ret else fail_code E_INVAL, unlock_cur s)
     }
   }"

definition sysfile_fsync :: "'d names name_ops \<Rightarrow> int \<Rightarrow> (int, 'd) os_op" where
  "sysfile_fsync ops fd = on_files (file_fsync (vfs_ops ops) fd)"

definition sysfile_chdir :: "'d names name_ops \<Rightarrow> u32 \<Rightarrow> (int, 'd) os_op" where
  "sysfile_chdir ops path = with_path ops path (\<lambda>p. on_files (\<lambda>g. do {
     (ret, v) \<leftarrow> vfs_chdir ops p (vfs g); Some (ret, g\<lparr>vfs := v\<rparr>) }))"

definition vfs_unlink :: "string \<Rightarrow> int" where "vfs_unlink path = fail_code E_UNIMP"
definition vfs_rename :: "string \<Rightarrow> string \<Rightarrow> int" where "vfs_rename old_path new_path = fail_code E_UNIMP"
definition vfs_link :: "string \<Rightarrow> string \<Rightarrow> int" where "vfs_link old_path new_path = fail_code E_UNIMP"

definition sysfile_link :: "'d names name_ops \<Rightarrow> u32 \<Rightarrow> u32 \<Rightarrow> (int, 'd) os_op" where
  "sysfile_link ops path1 path2 = with_paths ops path1 path2 vfs_link"

definition sysfile_rename :: "'d names name_ops \<Rightarrow> u32 \<Rightarrow> u32 \<Rightarrow> (int, 'd) os_op" where
  "sysfile_rename ops path1 path2 = with_paths ops path1 path2 vfs_rename"

definition sysfile_unlink :: "'d names name_ops \<Rightarrow> u32 \<Rightarrow> (int, 'd) os_op" where
  "sysfile_unlink ops path = with_path ops path (\<lambda>p s. Some (vfs_unlink p, s))"

definition sysfile_getcwd :: "'d names name_ops \<Rightarrow> u32 \<Rightarrow> u32 \<Rightarrow> (int, 'd) os_op" where
  "sysfile_getcwd ops buf len s =
     (if len = 0 then Some (fail_code E_INVAL, s)
      else do {
        let s = lock_cur s;
        (ok, v) \<leftarrow> user_mem_check (cur_mm s) buf len True (ovm s);
        let s = s\<lparr>ovm := v\<rparr>;
        (ret, s) \<leftarrow> (if ok then on_files (\<lambda>g. do {
             (ret, _, v) \<leftarrow> vfs_getcwd ops (iobuf_init buf len 0) (vfs g); Some (ret, g\<lparr>vfs := v\<rparr>) }) s
           else Some (fail_code E_INVAL, s));
        Some (ret, unlock_cur s)
      })"

text \<open>\<^verbatim>\<open>struct dirent\<close> is the offset and then the name, 260 bytes.\<close>

definition sysfile_getdirentry :: "'d names name_ops \<Rightarrow> int \<Rightarrow> u32 \<Rightarrow> (int, 'd) os_op" where
  "sysfile_getdirentry ops fd udirent s = (case kalloc s of
     (None, s) \<Rightarrow> Some (fail_code E_NO_MEM, s)
   | (Some direntp, s) \<Rightarrow> do {
       let s = lock_cur s;
       (ok, s) \<leftarrow> from_user ops (of_nat direntp) udirent 4 True s;
       let s = unlock_cur s;
       (ret, s) \<leftarrow> (if \<not> ok then Some (fail_code E_INVAL, s)
         else do {
           let off = load_word (os_mem ops s) direntp;
           ((ret, off), s) \<leftarrow> on_files (\<lambda>g. do {
              (ret, off, g) \<leftarrow> file_getdirentry (vfs_ops ops) fd (of_nat direntp + 4) off g; Some ((ret, off), g) }) s;
           let s = set_os_mem ops (store_word direntp off (os_mem ops s)) s;
           if ret \<noteq> 0 then Some (ret, s)
           else do {
             let s = lock_cur s;
             (ok, s) \<leftarrow> to_user ops udirent (of_nat direntp) 260 s;
             Some (if ok then ret else fail_code E_INVAL, unlock_cur s)
           }
         });
       Some (ret, kfree_os direntp s)
     })"

definition sysfile_dup :: "int \<Rightarrow> int \<Rightarrow> (int, 'd) os_op" where
  "sysfile_dup fd1 fd2 = on_files (file_dup fd1 fd2)"

definition sysfile_pipe :: "u32 \<Rightarrow> int" where "sysfile_pipe fd_store = fail_code E_UNIMP"
definition sysfile_mkfifo :: "u32 \<Rightarrow> u32 \<Rightarrow> int" where "sysfile_mkfifo name fl = fail_code E_UNIMP"

end
