(* ===== verification/Loader.thy ===== *)
theory Loader
  imports Sysfile Printfmt
begin

text \<open>
  Loading a program (\<^verbatim>\<open>load_icode\<close> and \<^verbatim>\<open>do_execve\<close> of \<^verbatim>\<open>kern/process/proc.c\<close>, \<^verbatim>\<open>elf.h\<close>).  There are two
  loaders, one for a program image in memory, one for a file; they differ in how they get at the bytes of
  the program, which is the argument \<open>rd\<close> here: destination, size and offset in the program.  Pages are
  filled at their kernel addresses, where \<open>os_mem\<close> holds their bytes.  The page faults that the kernel takes
  when it writes to user addresses are those of \<open>Trap\<close>; the address of the page tables that the
  hardware uses (\<^verbatim>\<open>lcr3\<close>) is not part of the state.
\<close>

section \<open>The ELF headers\<close>

definition ELF_MAGIC :: u32 where "ELF_MAGIC = 0x464C457F"
definition ELF_PT_LOAD :: u32 where "ELF_PT_LOAD = 1"
definition ELF_PF_X :: u32 where "ELF_PF_X = 1"
definition ELF_PF_W :: u32 where "ELF_PF_W = 2"
definition ELF_PF_R :: u32 where "ELF_PF_R = 4"

record elfhdr32 =
  e_magic :: u32
  e_type :: u32
  e_machine :: u32
  e_version :: u32
  e_entry :: u32
  e_phoff :: u32
  e_shoff :: u32
  e_flags :: u32
  e_ehsize :: u32
  e_phentsize :: u32
  e_phnum :: u32
  e_shentsize :: u32
  e_shnum :: u32
  e_shstrndx :: u32

text \<open>Sizes and offsets are those of the packed \<^verbatim>\<open>struct __elfhdr\<close>; \<^verbatim>\<open>e_elf\<close> is not copied.\<close>

definition sizeof_elfhdr :: u32 where "sizeof_elfhdr = 52"

definition load_elfhdr :: "mem \<Rightarrow> nat \<Rightarrow> elfhdr32" where
  "load_elfhdr m eh =
     (let w = (\<lambda>k. load_word m (eh + k)); lo = (\<lambda>k. w k AND 0xFFFF); hi = (\<lambda>k. drop_bit 16 (w k)) in
      \<lparr>e_magic = w 0, e_type = lo 16, e_machine = hi 16, e_version = w 20, e_entry = w 24, e_phoff = w 28,
       e_shoff = w 32, e_flags = w 36, e_ehsize = lo 40, e_phentsize = hi 40, e_phnum = lo 44,
       e_shentsize = hi 44, e_shnum = lo 48, e_shstrndx = hi 48\<rparr>)"

record proghdr =
  p_type :: u32
  p_offset :: u32
  p_va :: u32
  p_pa :: u32
  p_filesz :: u32
  p_memsz :: u32
  p_flags :: u32
  p_align :: u32

definition sizeof_proghdr :: u32 where "sizeof_proghdr = 32"

definition proghdr_at :: "mem \<Rightarrow> nat \<Rightarrow> proghdr" where
  "proghdr_at m a =
     (let w = (\<lambda>k. load_word m (a + k)) in
      \<lparr>p_type = w 0, p_offset = w 4, p_va = w 8, p_pa = w 12, p_filesz = w 16, p_memsz = w 20, p_flags = w 24, p_align = w 28\<rparr>)"

section \<open>One segment\<close>

type_synonym 'd reader = "u32 \<Rightarrow> u32 \<Rightarrow> u32 \<Rightarrow> (int, 'd) os_op"

definition load_icode_read :: "'d names name_ops \<Rightarrow> int \<Rightarrow> 'd reader" where
  "load_icode_read ops fd dst len offset s = do {
     (ret, s) \<leftarrow> sysfile_seek ops fd offset 0 s;
     if ret \<noteq> 0 then Some (ret, s)
     else do {
       (ret, s) \<leftarrow> sysfile_read ops fd dst len s;
       Some (if word_of_int ret \<noteq> len then (if ret < 0 then ret else -1) else 0, s)
     }
   }"

definition image_read :: "'d names name_ops \<Rightarrow> u32 \<Rightarrow> 'd reader" where
  "image_read ops binary dst len offset s =
     Some (0, set_os_mem ops (memcpy (os_mem ops s) (unat dst) (unat (binary + offset)) (unat len)) s)"

definition user_page :: "nat \<Rightarrow> u32 \<Rightarrow> u32 \<Rightarrow> (nat option, 'd) os_op" where
  "user_page m la perm s = do {
     pd \<leftarrow> pgdir (mms (ovm s) m);
     (page, pg) \<leftarrow> pgdir_alloc_page pd la perm (pgs (ovm s));
     Some (page, s\<lparr>ovm := (ovm s)\<lparr>pgs := pg\<rparr>\<rparr>)
   }"

text \<open>How much of the page that ends at \<open>la\<close> is to be filled, from \<open>off\<close> on and up to address \<open>en\<close>.\<close>

definition part_size :: "u32 \<Rightarrow> u32 \<Rightarrow> u32 \<Rightarrow> u32" where
  "part_size off la en = (let size = PGSIZE - off in if en < la then size - (la - en) else size)"

text \<open>The bytes from the program, \<^verbatim>\<open>while (start < end)\<close>: \<open>start\<close>, \<open>la\<close>, the offset and the last page.\<close>

partial_function (option) fill_loop ::
  "'d reader \<Rightarrow> nat \<Rightarrow> u32 \<Rightarrow> u32 \<Rightarrow> u32 \<Rightarrow> u32 \<Rightarrow> u32 \<Rightarrow> nat option \<Rightarrow> (int \<times> u32 \<times> u32 \<times> nat option, 'd) os_op" where
  "fill_loop rd m perm en start la offset page s =
     (if start < en then do {
        (p, s) \<leftarrow> user_page m la perm s;
        (case p of
           None \<Rightarrow> Some ((fail_code E_NO_MEM, start, la, None), s)
         | Some p \<Rightarrow> do {
             kva \<leftarrow> page2kva p;
             let off = start - la;
             let la = la + PGSIZE;
             let n = part_size off la en;
             (ret, s) \<leftarrow> rd (kva + off) n offset s;
             if ret \<noteq> 0 then Some ((ret, start, la, Some p), s)
             else fill_loop rd m perm en (start + n) la (offset + n) (Some p) s
           })
      } else Some ((0, start, la, page), s))"

definition zero_part :: "'d names name_ops \<Rightarrow> u32 \<Rightarrow> u32 \<Rightarrow> 'd names os_state \<Rightarrow> 'd names os_state" where
  "zero_part ops a n s = set_os_mem ops (memset (os_mem ops s) (unat a) 0 (unat n)) s"

text \<open>The rest of the last page.\<close>

definition zero_head ::
  "'d names name_ops \<Rightarrow> u32 \<Rightarrow> u32 \<Rightarrow> u32 \<Rightarrow> nat option \<Rightarrow> (u32, 'd) os_op" where
  "zero_head ops en start la page s = do {
     p \<leftarrow> page;
     kva \<leftarrow> page2kva p;
     let off = start + PGSIZE - la;
     let n = part_size off la en;
     let s = zero_part ops (kva + off) n s;
     let start = start + n;
     kassert (en < la \<and> start = en \<or> en \<ge> la \<and> start = la);
     Some (start, s)
   }"

partial_function (option) zero_loop ::
  "'d names name_ops \<Rightarrow> nat \<Rightarrow> u32 \<Rightarrow> u32 \<Rightarrow> u32 \<Rightarrow> u32 \<Rightarrow> (int, 'd) os_op" where
  "zero_loop ops m perm en start la s =
     (if start < en then do {
        (p, s) \<leftarrow> user_page m la perm s;
        (case p of
           None \<Rightarrow> Some (fail_code E_NO_MEM, s)
         | Some p \<Rightarrow> do {
             kva \<leftarrow> page2kva p;
             let off = start - la;
             let la = la + PGSIZE;
             let n = part_size off la en;
             zero_loop ops m perm en (start + n) la (zero_part ops (kva + off) n s)
           })
      } else Some (0, s))"

definition segment_flags :: "u32 \<Rightarrow> u32" where
  "segment_flags fl = (if fl AND ELF_PF_X \<noteq> 0 then VM_EXEC else 0) OR (if fl AND ELF_PF_W \<noteq> 0 then VM_WRITE else 0) OR
     (if fl AND ELF_PF_R \<noteq> 0 then VM_READ else 0)"

text \<open>\<^verbatim>\<open>perm\<close> is not reset between segments, so it is an argument and, changed, a result.\<close>

definition segment_perm :: "u32 \<Rightarrow> u32 \<Rightarrow> u32" where
  "segment_perm vmf perm = (let perm = perm OR PTE_U in if vmf AND VM_WRITE \<noteq> 0 then perm OR PTE_W else perm)"

text \<open>The pages of a segment, once its area is there.\<close>

definition segment_pages :: "'d names name_ops \<Rightarrow> 'd reader \<Rightarrow> nat \<Rightarrow> proghdr \<Rightarrow> u32 \<Rightarrow> (int, 'd) os_op" where
  "segment_pages ops rd m ph perm s = do {
     ((ret, start, la, page), s) \<leftarrow>
       fill_loop rd m perm (p_va ph + p_filesz ph) (p_va ph) (rounddown_2n (p_va ph) 12) (p_offset ph) None s;
     if ret \<noteq> 0 then Some (ret, s)
     else do {
       let en = p_va ph + p_memsz ph;
       if start < la \<and> start \<ge> en then Some (0, s)
       else do {
         (start, s) \<leftarrow> (if start < la then zero_head ops en start la page s else Some (start, s));
         zero_loop ops m perm en start la s
       }
     }
   }"

definition load_segment :: "'d names name_ops \<Rightarrow> 'd reader \<Rightarrow> nat \<Rightarrow> proghdr \<Rightarrow> u32 \<Rightarrow> (int \<times> u32, 'd) os_op" where
  "load_segment ops rd m ph perm s =
     (if p_filesz ph > p_memsz ph then Some ((fail_code E_INVAL_ELF, perm), s)
      else do {
        let vmf = segment_flags (p_flags ph);
        let perm = segment_perm vmf perm;
        (ret, _, v) \<leftarrow> mm_map (Some m) (p_va ph) (p_memsz ph) vmf (ovm s);
        let s = s\<lparr>ovm := v\<rparr>;
        if ret \<noteq> 0 then Some ((ret, perm), s)
        else do {
          (ret, s) \<leftarrow> segment_pages ops rd m ph perm s;
          Some ((ret, perm), s)
        }
      })"

section \<open>The program\<close>

text \<open>\<open>ph\<close> is the address of the local variable \<^verbatim>\<open>_ph\<close>.\<close>

fun load_segments ::
  "'d names name_ops \<Rightarrow> 'd reader \<Rightarrow> u32 \<Rightarrow> nat \<Rightarrow> elfhdr32 \<Rightarrow> nat list \<Rightarrow> u32 \<Rightarrow> (int, 'd) os_op" where
  "load_segments ops rd ph m eh [] perm s = Some (0, s)"
| "load_segments ops rd ph m eh (k # ks) perm s = do {
     (ret, s) \<leftarrow> rd ph sizeof_proghdr (e_phoff eh + sizeof_proghdr * of_nat k) s;
     if ret \<noteq> 0 then Some (ret, s)
     else do {
       let h = proghdr_at (os_mem ops s) (unat ph);
       if p_type h \<noteq> ELF_PT_LOAD then load_segments ops rd ph m eh ks perm s
       else do {
         ((ret, perm), s) \<leftarrow> load_segment ops rd m h perm s;
         if ret \<noteq> 0 then Some (ret, s) else load_segments ops rd ph m eh ks perm s
       }
     }
   }"

definition USTACKTOP :: u32 where "USTACKTOP = USERTOP"
definition USTACKSIZE :: u32 where "USTACKSIZE = 16 * PGSIZE"
definition PLV_USER :: u32 where "PLV_USER = 3"
definition CSR_CRMD_IE :: u32 where "CSR_CRMD_IE = 4"

definition zero_frame :: trapframe where
  "zero_frame = \<lparr>tf_badv = 0, tf_estat = 0, tf_prmd = 0, tf_ra = 0, tf_regs = (\<lambda>_. 0), tf_era = 0\<rparr>"

definition set_tf :: "trapframe \<Rightarrow> 'd os_state \<Rightarrow> 'd os_state" where
  "set_tf tf s = s\<lparr>tfs := (tfs s)(cur s := tf)\<rparr>"

text \<open>The new memory becomes that of the running process.\<close>

definition enter_mm :: "nat \<Rightarrow> 'd os_state \<Rightarrow> 'd os_state option" where
  "enter_mm m s = do {
     let s = s\<lparr>ovm := snd (mm_count_inc m (ovm s))\<rparr>;
     let s = mod_p (cur s) (\<lambda>d. d\<lparr>mm := Some m\<rparr>) s;
     pd \<leftarrow> pgdir (mms (ovm s) m);
     Some (mod_p (cur s) (\<lambda>d. d\<lparr>cr3 := page2pa pd\<rparr>) s)
   }"

definition user_frame :: "u32 \<Rightarrow> trapframe" where
  "user_frame entry = (set_reg REG_SP USTACKTOP (zero_frame\<lparr>tf_era := entry\<rparr>))\<lparr>tf_prmd := PLV_USER OR CSR_CRMD_IE\<rparr>"

text \<open>
  From an image in memory.  The failures after the header panic; \<open>eh\<close> and \<open>ph\<close> are the addresses of the
  local variables.
\<close>

definition load_icode_image :: "'d names name_ops \<Rightarrow> u32 \<Rightarrow> u32 \<Rightarrow> u32 \<Rightarrow> (int, 'd) os_op" where
  "load_icode_image ops eh ph binary s = do {
     kassert (cur_mm s = None);
     let ret = fail_code E_NO_MEM;
     (case mm_create (ovm s) of
        (None, v) \<Rightarrow> Some (ret, s\<lparr>ovm := v\<rparr>)
      | (Some m, v) \<Rightarrow> do {
          (r, s) \<leftarrow> setup_pgdir m (s\<lparr>ovm := v\<rparr>);
          if r \<noteq> 0 then do { v \<leftarrow> mm_destroy m (ovm s); Some (ret, s\<lparr>ovm := v\<rparr>) }
          else do {
            (_, s) \<leftarrow> image_read ops binary eh sizeof_elfhdr 0 s;
            let elf = load_elfhdr (os_mem ops s) (unat eh);
            if e_magic elf \<noteq> ELF_MAGIC then do {
              v \<leftarrow> put_pgdir m (ovm s);
              v \<leftarrow> mm_destroy m v;
              Some (fail_code E_INVAL_ELF, s\<lparr>ovm := v\<rparr>)
            } else do {
              (ret, s) \<leftarrow> load_segments ops (image_read ops binary) ph m elf [0..<unat (e_phnum elf)] 0 s;
              kassert (ret = 0);
              (ret, _, v) \<leftarrow> mm_map (Some m) (USTACKTOP - USTACKSIZE) USTACKSIZE (VM_READ OR VM_WRITE OR VM_STACK) (ovm s);
              kassert (ret = 0);
              s \<leftarrow> enter_mm m (s\<lparr>ovm := v\<rparr>);
              Some (0, set_tf (user_frame (e_entry elf)) s)
            }
          }
        })
   }"

text \<open>The arguments: string \<open>i\<close> goes to page \<open>i\<close> of the stack's top, the pointers below them.\<close>

fun put_args :: "'d names name_ops \<Rightarrow> u32 \<Rightarrow> u32 \<Rightarrow> nat \<Rightarrow> nat list \<Rightarrow> 'd names os_state \<Rightarrow> 'd names os_state option" where
  "put_args ops stacktop uargv i [] s = Some s"
| "put_args ops stacktop uargv i (k # ks) s = do {
     let dst = stacktop + of_nat i * PGSIZE;
     (_, b) \<leftarrow> strcpy (os_mem ops s) (unat dst) k;
     let b = store_word (unat (uargv + 4 * of_nat i)) dst b;
     put_args ops stacktop uargv (i + 1) ks (set_os_mem ops b s)
   }"

text \<open>From a file.  Every failure panics.\<close>

definition load_icode :: "'d names name_ops \<Rightarrow> u32 \<Rightarrow> u32 \<Rightarrow> int \<Rightarrow> nat list \<Rightarrow> (int, 'd) os_op" where
  "load_icode ops eh ph fd kargv s = do {
     kassert (cur_mm s = None);
     let argc = of_nat (length kargv);
     let (m, v) = mm_create (ovm s);
     m \<leftarrow> m;
     (r, s) \<leftarrow> setup_pgdir m (s\<lparr>ovm := v\<rparr>);
     kassert (r = 0);
     (ret, s) \<leftarrow> load_icode_read ops fd eh sizeof_elfhdr 0 s;
     kassert (ret = 0);
     let elf = load_elfhdr (os_mem ops s) (unat eh);
     kassert (e_magic elf = ELF_MAGIC);
     (ret, s) \<leftarrow> load_segments ops (load_icode_read ops fd) ph m elf [0..<unat (e_phnum elf)] 0 s;
     kassert (ret = 0);
     (_, s) \<leftarrow> sysfile_close ops fd s;
     (ret, _, v) \<leftarrow> mm_map (Some m) (USTACKTOP - USTACKSIZE) USTACKSIZE (VM_READ OR VM_WRITE OR VM_STACK) (ovm s);
     kassert (ret = 0);
     s \<leftarrow> enter_mm m (s\<lparr>ovm := v\<rparr>);
     let stacktop = USTACKTOP - argc * PGSIZE;
     let uargv = stacktop - argc * 4;
     s \<leftarrow> put_args ops stacktop uargv 0 kargv s;
     Some (0, set_tf (set_reg REG_A1 uargv (set_reg REG_A0 argc (user_frame (e_entry elf)))) s)
   }"

section \<open>Exec\<close>

definition EXEC_MAX_ARG_NUM :: int where "EXEC_MAX_ARG_NUM = 32"
definition EXEC_MAX_ARG_LEN :: nat where "EXEC_MAX_ARG_LEN = 4095"

definition put_kargv :: "nat list \<Rightarrow> 'd os_state \<Rightarrow> 'd os_state" where
  "put_kargv kargv s = foldr kfree_os kargv s"

text \<open>The loop of \<^verbatim>\<open>copy_kargv\<close>, with \<open>n\<close> arguments to go and \<open>kargv\<close> copied so far.\<close>

fun copy_args :: "'d names name_ops \<Rightarrow> u32 \<Rightarrow> nat \<Rightarrow> nat list \<Rightarrow> (int \<times> nat list, 'd) os_op" where
  "copy_args ops argv 0 kargv s = Some ((0, kargv), s)"
| "copy_args ops argv (Suc n) kargv s = (case kalloc s of
     (None, s) \<Rightarrow> Some ((fail_code E_NO_MEM, []), put_kargv kargv s)
   | (Some buffer, s) \<Rightarrow> do {
       (ok, s) \<leftarrow> string_from_user ops (of_nat buffer) (load_word (os_mem ops s) (unat (argv + 4 * of_nat (length kargv))))
         (of_nat (EXEC_MAX_ARG_LEN + 1)) s;
       if ok then copy_args ops argv n (kargv @ [buffer]) s
       else Some ((fail_code E_INVAL, []), put_kargv kargv (kfree_os buffer s))
     })"

definition copy_kargv :: "'d names name_ops \<Rightarrow> nat \<Rightarrow> u32 \<Rightarrow> (int \<times> nat list, 'd) os_op" where
  "copy_kargv ops argc argv s = do {
     (ok, v) \<leftarrow> user_mem_check (cur_mm s) argv (4 * of_nat argc) False (ovm s);
     let s = s\<lparr>ovm := v\<rparr>;
     if \<not> ok then Some ((fail_code E_INVAL, []), s) else copy_args ops argv argc [] s
   }"

text \<open>The old memory is given back.\<close>

definition leave_mm :: "nat option \<Rightarrow> 'd os_state \<Rightarrow> 'd os_state option" where
  "leave_mm m s = (case m of
     None \<Rightarrow> Some s
   | Some m \<Rightarrow> do {
       let (c, v) = mm_count_dec m (ovm s);
       v \<leftarrow> (if c = 0 then release_mm m v else Some v);
       Some (mod_p (cur s) (\<lambda>d. d\<lparr>mm := None\<rparr>) (s\<lparr>ovm := v\<rparr>))
     })"

definition set_cur_name :: "string \<Rightarrow> 'd os_state \<Rightarrow> 'd os_state" where
  "set_cur_name name s = put_procs (set_proc_name (cur s) name (oprocs s)) s"

text \<open>
  \<open>Inl\<close> is the value returned; \<open>Inr\<close> means that the process has exited.  \<open>nm\<close>, \<open>eh\<close> and \<open>ph\<close> are the addresses of
  the local variables \<^verbatim>\<open>local_name\<close>, \<^verbatim>\<open>___elfhdr__\<close> and \<^verbatim>\<open>_ph\<close>.
\<close>

definition execve_exit :: "'d names name_ops \<Rightarrow> int \<Rightarrow> nat list \<Rightarrow> (int + unit, 'd) os_op" where
  "execve_exit ops ret kargv s = do { s \<leftarrow> do_exit (vfs_ops ops) ret (put_kargv kargv s); Some (Inr (), s) }"

definition do_execve ::
  "'d names name_ops \<Rightarrow> u32 \<Rightarrow> u32 \<Rightarrow> u32 \<Rightarrow> u32 \<Rightarrow> int \<Rightarrow> u32 \<Rightarrow> (int + unit, 'd) os_op" where
  "do_execve ops nm eh ph name argc argv s =
     (let m = cur_mm s in
      if \<not> (argc \<ge> 1 \<and> argc \<le> EXEC_MAX_ARG_NUM) then Some (Inl (fail_code E_INVAL), s)
      else do {
        let s = set_os_mem ops (memset (os_mem ops s) (unat nm) 0 (PROC_NAME_LEN + 1)) s;
        let s = lock_cur s;
        (ok, s) \<leftarrow> (if name = 0 then do {
            (_, b) \<leftarrow> snprintf (os_mem ops s) (unat nm) (PROC_NAME_LEN + 1) ''<null> %d'' [Word (word_of_int (pid (oprocs s (cur s))))];
            Some (True, set_os_mem ops b s)
          } else string_from_user ops nm name (of_nat (PROC_NAME_LEN + 1)) s);
        if \<not> ok then Some (Inl (fail_code E_INVAL), unlock_cur s)
        else do {
          ((ret, kargv), s) \<leftarrow> copy_kargv ops (nat argc) argv s;
          if ret \<noteq> 0 then Some (Inl ret, unlock_cur s)
          else do {
            let path = load_word (os_mem ops s) (unat argv);
            let s = unlock_cur s;
            f \<leftarrow> fs_struct (oprocs s (cur s));
            (_, s) \<leftarrow> on_files (\<lambda>g. do { g \<leftarrow> fs_closeall (vfs_ops ops) f g; Some ((), g) }) s;
            (fd, s) \<leftarrow> sysfile_open ops path 0 s;
            if fd < 0 then execve_exit ops fd kargv s
            else do {
              s \<leftarrow> leave_mm m s;
              (ret, s) \<leftarrow> load_icode ops eh ph fd kargv s;
              if ret \<noteq> 0 then execve_exit ops ret kargv s
              else do {
                let s = put_kargv kargv s;
                Some (Inl 0, set_cur_name (string_at (os_mem ops s) (unat nm) (PROC_NAME_LEN + 1)) s)
              }
            }
          }
        }
      })"

text \<open>The variant for an image; its name is copied without a check.\<close>

definition do_execve_image ::
  "'d names name_ops \<Rightarrow> u32 \<Rightarrow> u32 \<Rightarrow> u32 \<Rightarrow> u32 \<Rightarrow> u32 \<Rightarrow> u32 \<Rightarrow> (int + unit, 'd) os_op" where
  "do_execve_image ops nm eh ph name len binary s = do {
     let m = cur_mm s;
     let len = (if unat len > PROC_NAME_LEN then of_nat PROC_NAME_LEN else len);
     let s = set_os_mem ops (memset (os_mem ops s) (unat nm) 0 (PROC_NAME_LEN + 1)) s;
     let s = set_os_mem ops (memcpy (os_mem ops s) (unat nm) (unat name) (unat len)) s;
     s \<leftarrow> leave_mm m s;
     (ret, s) \<leftarrow> load_icode_image ops eh ph binary s;
     if ret \<noteq> 0 then execve_exit ops ret [] s
     else Some (Inl 0, set_cur_name (string_at (os_mem ops s) (unat nm) (PROC_NAME_LEN + 1)) s)
   }"

end
