(* ===== verification/Console.thy ===== *)
theory Console
  imports Stdin
begin

text \<open>
  Console input (\<^verbatim>\<open>kern/driver/console.c\<close>): the characters that wait in the UART are moved to a ring of
  512, from where the interrupt handler takes one and types it into the keyboard device of \<open>Stdin\<close>.  The
  UART is its receive buffer and the values that the interrupt register gives, one for each read to come;
  its other registers, and output, are left out.
\<close>

definition CONSBUFSIZE :: nat where "CONSBUFSIZE = 512"

record cons_state =
  cbuf :: "nat \<Rightarrow> u8"
  crpos :: nat
  cwpos :: nat
  uart_rx :: "u8 list"
  uart_iir :: "u8 list"

definition cons_put :: "u8 \<Rightarrow> cons_state \<Rightarrow> cons_state" where
  "cons_put c s =
     (if c \<noteq> 0 then
        (let s = s\<lparr>cbuf := (cbuf s)(cwpos s := c), cwpos := cwpos s + 1\<rparr>
         in if cwpos s = CONSBUFSIZE then s\<lparr>cwpos := 0\<rparr> else s)
      else s)"

text \<open>\<^verbatim>\<open>cons_intr(serial_proc_data)\<close>: until the UART has no more data.\<close>

definition cons_intr :: "cons_state \<Rightarrow> cons_state" where
  "cons_intr s = fold cons_put (uart_rx s) (s\<lparr>uart_rx := []\<rparr>)"

definition cons_getc :: "cons_state \<Rightarrow> u8 \<times> cons_state" where
  "cons_getc s =
     (let s = cons_intr s in
      if crpos s \<noteq> cwpos s then
        (let c = cbuf s (crpos s); s = s\<lparr>crpos := crpos s + 1\<rparr>
         in (c, if crpos s = CONSBUFSIZE then s\<lparr>crpos := 0\<rparr> else s))
      else (0, s))"

definition read_iir :: "cons_state \<Rightarrow> u8 \<times> cons_state" where
  "read_iir s = (case uart_iir s of [] \<Rightarrow> (1, s) | i # is \<Rightarrow> (i, s\<lparr>uart_iir := is\<rparr>))"

definition serial_int_handler :: "nat \<Rightarrow> cons_state \<Rightarrow> stdin_state \<Rightarrow> (cons_state \<times> stdin_state) option" where
  "serial_int_handler q s k =
     (let (i, s) = read_iir s in
      if i AND 1 \<noteq> 0 then Some (s, k)
      else (let (c, s) = cons_getc s in do { k \<leftarrow> dev_stdin_write q c k; Some (s, k) }))"

section \<open>The ring keeps the order\<close>

definition waiting :: "cons_state \<Rightarrow> u8 list" where
  "waiting s = map (\<lambda>i. cbuf s ((crpos s + i) mod CONSBUFSIZE)) [0..<(cwpos s + CONSBUFSIZE - crpos s) mod CONSBUFSIZE]"

definition cons_ok :: "cons_state \<Rightarrow> bool" where
  "cons_ok s \<longleftrightarrow> crpos s < CONSBUFSIZE \<and> cwpos s < CONSBUFSIZE"

lemma mod_once: "x mod z = (if x < z then x else x - z)" if "x < 2 * z" for z :: nat
  using that le_mod_geq [of z x] by simp

lemma wrap: "(if x + 1 = CONSBUFSIZE then 0 else x + 1) = (x + 1) mod CONSBUFSIZE" if "x < CONSBUFSIZE"
  using that by (auto simp: CONSBUFSIZE_def)

lemma cons_put_eq: "cwpos s < CONSBUFSIZE \<Longrightarrow> cons_put c s =
    (if c = 0 then s else s\<lparr>cbuf := (cbuf s)(cwpos s := c), cwpos := (cwpos s + 1) mod CONSBUFSIZE\<rparr>)"
  using wrap [of "cwpos s"] by (simp add: cons_put_def Let_def)

lemma cons_put_ok:
  assumes "cons_ok s" "length (waiting s) + 1 < CONSBUFSIZE"
  shows "cons_ok (cons_put c s) \<and> waiting (cons_put c s) = waiting s @ filter (\<lambda>c. c \<noteq> 0) [c]"
proof (cases "c = 0")
  case True
  then show ?thesis using assms by (simp add: cons_put_eq cons_ok_def)
next
  case False
  let ?t = "s\<lparr>cbuf := (cbuf s)(cwpos s := c), cwpos := (cwpos s + 1) mod CONSBUFSIZE\<rparr>"
  define r w z where "r = crpos s" and "w = cwpos s" and "z = CONSBUFSIZE"
  have b: "r < z" "w < z" "z > 0" using assms(1) by (auto simp: cons_ok_def r_def w_def z_def)
  define n where "n = (w + z - r) mod z"
  have n: "n + 1 < z" using assms(2) by (simp add: waiting_def n_def r_def w_def z_def)
  have nw: "n = (if r \<le> w then w - r else w + z - r)"
    unfolding n_def using b by (subst mod_once) auto
  have w1: "(w + 1) mod z = (if w + 1 = z then 0 else w + 1)" using b by (subst mod_once) auto
  have "((w + 1) mod z + z - r) mod z = n + 1"
    unfolding w1 using nw n b by (subst mod_once) (auto split: if_splits)
  moreover have "(r + n) mod z = w" using nw b by (subst mod_once) (auto split: if_splits)
  moreover have "(r + i) mod z \<noteq> w" if "i < n" for i
    using nw b that n by (subst mod_once) (auto split: if_splits)
  ultimately have "waiting ?t = waiting s @ [c]"
    unfolding waiting_def by (simp flip: r_def w_def z_def n_def)
  moreover have "cons_ok ?t" using assms(1) by (simp add: cons_ok_def CONSBUFSIZE_def)
  ultimately show ?thesis using False assms(1) by (simp add: cons_put_eq cons_ok_def)
qed

lemma cons_intr_ok:
  assumes "cons_ok s" "length (waiting s) + length (filter (\<lambda>c. c \<noteq> 0) (uart_rx s)) < CONSBUFSIZE"
  shows "cons_ok (cons_intr s) \<and> waiting (cons_intr s) = waiting s @ filter (\<lambda>c. c \<noteq> 0) (uart_rx s) \<and> uart_rx (cons_intr s) = []"
proof -
  have "cons_ok (fold cons_put l t) \<and> waiting (fold cons_put l t) = waiting t @ filter (\<lambda>c. c \<noteq> 0) l \<and>
      uart_rx (fold cons_put l t) = uart_rx t"
    if "cons_ok t" "length (waiting t) + length (filter (\<lambda>c. c \<noteq> 0) l) < CONSBUFSIZE" for l t
    using that
  proof (induction l arbitrary: t)
    case (Cons c l)
    show ?case
    proof (cases "c = 0")
      case True
      then show ?thesis using Cons by (simp add: cons_put_def)
    next
      case False
      then have p: "cons_ok (cons_put c t)" "waiting (cons_put c t) = waiting t @ [c]"
        using Cons.prems cons_put_ok [of t c] by auto
      have "uart_rx (cons_put c t) = uart_rx t" by (simp add: cons_put_def Let_def)
      then show ?thesis using Cons.IH [OF p(1)] Cons.prems(2) False p(2) by simp
    qed
  qed simp
  from this [of "s\<lparr>uart_rx := []\<rparr>" "uart_rx s"] show ?thesis using assms by (simp add: cons_intr_def cons_ok_def waiting_def)
qed

lemma waiting_Cons:
  assumes "cons_ok s"
  shows "waiting s = (if crpos s = cwpos s then [] else
    cbuf s (crpos s) # waiting (s\<lparr>crpos := (crpos s + 1) mod CONSBUFSIZE\<rparr>))"
proof (cases "crpos s = cwpos s")
  case True then show ?thesis by (simp add: waiting_def)
next
  case False
  define r w z where "r = crpos s" and "w = cwpos s" and "z = CONSBUFSIZE"
  have b: "r < z" "w < z" "r \<noteq> w" using assms False by (auto simp: cons_ok_def r_def w_def z_def)
  define n where "n = (w + z - (r + 1) mod z) mod z"
  have r1: "(r + 1) mod z = (if r + 1 = z then 0 else r + 1)" using b by (subst mod_once) auto
  have n: "n = (if r < w then w - r - 1 else w + z - r - 1)"
    unfolding n_def r1 using b by (subst mod_once) auto
  have e: "(w + z - r) mod z = Suc n" using b n by (subst mod_once) auto
  have "map f [0..<Suc n] = f 0 # map (\<lambda>i. f (Suc i)) [0..<n]" for f :: "nat \<Rightarrow> u8"
    by (simp add: upt_conv_Cons map_Suc_upt [symmetric] del: upt_Suc)
  moreover have "((r + 1) mod z + i) mod z = (r + Suc i) mod z" for i by (simp add: mod_simps)
  moreover have "waiting (s\<lparr>crpos := (crpos s + 1) mod CONSBUFSIZE\<rparr>) = map (\<lambda>i. cbuf s (((r + 1) mod z + i) mod z)) [0..<n]"
    by (simp add: waiting_def n_def r_def w_def z_def)
  moreover have "waiting s = map (\<lambda>i. cbuf s ((r + i) mod z)) [0..<Suc n]"
    by (simp add: waiting_def e [unfolded r_def w_def z_def, symmetric] r_def z_def del: upt_Suc)
  ultimately show ?thesis using b by (simp add: r_def w_def del: upt_Suc)
qed

text \<open>
  C40.  While less than 512 characters wait, the console is a first-in first-out queue: \<^verbatim>\<open>cons_getc\<close> appends
  what the UART has received, leaving zeros out, and gives the first of the characters that wait, or 0
  when there are none.
\<close>

theorem cons_getc_exact:
  assumes "cons_ok s" "length (waiting s) + length (filter (\<lambda>c. c \<noteq> 0) (uart_rx s)) < CONSBUFSIZE"
  shows "\<exists>c s'. cons_getc s = (c, s') \<and> cons_ok s' \<and> uart_rx s' = [] \<and>
    (case waiting s @ filter (\<lambda>c. c \<noteq> 0) (uart_rx s) of [] \<Rightarrow> c = 0 \<and> waiting s' = [] | x # l \<Rightarrow> c = x \<and> waiting s' = l)"
proof -
  note i = cons_intr_ok [OF assms]
  let ?t = "cons_intr s"
  have w: "waiting ?t = waiting s @ filter (\<lambda>c. c \<noteq> 0) (uart_rx s)" using i by blast
  show ?thesis
  proof (cases "crpos ?t = cwpos ?t")
    case True
    then show ?thesis using i waiting_Cons [of ?t] unfolding w [symmetric] by (simp add: cons_getc_def)
  next
    case False
    let ?u = "?t\<lparr>crpos := (crpos ?t + 1) mod CONSBUFSIZE\<rparr>"
    have "cons_getc s = (cbuf ?t (crpos ?t), ?u)"
      using False i wrap [of "crpos ?t"] by (auto simp: cons_getc_def Let_def cons_ok_def)
    moreover have "cons_ok ?u" "uart_rx ?u = []" using i by (simp_all add: cons_ok_def CONSBUFSIZE_def)
    ultimately show ?thesis using i waiting_Cons [of ?t] False unfolding w [symmetric] by simp
  qed
qed

theorem cons_getc_exact_witness:
  "\<exists>s'. cons_getc \<lparr>cbuf = (\<lambda>i. if i = 511 then 65 else 66), crpos = 511, cwpos = 1, uart_rx = [0, 67], uart_iir = []\<rparr> = (65, s') \<and>
     waiting s' = [66, 67]"
proof -
  let ?s = "\<lparr>cbuf = (\<lambda>i. if i = 511 then 65 else 66), crpos = 511, cwpos = 1, uart_rx = [0, 67], uart_iir = []\<rparr> :: cons_state"
  have "waiting ?s = [65, 66]" by (simp add: waiting_def CONSBUFSIZE_def numeral_2_eq_2)
  moreover have "cons_ok ?s" by (simp add: cons_ok_def CONSBUFSIZE_def)
  ultimately show ?thesis using cons_getc_exact [of ?s] by (auto simp: CONSBUFSIZE_def)
qed

end
