(* ===== verification/Trap.thy ===== *)
theory Trap
  imports Loader Console Devices Tlb
begin

text \<open>
  System calls and traps (\<^verbatim>\<open>kern/syscall/syscall.c\<close>, \<^verbatim>\<open>kern/trap/trap.c\<close>, the handler in
  \<^verbatim>\<open>kern/driver/clock.c\<close>) on the whole machine: the processes, memory and files of \<open>Proc_Life\<close> with the
  devices and file systems of \<open>Devices\<close>, the console, the clock and the TLB.  \<open>build\<close> holds what the
  linker and the compiler fix: the address of \<^verbatim>\<open>forkret\<close> and where the local variables of \<^verbatim>\<open>do_execve\<close>
  and \<^verbatim>\<open>load_icode\<close> are.  The page tables in use are those of \<^verbatim>\<open>cr3\<close> of the running process, which a
  switch loads.  A routine that puts the process to sleep, or ends it, gives \<open>Inr\<close>: nothing after
  it in the handler runs before the process is scheduled again.  What is printed is left out, but
  for the characters that \<^verbatim>\<open>sys_putc\<close> writes.  A trap before the first process exists is left out too.
\<close>

record build =
  b_forkret :: u32
  b_name :: u32
  b_elfhdr :: u32
  b_proghdr :: u32

type_synonym os = "sys names os_state"

record machine =
  mos :: os
  mcons :: cons_state
  ticks :: u32
  tlb :: "(u32 \<times> u32 \<times> u32) list"

type_synonym 'a call = "os \<Rightarrow> ('a \<times> os) option"

abbreviation vfsops :: "sys names inode_ops" where
  "vfsops \<equiv> vfs_ops sys_ops"

abbreviation cur_tf :: "'d os_state \<Rightarrow> trapframe" where
  "cur_tf s \<equiv> tfs s (cur s)"

section \<open>System calls (syscall.c)\<close>

definition REG_A2 :: nat where "REG_A2 = 4"
definition REG_A3 :: nat where "REG_A3 = 5"

definition returns :: "int call \<Rightarrow> (int + unit) call" where
  "returns f s = do { (r, s) \<leftarrow> f s; Some (Inl r, s) }"

definition sys_exit :: "u32 list \<Rightarrow> (int + unit) call" where
  "sys_exit arg s = do { s \<leftarrow> do_exit vfsops (sint (arg ! 0)) s; Some (Inr (), s) }"

definition sys_fork :: "build \<Rightarrow> u32 list \<Rightarrow> (int + unit) call" where
  "sys_fork b arg s = (let tf = cur_tf s in returns (do_fork vfsops (b_forkret b) 0 (tf_regs tf REG_SP) tf) s)"

definition sys_wait :: "u32 list \<Rightarrow> (int + unit) call" where
  "sys_wait arg s = do {
     (r, s) \<leftarrow> do_wait (sint (arg ! 0)) (arg ! 1) s;
     Some (case r of
         Inl (v, None) \<Rightarrow> (Inl v, s)
       | Inl (v, Some code) \<Rightarrow> (Inl v, set_os_mem sys_ops (store_word (unat (arg ! 1)) (word_of_int code) (os_mem sys_ops s)) s)
       | Inr u \<Rightarrow> (Inr u, s))
   }"

definition sys_exec :: "build \<Rightarrow> u32 list \<Rightarrow> (int + unit) call" where
  "sys_exec b arg s = do_execve sys_ops (b_name b) (b_elfhdr b) (b_proghdr b) (arg ! 0) (sint (arg ! 1)) (arg ! 2) s"

definition sys_yield :: "u32 list \<Rightarrow> (int + unit) call" where
  "sys_yield arg s = (let (r, s) = do_yield s in Some (Inl r, s))"

definition sys_kill :: "u32 list \<Rightarrow> (int + unit) call" where
  "sys_kill arg = returns (do_kill (sint (arg ! 0)))"

definition sys_getpid :: "u32 list \<Rightarrow> (int + unit) call" where
  "sys_getpid arg s = Some (Inl (pid (oprocs s (cur s))), s)"

definition sys_putc :: "u32 list \<Rightarrow> (int + unit) call" where
  "sys_putc arg s = Some (Inl 0, s\<lparr>ofs := (ofs s)\<lparr>vfs := mod_sys (\<lambda>d. d\<lparr>console := console d @ [ucast (arg ! 0)]\<rparr>) (vfs (ofs s))\<rparr>\<rparr>)"

definition sys_pgdir :: "u32 list \<Rightarrow> (int + unit) call" where
  "sys_pgdir arg s = Some (Inl 0, s)"

definition sys_gettime :: "u32 \<Rightarrow> u32 list \<Rightarrow> (int + unit) call" where
  "sys_gettime now arg s = Some (Inl (sint now), s)"

text \<open>The timer of a sleeping process is named like the process.\<close>

definition sys_sleep :: "u32 list \<Rightarrow> (int + unit) call" where
  "sys_sleep arg s = do_sleep (cur s) (arg ! 0) s"

definition sys_open :: "u32 list \<Rightarrow> (int + unit) call" where
  "sys_open arg = returns (sysfile_open sys_ops (arg ! 0) (arg ! 1))"

definition sys_close :: "u32 list \<Rightarrow> (int + unit) call" where
  "sys_close arg = returns (sysfile_close sys_ops (sint (arg ! 0)))"

definition sys_read :: "u32 list \<Rightarrow> (int + unit) call" where
  "sys_read arg = returns (sysfile_read sys_ops (sint (arg ! 0)) (arg ! 1) (arg ! 2))"

definition sys_write :: "u32 list \<Rightarrow> (int + unit) call" where
  "sys_write arg = returns (sysfile_write sys_ops (sint (arg ! 0)) (arg ! 1) (arg ! 2))"

definition sys_seek :: "u32 list \<Rightarrow> (int + unit) call" where
  "sys_seek arg = returns (sysfile_seek sys_ops (sint (arg ! 0)) (arg ! 1) (sint (arg ! 2)))"

definition sys_fstat :: "u32 list \<Rightarrow> (int + unit) call" where
  "sys_fstat arg = returns (sysfile_fstat sys_ops (sint (arg ! 0)) (arg ! 1))"

definition sys_fsync :: "u32 list \<Rightarrow> (int + unit) call" where
  "sys_fsync arg = returns (sysfile_fsync sys_ops (sint (arg ! 0)))"

text \<open>Not in the table.\<close>

definition sys_chdir :: "u32 list \<Rightarrow> (int + unit) call" where
  "sys_chdir arg = returns (sysfile_chdir sys_ops (arg ! 0))"

definition sys_getcwd :: "u32 list \<Rightarrow> (int + unit) call" where
  "sys_getcwd arg = returns (sysfile_getcwd sys_ops (arg ! 0) (arg ! 1))"

definition sys_getdirentry :: "u32 list \<Rightarrow> (int + unit) call" where
  "sys_getdirentry arg = returns (sysfile_getdirentry sys_ops (sint (arg ! 0)) (arg ! 1))"

definition sys_dup :: "u32 list \<Rightarrow> (int + unit) call" where
  "sys_dup arg = returns (sysfile_dup (sint (arg ! 0)) (sint (arg ! 1)))"

text \<open>The table \<^verbatim>\<open>syscalls\<close>; \<open>None\<close> is a null pointer, or beyond its end.\<close>

definition syscalls :: "build \<Rightarrow> u32 \<Rightarrow> int \<Rightarrow> (u32 list \<Rightarrow> (int + unit) call) option" where
  "syscalls b now n = map_of
     [(1, sys_exit), (2, sys_fork b), (3, sys_wait), (4, sys_exec b), (10, sys_yield), (11, sys_sleep), (12, sys_kill),
      (17, sys_gettime now), (18, sys_getpid), (30, sys_putc), (31, sys_pgdir), (100, sys_open), (101, sys_close),
      (102, sys_read), (103, sys_write), (104, sys_seek), (110, sys_fstat), (111, sys_fsync), (121, sys_getcwd),
      (128, sys_getdirentry), (130, sys_dup)] n"

definition SYSCALL_BASE :: int where "SYSCALL_BASE = 0x80"

definition syscall :: "build \<Rightarrow> u32 \<Rightarrow> (unit + unit) call" where
  "syscall b now s =
     (let tf = cur_tf s; num = sint (tf_regs tf REG_A7) - SYSCALL_BASE in do {
        f \<leftarrow> syscalls b now num;
        (r, s) \<leftarrow> f (map (tf_regs tf) [REG_A0, REG_A1, REG_A2, REG_A3]) s;
        Some (case r of
            Inl v \<Rightarrow> (Inl (), set_tf (set_reg REG_A7 (word_of_int v) (cur_tf s)) s)
          | Inr u \<Rightarrow> (Inr u, s))
      })"

section \<open>Interrupts\<close>

definition TIMER0_IRQ :: nat where "TIMER0_IRQ = 11"
definition COM1_IRQ :: nat where "COM1_IRQ = 3"

definition on_os :: "'a call \<Rightarrow> machine \<Rightarrow> ('a \<times> machine) option" where
  "on_os f m = do { (r, s) \<leftarrow> f (mos m); Some (r, m\<lparr>mos := s\<rparr>) }"

text \<open>The keyboard device wakes readers through the one scheduler of the machine.\<close>

definition serial_interrupt :: "machine \<Rightarrow> machine option" where
  "serial_interrupt m =
     (let s = mos m; k = kbd (sys_of (vfs (ofs s))) in do {
        (c, k) \<leftarrow> serial_int_handler stdin_wq (mcons m) (k\<lparr>sync := (sync k)\<lparr>sch := osch s\<rparr>\<rparr>);
        Some (m\<lparr>mcons := c, mos := s\<lparr>osch := sch (sync k), ofs := (ofs s)\<lparr>vfs := mod_sys (\<lambda>d. d\<lparr>kbd := k\<rparr>) (vfs (ofs s))\<rparr>\<rparr>\<rparr>)
      })"

definition clock_int_handler :: "machine \<Rightarrow> machine option" where
  "clock_int_handler m = do {
     let m = m\<lparr>ticks := ticks m + 1\<rparr>;
     q \<leftarrow> run_timer_list (osch (mos m));
     let m = m\<lparr>mos := (mos m)\<lparr>osch := q\<rparr>\<rparr>;
     serial_interrupt m
   }"

fun interrupts_from :: "u32 \<Rightarrow> nat list \<Rightarrow> machine \<Rightarrow> machine option" where
  "interrupts_from estat [] m = Some m"
| "interrupts_from estat (i # is) m = do {
     m \<leftarrow> (if estat AND push_bit i 1 \<noteq> 0 then
             (if i = TIMER0_IRQ then clock_int_handler m
              else if i = COM1_IRQ then serial_interrupt m
              else None)
           else Some m);
     interrupts_from estat is m
   }"

definition interrupt_handler :: "trapframe \<Rightarrow> machine \<Rightarrow> machine option" where
  "interrupt_handler tf = interrupts_from (tf_estat tf) [0..<13]"

section \<open>Page faults\<close>

definition trap_in_kernel :: "trapframe \<Rightarrow> bool" where
  "trap_in_kernel tf \<longleftrightarrow> tf_prmd tf AND 3 = 0"

definition ptep_invalid :: "u32 \<Rightarrow> bool" where "ptep_invalid e \<longleftrightarrow> e = 0"
definition ptep_u_write :: "u32 \<Rightarrow> bool" where "ptep_u_write e \<longleftrightarrow> e AND PTE_U \<noteq> 0 \<and> e AND PTE_W \<noteq> 0"

definition get_error_code :: "int \<Rightarrow> u32 option \<Rightarrow> u32" where
  "get_error_code write e =
     (let r = (if case e of Some e \<Rightarrow> ptep_present e | None \<Rightarrow> False then 1 else 0) in if write \<noteq> 0 then r OR 2 else r)"

definition current_pgdir :: "os \<Rightarrow> nat option" where
  "current_pgdir s = pa2page (cr3 (oprocs s (cur s)))"

definition pgfault_handler :: "u32 \<Rightarrow> u32 \<Rightarrow> int call" where
  "pgfault_handler addr error_code s = do {
     (r, v) \<leftarrow> do_pgfault (cur_mm s) error_code addr (ovm s);
     Some (r, s\<lparr>ovm := v\<rparr>)
   }"

definition killed :: "machine \<Rightarrow> ((unit + unit) \<times> machine) option" where
  "killed m = do { s \<leftarrow> do_exit vfsops (fail_code E_KILLED) (mos m); Some (Inr (), m\<lparr>mos := s\<rparr>) }"

text \<open>The permissions: a value that \<^verbatim>\<open>ret\<close> gets in the code, 0 when the TLB may be refilled.\<close>

definition refill_check :: "bool \<Rightarrow> int \<Rightarrow> u32 \<Rightarrow> int" where
  "refill_check in_kernel write e =
     (if in_kernel then 0
      else if write \<noteq> 2 \<and> \<not> ptep_u_read e then -1
      else if write \<noteq> 2 \<and> write \<noteq> 0 \<and> \<not> ptep_u_write e then -2
      else 0)"

definition handle_tlbmiss :: "trapframe \<Rightarrow> int \<Rightarrow> machine \<Rightarrow> ((unit + unit) \<times> machine) option" where
  "handle_tlbmiss tf write m =
     (let in_kernel = trap_in_kernel tf; badaddr = tf_badv tf; s = mos m in do {
        pd \<leftarrow> current_pgdir s;
        (ptep, pg) \<leftarrow> get_pte pd badaddr False (pgs (ovm s));
        let e = map_option (\<lambda>(f, i). frames pg f i) ptep;
        (ret, m) \<leftarrow>
          (case e of
             Some e \<Rightarrow>
               if ptep_invalid e then on_os (pgfault_handler badaddr (get_error_code write (Some e))) m
               else (let r = refill_check in_kernel write e in
                 if r \<noteq> 0 then Some (r, m)
                 else Some (0, case tlb_refill badaddr ptep pg of None \<Rightarrow> m | Some t \<Rightarrow> m\<lparr>tlb := t # tlb m\<rparr>))
           | None \<Rightarrow> on_os (pgfault_handler badaddr (get_error_code write None)) m);
        if ret \<noteq> 0 then (if in_kernel then None else killed m)
        else Some (Inl (), m)
      })"

section \<open>Traps\<close>

definition excode :: "trapframe \<Rightarrow> u32" where
  "excode tf = drop_bit 16 (tf_estat tf AND push_bit 16 63)"

definition EX_IRQ :: u32 where "EX_IRQ = 0"
definition EX_TLBL :: u32 where "EX_TLBL = 1"
definition EX_TLBS :: u32 where "EX_TLBS = 2"
definition EX_TLBI :: u32 where "EX_TLBI = 3"
definition EX_ADE :: u32 where "EX_ADE = 8"
definition EX_SYS :: u32 where "EX_SYS = 11"
definition EX_RI :: u32 where "EX_RI = 13"
definition EX_IPE :: u32 where "EX_IPE = 14"
definition EX_TLBR :: u32 where "EX_TLBR = 0x3f"

definition fatal_in_kernel :: "trapframe \<Rightarrow> machine \<Rightarrow> ((unit + unit) \<times> machine) option" where
  "fatal_in_kernel tf m = (if trap_in_kernel tf then None else killed m)"

definition trap_dispatch :: "build \<Rightarrow> trapframe \<Rightarrow> machine \<Rightarrow> ((unit + unit) \<times> machine) option" where
  "trap_dispatch b tf m =
     (let code = excode tf in
      if code = EX_IRQ then do { m \<leftarrow> interrupt_handler tf m; Some (Inl (), m) }
      else if code = EX_TLBL then handle_tlbmiss tf 0 m
      else if code = EX_TLBS then handle_tlbmiss tf 1 m
      else if code = EX_TLBR then handle_tlbmiss tf 2 m
      else if code = EX_TLBI then handle_tlbmiss tf 0 m
      else if code = EX_RI \<or> code = EX_IPE \<or> code = EX_ADE then fatal_in_kernel tf m
      else if code = EX_SYS then
        on_os (syscall b (ticks m)) (m\<lparr>mos := set_tf (tf\<lparr>tf_era := tf_era tf + 4\<rparr>) (mos m)\<rparr>)
      else None)"

text \<open>The part of \<^verbatim>\<open>loongarch_trap\<close> after the handler; \<open>otf\<close> is the frame of the trap outside this one.\<close>

definition trap_leave :: "trapframe \<Rightarrow> bool \<Rightarrow> machine \<Rightarrow> ((unit + unit) \<times> machine) option" where
  "trap_leave otf in_kernel m =
     (let m = m\<lparr>mos := set_tf otf (mos m)\<rparr>; d = oprocs (mos m) (cur (mos m)) in
      if in_kernel then Some (Inl (), m)
      else if pflags d AND PF_EXITING \<noteq> 0 then killed m
      else if need_resched d then do { s \<leftarrow> resched (mos m); Some (Inr (), m\<lparr>mos := s\<rparr>) }
      else Some (Inl (), m))"

text \<open>The result has the trap frame that the process goes on with.\<close>

definition loongarch_trap :: "build \<Rightarrow> trapframe \<Rightarrow> machine \<Rightarrow> ((trapframe + unit) \<times> machine) option" where
  "loongarch_trap b tf m =
     (let otf = cur_tf (mos m); in_kernel = trap_in_kernel tf; m = m\<lparr>mos := set_tf tf (mos m)\<rparr> in do {
        (r, m) \<leftarrow> trap_dispatch b tf m;
        (case r of
           Inr u \<Rightarrow> Some (Inr u, m)
         | Inl _ \<Rightarrow> do {
             let tf = cur_tf (mos m);
             (r, m) \<leftarrow> trap_leave otf in_kernel m;
             Some (case r of Inl _ \<Rightarrow> Inl tf | Inr u \<Rightarrow> Inr u, m)
           })
      })"

end
