(* ===== verification/User_Fault.thy ===== *)
theory User_Fault
  imports Trap Vfs_Paths Proc_Fork
begin

text \<open>
  What becomes of a fault of a user program: the properties of \<^verbatim>\<open>handle_tlbmiss\<close>, over those of
  \<^verbatim>\<open>do_pgfault\<close> and of the TLB, and a small machine to evaluate them on.
\<close>

section \<open>Faults of user programs\<close>

lemma lookup_entry:
  assumes "space_ok s pd"
  obtains ptep where "get_pte pd va False s = Some (ptep, s)"
    "case ptep of None \<Rightarrow> pte_of s pd va = 0 | Some (f, i) \<Rightarrow> frames s f i = pte_of s pd va"
  using assms by (simp add: get_pte_lookup [OF assms] pte_of_def slot_def split: if_splits)

text \<open>What is left when the handling of a fault has ended with \<open>r\<close>, 0 or an error.\<close>

definition fault_over :: "nat \<Rightarrow> nat \<Rightarrow> u32 \<Rightarrow> u32 \<Rightarrow> vmstate \<Rightarrow> int \<Rightarrow> vmstate \<Rightarrow> bool" where
  "fault_over m pd ec va s r s' \<longleftrightarrow> mm_ok s' m \<and> space_ok (pgs s') pd \<and>
     (r = 0 \<longrightarrow> pte_of (pgs s) pd va = 0 \<and> (\<exists>v\<in>set (areas s m). \<exists>p\<in>free_set (phys (pgs s)). fault_legal s m ec va v \<and>
        pte_of (pgs s') pd va = page2pa p OR PTE_P OR fault_perm (vm_flags (vmas s v)))) \<and>
     (\<forall>lb. r \<noteq> 0 \<or> page_no lb \<noteq> page_no va \<longrightarrow> pte_of (pgs s') pd lb = pte_of (pgs s) pd lb) \<and>
     (r \<noteq> 0 \<and> pte_of (pgs s) pd va = 0 \<and> (\<exists>v\<in>set (areas s m). fault_legal s m ec va v) \<longrightarrow>
        (\<exists>p. free_set (phys (pgs s)) \<subseteq> {p}))"

lemma fault_doneD:
  assumes "fault_done pd va perm pg r pg'" "pte_of pg pd va = 0"
  shows "r = 0 \<Longrightarrow> \<exists>p\<in>free_set (phys pg). pte_of pg' pd va = page2pa p OR PTE_P OR perm"
    "r \<noteq> 0 \<or> page_no lb \<noteq> page_no va \<Longrightarrow> pte_of pg' pd lb = pte_of pg pd lb"
    "r \<noteq> 0 \<Longrightarrow> \<exists>p. free_set (phys pg) \<subseteq> {p}"
  using assms unfolding fault_done_def Let_def by (auto split: if_splits)

lemma pgfault_handler_ok:
  fixes s :: os
  assumes "cur_mm s = Some m" "mm_ok (ovm s) m" "pgdir (mms (ovm s) m) = Some pd" "space_ok (pgs (ovm s)) pd" "free_unref (pgs (ovm s))"
    and z: "pte_of (pgs (ovm s)) pd va = 0"
  shows "\<exists>r v'. pgfault_handler va ec s = Some (r, s\<lparr>ovm := v'\<rparr>) \<and> fault_over m pd ec va (ovm s) r v'"
proof -
  let ?F = "find (fault_legal (ovm s) m ec va) (areas (ovm s) m)"
  obtain r v' where d: "do_pgfault (Some m) ec va (ovm s) = Some (r, v')" "mm_ok v' m" "space_ok (pgs v') pd"
    and c: "case ?F of None \<Rightarrow> r = fail_code E_INVAL \<and> pgs v' = pgs (ovm s)
     | Some v \<Rightarrow> fault_done pd va (fault_perm (vm_flags (vmas (ovm s) v))) (pgs (ovm s)) r (pgs v')"
    using do_pgfault_ok [OF assms(2-5), of ec va] by blast
  have h: "pgfault_handler va ec s = Some (r, s\<lparr>ovm := v'\<rparr>)" using d(1) assms(1) by (simp add: pgfault_handler_def)
  show ?thesis
  proof (cases ?F)
    case None
    then have "\<not> (\<exists>v\<in>set (areas (ovm s) m). fault_legal (ovm s) m ec va v)" by (auto simp: find_None_iff)
    then show ?thesis using h d c None by (intro exI [of _ r] exI [of _ v']) (simp add: fault_over_def)
  next
    case (Some v)
    then have v: "v \<in> set (areas (ovm s) m)" "fault_legal (ovm s) m ec va v" by (auto simp: find_Some_iff)
    then have "fault_done pd va (fault_perm (vm_flags (vmas (ovm s) v))) (pgs (ovm s)) r (pgs v')" using c Some by simp
    note fd = fault_doneD [OF this z]
    have "fault_over m pd ec va (ovm s) r v'" unfolding fault_over_def using d(2,3) z v fd by blast
    then show ?thesis using h by blast
  qed
qed

text \<open>
  C38.  A TLB miss of a user program, whose page directory is loaded and whose address space is well-formed,
  ends in one of three ways.  If the page has an entry that
  allows the access, the TLB is given that entry and nothing else changes.  If it has none and an area
  of the process allows the access, the page is mapped to a frame that was free, with the permissions
  of the area, and no other translation changes.  In every other case, and when at most one frame was free, the
  process exits with \<open>E_KILLED\<close> - by \<^verbatim>\<open>do_exit\<close>, which panics only for the idle process, for
  \<^verbatim>\<open>initproc\<close> or when a release it makes does - and no translation has changed by then.
\<close>

theorem user_fault_exact:
  fixes mc :: machine
  defines "s \<equiv> ovm (mos mc)"
  assumes "cur_mm (mos mc) = Some m" "mm_ok s m" "pgdir (mms s m) = Some pd" "space_ok (pgs s) pd" "free_unref (pgs s)"
    "cr3 (oprocs (mos mc) (cur (mos mc))) = page2pa pd" "tf_prmd tf AND 3 \<noteq> 0"
  shows "let va = tf_badv tf; e = pte_of (pgs s) pd va in
    if e \<noteq> 0 \<and> refill_check False write e = 0 then
      (\<exists>t. handle_tlbmiss tf write mc = Some (Inl (), mc\<lparr>tlb := t # tlb mc\<rparr>) \<and>
         fst t = va AND TLB_VPPN_MASK \<and> tlb_half va t = pte2tlblow e)
    else
      (\<exists>v' r. handle_tlbmiss tf write mc = (let mc' = mc\<lparr>mos := (mos mc)\<lparr>ovm := v'\<rparr>\<rparr> in if r = 0 then Some (Inl (), mc') else killed mc') \<and>
         fault_over m pd (if write = 0 then 0 else 2) va s r v')"
proof -
  let ?va = "tf_badv tf"
  note a = assms(2) assms(3-6) [unfolded s_def]
  have pd: "pd < npage" using a(4) used_npage by (auto simp: space_ok_def)
  have cp: "current_pgdir (mos mc) = Some pd" using assms(7) pd by (simp add: current_pgdir_def)
  have u: "\<not> trap_in_kernel tf" using assms(8) by (simp add: trap_in_kernel_def)
  obtain ptep where g: "get_pte pd ?va False (pgs s) = Some (ptep, pgs s)"
    "case ptep of None \<Rightarrow> pte_of (pgs s) pd ?va = 0 | Some (f, i) \<Rightarrow> frames (pgs s) f i = pte_of (pgs s) pd ?va"
    using lookup_entry [OF assms(5)] by blast
  define e where "e = pte_of (pgs s) pd ?va"
  have ec: "get_error_code write (map_option (\<lambda>(f, i). frames (pgs s) f i) ptep) = (if write = 0 then 0 else 2)" if "e = 0"
    using g(2) that by (auto simp: get_error_code_def ptep_present_def e_def split: option.splits)
  show ?thesis
  proof (cases "e = 0")
    case z: True
    obtain r v' where r: "pgfault_handler ?va (if write = 0 then 0 else 2) (mos mc) = Some (r, (mos mc)\<lparr>ovm := v'\<rparr>)"
      "fault_over m pd (if write = 0 then 0 else 2) ?va s r v'"
      using pgfault_handler_ok [OF a z [unfolded e_def s_def]] unfolding s_def by blast
    have "handle_tlbmiss tf write mc = (if r = 0 then Some (Inl (), mc\<lparr>mos := (mos mc)\<lparr>ovm := v'\<rparr>\<rparr>)
        else killed (mc\<lparr>mos := (mos mc)\<lparr>ovm := v'\<rparr>\<rparr>))"
      using g r(1) z ec [OF z] u
      by (cases ptep) (auto simp: handle_tlbmiss_def cp s_def [symmetric] on_os_def ptep_invalid_def e_def)
    then show ?thesis using r(2) z unfolding e_def [symmetric] Let_def
      by (intro iffD2 [OF if_not_P] exI [of _ v'] exI [of _ r] conjI) simp_all
  next
    case nz: False
    then obtain f i where p: "ptep = Some (f, i)" "frames (pgs s) f i = e" using g(2) by (auto simp: e_def split: option.splits)
    show ?thesis
    proof (cases "refill_check False write e = 0")
      case True
      obtain t where "tlb_refill ?va (Some (f, i)) (pgs s) = Some t" "fst t = ?va AND TLB_VPPN_MASK" "tlb_half ?va t = pte2tlblow e"
        using tlb_refill_entry [OF assms(5) g(1) [unfolded p(1)]] unfolding e_def by blast
      moreover from this(1) have "handle_tlbmiss tf write mc = Some (Inl (), mc\<lparr>tlb := t # tlb mc\<rparr>)"
        using nz True g(1) p u by (simp add: handle_tlbmiss_def cp s_def [symmetric] ptep_invalid_def Let_def)
      ultimately show ?thesis using nz True unfolding e_def [symmetric] Let_def
        by (intro iffD2 [OF if_P] exI [of _ t] conjI) simp_all
    next
      case False
      have "handle_tlbmiss tf write mc = killed (mc\<lparr>mos := (mos mc)\<lparr>ovm := s\<rparr>\<rparr>)"
        using nz False g(1) p u by (simp add: handle_tlbmiss_def cp s_def [symmetric] ptep_invalid_def Let_def) (simp add: s_def)
      moreover have "fault_over m pd (if write = 0 then 0 else 2) ?va s 1 s"
        using nz assms(3,5) by (simp add: fault_over_def e_def)
      ultimately show ?thesis using False unfolding e_def [symmetric] Let_def
        by (intro iffD2 [OF if_not_P] exI [of _ s] exI [of _ 1] conjI) simp_all
    qed
  qed
qed


text \<open>A machine with one process that has an area of two pages and no page yet.\<close>

definition demo_machine :: machine where
  "demo_machine = \<lparr>mos = \<lparr>osch = mod_proc 2 (\<lambda>d. d\<lparr>mm := Some 0, cr3 := page2pa 0\<rparr>) (osch demo_os), otbl = otbl demo_os,
       ovm = demo_space, ofs = \<lparr>vfs = small_sys, fss = fss (ofs demo_os), live_fs = live_fs (ofs demo_os), cur_fs = cur_fs (ofs demo_os)\<rparr>,
       initproc = initproc demo_os, tfs = tfs demo_os, ctxs = ctxs demo_os, boot_pgdir = 0, boot_cr3 = page2pa 0\<rparr>,
     mcons = \<lparr>cbuf = \<lambda>_. 0, crpos = 0, cwpos = 0, uart_rx = [], uart_iir = []\<rparr>, ticks = 0, tlb = []\<rparr>"

lemma demo_machine_sel:
  "ovm (mos demo_machine) = demo_space" "cur (mos demo_machine) = 2" "mm (oprocs (mos demo_machine) 2) = Some 0"
  "cr3 (oprocs (mos demo_machine) 2) = page2pa 0" "tfs (mos demo_machine) p = tfs demo_os p"
  by (simp_all add: demo_machine_def)

definition fault_at :: "u32 \<Rightarrow> trapframe" where
  "fault_at va = zero_frame\<lparr>tf_badv := va, tf_prmd := PLV_USER\<rparr>"

theorem user_fault_exact_witness:
  "\<exists>v' p. handle_tlbmiss (fault_at 0x10001234) 1 demo_machine = Some (Inl (), demo_machine\<lparr>mos := (mos demo_machine)\<lparr>ovm := v'\<rparr>\<rparr>) \<and>
     pte_of (pgs v') 0 0x10001234 = page2pa p OR PTE_P OR (PTE_U OR PTE_W)"
proof -
  have sp: "space_ok (pgs demo_space) 0" "free_unref (pgs demo_space)"
    using demo_vmem_ok(1) demo_space_ok(4,5) by simp_all
  have l: "fault_legal demo_space 0 2 0x10001234 1"
    by (simp_all add: fault_legal_def demo_covers demo_flags demo_space_ok fault_access_def VM_WRITE_def)
  have perm: "fault_perm (vm_flags (vmas demo_space v)) = PTE_U OR PTE_W" for v
    by (simp add: fault_perm_def demo_flags VM_WRITE_def)
  have many: "\<not> free_set (phys demo_vmem) \<subseteq> {p}" for p
  proof
    assume "free_set (phys demo_vmem) \<subseteq> {p}"
    moreover have "3 \<in> free_set (phys demo_vmem)" "4 \<in> free_set (phys demo_vmem)"
      unfolding demo_vmem_phys(1) by simp_all
    ultimately have "3 = p" "4 = p" by blast+
    then show False by simp
  qed
  have z: "pte_of (pgs demo_space) 0 0x10001234 = 0" by (simp add: demo_space_ok(4) pte_of_def slot_def demo_vmem_def)
  have tf: "tf_badv (fault_at 0x10001234) = 0x10001234" "tf_prmd (fault_at 0x10001234) AND 3 \<noteq> 0"
    by (simp_all add: fault_at_def zero_frame_def PLV_USER_def)
  note t = user_fault_exact [of demo_machine 0 0 "fault_at 0x10001234" 1, unfolded demo_machine_sel(1-4) tf(1) Let_def,
      OF refl demo_space_ok(1,3) sp refl tf(2)]
  obtain v' r where r: "handle_tlbmiss (fault_at 0x10001234) 1 demo_machine = (if r = 0 then
      Some (Inl (), demo_machine\<lparr>mos := (mos demo_machine)\<lparr>ovm := v'\<rparr>\<rparr>) else killed (demo_machine\<lparr>mos := (mos demo_machine)\<lparr>ovm := v'\<rparr>\<rparr>))"
    "fault_over 0 0 2 0x10001234 demo_space r v'"
    using t z by auto
  have "r = 0"
  proof (rule ccontr)
    assume "r \<noteq> 0"
    then show False using r(2) z l many demo_space_ok(4,6) by (auto simp: fault_over_def)
  qed
  then show ?thesis using r perm by (auto simp: fault_over_def)
qed

end
