(* ===== verification/Load_Segment.thy ===== *)
theory Load_Segment
  imports User_Fault
begin

text \<open>
  What loading one segment of a program does: every page of the segment is mapped to a fresh frame that
  holds the bytes of the file and then zeros, and nothing else in memory changes.
\<close>

section \<open>A new page\<close>

lemma page_insert_live:
  assumes "get_pte pd la True s = Some (r, s2)" "get_pte pd la True s2 = Some (r, s2)"
  shows "page_insert pd p la perm s = page_insert pd p la perm s2"
  using assms by (simp add: page_insert_def)

definition frames_left :: "vmem \<Rightarrow> nat" where
  "frames_left s = card (free_set (phys s))"

lemma finite_free_set: "finite (free_set ph)"
  by (simp add: free_set_def)

lemma frames_left_le: "free_set (phys s) \<subseteq> set ps \<union> free_set (phys s') \<Longrightarrow> frames_left s \<le> frames_left s' + length ps"
proof -
  assume "free_set (phys s) \<subseteq> set ps \<union> free_set (phys s')"
  then have "card (free_set (phys s)) \<le> card (set ps \<union> free_set (phys s'))" by (rule card_mono [rotated]) (simp add: finite_free_set)
  also have "\<dots> \<le> card (set ps) + card (free_set (phys s'))" by (rule card_Un_le)
  also have "\<dots> \<le> length ps + card (free_set (phys s'))" by (simp add: card_length)
  finally show ?thesis by (simp add: frames_left_def)
qed

text \<open>The table may have to be made first.\<close>

lemma pgdir_alloc_any:
  assumes ok: "space_ok s pd" and z: "\<not> live (pte_of s pd la)" and fu: "free_unref s" and perm: "perm AND NOT 0xFFF = 0"
  shows "\<exists>r s'. pgdir_alloc_page pd la perm s = Some (r, s') \<and> space_ok s' pd \<and> free_unref s' \<and> used s \<subseteq> used s' \<and>
    frames_left s \<le> frames_left s' + (if r = None then 0 else 2) \<and>
    (case r of None \<Rightarrow> (\<forall>lb. pte_of s' pd lb = pte_of s pd lb) \<and> frames_left s' \<le> 1
     | Some p \<Rightarrow> p < npage \<and> p \<notin> used s \<and> p \<in> used s' \<and>
        (\<forall>lb. pte_of s' pd lb = (if page_no lb = page_no la then page2pa p OR PTE_P OR perm else pte_of s pd lb)))"
proof -
  obtain r s1 where a: "alloc_pages 1 s = Some (r, s1)" "ff_inv npage (phys s1)" "frames s1 = frames s"
    "\<forall>q. page_ref q s1 = page_ref q s"
    "case r of None \<Rightarrow> s1 = s \<and> free_set (phys s) = {}
     | Some p \<Rightarrow> p < npage \<and> p \<notin> used s \<and> used s1 = insert p (used s) \<and>
         p \<in> free_set (phys s) \<and> free_set (phys s1) = free_set (phys s) - {p}"
    using alloc_page_ok [OF space_okD(1) [OF ok]] by blast
  show ?thesis
  proof (cases r)
    case None
    then have "pgdir_alloc_page pd la perm s = Some (None, s)" using a(1,5) by (simp add: pgdir_alloc_page_def)
    then show ?thesis using ok fu a(5) None by (intro exI [of _ None] exI [of _ s]) (simp add: frames_left_def)
  next
    case (Some p)
    have p: "p < npage" "p \<notin> used s" "used s1 = insert p (used s)" "p \<in> free_set (phys s)"
      "free_set (phys s1) = free_set (phys s) - {p}" using a(5) Some by auto
    note sa = space_ok_alloc [OF ok a(3,2,4), unfolded p(3), OF subset_insertI]
    have m: "maps s1 pd p = {}" using space_okD(6) [OF ok, of p] p(2) unfolding sa(4) by blast
    have np: "p \<notin> insert pd (tables s1 pd)" using space_okD(2,3) [OF ok] p(2) unfolding sa(2) by blast
    have r0: "page_ref p s1 = 0" using fu p(4) a(4) by (simp add: free_unref_def)
    have fu1: "free_unref s1" using fu a(4) p(5) by (simp add: free_unref_def)
    have pt1: "pte_of s1 pd lb = pte_of s pd lb" for lb by (simp add: pte_of_def sa(3))
    obtain g s2 where g: "get_pte pd la True s1 = Some (g, s2)" "space_ok s2 pd" "\<forall>d<1024. \<forall>t. slot s2 pd d t = slot s1 pd d t"
      "used s1 \<subseteq> used s2" "\<forall>q\<in>used s1. page_ref q s2 = page_ref q s1" "tables s2 pd \<inter> used s1 = tables s1 pd"
      "case g of None \<Rightarrow> s2 = s1 \<and> free_set (phys s1) = {}
       | Some (f, i) \<Rightarrow> i = PTX la \<and> live (frames s2 pd (PDX la)) \<and> f = frame_of (frames s2 pd (PDX la))"
      using get_pte_create [OF sa(1), of la] by (elim exE conjE) (rule that; assumption)
    have fu2: "free_unref s2" "free_set (phys s2) \<subseteq> free_set (phys s1)" "\<exists>q. free_set (phys s1) \<subseteq> insert q (free_set (phys s2))"
      using get_pte_free [OF g(1) space_okD(1) [OF sa(1)] fu1] by blast+
    show ?thesis
    proof (cases g)
      case None
      obtain s' where f: "free_pages p 1 s1 = Some s'" "ff_inv npage (phys s')" "frames s' = frames s1" "used s' = used s1 - {p}"
        "free_set (phys s') = insert p (free_set (phys s1))" "\<forall>q. page_ref q s' = (if q = p then 0 else page_ref q s1)"
        using free_page_ok [OF a(2), of p] p(3) by auto
      have us: "used s' = used s" using f(4) p(2,3) by auto
      have "\<forall>q. page_ref q s' = page_ref q s" using f(6) a(4) r0 by auto
      from space_ok_alloc [OF ok _ f(2) this] have sp: "space_ok s' pd" "\<And>d t. slot s' pd d t = slot s pd d t"
        using f(3) a(3) us by auto
      have "pgdir_alloc_page pd la perm s = Some (None, s')"
        using a(1) Some g(1,7) None f(1) by (simp add: pgdir_alloc_page_def page_insert_def)
      moreover have "free_unref s'" using fu1 f(5,6) by (auto simp: free_unref_def)
      moreover have "pte_of s' pd lb = pte_of s pd lb" for lb by (simp add: pte_of_def sp(2))
      moreover have "free_set (phys s') = {p}" "free_set (phys s) = {p}" using f(5) g(7) None p(4,5) by auto
      then have "frames_left s' \<le> 1" "frames_left s \<le> frames_left s'" by (simp_all add: frames_left_def)
      ultimately show ?thesis using sp(1) us by (intro exI [of _ None] exI [of _ s']) auto
    next
      case (Some fi)
      then have lv: "live (frames s2 pd (PDX la))" and fi: "fi = (frame_of (frames s2 pd (PDX la)), PTX la)" using g(7) by auto
      have e: "page_insert pd p la perm s1 = page_insert pd p la perm s2"
        by (rule page_insert_live [OF g(1)]) (use get_pte_live [OF g(2) lv] Some fi in simp)
      have pt2: "pte_of s2 pd lb = pte_of s pd lb" for lb
        using g(3) PDX_bound(1) pt1 [of lb] by (simp add: pte_of_def)
      have "maps s2 pd p = maps s1 pd p" using g(3) by (auto simp: maps_def)
      then have mp: "maps s2 pd p = {}" using m by simp
      have p2: "p \<in> used s2" "p \<notin> insert pd (tables s2 pd)" using g(4,6) p(3) np by auto
      have rf: "page_ref p s2 = 0" using g(5) p(3) r0 by simp
      obtain r' s' where i: "page_insert pd p la perm s2 = Some (r', s')" "space_ok s' pd"
        "r' = 0 \<longrightarrow> (\<forall>lb. pte_of s' pd lb = (if page_no lb = page_no la then page2pa p OR PTE_P OR perm else pte_of s2 pd lb)) \<and>
          (\<forall>x\<in>used s2. x \<in> used s' \<longleftrightarrow> \<not> (live (pte_of s2 pd la) \<and> x = frame_of (pte_of s2 pd la) \<and> x \<noteq> p \<and> page_ref x s2 = 1))"
        using page_insert_ok [OF g(2) p2 _ perm, of la] mp rf by auto
      have f: "r' = 0 \<and> free_unref s' \<and> free_set (phys s') = free_set (phys s2)"
        by (rule page_insert_fresh_free [OF g(2) lv _ i(1) fu2(1)]) (use z pt2 fu2(2) p(5) in auto)
      have "pgdir_alloc_page pd la perm s = Some (Some p, s')"
        using a(1) \<open>r = Some p\<close> i(1) f e by (simp add: pgdir_alloc_page_def)
      moreover have "used s \<subseteq> used s'" "p \<in> used s'" using i(3) f g(4) p(3) z pt2 by auto
      moreover have "frames_left s \<le> frames_left s' + 2"
      proof -
        obtain q where "free_set (phys s1) \<subseteq> insert q (free_set (phys s2))" using fu2(3) by blast
        then have "free_set (phys s) \<subseteq> set [p, q] \<union> free_set (phys s')" using p(5) f by auto
        from frames_left_le [OF this] show ?thesis by simp
      qed
      ultimately show ?thesis using i f p(1,2) pt2 by (intro exI [of _ "Some p"] exI [of _ s']) simp
    qed
  qed
qed

section \<open>Pages mapped so far\<close>

text \<open>From \<open>g0\<close> to \<open>g\<close> the pages \<open>A\<close> up to \<open>B\<close> have been mapped to fresh frames.\<close>

definition frame_at :: "vmem \<Rightarrow> nat \<Rightarrow> nat \<Rightarrow> nat" where
  "frame_at g pd n = frame_of (pte_at g pd n)"

definition grown :: "nat \<Rightarrow> u32 \<Rightarrow> nat \<Rightarrow> nat \<Rightarrow> vmem \<Rightarrow> vmem \<Rightarrow> bool" where
  "grown pd perm A B g0 g \<longleftrightarrow> space_ok g pd \<and> free_unref g \<and> used g0 \<subseteq> used g \<and> frames_left g0 \<le> frames_left g + 2 * (B - A) \<and>
     (\<forall>n<2 ^ 20. if A \<le> n \<and> n < B
        then frame_at g pd n < npage \<and> frame_at g pd n \<notin> used g0 \<and> frame_at g pd n \<in> used g \<and>
          pte_at g pd n = page2pa (frame_at g pd n) OR PTE_P OR perm
        else pte_at g pd n = pte_at g0 pd n) \<and>
     inj_on (frame_at g pd) {A..<B}"

lemma grown_refl: "space_ok g pd \<Longrightarrow> free_unref g \<Longrightarrow> grown pd perm A A g g"
  by (auto simp: grown_def)

lemma pte_at_of: "n < 2 ^ 20 \<Longrightarrow> pte_at g pd n = pte_of g pd (of_nat (n * 4096))"
proof -
  assume n: "n < 2 ^ 20"
  then have "unat (of_nat (n * 4096) :: u32) = n * 4096" by (simp add: unsigned_of_nat take_bit_nat_eq_self del: of_nat_mult)
  then show ?thesis by (simp add: pte_of_at page_no_def)
qed

lemma grown_step:
  assumes g: "grown pd perm A B g0 g" and b: "A \<le> B" "B < 2 ^ 20" "\<not> live (pte_at g0 pd B)" "page_no la = B" and perm: "perm AND NOT 0xFFF = 0"
  shows "\<exists>r g'. pgdir_alloc_page pd la perm g = Some (r, g') \<and>
    (case r of None \<Rightarrow> frames_left g' \<le> 1 \<and> grown pd perm A B g0 g' \<and> (\<forall>n. A \<le> n \<and> n < B \<longrightarrow> frame_at g' pd n = frame_at g pd n)
     | Some p \<Rightarrow> grown pd perm A (B + 1) g0 g' \<and> p < npage \<and> p \<notin> used g \<and> frame_at g' pd B = p \<and>
         (\<forall>n. A \<le> n \<and> n < B \<longrightarrow> frame_at g' pd n = frame_at g pd n))"
proof -
  have sp: "space_ok g pd" "free_unref g" "used g0 \<subseteq> used g" using g by (simp_all add: grown_def)
  have same: "pte_at g pd B = pte_at g0 pd B" using g b(2) by (simp add: grown_def)
  then have z: "\<not> live (pte_of g pd la)" using b(3,4) by (simp add: pte_of_at)
  have pn: "page_no (of_nat (n * 4096) :: u32) = n" if "n < 2 ^ 20" for n
  proof -
    have "unat (of_nat (n * 4096) :: u32) = n * 4096" using that by (simp add: unsigned_of_nat take_bit_nat_eq_self del: of_nat_mult)
    then show ?thesis by (simp add: page_no_def)
  qed
  obtain r g' where r: "pgdir_alloc_page pd la perm g = Some (r, g')" "space_ok g' pd" "free_unref g'" "used g \<subseteq> used g'"
    "frames_left g \<le> frames_left g' + (if r = None then 0 else 2)"
    "case r of None \<Rightarrow> (\<forall>lb. pte_of g' pd lb = pte_of g pd lb) \<and> frames_left g' \<le> 1
     | Some p \<Rightarrow> p < npage \<and> p \<notin> used g \<and> p \<in> used g' \<and>
        (\<forall>lb. pte_of g' pd lb = (if page_no lb = page_no la then page2pa p OR PTE_P OR perm else pte_of g pd lb))"
    using pgdir_alloc_any [OF sp(1) z sp(2) perm] by blast
  show ?thesis
  proof (cases r)
    case None
    then have pt: "pte_at g' pd n = pte_at g pd n" if "n < 2 ^ 20" for n using r(6) that by (simp add: pte_at_of)
    then have fr: "frame_at g' pd n = frame_at g pd n" if "n < 2 ^ 20" for n using that by (simp add: frame_at_def)
    have "inj_on (frame_at g' pd) {A..<B}"
      using g b(2) by (auto simp: grown_def inj_on_def fr)
    then have "grown pd perm A B g0 g'" using g r(2-5) None unfolding grown_def by (auto simp: pt fr)
    then show ?thesis using r(1,6) None fr b(2) by auto
  next
    case (Some p)
    then have p: "p < npage" "p \<notin> used g" "p \<in> used g'" using r(6) by auto
    have pt: "pte_at g' pd n = (if n = B then page2pa p OR PTE_P OR perm else pte_at g pd n)" if "n < 2 ^ 20" for n
      using r(6) Some that pn [OF that] b(4) by (simp add: pte_at_of)
    have fB: "frame_at g' pd B = p" using pt [OF b(2)] leaf_entry(1) [OF perm p(1)] by (simp add: frame_at_def)
    have fr: "frame_at g' pd n = frame_at g pd n" if "n < B" for n using pt [of n] that b(2) by (simp add: frame_at_def)
    have old: "frame_at g pd n \<in> used g" if "A \<le> n" "n < B" for n
      using g that b(2) unfolding grown_def by auto
    have "inj_on (frame_at g' pd) {A..<B}" using g by (auto simp: grown_def inj_on_def fr)
    moreover have "p \<notin> frame_at g' pd ` {A..<B}" using p(2) old fr by auto
    moreover have "{A..<B + 1} = insert B {A..<B}" using b(1) by auto
    ultimately have inj: "inj_on (frame_at g' pd) {A..<B + 1}" using fB by (simp add: inj_on_insert)
    have "if A \<le> n \<and> n < B + 1
        then frame_at g' pd n < npage \<and> frame_at g' pd n \<notin> used g0 \<and> frame_at g' pd n \<in> used g' \<and>
          pte_at g' pd n = page2pa (frame_at g' pd n) OR PTE_P OR perm
        else pte_at g' pd n = pte_at g0 pd n" if n: "n < 2 ^ 20" for n
    proof (cases "n = B")
      case True
      then show ?thesis using b(1) fB p sp(3) pt [OF n] by auto
    next
      case False
      then show ?thesis using g n pt [OF n] fr [of n] r(4) unfolding grown_def by auto
    qed
    moreover have "frames_left g0 \<le> frames_left g' + 2 * (B + 1 - A)"
      using g r(5) Some b(1) by (auto simp: grown_def)
    ultimately have "grown pd perm A (B + 1) g0 g'" using r(2-4) sp(3) inj unfolding grown_def by blast
    then show ?thesis using r(1) Some p fB fr by auto
  qed
qed


section \<open>Memory filled so far\<close>

definition page_bytes :: "nat \<Rightarrow> nat set" where
  "page_bytes p = {unat (page2pa p)..<unat (page2pa p) + 4096}"

text \<open>Where the kernel finds the byte at a user address.\<close>

definition kaddr :: "vmem \<Rightarrow> nat \<Rightarrow> nat \<Rightarrow> nat" where
  "kaddr g pd x = unat (page2pa (frame_at g pd (x div 4096))) + x mod 4096"

definition progress ::
  "'d names name_ops \<Rightarrow> nat \<Rightarrow> u32 \<Rightarrow> nat \<Rightarrow> nat \<Rightarrow> nat \<Rightarrow> nat \<Rightarrow> (nat \<Rightarrow> u8) \<Rightarrow> 'd names os_state \<Rightarrow> 'd names os_state \<Rightarrow> bool" where
  "progress ops pd perm A B a b val s0 s \<longleftrightarrow>
     ovm s = (ovm s0)\<lparr>pgs := pgs (ovm s)\<rparr> \<and> grown pd perm A B (pgs (ovm s0)) (pgs (ovm s)) \<and>
     (\<forall>x. a \<le> x \<and> x < b \<longrightarrow> os_mem ops s (kaddr (pgs (ovm s)) pd x) = val x) \<and>
     (\<forall>y. (\<forall>n. A \<le> n \<and> n < B \<longrightarrow> y \<notin> page_bytes (frame_at (pgs (ovm s)) pd n)) \<longrightarrow> os_mem ops s y = os_mem ops s0 y)"

text \<open>Only the pages before some \<open>B\<close> could be mapped: at most one frame is left.\<close>

definition out_of_memory ::
  "'d names name_ops \<Rightarrow> nat \<Rightarrow> u32 \<Rightarrow> nat \<Rightarrow> nat \<Rightarrow> nat \<Rightarrow> (nat \<Rightarrow> u8) \<Rightarrow> 'd names os_state \<Rightarrow> 'd names os_state \<Rightarrow> bool" where
  "out_of_memory ops pd perm A E a val s0 s \<longleftrightarrow> frames_left (pgs (ovm s)) \<le> 1 \<and>
     (\<exists>B\<ge>A. B \<le> E \<and> progress ops pd perm A B a a val s0 s)"

lemma out_of_memory_more: "out_of_memory ops pd perm A E a val s0 s \<Longrightarrow> E \<le> E' \<Longrightarrow> out_of_memory ops pd perm A E' a val s0 s"
  unfolding out_of_memory_def by (meson order_trans)

lemma out_of_memory_left:
  assumes "out_of_memory ops pd perm A E a val s0 s"
  shows "frames_left (pgs (ovm s0)) \<le> 2 * (E - A) + 1"
  using assms unfolding out_of_memory_def progress_def grown_def by fastforce

lemma progressD:
  assumes "progress ops pd perm A B a b val s0 s"
  shows "ovm s = (ovm s0)\<lparr>pgs := pgs (ovm s)\<rparr>" "grown pd perm A B (pgs (ovm s0)) (pgs (ovm s))"
    "a \<le> x \<Longrightarrow> x < b \<Longrightarrow> os_mem ops s (kaddr (pgs (ovm s)) pd x) = val x"
    "(\<And>n. A \<le> n \<Longrightarrow> n < B \<Longrightarrow> y \<notin> page_bytes (frame_at (pgs (ovm s)) pd n)) \<Longrightarrow> os_mem ops s y = os_mem ops s0 y"
  using assms unfolding progress_def by blast+

lemma page_bytes_disjoint: "p < npage \<Longrightarrow> q < npage \<Longrightarrow> p \<noteq> q \<Longrightarrow> y \<in> page_bytes p \<Longrightarrow> y \<notin> page_bytes q"
  by (auto simp: page_bytes_def unat_page2pa)

lemma kaddr_in: "x div 4096 = n \<Longrightarrow> kaddr g pd x \<in> page_bytes (frame_at g pd n)"
  by (auto simp: kaddr_def page_bytes_def)

lemma grownD:
  assumes "grown pd perm A B g0 g" "A \<le> n" "n < B" "B \<le> 2 ^ 20"
  shows "frame_at g pd n < npage" "frame_at g pd n \<notin> used g0" "frame_at g pd n \<in> used g"
    "pte_at g pd n = page2pa (frame_at g pd n) OR PTE_P OR perm"
proof -
  have "n < 2 ^ 20" using assms(3,4) by simp
  then show "frame_at g pd n < npage" "frame_at g pd n \<notin> used g0" "frame_at g pd n \<in> used g"
    "pte_at g pd n = page2pa (frame_at g pd n) OR PTE_P OR perm"
    using assms(1-3) unfolding grown_def by auto
qed

lemma grown_frames: "grown pd perm A B g0 g \<Longrightarrow> A \<le> i \<Longrightarrow> i < B \<Longrightarrow> A \<le> j \<Longrightarrow> j < B \<Longrightarrow> frame_at g pd i = frame_at g pd j \<Longrightarrow> i = j"
  by (auto simp: grown_def inj_on_def)

lemma poke_in: "i < length bs \<Longrightarrow> poke m a bs (a + i) = bs ! i"
  by (simp add: poke_def)

text \<open>Bytes are written into the last page, after those that it holds already.\<close>

lemma progress_more:
  assumes pr: "progress ops pd perm A (B + 1) a b val s0 s" and B: "A \<le> B" "B < 2 ^ 20" and A: "A = a div 4096"
    and w: "ovm s' = ovm s" "os_mem ops s' = poke (os_mem ops s) (unat (page2pa (frame_at (pgs (ovm s)) pd B)) + (b - 4096 * B)) bs"
    and b: "a \<le> b" "4096 * B \<le> b" "b + length bs \<le> 4096 * (B + 1)" "\<And>i. i < length bs \<Longrightarrow> bs ! i = val (b + i)"
  shows "progress ops pd perm A (B + 1) a (b + length bs) val s0 s'"
proof -
  let ?g = "pgs (ovm s)" let ?p = "unat (page2pa (frame_at (pgs (ovm s)) pd B))"
  note D = progressD [OF pr]
  have at: "poke m (?p + (b - 4096 * B)) bs y = (if ?p + (b - 4096 * B) \<le> y \<and> y < ?p + (b - 4096 * B) + length bs
      then bs ! (y - (?p + (b - 4096 * B))) else m y)" for m y by (simp add: poke_def)
  have page: "y \<in> page_bytes (frame_at ?g pd B)" if "?p + (b - 4096 * B) \<le> y" "y < ?p + (b - 4096 * B) + length bs" for y
    using that b(2,3) by (auto simp: page_bytes_def)
  have "os_mem ops s' (kaddr ?g pd x) = val x" if x: "a \<le> x" "x < b + length bs" for x
  proof (cases "x < b")
    case True
    have "\<not> (?p + (b - 4096 * B) \<le> kaddr ?g pd x \<and> kaddr ?g pd x < ?p + (b - 4096 * B) + length bs)"
    proof (cases "x div 4096 = B")
      case xB: True
      then have "x mod 4096 = x - 4096 * B" by (simp add: minus_mult_div_eq_mod [symmetric])
      moreover have "4096 * B \<le> x" using xB div_times_less_eq_dividend [of x 4096] by simp
      ultimately have "x mod 4096 < b - 4096 * B" using True by simp
      then show ?thesis using xB by (simp add: kaddr_def)
    next
      case False
      have n: "A \<le> x div 4096" "x div 4096 < B" using x(1) True b False A by (auto simp: div_le_mono)
      have "frame_at ?g pd (x div 4096) \<noteq> frame_at ?g pd B"
        using grown_frames [OF D(2), of "x div 4096" B] n B(1) by auto
      moreover have "frame_at ?g pd (x div 4096) < npage" "frame_at ?g pd B < npage"
        using grownD(1) [OF D(2)] n B by auto
      ultimately show ?thesis using page page_bytes_disjoint kaddr_in [OF refl, of ?g pd x] by blast
    qed
    then show ?thesis using D(3) [of x] x(1) True unfolding w(2) at by (simp only: if_False)
  next
    case False
    then have xB: "x div 4096 = B" using x(2) b(2,3) by (intro div_nat_eqI) auto
    then have "x mod 4096 = x - 4096 * B" by (simp add: minus_mult_div_eq_mod [symmetric])
    with xB have "kaddr ?g pd x = ?p + (b - 4096 * B) + (x - b)" using False b(2) by (simp add: kaddr_def)
    moreover have "x - b < length bs" using False x(2) by simp
    ultimately show ?thesis using b(4) [of "x - b"] False by (simp only: w(2) poke_in) simp
  qed
  moreover have "os_mem ops s' y = os_mem ops s0 y"
    if "\<And>n. A \<le> n \<Longrightarrow> n < B + 1 \<Longrightarrow> y \<notin> page_bytes (frame_at ?g pd n)" for y
    using D(4) [of y] that page [of y] B(1) by (auto simp: w(2) at)
  ultimately show ?thesis using D(1,2) unfolding progress_def w(1) by blast
qed

text \<open>A page is added.\<close>

lemma progress_page:
  assumes pr: "progress ops pd perm A B a b val s0 s" and B: "A \<le> B" "B < 2 ^ 20" "\<not> live (pte_at (pgs (ovm s0)) pd B)" "page_no la = B"
    and b: "b \<le> 4096 * B \<or> b = a" and A: "A = a div 4096" and perm: "perm AND NOT 0xFFF = 0" and m: "pgdir (mms (ovm s0) m) = Some pd"
  shows "\<exists>r s'. user_page m la perm s = Some (r, s') \<and> ofs s' = ofs s \<and> (\<exists>v. s' = s\<lparr>ovm := v\<rparr>) \<and>
    (case r of None \<Rightarrow> frames_left (pgs (ovm s')) \<le> 1 \<and> progress ops pd perm A B a b val s0 s'
     | Some p \<Rightarrow> p < npage \<and> p \<notin> used (pgs (ovm s0)) \<and> p = frame_at (pgs (ovm s')) pd B \<and> progress ops pd perm A (B + 1) a b val s0 s')"
proof -
  note D = progressD [OF pr]
  let ?g = "pgs (ovm s)"
  obtain r g' where r: "pgdir_alloc_page pd la perm ?g = Some (r, g')"
    "case r of None \<Rightarrow> frames_left g' \<le> 1 \<and> grown pd perm A B (pgs (ovm s0)) g' \<and> (\<forall>n. A \<le> n \<and> n < B \<longrightarrow> frame_at g' pd n = frame_at ?g pd n)
     | Some p \<Rightarrow> grown pd perm A (B + 1) (pgs (ovm s0)) g' \<and> p < npage \<and> p \<notin> used ?g \<and> frame_at g' pd B = p \<and>
         (\<forall>n. A \<le> n \<and> n < B \<longrightarrow> frame_at g' pd n = frame_at ?g pd n)"
    using grown_step [OF D(2) B perm] by blast
  let ?s = "s\<lparr>ovm := (ovm s)\<lparr>pgs := g'\<rparr>\<rparr>"
  have vm: "ovm ?s = (ovm s0)\<lparr>pgs := pgs (ovm ?s)\<rparr>" by (subst D(1)) simp
  have mem: "os_mem ops (s\<lparr>ovm := v\<rparr>) = os_mem ops s" for v by (simp add: os_mem_def)
  have pd: "pgdir (mms (ovm s) m) = Some pd" using m by (subst D(1)) simp
  have u: "user_page m la perm s = Some (r, ?s)" using r(1) pd by (simp add: user_page_def)
  have fr: "frame_at g' pd n = frame_at ?g pd n" if "A \<le> n" "n < B" for n using r(2) that by (auto split: option.splits)
  have hold: "os_mem ops ?s (kaddr g' pd x) = val x" if "a \<le> x" "x < b" for x
  proof -
    have "A \<le> x div 4096" "x div 4096 < B" using that b A by (auto simp: div_le_mono)
    then have "kaddr g' pd x = kaddr ?g pd x" by (simp add: kaddr_def fr)
    then show ?thesis using D(3) [OF that] by (simp add: mem)
  qed
  have keep: "os_mem ops ?s y = os_mem ops s0 y"
    if "\<forall>n. A \<le> n \<and> n < C \<longrightarrow> y \<notin> page_bytes (frame_at g' pd n)" "B \<le> C" for y C
  proof -
    have "y \<notin> page_bytes (frame_at ?g pd n)" if "A \<le> n" "n < B" for n
      using \<open>\<forall>n. _\<close> \<open>B \<le> C\<close> that fr [OF that] by (metis less_le_trans)
    then show ?thesis using D(4) [of y] by (simp add: mem)
  qed
  show ?thesis
  proof (cases r)
    case None
    have "progress ops pd perm A B a b val s0 ?s"
      unfolding progress_def using vm r(2) None hold keep [of B] by auto
    moreover have "frames_left (pgs (ovm ?s)) \<le> 1" using r(2) None by simp
    ultimately show ?thesis using u None by (intro exI [of _ r] exI [of _ ?s]) auto
  next
    case (Some p)
    have "progress ops pd perm A (B + 1) a b val s0 ?s"
      unfolding progress_def using vm r(2) Some hold keep [of "B + 1"] by auto
    moreover have "p \<notin> used (pgs (ovm s0))" using r(2) Some D(2) by (auto simp: grown_def)
    ultimately show ?thesis using u Some r(2) by (intro exI [of _ r] exI [of _ ?s]) auto
  qed
qed


section \<open>The loops\<close>

lemma part_size_ok:
  assumes "unat la \<le> unat start" "unat start < unat la + 4096" "unat start \<le> unat en" "unat la + 4096 < 2 ^ 32"
  shows "unat (part_size (start - la) (la + PGSIZE) en) = min (unat en) (unat la + 4096) - unat start"
proof -
  have la: "unat (la + PGSIZE) = unat la + 4096" using assms(4) by (subst unat_add_u32) (simp_all add: PGSIZE_def)
  have "unat (start - la) = unat start - unat la" using assms(1) by (rule unat_sub_u32)
  then have n: "unat (PGSIZE - (start - la)) = unat la + 4096 - unat start"
    using assms(1,2) by (subst unat_sub_u32) (simp_all add: PGSIZE_def)
  show ?thesis
  proof (cases "en < la + PGSIZE")
    case True
    then have lt: "unat en < unat la + 4096" by (simp add: word_less_nat_alt la)
    then have "unat (la + PGSIZE - en) = unat la + 4096 - unat en" by (subst unat_sub_u32) (simp_all add: la)
    then have "unat (PGSIZE - (start - la) - (la + PGSIZE - en)) = unat en - unat start"
      using lt assms(3) by (subst unat_sub_u32) (simp_all add: n)
    then show ?thesis using True lt by (simp add: part_size_def Let_def)
  next
    case False
    then show ?thesis by (simp add: part_size_def Let_def n word_less_nat_alt la)
  qed
qed

text \<open>A program that its reader gets at: \<open>good I s\<close> says that what the reader relies on is intact, as long as the frames \<open>I\<close> are left alone.\<close>

locale program_reader =
  fixes ops :: "'d names name_ops" and rd :: "'d reader" and content :: "nat \<Rightarrow> u8" and psize :: nat
    and good :: "nat set \<Rightarrow> 'd names os_state \<Rightarrow> bool"
  assumes mem_law: "os_mem ops (set_os_mem ops b s) = b"
    and small: "good I s \<Longrightarrow> psize < 2 ^ 32"
    and read_law: "good I s \<Longrightarrow> p < npage \<Longrightarrow> p \<notin> I \<Longrightarrow> unat a = unat (page2pa p) + off \<Longrightarrow> off + unat k \<le> 4096 \<Longrightarrow>
      unat ofst + unat k \<le> psize \<Longrightarrow>
      \<exists>s'. rd a k ofst s = Some (0, s') \<and> good I s' \<and> ovm s' = ovm s \<and>
        os_mem ops s' = poke (os_mem ops s) (unat a) (map content [unat ofst..<unat ofst + unat k])"
    and good_vm: "good I s \<Longrightarrow> good I (s\<lparr>ovm := v\<rparr>)"
    and good_zero: "good I s \<Longrightarrow> p < npage \<Longrightarrow> p \<notin> I \<Longrightarrow> unat a = unat (page2pa p) + off \<Longrightarrow> off + unat k \<le> 4096 \<Longrightarrow>
      good I (zero_part ops a k s)"
begin

lemma zero_part_ok:
  "ovm (zero_part ops a k s) = ovm s" "os_mem ops (zero_part ops a k s) = poke (os_mem ops s) (unat a) (replicate (unat k) 0)"
proof -
  show "ovm (zero_part ops a k s) = ovm s" by (simp add: zero_part_def set_os_mem_def)
  show "os_mem ops (zero_part ops a k s) = poke (os_mem ops s) (unat a) (replicate (unat k) 0)"
    by (rule ext) (auto simp: zero_part_def mem_law memset_at poke_def)
qed

lemma fill_loop_ok:
  assumes pr: "progress ops pd perm A B va (unat start) val s0 s" and g: "good I s" "I \<subseteq> used (pgs (ovm s0))"
    and la: "unat la = 4096 * B" "A \<le> B" "A = va div 4096" "unat start = max va (4096 * B)" "unat start < 4096 * (B + 1)"
    and en: "unat start < unat en" "unat en \<le> 0x80000000" and E: "E = (unat en + 4095) div 4096"
    and free: "\<And>n. B \<le> n \<Longrightarrow> n < E \<Longrightarrow> \<not> live (pte_at (pgs (ovm s0)) pd n)"
    and perm: "perm AND NOT 0xFFF = 0" and m: "pgdir (mms (ovm s0) m) = Some pd"
    and c: "unat offset + (unat en - unat start) \<le> psize" "\<And>i. i < unat en - unat start \<Longrightarrow> val (unat start + i) = content (unat offset + i)"
  shows "\<exists>ret start' la' page' s'. fill_loop rd m perm en start la offset page s = Some ((ret, start', la', page'), s') \<and>
    good I s' \<and>
    (if ret = 0 then start' = en \<and> unat la' = 4096 * E \<and> B < E \<and> page' = Some (frame_at (pgs (ovm s')) pd (E - 1)) \<and>
       progress ops pd perm A E va (unat en) val s0 s'
     else ret = fail_code E_NO_MEM \<and> out_of_memory ops pd perm A E va val s0 s')"
  using pr g(1) la(1,2,4,5) en(1) free c
proof (induction "unat en - unat start" arbitrary: start la offset page s B rule: less_induct)
  case less
  note pr = less.prems(1) and g' = less.prems(2) and la' = less.prems(3-6) and lt = less.prems(7) and free' = less.prems(8)
    and c' = less.prems(9,10)
  have B: "B < 2 ^ 20" "B < E" "B < 524288" using la'(1,3) lt en(2) unfolding E by auto
  have pn: "page_no la = B" using la'(1) by (simp add: page_no_def)
  have weak: "progress ops pd perm A B va va val s0 s1" if "progress ops pd perm A B va (unat start) val s0 s1" for s1
    using that unfolding progress_def by auto
  have b: "unat start \<le> 4096 * B \<or> unat start = va" unfolding la'(3) by (simp add: max_def)
  obtain r s1 where u: "user_page m la perm s = Some (r, s1)" "\<exists>v. s1 = s\<lparr>ovm := v\<rparr>"
    "case r of None \<Rightarrow> frames_left (pgs (ovm s1)) \<le> 1 \<and> progress ops pd perm A B va (unat start) val s0 s1
     | Some p \<Rightarrow> p < npage \<and> p \<notin> used (pgs (ovm s0)) \<and> p = frame_at (pgs (ovm s1)) pd B \<and> progress ops pd perm A (B + 1) va (unat start) val s0 s1"
    using progress_page [OF pr la'(2) B(1) free' [OF order_refl B(2)] pn b la(3) perm m] by blast
  have g1: "good I s1" using u(2) good_vm [OF g'] by auto
  show ?case
  proof (cases r)
    case None
    then have "fill_loop rd m perm en start la offset page s = Some ((fail_code E_NO_MEM, start, la, None), s1)"
      using lt u(1) by (subst fill_loop.simps) (simp add: word_less_nat_alt)
    then show ?thesis using g1 weak u(3) None la'(2) B(2) by (auto simp: out_of_memory_def intro: exI [of _ B])
  next
    case (Some p)
    then have p: "p < npage" "p \<notin> I" "p = frame_at (pgs (ovm s1)) pd B" and pr1: "progress ops pd perm A (B + 1) va (unat start) val s0 s1"
      using u(3) g(2) by auto
    let ?n = "part_size (start - la) (la + PGSIZE) en"
    have la4: "unat (la + PGSIZE) = 4096 * (B + 1)" using la'(1) B(3) by (subst unat_add_u32) (simp_all add: PGSIZE_def)
    have n: "unat ?n = min (unat en) (4096 * (B + 1)) - unat start"
      using part_size_ok [of la start en] la' lt B(3) by (simp add: algebra_simps)
    have off: "unat (page2pa p + (start - la)) = unat (page2pa p) + (unat start - 4096 * B)" "unat start - 4096 * B + unat ?n \<le> 4096"
    proof -
      have "unat (start - la) = unat start - 4096 * B" using la'(1,3) by (subst unat_sub_u32) auto
      then show "unat (page2pa p + (start - la)) = unat (page2pa p) + (unat start - 4096 * B)"
        using p(1) la'(4) by (subst unat_add_u32) (simp_all add: unat_page2pa npage_def)
      show "unat start - 4096 * B + unat ?n \<le> 4096" using n la'(3,4) by auto
    qed
    have on: "unat offset + unat ?n \<le> psize" using c'(1) n by auto
    obtain s2 where r2: "rd (page2pa p + (start - la)) ?n offset s1 = Some (0, s2)" "good I s2" "ovm s2 = ovm s1"
      "os_mem ops s2 = poke (os_mem ops s1) (unat (page2pa p + (start - la))) (map content [unat offset..<unat offset + unat ?n])"
      using read_law [OF g1 p(1,2) off on] by blast
    let ?bs = "map content [unat offset..<unat offset + unat ?n]"
    have "progress ops pd perm A (B + 1) va (unat start + length ?bs) val s0 s2"
    proof (rule progress_more [OF pr1 la'(2) B(1) la(3) r2(3)])
      show "os_mem ops s2 = poke (os_mem ops s1) (unat (page2pa (frame_at (pgs (ovm s1)) pd B)) + (unat start - 4096 * B)) ?bs"
        by (simp only: r2(4) off(1) flip: p(3))
      show "va \<le> unat start" "4096 * B \<le> unat start" using la'(3) by simp_all
      show "unat start + length ?bs \<le> 4096 * (B + 1)" using n la'(4) by simp
      show "?bs ! i = val (unat start + i)" if "i < length ?bs" for i
        using that c'(2) [of i] n by simp
    qed
    then have pr2: "progress ops pd perm A (B + 1) va (unat start + unat ?n) val s0 s2" by simp
    have sum: "unat start + unat ?n = min (unat en) (4096 * (B + 1))" using n lt la'(4) by simp
    have st: "unat (start + ?n) = min (unat en) (4096 * (B + 1))" "unat (offset + ?n) = unat offset + unat ?n"
    proof -
      show "unat (start + ?n) = min (unat en) (4096 * (B + 1))" using sum en(2) by (subst unat_add_u32) simp_all
      show "unat (offset + ?n) = unat offset + unat ?n" using on small [OF g'] by (subst unat_add_u32) simp_all
    qed
    have step: "fill_loop rd m perm en start la offset page s = fill_loop rd m perm en (start + ?n) (la + PGSIZE) (offset + ?n) (Some p) s2"
      using lt u(1) Some p(1) r2(1) by (subst fill_loop.simps) (simp add: word_less_nat_alt Let_def)
    have sn: "unat start + unat ?n = unat (start + ?n)" using st(1) sum by simp
    show ?thesis
    proof (cases "unat en \<le> 4096 * (B + 1)")
      case True
      then have e: "start + ?n = en" using st(1) by (simp add: word_unat_eq_iff)
      have EB: "E = B + 1" using True B(2) unfolding E by simp
      have "fill_loop rd m perm en start la offset page s = Some ((0, en, la + PGSIZE, Some p), s2)"
        unfolding step e by (subst fill_loop.simps) simp
      moreover have "progress ops pd perm A E va (unat en) val s0 s2" using pr2 sn e EB by simp
      ultimately show ?thesis using r2(2,3) la4 p(3) EB
        by (intro exI [of _ 0] exI [of _ en] exI [of _ "la + PGSIZE"] exI [of _ "Some p"] exI [of _ s2]) simp
    next
      case False
      then have s4: "unat (start + ?n) = 4096 * (B + 1)" using st(1) by simp
      have va: "va \<le> 4096 * (B + 1)" using la'(3,4) by simp
      have "\<exists>ret start' la' page' s'. fill_loop rd m perm en (start + ?n) (la + PGSIZE) (offset + ?n) (Some p) s2 = Some ((ret, start', la', page'), s') \<and>
        good I s' \<and>
        (if ret = 0 then start' = en \<and> unat la' = 4096 * E \<and> B + 1 < E \<and> page' = Some (frame_at (pgs (ovm s')) pd (E - 1)) \<and>
           progress ops pd perm A E va (unat en) val s0 s'
         else ret = fail_code E_NO_MEM \<and> out_of_memory ops pd perm A E va val s0 s')"
      proof (rule less.hyps)
        show "unat en - unat (start + ?n) < unat en - unat start" using s4 la'(4) lt by simp
        show "progress ops pd perm A (B + 1) va (unat (start + ?n)) val s0 s2" using pr2 sn by simp
        show "unat (start + ?n) = max va (4096 * (B + 1))" using s4 va by simp
        show "\<And>n. B + 1 \<le> n \<Longrightarrow> n < E \<Longrightarrow> \<not> live (pte_at (pgs (ovm s0)) pd n)" using free' by simp
        show "unat (offset + ?n) + (unat en - unat (start + ?n)) \<le> psize" using c'(1) st(2) sn False s4 by simp
        show "\<And>i. i < unat en - unat (start + ?n) \<Longrightarrow> val (unat (start + ?n) + i) = content (unat (offset + ?n) + i)"
          using c'(2) [of "unat ?n + _"] sn st(2) by (simp add: add.assoc [symmetric] less_diff_conv)
      qed (use r2(2) la4 la'(2) s4 False in simp_all)
      then obtain ret z l pg s' where "fill_loop rd m perm en (start + ?n) (la + PGSIZE) (offset + ?n) (Some p) s2 = Some ((ret, z, l, pg), s')"
        "good I s'" "if ret = 0 then z = en \<and> unat l = 4096 * E \<and> B + 1 < E \<and> pg = Some (frame_at (pgs (ovm s')) pd (E - 1)) \<and>
           progress ops pd perm A E va (unat en) val s0 s'
         else ret = fail_code E_NO_MEM \<and> out_of_memory ops pd perm A E va val s0 s'" by blast
      then show ?thesis unfolding step using B(2)
        by (intro exI [of _ ret] exI [of _ z] exI [of _ l] exI [of _ pg] exI [of _ s']) (auto split: if_splits)
    qed
  qed
qed

end


text \<open>The second loop is the first one with a reader that gives zeros.\<close>

definition zero_reader :: "'d names name_ops \<Rightarrow> 'd reader" where
  "zero_reader ops a k offset s = Some (0, zero_part ops a k s)"

lemma zero_loop_fill:
  assumes "unat la = 4096 * B" "4096 * B \<le> unat start" "unat start < 4096 * (B + 1)" "unat en \<le> 0x80000000" "unat start < unat en"
  shows "zero_loop ops m perm en start la s =
    map_option (\<lambda>((r, _, _, _), s'). (r, s')) (fill_loop (zero_reader ops) m perm en start la offset page s)"
  using assms
proof (induction "unat en - unat start" arbitrary: start la offset page s B rule: less_induct)
  case less
  note la = less.prems
  have B: "B < 524288" using la by simp
  have la4: "unat (la + PGSIZE) = 4096 * (B + 1)" using la(1) B by (subst unat_add_u32) (simp_all add: PGSIZE_def)
  let ?n = "part_size (start - la) (la + PGSIZE) en"
  have n: "unat ?n = min (unat en) (4096 * (B + 1)) - unat start"
    using part_size_ok [of la start en] la B by (simp add: algebra_simps)
  have st: "unat (start + ?n) = min (unat en) (4096 * (B + 1))" using n la by (subst unat_add_u32) simp_all
  have lt: "start < en" using la(5) by (simp add: word_less_nat_alt)
  have next_eq: "zero_loop ops m perm en (start + ?n) (la + PGSIZE) t =
      map_option (\<lambda>((r, _, _, _), s'). (r, s')) (fill_loop (zero_reader ops) m perm en (start + ?n) (la + PGSIZE) (offset + ?n) (Some p) t)" for p t
  proof (cases "unat en \<le> 4096 * (B + 1)")
    case True
    then have "start + ?n = en" using st by (simp add: word_unat_eq_iff)
    then show ?thesis by (simp add: zero_loop.simps fill_loop.simps)
  next
    case False
    then show ?thesis using less.hyps [of "start + ?n" "la + PGSIZE" "B + 1" t "offset + ?n" "Some p"] st la la4 by simp
  qed
  show ?case
  proof (cases "user_page m la perm s")
    case None
    then show ?thesis using lt by (simp add: zero_loop.simps fill_loop.simps)
  next
    case (Some x)
    obtain r s1 where x: "x = (r, s1)" by (cases x)
    show ?thesis
    proof (cases r)
      case None
      then show ?thesis using lt Some x by (simp add: zero_loop.simps fill_loop.simps)
    next
      case r: (Some p)
      show ?thesis
      proof (cases "page2kva p")
        case None
        then show ?thesis using lt Some x r by (simp add: zero_loop.simps fill_loop.simps)
      next
        case (Some kva)
        have "zero_loop ops m perm en start la s = zero_loop ops m perm en (start + ?n) (la + PGSIZE) (zero_part ops (kva + (start - la)) ?n s1)"
          using lt \<open>user_page m la perm s = Some x\<close> x r Some by (subst zero_loop.simps) (simp add: Let_def)
        moreover have "fill_loop (zero_reader ops) m perm en start la offset page s =
            fill_loop (zero_reader ops) m perm en (start + ?n) (la + PGSIZE) (offset + ?n) (Some p) (zero_part ops (kva + (start - la)) ?n s1)"
          using lt \<open>user_page m la perm s = Some x\<close> x r Some by (subst fill_loop.simps) (simp add: Let_def zero_reader_def)
        ultimately show ?thesis using next_eq by simp
      qed
    qed
  qed
qed

sublocale program_reader \<subseteq> zeros: program_reader ops "zero_reader ops" "\<lambda>_. 0" "2 ^ 32 - 1" good
proof unfold_locales
  show "os_mem ops (set_os_mem ops b s) = b" for b s by (rule mem_law)
  show "good I (s\<lparr>ovm := v\<rparr>)" if "good I s" for I s v using that by (rule good_vm)
  show "good I (zero_part ops a k s)" if "good I s" "p < npage" "p \<notin> I" "unat a = unat (page2pa p) + off" "off + unat k \<le> 4096"
    for I s p a k off using that by (rule good_zero)
  show "\<exists>s'. zero_reader ops a k ofst s = Some (0, s') \<and> good I s' \<and> ovm s' = ovm s \<and>
      os_mem ops s' = poke (os_mem ops s) (unat a) (map (\<lambda>_. 0) [unat ofst..<unat ofst + unat k])"
    if "good I s" "p < npage" "p \<notin> I" "unat a = unat (page2pa p) + off" "off + unat k \<le> 4096" for I s p a k off ofst
    using good_zero [OF that] zero_part_ok [of a k s] by (simp add: zero_reader_def map_replicate_const)
qed simp


context program_reader begin

text \<open>The second loop, from the end of the file's bytes or of its last page.\<close>

lemma zero_tail:
  assumes pr: "progress ops pd perm A B va (unat start) val s0 s" and g: "good I s" "I \<subseteq> used (pgs (ovm s0))"
    and st: "unat start = unat en \<and> B = E \<or> unat la = 4096 * B \<and> unat start = max va (4096 * B) \<and> unat start < 4096 * (B + 1) \<and> unat start < unat en"
    and A: "A \<le> B" "A = va div 4096" and en: "unat en \<le> 0x80000000" "E = (unat en + 4095) div 4096"
    and free: "\<And>n. B \<le> n \<Longrightarrow> n < E \<Longrightarrow> \<not> live (pte_at (pgs (ovm s0)) pd n)"
    and perm: "perm AND NOT 0xFFF = 0" and m: "pgdir (mms (ovm s0) m) = Some pd"
    and v: "\<And>x. unat start \<le> x \<Longrightarrow> val x = 0"
  shows "\<exists>ret s'. zero_loop ops m perm en start la s = Some (ret, s') \<and> good I s' \<and>
    (if ret = 0 then progress ops pd perm A E va (unat en) val s0 s'
     else ret = fail_code E_NO_MEM \<and> out_of_memory ops pd perm A E va val s0 s')"
  using st
proof
  assume e: "unat start = unat en \<and> B = E"
  then have "zero_loop ops m perm en start la s = Some (0, s)" by (simp add: zero_loop.simps word_less_nat_alt)
  then show ?thesis using pr g(1) e by auto
next
  assume e: "unat la = 4096 * B \<and> unat start = max va (4096 * B) \<and> unat start < 4096 * (B + 1) \<and> unat start < unat en"
  then have e': "unat la = 4096 * B" "unat start = max va (4096 * B)" "unat start < 4096 * (B + 1)" "unat start < unat en" by blast+
  have "unat (0 :: u32) + (unat en - unat start) \<le> 2 ^ 32 - 1" using en(1) by simp
  then obtain ret z l pg s' where r: "fill_loop (zero_reader ops) m perm en start la 0 None s = Some ((ret, z, l, pg), s')" "good I s'"
    "if ret = 0 then z = en \<and> unat l = 4096 * E \<and> B < E \<and> pg = Some (frame_at (pgs (ovm s')) pd (E - 1)) \<and>
       progress ops pd perm A E va (unat en) val s0 s'
     else ret = fail_code E_NO_MEM \<and> out_of_memory ops pd perm A E va val s0 s'"
    using zeros.fill_loop_ok [OF pr g e'(1) A e'(2-4) en(1,2) free perm m, of 0 None] v by auto
  have "zero_loop ops m perm en start la s = Some (ret, s')"
    using zero_loop_fill [of la B start en ops m perm s 0 None] e' en(1) r(1) by simp
  then show ?thesis using r(2,3) by (intro exI [of _ ret] exI [of _ s']) (auto split: if_splits)
qed

text \<open>The rest of the last page with bytes of the file.\<close>

lemma zero_head_ok:
  assumes pr: "progress ops pd perm A (B + 1) va (unat start) val s0 s" and g: "good I s" "I \<subseteq> used (pgs (ovm s0))"
    and st: "unat la = 4096 * (B + 1)" "4096 * B \<le> unat start" "unat start < 4096 * (B + 1)" "va \<le> unat start" "unat start < unat en"
    and A: "A \<le> B" "B < 2 ^ 20 - 1" "A = va div 4096" and v: "\<And>x. unat start \<le> x \<Longrightarrow> val x = 0"
  shows "\<exists>z s'. zero_head ops en start la (Some (frame_at (pgs (ovm s)) pd B)) s = Some (z, s') \<and> unat z = min (unat en) (4096 * (B + 1)) \<and>
    good I s' \<and> progress ops pd perm A (B + 1) va (unat z) val s0 s'"
proof -
  let ?p = "frame_at (pgs (ovm s)) pd B"
  have p: "?p < npage" "?p \<notin> I" using grownD [OF progressD(2) [OF pr], of B] A(1,2) g(2) by auto
  define lb where "lb = la - PGSIZE"
  have lb: "unat lb = 4096 * B" "la = lb + PGSIZE" unfolding lb_def using st(1) by (simp_all add: unat_sub_u32 PGSIZE_def)
  let ?n = "part_size (start + PGSIZE - la) la en"
  have o': "start + PGSIZE - la = start - lb" by (simp add: lb_def)
  have n: "unat ?n = min (unat en) (4096 * (B + 1)) - unat start"
    using part_size_ok [of lb start en] lb st A(2) unfolding o' by (simp add: algebra_simps)
  have off: "unat (page2pa ?p + (start + PGSIZE - la)) = unat (page2pa ?p) + (unat start - 4096 * B)" "unat start - 4096 * B + unat ?n \<le> 4096"
  proof -
    have "unat (start - lb) = unat start - 4096 * B" using lb(1) st(2) by (subst unat_sub_u32) auto
    then show "unat (page2pa ?p + (start + PGSIZE - la)) = unat (page2pa ?p) + (unat start - 4096 * B)"
      unfolding o' using p(1) st(3) by (subst unat_add_u32) (simp_all add: unat_page2pa npage_def)
    show "unat start - 4096 * B + unat ?n \<le> 4096" using n st(2,3) by simp
  qed
  have sum: "unat start + unat ?n = min (unat en) (4096 * (B + 1))" using n st by simp
  have z: "unat (start + ?n) = min (unat en) (4096 * (B + 1))" using sum A(2) by (subst unat_add_u32) simp_all
  let ?s = "zero_part ops (page2pa ?p + (start + PGSIZE - la)) ?n s"
  have "en < la \<and> start + ?n = en \<or> la \<le> en \<and> start + ?n = la"
    using z st(1) by (auto simp: word_less_nat_alt word_le_nat_alt word_unat_eq_iff min_def)
  then have "zero_head ops en start la (Some ?p) s = Some (start + ?n, ?s)" using p(1) by (simp add: zero_head_def Let_def)
  moreover have "progress ops pd perm A (B + 1) va (unat start + length (replicate (unat ?n) (0 :: u8))) val s0 ?s"
  proof (rule progress_more [OF pr A(1) _ A(3) zero_part_ok(1)])
    show "os_mem ops ?s = poke (os_mem ops s) (unat (page2pa ?p) + (unat start - 4096 * B)) (replicate (unat ?n) 0)"
      by (simp only: zero_part_ok(2) off(1))
  qed (use A(2) st sum v in simp_all)
  ultimately show ?thesis using good_zero [OF g(1) p off] z sum by auto
qed

text \<open>Both loops.\<close>

lemma segment_loaded:
  fixes ph :: proghdr and s0 :: "'d names os_state"
  defines "va \<equiv> unat (p_va ph)" and "F \<equiv> unat (p_va ph) + unat (p_filesz ph)" and "M \<equiv> unat (p_va ph) + unat (p_memsz ph)"
  assumes sp: "space_ok (pgs (ovm s0)) pd" "free_unref (pgs (ovm s0))" "pgdir (mms (ovm s0) m) = Some pd"
    and g: "good I s0" "I \<subseteq> used (pgs (ovm s0))"
    and ph: "p_filesz ph \<le> p_memsz ph" "0 < p_memsz ph" "M \<le> 0x80000000" "unat (p_offset ph) + unat (p_filesz ph) \<le> psize"
    and E: "A = va div 4096" "E = (M + 4095) div 4096"
    and free: "\<And>n. A \<le> n \<Longrightarrow> n < E \<Longrightarrow> \<not> live (pte_at (pgs (ovm s0)) pd n)"
    and perm: "perm AND NOT 0xFFF = 0"
    and val: "val = (\<lambda>x. if x < F then content (unat (p_offset ph) + (x - va)) else 0)"
  shows "\<exists>ret s'. segment_pages ops rd m ph perm s0 = Some (ret, s') \<and> good I s' \<and>
    (if ret = 0 then progress ops pd perm A E va M val s0 s'
     else ret = fail_code E_NO_MEM \<and> out_of_memory ops pd perm A E va val s0 s')" (is "\<exists>ret s'. ?prog = Some (ret, s') \<and> ?R ret s'")
proof -
  let ?e1 = "p_va ph + p_filesz ph" let ?en = "p_va ph + p_memsz ph"
  have fm: "unat (p_filesz ph) \<le> unat (p_memsz ph)" "0 < unat (p_memsz ph)"
    using ph(1,2) by (simp_all add: word_le_nat_alt word_less_nat_alt)
  have FM: "F \<le> M" "va < M" "va \<le> F" using fm by (simp_all add: F_def M_def va_def)
  have e: "unat ?e1 = F" "unat ?en = M" using fm ph(3) by (simp_all add: unat_add_u32 F_def M_def)
  have la0: "unat (rounddown_2n (p_va ph) 12) = 4096 * A" by (simp add: unat_rounddown E(1) va_def)
  have A4: "4096 * A \<le> va" "va < 4096 * (A + 1)" unfolding E(1) by simp_all
  have AE: "A < E" using FM(2) unfolding E by simp
  have pr0: "progress ops pd perm A A va va val s0 s0" using grown_refl [OF sp(1,2)] by (auto simp: progress_def)
  have v0: "val x = 0" if "F \<le> x" for x using that by (simp add: val)
  have start0: "unat (p_va ph) = va" by (simp add: va_def)
  show ?thesis
  proof (cases "p_filesz ph = 0")
    case True
    then have F: "F = va" by (simp add: F_def va_def)
    have nl: "\<not> p_va ph < rounddown_2n (p_va ph) 12" using la0 A4 by (simp add: word_less_nat_alt start0)
    have p: "?prog = zero_loop ops m perm ?en (p_va ph) (rounddown_2n (p_va ph) 12) s0"
      using nl True unfolding segment_pages_def by (subst fill_loop.simps) simp
    have t: "unat (rounddown_2n (p_va ph) 12) = 4096 * A \<and> unat (p_va ph) = max va (4096 * A) \<and> unat (p_va ph) < 4096 * (A + 1) \<and> unat (p_va ph) < unat ?en"
      using la0 A4 FM(2) by (simp add: start0 e)
    have "\<exists>ret s'. zero_loop ops m perm ?en (p_va ph) (rounddown_2n (p_va ph) 12) s0 = Some (ret, s') \<and> good I s' \<and>
      (if ret = 0 then progress ops pd perm A E va (unat ?en) val s0 s'
       else ret = fail_code E_NO_MEM \<and> out_of_memory ops pd perm A E va val s0 s')"
    proof (rule zero_tail [OF _ g disjI2 [OF t] order_refl E(1)])
      show "progress ops pd perm A A va (unat (p_va ph)) val s0 s0" using pr0 by (simp add: start0)
      show "unat ?en \<le> 0x80000000" "E = (unat ?en + 4095) div 4096" using ph(3) E(2) by (simp_all add: e)
      show "\<And>n. A \<le> n \<Longrightarrow> n < E \<Longrightarrow> \<not> live (pte_at (pgs (ovm s0)) pd n)" using free by blast
      show "\<And>x. unat (p_va ph) \<le> x \<Longrightarrow> val x = 0" using v0 by (simp add: start0 F)
    qed (fact perm sp(3))+
    then show ?thesis unfolding p e(2) .
  next
    case False
    then have vF: "va < F" unfolding F_def va_def by (simp add: unat_gt_0)
    let ?E1 = "(F + 4095) div 4096"
    have E1: "?E1 \<le> E" using FM(1) unfolding E by (simp add: div_le_mono)
    obtain ret z l pg s1 where r: "fill_loop rd m perm ?e1 (p_va ph) (rounddown_2n (p_va ph) 12) (p_offset ph) None s0 = Some ((ret, z, l, pg), s1)" "good I s1"
      "if ret = 0 then z = ?e1 \<and> unat l = 4096 * ?E1 \<and> A < ?E1 \<and> pg = Some (frame_at (pgs (ovm s1)) pd (?E1 - 1)) \<and>
         progress ops pd perm A ?E1 va F val s0 s1
       else ret = fail_code E_NO_MEM \<and> out_of_memory ops pd perm A ?E1 va val s0 s1"
    proof -
      have "\<exists>ret z l pg s1. fill_loop rd m perm ?e1 (p_va ph) (rounddown_2n (p_va ph) 12) (p_offset ph) None s0 = Some ((ret, z, l, pg), s1) \<and> good I s1 \<and>
        (if ret = 0 then z = ?e1 \<and> unat l = 4096 * ?E1 \<and> A < ?E1 \<and> pg = Some (frame_at (pgs (ovm s1)) pd (?E1 - 1)) \<and>
         progress ops pd perm A ?E1 va (unat ?e1) val s0 s1
        else ret = fail_code E_NO_MEM \<and> out_of_memory ops pd perm A ?E1 va val s0 s1)"
      proof (rule fill_loop_ok [OF _ g la0 order_refl E(1)])
        show "progress ops pd perm A A va (unat (p_va ph)) val s0 s0" using pr0 by (simp add: start0)
        show "unat (p_va ph) = max va (4096 * A)" "unat (p_va ph) < 4096 * (A + 1)" using A4 by (simp_all add: start0)
        show "unat (p_va ph) < unat ?e1" "unat ?e1 \<le> 0x80000000" "?E1 = (unat ?e1 + 4095) div 4096" using vF FM(1) ph(3) by (simp_all add: e start0)
        show "\<And>n. A \<le> n \<Longrightarrow> n < ?E1 \<Longrightarrow> \<not> live (pte_at (pgs (ovm s0)) pd n)" using free E1 by simp
        show "unat (p_offset ph) + (unat ?e1 - unat (p_va ph)) \<le> psize" using ph(4) by (simp add: e F_def)
        show "\<And>i. i < unat ?e1 - unat (p_va ph) \<Longrightarrow> val (unat (p_va ph) + i) = content (unat (p_offset ph) + i)"
          unfolding e start0 by (auto simp: val)
      qed (fact perm sp(3))+
      then show thesis using that unfolding e(1) by blast
    qed
    show ?thesis
    proof (cases "ret = 0")
      case False
      have "?prog = Some (ret, s1)" using r(1) False by (simp add: segment_pages_def)
      moreover have "?R ret s1" using r(2,3) out_of_memory_more [OF _ E1] unfolding if_not_P [OF False] by blast
      ultimately show ?thesis by blast
    next
      case ret: True
      have z: "unat z = F" "unat l = 4096 * ?E1" "A < ?E1" "pg = Some (frame_at (pgs (ovm s1)) pd (?E1 - 1))" "progress ops pd perm A ?E1 va F val s0 s1"
        using r(3) ret e(1) by auto
      have Fl: "F \<le> 4096 * ?E1" "4096 * (?E1 - 1) < F" using vF by simp_all
      show ?thesis
      proof (cases "z < l \<and> ?en \<le> z")
        case True
        then have "F = M" using FM(1) z(1) e(2) by (simp add: word_le_nat_alt)
        moreover have "?prog = Some (0, s1)" using r(1) ret True by (simp add: segment_pages_def)
        ultimately show ?thesis using z(5) r(2) E by auto
      next
        case go: False
        obtain B where B: "?E1 = B + 1" "A \<le> B" using z(3) by (cases ?E1) auto
        have B2: "B < 524288" using Fl(2) FM(1) ph(3) B(1) by simp
        have frB: "\<not> live (pte_at (pgs (ovm s0)) pd n)" if "?E1 \<le> n" "n < E" for n using free [of n] that z(3) by simp
        have "\<exists>z' s2. (if z < l then zero_head ops ?en z l pg s1 else Some (z, s1)) = Some (z', s2) \<and> good I s2 \<and> F \<le> unat z' \<and>
          progress ops pd perm A ?E1 va (unat z') val s0 s2 \<and>
          (unat z' = unat ?en \<and> ?E1 = E \<or> unat l = 4096 * ?E1 \<and> unat z' = max va (4096 * ?E1) \<and> unat z' < 4096 * (?E1 + 1) \<and> unat z' < unat ?en)"
        proof (cases "z < l")
          case True
          then have lt: "F < M" "F < 4096 * ?E1" using go z(1,2) e(2) by (simp_all add: word_less_nat_alt word_le_nat_alt)
          obtain z' s2 where h: "zero_head ops ?en z l pg s1 = Some (z', s2)" "unat z' = min M (4096 * ?E1)" "good I s2"
            "progress ops pd perm A ?E1 va (unat z') val s0 s2"
            using zero_head_ok [of pd perm A B va z val s0 s1 I l ?en] z g(2) r(2) B B2 lt Fl(2) FM(3) E(1) v0 e(2) by auto
          have "unat z' = unat ?en \<and> ?E1 = E \<or> unat l = 4096 * ?E1 \<and> unat z' = max va (4096 * ?E1) \<and> unat z' < 4096 * (?E1 + 1) \<and> unat z' < unat ?en"
          proof (cases "M \<le> 4096 * ?E1")
            case True
            then have "E \<le> ?E1" unfolding E by arith
            then show ?thesis using True E1 h(2) e(2) by simp
          next
            case False
            then show ?thesis using h(2) z(2) e(2) Fl(1) FM(3) by simp
          qed
          moreover have "F \<le> unat z'" using h(2) Fl(1) FM(1) by simp
          moreover have "(if z < l then zero_head ops ?en z l pg s1 else Some (z, s1)) = Some (z', s2)" using True h(1) by simp
          ultimately show ?thesis using h(3,4) by blast
        next
          case nl: False
          then have eq: "F = 4096 * ?E1" using z(1,2) Fl(1) by (simp add: word_less_nat_alt)
          have "unat z = unat ?en \<and> ?E1 = E \<or> unat l = 4096 * ?E1 \<and> unat z = max va (4096 * ?E1) \<and> unat z < 4096 * (?E1 + 1) \<and> unat z < unat ?en"
          proof (cases "F = M")
            case True then show ?thesis using E e(2) z(1) by simp
          next
            case False then show ?thesis using eq FM z(1,2) e(2) by simp
          qed
          moreover have "(if z < l then zero_head ops ?en z l pg s1 else Some (z, s1)) = Some (z, s1)" using nl by simp
          moreover have "F \<le> unat z" "progress ops pd perm A ?E1 va (unat z) val s0 s1" using z(1,5) by simp_all
          ultimately show ?thesis using r(2) by blast
        qed
        then obtain z' s2 where h: "(if z < l then zero_head ops ?en z l pg s1 else Some (z, s1)) = Some (z', s2)" "good I s2" "F \<le> unat z'"
          "progress ops pd perm A ?E1 va (unat z') val s0 s2"
          "unat z' = unat ?en \<and> ?E1 = E \<or> unat l = 4096 * ?E1 \<and> unat z' = max va (4096 * ?E1) \<and> unat z' < 4096 * (?E1 + 1) \<and> unat z' < unat ?en" by blast
        have p: "?prog = zero_loop ops m perm ?en z' l s2" using r(1) ret by (simp add: segment_pages_def Let_def if_not_P [OF go] h(1))
        have "\<exists>ret s'. zero_loop ops m perm ?en z' l s2 = Some (ret, s') \<and> good I s' \<and>
          (if ret = 0 then progress ops pd perm A E va (unat ?en) val s0 s'
           else ret = fail_code E_NO_MEM \<and> out_of_memory ops pd perm A E va val s0 s')"
        proof (rule zero_tail [OF h(4,2) g(2) h(5) _ E(1)])
          show "A \<le> ?E1" using z(3) by simp
          show "unat ?en \<le> 0x80000000" "E = (unat ?en + 4095) div 4096" using ph(3) E(2) by (simp_all add: e)
          show "\<And>n. ?E1 \<le> n \<Longrightarrow> n < E \<Longrightarrow> \<not> live (pte_at (pgs (ovm s0)) pd n)" using frB by blast
          show "\<And>x. unat z' \<le> x \<Longrightarrow> val x = 0" using v0 h(3) by simp
        qed (fact perm sp(3))+
        then show ?thesis unfolding p e(2) .
      qed
    qed
  qed
qed

end

section \<open>The area\<close>

lemma mm_map_keeps:
  assumes "mm_map (Some m) addr len fl s = Some (r, v, s')"
  shows "pgdir (mms s' k) = pgdir (mms s k) \<and> pgs s' = pgs s"
    "r = 0 \<Longrightarrow> USER_ACCESS (rounddown_2n addr 12) (roundup_2n (addr + len) 12)"
proof -
  let ?same = "\<lambda>t t'. pgdir (mms t' k) = pgdir (mms t k) \<and> pgs t' = pgs t"
  have f: "\<And>t a. ?same t (snd (find_vma (Some m) a t))"
    by (simp add: find_vma_def Let_def)
  have c: "\<And>t a b c. ?same t (snd (vma_create a b c t))"
    by (simp add: vma_create_def kmalloc_obj_def split: list.split option.split)
  have i: "?same t t'" if "insert_vma_struct m w t = Some t'" for w t t'
    using that by (auto simp: insert_vma_struct_def Let_def bind_eq_Some_conv split: list.splits if_splits)
  show "?same s s'"
  proof (cases "USER_ACCESS (rounddown_2n addr 12) (roundup_2n (addr + len) 12)")
    case True
    obtain q s1 where q: "find_vma (Some m) (rounddown_2n addr 12) s = (q, s1)" by fastforce
    obtain w s2 where w: "vma_create (rounddown_2n addr 12) (roundup_2n (addr + len) 12) fl s1 = (w, s2)" by fastforce
    have "?same s s1" "?same s1 s2" using f [of "rounddown_2n addr 12" s] c [of "rounddown_2n addr 12" "roundup_2n (addr + len) 12" fl s1] q w by simp_all
    moreover have "s' = s1 \<or> s' = s2 \<or> (\<exists>w. insert_vma_struct m w s2 = Some s')"
      using assms True by (auto simp: mm_map_def Let_def q w bind_eq_Some_conv split: option.splits if_splits)
    ultimately show ?thesis using i by auto
  qed (use assms in \<open>simp add: mm_map_def Let_def\<close>)
  show "USER_ACCESS (rounddown_2n addr 12) (roundup_2n (addr + len) 12)" if "r = 0"
    by (rule ccontr) (use assms that in \<open>simp add: mm_map_def Let_def\<close>)
qed

lemma up_to_page: "x \<le> (x + 4095) div 4096 * 4096" for x :: nat
proof -
  have "(x + 4095) div 4096 * 4096 + (x + 4095) mod 4096 = x + 4095" by (rule div_mult_mod_eq)
  moreover have "(x + 4095) mod 4096 < 4096" by simp
  ultimately show ?thesis by linarith
qed

lemma roundup_range:
  assumes "USER_ACCESS st (roundup_2n a 12)"
  shows "unat a \<le> 0x80000000"
proof (rule ccontr)
  assume a: "\<not> ?thesis"
  have u: "0 < unat (roundup_2n a 12)" "unat (roundup_2n a 12) \<le> 0x80000000"
    using assms by (auto simp: USER_ACCESS_def USERBASE_def USERTOP_def word_le_nat_alt word_less_nat_alt)
  show False
  proof (cases "unat a + 2 ^ 12 - 1 < 4294967296")
    case True
    then have "unat (roundup_2n a 12) = (unat a + 4095) div 4096 * 4096" using unat_roundup [of 12 a] by simp
    moreover note up_to_page [of "unat a"]
    ultimately show False using a u(2) by linarith
  next
    case False
    have "unat (a + push_bit 12 1 - 1) < 4096"
    proof -
      have e: "a + push_bit 12 1 - 1 = a + 4095" by simp
      have "unat (a + 4095) = (unat a + 4095) mod 4294967296" by (simp add: unat_word_ariths)
      also have "\<dots> = (unat a + 4095 - 4294967296) mod 4294967296" by (rule le_mod_geq) (use False in simp)
      also have "\<dots> \<le> unat a + 4095 - 4294967296" by (rule mod_less_eq_dividend)
      finally have "unat (a + 4095) \<le> unat a + 4095 - 4294967296" .
      then show ?thesis unfolding e using unat_u32_bound [of a] by linarith
    qed
    then have "unat (roundup_2n a 12) = 0" by (simp add: roundup_2n_def unat_rounddown)
    then show False using u(1) by simp
  qed
qed

lemma segment_perm_low: "perm AND NOT 0xFFF = 0 \<Longrightarrow> segment_perm f perm AND NOT 0xFFF = 0"
  by (simp add: segment_perm_def Let_def bit.conj_disj_distrib2 pte_flags)

text \<open>What a loaded segment is: from its address on the bytes of the file, then zeros.\<close>

definition segment_byte :: "proghdr \<Rightarrow> (nat \<Rightarrow> u8) \<Rightarrow> nat \<Rightarrow> u8" where
  "segment_byte ph content x = (if x < unat (p_va ph) + unat (p_filesz ph) then content (unat (p_offset ph) + (x - unat (p_va ph))) else 0)"

context program_reader begin

lemma load_segment_ok:
  fixes ph :: proghdr and s :: "'d names os_state"
  defines "va \<equiv> unat (p_va ph)" and "M \<equiv> unat (p_va ph) + unat (p_memsz ph)"
  assumes vm: "mm_ok (ovm s) m" "heap_ok (ovm s)" "pgdir (mms (ovm s) m) = Some pd" "space_ok (pgs (ovm s)) pd" "free_unref (pgs (ovm s))"
    and g: "good I s" "I \<subseteq> used (pgs (ovm s))"
    and ph: "p_filesz ph \<le> p_memsz ph" "0 < p_memsz ph" "M < 2 ^ 32" "unat (p_offset ph) + unat (p_filesz ph) \<le> psize"
    and E: "A = va div 4096" "E = (M + 4095) div 4096"
    and free: "\<And>n. A \<le> n \<Longrightarrow> n < E \<Longrightarrow> \<not> live (pte_at (pgs (ovm s)) pd n)"
    and perm: "perm AND NOT 0xFFF = 0"
  shows "\<exists>r w v ret s'. mm_map (Some m) (p_va ph) (p_memsz ph) (segment_flags (p_flags ph)) (ovm s) = Some (r, w, v) \<and>
    load_segment ops rd m ph perm s = Some ((ret, segment_perm (segment_flags (p_flags ph)) perm), s') \<and>
    (if r \<noteq> 0 then ret = r \<and> s' = s\<lparr>ovm := v\<rparr>
     else if ret = 0 then progress ops pd (segment_perm (segment_flags (p_flags ph)) perm) A E va M (segment_byte ph content) (s\<lparr>ovm := v\<rparr>) s'
     else ret = fail_code E_NO_MEM \<and> out_of_memory ops pd (segment_perm (segment_flags (p_flags ph)) perm) A E va (segment_byte ph content) (s\<lparr>ovm := v\<rparr>) s')"
proof -
  let ?fl = "segment_flags (p_flags ph)"
  let ?perm = "segment_perm ?fl perm"
  obtain r w v where mm: "mm_map (Some m) (p_va ph) (p_memsz ph) ?fl (ovm s) = Some (r, w, v)"
    using mm_map_ok [OF vm(1,2) refl refl, of "p_va ph" "p_memsz ph" ?fl] by blast
  note c = mm_map_keeps [OF mm]
  let ?s = "s\<lparr>ovm := v\<rparr>"
  have le: "\<not> p_memsz ph < p_filesz ph" using ph(1) by simp
  show ?thesis
  proof (cases "r = 0")
    case False
    have "load_segment ops rd m ph perm s = Some ((r, ?perm), ?s)"
      using mm False le by (simp add: load_segment_def Let_def)
    then show ?thesis using mm False by auto
  next
    case r: True
    then have ua: "USER_ACCESS (rounddown_2n (p_va ph) 12) (roundup_2n (p_va ph + p_memsz ph) 12)" and pg: "pgs v = pgs (ovm s)"
      using c(1) c(2) [OF r] by simp_all
    have "unat (p_va ph + p_memsz ph) = M" using ph(3) unfolding M_def by (subst unat_add_u32) simp_all
    then have M: "M \<le> 0x80000000" using roundup_range [OF ua] by simp
    have pd: "pgdir (mms v m) = Some pd" using c(1) vm(3) by simp
    have "\<exists>ret s'. segment_pages ops rd m ph ?perm ?s = Some (ret, s') \<and> good I s' \<and>
      (if ret = 0 then progress ops pd ?perm A E va M (segment_byte ph content) ?s s'
       else ret = fail_code E_NO_MEM \<and> out_of_memory ops pd ?perm A E va (segment_byte ph content) ?s s')"
      unfolding va_def M_def
      by (rule segment_loaded [OF _ _ _ good_vm [OF g(1)] _ ph(1,2) _ ph(4) E [unfolded va_def M_def] _ segment_perm_low [OF perm]])
        (use vm(4,5) pd pg g(2) M free in \<open>simp_all add: M_def segment_byte_def fun_eq_iff\<close>)
    then obtain ret s' where p: "segment_pages ops rd m ph ?perm ?s = Some (ret, s')"
      "if ret = 0 then progress ops pd ?perm A E va M (segment_byte ph content) ?s s'
       else ret = fail_code E_NO_MEM \<and> out_of_memory ops pd ?perm A E va (segment_byte ph content) ?s s'" by blast
    have "load_segment ops rd m ph perm s = Some ((ret, ?perm), s')"
      using mm r le p(1) by (simp add: load_segment_def Let_def)
    then show ?thesis using mm r p(2) by auto
  qed
qed

end

section \<open>A program in memory\<close>

text \<open>The bytes \<open>content\<close> of the image lie at \<open>binary\<close>, and in no frame but those of \<open>I\<close>.\<close>

definition image_at :: "u32 \<Rightarrow> (nat \<Rightarrow> u8) \<Rightarrow> nat \<Rightarrow> nat set \<Rightarrow> sys names os_state \<Rightarrow> bool" where
  "image_at binary content psize I s \<longleftrightarrow> unat binary + psize < 2 ^ 32 \<and>
     (\<forall>i<psize. os_mem sys_ops s (unat binary + i) = content i) \<and>
     (\<forall>p<npage. p \<notin> I \<longrightarrow> page_bytes p \<inter> {unat binary..<unat binary + psize} = {})"

lemma sys_mem: "os_mem sys_ops (set_os_mem sys_ops b s) = b"
  by (simp add: os_mem_def set_os_mem_def sys_ops_def mod_sys_def sys_of_def mod_names_def)

lemma image_at_poke:
  assumes "image_at binary content psize I s" "p < npage" "p \<notin> I" "unat a = unat (page2pa p) + off" "off + n \<le> 4096"
    and m: "\<And>x. x < unat a \<or> unat a + n \<le> x \<Longrightarrow> os_mem sys_ops s' x = os_mem sys_ops s x"
  shows "image_at binary content psize I s'"
proof -
  have "unat binary + i \<notin> page_bytes p" if "i < psize" for i
  proof -
    have "page_bytes p \<inter> {unat binary..<unat binary + psize} = {}" using assms(1-3) by (simp add: image_at_def)
    then show ?thesis using that by (meson atLeastLessThan_iff disjoint_iff le_add1 nat_add_left_cancel_less)
  qed
  then have "os_mem sys_ops s' (unat binary + i) = os_mem sys_ops s (unat binary + i)" if "i < psize" for i
    using that assms(4,5) by (intro m) (fastforce simp: page_bytes_def)
  then show ?thesis using assms(1) by (simp add: image_at_def)
qed

interpretation image: program_reader sys_ops "image_read sys_ops binary" content psize "image_at binary content psize"
  for binary content psize
proof unfold_locales
  show "os_mem sys_ops (set_os_mem sys_ops b s) = b" for b and s :: "sys names os_state" by (rule sys_mem)
  show "psize < 2 ^ 32" if "image_at binary content psize I s" for I s using that by (simp add: image_at_def)
  show "image_at binary content psize I (s\<lparr>ovm := v\<rparr>)" if "image_at binary content psize I s" for I s v
    using that by (simp add: image_at_def os_mem_def)
  show "image_at binary content psize I (zero_part sys_ops a k s)"
    if "image_at binary content psize I s" "p < npage" "p \<notin> I" "unat a = unat (page2pa p) + off" "off + unat k \<le> 4096" for I s p a k off
    by (rule image_at_poke [OF that]) (auto simp: zero_part_def sys_mem memset_at)
  fix I s p off and a k ofst :: u32
  assume g: "image_at binary content psize I s" "p < npage" "p \<notin> I" "unat a = unat (page2pa p) + off" "off + unat k \<le> 4096"
    and k: "unat ofst + unat k \<le> psize"
  let ?s = "set_os_mem sys_ops (memcpy (os_mem sys_ops s) (unat a) (unat (binary + ofst)) (unat k)) s"
  have b: "unat (binary + ofst) = unat binary + unat ofst"
    using g(1) k unat_u32_bound [of binary] by (subst unat_add_u32) (simp_all add: image_at_def)
  have "x \<notin> page_bytes p" if "unat binary \<le> x" "x < unat binary + psize" for x
    using g(1-3) that unfolding image_at_def by (auto simp: disjoint_iff)
  then have away: "x < unat a \<or> unat a + unat k \<le> x" if "unat binary \<le> x" "x < unat binary + psize" for x
    using that g(4,5) by (fastforce simp: page_bytes_def)
  have dj: "unat k = 0 \<or> unat a \<le> unat (binary + ofst) \<or> unat (binary + ofst) + unat k \<le> unat a"
    using away [of "unat a"] k b by linarith
  have cp: "memcpy (os_mem sys_ops s) (unat a) (unat (binary + ofst)) (unat k) x =
      (if unat a \<le> x \<and> x < unat a + unat k then os_mem sys_ops s (unat binary + (unat ofst + (x - unat a))) else os_mem sys_ops s x)" for x
    using dj memcpy_at [of "unat a" "unat (binary + ofst)" "unat k"] by (cases "unat k = 0") (auto simp: b add.assoc)
  have ct: "os_mem sys_ops s (unat binary + (unat ofst + (x - unat a))) = content (unat ofst + (x - unat a))"
    if "unat a \<le> x" "x < unat a + unat k" for x
  proof -
    have "unat ofst + (x - unat a) < psize" using that k by linarith
    then show ?thesis using g(1) by (simp add: image_at_def)
  qed
  have "os_mem sys_ops ?s = poke (os_mem sys_ops s) (unat a) (map content [unat ofst..<unat ofst + unat k])"
    unfolding sys_mem by (intro ext) (auto simp only: cp ct poke_def length_map length_upt nth_map nth_upt add_diff_cancel_left' less_diff_conv2 split: if_splits)
  moreover have "image_at binary content psize I ?s"
    by (rule image_at_poke [OF g]) (auto simp: sys_mem cp)
  ultimately show "\<exists>s'. image_read sys_ops binary a k ofst s = Some (0, s') \<and> image_at binary content psize I s' \<and> ovm s' = ovm s \<and>
      os_mem sys_ops s' = poke (os_mem sys_ops s) (unat a) (map content [unat ofst..<unat ofst + unat k])"
    by (intro exI [of _ ?s]) (simp add: image_read_def set_os_mem_def)
qed

text \<open>The permission of a segment: user, writable if its header says so, and what earlier segments have left.\<close>

lemma segment_perm_flags:
  "segment_perm (segment_flags fl) perm = perm OR PTE_U OR (if fl AND ELF_PF_W \<noteq> 0 then PTE_W else 0)"
  by (simp add: segment_perm_def segment_flags_def Let_def VM_READ_def VM_WRITE_def VM_EXEC_def or.assoc)

text \<open>
  C39.  Loading a segment of a program whose image is in memory (the \<^verbatim>\<open>load_icode\<close> of programs linked into
  the kernel, compiled without \<^verbatim>\<open>LAB8_EX2\<close>) always ends, and by one of three ways.  If
  the segment claims more bytes of the file than of memory, it is refused and nothing happens.  If
  \<^verbatim>\<open>mm_map\<close> finds no room for its area, that error is the answer.  Otherwise its pages are
  mapped one by one to distinct frames that were not in use, each entry of the page table with the frame, the
  present bit and the permissions: for users, writable just when the header of the segment says so, and with those bits
  that the variable \<^verbatim>\<open>perm\<close> holds already - none for the first segment, but a writable segment makes every
  later one writable.  The pages are mapped either to the last - always so if twice as many frames and two more are
  free, for the page tables - and then the kernel finds at the frame of each address from \<^verbatim>\<open>p_va\<close> to
  \<^verbatim>\<open>p_va + p_memsz\<close> the byte of the file, and 0 from \<^verbatim>\<open>p_filesz\<close> on; or up to the page
  for which memory has run out, with the error \<^verbatim>\<open>E_NO_MEM\<close>.  In every case no other translation and no byte
  outside those frames changes.  What the caller does with an error is not part of it: \<^verbatim>\<open>load_icode\<close> panics on each.
\<close>

theorem load_segment_exact:
  fixes ph :: proghdr and s :: "sys names os_state" and perm :: u32
  defines "va \<equiv> unat (p_va ph)" and "M \<equiv> unat (p_va ph) + unat (p_memsz ph)"
    and "new_perm \<equiv> perm OR PTE_U OR (if p_flags ph AND ELF_PF_W \<noteq> 0 then PTE_W else 0)"
  assumes "mm_ok (ovm s) m" "heap_ok (ovm s)" "pgdir (mms (ovm s) m) = Some pd" "space_ok (pgs (ovm s)) pd" "free_unref (pgs (ovm s))"
    and image: "image_at binary content psize I s" "I \<subseteq> used (pgs (ovm s))"
    and bounds: "0 < p_memsz ph" "M < 2 ^ 32" "unat (p_offset ph) + unat (p_filesz ph) \<le> psize"
    and fresh: "\<And>n. va div 4096 \<le> n \<Longrightarrow> n < (M + 4095) div 4096 \<Longrightarrow> \<not> live (pte_at (pgs (ovm s)) pd n)"
    and perm: "perm AND NOT 0xFFF = 0"
  shows "if p_memsz ph < p_filesz ph then load_segment sys_ops (image_read sys_ops binary) m ph perm s = Some ((fail_code E_INVAL_ELF, perm), s)
    else \<exists>r w v ret s'. mm_map (Some m) (p_va ph) (p_memsz ph) (segment_flags (p_flags ph)) (ovm s) = Some (r, w, v) \<and>
      load_segment sys_ops (image_read sys_ops binary) m ph perm s = Some ((ret, new_perm), s') \<and>
      (if r \<noteq> 0 then ret = r \<and> s' = s\<lparr>ovm := v\<rparr>
       else if ret = 0 then
         progress sys_ops pd new_perm (va div 4096) ((M + 4095) div 4096) va M (segment_byte ph content) (s\<lparr>ovm := v\<rparr>) s'
       else ret = fail_code E_NO_MEM \<and> frames_left (pgs (ovm s)) \<le> 2 * ((M + 4095) div 4096 - va div 4096) + 1 \<and> out_of_memory sys_ops pd new_perm (va div 4096) ((M + 4095) div 4096) va (segment_byte ph content) (s\<lparr>ovm := v\<rparr>) s')"
proof (cases "p_memsz ph < p_filesz ph")
  case True
  then show ?thesis by (simp add: load_segment_def)
next
  case False
  then have "p_filesz ph \<le> p_memsz ph" by simp
  note image.load_segment_ok [OF assms(4-8) image this bounds(1) bounds(2) [unfolded M_def] bounds(3) refl refl fresh [unfolded va_def M_def] perm,
      unfolded segment_perm_flags, folded va_def M_def new_perm_def]
  then obtain r w v ret s' where l: "mm_map (Some m) (p_va ph) (p_memsz ph) (segment_flags (p_flags ph)) (ovm s) = Some (r, w, v)"
    "load_segment sys_ops (image_read sys_ops binary) m ph perm s = Some ((ret, new_perm), s')"
    "if r \<noteq> 0 then ret = r \<and> s' = s\<lparr>ovm := v\<rparr>
     else if ret = 0 then progress sys_ops pd new_perm (va div 4096) ((M + 4095) div 4096) va M (segment_byte ph content) (s\<lparr>ovm := v\<rparr>) s'
     else ret = fail_code E_NO_MEM \<and> out_of_memory sys_ops pd new_perm (va div 4096) ((M + 4095) div 4096) va (segment_byte ph content) (s\<lparr>ovm := v\<rparr>) s'"
    by blast
  have "pgs v = pgs (ovm s)" using mm_map_keeps(1) [OF l(1)] by simp
  then have "frames_left (pgs (ovm s)) \<le> 2 * ((M + 4095) div 4096 - va div 4096) + 1"
    if "out_of_memory sys_ops pd new_perm (va div 4096) ((M + 4095) div 4096) va (segment_byte ph content) (s\<lparr>ovm := v\<rparr>) s'"
    using out_of_memory_left [OF that] by simp
  then show ?thesis unfolding if_not_P [OF False] using l
    by (intro exI [of _ r] exI [of _ w] exI [of _ v] exI [of _ ret] exI [of _ s']) (auto split: if_splits)
qed

text \<open>A small program: one segment that runs over a page boundary.\<close>

definition demo_loader :: "sys names os_state" where
  "demo_loader = mos demo_machine"

definition demo_segment :: proghdr where
  "demo_segment = \<lparr>p_type = ELF_PT_LOAD, p_offset = 4, p_va = 0x10002ffe, p_pa = 0, p_filesz = 3, p_memsz = 5, p_flags = ELF_PF_R OR ELF_PF_W, p_align = 0\<rparr>"

lemma demo_segment_fields:
  "unat (p_va demo_segment) = 0x10002ffe" "unat (p_offset demo_segment) = 4" "unat (p_filesz demo_segment) = 3"
  "unat (p_memsz demo_segment) = 5" "p_va demo_segment = 0x10002ffe" "p_memsz demo_segment = 5" "p_filesz demo_segment = 3"
  "segment_flags (p_flags demo_segment) = 3" "(0 :: u32) OR PTE_U OR (if p_flags demo_segment AND ELF_PF_W \<noteq> 0 then PTE_W else 0) = PTE_U OR PTE_W"
  by (simp_all add: demo_segment_def segment_flags_def ELF_PF_R_def ELF_PF_W_def ELF_PF_X_def VM_READ_def VM_WRITE_def VM_EXEC_def Let_def)

theorem load_segment_exact_witness:
  "\<exists>s'. load_segment sys_ops (image_read sys_ops 0x1000) 0 demo_segment 0 demo_loader = Some ((0, PTE_U OR PTE_W), s') \<and>
     os_mem sys_ops s' (kaddr (pgs (ovm s')) 0 0x10002fff) = os_mem sys_ops demo_loader 0x1005 \<and>
     os_mem sys_ops s' (kaddr (pgs (ovm s')) 0 0x10003000) = os_mem sys_ops demo_loader 0x1006 \<and>
     os_mem sys_ops s' (kaddr (pgs (ovm s')) 0 0x10003001) = 0"
proof -
  let ?c = "\<lambda>i. os_mem sys_ops demo_loader (0x1000 + i)"
  have d: "ovm demo_loader = demo_space" by (simp add: demo_loader_def demo_machine_sel)
  have sp: "space_ok (pgs demo_space) 0" "free_unref (pgs demo_space)"
    using demo_vmem_ok(1) demo_space_ok(4,5) by simp_all
  have im: "image_at 0x1000 ?c 7 {} demo_loader"
    by (auto simp: image_at_def page_bytes_def unat_page2pa)
  have z: "\<not> live (pte_at (pgs demo_space) 0 n)" for n
    by (simp add: demo_space_ok(4) pte_at_def slot_def demo_vmem_def live_def PTE_P_def)
  have left: "\<not> frames_left (pgs demo_space) \<le> 5" by (simp add: demo_space_ok(4) frames_left_def demo_vmem_phys)
  obtain w v where mm: "mm_map (Some 0) 0x10002ffe 5 3 demo_space = Some (0, w, v)"
  proof -
    have r: "0x10002000 = rounddown_2n 0x10002ffe 12" "0x10004000 = roundup_2n (0x10002ffe + 5) 12"
      by (simp_all add: rounddown_2n_def roundup_2n_def)
    have "USER_ACCESS 0x10002000 0x10004000" by (simp add: USER_ACCESS_def USERBASE_def USERTOP_def)
    moreover have "interval_free demo_space 0 0x10002000 0x10004000" by (simp add: interval_free_def demo_space_def)
    ultimately show thesis using mm_map_ok [OF demo_space_ok(1,2) r, of 3] that by (auto simp: demo_space_ok)
  qed
  note t = load_segment_exact [where s = demo_loader and m = 0 and pd = 0 and binary = "0x1000" and content = ?c and psize = 7 and I = "{}" and
      ph = demo_segment and perm = 0, unfolded d demo_segment_fields mm, OF demo_space_ok(1-3) sp im _ _ _ _ z]
  obtain s' where s': "load_segment sys_ops (image_read sys_ops 0x1000) 0 demo_segment 0 demo_loader = Some ((0, PTE_U OR PTE_W), s')"
    "progress sys_ops 0 (PTE_U OR PTE_W) 0x10002 0x10004 0x10002ffe 0x10003003 (segment_byte demo_segment ?c) (demo_loader\<lparr>ovm := v\<rparr>) s'"
    using t left by (auto split: if_splits)
  from progressD(3) [OF s'(2)] s'(1) show ?thesis
    by (intro exI [of _ s']) (simp add: segment_byte_def demo_segment_fields)
qed

end
