(* ===== verification/Spec2Isabelle.thy ===== *)
theory Spec2Isabelle
  imports Prelude Machine_Arith Linked_List First_Fit Sched_Machine Semaphore Printfmt Proc_Table Tlb User_Access File_Nodes Proc_Fork Slab_Heap Sfs_Remount Vfs_Paths Load_Segment
begin

text \<open>
  A verification development for the software of a LoongArch-32 computer: the kernel uCore under
  \<^verbatim>\<open>sw/ucore/kern\<close>, written in C.  It models the kernel's logic - memory, processes, scheduling,
  synchronisation, file systems and devices, system calls and traps, the loading of programs,
  formatted output and the libraries they rest on - as HOL functions
  on explicit states, and proves for each part the invariant it keeps and what its operations do
  on every branch, error returns and failed assertions included.
\<close>

section \<open>The program and its parts\<close>

text \<open>
  The kernel runs one process at a time on one processor.  A clock tick (\<^verbatim>\<open>sched.c\<close>) counts down
  kernel timers and the time slice; \<^verbatim>\<open>schedule\<close> asks the scheduling class for the next process.  The
  class (\<^verbatim>\<open>default_sched.c\<close>) is the stride scheduler over a skew heap (\<^verbatim>\<open>skew_heap.h\<close>), or round robin
  over a list.  Processes (\<^verbatim>\<open>proc.c\<close>) are created by fork, wait for one another, are killed and
  exit; they block on semaphores built from wait queues (\<^verbatim>\<open>sem.c\<close>, \<^verbatim>\<open>wait.c\<close>).  Each has an address
  space: an ordered list of areas (\<^verbatim>\<open>vmm.c\<close>) above two-level page tables (\<^verbatim>\<open>pmm.c\<close>), which take
  their frames from a first-fit allocator (\<^verbatim>\<open>default_pmm.c\<close>), are filled by page faults, and are
  read by the software TLB refill (\<^verbatim>\<open>la32_tlb.c\<close>).  Each has a table of open files (\<^verbatim>\<open>file.c\<close>,
  \<^verbatim>\<open>fs.c\<close>), shared after a fork that asks for it, whose entries hold reference-counted inodes
  (\<^verbatim>\<open>inode.c\<close>, \<^verbatim>\<open>vfsfile.c\<close>) of the simple file system (\<^verbatim>\<open>fs/sfs\<close>) on a RAM disk (\<^verbatim>\<open>dev_disk0.c\<close>,
  \<^verbatim>\<open>ramdisk.c\<close>).  A path is looked up through the list of named devices (\<^verbatim>\<open>vfslookup.c\<close>, \<^verbatim>\<open>vfsdev.c\<close>),
  which besides the disk holds the console: its input goes from an interrupt (\<^verbatim>\<open>console.c\<close>) to a ring that
  readers sleep on (\<^verbatim>\<open>dev_stdin.c\<close>).  Programs enter the kernel by a trap (\<^verbatim>\<open>trap.c\<close>): a system call
  (\<^verbatim>\<open>syscall.c\<close>) for the process or, with arguments copied from its memory, for its files
  (\<^verbatim>\<open>sysfile.c\<close>), a TLB miss, or an interrupt.  \<^verbatim>\<open>do_execve\<close> replaces a program by one read from a file
  (\<^verbatim>\<open>load_icode\<close>).  Kernel objects come from a slab allocator (\<^verbatim>\<open>kmalloc.c\<close>).  Linked lists (\<^verbatim>\<open>list.h\<close>), strings (\<^verbatim>\<open>string.c\<close>), formatted output
  (\<^verbatim>\<open>printfmt.c\<close>), and division by constants, hashing and random numbers (\<^verbatim>\<open>loongarch.h\<close>, \<^verbatim>\<open>hash.c\<close>,
  \<^verbatim>\<open>rand.c\<close>) serve all of them.
\<close>

section \<open>How the code is modelled\<close>

text \<open>
  C structures are records, enumerations datatypes, 32-bit integers words with C's wrap-around;
  \<^verbatim>\<open>int\<close> values that the invariants bound - counts, pids, error codes - are HOL integers.  An object
  in memory is named by a number standing for its address and its contents are a function on these
  names; a page frame and its descriptor are named by the frame number.  The intrusive lists are
  HOL lists of such names, which \<^verbatim>\<open>Linked_List\<close> justifies: each pointer routine of \<^verbatim>\<open>list.h\<close> is
  proved to be the list operation on a well-formed circular list.  The skew heap is kept on a
  pointer store and refined to trees there.

  \<^verbatim>\<open>assert\<close>, \<^verbatim>\<open>panic\<close> and the dereference of a null pointer end a run: they are \<open>None\<close>, and every
  routine that can reach one has an option result, so that a theorem saying that the result is
  \<open>Some\<close> says that no assertion fails.  Error codes are the values the C code returns
  (\<open>fail_code E_NO_MEM\<close> for \<^verbatim>\<open>-E_NO_MEM\<close>).  \<^verbatim>\<open>kmalloc\<close> for small objects answers from the list
  \<open>answers\<close> of the state, any sequence of addresses and failures; nothing is assumed of it beyond
  what a theorem says.  Loops are structural or well-founded recursion where the list or a measure
  ends them; scans that the code can run for ever (\<^verbatim>\<open>strlen\<close>, the pid search, the area walk, the
  walks over siblings, the climb from a directory to the root in \<^verbatim>\<open>sfs_namefile\<close>) are partial
  functions, and where a theorem speaks of them, that they return is part of what is proved.  Fuel
  appears twice: \<open>Linked_List.walk\<close> reads a given number of links of a circular list, and
  \<open>Slab\<close> unrolls the recursion of \<^verbatim>\<open>kmalloc\<close> through the cache of slab descriptors to the depth
  \<open>slab_depth\<close>, which is enough because that cache keeps its descriptors on its own slabs.

  Interrupts are off in the critical sections (\<^verbatim>\<open>local_intr_save\<close>), so each is one step.  A routine
  that calls \<^verbatim>\<open>schedule\<close> or sleeps in the middle is split there, the state at the switch being
  whatever the other processes made of it: \<^verbatim>\<open>down\<close>, \<^verbatim>\<open>do_wait\<close> and \<^verbatim>\<open>do_sleep\<close> have a part up to the
  switch and one from it, a file transfer has a part before and one after the file system's work.
  Concurrency is then the interleaving of these steps: the step relations of \<open>Sched_Machine\<close>,
  \<open>Semaphore\<close>, \<open>Stdin\<close> and \<open>File_Space\<close>.
\<close>

section \<open>The theories\<close>

text \<open>
  Foundations.
  \<^item> \<open>Prelude\<close>: machine types, error numbers (\<^verbatim>\<open>error.h\<close>), assertions, shared lemmas.
  \<^item> \<open>Machine_Arith\<close>: \<^verbatim>\<open>loongarch.h\<close> (\<^verbatim>\<open>__mulu10\<close>, \<^verbatim>\<open>__divu10\<close>, \<^verbatim>\<open>__divu5\<close>), the rounding macros of
    \<^verbatim>\<open>defs.h\<close>, \<^verbatim>\<open>hash.c\<close>, \<^verbatim>\<open>rand.c\<close>.  The shift-and-correct division is exact for every word.
  \<^item> \<open>Linked_List\<close>: \<^verbatim>\<open>list.h\<close> on an explicit pointer store; each routine refines its list operation.
  \<^item> \<open>String_Lib\<close>: \<^verbatim>\<open>string.c\<close> on a byte memory; copies and comparisons are exact, overlapping moves
    included.
  \<^item> \<open>Printfmt\<close>: \<^verbatim>\<open>printfmt.c\<close>; numbers are printed exactly, \<^verbatim>\<open>vsnprintf\<close> never writes past its buffer.

  Memory.
  \<^item> \<open>Block_Spec\<close>, \<open>Page_Allocator\<close>, \<open>First_Fit\<close>: the abstract free list, the interface of a page
    allocator as a locale with its clients' lemmas, and \<^verbatim>\<open>default_pmm.c\<close>, which provides it.  The
    invariant \<open>ff_inv\<close> says the list is sorted, coalesced and holds exactly the free pages.
  \<^item> \<open>Page_Table\<close>, \<open>Page_Map\<close>: \<^verbatim>\<open>get_pte\<close>, \<^verbatim>\<open>page_insert\<close>, \<^verbatim>\<open>page_remove\<close>, \<^verbatim>\<open>unmap_range\<close>, \<^verbatim>\<open>exit_range\<close>,
    \<^verbatim>\<open>copy_range\<close> of \<^verbatim>\<open>pmm.c\<close> with the conversions of \<^verbatim>\<open>pmm.h\<close> and \<^verbatim>\<open>mmu.h\<close>; \<open>space_ok\<close> ties reference
    counts to mappings.
  \<^item> \<open>Slab\<close>, \<open>Slab_Inv\<close>, \<open>Slab_Ops\<close>, \<open>Slab_Alloc\<close>, \<open>Slab_Free\<close>, \<open>Slab_Heap\<close>: \<^verbatim>\<open>kmalloc.c\<close> over the page
    allocator.  The invariant says which pages every slab owns and which of its objects are free;
    live objects never overlap, and the locale \<open>object_heap\<close> (a heap that hands out fresh blocks of
    the asked size and takes back exactly those) is interpreted on \<^verbatim>\<open>kmalloc\<close> and \<^verbatim>\<open>kfree\<close>.
  \<^item> \<open>Tlb\<close>: \<^verbatim>\<open>la32_tlb.c\<close>; a refill installs what the tables say.
  \<^item> \<open>Vmm\<close>, \<open>Vma_Space\<close>, \<open>User_Access\<close>: \<^verbatim>\<open>vmm.c\<close>; \<open>mm_ok\<close> says that the areas are sorted, disjoint,
    inside user space, and the look-up cache right.  Faults, access checks and copies between user
    and kernel memory are decided exactly by the areas.

  Processes.
  \<^item> \<open>Process\<close>: the descriptor \<^verbatim>\<open>struct proc_struct\<close>.
  \<^item> \<open>Skew_Heap\<close>: \<^verbatim>\<open>skew_heap.h\<close>, refined to a priority queue.
  \<^item> \<open>Sched_Class\<close>, \<open>Stride\<close>: \<^verbatim>\<open>default_sched.c\<close>; the locale \<open>scheduling_class\<close> is
    \<^verbatim>\<open>struct sched_class\<close>, interpreted for both classes.  Stride order is right although strides
    wrap, and service is proportional to priority.
  \<^item> \<open>Timers\<close>, \<open>Sched_Core\<close>, \<open>Sched_Machine\<close>: \<^verbatim>\<open>sched.c\<close>; the run queue is exactly the runnable
    processes in every reachable state, and timers fire exactly when due.
  \<^item> \<open>Wait_Queue\<close>, \<open>Semaphore\<close>: \<^verbatim>\<open>wait.c\<close>, \<^verbatim>\<open>sem.c\<close>; whoever calls \<^verbatim>\<open>down\<close>,
    \<^verbatim>\<open>try_down\<close> and \<^verbatim>\<open>up\<close>, no more units are taken than there were and were given, and a released unit wakes exactly
    one waiter.  The rest of the kernel is assumed to leave the wait entries of the waiters alone (\<open>others_step\<close>).
  \<^item> \<open>Proc_Table\<close>: pids, the hash table and the family pointers of \<^verbatim>\<open>proc.c\<close>; \<open>table_ok\<close> and
    \<open>family\<close> are its invariants.
  \<^item> \<open>Proc_Life\<close>, \<open>Proc_State\<close>, \<open>Proc_Fork\<close>: fork, exit, wait, kill and sleep of \<^verbatim>\<open>proc.c\<close> over one
    state of all components; \<open>proc_inv\<close> joins the invariants of scheduler, table and family tree.

  Files.
  \<^item> \<open>Iobuf\<close>, \<open>Inode\<close>, \<open>File_Table\<close>, \<open>File_Space\<close>: \<^verbatim>\<open>iobuf.c\<close>, \<^verbatim>\<open>inode.c\<close>, \<^verbatim>\<open>vfsfile.c\<close>, \<^verbatim>\<open>file.c\<close>,
    \<^verbatim>\<open>fs.c\<close>.  The operations of a file system (\<^verbatim>\<open>struct inode_ops\<close>) and the path look-up are arguments;
    \<open>file_inv\<close> counts, for each inode, the table entries that use it, and is kept by every step that
    \<open>file_step\<close> allows: openings, transfers in two halves, duplications, closings and what the rest of the kernel
    does between them.  A copy of a table is exact.  \<open>can_close\<close> says of one node in one state that closing it
    answers; nothing is assumed of the operations beyond that.
  \<^item> \<open>Bitmap\<close>, \<open>Disk\<close>: \<^verbatim>\<open>bitmap.c\<close>; \<^verbatim>\<open>ide.c\<close>, \<^verbatim>\<open>ramdisk.c\<close> and \<^verbatim>\<open>dev_disk0.c\<close>, the disk as an array of
    blocks.
  \<^item> \<open>Sfs\<close>, \<open>Sfs_Map\<close>, \<open>Sfs_File\<close>, \<open>Sfs_Load\<close>, \<open>Sfs_Rw\<close>, \<open>Sfs_Io\<close>, \<open>Sfs_Bytes\<close>, \<open>Sfs_Trunc\<close>: \<^verbatim>\<open>sfs_io.c\<close> and
    the block map of \<^verbatim>\<open>sfs_inode.c\<close>.  A file is refined to an array of bytes (\<open>contents\<close>): a write
    changes just the bytes written, a read returns them, other files are untouched, and the length
    can be set to anything the disk has room for.  The locale \<open>block_transfer\<close> is the contract of one
    step of a transfer, interpreted for reading (\<open>rd\<close>) and for writing (\<open>wr\<close>).
  \<^item> \<open>Sfs_Node\<close>, \<open>Sfs_Mount\<close>, \<open>Sfs_Remount\<close>: the operations of SFS inodes and directories behind the
    table \<^verbatim>\<open>struct inode_ops\<close>, mounting, syncing and unmounting (\<^verbatim>\<open>sfs_fs.c\<close>); what is synced is what
    a later mount finds.
  \<^item> \<open>Stdin\<close>: \<^verbatim>\<open>dev_stdin.c\<close>; a ring of 2048 characters under every interleaving of keys and readers, first-in
    first-out as long as no key is pressed while it is full.
  \<^item> \<open>Vfs\<close>, \<open>Devices\<close>: \<^verbatim>\<open>vfsdev.c\<close>, \<^verbatim>\<open>vfslookup.c\<close>, \<^verbatim>\<open>vfspath.c\<close>, \<^verbatim>\<open>vfs.c\<close> over a table of operations
    (\<open>name_ops\<close>), and the table of this kernel (\<open>sys_ops\<close>): the device nodes of \<^verbatim>\<open>dev.c\<close> and the nodes of SFS.
  \<^item> \<open>Sfs_Dir\<close>, \<open>Vfs_Paths\<close>: a look-up in a directory finds exactly its entries, and the spellings of
    a path name one node.
  \<^item> \<open>File_Nodes\<close>: closing a file through the table of this kernel: it never panics for a device or a linked SFS
    inode, and the last closing saves the inode; with it the file layer is safe in every interleaving.
  \<^item> \<open>Sysfile\<close>: \<^verbatim>\<open>sysfile.c\<close>, the calls on files with their copies from and to user memory.

  Programs.
  \<^item> \<open>Loader\<close>, \<open>Load_Segment\<close>: \<^verbatim>\<open>elf.h\<close>, \<^verbatim>\<open>load_icode\<close> and \<^verbatim>\<open>do_execve\<close>, in the variant that reads a file and the one
    that has the image in memory.  The locale \<open>program_reader\<close> is what loading relies on; it is
    interpreted on the image (the variant without \<^verbatim>\<open>LAB8_EX2\<close>); that the reader of a file meets it is not shown.  Where
    the code jumps to a label that panics, \<open>load_segment\<close> returns the error and its callers panic.
  \<^item> \<open>Console\<close>: the ring of \<^verbatim>\<open>console.c\<close>.
  \<^item> \<open>Trap\<close>, \<open>User_Fault\<close>: \<^verbatim>\<open>syscall.c\<close>, \<^verbatim>\<open>trap.c\<close> and the clock interrupt over a state of the whole machine; a fault
    of a user program refills the TLB, maps a page or kills the process.
\<close>

section \<open>What is not modelled\<close>

text \<open>
  \<^item> Condition variables (\<^verbatim>\<open>monitor.c\<close>), which only the philosophers of \<^verbatim>\<open>check_sync.c\<close> use, and
    \<^verbatim>\<open>rb_tree.c\<close>, which nothing uses.
  \<^item> The \<^verbatim>\<open>check_*\<close> self-tests that run at boot, \<^verbatim>\<open>check_sync.c\<close> and printing for debugging: they test
    or print and change nothing the rest relies on.
  \<^item> Device drivers, start-up code, the context switch, CSR and TLB instructions: accesses to hardware
    registers or assembly.  \<^verbatim>\<open>lcr3\<close> and TLB invalidation have no state here: a stale TLB entry is not
    visible in the model.
  \<^item> The semaphores of SFS and of the disk: a routine that takes one runs to its end here, so they are
    free when it returns; \<open>Semaphore\<close> is about the semaphores themselves.
  \<^item> The lock of an address space is recorded by its owner without the queue of its semaphore; the
    semaphore itself is \<open>Semaphore\<close>'s subject.
  \<^item> Counters at their limit: reference counts of pages, openings of inodes and the positions of the keyboard ring are
    unbounded, and a buffer given to \<^verbatim>\<open>vsnprintf\<close> does not run past the end of the address space.
  \<^item> What the kernel prints: the console device records the characters a program writes, messages of the
    kernel are left out.
  \<^item> The user programs and their library, whose string and format routines are copies of the kernel's;
    the boot loader, the Linux port, the host tools (\<^verbatim>\<open>mksfs.c\<close>) and the hardware designs of the repository.
\<close>

end
